(* ===== verification/Prelude.thy ===== *)
theory Prelude
  imports "HOL-Library.Word" "HOL-Library.Multiset" "HOL-Library.Monad_Syntax"
begin

unbundle bit_operations_syntax

section \<open>Shared vocabulary: machine types, circular arrays, lists and binary search\<close>

text \<open>
  The widths of the C++ integer types that wrap in the code, generic lemmas on
  lists updated by index (the arrays of the code), index arithmetic modulo the
  length of a circular table, and \<open>std::lower_bound\<close> with its characterisation.
  Signed 64-bit values on which the code guards every operation against
  overflow are \<^typ>\<open>int\<close>, with the limits below written out in the guards.
\<close>

type_synonym u16 = "16 word"
type_synonym u32 = "32 word"
type_synonym u64 = "64 word"

definition i64_max :: int where "i64_max = 9223372036854775807"
definition i64_min :: int where "i64_min = - 9223372036854775808"

definition in_i64 :: "int \<Rightarrow> bool" where
  "in_i64 x \<longleftrightarrow> i64_min \<le> x \<and> x \<le> i64_max"

named_theorems struct_defs "definitions that only name a default value or a projection"

subsection \<open>Lists as arrays\<close>

lemma mset_list_update_Cons:
  "i < length xs \<Longrightarrow> add_mset (xs ! i) (mset (xs[i := x])) = add_mset x (mset xs)"
  by (simp add: mset_update)

lemma nth_upd: "xs[i := v] ! j = (if i = j \<and> j < length xs then v else xs ! j)"
  by (cases "i < length xs") (auto simp: nth_list_update list_update_beyond)

lemma set_upd: "x \<in> set (xs[i := v]) \<Longrightarrow> x = v \<or> x \<in> set xs"
  using set_update_subset_insert [of xs i v] by auto

lemma find_upt_Some:
  "find P [0..<n] = Some i \<Longrightarrow> i < n \<and> P i"
  by (auto simp: find_Some_iff)

lemma find_upt_None: "find P [0..<n] = None \<longleftrightarrow> (\<forall>i<n. \<not> P i)"
  by (auto simp: find_None_iff)

lemma find_upt_unique:
  assumes "\<And>j. j < n \<Longrightarrow> P j \<Longrightarrow> j = i" "i < n" "P i"
  shows "find P [0..<n] = Some i"
proof (cases "find P [0..<n]")
  case None
  then show ?thesis
    using assms(2,3) by (simp add: find_upt_None)
next
  case (Some j)
  then show ?thesis
    using assms(1) [of j] find_upt_Some [OF Some] by simp
qed

lemma find_append: "find P (xs @ ys) = (case find P xs of None \<Rightarrow> find P ys | Some x \<Rightarrow> Some x)"
  by (induction xs) simp_all

lemma map_upd_same: "f x = f (xs ! i) \<Longrightarrow> map f (xs[i := x]) = map f xs"
  by (cases "i < length xs") (simp_all add: map_update list_update_same_conv list_update_beyond)

lemma mset_filter_update:
  assumes "i < length xs"
  shows "mset (filter P (xs[i := x])) + (if P (xs ! i) then {#xs ! i#} else {#})
       = mset (filter P xs) + (if P x then {#x#} else {#})"
proof -
  have "add_mset (xs ! i) (mset (xs[i := x])) = add_mset x (mset xs)"
    using assms by (rule mset_list_update_Cons)
  then have "filter_mset P (add_mset (xs ! i) (mset (xs[i := x]))) = filter_mset P (add_mset x (mset xs))"
    by simp
  then show ?thesis
    by (auto split: if_splits)
qed

lemma distinct_map_filter_nth:
  "distinct (map f (filter P xs)) \<longleftrightarrow>
     (\<forall>i<length xs. \<forall>j<length xs. P (xs ! i) \<longrightarrow> P (xs ! j) \<longrightarrow> f (xs ! i) = f (xs ! j) \<longrightarrow> i = j)"
proof (induction xs)
  case (Cons a xs)
  have "(\<forall>i<length (a # xs). \<forall>j<length (a # xs). P ((a # xs) ! i) \<longrightarrow> P ((a # xs) ! j) \<longrightarrow>
          f ((a # xs) ! i) = f ((a # xs) ! j) \<longrightarrow> i = j)
      \<longleftrightarrow> (P a \<longrightarrow> (\<forall>j<length xs. P (xs ! j) \<longrightarrow> f a \<noteq> f (xs ! j)))
        \<and> (\<forall>i<length xs. \<forall>j<length xs. P (xs ! i) \<longrightarrow> P (xs ! j) \<longrightarrow> f (xs ! i) = f (xs ! j) \<longrightarrow> i = j)"
    by (simp add: All_less_Suc2 eq_commute[of _ "f a"]) blast
  also have "(\<forall>j<length xs. P (xs ! j) \<longrightarrow> f a \<noteq> f (xs ! j)) \<longleftrightarrow> f a \<notin> f ` {x \<in> set xs. P x}"
    by (auto simp: in_set_conv_nth)
  finally show ?case
    using Cons.IH by auto
qed simp

lemma map_of_cong_mset:
  assumes "mset xs = mset ys" "distinct (map fst xs)"
  shows "map_of xs = map_of ys"
proof -
  have "distinct (map fst ys)"
    using assms by (metis mset_eq_imp_distinct_iff mset_map)
  moreover have "set xs = set ys"
    using assms(1) by (rule mset_eq_setD)
  ultimately show ?thesis
    using assms(2) by (simp add: map_of_inject_set)
qed

subsection \<open>Circular indices\<close>

lemma Suc_mod_inj:
  assumes "i < n" "j < n" "Suc i mod n = Suc j mod n"
  shows "i = j"
  using assms by (auto simp: mod_Suc split: if_splits)

lemma add_mod_inj_le:
  fixes s p q n :: nat
  assumes "p \<le> q" "q < n" "(s + p) mod n = (s + q) mod n"
  shows "p = q"
proof -
  have "n dvd (s + q) - (s + p)"
    using assms(1,3) mod_eq_dvd_iff_nat [of "s + p" "s + q" n] by simp
  then have "n dvd q - p"
    by simp
  moreover have "q - p < n"
    using assms(2) by simp
  ultimately show ?thesis
    using assms(1) by (auto dest: nat_dvd_not_less)
qed

lemma add_mod_inj:
  fixes s p q n :: nat
  assumes "p < n" "q < n" "(s + p) mod n = (s + q) mod n"
  shows "p = q"
  using assms add_mod_inj_le [of p q n s] add_mod_inj_le [of q p n s]
  by (cases "p \<le> q") auto

lemma Suc_add_mod: "Suc ((s + p) mod n) mod n = (s + Suc p) mod (n::nat)"
  by (metis add_Suc_right mod_Suc_eq)

subsection \<open>\<open>std::lower_bound\<close>\<close>

text \<open>
  The halving search of the standard library over the first \<open>cnt\<close> entries
  after \<open>first\<close>; \<open>prec\<close> is the comparison with the searched value.
\<close>

function lower_bound_from :: "('a \<Rightarrow> bool) \<Rightarrow> 'a list \<Rightarrow> nat \<Rightarrow> nat \<Rightarrow> nat" where
  "lower_bound_from prec xs first cnt =
     (if cnt = 0 then first
      else
        let step = cnt div 2; it = first + step in
        if prec (xs ! it) then lower_bound_from prec xs (Suc it) (cnt - Suc step)
        else lower_bound_from prec xs first step)"
  by pat_completeness auto
termination
  by (relation "measure (\<lambda>(prec, xs, first, cnt). cnt)") auto

definition lower_bound :: "('a \<Rightarrow> bool) \<Rightarrow> 'a list \<Rightarrow> nat" where
  "lower_bound prec xs = lower_bound_from prec xs 0 (length xs)"

declare lower_bound_from.simps [simp del]

text \<open>The range is partitioned: a prefix satisfies \<open>prec\<close>, the rest does not.\<close>

definition partitioned :: "('a \<Rightarrow> bool) \<Rightarrow> 'a list \<Rightarrow> bool" where
  "partitioned prec xs \<longleftrightarrow> (\<forall>i j. i < j \<longrightarrow> j < length xs \<longrightarrow> prec (xs ! j) \<longrightarrow> prec (xs ! i))"

definition window :: "('a \<Rightarrow> bool) \<Rightarrow> 'a list \<Rightarrow> nat \<Rightarrow> nat \<Rightarrow> bool" where
  "window prec xs lo hi \<longleftrightarrow> lo \<le> hi \<and> hi \<le> length xs \<and> (\<forall>i<lo. prec (xs ! i))
     \<and> (\<forall>i\<in>{hi..<length xs}. \<not> prec (xs ! i))"

lemma window_before:
  assumes "partitioned prec xs" "window prec xs lo hi" "lo \<le> m" "m < hi" "prec (xs ! m)"
  shows "window prec xs (Suc m) hi"
  using assms unfolding window_def partitioned_def
  by (metis Suc_leI less_SucE order_less_le_trans)

lemma window_not_before:
  assumes "partitioned prec xs" "window prec xs lo hi" "lo \<le> m" "m < hi" "\<not> prec (xs ! m)"
  shows "window prec xs lo m"
  using assms unfolding window_def partitioned_def
  by (metis atLeastLessThan_iff le_neq_implies_less order_less_imp_le order.trans)

lemma lower_bound_from_point:
  assumes "partitioned prec xs" "window prec xs first (first + cnt)"
  shows "window prec xs (lower_bound_from prec xs first cnt) (lower_bound_from prec xs first cnt)"
  using assms
proof (induction prec xs first cnt rule: lower_bound_from.induct)
  case (1 prec xs first cnt)
  let ?it = "first + cnt div 2"
  show ?case
  proof (cases "cnt = 0")
    case True
    with "1.prems" show ?thesis by (simp add: lower_bound_from.simps)
  next
    case False
    then have it: "first \<le> ?it" "?it < first + cnt" by auto
    show ?thesis
    proof (cases "prec (xs ! ?it)")
      case True
      have "Suc ?it + (cnt - Suc (cnt div 2)) = first + cnt"
        using False by linarith
      then show ?thesis
        using "1.IH"(1) [OF False refl refl True "1.prems"(1)] window_before [OF "1.prems" it True] False True
        by (simp add: lower_bound_from.simps [of prec xs first cnt] Let_def)
    next
      case not_before: False
      then show ?thesis
        using "1.IH"(2) [OF False refl refl not_before "1.prems"(1)]
          window_not_before [OF "1.prems" it not_before] False
        by (simp add: lower_bound_from.simps [of prec xs first cnt] Let_def)
    qed
  qed
qed

lemma lower_bound_point:
  assumes "partitioned prec xs"
  shows "lower_bound prec xs \<le> length xs"
    and "i < lower_bound prec xs \<Longrightarrow> prec (xs ! i)"
    and "lower_bound prec xs \<le> i \<Longrightarrow> i < length xs \<Longrightarrow> \<not> prec (xs ! i)"
proof -
  have "window prec xs (lower_bound prec xs) (lower_bound prec xs)"
    unfolding lower_bound_def
    using assms by (rule lower_bound_from_point) (simp add: window_def)
  then show "lower_bound prec xs \<le> length xs"
    and "i < lower_bound prec xs \<Longrightarrow> prec (xs ! i)"
    and "lower_bound prec xs \<le> i \<Longrightarrow> i < length xs \<Longrightarrow> \<not> prec (xs ! i)"
    by (simp_all add: window_def)
qed

lemma lower_bound_takeWhile:
  assumes "partitioned prec xs"
  shows "lower_bound prec xs = length (takeWhile prec xs)"
proof -
  have "takeWhile prec xs = take (lower_bound prec xs) xs"
    using lower_bound_point [OF assms] by (intro takeWhile_eq_take_P_nth) auto
  then show ?thesis
    using lower_bound_point(1) [OF assms] by simp
qed

end
