(* ===== verification/SimTypes.thy ===== *)
theory SimTypes
  imports Prelude
begin

section \<open>Value types of the simulator\<close>

text \<open>
  The enums and plain structs of \<open>include/lob/order.hpp\<close>,
  \<open>include/lob/sim/types.hpp\<close>, \<open>include/lob/sim/order_request.hpp\<close>,
  \<open>include/lob/sim/market_agent.hpp\<close> and the head of
  \<open>include/lob/sim/matching_book.hpp\<close>. Unsigned quantities, ids and times keep
  their width; prices and balances, which the code only compares or guards
  against overflow, are \<^typ>\<open>int\<close>. A \<open>std::array\<close> with a fill count beside
  it is the list of its filled entries.
\<close>

datatype side = Buy | Sell

datatype time_in_force = GTC | IOC | FOK

datatype event_kind =
    AgentWakeup | OrderArrivesAtMarket | CancelArrivesAtMarket | MarketDataArrives | Settlement

datatype event_phase = PreMarket | AgentPhase | MarketPhase | PostMarket

fun phase_rank :: "event_phase \<Rightarrow> nat" where
  "phase_rank PreMarket = 0"
| "phase_rank AgentPhase = 1"
| "phase_rank MarketPhase = 2"
| "phase_rank PostMarket = 3"

type_synonym agent_id = u32
type_synonym market_id = u32
type_synonym order_id = u64
type_synonym time_ns = u64
type_synonym asset_id = u16

definition invalid_agent_id :: agent_id where "invalid_agent_id = - 1"
definition invalid_market_id :: market_id where "invalid_market_id = - 1"
definition invalid_order_id :: order_id where "invalid_order_id = - 1"

record market_key =
  venue_id :: u16
  product_id :: u32

record depth_level =
  dl_price_ticks :: int
  dl_quantity_lots :: u64

record depth_snapshot =
  ds_exchange_timestamp_ns :: time_ns
  ds_receive_timestamp_ns :: time_ns
  ds_market_id :: market_id
  ds_bids :: "depth_level list"
  ds_asks :: "depth_level list"

definition empty_depth_snapshot :: depth_snapshot where
  "empty_depth_snapshot = \<lparr>ds_exchange_timestamp_ns = 0, ds_receive_timestamp_ns = 0,
     ds_market_id = invalid_market_id, ds_bids = [], ds_asks = []\<rparr>"

record scheduled_event =
  se_timestamp_ns :: time_ns
  se_phase :: event_phase
  se_kind :: event_kind
  se_market_id :: market_id
  se_agent_id :: agent_id
  se_order_id :: order_id
  se_side :: side
  se_price_ticks :: int
  se_quantity_lots :: u64
  se_time_in_force :: time_in_force
  se_client_timestamp_ns :: time_ns
  se_depth_snapshot :: depth_snapshot
  se_sequence_number :: u64

definition default_event :: scheduled_event where
  "default_event = \<lparr>se_timestamp_ns = 0, se_phase = AgentPhase, se_kind = AgentWakeup,
     se_market_id = invalid_market_id, se_agent_id = invalid_agent_id,
     se_order_id = invalid_order_id, se_side = Buy, se_price_ticks = 0, se_quantity_lots = 0,
     se_time_in_force = GTC, se_client_timestamp_ns = 0,
     se_depth_snapshot = empty_depth_snapshot, se_sequence_number = 0\<rparr>"

subsection \<open>Gateway requests and results\<close>

record order_request =
  rq_agent_id :: agent_id
  rq_market_id :: market_id
  rq_side :: side
  rq_price_ticks :: int
  rq_quantity_lots :: u64
  rq_time_in_force :: time_in_force
  rq_client_timestamp_ns :: time_ns

record cancel_request =
  cq_agent_id :: agent_id
  cq_market_id :: market_id
  cq_order_id :: order_id
  cq_client_timestamp_ns :: time_ns

datatype gateway_status =
    Accepted | UnknownMarket | SchedulerFull | InsufficientBalance | UnknownAccount
  | ReservationCapacityFull | InvalidRequest | UnknownOrder | Unauthorized | Halted

record gateway_result =
  gr_accepted :: bool
  gr_status :: gateway_status
  gr_order_id :: order_id
  gr_market_id :: market_id
  gr_arrival_timestamp_ns :: time_ns

subsection \<open>Orders, executions and results of the matching book\<close>

datatype order_status =
    Rejected | RejectedExecutionReportCapacity | Resting | PartiallyFilled
  | PartiallyFilledExecutionReportCapacity | PartiallyFilledResidualRejected | Filled | Canceled

datatype liquidity_role = Taker | Maker

record sim_order =
  so_order_id :: order_id
  so_agent_id :: agent_id
  so_side :: side
  so_price_ticks :: int
  so_quantity_lots :: u64
  so_timestamp_ns :: time_ns
  so_time_in_force :: time_in_force

definition default_order :: sim_order where
  "default_order = \<lparr>so_order_id = 0, so_agent_id = invalid_agent_id, so_side = Buy,
     so_price_ticks = 0, so_quantity_lots = 0, so_timestamp_ns = 0, so_time_in_force = GTC\<rparr>"

record trade_execution =
  te_order_id :: order_id
  te_counterparty_order_id :: order_id
  te_agent_id :: agent_id
  te_counterparty_agent_id :: agent_id
  te_side :: side
  te_liquidity_role :: liquidity_role
  te_price_ticks :: int
  te_quantity_lots :: u64
  te_timestamp_ns :: time_ns

record match_result =
  mr_accepted :: bool
  mr_rested :: bool
  mr_residual_rejected :: bool
  mr_execution_report_overflow :: bool
  mr_status :: order_status
  mr_order_id :: order_id
  mr_filled_quantity_lots :: u64
  mr_remaining_quantity_lots :: u64
  mr_rejected_quantity_lots :: u64
  mr_executions :: "trade_execution list"

definition default_match_result :: match_result where
  "default_match_result = \<lparr>mr_accepted = False, mr_rested = False, mr_residual_rejected = False,
     mr_execution_report_overflow = False, mr_status = Rejected, mr_order_id = 0,
     mr_filled_quantity_lots = 0, mr_remaining_quantity_lots = 0, mr_rejected_quantity_lots = 0,
     mr_executions = []\<rparr>"

record cancel_result =
  cr_canceled :: bool
  cr_order_id :: order_id
  cr_agent_id :: agent_id
  cr_side :: side
  cr_price_ticks :: int
  cr_canceled_quantity_lots :: u64
  cr_status :: order_status

definition default_cancel_result :: cancel_result where
  "default_cancel_result = \<lparr>cr_canceled = False, cr_order_id = 0, cr_agent_id = invalid_agent_id,
     cr_side = Buy, cr_price_ticks = 0, cr_canceled_quantity_lots = 0, cr_status = Rejected\<rparr>"

subsection \<open>Events the agents receive\<close>

record agent_fill_event =
  af_timestamp_ns :: time_ns
  af_market_id :: market_id
  af_order_id :: order_id
  af_side :: side
  af_liquidity_role :: liquidity_role
  af_price_ticks :: int
  af_quantity_lots :: u64
  af_fee_lots :: int

record agent_cancel_event =
  ac_timestamp_ns :: time_ns
  ac_market_id :: market_id
  ac_order_id :: order_id
  ac_canceled :: bool
  ac_canceled_quantity_lots :: u64

end
