(* ===== verification/RobinHood.thy ===== *)
theory RobinHood
  imports Prelude
begin

section \<open>The flat Robin Hood hash index of the matching book\<close>

text \<open>
  \<open>include/lob/sim/matching_book.hpp\<close> contains the same open-addressing table
  twice: the order index (\<open>index_\<close>: order id to slot) and the level index
  (\<open>level_index_\<close>: side and price to level). The two differ in the key type, the
  hash and the default entry only, so the table is modelled once, polymorphic
  in the key and the value, and \<open>MatchingBook\<close> instantiates it.

  The capacity of the table is the length of the array. Lookup stops at the
  first free or richer entry, insertion swaps with richer entries, removal
  shifts the following entries back until one is at its home position.
\<close>

record ('k, 'v) rh_entry =
  entry_key :: 'k
  entry_val :: 'v
  entry_psl :: nat
  entry_occupied :: bool

subsection \<open>Operations\<close>

text \<open>Lookup: the index of the matching entry, probing from \<open>start\<close>.\<close>

function rh_find_from :: "('k, 'v) rh_entry list \<Rightarrow> nat \<Rightarrow> 'k \<Rightarrow> nat \<Rightarrow> nat option" where
  "rh_find_from t start k probe =
     (if probe < length t then
        let index = (start + probe) mod length t; entry = t ! index in
        if \<not> entry_occupied entry \<or> entry_psl entry < probe then None
        else if entry_key entry = k then Some index
        else rh_find_from t start k (Suc probe)
      else None)"
  by pat_completeness auto
termination
  by (relation "measure (\<lambda>(t, start, k, probe). length t - probe)") auto

definition rh_find :: "('k \<Rightarrow> nat) \<Rightarrow> ('k, 'v) rh_entry list \<Rightarrow> 'k \<Rightarrow> 'v option" where
  "rh_find h t k = map_option (\<lambda>i. entry_val (t ! i)) (rh_find_from t (h k) k 0)"

text \<open>Insertion: \<open>incoming\<close> is written to a free entry or swapped with a richer one.\<close>

function rh_insert_from ::
  "('k, 'v) rh_entry list \<Rightarrow> ('k, 'v) rh_entry \<Rightarrow> nat \<Rightarrow> nat \<Rightarrow> ('k, 'v) rh_entry list \<times> bool" where
  "rh_insert_from t incoming index visited =
     (if visited < length t then
        let entry = t ! index in
        if \<not> entry_occupied entry then (t[index := incoming], True)
        else if entry_key entry = entry_key incoming then (t, False)
        else
          let (t', incoming') =
                (if entry_psl entry < entry_psl incoming then (t[index := incoming], entry)
                 else (t, incoming))
          in rh_insert_from t' (incoming'\<lparr>entry_psl := Suc (entry_psl incoming')\<rparr>)
               (Suc index mod length t) (Suc visited)
      else (t, False))"
  by pat_completeness auto
termination
  by (relation "measure (\<lambda>(t, inc, index, visited). length t - visited)")
    (auto split: if_splits)

definition rh_insert ::
  "('k \<Rightarrow> nat) \<Rightarrow> ('k, 'v) rh_entry list \<Rightarrow> 'k \<Rightarrow> 'v \<Rightarrow> ('k, 'v) rh_entry list \<times> bool" where
  "rh_insert h t k v =
     rh_insert_from t \<lparr>entry_key = k, entry_val = v, entry_psl = 0, entry_occupied = True\<rparr> (h k) 0"

text \<open>
  The backward shift. The loop of the code has no bound of its own; it stops
  because every step takes one away from the probe lengths outside the hole,
  so the recursion is total for every table, well formed or not.
\<close>

definition psl_outside :: "('k, 'v) rh_entry list \<Rightarrow> nat \<Rightarrow> nat" where
  "psl_outside t hole =
     (if length t = 1 then entry_psl (t ! 0) + min hole 1
      else (\<Sum>i\<in>{..<length t} - {hole}. entry_psl (t ! i)))"

lemma psl_outside_decreases:
  assumes "t \<noteq> []" and pos: "0 < entry_psl (t ! (Suc hole mod length t))"
  shows "psl_outside
           (t[hole := (t ! (Suc hole mod length t))
                \<lparr>entry_psl := entry_psl (t ! (Suc hole mod length t)) - 1\<rparr>]) (Suc hole mod length t)
         < psl_outside t hole"
proof -
  let ?n = "length t" and ?next = "Suc hole mod length t"
  let ?e = "(t ! ?next)\<lparr>entry_psl := entry_psl (t ! ?next) - 1\<rparr>"
  let ?t = "t[hole := ?e]"
  have next_lt: "?next < ?n"
    using assms(1) by simp
  show ?thesis
  proof (cases "?n = 1")
    case True
    then show ?thesis
      using pos by (cases "hole = 0") (auto simp: psl_outside_def min_def)
  next
    case False
    then have n2: "1 < ?n"
      using assms(1) by (cases t) auto
    have neq: "?next \<noteq> hole"
      using n2 next_lt by (cases "hole < ?n") (auto simp: mod_Suc)
    have rest: "(\<Sum>i\<in>{..<?n} - {?next} - {hole}. entry_psl (?t ! i))
              = (\<Sum>i\<in>{..<?n} - {hole} - {?next}. entry_psl (t ! i))"
      by (rule sum.cong) auto
    have old: "(\<Sum>i\<in>{..<?n} - {hole}. entry_psl (t ! i))
             = entry_psl (t ! ?next) + (\<Sum>i\<in>{..<?n} - {hole} - {?next}. entry_psl (t ! i))"
      by (rule sum.remove) (use next_lt neq in auto)
    show ?thesis
    proof (cases "hole < ?n")
      case True
      then have "(\<Sum>i\<in>{..<?n} - {?next}. entry_psl (?t ! i))
             = entry_psl (?t ! hole) + (\<Sum>i\<in>{..<?n} - {?next} - {hole}. entry_psl (?t ! i))"
        using neq by (intro sum.remove) auto
      then show ?thesis
        using True False rest old pos by (simp add: psl_outside_def)
    next
      case hole: False
      then have "{..<?n} - {?next} - {hole} = {..<?n} - {?next}"
        by auto
      then show ?thesis
        using hole False rest old pos by (simp add: psl_outside_def)
    qed
  qed
qed

function rh_backward_shift ::
  "('k, 'v) rh_entry \<Rightarrow> ('k, 'v) rh_entry list \<Rightarrow> nat \<Rightarrow> ('k, 'v) rh_entry list" where
  "rh_backward_shift e0 t hole =
     (let next = Suc hole mod length t in
      if t \<noteq> [] \<and> entry_occupied (t ! next) \<and> 0 < entry_psl (t ! next) then
        rh_backward_shift e0
          (t[hole := (t ! next)\<lparr>entry_psl := entry_psl (t ! next) - 1\<rparr>]) next
      else t[hole := e0])"
  by pat_completeness auto
termination
  by (relation "measure (\<lambda>(e0, t, hole). psl_outside t hole)") (auto simp del: One_nat_def intro: psl_outside_decreases)

definition rh_remove ::
  "('k \<Rightarrow> nat) \<Rightarrow> ('k, 'v) rh_entry \<Rightarrow> ('k, 'v) rh_entry list \<Rightarrow> 'k \<Rightarrow> ('k, 'v) rh_entry list \<times> bool" where
  "rh_remove h e0 t k =
     (case rh_find_from t (h k) k 0 of
        None \<Rightarrow> (t, False)
      | Some index \<Rightarrow> (rh_backward_shift e0 t index, True))"

declare rh_find_from.simps [simp del] rh_insert_from.simps [simp del] rh_backward_shift.simps [simp del]

subsection \<open>Contents and well-formedness\<close>

definition rh_alist :: "('k, 'v) rh_entry list \<Rightarrow> ('k \<times> 'v) list" where
  "rh_alist t = map (\<lambda>e. (entry_key e, entry_val e)) (filter entry_occupied t)"

definition rh_map :: "('k, 'v) rh_entry list \<Rightarrow> 'k \<rightharpoonup> 'v" where
  "rh_map t = map_of (rh_alist t)"

text \<open>An entry stands \<open>psl\<close> places after its home; only the hole is exempt.\<close>

definition at_home :: "('k \<Rightarrow> nat) \<Rightarrow> ('k, 'v) rh_entry list \<Rightarrow> nat \<Rightarrow> bool" where
  "at_home h t i \<longleftrightarrow>
     (entry_occupied (t ! i) \<longrightarrow> entry_psl (t ! i) < length t
        \<and> i = (h (entry_key (t ! i)) + entry_psl (t ! i)) mod length t)"

text \<open>No entry is more than one place poorer than the entry before it.\<close>

definition rich_before :: "('k, 'v) rh_entry list \<Rightarrow> nat \<Rightarrow> bool" where
  "rich_before t i \<longleftrightarrow>
     (let e = t ! (Suc i mod length t) in
      entry_occupied e \<and> 0 < entry_psl e \<longrightarrow>
        entry_occupied (t ! i) \<and> entry_psl e \<le> Suc (entry_psl (t ! i)))"

definition rh_wf :: "('k \<Rightarrow> nat) \<Rightarrow> ('k, 'v) rh_entry list \<Rightarrow> bool" where
  "rh_wf h t \<longleftrightarrow>
     (\<forall>i<length t. at_home h t i \<and> rich_before t i) \<and> distinct (map fst (rh_alist t))"

lemma distinct_keys_nth:
  "distinct (map fst (rh_alist t)) \<longleftrightarrow>
     (\<forall>i<length t. \<forall>j<length t. entry_occupied (t ! i) \<longrightarrow> entry_occupied (t ! j) \<longrightarrow>
        entry_key (t ! i) = entry_key (t ! j) \<longrightarrow> i = j)"
  by (simp add: rh_alist_def o_def distinct_map_filter_nth)

lemma rh_map_cong:
  "mset (rh_alist t) = mset (rh_alist t') \<Longrightarrow> distinct (map fst (rh_alist t)) \<Longrightarrow> rh_map t = rh_map t'"
  unfolding rh_map_def by (rule map_of_cong_mset)

lemma rh_alist_update:
  assumes "i < length t"
  shows "mset (rh_alist (t[i := e]))
         + (if entry_occupied (t ! i) then {#(entry_key (t ! i), entry_val (t ! i))#} else {#})
       = mset (rh_alist t) + (if entry_occupied e then {#(entry_key e, entry_val e)#} else {#})"
proof -
  let ?kv = "\<lambda>e. (entry_key e, entry_val e)"
  have "image_mset ?kv (mset (filter entry_occupied (t[i := e]))
          + (if entry_occupied (t ! i) then {#t ! i#} else {#}))
      = image_mset ?kv (mset (filter entry_occupied t) + (if entry_occupied e then {#e#} else {#}))"
    using assms by (simp only: mset_filter_update)
  then show ?thesis
    by (simp add: rh_alist_def split: if_splits)
qed

end
