(* ===== verification/RobinHoodIndex.thy ===== *)
theory RobinHoodIndex
  imports RobinHood
begin

section \<open>Correctness of the Robin Hood index\<close>

text \<open>
  The interface of a bounded map and the proof, inside the locale
  \<open>robin_hood\<close>, that the table implements it for any hash function that
  stays below the capacity. \<open>MatchingBook\<close> interprets the locale on the two
  hash functions of the code.
\<close>

locale bounded_map =
  fixes lookup :: "'t \<Rightarrow> 'k \<Rightarrow> 'v option"
    and insert :: "'t \<Rightarrow> 'k \<Rightarrow> 'v \<Rightarrow> 't \<times> bool"
    and remove :: "'t \<Rightarrow> 'k \<Rightarrow> 't \<times> bool"
    and wf :: "'t \<Rightarrow> bool"
    and free :: "'t \<Rightarrow> nat"
  assumes insert_new: "wf t \<Longrightarrow> lookup t k = None \<Longrightarrow> 0 < free t \<Longrightarrow>
      \<exists>t'. insert t k v = (t', True) \<and> wf t' \<and> lookup t' = (lookup t)(k \<mapsto> v) \<and> free t = Suc (free t')"
    and insert_old: "wf t \<Longrightarrow> lookup t k = Some w \<Longrightarrow> insert t k v = (t, False)"
    and remove_old: "wf t \<Longrightarrow> lookup t k = Some v \<Longrightarrow>
      \<exists>t'. remove t k = (t', True) \<and> wf t' \<and> lookup t' = (lookup t)(k := None) \<and> free t' = Suc (free t)"
    and remove_absent: "wf t \<Longrightarrow> lookup t k = None \<Longrightarrow> remove t k = (t, False)"
begin

lemma insert_remove_roundtrip:
  assumes "wf t" "lookup t k = None" "0 < free t"
  shows "\<exists>t''. remove (fst (insert t k v)) k = (t'', True) \<and> lookup t'' = lookup t \<and> free t'' = free t"
proof -
  obtain t' where t': "insert t k v = (t', True)" "wf t'" "lookup t' = (lookup t)(k \<mapsto> v)"
      "free t = Suc (free t')"
    using insert_new [OF assms] by blast
  moreover from t' obtain t'' where "remove t' k = (t'', True)" "lookup t'' = (lookup t')(k := None)"
      "free t'' = Suc (free t')"
    using remove_old [of t' k v] by auto
  ultimately show ?thesis
    using assms(2) by auto
qed

end

locale robin_hood =
  fixes h :: "'k \<Rightarrow> nat" and n :: nat and e0 :: "('k, 'v) rh_entry"
  assumes hash_less: "0 < n \<Longrightarrow> h k < n"
    and e0_free: "\<not> entry_occupied e0"
begin

definition rh_invar :: "('k, 'v) rh_entry list \<Rightarrow> bool" where
  "rh_invar t \<longleftrightarrow> length t = n \<and> rh_wf h t"

lemma invarD:
  assumes "rh_invar t"
  shows "length t = n" "\<And>i. i < n \<Longrightarrow> at_home h t i" "\<And>i. i < n \<Longrightarrow> rich_before t i"
    "distinct (map fst (rh_alist t))"
  using assms by (auto simp: rh_invar_def rh_wf_def)

lemma key_inj:
  assumes "rh_invar t" "i < n" "j < n" "entry_occupied (t ! i)" "entry_occupied (t ! j)"
    "entry_key (t ! i) = entry_key (t ! j)"
  shows "i = j"
proof -
  have "\<forall>i<n. \<forall>j<n. entry_occupied (t ! i) \<longrightarrow> entry_occupied (t ! j) \<longrightarrow>
      entry_key (t ! i) = entry_key (t ! j) \<longrightarrow> i = j"
    using invarD(4) [OF assms(1)] unfolding distinct_keys_nth invarD(1) [OF assms(1)] .
  then show ?thesis
    using assms(2-) by blast
qed

subsection \<open>Lookup\<close>

lemma probe_chain:
  assumes inv: "rh_invar t" and occ: "entry_occupied (t ! ((s + q) mod n))"
    and psl: "q \<le> entry_psl (t ! ((s + q) mod n))" and "p \<le> q" "0 < n"
  shows "entry_occupied (t ! ((s + p) mod n)) \<and> p \<le> entry_psl (t ! ((s + p) mod n))"
  using \<open>p \<le> q\<close>
proof (induction p rule: inc_induct)
  case base
  then show ?case using occ psl by simp
next
  case (step m)
  have "rich_before t ((s + m) mod n)"
    using inv \<open>0 < n\<close> by (intro invarD) simp_all
  then show ?case
    using step.IH invarD(1) [OF inv] by (auto simp: rich_before_def Suc_add_mod)
qed

lemma find_from_hit:
  assumes inv: "rh_invar t" and occ: "entry_occupied (t ! ((s + q) mod n))"
    and psl: "entry_psl (t ! ((s + q) mod n)) = q" and q: "q < n"
    and key: "entry_key (t ! ((s + q) mod n)) = k" and "p \<le> q"
  shows "rh_find_from t s k p = Some ((s + q) mod n)"
  using \<open>p \<le> q\<close>
proof (induction p rule: inc_induct)
  case base
  then show ?case
    using occ psl q key invarD(1) [OF inv] by (subst rh_find_from.simps) (simp add: Let_def)
next
  case (step m)
  have ch: "entry_occupied (t ! ((s + m) mod n))" "m \<le> entry_psl (t ! ((s + m) mod n))"
    using probe_chain [OF inv occ, of m] psl q step.hyps by auto
  have lt: "(s + m) mod n < n" "(s + q) mod n < n"
    using q by simp_all
  have "(s + m) mod n \<noteq> (s + q) mod n"
    using add_mod_inj [of m n q s] step.hyps q by auto
  then have "entry_key (t ! ((s + m) mod n)) \<noteq> k"
    using key_inj [OF inv lt] ch(1) occ key by auto
  then show ?case
    using ch step q invarD(1) [OF inv] by (subst rh_find_from.simps) (simp add: Let_def)
qed

lemma find_from_miss:
  "(\<And>i. i < length t \<Longrightarrow> entry_occupied (t ! i) \<Longrightarrow> entry_key (t ! i) \<noteq> k) \<Longrightarrow>
   rh_find_from t s k p = None"
proof (induction t s k p rule: rh_find_from.induct)
  case (1 t s k p)
  show ?case
  proof (cases "p < length t")
    case True
    then have "t \<noteq> []" by auto
    then show ?thesis
      using True 1 by (subst rh_find_from.simps) (auto simp: Let_def)
  next
    case False
    then show ?thesis by (subst rh_find_from.simps) simp
  qed
qed

lemma find_from_occ:
  assumes inv: "rh_invar t" and i: "i < n" "entry_occupied (t ! i)"
  shows "rh_find_from t (h (entry_key (t ! i))) (entry_key (t ! i)) 0 = Some i"
proof -
  let ?s = "h (entry_key (t ! i))" and ?q = "entry_psl (t ! i)"
  have "?q < n" and i': "(?s + ?q) mod n = i"
    using invarD(2) [OF inv i(1)] i invarD(1) [OF inv] by (simp_all add: at_home_def)
  then show ?thesis
    using find_from_hit [OF inv, of ?s ?q "entry_key (t ! i)" 0] i by simp
qed

lemma rh_map_nth:
  assumes inv: "rh_invar t"
  shows "rh_map t k = Some v \<longleftrightarrow>
    (\<exists>i<n. entry_occupied (t ! i) \<and> entry_key (t ! i) = k \<and> entry_val (t ! i) = v)"
  unfolding rh_map_def map_of_eq_Some_iff [OF invarD(4) [OF inv]]
  using invarD(1) [OF inv] by (auto simp: rh_alist_def in_set_conv_nth image_iff)

lemma find_from_Some:
  assumes inv: "rh_invar t" and "rh_map t k = Some v"
  obtains i where "i < n" "entry_occupied (t ! i)" "entry_key (t ! i) = k" "entry_val (t ! i) = v"
    "rh_find_from t (h k) k 0 = Some i"
  using assms find_from_occ [OF inv] by (auto simp: rh_map_nth)

lemma find_from_None:
  assumes inv: "rh_invar t" and "rh_map t k = None"
  shows "rh_find_from t (h k) k 0 = None"
  using assms(2) rh_map_nth [OF inv, of k] invarD(1) [OF inv] by (intro find_from_miss) auto

lemma find_correct: "rh_invar t \<Longrightarrow> rh_find h t k = rh_map t k"
  by (cases "rh_map t k") (auto simp: rh_find_def find_from_None elim: find_from_Some)

subsection \<open>Insertion\<close>

definition carried :: "('k, 'v) rh_entry list \<Rightarrow> ('k, 'v) rh_entry \<Rightarrow> nat \<Rightarrow> nat \<Rightarrow> bool" where
  "carried t inc index visited \<longleftrightarrow>
     rh_invar t \<and> index < n \<and> entry_occupied inc \<and> index = (h (entry_key inc) + entry_psl inc) mod n
     \<and> entry_psl inc \<le> visited \<and> entry_key inc \<notin> fst ` set (rh_alist t)
     \<and> (\<forall>i<n. Suc i mod n = index \<and> 0 < entry_psl inc \<longrightarrow>
          entry_occupied (t ! i) \<and> entry_psl inc \<le> Suc (entry_psl (t ! i)))
     \<and> (\<exists>d. visited + d < n \<and> \<not> entry_occupied (t ! ((index + d) mod n)))"

lemma key_notin_alist:
  "entry_key inc \<notin> fst ` set (rh_alist t) \<longleftrightarrow>
     (\<forall>i<length t. entry_occupied (t ! i) \<longrightarrow> entry_key (t ! i) \<noteq> entry_key inc)"
  by (auto simp: rh_alist_def in_set_conv_nth image_iff)

lemma invar_write:
  assumes inv: "rh_invar t" and idx: "index < n" "index = (h (entry_key inc) + entry_psl inc) mod n"
    and occ: "entry_occupied inc" and psl: "entry_psl inc < n"
    and key: "entry_key inc \<notin> fst ` set (rh_alist t)"
    and before: "\<forall>i<n. Suc i mod n = index \<and> 0 < entry_psl inc \<longrightarrow>
          entry_occupied (t ! i) \<and> entry_psl inc \<le> Suc (entry_psl (t ! i))"
    and over: "entry_occupied (t ! index) \<longrightarrow> entry_psl (t ! index) < entry_psl inc"
  shows "rh_invar (t[index := inc])"
proof -
  note len = invarD(1) [OF inv]
  let ?t = "t[index := inc]"
  have home: "at_home h ?t i" if "i < n" for i
    using that invarD(2) [OF inv that] idx psl len by (cases "i = index") (auto simp: at_home_def)
  have rich: "rich_before ?t i" if i: "i < n" for i
  proof -
    have r: "rich_before t i" by (rule invarD(3) [OF inv i])
    show ?thesis
    proof (cases "Suc i mod n = index")
      case True
      show ?thesis
      proof (cases "i = index")
        case same: True
        have "n = 1"
          using same True idx(1) by (auto simp: mod_Suc split: if_splits)
        then show ?thesis
          using psl same len idx(1) by (simp add: rich_before_def Let_def)
      next
        case False
        then show ?thesis
          using True before i len idx by (auto simp: rich_before_def Let_def)
      qed
    next
      case False
      then show ?thesis
        using r over len i idx occ by (cases "i = index") (auto simp: rich_before_def Let_def)
    qed
  qed
  have "distinct (map fst (rh_alist ?t))"
    using key_inj [OF inv] key len idx(1) unfolding distinct_keys_nth key_notin_alist
    by (auto simp: nth_list_update)
  then show ?thesis
    using home rich len by (simp add: rh_invar_def rh_wf_def)
qed

lemma insert_from_correct:
  assumes "carried t inc index visited"
  shows "\<exists>t'. rh_insert_from t inc index visited = (t', True) \<and> rh_invar t'
           \<and> mset (rh_alist t') = add_mset (entry_key inc, entry_val inc) (mset (rh_alist t))"
  using assms
proof (induction t inc index visited rule: rh_insert_from.induct)
  case (1 t inc index visited)
  have inv: "rh_invar t" and idx: "index < n" "index = (h (entry_key inc) + entry_psl inc) mod n"
    and occ: "entry_occupied inc" and psl: "entry_psl inc \<le> visited"
    and key: "entry_key inc \<notin> fst ` set (rh_alist t)"
    and before: "\<forall>i<n. Suc i mod n = index \<and> 0 < entry_psl inc \<longrightarrow>
          entry_occupied (t ! i) \<and> entry_psl inc \<le> Suc (entry_psl (t ! i))"
    using "1.prems" by (auto simp: carried_def)
  obtain d where d: "visited + d < n" "\<not> entry_occupied (t ! ((index + d) mod n))"
    using "1.prems" by (auto simp: carried_def)
  note len = invarD(1) [OF inv]
  let ?e = "t ! index"
  show ?case
  proof (cases "entry_occupied ?e")
    case False
    have "rh_invar (t[index := inc])"
      using invar_write [OF inv idx occ _ key before] psl d False by auto
    moreover have "mset (rh_alist (t[index := inc]))
        = add_mset (entry_key inc, entry_val inc) (mset (rh_alist t))"
      using rh_alist_update [of index t inc] False occ idx len by simp
    ultimately show ?thesis
      using False d len by (subst rh_insert_from.simps) (simp add: Let_def)
  next
    case True
    let ?swap = "entry_psl ?e < entry_psl inc"
    let ?t = "if ?swap then t[index := inc] else t"
    let ?i = "if ?swap then ?e else inc"
    let ?i' = "?i\<lparr>entry_psl := Suc (entry_psl ?i)\<rparr>"
    have neq: "entry_key ?e \<noteq> entry_key inc"
      using key True idx len by (auto simp: key_notin_alist)
    have d0: "d \<noteq> 0" using d True idx by (cases d) auto
    have home: "index = (h (entry_key ?e) + entry_psl ?e) mod n"
      using invarD(2) [OF inv idx(1)] True len by (simp add: at_home_def)
    have inv': "rh_invar ?t"
      using inv invar_write [OF inv idx occ _ key before] psl d by auto
    have upd: "add_mset (entry_key ?e, entry_val ?e) (mset (rh_alist (t[index := inc])))
        = add_mset (entry_key inc, entry_val inc) (mset (rh_alist t))"
      using rh_alist_update [of index t inc] True occ idx len by simp
    have key': "entry_key ?i \<notin> fst ` set (rh_alist ?t)"
    proof (cases ?swap)
      case True
      have "\<forall>i<n. entry_occupied (t[index := inc] ! i) \<longrightarrow> entry_key (t[index := inc] ! i) \<noteq> entry_key ?e"
        using key_inj [OF inv _ idx(1)] neq idx(1) len \<open>entry_occupied ?e\<close>
        by (auto simp: nth_list_update)
      then show ?thesis
        using True len by (simp add: key_notin_alist)
    qed (use key in simp)
    have "carried ?t ?i' (Suc index mod n) (Suc visited)"
      unfolding carried_def
    proof (intro conjI)
      show "Suc index mod n = (h (entry_key ?i') + entry_psl ?i') mod n"
        using idx home Suc_add_mod [of "h (entry_key ?e)" "entry_psl ?e" n]
          Suc_add_mod [of "h (entry_key inc)" "entry_psl inc" n] by auto
      have "entry_occupied (?t ! index) \<and> entry_psl ?i' \<le> Suc (entry_psl (?t ! index))"
        using idx(1) True occ len by simp
      then show "\<forall>i<n. Suc i mod n = Suc index mod n \<and> 0 < entry_psl ?i' \<longrightarrow>
          entry_occupied (?t ! i) \<and> entry_psl ?i' \<le> Suc (entry_psl (?t ! i))"
        using Suc_mod_inj [of _ n index] idx(1) by metis
      have "(Suc index mod n + (d - 1)) mod n = (index + d) mod n"
        using d0 by (metis Suc_pred' add_Suc_right add_Suc_shift mod_add_left_eq neq0_conv)
      moreover have "\<not> entry_occupied (?t ! ((index + d) mod n))"
        using d True by (cases "(index + d) mod n = index") auto
      ultimately show "\<exists>d. Suc visited + d < n \<and> \<not> entry_occupied (?t ! ((Suc index mod n + d) mod n))"
        using d d0 by (intro exI [of _ "d - 1"]) auto
    qed (use inv' idx occ psl key' True in auto)
    then have "\<exists>t'. rh_insert_from ?t ?i' (Suc index mod n) (Suc visited) = (t', True) \<and> rh_invar t'
           \<and> mset (rh_alist t') = add_mset (entry_key ?i', entry_val ?i') (mset (rh_alist ?t))"
      using "1.IH" [of ?e "(?t, ?i)" ?t ?i] True neq d len by auto
    moreover have "rh_insert_from t inc index visited
        = rh_insert_from ?t ?i' (Suc index mod n) (Suc visited)"
      using True neq d len by (subst rh_insert_from.simps) (simp add: Let_def)
    moreover have "add_mset (entry_key ?i', entry_val ?i') (mset (rh_alist ?t))
        = add_mset (entry_key inc, entry_val inc) (mset (rh_alist t))"
      using upd by auto
    ultimately show ?thesis by auto
  qed
qed

definition rh_free :: "('k, 'v) rh_entry list \<Rightarrow> nat" where
  "rh_free t = n - length (rh_alist t)"

lemma alist_length: "length (rh_alist t) \<le> length t"
  by (simp add: rh_alist_def)

lemma rh_map_None_key:
  "rh_map t k = None \<longleftrightarrow> k \<notin> fst ` set (rh_alist t)"
  by (simp add: rh_map_def map_of_eq_None_iff)

lemma empty_slot_ahead:
  assumes inv: "rh_invar t" and "0 < rh_free t" "index < n"
  shows "\<exists>d<n. \<not> entry_occupied (t ! ((index + d) mod n))"
proof -
  note len = invarD(1) [OF inv]
  have "filter entry_occupied t \<noteq> t"
    using assms(2) len by (auto simp: rh_free_def rh_alist_def)
  then obtain j where j: "j < n" "\<not> entry_occupied (t ! j)"
    using len by (metis filter_id_conv in_set_conv_nth)
  show ?thesis
  proof (cases "index \<le> j")
    case True
    then show ?thesis
      using j by (intro exI [of _ "j - index"]) auto
  next
    case False
    then have "(index + (n - index + j)) mod n = j"
      using j assms(3) by simp
    then show ?thesis
      using j False assms(3) by (intro exI [of _ "n - index + j"]) (auto simp: less_diff_conv2)
  qed
qed

lemma insert_correct:
  assumes inv: "rh_invar t" and new: "rh_map t k = None" and free: "0 < rh_free t"
  shows "\<exists>t'. rh_insert h t k v = (t', True) \<and> rh_invar t'
      \<and> rh_map t' = (rh_map t)(k \<mapsto> v) \<and> rh_free t = Suc (rh_free t')"
proof -
  let ?inc = "\<lparr>entry_key = k, entry_val = v, entry_psl = 0, entry_occupied = True\<rparr>"
  have n0: "0 < n" using free by (simp add: rh_free_def)
  have "carried t ?inc (h k) 0"
    using inv new empty_slot_ahead [OF inv free hash_less [OF n0]] hash_less [OF n0]
    by (auto simp: carried_def rh_map_None_key)
  then obtain t' where t': "rh_insert h t k v = (t', True)" "rh_invar t'"
      "mset (rh_alist t') = add_mset (k, v) (mset (rh_alist t))"
    using insert_from_correct [of t ?inc "h k" 0] by (auto simp: rh_insert_def)
  have "mset (rh_alist t') = mset ((k, v) # rh_alist t)"
    using t'(3) by simp
  then have "rh_map t' = map_of ((k, v) # rh_alist t)"
    unfolding rh_map_def using invarD(4) [OF t'(2)] by (rule map_of_cong_mset)
  moreover have "length (rh_alist t') = Suc (length (rh_alist t))"
    using t'(3) by (metis size_add_mset size_mset)
  moreover have "length (rh_alist t') \<le> n"
    using alist_length [of t'] invarD(1) [OF t'(2)] by simp
  ultimately show ?thesis
    using t' by (intro exI [of _ t']) (simp add: rh_map_def rh_free_def)
qed

subsection \<open>Removal\<close>

text \<open>While the hole moves, every entry but the one at the hole is in place.\<close>

definition shifting :: "('k, 'v) rh_entry list \<Rightarrow> nat \<Rightarrow> bool" where
  "shifting t hole \<longleftrightarrow>
     length t = n \<and> hole < n
     \<and> (\<forall>i<n. i \<noteq> hole \<longrightarrow> at_home h t i \<and> (Suc i mod n \<noteq> hole \<longrightarrow> rich_before t i))
     \<and> (\<forall>i<n. Suc i mod n = hole \<longrightarrow> entry_occupied (t ! (Suc hole mod n)) \<longrightarrow>
          1 < entry_psl (t ! (Suc hole mod n)) \<longrightarrow>
          entry_occupied (t ! i) \<and> entry_psl (t ! (Suc hole mod n)) \<le> entry_psl (t ! i) + 2)
     \<and> (n = 1 \<longrightarrow> entry_psl (t ! hole) = 0)
     \<and> distinct (map fst (rh_alist (t[hole := e0])))"

lemma shiftingD:
  assumes "shifting t hole"
  shows "length t = n" "hole < n"
    and "\<And>i. i < n \<Longrightarrow> i \<noteq> hole \<Longrightarrow> at_home h t i"
    and "\<And>i. i < n \<Longrightarrow> i \<noteq> hole \<Longrightarrow> Suc i mod n \<noteq> hole \<Longrightarrow> rich_before t i"
    and "\<And>i. i < n \<Longrightarrow> Suc i mod n = hole \<Longrightarrow> entry_occupied (t ! (Suc hole mod n)) \<Longrightarrow>
          1 < entry_psl (t ! (Suc hole mod n)) \<Longrightarrow>
          entry_occupied (t ! i) \<and> entry_psl (t ! (Suc hole mod n)) \<le> entry_psl (t ! i) + 2"
    and "n = 1 \<Longrightarrow> entry_psl (t ! hole) = 0"
    and "distinct (map fst (rh_alist (t[hole := e0])))"
  using assms unfolding shifting_def by blast+

lemma shifting_start:
  assumes inv: "rh_invar t" and "hole < n" "entry_occupied (t ! hole)"
  shows "shifting t hole"
proof -
  note len = invarD(1) [OF inv]
  have "distinct (map fst (rh_alist (t[hole := e0])))"
    using invarD(4) [OF inv] e0_free assms(2) len unfolding distinct_keys_nth
    by (auto simp: nth_list_update)
  moreover have "entry_occupied (t ! i) \<and> entry_psl (t ! (Suc hole mod n)) \<le> entry_psl (t ! i) + 2"
    if "i < n" "Suc i mod n = hole" "entry_occupied (t ! (Suc hole mod n))"
      "1 < entry_psl (t ! (Suc hole mod n))" for i
    using invarD(3) [OF inv assms(2)] invarD(3) [OF inv that(1)] that len
    by (auto simp: rich_before_def Let_def)
  moreover have "n = 1 \<longrightarrow> entry_psl (t ! hole) = 0"
    using invarD(2) [OF inv assms(2)] assms(3) len by (simp add: at_home_def)
  ultimately show ?thesis
    using assms(2) len invarD(2,3) [OF inv] by (auto simp: shifting_def)
qed

lemma shift_done:
  assumes sh: "shifting t hole"
    and stop: "\<not> (entry_occupied (t ! (Suc hole mod n)) \<and> 0 < entry_psl (t ! (Suc hole mod n)))"
  shows "rh_invar (t[hole := e0])"
proof -
  have len: "length t = n" "hole < n"
    using sh by (auto simp: shifting_def)
  have "at_home h (t[hole := e0]) i" if "i < n" for i
    using shiftingD(3) [OF sh that] e0_free len by (cases "i = hole") (simp_all add: at_home_def)
  moreover have "rich_before (t[hole := e0]) i" if i: "i < n" for i
    using shiftingD(4) [OF sh i] e0_free len stop
    by (cases "Suc i mod n = hole"; cases "i = hole") (auto simp: rich_before_def Let_def)
  ultimately show ?thesis
    using shiftingD(7) [OF sh] len by (simp add: rh_invar_def rh_wf_def)
qed

lemma shift_step:
  assumes sh: "shifting t hole"
    and go: "entry_occupied (t ! (Suc hole mod n))" "0 < entry_psl (t ! (Suc hole mod n))"
  defines "nxt \<equiv> Suc hole mod n"
  defines "t' \<equiv> t[hole := (t ! nxt)\<lparr>entry_psl := entry_psl (t ! nxt) - 1\<rparr>]"
  shows "shifting t' nxt"
    and "mset (rh_alist (t'[nxt := e0])) = mset (rh_alist (t[hole := e0]))"
proof -
  have len: "length t = n" "hole < n" "length t' = n"
    using shiftingD(1,2) [OF sh] by (simp_all add: t'_def)
  have nlt: "nxt < n" using len(2) by (simp add: nxt_def)
  have neq: "nxt \<noteq> hole"
  proof
    assume "nxt = hole"
    then have "n = 1"
      using len(2) by (auto simp: nxt_def mod_Suc split: if_splits)
    then show False
      using shiftingD(6) [OF sh] go \<open>nxt = hole\<close> unfolding nxt_def by simp
  qed
  have at_next: "at_home h t nxt" "Suc nxt mod n \<noteq> hole \<Longrightarrow> rich_before t nxt"
    using shiftingD(3,4) [OF sh nlt neq] by auto
  have swap: "t'[nxt := e0] = (t[hole := e0])[nxt := e0, hole := t' ! hole]"
    using neq len nlt by (intro nth_equalityI) (auto simp: t'_def nth_list_update)
  have hole': "t' ! hole = (t ! nxt)\<lparr>entry_psl := entry_psl (t ! nxt) - 1\<rparr>"
    using len by (simp add: t'_def)
  show ms: "mset (rh_alist (t'[nxt := e0])) = mset (rh_alist (t[hole := e0]))"
    using rh_alist_update [of nxt "t[hole := e0]" e0] rh_alist_update [of hole "t[hole := e0, nxt := e0]" "t' ! hole"]
      len nlt neq e0_free go unfolding swap hole' by (simp add: nxt_def)
  have home': "at_home h t' i" if "i < n" "i \<noteq> nxt" for i
  proof (cases "i = hole")
    case True
    obtain p where p: "entry_psl (t ! nxt) = Suc p"
      using go(2) by (auto simp: nxt_def gr0_conv_Suc)
    have "nxt = (h (entry_key (t ! nxt)) + Suc p) mod n" and lt: "Suc p < n"
      using at_next(1) go len p by (simp_all add: at_home_def nxt_def)
    then have "Suc hole mod n = Suc ((h (entry_key (t ! nxt)) + p) mod n) mod n"
      unfolding Suc_add_mod by (simp only: nxt_def)
    then have "hole = (h (entry_key (t ! nxt)) + p) mod n"
      using Suc_mod_inj [of hole n "(h (entry_key (t ! nxt)) + p) mod n"] len(2) by simp
    then show ?thesis
      using True hole' lt p len by (simp add: at_home_def)
  next
    case False
    then show ?thesis
      using shiftingD(3) [OF sh that(1) False] False len by (simp add: at_home_def t'_def)
  qed
  have rich': "rich_before t' i" if i: "i < n" "i \<noteq> nxt" "Suc i mod n \<noteq> nxt" for i
  proof -
    have ih: "i \<noteq> hole" using i(3) nxt_def by auto
    show ?thesis
    proof (cases "Suc i mod n = hole")
      case True
      then show ?thesis
        using shiftingD(5) [OF sh i(1) True] ih hole' len
        by (auto simp: rich_before_def Let_def nxt_def t'_def)
    next
      case False
      then show ?thesis
        using shiftingD(4) [OF sh i(1) ih False] ih False len
        by (simp add: rich_before_def Let_def t'_def)
    qed
  qed
  have gap: "entry_occupied (t' ! i) \<and> entry_psl (t' ! (Suc nxt mod n)) \<le> entry_psl (t' ! i) + 2"
    if i: "i < n" "Suc i mod n = nxt" and e: "entry_occupied (t' ! (Suc nxt mod n))"
      "1 < entry_psl (t' ! (Suc nxt mod n))" for i
  proof -
    have "i = hole"
      using i len Suc_mod_inj nxt_def by auto
    moreover have "entry_psl (t' ! (Suc nxt mod n)) \<le> Suc (entry_psl (t ! nxt))"
    proof (cases "Suc nxt mod n = hole")
      case True
      then show ?thesis using hole' by simp
    next
      case False
      then show ?thesis
        using at_next(2) e len by (simp add: rich_before_def Let_def t'_def)
    qed
    ultimately show ?thesis
      using hole' go by (simp add: nxt_def)
  qed
  have "distinct (map fst (rh_alist (t'[nxt := e0])))"
    using sh ms unfolding shifting_def by (metis mset_eq_imp_distinct_iff mset_map)
  moreover have "n \<noteq> 1"
    using neq nlt len(2) by auto
  ultimately show "shifting t' nxt"
    using len nlt home' rich' gap unfolding shifting_def by blast
qed

lemma backward_shift_correct:
  assumes "shifting t hole"
  shows "rh_invar (rh_backward_shift e0 t hole)
    \<and> mset (rh_alist (rh_backward_shift e0 t hole)) = mset (rh_alist (t[hole := e0]))"
  using assms
proof (induction "psl_outside t hole" arbitrary: t hole rule: less_induct)
  case less
  let ?e = "t ! (Suc hole mod n)"
  have len: "length t = n" "t \<noteq> []"
    using less.prems by (auto simp: shifting_def)
  show ?case
  proof (cases "entry_occupied ?e \<and> 0 < entry_psl ?e")
    case True
    then have "rh_backward_shift e0 t hole
        = rh_backward_shift e0 (t[hole := ?e\<lparr>entry_psl := entry_psl ?e - 1\<rparr>]) (Suc hole mod n)"
      using len by (subst rh_backward_shift.simps) (simp add: Let_def)
    then show ?thesis
      using less.hyps [OF psl_outside_decreases [of t hole]] shift_step [OF less.prems] True len by simp
  next
    case False
    then have "rh_backward_shift e0 t hole = t[hole := e0]"
      using len by (subst rh_backward_shift.simps) (auto simp: Let_def)
    then show ?thesis
      using shift_done [OF less.prems False] by simp
  qed
qed

lemma remove_correct:
  assumes inv: "rh_invar t" and old: "rh_map t k = Some v"
  shows "\<exists>t'. rh_remove h e0 t k = (t', True) \<and> rh_invar t'
      \<and> rh_map t' = (rh_map t)(k := None) \<and> rh_free t' = Suc (rh_free t)"
proof -
  obtain i where i: "i < n" "entry_occupied (t ! i)" "entry_key (t ! i) = k" "entry_val (t ! i) = v"
      "rh_find_from t (h k) k 0 = Some i"
    using find_from_Some [OF inv old] .
  let ?t = "rh_backward_shift e0 t i"
  have t': "rh_invar ?t" "mset (rh_alist ?t) = mset (rh_alist (t[i := e0]))"
    using backward_shift_correct [OF shifting_start [OF inv i(1,2)]] by auto
  then have ms: "mset ((k, v) # rh_alist ?t) = mset (rh_alist t)"
    using rh_alist_update [of i t e0] i invarD(1) [OF inv] e0_free by simp
  then have m: "rh_map t = (rh_map ?t)(k \<mapsto> v)"
    using map_of_cong_mset [of "rh_alist t" "(k, v) # rh_alist ?t"] invarD(4) [OF inv]
    by (simp add: rh_map_def)
  have "distinct (map fst ((k, v) # rh_alist ?t))"
    using ms invarD(4) [OF inv] by (metis mset_eq_imp_distinct_iff mset_map)
  then have "rh_map ?t k = None"
    by (simp add: rh_map_None_key)
  moreover have "length (rh_alist t) = Suc (length (rh_alist ?t))"
    using ms by (metis length_Cons size_mset)
  ultimately show ?thesis
    using t'(1) m i(5) alist_length [of t] invarD(1) [OF inv]
    by (intro exI [of _ ?t]) (auto simp: rh_remove_def rh_free_def)
qed

text \<open>An insertion of a known key meets it before it displaces anything.\<close>

lemma insert_from_known:
  assumes inv: "rh_invar t" and occ: "entry_occupied (t ! ((s + q) mod n))"
    and psl: "entry_psl (t ! ((s + q) mod n)) = q" and q: "q < n"
    and key: "entry_key (t ! ((s + q) mod n)) = entry_key inc" and "p \<le> q"
  shows "entry_psl inc = p \<Longrightarrow> rh_insert_from t inc ((s + p) mod n) p = (t, False)"
  using \<open>p \<le> q\<close> key
proof (induction p arbitrary: inc rule: inc_induct)
  case base
  then show ?case
    using occ q invarD(1) [OF inv] by (subst rh_insert_from.simps) (simp add: Let_def)
next
  case (step m)
  have ch: "entry_occupied (t ! ((s + m) mod n))" "m \<le> entry_psl (t ! ((s + m) mod n))"
    using probe_chain [OF inv occ, of m] psl q step.hyps by auto
  have lt: "(s + m) mod n < n" "(s + q) mod n < n"
    using q by simp_all
  have "(s + m) mod n \<noteq> (s + q) mod n"
    using add_mod_inj [of m n q s] step.hyps q by auto
  then have ne: "entry_key (t ! ((s + m) mod n)) \<noteq> entry_key inc"
    using key_inj [OF inv lt] ch(1) occ step.prems(2) by auto
  show ?case
    using step.IH [of "inc\<lparr>entry_psl := Suc m\<rparr>"] ch ne step.prems step.hyps q invarD(1) [OF inv]
    by (subst rh_insert_from.simps) (simp add: Let_def Suc_add_mod)
qed

lemma insert_known:
  assumes inv: "rh_invar t" and old: "rh_map t k = Some w"
  shows "rh_insert h t k v = (t, False)"
proof -
  obtain i where i: "i < n" "entry_occupied (t ! i)" "entry_key (t ! i) = k"
    using find_from_Some [OF inv old] .
  then have home: "i = (h k + entry_psl (t ! i)) mod n" "entry_psl (t ! i) < n"
    using invarD(2) [OF inv i(1)] invarD(1) [OF inv] by (simp_all add: at_home_def)
  have "h k mod n = h k" using hash_less [of k] i(1) by simp
  then show ?thesis
    using insert_from_known [OF inv, of "h k" "entry_psl (t ! i)"
        "\<lparr>entry_key = k, entry_val = v, entry_psl = 0, entry_occupied = True\<rparr>" 0] i home
    by (simp add: rh_insert_def flip: home(1))
qed

sublocale map: bounded_map "rh_find h" "rh_insert h" "rh_remove h e0" rh_invar rh_free
proof unfold_locales
  show "rh_remove h e0 t k = (t, False)" if "rh_invar t" "rh_find h t k = None" for t k
    using that by (simp add: rh_remove_def find_correct find_from_None)
next
  show "\<exists>t'. rh_insert h t k v = (t', True) \<and> rh_invar t' \<and> rh_find h t' = (rh_find h t)(k \<mapsto> v)
      \<and> rh_free t = Suc (rh_free t')"
    if "rh_invar t" "rh_find h t k = None" "0 < rh_free t" for t k v
    using insert_correct [of t k v] that by (auto simp: find_correct fun_eq_iff)
next
  show "rh_insert h t k v = (t, False)" if "rh_invar t" "rh_find h t k = Some w" for t k v w
    using insert_known [of t k w v] that by (simp add: find_correct)
next
  show "\<exists>t'. rh_remove h e0 t k = (t', True) \<and> rh_invar t' \<and> rh_find h t' = (rh_find h t)(k := None)
      \<and> rh_free t' = Suc (rh_free t)"
    if "rh_invar t" "rh_find h t k = Some v" for t k v
    using remove_correct [of t k v] that by (auto simp: find_correct fun_eq_iff)
qed

end

end
