(* ===== verification/MatchingBook.thy ===== *)
theory MatchingBook
  imports SimTypes RobinHoodIndex
begin

section \<open>The flat-memory matching book\<close>

text \<open>
  \<open>MatchingBook\<close> of \<open>include/lob/sim/matching_book.hpp\<close>: order slots and
  price levels in fixed arrays, free lists as stacks, a doubly linked queue of
  slots per level, the two Robin Hood indices and the sorted level arrays of a
  deep book. The template parameters are a \<open>book_config\<close>; the sentinel
  \<open>npos\<close> of a slot reference is \<^const>\<open>None\<close>. A sorted level array with its
  count is the list of its first \<open>count\<close> entries. Quantities are 64-bit words,
  so the level totals wrap as in the code.

  The only loop of the book that the code does not bound itself is the one of
  \<open>submit_limit\<close> (in a deep book an active level without orders would be
  revisited forever), so matching is a partial function with \<^const>\<open>None\<close> for
  not returning; \<open>BookInvariant\<close> proves that this never happens.
\<close>

record book_config =
  order_capacity :: nat
  price_level_capacity :: nat
  max_execution_reports :: nat
  order_index_capacity :: nat

record order_slot =
  sl_order :: sim_order
  sl_remaining :: u64
  sl_level_index :: "nat option"
  sl_prev :: "nat option"
  sl_next :: "nat option"
  sl_active :: bool

record price_level =
  lv_side :: side
  lv_price :: int
  lv_total :: u64
  lv_head :: "nat option"
  lv_tail :: "nat option"
  lv_active :: bool

type_synonym index_entry = "(order_id, nat) rh_entry"
type_synonym level_index_entry = "(side \<times> int, nat) rh_entry"

definition empty_slot :: order_slot where
  "empty_slot = \<lparr>sl_order = default_order, sl_remaining = 0, sl_level_index = None,
     sl_prev = None, sl_next = None, sl_active = False\<rparr>"

definition empty_level :: price_level where
  "empty_level = \<lparr>lv_side = Buy, lv_price = 0, lv_total = 0, lv_head = None, lv_tail = None,
     lv_active = False\<rparr>"

definition empty_index_entry :: index_entry where
  "empty_index_entry = \<lparr>entry_key = invalid_order_id, entry_val = 0, entry_psl = 0,
     entry_occupied = False\<rparr>"

definition empty_level_index_entry :: level_index_entry where
  "empty_level_index_entry = \<lparr>entry_key = (Buy, 0), entry_val = 0, entry_psl = 0,
     entry_occupied = False\<rparr>"

record matching_book =
  bk_orders :: "order_slot list"
  bk_levels :: "price_level list"
  bk_index :: "index_entry list"
  bk_level_index :: "level_index_entry list"
  bk_sorted_bids :: "nat list"
  bk_sorted_asks :: "nat list"
  bk_free_slots :: "nat list"
  bk_free_levels :: "nat list"
  bk_free_slots_ptr :: nat
  bk_free_levels_ptr :: nat
  bk_index_size :: nat
  bk_level_index_size :: nat
  bk_resting_order_count :: nat
  bk_active_price_level_count :: nat

definition uses_deep_level_index :: "book_config \<Rightarrow> bool" where
  "uses_deep_level_index c \<longleftrightarrow> price_level_capacity c > 32"

definition level_index_capacity :: "book_config \<Rightarrow> nat" where
  "level_index_capacity c =
     (if uses_deep_level_index c then price_level_capacity c * 2 + 1 else 1)"

text \<open>
  The static assertions of the constructor, under which 16 bits hold a position in the arrays, and the
  default capacity of the index. An index smaller than the array of slots is allowed: orders
  then stop resting when it is full.
\<close>

definition valid_config :: "book_config \<Rightarrow> bool" where
  "valid_config c \<longleftrightarrow> order_capacity c \<le> 65535 \<and> price_level_capacity c \<le> 65535"

definition default_config :: "nat \<Rightarrow> nat \<Rightarrow> nat \<Rightarrow> book_config" where
  "default_config oc lc reports = \<lparr>order_capacity = oc, price_level_capacity = lc,
     max_execution_reports = reports, order_index_capacity = oc * 2 + 1\<rparr>"

definition new_book :: "book_config \<Rightarrow> matching_book" where
  "new_book c = \<lparr>
     bk_orders = replicate (order_capacity c) empty_slot,
     bk_levels = replicate (price_level_capacity c) empty_level,
     bk_index = replicate (order_index_capacity c) empty_index_entry,
     bk_level_index = replicate (level_index_capacity c) empty_level_index_entry,
     bk_sorted_bids = [], bk_sorted_asks = [],
     bk_free_slots = [0..<order_capacity c],
     bk_free_levels = [0..<price_level_capacity c],
     bk_free_slots_ptr = 0, bk_free_levels_ptr = 0,
     bk_index_size = 0, bk_level_index_size = 0,
     bk_resting_order_count = 0, bk_active_price_level_count = 0\<rparr>"

text \<open>\<open>clear\<close> writes every array and counter back to its initial value.\<close>

definition clear_book :: "book_config \<Rightarrow> matching_book \<Rightarrow> matching_book" where
  "clear_book c b = b\<lparr>
     bk_orders := replicate (order_capacity c) empty_slot,
     bk_levels := replicate (price_level_capacity c) empty_level,
     bk_index := replicate (order_index_capacity c) empty_index_entry,
     bk_level_index := replicate (level_index_capacity c) empty_level_index_entry,
     bk_sorted_bids := [], bk_sorted_asks := [],
     bk_free_slots := [0..<order_capacity c],
     bk_free_levels := [0..<price_level_capacity c],
     bk_free_slots_ptr := 0, bk_free_levels_ptr := 0,
     bk_index_size := 0, bk_level_index_size := 0,
     bk_resting_order_count := 0, bk_active_price_level_count := 0\<rparr>"

subsection \<open>Hashes and the two indices\<close>

definition hash_order_id :: "nat \<Rightarrow> order_id \<Rightarrow> nat" where
  "hash_order_id cap order_id =
     (if cap = 0 then 0 else nat (uint (order_id XOR drop_bit 32 order_id) mod int cap))"

definition hash_level_key :: "nat \<Rightarrow> side \<times> int \<Rightarrow> nat" where
  "hash_level_key cap k =
     (let v0 = word_of_int (snd k) :: u64;
          v1 = v0 XOR (if fst k = Buy then 0x9e3779b97f4a7c15 else 0xd1b54a32d192ed03);
          v2 = v1 XOR drop_bit 30 v1;
          v3 = v2 * 0xbf58476d1ce4e5b9;
          v4 = v3 XOR drop_bit 27 v3;
          v5 = v4 * 0x94d049bb133111eb;
          v6 = v5 XOR drop_bit 31 v5
      in nat (uint v6 mod int cap))"

definition find_slot :: "matching_book \<Rightarrow> order_id \<Rightarrow> nat option" where
  "find_slot b order_id =
     (if bk_index b = [] then None
      else rh_find (hash_order_id (length (bk_index b))) (bk_index b) order_id)"

definition insert_index :: "matching_book \<Rightarrow> order_id \<Rightarrow> nat \<Rightarrow> matching_book \<times> bool" where
  "insert_index b order_id slot_index =
     (if bk_index b = [] then (b, False)
      else if length (bk_index b) \<le> bk_index_size b then (b, False)
      else case rh_insert (hash_order_id (length (bk_index b))) (bk_index b) order_id slot_index of
        (t, inserted) \<Rightarrow>
          (b\<lparr>bk_index := t, bk_index_size := (if inserted then Suc (bk_index_size b) else bk_index_size b)\<rparr>,
           inserted))"

definition remove_index :: "matching_book \<Rightarrow> order_id \<Rightarrow> matching_book" where
  "remove_index b order_id =
     (if bk_index b = [] then b
      else case rh_remove (hash_order_id (length (bk_index b))) empty_index_entry (bk_index b) order_id of
        (t, removed) \<Rightarrow>
          b\<lparr>bk_index := t, bk_index_size := (if removed then bk_index_size b - 1 else bk_index_size b)\<rparr>)"

definition find_level_in_index :: "matching_book \<Rightarrow> side \<Rightarrow> int \<Rightarrow> nat option" where
  "find_level_in_index b s p =
     rh_find (hash_level_key (length (bk_level_index b))) (bk_level_index b) (s, p)"

definition insert_level_index :: "matching_book \<Rightarrow> side \<Rightarrow> int \<Rightarrow> nat \<Rightarrow> matching_book \<times> bool" where
  "insert_level_index b s p level_index =
     (if length (bk_level_index b) \<le> bk_level_index_size b then (b, False)
      else case rh_insert (hash_level_key (length (bk_level_index b))) (bk_level_index b) (s, p) level_index of
        (t, inserted) \<Rightarrow>
          (b\<lparr>bk_level_index := t,
             bk_level_index_size := (if inserted then Suc (bk_level_index_size b) else bk_level_index_size b)\<rparr>,
           inserted))"

definition remove_level_index :: "matching_book \<Rightarrow> side \<Rightarrow> int \<Rightarrow> matching_book" where
  "remove_level_index b s p =
     (case rh_remove (hash_level_key (length (bk_level_index b))) empty_level_index_entry (bk_level_index b) (s, p) of
        (t, removed) \<Rightarrow>
          b\<lparr>bk_level_index := t,
            bk_level_index_size := (if removed then bk_level_index_size b - 1 else bk_level_index_size b)\<rparr>)"

subsection \<open>Choosing a price level\<close>

definition is_valid_order :: "sim_order \<Rightarrow> bool" where
  "is_valid_order order \<longleftrightarrow>
     so_order_id order \<noteq> invalid_order_id \<and> 0 < so_price_ticks order \<and> 0 < so_quantity_lots order"

definition crosses :: "side \<Rightarrow> int \<Rightarrow> int \<Rightarrow> bool" where
  "crosses incoming_side incoming_price resting_price =
     (if incoming_side = Buy then resting_price \<le> incoming_price else incoming_price \<le> resting_price)"

definition is_better_price :: "side \<Rightarrow> int \<Rightarrow> int \<Rightarrow> bool" where
  "is_better_price s lhs rhs = (if s = Buy then rhs < lhs else lhs < rhs)"

definition opposite :: "side \<Rightarrow> side" where
  "opposite s = (if s = Buy then Sell else Buy)"

definition sorted_indices_for :: "matching_book \<Rightarrow> side \<Rightarrow> nat list" where
  "sorted_indices_for b s = (if s = Buy then bk_sorted_bids b else bk_sorted_asks b)"

definition set_sorted_indices_for :: "side \<Rightarrow> nat list \<Rightarrow> matching_book \<Rightarrow> matching_book" where
  "set_sorted_indices_for s xs b =
     (if s = Buy then b\<lparr>bk_sorted_bids := xs\<rparr> else b\<lparr>bk_sorted_asks := xs\<rparr>)"

text \<open>The scan of a shallow book: the first level of best price among those that qualify.\<close>

definition scan_best :: "side \<Rightarrow> price_level list \<Rightarrow> (nat \<Rightarrow> bool) \<Rightarrow> nat option" where
  "scan_best s levels qualifies =
     fold (\<lambda>i best.
        if \<not> qualifies i then best
        else case best of
          None \<Rightarrow> Some i
        | Some j \<Rightarrow> if is_better_price s (lv_price (levels ! i)) (lv_price (levels ! j)) then Some i else best)
       [0..<length levels] None"

definition best_level :: "book_config \<Rightarrow> matching_book \<Rightarrow> side \<Rightarrow> nat option" where
  "best_level c b s =
     (if uses_deep_level_index c then
        (case sorted_indices_for b s of [] \<Rightarrow> None | i # _ \<Rightarrow> Some i)
      else scan_best s (bk_levels b) (\<lambda>i. let level = bk_levels b ! i in
             lv_active level \<and> lv_side level = s \<and> lv_total level \<noteq> 0))"

definition best_crossing_level :: "book_config \<Rightarrow> matching_book \<Rightarrow> side \<Rightarrow> int \<Rightarrow> nat option" where
  "best_crossing_level c b incoming_side incoming_price =
     (let resting_side = opposite incoming_side in
      if uses_deep_level_index c then
        (case best_level c b resting_side of
           None \<Rightarrow> None
         | Some i \<Rightarrow> if crosses incoming_side incoming_price (lv_price (bk_levels b ! i)) then Some i else None)
      else scan_best resting_side (bk_levels b) (\<lambda>i. let level = bk_levels b ! i in
             lv_active level \<and> lv_side level = resting_side \<and> lv_total level \<noteq> 0
             \<and> crosses incoming_side incoming_price (lv_price level)))"

definition best_crossing_unvisited_level ::
  "matching_book \<Rightarrow> side \<Rightarrow> int \<Rightarrow> bool list \<Rightarrow> nat option" where
  "best_crossing_unvisited_level b incoming_side incoming_price visited =
     (let resting_side = opposite incoming_side in
      scan_best resting_side (bk_levels b) (\<lambda>i. let level = bk_levels b ! i in
        \<not> visited ! i \<and> lv_active level \<and> lv_side level = resting_side \<and> lv_total level \<noteq> 0
        \<and> crosses incoming_side incoming_price (lv_price level)))"

definition best_unvisited_level :: "matching_book \<Rightarrow> side \<Rightarrow> bool list \<Rightarrow> nat option" where
  "best_unvisited_level b s visited =
     scan_best s (bk_levels b) (\<lambda>i. let level = bk_levels b ! i in
       \<not> visited ! i \<and> lv_active level \<and> lv_side level = s \<and> lv_total level \<noteq> 0)"

definition find_level :: "book_config \<Rightarrow> matching_book \<Rightarrow> side \<Rightarrow> int \<Rightarrow> nat option" where
  "find_level c b s p =
     (if uses_deep_level_index c then find_level_in_index b s p
      else find (\<lambda>i. let level = bk_levels b ! i in
             lv_active level \<and> lv_side level = s \<and> lv_price level = p) [0..<length (bk_levels b)])"

subsection \<open>Creating and removing levels\<close>

definition insert_sorted_level_index :: "side \<Rightarrow> nat \<Rightarrow> matching_book \<Rightarrow> matching_book" where
  "insert_sorted_level_index s level_index b =
     (let indices = sorted_indices_for b s;
          price = lv_price (bk_levels b ! level_index);
          position = lower_bound (\<lambda>i. is_better_price s (lv_price (bk_levels b ! i)) price) indices
      in set_sorted_indices_for s (take position indices @ level_index # drop position indices) b)"

definition remove_sorted_level_index :: "side \<Rightarrow> nat \<Rightarrow> matching_book \<Rightarrow> matching_book" where
  "remove_sorted_level_index s level_index b =
     set_sorted_indices_for s (remove1 level_index (sorted_indices_for b s)) b"

definition push_free_level :: "nat \<Rightarrow> matching_book \<Rightarrow> matching_book" where
  "push_free_level level_index b =
     b\<lparr>bk_free_levels_ptr := bk_free_levels_ptr b - 1,
       bk_free_levels := (bk_free_levels b)[bk_free_levels_ptr b - 1 := level_index]\<rparr>"

definition push_free_slot :: "nat \<Rightarrow> matching_book \<Rightarrow> matching_book" where
  "push_free_slot slot_index b =
     b\<lparr>bk_free_slots_ptr := bk_free_slots_ptr b - 1,
       bk_free_slots := (bk_free_slots b)[bk_free_slots_ptr b - 1 := slot_index]\<rparr>"

definition find_or_create_level ::
  "book_config \<Rightarrow> matching_book \<Rightarrow> side \<Rightarrow> int \<Rightarrow> matching_book \<times> nat option" where
  "find_or_create_level c b s p =
     (case find_level c b s p of
        Some i \<Rightarrow> (b, Some i)
      | None \<Rightarrow>
          if price_level_capacity c \<le> bk_free_levels_ptr b then (b, None)
          else
            let i = bk_free_levels b ! bk_free_levels_ptr b;
                b1 = b\<lparr>bk_free_levels_ptr := Suc (bk_free_levels_ptr b),
                       bk_levels := (bk_levels b)[i := \<lparr>lv_side = s, lv_price = p, lv_total = 0,
                         lv_head = None, lv_tail = None, lv_active = True\<rparr>]\<rparr>
            in if uses_deep_level_index c then
                 (case insert_level_index b1 s p i of
                    (b2, False) \<Rightarrow>
                      (push_free_level i (b2\<lparr>bk_levels := (bk_levels b2)[i := empty_level]\<rparr>), None)
                  | (b2, True) \<Rightarrow>
                      let b3 = insert_sorted_level_index s i b2
                      in (b3\<lparr>bk_active_price_level_count := Suc (bk_active_price_level_count b3)\<rparr>, Some i))
               else (b1\<lparr>bk_active_price_level_count := Suc (bk_active_price_level_count b1)\<rparr>, Some i))"

subsection \<open>The queue of a level\<close>

definition upd_slot :: "nat \<Rightarrow> (order_slot \<Rightarrow> order_slot) \<Rightarrow> matching_book \<Rightarrow> matching_book" where
  "upd_slot i f b = b\<lparr>bk_orders := (bk_orders b)[i := f (bk_orders b ! i)]\<rparr>"

definition upd_level :: "nat \<Rightarrow> (price_level \<Rightarrow> price_level) \<Rightarrow> matching_book \<Rightarrow> matching_book" where
  "upd_level i f b = b\<lparr>bk_levels := (bk_levels b)[i := f (bk_levels b ! i)]\<rparr>"

text \<open>A level whose queue became empty is retired.\<close>

definition retire_level :: "book_config \<Rightarrow> nat \<Rightarrow> matching_book \<Rightarrow> matching_book" where
  "retire_level c li b =
     (let level = bk_levels b ! li;
          b1 = (if uses_deep_level_index c then
                  remove_sorted_level_index (lv_side level) li
                    (remove_level_index b (lv_side level) (lv_price level))
                else b);
          b2 = push_free_level li (upd_level li (\<lambda>_. empty_level) b1)
      in b2\<lparr>bk_active_price_level_count := bk_active_price_level_count b2 - 1\<rparr>)"

definition unlink_order :: "book_config \<Rightarrow> nat \<Rightarrow> matching_book \<Rightarrow> matching_book" where
  "unlink_order c s b =
     (if \<not> sl_active (bk_orders b ! s) then b
      else case sl_level_index (bk_orders b ! s) of
        None \<Rightarrow> b \<comment> \<open>an active slot always has a level\<close>
      | Some li \<Rightarrow>
          let b1 = (case sl_prev (bk_orders b ! s) of
                      Some p \<Rightarrow> upd_slot p (\<lambda>o'. o'\<lparr>sl_next := sl_next (bk_orders b ! s)\<rparr>) b
                    | None \<Rightarrow> upd_level li (\<lambda>l. l\<lparr>lv_head := sl_next (bk_orders b ! s)\<rparr>) b);
              b2 = (case sl_next (bk_orders b1 ! s) of
                      Some q \<Rightarrow> upd_slot q (\<lambda>o'. o'\<lparr>sl_prev := sl_prev (bk_orders b1 ! s)\<rparr>) b1
                    | None \<Rightarrow> upd_level li (\<lambda>l. l\<lparr>lv_tail := sl_prev (bk_orders b1 ! s)\<rparr>) b1);
              b3 = upd_level li (\<lambda>l. l\<lparr>lv_total := lv_total l - sl_remaining (bk_orders b2 ! s)\<rparr>) b2;
              b4 = remove_index b3 (so_order_id (sl_order (bk_orders b3 ! s)));
              b5 = push_free_slot s (upd_slot s (\<lambda>_. empty_slot) b4);
              b6 = b5\<lparr>bk_resting_order_count := bk_resting_order_count b5 - 1\<rparr>
          in if lv_head (bk_levels b6 ! li) = None then retire_level c li b6 else b6)"

definition remove_head_order :: "book_config \<Rightarrow> nat \<Rightarrow> matching_book \<Rightarrow> matching_book" where
  "remove_head_order c li b =
     (case lv_head (bk_levels b ! li) of
        None \<Rightarrow> b
      | Some s \<Rightarrow> unlink_order c s b)"

text \<open>Appending a slot to the queue of a level.\<close>

definition append_to_level :: "nat \<Rightarrow> nat \<Rightarrow> sim_order \<Rightarrow> u64 \<Rightarrow> matching_book \<Rightarrow> matching_book" where
  "append_to_level li s order remaining b =
     (let tail = lv_tail (bk_levels b ! li);
          b1 = upd_slot s (\<lambda>_. \<lparr>sl_order = order, sl_remaining = remaining, sl_level_index = Some li,
                 sl_prev = tail, sl_next = None, sl_active = True\<rparr>) b;
          b2 = (case tail of
                  Some t \<Rightarrow> upd_slot t (\<lambda>o'. o'\<lparr>sl_next := Some s\<rparr>) b1
                | None \<Rightarrow> upd_level li (\<lambda>l. l\<lparr>lv_head := Some s\<rparr>) b1);
          b3 = upd_level li (\<lambda>l. l\<lparr>lv_tail := Some s, lv_total := lv_total l + remaining\<rparr>) b2
      in b3\<lparr>bk_resting_order_count := Suc (bk_resting_order_count b3)\<rparr>)"

definition rest_order :: "book_config \<Rightarrow> sim_order \<Rightarrow> u64 \<Rightarrow> matching_book \<Rightarrow> matching_book \<times> bool" where
  "rest_order c order remaining b =
     (if order_capacity c \<le> bk_free_slots_ptr b then (b, False)
      else
        let s = bk_free_slots b ! bk_free_slots_ptr b;
            b1 = b\<lparr>bk_free_slots_ptr := Suc (bk_free_slots_ptr b)\<rparr>
        in case insert_index b1 (so_order_id order) s of
             (b2, False) \<Rightarrow> (push_free_slot s b2, False)
           | (b2, True) \<Rightarrow>
               (case find_or_create_level c b2 (so_side order) (so_price_ticks order) of
                  (b3, None) \<Rightarrow> (push_free_slot s (remove_index b3 (so_order_id order)), False)
                | (b3, Some li) \<Rightarrow> (append_to_level li s order remaining b3, True)))"

subsection \<open>Execution reports\<close>

definition can_append_fill_reports :: "book_config \<Rightarrow> match_result \<Rightarrow> bool" where
  "can_append_fill_reports c r \<longleftrightarrow> 2 \<le> max_execution_reports c - length (mr_executions r)"

definition append_execution :: "book_config \<Rightarrow> match_result \<Rightarrow> trade_execution \<Rightarrow> match_result" where
  "append_execution c r execution =
     (if max_execution_reports c \<le> length (mr_executions r) then r\<lparr>mr_execution_report_overflow := True\<rparr>
      else r\<lparr>mr_executions := mr_executions r @ [execution]\<rparr>)"

definition taker_execution :: "sim_order \<Rightarrow> sim_order \<Rightarrow> int \<Rightarrow> u64 \<Rightarrow> trade_execution" where
  "taker_execution taker maker price quantity = \<lparr>
     te_order_id = so_order_id taker, te_counterparty_order_id = so_order_id maker,
     te_agent_id = so_agent_id taker, te_counterparty_agent_id = so_agent_id maker,
     te_side = so_side taker, te_liquidity_role = Taker, te_price_ticks = price,
     te_quantity_lots = quantity, te_timestamp_ns = so_timestamp_ns taker\<rparr>"

definition maker_execution :: "sim_order \<Rightarrow> sim_order \<Rightarrow> int \<Rightarrow> u64 \<Rightarrow> trade_execution" where
  "maker_execution taker maker price quantity = \<lparr>
     te_order_id = so_order_id maker, te_counterparty_order_id = so_order_id taker,
     te_agent_id = so_agent_id maker, te_counterparty_agent_id = so_agent_id taker,
     te_side = so_side maker, te_liquidity_role = Maker, te_price_ticks = price,
     te_quantity_lots = quantity, te_timestamp_ns = so_timestamp_ns taker\<rparr>"

definition append_executions ::
  "book_config \<Rightarrow> match_result \<Rightarrow> sim_order \<Rightarrow> sim_order \<Rightarrow> int \<Rightarrow> u64 \<Rightarrow> match_result" where
  "append_executions c r taker maker price quantity =
     append_execution c (append_execution c r (taker_execution taker maker price quantity))
       (maker_execution taker maker price quantity)"

subsection \<open>The fill-or-kill preflight\<close>

text \<open>
  Walks the queue of one level; \<^const>\<open>None\<close> is the answer \<open>false\<close> (not enough room
  for reports), otherwise the remaining quantity and the report count are returned.
  Every step takes two reports, so the walk ends even on a cyclic queue.
\<close>

function consume_queue_for_fok ::
  "book_config \<Rightarrow> matching_book \<Rightarrow> nat option \<Rightarrow> u64 \<Rightarrow> nat \<Rightarrow> (u64 \<times> nat) option" where
  "consume_queue_for_fok c b slot_index remaining reports =
     (case slot_index of
        None \<Rightarrow> Some (remaining, reports)
      | Some s \<Rightarrow>
          if 0 < remaining then
            if max_execution_reports c - reports < 2 then None
            else consume_queue_for_fok c b (sl_next (bk_orders b ! s))
                   (remaining - min remaining (sl_remaining (bk_orders b ! s))) (reports + 2)
          else Some (remaining, reports))"
  by pat_completeness auto
termination
  by (relation "measure (\<lambda>(c, b, slot_index, remaining, reports). max_execution_reports c - reports)") auto

declare consume_queue_for_fok.simps [simp del]

definition consume_level_for_fok ::
  "book_config \<Rightarrow> matching_book \<Rightarrow> price_level \<Rightarrow> u64 \<Rightarrow> nat \<Rightarrow> (u64 \<times> nat) option" where
  "consume_level_for_fok c b level = consume_queue_for_fok c b (lv_head level)"

text \<open>The deep variant walks the sorted levels of the resting side.\<close>

fun fok_deep :: "book_config \<Rightarrow> matching_book \<Rightarrow> sim_order \<Rightarrow> nat list \<Rightarrow> u64 \<Rightarrow> nat \<Rightarrow> bool" where
  "fok_deep c b order [] remaining reports = (remaining = 0)"
| "fok_deep c b order (i # is) remaining reports =
     (if 0 < remaining then
        let level = bk_levels b ! i in
        if \<not> crosses (so_side order) (so_price_ticks order) (lv_price level) then remaining = 0
        else case consume_level_for_fok c b level remaining reports of
          None \<Rightarrow> False
        | Some (remaining', reports') \<Rightarrow> fok_deep c b order is remaining' reports'
      else remaining = 0)"

text \<open>The shallow variant marks each level it has used.\<close>

lemma scan_best_qualifies:
  assumes "scan_best s levels q = Some i"
  shows "i < length levels" "q i"
proof -
  have "(case fold (\<lambda>i best. if \<not> q i then best
        else case best of None \<Rightarrow> Some i
          | Some j \<Rightarrow> if is_better_price s (lv_price (levels ! i)) (lv_price (levels ! j)) then Some i else best)
       xs best0 of None \<Rightarrow> True | Some i \<Rightarrow> i \<in> {i \<in> set xs. q i} \<or> best0 = Some i)" for xs best0
    by (induction xs arbitrary: best0) (fastforce split: option.splits if_splits)+
  from this [of "[0..<length levels]" None] show "i < length levels" "q i"
    using assms by (auto simp: scan_best_def)
qed

lemma unvisited_decreases:
  assumes "i < length visited" "\<not> visited ! i"
  shows "card {j. j < length (visited[i := True]) \<and> \<not> visited[i := True] ! j}
       < card {j. j < length visited \<and> \<not> visited ! j}"
proof -
  have "{j. j < length (visited[i := True]) \<and> \<not> visited[i := True] ! j}
      = {j. j < length visited \<and> \<not> visited ! j} - {i}"
    using assms by (auto simp: nth_list_update)
  moreover have "card ({j. j < length visited \<and> \<not> visited ! j} - {i})
      < card {j. j < length visited \<and> \<not> visited ! j}"
    using assms by (intro card_Diff1_less) auto
  ultimately show ?thesis by (simp only:)
qed

lemma best_unvisited_visits:
  "best_unvisited_level b s visited = Some i \<Longrightarrow> i < length (bk_levels b) \<and> \<not> visited ! i"
  "best_crossing_unvisited_level b s p visited = Some i \<Longrightarrow> i < length (bk_levels b) \<and> \<not> visited ! i"
  unfolding best_unvisited_level_def best_crossing_unvisited_level_def Let_def
  by (auto dest: scan_best_qualifies)

function fok_shallow :: "book_config \<Rightarrow> matching_book \<Rightarrow> sim_order \<Rightarrow> bool list \<Rightarrow> u64 \<Rightarrow> nat \<Rightarrow> bool" where
  "fok_shallow c b order visited remaining reports =
     (if 0 < remaining \<and> length visited = length (bk_levels b) then
        (case best_crossing_unvisited_level b (so_side order) (so_price_ticks order) visited of
           None \<Rightarrow> False
         | Some i \<Rightarrow>
             (case consume_level_for_fok c b (bk_levels b ! i) remaining reports of
                None \<Rightarrow> False
              | Some (remaining', reports') \<Rightarrow>
                  fok_shallow c b order (visited[i := True]) remaining' reports'))
      else True)"
  by pat_completeness auto
termination
proof (relation "measure (\<lambda>(c, b, order, visited, remaining, reports). card {i. i < length visited \<and> \<not> visited ! i})",
    goal_cases)
  case (2 c b order visited remaining reports i x remaining' reports')
  then show ?case
    using unvisited_decreases [of i visited] best_unvisited_visits(2) [OF 2(2)] by simp
qed simp

declare fok_shallow.simps [simp del]

definition fok_preflight_passes :: "book_config \<Rightarrow> matching_book \<Rightarrow> sim_order \<Rightarrow> bool" where
  "fok_preflight_passes c b order =
     (if uses_deep_level_index c then
        fok_deep c b order (sorted_indices_for b (opposite (so_side order))) (so_quantity_lots order) 0
      else fok_shallow c b order (replicate (length (bk_levels b)) False) (so_quantity_lots order) 0)"

subsection \<open>Submitting an order\<close>

text \<open>How the matching loop was left: by its condition, or by the early return.\<close>

datatype loop_exit = Loop_done | Report_overflow

definition report_overflow :: "match_result \<Rightarrow> u64 \<Rightarrow> match_result" where
  "report_overflow r remaining =
     (let r1 = r\<lparr>mr_execution_report_overflow := True, mr_remaining_quantity_lots := remaining\<rparr> in
      if mr_filled_quantity_lots r1 = 0 then
        r1\<lparr>mr_status := RejectedExecutionReportCapacity, mr_rejected_quantity_lots := remaining\<rparr>
      else r1\<lparr>mr_accepted := True, mr_status := PartiallyFilledExecutionReportCapacity\<rparr>)"

definition fill_head ::
  "book_config \<Rightarrow> sim_order \<Rightarrow> nat \<Rightarrow> nat \<Rightarrow> u64 \<Rightarrow> matching_book \<Rightarrow> match_result \<Rightarrow>
   matching_book \<times> match_result" where
  "fill_head c incoming li s fill_qty b r =
     (let b1 = upd_slot s (\<lambda>m. m\<lparr>sl_remaining := sl_remaining m - fill_qty\<rparr>) b;
          b2 = upd_level li (\<lambda>l. l\<lparr>lv_total := lv_total l - fill_qty\<rparr>) b1;
          r1 = r\<lparr>mr_filled_quantity_lots := mr_filled_quantity_lots r + fill_qty\<rparr>;
          r2 = append_executions c r1 incoming (sl_order (bk_orders b2 ! s)) (lv_price (bk_levels b2 ! li)) fill_qty
      in (if sl_remaining (bk_orders b2 ! s) = 0 then remove_head_order c li b2 else b2, r2))"

partial_function (option) match_loop ::
  "book_config \<Rightarrow> sim_order \<Rightarrow> u64 \<Rightarrow> matching_book \<Rightarrow> match_result \<Rightarrow>
   (matching_book \<times> match_result \<times> u64 \<times> loop_exit) option" where
  "match_loop c incoming remaining b r =
     (if remaining = 0 then Some (b, r, remaining, Loop_done)
      else case best_crossing_level c b (so_side incoming) (so_price_ticks incoming) of
        None \<Rightarrow> Some (b, r, remaining, Loop_done)
      | Some li \<Rightarrow>
          (case lv_head (bk_levels b ! li) of
             None \<Rightarrow> match_loop c incoming remaining (upd_level li (\<lambda>l. l\<lparr>lv_active := False\<rparr>) b) r
           | Some s \<Rightarrow>
               if \<not> can_append_fill_reports c r then
                 Some (b, report_overflow r remaining, remaining, Report_overflow)
               else
                 (let fill_qty = min remaining (sl_remaining (bk_orders b ! s)) in
                  match_loop c incoming (remaining - fill_qty)
                    (fst (fill_head c incoming li s fill_qty b r))
                    (snd (fill_head c incoming li s fill_qty b r)))))"

declare match_loop.simps [code]

definition finish_submit ::
  "book_config \<Rightarrow> sim_order \<Rightarrow> u64 \<Rightarrow> matching_book \<Rightarrow> match_result \<Rightarrow> matching_book \<times> match_result" where
  "finish_submit c incoming remaining b r0 =
     (let r1 = r0\<lparr>mr_remaining_quantity_lots := remaining\<rparr> in
      if remaining = 0 then (b, r1\<lparr>mr_accepted := True, mr_status := Filled\<rparr>)
      else
        let r2 = (if 0 < mr_filled_quantity_lots r1
                  then r1\<lparr>mr_accepted := True, mr_status := PartiallyFilled\<rparr> else r1)
        in if so_time_in_force incoming = GTC then
             (case rest_order c (incoming\<lparr>so_quantity_lots := remaining\<rparr>) remaining b of
                (b', True) \<Rightarrow>
                  (b', r2\<lparr>mr_accepted := True, mr_rested := True,
                     mr_status := (if 0 < mr_filled_quantity_lots r2 then PartiallyFilled else Resting),
                     mr_remaining_quantity_lots := remaining\<rparr>)
              | (b', False) \<Rightarrow>
                  (b', if 0 < mr_filled_quantity_lots r2
                       then r2\<lparr>mr_residual_rejected := True, mr_rejected_quantity_lots := remaining,
                              mr_status := PartiallyFilledResidualRejected\<rparr>
                       else r2\<lparr>mr_rejected_quantity_lots := remaining\<rparr>))
           else (b, r2))"

definition submit_limit ::
  "book_config \<Rightarrow> sim_order \<Rightarrow> matching_book \<Rightarrow> (matching_book \<times> match_result) option" where
  "submit_limit c order b =
     (let r0 = default_match_result\<lparr>mr_order_id := so_order_id order,
                 mr_remaining_quantity_lots := so_quantity_lots order\<rparr> in
      if \<not> is_valid_order order \<or> find_slot b (so_order_id order) \<noteq> None then Some (b, r0)
      else if so_time_in_force order = FOK \<and> \<not> fok_preflight_passes c b order then Some (b, r0)
      else do {
        (b1, r1, remaining, exit) \<leftarrow> match_loop c order (so_quantity_lots order) b r0;
        Some (case exit of
                Report_overflow \<Rightarrow> (b1, r1)
              | Loop_done \<Rightarrow> finish_submit c order remaining b1 r1)
      })"

subsection \<open>Cancelling and reading\<close>

definition cancel :: "book_config \<Rightarrow> order_id \<Rightarrow> matching_book \<Rightarrow> matching_book \<times> cancel_result" where
  "cancel c order_id b =
     (let r0 = default_cancel_result\<lparr>cr_order_id := order_id\<rparr> in
      case find_slot b order_id of
        None \<Rightarrow> (b, r0)
      | Some s \<Rightarrow>
          let slot = bk_orders b ! s in
          (unlink_order c s b,
           r0\<lparr>cr_canceled := True, cr_agent_id := so_agent_id (sl_order slot),
              cr_side := so_side (sl_order slot), cr_price_ticks := so_price_ticks (sl_order slot),
              cr_canceled_quantity_lots := sl_remaining slot, cr_status := Canceled\<rparr>))"

definition best_bid :: "book_config \<Rightarrow> matching_book \<Rightarrow> int option" where
  "best_bid c b = map_option (\<lambda>i. lv_price (bk_levels b ! i)) (best_level c b Buy)"

definition best_ask :: "book_config \<Rightarrow> matching_book \<Rightarrow> int option" where
  "best_ask c b = map_option (\<lambda>i. lv_price (bk_levels b ! i)) (best_level c b Sell)"

definition total_quantity_at_price :: "book_config \<Rightarrow> matching_book \<Rightarrow> side \<Rightarrow> int \<Rightarrow> u64" where
  "total_quantity_at_price c b s p =
     (case find_level c b s p of None \<Rightarrow> 0 | Some i \<Rightarrow> lv_total (bk_levels b ! i))"

definition remaining_quantity :: "matching_book \<Rightarrow> order_id \<Rightarrow> u64 option" where
  "remaining_quantity b order_id =
     map_option (\<lambda>s. sl_remaining (bk_orders b ! s)) (find_slot b order_id)"

text \<open>The levels a shallow book visits, best first; each is visited once.\<close>

function shallow_levels :: "matching_book \<Rightarrow> side \<Rightarrow> bool list \<Rightarrow> nat list" where
  "shallow_levels b s visited =
     (if length visited = length (bk_levels b) then
        (case best_unvisited_level b s visited of
           None \<Rightarrow> []
         | Some i \<Rightarrow> i # shallow_levels b s (visited[i := True]))
      else [])"
  by pat_completeness auto
termination
proof (relation "measure (\<lambda>(b, s, visited). card {i. i < length visited \<and> \<not> visited ! i})", goal_cases)
  case (2 b s visited i)
  then show ?case
    using unvisited_decreases [of i visited] best_unvisited_visits(1) [OF 2(2)] by simp
qed simp

declare shallow_levels.simps [simp del]

definition level_sequence :: "book_config \<Rightarrow> matching_book \<Rightarrow> side \<Rightarrow> nat list" where
  "level_sequence c b s =
     (if uses_deep_level_index c then sorted_indices_for b s
      else shallow_levels b s (replicate (length (bk_levels b)) False))"

definition copy_side_depth :: "book_config \<Rightarrow> nat \<Rightarrow> matching_book \<Rightarrow> side \<Rightarrow> depth_level list" where
  "copy_side_depth c depth b s =
     map (\<lambda>i. \<lparr>dl_price_ticks = lv_price (bk_levels b ! i), dl_quantity_lots = lv_total (bk_levels b ! i)\<rparr>)
       (take depth (level_sequence c b s))"

definition copy_depth :: "book_config \<Rightarrow> nat \<Rightarrow> matching_book \<Rightarrow> depth_snapshot \<Rightarrow> depth_snapshot" where
  "copy_depth c depth b snapshot =
     snapshot\<lparr>ds_bids := copy_side_depth c depth b Buy, ds_asks := copy_side_depth c depth b Sell\<rparr>"

text \<open>\<open>for_each_level\<close> threads the state of the visitor and stops when it answers false.\<close>

fun visit_levels ::
  "(int \<Rightarrow> u64 \<Rightarrow> 'v \<Rightarrow> 'v \<times> bool) \<Rightarrow> matching_book \<Rightarrow> nat list \<Rightarrow> 'v \<Rightarrow> 'v" where
  "visit_levels visitor b [] v = v"
| "visit_levels visitor b (i # is) v =
     (case visitor (lv_price (bk_levels b ! i)) (lv_total (bk_levels b ! i)) v of
        (v', go_on) \<Rightarrow> if go_on then visit_levels visitor b is v' else v')"

definition for_each_level ::
  "book_config \<Rightarrow> matching_book \<Rightarrow> side \<Rightarrow> (int \<Rightarrow> u64 \<Rightarrow> 'v \<Rightarrow> 'v \<times> bool) \<Rightarrow> 'v \<Rightarrow> 'v" where
  "for_each_level c b s visitor = visit_levels visitor b (level_sequence c b s)"

end
