(* ===== verification/SlotQueue.thy ===== *)
theory SlotQueue
  imports MatchingBook
begin

section \<open>The doubly linked queues inside the slot array\<close>

text \<open>
  A queue of a price level is a path through the slot array. \<open>seg os li p xs nx\<close>
  says that the slots \<open>xs\<close> are linked in both directions, belong to level
  \<open>li\<close>, and are entered from \<open>p\<close> and left to \<open>nx\<close>. The lemmas give the effect
  of the pointer writes of the code on such paths.
\<close>

definition first_or :: "nat option \<Rightarrow> nat list \<Rightarrow> nat option" where
  "first_or d xs = (case xs of [] \<Rightarrow> d | x # _ \<Rightarrow> Some x)"

definition last_or :: "nat option \<Rightarrow> nat list \<Rightarrow> nat option" where
  "last_or d xs = (if xs = [] then d else Some (last xs))"

lemma first_or_simps [simp]:
  "first_or d [] = d" "first_or d (x # xs) = Some x"
  "first_or d (xs @ ys) = first_or (first_or d ys) xs"
  by (simp_all add: first_or_def split: list.splits)

lemma last_or_simps [simp]:
  "last_or d [] = d" "last_or d (xs @ [x]) = Some x"
  "last_or d (x # xs) = last_or (Some x) xs"
  by (simp_all add: last_or_def)

lemma first_or_None_iff [simp]: "first_or None xs = None \<longleftrightarrow> xs = []"
  by (cases xs) simp_all

lemma last_or_None_iff [simp]: "last_or None xs = None \<longleftrightarrow> xs = []"
  by (simp add: last_or_def)

fun seg :: "order_slot list \<Rightarrow> nat \<Rightarrow> nat option \<Rightarrow> nat list \<Rightarrow> nat option \<Rightarrow> bool" where
  "seg os li p [] nx = True"
| "seg os li p (x # xs) nx =
     (x < length os \<and> sl_active (os ! x) \<and> sl_level_index (os ! x) = Some li
      \<and> sl_prev (os ! x) = p \<and> sl_next (os ! x) = first_or nx xs \<and> seg os li (Some x) xs nx)"

lemma seg_append:
  "seg os li p (xs @ ys) nx \<longleftrightarrow> seg os li p xs (first_or nx ys) \<and> seg os li (last_or p xs) ys nx"
  by (induction xs arbitrary: p) (auto simp: last_or_def)

lemma seg_mem:
  "seg os li p xs nx \<Longrightarrow> x \<in> set xs \<Longrightarrow>
   x < length os \<and> sl_active (os ! x) \<and> sl_level_index (os ! x) = Some li"
  by (induction xs arbitrary: p) auto

lemma seg_cong:
  assumes "length os' = length os"
    and "\<And>x. x \<in> set xs \<Longrightarrow> sl_active (os' ! x) = sl_active (os ! x)
        \<and> sl_level_index (os' ! x) = sl_level_index (os ! x)
        \<and> sl_prev (os' ! x) = sl_prev (os ! x) \<and> sl_next (os' ! x) = sl_next (os ! x)"
  shows "seg os' li p xs nx = seg os li p xs nx"
  using assms(2) by (induction xs arbitrary: p) (auto simp: assms(1))

lemma seg_frame:
  assumes "y \<notin> set xs"
  shows "seg (os[y := v]) li p xs nx = seg os li p xs nx"
proof (rule seg_cong)
  fix x assume "x \<in> set xs"
  with assms have "y \<noteq> x" by auto
  then show "sl_active (os[y := v] ! x) = sl_active (os ! x)
      \<and> sl_level_index (os[y := v] ! x) = sl_level_index (os ! x)
      \<and> sl_prev (os[y := v] ! x) = sl_prev (os ! x) \<and> sl_next (os[y := v] ! x) = sl_next (os ! x)"
    by simp
qed simp

lemma seg_set_next:
  assumes "seg os li p (xs @ [x]) nx" "x \<notin> set xs"
  shows "seg (os[x := (os ! x)\<lparr>sl_next := nx'\<rparr>]) li p (xs @ [x]) nx'"
proof -
  have "seg os li p xs (Some x)" and x: "x < length os" "sl_active (os ! x)"
      "sl_level_index (os ! x) = Some li" "sl_prev (os ! x) = last_or p xs"
    using assms(1) by (auto simp: seg_append)
  then have "seg (os[x := (os ! x)\<lparr>sl_next := nx'\<rparr>]) li p xs (Some x)"
    using assms(2) by (simp add: seg_frame)
  then show ?thesis
    using x by (simp add: seg_append)
qed

lemma seg_set_prev:
  assumes "seg os li p (x # xs) nx" "x \<notin> set xs"
  shows "seg (os[x := (os ! x)\<lparr>sl_prev := p'\<rparr>]) li p' (x # xs) nx"
  using assms by (simp add: seg_frame)

subsection \<open>Walking a queue\<close>

primrec walk :: "nat \<Rightarrow> order_slot list \<Rightarrow> nat option \<Rightarrow> nat list" where
  "walk 0 os x = []"
| "walk (Suc fuel) os x = (case x of None \<Rightarrow> [] | Some s \<Rightarrow> s # walk fuel os (sl_next (os ! s)))"

lemma walk_None [simp]: "walk n os None = []"
  by (cases n) simp_all

lemma seg_walk: "seg os li p xs None \<Longrightarrow> length xs \<le> n \<Longrightarrow> walk n os (first_or None xs) = xs"
proof (induction xs arbitrary: p n)
  case (Cons x xs)
  then show ?case by (cases n) auto
qed simp

lemma seg_length:
  assumes "seg os li p xs nx" "distinct xs"
  shows "length xs \<le> length os"
proof -
  have "set xs \<subseteq> {..<length os}"
    using seg_mem [OF assms(1)] by auto
  then have "card (set xs) \<le> card {..<length os}"
    by (intro card_mono) auto
  then show ?thesis
    using assms(2) by (simp add: distinct_card)
qed

subsection \<open>Linking and unlinking\<close>

text \<open>The pointer writes of \<open>unlink_order\<close> on the neighbours of a slot.\<close>

definition bypass :: "order_slot list \<Rightarrow> nat option \<Rightarrow> nat option \<Rightarrow> order_slot list" where
  "bypass os p nx =
     (let os1 = (case p of None \<Rightarrow> os | Some i \<Rightarrow> os[i := (os ! i)\<lparr>sl_next := nx\<rparr>])
      in case nx of None \<Rightarrow> os1 | Some j \<Rightarrow> os1[j := (os1 ! j)\<lparr>sl_prev := p\<rparr>])"

definition same_payload :: "order_slot \<Rightarrow> order_slot \<Rightarrow> bool" where
  "same_payload x y \<longleftrightarrow> sl_order x = sl_order y \<and> sl_remaining x = sl_remaining y
     \<and> sl_active x = sl_active y \<and> sl_level_index x = sl_level_index y"

lemma bypass_payload:
  "length (bypass os p nx) = length os" "same_payload (bypass os p nx ! x) (os ! x)"
  by (simp_all add: bypass_def Let_def same_payload_def nth_upd split: option.splits)

lemma bypass_other:
  "p \<noteq> Some x \<Longrightarrow> nx \<noteq> Some x \<Longrightarrow> bypass os p nx ! x = os ! x"
  by (auto simp: bypass_def Let_def nth_upd split: option.splits)

lemma seg_bypass:
  assumes "seg os li None (xs @ s # ys) None" "distinct (xs @ s # ys)"
  shows "seg (bypass os (last_or None xs) (first_or None ys)) li None (xs @ ys) None"
proof -
  have left: "seg os li None xs (Some s)" and right: "seg os li (Some s) ys None"
    using assms(1) by (simp_all add: seg_append)
  define os1 where "os1 = (case last_or None xs of None \<Rightarrow> os
      | Some i \<Rightarrow> os[i := (os ! i)\<lparr>sl_next := first_or None ys\<rparr>])"
  have left1: "seg os1 li None xs (first_or None ys)" and right1: "seg os1 li (Some s) ys None"
  proof -
    show "seg os1 li None xs (first_or None ys)"
      using left assms(2) seg_set_next [of os li None "butlast xs" "last xs"]
      by (cases xs rule: rev_cases) (auto simp: os1_def)
    have "\<And>i. last_or None xs = Some i \<Longrightarrow> i \<notin> set ys"
      using assms(2) by (auto simp: last_or_def split: if_splits dest: last_in_set)
    then show "seg os1 li (Some s) ys None"
      using right by (auto simp: os1_def seg_frame split: option.splits)
  qed
  show ?thesis
  proof (cases ys)
    case Nil
    then show ?thesis
      using left1 unfolding os1_def Nil by (cases "last_or None xs") (simp_all add: bypass_def Let_def)
  next
    case (Cons y ys')
    let ?os2 = "os1[y := (os1 ! y)\<lparr>sl_prev := last_or None xs\<rparr>]"
    have "bypass os (last_or None xs) (first_or None ys) = ?os2"
      by (cases "last_or None xs") (simp_all add: Cons bypass_def os1_def Let_def)
    moreover have "seg ?os2 li (last_or None xs) ys None"
      using right1 Cons assms(2) seg_set_prev [of os1 li "Some s" y ys' None] by simp
    moreover have "seg ?os2 li None xs (first_or None ys)"
      using left1 Cons assms(2) by (subst seg_frame) auto
    ultimately show ?thesis
      by (simp add: seg_append)
  qed
qed

lemma seg_append_slot:
  fixes ord :: sim_order and qty :: u64
  assumes "seg os li None xs None" "distinct xs" "s \<notin> set xs" "s < length os"
  defines "os1 \<equiv> os[s := \<lparr>sl_order = ord, sl_remaining = qty, sl_level_index = Some li,
                 sl_prev = last_or None xs, sl_next = None, sl_active = True\<rparr>]"
  shows "seg (case last_or None xs of None \<Rightarrow> os1 | Some t \<Rightarrow> os1[t := (os1 ! t)\<lparr>sl_next := Some s\<rparr>])
           li None (xs @ [s]) None"
proof (cases xs rule: rev_cases)
  case Nil
  then show ?thesis
    using assms(4) by (simp add: os1_def)
next
  case (snoc xs' t)
  have "seg os1 li None xs None"
    using assms(1,3) by (simp add: os1_def seg_frame)
  then have "seg (os1[t := (os1 ! t)\<lparr>sl_next := Some s\<rparr>]) li None xs (Some s)"
    using snoc assms(2) seg_set_next [of os1 li None xs' t None "Some s"] by simp
  moreover have "seg (os1[t := (os1 ! t)\<lparr>sl_next := Some s\<rparr>]) li (Some t) [s] None"
    using snoc assms(3,4) by (auto simp: os1_def)
  ultimately have "seg (os1[t := (os1 ! t)\<lparr>sl_next := Some s\<rparr>]) li None (xs @ [s]) None"
    using snoc by (subst seg_append) simp
  then show ?thesis
    using snoc by simp
qed

end
