(* ===== verification/IndexedPool.thy ===== *)
theory IndexedPool
  imports RobinHoodIndex
begin

section \<open>Pools of array slots with a free stack and a key index\<close>

text \<open>
  The order slots and the price levels of the book follow one discipline: an
  array whose entry is free or holds a key, a stack of free entries (an array
  and a pointer; the part before the pointer is stale), and an index from keys
  to entries. This theory states the discipline once, over the list of keys
  (\<^const>\<open>None\<close> for a free entry), and proves that taking an entry, giving it
  back and the two index updates keep it.
\<close>

definition pool_inv :: "'k option list \<Rightarrow> nat list \<Rightarrow> nat \<Rightarrow> bool" where
  "pool_inv keys stack ptr \<longleftrightarrow>
     length stack = length keys \<and> ptr \<le> length keys \<and> distinct (drop ptr stack)
     \<and> set (drop ptr stack) = {i. i < length keys \<and> keys ! i = None}
     \<and> (\<forall>i<length keys. \<forall>j<length keys. keys ! i \<noteq> None \<longrightarrow> keys ! i = keys ! j \<longrightarrow> i = j)"

definition index_agrees ::
  "('k \<Rightarrow> nat) \<Rightarrow> nat \<Rightarrow> ('k, nat) rh_entry list \<Rightarrow> nat \<Rightarrow> 'k option list \<Rightarrow> bool" where
  "index_agrees h n t sz keys \<longleftrightarrow>
     length t = n \<and> rh_wf h t \<and> sz = length (rh_alist t)
     \<and> (\<forall>k i. rh_map t k = Some i \<longleftrightarrow> i < length keys \<and> keys ! i = Some k)"

lemma pool_invI:
  assumes "length stack = length keys" "ptr \<le> length keys" "distinct (drop ptr stack)"
    and "set (drop ptr stack) = {i. i < length keys \<and> keys ! i = None}"
    and "\<And>i j. i < length keys \<Longrightarrow> j < length keys \<Longrightarrow> keys ! i \<noteq> None \<Longrightarrow> keys ! i = keys ! j \<Longrightarrow> i = j"
  shows "pool_inv keys stack ptr"
  unfolding pool_inv_def using assms by blast

lemma index_agreesI:
  assumes "length t = n" "rh_wf h t" "length (rh_alist t) = sz"
    and "\<And>k i. rh_map t k = Some i \<longleftrightarrow> i < length keys \<and> keys ! i = Some k"
  shows "index_agrees h n t sz keys"
  unfolding index_agrees_def using assms(1,2,4) assms(3) [symmetric] by blast

lemma index_agrees_map:
  "index_agrees h n t sz keys \<Longrightarrow> rh_map t k = Some i \<longleftrightarrow> i < length keys \<and> keys ! i = Some k"
  by (simp add: index_agrees_def)

subsection \<open>The free stack\<close>

lemma pool_unique:
  "pool_inv keys stack ptr \<Longrightarrow> i < length keys \<Longrightarrow> j < length keys \<Longrightarrow>
   keys ! i = Some k \<Longrightarrow> keys ! j = Some k \<Longrightarrow> i = j"
  unfolding pool_inv_def by (metis option.distinct(1))

lemma pool_used_count:
  assumes "pool_inv keys stack ptr"
  shows "card {i. i < length keys \<and> keys ! i \<noteq> None} = ptr"
proof -
  let ?free = "{i. i < length keys \<and> keys ! i = None}"
  have "card ?free = length keys - ptr"
    using assms distinct_card [of "drop ptr stack"] by (auto simp: pool_inv_def)
  moreover have "{i. i < length keys \<and> keys ! i \<noteq> None} = {..<length keys} - ?free"
    by auto
  moreover have "card ({..<length keys} - ?free) = length keys - card ?free"
    using card_Diff_subset [of ?free "{..<length keys}"] by auto
  ultimately show ?thesis
    using assms by (simp add: pool_inv_def)
qed

lemma pool_top_free:
  assumes "pool_inv keys stack ptr" "ptr < length keys"
  shows "stack ! ptr < length keys" "keys ! (stack ! ptr) = None"
proof -
  have "stack ! ptr \<in> set (drop ptr stack)"
    using assms by (auto simp: pool_inv_def Cons_nth_drop_Suc [symmetric])
  then show "stack ! ptr < length keys" "keys ! (stack ! ptr) = None"
    using assms by (auto simp: pool_inv_def)
qed

lemma pool_pop:
  assumes inv: "pool_inv keys stack ptr" and "ptr < length keys"
    and new: "\<And>i. i < length keys \<Longrightarrow> keys ! i \<noteq> Some k"
  shows "pool_inv (keys[stack ! ptr := Some k]) stack (Suc ptr)"
proof -
  have split: "drop ptr stack = stack ! ptr # drop (Suc ptr) stack"
    using assms(1,2) by (simp add: pool_inv_def Cons_nth_drop_Suc)
  then have "distinct (stack ! ptr # drop (Suc ptr) stack)"
    and "set (stack ! ptr # drop (Suc ptr) stack) = {i. i < length keys \<and> keys ! i = None}"
    using inv by (simp_all only: pool_inv_def)
  then have "set (drop (Suc ptr) stack) = {i. i < length keys \<and> keys ! i = None} - {stack ! ptr}"
    and dist: "distinct (drop (Suc ptr) stack)"
    by (simp_all, blast)
  moreover have "{i. i < length keys \<and> keys ! i = None} - {stack ! ptr}
      = {i. i < length keys \<and> keys[stack ! ptr := Some k] ! i = None}"
    using pool_top_free(1) [OF assms(1,2)] by (auto simp: nth_list_update)
  ultimately have "set (drop (Suc ptr) stack) = {i. i < length keys \<and> keys[stack ! ptr := Some k] ! i = None}"
    by (simp only:)
  moreover have "i = j" if "i < length keys" "j < length keys" "keys[stack ! ptr := Some k] ! i \<noteq> None"
      "keys[stack ! ptr := Some k] ! i = keys[stack ! ptr := Some k] ! j" for i j
    using that pool_unique [OF inv, of i j] new [of i] new [of j] pool_top_free(1) [OF assms(1,2)]
    by (cases "i = stack ! ptr"; cases "j = stack ! ptr") auto
  moreover have "length stack = length keys"
    using inv by (simp add: pool_inv_def)
  ultimately show ?thesis
    using assms(2) dist by (intro pool_invI) (simp_all only: length_list_update Suc_le_eq)
qed

lemma pool_push:
  assumes inv: "pool_inv keys stack ptr" and i: "i < length keys" "keys ! i \<noteq> None"
  shows "pool_inv (keys[i := None]) (stack[ptr - 1 := i]) (ptr - 1)" "0 < ptr"
proof -
  have "{j. j < length keys \<and> keys ! j \<noteq> None} \<noteq> {}"
    using i by auto
  then show pos: "0 < ptr"
    using pool_used_count [OF inv] by (metis card_gt_0_iff finite_Collect_conjI finite_Collect_less_nat)
  have len: "ptr - 1 < length stack"
    using inv pos by (auto simp: pool_inv_def)
  have "drop (ptr - 1) (stack[ptr - 1 := i]) = i # drop ptr stack"
    using len pos by (subst Cons_nth_drop_Suc [symmetric]) simp_all
  then show "pool_inv (keys[i := None]) (stack[ptr - 1 := i]) (ptr - 1)"
    using inv i unfolding pool_inv_def by (auto simp: nth_list_update)
qed

text \<open>Giving back the entry just taken restores the stack.\<close>

lemma push_after_pop: "stack[ptr := stack ! ptr] = stack"
  by simp

lemma pool_init: "pool_inv (replicate n None) [0..<n] 0"
  by (auto simp: pool_inv_def)

subsection \<open>The index\<close>

lemma alist_init [simp]: "\<not> entry_occupied e \<Longrightarrow> rh_alist (replicate n e) = []"
  by (simp add: rh_alist_def)

lemma wf_init: "\<not> entry_occupied e \<Longrightarrow> rh_wf h (replicate n e)"
  by (auto simp: rh_wf_def at_home_def rich_before_def Let_def)

lemma index_init: "\<not> entry_occupied e \<Longrightarrow> index_agrees h n (replicate n e) 0 (replicate m None)"
  by (auto simp: index_agrees_def wf_init rh_map_def)

text \<open>A Robin Hood table whose values are array entries.\<close>

locale slot_index = robin_hood h n e0
  for h :: "'k \<Rightarrow> nat" and n :: nat and e0 :: "('k, nat) rh_entry"
begin

lemma agrees_invar: "index_agrees h n t sz keys \<Longrightarrow> rh_invar t"
  by (simp add: index_agrees_def rh_invar_def)

lemma agrees_size:
  assumes "index_agrees h n t sz keys" "pool_inv keys stack ptr"
  shows "sz = ptr"
proof -
  have inv: "rh_invar t" using agrees_invar assms(1) .
  let ?used = "{i. i < length keys \<and> keys ! i \<noteq> None}"
  have d: "distinct (map fst (rh_alist t))"
    using invarD(4) [OF inv] .
  have "snd ` set (rh_alist t) = ?used"
  proof (intro subset_antisym subsetI)
    fix i assume "i \<in> snd ` set (rh_alist t)"
    then obtain k where "(k, i) \<in> set (rh_alist t)" by auto
    then have "rh_map t k = Some i"
      using d by (simp add: rh_map_def)
    then show "i \<in> ?used"
      using assms(1) by (auto simp: index_agrees_def)
  next
    fix i assume "i \<in> ?used"
    then obtain k where "rh_map t k = Some i"
      using index_agrees_map [OF assms(1)] by auto
    then show "i \<in> snd ` set (rh_alist t)"
      by (auto simp: rh_map_def dest: map_of_SomeD intro: image_eqI [where x = "(k, i)"])
  qed
  moreover have "inj_on snd (set (rh_alist t))"
  proof (rule inj_onI)
    fix x y assume xy: "x \<in> set (rh_alist t)" "y \<in> set (rh_alist t)" "snd x = snd y"
    then obtain k1 k2 v where kv: "x = (k1, v)" "y = (k2, v)"
      using xy(3) by (metis prod.collapse)
    then have "rh_map t k1 = Some v" "rh_map t k2 = Some v"
      using xy d by (simp_all add: rh_map_def)
    then have "Some k1 = Some k2"
      using assms(1) unfolding index_agrees_def by metis
    then show "x = y" using kv by simp
  qed
  ultimately have "card (set (rh_alist t)) = card ?used"
    using card_image by force
  moreover have "card (set (rh_alist t)) = length (rh_alist t)"
    using d by (simp add: distinct_card distinct_map)
  ultimately show ?thesis
    using assms pool_used_count [OF assms(2)] by (simp add: index_agrees_def)
qed

lemma agrees_lookup:
  "index_agrees h n t sz keys \<Longrightarrow> rh_find h t k = Some i \<longleftrightarrow> i < length keys \<and> keys ! i = Some k"
  by (simp add: find_correct [OF agrees_invar]) (simp add: index_agrees_def)

lemma agrees_lookup_None:
  assumes "index_agrees h n t sz keys"
  shows "rh_find h t k = None \<longleftrightarrow> (\<forall>i<length keys. keys ! i \<noteq> Some k)"
  using agrees_lookup [OF assms, of k] by (cases "rh_find h t k") auto

lemma agrees_insert:
  assumes ag: "index_agrees h n t sz keys" and room: "sz < n"
    and new: "\<And>j. j < length keys \<Longrightarrow> keys ! j \<noteq> Some k"
    and i: "i < length keys" "keys ! i = None"
  shows "\<exists>t'. rh_insert h t k i = (t', True) \<and> index_agrees h n t' (Suc sz) (keys[i := Some k])"
proof -
  have inv: "rh_invar t" using agrees_invar ag .
  have none: "rh_map t k = None"
    using ag new unfolding index_agrees_def by (metis not_None_eq)
  have free: "0 < rh_free t"
    using ag room by (simp add: rh_free_def index_agrees_def)
  obtain t' where t': "rh_insert h t k i = (t', True)" "rh_invar t'" "rh_map t' = (rh_map t)(k \<mapsto> i)"
      "rh_free t = Suc (rh_free t')"
    using insert_correct [OF inv none free] by blast
  have "length (rh_alist t') = Suc sz"
    using t'(4) ag alist_length [of t'] invarD(1) [OF t'(2)]
    by (simp add: rh_free_def index_agrees_def)
  moreover have "rh_map t' k' = Some j \<longleftrightarrow> j < length (keys[i := Some k]) \<and> keys[i := Some k] ! j = Some k'" for k' j
    using index_agrees_map [OF ag, of k' j] t'(3) i new [of j] by (cases "k' = k"; cases "j = i") auto
  ultimately have "index_agrees h n t' (Suc sz) (keys[i := Some k])"
    using t'(2) by (intro index_agreesI) (simp_all only: rh_invar_def)
  then show ?thesis
    using t'(1) by blast
qed

lemma agrees_remove:
  assumes ag: "index_agrees h n t sz keys" and pool: "pool_inv keys stack ptr"
    and i: "i < length keys" "keys ! i = Some k"
  shows "\<exists>t'. rh_remove h e0 t k = (t', True) \<and> index_agrees h n t' (sz - 1) (keys[i := None])"
proof -
  have inv: "rh_invar t" using agrees_invar ag .
  have some: "rh_map t k = Some i"
    using ag i by (simp add: index_agrees_def)
  obtain t' where t': "rh_remove h e0 t k = (t', True)" "rh_invar t'" "rh_map t' = (rh_map t)(k := None)"
      "rh_free t' = Suc (rh_free t)"
    using remove_correct [OF inv some] by blast
  have "length (rh_alist t') = sz - 1"
    using t'(4) ag alist_length [of t] invarD(1) [OF inv]
    by (simp add: rh_free_def index_agrees_def)
  moreover have "rh_map t' k' = Some j \<longleftrightarrow> j < length (keys[i := None]) \<and> keys[i := None] ! j = Some k'" for k' j
    using index_agrees_map [OF ag, of k' j] t'(3) i pool_unique [OF pool, of j i k]
    by (cases "k' = k"; cases "j = i") auto
  ultimately have "index_agrees h n t' (sz - 1) (keys[i := None])"
    using t'(2) by (intro index_agreesI) (simp_all only: rh_invar_def)
  then show ?thesis
    using t'(1) by blast
qed

text \<open>Inserting a key and removing it again leaves the same agreement.\<close>

lemma agrees_insert_remove:
  assumes ag: "index_agrees h n t sz keys" and room: "sz < n"
    and new: "\<And>j. j < length keys \<Longrightarrow> keys ! j \<noteq> Some k"
    and ins: "rh_insert h t k i = (t', True)"
  shows "\<exists>t''. rh_remove h e0 t' k = (t'', True) \<and> index_agrees h n t'' sz keys"
proof -
  have inv: "rh_invar t" using agrees_invar ag .
  have none: "rh_map t k = None"
    using ag new unfolding index_agrees_def by (metis not_None_eq)
  have free: "0 < rh_free t"
    using ag room by (simp add: rh_free_def index_agrees_def)
  have sz: "sz = length (rh_alist t)"
    using ag by (simp add: index_agrees_def)
  have t': "rh_invar t'" "rh_map t' = (rh_map t)(k \<mapsto> i)" "rh_free t = Suc (rh_free t')"
    using insert_correct [OF inv none free, of i] ins by auto
  obtain t'' where t'': "rh_remove h e0 t' k = (t'', True)" "rh_invar t''"
      "rh_map t'' = (rh_map t')(k := None)" "rh_free t'' = Suc (rh_free t')"
    using remove_correct [OF t'(1), of k i] t'(2) by auto
  have "rh_map t'' = rh_map t"
    using t''(3) t'(2) none by (simp add: fun_upd_idem)
  moreover have "length (rh_alist t'') = sz"
    using t''(4) t'(3) sz alist_length [of t] alist_length [of t''] invarD(1) [OF inv] invarD(1) [OF t''(2)]
    unfolding rh_free_def by linarith
  ultimately have "index_agrees h n t'' sz keys"
    using t''(2) ag by (simp add: index_agrees_def rh_invar_def)
  then show ?thesis
    using t''(1) by blast
qed

end

end
