(* ===== verification/BookInvariant.thy ===== *)
theory BookInvariant
  imports SlotQueue IndexedPool
begin

section \<open>The invariant of the matching book\<close>

text \<open>
  \<open>book_inv\<close> says what every operation of the book may rely on: both pools with
  their free stacks and indices agree, the counters count, the sorted arrays of
  a deep book list the active levels of their side best price first, and every
  active level carries a non-empty, doubly linked queue of exactly its slots
  with the right total (as a 64-bit word). The operations keep it.
\<close>

interpretation order_index: slot_index "hash_order_id n" n empty_index_entry for n
  by unfold_locales (auto simp: hash_order_id_def empty_index_entry_def nat_less_iff)

interpretation level_index: slot_index "hash_level_key n" n empty_level_index_entry for n
  by unfold_locales (auto simp: hash_level_key_def empty_level_index_entry_def Let_def nat_less_iff)

subsection \<open>The invariant\<close>

definition slot_key :: "order_slot \<Rightarrow> order_id option" where
  "slot_key s = (if sl_active s then Some (so_order_id (sl_order s)) else None)"

definition level_key :: "price_level \<Rightarrow> (side \<times> int) option" where
  "level_key l = (if lv_active l then Some (lv_side l, lv_price l) else None)"

abbreviation slot_keys :: "matching_book \<Rightarrow> order_id option list" where
  "slot_keys b \<equiv> map slot_key (bk_orders b)"

abbreviation level_keys :: "matching_book \<Rightarrow> (side \<times> int) option list" where
  "level_keys b \<equiv> map level_key (bk_levels b)"

definition sorted_ok :: "price_level list \<Rightarrow> side \<Rightarrow> nat list \<Rightarrow> bool" where
  "sorted_ok lvs s xs \<longleftrightarrow>
     distinct xs \<and> set xs = {i. i < length lvs \<and> lv_active (lvs ! i) \<and> lv_side (lvs ! i) = s}
     \<and> sorted_wrt (\<lambda>i j. is_better_price s (lv_price (lvs ! i)) (lv_price (lvs ! j))) xs"

definition slots_inv :: "book_config \<Rightarrow> matching_book \<Rightarrow> bool" where
  "slots_inv c b \<longleftrightarrow>
     length (bk_orders b) = order_capacity c
     \<and> pool_inv (slot_keys b) (bk_free_slots b) (bk_free_slots_ptr b)
     \<and> bk_resting_order_count b = bk_free_slots_ptr b
     \<and> index_agrees (hash_order_id (order_index_capacity c)) (order_index_capacity c)
         (bk_index b) (bk_index_size b) (slot_keys b)"

definition levels_inv :: "book_config \<Rightarrow> matching_book \<Rightarrow> bool" where
  "levels_inv c b \<longleftrightarrow>
     length (bk_levels b) = price_level_capacity c
     \<and> pool_inv (level_keys b) (bk_free_levels b) (bk_free_levels_ptr b)
     \<and> bk_active_price_level_count b = bk_free_levels_ptr b
     \<and> (uses_deep_level_index c \<longrightarrow>
          index_agrees (hash_level_key (level_index_capacity c)) (level_index_capacity c)
            (bk_level_index b) (bk_level_index_size b) (level_keys b)
          \<and> sorted_ok (bk_levels b) Buy (bk_sorted_bids b)
          \<and> sorted_ok (bk_levels b) Sell (bk_sorted_asks b))"

definition qty_sum :: "order_slot list \<Rightarrow> nat list \<Rightarrow> u64" where
  "qty_sum os q = sum_list (map (\<lambda>s. sl_remaining (os ! s)) q)"

definition member_ok :: "price_level \<Rightarrow> order_slot \<Rightarrow> bool" where
  "member_ok lv x \<longleftrightarrow> so_side (sl_order x) = lv_side lv \<and> so_price_ticks (sl_order x) = lv_price lv
     \<and> sl_remaining x \<noteq> 0"

definition level_ok :: "order_slot list \<Rightarrow> price_level \<Rightarrow> nat \<Rightarrow> nat list \<Rightarrow> bool" where
  "level_ok os lv li q \<longleftrightarrow>
     seg os li None q None \<and> distinct q \<and> lv_head lv = first_or None q \<and> lv_tail lv = last_or None q
     \<and> lv_total lv = qty_sum os q \<and> (\<forall>s\<in>set q. member_ok lv (os ! s))"

definition queues_inv :: "order_slot list \<Rightarrow> price_level list \<Rightarrow> (nat \<Rightarrow> nat list) \<Rightarrow> bool" where
  "queues_inv os lvs qs \<longleftrightarrow>
     (\<forall>li<length lvs. if lv_active (lvs ! li) then level_ok os (lvs ! li) li (qs li)
                      else qs li = [] \<and> lvs ! li = empty_level)
     \<and> (\<forall>li. length lvs \<le> li \<longrightarrow> qs li = [])
     \<and> (\<forall>s<length os. if sl_active (os ! s) then \<exists>li<length lvs. s \<in> set (qs li)
                      else os ! s = empty_slot)"

definition level_queue :: "matching_book \<Rightarrow> nat \<Rightarrow> nat list" where
  "level_queue b li =
     (if li < length (bk_levels b)
      then walk (length (bk_orders b)) (bk_orders b) (lv_head (bk_levels b ! li)) else [])"

definition book_inv :: "book_config \<Rightarrow> matching_book \<Rightarrow> bool" where
  "book_inv c b \<longleftrightarrow>
     slots_inv c b \<and> levels_inv c b \<and> queues_inv (bk_orders b) (bk_levels b) (level_queue b)
     \<and> (\<forall>li<length (bk_levels b). lv_active (bk_levels b ! li) \<longrightarrow> level_queue b li \<noteq> [])"

subsection \<open>Reading the invariant\<close>

lemma queues_level:
  "queues_inv os lvs qs \<Longrightarrow> li < length lvs \<Longrightarrow> lv_active (lvs ! li) \<Longrightarrow> level_ok os (lvs ! li) li (qs li)"
  by (auto simp: queues_inv_def)

lemma queues_inactive:
  "queues_inv os lvs qs \<Longrightarrow> li < length lvs \<Longrightarrow> \<not> lv_active (lvs ! li) \<Longrightarrow> qs li = [] \<and> lvs ! li = empty_level"
  by (auto simp: queues_inv_def)

lemma queues_outside: "queues_inv os lvs qs \<Longrightarrow> length lvs \<le> li \<Longrightarrow> qs li = []"
  by (auto simp: queues_inv_def)

lemma queues_slot:
  "queues_inv os lvs qs \<Longrightarrow> s < length os \<Longrightarrow> sl_active (os ! s) \<Longrightarrow> \<exists>li<length lvs. s \<in> set (qs li)"
  by (auto simp: queues_inv_def)

lemma queues_free_slot:
  "queues_inv os lvs qs \<Longrightarrow> s < length os \<Longrightarrow> \<not> sl_active (os ! s) \<Longrightarrow> os ! s = empty_slot"
  by (auto simp: queues_inv_def)

lemma queues_mem:
  assumes "queues_inv os lvs qs" "s \<in> set (qs li)"
  shows "li < length lvs \<and> lv_active (lvs ! li) \<and> s < length os \<and> sl_active (os ! s)
    \<and> sl_level_index (os ! s) = Some li \<and> member_ok (lvs ! li) (os ! s)"
proof -
  have li: "li < length lvs"
    using assms queues_outside [OF assms(1), of li] by (cases "li < length lvs") auto
  moreover have act: "lv_active (lvs ! li)"
    using assms(2) queues_inactive [OF assms(1) li] by (cases "lv_active (lvs ! li)") auto
  ultimately show ?thesis
    using queues_level [OF assms(1) li act] seg_mem [of os li None "qs li" None s] assms(2)
    by (auto simp: level_ok_def)
qed

lemma queues_disjoint:
  "queues_inv os lvs qs \<Longrightarrow> s \<in> set (qs i) \<Longrightarrow> s \<in> set (qs j) \<Longrightarrow> i = j"
  using queues_mem [of os lvs qs s i] queues_mem [of os lvs qs s j] by auto

lemma queues_walk:
  assumes "queues_inv (bk_orders b) (bk_levels b) qs"
  shows "level_queue b = qs"
proof
  fix li
  show "level_queue b li = qs li"
  proof (cases "li < length (bk_levels b)")
    case True
    show ?thesis
    proof (cases "lv_active (bk_levels b ! li)")
      case active: True
      have "level_ok (bk_orders b) (bk_levels b ! li) li (qs li)"
        using assms True active by (rule queues_level)
      then show ?thesis
        using True seg_length [of "bk_orders b" li None "qs li" None]
        by (auto simp: level_queue_def level_ok_def seg_walk)
    next
      case False
      then show ?thesis
        using queues_inactive [OF assms True False] True by (simp add: level_queue_def empty_level_def)
    qed
  next
    case False
    then show ?thesis
      using queues_outside [OF assms] by (simp add: level_queue_def)
  qed
qed

lemma book_invI:
  assumes "slots_inv c b" "levels_inv c b" "queues_inv (bk_orders b) (bk_levels b) qs"
    and "\<And>li. li < length (bk_levels b) \<Longrightarrow> lv_active (bk_levels b ! li) \<Longrightarrow> qs li \<noteq> []"
  shows "book_inv c b" "level_queue b = qs"
  using assms queues_walk [OF assms(3)] by (auto simp: book_inv_def)

lemma book_invD:
  assumes "book_inv c b"
  shows "slots_inv c b" "levels_inv c b" "queues_inv (bk_orders b) (bk_levels b) (level_queue b)"
    and "\<And>li. li < length (bk_levels b) \<Longrightarrow> lv_active (bk_levels b ! li) \<Longrightarrow> level_queue b li \<noteq> []"
  using assms by (auto simp: book_inv_def)

lemma find_slot_correct:
  assumes "slots_inv c b"
  shows "find_slot b order_id = Some s \<longleftrightarrow>
    s < length (bk_orders b) \<and> sl_active (bk_orders b ! s) \<and> so_order_id (sl_order (bk_orders b ! s)) = order_id"
proof -
  have ag: "index_agrees (hash_order_id (order_index_capacity c)) (order_index_capacity c)
         (bk_index b) (bk_index_size b) (slot_keys b)"
    and len: "length (bk_index b) = order_index_capacity c"
    using assms by (simp_all add: slots_inv_def index_agrees_def)
  have "rh_find (hash_order_id (order_index_capacity c)) (bk_index b) order_id = Some s
      \<longleftrightarrow> s < length (slot_keys b) \<and> slot_keys b ! s = Some order_id"
    using order_index.agrees_lookup [OF ag] .
  moreover have "rh_find (hash_order_id (order_index_capacity c)) ([] :: index_entry list) order_id = None"
    by (simp add: rh_find_def rh_find_from.simps)
  ultimately show ?thesis
    using len by (auto simp: find_slot_def slot_key_def split: if_splits)
qed

lemma find_slot_None:
  assumes "slots_inv c b"
  shows "find_slot b order_id = None \<longleftrightarrow> (\<forall>s<length (bk_orders b). slot_keys b ! s \<noteq> Some order_id)"
  using find_slot_correct [OF assms, of order_id]
  by (cases "find_slot b order_id") (auto simp: slot_key_def split: if_splits)

end
