(* ===== verification/BookLevels.thy ===== *)
theory BookLevels
  imports BookInvariant
begin

section \<open>Creating, finding and retiring price levels\<close>

text \<open>
  \<open>find_level\<close>, \<open>find_or_create_level\<close> and \<open>retire_level\<close> keep the level part
  of the invariant, in the shallow and in the deep variant of the book.
\<close>

definition new_level :: "side \<Rightarrow> int \<Rightarrow> price_level" where
  "new_level s p = \<lparr>lv_side = s, lv_price = p, lv_total = 0, lv_head = None, lv_tail = None,
     lv_active = True\<rparr>"

definition same_slots :: "matching_book \<Rightarrow> matching_book \<Rightarrow> bool" where
  "same_slots b b' \<longleftrightarrow> bk_orders b' = bk_orders b \<and> bk_free_slots b' = bk_free_slots b
     \<and> bk_free_slots_ptr b' = bk_free_slots_ptr b \<and> bk_index b' = bk_index b
     \<and> bk_index_size b' = bk_index_size b \<and> bk_resting_order_count b' = bk_resting_order_count b"

lemma same_slots_inv: "same_slots b b' \<Longrightarrow> slots_inv c b' = slots_inv c b"
  by (simp add: same_slots_def slots_inv_def)

definition same_level_store :: "matching_book \<Rightarrow> matching_book \<Rightarrow> bool" where
  "same_level_store b b' \<longleftrightarrow> bk_free_levels b' = bk_free_levels b
     \<and> bk_free_levels_ptr b' = bk_free_levels_ptr b \<and> bk_level_index b' = bk_level_index b
     \<and> bk_level_index_size b' = bk_level_index_size b \<and> bk_sorted_bids b' = bk_sorted_bids b
     \<and> bk_sorted_asks b' = bk_sorted_asks b
     \<and> bk_active_price_level_count b' = bk_active_price_level_count b"

definition same_face :: "price_level \<Rightarrow> price_level \<Rightarrow> bool" where
  "same_face l l' \<longleftrightarrow> lv_active l' = lv_active l \<and> lv_side l' = lv_side l \<and> lv_price l' = lv_price l"

subsection \<open>The sorted arrays\<close>

lemma better_trans: "is_better_price s p q \<Longrightarrow> is_better_price s q r \<Longrightarrow> is_better_price s p r"
  by (auto simp: is_better_price_def split: if_splits)

lemma better_total: "p \<noteq> q \<Longrightarrow> \<not> is_better_price s p q \<Longrightarrow> is_better_price s q p"
  by (auto simp: is_better_price_def)

lemma better_irrefl [simp]: "\<not> is_better_price s p p"
  by (simp add: is_better_price_def)

definition price_sorted :: "price_level list \<Rightarrow> side \<Rightarrow> nat list \<Rightarrow> bool" where
  "price_sorted lvs s xs \<longleftrightarrow>
     sorted_wrt (\<lambda>i j. is_better_price s (lv_price (lvs ! i)) (lv_price (lvs ! j))) xs"

lemma price_sorted_cong:
  "(\<And>i. i \<in> set xs \<Longrightarrow> lv_price (lvs' ! i) = lv_price (lvs ! i)) \<Longrightarrow>
   price_sorted lvs' s xs = price_sorted lvs s xs"
  by (induction xs) (simp_all add: price_sorted_def)

lemma sorted_ok_iff:
  "sorted_ok lvs s xs \<longleftrightarrow> distinct xs \<and> price_sorted lvs s xs
     \<and> (\<forall>i. i \<in> set xs \<longleftrightarrow> i < length lvs \<and> lv_active (lvs ! i) \<and> lv_side (lvs ! i) = s)"
  unfolding sorted_ok_def price_sorted_def set_eq_iff mem_Collect_eq by blast

lemma sorted_ok_cong:
  assumes "length lvs' = length lvs" "\<And>i. i < length lvs \<Longrightarrow> same_face (lvs ! i) (lvs' ! i)"
  shows "sorted_ok lvs' s xs = sorted_ok lvs s xs"
proof -
  have face: "i < length lvs \<Longrightarrow> lv_active (lvs' ! i) = lv_active (lvs ! i)
      \<and> lv_side (lvs' ! i) = lv_side (lvs ! i) \<and> lv_price (lvs' ! i) = lv_price (lvs ! i)" for i
    using assms(2) by (simp add: same_face_def)
  have "price_sorted lvs' s xs = price_sorted lvs s xs" if "\<forall>i\<in>set xs. i < length lvs"
    using that face by (intro price_sorted_cong) simp
  then show ?thesis
    unfolding sorted_ok_iff using face assms(1) by metis
qed

lemma sorted_ok_upd:
  assumes "same_face (lvs ! i) l"
  shows "sorted_ok (lvs[i := l]) s xs = sorted_ok lvs s xs"
  using assms by (intro sorted_ok_cong) (auto simp: nth_upd same_face_def)

lemma sorted_ok_mem:
  "sorted_ok lvs s xs \<Longrightarrow> i \<in> set xs \<longleftrightarrow> i < length lvs \<and> lv_active (lvs ! i) \<and> lv_side (lvs ! i) = s"
  by (simp add: sorted_ok_iff)

lemma price_sorted_insert:
  assumes srt: "price_sorted lvs s xs"
    and fresh: "\<And>j. j \<in> set xs \<Longrightarrow> lv_price (lvs ! j) \<noteq> lv_price (lvs ! i)"
  defines "pos \<equiv> lower_bound (\<lambda>j. is_better_price s (lv_price (lvs ! j)) (lv_price (lvs ! i))) xs"
  shows "price_sorted lvs s (take pos xs @ i # drop pos xs)"
proof -
  let ?better = "\<lambda>i j. is_better_price s (lv_price (lvs ! i)) (lv_price (lvs ! j))"
  have part: "partitioned (\<lambda>j. ?better j i) xs"
    using srt unfolding price_sorted_def partitioned_def sorted_wrt_iff_nth_less
    by (blast intro: better_trans)
  have low: "?better j i" if "j \<in> set (take pos xs)" for j
    using that lower_bound_point(2) [OF part] by (auto simp: pos_def in_set_conv_nth)
  have high: "?better i j" if j: "j \<in> set (drop pos xs)" for j
  proof -
    obtain k where "k < length (drop pos xs)" "drop pos xs ! k = j"
      using j by (auto simp: in_set_conv_nth)
    then have "\<not> ?better j i"
      using lower_bound_point(3) [OF part, of "pos + k"] by (auto simp: pos_def)
    then show ?thesis
      using better_total fresh [OF in_set_dropD [OF j]] by metis
  qed
  have "sorted_wrt ?better (take pos xs)" "sorted_wrt ?better (drop pos xs)"
    using srt by (simp_all add: price_sorted_def sorted_wrt_take sorted_wrt_drop)
  then show ?thesis
    using low high better_trans unfolding price_sorted_def sorted_wrt_append sorted_wrt.simps
    by (metis set_ConsD)
qed

lemma sorted_ok_insert:
  assumes ok: "sorted_ok lvs s xs" and i: "i < length lvs" "\<not> lv_active (lvs ! i)"
    and fresh: "\<And>j. j < length lvs \<Longrightarrow> lv_active (lvs ! j) \<Longrightarrow> lv_side (lvs ! j) = s \<Longrightarrow> lv_price (lvs ! j) \<noteq> p"
  defines "lvs' \<equiv> lvs[i := new_level s p]"
  defines "pos \<equiv> lower_bound (\<lambda>j. is_better_price s (lv_price (lvs' ! j)) p) xs"
  shows "sorted_ok lvs' s (take pos xs @ i # drop pos xs)"
proof -
  have notin: "i \<notin> set xs"
    using sorted_ok_mem [OF ok] i(2) by simp
  then have same: "lvs' ! j = lvs ! j" if "j \<in> set xs" for j
    using that by (auto simp: lvs'_def nth_upd)
  have pi: "lv_price (lvs' ! i) = p"
    using i(1) by (simp add: lvs'_def new_level_def)
  have srt: "price_sorted lvs' s xs"
    using ok same price_sorted_cong [of xs lvs' lvs] by (simp add: sorted_ok_iff)
  have srt': "price_sorted lvs' s (take pos xs @ i # drop pos xs)"
    using price_sorted_insert [OF srt, of i] same fresh sorted_ok_mem [OF ok] pi by (simp add: pos_def)
  have d: "distinct xs"
    using ok by (simp add: sorted_ok_iff)
  have xs: "set (take pos xs) \<union> set (drop pos xs) = set xs"
    by (simp flip: set_append)
  then have "distinct (take pos xs @ i # drop pos xs)"
    using d notin set_take_disj_set_drop_if_distinct [OF d, of pos pos] by auto
  moreover have "j \<in> set (take pos xs @ i # drop pos xs) \<longleftrightarrow>
      j < length lvs' \<and> lv_active (lvs' ! j) \<and> lv_side (lvs' ! j) = s" for j
    using sorted_ok_mem [OF ok, of j] i xs by (cases "j = i") (auto simp: lvs'_def new_level_def)
  ultimately show ?thesis
    using srt' unfolding sorted_ok_iff by blast
qed

lemma sorted_ok_other:
  assumes ok: "sorted_ok lvs s xs" and "\<not> lv_active (lvs ! i) \<or> lv_side (lvs ! i) \<noteq> s"
    and "\<not> lv_active l \<or> lv_side l \<noteq> s"
  shows "sorted_ok (lvs[i := l]) s xs"
proof -
  have notin: "i \<notin> set xs"
    using sorted_ok_mem [OF ok] assms(2) by auto
  have "price_sorted (lvs[i := l]) s xs = price_sorted lvs s xs"
    using notin by (intro price_sorted_cong) (auto simp: nth_upd)
  moreover have "j \<in> set xs \<longleftrightarrow>
      j < length (lvs[i := l]) \<and> lv_active (lvs[i := l] ! j) \<and> lv_side (lvs[i := l] ! j) = s" for j
    using sorted_ok_mem [OF ok, of j] assms(2,3) by (auto simp: nth_upd)
  ultimately show ?thesis
    using ok unfolding sorted_ok_iff by blast
qed

lemma price_sorted_remove1: "price_sorted lvs s xs \<Longrightarrow> price_sorted lvs s (remove1 i xs)"
  by (induction xs) (auto simp: price_sorted_def dest: set_remove1_subset [THEN subsetD])

lemma sorted_ok_remove:
  assumes ok: "sorted_ok lvs s xs" and l: "\<not> lv_active l"
  shows "sorted_ok (lvs[i := l]) s (remove1 i xs)"
proof -
  have d: "distinct xs" using ok by (simp add: sorted_ok_iff)
  have "price_sorted (lvs[i := l]) s (remove1 i xs) = price_sorted lvs s (remove1 i xs)"
    using d by (intro price_sorted_cong) (auto simp: nth_upd)
  then have "price_sorted (lvs[i := l]) s (remove1 i xs)"
    using ok price_sorted_remove1 by (simp add: sorted_ok_iff)
  moreover have "j \<in> set (remove1 i xs) \<longleftrightarrow>
      j < length (lvs[i := l]) \<and> lv_active (lvs[i := l] ! j) \<and> lv_side (lvs[i := l] ! j) = s" for j
    using sorted_ok_mem [OF ok, of j] l d by (auto simp: nth_upd)
  ultimately show ?thesis
    using d unfolding sorted_ok_iff by simp
qed

subsection \<open>Finding a level\<close>

lemma levels_invD:
  assumes "levels_inv c b"
  shows "length (bk_levels b) = price_level_capacity c"
    and "pool_inv (level_keys b) (bk_free_levels b) (bk_free_levels_ptr b)"
    and "bk_active_price_level_count b = bk_free_levels_ptr b"
    and "uses_deep_level_index c \<Longrightarrow>
       index_agrees (hash_level_key (level_index_capacity c)) (level_index_capacity c)
            (bk_level_index b) (bk_level_index_size b) (level_keys b)"
    and "uses_deep_level_index c \<Longrightarrow> sorted_ok (bk_levels b) s (sorted_indices_for b s)"
  using assms by (auto simp: levels_inv_def sorted_indices_for_def) (cases s; simp)

lemma level_key_Some:
  "level_key l = Some k \<longleftrightarrow> lv_active l \<and> lv_side l = fst k \<and> lv_price l = snd k"
  by (cases k) (auto simp: level_key_def)

lemma level_key_None [simp]: "level_key l = None \<longleftrightarrow> \<not> lv_active l"
  by (simp add: level_key_def)

lemma slot_key_None [simp]: "slot_key s = None \<longleftrightarrow> \<not> sl_active s"
  by (simp add: slot_key_def)

lemma level_unique:
  assumes "levels_inv c b" "i < length (bk_levels b)" "j < length (bk_levels b)"
    and "lv_active (bk_levels b ! i)" "lv_active (bk_levels b ! j)"
    and "lv_side (bk_levels b ! i) = lv_side (bk_levels b ! j)"
    and "lv_price (bk_levels b ! i) = lv_price (bk_levels b ! j)"
  shows "i = j"
  using pool_unique [OF levels_invD(2) [OF assms(1)], of i j] assms(2-) by (auto simp: level_key_Some)

theorem find_level_correct:
  assumes inv: "levels_inv c b"
  shows "find_level c b s p = Some i \<longleftrightarrow>
    i < length (bk_levels b) \<and> lv_active (bk_levels b ! i) \<and> lv_side (bk_levels b ! i) = s
    \<and> lv_price (bk_levels b ! i) = p"
proof (cases "uses_deep_level_index c")
  case True
  note ag = levels_invD(4) [OF inv True]
  then have len: "length (bk_level_index b) = level_index_capacity c"
    by (simp add: index_agrees_def)
  show ?thesis
    using level_index.agrees_lookup [OF ag, of "(s, p)" i] True
    by (auto simp: find_level_def find_level_in_index_def len level_key_Some)
next
  case False
  let ?P = "\<lambda>i. lv_active (bk_levels b ! i) \<and> lv_side (bk_levels b ! i) = s \<and> lv_price (bk_levels b ! i) = p"
  have fl: "find_level c b s p = find ?P [0..<length (bk_levels b)]"
    using False by (simp add: find_level_def Let_def)
  show ?thesis
  proof
    assume "find_level c b s p = Some i"
    then show "i < length (bk_levels b) \<and> ?P i"
      unfolding fl by (rule find_upt_Some)
  next
    assume i: "i < length (bk_levels b) \<and> ?P i"
    then obtain j where j: "find ?P [0..<length (bk_levels b)] = Some j"
      using find_upt_None [of ?P] by (cases "find ?P [0..<length (bk_levels b)]") auto
    then have "j < length (bk_levels b) \<and> ?P j"
      by (rule find_upt_Some)
    then have "j = i"
      using i level_unique [OF inv, of j i] by auto
    then show "find_level c b s p = Some i"
      using j fl by simp
  qed
qed

lemma find_level_None:
  assumes inv: "levels_inv c b" "find_level c b s p = None"
    and "i < length (bk_levels b)" "lv_active (bk_levels b ! i)" "lv_side (bk_levels b ! i) = s"
  shows "lv_price (bk_levels b ! i) \<noteq> p"
  using find_level_correct [OF inv(1), of s p i] assms(2-) by auto

subsection \<open>Creating a level\<close>

lemma create_level_base:
  assumes inv: "levels_inv c b" and room: "bk_free_levels_ptr b < price_level_capacity c"
    and none: "find_level c b s p = None"
  defines "i \<equiv> bk_free_levels b ! bk_free_levels_ptr b"
  shows "i < length (bk_levels b)" "\<not> lv_active (bk_levels b ! i)"
    and "pool_inv (map level_key ((bk_levels b)[i := new_level s p])) (bk_free_levels b) (Suc (bk_free_levels_ptr b))"
    and "\<And>j. j < length (bk_levels b) \<Longrightarrow> level_keys b ! j \<noteq> Some (s, p)"
proof -
  note pool = levels_invD(2) [OF inv]
  show new: "\<And>j. j < length (bk_levels b) \<Longrightarrow> level_keys b ! j \<noteq> Some (s, p)"
    using find_level_None [OF inv none] by (auto simp: level_key_Some)
  show "i < length (bk_levels b)" "\<not> lv_active (bk_levels b ! i)"
    using pool_top_free [OF pool] room levels_invD(1) [OF inv] by (auto simp: i_def)
  have "pool_inv ((level_keys b)[i := Some (s, p)]) (bk_free_levels b) (Suc (bk_free_levels_ptr b))"
    using pool_pop [OF pool _ , of "(s, p)"] new room levels_invD(1) [OF inv] by (simp add: i_def)
  then show "pool_inv (map level_key ((bk_levels b)[i := new_level s p])) (bk_free_levels b) (Suc (bk_free_levels_ptr b))"
    by (simp add: map_update new_level_def level_key_def)
qed

theorem find_or_create_level_new:
  assumes inv: "levels_inv c b" and room: "bk_free_levels_ptr b < price_level_capacity c"
    and none: "find_level c b s p = None"
  defines "i \<equiv> bk_free_levels b ! bk_free_levels_ptr b"
  shows "\<exists>b'. find_or_create_level c b s p = (b', Some i) \<and> levels_inv c b' \<and> same_slots b b'
    \<and> bk_levels b' = (bk_levels b)[i := new_level s p]"
proof -
  note base = create_level_base [OF inv room none, folded i_def]
  let ?b1 = "b\<lparr>bk_free_levels_ptr := Suc (bk_free_levels_ptr b), bk_levels := (bk_levels b)[i := new_level s p]\<rparr>"
  have keys': "map level_key ((bk_levels b)[i := new_level s p]) = (level_keys b)[i := Some (s, p)]"
    by (simp add: map_update new_level_def level_key_def)
  show ?thesis
  proof (cases "uses_deep_level_index c")
    case False
    let ?b' = "?b1\<lparr>bk_active_price_level_count := Suc (bk_active_price_level_count b)\<rparr>"
    have "find_or_create_level c b s p = (?b', Some i)"
      using none room False by (simp add: find_or_create_level_def Let_def new_level_def i_def)
    moreover have "levels_inv c ?b'"
      using False base(3) levels_invD(1,3) [OF inv] by (simp add: levels_inv_def)
    ultimately show ?thesis
      by (auto simp: same_slots_def)
  next
    case True
    note ag = levels_invD(4) [OF inv True]
    have sz: "length (bk_level_index b) = level_index_capacity c"
      using ag by (simp add: index_agrees_def)
    have "bk_level_index_size b = bk_free_levels_ptr b"
      using level_index.agrees_size [OF ag levels_invD(2) [OF inv]] .
    then have lt: "bk_level_index_size b < level_index_capacity c"
      using room True by (simp add: level_index_capacity_def)
    obtain t' where t': "rh_insert (hash_level_key (level_index_capacity c)) (bk_level_index b) (s, p) i = (t', True)"
        "index_agrees (hash_level_key (level_index_capacity c)) (level_index_capacity c) t'
           (Suc (bk_level_index_size b)) ((level_keys b)[i := Some (s, p)])"
      using level_index.agrees_insert [OF ag lt, of "(s, p)" i] base by auto
    let ?b2 = "?b1\<lparr>bk_level_index := t', bk_level_index_size := Suc (bk_level_index_size b)\<rparr>"
    have ins: "insert_level_index ?b1 s p i = (?b2, True)"
      using t'(1) lt sz by (simp add: insert_level_index_def)
    let ?xs = "sorted_indices_for b s"
    let ?pos = "lower_bound (\<lambda>j. is_better_price s (lv_price ((bk_levels b)[i := new_level s p] ! j)) p) ?xs"
    let ?new = "take ?pos ?xs @ i # drop ?pos ?xs"
    let ?b3 = "set_sorted_indices_for s ?new ?b2"
    have price: "lv_price ((bk_levels b)[i := new_level s p] ! i) = p"
      using base(1) by (simp add: new_level_def)
    have srt: "insert_sorted_level_index s i ?b2 = ?b3"
      using price by (simp add: insert_sorted_level_index_def sorted_indices_for_def Let_def)
    let ?b' = "?b3\<lparr>bk_active_price_level_count := Suc (bk_active_price_level_count ?b3)\<rparr>"
    have "find_or_create_level c b s p = (?b', Some i)"
      using none room True ins srt
      by (simp add: find_or_create_level_def Let_def new_level_def i_def)
    moreover have "same_slots b ?b'" "bk_levels ?b' = (bk_levels b)[i := new_level s p]"
      by (simp_all add: same_slots_def set_sorted_indices_for_def)
    moreover have "levels_inv c ?b'"
    proof -
      have "sorted_ok ((bk_levels b)[i := new_level s p]) s ?new"
        using sorted_ok_insert [OF levels_invD(5) [OF inv True, of s] base(1,2), of p]
          find_level_None [OF inv none] by simp
      moreover have "s' \<noteq> s \<Longrightarrow> sorted_ok ((bk_levels b)[i := new_level s p]) s' (sorted_indices_for b s')" for s'
        using sorted_ok_other [OF levels_invD(5) [OF inv True]] base(2) by (auto simp: new_level_def)
      note this [of Buy] this [of Sell]
      ultimately show ?thesis
        using t'(2) [folded keys'] base(3) levels_invD(1,3) [OF inv]
        by (cases s) (auto simp: levels_inv_def set_sorted_indices_for_def sorted_indices_for_def)
    qed
    ultimately show ?thesis by blast
  qed
qed

subsection \<open>Retiring a level\<close>

lemma retire_level_correct:
  assumes inv: "levels_inv c b" and i: "i < length (bk_levels b)" "lv_active (bk_levels b ! i)"
  shows "levels_inv c (retire_level c i b)" "same_slots b (retire_level c i b)"
    "bk_levels (retire_level c i b) = (bk_levels b)[i := empty_level]"
proof -
  note pool = levels_invD(2) [OF inv]
  let ?s = "lv_side (bk_levels b ! i)" and ?p = "lv_price (bk_levels b ! i)"
  have key: "level_keys b ! i = Some (?s, ?p)" "level_keys b ! i \<noteq> None"
    using i by (simp_all add: level_key_Some)
  have push: "pool_inv ((level_keys b)[i := None]) ((bk_free_levels b)[bk_free_levels_ptr b - 1 := i])
      (bk_free_levels_ptr b - 1)"
    using pool_push [OF pool _ key(2)] i by simp
  have keys': "map level_key ((bk_levels b)[i := empty_level]) = (level_keys b)[i := None]"
    by (simp add: map_update empty_level_def level_key_def)
  show "bk_levels (retire_level c i b) = (bk_levels b)[i := empty_level]" "same_slots b (retire_level c i b)"
    by (auto simp: retire_level_def Let_def push_free_level_def upd_level_def remove_sorted_level_index_def
        set_sorted_indices_for_def remove_level_index_def same_slots_def split: prod.splits)
  show "levels_inv c (retire_level c i b)"
  proof (cases "uses_deep_level_index c")
    case False
    then show ?thesis
      using push levels_invD(1,3) [OF inv]
      by (simp add: levels_inv_def retire_level_def Let_def push_free_level_def upd_level_def keys')
  next
    case True
    note ag = levels_invD(4) [OF inv True]
    have sz: "length (bk_level_index b) = level_index_capacity c"
      using ag by (simp add: index_agrees_def)
    obtain t' where t': "rh_remove (hash_level_key (level_index_capacity c)) empty_level_index_entry
          (bk_level_index b) (?s, ?p) = (t', True)"
        "index_agrees (hash_level_key (level_index_capacity c)) (level_index_capacity c) t'
           (bk_level_index_size b - 1) ((level_keys b)[i := None])"
      using level_index.agrees_remove [OF ag pool _ key(1)] i by auto
    have "sorted_ok ((bk_levels b)[i := empty_level]) ?s (remove1 i (sorted_indices_for b ?s))"
      by (rule sorted_ok_remove [OF levels_invD(5) [OF inv True]]) (simp add: empty_level_def)
    moreover have "s' \<noteq> ?s \<Longrightarrow> sorted_ok ((bk_levels b)[i := empty_level]) s' (sorted_indices_for b s')" for s'
      using sorted_ok_other [OF levels_invD(5) [OF inv True]] by (auto simp: empty_level_def)
    note this [of Buy] this [of Sell]
    ultimately show ?thesis
      using push levels_invD(1,3) [OF inv] True t'
      by (cases ?s) (auto simp: levels_inv_def retire_level_def Let_def push_free_level_def upd_level_def keys'
          remove_sorted_level_index_def set_sorted_indices_for_def remove_level_index_def
          sorted_indices_for_def sz)
  qed
qed

subsection \<open>Writes that leave the face of a level alone\<close>

lemma level_keys_upd: "same_face (bk_levels b ! i) (f (bk_levels b ! i)) \<Longrightarrow> level_keys (upd_level i f b) = level_keys b"
  by (simp add: upd_level_def) (rule map_upd_same, simp add: same_face_def level_key_def)

lemma levels_inv_upd_level:
  assumes "levels_inv c b" "same_face (bk_levels b ! i) (f (bk_levels b ! i))"
  shows "levels_inv c (upd_level i f b)"
  using assms level_keys_upd [of b i f] sorted_ok_upd [of "bk_levels b" i "f (bk_levels b ! i)"]
  by (simp add: levels_inv_def upd_level_def)

lemma levels_inv_other:
  assumes "levels_inv c b" "same_level_store b b'" "bk_levels b' = bk_levels b"
  shows "levels_inv c b'"
  using assms by (simp add: levels_inv_def same_level_store_def)

end
