(* ===== verification/BookUnlink.thy ===== *)
theory BookUnlink
  imports BookLevels
begin

section \<open>Removing an order from its queue\<close>

text \<open>
  \<open>unlink_order\<close> is the operation behind cancelling and behind a maker being
  filled completely. Its effect is the removal of one slot from one queue; the
  level goes when its queue is empty. Both indices and both free stacks follow.
\<close>

subsection \<open>Changing one queue\<close>

lemma empty_slot_inactive [simp]: "\<not> sl_active empty_slot"
  by (simp add: empty_slot_def)

lemma empty_level_inactive [simp]: "\<not> lv_active empty_level"
  by (simp add: empty_level_def)

lemma level_ok_cong:
  assumes "length os' = length os" "\<And>x. x \<in> set q \<Longrightarrow> os' ! x = os ! x"
  shows "level_ok os' lv li q = level_ok os lv li q"
proof -
  have "seg os' li None q None = seg os li None q None"
    using assms by (intro seg_cong) auto
  moreover have "qty_sum os' q = qty_sum os q"
    using assms(2) by (simp add: qty_sum_def cong: map_cong)
  ultimately show ?thesis
    using assms(2) by (auto simp: level_ok_def)
qed

lemma queues_invI:
  assumes "\<And>li. li < length lvs \<Longrightarrow> lv_active (lvs ! li) \<Longrightarrow> level_ok os (lvs ! li) li (qs li)"
    and "\<And>li. li < length lvs \<Longrightarrow> \<not> lv_active (lvs ! li) \<Longrightarrow> qs li = [] \<and> lvs ! li = empty_level"
    and "\<And>li. length lvs \<le> li \<Longrightarrow> qs li = []"
    and "\<And>s. s < length os \<Longrightarrow> sl_active (os ! s) \<Longrightarrow> \<exists>li<length lvs. s \<in> set (qs li)"
    and "\<And>s. s < length os \<Longrightarrow> \<not> sl_active (os ! s) \<Longrightarrow> os ! s = empty_slot"
  shows "queues_inv os lvs qs"
  unfolding queues_inv_def using assms by simp

lemma queues_inv_upd:
  assumes inv: "queues_inv os lvs qs" and li: "li < length lvs" and len: "length os' = length os"
    and frame: "\<And>x. x \<notin> set (qs li) \<Longrightarrow> x \<notin> set q' \<Longrightarrow> os' ! x = os ! x"
    and new: "if lv_active lv' then level_ok os' lv' li q' else q' = [] \<and> lv' = empty_level"
    and fresh: "\<And>x. x \<in> set q' \<Longrightarrow> x \<notin> set (qs li) \<Longrightarrow> \<not> sl_active (os ! x)"
    and gone: "\<And>x. x \<in> set (qs li) \<Longrightarrow> x \<notin> set q' \<Longrightarrow> os' ! x = empty_slot"
  shows "queues_inv os' (lvs[li := lv']) (qs(li := q'))"
proof (rule queues_invI)
  have same: "os' ! x = os ! x" if "x \<in> set (qs lj)" "lj \<noteq> li" for x lj
    using that frame [of x] fresh [of x] queues_disjoint [OF inv, of x lj li] queues_mem [OF inv, of x lj] by auto
  show "level_ok os' (lvs[li := lv'] ! lj) lj ((qs(li := q')) lj)"
    if "lj < length (lvs[li := lv'])" "lv_active (lvs[li := lv'] ! lj)" for lj
    using that new li same [of _ lj] queues_level [OF inv, of lj] level_ok_cong [OF len, of "qs lj"]
    by (cases "lj = li") auto
  show "(qs(li := q')) lj = [] \<and> lvs[li := lv'] ! lj = empty_level"
    if "lj < length (lvs[li := lv'])" "\<not> lv_active (lvs[li := lv'] ! lj)" for lj
    using that new li queues_inactive [OF inv, of lj] by (cases "lj = li") auto
  show "(qs(li := q')) lj = []" if "length (lvs[li := lv']) \<le> lj" for lj
    using that li queues_outside [OF inv] by auto
  show "\<exists>lj<length (lvs[li := lv']). s \<in> set ((qs(li := q')) lj)" if "s < length os'" "sl_active (os' ! s)" for s
  proof (cases "s \<in> set q' \<or> s \<in> set (qs li)")
    case True
    then have "s \<in> set q'" using gone [of s] that by (cases "s \<in> set q'") auto
    then show ?thesis using li by (intro exI [of _ li]) simp
  next
    case False
    then have "\<exists>lj<length lvs. s \<in> set (qs lj)"
      using that frame [of s] len by (intro queues_slot [OF inv]) auto
    then show ?thesis using False by auto
  qed
  show "os' ! s = empty_slot" if "s < length os'" "\<not> sl_active (os' ! s)" for s
  proof -
    have "s \<notin> set q'"
      using new that seg_mem [of os' li None q' None s] by (auto simp: level_ok_def split: if_splits)
    then show ?thesis
      using gone [of s] frame [of s] queues_free_slot [OF inv, of s] that len by (cases "s \<in> set (qs li)") auto
  qed
qed

subsection \<open>The writes of \<open>unlink_order\<close> in closed form\<close>

definition unlinked_slots :: "order_slot list \<Rightarrow> nat \<Rightarrow> order_slot list" where
  "unlinked_slots os s = (bypass os (sl_prev (os ! s)) (sl_next (os ! s)))[s := empty_slot]"

definition unlinked_level :: "order_slot \<Rightarrow> price_level \<Rightarrow> price_level" where
  "unlinked_level x l = l\<lparr>lv_head := (if sl_prev x = None then sl_next x else lv_head l),
     lv_tail := (if sl_next x = None then sl_prev x else lv_tail l), lv_total := lv_total l - sl_remaining x\<rparr>"

definition unlinked :: "nat \<Rightarrow> nat \<Rightarrow> matching_book \<Rightarrow> matching_book" where
  "unlinked li s b =
     (let b1 = remove_index b (so_order_id (sl_order (bk_orders b ! s)))
      in b\<lparr>bk_orders := unlinked_slots (bk_orders b) s,
           bk_levels := (bk_levels b)[li := unlinked_level (bk_orders b ! s) (bk_levels b ! li)],
           bk_free_slots_ptr := bk_free_slots_ptr b - 1,
           bk_free_slots := (bk_free_slots b)[bk_free_slots_ptr b - 1 := s],
           bk_index := bk_index b1, bk_index_size := bk_index_size b1,
           bk_resting_order_count := bk_resting_order_count b - 1\<rparr>)"

lemma remove_index_upd:
  "remove_index (b\<lparr>bk_orders := os, bk_levels := ls\<rparr>) k = (remove_index b k)\<lparr>bk_orders := os, bk_levels := ls\<rparr>"
  "bk_orders (remove_index b k) = bk_orders b" "bk_levels (remove_index b k) = bk_levels b"
  by (simp_all add: remove_index_def split: prod.splits)

lemma remove_index_eta:
  "remove_index b k = b\<lparr>bk_index := bk_index (remove_index b k), bk_index_size := bk_index_size (remove_index b k)\<rparr>"
  by (simp add: remove_index_def split: prod.splits)

definition detach_slot :: "nat \<Rightarrow> nat \<Rightarrow> matching_book \<Rightarrow> matching_book" where
  "detach_slot s li b = b\<lparr>
     bk_orders := bypass (bk_orders b) (sl_prev (bk_orders b ! s)) (sl_next (bk_orders b ! s)),
     bk_levels := (bk_levels b)[li := unlinked_level (bk_orders b ! s) (bk_levels b ! li)]\<rparr>"

lemma detach_slot_eq:
  assumes "sl_prev (bk_orders b ! s) \<noteq> Some s" "sl_next (bk_orders b ! s) \<noteq> Some s"
    and "li < length (bk_levels b)"
  defines "b1 \<equiv> (case sl_prev (bk_orders b ! s) of
              Some p \<Rightarrow> upd_slot p (\<lambda>o'. o'\<lparr>sl_next := sl_next (bk_orders b ! s)\<rparr>) b
            | None \<Rightarrow> upd_level li (\<lambda>l. l\<lparr>lv_head := sl_next (bk_orders b ! s)\<rparr>) b)"
  defines "b2 \<equiv> (case sl_next (bk_orders b1 ! s) of
              Some q \<Rightarrow> upd_slot q (\<lambda>o'. o'\<lparr>sl_prev := sl_prev (bk_orders b1 ! s)\<rparr>) b1
            | None \<Rightarrow> upd_level li (\<lambda>l. l\<lparr>lv_tail := sl_prev (bk_orders b1 ! s)\<rparr>) b1)"
  shows "upd_level li (\<lambda>l. l\<lparr>lv_total := lv_total l - sl_remaining (bk_orders b2 ! s)\<rparr>) b2 = detach_slot s li b"
proof -
  have b1s: "bk_orders b1 ! s = bk_orders b ! s"
    using assms(1) by (auto simp: b1_def upd_slot_def upd_level_def split: option.splits)
  have b2s: "bk_orders b2 ! s = bk_orders b ! s"
    using assms(2) b1s by (auto simp: b2_def upd_slot_def upd_level_def split: option.splits)
  show ?thesis
    unfolding b2s unfolding b2_def b1s unfolding b1_def
    using assms(3)
    by (cases "sl_prev (bk_orders b ! s)"; cases "sl_next (bk_orders b ! s)")
      (simp_all add: upd_slot_def upd_level_def detach_slot_def bypass_def unlinked_level_def Let_def)
qed

lemma unlinked_eq:
  "unlinked li s b = (push_free_slot s (upd_slot s (\<lambda>_. empty_slot)
       (remove_index (detach_slot s li b) (so_order_id (sl_order (bk_orders b ! s))))))
       \<lparr>bk_resting_order_count := bk_resting_order_count b - 1\<rparr>"
  by (simp add: unlinked_def push_free_slot_def upd_slot_def remove_index_def unlinked_slots_def
      detach_slot_def Let_def split: prod.splits)

lemma unlink_order_eq:
  assumes "sl_active (bk_orders b ! s)" "sl_level_index (bk_orders b ! s) = Some li"
    and "sl_prev (bk_orders b ! s) \<noteq> Some s" "sl_next (bk_orders b ! s) \<noteq> Some s"
    and "li < length (bk_levels b)"
  shows "unlink_order c s b =
    (if lv_head (bk_levels (unlinked li s b) ! li) = None then retire_level c li (unlinked li s b)
     else unlinked li s b)"
proof -
  have key: "bk_orders (detach_slot s li b) ! s = bk_orders b ! s"
    using assms(3,4) by (auto simp: detach_slot_def bypass_other)
  have count: "bk_resting_order_count (push_free_slot s (upd_slot s (\<lambda>_. empty_slot)
      (remove_index (detach_slot s li b) k))) = bk_resting_order_count b" for k
    by (simp add: push_free_slot_def upd_slot_def remove_index_def detach_slot_def split: prod.splits)
  show ?thesis
    unfolding unlink_order_def unlinked_eq using assms(1,2)
    by (simp only: Let_def detach_slot_eq [OF assms(3-5)] key count option.case if_False not_not not_True_eq_False)
qed

subsection \<open>What unlinking does\<close>

lemma unlinked_payload:
  "s < length (bk_orders b) \<Longrightarrow> bk_orders (unlinked li s b) ! s = empty_slot"
  "x \<noteq> s \<Longrightarrow> same_payload (bk_orders (unlinked li s b) ! x) (bk_orders b ! x)"
  "length (bk_orders (unlinked li s b)) = length (bk_orders b)"
  by (simp_all add: unlinked_def Let_def unlinked_slots_def bypass_payload nth_upd)

lemma unlinked_keys:
  assumes "s < length (bk_orders b)"
  shows "slot_keys (unlinked li s b) = (slot_keys b)[s := None]"
proof (rule nth_equalityI)
  fix i assume "i < length (slot_keys (unlinked li s b))"
  then show "slot_keys (unlinked li s b) ! i = (slot_keys b)[s := None] ! i"
    using assms unlinked_payload(1) [OF assms, of li] unlinked_payload(2) [of i s li b]
    by (cases "i = s") (auto simp: unlinked_payload(3) slot_key_def same_payload_def)
qed (simp add: unlinked_payload(3))

lemma unlinked_slots_inv:
  assumes inv: "slots_inv c b" and s: "s < length (bk_orders b)" "sl_active (bk_orders b ! s)"
  shows "slots_inv c (unlinked li s b)" "0 < bk_free_slots_ptr b"
proof -
  have pool: "pool_inv (slot_keys b) (bk_free_slots b) (bk_free_slots_ptr b)"
    and ag: "index_agrees (hash_order_id (order_index_capacity c)) (order_index_capacity c)
         (bk_index b) (bk_index_size b) (slot_keys b)"
    and n: "length (bk_index b) = order_index_capacity c"
    using inv by (simp_all add: slots_inv_def index_agrees_def)
  have key: "slot_keys b ! s = Some (so_order_id (sl_order (bk_orders b ! s)))" "slot_keys b ! s \<noteq> None"
    using s by (simp_all add: slot_key_def)
  show "0 < bk_free_slots_ptr b"
    using pool_push(2) [OF pool _ key(2)] s by simp
  obtain t' where t': "rh_remove (hash_order_id (order_index_capacity c)) empty_index_entry (bk_index b)
        (so_order_id (sl_order (bk_orders b ! s))) = (t', True)"
      "index_agrees (hash_order_id (order_index_capacity c)) (order_index_capacity c) t'
         (bk_index_size b - 1) ((slot_keys b)[s := None])"
    using order_index.agrees_remove [OF ag pool _ key(1)] s by auto
  have "bk_index b \<noteq> []"
    using order_index.agrees_lookup [OF ag, of "so_order_id (sl_order (bk_orders b ! s))" s] s key(1)
    by (auto simp: rh_find_def rh_find_from.simps)
  then have "bk_index (unlinked li s b) = t' \<and> bk_index_size (unlinked li s b) = bk_index_size b - 1"
    using t'(1) n by (simp add: unlinked_def remove_index_def Let_def)
  moreover have "pool_inv ((slot_keys b)[s := None]) (bk_free_slots (unlinked li s b)) (bk_free_slots_ptr (unlinked li s b))"
    using pool_push(1) [OF pool _ key(2)] s by (simp add: unlinked_def Let_def)
  moreover have "bk_resting_order_count (unlinked li s b) = bk_free_slots_ptr (unlinked li s b)"
    using inv by (simp add: slots_inv_def unlinked_def Let_def)
  ultimately show "slots_inv c (unlinked li s b)"
    using t'(2) inv unfolding slots_inv_def unlinked_keys [OF s(1)] by (simp add: unlinked_payload(3))
qed

lemma level_split:
  assumes ok: "level_ok os lv li (xs @ s # ys)"
  shows "sl_prev (os ! s) = last_or None xs" "sl_next (os ! s) = first_or None ys"
    "s \<notin> set xs" "s \<notin> set ys" "distinct (xs @ ys)"
    "lv_head lv = first_or (Some s) xs" "lv_tail lv = last_or (Some s) ys"
    "lv_total lv - sl_remaining (os ! s) = qty_sum os (xs @ ys)"
  using ok by (auto simp: level_ok_def seg_append qty_sum_def last_or_def)

lemma unlinked_slots_eq:
  assumes ok: "level_ok os lv li (xs @ s # ys)"
  shows "x \<notin> set (xs @ s # ys) \<Longrightarrow> unlinked_slots os s ! x = os ! x"
    "length (unlinked_slots os s) = length os"
    "seg (unlinked_slots os s) li None (xs @ ys) None"
proof -
  note split = level_split [OF ok]
  show "length (unlinked_slots os s) = length os"
    by (simp add: unlinked_slots_def bypass_payload)
  show "unlinked_slots os s ! x = os ! x" if "x \<notin> set (xs @ s # ys)"
  proof -
    have "last_or None xs \<noteq> Some x" "first_or None ys \<noteq> Some x"
      using that by (auto simp: last_or_def first_or_def split: if_splits list.splits)
    then show ?thesis
      using that split(1,2) by (simp add: unlinked_slots_def bypass_other)
  qed
  have "seg (bypass os (last_or None xs) (first_or None ys)) li None (xs @ ys) None"
    using ok by (intro seg_bypass [where s = s]) (simp_all add: level_ok_def)
  then show "seg (unlinked_slots os s) li None (xs @ ys) None"
    using split by (simp add: unlinked_slots_def seg_frame)
qed

lemma unlinked_slots_payload: "x \<noteq> s \<Longrightarrow> same_payload (unlinked_slots os s ! x) (os ! x)"
  by (simp add: unlinked_slots_def bypass_payload)

lemma unlinked_level_ok:
  assumes ok: "level_ok os lv li (xs @ s # ys)" and "xs @ ys \<noteq> []"
  shows "level_ok (unlinked_slots os s) (unlinked_level (os ! s) lv) li (xs @ ys)"
proof -
  note split = level_split [OF ok]
  have same: "same_payload (unlinked_slots os s ! x) (os ! x)" if "x \<in> set (xs @ ys)" for x
    using that split(3,4) by (intro unlinked_slots_payload) auto
  then have "qty_sum (unlinked_slots os s) (xs @ ys) = qty_sum os (xs @ ys)"
    unfolding qty_sum_def by (intro arg_cong [of _ _ sum_list] map_cong) (auto simp: same_payload_def)
  moreover have "member_ok (unlinked_level (os ! s) lv) (unlinked_slots os s ! x)" if "x \<in> set (xs @ ys)" for x
    using that same [OF that] ok by (auto simp: member_ok_def same_payload_def unlinked_level_def level_ok_def)
  moreover have "lv_head (unlinked_level (os ! s) lv) = first_or None (xs @ ys)"
      "lv_tail (unlinked_level (os ! s) lv) = last_or None (xs @ ys)"
    using split by (auto simp: unlinked_level_def last_or_def first_or_def split: list.splits)
  moreover have "lv_total (unlinked_level (os ! s) lv) = qty_sum os (xs @ ys)"
    using split(8) by (simp add: unlinked_level_def)
  ultimately show ?thesis
    using unlinked_slots_eq(3) [OF ok] split(5) unfolding level_ok_def by simp
qed

lemma unlinked_level_face: "same_face l (unlinked_level x l)"
  by (simp add: same_face_def unlinked_level_def)

text \<open>An empty queue afterwards shows as an empty head, so the level is retired.\<close>

lemma unlinked_head:
  assumes ok: "level_ok os lv li (xs @ s # ys)"
  shows "lv_head (unlinked_level (os ! s) lv) = None \<longleftrightarrow> xs @ ys = []"
  using level_split [OF ok] by (auto simp: unlinked_level_def last_or_def first_or_def split: list.splits)

lemma queues_unlinked:
  assumes inv: "queues_inv os lvs qs" and q: "qs li = xs @ s # ys"
  defines "lv' \<equiv> (if xs @ ys = [] then empty_level else unlinked_level (os ! s) (lvs ! li))"
  shows "queues_inv (unlinked_slots os s) (lvs[li := lv']) (qs(li := xs @ ys))"
proof -
  have s: "s \<in> set (qs li)" using q by simp
  note mem = queues_mem [OF inv s]
  have ok: "level_ok os (lvs ! li) li (xs @ s # ys)"
    using queues_level [OF inv, of li] mem q by simp
  show ?thesis
  proof (rule queues_inv_upd [OF inv])
    show "li < length lvs" using mem by simp
    show "length (unlinked_slots os s) = length os"
      using unlinked_slots_eq(2) [OF ok] .
    show "unlinked_slots os s ! x = os ! x" if "x \<notin> set (qs li)" for x
      using that unlinked_slots_eq(1) [OF ok] q by simp
    show "if lv_active lv' then level_ok (unlinked_slots os s) lv' li (xs @ ys) else xs @ ys = [] \<and> lv' = empty_level"
      using unlinked_level_ok [OF ok] mem by (auto simp: lv'_def unlinked_level_def)
    show "\<not> sl_active (os ! x)" if "x \<in> set (xs @ ys)" "x \<notin> set (qs li)" for x
      using that q by auto
    show "unlinked_slots os s ! x = empty_slot" if "x \<in> set (qs li)" "x \<notin> set (xs @ ys)" for x
      using that q mem by (auto simp: unlinked_slots_def bypass_payload)
  qed
qed

lemma nonempty_upd:
  assumes "\<And>lj. lj < length lvs \<Longrightarrow> lv_active (lvs ! lj) \<Longrightarrow> qs lj \<noteq> []"
    and "lv_active lv \<Longrightarrow> q' \<noteq> []" "lj < length (lvs[li := lv])" "lv_active (lvs[li := lv] ! lj)"
  shows "(qs(li := q')) lj \<noteq> []"
  using assms by (cases "lj = li") auto

definition unlink_effect :: "matching_book \<Rightarrow> nat \<Rightarrow> nat \<Rightarrow> matching_book \<Rightarrow> bool" where
  "unlink_effect b li s b' \<longleftrightarrow>
     level_queue b' = (level_queue b)(li := remove1 s (level_queue b li))
     \<and> (\<forall>x. x \<noteq> s \<longrightarrow> same_payload (bk_orders b' ! x) (bk_orders b ! x))
     \<and> (\<exists>lv. bk_levels b' = (bk_levels b)[li := lv]
          \<and> (if remove1 s (level_queue b li) = [] then lv = empty_level else same_face (bk_levels b ! li) lv))
     \<and> Suc (bk_resting_order_count b') = bk_resting_order_count b"

theorem unlink_order_correct:
  assumes inv: "book_inv c b" and s: "s \<in> set (level_queue b li)"
  shows "book_inv c (unlink_order c s b)" "unlink_effect b li s (unlink_order c s b)"
proof -
  note q = book_invD(3) [OF inv]
  note mem = queues_mem [OF q s]
  obtain xs ys where xs: "level_queue b li = xs @ s # ys"
    using s by (auto simp: in_set_conv_decomp)
  have ok: "level_ok (bk_orders b) (bk_levels b ! li) li (xs @ s # ys)"
    using queues_level [OF q, of li] mem xs by simp
  note split = level_split [OF ok]
  have "last_or None xs \<noteq> Some s" "first_or None ys \<noteq> Some s"
    using split(3,4) by (auto simp: last_or_def first_or_def split: if_splits list.splits)
  then have eq: "unlink_order c s b =
    (if lv_head (bk_levels (unlinked li s b) ! li) = None then retire_level c li (unlinked li s b)
     else unlinked li s b)"
    using mem split(1,2) by (intro unlink_order_eq) auto
  let ?lv = "unlinked_level (bk_orders b ! s) (bk_levels b ! li)"
  have lvs: "bk_levels (unlinked li s b) = (bk_levels b)[li := ?lv]"
    and os: "bk_orders (unlinked li s b) = unlinked_slots (bk_orders b) s"
    by (simp_all add: unlinked_def Let_def)
  have head: "lv_head (bk_levels (unlinked li s b) ! li) = None \<longleftrightarrow> xs @ ys = []"
    using mem unlinked_head [OF ok] by (simp add: lvs)
  have sl: "slots_inv c (unlinked li s b)" "0 < bk_free_slots_ptr b"
    using unlinked_slots_inv [OF book_invD(1) [OF inv], of s] mem by simp_all
  have rc: "Suc (bk_resting_order_count (unlinked li s b)) = bk_resting_order_count b"
    using sl(2) book_invD(1) [OF inv] by (simp add: unlinked_def slots_inv_def Let_def)
  have "levels_inv c (upd_level li (\<lambda>_. ?lv) b)"
    using book_invD(2) [OF inv] unlinked_level_face by (intro levels_inv_upd_level)
  then have lvinv: "levels_inv c (unlinked li s b)"
    by (simp add: levels_inv_def upd_level_def unlinked_def Let_def)
  have rem: "remove1 s (level_queue b li) = xs @ ys"
    using xs split(3) by (simp add: remove1_append)
  have rest: "lj < length (bk_levels b) \<Longrightarrow> lv_active (bk_levels b ! lj) \<Longrightarrow> level_queue b lj \<noteq> []" for lj
    using book_invD(4) [OF inv] .
  have pay: "\<forall>x. x \<noteq> s \<longrightarrow> same_payload (bk_orders (unlinked li s b) ! x) (bk_orders b ! x)"
    using unlinked_payload(2) by blast
  have "book_inv c (unlink_order c s b) \<and> unlink_effect b li s (unlink_order c s b)"
  proof (cases "xs @ ys = []")
    case True
    let ?b' = "retire_level c li (unlinked li s b)"
    have b': "unlink_order c s b = ?b'" using eq head True by simp
    have act: "li < length (bk_levels (unlinked li s b))" "lv_active (bk_levels (unlinked li s b) ! li)"
      using mem by (simp_all add: lvs unlinked_level_def)
    note r = retire_level_correct [OF lvinv act]
    have os': "bk_orders ?b' = unlinked_slots (bk_orders b) s"
      and rc': "bk_resting_order_count ?b' = bk_resting_order_count (unlinked li s b)"
      using r(2) by (simp_all add: same_slots_def os)
    have lvs': "bk_levels ?b' = (bk_levels b)[li := empty_level]"
      by (simp add: r(3) lvs)
    have sl': "slots_inv c ?b'"
      using sl(1) same_slots_inv [OF r(2)] by simp
    have qi: "queues_inv (bk_orders ?b') (bk_levels ?b') ((level_queue b)(li := xs @ ys))"
      unfolding os' lvs' using queues_unlinked [OF q xs] True by (simp only: refl if_True)
    have "((level_queue b)(li := xs @ ys)) lj \<noteq> []"
      if "lj < length (bk_levels ?b')" "lv_active (bk_levels ?b' ! lj)" for lj
      using that unfolding lvs' by (intro nonempty_upd [where lvs = "bk_levels b", OF rest]) auto
    note bi = book_invI [OF sl' r(1) qi this]
    then show ?thesis
      using bi rc rc' pay os os' lvs' True unfolding b' unlink_effect_def rem by auto
  next
    case False
    let ?b' = "unlinked li s b"
    have b': "unlink_order c s b = ?b'" using eq False unfolding head by (simp only: if_False)
    have qi: "queues_inv (bk_orders ?b') (bk_levels ?b') ((level_queue b)(li := xs @ ys))"
      using queues_unlinked [OF q xs] False by (simp only: os lvs if_False)
    have "((level_queue b)(li := xs @ ys)) lj \<noteq> []"
      if "lj < length (bk_levels ?b')" "lv_active (bk_levels ?b' ! lj)" for lj
      using that False unfolding lvs by (intro nonempty_upd [where lvs = "bk_levels b", OF rest]) auto
    note bi = book_invI [OF sl(1) lvinv qi this]
    then show ?thesis
      using bi rc pay lvs False unlinked_level_face unfolding b' unlink_effect_def rem by auto
  qed
  then show "book_inv c (unlink_order c s b)" "unlink_effect b li s (unlink_order c s b)"
    by auto
qed

end
