(* ===== verification/BookRest.thy ===== *)
theory BookRest
  imports BookUnlink
begin

section \<open>Resting an order\<close>

text \<open>
  \<open>rest_order\<close> takes a slot, indexes it, finds or creates the level and appends
  the slot to the queue. It fails when no slot or no level is free, and then the
  orders and levels are as before.
\<close>

subsection \<open>Appending a slot to a queue\<close>

definition resting_slot :: "nat \<Rightarrow> sim_order \<Rightarrow> u64 \<Rightarrow> nat option \<Rightarrow> order_slot" where
  "resting_slot li order remaining tail = \<lparr>sl_order = order, sl_remaining = remaining,
     sl_level_index = Some li, sl_prev = tail, sl_next = None, sl_active = True\<rparr>"

definition appended_slots ::
  "order_slot list \<Rightarrow> nat \<Rightarrow> nat \<Rightarrow> sim_order \<Rightarrow> u64 \<Rightarrow> nat option \<Rightarrow> order_slot list" where
  "appended_slots os li s order remaining tail =
     (let os1 = os[s := resting_slot li order remaining tail]
      in case tail of None \<Rightarrow> os1 | Some t \<Rightarrow> os1[t := (os1 ! t)\<lparr>sl_next := Some s\<rparr>])"

definition appended_level :: "nat \<Rightarrow> u64 \<Rightarrow> price_level \<Rightarrow> price_level" where
  "appended_level s remaining lv = lv\<lparr>lv_head := (if lv_tail lv = None then Some s else lv_head lv),
     lv_tail := Some s, lv_total := lv_total lv + remaining\<rparr>"

lemma append_to_level_eq:
  assumes "li < length (bk_levels b)"
  shows "append_to_level li s order remaining b =
    b\<lparr>bk_orders := appended_slots (bk_orders b) li s order remaining (lv_tail (bk_levels b ! li)),
      bk_levels := (bk_levels b)[li := appended_level s remaining (bk_levels b ! li)],
      bk_resting_order_count := Suc (bk_resting_order_count b)\<rparr>"
  using assms
  by (cases "lv_tail (bk_levels b ! li)")
    (simp_all add: append_to_level_def upd_slot_def upd_level_def appended_slots_def appended_level_def
      resting_slot_def Let_def)

lemma appended_slots_length [simp]: "length (appended_slots os li s order remaining tail) = length os"
  by (simp add: appended_slots_def Let_def split: option.splits)

lemma appended_payload:
  assumes "s < length os" "tail \<noteq> Some s"
  shows "x \<noteq> s \<Longrightarrow> same_payload (appended_slots os li s order remaining tail ! x) (os ! x)"
    "appended_slots os li s order remaining tail ! s = resting_slot li order remaining tail"
  using assms by (auto simp: appended_slots_def same_payload_def nth_upd Let_def split: option.splits)

lemma appended_other:
  "x \<noteq> s \<Longrightarrow> tail \<noteq> Some x \<Longrightarrow> appended_slots os li s order remaining tail ! x = os ! x"
  by (auto simp: appended_slots_def Let_def nth_upd split: option.splits)

lemma appended_level_ok:
  assumes ok: "level_ok os lv li q" and s: "s < length os" "s \<notin> set q"
    and ord: "so_side order = lv_side lv" "so_price_ticks order = lv_price lv" "remaining \<noteq> 0"
  shows "level_ok (appended_slots os li s order remaining (lv_tail lv)) (appended_level s remaining lv) li (q @ [s])"
proof -
  have tail: "lv_tail lv = last_or None q" and head: "lv_head lv = first_or None q"
    and q: "seg os li None q None" "distinct q"
    using ok by (auto simp: level_ok_def)
  have ts: "lv_tail lv \<noteq> Some s"
    using s(2) unfolding tail by (auto simp: last_or_def split: if_splits)
  let ?os = "appended_slots os li s order remaining (lv_tail lv)"
  have pay: "same_payload (?os ! x) (os ! x)" if "x \<in> set q" for x
    using that s(2) by (intro appended_payload(1) [OF s(1) ts]) auto
  have new: "?os ! s = resting_slot li order remaining (lv_tail lv)"
    using appended_payload(2) [OF s(1) ts] .
  have "seg ?os li None (q @ [s]) None"
    using seg_append_slot [OF q s(2,1), of order remaining]
    by (simp add: appended_slots_def resting_slot_def tail Let_def)
  moreover have "qty_sum ?os q = qty_sum os q"
    unfolding qty_sum_def using pay by (intro arg_cong [of _ _ sum_list] map_cong) (auto simp: same_payload_def)
  then have "lv_total (appended_level s remaining lv) = qty_sum ?os (q @ [s])"
    using ok new by (simp add: qty_sum_def appended_level_def level_ok_def resting_slot_def)
  moreover have "member_ok (appended_level s remaining lv) (?os ! x)" if "x \<in> set (q @ [s])" for x
    using that new ord pay ok by (auto simp: member_ok_def same_payload_def appended_level_def level_ok_def resting_slot_def)
  moreover have hd: "lv_head (appended_level s remaining lv) = first_or None (q @ [s])"
    using head by (cases q) (auto simp: appended_level_def tail last_or_def)
  ultimately show ?thesis
    using s(2) q(2) by (auto simp: level_ok_def appended_level_def)
qed

lemma queues_appended:
  assumes inv: "queues_inv os lvs qs" and li: "li < length lvs" and s: "s < length os" "\<not> sl_active (os ! s)"
    and ok: "level_ok os lv li (qs li)" and act: "lv_active lv"
    and ord: "so_side order = lv_side lv" "so_price_ticks order = lv_price lv" "remaining \<noteq> 0"
  shows "queues_inv (appended_slots os li s order remaining (lv_tail lv)) (lvs[li := appended_level s remaining lv])
           (qs(li := qs li @ [s]))"
proof (rule queues_inv_upd [OF inv li])
  have notin: "s \<notin> set (qs li)"
    using queues_mem [OF inv, of s li] s(2) by blast
  have tail: "lv_tail lv = last_or None (qs li)"
    using ok by (simp add: level_ok_def)
  show "appended_slots os li s order remaining (lv_tail lv) ! x = os ! x"
    if "x \<notin> set (qs li)" "x \<notin> set (qs li @ [s])" for x
    using that by (intro appended_other) (auto simp: tail last_or_def split: if_splits)
  show "if lv_active (appended_level s remaining lv)
      then level_ok (appended_slots os li s order remaining (lv_tail lv)) (appended_level s remaining lv) li (qs li @ [s])
      else qs li @ [s] = [] \<and> appended_level s remaining lv = empty_level"
    using appended_level_ok [OF ok s(1) notin ord] act by (simp add: appended_level_def)
  show "\<not> sl_active (os ! x)" if "x \<in> set (qs li @ [s])" "x \<notin> set (qs li)" for x
    using that s(2) by auto
qed auto

lemma new_level_ok: "level_ok os (new_level sd p) li []"
  by (simp add: level_ok_def new_level_def qty_sum_def)

subsection \<open>The index entry of the order\<close>

definition same_levels :: "matching_book \<Rightarrow> matching_book \<Rightarrow> bool" where
  "same_levels b b' \<longleftrightarrow> bk_levels b' = bk_levels b \<and> same_level_store b b'"

lemma same_levels_inv: "same_levels b b' \<Longrightarrow> levels_inv c b' = levels_inv c b"
  by (simp add: same_levels_def levels_inv_def same_level_store_def)

lemma same_levels_find: "same_levels b b' \<Longrightarrow> find_level c b' s p = find_level c b s p"
  by (simp add: same_levels_def find_level_def find_level_in_index_def same_level_store_def)

lemma insert_order_index:
  assumes inv: "slots_inv c b"
    and room: "bk_free_slots_ptr b < order_capacity c" "bk_free_slots_ptr b < order_index_capacity c" and none: "find_slot b oid = None"
  defines "s \<equiv> bk_free_slots b ! bk_free_slots_ptr b"
  shows "\<exists>t'. insert_index (b\<lparr>bk_free_slots_ptr := Suc (bk_free_slots_ptr b)\<rparr>) oid s =
         (b\<lparr>bk_free_slots_ptr := Suc (bk_free_slots_ptr b), bk_index := t', bk_index_size := Suc (bk_index_size b)\<rparr>, True)
      \<and> index_agrees (hash_order_id (order_index_capacity c)) (order_index_capacity c) t'
          (Suc (bk_index_size b)) ((slot_keys b)[s := Some oid])
      \<and> pool_inv ((slot_keys b)[s := Some oid]) (bk_free_slots b) (Suc (bk_free_slots_ptr b))
      \<and> s < length (bk_orders b) \<and> \<not> sl_active (bk_orders b ! s)
      \<and> (\<exists>t''. rh_remove (hash_order_id (order_index_capacity c)) empty_index_entry t' oid = (t'', True)
           \<and> index_agrees (hash_order_id (order_index_capacity c)) (order_index_capacity c) t''
               (bk_index_size b) (slot_keys b))"
proof -
  have pool: "pool_inv (slot_keys b) (bk_free_slots b) (bk_free_slots_ptr b)"
    and ag: "index_agrees (hash_order_id (order_index_capacity c)) (order_index_capacity c)
         (bk_index b) (bk_index_size b) (slot_keys b)"
    and len: "length (bk_orders b) = order_capacity c" "length (bk_index b) = order_index_capacity c"
    using inv by (simp_all add: slots_inv_def index_agrees_def)
  have top: "s < length (slot_keys b)" "slot_keys b ! s = None"
    using pool_top_free [OF pool] room len by (simp_all add: s_def)
  have new: "\<And>j. j < length (slot_keys b) \<Longrightarrow> slot_keys b ! j \<noteq> Some oid"
    using none find_slot_None [OF inv] by simp
  have sz: "bk_index_size b < order_index_capacity c"
    using order_index.agrees_size [OF ag pool] room by simp
  then have ne: "bk_index b \<noteq> []" using len by auto
  obtain t' where t': "rh_insert (hash_order_id (order_index_capacity c)) (bk_index b) oid s = (t', True)"
    "index_agrees (hash_order_id (order_index_capacity c)) (order_index_capacity c) t'
       (Suc (bk_index_size b)) ((slot_keys b)[s := Some oid])"
    using order_index.agrees_insert [OF ag sz new top] by blast
  have "pool_inv ((slot_keys b)[s := Some oid]) (bk_free_slots b) (Suc (bk_free_slots_ptr b))"
    unfolding s_def using pool_pop [OF pool _ new] room len by simp
  moreover have "insert_index (b\<lparr>bk_free_slots_ptr := Suc (bk_free_slots_ptr b)\<rparr>) oid s =
         (b\<lparr>bk_free_slots_ptr := Suc (bk_free_slots_ptr b), bk_index := t', bk_index_size := Suc (bk_index_size b)\<rparr>, True)"
    using ne sz t'(1) len by (simp add: insert_index_def)
  ultimately show ?thesis
    using t' top order_index.agrees_insert_remove [OF ag sz new t'(1)] by (intro exI [of _ t']) simp
qed

subsection \<open>What resting an order does\<close>

definition rest_blocked :: "book_config \<Rightarrow> matching_book \<Rightarrow> sim_order \<Rightarrow> bool" where
  "rest_blocked c b order \<longleftrightarrow> min (order_capacity c) (order_index_capacity c) \<le> bk_resting_order_count b
     \<or> find_level c b (so_side order) (so_price_ticks order) = None
       \<and> price_level_capacity c \<le> bk_active_price_level_count b"

definition rest_effect ::
  "book_config \<Rightarrow> matching_book \<Rightarrow> sim_order \<Rightarrow> u64 \<Rightarrow> nat \<Rightarrow> nat \<Rightarrow> matching_book \<Rightarrow> bool" where
  "rest_effect c b order remaining li s b' \<longleftrightarrow>
     s < length (bk_orders b) \<and> \<not> sl_active (bk_orders b ! s)
     \<and> li < length (bk_levels b)
     \<and> (if find_level c b (so_side order) (so_price_ticks order) = None then \<not> lv_active (bk_levels b ! li)
        else find_level c b (so_side order) (so_price_ticks order) = Some li)
     \<and> level_queue b' = (level_queue b)(li := level_queue b li @ [s])
     \<and> (\<forall>x. x \<noteq> s \<longrightarrow> same_payload (bk_orders b' ! x) (bk_orders b ! x))
     \<and> sl_order (bk_orders b' ! s) = order \<and> sl_remaining (bk_orders b' ! s) = remaining
     \<and> (\<exists>lv. bk_levels b' = (bk_levels b)[li := lv] \<and> lv_active lv \<and> lv_side lv = so_side order
            \<and> lv_price lv = so_price_ticks order)
     \<and> bk_resting_order_count b' = Suc (bk_resting_order_count b)"

text \<open>The level an order comes to rest in: an existing one, or a new one in a free entry.\<close>

lemma find_or_create_cases:
  assumes inv: "levels_inv c b"
    and ok: "find_level c b sd p = None \<Longrightarrow> bk_free_levels_ptr b < price_level_capacity c"
  shows "\<exists>b' li lv. find_or_create_level c b sd p = (b', Some li) \<and> levels_inv c b' \<and> same_slots b b'
    \<and> li < length (bk_levels b) \<and> bk_levels b' = (bk_levels b)[li := lv]
    \<and> lv_active lv \<and> lv_side lv = sd \<and> lv_price lv = p
    \<and> (if find_level c b sd p = None then \<not> lv_active (bk_levels b ! li) \<and> lv = new_level sd p
       else find_level c b sd p = Some li \<and> lv = bk_levels b ! li)"
proof (cases "find_level c b sd p")
  case (Some li)
  then have "li < length (bk_levels b)" "lv_active (bk_levels b ! li)"
    "lv_side (bk_levels b ! li) = sd" "lv_price (bk_levels b ! li) = p"
    using find_level_correct [OF inv, of sd p li] by auto
  then show ?thesis
    using Some inv by (intro exI [of _ b] exI [of _ li] exI [of _ "bk_levels b ! li"])
      (simp add: find_or_create_level_def same_slots_def)
next
  case None
  define i where "i = bk_free_levels b ! bk_free_levels_ptr b"
  note base = create_level_base [OF inv ok [OF None] None, folded i_def]
  obtain b' where "find_or_create_level c b sd p = (b', Some i)" "levels_inv c b'" "same_slots b b'"
      "bk_levels b' = (bk_levels b)[i := new_level sd p]"
    using find_or_create_level_new [OF inv ok [OF None] None, folded i_def] by blast
  then show ?thesis
    using None base by (intro exI [of _ b'] exI [of _ i] exI [of _ "new_level sd p"]) (simp add: new_level_def)
qed

lemma active_count: "slots_inv c b \<Longrightarrow> bk_free_slots_ptr b = bk_resting_order_count b"
  "levels_inv c b \<Longrightarrow> bk_free_levels_ptr b = bk_active_price_level_count b"
  by (simp_all add: slots_inv_def levels_inv_def)

lemma appended_face: "lv_active (appended_level s q lv) = lv_active lv"
  "lv_side (appended_level s q lv) = lv_side lv" "lv_price (appended_level s q lv) = lv_price lv"
  by (simp_all add: appended_level_def)

lemma slots_inv_appended:
  assumes inv: "slots_inv c b" and s: "s < length (bk_orders b)" "tail \<noteq> Some s"
    and idx: "index_agrees (hash_order_id (order_index_capacity c)) (order_index_capacity c) t'
          (Suc (bk_index_size b)) ((slot_keys b)[s := Some (so_order_id order)])"
    and pool: "pool_inv ((slot_keys b)[s := Some (so_order_id order)]) (bk_free_slots b) (Suc (bk_free_slots_ptr b))"
    and b': "bk_orders b' = appended_slots (bk_orders b) li s order remaining tail"
      "bk_free_slots b' = bk_free_slots b" "bk_free_slots_ptr b' = Suc (bk_free_slots_ptr b)"
      "bk_index b' = t'" "bk_index_size b' = Suc (bk_index_size b)"
      "bk_resting_order_count b' = Suc (bk_resting_order_count b)"
  shows "slots_inv c b'"
proof -
  note pay = appended_payload [OF s]
  have "slot_keys b' = (slot_keys b)[s := Some (so_order_id order)]"
  proof (rule nth_equalityI)
    fix i assume "i < length (slot_keys b')"
    then show "slot_keys b' ! i = (slot_keys b)[s := Some (so_order_id order)] ! i"
      using s(1) pay(1) [of i] pay(2) unfolding b'(1)
      by (cases "i = s") (auto simp: slot_key_def same_payload_def resting_slot_def)
  qed (simp add: b'(1))
  then show ?thesis
    using assms unfolding slots_inv_def by simp
qed

theorem rest_order_success:
  assumes inv: "book_inv c b" and cfg: "valid_config c" and none: "find_slot b (so_order_id order) = None"
    and rem: "remaining \<noteq> 0" and free: "\<not> rest_blocked c b order"
  shows "\<exists>b' li s. rest_order c order remaining b = (b', True) \<and> book_inv c b'
    \<and> rest_effect c b order remaining li s b'"
proof -
  note sl = book_invD(1) [OF inv] and lv = book_invD(2) [OF inv] and q = book_invD(3) [OF inv]
  define s where "s = bk_free_slots b ! bk_free_slots_ptr b"
  have room: "bk_free_slots_ptr b < order_capacity c" "bk_free_slots_ptr b < order_index_capacity c"
    using free active_count(1) [OF sl] by (simp_all add: rest_blocked_def min_le_iff_disj)
  obtain t' where ins: "insert_index (b\<lparr>bk_free_slots_ptr := Suc (bk_free_slots_ptr b)\<rparr>) (so_order_id order) s =
         (b\<lparr>bk_free_slots_ptr := Suc (bk_free_slots_ptr b), bk_index := t', bk_index_size := Suc (bk_index_size b)\<rparr>, True)"
     and idx: "index_agrees (hash_order_id (order_index_capacity c)) (order_index_capacity c) t'
          (Suc (bk_index_size b)) ((slot_keys b)[s := Some (so_order_id order)])"
     and pool: "pool_inv ((slot_keys b)[s := Some (so_order_id order)]) (bk_free_slots b) (Suc (bk_free_slots_ptr b))"
     and s: "s < length (bk_orders b)" "\<not> sl_active (bk_orders b ! s)"
    using insert_order_index [OF sl room none, folded s_def] by blast
  define b2 where "b2 = b\<lparr>bk_free_slots_ptr := Suc (bk_free_slots_ptr b), bk_index := t', bk_index_size := Suc (bk_index_size b)\<rparr>"
  have same: "same_levels b b2"
    by (simp add: b2_def same_levels_def same_level_store_def)
  have lv2: "levels_inv c b2" using lv same_levels_inv [OF same] by simp
  note fl = same_levels_find [OF same, of c]
  have levels2: "bk_levels b2 = bk_levels b" by (simp add: b2_def)
  have ok2: "bk_free_levels_ptr b2 < price_level_capacity c"
    if "find_level c b2 (so_side order) (so_price_ticks order) = None"
    using that free active_count(2) [OF lv] unfolding fl by (simp add: rest_blocked_def b2_def)
  obtain b3 li l where fc: "find_or_create_level c b2 (so_side order) (so_price_ticks order) = (b3, Some li)"
      and lv3: "levels_inv c b3" and ss: "same_slots b2 b3"
      and li: "li < length (bk_levels b)" "bk_levels b3 = (bk_levels b)[li := l]"
      and l: "lv_active l" "lv_side l = so_side order" "lv_price l = so_price_ticks order"
      and found: "if find_level c b (so_side order) (so_price_ticks order) = None
         then \<not> lv_active (bk_levels b ! li) \<and> l = new_level (so_side order) (so_price_ticks order)
         else find_level c b (so_side order) (so_price_ticks order) = Some li \<and> l = bk_levels b ! li"
    using find_or_create_cases [OF lv2 ok2] unfolding fl levels2 by metis
  define b4 where "b4 = append_to_level li s order remaining b3"
  have rest: "rest_order c order remaining b = (b4, True)"
    using room ins fc by (simp add: rest_order_def s_def [symmetric] b2_def [symmetric] b4_def Let_def)
  have b4: "b4 = b3\<lparr>bk_orders := appended_slots (bk_orders b) li s order remaining (lv_tail l),
      bk_levels := (bk_levels b)[li := appended_level s remaining l],
      bk_resting_order_count := Suc (bk_resting_order_count b)\<rparr>"
    unfolding b4_def using li ss by (subst append_to_level_eq) (simp_all add: same_slots_def b2_def)
  have qok: "level_ok (bk_orders b) l li (level_queue b li)"
  proof (cases "find_level c b (so_side order) (so_price_ticks order)")
    case None
    then show ?thesis
      using found queues_inactive [OF q li(1)] new_level_ok by auto
  next
    case (Some j)
    then show ?thesis
      using found queues_level [OF q li(1)] l(1) by auto
  qed
  have qi: "queues_inv (bk_orders b4) (bk_levels b4) ((level_queue b)(li := level_queue b li @ [s]))"
    unfolding b4 using queues_appended [OF q li(1) s qok l(1), of order remaining] l rem by simp
  have notin: "s \<notin> set (level_queue b li)"
    using queues_mem [OF q, of s li] s(2) by blast
  have tail: "lv_tail l \<noteq> Some s"
    using qok notin by (auto simp: level_ok_def last_or_def split: if_splits)
  have sl4: "slots_inv c b4"
    using ss unfolding b4 by (intro slots_inv_appended [OF sl s(1) tail idx pool]) (simp_all add: same_slots_def b2_def)
  have "levels_inv c (upd_level li (appended_level s remaining) b3)"
    using lv3 appended_face by (intro levels_inv_upd_level) (simp_all add: same_face_def)
  then have lv4: "levels_inv c b4"
    unfolding b4 using li by (simp add: levels_inv_def upd_level_def)
  have ne: "((level_queue b)(li := level_queue b li @ [s])) lj \<noteq> []"
    if "lj < length (bk_levels b4)" "lv_active (bk_levels b4 ! lj)" for lj
    using that unfolding b4 by (intro nonempty_upd [where lvs = "bk_levels b", OF book_invD(4) [OF inv]]) auto
  note bi = book_invI [OF sl4 lv4 qi ne]
  have b4p: "bk_orders b4 = appended_slots (bk_orders b) li s order remaining (lv_tail l)"
      "bk_levels b4 = (bk_levels b)[li := appended_level s remaining l]"
      "bk_resting_order_count b4 = Suc (bk_resting_order_count b)"
    by (simp_all add: b4)
  have "rest_effect c b order remaining li s b4"
    unfolding rest_effect_def b4p using bi(2)
      s li(1) l found appended_payload [OF s(1) tail] by (auto simp: appended_face resting_slot_def)
  then show ?thesis
    using rest bi(1) by blast
qed

text \<open>A failed attempt leaves the orders, the levels and their queues as they were.\<close>

definition same_view :: "matching_book \<Rightarrow> matching_book \<Rightarrow> bool" where
  "same_view b b' \<longleftrightarrow> bk_orders b' = bk_orders b \<and> bk_levels b' = bk_levels b
     \<and> bk_resting_order_count b' = bk_resting_order_count b"

lemma same_view_queue: "same_view b b' \<Longrightarrow> level_queue b' = level_queue b"
  by (rule ext) (simp add: same_view_def level_queue_def)

theorem rest_order_failure:
  assumes inv: "book_inv c b" and cfg: "valid_config c" and none: "find_slot b (so_order_id order) = None"
    and blocked: "rest_blocked c b order"
  shows "\<exists>b'. rest_order c order remaining b = (b', False) \<and> book_inv c b' \<and> same_view b b'"
proof (cases "order_capacity c \<le> bk_free_slots_ptr b \<or> order_index_capacity c \<le> bk_free_slots_ptr b")
  case True
  note sl = book_invD(1) [OF inv]
  have ag: "index_agrees (hash_order_id (order_index_capacity c)) (order_index_capacity c)
         (bk_index b) (bk_index_size b) (slot_keys b)"
    and pool: "pool_inv (slot_keys b) (bk_free_slots b) (bk_free_slots_ptr b)"
    using sl by (simp_all add: slots_inv_def)
  have size: "bk_index_size b = bk_free_slots_ptr b"
    by (rule order_index.agrees_size [OF ag pool])
  moreover have len: "length (bk_index b) = order_index_capacity c"
    using ag by (simp add: index_agrees_def)
  ultimately have "insert_index b1 oid s = (b1, False)"
    if "order_index_capacity c \<le> bk_free_slots_ptr b" "bk_index b1 = bk_index b" "bk_index_size b1 = bk_index_size b" for b1 oid s
    using that by (simp add: insert_index_def)
  then have "rest_order c order remaining b = (b, False)"
    using True by (cases "order_capacity c \<le> bk_free_slots_ptr b") (simp_all add: rest_order_def push_free_slot_def Let_def)
  then show ?thesis
    using inv by (simp add: same_view_def)
next
  case False
  note sl = book_invD(1) [OF inv] and lv = book_invD(2) [OF inv] and q = book_invD(3) [OF inv]
  define s where "s = bk_free_slots b ! bk_free_slots_ptr b"
  have room: "bk_free_slots_ptr b < order_capacity c" "bk_free_slots_ptr b < order_index_capacity c" using False by simp_all
  obtain t' t'' where ins: "insert_index (b\<lparr>bk_free_slots_ptr := Suc (bk_free_slots_ptr b)\<rparr>) (so_order_id order) s =
         (b\<lparr>bk_free_slots_ptr := Suc (bk_free_slots_ptr b), bk_index := t', bk_index_size := Suc (bk_index_size b)\<rparr>, True)"
     and idx: "index_agrees (hash_order_id (order_index_capacity c)) (order_index_capacity c) t'
          (Suc (bk_index_size b)) ((slot_keys b)[s := Some (so_order_id order)])"
     and rm: "rh_remove (hash_order_id (order_index_capacity c)) empty_index_entry t' (so_order_id order) = (t'', True)"
     and idx'': "index_agrees (hash_order_id (order_index_capacity c)) (order_index_capacity c) t''
               (bk_index_size b) (slot_keys b)"
    using insert_order_index [OF sl room none, folded s_def] by blast
  define b2 where "b2 = b\<lparr>bk_free_slots_ptr := Suc (bk_free_slots_ptr b), bk_index := t', bk_index_size := Suc (bk_index_size b)\<rparr>"
  have same: "same_levels b b2"
    by (simp add: b2_def same_levels_def same_level_store_def)
  have "find_level c b2 (so_side order) (so_price_ticks order) = None"
    and "price_level_capacity c \<le> bk_free_levels_ptr b2"
    using blocked False active_count(1) [OF sl] active_count(2) [OF lv] same_levels_find [OF same, of c]
    by (simp_all add: rest_blocked_def b2_def min_le_iff_disj)
  then have fc: "find_or_create_level c b2 (so_side order) (so_price_ticks order) = (b2, None)"
    by (simp add: find_or_create_level_def)
  let ?b' = "b\<lparr>bk_index := t''\<rparr>"
  have len: "length t' = order_index_capacity c" "t' \<noteq> []"
    using idx order_index.agrees_lookup [OF idx, of "so_order_id order" s] room sl
      pool_top_free [of "slot_keys b" "bk_free_slots b" "bk_free_slots_ptr b"]
    by (auto simp: index_agrees_def slots_inv_def s_def rh_find_def rh_find_from.simps)
  have "push_free_slot s (remove_index b2 (so_order_id order)) = ?b'"
    using rm len by (simp add: push_free_slot_def remove_index_def b2_def s_def)
  then have "rest_order c order remaining b = (?b', False)"
    using room ins fc by (simp add: rest_order_def s_def [symmetric] b2_def [symmetric] Let_def)
  moreover have "slots_inv c ?b'" "levels_inv c ?b'" "queues_inv (bk_orders ?b') (bk_levels ?b') (level_queue b)"
    using sl idx'' lv q by (simp_all add: slots_inv_def levels_inv_def)
  then have "book_inv c ?b'"
    using book_invD(4) [OF inv] by (intro book_invI) simp_all
  ultimately show ?thesis
    by (auto simp: same_view_def)
qed

end
