(* ===== verification/BookLadder.thy ===== *)
theory BookLadder
  imports BookRest
begin

section \<open>The ladder of a side\<close>

text \<open>
  The abstract view of one side of the book: its price levels from best to
  worst, each with the resting orders in time order and what is left of them.
  \<open>ranked\<close> lists the active levels of a side by price; in a deep book it is the
  sorted array. The lemmas say how the effects of the operations read on ladders.
\<close>

type_synonym book_entry = "sim_order \<times> u64"
type_synonym ladder = "(int \<times> book_entry list) list"

definition price_rank :: "side \<Rightarrow> int \<Rightarrow> int" where
  "price_rank s p = (if s = Buy then - p else p)"

definition ranked :: "price_level list \<Rightarrow> side \<Rightarrow> nat list" where
  "ranked lvs s = sort_key (\<lambda>i. price_rank s (lv_price (lvs ! i)))
     (filter (\<lambda>i. lv_active (lvs ! i) \<and> lv_side (lvs ! i) = s) [0..<length lvs])"

definition book_entry :: "order_slot list \<Rightarrow> nat \<Rightarrow> book_entry" where
  "book_entry os x = (sl_order (os ! x), sl_remaining (os ! x))"

definition rung :: "matching_book \<Rightarrow> nat \<Rightarrow> int \<times> book_entry list" where
  "rung b i = (lv_price (bk_levels b ! i), map (book_entry (bk_orders b)) (level_queue b i))"

definition ladder :: "matching_book \<Rightarrow> side \<Rightarrow> ladder" where
  "ladder b s = map (rung b) (ranked (bk_levels b) s)"

subsection \<open>Ranking the levels\<close>

lemma better_rank: "is_better_price s p q \<longleftrightarrow> price_rank s p < price_rank s q"
  by (simp add: is_better_price_def price_rank_def)

lemma price_rank_eq [simp]: "price_rank s p = price_rank s q \<longleftrightarrow> p = q"
  by (simp add: price_rank_def)

lemma price_sorted_map:
  "price_sorted lvs s xs \<longleftrightarrow> sorted_wrt (<) (map (\<lambda>i. price_rank s (lv_price (lvs ! i))) xs)"
  by (simp add: price_sorted_def better_rank sorted_wrt_map)

lemma sorted_ok_ranked:
  assumes "sorted_ok lvs s xs"
  shows "ranked lvs s = xs"
proof -
  let ?k = "\<lambda>i. price_rank s (lv_price (lvs ! i))"
  let ?f = "filter (\<lambda>i. lv_active (lvs ! i) \<and> lv_side (lvs ! i) = s) [0..<length lvs]"
  have srt: "sorted_wrt (<) (map ?k xs)" and d: "distinct xs"
    using assms by (simp_all add: sorted_ok_iff price_sorted_map)
  have set: "set ?f = set xs"
    using assms by (auto simp: sorted_ok_iff)
  have inj: "inj_on ?k (set xs)"
    using srt d by (metis distinct_map strict_sorted_iff)
  have "mset (map ?k ?f) = mset (map ?k xs)"
  proof -
    have "mset ?f = mset xs"
      using set d by (subst set_eq_iff_mset_eq_distinct [symmetric]) auto
    then show ?thesis by simp
  qed
  then have "sort (map ?k ?f) = map ?k xs"
    using srt by (intro properties_for_sort) (simp_all add: strict_sorted_iff)
  moreover have "sort (map ?k ?f) = map ?k (sort_key ?k ?f)"
    by (rule properties_for_sort) simp_all
  ultimately have "map ?k (sort_key ?k ?f) = map ?k xs" by simp
  then show ?thesis
    using inj set unfolding ranked_def by (intro map_inj_on [of ?k]) auto
qed

lemma ranked_ok:
  assumes inv: "levels_inv c b"
  shows "sorted_ok (bk_levels b) s (ranked (bk_levels b) s)"
proof -
  let ?lvs = "bk_levels b"
  let ?k = "\<lambda>i. price_rank s (lv_price (?lvs ! i))"
  have d: "distinct (ranked ?lvs s)" by (simp add: ranked_def)
  have mem: "i \<in> set (ranked ?lvs s) \<longleftrightarrow> i < length ?lvs \<and> lv_active (?lvs ! i) \<and> lv_side (?lvs ! i) = s" for i
    by (auto simp: ranked_def)
  have "inj_on ?k (set (ranked ?lvs s))"
    using level_unique [OF inv] mem by (intro inj_onI) (metis price_rank_eq)
  then have "sorted_wrt (<) (map ?k (ranked ?lvs s))"
    using d by (simp add: strict_sorted_iff distinct_map) (simp add: ranked_def)
  then show ?thesis
    using d mem by (simp add: sorted_ok_iff price_sorted_map)
qed

lemma ranked_deep:
  "levels_inv c b \<Longrightarrow> uses_deep_level_index c \<Longrightarrow> sorted_indices_for b s = ranked (bk_levels b) s"
  using sorted_ok_ranked [OF levels_invD(5)] by metis

lemma ranked_mem:
  "i \<in> set (ranked lvs s) \<longleftrightarrow> i < length lvs \<and> lv_active (lvs ! i) \<and> lv_side (lvs ! i) = s"
  by (auto simp: ranked_def)

lemma ranked_distinct [simp]: "distinct (ranked lvs s)"
  by (simp add: ranked_def)

lemma ranked_upd:
  assumes "sorted_ok lvs s (ranked lvs s)" "same_face (lvs ! i) l"
  shows "ranked (lvs[i := l]) s = ranked lvs s"
  using assms by (intro sorted_ok_ranked) (simp add: sorted_ok_upd)

lemma ranked_remove:
  assumes "sorted_ok lvs s (ranked lvs s)"
  shows "ranked (lvs[i := empty_level]) s = remove1 i (ranked lvs s)"
  using assms by (intro sorted_ok_ranked sorted_ok_remove) simp_all

lemma ranked_new_other:
  assumes "sorted_ok lvs s (ranked lvs s)" "\<not> lv_active (lvs ! i)" "lv_side l \<noteq> s"
  shows "ranked (lvs[i := l]) s = ranked lvs s"
  using assms by (intro sorted_ok_ranked sorted_ok_other) simp_all

lemma ranked_new:
  assumes ok: "sorted_ok lvs s (ranked lvs s)" and i: "i < length lvs" "\<not> lv_active (lvs ! i)"
    and fresh: "\<And>j. j < length lvs \<Longrightarrow> lv_active (lvs ! j) \<Longrightarrow> lv_side (lvs ! j) = s \<Longrightarrow> lv_price (lvs ! j) \<noteq> p"
    and l: "lv_active l" "lv_side l = s" "lv_price l = p"
  shows "ranked (lvs[i := l]) s =
    takeWhile (\<lambda>j. is_better_price s (lv_price (lvs ! j)) p) (ranked lvs s) @
    i # dropWhile (\<lambda>j. is_better_price s (lv_price (lvs ! j)) p) (ranked lvs s)"
proof -
  let ?xs = "ranked lvs s"
  let ?lvs = "lvs[i := new_level s p]"
  let ?better = "\<lambda>j. is_better_price s (lv_price (lvs ! j)) p"
  define pos where "pos = lower_bound (\<lambda>j. is_better_price s (lv_price (?lvs ! j)) p) ?xs"
  have notin: "i \<notin> set ?xs" using i by (simp add: ranked_mem)
  have "sorted_ok ?lvs s (take pos ?xs @ i # drop pos ?xs)"
    unfolding pos_def by (rule sorted_ok_insert [OF ok i fresh])
  then have "sorted_ok (?lvs[i := l]) s (take pos ?xs @ i # drop pos ?xs)"
    using l i by (subst sorted_ok_upd) (simp_all add: same_face_def new_level_def)
  then have r: "ranked (lvs[i := l]) s = take pos ?xs @ i # drop pos ?xs"
    by (simp add: sorted_ok_ranked)
  have same: "map (\<lambda>j. is_better_price s (lv_price (?lvs ! j)) p) ?xs = map ?better ?xs"
    using notin by (auto simp: nth_upd)
  have "price_sorted lvs s ?xs" using ok by (simp add: sorted_ok_iff)
  then have part: "partitioned ?better ?xs"
    unfolding price_sorted_def partitioned_def sorted_wrt_iff_nth_less by (blast intro: better_trans)
  have eqP: "?better j = is_better_price s (lv_price (?lvs ! j)) p" if "j \<in> set ?xs" for j
    using that notin by (auto simp: nth_upd)
  then have "partitioned (\<lambda>j. is_better_price s (lv_price (?lvs ! j)) p) ?xs"
    using part unfolding partitioned_def by (metis nth_mem order.strict_trans)
  then have "pos = length (takeWhile (\<lambda>j. is_better_price s (lv_price (?lvs ! j)) p) ?xs)"
    unfolding pos_def by (rule lower_bound_takeWhile)
  also have "takeWhile (\<lambda>j. is_better_price s (lv_price (?lvs ! j)) p) ?xs = takeWhile ?better ?xs"
    using eqP by (intro takeWhile_cong) auto
  finally have "pos = length (takeWhile ?better ?xs)" .
  then show ?thesis
    by (simp add: r takeWhile_eq_take [symmetric] dropWhile_eq_drop [symmetric])
qed

subsection \<open>Reading a ladder\<close>

lemma rung_price [simp]: "fst (rung b i) = lv_price (bk_levels b ! i)"
  by (simp add: rung_def)

lemma ladder_rung_cases:
  assumes inv: "book_inv c b" and li: "li \<in> set (ranked (bk_levels b) s)"
  shows "li < length (bk_levels b)" "lv_active (bk_levels b ! li)" "lv_side (bk_levels b ! li) = s"
    "level_queue b li \<noteq> []"
    "level_ok (bk_orders b) (bk_levels b ! li) li (level_queue b li)"
  using li book_invD(4) [OF inv, of li] queues_level [OF book_invD(3) [OF inv], of li]
  by (auto simp: ranked_mem)

lemma active_in_ladder:
  assumes inv: "book_inv c b" and x: "x < length (bk_orders b)" "sl_active (bk_orders b ! x)"
  obtains li s where "li \<in> set (ranked (bk_levels b) s)" "x \<in> set (level_queue b li)"
proof -
  obtain li where li: "li < length (bk_levels b)" "x \<in> set (level_queue b li)"
    using queues_slot [OF book_invD(3) [OF inv] x] by blast
  then have "li \<in> set (ranked (bk_levels b) (lv_side (bk_levels b ! li)))"
    using queues_mem [OF book_invD(3) [OF inv] li(2)] by (simp add: ranked_mem)
  then show ?thesis using that li(2) by blast
qed

lemma queue_ids_unique:
  assumes inv: "book_inv c b" and x: "x \<in> set (level_queue b i)" and y: "y \<in> set (level_queue b j)"
    and same: "so_order_id (sl_order (bk_orders b ! x)) = so_order_id (sl_order (bk_orders b ! y))"
  shows "x = y"
proof -
  note mx = queues_mem [OF book_invD(3) [OF inv] x] and my = queues_mem [OF book_invD(3) [OF inv] y]
  have "pool_inv (slot_keys b) (bk_free_slots b) (bk_free_slots_ptr b)"
    using book_invD(1) [OF inv] by (simp add: slots_inv_def)
  then show ?thesis
    using mx my same pool_unique [of "slot_keys b" "bk_free_slots b" "bk_free_slots_ptr b" x y]
    by (simp add: slot_key_def)
qed

definition ladder_ids :: "ladder \<Rightarrow> order_id set" where
  "ladder_ids L = (\<Union>pq\<in>set L. (\<lambda>e. so_order_id (fst e)) ` set (snd pq))"

lemma ladder_idsI: "(p, q) \<in> set L \<Longrightarrow> e \<in> set q \<Longrightarrow> so_order_id (fst e) \<in> ladder_ids L"
  by (force simp: ladder_ids_def)

lemma ladder_ids_iff:
  "oid \<in> ladder_ids (ladder b s) \<longleftrightarrow>
     (\<exists>li\<in>set (ranked (bk_levels b) s). \<exists>x\<in>set (level_queue b li). so_order_id (sl_order (bk_orders b ! x)) = oid)"
  by (force simp: ladder_ids_def ladder_def rung_def book_entry_def)

lemma find_slot_ladder:
  assumes inv: "book_inv c b"
  shows "find_slot b oid \<noteq> None \<longleftrightarrow> (\<exists>s. oid \<in> ladder_ids (ladder b s))"
proof
  assume "find_slot b oid \<noteq> None"
  then obtain x where "find_slot b oid = Some x" by blast
  then have x: "x < length (bk_orders b)" "sl_active (bk_orders b ! x)" "so_order_id (sl_order (bk_orders b ! x)) = oid"
    using find_slot_correct [OF book_invD(1) [OF inv]] by auto
  then show "\<exists>s. oid \<in> ladder_ids (ladder b s)"
    using active_in_ladder [OF inv x(1,2)] unfolding ladder_ids_iff by metis
next
  assume "\<exists>s. oid \<in> ladder_ids (ladder b s)"
  then obtain li x where "x \<in> set (level_queue b li)" "so_order_id (sl_order (bk_orders b ! x)) = oid"
    unfolding ladder_ids_iff by blast
  then have "find_slot b oid = Some x"
    using queues_mem [OF book_invD(3) [OF inv]] find_slot_correct [OF book_invD(1) [OF inv], of oid x] by auto
  then show "find_slot b oid \<noteq> None" by simp
qed

lemma find_level_ladder:
  assumes inv: "levels_inv c b"
  shows "find_level c b s p = None \<longleftrightarrow> p \<notin> fst ` set (ladder b s)"
    "find_level c b s p = Some i \<longleftrightarrow> i \<in> set (ranked (bk_levels b) s) \<and> lv_price (bk_levels b ! i) = p"
proof -
  show some: "find_level c b s p = Some i \<longleftrightarrow> i \<in> set (ranked (bk_levels b) s) \<and> lv_price (bk_levels b ! i) = p" for i
    using find_level_correct [OF inv, of s p i] by (auto simp: ranked_mem)
  have "find_level c b s p = None \<longleftrightarrow> (\<forall>i\<in>set (ranked (bk_levels b) s). lv_price (bk_levels b ! i) \<noteq> p)"
    using some by (metis option.exhaust option.distinct(1))
  then show "find_level c b s p = None \<longleftrightarrow> p \<notin> fst ` set (ladder b s)"
    by (auto simp: ladder_def image_image)
qed

subsection \<open>Counting orders and levels\<close>

definition order_count :: "ladder \<Rightarrow> nat" where
  "order_count L = sum_list (map (\<lambda>(p, q). length q) L)"

lemma active_levels_split:
  "{i. i < length lvs \<and> lv_active (lvs ! i)} = set (ranked lvs Buy) \<union> set (ranked lvs Sell)"
  "set (ranked lvs Buy) \<inter> set (ranked lvs Sell) = {}"
  by (auto simp: ranked_mem) (metis side.exhaust)

lemma level_count:
  assumes "levels_inv c b"
  shows "bk_active_price_level_count b = length (ladder b Buy) + length (ladder b Sell)"
proof -
  have "bk_active_price_level_count b = card {i. i < length (bk_levels b) \<and> lv_active (bk_levels b ! i)}"
    using pool_used_count [OF levels_invD(2) [OF assms]] levels_invD(3) [OF assms]
    by (simp cong: conj_cong)
  also have "\<dots> = card (set (ranked (bk_levels b) Buy)) + card (set (ranked (bk_levels b) Sell))"
    unfolding active_levels_split(1) using active_levels_split(2) by (intro card_Un_disjoint) auto
  finally show ?thesis
    by (simp add: distinct_card ladder_def)
qed

lemma ladder_order_count:
  "order_count (ladder b s) = (\<Sum>i\<in>set (ranked (bk_levels b) s). length (level_queue b i))"
  by (simp add: order_count_def ladder_def rung_def o_def sum_list_distinct_conv_sum_set case_prod_beta)

lemma resting_count:
  assumes inv: "book_inv c b"
  shows "bk_resting_order_count b = order_count (ladder b Buy) + order_count (ladder b Sell)"
proof -
  note q = book_invD(3) [OF inv]
  have "bk_resting_order_count b = card {x. x < length (bk_orders b) \<and> sl_active (bk_orders b ! x)}"
    using book_invD(1) [OF inv] pool_used_count [of "slot_keys b" "bk_free_slots b" "bk_free_slots_ptr b"]
    by (simp add: slots_inv_def cong: conj_cong)
  also have "{x. x < length (bk_orders b) \<and> sl_active (bk_orders b ! x)}
      = (\<Union>i\<in>{i. i < length (bk_levels b) \<and> lv_active (bk_levels b ! i)}. set (level_queue b i))"
    using queues_mem [OF q] queues_slot [OF q] by (auto; blast)
  also have "card \<dots> = (\<Sum>i\<in>{i. i < length (bk_levels b) \<and> lv_active (bk_levels b ! i)}. card (set (level_queue b i)))"
    using queues_disjoint [OF q] by (intro card_UN_disjoint) auto
  also have "\<dots> = (\<Sum>i\<in>{i. i < length (bk_levels b) \<and> lv_active (bk_levels b ! i)}. length (level_queue b i))"
    using queues_level [OF q] by (intro sum.cong refl distinct_card) (auto simp: level_ok_def)
  also have "\<dots> = order_count (ladder b Buy) + order_count (ladder b Sell)"
    unfolding active_levels_split(1) ladder_order_count using active_levels_split(2) by (intro sum.union_disjoint) auto
  finally show ?thesis .
qed

subsection \<open>The effects on ladders\<close>

lemma ladder_unlinked:
  assumes inv: "book_inv c b" and eff: "unlink_effect b li x b'" and x: "x \<in> set (level_queue b li)"
  defines "q \<equiv> remove1 x (level_queue b li)"
  shows "ladder b' s = map ((rung b)(li := (lv_price (bk_levels b ! li), map (book_entry (bk_orders b)) q)))
           (if q = [] then remove1 li (ranked (bk_levels b) s) else ranked (bk_levels b) s)"
proof -
  obtain lv where lv: "bk_levels b' = (bk_levels b)[li := lv]"
      "if q = [] then lv = empty_level else same_face (bk_levels b ! li) lv"
    using eff by (auto simp: unlink_effect_def q_def)
  have queue: "level_queue b' = (level_queue b)(li := q)"
    using eff by (simp add: unlink_effect_def q_def)
  have pay: "book_entry (bk_orders b') y = book_entry (bk_orders b) y" if "y \<noteq> x" for y
    using that eff by (auto simp: unlink_effect_def book_entry_def same_payload_def)
  note mem = queues_mem [OF book_invD(3) [OF inv]]
  have d: "distinct (level_queue b li)"
    using mem [OF x] queues_level [OF book_invD(3) [OF inv], of li] by (simp add: level_ok_def)
  then have xq: "x \<notin> set q" by (simp add: q_def)
  note ok = ranked_ok [OF book_invD(2) [OF inv], of s]
  let ?r = "if q = [] then remove1 li (ranked (bk_levels b) s) else ranked (bk_levels b) s"
  have r: "ranked (bk_levels b') s = ?r"
    using lv ranked_remove [OF ok, of li] ranked_upd [OF ok, of li lv] by (auto split: if_splits)
  have "rung b' i = ((rung b)(li := (lv_price (bk_levels b ! li), map (book_entry (bk_orders b)) q))) i"
    if i: "i \<in> set ?r" for i
  proof (cases "i = li")
    case True
    then have "q \<noteq> []" using i by (auto split: if_splits)
    then have "lv_price (bk_levels b' ! li) = lv_price (bk_levels b ! li)"
      using lv mem [OF x] by (simp add: same_face_def)
    moreover have "map (book_entry (bk_orders b')) q = map (book_entry (bk_orders b)) q"
      using xq pay by (induction q) auto
    ultimately show ?thesis
      using True queue by (simp add: rung_def)
  next
    case False
    then have "x \<notin> set (level_queue b i)"
      using x queues_disjoint [OF book_invD(3) [OF inv], of x i li] by blast
    then have "map (book_entry (bk_orders b')) (level_queue b i) = map (book_entry (bk_orders b)) (level_queue b i)"
      using pay by (intro map_cong refl) metis
    then show ?thesis
      using False queue lv(1) by (simp add: rung_def)
  qed
  then show ?thesis
    unfolding ladder_def r by (intro map_cong) auto
qed

lemma ladder_rested:
  assumes inv: "book_inv c b" and eff: "rest_effect c b order remaining li x b'"
  defines "s \<equiv> so_side order" and "p \<equiv> so_price_ticks order"
  defines "rungs \<equiv> (rung b)(li := (p, map (book_entry (bk_orders b)) (level_queue b li) @ [(order, remaining)]))"
  shows "find_level c b s p = Some li \<Longrightarrow> ladder b' s = map rungs (ranked (bk_levels b) s)"
    and "find_level c b s p = None \<Longrightarrow> ladder b' s =
      map (rung b) (takeWhile (\<lambda>j. is_better_price s (lv_price (bk_levels b ! j)) p) (ranked (bk_levels b) s))
      @ (p, [(order, remaining)]) #
      map (rung b) (dropWhile (\<lambda>j. is_better_price s (lv_price (bk_levels b ! j)) p) (ranked (bk_levels b) s))"
    and "s' \<noteq> s \<Longrightarrow> ladder b' s' = ladder b s'"
proof -
  note lvi = book_invD(2) [OF inv] and q = book_invD(3) [OF inv]
  obtain lv where lv: "bk_levels b' = (bk_levels b)[li := lv]" "lv_active lv" "lv_side lv = s" "lv_price lv = p"
    using eff by (auto simp: rest_effect_def s_def p_def)
  have li: "li < length (bk_levels b)" and x: "\<not> sl_active (bk_orders b ! x)"
    and queue: "level_queue b' = (level_queue b)(li := level_queue b li @ [x])"
    and found: "if find_level c b s p = None then \<not> lv_active (bk_levels b ! li) else find_level c b s p = Some li"
    using eff by (auto simp: rest_effect_def s_def p_def)
  have new: "book_entry (bk_orders b') x = (order, remaining)"
    using eff by (simp add: rest_effect_def book_entry_def)
  have pay: "book_entry (bk_orders b') y = book_entry (bk_orders b) y" if "y \<in> set (level_queue b i)" for y i
    using queues_mem [OF q that] x eff by (auto simp: rest_effect_def book_entry_def same_payload_def)
  have same: "rung b' i = rung b i" if "i \<noteq> li" for i
    using that pay queue lv(1) by (simp add: rung_def)
  have cong: "map (rung b') xs = map (rung b) xs" if "li \<notin> set xs" for xs
    using that same by (induction xs) auto
  have at: "rung b' li = (p, map (book_entry (bk_orders b)) (level_queue b li) @ [(order, remaining)])"
    using li lv pay queue new by (simp add: rung_def)
  show "ladder b' s = map rungs (ranked (bk_levels b) s)" if f: "find_level c b s p = Some li"
  proof -
    have "same_face (bk_levels b ! li) lv"
      using f find_level_correct [OF lvi, of s p li] lv by (simp add: same_face_def)
    then have "ranked (bk_levels b') s = ranked (bk_levels b) s"
      unfolding lv(1) by (rule ranked_upd [OF ranked_ok [OF lvi]])
    then show ?thesis
      unfolding ladder_def rungs_def using same at by (intro map_cong) auto
  qed
  show "ladder b' s =
      map (rung b) (takeWhile (\<lambda>j. is_better_price s (lv_price (bk_levels b ! j)) p) (ranked (bk_levels b) s))
      @ (p, [(order, remaining)]) #
      map (rung b) (dropWhile (\<lambda>j. is_better_price s (lv_price (bk_levels b ! j)) p) (ranked (bk_levels b) s))"
    if f: "find_level c b s p = None"
  proof -
    have ina: "\<not> lv_active (bk_levels b ! li)" using f found by simp
    have empty: "level_queue b li = []"
      using queues_inactive [OF q li ina] by simp
    have "li \<notin> set (ranked (bk_levels b) s)" using ina by (simp add: ranked_mem)
    then have notin: "li \<notin> set (takeWhile P (ranked (bk_levels b) s))" "li \<notin> set (dropWhile P (ranked (bk_levels b) s))" for P
      by (auto dest: set_takeWhileD set_dropWhileD)
    have "ranked (bk_levels b') s =
      takeWhile (\<lambda>j. is_better_price s (lv_price (bk_levels b ! j)) p) (ranked (bk_levels b) s) @
      li # dropWhile (\<lambda>j. is_better_price s (lv_price (bk_levels b ! j)) p) (ranked (bk_levels b) s)"
      unfolding lv(1) using find_level_None [OF lvi f] lv
      by (intro ranked_new [OF ranked_ok [OF lvi] li ina]) auto
    moreover note cong [OF notin(1)] cong [OF notin(2)]
    ultimately show ?thesis
      using at empty by (simp add: ladder_def)
  qed
  show "ladder b' s' = ladder b s'" if "s' \<noteq> s"
  proof -
    have other: "li \<notin> set (ranked (bk_levels b) s')"
      using found that find_level_correct [OF lvi, of s p li] by (auto simp: ranked_mem split: if_splits)
    have "ranked (bk_levels b') s' = ranked (bk_levels b) s'"
      unfolding lv(1) using that lv found find_level_correct [OF lvi, of s p li]
      by (intro sorted_ok_ranked sorted_ok_other [OF ranked_ok [OF lvi]]) (auto split: if_splits)
    then show ?thesis
      using cong [OF other] by (simp add: ladder_def)
  qed
qed

end
