(* ===== verification/BookFill.thy ===== *)
theory BookFill
  imports BookLadder
begin

section \<open>Filling the best order\<close>

text \<open>
  One step of the matching loop: choosing the best crossing level, which is the
  top rung of the ladder in both variants of the book, and filling its first
  order, partly or completely.
\<close>

subsection \<open>An empty book\<close>

theorem new_book_inv: "book_inv c (new_book c)" "ladder (new_book c) s = []"
proof -
  have keys: "slot_keys (new_book c) = replicate (order_capacity c) None"
      "level_keys (new_book c) = replicate (price_level_capacity c) None"
    by (simp_all add: new_book_def slot_key_def level_key_def empty_slot_def empty_level_def)
  have "slots_inv c (new_book c)"
    unfolding slots_inv_def keys
    by (simp add: new_book_def pool_init index_init empty_index_entry_def)
  moreover have "levels_inv c (new_book c)"
    unfolding levels_inv_def keys
    by (auto simp: new_book_def pool_init index_init empty_level_index_entry_def sorted_ok_def)
  moreover have "queues_inv (bk_orders (new_book c)) (bk_levels (new_book c)) (\<lambda>_. [])"
    by (rule queues_invI) (auto simp: new_book_def)
  ultimately show "book_inv c (new_book c)"
    by (rule book_invI) (simp add: new_book_def)
  show "ladder (new_book c) s = []"
    by (auto simp: ladder_def ranked_def new_book_def filter_empty_conv)
qed

lemma clear_book_eq: "clear_book c b = new_book c"
  by (simp add: clear_book_def new_book_def)

subsection \<open>Scanning for the best level\<close>

definition best_of :: "side \<Rightarrow> price_level list \<Rightarrow> nat set \<Rightarrow> nat option \<Rightarrow> bool" where
  "best_of s lvs X best \<longleftrightarrow> (case best of None \<Rightarrow> X = {}
     | Some i \<Rightarrow> i \<in> X \<and> (\<forall>j\<in>X. \<not> is_better_price s (lv_price (lvs ! j)) (lv_price (lvs ! i))))"

lemma scan_best_of: "best_of s lvs {i. i < length lvs \<and> q i} (scan_best s lvs q)"
proof -
  let ?f = "\<lambda>i best. if \<not> q i then best else case best of None \<Rightarrow> Some i
          | Some j \<Rightarrow> if is_better_price s (lv_price (lvs ! i)) (lv_price (lvs ! j)) then Some i else best"
  have "best_of s lvs {i. i \<in> set xs \<and> q i} (fold ?f xs None)" for xs
  proof (induction xs rule: rev_induct)
    case (snoc x xs)
    let ?best = "fold ?f xs None"
    have X: "{i. i \<in> set (xs @ [x]) \<and> q i} = (if q x then insert x {i. i \<in> set xs \<and> q i} else {i. i \<in> set xs \<and> q i})"
      by auto
    show ?case
      unfolding X using snoc.IH by (cases ?best) (auto simp: best_of_def better_rank)
  qed (simp add: best_of_def)
  from this [of "[0..<length lvs]"] show ?thesis
    by (simp add: scan_best_def)
qed

lemma scan_best_sorted:
  assumes set: "set xs = {i. i < length lvs \<and> q i}" and srt: "price_sorted lvs s xs"
  shows "scan_best s lvs q = (case xs of [] \<Rightarrow> None | i # _ \<Rightarrow> Some i)"
proof (cases xs)
  case Nil
  then show ?thesis
    using scan_best_of [of s lvs q] set by (cases "scan_best s lvs q") (auto simp: best_of_def)
next
  case (Cons h rest)
  then obtain i where i: "scan_best s lvs q = Some i" "i \<in> set xs"
      "\<forall>j\<in>set xs. \<not> is_better_price s (lv_price (lvs ! j)) (lv_price (lvs ! i))"
    using scan_best_of [of s lvs q] set by (cases "scan_best s lvs q") (auto simp: best_of_def)
  then have "i = h"
    using Cons srt by (auto simp: price_sorted_def)
  then show ?thesis
    using Cons i(1) by simp
qed

lemma price_sorted_filter: "price_sorted lvs s xs \<Longrightarrow> price_sorted lvs s (filter P xs)"
  by (simp add: price_sorted_def sorted_wrt_filter)

lemma ranked_sorted: "levels_inv c b \<Longrightarrow> price_sorted (bk_levels b) s (ranked (bk_levels b) s)"
  using ranked_ok by (simp add: sorted_ok_iff)

subsection \<open>Level totals\<close>

text \<open>
  A shallow book skips levels whose total reads zero. The total is a 64-bit
  word, so it says whether the queue is empty as long as the sum does not wrap.
\<close>

definition no_wrap :: "ladder \<Rightarrow> bool" where
  "no_wrap L \<longleftrightarrow> (\<forall>(p, q)\<in>set L. sum_list (map (unat \<circ> snd) q) < 2 ^ 64)"

definition totals_ok :: "book_config \<Rightarrow> matching_book \<Rightarrow> side \<Rightarrow> bool" where
  "totals_ok c b s \<longleftrightarrow> uses_deep_level_index c \<or> no_wrap (ladder b s)"

lemma unat_sum_list:
  "sum_list (map (\<lambda>x. unat (f x)) xs) < 2 ^ 64 \<Longrightarrow>
   unat (sum_list (map f xs) :: u64) = sum_list (map (\<lambda>x. unat (f x)) xs)"
proof (induction xs)
  case (Cons x xs)
  then have "unat (sum_list (map f xs)) = sum_list (map (\<lambda>x. unat (f x)) xs)" by simp
  then show ?case
    using Cons.prems by (simp add: unat_word_ariths)
qed simp

lemma level_total_nonzero:
  assumes inv: "book_inv c b" and li: "li \<in> set (ranked (bk_levels b) s)" and nw: "no_wrap (ladder b s)"
  shows "lv_total (bk_levels b ! li) \<noteq> 0"
proof -
  note lad = ladder_rung_cases [OF inv li]
  have total: "lv_total (bk_levels b ! li) = sum_list (map (\<lambda>x. sl_remaining (bk_orders b ! x)) (level_queue b li))"
    using lad(5) by (simp add: level_ok_def qty_sum_def)
  have "rung b li \<in> set (ladder b s)"
    using li by (simp add: ladder_def)
  then have "sum_list (map (\<lambda>x. unat (sl_remaining (bk_orders b ! x))) (level_queue b li)) < 2 ^ 64"
    using nw by (auto simp: no_wrap_def rung_def book_entry_def o_def)
  then have "unat (lv_total (bk_levels b ! li)) = sum_list (map (\<lambda>x. unat (sl_remaining (bk_orders b ! x))) (level_queue b li))"
    unfolding total by (rule unat_sum_list)
  moreover obtain x q where "level_queue b li = x # q"
    using lad(4) by (cases "level_queue b li") auto
  moreover have "sl_remaining (bk_orders b ! x) \<noteq> 0"
    using lad(5) calculation(2) by (simp add: level_ok_def member_ok_def)
  then have "0 < unat (sl_remaining (bk_orders b ! x))"
    by (simp add: unat_gt_0)
  ultimately have "0 < unat (lv_total (bk_levels b ! li))"
    by simp
  then show ?thesis by auto
qed

subsection \<open>The best level\<close>

definition top :: "'a list \<Rightarrow> 'a option" where
  "top xs = (case xs of [] \<Rightarrow> None | x # _ \<Rightarrow> Some x)"

lemma top_simps [simp]: "top [] = None" "top (x # xs) = Some x"
  by (simp_all add: top_def)

lemma active_levels_shallow:
  assumes "book_inv c b" "no_wrap (ladder b s)"
  shows "set (filter P (ranked (bk_levels b) s)) =
     {i. i < length (bk_levels b) \<and> P i \<and> lv_active (bk_levels b ! i) \<and> lv_side (bk_levels b ! i) = s
         \<and> lv_total (bk_levels b ! i) \<noteq> 0}"
  using level_total_nonzero [OF assms(1) _ assms(2)] by (auto simp: ranked_mem)

lemma scan_ranked:
  assumes inv: "book_inv c b" and nw: "no_wrap (ladder b s)"
    and q: "\<And>i. i < length (bk_levels b) \<Longrightarrow> q i \<longleftrightarrow> P i \<and> lv_active (bk_levels b ! i)
        \<and> lv_side (bk_levels b ! i) = s \<and> lv_total (bk_levels b ! i) \<noteq> 0"
  shows "scan_best s (bk_levels b) q = top (filter P (ranked (bk_levels b) s))"
proof -
  have "set (filter P (ranked (bk_levels b) s)) = {i. i < length (bk_levels b) \<and> q i}"
    unfolding active_levels_shallow [OF inv nw] using q by auto
  then show ?thesis
    unfolding top_def
    by (rule scan_best_sorted) (rule price_sorted_filter [OF ranked_sorted [OF book_invD(2) [OF inv]]])
qed

theorem best_level_top:
  assumes inv: "book_inv c b" and tot: "totals_ok c b s"
  shows "best_level c b s = top (ranked (bk_levels b) s)"
proof (cases "uses_deep_level_index c")
  case True
  then show ?thesis
    using ranked_deep [OF book_invD(2) [OF inv]] by (simp add: best_level_def top_def)
next
  case False
  then show ?thesis
    using scan_ranked [OF inv, of s _ "\<lambda>_. True"] tot by (simp add: best_level_def totals_ok_def Let_def)
qed

lemma crosses_better: "crosses s p q \<Longrightarrow> is_better_price (opposite s) q' q \<Longrightarrow> crosses s p q'"
  by (auto simp: crosses_def is_better_price_def opposite_def split: if_splits)

lemma top_filter_sorted:
  assumes "price_sorted lvs (opposite s) xs"
  shows "top (filter (\<lambda>i. crosses s p (lv_price (lvs ! i))) xs) =
    (case xs of [] \<Rightarrow> None | i # _ \<Rightarrow> if crosses s p (lv_price (lvs ! i)) then Some i else None)"
proof (cases xs)
  case (Cons i rest)
  have "filter (\<lambda>i. crosses s p (lv_price (lvs ! i))) rest = []" if "\<not> crosses s p (lv_price (lvs ! i))"
    using assms that Cons crosses_better [of s p] unfolding price_sorted_def filter_empty_conv by auto
  then show ?thesis
    using Cons by simp
qed simp

theorem best_crossing_top:
  assumes inv: "book_inv c b" and tot: "totals_ok c b (opposite s)"
  shows "best_crossing_level c b s p =
    (case ranked (bk_levels b) (opposite s) of [] \<Rightarrow> None
     | i # _ \<Rightarrow> if crosses s p (lv_price (bk_levels b ! i)) then Some i else None)"
proof (cases "uses_deep_level_index c")
  case True
  then show ?thesis
    using best_level_top [OF inv tot]
    by (auto simp: best_crossing_level_def Let_def top_def split: list.splits)
next
  case False
  have "best_crossing_level c b s p =
      top (filter (\<lambda>i. crosses s p (lv_price (bk_levels b ! i))) (ranked (bk_levels b) (opposite s)))"
    unfolding best_crossing_level_def Let_def using False tot
    by (simp, intro scan_ranked [OF inv]) (auto simp: totals_ok_def)
  then show ?thesis
    using top_filter_sorted [OF ranked_sorted [OF book_invD(2) [OF inv]]] by simp
qed

subsection \<open>Taking quantity from an order\<close>

definition reduced :: "nat \<Rightarrow> nat \<Rightarrow> u64 \<Rightarrow> matching_book \<Rightarrow> matching_book" where
  "reduced li s qty b = upd_level li (\<lambda>l. l\<lparr>lv_total := lv_total l - qty\<rparr>)
     (upd_slot s (\<lambda>m. m\<lparr>sl_remaining := sl_remaining m - qty\<rparr>) b)"

lemma reduced_simps:
  "bk_orders (reduced li s qty b) = (bk_orders b)[s := (bk_orders b ! s)\<lparr>sl_remaining := sl_remaining (bk_orders b ! s) - qty\<rparr>]"
  "bk_levels (reduced li s qty b) = (bk_levels b)[li := (bk_levels b ! li)\<lparr>lv_total := lv_total (bk_levels b ! li) - qty\<rparr>]"
  by (simp_all add: reduced_def upd_slot_def upd_level_def)

lemma reduced_slots_inv: "slots_inv c b \<Longrightarrow> slots_inv c (reduced li s qty b)"
proof -
  assume inv: "slots_inv c b"
  have "slot_keys (reduced li s qty b) = slot_keys b"
    unfolding reduced_simps by (rule map_upd_same) (simp add: slot_key_def)
  then show ?thesis
    using inv by (simp add: slots_inv_def reduced_def upd_slot_def upd_level_def)
qed

lemma reduced_levels_inv: "levels_inv c b \<Longrightarrow> levels_inv c (reduced li s qty b)"
  unfolding reduced_def
  by (rule levels_inv_upd_level) (simp_all add: same_face_def levels_inv_def upd_slot_def)

lemma qty_sum_reduced:
  assumes "distinct q" "s \<in> set q" "s < length os"
  shows "qty_sum (os[s := (os ! s)\<lparr>sl_remaining := sl_remaining (os ! s) - qty\<rparr>]) q = qty_sum os q - qty"
proof -
  obtain xs ys where q: "q = xs @ s # ys" "s \<notin> set xs" "s \<notin> set ys"
    using assms(1,2) by (auto simp: in_set_conv_decomp)
  have "qty_sum (os[s := v]) zs = qty_sum os zs" if "s \<notin> set zs" for v zs
    unfolding qty_sum_def using that
    by (intro arg_cong [of _ _ sum_list] map_cong refl) (metis nth_list_update_neq)
  note frame = this [OF q(2)] this [OF q(3)]
  have split: "qty_sum os' q = qty_sum os' xs + sl_remaining (os' ! s) + qty_sum os' ys" for os'
    by (simp add: q qty_sum_def)
  show ?thesis
    unfolding split frame using assms(3) by simp
qed

lemma reduced_queues:
  assumes inv: "queues_inv (bk_orders b) (bk_levels b) qs" and s: "s \<in> set (qs li)"
    and part: "qty < sl_remaining (bk_orders b ! s)"
  shows "queues_inv (bk_orders (reduced li s qty b)) (bk_levels (reduced li s qty b)) qs"
proof -
  note mem = queues_mem [OF inv s]
  have ok: "level_ok (bk_orders b) (bk_levels b ! li) li (qs li)"
    using queues_level [OF inv] mem by simp
  let ?x = "(bk_orders b ! s)\<lparr>sl_remaining := sl_remaining (bk_orders b ! s) - qty\<rparr>"
  let ?os = "(bk_orders b)[s := ?x]"
  let ?lv = "(bk_levels b ! li)\<lparr>lv_total := lv_total (bk_levels b ! li) - qty\<rparr>"
  have "seg ?os li None (qs li) None = seg (bk_orders b) li None (qs li) None"
    by (rule seg_cong) (auto simp: nth_upd)
  moreover have "qty_sum ?os (qs li) = qty_sum (bk_orders b) (qs li) - qty"
    using ok s mem by (intro qty_sum_reduced) (simp_all add: level_ok_def)
  moreover have "member_ok ?lv (?os ! y)" if "y \<in> set (qs li)" for y
    using that ok part mem by (auto simp: level_ok_def member_ok_def nth_upd)
  ultimately have ok': "level_ok ?os ?lv li (qs li)"
    using ok by (simp add: level_ok_def)
  have "queues_inv ?os ((bk_levels b)[li := ?lv]) (qs(li := qs li))"
  proof (rule queues_inv_upd [OF inv])
    show "?os ! x = bk_orders b ! x" if "x \<notin> set (qs li)" for x
      using that s by (metis nth_list_update_neq)
    show "if lv_active ?lv then level_ok ?os ?lv li (qs li) else qs li = [] \<and> ?lv = empty_level"
      using ok' mem by simp
  qed (use mem in auto)
  then show ?thesis
    by (simp add: reduced_simps)
qed

text \<open>A complete fill: the order leaves the book as if it had been cancelled.\<close>

lemma unlink_after_reduce:
  assumes inv: "book_inv c b" and s: "s \<in> set (level_queue b li)"
  shows "unlink_order c s (reduced li s qty b) = unlink_order c s b"
proof -
  note q = book_invD(3) [OF inv]
  note mem = queues_mem [OF q s]
  obtain xs ys where xs: "level_queue b li = xs @ s # ys"
    using s by (auto simp: in_set_conv_decomp)
  have "level_ok (bk_orders b) (bk_levels b ! li) li (xs @ s # ys)"
    using queues_level [OF q, of li] mem xs by simp
  note split = level_split [OF this]
  let ?x = "bk_orders b ! s"
  let ?y = "?x\<lparr>sl_remaining := sl_remaining ?x - qty\<rparr>"
  have ps: "sl_prev ?x \<noteq> Some s" "sl_next ?x \<noteq> Some s"
    using split by (auto simp: last_or_def first_or_def split: if_splits list.splits)
  have same: "unlinked li s (reduced li s qty b) = unlinked li s b"
  proof -
    have "bypass ((bk_orders b)[s := ?y]) (sl_prev ?x) (sl_next ?x) = (bypass (bk_orders b) (sl_prev ?x) (sl_next ?x))[s := ?y]"
      using ps by (auto simp: bypass_def Let_def list_update_swap nth_upd split: option.splits)
    then have "unlinked_slots (bk_orders (reduced li s qty b)) s = unlinked_slots (bk_orders b) s"
      using mem by (simp add: unlinked_slots_def reduced_simps)
    moreover have "unlinked_level (bk_orders (reduced li s qty b) ! s) (bk_levels (reduced li s qty b) ! li)
        = unlinked_level ?x (bk_levels b ! li)"
      using mem by (simp add: unlinked_level_def reduced_simps)
    moreover have "remove_index (reduced li s qty b) k = (remove_index b k)\<lparr>bk_orders := bk_orders (reduced li s qty b),
        bk_levels := bk_levels (reduced li s qty b)\<rparr>" for k
      by (simp add: remove_index_def reduced_def upd_slot_def upd_level_def split: prod.splits)
    ultimately show ?thesis
      using mem by (simp add: unlinked_def Let_def)
        (simp add: reduced_def upd_slot_def upd_level_def)
  qed
  have kept: "sl_prev (bk_orders (reduced li s qty b) ! s) = sl_prev ?x"
    "sl_next (bk_orders (reduced li s qty b) ! s) = sl_next ?x"
    "sl_active (bk_orders (reduced li s qty b) ! s)" "sl_level_index (bk_orders (reduced li s qty b) ! s) = Some li"
    "li < length (bk_levels (reduced li s qty b))"
    using mem by (simp_all add: reduced_simps)
  have "unlink_order c s b = (if lv_head (bk_levels (unlinked li s b) ! li) = None
      then retire_level c li (unlinked li s b) else unlinked li s b)"
    using ps mem by (intro unlink_order_eq) auto
  moreover have "unlink_order c s (reduced li s qty b) =
      (if lv_head (bk_levels (unlinked li s (reduced li s qty b)) ! li) = None
       then retire_level c li (unlinked li s (reduced li s qty b)) else unlinked li s (reduced li s qty b))"
    using ps kept by (intro unlink_order_eq) simp_all
  ultimately show ?thesis
    unfolding same by simp
qed

theorem reduced_book_inv:
  assumes inv: "book_inv c b" and s: "s \<in> set (level_queue b li)" and part: "qty < sl_remaining (bk_orders b ! s)"
  shows "book_inv c (reduced li s qty b)" "level_queue (reduced li s qty b) = level_queue b"
proof -
  have ne: "level_queue b lj \<noteq> []"
    if "lj < length (bk_levels (reduced li s qty b))" "lv_active (bk_levels (reduced li s qty b) ! lj)" for lj
    using that book_invD(4) [OF inv, of lj] by (auto simp: reduced_simps nth_upd split: if_splits)
  note bi = book_invI [OF reduced_slots_inv [OF book_invD(1) [OF inv]] reduced_levels_inv [OF book_invD(2) [OF inv]]
      reduced_queues [OF book_invD(3) [OF inv] s part] ne]
  show "book_inv c (reduced li s qty b)" by (rule bi(1))
  show "level_queue (reduced li s qty b) = level_queue b" by (rule bi(2))
qed

subsection \<open>One fill on the ladder\<close>

definition fill_top :: "u64 \<Rightarrow> ladder \<Rightarrow> ladder" where
  "fill_top qty L = (case L of
     (p, (order, r) # q) # L' \<Rightarrow>
        if qty < r then (p, (order, r - qty) # q) # L' else if q = [] then L' else (p, q) # L'
   | _ \<Rightarrow> L)"

lemma fill_head_eq:
  assumes inv: "book_inv c b" and q: "level_queue b li = s # q" and le: "qty \<le> sl_remaining (bk_orders b ! s)"
  shows "fill_head c incoming li s qty b r =
    (if qty < sl_remaining (bk_orders b ! s) then reduced li s qty b else unlink_order c s b,
     append_executions c (r\<lparr>mr_filled_quantity_lots := mr_filled_quantity_lots r + qty\<rparr>) incoming
       (sl_order (bk_orders b ! s)) (lv_price (bk_levels b ! li)) qty)"
proof -
  have s: "s \<in> set (level_queue b li)" using q by simp
  note mem = queues_mem [OF book_invD(3) [OF inv] s]
  have "level_ok (bk_orders b) (bk_levels b ! li) li (s # q)"
    using queues_level [OF book_invD(3) [OF inv], of li] mem q by simp
  then have head: "lv_head (bk_levels b ! li) = Some s" by (simp add: level_ok_def)
  have zero: "sl_remaining (bk_orders b ! s) - qty = 0 \<longleftrightarrow> \<not> qty < sl_remaining (bk_orders b ! s)"
    using le by (metis eq_iff_diff_eq_0 order_le_less less_irrefl)
  have remain: "sl_remaining (bk_orders (reduced li s qty b) ! s) = sl_remaining (bk_orders b ! s) - qty"
    "sl_order (bk_orders (reduced li s qty b) ! s) = sl_order (bk_orders b ! s)"
    "lv_price (bk_levels (reduced li s qty b) ! li) = lv_price (bk_levels b ! li)"
    using mem by (simp_all add: reduced_simps)
  have rh: "remove_head_order c li (reduced li s qty b) = unlink_order c s b"
    using mem head unlink_after_reduce [OF inv s] by (simp add: remove_head_order_def reduced_simps)
  show ?thesis
    unfolding fill_head_def Let_def reduced_def [symmetric] remain zero rh by simp
qed

lemma rung_reduced:
  assumes inv: "book_inv c b" and q: "level_queue b li = s # q" and part: "qty < sl_remaining (bk_orders b ! s)"
  shows "rung (reduced li s qty b) = (rung b)(li :=
    (lv_price (bk_levels b ! li), (sl_order (bk_orders b ! s), sl_remaining (bk_orders b ! s) - qty) #
       map (book_entry (bk_orders b)) q))"
proof
  fix i
  have s: "s \<in> set (level_queue b li)" using q by simp
  note mem = queues_mem [OF book_invD(3) [OF inv] s]
  note lq = reduced_book_inv(2) [OF inv s part]
  have d: "s \<notin> set q"
    using queues_level [OF book_invD(3) [OF inv], of li] mem q by (simp add: level_ok_def)
  have other: "map (book_entry (bk_orders (reduced li s qty b))) xs = map (book_entry (bk_orders b)) xs" if "s \<notin> set xs" for xs
    using that by (intro map_cong refl) (auto simp: book_entry_def reduced_simps nth_upd)
  have "s \<notin> set (level_queue b i)" if "i \<noteq> li"
    using that s queues_disjoint [OF book_invD(3) [OF inv], of s i li] by blast
  then show "rung (reduced li s qty b) i = ((rung b)(li :=
    (lv_price (bk_levels b ! li), (sl_order (bk_orders b ! s), sl_remaining (bk_orders b ! s) - qty) #
       map (book_entry (bk_orders b)) q))) i"
    using other d mem lq q by (cases "i = li") (auto simp: rung_def book_entry_def reduced_simps)
qed

theorem fill_head_ladder:
  fixes incoming :: sim_order and r :: match_result
  assumes inv: "book_inv c b" and rk: "ranked (bk_levels b) s = li # rest"
    and x: "lv_head (bk_levels b ! li) = Some x" and le: "qty \<le> sl_remaining (bk_orders b ! x)"
  defines "b' \<equiv> fst (fill_head c incoming li x qty b r)"
  shows "book_inv c b'" "ladder b' s = fill_top qty (ladder b s)" "s' \<noteq> s \<Longrightarrow> ladder b' s' = ladder b s'"
proof -
  have mem: "li \<in> set (ranked (bk_levels b) s)" using rk by simp
  note lad = ladder_rung_cases [OF inv mem]
  obtain q where q: "level_queue b li = x # q"
    using lad(4,5) x by (cases "level_queue b li") (auto simp: level_ok_def)
  have xm: "x \<in> set (level_queue b li)" using q by simp
  have rest: "li \<notin> set rest"
    using ranked_distinct [of "bk_levels b" s] rk by simp
  have other: "li \<notin> set (ranked (bk_levels b) s')" if "s' \<noteq> s"
    using that lad(3) by (simp add: ranked_mem)
  have cong: "map ((rung b)(li := z)) xs = map (rung b) xs" if "li \<notin> set xs" for xs z
    using that by (intro map_cong refl) auto
  have top: "rung b li = (lv_price (bk_levels b ! li), (sl_order (bk_orders b ! x), sl_remaining (bk_orders b ! x)) #
      map (book_entry (bk_orders b)) q)"
    by (simp add: rung_def q book_entry_def)
  note eq = fill_head_eq [OF inv q le, of incoming r]
  show "book_inv c b'"
    using reduced_book_inv(1) [OF inv xm] unlink_order_correct(1) [OF inv xm] eq by (simp add: b'_def)
  have rk_red: "ranked (bk_levels (reduced li x qty b)) t = ranked (bk_levels b) t" for t
    unfolding reduced_simps by (intro ranked_upd ranked_ok [OF book_invD(2) [OF inv]]) (simp add: same_face_def)
  have rm: "remove1 x (level_queue b li) = q" by (simp add: q)
  have lad_unl: "ladder (unlink_order c x b) t = map ((rung b)(li := (lv_price (bk_levels b ! li), map (book_entry (bk_orders b)) q)))
           (if q = [] then remove1 li (ranked (bk_levels b) t) else ranked (bk_levels b) t)" for t
    using ladder_unlinked [OF inv unlink_order_correct(2) [OF inv xm] xm, of t] unfolding rm .
  show "ladder b' s = fill_top qty (ladder b s)"
  proof (cases "qty < sl_remaining (bk_orders b ! x)")
    case True
    then show ?thesis
      using eq rk rest cong top rung_reduced [OF inv q True] rk_red by (simp add: b'_def ladder_def fill_top_def)
  next
    case False
    have b': "b' = unlink_order c x b" using False eq by (simp add: b'_def)
    show ?thesis
      unfolding b' lad_unl using False rk rest cong top by (simp add: ladder_def fill_top_def)
  qed
  show "ladder b' s' = ladder b s'" if "s' \<noteq> s"
  proof (cases "qty < sl_remaining (bk_orders b ! x)")
    case True
    then show ?thesis
      using eq cong [OF other [OF that]] rung_reduced [OF inv q True] rk_red by (simp add: b'_def ladder_def)
  next
    case False
    have b': "b' = unlink_order c x b" using False eq by (simp add: b'_def)
    show ?thesis
      unfolding b' lad_unl using cong [OF other [OF that]] other [OF that]
      by (simp add: ladder_def remove1_idem)
  qed
qed

end
