(* ===== verification/BookSpec.thy ===== *)
theory BookSpec
  imports BookFill
begin

section \<open>The price-time priority book\<close>

text \<open>
  What the matching book promises, over ladders and without slots, indices or
  free lists: an incoming order trades with the best opposite prices first, and
  at a price with the oldest order first, at the maker's price, until it is
  filled, nothing crosses, or no room is left for a pair of execution reports.
\<close>

type_synonym fill = "sim_order \<times> int \<times> u64"
type_synonym spec_book = "side \<Rightarrow> ladder"

subsection \<open>Matching\<close>

function spec_match ::
  "side \<Rightarrow> int \<Rightarrow> nat \<Rightarrow> u64 \<Rightarrow> ladder \<Rightarrow> ladder \<times> fill list \<times> u64 \<times> loop_exit" where
  "spec_match s p n remaining L =
     (if remaining = 0 then (L, [], remaining, Loop_done)
      else case L of
        (px, (maker, r) # q) # L' \<Rightarrow>
          if \<not> crosses s p px then (L, [], remaining, Loop_done)
          else if n = 0 then (L, [], remaining, Report_overflow)
          else
            (case spec_match s p (n - 1) (remaining - min remaining r) (fill_top (min remaining r) L) of
               (L'', fills, remaining', exit) \<Rightarrow> (L'', (maker, px, min remaining r) # fills, remaining', exit))
      | _ \<Rightarrow> (L, [], remaining, Loop_done))"
  by pat_completeness auto
termination by (relation "measure (\<lambda>(s, p, n, remaining, L). n)") auto

declare spec_match.simps [simp del]

definition fill_executions :: "sim_order \<Rightarrow> fill list \<Rightarrow> trade_execution list" where
  "fill_executions taker fills =
     concat (map (\<lambda>(maker, px, qty). [taker_execution taker maker px qty, maker_execution taker maker px qty]) fills)"

definition fills_quantity :: "fill list \<Rightarrow> u64" where
  "fills_quantity fills = sum_list (map (\<lambda>(maker, px, qty). qty) fills)"

definition with_fills :: "sim_order \<Rightarrow> fill list \<Rightarrow> match_result \<Rightarrow> match_result" where
  "with_fills taker fills r = r\<lparr>mr_filled_quantity_lots := mr_filled_quantity_lots r + fills_quantity fills,
     mr_executions := mr_executions r @ fill_executions taker fills\<rparr>"

subsection \<open>Resting\<close>

fun spec_insert :: "side \<Rightarrow> int \<Rightarrow> book_entry \<Rightarrow> ladder \<Rightarrow> ladder" where
  "spec_insert s p e [] = [(p, [e])]"
| "spec_insert s p e ((px, q) # L) =
     (if px = p then (px, q @ [e]) # L
      else if is_better_price s px p then (px, q) # spec_insert s p e L
      else (p, [e]) # (px, q) # L)"

definition spec_rest :: "book_config \<Rightarrow> sim_order \<Rightarrow> u64 \<Rightarrow> spec_book \<Rightarrow> spec_book \<times> bool" where
  "spec_rest c order remaining S =
     (if min (order_capacity c) (order_index_capacity c) \<le> order_count (S Buy) + order_count (S Sell)
        \<or> so_price_ticks order \<notin> fst ` set (S (so_side order))
          \<and> price_level_capacity c \<le> length (S Buy) + length (S Sell)
      then (S, False)
      else (S(so_side order := spec_insert (so_side order) (so_price_ticks order) (order, remaining) (S (so_side order))),
            True))"

definition spec_finish :: "book_config \<Rightarrow> sim_order \<Rightarrow> u64 \<Rightarrow> spec_book \<Rightarrow> match_result \<Rightarrow> spec_book \<times> match_result" where
  "spec_finish c incoming remaining S r =
     (if remaining = 0 then (S, r\<lparr>mr_remaining_quantity_lots := 0, mr_accepted := True, mr_status := Filled\<rparr>)
      else
        let filled = 0 < mr_filled_quantity_lots r;
            r1 = (if filled then r\<lparr>mr_remaining_quantity_lots := remaining, mr_accepted := True, mr_status := PartiallyFilled\<rparr>
                  else r\<lparr>mr_remaining_quantity_lots := remaining\<rparr>)
        in if so_time_in_force incoming \<noteq> GTC then (S, r1)
           else case spec_rest c (incoming\<lparr>so_quantity_lots := remaining\<rparr>) remaining S of
               (S', True) \<Rightarrow> (S', r1\<lparr>mr_accepted := True, mr_rested := True,
                  mr_status := (if filled then PartiallyFilled else Resting)\<rparr>)
             | (S', False) \<Rightarrow> (S', if filled
                  then r1\<lparr>mr_residual_rejected := True, mr_rejected_quantity_lots := remaining,
                         mr_status := PartiallyFilledResidualRejected\<rparr>
                  else r1\<lparr>mr_rejected_quantity_lots := remaining\<rparr>))"

subsection \<open>Submitting and cancelling\<close>

definition fresh_result :: "sim_order \<Rightarrow> match_result" where
  "fresh_result order = default_match_result\<lparr>mr_order_id := so_order_id order,
     mr_remaining_quantity_lots := so_quantity_lots order\<rparr>"

definition spec_outcome ::
  "book_config \<Rightarrow> sim_order \<Rightarrow> spec_book \<Rightarrow> ladder \<times> fill list \<times> u64 \<times> loop_exit" where
  "spec_outcome c order S = spec_match (so_side order) (so_price_ticks order) (max_execution_reports c div 2)
     (so_quantity_lots order) (S (opposite (so_side order)))"

definition spec_admits :: "sim_order \<Rightarrow> spec_book \<Rightarrow> bool" where
  "spec_admits order S \<longleftrightarrow> is_valid_order order
     \<and> so_order_id order \<notin> ladder_ids (S Buy) \<and> so_order_id order \<notin> ladder_ids (S Sell)"

definition spec_submit :: "book_config \<Rightarrow> sim_order \<Rightarrow> spec_book \<Rightarrow> spec_book \<times> match_result" where
  "spec_submit c order S =
     (if \<not> spec_admits order S then (S, fresh_result order)
      else case spec_outcome c order S of (L', fills, remaining, exit) \<Rightarrow>
        if so_time_in_force order = FOK \<and> remaining \<noteq> 0 then (S, fresh_result order)
        else let S' = S(opposite (so_side order) := L');
                 r = with_fills order fills (fresh_result order)
             in case exit of
                  Report_overflow \<Rightarrow> (S', report_overflow r remaining)
                | Loop_done \<Rightarrow> spec_finish c order remaining S' r)"

definition spec_entries :: "spec_book \<Rightarrow> book_entry list" where
  "spec_entries S = concat (map snd (S Buy)) @ concat (map snd (S Sell))"

definition spec_remove :: "order_id \<Rightarrow> ladder \<Rightarrow> ladder" where
  "spec_remove oid L =
     filter (\<lambda>(p, q). q \<noteq> []) (map (\<lambda>(p, q). (p, filter (\<lambda>(order, r). so_order_id order \<noteq> oid) q)) L)"

definition spec_cancel :: "order_id \<Rightarrow> spec_book \<Rightarrow> spec_book \<times> cancel_result" where
  "spec_cancel oid S =
     (case find (\<lambda>(order, r). so_order_id order = oid) (spec_entries S) of
        None \<Rightarrow> (S, default_cancel_result\<lparr>cr_order_id := oid\<rparr>)
      | Some (order, r) \<Rightarrow>
          (\<lambda>s. spec_remove oid (S s),
           default_cancel_result\<lparr>cr_order_id := oid, cr_canceled := True, cr_agent_id := so_agent_id order,
             cr_side := so_side order, cr_price_ticks := so_price_ticks order,
             cr_canceled_quantity_lots := r, cr_status := Canceled\<rparr>))"

end
