(* ===== verification/BookRefinement.thy ===== *)
theory BookRefinement
  imports BookSpec
begin

section \<open>The matching book refines the price-time priority book\<close>

subsection \<open>The matching loop\<close>

lemma top_entry:
  assumes inv: "book_inv c b" and rk: "ranked (bk_levels b) s = li # rest"
  obtains x q where "lv_head (bk_levels b ! li) = Some x" "level_queue b li = x # q"
    "ladder b s = (lv_price (bk_levels b ! li), (sl_order (bk_orders b ! x), sl_remaining (bk_orders b ! x)) #
       map (book_entry (bk_orders b)) q) # map (rung b) rest"
    "sl_remaining (bk_orders b ! x) \<noteq> 0"
proof -
  have "li \<in> set (ranked (bk_levels b) s)" using rk by simp
  note lad = ladder_rung_cases [OF inv this]
  then obtain x q where q: "level_queue b li = x # q"
    by (cases "level_queue b li") auto
  have "lv_head (bk_levels b ! li) = Some x" "sl_remaining (bk_orders b ! x) \<noteq> 0"
    using lad(5) unfolding q by (simp_all add: level_ok_def member_ok_def)
  moreover have "ladder b s = (lv_price (bk_levels b ! li), (sl_order (bk_orders b ! x), sl_remaining (bk_orders b ! x)) #
       map (book_entry (bk_orders b)) q) # map (rung b) rest"
    by (simp add: ladder_def rk rung_def q book_entry_def)
  ultimately show ?thesis using that q by blast
qed

lemma no_wrap_fill_top:
  assumes "no_wrap L"
  shows "no_wrap (fill_top qty L)"
proof (cases L)
  case (Cons pq L')
  obtain p q where pq: "pq = (p, q)" by fastforce
  show ?thesis
  proof (cases q)
    case (Cons e q')
    obtain ord r where e: "e = (ord, r)" by fastforce
    have sum: "unat r + sum_list (map (unat \<circ> snd) q') < 2 ^ 64" and L': "no_wrap L'"
      using assms \<open>L = pq # L'\<close> pq Cons e by (auto simp: no_wrap_def)
    have "qty < r \<Longrightarrow> unat (r - qty) \<le> unat r"
      by (simp add: unat_sub_if_size word_less_nat_alt)
    then show ?thesis
      using sum L' \<open>L = pq # L'\<close> pq Cons e by (auto simp: no_wrap_def fill_top_def)
  qed (use assms \<open>L = pq # L'\<close> pq in \<open>simp add: fill_top_def\<close>)
qed (use assms in \<open>simp add: fill_top_def\<close>)

lemma append_executions_room:
  assumes "can_append_fill_reports c r"
  shows "append_executions c r taker maker px qty =
    r\<lparr>mr_executions := mr_executions r @ [taker_execution taker maker px qty, maker_execution taker maker px qty]\<rparr>"
  using assms by (simp add: can_append_fill_reports_def append_executions_def append_execution_def)

lemma with_fills_Cons:
  "with_fills taker fills (r\<lparr>mr_filled_quantity_lots := mr_filled_quantity_lots r + qty,
     mr_executions := mr_executions r @ [taker_execution taker maker px qty, maker_execution taker maker px qty]\<rparr>)
   = with_fills taker ((maker, px, qty) # fills) r"
  by (simp add: with_fills_def fills_quantity_def fill_executions_def add.assoc)

lemma with_fills_Nil [simp]: "with_fills taker [] r = r"
  by (simp add: with_fills_def fills_quantity_def fill_executions_def)

definition loop_result :: "sim_order \<Rightarrow> fill list \<Rightarrow> u64 \<Rightarrow> loop_exit \<Rightarrow> match_result \<Rightarrow> match_result" where
  "loop_result taker fills remaining exit r =
     (case exit of Loop_done \<Rightarrow> with_fills taker fills r
      | Report_overflow \<Rightarrow> report_overflow (with_fills taker fills r) remaining)"

definition room :: "book_config \<Rightarrow> match_result \<Rightarrow> nat" where
  "room c r = (max_execution_reports c - length (mr_executions r)) div 2"

lemma room_append: "can_append_fill_reports c r \<longleftrightarrow> room c r \<noteq> 0"
  by (auto simp: can_append_fill_reports_def room_def)

lemma fills_sides:
  "(\<And>s'. s' \<noteq> opposite s \<Longrightarrow> f s' = g s') \<Longrightarrow> f (opposite s) = L \<Longrightarrow> f = g(opposite s := L)"
  by (rule ext) auto

theorem match_loop_refines:
  assumes "book_inv c b" "totals_ok c b (opposite (so_side order))"
    and "spec_match (so_side order) (so_price_ticks order) (room c r) remaining (ladder b (opposite (so_side order)))
         = (L', fills, remaining', exit)"
  shows "\<exists>b'. match_loop c order remaining b r
      = Some (b', loop_result order fills remaining' exit r, remaining', exit)
    \<and> book_inv c b' \<and> ladder b' = (ladder b)(opposite (so_side order) := L')"
  using assms
proof (induction "room c r" arbitrary: b r remaining L' fills remaining' exit rule: less_induct)
  case less
  let ?s = "so_side order" and ?p = "so_price_ticks order"
  let ?o = "opposite ?s"
  note inv = less.prems(1) and tot = less.prems(2) and spec = less.prems(3)
  note best = best_crossing_top [OF inv tot, of ?p]
  have id: "(ladder b)(?o := ladder b ?o) = ladder b" by simp
  show ?case
  proof (cases "remaining = 0 \<or> best_crossing_level c b ?s ?p = None")
    case True
    have "match_loop c order remaining b r = Some (b, r, remaining, Loop_done)"
      using True by (subst match_loop.simps) auto
    moreover have "spec_match ?s ?p (room c r) remaining (ladder b ?o) = (ladder b ?o, [], remaining, Loop_done)"
    proof (cases "ranked (bk_levels b) ?o")
      case (Cons li rest)
      obtain x q where "ladder b ?o = (lv_price (bk_levels b ! li), (sl_order (bk_orders b ! x), sl_remaining (bk_orders b ! x)) # q)
          # map (rung b) rest"
        using top_entry [OF inv Cons] by metis
      then show ?thesis
        using True best Cons by (auto simp: spec_match.simps split: if_splits)
    qed (auto simp: spec_match.simps ladder_def)
    ultimately show ?thesis
      using spec inv id by (auto simp: loop_result_def)
  next
    case False
    then obtain li rest where rk: "ranked (bk_levels b) ?o = li # rest" and cr: "crosses ?s ?p (lv_price (bk_levels b ! li))"
        and li: "best_crossing_level c b ?s ?p = Some li"
      using best by (cases "ranked (bk_levels b) ?o") (auto split: if_splits)
    obtain x q where x: "lv_head (bk_levels b ! li) = Some x"
        and lad: "ladder b ?o = (lv_price (bk_levels b ! li), (sl_order (bk_orders b ! x), sl_remaining (bk_orders b ! x)) # q)
          # map (rung b) rest" and q: "level_queue b li = x # tl (level_queue b li)"
      using top_entry [OF inv rk] by (metis list.sel(3))
    have ne: "remaining \<noteq> 0" using False by simp
    show ?thesis
    proof (cases "can_append_fill_reports c r")
      case full: False
      have "match_loop c order remaining b r = Some (b, report_overflow r remaining, remaining, Report_overflow)"
        using ne li x full by (subst match_loop.simps) simp
      moreover have "spec_match ?s ?p (room c r) remaining (ladder b ?o) = (ladder b ?o, [], remaining, Report_overflow)"
        using ne lad cr full by (simp add: spec_match.simps room_append)
      ultimately show ?thesis
        using spec inv id by (auto simp: loop_result_def)
    next
      case True
      let ?qty = "min remaining (sl_remaining (bk_orders b ! x))"
      let ?maker = "sl_order (bk_orders b ! x)" and ?px = "lv_price (bk_levels b ! li)"
      define b1 where "b1 = fst (fill_head c order li x ?qty b r)"
      define r1 where "r1 = snd (fill_head c order li x ?qty b r)"
      have le: "?qty \<le> sl_remaining (bk_orders b ! x)" by simp
      note fh = fill_head_ladder [OF inv rk x le, where incoming = order and r = r, folded b1_def]
      have r1: "r1 = r\<lparr>mr_filled_quantity_lots := mr_filled_quantity_lots r + ?qty,
          mr_executions := mr_executions r @ [taker_execution order ?maker ?px ?qty, maker_execution order ?maker ?px ?qty]\<rparr>"
        unfolding r1_def using fill_head_eq [OF inv q le] True
        by (simp add: append_executions_room can_append_fill_reports_def)
      have rm: "room c r1 = room c r - 1" "room c r1 < room c r"
        using True by (simp_all add: r1 room_def can_append_fill_reports_def)
      have step: "match_loop c order remaining b r = match_loop c order (remaining - ?qty) b1 r1"
        using ne li x True by (subst match_loop.simps) (simp add: b1_def r1_def Let_def)
      obtain L'' fs rem'' e where rec: "spec_match ?s ?p (room c r1) (remaining - ?qty) (ladder b1 ?o) = (L'', fs, rem'', e)"
        using prod_cases4 by blast
      have "spec_match ?s ?p (room c r) remaining (ladder b ?o) = (L'', (?maker, ?px, ?qty) # fs, rem'', e)"
        using ne lad cr True rec fh(2) rm by (simp add: spec_match.simps [of ?s ?p "room c r"] room_append)
      then have eqs: "L' = L''" "fills = (?maker, ?px, ?qty) # fs" "remaining' = rem''" "exit = e"
        using spec by simp_all
      have tot1: "totals_ok c b1 ?o"
        using tot fh(2) no_wrap_fill_top by (auto simp: totals_ok_def)
      obtain b' where b': "match_loop c order (remaining - ?qty) b1 r1
          = Some (b', loop_result order fs rem'' e r1, rem'', e)" "book_inv c b'" "ladder b' = (ladder b1)(?o := L'')"
        using less.hyps [OF rm(2) fh(1) tot1 rec] by blast
      have "loop_result order fs rem'' e r1 = loop_result order fills remaining' exit r"
        unfolding loop_result_def eqs r1 with_fills_Cons by (rule refl)
      moreover have "ladder b' = (ladder b)(?o := L')"
        unfolding b'(3) using fh(3) eqs(1) by auto
      ultimately show ?thesis
        using step b' eqs by auto
    qed
  qed
qed

subsection \<open>The fill-or-kill preflight\<close>

definition unfilled :: "side \<Rightarrow> int \<Rightarrow> nat \<Rightarrow> u64 \<Rightarrow> ladder \<Rightarrow> u64" where
  "unfilled s p n remaining L = fst (snd (snd (spec_match s p n remaining L)))"

lemma unfilled_simps:
  "unfilled s p n 0 L = 0"
  "unfilled s p n remaining [] = remaining"
  "remaining \<noteq> 0 \<Longrightarrow> unfilled s p n remaining ((px, (maker, r) # q) # L) =
     (if \<not> crosses s p px \<or> n = 0 then remaining
      else unfilled s p (n - 1) (remaining - min remaining r) (fill_top (min remaining r) ((px, (maker, r) # q) # L)))"
  by (simp_all add: unfilled_def spec_match.simps [of s p n] split: prod.splits)

text \<open>The preflight's walk of one queue, over its entries.\<close>

fun fok_queue :: "nat \<Rightarrow> book_entry list \<Rightarrow> u64 \<Rightarrow> nat \<Rightarrow> (u64 \<times> nat) option" where
  "fok_queue max_reports [] remaining reports = Some (remaining, reports)"
| "fok_queue max_reports ((maker, r) # q) remaining reports =
     (if 0 < remaining then
        if max_reports - reports < 2 then None
        else fok_queue max_reports q (remaining - min remaining r) (reports + 2)
      else Some (remaining, reports))"

lemma consume_queue:
  "seg (bk_orders b) li p xs None \<Longrightarrow> consume_queue_for_fok c b (first_or None xs) remaining reports
     = fok_queue (max_execution_reports c) (map (book_entry (bk_orders b)) xs) remaining reports"
proof (induction xs arbitrary: p remaining reports)
  case Nil
  then show ?case by (simp add: consume_queue_for_fok.simps)
next
  case (Cons x xs)
  moreover have "book_entry (bk_orders b) x = (sl_order (bk_orders b ! x), sl_remaining (bk_orders b ! x))"
    by (simp add: book_entry_def)
  ultimately show ?case
    using Cons.IH [of "Some x"] by (subst consume_queue_for_fok.simps) simp
qed

lemma fok_level:
  assumes "crosses s p px" "\<forall>(maker, r)\<in>set q. r \<noteq> 0" "q \<noteq> []"
  shows "unfilled s p ((m - reports) div 2) remaining ((px, q) # L) = 0 \<longleftrightarrow>
    (case fok_queue m q remaining reports of None \<Rightarrow> False
     | Some (remaining', reports') \<Rightarrow> unfilled s p ((m - reports') div 2) remaining' L = 0)"
  using assms(2,3)
proof (induction q arbitrary: remaining reports)
  case (Cons e q)
  obtain maker r where e: "e = (maker, r)" by fastforce
  show ?case
  proof (cases "remaining = 0 \<or> m - reports < 2")
    case True
    then show ?thesis
      using assms(1) e by (auto simp: unfilled_simps word_gt_0)
  next
    case False
    then have n: "(m - reports) div 2 = Suc ((m - (reports + 2)) div 2)"
      by auto
    show ?thesis
    proof (cases "min remaining r < r")
      case True
      then have "remaining - min remaining r = 0" by (auto simp: min_def)
      then show ?thesis
        using False e assms(1) n by (cases q) (auto simp: unfilled_simps word_gt_0)
    next
      case full: False
      then have ft: "fill_top (min remaining r) ((px, (maker, r) # q) # L) = (if q = [] then L else (px, q) # L)"
        by (simp add: fill_top_def)
      have step: "unfilled s p ((m - reports) div 2) remaining ((px, e # q) # L) =
          unfilled s p ((m - (reports + 2)) div 2) (remaining - min remaining r) (if q = [] then L else (px, q) # L)"
        using False assms(1) unfolding e n by (simp add: unfilled_simps ft)
      have walk: "fok_queue m (e # q) remaining reports = fok_queue m q (remaining - min remaining r) (reports + 2)"
        using False by (simp add: e word_gt_0)
      show ?thesis
        unfolding step walk using Cons by (cases "q = []") simp_all
    qed
  qed
qed simp

lemma rung_level:
  assumes inv: "book_inv c b" and i: "i \<in> set (ranked (bk_levels b) s)"
  shows "consume_level_for_fok c b (bk_levels b ! i) remaining reports
     = fok_queue (max_execution_reports c) (snd (rung b i)) remaining reports"
    "\<forall>(maker, r)\<in>set (snd (rung b i)). r \<noteq> 0" "snd (rung b i) \<noteq> []"
proof -
  note lad = ladder_rung_cases [OF inv i]
  then show "consume_level_for_fok c b (bk_levels b ! i) remaining reports
     = fok_queue (max_execution_reports c) (snd (rung b i)) remaining reports"
    using consume_queue [of b i None "level_queue b i" c remaining reports]
    by (simp add: consume_level_for_fok_def level_ok_def rung_def)
  show "\<forall>(maker, r)\<in>set (snd (rung b i)). r \<noteq> 0" "snd (rung b i) \<noteq> []"
    using lad(4,5) by (auto simp: level_ok_def rung_def book_entry_def member_ok_def)
qed

lemma fok_rung:
  assumes inv: "book_inv c b" and i: "i \<in> set (ranked (bk_levels b) t)"
    and cr: "crosses s p (lv_price (bk_levels b ! i))"
  shows "unfilled s p ((max_execution_reports c - reports) div 2) remaining (rung b i # L) = 0 \<longleftrightarrow>
    (case consume_level_for_fok c b (bk_levels b ! i) remaining reports of None \<Rightarrow> False
     | Some (remaining', reports') \<Rightarrow> unfilled s p ((max_execution_reports c - reports') div 2) remaining' L = 0)"
proof -
  have "rung b i = (lv_price (bk_levels b ! i), snd (rung b i))"
    by (simp add: rung_def)
  then show ?thesis
    using fok_level [OF cr rung_level(2,3) [OF inv i], of "max_execution_reports c" reports remaining L]
      rung_level(1) [OF inv i] by simp
qed

lemma unfilled_not_crossing:
  assumes inv: "book_inv c b" and i: "i \<in> set (ranked (bk_levels b) t)"
    and cr: "\<not> crosses s p (lv_price (bk_levels b ! i))"
  shows "unfilled s p n remaining (rung b i # L) = remaining"
proof -
  obtain maker r q where "snd (rung b i) = (maker, r) # q"
    using rung_level(3) [OF inv i] by (cases "snd (rung b i)") auto
  then have "rung b i = (lv_price (bk_levels b ! i), (maker, r) # q)"
    by (simp add: rung_def)
  then show ?thesis
    using cr by (cases "remaining = 0") (simp_all add: unfilled_simps)
qed

lemma fok_deep_correct:
  assumes inv: "book_inv c b" and "set is \<subseteq> set (ranked (bk_levels b) t)"
  shows "fok_deep c b order is remaining reports \<longleftrightarrow>
    unfilled (so_side order) (so_price_ticks order) ((max_execution_reports c - reports) div 2) remaining (map (rung b) is) = 0"
  using assms(2)
proof (induction "is" arbitrary: remaining reports)
  case (Cons i "is")
  then have i: "i \<in> set (ranked (bk_levels b) t)" and sub: "set is \<subseteq> set (ranked (bk_levels b) t)" by auto
  show ?case
  proof (cases "remaining = 0")
    case False
    show ?thesis
    proof (cases "crosses (so_side order) (so_price_ticks order) (lv_price (bk_levels b ! i))")
      case True
      show ?thesis
        using False True fok_rung [OF inv i True, of reports remaining "map (rung b) is"] Cons.IH [OF sub]
        by (cases "consume_level_for_fok c b (bk_levels b ! i) remaining reports") (auto simp: word_gt_0)
    next
      case no: False
      then show ?thesis
        using False unfilled_not_crossing [OF inv i no] by (simp add: word_gt_0)
    qed
  qed (simp add: unfilled_simps)
qed (simp add: unfilled_simps)

lemma fok_shallow_correct:
  assumes inv: "book_inv c b" and nw: "no_wrap (ladder b (opposite (so_side order)))"
    and "ranked (bk_levels b) (opposite (so_side order)) = pre @ suf"
    and "length visited = length (bk_levels b)"
    and "\<And>i. i < length visited \<Longrightarrow> visited ! i \<longleftrightarrow> i \<in> set pre"
  shows "fok_shallow c b order visited remaining reports \<longleftrightarrow>
    unfilled (so_side order) (so_price_ticks order) ((max_execution_reports c - reports) div 2) remaining (map (rung b) suf) = 0"
  using assms(3-)
proof (induction suf arbitrary: pre visited remaining reports)
  case Nil
  let ?s = "so_side order" and ?p = "so_price_ticks order"
  have "best_crossing_unvisited_level b ?s ?p visited
      = top (filter (\<lambda>i. \<not> visited ! i \<and> crosses ?s ?p (lv_price (bk_levels b ! i))) (ranked (bk_levels b) (opposite ?s)))"
    unfolding best_crossing_unvisited_level_def Let_def by (rule scan_ranked [OF inv nw]) auto
  also have "filter (\<lambda>i. \<not> visited ! i \<and> crosses ?s ?p (lv_price (bk_levels b ! i))) (ranked (bk_levels b) (opposite ?s)) = []"
    using Nil by (auto simp: filter_empty_conv ranked_mem dest: arg_cong [of _ _ set])
  finally show ?case
    using Nil(2) by (subst fok_shallow.simps) (auto simp: unfilled_simps word_gt_0)
next
  case (Cons i suf)
  let ?s = "so_side order" and ?p = "so_price_ticks order"
  have i: "i \<in> set (ranked (bk_levels b) (opposite ?s))" and d: "distinct (pre @ i # suf)"
    using Cons.prems(1) ranked_distinct [of "bk_levels b" "opposite ?s"] by simp_all
  have len: "i < length visited" using i Cons.prems(2) by (simp add: ranked_mem)
  have mem: "j < length visited" if "j \<in> set (pre @ i # suf)" for j
    using that Cons.prems(1,2) ranked_mem [of j "bk_levels b" "opposite ?s"] by simp
  have "best_crossing_unvisited_level b ?s ?p visited
      = top (filter (\<lambda>i. \<not> visited ! i \<and> crosses ?s ?p (lv_price (bk_levels b ! i))) (ranked (bk_levels b) (opposite ?s)))"
    unfolding best_crossing_unvisited_level_def Let_def by (rule scan_ranked [OF inv nw]) auto
  also have "filter (\<lambda>i. \<not> visited ! i \<and> crosses ?s ?p (lv_price (bk_levels b ! i))) (ranked (bk_levels b) (opposite ?s))
      = filter (\<lambda>i. crosses ?s ?p (lv_price (bk_levels b ! i))) (filter (\<lambda>i. \<not> visited ! i) (pre @ i # suf))"
    by (simp add: Cons.prems(1) conj_commute)
  also have "filter (\<lambda>i. \<not> visited ! i) (pre @ i # suf) = i # suf"
    using Cons.prems(3) mem d by (auto simp: filter_empty_conv filter_id_conv)
  also have "top (filter (\<lambda>i. crosses ?s ?p (lv_price (bk_levels b ! i))) (i # suf)) =
     (if crosses ?s ?p (lv_price (bk_levels b ! i)) then Some i else None)"
  proof -
    have "price_sorted (bk_levels b) (opposite ?s) (i # suf)"
      using ranked_sorted [OF book_invD(2) [OF inv], of "opposite ?s"] Cons.prems(1)
      by (simp add: price_sorted_def sorted_wrt_append)
    then show ?thesis by (simp only: top_filter_sorted list.case)
  qed
  finally have best: "best_crossing_unvisited_level b ?s ?p visited =
     (if crosses ?s ?p (lv_price (bk_levels b ! i)) then Some i else None)" .
  have IH: "fok_shallow c b order (visited[i := True]) remaining' reports' \<longleftrightarrow>
      unfilled ?s ?p ((max_execution_reports c - reports') div 2) remaining' (map (rung b) suf) = 0" for remaining' reports'
    using Cons.prems len by (intro Cons.IH [of "pre @ [i]"]) (auto simp: nth_upd)
  show ?case
  proof (cases "remaining = 0")
    case True
    then show ?thesis by (subst fok_shallow.simps) (simp add: unfilled_simps)
  next
    case False
    show ?thesis
    proof (cases "crosses ?s ?p (lv_price (bk_levels b ! i))")
      case True
      then show ?thesis
        using False best Cons.prems(2) IH fok_rung [OF inv i True, of reports remaining "map (rung b) suf"]
        by (subst fok_shallow.simps) (auto simp: word_gt_0 split: option.splits)
    next
      case no: False
      then show ?thesis
        using False best Cons.prems(2) unfilled_not_crossing [OF inv i no]
        by (subst fok_shallow.simps) (simp add: word_gt_0)
    qed
  qed
qed

theorem fok_preflight_correct:
  assumes inv: "book_inv c b" and tot: "totals_ok c b (opposite (so_side order))"
  shows "fok_preflight_passes c b order \<longleftrightarrow>
    unfilled (so_side order) (so_price_ticks order) (max_execution_reports c div 2) (so_quantity_lots order)
      (ladder b (opposite (so_side order))) = 0"
proof (cases "uses_deep_level_index c")
  case True
  then show ?thesis
    using fok_deep_correct [OF inv, of "ranked (bk_levels b) (opposite (so_side order))" "opposite (so_side order)"]
      ranked_deep [OF book_invD(2) [OF inv]]
    by (simp add: fok_preflight_passes_def ladder_def)
next
  case False
  then show ?thesis
    using fok_shallow_correct [OF inv, of order "[]"] tot
    by (simp add: fok_preflight_passes_def ladder_def totals_ok_def)
qed

subsection \<open>Resting\<close>

lemma spec_insert_new:
  "p \<notin> fst ` set L \<Longrightarrow> spec_insert s p e L =
     takeWhile (\<lambda>pq. is_better_price s (fst pq) p) L @ (p, [e]) # dropWhile (\<lambda>pq. is_better_price s (fst pq) p) L"
  by (induction s p e L rule: spec_insert.induct) auto

lemma spec_insert_Cons:
  "spec_insert s p e (pq # L) = (if fst pq = p then (p, snd pq @ [e]) # L
     else if is_better_price s (fst pq) p then pq # spec_insert s p e L else (p, [e]) # pq # L)"
  by (cases pq) simp

lemma spec_insert_existing:
  assumes "price_sorted (bk_levels b) s xs" "li \<in> set xs" "lv_price (bk_levels b ! li) = p"
  shows "spec_insert s p e (map (rung b) xs) = map ((rung b)(li := (p, snd (rung b li) @ [e]))) xs"
  using assms
proof (induction xs)
  case (Cons i xs)
  have srt: "price_sorted (bk_levels b) s xs" and ord: "\<forall>j\<in>set xs. is_better_price s (lv_price (bk_levels b ! i)) (lv_price (bk_levels b ! j))"
    using Cons.prems(1) by (auto simp: price_sorted_def)
  show ?case
  proof (cases "i = li")
    case True
    then have "li \<notin> set xs" using ord by auto
    then have "map ((rung b)(li := z)) xs = map (rung b) xs" for z
      by (intro map_cong refl) auto
    then show ?thesis
      using True Cons.prems(3) by (simp add: spec_insert_Cons)
  next
    case False
    then have li: "li \<in> set xs" using Cons.prems(2) by simp
    then have bet: "is_better_price s (lv_price (bk_levels b ! i)) p" using ord Cons.prems(3) by auto
    then have "lv_price (bk_levels b ! i) \<noteq> p" by auto
    then show ?thesis
      using False bet Cons.IH [OF srt li Cons.prems(3)] by (simp add: spec_insert_Cons)
  qed
qed simp

lemma rest_blocked_spec:
  assumes inv: "book_inv c b"
  shows "rest_blocked c b order \<longleftrightarrow>
    min (order_capacity c) (order_index_capacity c) \<le> order_count (ladder b Buy) + order_count (ladder b Sell)
    \<or> so_price_ticks order \<notin> fst ` set (ladder b (so_side order))
      \<and> price_level_capacity c \<le> length (ladder b Buy) + length (ladder b Sell)"
  using find_level_ladder(1) [OF book_invD(2) [OF inv]]
  by (simp add: rest_blocked_def resting_count [OF inv] level_count [OF book_invD(2) [OF inv]])

theorem rest_order_refines:
  assumes inv: "book_inv c b" and cfg: "valid_config c" and none: "find_slot b (so_order_id order) = None"
    and rem: "remaining \<noteq> 0"
  shows "\<exists>b' ok. rest_order c order remaining b = (b', ok) \<and> book_inv c b'
    \<and> spec_rest c order remaining (ladder b) = (ladder b', ok)"
proof (cases "rest_blocked c b order")
  case True
  obtain b' where b': "rest_order c order remaining b = (b', False)" "book_inv c b'" "same_view b b'"
    using rest_order_failure [OF inv cfg none True] by blast
  have "ladder b' = ladder b"
    using same_view_queue [OF b'(3)] b'(3)
    by (intro ext) (simp add: ladder_def rung_def [abs_def] same_view_def)
  then show ?thesis
    using b' True rest_blocked_spec [OF inv, of order] by (auto simp: spec_rest_def)
next
  case False
  let ?s = "so_side order" and ?p = "so_price_ticks order"
  obtain b' li x where b': "rest_order c order remaining b = (b', True)" "book_inv c b'"
      and eff: "rest_effect c b order remaining li x b'"
    using rest_order_success [OF inv cfg none rem False] by blast
  note lad = ladder_rested [OF inv eff]
  have side: "ladder b' ?s = spec_insert ?s ?p (order, remaining) (ladder b ?s)"
  proof (cases "find_level c b ?s ?p")
    case None
    then have "?p \<notin> fst ` set (ladder b ?s)"
      using find_level_ladder(1) [OF book_invD(2) [OF inv]] by blast
    then show ?thesis
      using lad(2) [OF None] by (simp add: spec_insert_new ladder_def takeWhile_map dropWhile_map o_def)
  next
    case (Some j)
    then have j: "j = li" using eff by (simp add: rest_effect_def split: if_splits)
    then have mem: "li \<in> set (ranked (bk_levels b) ?s)" "lv_price (bk_levels b ! li) = ?p"
      using Some find_level_ladder(2) [OF book_invD(2) [OF inv]] by auto
    have "snd (rung b li) = map (book_entry (bk_orders b)) (level_queue b li)"
      by (simp add: rung_def)
    then show ?thesis
      using lad(1) Some j spec_insert_existing [OF ranked_sorted [OF book_invD(2) [OF inv]] mem]
      by (simp add: ladder_def)
  qed
  have "ladder b' = (ladder b)(?s := spec_insert ?s ?p (order, remaining) (ladder b ?s))"
    using side lad(3) by (intro ext) auto
  then show ?thesis
    using b' False rest_blocked_spec [OF inv, of order] by (auto simp: spec_rest_def)
qed

subsection \<open>Cancelling\<close>

lemma spec_remove_alt:
  "spec_remove oid L = filter (\<lambda>pq. snd pq \<noteq> [])
     (map (\<lambda>pq. (fst pq, filter (\<lambda>e. so_order_id (fst e) \<noteq> oid) (snd pq))) L)"
  by (simp add: spec_remove_def case_prod_beta')

lemma ex_side: "(\<exists>s :: side. P s) \<longleftrightarrow> P Buy \<or> P Sell"
  by (metis side.exhaust)

lemma filter_queue:
  assumes inv: "book_inv c b" and x: "x \<in> set (level_queue b li)" and i: "i \<in> set (ranked (bk_levels b) s)"
  defines "oid \<equiv> so_order_id (sl_order (bk_orders b ! x))"
  shows "filter (\<lambda>e. so_order_id (fst e) \<noteq> oid) (snd (rung b i)) =
    map (book_entry (bk_orders b)) (if i = li then remove1 x (level_queue b li) else level_queue b i)"
proof -
  have d: "distinct (level_queue b li)"
    using queues_level [OF book_invD(3) [OF inv], of li] queues_mem [OF book_invD(3) [OF inv] x]
    by (simp add: level_ok_def)
  have "filter (\<lambda>e. so_order_id (fst e) \<noteq> oid) (snd (rung b i))
      = map (book_entry (bk_orders b)) (filter (\<lambda>y. so_order_id (sl_order (bk_orders b ! y)) \<noteq> oid) (level_queue b i))"
    by (simp add: rung_def filter_map o_def book_entry_def)
  also have "filter (\<lambda>y. so_order_id (sl_order (bk_orders b ! y)) \<noteq> oid) (level_queue b i)
      = filter (\<lambda>y. y \<noteq> x) (level_queue b i)"
    using queue_ids_unique [OF inv _ x, of _ i] by (intro filter_cong) (auto simp: oid_def)
  also have "\<dots> = (if i = li then remove1 x (level_queue b li) else level_queue b i)"
    using d queues_disjoint [OF book_invD(3) [OF inv] x, of i]
    by (auto simp: distinct_remove1_removeAll removeAll_filter_not_eq neq_commute filter_id_conv)
  finally show ?thesis .
qed

lemma spec_remove_ladder:
  assumes inv: "book_inv c b" and x: "x \<in> set (level_queue b li)" and eff: "unlink_effect b li x b'"
  shows "spec_remove (so_order_id (sl_order (bk_orders b ! x))) (ladder b s) = ladder b' s"
proof -
  let ?oid = "so_order_id (sl_order (bk_orders b ! x))"
  let ?q = "remove1 x (level_queue b li)"
  let ?rungs = "(rung b)(li := (lv_price (bk_levels b ! li), map (book_entry (bk_orders b)) ?q))"
  let ?xs = "ranked (bk_levels b) s"
  have each: "(fst (rung b i), filter (\<lambda>e. so_order_id (fst e) \<noteq> ?oid) (snd (rung b i))) = ?rungs i"
    if "i \<in> set ?xs" for i
    using filter_queue [OF inv x that] by (simp add: rung_def)
  have ne: "snd (?rungs i) \<noteq> [] \<longleftrightarrow> \<not> (?q = [] \<and> i = li)" if "i \<in> set ?xs" for i
    using ladder_rung_cases(4) [OF inv that] by (auto simp: rung_def)
  have "spec_remove ?oid (ladder b s) = filter (\<lambda>pq. snd pq \<noteq> []) (map ?rungs ?xs)"
    unfolding spec_remove_alt ladder_def map_map o_def using each
    by (intro arg_cong [of _ _ "filter (\<lambda>pq. snd pq \<noteq> [])"] map_cong refl)
  also have "\<dots> = map ?rungs (filter (\<lambda>i. \<not> (?q = [] \<and> i = li)) ?xs)"
    unfolding filter_map o_def using ne by (intro arg_cong [of _ _ "map ?rungs"] filter_cong refl)
  also have "filter (\<lambda>i. \<not> (?q = [] \<and> i = li)) ?xs = (if ?q = [] then remove1 li ?xs else ?xs)"
    by (simp add: distinct_remove1_removeAll removeAll_filter_not_eq neq_commute)
  finally show ?thesis
    using ladder_unlinked [OF inv eff x] by simp
qed

lemma spec_entries_mem:
  "e \<in> set (spec_entries (ladder b)) \<longleftrightarrow>
     (\<exists>s. \<exists>li\<in>set (ranked (bk_levels b) s). \<exists>x\<in>set (level_queue b li). e = book_entry (bk_orders b) x)"
  by (auto simp: spec_entries_def ladder_def rung_def ex_side)

theorem cancel_refines:
  assumes inv: "book_inv c b"
  shows "book_inv c (fst (cancel c oid b))"
    "spec_cancel oid (ladder b) = (ladder (fst (cancel c oid b)), snd (cancel c oid b))"
proof -
  have id: "book_entry (bk_orders b) x = (ord, r) \<Longrightarrow> so_order_id ord = so_order_id (sl_order (bk_orders b ! x))" for x ord r
    by (auto simp: book_entry_def)
  have "book_inv c (fst (cancel c oid b)) \<and> spec_cancel oid (ladder b) = (ladder (fst (cancel c oid b)), snd (cancel c oid b))"
  proof (cases "find_slot b oid")
    case None
    then have "find (\<lambda>(order, r). so_order_id order = oid) (spec_entries (ladder b)) = None"
      using find_slot_ladder [OF inv, of oid] unfolding find_None_iff ladder_ids_iff spec_entries_mem
      by (auto simp: book_entry_def)
    then show ?thesis
      using None inv by (simp add: spec_cancel_def cancel_def Let_def)
  next
    case (Some x)
    then have x: "x < length (bk_orders b)" "sl_active (bk_orders b ! x)" "so_order_id (sl_order (bk_orders b ! x)) = oid"
      using find_slot_correct [OF book_invD(1) [OF inv]] by auto
    obtain li s where li: "li \<in> set (ranked (bk_levels b) s)" "x \<in> set (level_queue b li)"
      using active_in_ladder [OF inv x(1,2)] .
    have mem: "book_entry (bk_orders b) x \<in> set (spec_entries (ladder b))"
      using li by (auto simp: spec_entries_mem)
    have "find (\<lambda>(order, r). so_order_id order = oid) (spec_entries (ladder b)) = Some (book_entry (bk_orders b) x)"
    proof (cases "find (\<lambda>(order, r). so_order_id order = oid) (spec_entries (ladder b))")
      case None
      then show ?thesis
        using mem x(3) unfolding find_None_iff by (auto simp: book_entry_def)
    next
      case (Some e)
      then obtain y lj where e: "e = book_entry (bk_orders b) y" "y \<in> set (level_queue b lj)"
          "so_order_id (sl_order (bk_orders b ! y)) = oid"
        using spec_entries_mem [of e b] by (auto simp: find_Some_iff book_entry_def dest: nth_mem)
      then have "y = x"
        using queue_ids_unique [OF inv e(2) li(2)] x(3) by simp
      then show ?thesis using Some e by simp
    qed
    moreover note unlink_order_correct [OF inv li(2)] 
    moreover have "spec_remove oid (ladder b s) = ladder (unlink_order c x b) s" for s
      using spec_remove_ladder [OF inv li(2) unlink_order_correct(2) [OF inv li(2)], of s] x(3) by simp
    ultimately show ?thesis
      using Some by (auto simp: spec_cancel_def cancel_def Let_def book_entry_def)
  qed
  then show "book_inv c (fst (cancel c oid b))"
    "spec_cancel oid (ladder b) = (ladder (fst (cancel c oid b)), snd (cancel c oid b))" by auto
qed

subsection \<open>Submitting\<close>

lemma finish_refines:
  assumes inv: "book_inv c b" and cfg: "valid_config c" and none: "find_slot b (so_order_id order) = None"
  shows "\<exists>b'. finish_submit c order remaining b r = (b', snd (spec_finish c order remaining (ladder b) r))
    \<and> book_inv c b' \<and> ladder b' = fst (spec_finish c order remaining (ladder b) r)"
proof (cases "remaining = 0 \<or> so_time_in_force order \<noteq> GTC")
  case True
  then show ?thesis
    using inv by (auto simp: finish_submit_def spec_finish_def Let_def)
next
  case False
  let ?order = "order\<lparr>so_quantity_lots := remaining\<rparr>"
  have "find_slot b (so_order_id ?order) = None" using none by simp
  then obtain b' ok where rest: "rest_order c ?order remaining b = (b', ok)" "book_inv c b'"
      "spec_rest c ?order remaining (ladder b) = (ladder b', ok)"
    using rest_order_refines [OF inv cfg, of ?order remaining] False by auto
  then show ?thesis
    using False by (cases ok) (auto simp: finish_submit_def spec_finish_def Let_def)
qed

text \<open>
  A fill takes orders away and never adds one, so an order the index does not
  know before matching is unknown after it.
\<close>

lemma ladder_ids_fill_top: "ladder_ids (fill_top qty L) \<subseteq> ladder_ids L"
  by (auto simp: fill_top_def ladder_ids_def split: list.splits if_splits)

lemma spec_match_ids:
  "spec_match s p n remaining L = (L', fills, remaining', exit) \<Longrightarrow> ladder_ids L' \<subseteq> ladder_ids L"
proof (induction s p n remaining L arbitrary: L' fills remaining' exit rule: spec_match.induct)
  case (1 s p n remaining L)
  show ?case
  proof (cases "\<exists>px maker r q rest. remaining \<noteq> 0 \<and> n \<noteq> 0 \<and> L = (px, (maker, r) # q) # rest \<and> crosses s p px")
    case True
    then obtain px maker r q rest where ne: "remaining \<noteq> 0" "n \<noteq> 0" "crosses s p px"
        and L: "L = (px, (maker, r) # q) # rest" by blast
    obtain L'' fs rem e where rec: "spec_match s p (n - 1) (remaining - min remaining r) (fill_top (min remaining r) L) = (L'', fs, rem, e)"
      using prod_cases4 by blast
    then have "L' = L''"
      using "1.prems" ne L by (simp add: spec_match.simps [of s p n])
    moreover have "ladder_ids L'' \<subseteq> ladder_ids (fill_top (min remaining r) L)"
      using "1.IH" [OF ne(1) L refl refl refl] ne rec by auto
    ultimately show ?thesis using ladder_ids_fill_top by blast
  next
    case False
    then have "L' = L"
      using "1.prems" by (subst (asm) spec_match.simps) (auto split: if_splits list.splits prod.splits)
    then show ?thesis by simp
  qed
qed

theorem submit_refines:
  assumes inv: "book_inv c b" and cfg: "valid_config c" and tot: "totals_ok c b (opposite (so_side order))"
  shows "\<exists>b'. submit_limit c order b = Some (b', snd (spec_submit c order (ladder b)))
    \<and> book_inv c b' \<and> ladder b' = fst (spec_submit c order (ladder b))"
proof -
  let ?s = "so_side order" and ?p = "so_price_ticks order" and ?qty = "so_quantity_lots order"
  obtain L' fills remaining exit where out: "spec_outcome c order (ladder b) = (L', fills, remaining, exit)"
    using prod_cases4 by blast
  have known: "find_slot b (so_order_id order) \<noteq> None \<longleftrightarrow>
      so_order_id order \<in> ladder_ids (ladder b Buy) \<or> so_order_id order \<in> ladder_ids (ladder b Sell)"
    using find_slot_ladder [OF inv, of "so_order_id order"] by (simp add: ex_side)
  have admits: "spec_admits order (ladder b) \<longleftrightarrow> is_valid_order order \<and> find_slot b (so_order_id order) = None"
    using known by (auto simp: spec_admits_def)
  have fok: "fok_preflight_passes c b order \<longleftrightarrow> remaining = 0"
    using fok_preflight_correct [OF inv tot] out by (simp add: unfilled_def spec_outcome_def)
  show ?thesis
  proof (cases "spec_admits order (ladder b) \<and> \<not> (so_time_in_force order = FOK \<and> remaining \<noteq> 0)")
    case False
    then have "submit_limit c order b = Some (b, fresh_result order)"
      using admits fok by (auto simp: submit_limit_def Let_def fresh_result_def)
    moreover have "spec_submit c order (ladder b) = (ladder b, fresh_result order)"
      using False out by (auto simp: spec_submit_def)
    ultimately show ?thesis using inv by auto
  next
    case True
    then have guards: "is_valid_order order" "find_slot b (so_order_id order) = None"
        "\<not> (so_time_in_force order = FOK \<and> \<not> fok_preflight_passes c b order)"
      using admits fok by auto
    have "room c (fresh_result order) = max_execution_reports c div 2"
      by (simp add: room_def fresh_result_def default_match_result_def)
    then have "spec_match ?s ?p (room c (fresh_result order)) ?qty (ladder b (opposite ?s)) = (L', fills, remaining, exit)"
      using out by (simp add: spec_outcome_def)
    then obtain b1 where b1: "match_loop c order ?qty b (fresh_result order)
          = Some (b1, loop_result order fills remaining exit (fresh_result order), remaining, exit)"
        "book_inv c b1" "ladder b1 = (ladder b)(opposite ?s := L')"
      using match_loop_refines [OF inv tot] by blast
    have submit: "submit_limit c order b = Some (case exit of
          Report_overflow \<Rightarrow> (b1, loop_result order fills remaining exit (fresh_result order))
        | Loop_done \<Rightarrow> finish_submit c order remaining b1 (loop_result order fills remaining exit (fresh_result order)))"
      using guards b1(1) by (auto simp: submit_limit_def fresh_result_def [symmetric] Let_def)
    have "spec_submit c order (ladder b) = (let S' = ladder b1; r = with_fills order fills (fresh_result order)
             in case exit of Report_overflow \<Rightarrow> (S', report_overflow r remaining)
                | Loop_done \<Rightarrow> spec_finish c order remaining S' r)"
      using True out b1(3) by (auto simp: spec_submit_def)
    moreover have "find_slot b1 (so_order_id order) = None"
    proof -
      have "ladder_ids L' \<subseteq> ladder_ids (ladder b (opposite ?s))"
        using out unfolding spec_outcome_def by (rule spec_match_ids)
      then have "ladder_ids (ladder b1 s) \<subseteq> ladder_ids (ladder b s)" for s
        by (auto simp: b1(3))
      then show ?thesis
        using guards(2) find_slot_ladder [OF inv, of "so_order_id order"]
          find_slot_ladder [OF b1(2), of "so_order_id order"] by blast
    qed
    ultimately show ?thesis
      using submit b1(2) finish_refines [OF b1(2) cfg, of order remaining "with_fills order fills (fresh_result order)"]
      by (cases exit) (auto simp: loop_result_def Let_def)
  qed
qed

end
