(* ===== verification/SpecProperties.thy ===== *)
theory SpecProperties
  imports BookSpec
begin

section \<open>What price-time priority gives\<close>

text \<open>
  Facts about the specification alone: which orders an incoming order trades
  with, that no quantity is lost, where matching stops, and that the sides never
  cross.
\<close>

subsection \<open>A rule for matching\<close>

lemma spec_match_induct [consumes 2, case_names stop_done stop_cross stop_reports partial full]:
  assumes "spec_match s p n remaining L = (L', fills, remaining', exit)"
    and "\<forall>(px, q)\<in>set L. q \<noteq> []"
    and done_case: "\<And>n remaining L. remaining = 0 \<or> L = [] \<Longrightarrow> P n remaining L L [] remaining Loop_done"
    and cross_case: "\<And>n remaining px q L. remaining \<noteq> 0 \<Longrightarrow> \<not> crosses s p px \<Longrightarrow>
         P n remaining ((px, q) # L) ((px, q) # L) [] remaining Loop_done"
    and report_case: "\<And>remaining px q L. remaining \<noteq> 0 \<Longrightarrow> crosses s p px \<Longrightarrow>
         P 0 remaining ((px, q) # L) ((px, q) # L) [] remaining Report_overflow"
    and partial_case: "\<And>n remaining px maker r q L. remaining \<noteq> 0 \<Longrightarrow> remaining < r \<Longrightarrow> crosses s p px \<Longrightarrow>
         P (Suc n) remaining ((px, (maker, r) # q) # L) ((px, (maker, r - remaining) # q) # L)
           [(maker, px, remaining)] 0 Loop_done"
    and full_case: "\<And>n remaining px maker r q L L' fills remaining' exit.
         remaining \<noteq> 0 \<Longrightarrow> r \<le> remaining \<Longrightarrow> crosses s p px \<Longrightarrow>
         P n (remaining - r) (if q = [] then L else (px, q) # L) L' fills remaining' exit \<Longrightarrow>
         P (Suc n) remaining ((px, (maker, r) # q) # L) L' ((maker, px, r) # fills) remaining' exit"
  shows "P n remaining L L' fills remaining' exit"
  using assms(1,2)
proof (induction n arbitrary: remaining L L' fills remaining' exit)
  case 0
  then show ?case
  proof (cases L)
    case (Cons pq rest)
    obtain px q where pq: "pq = (px, q)" by fastforce
    obtain e q' where q: "q = e # q'" using 0 Cons pq by (cases q) auto
    then show ?thesis
      using 0(1) Cons pq done_case [of remaining L 0] cross_case [of remaining px 0 q rest] report_case [of remaining px q rest]
      by (auto simp: spec_match.simps split: if_splits prod.splits)
  qed (auto simp: spec_match.simps intro: done_case split: if_splits)
next
  case (Suc n)
  show ?case
  proof (cases "L = [] \<or> remaining = 0")
    case True
    then show ?thesis
      using Suc.prems(1) done_case by (auto simp: spec_match.simps split: if_splits)
  next
    case False
    then obtain px q rest where L: "L = (px, q) # rest" and ne: "remaining \<noteq> 0" by (cases L) auto
    then obtain maker r q' where q: "q = (maker, r) # q'" using Suc.prems(2) by (cases q) auto
    show ?thesis
    proof (cases "crosses s p px")
      case True
      obtain L'' fs rem e where rec: "spec_match s p n (remaining - min remaining r) (fill_top (min remaining r) L) = (L'', fs, rem, e)"
        using prod_cases4 by blast
      have eq: "L' = L''" "fills = (maker, px, min remaining r) # fs" "remaining' = rem" "exit = e"
        using Suc.prems(1) True ne rec unfolding L q by (subst (asm) spec_match.simps, simp)+
      show ?thesis
      proof (cases "remaining < r")
        case part: True
        then have m: "min remaining r = remaining" by simp
        then have "L'' = (px, (maker, r - remaining) # q') # rest" "fs = []" "rem = 0" "e = Loop_done"
          using rec part unfolding L q by (simp_all add: fill_top_def spec_match.simps)
        then show ?thesis
          using partial_case [OF ne part True] m unfolding eq L q by simp
      next
        case False
        then have m: "min remaining r = r" and le: "r \<le> remaining" by simp_all
        have ft: "fill_top r L = (if q' = [] then rest else (px, q') # rest)"
          by (simp add: fill_top_def L q)
        have "P n (remaining - r) (if q' = [] then rest else (px, q') # rest) L'' fs rem e"
          using rec Suc.prems(2) unfolding m ft by (intro Suc.IH) (auto simp: L q)
        then show ?thesis
          using full_case [OF ne le True] m unfolding eq L q by simp
      qed
    next
      case no: False
      then show ?thesis
        using Suc.prems(1) ne cross_case [OF ne no, of "Suc n" q rest] unfolding L q by (auto simp: spec_match.simps)
    qed
  qed
qed

subsection \<open>Priority and conservation\<close>

definition flatten_ladder :: "ladder \<Rightarrow> fill list" where
  "flatten_ladder L = concat (map (\<lambda>(p, q). map (\<lambda>(order, r). (order, p, r)) q) L)"

lemma flatten_simps [simp]:
  "flatten_ladder [] = []"
  "flatten_ladder ((p, q) # L) = map (\<lambda>(order, r). (order, p, r)) q @ flatten_ladder L"
  by (simp_all add: flatten_ladder_def)

text \<open>
  The fills are the first orders of the ladder, best price first and oldest first
  at a price, each filled completely except possibly the last.
\<close>

definition takes_in_priority :: "ladder \<Rightarrow> fill list \<Rightarrow> ladder \<Rightarrow> bool" where
  "takes_in_priority L fills L' \<longleftrightarrow>
     flatten_ladder L = fills @ flatten_ladder L'
     \<or> (\<exists>whole maker px qty r rest. fills = whole @ [(maker, px, qty)] \<and> qty < r
          \<and> flatten_ladder L = whole @ (maker, px, r) # rest
          \<and> flatten_ladder L' = (maker, px, r - qty) # rest)"

lemma takes_in_priority_Cons:
  "takes_in_priority L fills L' \<Longrightarrow> flatten_ladder L0 = f # flatten_ladder L \<Longrightarrow> takes_in_priority L0 (f # fills) L'"
  unfolding takes_in_priority_def by (metis append_Cons)

lemma spec_match_priority:
  assumes "spec_match s p n remaining L = (L', fills, remaining', exit)" "\<forall>(px, q)\<in>set L. q \<noteq> []"
  shows "takes_in_priority L fills L'"
  using assms
proof (induction rule: spec_match_induct)
  case (partial n remaining px maker r q L)
  then show ?case
    unfolding takes_in_priority_def by (intro disjI2 exI [of _ "[]"]) auto
next
  case (full n remaining px maker r q L L' fills remaining' exit)
  show ?case
    by (rule takes_in_priority_Cons [OF full(4)]) simp
qed (simp_all add: takes_in_priority_def)

definition fills_total :: "fill list \<Rightarrow> nat" where
  "fills_total fills = sum_list (map (\<lambda>(maker, px, qty). unat qty) fills)"

lemma spec_match_conservation:
  assumes "spec_match s p n remaining L = (L', fills, remaining', exit)" "\<forall>(px, q)\<in>set L. q \<noteq> []"
  shows "fills_total fills + unat remaining' = unat remaining"
  using assms
proof (induction rule: spec_match_induct)
  case (full n remaining px maker r q L L' fills remaining' exit)
  then show ?case
    by (simp add: fills_total_def unat_sub word_le_nat_alt)
qed (simp_all add: fills_total_def)

lemma unat_fills_quantity: "fills_total fills < 2 ^ 64 \<Longrightarrow> unat (fills_quantity fills) = fills_total fills"
  by (induction fills) (auto simp: fills_total_def fills_quantity_def unat_word_ariths)

lemma spec_match_crossing:
  assumes "spec_match s p n remaining L = (L', fills, remaining', exit)" "\<forall>(px, q)\<in>set L. q \<noteq> []"
  shows "\<forall>(maker, px, qty)\<in>set fills. crosses s p px"
  using assms by (induction rule: spec_match_induct) auto

text \<open>Matching stops because the order is filled, nothing crosses, or the reports are full.\<close>

lemma spec_match_stop:
  assumes "spec_match s p n remaining L = (L', fills, remaining', exit)" "\<forall>(px, q)\<in>set L. q \<noteq> []"
  shows "exit = Loop_done \<Longrightarrow> remaining' = 0 \<or> L' = [] \<or> (\<exists>px q L''. L' = (px, q) # L'' \<and> \<not> crosses s p px)"
    and "exit = Report_overflow \<Longrightarrow> remaining' \<noteq> 0 \<and> length fills = n"
    and "length fills \<le> n"
proof -
  have "(exit = Loop_done \<longrightarrow> remaining' = 0 \<or> L' = [] \<or> (\<exists>px q L''. L' = (px, q) # L'' \<and> \<not> crosses s p px))
      \<and> (exit = Report_overflow \<longrightarrow> remaining' \<noteq> 0 \<and> length fills = n) \<and> length fills \<le> n"
    using assms by (induction rule: spec_match_induct) auto
  then show "exit = Loop_done \<Longrightarrow> remaining' = 0 \<or> L' = [] \<or> (\<exists>px q L''. L' = (px, q) # L'' \<and> \<not> crosses s p px)"
    and "exit = Report_overflow \<Longrightarrow> remaining' \<noteq> 0 \<and> length fills = n"
    and "length fills \<le> n" by auto
qed

text \<open>What is left of the ladder is made of the same prices.\<close>

lemma spec_match_prices:
  assumes "spec_match s p n remaining L = (L', fills, remaining', exit)" "\<forall>(px, q)\<in>set L. q \<noteq> []"
  shows "\<exists>k. map fst L' = drop k (map fst L)"
  using assms
proof (induction rule: spec_match_induct)
  case (full n remaining px maker r q L L' fills remaining' exit)
  then show ?case
    by (cases "q = []") (auto simp del: drop_map intro: exI [of _ "Suc k" for k])
qed (auto intro: exI [of _ 0])

subsection \<open>The sides never cross\<close>

definition ladder_sorted :: "side \<Rightarrow> ladder \<Rightarrow> bool" where
  "ladder_sorted s L \<longleftrightarrow> sorted_wrt (is_better_price s) (map fst L)"

definition uncrossed :: "spec_book \<Rightarrow> bool" where
  "uncrossed S \<longleftrightarrow> (\<forall>bid\<in>fst ` set (S Buy). \<forall>ask\<in>fst ` set (S Sell). bid < ask)"

definition spec_ok :: "spec_book \<Rightarrow> bool" where
  "spec_ok S \<longleftrightarrow> (\<forall>s. ladder_sorted s (S s) \<and> (\<forall>(p, q)\<in>set (S s). q \<noteq> []))"

lemma uncrossed_mono:
  "uncrossed S \<Longrightarrow> (\<And>s. fst ` set (S' s) \<subseteq> fst ` set (S s)) \<Longrightarrow> uncrossed S'"
  unfolding uncrossed_def by (meson subsetD)

lemma spec_insert_prices: "fst ` set (spec_insert s p e L) = insert p (fst ` set L)"
  by (induction s p e L rule: spec_insert.induct) auto

lemma not_crossing_all:
  assumes "ladder_sorted (opposite s) L" "L = [] \<or> (\<exists>px q L''. L = (px, q) # L'' \<and> \<not> crosses s p px)"
    and "px \<in> fst ` set L"
  shows "\<not> crosses s p px"
proof -
  obtain px0 q L'' where L: "L = (px0, q) # L''" "\<not> crosses s p px0"
    using assms(2,3) by auto
  have "px = px0 \<or> is_better_price (opposite s) px0 px"
    using assms(1,3) by (auto simp: L ladder_sorted_def)
  then show ?thesis
    using L(2) crosses_better by metis
qed

lemma uncrossed_insert:
  assumes "uncrossed S" "\<And>px. px \<in> fst ` set (S (opposite s)) \<Longrightarrow> \<not> crosses s p px"
  shows "uncrossed (S(s := spec_insert s p e (S s)))"
  unfolding uncrossed_def
proof (intro ballI)
  fix bid ask
  assume "bid \<in> fst ` set ((S(s := spec_insert s p e (S s))) Buy)" "ask \<in> fst ` set ((S(s := spec_insert s p e (S s))) Sell)"
  then show "bid < ask"
    using assms(1) assms(2) [of ask] assms(2) [of bid]
    by (cases s) (auto simp: uncrossed_def spec_insert_prices crosses_def opposite_def not_le)
qed

lemma uncrossed_rest:
  assumes "uncrossed S" "\<And>px. px \<in> fst ` set (S (opposite (so_side order))) \<Longrightarrow> \<not> crosses (so_side order) (so_price_ticks order) px"
  shows "uncrossed (fst (spec_rest c order remaining S))"
  using assms uncrossed_insert [OF assms] by (simp add: spec_rest_def)

theorem spec_submit_uncrossed:
  assumes ok: "spec_ok S" and unc: "uncrossed S"
  shows "uncrossed (fst (spec_submit c order S))"
proof -
  let ?s = "so_side order" and ?p = "so_price_ticks order"
  obtain L' fills remaining exit where out: "spec_outcome c order S = (L', fills, remaining, exit)"
    using prod_cases4 by blast
  let ?S = "S(opposite ?s := L')"
  have ne: "\<forall>(px, q)\<in>set (S (opposite ?s)). q \<noteq> []"
    using ok by (auto simp: spec_ok_def)
  note out' = out [unfolded spec_outcome_def]
  obtain k where k: "map fst L' = drop k (map fst (S (opposite ?s)))"
    using spec_match_prices [OF out' ne] by blast
  then have "set (map fst L') \<subseteq> set (map fst (S (opposite ?s)))"
    by (metis set_drop_subset)
  then have unc': "uncrossed ?S"
    by (intro uncrossed_mono [OF unc]) auto
  have srt: "ladder_sorted (opposite ?s) L'"
    using ok k by (simp add: ladder_sorted_def spec_ok_def sorted_wrt_drop)
  have "uncrossed (fst (spec_finish c order remaining ?S r))" if "exit = Loop_done" for r
  proof (cases "remaining = 0 \<or> so_time_in_force order \<noteq> GTC")
    case True
    then show ?thesis using unc' by (auto simp: spec_finish_def Let_def)
  next
    case False
    let ?order = "order\<lparr>so_quantity_lots := remaining\<rparr>"
    have "L' = [] \<or> (\<exists>px q L''. L' = (px, q) # L'' \<and> \<not> crosses ?s ?p px)"
      using spec_match_stop(1) [OF out' ne that] False by blast
    then have "\<not> crosses ?s ?p px" if "px \<in> fst ` set L'" for px
      using not_crossing_all [OF srt] that by blast
    then have "uncrossed (fst (spec_rest c ?order remaining ?S))"
      using unc' by (intro uncrossed_rest) simp_all
    then show ?thesis
      using False by (auto simp: spec_finish_def Let_def split: prod.splits bool.splits)
  qed
  then show ?thesis
    using out unc unc' by (auto simp: spec_submit_def Let_def split: loop_exit.splits)
qed

lemma spec_remove_prices: "fst ` set (spec_remove oid L) \<subseteq> fst ` set L"
  by (force simp: spec_remove_def)

theorem spec_cancel_uncrossed: "uncrossed S \<Longrightarrow> uncrossed (fst (spec_cancel oid S))"
  using uncrossed_mono [of S "\<lambda>s. spec_remove oid (S s)"] spec_remove_prices
  by (auto simp: spec_cancel_def split: option.splits)

end
