(* ===== verification/BookTraces.thy ===== *)
theory BookTraces
  imports BookRefinement SpecProperties
begin

section \<open>Runs of the matching book\<close>

text \<open>
  Sequences of submits, cancels and clears. Every answer and every state of the
  code's book is the one of the specification. A shallow book needs the sum of
  the submitted quantities to stay below \<open>2 ^ 64\<close>; a deep book needs nothing.
\<close>

subsection \<open>The quantity in a ladder\<close>

definition ladder_lots :: "ladder \<Rightarrow> nat" where
  "ladder_lots L = fills_total (flatten_ladder L)"

definition spec_lots :: "spec_book \<Rightarrow> nat" where
  "spec_lots S = ladder_lots (S Buy) + ladder_lots (S Sell)"

lemma fills_total_simps [simp]:
  "fills_total [] = 0" "fills_total ((m, px, q) # fs) = unat q + fills_total fs"
  "fills_total (fs @ gs) = fills_total fs + fills_total gs"
  by (simp_all add: fills_total_def)

lemma fills_total_entries: "fills_total (map (\<lambda>(order, r). (order, p, r)) q) = sum_list (map (unat \<circ> snd) q)"
  by (simp add: fills_total_def o_def case_prod_beta)

lemma ladder_lots_simps [simp]:
  "ladder_lots [] = 0"
  "ladder_lots ((p, q) # L) = sum_list (map (unat \<circ> snd) q) + ladder_lots L"
  by (simp_all add: ladder_lots_def fills_total_entries)

lemma ladder_lots_no_wrap: "ladder_lots L < 2 ^ 64 \<Longrightarrow> no_wrap L"
  by (induction L) (auto simp: no_wrap_def)

lemma takes_in_priority_lots:
  assumes "takes_in_priority L fills L'"
  shows "ladder_lots L' + fills_total fills = ladder_lots L"
  using assms by (auto simp: takes_in_priority_def ladder_lots_def unat_sub word_less_nat_alt word_le_nat_alt)

lemma spec_insert_lots: "ladder_lots (spec_insert s p (order, r) L) = ladder_lots L + unat r"
  by (induction s p "(order, r)" L rule: spec_insert.induct) auto

lemma spec_remove_lots: "ladder_lots (spec_remove oid L) \<le> ladder_lots L"
proof (induction L)
  case (Cons pq L)
  obtain p q where pq: "pq = (p, q)" by fastforce
  have "sum_list (map (unat \<circ> snd) (filter P q)) \<le> sum_list (map (unat \<circ> snd) q)" for P
    by (induction q) auto
  moreover have "spec_remove oid (pq # L) =
      (if filter (\<lambda>(order, r). so_order_id order \<noteq> oid) q = [] then spec_remove oid L
       else (p, filter (\<lambda>(order, r). so_order_id order \<noteq> oid) q) # spec_remove oid L)"
    by (simp add: spec_remove_def pq)
  ultimately show ?case
    using Cons pq by (auto intro: add_mono)
qed (simp add: spec_remove_def)

lemma spec_lots_upd:
  "spec_lots (S(s := L)) + ladder_lots (S s) = spec_lots S + ladder_lots L"
  by (cases s) (simp_all add: spec_lots_def)

lemma spec_rest_lots: "spec_lots (fst (spec_rest c order remaining S)) \<le> spec_lots S + unat remaining"
  using spec_lots_upd [of S "so_side order" "spec_insert (so_side order) (so_price_ticks order) (order, remaining) (S (so_side order))"]
  by (simp add: spec_rest_def spec_insert_lots)

lemma spec_finish_lots: "spec_lots (fst (spec_finish c order remaining S r)) \<le> spec_lots S + unat remaining"
  using spec_rest_lots [of c "order\<lparr>so_quantity_lots := remaining\<rparr>" remaining S]
  by (auto simp: spec_finish_def Let_def split: prod.splits bool.splits)

lemma spec_submit_lots:
  assumes ok: "spec_ok S"
  shows "spec_lots (fst (spec_submit c order S)) \<le> spec_lots S + unat (so_quantity_lots order)"
proof -
  let ?o = "opposite (so_side order)"
  obtain L' fills remaining exit where out: "spec_outcome c order S = (L', fills, remaining, exit)"
    using prod_cases4 by blast
  have ne: "\<forall>(px, q)\<in>set (S ?o). q \<noteq> []"
    using ok by (auto simp: spec_ok_def)
  note out' = out [unfolded spec_outcome_def]
  have "ladder_lots L' \<le> ladder_lots (S ?o)"
    using takes_in_priority_lots [OF spec_match_priority [OF out' ne]] by simp
  then have "spec_lots (S(?o := L')) \<le> spec_lots S"
    using spec_lots_upd [of S ?o L'] by simp
  moreover have "unat remaining \<le> unat (so_quantity_lots order)"
    using spec_match_conservation [OF out' ne] by simp
  ultimately show ?thesis
    using out spec_finish_lots [of c order remaining "S(?o := L')"]
    by (auto simp: spec_submit_def Let_def split: loop_exit.splits intro: order.trans [OF _ add_mono] le_SucI trans_le_add1)
qed

lemma spec_cancel_lots: "spec_lots (fst (spec_cancel oid S)) \<le> spec_lots S"
  using spec_remove_lots by (auto simp: spec_cancel_def spec_lots_def split: option.splits intro: add_mono)

lemma ladder_spec_ok:
  assumes inv: "book_inv c b"
  shows "spec_ok (ladder b)"
  unfolding spec_ok_def
proof (intro allI conjI)
  fix s
  have "sorted_wrt (\<lambda>i j. is_better_price s (lv_price (bk_levels b ! i)) (lv_price (bk_levels b ! j))) (ranked (bk_levels b) s)"
    using ranked_sorted [OF book_invD(2) [OF inv]] by (simp add: price_sorted_def)
  then show "ladder_sorted s (ladder b s)"
    by (simp add: ladder_sorted_def ladder_def sorted_wrt_map)
  show "\<forall>(p, q)\<in>set (ladder b s). q \<noteq> []"
    using ladder_rung_cases(4) [OF inv, of _ s] by (auto simp: ladder_def rung_def)
qed

subsection \<open>Runs\<close>

datatype book_op = Submit_op sim_order | Cancel_op order_id | Clear_op

datatype book_answer = Match_answer match_result | Cancel_answer cancel_result | Clear_answer

fun run_book :: "book_config \<Rightarrow> book_op list \<Rightarrow> matching_book \<Rightarrow> (matching_book \<times> book_answer list) option" where
  "run_book c [] b = Some (b, [])"
| "run_book c (Submit_op order # ops) b =
     Option.bind (submit_limit c order b) (\<lambda>(b', r).
       map_option (\<lambda>(b'', answers). (b'', Match_answer r # answers)) (run_book c ops b'))"
| "run_book c (Cancel_op oid # ops) b =
     map_option (\<lambda>(b'', answers). (b'', Cancel_answer (snd (cancel c oid b)) # answers)) (run_book c ops (fst (cancel c oid b)))"
| "run_book c (Clear_op # ops) b =
     map_option (\<lambda>(b'', answers). (b'', Clear_answer # answers)) (run_book c ops (clear_book c b))"

fun run_spec :: "book_config \<Rightarrow> book_op list \<Rightarrow> spec_book \<Rightarrow> spec_book \<times> book_answer list" where
  "run_spec c [] S = (S, [])"
| "run_spec c (Submit_op order # ops) S =
     (let (S'', answers) = run_spec c ops (fst (spec_submit c order S))
      in (S'', Match_answer (snd (spec_submit c order S)) # answers))"
| "run_spec c (Cancel_op oid # ops) S =
     (let (S'', answers) = run_spec c ops (fst (spec_cancel oid S))
      in (S'', Cancel_answer (snd (spec_cancel oid S)) # answers))"
| "run_spec c (Clear_op # ops) S = (let (S'', answers) = run_spec c ops (\<lambda>_. []) in (S'', Clear_answer # answers))"

fun submitted_lots :: "book_op list \<Rightarrow> nat" where
  "submitted_lots [] = 0"
| "submitted_lots (Submit_op order # ops) = unat (so_quantity_lots order) + submitted_lots ops"
| "submitted_lots (op # ops) = submitted_lots ops"

definition run_bounded :: "book_config \<Rightarrow> book_op list \<Rightarrow> nat \<Rightarrow> bool" where
  "run_bounded c ops present \<longleftrightarrow> uses_deep_level_index c \<or> present + submitted_lots ops < 2 ^ 64"

lemma run_bounded_totals:
  "run_bounded c ops (spec_lots (ladder b)) \<Longrightarrow> totals_ok c b s"
  using ladder_lots_no_wrap [of "ladder b s"] by (cases s) (auto simp: run_bounded_def totals_ok_def spec_lots_def)

lemma run_book_refines:
  assumes "book_inv c b" "valid_config c" "run_bounded c ops (spec_lots (ladder b))" "uncrossed (ladder b)"
  shows "\<exists>b'. run_book c ops b = Some (b', snd (run_spec c ops (ladder b)))
    \<and> book_inv c b' \<and> ladder b' = fst (run_spec c ops (ladder b)) \<and> uncrossed (ladder b')"
  using assms(1,3,4)
proof (induction ops arbitrary: b)
  case (Cons op ops)
  show ?case
  proof (cases op)
    case (Submit_op order)
    obtain b1 where b1: "submit_limit c order b = Some (b1, snd (spec_submit c order (ladder b)))"
        "book_inv c b1" "ladder b1 = fst (spec_submit c order (ladder b))"
      using submit_refines [OF Cons.prems(1) assms(2) run_bounded_totals [OF Cons.prems(2)]] by blast
    have "run_bounded c ops (spec_lots (ladder b1))"
      using Cons.prems(2) spec_submit_lots [OF ladder_spec_ok [OF Cons.prems(1)], of c order] Submit_op b1(3)
      by (auto simp: run_bounded_def)
    moreover have "uncrossed (ladder b1)"
      unfolding b1(3) by (rule spec_submit_uncrossed [OF ladder_spec_ok [OF Cons.prems(1)] Cons.prems(3)])
    ultimately show ?thesis
      using Cons.IH [OF b1(2)] Submit_op b1(1) unfolding b1(3) by (auto simp: Let_def split: prod.splits)
  next
    case (Cancel_op oid)
    note cr = cancel_refines [OF Cons.prems(1), of oid]
    have lad: "ladder (fst (cancel c oid b)) = fst (spec_cancel oid (ladder b))"
        "snd (cancel c oid b) = snd (spec_cancel oid (ladder b))"
      using cr(2) by simp_all
    have "run_bounded c ops (spec_lots (ladder (fst (cancel c oid b))))"
      using Cons.prems(2) spec_cancel_lots [of oid "ladder b"] Cancel_op unfolding lad(1) by (auto simp: run_bounded_def)
    moreover have "uncrossed (ladder (fst (cancel c oid b)))"
      unfolding lad(1) by (rule spec_cancel_uncrossed [OF Cons.prems(3)])
    ultimately show ?thesis
      using Cons.IH [OF cr(1)] Cancel_op lad by (auto simp: Let_def split: prod.splits)
  next
    case Clear_op
    have new: "ladder (new_book c) = (\<lambda>_. [])"
      by (rule ext) (simp add: new_book_inv(2))
    have "run_bounded c ops (spec_lots (ladder (new_book c)))"
      using Cons.prems(2) Clear_op by (auto simp: run_bounded_def new spec_lots_def)
    moreover have "uncrossed (ladder (new_book c))"
      by (simp add: new uncrossed_def)
    ultimately show ?thesis
      using Cons.IH [OF new_book_inv(1)] Clear_op new by (auto simp: clear_book_eq Let_def split: prod.splits)
  qed
qed simp

subsection \<open>Reading the book\<close>

lemma shallow_levels_ranked:
  assumes inv: "book_inv c b" and nw: "no_wrap (ladder b s)"
    and "ranked (bk_levels b) s = pre @ suf" "length visited = length (bk_levels b)"
    and "\<And>i. i < length visited \<Longrightarrow> visited ! i \<longleftrightarrow> i \<in> set pre"
  shows "shallow_levels b s visited = suf"
  using assms(3-)
proof (induction suf arbitrary: pre visited)
  case Nil
  have "best_unvisited_level b s visited = top (filter (\<lambda>i. \<not> visited ! i) (ranked (bk_levels b) s))"
    unfolding best_unvisited_level_def Let_def by (rule scan_ranked [OF inv nw]) auto
  also have "filter (\<lambda>i. \<not> visited ! i) (ranked (bk_levels b) s) = []"
    using Nil by (auto simp: filter_empty_conv ranked_mem dest: arg_cong [of _ _ set])
  finally show ?case
    by (subst shallow_levels.simps) simp
next
  case (Cons i suf)
  have d: "distinct (pre @ i # suf)"
    using Cons.prems(1) ranked_distinct [of "bk_levels b" s] by simp
  have mem: "j < length visited" if "j \<in> set (pre @ i # suf)" for j
    using that Cons.prems(1,2) ranked_mem [of j "bk_levels b" s] by simp
  have "best_unvisited_level b s visited = top (filter (\<lambda>i. \<not> visited ! i) (ranked (bk_levels b) s))"
    unfolding best_unvisited_level_def Let_def by (rule scan_ranked [OF inv nw]) auto
  also have "filter (\<lambda>i. \<not> visited ! i) (ranked (bk_levels b) s) = i # suf"
    using Cons.prems(1,3) mem d by (auto simp: filter_empty_conv filter_id_conv)
  finally have best: "best_unvisited_level b s visited = Some i" by simp
  have "shallow_levels b s (visited[i := True]) = suf"
    using Cons.prems mem by (intro Cons.IH [of "pre @ [i]"]) (auto simp: nth_upd)
  then show ?case
    using best Cons.prems(2) by (subst shallow_levels.simps) simp
qed

lemma level_sequence_ranked:
  assumes inv: "book_inv c b" and tot: "totals_ok c b s"
  shows "level_sequence c b s = ranked (bk_levels b) s"
proof (cases "uses_deep_level_index c")
  case True
  then show ?thesis
    using ranked_deep [OF book_invD(2) [OF inv]] by (simp add: level_sequence_def)
next
  case False
  then show ?thesis
    using shallow_levels_ranked [OF inv, of s "[]"] tot by (simp add: level_sequence_def totals_ok_def)
qed

definition depth_of :: "ladder \<Rightarrow> depth_level list" where
  "depth_of L = map (\<lambda>(p, q). \<lparr>dl_price_ticks = p, dl_quantity_lots = sum_list (map snd q)\<rparr>) L"

lemma copy_side_depth_ladder:
  assumes inv: "book_inv c b" and tot: "totals_ok c b s"
  shows "copy_side_depth c depth b s = take depth (depth_of (ladder b s))"
proof -
  have "\<lparr>dl_price_ticks = lv_price (bk_levels b ! i), dl_quantity_lots = lv_total (bk_levels b ! i)\<rparr>
      = (case rung b i of (p, q) \<Rightarrow> \<lparr>dl_price_ticks = p, dl_quantity_lots = sum_list (map snd q)\<rparr>)"
    if "i \<in> set (ranked (bk_levels b) s)" for i
    using ladder_rung_cases(5) [OF inv that]
    by (simp add: rung_def level_ok_def qty_sum_def book_entry_def o_def)
  then show ?thesis
    unfolding copy_side_depth_def level_sequence_ranked [OF inv tot] depth_of_def ladder_def take_map map_map o_def
    by (intro map_cong refl) (auto dest: in_set_takeD)
qed

end
