(* ===== verification/BookProperties.thy ===== *)
theory BookProperties
  imports BookTraces
begin

section \<open>Properties of the matching book\<close>

text \<open>
  The properties of \<open>matching_book.hpp\<close>, stated over the code's model; each rests
  on the refinement to the price-time priority book. The witnesses use a shallow
  book with three bids and an ask, reached by submitting them.
\<close>

subsection \<open>One submit, read off the specification\<close>

lemma opposite_neq: "opposite s \<noteq> s" "s \<noteq> opposite s"
  by (cases s; simp add: opposite_def)+

lemma spec_finish_other_side:
  "fst (spec_finish c order remaining S r) (opposite (so_side order)) = S (opposite (so_side order))"
  by (auto simp: spec_finish_def spec_rest_def Let_def opposite_neq split: prod.splits bool.splits)

lemma spec_finish_fields:
  "mr_executions (snd (spec_finish c order remaining S r)) = mr_executions r"
  "mr_filled_quantity_lots (snd (spec_finish c order remaining S r)) = mr_filled_quantity_lots r"
  "mr_remaining_quantity_lots (snd (spec_finish c order remaining S r)) = remaining"
  by (auto simp: spec_finish_def Let_def split: prod.splits bool.splits)

lemma report_overflow_fields:
  "mr_executions (report_overflow r remaining) = mr_executions r"
  "mr_filled_quantity_lots (report_overflow r remaining) = mr_filled_quantity_lots r"
  "mr_remaining_quantity_lots (report_overflow r remaining) = remaining"
  by (simp_all add: report_overflow_def Let_def)

definition explains :: "book_config \<Rightarrow> sim_order \<Rightarrow> spec_book \<Rightarrow> spec_book \<Rightarrow> match_result \<Rightarrow> fill list \<Rightarrow> bool" where
  "explains c order S S' r fills \<longleftrightarrow>
     mr_executions r = fill_executions order fills
     \<and> takes_in_priority (S (opposite (so_side order))) fills (S' (opposite (so_side order)))
     \<and> (\<forall>(maker, px, qty)\<in>set fills. crosses (so_side order) (so_price_ticks order) px)
     \<and> unat (mr_filled_quantity_lots r) = fills_total fills
     \<and> unat (mr_filled_quantity_lots r) + unat (mr_remaining_quantity_lots r) = unat (so_quantity_lots order)
     \<and> 2 * length fills \<le> max_execution_reports c"

lemma explains_unchanged: "explains c order S S (fresh_result order) []"
  by (simp add: explains_def fresh_result_def default_match_result_def fill_executions_def takes_in_priority_def)

lemma spec_submit_explained:
  assumes ok: "spec_ok S"
  shows "\<exists>fills. explains c order S (fst (spec_submit c order S)) (snd (spec_submit c order S)) fills"
proof -
  let ?o = "opposite (so_side order)"
  obtain L' fills remaining exit where out: "spec_outcome c order S = (L', fills, remaining, exit)"
    using prod_cases4 by blast
  have ne: "\<forall>(px, q)\<in>set (S ?o). q \<noteq> []"
    using ok by (auto simp: spec_ok_def)
  note out' = out [unfolded spec_outcome_def]
  have cons: "fills_total fills + unat remaining = unat (so_quantity_lots order)"
    by (rule spec_match_conservation [OF out' ne])
  then have "fills_total fills < 2 ^ 64"
    using unsigned_less [of "so_quantity_lots order", where ?'a = nat] by simp
  then have filled: "unat (fills_quantity fills) = fills_total fills"
    by (rule unat_fills_quantity)
  have "2 * length fills \<le> max_execution_reports c"
    using spec_match_stop(3) [OF out' ne] by simp
  then have expl: "explains c order S S' r fills"
    if "mr_executions r = fill_executions order fills" "mr_filled_quantity_lots r = fills_quantity fills"
      "mr_remaining_quantity_lots r = remaining" "S' ?o = L'" for S' r
    using that cons filled spec_match_priority [OF out' ne] spec_match_crossing [OF out' ne]
    by (simp add: explains_def)
  have wf: "mr_executions (with_fills order fills (fresh_result order)) = fill_executions order fills"
      "mr_filled_quantity_lots (with_fills order fills (fresh_result order)) = fills_quantity fills"
    by (simp_all add: with_fills_def fresh_result_def default_match_result_def)
  show ?thesis
  proof (cases "spec_admits order S \<and> \<not> (so_time_in_force order = FOK \<and> remaining \<noteq> 0)")
    case False
    then have "spec_submit c order S = (S, fresh_result order)"
      using out by (auto simp: spec_submit_def)
    then show ?thesis using explains_unchanged by auto
  next
    case True
    then have "spec_submit c order S = (let S' = S(?o := L'); r = with_fills order fills (fresh_result order)
             in case exit of Report_overflow \<Rightarrow> (S', report_overflow r remaining)
                | Loop_done \<Rightarrow> spec_finish c order remaining S' r)"
      using out by (auto simp: spec_submit_def)
    then show ?thesis
      by (intro exI [of _ fills] expl; cases exit)
        (simp_all add: Let_def wf spec_finish_fields spec_finish_other_side report_overflow_fields)
  qed
qed

lemma spec_submit_immediate:
  assumes ok: "spec_ok S"
  shows "so_time_in_force order = FOK \<Longrightarrow>
     spec_submit c order S = (S, fresh_result order)
     \<or> fst (spec_submit c order S) (so_side order) = S (so_side order)
       \<and> mr_status (snd (spec_submit c order S)) = Filled
       \<and> mr_remaining_quantity_lots (snd (spec_submit c order S)) = 0"
  "so_time_in_force order = IOC \<Longrightarrow>
     fst (spec_submit c order S) (so_side order) = S (so_side order)
     \<and> \<not> mr_rested (snd (spec_submit c order S))"
proof -
  obtain L' fills remaining exit where out: "spec_outcome c order S = (L', fills, remaining, exit)"
    using prod_cases4 by blast
  have ne: "\<forall>(px, q)\<in>set (S (opposite (so_side order))). q \<noteq> []"
    using ok by (auto simp: spec_ok_def)
  have overflow: "exit = Report_overflow \<Longrightarrow> remaining \<noteq> 0"
    using spec_match_stop(2) [OF out [unfolded spec_outcome_def] ne] by simp
  show "spec_submit c order S = (S, fresh_result order)
     \<or> fst (spec_submit c order S) (so_side order) = S (so_side order)
       \<and> mr_status (snd (spec_submit c order S)) = Filled
       \<and> mr_remaining_quantity_lots (snd (spec_submit c order S)) = 0" if "so_time_in_force order = FOK"
    using that out overflow
    by (auto simp: spec_submit_def spec_finish_def Let_def opposite_neq split: loop_exit.splits)
  show "fst (spec_submit c order S) (so_side order) = S (so_side order)
     \<and> \<not> mr_rested (snd (spec_submit c order S))" if "so_time_in_force order = IOC"
    using that out
    by (auto simp: spec_submit_def spec_finish_def report_overflow_def Let_def opposite_neq with_fills_def fresh_result_def
        default_match_result_def split: loop_exit.splits)
qed

lemma spec_cancel_cases:
  "fst (spec_cancel oid S) = (\<lambda>s. spec_remove oid (S s)) \<or> \<not> cr_canceled (snd (spec_cancel oid S))"
  by (auto simp: spec_cancel_def default_cancel_result_def split: option.splits prod.splits)

lemma better_sorted_distinct: "sorted_wrt (is_better_price s) ps \<Longrightarrow> distinct ps"
  by (induction ps) auto

subsection \<open>A concrete book\<close>

definition lim :: "order_id \<Rightarrow> side \<Rightarrow> int \<Rightarrow> u64 \<Rightarrow> time_in_force \<Rightarrow> sim_order" where
  "lim oid s p q tif = \<lparr>so_order_id = oid, so_agent_id = 7, so_side = s, so_price_ticks = p,
     so_quantity_lots = q, so_timestamp_ns = 0, so_time_in_force = tif\<rparr>"

definition small_book :: book_config where
  "small_book = default_config 5 3 8"

definition opening_ops :: "book_op list" where
  "opening_ops = [Submit_op (lim 1 Buy 100 5 GTC), Submit_op (lim 2 Buy 101 3 GTC),
     Submit_op (lim 3 Buy 100 4 GTC), Submit_op (lim 4 Sell 103 6 GTC)]"

definition opened_book :: matching_book where
  "opened_book = fst (the (run_book small_book opening_ops (new_book small_book)))"

lemma opened_spec_bids:
  "fst (run_spec small_book opening_ops (\<lambda>_. [])) Buy =
     [(101, [(lim 2 Buy 101 3 GTC, 3)]), (100, [(lim 1 Buy 100 5 GTC, 5), (lim 3 Buy 100 4 GTC, 4)])]"
  by code_simp

lemma opened_spec_asks:
  "fst (run_spec small_book opening_ops (\<lambda>_. [])) Sell = [(103, [(lim 4 Sell 103 6 GTC, 6)])]"
  by code_simp

lemma opened_book_inv:
  shows "book_inv small_book opened_book" "valid_config small_book"
    and "ladder opened_book Buy = [(101, [(lim 2 Buy 101 3 GTC, 3)]), (100, [(lim 1 Buy 100 5 GTC, 5), (lim 3 Buy 100 4 GTC, 4)])]"
    and "ladder opened_book Sell = [(103, [(lim 4 Sell 103 6 GTC, 6)])]"
    and "totals_ok small_book opened_book s"
    and "uncrossed (ladder opened_book)"
proof -
  have new: "ladder (new_book small_book) = (\<lambda>_. [])"
    by (rule ext) (simp add: new_book_inv(2))
  show cfg: "valid_config small_book" by (simp add: valid_config_def small_book_def default_config_def)
  have bounded: "submitted_lots opening_ops < 2 ^ 64" by (simp add: opening_ops_def lim_def)
  obtain b' where "run_book small_book opening_ops (new_book small_book) = Some (b', snd (run_spec small_book opening_ops (\<lambda>_. [])))"
      "book_inv small_book b'" "uncrossed (ladder b')" "ladder b' = fst (run_spec small_book opening_ops (\<lambda>_. []))"
    using run_book_refines [OF new_book_inv(1) cfg, of opening_ops] bounded
    by (auto simp: run_bounded_def new spec_lots_def uncrossed_def)
  then show "book_inv small_book opened_book" "uncrossed (ladder opened_book)"
    and lad: "ladder opened_book Buy = [(101, [(lim 2 Buy 101 3 GTC, 3)]), (100, [(lim 1 Buy 100 5 GTC, 5), (lim 3 Buy 100 4 GTC, 4)])]"
      "ladder opened_book Sell = [(103, [(lim 4 Sell 103 6 GTC, 6)])]"
    by (simp_all add: opened_book_def opened_spec_bids opened_spec_asks)
  show "totals_ok small_book opened_book s"
    by (cases s) (simp_all add: totals_ok_def lad no_wrap_def)
qed

subsection \<open>The properties\<close>

text \<open>C1: Every run of submits, cancels and clears on a fresh matching book
  gives answer by answer what the price-time priority specification gives, always
  returns, and ends in a well-formed book whose ladders are the specification's.\<close>
theorem book_runs_refine_specification:
  assumes "valid_config c" and "uses_deep_level_index c \<or> submitted_lots ops < 2 ^ 64"
  shows "\<exists>b'. run_book c ops (new_book c) = Some (b', snd (run_spec c ops (\<lambda>_. [])))
    \<and> book_inv c b' \<and> ladder b' = fst (run_spec c ops (\<lambda>_. []))"
proof -
  have new: "ladder (new_book c) = (\<lambda>_. [])"
    by (rule ext) (simp add: new_book_inv(2))
  then have "run_bounded c ops (spec_lots (ladder (new_book c)))" "uncrossed (ladder (new_book c))"
    using assms(2) by (auto simp: run_bounded_def spec_lots_def uncrossed_def)
  then show ?thesis
    using run_book_refines [OF new_book_inv(1) assms(1)] unfolding new by blast
qed

theorem book_runs_refine_specification_witness:
  "\<exists>b'. run_book small_book opening_ops (new_book small_book)
      = Some (b', snd (run_spec small_book opening_ops (\<lambda>_. []))) \<and> book_inv small_book b'
    \<and> ladder b' Sell = [(103, [(lim 4 Sell 103 6 GTC, 6)])]"
proof -
  have "submitted_lots opening_ops < 2 ^ 64" by (simp add: opening_ops_def lim_def)
  then obtain b' where "run_book small_book opening_ops (new_book small_book)
      = Some (b', snd (run_spec small_book opening_ops (\<lambda>_. [])))" "book_inv small_book b'"
      "ladder b' = fst (run_spec small_book opening_ops (\<lambda>_. []))"
    using book_runs_refine_specification [of small_book opening_ops] opened_book_inv(2) by blast
  then show ?thesis by (simp add: opened_spec_asks)
qed

text \<open>C2: A submitted order trades with the opposite side in price-time priority:
  its executions are, in order, pairs of reports for the first orders of the
  opposite ladder at their own prices, all of them crossing its limit, each filled
  completely except possibly the last; filled plus remaining is the quantity, and
  the reports fit their array.\<close>
theorem submit_limit_price_time_priority:
  assumes "book_inv c b" "valid_config c" "totals_ok c b (opposite (so_side order))"
  shows "\<exists>b' r fills. submit_limit c order b = Some (b', r)
    \<and> mr_executions r = fill_executions order fills
    \<and> takes_in_priority (ladder b (opposite (so_side order))) fills (ladder b' (opposite (so_side order)))
    \<and> (\<forall>(maker, px, qty)\<in>set fills. crosses (so_side order) (so_price_ticks order) px)
    \<and> unat (mr_filled_quantity_lots r) = fills_total fills
    \<and> unat (mr_filled_quantity_lots r) + unat (mr_remaining_quantity_lots r) = unat (so_quantity_lots order)
    \<and> length (mr_executions r) \<le> max_execution_reports c"
proof -
  obtain b' where b': "submit_limit c order b = Some (b', snd (spec_submit c order (ladder b)))"
      "ladder b' = fst (spec_submit c order (ladder b))"
    using submit_refines [OF assms] by blast
  obtain fills where "explains c order (ladder b) (ladder b') (snd (spec_submit c order (ladder b))) fills"
    using spec_submit_explained [OF ladder_spec_ok [OF assms(1)]] unfolding b'(2) by blast
  moreover have "length (fill_executions order fills) = 2 * length fills"
    by (induction fills) (auto simp: fill_executions_def)
  ultimately show ?thesis
    using b'(1) unfolding explains_def by (intro exI [of _ b'] exI [of _ "snd (spec_submit c order (ladder b))"] exI [of _ fills]) simp
qed

theorem submit_limit_price_time_priority_witness:
  "\<exists>b' r fills. submit_limit small_book (lim 9 Sell 100 6 IOC) opened_book = Some (b', r)
    \<and> takes_in_priority (ladder opened_book Buy) fills (ladder b' Buy)
    \<and> mr_executions r = fill_executions (lim 9 Sell 100 6 IOC) fills
    \<and> unat (mr_filled_quantity_lots r) + unat (mr_remaining_quantity_lots r) = 6"
proof -
  have lim: "so_side (lim 9 Sell 100 6 IOC) = Sell" "unat (so_quantity_lots (lim 9 Sell 100 6 IOC)) = 6"
    by (simp_all add: lim_def)
  have opp: "opposite Sell = Buy" by (simp add: opposite_def)
  show ?thesis
    using submit_limit_price_time_priority [OF opened_book_inv(1,2) opened_book_inv(5), of "lim 9 Sell 100 6 IOC"]
    unfolding lim opp by blast
qed

text \<open>C3: No run ever leaves the book crossed: every resting bid is priced below
  every resting ask, and each side lists its prices strictly best first.\<close>
theorem book_never_crossed:
  assumes "valid_config c" and "uses_deep_level_index c \<or> submitted_lots ops < 2 ^ 64"
    and "run_book c ops (new_book c) = Some (b, answers)"
  shows "uncrossed (ladder b) \<and> sorted_wrt (is_better_price s) (map fst (ladder b s))"
proof -
  have new: "ladder (new_book c) = (\<lambda>_. [])"
    by (rule ext) (simp add: new_book_inv(2))
  then have "run_bounded c ops (spec_lots (ladder (new_book c)))" "uncrossed (ladder (new_book c))"
    using assms(2) by (auto simp: run_bounded_def spec_lots_def uncrossed_def)
  then have "book_inv c b \<and> uncrossed (ladder b)"
    using run_book_refines [OF new_book_inv(1) assms(1), of ops] assms(3) by fastforce
  then show ?thesis
    using ladder_spec_ok [of c b] by (auto simp: spec_ok_def ladder_sorted_def)
qed

theorem book_never_crossed_witness:
  "uncrossed (ladder opened_book) \<and> sorted_wrt (is_better_price Buy) (map fst (ladder opened_book Buy))"
proof -
  have small: "submitted_lots opening_ops < 2 ^ 64" by (simp add: opening_ops_def lim_def)
  then obtain b' answers where run: "run_book small_book opening_ops (new_book small_book) = Some (b', answers)"
    using run_book_refines [OF new_book_inv(1) opened_book_inv(2), of opening_ops]
    by (auto simp: run_bounded_def new_book_inv(2) spec_lots_def uncrossed_def)
  then have "b' = opened_book" by (simp add: opened_book_def)
  then show ?thesis
    using book_never_crossed [OF opened_book_inv(2) _ run] small by blast
qed

text \<open>C4: Time in force. A fill-or-kill order is either filled completely, leaving
  nothing of itself in the book, or the book and every report stay as they were;
  an immediate-or-cancel order never rests.\<close>
theorem submit_limit_time_in_force:
  assumes "book_inv c b" "valid_config c" "totals_ok c b (opposite (so_side order))"
    and "submit_limit c order b = Some (b', r)"
  shows "(so_time_in_force order = FOK \<longrightarrow>
      ladder b' = ladder b \<and> r = fresh_result order
      \<or> ladder b' (so_side order) = ladder b (so_side order) \<and> mr_status r = Filled
        \<and> mr_filled_quantity_lots r = so_quantity_lots order \<and> mr_remaining_quantity_lots r = 0)
    \<and> (so_time_in_force order = IOC \<longrightarrow>
      ladder b' (so_side order) = ladder b (so_side order) \<and> \<not> mr_rested r)"
proof (intro conjI)
  note ok = ladder_spec_ok [OF assms(1)]
  have r: "r = snd (spec_submit c order (ladder b))" "ladder b' = fst (spec_submit c order (ladder b))"
    using submit_refines [OF assms(1-3)] assms(4) by auto
  obtain fills where "explains c order (ladder b) (ladder b') r fills"
    using spec_submit_explained [OF ok] unfolding r by blast
  then have "mr_remaining_quantity_lots r = 0 \<Longrightarrow> mr_filled_quantity_lots r = so_quantity_lots order"
    by (auto simp: explains_def word_unat_eq_iff)
  then show "so_time_in_force order = FOK \<longrightarrow>
      ladder b' = ladder b \<and> r = fresh_result order
      \<or> ladder b' (so_side order) = ladder b (so_side order) \<and> mr_status r = Filled
        \<and> mr_filled_quantity_lots r = so_quantity_lots order \<and> mr_remaining_quantity_lots r = 0"
    using spec_submit_immediate(1) [OF ok, of order c] unfolding r by auto
  show "so_time_in_force order = IOC \<longrightarrow>
      ladder b' (so_side order) = ladder b (so_side order) \<and> \<not> mr_rested r"
    using spec_submit_immediate(2) [OF ok, of order c] unfolding r by auto
qed

theorem submit_limit_time_in_force_witness:
  "\<exists>b' r. submit_limit small_book (lim 9 Sell 100 13 FOK) opened_book = Some (b', r)
     \<and> (ladder b' = ladder opened_book \<and> r = fresh_result (lim 9 Sell 100 13 FOK)
      \<or> ladder b' Sell = ladder opened_book Sell \<and> mr_status r = Filled)"
proof -
  obtain b' r where run: "submit_limit small_book (lim 9 Sell 100 13 FOK) opened_book = Some (b', r)"
    using submit_refines [OF opened_book_inv(1,2) opened_book_inv(5)] by blast
  have lim: "so_side (lim 9 Sell 100 13 FOK) = Sell" "so_time_in_force (lim 9 Sell 100 13 FOK) = FOK"
    by (simp_all add: lim_def)
  show ?thesis
    using submit_limit_time_in_force [OF opened_book_inv(1,2) opened_book_inv(5) run] run unfolding lim by auto
qed

text \<open>An active slot is on the ladder of its order's side, at its price.\<close>

lemma active_on_ladder:
  assumes inv: "book_inv c b" and x: "x < length (bk_orders b)" "sl_active (bk_orders b ! x)"
  shows "\<exists>q. (so_price_ticks (sl_order (bk_orders b ! x)), q) \<in> set (ladder b (so_side (sl_order (bk_orders b ! x))))
    \<and> (sl_order (bk_orders b ! x), sl_remaining (bk_orders b ! x)) \<in> set q"
proof -
  obtain li s where li: "li \<in> set (ranked (bk_levels b) s)" "x \<in> set (level_queue b li)"
    using active_in_ladder [OF inv x] .
  have "member_ok (bk_levels b ! li) (bk_orders b ! x)"
    using queues_mem [OF book_invD(3) [OF inv] li(2)] by blast
  moreover have "lv_side (bk_levels b ! li) = s" using ladder_rung_cases [OF inv li(1)] by blast
  ultimately have "(so_price_ticks (sl_order (bk_orders b ! x)), map (book_entry (bk_orders b)) (level_queue b li))
      \<in> set (ladder b (so_side (sl_order (bk_orders b ! x))))"
    using li(1) by (auto simp: ladder_def rung_def member_ok_def image_iff)
  then show ?thesis using li(2) by (intro exI) (auto simp: book_entry_def image_iff)
qed

text \<open>C5: Cancelling takes exactly the named order out of the book. An unknown id
  changes nothing and is rejected; a known one rests, on the side and at the price of its order, with
  its open quantity, and the answer is that side, price and quantity, the agent of the
  order and the status \<open>Canceled\<close>; every other order keeps its place, and the book stays
  well-formed.\<close>
theorem cancel_removes_exactly:
  assumes "book_inv c b"
  shows "book_inv c (fst (cancel c oid b))
    \<and> (find_slot b oid = None \<longrightarrow> cancel c oid b = (b, default_cancel_result\<lparr>cr_order_id := oid\<rparr>))
    \<and> (find_slot b oid \<noteq> None \<longrightarrow>
       (\<forall>s. ladder (fst (cancel c oid b)) s = spec_remove oid (ladder b s))
       \<and> find_slot (fst (cancel c oid b)) oid = None
       \<and> (\<exists>order r q. so_order_id order = oid \<and> remaining_quantity b oid = Some r
           \<and> (so_price_ticks order, q) \<in> set (ladder b (so_side order)) \<and> (order, r) \<in> set q
           \<and> snd (cancel c oid b) = \<lparr>cr_canceled = True, cr_order_id = oid, cr_agent_id = so_agent_id order,
               cr_side = so_side order, cr_price_ticks = so_price_ticks order,
               cr_canceled_quantity_lots = r, cr_status = Canceled\<rparr>))"
proof (intro conjI impI)
  note cr = cancel_refines [OF assms, of oid]
  show "book_inv c (fst (cancel c oid b))" by (rule cr(1))
  show "find_slot b oid = None \<Longrightarrow> cancel c oid b = (b, default_cancel_result\<lparr>cr_order_id := oid\<rparr>)"
    by (simp add: cancel_def Let_def)
  have gone: "oid \<notin> ladder_ids (spec_remove oid L)" for L
    by (auto simp: ladder_ids_def spec_remove_def)
  assume "find_slot b oid \<noteq> None"
  then obtain x where x: "find_slot b oid = Some x" by blast
  then have "cr_canceled (snd (cancel c oid b))"
    by (simp add: cancel_def Let_def)
  then have lad: "ladder (fst (cancel c oid b)) = (\<lambda>s. spec_remove oid (ladder b s))"
    using cr(2) spec_cancel_cases [of oid "ladder b"] by simp
  then show "\<forall>s. ladder (fst (cancel c oid b)) s = spec_remove oid (ladder b s)" by simp
  show "find_slot (fst (cancel c oid b)) oid = None"
    using find_slot_ladder [OF cr(1), of oid] gone lad by auto
  have act: "x < length (bk_orders b)" "sl_active (bk_orders b ! x)" "so_order_id (sl_order (bk_orders b ! x)) = oid"
    using find_slot_correct [OF book_invD(1) [OF assms]] x by auto
  let ?order = "sl_order (bk_orders b ! x)" and ?r = "sl_remaining (bk_orders b ! x)"
  obtain q where "(so_price_ticks ?order, q) \<in> set (ladder b (so_side ?order))" "(?order, ?r) \<in> set q"
    using active_on_ladder [OF assms act(1,2)] by blast
  then show "\<exists>order r q. so_order_id order = oid \<and> remaining_quantity b oid = Some r
       \<and> (so_price_ticks order, q) \<in> set (ladder b (so_side order)) \<and> (order, r) \<in> set q
       \<and> snd (cancel c oid b) = \<lparr>cr_canceled = True, cr_order_id = oid, cr_agent_id = so_agent_id order,
           cr_side = so_side order, cr_price_ticks = so_price_ticks order,
           cr_canceled_quantity_lots = r, cr_status = Canceled\<rparr>"
    using x act(3) by (intro exI [of _ ?order] exI [of _ ?r] exI [of _ q])
      (simp add: cancel_def remaining_quantity_def Let_def default_cancel_result_def)
qed

theorem cancel_removes_exactly_witness:
  "ladder (fst (cancel small_book 1 opened_book)) Buy = [(101, [(lim 2 Buy 101 3 GTC, 3)]), (100, [(lim 3 Buy 100 4 GTC, 4)])]
   \<and> find_slot (fst (cancel small_book 1 opened_book)) 1 = None"
proof -
  have "so_order_id (lim 1 Buy 100 5 GTC) = 1" by (simp add: lim_def)
  then have "1 \<in> ladder_ids (ladder opened_book Buy)"
    by (auto simp: ladder_ids_def opened_book_inv(3))
  then have "find_slot opened_book 1 \<noteq> None"
    using find_slot_ladder [OF opened_book_inv(1)] by blast
  then show ?thesis
    using cancel_removes_exactly [OF opened_book_inv(1), of 1]
    by (simp add: opened_book_inv(3) spec_remove_def lim_def)
qed

lemma quantity_at_ladder:
  assumes "book_inv c b"
  shows "total_quantity_at_price c b s p
    = (case map_of (ladder b s) p of None \<Rightarrow> 0 | Some q \<Rightarrow> sum_list (map snd q))"
proof (cases "find_level c b s p")
  case None
  then show ?thesis
    using find_level_ladder(1) [OF book_invD(2) [OF assms], of s p]
    by (simp add: total_quantity_at_price_def map_of_eq_None_iff [symmetric])
next
  case (Some i)
  then have i: "i \<in> set (ranked (bk_levels b) s)" "lv_price (bk_levels b ! i) = p"
    using find_level_ladder(2) [OF book_invD(2) [OF assms]] by auto
  have "distinct (map fst (ladder b s))"
    using ladder_spec_ok [OF assms] by (intro better_sorted_distinct [of s]) (simp add: spec_ok_def ladder_sorted_def)
  then have "map_of (ladder b s) p = Some (snd (rung b i))"
    using i by (intro map_of_is_SomeI) (auto simp: ladder_def rung_def)
  moreover have "lv_total (bk_levels b ! i) = sum_list (map snd (snd (rung b i)))"
    using ladder_rung_cases(5) [OF assms i(1)]
    by (simp add: rung_def level_ok_def qty_sum_def book_entry_def o_def)
  ultimately show ?thesis
    using Some by (simp add: total_quantity_at_price_def)
qed

text \<open>C6: The read side of the book. Best bid and ask are the tops of the ladders,
  a depth snapshot is the first rungs of both ladders with their total open
  quantity, the quantity at a price is the sum over its rung, and the counters
  count orders and levels.\<close>
theorem book_reads:
  assumes "book_inv c b" "totals_ok c b Buy" "totals_ok c b Sell"
  shows "(best_bid c b = map_option fst (top (ladder b Buy)))
    \<and> (best_ask c b = map_option fst (top (ladder b Sell)))
    \<and> (ds_bids (copy_depth c depth b snap) = take depth (depth_of (ladder b Buy)))
    \<and> (ds_asks (copy_depth c depth b snap) = take depth (depth_of (ladder b Sell)))
    \<and> (total_quantity_at_price c b s p
       = (case map_of (ladder b s) p of None \<Rightarrow> 0 | Some q \<Rightarrow> sum_list (map snd q)))
    \<and> (bk_resting_order_count b = order_count (ladder b Buy) + order_count (ladder b Sell))
    \<and> (bk_active_price_level_count b = length (ladder b Buy) + length (ladder b Sell))"
proof (intro conjI)
  have best: "map_option (\<lambda>i. lv_price (bk_levels b ! i)) (top (ranked (bk_levels b) s)) = map_option fst (top (ladder b s))" for s
    by (cases "ranked (bk_levels b) s") (simp_all add: ladder_def)
  show "best_bid c b = map_option fst (top (ladder b Buy))"
    using best [of Buy] best_level_top [OF assms(1,2)] by (simp add: best_bid_def)
  show "best_ask c b = map_option fst (top (ladder b Sell))"
    using best [of Sell] best_level_top [OF assms(1,3)] by (simp add: best_ask_def)
  show "ds_bids (copy_depth c depth b snap) = take depth (depth_of (ladder b Buy))"
    using copy_side_depth_ladder [OF assms(1,2)] by (simp add: copy_depth_def)
  show "ds_asks (copy_depth c depth b snap) = take depth (depth_of (ladder b Sell))"
    using copy_side_depth_ladder [OF assms(1,3)] by (simp add: copy_depth_def)
  show "bk_resting_order_count b = order_count (ladder b Buy) + order_count (ladder b Sell)"
    by (rule resting_count [OF assms(1)])
  show "bk_active_price_level_count b = length (ladder b Buy) + length (ladder b Sell)"
    by (rule level_count [OF book_invD(2) [OF assms(1)]])
  show "total_quantity_at_price c b s p
       = (case map_of (ladder b s) p of None \<Rightarrow> 0 | Some q \<Rightarrow> sum_list (map snd q))"
    by (rule quantity_at_ladder [OF assms(1)])
qed

theorem book_reads_witness:
  "best_bid small_book opened_book = Some 101 \<and> best_ask small_book opened_book = Some 103
   \<and> ds_bids (copy_depth small_book 2 opened_book empty_depth_snapshot) =
      [\<lparr>dl_price_ticks = 101, dl_quantity_lots = 3\<rparr>, \<lparr>dl_price_ticks = 100, dl_quantity_lots = 9\<rparr>]"
  using book_reads [OF opened_book_inv(1,5,5), of 2 empty_depth_snapshot]
  by (simp add: opened_book_inv(3,4) depth_of_def)

subsection \<open>The order index as a map\<close>

datatype index_op = Index_insert order_id nat | Index_remove order_id

text \<open>Calls of \<open>insert_index\<close> and \<open>remove_index\<close>, with the answers of the insertions.\<close>

fun index_run :: "index_op list \<Rightarrow> matching_book \<Rightarrow> matching_book \<times> bool list" where
  "index_run [] b = (b, [])"
| "index_run (Index_insert k v # ops) b =
     (case index_run ops (fst (insert_index b k v)) of (b', answers) \<Rightarrow> (b', snd (insert_index b k v) # answers))"
| "index_run (Index_remove k # ops) b = index_run ops (remove_index b k)"

fun map_run :: "nat \<Rightarrow> index_op list \<Rightarrow> (order_id \<rightharpoonup> nat) \<Rightarrow> (order_id \<rightharpoonup> nat) \<times> bool list" where
  "map_run n [] m = (m, [])"
| "map_run n (Index_insert k v # ops) m =
     (if m k = None \<and> card (dom m) < n
      then (case map_run n ops (m(k \<mapsto> v)) of (m', answers) \<Rightarrow> (m', True # answers))
      else (case map_run n ops m of (m', answers) \<Rightarrow> (m', False # answers)))"
| "map_run n (Index_remove k # ops) m = map_run n ops (m(k := None))"

definition index_ok :: "nat \<Rightarrow> matching_book \<Rightarrow> bool" where
  "index_ok n b \<longleftrightarrow> order_index.rh_invar n (bk_index b) \<and> bk_index_size b = length (rh_alist (bk_index b))"

lemma index_ok_find: "index_ok n b \<Longrightarrow> find_slot b = rh_find (hash_order_id n) (bk_index b)"
  using order_index.invarD(1) [of n "bk_index b"]
  by (auto simp: index_ok_def find_slot_def fun_eq_iff rh_find_def rh_find_from.simps)

lemma index_ok_size:
  assumes "index_ok n b"
  shows "card (dom (find_slot b)) = bk_index_size b"
proof -
  have inv: "order_index.rh_invar n (bk_index b)" and sz: "bk_index_size b = length (rh_alist (bk_index b))"
    using assms by (simp_all add: index_ok_def)
  have "dom (find_slot b) = fst ` set (rh_alist (bk_index b))"
    using order_index.find_correct [OF inv]
    by (simp add: index_ok_find [OF assms] rh_map_def dom_map_of_conv_image_fst [symmetric] fun_eq_iff dom_def)
  then show ?thesis
    using order_index.invarD(4) [OF inv] distinct_card [of "map fst (rh_alist (bk_index b))"] sz by simp
qed

lemma index_ok_free: "index_ok n b \<Longrightarrow> order_index.rh_free n (bk_index b) + bk_index_size b = n"
  using order_index.alist_length [of "bk_index b"] order_index.invarD(1) [of n "bk_index b"]
  by (auto simp: index_ok_def order_index.rh_free_def)

lemma insert_index_map:
  assumes ok: "index_ok n b"
  shows "index_ok n (fst (insert_index b k v))
    \<and> snd (insert_index b k v) = (find_slot b k = None \<and> bk_index_size b < n)
    \<and> find_slot (fst (insert_index b k v))
      = (if find_slot b k = None \<and> bk_index_size b < n then (find_slot b)(k \<mapsto> v) else find_slot b)"
proof -
  have inv: "order_index.rh_invar n (bk_index b)" and len: "length (bk_index b) = n"
    using ok order_index.invarD(1) by (auto simp: index_ok_def)
  note find = index_ok_find [OF ok]
  consider (full) "n \<le> bk_index_size b" | (known) w where "bk_index_size b < n" "find_slot b k = Some w"
    | (new) "bk_index_size b < n" "find_slot b k = None" by fastforce
  then show ?thesis
  proof cases
    case full
    then have "insert_index b k v = (b, False)" using len by (auto simp: insert_index_def)
    then show ?thesis using full ok by simp
  next
    case known
    then have "rh_insert (hash_order_id n) (bk_index b) k v = (bk_index b, False)"
      using order_index.map.insert_old [OF inv] by (simp add: find)
    then have "insert_index b k v = (b, False)" using len known(1) by (auto simp: insert_index_def)
    then show ?thesis using known ok by simp
  next
    case new
    then have "0 < order_index.rh_free n (bk_index b)" using index_ok_free [OF ok] by linarith
    with new obtain t' where t': "rh_insert (hash_order_id n) (bk_index b) k v = (t', True)" "order_index.rh_invar n t'"
        "rh_find (hash_order_id n) t' = (rh_find (hash_order_id n) (bk_index b))(k \<mapsto> v)"
        "order_index.rh_free n (bk_index b) = Suc (order_index.rh_free n t')"
      using order_index.map.insert_new [OF inv] by (auto simp: find)
    let ?b = "b\<lparr>bk_index := t', bk_index_size := Suc (bk_index_size b)\<rparr>"
    have "insert_index b k v = (?b, True)" using len t'(1) new(1) by (auto simp: insert_index_def)
    moreover have "length (rh_alist t') = Suc (bk_index_size b)"
      using t'(4) index_ok_free [OF ok] order_index.alist_length [of t'] order_index.invarD(1) [OF t'(2)]
      unfolding order_index.rh_free_def by linarith
    then have "index_ok n ?b" using t'(2) by (simp add: index_ok_def)
    ultimately show ?thesis using new t'(3) index_ok_find [of n ?b] by (simp add: find)
  qed
qed

lemma remove_index_map:
  assumes ok: "index_ok n b"
  shows "index_ok n (remove_index b k) \<and> find_slot (remove_index b k) = (find_slot b)(k := None)"
proof (cases "find_slot b k")
  case None
  have "order_index.rh_invar n (bk_index b)" and len: "length (bk_index b) = n"
    using ok order_index.invarD(1) by (auto simp: index_ok_def)
  then have "remove_index b k = b"
    using None order_index.map.remove_absent [of n "bk_index b" k] by (auto simp: remove_index_def index_ok_find [OF ok])
  then show ?thesis using ok None by (simp add: fun_upd_idem)
next
  case (Some w)
  have inv: "order_index.rh_invar n (bk_index b)" and len: "length (bk_index b) = n"
    using ok order_index.invarD(1) by (auto simp: index_ok_def)
  obtain t' where t': "rh_remove (hash_order_id n) empty_index_entry (bk_index b) k = (t', True)" "order_index.rh_invar n t'"
      "rh_find (hash_order_id n) t' = (rh_find (hash_order_id n) (bk_index b))(k := None)"
      "order_index.rh_free n t' = Suc (order_index.rh_free n (bk_index b))"
    using order_index.map.remove_old [OF inv, of k w] Some by (auto simp: index_ok_find [OF ok])
  have "bk_index b \<noteq> []" using Some by (auto simp: find_slot_def)
  then have eq: "remove_index b k = b\<lparr>bk_index := t', bk_index_size := bk_index_size b - 1\<rparr>"
    using t'(1) len by (simp add: remove_index_def)
  have "length (rh_alist t') = bk_index_size b - 1"
    using t'(4) index_ok_free [OF ok] order_index.alist_length [of t'] order_index.invarD(1) [OF t'(2)]
    unfolding order_index.rh_free_def by linarith
  then have "index_ok n (remove_index b k)" using t'(2) by (simp add: eq index_ok_def)
  then show ?thesis using t'(3) index_ok_find [of n "remove_index b k"] by (simp add: eq index_ok_find [OF ok])
qed

lemma index_run_map:
  "index_ok n b \<Longrightarrow> index_ok n (fst (index_run ops b))
    \<and> map_run n ops (find_slot b) = (find_slot (fst (index_run ops b)), snd (index_run ops b))"
proof (induction ops arbitrary: b)
  case (Cons op ops)
  show ?case
  proof (cases op)
    case (Index_insert k v)
    let ?b = "fst (insert_index b k v)"
    note ins = insert_index_map [OF Cons.prems, of k v]
    have IH: "index_ok n (fst (index_run ops ?b))"
        "map_run n ops (find_slot ?b) = (find_slot (fst (index_run ops ?b)), snd (index_run ops ?b))"
      using Cons.IH [of ?b] ins by blast+
    show ?thesis
      using IH ins index_ok_size [OF Cons.prems] by (cases "find_slot b k = None \<and> bk_index_size b < n") (auto simp: Index_insert case_prod_beta)
  next
    case (Index_remove k)
    then show ?thesis
      using Cons.IH [of "remove_index b k"] remove_index_map [OF Cons.prems, of k] by (simp add: fun_upd_def)
  qed
qed simp

text \<open>C7: The Robin Hood table behind the order index behaves as a finite map of bounded size: after
  any sequence of insertions and removals on the index of a fresh book, of any capacity, looking up a
  key gives what the map holds, in spite of displacement on insertion and backward shifting
  on removal; an insertion answers true, and changes the map, exactly when the key is unknown and
  the map is not full; and the stored size is the size of the map.\<close>
theorem order_index_is_a_map:
  "map_run (order_index_capacity c) ops (\<lambda>_. None)
     = (find_slot (fst (index_run ops (new_book c))), snd (index_run ops (new_book c)))
   \<and> bk_index_size (fst (index_run ops (new_book c))) = card (dom (find_slot (fst (index_run ops (new_book c)))))"
proof -
  have new: "index_ok (order_index_capacity c) (new_book c)"
    by (simp add: index_ok_def order_index.rh_invar_def wf_init empty_index_entry_def new_book_def)
  moreover have "find_slot (new_book c) = (\<lambda>_. None)"
    using index_ok_find [OF new] order_index.find_correct [of "order_index_capacity c" "bk_index (new_book c)"] new
    by (auto simp: index_ok_def rh_map_def empty_index_entry_def new_book_def)
  ultimately show ?thesis
    using index_run_map [OF new, of ops] index_ok_size by metis
qed

subsection \<open>Where a shallow book goes wrong\<close>

text \<open>The hypothesis on wrap-around is needed. In a book of at most 32 levels two
  resting bids of \<open>2 ^ 63\<close> lots at one price make the level's total read zero: the
  book then reports no best bid and lets a crossing sell order pass, although both
  bids rest in it.\<close>
theorem shallow_book_total_wraps:
  "case run_book small_book [Submit_op (lim 1 Buy 100 9223372036854775808 GTC),
       Submit_op (lim 2 Buy 100 9223372036854775808 GTC)] (new_book small_book) of
     None \<Rightarrow> False
   | Some (b, answers) \<Rightarrow>
       bk_resting_order_count b = 2 \<and> best_bid small_book b = None
       \<and> (case submit_limit small_book (lim 3 Sell 100 1 IOC) b of
            None \<Rightarrow> False | Some (b', r) \<Rightarrow> mr_filled_quantity_lots r = 0)"
  by code_simp

end
