(* ===== verification/AccountStore.thy ===== *)
theory AccountStore
  imports SimTypes
begin

section \<open>The account store\<close>

text \<open>
  \<open>include/lob/sim/account_store.hpp\<close>: accounts in a fixed array, each with an
  available and a reserved amount per asset. The array with its count is the list
  of its registered entries. Amounts are \<open>int64\<close> in the code; every addition is
  guarded, so the model's \<^typ>\<open>int\<close> agrees with it (\<open>store_ok\<close> keeps the range).
\<close>

record account_balance =
  available_lots :: int
  reserved_lots :: int

record account =
  ac_agent_id :: agent_id
  ac_active :: bool
  ac_balances :: "account_balance list"

record account_snapshot =
  as_agent_id :: agent_id
  as_asset_id :: asset_id
  as_balance :: account_balance

type_synonym account_store = "account list"

record account_config =
  account_capacity :: nat
  asset_capacity :: nat

definition zero_balance :: account_balance where
  "zero_balance = \<lparr>available_lots = 0, reserved_lots = 0\<rparr>"

definition valid_asset :: "account_config \<Rightarrow> asset_id \<Rightarrow> bool" where
  "valid_asset cfg asset_id \<longleftrightarrow> unat asset_id < asset_capacity cfg"

definition add_overflows :: "int \<Rightarrow> int \<Rightarrow> bool" where
  "add_overflows lhs rhs \<longleftrightarrow>
     (0 < rhs \<and> i64_max - rhs < lhs) \<or> (rhs < 0 \<and> lhs < i64_min - rhs)"

definition find_account_index :: "account_store \<Rightarrow> agent_id \<Rightarrow> nat option" where
  "find_account_index accounts agent_id =
     find (\<lambda>i. ac_active (accounts ! i) \<and> ac_agent_id (accounts ! i) = agent_id) [0..<length accounts]"

definition has_account :: "account_store \<Rightarrow> agent_id \<Rightarrow> bool" where
  "has_account accounts agent_id \<longleftrightarrow> find_account_index accounts agent_id \<noteq> None"

definition register_account ::
  "account_config \<Rightarrow> agent_id \<Rightarrow> account_store \<Rightarrow> account_store \<times> bool" where
  "register_account cfg agent_id accounts =
     (if agent_id = invalid_agent_id then (accounts, False)
      else if find_account_index accounts agent_id \<noteq> None then (accounts, True)
      else if length accounts = account_capacity cfg then (accounts, False)
      else (accounts @ [\<lparr>ac_agent_id = agent_id, ac_active = True,
                         ac_balances = replicate (asset_capacity cfg) zero_balance\<rparr>], True))"

definition put_balance :: "nat \<Rightarrow> asset_id \<Rightarrow> account_balance \<Rightarrow> account_store \<Rightarrow> account_store" where
  "put_balance i asset_id bal accounts =
     accounts[i := (accounts ! i)\<lparr>ac_balances := (ac_balances (accounts ! i))[unat asset_id := bal]\<rparr>]"

definition set_balance ::
  "account_config \<Rightarrow> agent_id \<Rightarrow> asset_id \<Rightarrow> int \<Rightarrow> account_store \<Rightarrow> account_store \<times> bool" where
  "set_balance cfg agent_id asset_id amount accounts =
     (case find_account_index accounts agent_id of
        None \<Rightarrow> (accounts, False)
      | Some i \<Rightarrow>
          if \<not> valid_asset cfg asset_id then (accounts, False)
          else (put_balance i asset_id \<lparr>available_lots = amount, reserved_lots = 0\<rparr> accounts, True))"

definition balance :: "account_config \<Rightarrow> account_store \<Rightarrow> agent_id \<Rightarrow> asset_id \<Rightarrow> account_balance option" where
  "balance cfg accounts agent_id asset_id =
     (case find_account_index accounts agent_id of
        None \<Rightarrow> None
      | Some i \<Rightarrow>
          if \<not> valid_asset cfg asset_id then None
          else Some (ac_balances (accounts ! i) ! unat asset_id))"

definition reserve ::
  "account_config \<Rightarrow> agent_id \<Rightarrow> asset_id \<Rightarrow> int \<Rightarrow> account_store \<Rightarrow> account_store \<times> bool" where
  "reserve cfg agent_id asset_id amount accounts =
     (case find_account_index accounts agent_id of
        None \<Rightarrow> (accounts, False)
      | Some i \<Rightarrow>
          if \<not> valid_asset cfg asset_id \<or> amount < 0 then (accounts, False)
          else let bal = ac_balances (accounts ! i) ! unat asset_id in
            if available_lots bal < amount then (accounts, False)
            else if add_overflows (reserved_lots bal) amount then (accounts, False)
            else (put_balance i asset_id (bal\<lparr>available_lots := available_lots bal - amount,
                    reserved_lots := reserved_lots bal + amount\<rparr>) accounts, True))"

definition release ::
  "account_config \<Rightarrow> agent_id \<Rightarrow> asset_id \<Rightarrow> int \<Rightarrow> account_store \<Rightarrow> account_store \<times> bool" where
  "release cfg agent_id asset_id amount accounts =
     (case find_account_index accounts agent_id of
        None \<Rightarrow> (accounts, False)
      | Some i \<Rightarrow>
          if \<not> valid_asset cfg asset_id \<or> amount < 0 then (accounts, False)
          else let bal = ac_balances (accounts ! i) ! unat asset_id in
            if reserved_lots bal < amount then (accounts, False)
            else if add_overflows (available_lots bal) amount then (accounts, False)
            else (put_balance i asset_id (bal\<lparr>reserved_lots := reserved_lots bal - amount,
                    available_lots := available_lots bal + amount\<rparr>) accounts, True))"

definition consume_reserved ::
  "account_config \<Rightarrow> agent_id \<Rightarrow> asset_id \<Rightarrow> int \<Rightarrow> account_store \<Rightarrow> account_store \<times> bool" where
  "consume_reserved cfg agent_id asset_id amount accounts =
     (case find_account_index accounts agent_id of
        None \<Rightarrow> (accounts, False)
      | Some i \<Rightarrow>
          if \<not> valid_asset cfg asset_id \<or> amount < 0 then (accounts, False)
          else let bal = ac_balances (accounts ! i) ! unat asset_id in
            if reserved_lots bal < amount then (accounts, False)
            else (put_balance i asset_id (bal\<lparr>reserved_lots := reserved_lots bal - amount\<rparr>) accounts, True))"

definition apply_delta ::
  "account_config \<Rightarrow> agent_id \<Rightarrow> asset_id \<Rightarrow> int \<Rightarrow> account_store \<Rightarrow> account_store \<times> bool" where
  "apply_delta cfg agent_id asset_id amount accounts =
     (case find_account_index accounts agent_id of
        None \<Rightarrow> (accounts, False)
      | Some i \<Rightarrow>
          if \<not> valid_asset cfg asset_id then (accounts, False)
          else let bal = ac_balances (accounts ! i) ! unat asset_id in
            if add_overflows (available_lots bal) amount then (accounts, False)
            else (put_balance i asset_id (bal\<lparr>available_lots := available_lots bal + amount\<rparr>) accounts, True))"

definition account_snapshot_count :: "account_config \<Rightarrow> account_store \<Rightarrow> nat" where
  "account_snapshot_count cfg accounts = length accounts * asset_capacity cfg"

definition account_snapshot_at :: "account_config \<Rightarrow> account_store \<Rightarrow> nat \<Rightarrow> account_snapshot option" where
  "account_snapshot_at cfg accounts index =
     (if account_snapshot_count cfg accounts \<le> index then None
      else let a = accounts ! (index div asset_capacity cfg);
               x = word_of_nat (index mod asset_capacity cfg)
           in Some \<lparr>as_agent_id = ac_agent_id a, as_asset_id = x, as_balance = ac_balances a ! unat x\<rparr>)"

subsection \<open>Well-formed stores\<close>

definition balance_ok :: "account_balance \<Rightarrow> bool" where
  "balance_ok bal \<longleftrightarrow> in_i64 (available_lots bal) \<and> in_i64 (reserved_lots bal) \<and> 0 \<le> reserved_lots bal"

definition account_ok :: "account_config \<Rightarrow> account \<Rightarrow> bool" where
  "account_ok cfg a \<longleftrightarrow> ac_active a \<and> ac_agent_id a \<noteq> invalid_agent_id
     \<and> length (ac_balances a) = asset_capacity cfg \<and> (\<forall>bal\<in>set (ac_balances a). balance_ok bal)"

definition store_ok :: "account_config \<Rightarrow> account_store \<Rightarrow> bool" where
  "store_ok cfg accounts \<longleftrightarrow>
     length accounts \<le> account_capacity cfg
     \<and> distinct (map ac_agent_id accounts)
     \<and> (\<forall>a\<in>set accounts. account_ok cfg a)"

lemma add_overflows_iff:
  "in_i64 lhs \<Longrightarrow> in_i64 rhs \<Longrightarrow> add_overflows lhs rhs \<longleftrightarrow> \<not> in_i64 (lhs + rhs)"
  by (auto simp: add_overflows_def in_i64_def i64_max_def i64_min_def)

lemma account_ok_nth: "store_ok cfg accounts \<Longrightarrow> i < length accounts \<Longrightarrow> account_ok cfg (accounts ! i)"
  by (simp add: store_ok_def)

lemma find_account_Some:
  assumes ok: "store_ok cfg accounts"
  shows "find_account_index accounts agent = Some i \<longleftrightarrow> i < length accounts \<and> ac_agent_id (accounts ! i) = agent"
proof -
  let ?P = "\<lambda>i. ac_active (accounts ! i) \<and> ac_agent_id (accounts ! i) = agent"
  have act: "ac_active (accounts ! j)" if "j < length accounts" for j
    using account_ok_nth [OF ok that] by (simp add: account_ok_def)
  have uniq: "j = i" if "j < length accounts" "i < length accounts" "ac_agent_id (accounts ! j) = ac_agent_id (accounts ! i)" for i j
    using nth_eq_iff_index_eq [of "map ac_agent_id accounts" j i] ok that by (simp add: store_ok_def)
  show ?thesis
    unfolding find_account_index_def
  proof
    assume "find ?P [0..<length accounts] = Some i"
    then show "i < length accounts \<and> ac_agent_id (accounts ! i) = agent"
      using find_upt_Some by blast
  next
    assume i: "i < length accounts \<and> ac_agent_id (accounts ! i) = agent"
    then show "find ?P [0..<length accounts] = Some i"
      using uniq [of _ i] act [of i] by (intro find_upt_unique) auto
  qed
qed

lemma put_balance_length [simp]: "length (put_balance i x bal accounts) = length accounts"
  by (simp add: put_balance_def)

lemma put_balance_agents [simp]: "map ac_agent_id (put_balance i x bal accounts) = map ac_agent_id accounts"
  unfolding put_balance_def by (rule map_upd_same) simp

lemma store_ok_put:
  assumes ok: "store_ok cfg accounts" and i: "i < length accounts" and bal: "balance_ok bal"
  shows "store_ok cfg (put_balance i x bal accounts)"
proof -
  have "account_ok cfg ((accounts ! i)\<lparr>ac_balances := (ac_balances (accounts ! i))[unat x := bal]\<rparr>)"
    using account_ok_nth [OF ok i] bal by (auto simp: account_ok_def dest!: set_upd)
  then have "\<forall>a\<in>set (put_balance i x bal accounts). account_ok cfg a"
    using ok by (auto simp: put_balance_def store_ok_def dest!: set_upd)
  then show ?thesis
    using ok by (simp add: store_ok_def)
qed

lemma balance_put:
  assumes ok: "store_ok cfg accounts" and i: "find_account_index accounts a = Some i" and x: "valid_asset cfg x"
  shows "balance cfg (put_balance i x bal accounts) a' x' =
    (if a' = a \<and> x' = x then Some bal else balance cfg accounts a' x')"
proof -
  have il: "i < length accounts" "ac_agent_id (accounts ! i) = a"
    using find_account_Some [OF ok] i by auto
  have len: "length (ac_balances (accounts ! i)) = asset_capacity cfg"
    using account_ok_nth [OF ok il(1)] by (simp add: account_ok_def)
  have same: "ac_active (put_balance i x bal accounts ! k) = ac_active (accounts ! k)"
      "ac_agent_id (put_balance i x bal accounts ! k) = ac_agent_id (accounts ! k)" for k
    by (simp_all add: put_balance_def nth_upd)
  have idx: "find_account_index (put_balance i x bal accounts) a' = find_account_index accounts a'"
    by (simp add: find_account_index_def same)
  show ?thesis
  proof (cases "find_account_index accounts a'")
    case None
    then show ?thesis using idx i by (auto simp: balance_def)
  next
    case (Some j)
    then have j: "j < length accounts" "ac_agent_id (accounts ! j) = a'"
      using find_account_Some [OF ok] by auto
    then have ji: "j = i \<longleftrightarrow> a' = a"
      using Some i j(2) il(2) by (cases "a' = a") auto
    have xx: "unat x' = unat x \<longleftrightarrow> x' = x"
      by (simp add: word_unat_eq_iff)
    have bals: "ac_balances (put_balance i x bal accounts ! j) =
        (if j = i then (ac_balances (accounts ! i))[unat x := bal] else ac_balances (accounts ! j))"
      using il by (simp add: put_balance_def nth_upd)
    have upd: "(ac_balances (accounts ! i))[unat x := bal] ! unat x' = (if x' = x then bal else ac_balances (accounts ! i) ! unat x')"
      using len x xx by (cases "x' = x") (simp_all add: valid_asset_def)
    show ?thesis
      unfolding balance_def idx Some option.case bals
      using upd x ji by (cases "j = i"; cases "x' = x") simp_all
  qed
qed

subsection \<open>The ledger interface\<close>

text \<open>
  What the engine relies on: each operation either fails and changes nothing, or
  moves amounts of one agent and asset as stated. \<open>conserved\<close> says which sum a
  sequence of such steps keeps.
\<close>

locale ledger =
  fixes bal :: "'s \<Rightarrow> 'a \<Rightarrow> 'x \<Rightarrow> account_balance option"
    and res :: "'a \<Rightarrow> 'x \<Rightarrow> int \<Rightarrow> 's \<Rightarrow> 's \<times> bool"
    and rel :: "'a \<Rightarrow> 'x \<Rightarrow> int \<Rightarrow> 's \<Rightarrow> 's \<times> bool"
    and con :: "'a \<Rightarrow> 'x \<Rightarrow> int \<Rightarrow> 's \<Rightarrow> 's \<times> bool"
    and del :: "'a \<Rightarrow> 'x \<Rightarrow> int \<Rightarrow> 's \<Rightarrow> 's \<times> bool"
    and wf :: "'s \<Rightarrow> bool"
  assumes res_fail: "\<not> snd (res a x n s) \<Longrightarrow> fst (res a x n s) = s"
    and rel_fail: "\<not> snd (rel a x n s) \<Longrightarrow> fst (rel a x n s) = s"
    and con_fail: "\<not> snd (con a x n s) \<Longrightarrow> fst (con a x n s) = s"
    and del_fail: "\<not> snd (del a x n s) \<Longrightarrow> fst (del a x n s) = s"
    and res_ok: "wf s \<Longrightarrow> snd (res a x n s) \<Longrightarrow> wf (fst (res a x n s)) \<and> 0 \<le> n
      \<and> (\<exists>b. bal s a x = Some b \<and> n \<le> available_lots b
         \<and> bal (fst (res a x n s)) = (bal s)(a := (bal s a)(x \<mapsto>
             b\<lparr>available_lots := available_lots b - n, reserved_lots := reserved_lots b + n\<rparr>)))"
    and rel_ok: "wf s \<Longrightarrow> snd (rel a x n s) \<Longrightarrow> wf (fst (rel a x n s)) \<and> 0 \<le> n
      \<and> (\<exists>b. bal s a x = Some b \<and> n \<le> reserved_lots b
         \<and> bal (fst (rel a x n s)) = (bal s)(a := (bal s a)(x \<mapsto>
             b\<lparr>reserved_lots := reserved_lots b - n, available_lots := available_lots b + n\<rparr>)))"
    and con_ok: "wf s \<Longrightarrow> snd (con a x n s) \<Longrightarrow> wf (fst (con a x n s)) \<and> 0 \<le> n
      \<and> (\<exists>b. bal s a x = Some b \<and> n \<le> reserved_lots b
         \<and> bal (fst (con a x n s)) = (bal s)(a := (bal s a)(x \<mapsto>
             b\<lparr>reserved_lots := reserved_lots b - n\<rparr>)))"
    and del_ok: "wf s \<Longrightarrow> snd (del a x n s) \<Longrightarrow> wf (fst (del a x n s))
      \<and> (\<exists>b. bal s a x = Some b
         \<and> bal (fst (del a x n s)) = (bal s)(a := (bal s a)(x \<mapsto>
             b\<lparr>available_lots := available_lots b + n\<rparr>)))"
begin

definition reserved_of :: "'s \<Rightarrow> 'a \<Rightarrow> 'x \<Rightarrow> int" where
  "reserved_of s a x = (case bal s a x of None \<Rightarrow> 0 | Some b \<Rightarrow> reserved_lots b)"

definition total_of :: "'s \<Rightarrow> 'a \<Rightarrow> 'x \<Rightarrow> int" where
  "total_of s a x = (case bal s a x of None \<Rightarrow> 0 | Some b \<Rightarrow> available_lots b + reserved_lots b)"

lemma reserve_effect:
  assumes "wf s" "snd (res a x n s)"
  shows "reserved_of (fst (res a x n s)) a' x' = reserved_of s a' x' + (if a' = a \<and> x' = x then n else 0)"
    "total_of (fst (res a x n s)) a' x' = total_of s a' x'"
  using res_ok [OF assms] by (auto simp: reserved_of_def total_of_def)

lemma release_effect:
  assumes "wf s" "snd (rel a x n s)"
  shows "reserved_of (fst (rel a x n s)) a' x' = reserved_of s a' x' - (if a' = a \<and> x' = x then n else 0)"
    "total_of (fst (rel a x n s)) a' x' = total_of s a' x'"
  using rel_ok [OF assms] by (auto simp: reserved_of_def total_of_def)

lemma consume_effect:
  assumes "wf s" "snd (con a x n s)"
  shows "reserved_of (fst (con a x n s)) a' x' = reserved_of s a' x' - (if a' = a \<and> x' = x then n else 0)"
    "total_of (fst (con a x n s)) a' x' = total_of s a' x' - (if a' = a \<and> x' = x then n else 0)"
  using con_ok [OF assms] by (auto simp: reserved_of_def total_of_def)

lemma delta_effect:
  assumes "wf s" "snd (del a x n s)"
  shows "reserved_of (fst (del a x n s)) a' x' = reserved_of s a' x'"
    "total_of (fst (del a x n s)) a' x' = total_of s a' x' + (if a' = a \<and> x' = x then n else 0)"
  using del_ok [OF assms] by (auto simp: reserved_of_def total_of_def)

lemma reserve_then_release:
  assumes "wf s" "snd (res a x n s)" "snd (rel a x n (fst (res a x n s)))"
  shows "bal (fst (rel a x n (fst (res a x n s)))) = bal s"
proof -
  obtain b where b: "bal s a x = Some b" "bal (fst (res a x n s)) = (bal s)(a := (bal s a)(x \<mapsto>
       b\<lparr>available_lots := available_lots b - n, reserved_lots := reserved_lots b + n\<rparr>))"
    using res_ok [OF assms(1,2)] by blast
  have "wf (fst (res a x n s))" using res_ok [OF assms(1,2)] by blast
  from rel_ok [OF this assms(3)] show ?thesis
    using b by (auto simp: fun_eq_iff)
qed

end

lemma balance_ok_nth:
  assumes ok: "store_ok cfg accounts" and i: "find_account_index accounts a = Some i" and x: "valid_asset cfg x"
  shows "balance_ok (ac_balances (accounts ! i) ! unat x)"
proof -
  have "i < length accounts"
    using find_account_Some [OF ok] i by auto
  then show ?thesis
    using x account_ok_nth [OF ok] by (simp add: account_ok_def valid_asset_def)
qed

lemma put_ok_step:
  assumes ok: "store_ok cfg accounts" and i: "find_account_index accounts a = Some i" and x: "valid_asset cfg x"
    and bal: "balance_ok bal"
  shows "store_ok cfg (put_balance i x bal accounts)"
    "balance cfg (put_balance i x bal accounts) = (balance cfg accounts)(a := (balance cfg accounts a)(x \<mapsto> bal))"
    "balance cfg accounts a x = Some (ac_balances (accounts ! i) ! unat x)"
proof -
  have il: "i < length accounts"
    using find_account_Some [OF ok] i by auto
  show "store_ok cfg (put_balance i x bal accounts)"
    by (rule store_ok_put [OF ok il bal])
  show "balance cfg (put_balance i x bal accounts) = (balance cfg accounts)(a := (balance cfg accounts a)(x \<mapsto> bal))"
    using balance_put [OF ok i x] by (intro ext) auto
  show "balance cfg accounts a x = Some (ac_balances (accounts ! i) ! unat x)"
    using i x by (simp add: balance_def)
qed

subsection \<open>The store is a ledger\<close>

text \<open>What one successful write of a balance does, in the form the laws have.\<close>

lemma put_ledger:
  fixes f :: "account_balance \<Rightarrow> account_balance"
  assumes ok: "store_ok cfg accounts" and i: "find_account_index accounts a = Some i" and x: "valid_asset cfg x"
    and guard: "\<And>b. b = ac_balances (accounts ! i) ! unat x \<Longrightarrow> balance_ok b \<Longrightarrow> G b \<and> balance_ok (f b)"
    and eq: "accounts' = put_balance i x (f (ac_balances (accounts ! i) ! unat x)) accounts"
  shows "store_ok cfg accounts' \<and> (\<exists>b. balance cfg accounts a x = Some b \<and> G b
    \<and> balance cfg accounts' = (balance cfg accounts)(a := (balance cfg accounts a)(x \<mapsto> f b)))"
  using put_ok_step [OF ok i x, of "f (ac_balances (accounts ! i) ! unat x)"] balance_ok_nth [OF ok i x] guard
  unfolding eq by blast

lemmas balance_range = balance_ok_def add_overflows_def in_i64_def i64_max_def i64_min_def

lemma reserve_law:
  assumes ok: "store_ok cfg accounts" and s: "snd (reserve cfg a x n accounts)"
  shows "store_ok cfg (fst (reserve cfg a x n accounts)) \<and> 0 \<le> n
    \<and> (\<exists>b. balance cfg accounts a x = Some b \<and> n \<le> available_lots b
       \<and> balance cfg (fst (reserve cfg a x n accounts)) = (balance cfg accounts)(a := (balance cfg accounts a)(x \<mapsto>
           b\<lparr>available_lots := available_lots b - n, reserved_lots := reserved_lots b + n\<rparr>)))"
proof -
  obtain i where i: "find_account_index accounts a = Some i"
    using s by (auto simp: reserve_def split: option.splits)
  then have x: "valid_asset cfg x" and n: "0 \<le> n"
    using s by (auto simp: reserve_def split: if_splits)
  show ?thesis
    using put_ledger [OF ok i x, of "\<lambda>b. n \<le> available_lots b"
        "\<lambda>b. b\<lparr>available_lots := available_lots b - n, reserved_lots := reserved_lots b + n\<rparr>"
        "fst (reserve cfg a x n accounts)"] s i n
    by (auto simp: reserve_def Let_def balance_range split: if_splits)
qed

lemma release_law:
  assumes ok: "store_ok cfg accounts" and s: "snd (release cfg a x n accounts)"
  shows "store_ok cfg (fst (release cfg a x n accounts)) \<and> 0 \<le> n
    \<and> (\<exists>b. balance cfg accounts a x = Some b \<and> n \<le> reserved_lots b
       \<and> balance cfg (fst (release cfg a x n accounts)) = (balance cfg accounts)(a := (balance cfg accounts a)(x \<mapsto>
           b\<lparr>reserved_lots := reserved_lots b - n, available_lots := available_lots b + n\<rparr>)))"
proof -
  obtain i where i: "find_account_index accounts a = Some i"
    using s by (auto simp: release_def split: option.splits)
  then have x: "valid_asset cfg x" and n: "0 \<le> n"
    using s by (auto simp: release_def split: if_splits)
  show ?thesis
    using put_ledger [OF ok i x, of "\<lambda>b. n \<le> reserved_lots b"
        "\<lambda>b. b\<lparr>reserved_lots := reserved_lots b - n, available_lots := available_lots b + n\<rparr>"
        "fst (release cfg a x n accounts)"] s i n
    by (auto simp: release_def Let_def balance_range split: if_splits)
qed

lemma consume_law:
  assumes ok: "store_ok cfg accounts" and s: "snd (consume_reserved cfg a x n accounts)"
  shows "store_ok cfg (fst (consume_reserved cfg a x n accounts)) \<and> 0 \<le> n
    \<and> (\<exists>b. balance cfg accounts a x = Some b \<and> n \<le> reserved_lots b
       \<and> balance cfg (fst (consume_reserved cfg a x n accounts)) = (balance cfg accounts)(a := (balance cfg accounts a)(x \<mapsto>
           b\<lparr>reserved_lots := reserved_lots b - n\<rparr>)))"
proof -
  obtain i where i: "find_account_index accounts a = Some i"
    using s by (auto simp: consume_reserved_def split: option.splits)
  then have x: "valid_asset cfg x" and n: "0 \<le> n"
    using s by (auto simp: consume_reserved_def split: if_splits)
  show ?thesis
    using put_ledger [OF ok i x, of "\<lambda>b. n \<le> reserved_lots b" "\<lambda>b. b\<lparr>reserved_lots := reserved_lots b - n\<rparr>"
        "fst (consume_reserved cfg a x n accounts)"] s i n
    by (auto simp: consume_reserved_def Let_def balance_range split: if_splits)
qed

lemma apply_delta_law:
  assumes ok: "store_ok cfg accounts" and s: "snd (apply_delta cfg a x n accounts)"
  shows "store_ok cfg (fst (apply_delta cfg a x n accounts))
    \<and> (\<exists>b. balance cfg accounts a x = Some b
       \<and> balance cfg (fst (apply_delta cfg a x n accounts)) = (balance cfg accounts)(a := (balance cfg accounts a)(x \<mapsto>
           b\<lparr>available_lots := available_lots b + n\<rparr>)))"
proof -
  obtain i where i: "find_account_index accounts a = Some i"
    using s by (auto simp: apply_delta_def split: option.splits)
  then have x: "valid_asset cfg x"
    using s by (auto simp: apply_delta_def split: if_splits)
  show ?thesis
    using put_ledger [OF ok i x, of "\<lambda>b. True" "\<lambda>b. b\<lparr>available_lots := available_lots b + n\<rparr>"
        "fst (apply_delta cfg a x n accounts)"] s i
    by (auto simp: apply_delta_def Let_def balance_range split: if_splits)
qed

interpretation accounts: ledger "balance cfg" "reserve cfg" "release cfg" "consume_reserved cfg" "apply_delta cfg" "store_ok cfg"
  for cfg
proof unfold_locales
  show "\<not> snd (reserve cfg a x n s) \<Longrightarrow> fst (reserve cfg a x n s) = s" for a x n s
    by (auto simp: reserve_def Let_def split: option.splits if_splits)
  show "\<not> snd (release cfg a x n s) \<Longrightarrow> fst (release cfg a x n s) = s" for a x n s
    by (auto simp: release_def Let_def split: option.splits if_splits)
  show "\<not> snd (consume_reserved cfg a x n s) \<Longrightarrow> fst (consume_reserved cfg a x n s) = s" for a x n s
    by (auto simp: consume_reserved_def Let_def split: option.splits if_splits)
  show "\<not> snd (apply_delta cfg a x n s) \<Longrightarrow> fst (apply_delta cfg a x n s) = s" for a x n s
    by (auto simp: apply_delta_def Let_def split: option.splits if_splits)
qed (rule reserve_law release_law consume_law apply_delta_law; assumption)+

subsection \<open>Registering and setting balances\<close>

lemma find_account_None:
  assumes ok: "store_ok cfg accounts"
  shows "find_account_index accounts agent = None \<longleftrightarrow> agent \<notin> set (map ac_agent_id accounts)"
proof -
  have "agent \<in> set (map ac_agent_id accounts) \<longleftrightarrow> (\<exists>i. i < length accounts \<and> ac_agent_id (accounts ! i) = agent)"
    unfolding in_set_conv_nth by auto
  also have "\<dots> \<longleftrightarrow> (\<exists>i. find_account_index accounts agent = Some i)"
    using find_account_Some [OF ok, of agent] by simp
  finally show ?thesis by auto
qed

lemma register_law:
  assumes ok: "store_ok cfg accounts"
  shows "store_ok cfg (fst (register_account cfg agent accounts))"
    "snd (register_account cfg agent accounts) \<Longrightarrow> has_account (fst (register_account cfg agent accounts)) agent"
    "has_account accounts agent' \<Longrightarrow>
       balance cfg (fst (register_account cfg agent accounts)) agent' x = balance cfg accounts agent' x"
proof -
  let ?new = "\<lparr>ac_agent_id = agent, ac_active = True, ac_balances = replicate (asset_capacity cfg) zero_balance\<rparr>"
  have grow: "store_ok cfg (accounts @ [?new])"
    if "agent \<noteq> invalid_agent_id" "find_account_index accounts agent = None" "length accounts \<noteq> account_capacity cfg"
    using ok that find_account_None [OF ok, of agent]
    by (auto simp: store_ok_def account_ok_def zero_balance_def balance_range)
  then show "store_ok cfg (fst (register_account cfg agent accounts))"
    using ok by (auto simp: register_account_def)
  have new: "find_account_index (accounts @ [?new]) agent = Some (length accounts)"
    if "agent \<noteq> invalid_agent_id" "find_account_index accounts agent = None" "length accounts \<noteq> account_capacity cfg"
    using find_account_Some [OF grow [OF that], of agent "length accounts"] by simp
  then show "snd (register_account cfg agent accounts) \<Longrightarrow> has_account (fst (register_account cfg agent accounts)) agent"
    by (auto simp: register_account_def has_account_def split: if_splits)
  show "balance cfg (fst (register_account cfg agent accounts)) agent' x = balance cfg accounts agent' x"
    if has: "has_account accounts agent'"
  proof -
    obtain i where i: "find_account_index accounts agent' = Some i"
      using has by (auto simp: has_account_def)
    then have il: "i < length accounts" "ac_agent_id (accounts ! i) = agent'"
      using find_account_Some [OF ok] by auto
    show ?thesis
    proof (cases "agent \<noteq> invalid_agent_id \<and> find_account_index accounts agent = None \<and> length accounts \<noteq> account_capacity cfg")
      case True
      then have "find_account_index (accounts @ [?new]) agent' = Some i"
        using find_account_Some [OF grow, of agent' i] il by (simp add: nth_append)
      then show ?thesis
        using True i il by (simp add: register_account_def balance_def nth_append)
    qed (auto simp: register_account_def)
  qed
qed

lemma set_balance_law:
  assumes ok: "store_ok cfg accounts" and n: "in_i64 n"
  shows "store_ok cfg (fst (set_balance cfg a x n accounts))"
    "snd (set_balance cfg a x n accounts) \<Longrightarrow>
       balance cfg (fst (set_balance cfg a x n accounts)) =
         (balance cfg accounts)(a := (balance cfg accounts a)(x \<mapsto> \<lparr>available_lots = n, reserved_lots = 0\<rparr>))"
proof -
  have "balance_ok \<lparr>available_lots = n, reserved_lots = 0\<rparr>"
    using n by (simp add: balance_range)
  note step = put_ok_step [OF ok _ _ this]
  show "store_ok cfg (fst (set_balance cfg a x n accounts))"
    using ok step(1) by (auto simp: set_balance_def split: option.splits)
  show "snd (set_balance cfg a x n accounts) \<Longrightarrow>
       balance cfg (fst (set_balance cfg a x n accounts)) =
         (balance cfg accounts)(a := (balance cfg accounts a)(x \<mapsto> \<lparr>available_lots = n, reserved_lots = 0\<rparr>))"
    using step(2) by (auto simp: set_balance_def split: option.splits if_splits)
qed

lemma balance_ok_lookup:
  assumes ok: "store_ok cfg st" and b: "balance cfg st a x = Some b"
  shows "balance_ok b"
proof -
  obtain i where "find_account_index st a = Some i" "valid_asset cfg x" "b = ac_balances (st ! i) ! unat x"
    using b by (auto simp: balance_def split: option.splits if_splits)
  then show ?thesis
    using balance_ok_nth [OF ok] by simp
qed

lemma release_after_reserve:
  assumes ok: "store_ok cfg st" and s: "snd (reserve cfg a x n st)"
  shows "snd (release cfg a x n (fst (reserve cfg a x n st)))"
proof -
  obtain b where b: "balance cfg st a x = Some b" "n \<le> available_lots b"
      "balance cfg (fst (reserve cfg a x n st)) a x
         = Some (b\<lparr>available_lots := available_lots b - n, reserved_lots := reserved_lots b + n\<rparr>)"
    using reserve_law [OF ok s] by auto
  have range: "balance_ok b" using balance_ok_lookup [OF ok b(1)] .
  show ?thesis
    using b(3) range reserve_law [OF ok s]
    by (auto simp: release_def balance_def Let_def balance_range split: option.splits if_splits)
qed

lemma put_balance_put [simp]:
  "i < length accounts \<Longrightarrow> put_balance i x b' (put_balance i x b accounts) = put_balance i x b' accounts"
  by (simp add: put_balance_def)

lemma put_balance_same [simp]: "put_balance i x (ac_balances (accounts ! i) ! unat x) accounts = accounts"
  by (cases "i < length accounts") (simp_all add: put_balance_def list_update_beyond)

text \<open>Taking a reservation back leaves the very store there was.\<close>

lemma reserve_release_id:
  assumes ok: "store_ok cfg st" and s: "snd (reserve cfg a x n st)"
  shows "release cfg a x n (fst (reserve cfg a x n st)) = (st, True)"
proof -
  obtain i where i: "find_account_index st a = Some i" "valid_asset cfg x"
    using s by (auto simp: reserve_def split: option.splits if_splits)
  let ?b = "ac_balances (st ! i) ! unat x"
  let ?b' = "?b\<lparr>available_lots := available_lots ?b - n, reserved_lots := reserved_lots ?b + n\<rparr>"
  have il: "i < length st" using find_account_Some [OF ok] i by auto
  have st': "fst (reserve cfg a x n st) = put_balance i x ?b' st"
    using s i by (auto simp: reserve_def Let_def split: if_splits)
  have rel: "snd (release cfg a x n (put_balance i x ?b' st))"
    using release_after_reserve [OF ok s] unfolding st' .
  have wf: "store_ok cfg (put_balance i x ?b' st)"
    using reserve_law [OF ok s] unfolding st' by blast
  have i': "find_account_index (put_balance i x ?b' st) a = Some i"
    using find_account_Some [OF wf, of a i] find_account_Some [OF ok, of a i] i(1)
    by (simp add: put_balance_def nth_upd)
  have "unat x < length (ac_balances (st ! i))"
    using account_ok_nth [OF ok il] i(2) by (simp add: account_ok_def valid_asset_def)
  then have at: "ac_balances (put_balance i x ?b' st ! i) ! unat x = ?b'"
    using il by (simp add: put_balance_def)
  have "release cfg a x n (put_balance i x ?b' st) = (put_balance i x ?b (put_balance i x ?b' st), True)"
    using rel i i' at by (auto simp: release_def Let_def split: if_splits)
  then show ?thesis
    using il by (simp add: st')
qed

subsection \<open>The agents and the totals\<close>

lemma operations_keep_agents:
  "map ac_agent_id (fst (reserve cfg a x n st)) = map ac_agent_id st"
  "map ac_agent_id (fst (release cfg a x n st)) = map ac_agent_id st"
  "map ac_agent_id (fst (consume_reserved cfg a x n st)) = map ac_agent_id st"
  "map ac_agent_id (fst (apply_delta cfg a x n st)) = map ac_agent_id st"
  by (simp_all add: reserve_def release_def consume_reserved_def apply_delta_def Let_def split: option.split)

text \<open>All the lots of an asset, available or reserved, over all accounts.\<close>

definition asset_total :: "account_config \<Rightarrow> account_store \<Rightarrow> asset_id \<Rightarrow> int" where
  "asset_total cfg st x = (\<Sum>a\<leftarrow>map ac_agent_id st. accounts.total_of cfg st a x)"

lemma sum_list_bump:
  "distinct xs \<Longrightarrow> a \<in> set xs \<Longrightarrow> (\<Sum>i\<leftarrow>xs. f i + (if i = a then d else 0)) = (\<Sum>i\<leftarrow>xs. f i) + (d :: int)"
proof (induction xs)
  case (Cons i xs)
  have "a \<notin> set xs \<Longrightarrow> (\<Sum>i\<leftarrow>xs. f i + (if i = a then d else 0)) = (\<Sum>i\<leftarrow>xs. f i)"
    by (rule arg_cong [of _ _ sum_list]) (auto intro: map_cong)
  then show ?case
    using Cons by (cases "i = a") auto
qed simp

lemma asset_total_bump:
  assumes ok: "store_ok cfg st" and same: "map ac_agent_id st' = map ac_agent_id st"
    and bal: "balance cfg st a x \<noteq> None"
    and eff: "\<And>a' x'. accounts.total_of cfg st' a' x' = accounts.total_of cfg st a' x' + (if a' = a \<and> x' = x then d else 0)"
  shows "asset_total cfg st' x' = asset_total cfg st x' + (if x' = x then d else 0)"
proof -
  obtain i where "find_account_index st a = Some i"
    using bal by (auto simp: balance_def split: option.splits)
  then have "a \<in> set (map ac_agent_id st)"
    using find_account_Some [OF ok, of a i] nth_mem [of i st] by force
  moreover have "distinct (map ac_agent_id st)"
    using ok by (simp add: store_ok_def)
  ultimately have bump: "(\<Sum>i\<leftarrow>map ac_agent_id st. accounts.total_of cfg st i x + (if i = a then d else 0))
      = asset_total cfg st x + d"
    unfolding asset_total_def by (intro sum_list_bump)
  show ?thesis
  proof (cases "x' = x")
    case True
    have "asset_total cfg st' x = (\<Sum>i\<leftarrow>map ac_agent_id st. accounts.total_of cfg st i x + (if i = a then d else 0))"
      by (simp add: asset_total_def same eff)
    then show ?thesis using True bump by simp
  qed (simp add: asset_total_def same eff)
qed

lemma asset_total_steps:
  assumes ok: "store_ok cfg st"
  shows "snd (reserve cfg a x n st) \<Longrightarrow> asset_total cfg (fst (reserve cfg a x n st)) x' = asset_total cfg st x'"
    and "snd (release cfg a x n st) \<Longrightarrow> asset_total cfg (fst (release cfg a x n st)) x' = asset_total cfg st x'"
    and "snd (consume_reserved cfg a x n st) \<Longrightarrow>
      asset_total cfg (fst (consume_reserved cfg a x n st)) x' = asset_total cfg st x' - (if x' = x then n else 0)"
    and "snd (apply_delta cfg a x n st) \<Longrightarrow>
      asset_total cfg (fst (apply_delta cfg a x n st)) x' = asset_total cfg st x' + (if x' = x then n else 0)"
proof -
  show "asset_total cfg (fst (reserve cfg a x n st)) x' = asset_total cfg st x'" if "snd (reserve cfg a x n st)"
    using asset_total_bump [OF ok operations_keep_agents(1) [of cfg a x n st], of a x 0 x'] reserve_law [OF ok that]
      accounts.reserve_effect(2) [OF ok that] by auto
  show "asset_total cfg (fst (release cfg a x n st)) x' = asset_total cfg st x'" if "snd (release cfg a x n st)"
    using asset_total_bump [OF ok operations_keep_agents(2) [of cfg a x n st], of a x 0 x'] release_law [OF ok that]
      accounts.release_effect(2) [OF ok that] by auto
  show "asset_total cfg (fst (consume_reserved cfg a x n st)) x' = asset_total cfg st x' - (if x' = x then n else 0)"
    if "snd (consume_reserved cfg a x n st)"
    using asset_total_bump [OF ok operations_keep_agents(3) [of cfg a x n st], of a x "- n" x'] consume_law [OF ok that]
      accounts.consume_effect(2) [OF ok that] by (auto split: if_splits)
  show "asset_total cfg (fst (apply_delta cfg a x n st)) x' = asset_total cfg st x' + (if x' = x then n else 0)"
    if "snd (apply_delta cfg a x n st)"
    using asset_total_bump [OF ok operations_keep_agents(4) [of cfg a x n st], of a x n x'] apply_delta_law [OF ok that]
      accounts.delta_effect(2) [OF ok that] by (auto split: if_splits)
qed

subsection \<open>Runs of the store\<close>

datatype account_op =
    Register agent_id | Set_balance agent_id asset_id int | Reserve agent_id asset_id int
  | Release agent_id asset_id int | Consume agent_id asset_id int | Delta agent_id asset_id int

fun account_step :: "account_config \<Rightarrow> account_op \<Rightarrow> account_store \<Rightarrow> account_store" where
  "account_step cfg (Register a) st = fst (register_account cfg a st)"
| "account_step cfg (Set_balance a x n) st = fst (set_balance cfg a x n st)"
| "account_step cfg (Reserve a x n) st = fst (reserve cfg a x n st)"
| "account_step cfg (Release a x n) st = fst (release cfg a x n st)"
| "account_step cfg (Consume a x n) st = fst (consume_reserved cfg a x n st)"
| "account_step cfg (Delta a x n) st = fst (apply_delta cfg a x n st)"

fun op_in_range :: "account_op \<Rightarrow> bool" where
  "op_in_range (Set_balance a x n) = in_i64 n"
| "op_in_range _ = True"

lemma account_step_ok:
  assumes ok: "store_ok cfg st" and r: "op_in_range op"
  shows "store_ok cfg (account_step cfg op st)"
proof (cases op)
  case (Reserve a x n)
  then show ?thesis
    using ok accounts.res_fail [of cfg a x n st] reserve_law [OF ok, of a x n]
    by (cases "snd (reserve cfg a x n st)") simp_all
next
  case (Release a x n)
  then show ?thesis
    using ok accounts.rel_fail [of cfg a x n st] release_law [OF ok, of a x n]
    by (cases "snd (release cfg a x n st)") simp_all
next
  case (Consume a x n)
  then show ?thesis
    using ok accounts.con_fail [of cfg a x n st] consume_law [OF ok, of a x n]
    by (cases "snd (consume_reserved cfg a x n st)") simp_all
next
  case (Delta a x n)
  then show ?thesis
    using ok accounts.del_fail [of cfg a x n st] apply_delta_law [OF ok, of a x n]
    by (cases "snd (apply_delta cfg a x n st)") simp_all
qed (use assms register_law(1) set_balance_law(1) in simp_all)

lemma empty_store_ok: "store_ok cfg []"
  by (simp add: store_ok_def)

lemma account_run_ok:
  "store_ok cfg st \<Longrightarrow> \<forall>op\<in>set ops. op_in_range op \<Longrightarrow> store_ok cfg (fold (account_step cfg) ops st)"
  by (induction ops arbitrary: st) (simp_all add: account_step_ok)

subsection \<open>Properties\<close>

definition small_accounts :: account_config where
  "small_accounts = \<lparr>account_capacity = 2, asset_capacity = 2\<rparr>"

text \<open>C8: Whatever sequence of registrations, balance settings, reservations,
  releases, consumptions and deltas runs on an empty store, every balance stays a
  pair of 64-bit amounts with a non-negative reserved part, and no agent has two
  accounts.\<close>
theorem account_runs_keep_balances_in_range:
  assumes "\<forall>op\<in>set ops. op_in_range op"
    and "balance cfg (fold (account_step cfg) ops []) a x = Some b"
  shows "in_i64 (available_lots b) \<and> in_i64 (reserved_lots b) \<and> 0 \<le> reserved_lots b
    \<and> distinct (map ac_agent_id (fold (account_step cfg) ops []))"
  using balance_ok_lookup [OF account_run_ok [OF empty_store_ok assms(1)] assms(2)]
    account_run_ok [OF empty_store_ok assms(1), of cfg]
  by (simp add: balance_ok_def store_ok_def)

definition reserving_ops :: "account_op list" where
  "reserving_ops = [Register 7, Set_balance 7 1 100, Reserve 7 1 60, Register 8, Consume 7 1 20]"

theorem account_runs_keep_balances_in_range_witness:
  "\<exists>b. balance small_accounts (fold (account_step small_accounts) reserving_ops []) 7 1 = Some b
    \<and> available_lots b = 40 \<and> reserved_lots b = 40 \<and> in_i64 (available_lots b) \<and> in_i64 (reserved_lots b) \<and> 0 \<le> reserved_lots b
    \<and> distinct (map ac_agent_id (fold (account_step small_accounts) reserving_ops []))"
proof -
  have run: "balance small_accounts (fold (account_step small_accounts) reserving_ops []) 7 1
      = Some \<lparr>available_lots = 40, reserved_lots = 40\<rparr>"
    by code_simp
  have "\<forall>op\<in>set reserving_ops. op_in_range op"
    by (simp add: reserving_ops_def in_i64_def i64_max_def i64_min_def)
  from account_runs_keep_balances_in_range [OF this run] show ?thesis using run by simp
qed

text \<open>Moves of funds. A reservation succeeds exactly when the account and the
  asset exist, the amount is between zero and the available amount and the reserved
  amount does not overflow; it moves the amount from available to reserved. What was
  reserved can always be released again, which restores every balance of the store.\<close>
theorem reserve_then_release_restores:
  assumes ok: "store_ok cfg st"
  shows "(snd (reserve cfg a x n st) \<longleftrightarrow>
      (\<exists>b. balance cfg st a x = Some b \<and> 0 \<le> n \<and> n \<le> available_lots b \<and> \<not> add_overflows (reserved_lots b) n))
    \<and> (snd (reserve cfg a x n st) \<longrightarrow>
      snd (release cfg a x n (fst (reserve cfg a x n st)))
      \<and> balance cfg (fst (release cfg a x n (fst (reserve cfg a x n st)))) = balance cfg st)"
proof (intro conjI impI)
  show "snd (reserve cfg a x n st) \<longleftrightarrow>
      (\<exists>b. balance cfg st a x = Some b \<and> 0 \<le> n \<and> n \<le> available_lots b \<and> \<not> add_overflows (reserved_lots b) n)"
    by (auto simp: reserve_def balance_def Let_def split: option.splits)
next
  assume s: "snd (reserve cfg a x n st)"
  let ?st = "fst (reserve cfg a x n st)"
  show rel: "snd (release cfg a x n ?st)"
    by (rule release_after_reserve [OF ok s])
  show "balance cfg (fst (release cfg a x n ?st)) = balance cfg st"
    by (rule accounts.reserve_then_release [OF ok s rel])
qed

theorem reserve_then_release_restores_witness:
  "snd (release small_accounts 7 1 60 (fst (reserve small_accounts 7 1 60
     (fold (account_step small_accounts) [Register 7, Set_balance 7 1 100] []))))"
proof -
  let ?st = "fold (account_step small_accounts) [Register 7, Set_balance 7 1 100] []"
  have ok: "store_ok small_accounts ?st"
    by (rule account_run_ok [OF empty_store_ok]) (simp add: in_i64_def i64_max_def i64_min_def)
  have "snd (reserve small_accounts 7 1 60 ?st)" by code_simp
  then show ?thesis
    using reserve_then_release_restores [OF ok, of 7 1 60] by blast
qed

end
