(* ===== verification/BinaryHeap.thy ===== *)
theory BinaryHeap
  imports Prelude "HOL-Library.Product_Lexorder"
begin

section \<open>Array heaps\<close>

text \<open>
  The order of a binary min-heap in an array, and how one swap on the way up or
  down moves the place where the order may be violated. The heaps of the code
  (the event scheduler, the indexed heap of the merger) are loops over these
  steps. A queue that pops a smallest element drains in sorted order; the locale
  \<open>min_queue\<close> says so once.
\<close>

definition parent :: "nat \<Rightarrow> nat" where
  "parent i = (i - 1) div 2"

definition swap :: "'a list \<Rightarrow> nat \<Rightarrow> nat \<Rightarrow> 'a list" where
  "swap xs i j = xs[i := xs ! j, j := xs ! i]"

lemma parent_less [simp]: "0 < i \<Longrightarrow> parent i < i"
  by (auto simp: parent_def)

lemma parent_eq: "0 < i \<Longrightarrow> parent i = k \<longleftrightarrow> i = 2 * k + 1 \<or> i = 2 * k + 2"
  by (auto simp: parent_def)

lemma swap_length [simp]: "length (swap xs i j) = length xs"
  by (simp add: swap_def)

lemma swap_nth:
  "i < length xs \<Longrightarrow> j < length xs \<Longrightarrow>
   swap xs i j ! k = (if k = j then xs ! i else if k = i then xs ! j else xs ! k)"
  by (auto simp: swap_def nth_upd)

lemma swap_mset [simp]: "i < length xs \<Longrightarrow> j < length xs \<Longrightarrow> mset (swap xs i j) = mset xs"
  unfolding swap_def by (rule mset_swap)

definition heap_ok :: "('a \<Rightarrow> 'k::linorder) \<Rightarrow> 'a list \<Rightarrow> bool" where
  "heap_ok key xs \<longleftrightarrow> (\<forall>i<length xs. 0 < i \<longrightarrow> key (xs ! parent i) \<le> key (xs ! i))"

definition up_inv :: "('a \<Rightarrow> 'k::linorder) \<Rightarrow> 'a list \<Rightarrow> nat \<Rightarrow> bool" where
  "up_inv key xs k \<longleftrightarrow>
     (\<forall>i<length xs. 0 < i \<longrightarrow> i \<noteq> k \<longrightarrow> key (xs ! parent i) \<le> key (xs ! i))
     \<and> (\<forall>i<length xs. 0 < i \<longrightarrow> 0 < k \<longrightarrow> parent i = k \<longrightarrow> key (xs ! parent k) \<le> key (xs ! i))"

definition down_inv :: "('a \<Rightarrow> 'k::linorder) \<Rightarrow> 'a list \<Rightarrow> nat \<Rightarrow> bool" where
  "down_inv key xs k \<longleftrightarrow>
     (\<forall>i<length xs. 0 < i \<longrightarrow> parent i \<noteq> k \<longrightarrow> key (xs ! parent i) \<le> key (xs ! i))
     \<and> (\<forall>i<length xs. 0 < i \<longrightarrow> 0 < k \<longrightarrow> parent i = k \<longrightarrow> key (xs ! parent k) \<le> key (xs ! i))"

lemma heap_ok_root:
  assumes "heap_ok key xs" "i < length xs"
  shows "key (xs ! 0) \<le> key (xs ! i)"
  using assms(2)
proof (induction i rule: less_induct)
  case (less i)
  show ?case
  proof (cases "i = 0")
    case False
    then have "key (xs ! 0) \<le> key (xs ! parent i)"
      using less by (intro less.IH) (auto intro: less_trans [OF parent_less])
    also have "\<dots> \<le> key (xs ! i)"
      using assms(1) less.prems False by (simp add: heap_ok_def)
    finally show ?thesis .
  qed simp
qed

lemma up_done: "up_inv key xs k \<Longrightarrow> k = 0 \<or> key (xs ! parent k) \<le> key (xs ! k) \<Longrightarrow> heap_ok key xs"
proof -
  assume inv: "up_inv key xs k" and k: "k = 0 \<or> key (xs ! parent k) \<le> key (xs ! k)"
  show "heap_ok key xs"
    unfolding heap_ok_def
  proof (intro allI impI)
    fix i assume i: "i < length xs" "0 < i"
    then show "key (xs ! parent i) \<le> key (xs ! i)"
      using inv k by (cases "i = k") (auto simp: up_inv_def)
  qed
qed

lemma up_step:
  assumes inv: "up_inv key xs k" and k: "0 < k" "k < length xs" "key (xs ! k) < key (xs ! parent k)"
  shows "up_inv key (swap xs k (parent k)) (parent k)"
proof -
  let ?p = "parent k" and ?ys = "swap xs k (parent k)"
  have p: "?p < k" "?p < length xs"
    using parent_less [OF k(1)] order.strict_trans [OF parent_less [OF k(1)] k(2)] by simp_all
  have ys: "?ys ! i = (if i = ?p then xs ! k else if i = k then xs ! ?p else xs ! i)" for i
    using swap_nth [OF k(2) p(2)] by simp
  have old: "key (xs ! parent i) \<le> key (xs ! i)" if "i < length xs" "0 < i" "i \<noteq> k" for i
    using inv that by (simp add: up_inv_def)
  have child: "key (xs ! ?p) \<le> key (xs ! i)" if "i < length xs" "0 < i" "parent i = k" for i
    using inv that k by (simp add: up_inv_def)
  show ?thesis
    unfolding up_inv_def
  proof (intro conjI allI impI)
    fix i assume i: "i < length ?ys" "0 < i" "i \<noteq> ?p"
    show "key (?ys ! parent i) \<le> key (?ys ! i)"
    proof (cases "i = k")
      case True
      then show ?thesis using k p by (simp add: ys)
    next
      case False
      have i': "i < length xs" using i(1) by simp
      have "parent i = ?p \<Longrightarrow> key (xs ! k) \<le> key (xs ! i)"
        using old [OF i' i(2) False] k(3) by simp
      moreover have "parent i = k \<Longrightarrow> key (xs ! ?p) \<le> key (xs ! i)"
        using child [OF i' i(2)] by simp
      ultimately show ?thesis
        using False i old [OF i' i(2) False] p by (simp add: ys)
    qed
  next
    fix i assume i: "i < length ?ys" "0 < i" "0 < ?p" "parent i = ?p"
    have pp: "parent ?p < ?p" using i(3) by simp
    have top: "key (xs ! parent ?p) \<le> key (xs ! ?p)"
      using old [OF p(2) i(3)] p by simp
    show "key (?ys ! parent ?p) \<le> key (?ys ! i)"
    proof (cases "i = k")
      case True
      then show ?thesis using top pp p by (simp add: ys)
    next
      case False
      have "key (xs ! ?p) \<le> key (xs ! i)"
        using old [of i] i False by simp
      then show ?thesis
        using False top pp p i parent_less [OF i(2)] order.strict_implies_not_eq [OF pp] by (auto simp: ys intro: order_trans)
    qed
  qed
qed

lemma down_done:
  "down_inv key xs k \<Longrightarrow> (\<And>i. i < length xs \<Longrightarrow> 0 < i \<Longrightarrow> parent i = k \<Longrightarrow> key (xs ! k) \<le> key (xs ! i)) \<Longrightarrow> heap_ok key xs"
  unfolding down_inv_def heap_ok_def by metis

lemma down_step:
  assumes inv: "down_inv key xs k" and c: "c < length xs" "0 < c" "parent c = k" "key (xs ! c) < key (xs ! k)"
    and least: "\<And>i. i < length xs \<Longrightarrow> 0 < i \<Longrightarrow> parent i = k \<Longrightarrow> key (xs ! c) \<le> key (xs ! i)"
  shows "down_inv key (swap xs k c) c"
proof -
  let ?ys = "swap xs k c"
  have k: "k < c" "k < length xs" using c parent_less [of c] by simp_all
  have ys: "?ys ! i = (if i = c then xs ! k else if i = k then xs ! c else xs ! i)" for i
    using swap_nth [OF k(2) c(1)] by simp
  have old: "key (xs ! parent i) \<le> key (xs ! i)" if "i < length xs" "0 < i" "parent i \<noteq> k" for i
    using inv that by (simp add: down_inv_def)
  have above: "key (xs ! parent k) \<le> key (xs ! i)" if "i < length xs" "0 < i" "0 < k" "parent i = k" for i
    using inv that by (simp add: down_inv_def)
  show ?thesis
    unfolding down_inv_def
  proof (intro conjI allI impI)
    fix i assume i: "i < length ?ys" "0 < i" "parent i \<noteq> c"
    have i': "i < length xs" using i(1) by simp
    show "key (?ys ! parent i) \<le> key (?ys ! i)"
    proof (cases "parent i = k")
      case True
      then show ?thesis
        using least [OF i' i(2) True] c(4) parent_less [OF i(2)] by (auto simp: ys)
    next
      case False
      show ?thesis
      proof (cases "i = k")
        case True
        then show ?thesis
          using above [OF c(1,2)] i False c(3) k parent_less [OF i(2)] by (auto simp: ys)
      next
        case nk: False
        have "i \<noteq> c" using False c(3) by auto
        then show ?thesis
          using old [OF i' i(2) False] False i(3) nk by (simp add: ys)
      qed
    qed
  next
    fix i assume i: "i < length ?ys" "0 < i" "0 < c" "parent i = c"
    have "key (xs ! c) \<le> key (xs ! i)"
      using old [of i] i k by simp
    then show "key (?ys ! parent c) \<le> key (?ys ! i)"
      using c(3) k parent_less [OF i(2)] i(4) by (auto simp: ys)
  qed
qed

lemma snoc_up_inv: "heap_ok key xs \<Longrightarrow> up_inv key (xs @ [x]) (length xs)"
proof -
  assume h: "heap_ok key xs"
  have "key ((xs @ [x]) ! parent i) \<le> key ((xs @ [x]) ! i)" if "i < length xs" "0 < i" for i
    using h that parent_less [OF that(2)] by (simp add: heap_ok_def nth_append)
  moreover have "parent i \<noteq> length xs" if "i < Suc (length xs)" "0 < i" for i
    using parent_less [OF that(2)] that(1) by linarith
  ultimately show ?thesis
    by (auto simp: up_inv_def less_Suc_eq)
qed

lemma replace_root_down_inv:
  assumes "heap_ok key xs" "xs \<noteq> []"
  shows "down_inv key ((butlast xs)[0 := x]) 0"
  unfolding down_inv_def
proof (intro conjI allI impI)
  fix i assume i: "i < length ((butlast xs)[0 := x])" "0 < i" "parent i \<noteq> 0"
  then show "key ((butlast xs)[0 := x] ! parent i) \<le> key ((butlast xs)[0 := x] ! i)"
    using assms parent_less [OF i(2)] by (auto simp: heap_ok_def nth_upd nth_butlast)
qed simp

subsection \<open>Queues that pop a smallest element\<close>

locale min_queue =
  fixes items :: "'s \<Rightarrow> 'e multiset"
    and key :: "'e \<Rightarrow> 'k::linorder"
    and wf :: "'s \<Rightarrow> bool"
    and pop :: "'s \<Rightarrow> 's \<times> 'e option"
  assumes pop_empty: "wf s \<Longrightarrow> items s = {#} \<Longrightarrow> pop s = (s, None)"
    and pop_least: "wf s \<Longrightarrow> items s \<noteq> {#} \<Longrightarrow> \<exists>s' e. pop s = (s', Some e) \<and> wf s'
       \<and> items s = add_mset e (items s') \<and> (\<forall>x\<in>#items s. key e \<le> key x)"
begin

primrec drain :: "nat \<Rightarrow> 's \<Rightarrow> 'e list" where
  "drain 0 s = []"
| "drain (Suc n) s = (case pop s of (s', None) \<Rightarrow> [] | (s', Some e) \<Rightarrow> e # drain n s')"

lemma drain_sorted:
  assumes "wf s" "size (items s) \<le> n"
  shows "mset (drain n s) = items s \<and> sorted (map key (drain n s))"
  using assms
proof (induction n arbitrary: s)
  case (Suc n)
  show ?case
  proof (cases "items s = {#}")
    case True
    then show ?thesis using pop_empty [OF Suc.prems(1)] by simp
  next
    case False
    then obtain s' e where pop: "pop s = (s', Some e)" "wf s'" "items s = add_mset e (items s')"
        "\<forall>x\<in>#items s. key e \<le> key x"
      using pop_least [OF Suc.prems(1)] by blast
    then have "mset (drain n s') = items s' \<and> sorted (map key (drain n s'))"
      using Suc.prems(2) by (intro Suc.IH) simp_all
    moreover have "\<forall>x\<in>set (drain n s'). key e \<le> key x"
      using pop(3,4) calculation by (metis set_mset_mset union_iff set_mset_add_mset_insert insertI2)
    ultimately show ?thesis
      using pop by simp
  qed
qed simp

end

subsection \<open>Stable sorting\<close>

lemma sorted_map_fst: "sorted (map (\<lambda>x. (k x, g x)) ys) \<Longrightarrow> sorted (map k ys)"
  by (induction ys) (auto simp: less_eq_prod_def intro: order.strict_implies_order)

lemma sort_key_lex:
  assumes "sorted (map g xs)"
  shows "sort_key (\<lambda>x. (k x, g x)) xs = sort_key k xs"
proof (rule properties_for_sort_key [symmetric])
  let ?ys = "sort_key (\<lambda>x. (k x, g x)) xs"
  show "mset ?ys = mset xs" by simp
  show "filter (\<lambda>x. k c = k x) ?ys = filter (\<lambda>x. k c = k x) xs" if "c \<in> set ?ys" for c
  proof -
    have "sorted (map g (filter (\<lambda>x. k c = k x) xs))"
      using assms by (simp add: sorted_filter)
    then have "sorted (map (\<lambda>x. (k x, g x)) (filter (\<lambda>x. k c = k x) xs))"
      by (induction xs) auto
    then show ?thesis
      by (simp add: filter_sort sort_key_id_if_sorted)
  qed
  have "sorted (map (\<lambda>x. (k x, g x)) ?ys)" by simp
  then show "sorted (map k ?ys)"
    by (rule sorted_map_fst)
qed

lemma insert_after_set:
  "set (takeWhile P xs @ e # dropWhile P xs) = insert e (set xs)"
  by (metis set_append Un_insert_right list.simps(15) takeWhile_dropWhile_id)

lemma insert_after_mset:
  "mset (takeWhile P xs @ e # dropWhile P xs) = add_mset e (mset xs)"
  by (metis mset.simps(2) mset_append takeWhile_dropWhile_id union_mset_add_mset_right)

lemma sorted_insert_after:
  "sorted (map (\<lambda>x. (g x, h x)) xs) \<Longrightarrow> \<forall>x\<in>set xs. h x \<le> h e \<Longrightarrow>
   sorted (map (\<lambda>x. (g x, h x)) (takeWhile (\<lambda>x. g x \<le> g e) xs @ e # dropWhile (\<lambda>x. g x \<le> g e) xs))"
proof (induction xs)
  case (Cons a xs)
  show ?case
  proof (cases "g a \<le> g e")
    case True
    have "\<forall>x\<in>insert e (set xs). (g a, h a) \<le> (g x, h x)"
      using Cons.prems True by (auto simp: less_eq_prod_def)
    then show ?thesis
      using Cons True insert_after_set [of "\<lambda>x. g x \<le> g e" xs e] by auto
  next
    case False
    then have "\<forall>x\<in>set (a # xs). (g e, h e) \<le> (g x, h x)"
      using Cons.prems(1) by (force simp: less_eq_prod_def)
    then show ?thesis
      using False Cons.prems(1) by simp
  qed
qed simp

end
