(* ===== verification/EventScheduler.thy ===== *)
theory EventScheduler
  imports SimTypes BinaryHeap
begin

section \<open>The event scheduler\<close>

text \<open>
  \<open>include/lob/sim/event_scheduler.hpp\<close>: a bounded binary heap of scheduled
  events ordered by time, phase and the sequence number \<open>push\<close> stamps on each
  event. The array with its size is the list of its first \<open>size_\<close> entries. The
  abstract specification is a list kept sorted by time and phase alone, with equal
  events in the order of their pushes; the heap refines it as long as the 64-bit
  sequence counter has not wrapped.
\<close>

record scheduler =
  sc_heap :: "scheduled_event list"
  sc_next_sequence :: u64

definition empty_scheduler :: scheduler where
  "empty_scheduler = \<lparr>sc_heap = [], sc_next_sequence = 0\<rparr>"

definition available_capacity :: "nat \<Rightarrow> scheduler \<Rightarrow> nat" where
  "available_capacity cap s = cap - length (sc_heap s)"

definition has_event_for_market :: "market_id \<Rightarrow> scheduler \<Rightarrow> bool" where
  "has_event_for_market m s \<longleftrightarrow> list_ex (\<lambda>e. se_market_id e = m) (sc_heap s)"

definition clear_scheduler :: "scheduler \<Rightarrow> scheduler" where
  "clear_scheduler s = s\<lparr>sc_heap := [], sc_next_sequence := 0\<rparr>"

definition comes_before :: "scheduled_event \<Rightarrow> scheduled_event \<Rightarrow> bool" where
  "comes_before lhs rhs =
     (if se_timestamp_ns lhs \<noteq> se_timestamp_ns rhs then se_timestamp_ns lhs < se_timestamp_ns rhs
      else if phase_rank (se_phase lhs) \<noteq> phase_rank (se_phase rhs)
      then phase_rank (se_phase lhs) < phase_rank (se_phase rhs)
      else se_sequence_number lhs < se_sequence_number rhs)"

function sift_up :: "scheduled_event list \<Rightarrow> nat \<Rightarrow> scheduled_event list" where
  "sift_up heap i =
     (if 0 < i then
        let p = (i - 1) div 2 in
        if \<not> comes_before (heap ! i) (heap ! p) then heap
        else sift_up (swap heap i p) p
      else heap)"
  by pat_completeness auto
termination by (relation "measure snd") auto

definition smallest_child :: "scheduled_event list \<Rightarrow> nat \<Rightarrow> nat" where
  "smallest_child heap i =
     (let left = i * 2 + 1; right = left + 1;
          m = (if left < length heap \<and> comes_before (heap ! left) (heap ! i) then left else i)
      in if right < length heap \<and> comes_before (heap ! right) (heap ! m) then right else m)"

lemma smallest_child_bounds: "smallest_child heap i \<noteq> i \<Longrightarrow> i < smallest_child heap i \<and> smallest_child heap i < length heap"
  by (auto simp: smallest_child_def Let_def split: if_splits)

function sift_down :: "scheduled_event list \<Rightarrow> nat \<Rightarrow> scheduled_event list" where
  "sift_down heap i =
     (let m = smallest_child heap i in
      if m = i then heap else sift_down (swap heap i m) m)"
  by pat_completeness auto
termination
  by (relation "measure (\<lambda>(heap, i). length heap - i)") (use smallest_child_bounds in fastforce)+

declare sift_up.simps [simp del] sift_down.simps [simp del]

definition push :: "nat \<Rightarrow> scheduled_event \<Rightarrow> scheduler \<Rightarrow> scheduler \<times> bool" where
  "push cap event s =
     (if length (sc_heap s) = cap then (s, False)
      else
        let event = event\<lparr>se_sequence_number := sc_next_sequence s\<rparr>;
            heap = sc_heap s @ [event]
        in (s\<lparr>sc_heap := sift_up heap (length (sc_heap s)),
              sc_next_sequence := sc_next_sequence s + 1\<rparr>, True))"

definition pop :: "scheduler \<Rightarrow> scheduler \<times> scheduled_event option" where
  "pop s =
     (case sc_heap s of
        [] \<Rightarrow> (s, None)
      | event # _ \<Rightarrow>
          let heap = butlast (sc_heap s);
              heap = (if heap \<noteq> [] then sift_down (heap[0 := last (sc_heap s)]) 0 else heap)
          in (s\<lparr>sc_heap := heap\<rparr>, Some event))"

definition top_event :: "scheduler \<Rightarrow> scheduled_event option" where
  "top_event s = (case sc_heap s of [] \<Rightarrow> None | event # _ \<Rightarrow> Some event)"

subsection \<open>The order of the events\<close>

definition due :: "scheduled_event \<Rightarrow> nat \<times> nat" where
  "due e = (unat (se_timestamp_ns e), phase_rank (se_phase e))"

definition event_key :: "scheduled_event \<Rightarrow> (nat \<times> nat) \<times> nat" where
  "event_key e = (due e, unat (se_sequence_number e))"

lemma comes_before_key: "comes_before a b \<longleftrightarrow> event_key a < event_key b"
  by (simp add: comes_before_def event_key_def due_def less_prod_def less_eq_prod_def word_less_nat_alt
      word_unat_eq_iff) linarith

definition scheduler_ok :: "scheduler \<Rightarrow> bool" where
  "scheduler_ok s \<longleftrightarrow> heap_ok event_key (sc_heap s)"

subsection \<open>The sifts restore the heap\<close>

lemma sift_up_mset: "i < length heap \<Longrightarrow> mset (sift_up heap i) = mset heap"
proof (induction heap i rule: sift_up.induct)
  case (1 heap i)
  show ?case
  proof (cases "0 < i \<and> comes_before (heap ! i) (heap ! ((i - 1) div 2))")
    case True
    then have "(i - 1) div 2 < length heap" using "1.prems" by simp
    then show ?thesis
      using True 1 by (simp add: sift_up.simps [of heap i] Let_def)
  qed (auto simp: sift_up.simps [of heap i] Let_def)
qed

lemma sift_up_heap: "up_inv event_key heap i \<Longrightarrow> i < length heap \<Longrightarrow> heap_ok event_key (sift_up heap i)"
proof (induction heap i rule: sift_up.induct)
  case (1 heap i)
  show ?case
  proof (cases "0 < i \<and> comes_before (heap ! i) (heap ! parent i)")
    case True
    then have step: "up_inv event_key (swap heap i (parent i)) (parent i)"
      using "1.prems" by (intro up_step) (simp_all add: comes_before_key)
    have "parent i < length heap"
      using True "1.prems"(2) order.strict_trans [OF parent_less [of i]] by blast
    then have "heap_ok event_key (sift_up (swap heap i (parent i)) (parent i))"
      using True step "1.IH" [of "parent i"] by (simp add: parent_def)
    then show ?thesis
      using True by (simp add: sift_up.simps [of heap i] Let_def parent_def)
  next
    case False
    then have "heap_ok event_key heap"
      using "1.prems"(1) by (intro up_done) (auto simp: comes_before_key not_less)
    then show ?thesis
      using False by (auto simp: sift_up.simps [of heap i] Let_def parent_def)
  qed
qed

lemma smallest_child_least:
  assumes "j < length heap" "0 < j" "parent j = i"
  shows "event_key (heap ! smallest_child heap i) \<le> event_key (heap ! j)"
proof -
  have "j = i * 2 + 1 \<or> j = i * 2 + 1 + 1"
    using parent_eq [OF assms(2), of i] assms(3) by (simp add: mult.commute)
  then show ?thesis
    using assms(1) by (elim disjE) (auto simp: smallest_child_def Let_def comes_before_key)
qed

lemma smallest_child_less:
  "smallest_child heap i \<noteq> i \<Longrightarrow> parent (smallest_child heap i) = i
     \<and> event_key (heap ! smallest_child heap i) < event_key (heap ! i)"
  by (auto simp: smallest_child_def Let_def comes_before_key parent_def split: if_splits)

lemma sift_down_mset: "mset (sift_down heap i) = mset heap"
proof (induction heap i rule: sift_down.induct)
  case (1 heap i)
  then show ?case
    using smallest_child_bounds [of heap i] swap_mset [of i heap "smallest_child heap i"]
    by (cases "smallest_child heap i = i") (simp_all add: sift_down.simps [of heap i] Let_def)
qed

lemma sift_down_heap: "down_inv event_key heap i \<Longrightarrow> heap_ok event_key (sift_down heap i)"
proof (induction heap i rule: sift_down.induct)
  case (1 heap i)
  let ?m = "smallest_child heap i"
  show ?case
  proof (cases "?m = i")
    case True
    have "heap_ok event_key heap"
      using "1.prems" by (rule down_done) (use smallest_child_least [of _ heap i] True in simp)
    then show ?thesis
      using True by (simp add: sift_down.simps [of heap i] Let_def)
  next
    case False
    note m = smallest_child_bounds [OF False] smallest_child_less [OF False]
    have "down_inv event_key (swap heap i ?m) ?m"
      using "1.prems" m by (intro down_step) (auto intro: smallest_child_least)
    then show ?thesis
      using False "1.IH" [OF refl False] by (simp add: sift_down.simps [of heap i] Let_def)
  qed
qed

subsection \<open>Push and pop\<close>

lemma empty_scheduler_fields: "sc_heap empty_scheduler = []" "sc_next_sequence empty_scheduler = 0"
  by (simp_all add: empty_scheduler_def)

lemma empty_scheduler_ok [simp]: "scheduler_ok empty_scheduler"
  by (simp add: scheduler_ok_def empty_scheduler_def heap_ok_def)

lemma clear_scheduler_eq: "clear_scheduler s = empty_scheduler"
  by (simp add: clear_scheduler_def empty_scheduler_def)

lemma push_full: "length (sc_heap s) = cap \<Longrightarrow> push cap e s = (s, False)"
  by (simp add: push_def)

lemma push_stamped:
  assumes "scheduler_ok s" "length (sc_heap s) \<noteq> cap"
  shows "scheduler_ok (fst (push cap e s)) \<and> snd (push cap e s)
    \<and> mset (sc_heap (fst (push cap e s)))
        = add_mset (e\<lparr>se_sequence_number := sc_next_sequence s\<rparr>) (mset (sc_heap s))
    \<and> sc_next_sequence (fst (push cap e s)) = sc_next_sequence s + 1"
  using assms snoc_up_inv [of event_key "sc_heap s"]
  by (simp add: push_def Let_def scheduler_ok_def sift_up_heap sift_up_mset)

lemma pop_empty: "sc_heap s = [] \<Longrightarrow> pop s = (s, None)"
  by (simp add: pop_def)

lemma pop_least:
  assumes ok: "scheduler_ok s" and ne: "sc_heap s \<noteq> []"
  shows "\<exists>s' e. pop s = (s', Some e) \<and> scheduler_ok s'
    \<and> mset (sc_heap s) = add_mset e (mset (sc_heap s'))
    \<and> (\<forall>x\<in>set (sc_heap s). event_key e \<le> event_key x)
    \<and> sc_next_sequence s' = sc_next_sequence s"
proof -
  obtain e rest where heap: "sc_heap s = e # rest"
    using ne by (cases "sc_heap s") auto
  have least: "\<forall>x\<in>set (sc_heap s). event_key e \<le> event_key x"
  proof
    fix x assume "x \<in> set (sc_heap s)"
    then obtain i where "i < length (sc_heap s)" "x = sc_heap s ! i"
      by (auto simp: in_set_conv_nth)
    then show "event_key e \<le> event_key x"
      using heap_ok_root [of event_key "sc_heap s" i] ok heap by (simp add: scheduler_ok_def)
  qed
  show ?thesis
  proof (cases "rest = []")
    case True
    then show ?thesis
      using heap least by (simp add: pop_def scheduler_ok_def heap_ok_def)
  next
    case False
    let ?h = "sift_down ((butlast (sc_heap s))[0 := last (sc_heap s)]) 0"
    have "heap_ok event_key ?h"
      using ok ne by (intro sift_down_heap replace_root_down_inv) (simp_all add: scheduler_ok_def)
    moreover have "mset (sc_heap s) = add_mset e (mset ?h)"
    proof -
      have "rest = butlast rest @ [last rest]" using False by simp
      then have "mset rest = add_mset (last rest) (mset (butlast rest))"
        by (metis mset_append mset.simps add_mset_add_single)
      then show ?thesis
        using False heap by (simp add: sift_down_mset)
    qed
    ultimately show ?thesis
      using heap False least by (simp add: pop_def Let_def scheduler_ok_def)
  qed
qed

interpretation sched: min_queue "\<lambda>s. mset (sc_heap s)" event_key scheduler_ok pop
proof
  fix s show "mset (sc_heap s) = {#} \<Longrightarrow> pop s = (s, None)" by (simp add: pop_empty)
next
  fix s
  assume "scheduler_ok s" "mset (sc_heap s) \<noteq> {#}"
  then show "\<exists>s' e. pop s = (s', Some e) \<and> scheduler_ok s'
      \<and> mset (sc_heap s) = add_mset e (mset (sc_heap s')) \<and> (\<forall>x\<in>#mset (sc_heap s). event_key e \<le> event_key x)"
    using pop_least [of s] by auto
qed

subsection \<open>The specification: a stable queue by time and phase\<close>

type_synonym event_queue = "scheduled_event list \<times> nat"

definition queue_push :: "nat \<Rightarrow> scheduled_event \<Rightarrow> event_queue \<Rightarrow> event_queue \<times> bool" where
  "queue_push cap e q =
     (if length (fst q) = cap then (q, False)
      else
        let e = e\<lparr>se_sequence_number := of_nat (snd q)\<rparr>
        in ((takeWhile (\<lambda>x. due x \<le> due e) (fst q) @ e # dropWhile (\<lambda>x. due x \<le> due e) (fst q),
             Suc (snd q)), True))"

definition queue_pop :: "event_queue \<Rightarrow> event_queue \<times> scheduled_event option" where
  "queue_pop q = (case fst q of [] \<Rightarrow> (q, None) | e # rest \<Rightarrow> ((rest, snd q), Some e))"

definition implements :: "scheduler \<Rightarrow> event_queue \<Rightarrow> bool" where
  "implements s q \<longleftrightarrow> scheduler_ok s \<and> fst q = sort_key event_key (sc_heap s)
     \<and> snd q = unat (sc_next_sequence s)
     \<and> (\<forall>e\<in>set (sc_heap s). unat (se_sequence_number e) < snd q)
     \<and> inj_on se_sequence_number (set (sc_heap s))"

lemma event_key_inj: "inj_on se_sequence_number A \<Longrightarrow> inj_on event_key A"
  by (auto simp: inj_on_def event_key_def word_unat_eq_iff)

lemma implements_empty: "implements empty_scheduler ([], 0)"
  by (simp add: implements_def) (simp add: empty_scheduler_def)

lemma implements_length: "implements s q \<Longrightarrow> length (fst q) = length (sc_heap s)"
  by (simp add: implements_def)

lemma queue_pop_refines:
  assumes imp: "implements s q"
  shows "snd (pop s) = snd (queue_pop q) \<and> implements (fst (pop s)) (fst (queue_pop q))"
proof (cases "sc_heap s = []")
  case True
  then show ?thesis
    using imp by (simp add: implements_def pop_def queue_pop_def)
next
  case False
  then obtain s' e where pop: "pop s = (s', Some e)" "scheduler_ok s'"
      "mset (sc_heap s) = add_mset e (mset (sc_heap s'))"
      "\<forall>x\<in>set (sc_heap s). event_key e \<le> event_key x" "sc_next_sequence s' = sc_next_sequence s"
    using imp pop_least [of s] by (auto simp: implements_def)
  have sets: "set (sc_heap s) = insert e (set (sc_heap s'))"
    using mset_eq_setD [of "sc_heap s" "e # sc_heap s'"] pop(3) by simp
  have "sort_key event_key (sc_heap s) = e # sort_key event_key (sc_heap s')"
    using imp pop(3,4) sets
    by (intro sort_key_inj_key_eq event_key_inj) (auto simp: implements_def)
  then show ?thesis
    using imp pop sets by (auto simp: implements_def queue_pop_def inj_on_def)
qed

lemma queue_push_refines:
  assumes imp: "implements s q" and room: "Suc (snd q) < 2 ^ 64"
  shows "snd (push cap e s) = snd (queue_push cap e q)
    \<and> implements (fst (push cap e s)) (fst (queue_push cap e q))"
proof (cases "length (sc_heap s) = cap")
  case True
  then show ?thesis
    using imp by (simp add: push_full queue_push_def implements_length)
next
  case False
  let ?e = "e\<lparr>se_sequence_number := sc_next_sequence s\<rparr>" and ?q = "fst q"
  let ?before = "\<lambda>x. due x \<le> due ?e"
  define q' where "q' = takeWhile ?before ?q @ ?e # dropWhile ?before ?q"
  have stamp: "of_nat (snd q) = sc_next_sequence s"
    using imp by (simp add: implements_def)
  have push: "scheduler_ok (fst (push cap e s))" "snd (push cap e s)"
      "mset (sc_heap (fst (push cap e s))) = add_mset ?e (mset (sc_heap s))"
      "sc_next_sequence (fst (push cap e s)) = sc_next_sequence s + 1"
    using imp push_stamped [of s cap e] False by (simp_all add: implements_def)
  have old: "\<forall>x\<in>set ?q. unat (se_sequence_number x) \<le> unat (se_sequence_number ?e)"
    using imp by (auto simp: implements_def)
  have "sorted (map event_key ?q)"
    using imp by (simp add: implements_def)
  then have sorted: "sorted (map event_key q')"
    using old unfolding event_key_def q'_def by (intro sorted_insert_after) simp_all
  have sets: "set (sc_heap (fst (push cap e s))) = insert ?e (set (sc_heap s))"
    using mset_eq_setD [of "sc_heap (fst (push cap e s))" "?e # sc_heap s"] push(3) by simp
  have fresh: "\<forall>x\<in>set (sc_heap s). se_sequence_number x \<noteq> sc_next_sequence s"
    using imp by (auto simp: implements_def)
  have inj: "inj_on se_sequence_number (set (sc_heap (fst (push cap e s))))"
    using imp fresh unfolding sets by (auto simp: implements_def)
  have "sort_key event_key (sc_heap (fst (push cap e s))) = q'"
  proof (rule sort_key_inj_key_eq)
    show "mset (sc_heap (fst (push cap e s))) = mset q'"
      using imp unfolding q'_def insert_after_mset push(3) by (simp add: implements_def)
  qed (use sorted event_key_inj [OF inj] in simp_all)
  moreover have "unat (sc_next_sequence s + 1) = Suc (snd q)"
    using imp room by (simp add: implements_def unat_word_ariths(1) unat_1)
  moreover have "\<forall>x\<in>set (sc_heap (fst (push cap e s))). unat (se_sequence_number x) < Suc (snd q)"
    using imp unfolding sets by (auto simp: implements_def)
  ultimately show ?thesis
    using push inj False imp
    by (simp add: implements_def queue_push_def Let_def q'_def stamp implements_length [OF imp])
qed

subsection \<open>Runs of the scheduler\<close>

datatype scheduler_op = Push_event scheduled_event | Pop_event | Clear_events

datatype scheduler_answer = Pushed bool | Popped "scheduled_event option" | Cleared

fun scheduler_step :: "nat \<Rightarrow> scheduler_op \<Rightarrow> scheduler \<Rightarrow> scheduler \<times> scheduler_answer" where
  "scheduler_step cap (Push_event e) s = (case push cap e s of (s, ok) \<Rightarrow> (s, Pushed ok))"
| "scheduler_step cap Pop_event s = (case pop s of (s, e) \<Rightarrow> (s, Popped e))"
| "scheduler_step cap Clear_events s = (clear_scheduler s, Cleared)"

fun queue_step :: "nat \<Rightarrow> scheduler_op \<Rightarrow> event_queue \<Rightarrow> event_queue \<times> scheduler_answer" where
  "queue_step cap (Push_event e) q = (case queue_push cap e q of (q, ok) \<Rightarrow> (q, Pushed ok))"
| "queue_step cap Pop_event q = (case queue_pop q of (q, e) \<Rightarrow> (q, Popped e))"
| "queue_step cap Clear_events q = (([], 0), Cleared)"

fun answers :: "('o \<Rightarrow> 's \<Rightarrow> 's \<times> 'a) \<Rightarrow> 'o list \<Rightarrow> 's \<Rightarrow> 'a list" where
  "answers step [] s = []"
| "answers step (op # ops) s = (case step op s of (s, a) \<Rightarrow> a # answers step ops s)"

lemma scheduler_step_refines:
  assumes "implements s q" "Suc (snd q) < 2 ^ 64"
  shows "snd (scheduler_step cap op s) = snd (queue_step cap op q)
    \<and> implements (fst (scheduler_step cap op s)) (fst (queue_step cap op q))
    \<and> snd (fst (queue_step cap op q)) \<le> Suc (snd q)"
proof (cases op)
  case (Push_event e)
  then show ?thesis
    using queue_push_refines [OF assms, of cap e]
    by (simp add: case_prod_beta) (simp add: queue_push_def Let_def)
next
  case Pop_event
  then show ?thesis
    using queue_pop_refines [OF assms(1)]
    by (simp add: case_prod_beta) (simp add: queue_pop_def split: list.split)
qed (simp add: clear_scheduler_eq implements_empty)

lemma scheduler_run_refines:
  "implements s q \<Longrightarrow> snd q + length ops < 2 ^ 64 \<Longrightarrow>
   answers (scheduler_step cap) ops s = answers (queue_step cap) ops q"
proof (induction ops arbitrary: s q)
  case (Cons op ops)
  then have "Suc (snd q) < 2 ^ 64" by simp
  note step = scheduler_step_refines [OF Cons.prems(1) this, of cap op]
  then have "answers (scheduler_step cap) ops (fst (scheduler_step cap op s))
      = answers (queue_step cap) ops (fst (queue_step cap op q))"
    using Cons.prems(2) by (intro Cons.IH) auto
  then show ?case
    using step by (simp add: case_prod_beta)
qed simp

subsection \<open>Draining a filled scheduler\<close>

fun stamp :: "nat \<Rightarrow> scheduled_event list \<Rightarrow> scheduled_event list" where
  "stamp n [] = []"
| "stamp n (e # es) = e\<lparr>se_sequence_number := of_nat n\<rparr> # stamp (Suc n) es"

definition push_all :: "nat \<Rightarrow> scheduled_event list \<Rightarrow> scheduler \<Rightarrow> scheduler" where
  "push_all cap es s = fold (\<lambda>e s. fst (push cap e s)) es s"

lemma stamp_numbers:
  "n + length es < 2 ^ 64 \<Longrightarrow>
   map (\<lambda>e. unat (se_sequence_number e)) (stamp n es) = [n..<n + length es]"
proof (induction n es rule: stamp.induct)
  case (2 n e es)
  then have "unat (of_nat n :: u64) = n"
    by (simp add: unat_of_nat)
  moreover have "map (\<lambda>e. unat (se_sequence_number e)) (stamp (Suc n) es) = [Suc n..<Suc n + length es]"
    using 2 by simp
  moreover have "[n..<n + length (e # es)] = n # [Suc n..<Suc n + length es]"
    using upt_conv_Cons [of n "n + length (e # es)"] by simp
  ultimately show ?case
    by simp
qed simp

lemma push_all_stamped:
  "scheduler_ok s \<Longrightarrow> length (sc_heap s) + length es \<le> cap \<Longrightarrow> sc_next_sequence s = of_nat n \<Longrightarrow>
   scheduler_ok (push_all cap es s)
   \<and> mset (sc_heap (push_all cap es s)) = mset (sc_heap s) + mset (stamp n es)"
proof (induction es arbitrary: s n)
  case (Cons e es)
  let ?s = "fst (push cap e s)"
  have push: "scheduler_ok ?s" "sc_next_sequence ?s = of_nat (Suc n)"
      "mset (sc_heap ?s) = add_mset (e\<lparr>se_sequence_number := of_nat n\<rparr>) (mset (sc_heap s))"
    using push_stamped [of s cap e] Cons.prems by (simp_all add: add.commute)
  have "length (sc_heap ?s) = Suc (length (sc_heap s))"
    using arg_cong [OF push(3), of size] by simp
  then show ?case
    using Cons.IH [OF push(1) _ push(2)] Cons.prems(2) push(3) by (simp add: push_all_def)
qed (simp add: push_all_def)

lemma drain_stable:
  assumes "length es \<le> cap" "length es < 2 ^ 64"
  shows "sched.drain (length es) (push_all cap es empty_scheduler) = sort_key due (stamp 0 es)"
proof -
  let ?s = "push_all cap es empty_scheduler"
  have filled: "scheduler_ok ?s" "mset (sc_heap ?s) = mset (stamp 0 es)"
    using push_all_stamped [of empty_scheduler es cap 0] assms(1)
    by (simp_all add: empty_scheduler_fields)
  have numbers: "map (\<lambda>e. unat (se_sequence_number e)) (stamp 0 es) = [0..<length es]"
    using stamp_numbers [of 0 es] assms(2) by simp
  then have len: "length (stamp 0 es) = length es"
    by (metis length_map length_upt minus_nat.diff_0)
  have "size (mset (sc_heap ?s)) \<le> length es"
    using arg_cong [OF filled(2), of size] len by simp
  from sched.drain_sorted [OF filled(1) this]
  have drained: "mset (stamp 0 es) = mset (sched.drain (length es) ?s)"
      "sorted (map event_key (sched.drain (length es) ?s))"
    using filled(2) by simp_all
  have "distinct (map (\<lambda>e. unat (se_sequence_number e)) (stamp 0 es))"
    by (simp add: numbers)
  then have "inj_on event_key (set (stamp 0 es))"
    by (auto simp: distinct_map inj_on_def event_key_def)
  then have "sort_key event_key (stamp 0 es) = sched.drain (length es) ?s"
    using drained by (intro sort_key_inj_key_eq)
  moreover have "sort_key event_key (stamp 0 es) = sort_key due (stamp 0 es)"
    unfolding event_key_def using numbers by (intro sort_key_lex) simp
  ultimately show ?thesis by simp
qed

subsection \<open>Properties\<close>

text \<open>C9: In every run of pushes, pops and clears of fewer than \<open>2 ^ 64\<close> calls, the
  heap answers like the list kept sorted by time and phase in which an event goes
  behind every event that is not due later: pushes are refused exactly when the
  capacity is used up, each pop returns the pending event that is due first, and
  events due at the same time and phase come out in the order they were pushed.\<close>
theorem scheduler_is_a_stable_queue:
  assumes "length ops < 2 ^ 64"
  shows "answers (scheduler_step cap) ops empty_scheduler = answers (queue_step cap) ops ([], 0)"
  using scheduler_run_refines [OF implements_empty, of ops cap] assms by simp

definition event_at :: "time_ns \<Rightarrow> event_phase \<Rightarrow> market_id \<Rightarrow> scheduled_event" where
  "event_at t p m = default_event\<lparr>se_timestamp_ns := t, se_phase := p, se_market_id := m\<rparr>"

theorem scheduler_is_a_stable_queue_witness:
  "answers (scheduler_step 2) [Push_event (event_at 5 MarketPhase 1), Push_event (event_at 5 MarketPhase 2),
     Push_event default_event, Pop_event] empty_scheduler
   = answers (queue_step 2) [Push_event (event_at 5 MarketPhase 1), Push_event (event_at 5 MarketPhase 2),
     Push_event default_event, Pop_event] ([], 0)"
  by (rule scheduler_is_a_stable_queue) simp

text \<open>C10: Filling an empty scheduler with no more events than it holds and popping
  them all yields the events sorted by time and phase, stably: the sort keeps the
  order of the pushes among events due together.\<close>
theorem scheduler_drains_in_stable_order:
  assumes "length es \<le> cap" "length es < 2 ^ 64"
  shows "sched.drain (length es) (push_all cap es empty_scheduler) = sort_key due (stamp 0 es)"
  using assms by (rule drain_stable)

theorem scheduler_drains_in_stable_order_witness:
  "sched.drain (length [event_at 9 AgentPhase 1, event_at 4 PostMarket 2, event_at 4 AgentPhase 3])
     (push_all 4 [event_at 9 AgentPhase 1, event_at 4 PostMarket 2, event_at 4 AgentPhase 3] empty_scheduler)
   = sort_key due (stamp 0 [event_at 9 AgentPhase 1, event_at 4 PostMarket 2, event_at 4 AgentPhase 3])"
  by (rule scheduler_drains_in_stable_order) simp_all

end
