(* ===== verification/LatencyModel.thy ===== *)
theory LatencyModel
  imports SimTypes
begin

section \<open>Latency models\<close>

text \<open>
  \<open>include/lob/sim/latency_model.hpp\<close>: a base latency plus a jitter drawn from
  one of four distributions, with a 64-bit xorshift generator. A \<open>double\<close> is its
  IEEE-754 bit pattern: comparisons, \<open>std::isfinite\<close> and the truncating cast are
  computed on it. The rounded arithmetic and the functions of \<open><cmath>\<close> are the
  record \<open>fp\<close> of operations, a parameter about which nothing is assumed.
\<close>

type_synonym double = u64

record fp =
  fp_of_u64 :: "u64 \<Rightarrow> double"
  fp_neg :: "double \<Rightarrow> double"
  fp_add :: "double \<Rightarrow> double \<Rightarrow> double"
  fp_mul :: "double \<Rightarrow> double \<Rightarrow> double"
  fp_div :: "double \<Rightarrow> double \<Rightarrow> double"
  fp_log :: "double \<Rightarrow> double"
  fp_log1p :: "double \<Rightarrow> double"
  fp_exp :: "double \<Rightarrow> double"
  fp_sqrt :: "double \<Rightarrow> double"
  fp_cos :: "double \<Rightarrow> double"

definition dbl_zero :: double where "dbl_zero = 0"
definition dbl_half :: double where "dbl_half = 0x3FE0000000000000"
definition dbl_one :: double where "dbl_one = 0x3FF0000000000000"
definition dbl_below_one :: double where "dbl_below_one = 0x3FEFFFFFFFFFFFFF"
definition dbl_min :: double where "dbl_min = 0x0010000000000000"
definition dbl_minus_two :: double where "dbl_minus_two = 0xC000000000000000"
definition dbl_two_pi :: double where "dbl_two_pi = 0x401921FB54442D18"
definition dbl_two_64 :: double where "dbl_two_64 = 0x43F0000000000000"
definition dbl_infinity :: double where "dbl_infinity = 0x7FF0000000000000"
definition dbl_minus_zero :: double where "dbl_minus_zero = 0x8000000000000000"
definition dbl_minus_infinity :: double where "dbl_minus_infinity = 0xFFF0000000000000"

definition is_positive :: "double \<Rightarrow> bool" where
  "is_positive d \<longleftrightarrow> dbl_zero < d \<and> d \<le> dbl_infinity"

definition is_at_most_zero :: "double \<Rightarrow> bool" where
  "is_at_most_zero d \<longleftrightarrow> d = dbl_zero \<or> (dbl_minus_zero \<le> d \<and> d \<le> dbl_minus_infinity)"

definition is_at_least_one :: "double \<Rightarrow> bool" where
  "is_at_least_one d \<longleftrightarrow> dbl_one \<le> d \<and> d \<le> dbl_infinity"

definition is_finite :: "double \<Rightarrow> bool" where
  "is_finite d \<longleftrightarrow> drop_bit 52 d AND 0x7FF \<noteq> 0x7FF"

text \<open>The truncating cast of a finite positive double: significand times a power of two.\<close>

definition dbl_exponent :: "double \<Rightarrow> nat" where
  "dbl_exponent d = unat (drop_bit 52 d AND 0x7FF)"

definition dbl_significand :: "double \<Rightarrow> nat" where
  "dbl_significand d = unat (take_bit 52 d) + (if dbl_exponent d = 0 then 0 else 2 ^ 52)"

definition dbl_truncate :: "double \<Rightarrow> nat" where
  "dbl_truncate d =
     (let e = max 1 (dbl_exponent d) in
      if 1075 \<le> e then dbl_significand d * 2 ^ (e - 1075)
      else dbl_significand d div 2 ^ (1075 - e))"

definition max_time_ns :: time_ns where "max_time_ns = - 1"

subsection \<open>The model and its settings\<close>

datatype latency_distribution = FixedLatency | UniformLatency | ExponentialLatency | LogNormalLatency

record latency_model =
  base_latency_ns :: time_ns
  jitter_bound_ns :: time_ns
  exponential_mean_ns :: double
  lognormal_mu :: double
  lognormal_sigma :: double
  distribution :: latency_distribution
  rng_state :: u64

definition seed_state :: "u64 \<Rightarrow> u64" where
  "seed_state seed = (if seed = 0 then 1 else seed)"

definition default_latency :: latency_model where
  "default_latency = \<lparr>base_latency_ns = 0, jitter_bound_ns = 0, exponential_mean_ns = dbl_zero,
     lognormal_mu = dbl_zero, lognormal_sigma = dbl_zero, distribution = FixedLatency, rng_state = 1\<rparr>"

definition latency_model_of :: "time_ns \<Rightarrow> time_ns \<Rightarrow> u64 \<Rightarrow> latency_model" where
  "latency_model_of base jitter seed = default_latency\<lparr>base_latency_ns := base, jitter_bound_ns := jitter,
     distribution := (if jitter = 0 then FixedLatency else UniformLatency), rng_state := seed_state seed\<rparr>"

definition distributed_latency ::
  "fp \<Rightarrow> latency_distribution \<Rightarrow> time_ns \<Rightarrow> time_ns \<Rightarrow> u64 \<Rightarrow> latency_model" where
  "distributed_latency fp dist base jitter seed = default_latency\<lparr>base_latency_ns := base,
     jitter_bound_ns := jitter,
     exponential_mean_ns := (if dist = ExponentialLatency then fp_of_u64 fp jitter else dbl_zero),
     distribution := dist, rng_state := seed_state seed\<rparr>"

definition full_latency ::
  "latency_distribution \<Rightarrow> time_ns \<Rightarrow> time_ns \<Rightarrow> double \<Rightarrow> double \<Rightarrow> double \<Rightarrow> u64 \<Rightarrow> latency_model" where
  "full_latency dist base jitter mean mu sigma seed =
     \<lparr>base_latency_ns = base, jitter_bound_ns = jitter, exponential_mean_ns = mean, lognormal_mu = mu,
      lognormal_sigma = sigma, distribution = dist, rng_state = seed_state seed\<rparr>"

definition fixed_latency :: "time_ns \<Rightarrow> u64 \<Rightarrow> latency_model" where
  "fixed_latency base seed = full_latency FixedLatency base 0 dbl_zero dbl_zero dbl_zero seed"

definition uniform_latency :: "time_ns \<Rightarrow> time_ns \<Rightarrow> u64 \<Rightarrow> latency_model" where
  "uniform_latency base jitter seed = full_latency UniformLatency base jitter dbl_zero dbl_zero dbl_zero seed"

definition exponential_latency :: "time_ns \<Rightarrow> double \<Rightarrow> u64 \<Rightarrow> latency_model" where
  "exponential_latency base mean seed = full_latency ExponentialLatency base 0 mean dbl_zero dbl_zero seed"

definition lognormal_latency :: "time_ns \<Rightarrow> double \<Rightarrow> double \<Rightarrow> u64 \<Rightarrow> latency_model" where
  "lognormal_latency base mu sigma seed = full_latency LogNormalLatency base 0 dbl_zero mu sigma seed"

definition set_jitter_bound :: "time_ns \<Rightarrow> latency_model \<Rightarrow> latency_model" where
  "set_jitter_bound jitter m = m\<lparr>jitter_bound_ns := jitter,
     distribution := (if jitter = 0 then FixedLatency else UniformLatency)\<rparr>"

definition reseed :: "u64 \<Rightarrow> latency_model \<Rightarrow> latency_model" where
  "reseed s m = m\<lparr>rng_state := seed_state s\<rparr>"

definition valid_latency_config :: "latency_model \<Rightarrow> bool" where
  "valid_latency_config m \<longleftrightarrow>
     (case distribution m of
        FixedLatency \<Rightarrow> True
      | UniformLatency \<Rightarrow> True
      | ExponentialLatency \<Rightarrow> is_positive (exponential_mean_ns m) \<and> is_finite (exponential_mean_ns m)
      | LogNormalLatency \<Rightarrow> is_finite (lognormal_mu m) \<and> is_positive (lognormal_sigma m)
          \<and> is_finite (lognormal_sigma m))"

subsection \<open>Sampling\<close>

definition xorshift :: "u64 \<Rightarrow> u64" where
  "xorshift x0 =
     (let x = x0 XOR push_bit 13 x0;
          x = x XOR drop_bit 7 x;
          x = x XOR push_bit 17 x
      in x)"

definition next_random :: "latency_model \<Rightarrow> u64 \<times> latency_model" where
  "next_random m =
     (let x = xorshift (rng_state m);
          x = (if x = 0 then 1 else x)
      in (x, m\<lparr>rng_state := x\<rparr>))"

definition sample_uniform_jitter :: "latency_model \<Rightarrow> time_ns \<times> latency_model" where
  "sample_uniform_jitter m =
     (if jitter_bound_ns m = 0 then (0, m)
      else let (x, m') = next_random m in
        (if jitter_bound_ns m = max_time_ns then x else x mod (jitter_bound_ns m + 1), m'))"

definition next_unit_open :: "fp \<Rightarrow> latency_model \<Rightarrow> double \<times> latency_model" where
  "next_unit_open fp m =
     (let scale = fp_div fp dbl_one (fp_of_u64 fp max_time_ns);
          (x, m) = next_random m;
          u = fp_mul fp (fp_add fp (fp_of_u64 fp x) dbl_half) scale
      in (if is_at_most_zero u then dbl_min
          else if is_at_least_one u then dbl_below_one
          else u, m))"

definition double_to_latency_ns :: "double \<Rightarrow> time_ns" where
  "double_to_latency_ns v =
     (if \<not> is_positive v \<or> \<not> is_finite v then 0
      else if dbl_two_64 \<le> v then max_time_ns
      else of_nat (dbl_truncate v))"

definition sample_exponential_jitter :: "fp \<Rightarrow> latency_model \<Rightarrow> time_ns \<times> latency_model" where
  "sample_exponential_jitter fp m =
     (let (u, m') = next_unit_open fp m in
      (double_to_latency_ns (fp_mul fp (fp_neg fp (exponential_mean_ns m)) (fp_log1p fp (fp_neg fp u))), m'))"

definition sample_lognormal_jitter :: "fp \<Rightarrow> latency_model \<Rightarrow> time_ns \<times> latency_model" where
  "sample_lognormal_jitter fp m =
     (let (u1, m1) = next_unit_open fp m;
          (u2, m2) = next_unit_open fp m1;
          z = fp_mul fp (fp_sqrt fp (fp_mul fp dbl_minus_two (fp_log fp u1)))
                (fp_cos fp (fp_mul fp dbl_two_pi u2))
      in (double_to_latency_ns (fp_exp fp (fp_add fp (lognormal_mu m) (fp_mul fp (lognormal_sigma m) z))), m2))"

definition next_latency_ns :: "fp \<Rightarrow> latency_model \<Rightarrow> time_ns \<times> latency_model" where
  "next_latency_ns fp m =
     (if \<not> valid_latency_config m then (base_latency_ns m, m)
      else
        let (jitter, m) =
          (case distribution m of
             FixedLatency \<Rightarrow> (0, m)
           | UniformLatency \<Rightarrow> sample_uniform_jitter m
           | ExponentialLatency \<Rightarrow> sample_exponential_jitter fp m
           | LogNormalLatency \<Rightarrow> sample_lognormal_jitter fp m)
        in if max_time_ns - base_latency_ns m < jitter then (max_time_ns, m)
           else (base_latency_ns m + jitter, m))"

subsection \<open>The generator is a permutation of the non-zero states\<close>

lemma push_bit_fixed:
  fixes d :: "'a::len word"
  assumes "d = push_bit n d" "0 < n"
  shows "d = 0"
proof -
  have "\<not> bit d k" for k
  proof (induction k rule: less_induct)
    case (less k)
    show ?case
    proof
      assume "bit d k"
      then have "n \<le> k \<and> bit d (k - n)"
        using assms(1) by (metis bit_push_bit_iff)
      then show False
        using less [of "k - n"] assms(2) by simp
    qed
  qed
  then show ?thesis by (simp add: bit_eq_iff)
qed

lemma drop_bit_fixed:
  fixes d :: "'a::len word"
  assumes "d = drop_bit n d" "0 < n"
  shows "d = 0"
proof -
  have "\<not> bit d k" for k
  proof (induction "LENGTH('a) - k" arbitrary: k rule: less_induct)
    case less
    show ?case
    proof
      assume b: "bit d k"
      then have "bit d (n + k)"
        using assms(1) by (metis bit_drop_bit_eq comp_apply)
      moreover have "k < LENGTH('a)"
        using b by (rule bit_imp_le_length)
      ultimately show False
        using less [of "n + k"] assms(2) by simp
    qed
  qed
  then show ?thesis by (simp add: bit_eq_iff)
qed

lemma xor_left_self: "x XOR (x XOR y) = (y :: 'a::len word)"
  by (simp add: xor.assoc [symmetric])

lemma xor_eq_zero: "x XOR y = 0 \<longleftrightarrow> x = (y :: 'a::len word)"
  by (metis xor_left_self xor.right_neutral xor_self_eq)

lemma xor_shift_inj:
  fixes x y :: "'a::len word"
  assumes "0 < n"
  shows "x XOR push_bit n x = y XOR push_bit n y \<Longrightarrow> x = y"
    and "x XOR drop_bit n x = y XOR drop_bit n y \<Longrightarrow> x = y"
proof -
  assume "x XOR push_bit n x = y XOR push_bit n y"
  then have "(x XOR push_bit n x) XOR (y XOR push_bit n y) = 0"
    by simp
  then have "(x XOR y) XOR push_bit n (x XOR y) = 0"
    by (simp only: push_bit_xor ac_simps)
  then have "x XOR y = push_bit n (x XOR y)"
    by (simp only: xor_eq_zero)
  then have "x XOR y = 0"
    using assms by (rule push_bit_fixed)
  then show "x = y"
    by (simp only: xor_eq_zero)
next
  assume "x XOR drop_bit n x = y XOR drop_bit n y"
  then have "(x XOR drop_bit n x) XOR (y XOR drop_bit n y) = 0"
    by simp
  then have "(x XOR y) XOR drop_bit n (x XOR y) = 0"
    by (simp only: drop_bit_xor ac_simps)
  then have "x XOR y = drop_bit n (x XOR y)"
    by (simp only: xor_eq_zero)
  then have "x XOR y = 0"
    using assms by (rule drop_bit_fixed)
  then show "x = y"
    by (simp only: xor_eq_zero)
qed

lemma xorshift_inj: "xorshift x = xorshift y \<Longrightarrow> x = y"
  unfolding xorshift_def Let_def
  by (rule xor_shift_inj(1) [of 13], simp, rule xor_shift_inj(2) [of 7], simp, rule xor_shift_inj(1) [of 17], simp)

lemma xorshift_zero: "xorshift x = 0 \<longleftrightarrow> x = 0"
  using xorshift_inj [of x 0] by (auto simp: xorshift_def)

definition latency_ok :: "latency_model \<Rightarrow> bool" where
  "latency_ok m \<longleftrightarrow> rng_state m \<noteq> 0"

lemma next_random_eq: "latency_ok m \<Longrightarrow> next_random m = (xorshift (rng_state m), m\<lparr>rng_state := xorshift (rng_state m)\<rparr>)"
  by (simp add: next_random_def Let_def latency_ok_def xorshift_zero)

text \<open>Sampling changes the generator and nothing else.\<close>

definition resampled :: "latency_model \<Rightarrow> latency_model \<Rightarrow> bool" where
  "resampled m m' \<longleftrightarrow> (\<exists>s. m' = m\<lparr>rng_state := s\<rparr>) \<and> (latency_ok m \<longrightarrow> latency_ok m')"

lemma resampled_refl: "resampled m m"
  unfolding resampled_def by (auto intro: exI [of _ "rng_state m"])

lemma resampled_trans: "resampled m m1 \<Longrightarrow> resampled m1 m2 \<Longrightarrow> resampled m m2"
  by (auto simp: resampled_def)

lemma next_random_resampled: "resampled m (snd (next_random m))"
  by (auto simp: next_random_def resampled_def Let_def latency_ok_def)

lemma next_unit_resampled: "resampled m (snd (next_unit_open fp m))"
  using next_random_resampled [of m] by (simp add: next_unit_open_def Let_def case_prod_beta)

lemma sample_resampled:
  "resampled m (snd (sample_uniform_jitter m))"
  "resampled m (snd (sample_exponential_jitter fp m))"
  "resampled m (snd (sample_lognormal_jitter fp m))"
  using next_random_resampled [of m] next_unit_resampled [of m fp]
    resampled_trans [OF next_unit_resampled [of m fp] next_unit_resampled]
  by (simp_all add: sample_uniform_jitter_def sample_exponential_jitter_def sample_lognormal_jitter_def
      resampled_refl case_prod_beta Let_def)

lemma next_latency_resampled: "resampled m (snd (next_latency_ns fp m))"
  using sample_resampled [of m] resampled_refl [of m]
  by (auto simp: next_latency_ns_def Let_def case_prod_beta split: latency_distribution.split)

subsection \<open>Bounds\<close>

lemma unat_less_64: "unat (x :: u64) < 2 ^ 64"
  by (rule order_less_le_trans [OF unsigned_less]) simp

lemma max_time_unat: "unat max_time_ns = 2 ^ 64 - 1"
  by (simp add: max_time_ns_def unsigned_minus_1_eq_mask mask_eq_exp_minus_1)

lemma max_time_minus: "unat (max_time_ns - a) = 2 ^ 64 - 1 - unat a"
  by (metis max_time_ns_def max_time_unat unat_sub word_order.extremum)

lemma saturating_add_unat:
  "unat (if max_time_ns - a < b then max_time_ns else a + b) = min (2 ^ 64 - 1) (unat a + unat b)"
proof (cases "max_time_ns - a < b")
  case True
  then show ?thesis
    unfolding word_less_nat_alt max_time_minus by (simp add: max_time_unat)
next
  case False
  then have "unat a + unat b < 2 ^ 64"
    using unat_less_64 [of a] unfolding word_less_nat_alt max_time_minus by simp
  then show ?thesis
    using False by (simp add: unat_word_ariths(1))
qed

lemma uniform_jitter_bound: "fst (sample_uniform_jitter m) \<le> jitter_bound_ns m"
proof (cases "jitter_bound_ns m = max_time_ns")
  case False
  then have "unat (jitter_bound_ns m) \<noteq> 2 ^ 64 - 1"
    by (metis max_time_unat word_unat_eq_iff)
  then have "unat (jitter_bound_ns m + 1) = Suc (unat (jitter_bound_ns m))"
    using unat_less_64 [of "jitter_bound_ns m"] by (simp add: unat_word_ariths(1))
  then have "unat (x mod (jitter_bound_ns m + 1)) < Suc (unat (jitter_bound_ns m))" for x
    by (simp add: unat_mod)
  then show ?thesis
    using False by (simp add: sample_uniform_jitter_def case_prod_beta word_le_nat_alt less_Suc_eq_le)
qed (simp add: sample_uniform_jitter_def case_prod_beta max_time_ns_def)

lemma next_latency_least: "base_latency_ns m \<le> fst (next_latency_ns fp m)"
proof -
  have sat: "base_latency_ns m \<le> (if max_time_ns - base_latency_ns m < j then max_time_ns else base_latency_ns m + j)" for j
    unfolding word_le_nat_alt saturating_add_unat using unat_less_64 [of "base_latency_ns m"] by simp
  have "base_latency_ns m \<le> max_time_ns"
    by (simp add: max_time_ns_def)
  moreover have "base_latency_ns m \<le> base_latency_ns m + j" if "\<not> max_time_ns - base_latency_ns m < j" for j
    using sat [of j] that by simp
  moreover have "base_latency_ns (snd (f m)) = base_latency_ns m" if "resampled m (snd (f m))" for f :: "latency_model \<Rightarrow> u64 \<times> latency_model"
    using that by (auto simp: resampled_def)
  note this [of sample_uniform_jitter] this [of "sample_exponential_jitter fp"] this [of "sample_lognormal_jitter fp"]
  ultimately show ?thesis
    using sample_resampled [of m]
    by (auto simp: next_latency_ns_def Let_def case_prod_beta split: latency_distribution.split)
qed

lemma next_latency_fixed: "distribution m = FixedLatency \<Longrightarrow> next_latency_ns fp m = (base_latency_ns m, m)"
  by (simp add: next_latency_ns_def valid_latency_config_def)

lemma next_latency_uniform:
  assumes "distribution m = UniformLatency"
  shows "unat (fst (next_latency_ns fp m)) =
    min (2 ^ 64 - 1) (unat (base_latency_ns m) + unat (fst (sample_uniform_jitter m)))"
proof -
  have "base_latency_ns (snd (sample_uniform_jitter m)) = base_latency_ns m"
    using sample_resampled(1) [of m] by (auto simp: resampled_def)
  then have "fst (next_latency_ns fp m) =
      (if max_time_ns - base_latency_ns m < fst (sample_uniform_jitter m) then max_time_ns
       else base_latency_ns m + fst (sample_uniform_jitter m))"
    using assms by (simp add: next_latency_ns_def valid_latency_config_def case_prod_beta)
  then show ?thesis
    by (simp only: saturating_add_unat)
qed

subsection \<open>Properties\<close>

text \<open>A drawn latency is never below the base latency and never wraps: with the
  fixed distribution it is the base, with the uniform one it is the base plus a
  jitter of at most the bound, saturating at the largest time. Drawing changes the
  generator state alone, and keeps it non-zero.\<close>
theorem latency_within_bounds:
  assumes "rng_state m \<noteq> 0"
  shows "base_latency_ns m \<le> fst (next_latency_ns fp m)
    \<and> (distribution m = FixedLatency \<longrightarrow> fst (next_latency_ns fp m) = base_latency_ns m)
    \<and> (distribution m = UniformLatency \<longrightarrow>
         (\<exists>j\<le>unat (jitter_bound_ns m). unat (fst (next_latency_ns fp m)) = min (2 ^ 64 - 1) (unat (base_latency_ns m) + j)))
    \<and> (\<exists>s. s \<noteq> 0 \<and> snd (next_latency_ns fp m) = m\<lparr>rng_state := s\<rparr>)"
proof (intro conjI impI)
  show "\<exists>j\<le>unat (jitter_bound_ns m). unat (fst (next_latency_ns fp m)) = min (2 ^ 64 - 1) (unat (base_latency_ns m) + j)"
    if "distribution m = UniformLatency"
    using next_latency_uniform [OF that, of fp] uniform_jitter_bound [of m]
    by (auto simp: word_le_nat_alt)
  show "\<exists>s. s \<noteq> 0 \<and> snd (next_latency_ns fp m) = m\<lparr>rng_state := s\<rparr>"
    using next_latency_resampled [of m fp] assms by (auto simp: resampled_def latency_ok_def)
qed (simp_all add: next_latency_least next_latency_fixed)

theorem latency_within_bounds_witness:
  "(100 :: u64) \<le> fst (next_latency_ns \<lparr>fp_of_u64 = \<lambda>w. w, fp_neg = \<lambda>x. x, fp_add = (+), fp_mul = (*),
     fp_div = (div), fp_log = \<lambda>x. x, fp_log1p = \<lambda>x. x, fp_exp = \<lambda>x. x, fp_sqrt = \<lambda>x. x, fp_cos = \<lambda>x. x\<rparr>
     (uniform_latency 100 10 7))"
  (is "_ \<le> fst (next_latency_ns ?fp _)")
proof -
  have "rng_state (uniform_latency 100 10 7) \<noteq> 0"
    by (simp add: uniform_latency_def full_latency_def seed_state_def)
  from latency_within_bounds [OF this, of ?fp] show ?thesis
    by (simp add: uniform_latency_def full_latency_def)
qed

text \<open>The generator is a permutation of the non-zero states: from a non-zero
  state the xorshift never reaches zero, so the replacement of a zero state by one
  in the code is never taken, and two generators that draw the same number were in
  the same state before.\<close>
theorem generator_permutes_states:
  assumes "rng_state m \<noteq> 0" and "rng_state n \<noteq> 0"
  shows "fst (next_random m) = xorshift (rng_state m)
    \<and> rng_state (snd (next_random m)) \<noteq> 0
    \<and> (fst (next_random m) = fst (next_random n) \<longleftrightarrow> rng_state m = rng_state n)"
  using assms next_random_eq [of m] next_random_eq [of n] xorshift_inj [of "rng_state m" "rng_state n"]
  by (auto simp: latency_ok_def xorshift_zero)

theorem generator_permutes_states_witness:
  "fst (next_random (fixed_latency 0 1)) \<noteq> fst (next_random (fixed_latency 0 2))"
proof -
  have "rng_state (fixed_latency 0 1) \<noteq> 0" "rng_state (fixed_latency 0 2) \<noteq> 0"
    "rng_state (fixed_latency 0 1) \<noteq> rng_state (fixed_latency 0 2)"
    by (simp_all add: fixed_latency_def full_latency_def seed_state_def)
  then show ?thesis
    using generator_permutes_states [of "fixed_latency 0 1" "fixed_latency 0 2"] by blast
qed

end
