(* ===== verification/MarketRegistry.thy ===== *)
theory MarketRegistry
  imports MatchingBook LatencyModel
begin

section \<open>Markets and their registry\<close>

text \<open>
  \<open>include/lob/sim/market_registry.hpp\<close> hands out consecutive market ids: a vector
  of keys and a hash map from keys to ids. \<open>std::unordered_map\<close> is a map; its hash
  function is \<open>market_key_hash\<close>. \<open>include/lob/sim/market_state.hpp\<close> is the state
  the engine keeps per market.
\<close>

definition market_key_hash :: "market_key \<Rightarrow> u64" where
  "market_key_hash key =
     (let packed = push_bit 32 (ucast (venue_id key)) OR ucast (product_id key)
      in packed XOR drop_bit 32 packed)"

record market_registry =
  mg_market_keys :: "market_key list"
  mg_market_ids :: "market_key \<rightharpoonup> market_id"

definition empty_registry :: market_registry where
  "empty_registry = \<lparr>mg_market_keys = [], mg_market_ids = Map.empty\<rparr>"

definition find_market :: "market_key \<Rightarrow> market_registry \<Rightarrow> market_id option" where
  "find_market key r = mg_market_ids r key"

definition register_key :: "market_key \<Rightarrow> market_registry \<Rightarrow> market_registry \<times> market_id" where
  "register_key key r =
     (case mg_market_ids r key of
        Some mid \<Rightarrow> (r, mid)
      | None \<Rightarrow>
          let mid = of_nat (length (mg_market_keys r))
          in (r\<lparr>mg_market_keys := mg_market_keys r @ [key], mg_market_ids := (mg_market_ids r)(key \<mapsto> mid)\<rparr>, mid))"

definition market_key_of :: "market_id \<Rightarrow> market_registry \<Rightarrow> market_key option" where
  "market_key_of market_id r =
     (if length (mg_market_keys r) \<le> unat market_id then None else Some (mg_market_keys r ! unat market_id))"

definition registry_size :: "market_registry \<Rightarrow> nat" where
  "registry_size r = length (mg_market_keys r)"

definition clear_registry :: "market_registry \<Rightarrow> market_registry" where
  "clear_registry r = r\<lparr>mg_market_keys := [], mg_market_ids := Map.empty\<rparr>"

subsection \<open>The state of a market\<close>

record product_spec =
  base_asset_id :: asset_id
  quote_asset_id :: asset_id
  maker_fee_bps :: int
  taker_fee_bps :: int

definition default_product_spec :: product_spec where
  "default_product_spec = \<lparr>base_asset_id = 0, quote_asset_id = 1, maker_fee_bps = 0, taker_fee_bps = 0\<rparr>"

record market_state =
  mk_market_id :: market_id
  mk_market_key :: market_key
  mk_product_spec :: product_spec
  mk_order_entry_latency :: latency_model
  mk_cancel_latency :: latency_model
  mk_market_data_latency :: latency_model
  mk_matching_book :: matching_book

definition new_market_state :: "book_config \<Rightarrow> market_id \<Rightarrow> market_key \<Rightarrow> market_state" where
  "new_market_state c market_id key = \<lparr>mk_market_id = market_id, mk_market_key = key,
     mk_product_spec = default_product_spec, mk_order_entry_latency = default_latency,
     mk_cancel_latency = default_latency, mk_market_data_latency = default_latency,
     mk_matching_book = new_book c\<rparr>"

subsection \<open>Ids and keys correspond\<close>

definition registry_ok :: "market_registry \<Rightarrow> bool" where
  "registry_ok r \<longleftrightarrow> distinct (mg_market_keys r) \<and> length (mg_market_keys r) \<le> 2 ^ 32
     \<and> (\<forall>key. mg_market_ids r key =
          map_option of_nat (find (\<lambda>i. mg_market_keys r ! i = key) [0..<length (mg_market_keys r)]))"

lemma empty_registry_ok: "registry_ok empty_registry"
  by (simp add: registry_ok_def empty_registry_def)

lemma registry_ids:
  assumes ok: "registry_ok r"
  shows "find_market key r = Some mid \<longleftrightarrow> market_key_of mid r = Some key"
proof
  assume "find_market key r = Some mid"
  then obtain i where i: "find (\<lambda>i. mg_market_keys r ! i = key) [0..<length (mg_market_keys r)] = Some i"
      "mid = of_nat i"
    using ok by (auto simp: find_market_def registry_ok_def)
  then have "i < length (mg_market_keys r)" "mg_market_keys r ! i = key"
    using find_upt_Some [OF i(1)] by auto
  moreover from this have "unat mid = i"
    using ok i(2) by (simp add: registry_ok_def unat_of_nat)
  ultimately show "market_key_of mid r = Some key"
    by (simp add: market_key_of_def)
next
  assume "market_key_of mid r = Some key"
  then have mid: "unat mid < length (mg_market_keys r)" "mg_market_keys r ! unat mid = key"
    by (auto simp: market_key_of_def split: if_splits)
  have "find (\<lambda>i. mg_market_keys r ! i = key) [0..<length (mg_market_keys r)] = Some (unat mid)"
    using ok mid by (intro find_upt_unique) (auto simp: registry_ok_def nth_eq_iff_index_eq)
  then show "find_market key r = Some mid"
    using ok by (simp add: find_market_def registry_ok_def)
qed

lemma find_upt_snoc:
  "find (\<lambda>i. (xs @ [x]) ! i = key) ([0..<length xs] @ [length xs]) =
     (case find (\<lambda>i. xs ! i = key) [0..<length xs] of
        Some i \<Rightarrow> Some i | None \<Rightarrow> if x = key then Some (length xs) else None)"
proof -
  have "find (\<lambda>i. (xs @ [x]) ! i = key) [0..<length xs] = find (\<lambda>i. xs ! i = key) [0..<length xs]"
    by (rule find_cong) (simp_all add: nth_append)
  then show ?thesis
    by (simp add: find_append split: option.split)
qed

lemma register_key_ok:
  assumes ok: "registry_ok r" and room: "length (mg_market_keys r) < 2 ^ 32"
  shows "registry_ok (fst (register_key key r))
    \<and> find_market key (fst (register_key key r)) = Some (snd (register_key key r))
    \<and> (\<forall>mid key'. market_key_of mid r = Some key' \<longrightarrow> market_key_of mid (fst (register_key key r)) = Some key')"
proof (cases "mg_market_ids r key")
  case None
  then have new: "find (\<lambda>i. mg_market_keys r ! i = key) [0..<length (mg_market_keys r)] = None"
    using ok by (simp add: registry_ok_def)
  then have "key \<notin> set (mg_market_keys r)"
    by (auto simp: find_upt_None in_set_conv_nth)
  then have "registry_ok (fst (register_key key r))"
    using ok room None new by (auto simp: registry_ok_def register_key_def Let_def find_upt_snoc split: option.split)
  then show ?thesis
    using None by (auto simp: register_key_def Let_def find_market_def market_key_of_def nth_append split: if_splits)
qed (use ok in \<open>simp add: register_key_def find_market_def\<close>)

subsection \<open>Properties\<close>

definition register_all :: "market_key list \<Rightarrow> market_registry" where
  "register_all keys = fold (\<lambda>key r. fst (register_key key r)) keys empty_registry"

lemma register_length: "length (mg_market_keys (fst (register_key key r))) \<le> Suc (length (mg_market_keys r))"
  by (simp add: register_key_def Let_def split: option.split)

lemma register_fold_ok:
  "registry_ok r \<Longrightarrow> length (mg_market_keys r) + length keys \<le> 2 ^ 32 \<Longrightarrow>
   registry_ok (fold (\<lambda>key r. fst (register_key key r)) keys r)
   \<and> (\<forall>key\<in>set keys. find_market key (fold (\<lambda>key r. fst (register_key key r)) keys r) \<noteq> None)
   \<and> (\<forall>key. find_market key r \<noteq> None \<longrightarrow> find_market key (fold (\<lambda>key r. fst (register_key key r)) keys r) \<noteq> None)"
proof (induction keys arbitrary: r)
  case (Cons key keys)
  let ?r = "fst (register_key key r)"
  have step: "registry_ok ?r" "find_market key ?r \<noteq> None"
      "\<forall>mid key'. market_key_of mid r = Some key' \<longrightarrow> market_key_of mid ?r = Some key'"
    using register_key_ok [OF Cons.prems(1), of key] Cons.prems(2) by auto
  then have kept: "find_market key' r \<noteq> None \<Longrightarrow> find_market key' ?r \<noteq> None" for key'
    using registry_ids [OF Cons.prems(1)] registry_ids [OF step(1)] by fastforce
  have "length (mg_market_keys ?r) + length keys \<le> 2 ^ 32"
    using Cons.prems(2) register_length [of key r] by simp
  from Cons.IH [OF step(1) this] step(2) kept show ?case
    by auto
qed simp

text \<open>Round trip of the registry. After registering any sequence of keys every
  one of them has an id, an id is found for a key exactly when that key is stored
  under the id, so distinct keys have distinct ids and the ids are the positions
  \<open>0, 1, \<dots>\<close>; registering a known key again changes nothing and returns its id.\<close>
theorem registry_round_trip:
  assumes "length keys < 2 ^ 32"
  shows "(\<forall>key\<in>set keys. find_market key (register_all keys) \<noteq> None)
    \<and> (find_market key (register_all keys) = Some mid \<longleftrightarrow> market_key_of mid (register_all keys) = Some key)
    \<and> (find_market key (register_all keys) = Some mid \<longrightarrow>
        register_key key (register_all keys) = (register_all keys, mid) \<and> unat mid < registry_size (register_all keys))"
proof (intro conjI)
  have all: "registry_ok (register_all keys)" "\<forall>key\<in>set keys. find_market key (register_all keys) \<noteq> None"
    using register_fold_ok [OF empty_registry_ok, of keys] assms by (simp_all add: register_all_def empty_registry_def)
  then show "\<forall>key\<in>set keys. find_market key (register_all keys) \<noteq> None" by simp
  show "find_market key (register_all keys) = Some mid \<longleftrightarrow> market_key_of mid (register_all keys) = Some key"
    by (rule registry_ids [OF all(1)])
  then show "find_market key (register_all keys) = Some mid \<longrightarrow>
      register_key key (register_all keys) = (register_all keys, mid) \<and> unat mid < registry_size (register_all keys)"
    by (auto simp: register_key_def find_market_def market_key_of_def registry_size_def split: if_splits)
qed

theorem registry_round_trip_witness:
  "market_key_of 1 (register_all [\<lparr>venue_id = 3, product_id = 4\<rparr>, \<lparr>venue_id = 3, product_id = 5\<rparr>])
     = Some \<lparr>venue_id = 3, product_id = 5\<rparr>"
proof -
  let ?keys = "[\<lparr>venue_id = 3, product_id = 4\<rparr>, \<lparr>venue_id = 3, product_id = 5\<rparr>] :: market_key list"
  have "find_market \<lparr>venue_id = 3, product_id = 5\<rparr> (register_all ?keys) = Some 1"
    by (simp add: register_all_def register_key_def find_market_def empty_registry_def)
  then show ?thesis
    using registry_round_trip [of ?keys "\<lparr>venue_id = 3, product_id = 5\<rparr>" 1] by simp
qed

end
