(* ===== verification/EngineState.thy ===== *)
theory EngineState
  imports MarketRegistry AccountStore EventScheduler
begin

section \<open>The state of the simulation engine\<close>

text \<open>
  The members of \<open>SimulationEngine\<close> (\<open>include/lob/sim/simulation_engine.hpp\<close>) and
  the operations that configure it before a run. An array with its count is the
  list of its filled entries; the arrays whose entries carry an \<open>active\<close> flag
  (reservations, visible depths) keep their fixed length.

  Agents are code the engine calls back through the virtual functions of
  \<open>MarketAgent\<close>. A callback computes on the agents' own memory and acts on the
  engine through \<open>AgentContext\<close> alone, so it is an \<open>agent_action\<close>: a tree of
  context calls that ends in a new memory. Which tree an agent runs is the
  parameter \<open>sim_agents\<close> of the model.
\<close>

datatype 'm agent_action =
    Finish 'm
  | Submit_order order_request "gateway_result \<Rightarrow> 'm agent_action"
  | Cancel_order cancel_request "gateway_result \<Rightarrow> 'm agent_action"
  | Schedule_wakeup time_ns "bool \<Rightarrow> 'm agent_action"
  | Read_time "time_ns \<Rightarrow> 'm agent_action"
  | Read_depth market_id "depth_snapshot option \<Rightarrow> 'm agent_action"
  | Read_balance asset_id "account_balance option \<Rightarrow> 'm agent_action"

datatype agent_signal = On_start | On_wakeup | On_fill agent_fill_event | On_cancel agent_cancel_event

type_synonym agent_ref = nat

text \<open>The template parameters, the floating point operations and the agents' code.\<close>

record 'm simulation =
  scheduler_capacity :: nat
  market_capacity :: nat
  sim_book :: book_config
  result_sink_capacity :: nat
  sim_accounts :: account_config
  accounting_sink_capacity :: nat
  reservation_capacity :: nat
  subscriber_capacity :: nat
  agent_capacity :: nat
  sim_fp :: fp
  sim_agents :: "agent_ref \<Rightarrow> agent_id \<Rightarrow> agent_signal \<Rightarrow> 'm \<Rightarrow> 'm agent_action"

datatype simulation_status =
    Running | HaltedAccountingFailure | HaltedSinkOverflow | HaltedMarketDataOverflow

record order_reservation =
  rv_order_id :: order_id
  rv_agent_id :: agent_id
  rv_market_id :: market_id
  rv_side :: side
  rv_reserve_asset_id :: asset_id
  rv_price_ticks :: int
  rv_reserved_amount_lots :: int
  rv_active :: bool

definition no_reservation :: order_reservation where
  "no_reservation = \<lparr>rv_order_id = invalid_order_id, rv_agent_id = invalid_agent_id,
     rv_market_id = invalid_market_id, rv_side = Buy, rv_reserve_asset_id = 0, rv_price_ticks = 0,
     rv_reserved_amount_lots = 0, rv_active = False\<rparr>"

record accounting_event =
  ae_timestamp_ns :: time_ns
  ae_market_id :: market_id
  ae_buyer_agent_id :: agent_id
  ae_seller_agent_id :: agent_id
  ae_price_ticks :: int
  ae_quantity_lots :: u64
  ae_buyer_fee_lots :: int
  ae_seller_fee_lots :: int

record visible_depth_slot =
  vd_agent_id :: agent_id
  vd_market_id :: market_id
  vd_snapshot :: depth_snapshot
  vd_active :: bool

definition no_visible_depth :: visible_depth_slot where
  "no_visible_depth = \<lparr>vd_agent_id = invalid_agent_id, vd_market_id = invalid_market_id,
     vd_snapshot = empty_depth_snapshot, vd_active = False\<rparr>"

record market_data_subscriber =
  sb_agent_id :: agent_id
  sb_feed_latency_model :: latency_model
  sb_uses_market_latency :: bool

record agent_slot =
  ag_agent_id :: agent_id
  ag_agent :: "agent_ref option"
  ag_active :: bool

record 'm engine =
  en_current_time_ns :: time_ns
  en_scheduler :: scheduler
  en_market_registry :: market_registry
  en_market_states :: "market_state list"
  en_accounts :: account_store
  en_reservations :: "order_reservation list"
  en_next_order_id :: order_id
  en_match_results :: "match_result list"
  en_cancel_results :: "cancel_result list"
  en_accounting_events :: "accounting_event list"
  en_subscribers :: "market_data_subscriber list"
  en_visible_depths :: "visible_depth_slot list"
  en_agent_slots :: "agent_slot list"
  en_status :: simulation_status
  en_match_result_sink_overflow :: bool
  en_cancel_result_sink_overflow :: bool
  en_accounting_event_sink_overflow :: bool
  en_market_data_overflow :: bool
  en_agents_started :: bool
  en_accounting_failure_count :: u64
  en_processed_event_count :: u64
  en_unknown_agent_wakeup_count :: u64
  en_agent_memory :: 'm

definition new_engine :: "'m simulation \<Rightarrow> 'm \<Rightarrow> 'm engine" where
  "new_engine sim mem = \<lparr>
     en_current_time_ns = 0, en_scheduler = empty_scheduler, en_market_registry = empty_registry,
     en_market_states = [], en_accounts = [],
     en_reservations = replicate (reservation_capacity sim) no_reservation,
     en_next_order_id = 1, en_match_results = [], en_cancel_results = [], en_accounting_events = [],
     en_subscribers = [],
     en_visible_depths = replicate (subscriber_capacity sim * market_capacity sim) no_visible_depth,
     en_agent_slots = [], en_status = Running, en_match_result_sink_overflow = False,
     en_cancel_result_sink_overflow = False, en_accounting_event_sink_overflow = False,
     en_market_data_overflow = False, en_agents_started = False, en_accounting_failure_count = 0,
     en_processed_event_count = 0, en_unknown_agent_wakeup_count = 0, en_agent_memory = mem\<rparr>"

definition halted :: "'m engine \<Rightarrow> bool" where
  "halted en \<longleftrightarrow> en_status en \<noteq> Running"

definition halt :: "simulation_status \<Rightarrow> 'm engine \<Rightarrow> 'm engine" where
  "halt status en = (if en_status en = Running then en\<lparr>en_status := status\<rparr> else en)"

definition result_sink_overflowed :: "'m engine \<Rightarrow> bool" where
  "result_sink_overflowed en \<longleftrightarrow> en_match_result_sink_overflow en \<or> en_cancel_result_sink_overflow en
     \<or> en_accounting_event_sink_overflow en \<or> en_market_data_overflow en"

subsection \<open>Markets\<close>

definition register_market :: "'m simulation \<Rightarrow> market_key \<Rightarrow> 'm engine \<Rightarrow> 'm engine \<times> market_id" where
  "register_market sim key en =
     (case find_market key (en_market_registry en) of
        Some existing \<Rightarrow> (en, existing)
      | None \<Rightarrow>
          if length (en_market_states en) = market_capacity sim then (en, invalid_market_id)
          else
            let (registry, market_id) = register_key key (en_market_registry en)
            in (en\<lparr>en_market_registry := registry,
                   en_market_states := en_market_states en @ [new_market_state (sim_book sim) market_id key]\<rparr>,
                market_id))"

text \<open>\<open>mutable_market_state\<close> answers with a pointer into the array: the index.\<close>

definition market_index :: "'m engine \<Rightarrow> market_id \<Rightarrow> nat option" where
  "market_index en market_id =
     (if length (en_market_states en) \<le> unat market_id then None else Some (unat market_id))"

definition upd_market :: "nat \<Rightarrow> (market_state \<Rightarrow> market_state) \<Rightarrow> 'm engine \<Rightarrow> 'm engine" where
  "upd_market i f en = en\<lparr>en_market_states := (en_market_states en)[i := f (en_market_states en ! i)]\<rparr>"

definition valid_product_spec :: "'m simulation \<Rightarrow> product_spec \<Rightarrow> bool" where
  "valid_product_spec sim spec \<longleftrightarrow> valid_asset (sim_accounts sim) (base_asset_id spec)
     \<and> valid_asset (sim_accounts sim) (quote_asset_id spec) \<and> base_asset_id spec \<noteq> quote_asset_id spec"

definition has_active_reservation_for_market :: "'m engine \<Rightarrow> market_id \<Rightarrow> bool" where
  "has_active_reservation_for_market en market_id \<longleftrightarrow>
     list_ex (\<lambda>r. rv_active r \<and> rv_market_id r = market_id) (en_reservations en)"

definition market_product_spec_locked :: "'m engine \<Rightarrow> market_id \<Rightarrow> market_state \<Rightarrow> bool" where
  "market_product_spec_locked en market_id state \<longleftrightarrow> 0 < en_processed_event_count en
     \<or> has_event_for_market market_id (en_scheduler en)
     \<or> 0 < bk_resting_order_count (mk_matching_book state)
     \<or> has_active_reservation_for_market en market_id"

definition set_market_product_spec ::
  "'m simulation \<Rightarrow> market_id \<Rightarrow> product_spec \<Rightarrow> 'm engine \<Rightarrow> 'm engine \<times> bool" where
  "set_market_product_spec sim market_id spec en =
     (case market_index en market_id of
        None \<Rightarrow> (en, False)
      | Some i \<Rightarrow>
          if halted en \<or> \<not> valid_product_spec sim spec
             \<or> market_product_spec_locked en market_id (en_market_states en ! i)
          then (en, False)
          else (upd_market i (\<lambda>s. s\<lparr>mk_product_spec := spec\<rparr>) en, True))"

definition configure_latency ::
  "(latency_model \<Rightarrow> market_state \<Rightarrow> market_state) \<Rightarrow> market_id \<Rightarrow> latency_model \<Rightarrow> 'm engine \<Rightarrow> 'm engine \<times> bool" where
  "configure_latency put market_id m en =
     (case market_index en market_id of
        None \<Rightarrow> (en, False)
      | Some i \<Rightarrow>
          if halted en \<or> \<not> valid_latency_config m then (en, False)
          else (upd_market i (put m) en, True))"

definition set_market_latency_model :: "market_id \<Rightarrow> latency_model \<Rightarrow> 'm engine \<Rightarrow> 'm engine \<times> bool" where
  "set_market_latency_model =
     configure_latency (\<lambda>m s. s\<lparr>mk_order_entry_latency := m, mk_cancel_latency := m, mk_market_data_latency := m\<rparr>)"

definition set_order_entry_latency_model :: "market_id \<Rightarrow> latency_model \<Rightarrow> 'm engine \<Rightarrow> 'm engine \<times> bool" where
  "set_order_entry_latency_model = configure_latency (\<lambda>m s. s\<lparr>mk_order_entry_latency := m\<rparr>)"

definition set_cancel_latency_model :: "market_id \<Rightarrow> latency_model \<Rightarrow> 'm engine \<Rightarrow> 'm engine \<times> bool" where
  "set_cancel_latency_model = configure_latency (\<lambda>m s. s\<lparr>mk_cancel_latency := m\<rparr>)"

definition set_market_data_latency_model :: "market_id \<Rightarrow> latency_model \<Rightarrow> 'm engine \<Rightarrow> 'm engine \<times> bool" where
  "set_market_data_latency_model = configure_latency (\<lambda>m s. s\<lparr>mk_market_data_latency := m\<rparr>)"

definition set_market_latency :: "market_id \<Rightarrow> time_ns \<Rightarrow> time_ns \<Rightarrow> u64 \<Rightarrow> 'm engine \<Rightarrow> 'm engine \<times> bool" where
  "set_market_latency market_id base jitter seed = set_market_latency_model market_id (latency_model_of base jitter seed)"

definition set_order_entry_latency :: "market_id \<Rightarrow> time_ns \<Rightarrow> time_ns \<Rightarrow> u64 \<Rightarrow> 'm engine \<Rightarrow> 'm engine \<times> bool" where
  "set_order_entry_latency market_id base jitter seed =
     set_order_entry_latency_model market_id (latency_model_of base jitter seed)"

definition set_cancel_latency :: "market_id \<Rightarrow> time_ns \<Rightarrow> time_ns \<Rightarrow> u64 \<Rightarrow> 'm engine \<Rightarrow> 'm engine \<times> bool" where
  "set_cancel_latency market_id base jitter seed =
     set_cancel_latency_model market_id (latency_model_of base jitter seed)"

definition set_market_data_latency :: "market_id \<Rightarrow> time_ns \<Rightarrow> time_ns \<Rightarrow> u64 \<Rightarrow> 'm engine \<Rightarrow> 'm engine \<times> bool" where
  "set_market_data_latency market_id base jitter seed =
     set_market_data_latency_model market_id (latency_model_of base jitter seed)"

subsection \<open>Accounts, agents and subscribers\<close>

definition engine_register_account :: "'m simulation \<Rightarrow> agent_id \<Rightarrow> 'm engine \<Rightarrow> 'm engine \<times> bool" where
  "engine_register_account sim agent_id en =
     (case register_account (sim_accounts sim) agent_id (en_accounts en) of
        (accounts, ok) \<Rightarrow> (en\<lparr>en_accounts := accounts\<rparr>, ok))"

definition engine_set_balance :: "'m simulation \<Rightarrow> agent_id \<Rightarrow> asset_id \<Rightarrow> int \<Rightarrow> 'm engine \<Rightarrow> 'm engine \<times> bool" where
  "engine_set_balance sim agent_id asset_id amount en =
     (case set_balance (sim_accounts sim) agent_id asset_id amount (en_accounts en) of
        (accounts, ok) \<Rightarrow> (en\<lparr>en_accounts := accounts\<rparr>, ok))"

definition engine_account_balance :: "'m simulation \<Rightarrow> agent_id \<Rightarrow> asset_id \<Rightarrow> 'm engine \<Rightarrow> account_balance option" where
  "engine_account_balance sim agent_id asset_id en = balance (sim_accounts sim) (en_accounts en) agent_id asset_id"

definition find_agent_slot :: "'m engine \<Rightarrow> agent_id \<Rightarrow> agent_slot option" where
  "find_agent_slot en agent_id = find (\<lambda>s. ag_active s \<and> ag_agent_id s = agent_id) (en_agent_slots en)"

definition register_agent :: "'m simulation \<Rightarrow> agent_id \<Rightarrow> agent_ref \<Rightarrow> 'm engine \<Rightarrow> 'm engine \<times> bool" where
  "register_agent sim agent_id agent en =
     (if halted en \<or> en_agents_started en \<or> agent_id = invalid_agent_id
         \<or> \<not> has_account (en_accounts en) agent_id \<or> find_agent_slot en agent_id \<noteq> None
      then (en, False)
      else if length (en_agent_slots en) = agent_capacity sim then (en, False)
      else (en\<lparr>en_agent_slots := en_agent_slots en @
                [\<lparr>ag_agent_id = agent_id, ag_agent = Some agent, ag_active = True\<rparr>]\<rparr>, True))"

definition schedule_agent_wakeup :: "'m simulation \<Rightarrow> agent_id \<Rightarrow> time_ns \<Rightarrow> 'm engine \<Rightarrow> 'm engine \<times> bool" where
  "schedule_agent_wakeup sim agent_id wakeup_time en =
     (if halted en \<or> find_agent_slot en agent_id = None then (en, False)
      else case push (scheduler_capacity sim)
          (default_event\<lparr>se_timestamp_ns := wakeup_time, se_phase := AgentPhase, se_kind := AgentWakeup,
             se_agent_id := agent_id\<rparr>) (en_scheduler en) of
        (scheduler, ok) \<Rightarrow> (en\<lparr>en_scheduler := scheduler\<rparr>, ok))"

definition find_subscriber :: "'m engine \<Rightarrow> agent_id \<Rightarrow> nat option" where
  "find_subscriber en agent_id =
     find (\<lambda>i. sb_agent_id (en_subscribers en ! i) = agent_id) [0..<length (en_subscribers en)]"

definition register_market_data_subscriber :: "'m simulation \<Rightarrow> agent_id \<Rightarrow> 'm engine \<Rightarrow> 'm engine \<times> bool" where
  "register_market_data_subscriber sim agent_id en =
     (if halted en \<or> \<not> has_account (en_accounts en) agent_id then (en, False)
      else if find_subscriber en agent_id \<noteq> None then (en, True)
      else if length (en_subscribers en) = subscriber_capacity sim then (en, False)
      else (en\<lparr>en_subscribers := en_subscribers en @
                [\<lparr>sb_agent_id = agent_id, sb_feed_latency_model = default_latency, sb_uses_market_latency = True\<rparr>]\<rparr>,
            True))"

definition register_market_data_feed ::
  "'m simulation \<Rightarrow> agent_id \<Rightarrow> latency_model \<Rightarrow> 'm engine \<Rightarrow> 'm engine \<times> bool" where
  "register_market_data_feed sim agent_id feed en =
     (if halted en \<or> \<not> has_account (en_accounts en) agent_id \<or> \<not> valid_latency_config feed then (en, False)
      else case find_subscriber en agent_id of
        Some i \<Rightarrow> (en\<lparr>en_subscribers := (en_subscribers en)[i := (en_subscribers en ! i)
                     \<lparr>sb_feed_latency_model := feed, sb_uses_market_latency := False\<rparr>]\<rparr>, True)
      | None \<Rightarrow>
          if length (en_subscribers en) = subscriber_capacity sim then (en, False)
          else (en\<lparr>en_subscribers := en_subscribers en @
                    [\<lparr>sb_agent_id = agent_id, sb_feed_latency_model = feed, sb_uses_market_latency = False\<rparr>]\<rparr>,
                True))"

subsection \<open>Reads\<close>

definition find_visible_depth_slot :: "'m engine \<Rightarrow> agent_id \<Rightarrow> market_id \<Rightarrow> nat option" where
  "find_visible_depth_slot en agent_id market_id =
     find (\<lambda>i. let s = en_visible_depths en ! i in
        vd_active s \<and> vd_agent_id s = agent_id \<and> vd_market_id s = market_id) [0..<length (en_visible_depths en)]"

definition copy_depth_snapshot :: "nat \<Rightarrow> depth_snapshot \<Rightarrow> depth_snapshot" where
  "copy_depth_snapshot to_depth snapshot =
     snapshot\<lparr>ds_bids := take to_depth (ds_bids snapshot), ds_asks := take to_depth (ds_asks snapshot)\<rparr>"

definition visible_depth :: "agent_id \<Rightarrow> market_id \<Rightarrow> 'm engine \<Rightarrow> depth_snapshot option" where
  "visible_depth agent_id market_id en =
     map_option (\<lambda>i. copy_depth_snapshot 1 (vd_snapshot (en_visible_depths en ! i)))
       (find_visible_depth_slot en agent_id market_id)"

definition current_exchange_depth :: "'m simulation \<Rightarrow> market_id \<Rightarrow> 'm engine \<Rightarrow> depth_snapshot option" where
  "current_exchange_depth sim market_id en =
     map_option (\<lambda>i. copy_depth (sim_book sim) 1 (mk_matching_book (en_market_states en ! i))
         (empty_depth_snapshot\<lparr>ds_exchange_timestamp_ns := en_current_time_ns en,
            ds_receive_timestamp_ns := en_current_time_ns en, ds_market_id := market_id\<rparr>))
       (market_index en market_id)"

definition entry_at :: "nat \<Rightarrow> 'a list \<Rightarrow> 'a option" where
  "entry_at i xs = (if length xs \<le> i then None else Some (xs ! i))"

definition last_entry :: "'a list \<Rightarrow> 'a option" where
  "last_entry xs = (if xs = [] then None else Some (last xs))"

definition match_result_at :: "nat \<Rightarrow> 'm engine \<Rightarrow> match_result option" where
  "match_result_at i en = entry_at i (en_match_results en)"

definition last_match_result :: "'m engine \<Rightarrow> match_result option" where
  "last_match_result en = last_entry (en_match_results en)"

definition cancel_result_at :: "nat \<Rightarrow> 'm engine \<Rightarrow> cancel_result option" where
  "cancel_result_at i en = entry_at i (en_cancel_results en)"

definition last_cancel_result :: "'m engine \<Rightarrow> cancel_result option" where
  "last_cancel_result en = last_entry (en_cancel_results en)"

definition accounting_event_at :: "nat \<Rightarrow> 'm engine \<Rightarrow> accounting_event option" where
  "accounting_event_at i en = entry_at i (en_accounting_events en)"

definition last_accounting_event :: "'m engine \<Rightarrow> accounting_event option" where
  "last_accounting_event en = last_entry (en_accounting_events en)"

definition clear_events :: "'m engine \<Rightarrow> 'm engine" where
  "clear_events en = en\<lparr>en_scheduler := clear_scheduler (en_scheduler en), en_processed_event_count := 0\<rparr>"

end
