(* ===== verification/EngineGateway.thy ===== *)
theory EngineGateway
  imports EngineState
begin

section \<open>The gateway of the engine\<close>

text \<open>
  Fees and reservations, \<open>submit_order\<close> and \<open>cancel_order\<close> of
  \<open>SimulationEngine\<close>, and the \<open>AgentContext\<close> (\<open>include/lob/sim/agent_context.hpp\<close>)
  through which an agent reaches them. Amounts are guarded against overflow
  wherever the code guards them; the cast of a quantity to a signed amount is
  \<^const>\<open>sint\<close>.
\<close>

subsection \<open>Fees and amounts\<close>

definition fee_lots :: "int \<Rightarrow> int \<Rightarrow> int" where
  "fee_lots notional fee_bps =
     (if notional \<le> 0 \<or> fee_bps = 0 then 0
      else
        let abs_fee_bps = (if fee_bps < 0 then - (fee_bps + 1) + 1 else fee_bps) in
        if abs_fee_bps = 0 then 0
        else if i64_max div abs_fee_bps < notional then (if 0 < fee_bps then i64_max else i64_min + 1)
        else
          let abs_fee_lots = (notional * abs_fee_bps + 9999) div 10000
          in (if 0 < fee_bps then abs_fee_lots else - abs_fee_lots))"

definition notional_lots :: "int \<Rightarrow> u64 \<Rightarrow> int" where
  "notional_lots price_ticks quantity_lots =
     (if price_ticks \<le> 0 then - 1
      else if i64_max div price_ticks < uint quantity_lots then - 1
      else price_ticks * uint quantity_lots)"

definition max_positive_fee_bps :: "product_spec \<Rightarrow> int" where
  "max_positive_fee_bps spec =
     (let maker = (if 0 < maker_fee_bps spec then maker_fee_bps spec else 0);
          taker = (if 0 < taker_fee_bps spec then taker_fee_bps spec else 0)
      in if taker < maker then maker else taker)"

definition reservation_asset :: "product_spec \<Rightarrow> side \<Rightarrow> asset_id" where
  "reservation_asset spec s = (if s = Buy then quote_asset_id spec else base_asset_id spec)"

definition required_reservation_amount :: "product_spec \<Rightarrow> side \<Rightarrow> int \<Rightarrow> u64 \<Rightarrow> int" where
  "required_reservation_amount spec s price_ticks quantity_lots =
     (if s = Sell then (if i64_max < uint quantity_lots then - 1 else uint quantity_lots)
      else
        let notional = notional_lots price_ticks quantity_lots in
        if notional < 0 then - 1
        else
          let fee = fee_lots notional (max_positive_fee_bps spec) in
          if add_overflows notional fee then - 1 else notional + fee)"

definition add_time_saturating :: "time_ns \<Rightarrow> time_ns \<Rightarrow> time_ns" where
  "add_time_saturating lhs rhs = (if max_time_ns - lhs < rhs then max_time_ns else lhs + rhs)"

subsection \<open>Reservations\<close>

definition record_accounting_failure :: "'m engine \<Rightarrow> 'm engine" where
  "record_accounting_failure en =
     halt HaltedAccountingFailure (en\<lparr>en_accounting_failure_count := en_accounting_failure_count en + 1\<rparr>)"

definition find_reservation :: "'m engine \<Rightarrow> order_id \<Rightarrow> nat option" where
  "find_reservation en order_id =
     find (\<lambda>i. rv_active (en_reservations en ! i) \<and> rv_order_id (en_reservations en ! i) = order_id)
       [0..<length (en_reservations en)]"

definition set_reservation :: "nat \<Rightarrow> order_reservation \<Rightarrow> 'm engine \<Rightarrow> 'm engine" where
  "set_reservation i r en = en\<lparr>en_reservations := (en_reservations en)[i := r]\<rparr>"

definition insert_reservation :: "order_reservation \<Rightarrow> 'm engine \<Rightarrow> 'm engine \<times> bool" where
  "insert_reservation r en =
     (case find (\<lambda>i. \<not> rv_active (en_reservations en ! i)) [0..<length (en_reservations en)] of
        None \<Rightarrow> (en, False)
      | Some i \<Rightarrow> (set_reservation i (r\<lparr>rv_active := True\<rparr>) en, True))"

definition release_and_remove_reservation :: "'m simulation \<Rightarrow> order_id \<Rightarrow> 'm engine \<Rightarrow> 'm engine \<times> bool" where
  "release_and_remove_reservation sim order_id en =
     (case find_reservation en order_id of
        None \<Rightarrow> (en, True)
      | Some i \<Rightarrow>
          let r = en_reservations en ! i in
          case release (sim_accounts sim) (rv_agent_id r) (rv_reserve_asset_id r) (rv_reserved_amount_lots r)
              (en_accounts en) of
            (accounts, released) \<Rightarrow>
              if \<not> released then (record_accounting_failure (en\<lparr>en_accounts := accounts\<rparr>), False)
              else (set_reservation i no_reservation (en\<lparr>en_accounts := accounts\<rparr>), True))"

definition remove_empty_reservation :: "nat \<Rightarrow> 'm engine \<Rightarrow> 'm engine" where
  "remove_empty_reservation i en =
     (if rv_reserved_amount_lots (en_reservations en ! i) = 0 then set_reservation i no_reservation en else en)"

definition reduce_reservation :: "nat \<Rightarrow> int \<Rightarrow> 'm engine \<Rightarrow> 'm engine" where
  "reduce_reservation i amount en =
     (let r = en_reservations en ! i
      in set_reservation i (r\<lparr>rv_reserved_amount_lots := rv_reserved_amount_lots r - amount\<rparr>) en)"

subsection \<open>Submitting an order\<close>

definition gateway_reject :: "gateway_status \<Rightarrow> order_id \<Rightarrow> market_id \<Rightarrow> time_ns \<Rightarrow> gateway_result" where
  "gateway_reject status order_id market_id t = \<lparr>gr_accepted = False, gr_status = status,
     gr_order_id = order_id, gr_market_id = market_id, gr_arrival_timestamp_ns = t\<rparr>"

definition request_reservation :: "order_id \<Rightarrow> order_request \<Rightarrow> asset_id \<Rightarrow> int \<Rightarrow> order_reservation" where
  "request_reservation order_id request asset amount = no_reservation\<lparr>rv_order_id := order_id,
     rv_agent_id := rq_agent_id request, rv_market_id := rq_market_id request, rv_side := rq_side request,
     rv_reserve_asset_id := asset, rv_price_ticks := rq_price_ticks request,
     rv_reserved_amount_lots := amount\<rparr>"

definition order_arrival :: "order_id \<Rightarrow> order_request \<Rightarrow> time_ns \<Rightarrow> scheduled_event" where
  "order_arrival order_id request t = default_event\<lparr>se_timestamp_ns := t, se_phase := MarketPhase,
     se_kind := OrderArrivesAtMarket, se_market_id := rq_market_id request,
     se_agent_id := rq_agent_id request, se_order_id := order_id, se_side := rq_side request,
     se_price_ticks := rq_price_ticks request, se_quantity_lots := rq_quantity_lots request,
     se_time_in_force := rq_time_in_force request, se_client_timestamp_ns := rq_client_timestamp_ns request\<rparr>"

definition push_event :: "'m simulation \<Rightarrow> scheduled_event \<Rightarrow> 'm engine \<Rightarrow> 'm engine \<times> bool" where
  "push_event sim event en =
     (case push (scheduler_capacity sim) event (en_scheduler en) of
        (scheduler, ok) \<Rightarrow> (en\<lparr>en_scheduler := scheduler\<rparr>, ok))"

text \<open>Drawing a latency advances the generator of the market's model.\<close>

definition draw_order_latency :: "'m simulation \<Rightarrow> nat \<Rightarrow> 'm engine \<Rightarrow> 'm engine \<times> time_ns" where
  "draw_order_latency sim i en =
     (case next_latency_ns (sim_fp sim) (mk_order_entry_latency (en_market_states en ! i)) of
        (l, m) \<Rightarrow> (upd_market i (\<lambda>s. s\<lparr>mk_order_entry_latency := m\<rparr>) en, l))"

definition draw_cancel_latency :: "'m simulation \<Rightarrow> nat \<Rightarrow> 'm engine \<Rightarrow> 'm engine \<times> time_ns" where
  "draw_cancel_latency sim i en =
     (case next_latency_ns (sim_fp sim) (mk_cancel_latency (en_market_states en ! i)) of
        (l, m) \<Rightarrow> (upd_market i (\<lambda>s. s\<lparr>mk_cancel_latency := m\<rparr>) en, l))"

text \<open>The end of \<open>submit_order\<close>, once the funds are reserved and the reservation is stored.\<close>

definition dispatch_order :: "'m simulation \<Rightarrow> nat \<Rightarrow> order_request \<Rightarrow> 'm engine \<Rightarrow> 'm engine \<times> gateway_result" where
  "dispatch_order sim i request en =
     (let order_id = en_next_order_id en;
          (en, latency) = draw_order_latency sim i en;
          arrival = add_time_saturating (en_current_time_ns en) latency;
          (en, scheduled) = push_event sim (order_arrival order_id request arrival) en
      in if \<not> scheduled
         then (fst (release_and_remove_reservation sim order_id en),
               gateway_reject SchedulerFull invalid_order_id (rq_market_id request) arrival)
         else (en\<lparr>en_next_order_id := en_next_order_id en + 1\<rparr>,
               \<lparr>gr_accepted = True, gr_status = Accepted, gr_order_id = order_id,
                gr_market_id = rq_market_id request, gr_arrival_timestamp_ns = arrival\<rparr>))"

definition submit_order :: "'m simulation \<Rightarrow> order_request \<Rightarrow> 'm engine \<Rightarrow> 'm engine \<times> gateway_result" where
  "submit_order sim request en =
     (let reject = (\<lambda>status. gateway_reject status invalid_order_id (rq_market_id request) (en_current_time_ns en)) in
      if halted en then (en, reject Halted)
      else if rq_market_id request = invalid_market_id \<or> rq_price_ticks request \<le> 0 \<or> rq_quantity_lots request = 0
      then (en, reject InvalidRequest)
      else case market_index en (rq_market_id request) of
        None \<Rightarrow> (en, reject UnknownMarket)
      | Some i \<Rightarrow>
          let spec = mk_product_spec (en_market_states en ! i) in
          if \<not> valid_product_spec sim spec then (en, reject InvalidRequest)
          else if \<not> has_account (en_accounts en) (rq_agent_id request) then (en, reject UnknownAccount)
          else
            let amount = required_reservation_amount spec (rq_side request) (rq_price_ticks request) (rq_quantity_lots request);
                asset = reservation_asset spec (rq_side request)
            in if amount < 0 then (en, reject InvalidRequest)
               else case reserve (sim_accounts sim) (rq_agent_id request) asset amount (en_accounts en) of
                 (accounts, False) \<Rightarrow> (en\<lparr>en_accounts := accounts\<rparr>, reject InsufficientBalance)
               | (accounts, True) \<Rightarrow>
                   (case insert_reservation (request_reservation (en_next_order_id en) request asset amount)
                       (en\<lparr>en_accounts := accounts\<rparr>) of
                      (en, False) \<Rightarrow>
                        (en\<lparr>en_accounts := fst (release (sim_accounts sim) (rq_agent_id request) asset amount
                               (en_accounts en))\<rparr>, reject ReservationCapacityFull)
                    | (en, True) \<Rightarrow> dispatch_order sim i request en))"

subsection \<open>Cancelling an order\<close>

definition cancel_arrival :: "cancel_request \<Rightarrow> time_ns \<Rightarrow> scheduled_event" where
  "cancel_arrival request t = default_event\<lparr>se_timestamp_ns := t, se_phase := MarketPhase,
     se_kind := CancelArrivesAtMarket, se_market_id := cq_market_id request,
     se_agent_id := cq_agent_id request, se_order_id := cq_order_id request,
     se_client_timestamp_ns := cq_client_timestamp_ns request\<rparr>"

definition cancel_order :: "'m simulation \<Rightarrow> cancel_request \<Rightarrow> 'm engine \<Rightarrow> 'm engine \<times> gateway_result" where
  "cancel_order sim request en =
     (let answer = (\<lambda>status t. gateway_reject status (cq_order_id request) (cq_market_id request) t);
          reject = (\<lambda>status. answer status (en_current_time_ns en)) in
      if halted en then (en, reject Halted)
      else if cq_market_id request = invalid_market_id \<or> cq_order_id request = invalid_order_id
      then (en, reject InvalidRequest)
      else case market_index en (cq_market_id request) of
        None \<Rightarrow> (en, reject UnknownMarket)
      | Some i \<Rightarrow>
          case find_reservation en (cq_order_id request) of
            None \<Rightarrow> (en, reject UnknownOrder)
          | Some j \<Rightarrow>
              let r = en_reservations en ! j in
              if rv_market_id r \<noteq> cq_market_id request then (en, reject UnknownOrder)
              else if rv_agent_id r \<noteq> cq_agent_id request then (en, reject Unauthorized)
              else
                let (en, latency) = draw_cancel_latency sim i en;
                    arrival = add_time_saturating (en_current_time_ns en) latency;
                    (en, scheduled) = push_event sim (cancel_arrival request arrival) en
                in if \<not> scheduled then (en, answer SchedulerFull arrival)
                   else (en, \<lparr>gr_accepted = True, gr_status = Accepted, gr_order_id = cq_order_id request,
                              gr_market_id = cq_market_id request, gr_arrival_timestamp_ns = arrival\<rparr>))"

subsection \<open>The agents' context\<close>

definition context_submit_order ::
  "'m simulation \<Rightarrow> agent_id \<Rightarrow> order_request \<Rightarrow> 'm engine \<Rightarrow> 'm engine \<times> gateway_result" where
  "context_submit_order sim agent_id request = submit_order sim (request\<lparr>rq_agent_id := agent_id\<rparr>)"

definition context_cancel_order ::
  "'m simulation \<Rightarrow> agent_id \<Rightarrow> cancel_request \<Rightarrow> 'm engine \<Rightarrow> 'm engine \<times> gateway_result" where
  "context_cancel_order sim agent_id request = cancel_order sim (request\<lparr>cq_agent_id := agent_id\<rparr>)"

primrec run_agent :: "'m simulation \<Rightarrow> agent_id \<Rightarrow> 'm agent_action \<Rightarrow> 'm engine \<Rightarrow> 'm engine" where
  "run_agent sim a (Finish mem) = (\<lambda>en. en\<lparr>en_agent_memory := mem\<rparr>)"
| "run_agent sim a (Submit_order request k) =
     (\<lambda>en. case context_submit_order sim a request en of (en, r) \<Rightarrow> run_agent sim a (k r) en)"
| "run_agent sim a (Cancel_order request k) =
     (\<lambda>en. case context_cancel_order sim a request en of (en, r) \<Rightarrow> run_agent sim a (k r) en)"
| "run_agent sim a (Schedule_wakeup t k) =
     (\<lambda>en. case schedule_agent_wakeup sim a t en of (en, ok) \<Rightarrow> run_agent sim a (k ok) en)"
| "run_agent sim a (Read_time k) = (\<lambda>en. run_agent sim a (k (en_current_time_ns en)) en)"
| "run_agent sim a (Read_depth market_id k) = (\<lambda>en. run_agent sim a (k (visible_depth a market_id en)) en)"
| "run_agent sim a (Read_balance asset_id k) =
     (\<lambda>en. run_agent sim a (k (engine_account_balance sim a asset_id en)) en)"

text \<open>A callback: the slot's agent decides on the memory, then acts.\<close>

definition call_agent :: "'m simulation \<Rightarrow> agent_ref \<Rightarrow> agent_id \<Rightarrow> agent_signal \<Rightarrow> 'm engine \<Rightarrow> 'm engine" where
  "call_agent sim agent a signal en = run_agent sim a (sim_agents sim agent a signal (en_agent_memory en)) en"

definition notify_agent :: "'m simulation \<Rightarrow> agent_signal \<Rightarrow> agent_id \<Rightarrow> 'm engine \<Rightarrow> 'm engine" where
  "notify_agent sim signal agent_id en =
     (case find_agent_slot en agent_id of
        None \<Rightarrow> en
      | Some slot \<Rightarrow> (case ag_agent slot of None \<Rightarrow> en | Some agent \<Rightarrow> call_agent sim agent agent_id signal en))"

subsection \<open>Starting the agents\<close>

primrec start_slots :: "'m simulation \<Rightarrow> agent_slot list \<Rightarrow> 'm engine \<Rightarrow> 'm engine \<times> bool" where
  "start_slots sim [] en = (en, True)"
| "start_slots sim (slot # slots) en =
     (case (ag_active slot, ag_agent slot) of
        (True, Some agent) \<Rightarrow>
          let en = call_agent sim agent (ag_agent_id slot) On_start en
          in if halted en then (en, False) else start_slots sim slots en
      | _ \<Rightarrow> start_slots sim slots en)"

definition start :: "'m simulation \<Rightarrow> 'm engine \<Rightarrow> 'm engine \<times> bool" where
  "start sim en =
     (if halted en then (en, False)
      else if en_agents_started en then (en, True)
      else start_slots sim (en_agent_slots en) (en\<lparr>en_agents_started := True\<rparr>))"

end
