(* ===== verification/EngineEvents.thy ===== *)
theory EngineEvents
  imports EngineGateway
begin

section \<open>The event loop of the engine\<close>

text \<open>
  The accounting of fills, the handlers of the five kinds of events and
  \<open>run_until\<close> of \<open>SimulationEngine\<close>. A handler answers \<^const>\<open>None\<close> when the matching
  book it calls does not return; \<open>run_until\<close> is \<^const>\<open>None\<close> when it never stops,
  which agents can cause by waking themselves up without end.
\<close>

subsection \<open>Result sinks\<close>

definition append_match_result :: "'m simulation \<Rightarrow> match_result \<Rightarrow> 'm engine \<Rightarrow> 'm engine" where
  "append_match_result sim r en =
     (if length (en_match_results en) < result_sink_capacity sim
      then en\<lparr>en_match_results := en_match_results en @ [r]\<rparr>
      else halt HaltedSinkOverflow (en\<lparr>en_match_result_sink_overflow := True\<rparr>))"

definition append_cancel_result :: "'m simulation \<Rightarrow> cancel_result \<Rightarrow> 'm engine \<Rightarrow> 'm engine" where
  "append_cancel_result sim r en =
     (if length (en_cancel_results en) < result_sink_capacity sim
      then en\<lparr>en_cancel_results := en_cancel_results en @ [r]\<rparr>
      else halt HaltedSinkOverflow (en\<lparr>en_cancel_result_sink_overflow := True\<rparr>))"

definition record_accounting_sink_overflow :: "'m engine \<Rightarrow> 'm engine" where
  "record_accounting_sink_overflow en =
     halt HaltedSinkOverflow (en\<lparr>en_accounting_event_sink_overflow := True,
       en_accounting_failure_count := en_accounting_failure_count en + 1\<rparr>)"

definition append_accounting_event :: "'m simulation \<Rightarrow> accounting_event \<Rightarrow> 'm engine \<Rightarrow> 'm engine" where
  "append_accounting_event sim e en =
     (if length (en_accounting_events en) < accounting_sink_capacity sim
      then en\<lparr>en_accounting_events := en_accounting_events en @ [e]\<rparr>
      else record_accounting_sink_overflow en)"

subsection \<open>Accounting of a fill\<close>

definition set_accounts :: "account_store \<Rightarrow> 'm engine \<Rightarrow> 'm engine" where
  "set_accounts accounts en = en\<lparr>en_accounts := accounts\<rparr>"

text \<open>The reservation is reduced after each of the two moves of funds.\<close>

definition release_surplus :: "'m simulation \<Rightarrow> nat \<Rightarrow> int \<Rightarrow> 'm engine \<Rightarrow> 'm engine \<times> bool" where
  "release_surplus sim i amount en =
     (let r = en_reservations en ! i in
      if amount \<le> 0 then (en, True)
      else if rv_reserved_amount_lots r < amount then (record_accounting_failure en, False)
      else case release (sim_accounts sim) (rv_agent_id r) (rv_reserve_asset_id r) amount (en_accounts en) of
        (accounts, False) \<Rightarrow> (record_accounting_failure (set_accounts accounts en), False)
      | (accounts, True) \<Rightarrow> (reduce_reservation i amount (set_accounts accounts en), True))"

definition consume_fill_reservation :: "'m simulation \<Rightarrow> order_id \<Rightarrow> int \<Rightarrow> int \<Rightarrow> 'm engine \<Rightarrow> 'm engine \<times> bool" where
  "consume_fill_reservation sim order_id consumed reserved en =
     (case find_reservation en order_id of
        None \<Rightarrow> (record_accounting_failure en, False)
      | Some i \<Rightarrow>
          let r = en_reservations en ! i in
          if consumed < 0 \<or> reserved < consumed \<or> rv_reserved_amount_lots r < consumed
          then (record_accounting_failure en, False)
          else case consume_reserved (sim_accounts sim) (rv_agent_id r) (rv_reserve_asset_id r) consumed (en_accounts en) of
            (accounts, False) \<Rightarrow> (record_accounting_failure (set_accounts accounts en), False)
          | (accounts, True) \<Rightarrow>
              (case release_surplus sim i (reserved - consumed) (reduce_reservation i consumed (set_accounts accounts en)) of
                 (en, False) \<Rightarrow> (en, False)
               | (en, True) \<Rightarrow> (remove_empty_reservation i en, True)))"

definition credit :: "'m simulation \<Rightarrow> agent_id \<Rightarrow> asset_id \<Rightarrow> int \<Rightarrow> 'm engine \<Rightarrow> 'm engine \<times> bool" where
  "credit sim agent_id asset_id amount en =
     (case apply_delta (sim_accounts sim) agent_id asset_id amount (en_accounts en) of
        (accounts, True) \<Rightarrow> (set_accounts accounts en, True)
      | (accounts, False) \<Rightarrow> (record_accounting_failure (set_accounts accounts en), False))"

text \<open>The two sides of a fill, as \<open>apply_fill_accounting\<close> computes them from the taker's report.\<close>

record fill_terms =
  ft_notional :: int
  ft_lots :: int
  ft_buyer :: agent_id
  ft_seller :: agent_id
  ft_buyer_order :: order_id
  ft_seller_order :: order_id
  ft_buyer_fee :: int
  ft_seller_fee :: int

definition fill_terms_of :: "product_spec \<Rightarrow> trade_execution \<Rightarrow> fill_terms" where
  "fill_terms_of spec e =
     (let notional = notional_lots (te_price_ticks e) (te_quantity_lots e);
          taker_is_buyer = (te_side e = Buy)
      in \<lparr>ft_notional = notional,
          ft_lots = sint (te_quantity_lots e),
          ft_buyer = (if taker_is_buyer then te_agent_id e else te_counterparty_agent_id e),
          ft_seller = (if taker_is_buyer then te_counterparty_agent_id e else te_agent_id e),
          ft_buyer_order = (if taker_is_buyer then te_order_id e else te_counterparty_order_id e),
          ft_seller_order = (if taker_is_buyer then te_counterparty_order_id e else te_order_id e),
          ft_buyer_fee = fee_lots notional (if taker_is_buyer then taker_fee_bps spec else maker_fee_bps spec),
          ft_seller_fee = fee_lots notional (if taker_is_buyer then maker_fee_bps spec else taker_fee_bps spec)\<rparr>)"

definition fill_accounting_event :: "market_id \<Rightarrow> trade_execution \<Rightarrow> fill_terms \<Rightarrow> accounting_event" where
  "fill_accounting_event market_id e t = \<lparr>ae_timestamp_ns = te_timestamp_ns e, ae_market_id = market_id,
     ae_buyer_agent_id = ft_buyer t, ae_seller_agent_id = ft_seller t, ae_price_ticks = te_price_ticks e,
     ae_quantity_lots = te_quantity_lots e, ae_buyer_fee_lots = ft_buyer_fee t,
     ae_seller_fee_lots = ft_seller_fee t\<rparr>"

definition fill_notice :: "market_id \<Rightarrow> trade_execution \<Rightarrow> fill_terms \<Rightarrow> side \<Rightarrow> agent_fill_event" where
  "fill_notice market_id e t s = \<lparr>af_timestamp_ns = te_timestamp_ns e, af_market_id = market_id,
     af_order_id = (if s = Buy then ft_buyer_order t else ft_seller_order t), af_side = s,
     af_liquidity_role = (if te_side e = s then Taker else Maker),
     af_price_ticks = te_price_ticks e, af_quantity_lots = te_quantity_lots e,
     af_fee_lots = (if s = Buy then ft_buyer_fee t else ft_seller_fee t)\<rparr>"

text \<open>The limit the buyer's funds were reserved at; the fill price when nothing is reserved.\<close>

definition buyer_limit_price :: "trade_execution \<Rightarrow> fill_terms \<Rightarrow> 'm engine \<Rightarrow> int" where
  "buyer_limit_price e t en =
     (case find_reservation en (ft_buyer_order t) of
        None \<Rightarrow> te_price_ticks e
      | Some j \<Rightarrow> rv_price_ticks (en_reservations en ! j))"

text \<open>Funds move in four steps, each of which can fail and halt the engine.\<close>

definition settle_fill :: "'m simulation \<Rightarrow> product_spec \<Rightarrow> fill_terms \<Rightarrow> int \<Rightarrow> 'm engine \<Rightarrow> 'm engine \<times> bool" where
  "settle_fill sim spec t buyer_reserved en =
     (case consume_fill_reservation sim (ft_buyer_order t) (ft_notional t + ft_buyer_fee t) buyer_reserved en of
        (en, False) \<Rightarrow> (en, False)
      | (en, True) \<Rightarrow>
          (case consume_fill_reservation sim (ft_seller_order t) (ft_lots t) (ft_lots t) en of
             (en, False) \<Rightarrow> (en, False)
           | (en, True) \<Rightarrow>
               (case credit sim (ft_buyer t) (base_asset_id spec) (ft_lots t) en of
                  (en, False) \<Rightarrow> (en, False)
                | (en, True) \<Rightarrow> credit sim (ft_seller t) (quote_asset_id spec) (ft_notional t - ft_seller_fee t) en)))"

definition apply_fill_accounting :: "'m simulation \<Rightarrow> nat \<Rightarrow> trade_execution \<Rightarrow> 'm engine \<Rightarrow> 'm engine \<times> bool" where
  "apply_fill_accounting sim i e en =
     (if length (en_accounting_events en) = accounting_sink_capacity sim
      then (record_accounting_sink_overflow en, False)
      else
        let state = en_market_states en ! i; spec = mk_product_spec state; t = fill_terms_of spec e in
        if ft_notional t < 0 then (record_accounting_failure en, False)
        else if add_overflows (ft_notional t) (ft_buyer_fee t) \<or> add_overflows (ft_notional t) (- ft_seller_fee t)
        then (record_accounting_failure en, False)
        else
          let buyer_reserved = required_reservation_amount spec Buy (buyer_limit_price e t en) (te_quantity_lots e) in
          if buyer_reserved < 0 then (record_accounting_failure en, False)
          else case settle_fill sim spec t buyer_reserved en of
            (en, False) \<Rightarrow> (en, False)
          | (en, True) \<Rightarrow>
              let en = append_accounting_event sim (fill_accounting_event (mk_market_id state) e t) en in
              if halted en then (en, False)
              else
                let en = notify_agent sim (On_fill (fill_notice (mk_market_id state) e t Buy)) (ft_buyer t) en;
                    en = notify_agent sim (On_fill (fill_notice (mk_market_id state) e t Sell)) (ft_seller t) en
                in (en, True))"

text \<open>The taker's reports are accounted in order until one fails.\<close>

primrec account_executions :: "'m simulation \<Rightarrow> nat \<Rightarrow> trade_execution list \<Rightarrow> 'm engine \<Rightarrow> 'm engine \<times> bool" where
  "account_executions sim i [] en = (en, True)"
| "account_executions sim i (e # es) en =
     (if te_liquidity_role e \<noteq> Taker then account_executions sim i es en
      else case apply_fill_accounting sim i e en of
        (en, False) \<Rightarrow> (en, False)
      | (en, True) \<Rightarrow> account_executions sim i es en)"

definition apply_match_accounting :: "'m simulation \<Rightarrow> scheduled_event \<Rightarrow> match_result \<Rightarrow> 'm engine \<Rightarrow> 'm engine" where
  "apply_match_accounting sim event result en =
     (case market_index en (se_market_id event) of
        None \<Rightarrow> en
      | Some i \<Rightarrow>
          (case account_executions sim i (mr_executions result) en of
             (en, False) \<Rightarrow> en
           | (en, True) \<Rightarrow>
               if \<not> mr_rested result then fst (release_and_remove_reservation sim (se_order_id event) en) else en))"

subsection \<open>Market data\<close>

definition market_data_overflow :: "'m engine \<Rightarrow> 'm engine" where
  "market_data_overflow en = halt HaltedMarketDataOverflow (en\<lparr>en_market_data_overflow := True\<rparr>)"

text \<open>A subscriber draws from the market's model or from its own feed.\<close>

definition draw_feed_latency :: "'m simulation \<Rightarrow> nat \<Rightarrow> nat \<Rightarrow> 'm engine \<Rightarrow> 'm engine \<times> time_ns" where
  "draw_feed_latency sim i k en =
     (let subscriber = en_subscribers en ! k in
      if sb_uses_market_latency subscriber
      then (case next_latency_ns (sim_fp sim) (mk_market_data_latency (en_market_states en ! i)) of
              (l, m) \<Rightarrow> (upd_market i (\<lambda>s. s\<lparr>mk_market_data_latency := m\<rparr>) en, l))
      else (case next_latency_ns (sim_fp sim) (sb_feed_latency_model subscriber) of
              (l, m) \<Rightarrow> (en\<lparr>en_subscribers := (en_subscribers en)[k := subscriber\<lparr>sb_feed_latency_model := m\<rparr>]\<rparr>, l)))"

definition depth_arrival :: "market_id \<Rightarrow> agent_id \<Rightarrow> time_ns \<Rightarrow> depth_snapshot \<Rightarrow> scheduled_event" where
  "depth_arrival market_id agent_id t snapshot = default_event\<lparr>se_timestamp_ns := t, se_phase := PostMarket,
     se_kind := MarketDataArrives, se_market_id := market_id, se_agent_id := agent_id,
     se_depth_snapshot := snapshot\<lparr>ds_receive_timestamp_ns := t\<rparr>\<rparr>"

fun publish_depth :: "'m simulation \<Rightarrow> nat \<Rightarrow> time_ns \<Rightarrow> depth_snapshot \<Rightarrow> nat list \<Rightarrow> 'm engine \<Rightarrow> 'm engine" where
  "publish_depth sim i t snapshot [] en = en"
| "publish_depth sim i t snapshot (k # ks) en =
     (let (en, latency) = draw_feed_latency sim i k en;
          receive = add_time_saturating t latency;
          (en, scheduled) = push_event sim (depth_arrival (mk_market_id (en_market_states en ! i))
             (sb_agent_id (en_subscribers en ! k)) receive snapshot) en
      in if \<not> scheduled then market_data_overflow en
         else publish_depth sim i t snapshot ks en)"

definition schedule_market_data_update :: "'m simulation \<Rightarrow> nat \<Rightarrow> time_ns \<Rightarrow> 'm engine \<Rightarrow> 'm engine" where
  "schedule_market_data_update sim i t en =
     (if en_subscribers en = [] then en
      else if available_capacity (scheduler_capacity sim) (en_scheduler en) < length (en_subscribers en)
      then market_data_overflow en
      else
        let state = en_market_states en ! i;
            snapshot = copy_depth (sim_book sim) 1 (mk_matching_book state)
              (empty_depth_snapshot\<lparr>ds_exchange_timestamp_ns := t, ds_market_id := mk_market_id state\<rparr>)
        in publish_depth sim i t snapshot [0..<length (en_subscribers en)] en)"

subsection \<open>Handlers\<close>

definition arriving_order :: "scheduled_event \<Rightarrow> sim_order" where
  "arriving_order event = \<lparr>so_order_id = se_order_id event, so_agent_id = se_agent_id event,
     so_side = se_side event, so_price_ticks = se_price_ticks event,
     so_quantity_lots = se_quantity_lots event, so_timestamp_ns = se_timestamp_ns event,
     so_time_in_force = se_time_in_force event\<rparr>"

definition settle_order :: "'m simulation \<Rightarrow> nat \<Rightarrow> scheduled_event \<Rightarrow> match_result \<Rightarrow> 'm engine \<Rightarrow> 'm engine" where
  "settle_order sim i event result en =
     (let en = append_match_result sim result en in
      if halted en then en
      else
        let en = apply_match_accounting sim event result en in
        if \<not> halted en \<and> mr_accepted result \<and> (mr_rested result \<or> 0 < mr_filled_quantity_lots result)
        then schedule_market_data_update sim i (se_timestamp_ns event) en
        else en)"

definition handle_order_arrival :: "'m simulation \<Rightarrow> scheduled_event \<Rightarrow> 'm engine \<Rightarrow> 'm engine option" where
  "handle_order_arrival sim event en =
     (case market_index en (se_market_id event) of
        None \<Rightarrow> Some en
      | Some i \<Rightarrow>
          (case submit_limit (sim_book sim) (arriving_order event) (mk_matching_book (en_market_states en ! i)) of
             None \<Rightarrow> None
           | Some (book, result) \<Rightarrow>
               Some (settle_order sim i event result (upd_market i (\<lambda>s. s\<lparr>mk_matching_book := book\<rparr>) en))))"

definition cancel_notice :: "scheduled_event \<Rightarrow> bool \<Rightarrow> u64 \<Rightarrow> agent_cancel_event" where
  "cancel_notice event canceled quantity = \<lparr>ac_timestamp_ns = se_timestamp_ns event,
     ac_market_id = se_market_id event, ac_order_id = se_order_id event, ac_canceled = canceled,
     ac_canceled_quantity_lots = quantity\<rparr>"

definition notify_cancel :: "'m simulation \<Rightarrow> scheduled_event \<Rightarrow> bool \<Rightarrow> u64 \<Rightarrow> 'm engine \<Rightarrow> 'm engine" where
  "notify_cancel sim event canceled quantity =
     notify_agent sim (On_cancel (cancel_notice event canceled quantity)) (se_agent_id event)"

definition owned_reservation :: "scheduled_event \<Rightarrow> 'm engine \<Rightarrow> bool" where
  "owned_reservation event en =
     (case find_reservation en (se_order_id event) of
        None \<Rightarrow> False
      | Some j \<Rightarrow> rv_market_id (en_reservations en ! j) = se_market_id event
          \<and> rv_agent_id (en_reservations en ! j) = se_agent_id event)"

definition handle_cancel_arrival :: "'m simulation \<Rightarrow> scheduled_event \<Rightarrow> 'm engine \<Rightarrow> 'm engine" where
  "handle_cancel_arrival sim event en =
     (case market_index en (se_market_id event) of
        None \<Rightarrow> en
      | Some i \<Rightarrow>
          if \<not> owned_reservation event en then
            let en = append_cancel_result sim (default_cancel_result\<lparr>cr_order_id := se_order_id event,
                       cr_agent_id := se_agent_id event, cr_status := Rejected\<rparr>) en
            in if \<not> halted en then notify_cancel sim event False 0 en else en
          else
            case cancel (sim_book sim) (se_order_id event) (mk_matching_book (en_market_states en ! i)) of
              (book, result) \<Rightarrow>
                let en = append_cancel_result sim result (upd_market i (\<lambda>s. s\<lparr>mk_matching_book := book\<rparr>) en) in
                if halted en then en
                else if cr_canceled result then
                  let en = fst (release_and_remove_reservation sim (se_order_id event) en) in
                  if \<not> halted en then
                    schedule_market_data_update sim i (se_timestamp_ns event)
                      (notify_cancel sim event True (cr_canceled_quantity_lots result) en)
                  else en
                else notify_cancel sim event False 0 en)"

definition find_or_create_visible_depth_slot :: "agent_id \<Rightarrow> market_id \<Rightarrow> 'm engine \<Rightarrow> 'm engine \<times> nat option" where
  "find_or_create_visible_depth_slot agent_id market_id en =
     (case find_visible_depth_slot en agent_id market_id of
        Some i \<Rightarrow> (en, Some i)
      | None \<Rightarrow>
          (case find (\<lambda>i. \<not> vd_active (en_visible_depths en ! i)) [0..<length (en_visible_depths en)] of
             None \<Rightarrow> (en, None)
           | Some i \<Rightarrow>
               (en\<lparr>en_visible_depths := (en_visible_depths en)[i := \<lparr>vd_agent_id = agent_id,
                      vd_market_id = market_id, vd_snapshot = empty_depth_snapshot, vd_active = True\<rparr>]\<rparr>, Some i)))"

definition handle_market_data_arrival :: "scheduled_event \<Rightarrow> 'm engine \<Rightarrow> 'm engine" where
  "handle_market_data_arrival event en =
     (case find_or_create_visible_depth_slot (se_agent_id event) (se_market_id event) en of
        (en, None) \<Rightarrow> market_data_overflow en
      | (en, Some i) \<Rightarrow>
          en\<lparr>en_visible_depths := (en_visible_depths en)[i := (en_visible_depths en ! i)
             \<lparr>vd_snapshot := (se_depth_snapshot event)\<lparr>ds_receive_timestamp_ns := se_timestamp_ns event\<rparr>\<rparr>]\<rparr>)"

definition handle_agent_wakeup :: "'m simulation \<Rightarrow> scheduled_event \<Rightarrow> 'm engine \<Rightarrow> 'm engine" where
  "handle_agent_wakeup sim event en =
     (let unknown = en\<lparr>en_unknown_agent_wakeup_count := en_unknown_agent_wakeup_count en + 1\<rparr> in
      case find_agent_slot en (se_agent_id event) of
        None \<Rightarrow> unknown
      | Some slot \<Rightarrow>
          (case ag_agent slot of
             None \<Rightarrow> unknown
           | Some agent \<Rightarrow> call_agent sim agent (ag_agent_id slot) On_wakeup en))"

fun dispatch_event :: "'m simulation \<Rightarrow> event_kind \<Rightarrow> scheduled_event \<Rightarrow> 'm engine \<Rightarrow> 'm engine option" where
  "dispatch_event sim OrderArrivesAtMarket event en = handle_order_arrival sim event en"
| "dispatch_event sim CancelArrivesAtMarket event en = Some (handle_cancel_arrival sim event en)"
| "dispatch_event sim MarketDataArrives event en = Some (handle_market_data_arrival event en)"
| "dispatch_event sim AgentWakeup event en = Some (handle_agent_wakeup sim event en)"
| "dispatch_event sim Settlement event en = Some en"

definition handle_event :: "'m simulation \<Rightarrow> scheduled_event \<Rightarrow> 'm engine \<Rightarrow> 'm engine option" where
  "handle_event sim event en =
     map_option (\<lambda>en. en\<lparr>en_processed_event_count := en_processed_event_count en + 1\<rparr>)
       (dispatch_event sim (se_kind event) event en)"

subsection \<open>The loop\<close>

text \<open>The event the loop takes next: the top of a running engine's scheduler, when it is due.\<close>

definition next_due :: "time_ns \<Rightarrow> 'm engine \<Rightarrow> (scheduled_event \<times> 'm engine) option" where
  "next_due end_time en =
     (if en_status en \<noteq> Running then None
      else case top_event (en_scheduler en) of
        None \<Rightarrow> None
      | Some first \<Rightarrow>
          if end_time < se_timestamp_ns first then None
          else case pop (en_scheduler en) of
            (scheduler, None) \<Rightarrow> None
          | (scheduler, Some event) \<Rightarrow>
              Some (event, en\<lparr>en_scheduler := scheduler, en_current_time_ns := se_timestamp_ns event\<rparr>))"

partial_function (option) run_until :: "'m simulation \<Rightarrow> time_ns \<Rightarrow> 'm engine \<Rightarrow> 'm engine option" where
  "run_until sim end_time en =
     (case next_due end_time en of
        None \<Rightarrow> Some en
      | Some (event, en) \<Rightarrow>
          (case handle_event sim event en of
             None \<Rightarrow> None
           | Some en \<Rightarrow> run_until sim end_time en))"

end
