(* ===== verification/EngineFunds.thy ===== *)
theory EngineFunds
  imports EngineEvents
begin

section \<open>Reserved funds\<close>

text \<open>
  The reservations of the open orders and the reserved part of the balances are
  two records of the same money. \<open>funds\<close> relates them, and this theory shows that
  every piece of the engine that touches either keeps the relation.
\<close>

definition share :: "agent_id \<Rightarrow> asset_id \<Rightarrow> order_reservation \<Rightarrow> int" where
  "share a x r = (if rv_active r \<and> rv_agent_id r = a \<and> rv_reserve_asset_id r = x
     then rv_reserved_amount_lots r else 0)"

definition reserved_sum :: "order_reservation list \<Rightarrow> agent_id \<Rightarrow> asset_id \<Rightarrow> int" where
  "reserved_sum rs a x = sum_list (map (share a x) rs)"

definition funds :: "'m simulation \<Rightarrow> account_store \<Rightarrow> order_reservation list \<Rightarrow> bool" where
  "funds sim st rs \<longleftrightarrow> store_ok (sim_accounts sim) st
     \<and> (\<forall>a x. accounts.reserved_of (sim_accounts sim) st a x = reserved_sum rs a x)
     \<and> (\<forall>r\<in>set rs. rv_active r \<longrightarrow> 0 \<le> rv_reserved_amount_lots r)"

abbreviation funds_ok :: "'m simulation \<Rightarrow> 'm engine \<Rightarrow> bool" where
  "funds_ok sim en \<equiv> funds sim (en_accounts en) (en_reservations en)"

lemma fundsD:
  assumes "funds sim st rs"
  shows "store_ok (sim_accounts sim) st"
    "accounts.reserved_of (sim_accounts sim) st a x = reserved_sum rs a x"
    "r \<in> set rs \<Longrightarrow> rv_active r \<Longrightarrow> 0 \<le> rv_reserved_amount_lots r"
  using assms by (simp_all add: funds_def)

lemma sum_list_upd: "i < length xs \<Longrightarrow> sum_list (map f (xs[i := x])) = sum_list (map f xs) - f (xs ! i) + (f x :: int)"
  by (induction xs arbitrary: i) (auto split: nat.split)

lemma reserved_sum_upd:
  "i < length rs \<Longrightarrow> reserved_sum (rs[i := r]) a x = reserved_sum rs a x - share a x (rs ! i) + share a x r"
  by (simp add: reserved_sum_def sum_list_upd)

lemma no_reservation_fields [simp]: "\<not> rv_active no_reservation" "rv_reserved_amount_lots no_reservation = 0"
  by (simp_all add: no_reservation_def)

lemma share_no_reservation [simp]: "share a x no_reservation = 0"
  by (simp add: share_def)

text \<open>One reservation changes, and the books of the account store follow.\<close>

lemma funds_upd:
  assumes old: "funds sim st rs" and i: "i < length rs" and st': "store_ok (sim_accounts sim) st'"
    and r: "rv_active r \<Longrightarrow> 0 \<le> rv_reserved_amount_lots r"
    and eff: "\<And>a x. accounts.reserved_of (sim_accounts sim) st' a x
      = accounts.reserved_of (sim_accounts sim) st a x - share a x (rs ! i) + share a x r"
  shows "funds sim st' (rs[i := r])"
  unfolding funds_def
proof (intro conjI allI ballI impI)
  show "accounts.reserved_of (sim_accounts sim) st' a x = reserved_sum (rs[i := r]) a x" for a x
    using fundsD(2) [OF old] by (simp add: eff reserved_sum_upd [OF i])
  show "0 \<le> rv_reserved_amount_lots r'" if "r' \<in> set (rs[i := r])" "rv_active r'" for r'
    using set_upd [OF that(1)] fundsD(3) [OF old, of r'] r that(2) by blast
qed (rule st')

subsection \<open>Finding reservations\<close>

lemma find_reservation_Some:
  "find_reservation en oid = Some i \<Longrightarrow>
   i < length (en_reservations en) \<and> rv_active (en_reservations en ! i) \<and> rv_order_id (en_reservations en ! i) = oid"
  unfolding find_reservation_def using find_upt_Some by fastforce

lemma find_reservation_None:
  "find_reservation en oid = None \<longleftrightarrow>
   (\<forall>r\<in>set (en_reservations en). rv_active r \<longrightarrow> rv_order_id r \<noteq> oid)"
  unfolding find_reservation_def find_upt_None by (metis in_set_conv_nth)

subsection \<open>What leaves the funds alone\<close>

text \<open>
  The part of the engine that the account store and the reservations do not see.
  The status may only change from running, and a failure is recorded there.
\<close>

definition unmoved :: "'m engine \<Rightarrow> 'm engine \<Rightarrow> bool" where
  "unmoved en en' \<longleftrightarrow> en_accounts en' = en_accounts en \<and> en_reservations en' = en_reservations en"

lemma failure_unmoved: "unmoved en (record_accounting_failure en)"
  by (simp add: unmoved_def record_accounting_failure_def halt_def)

lemma funds_unmoved: "unmoved en en' \<Longrightarrow> funds_ok sim en \<Longrightarrow> funds_ok sim en'"
  by (simp add: unmoved_def)

lemma failure_fields [simp]:
  "en_accounts (record_accounting_failure en) = en_accounts en"
  "en_reservations (record_accounting_failure en) = en_reservations en"
  "en_accounting_events (record_accounting_failure en) = en_accounting_events en"
  "en_market_states (record_accounting_failure en) = en_market_states en"
  "en_status (record_accounting_failure en) = (if en_status en = Running then HaltedAccountingFailure else en_status en)"
  by (simp_all add: record_accounting_failure_def halt_def)

lemma set_reservation_fields [simp]:
  "en_accounts (set_reservation i r en) = en_accounts en"
  "en_reservations (set_reservation i r en) = (en_reservations en)[i := r]"
  "en_accounting_events (set_reservation i r en) = en_accounting_events en"
  "en_market_states (set_reservation i r en) = en_market_states en"
  "en_status (set_reservation i r en) = en_status en"
  by (simp_all add: set_reservation_def)

lemma set_accounts_fields [simp]:
  "en_accounts (set_accounts st en) = st"
  "en_reservations (set_accounts st en) = en_reservations en"
  "en_accounting_events (set_accounts st en) = en_accounting_events en"
  "en_market_states (set_accounts st en) = en_market_states en"
  "en_status (set_accounts st en) = en_status en"
  by (simp_all add: set_accounts_def)

subsection \<open>Releasing a whole reservation\<close>

lemma release_remove_funds:
  assumes ok: "funds_ok sim en"
  shows "funds_ok sim (fst (release_and_remove_reservation sim oid en))
    \<and> (\<forall>x. asset_total (sim_accounts sim) (en_accounts (fst (release_and_remove_reservation sim oid en))) x
        = asset_total (sim_accounts sim) (en_accounts en) x)"
proof (cases "find_reservation en oid")
  case None
  then show ?thesis using ok by (simp add: release_and_remove_reservation_def)
next
  case (Some i)
  let ?cfg = "sim_accounts sim" and ?r = "en_reservations en ! i"
  let ?st = "fst (release ?cfg (rv_agent_id ?r) (rv_reserve_asset_id ?r) (rv_reserved_amount_lots ?r) (en_accounts en))"
  note i = find_reservation_Some [OF Some]
  note st = fundsD(1) [OF ok]
  show ?thesis
  proof (cases "snd (release ?cfg (rv_agent_id ?r) (rv_reserve_asset_id ?r) (rv_reserved_amount_lots ?r) (en_accounts en))")
    case True
    have "funds sim ?st ((en_reservations en)[i := no_reservation])"
    proof (rule funds_upd [OF ok])
      show "store_ok ?cfg ?st" using release_law [OF st True] by blast
      show "accounts.reserved_of ?cfg ?st a x = accounts.reserved_of ?cfg (en_accounts en) a x
          - share a x ?r + share a x no_reservation" for a x
        using accounts.release_effect(1) [OF st True, of a x] i by (simp add: share_def)
    qed (use i in simp_all)
    then show ?thesis
      using Some True asset_total_steps(2) [OF st True]
      by (simp add: release_and_remove_reservation_def Let_def case_prod_beta)
  next
    case False
    then show ?thesis
      using Some ok accounts.rel_fail [OF False]
      by (simp add: release_and_remove_reservation_def Let_def case_prod_beta)
  qed
qed

subsection \<open>Opening a reservation\<close>

lemma insert_reservation_cases:
  "snd (insert_reservation r en) \<Longrightarrow> \<exists>i<length (en_reservations en). \<not> rv_active (en_reservations en ! i)
     \<and> fst (insert_reservation r en) = set_reservation i (r\<lparr>rv_active := True\<rparr>) en"
  "\<not> snd (insert_reservation r en) \<Longrightarrow> fst (insert_reservation r en) = en"
  unfolding insert_reservation_def by (auto split: option.splits dest: find_upt_Some)

lemma open_reservation_funds:
  assumes ok: "funds_ok sim en"
    and res: "snd (reserve (sim_accounts sim) (rv_agent_id r) (rv_reserve_asset_id r) (rv_reserved_amount_lots r) (en_accounts en))"
    and st': "st' = fst (reserve (sim_accounts sim) (rv_agent_id r) (rv_reserve_asset_id r) (rv_reserved_amount_lots r) (en_accounts en))"
    and ins: "snd (insert_reservation r (en\<lparr>en_accounts := st'\<rparr>))"
  shows "funds_ok sim (fst (insert_reservation r (en\<lparr>en_accounts := st'\<rparr>)))"
proof -
  note st = fundsD(1) [OF ok]
  obtain i where i: "i < length (en_reservations en)" "\<not> rv_active (en_reservations en ! i)"
      "fst (insert_reservation r (en\<lparr>en_accounts := st'\<rparr>)) = set_reservation i (r\<lparr>rv_active := True\<rparr>) (en\<lparr>en_accounts := st'\<rparr>)"
    using insert_reservation_cases(1) [OF ins] by auto
  have "funds sim st' ((en_reservations en)[i := r\<lparr>rv_active := True\<rparr>])"
  proof (rule funds_upd [OF ok i(1)])
    show "store_ok (sim_accounts sim) st'" "0 \<le> rv_reserved_amount_lots (r\<lparr>rv_active := True\<rparr>)"
      using reserve_law [OF st res] st' by auto
    show "accounts.reserved_of (sim_accounts sim) st' a x = accounts.reserved_of (sim_accounts sim) (en_accounts en) a x
        - share a x (en_reservations en ! i) + share a x (r\<lparr>rv_active := True\<rparr>)" for a x
      using accounts.reserve_effect(1) [OF st res, of a x] i(2) unfolding st' by (simp add: share_def)
  qed
  then show ?thesis using i(3) by simp
qed

subsection \<open>Consuming a reservation\<close>

lemma reduce_funds:
  assumes ok: "funds_ok sim en" and i: "i < length (en_reservations en)" "rv_active (en_reservations en ! i)"
    and n: "n \<le> rv_reserved_amount_lots (en_reservations en ! i)"
    and st': "store_ok (sim_accounts sim) st'"
    and eff: "\<And>a x. accounts.reserved_of (sim_accounts sim) st' a x
      = accounts.reserved_of (sim_accounts sim) (en_accounts en) a x
        - (if a = rv_agent_id (en_reservations en ! i) \<and> x = rv_reserve_asset_id (en_reservations en ! i) then n else 0)"
  shows "funds_ok sim (reduce_reservation i n (set_accounts st' en))"
  unfolding reduce_reservation_def Let_def
  by simp (rule funds_upd [OF ok i(1) st'], use i n in \<open>simp_all add: eff share_def\<close>)

lemma release_surplus_funds:
  assumes ok: "funds_ok sim en" and i: "i < length (en_reservations en)" "rv_active (en_reservations en ! i)"
  shows "funds_ok sim (fst (release_surplus sim i n en))
    \<and> (\<forall>x. asset_total (sim_accounts sim) (en_accounts (fst (release_surplus sim i n en))) x
        = asset_total (sim_accounts sim) (en_accounts en) x)"
proof -
  let ?cfg = "sim_accounts sim" and ?r = "en_reservations en ! i"
  let ?rel = "release ?cfg (rv_agent_id ?r) (rv_reserve_asset_id ?r) n (en_accounts en)"
  note st = fundsD(1) [OF ok]
  consider "n \<le> 0 \<or> rv_reserved_amount_lots ?r < n"
    | "0 < n" "n \<le> rv_reserved_amount_lots ?r" "\<not> snd ?rel"
    | "0 < n" "n \<le> rv_reserved_amount_lots ?r" "snd ?rel"
    by linarith
  then show ?thesis
  proof cases
    case 1
    then show ?thesis using ok by (auto simp: release_surplus_def Let_def)
  next
    case 2
    then show ?thesis
      using ok accounts.rel_fail [OF 2(3)]
      by (cases ?rel) (simp add: release_surplus_def Let_def)
  next
    case 3
    have "funds_ok sim (reduce_reservation i n (set_accounts (fst ?rel) en))"
      using release_law [OF st 3(3)] accounts.release_effect(1) [OF st 3(3)] 3(2) i
      by (intro reduce_funds [OF ok]) simp_all
    moreover have "en_accounts (reduce_reservation i n (set_accounts (fst ?rel) en)) = fst ?rel"
      by (simp add: reduce_reservation_def Let_def)
    ultimately show ?thesis
      using 3 asset_total_steps(2) [OF st 3(3)]
      by (cases ?rel) (simp add: release_surplus_def Let_def)
  qed
qed

lemma remove_empty_funds:
  assumes ok: "funds_ok sim en" and i: "i < length (en_reservations en)"
  shows "funds_ok sim (remove_empty_reservation i en)"
proof (cases "rv_reserved_amount_lots (en_reservations en ! i) = 0")
  case True
  have "funds sim (en_accounts en) ((en_reservations en)[i := no_reservation])"
    by (rule funds_upd [OF ok i fundsD(1) [OF ok]]) (simp_all add: share_def True)
  then show ?thesis using True by (simp add: remove_empty_reservation_def)
qed (use ok in \<open>simp add: remove_empty_reservation_def\<close>)

end
