(* ===== verification/EngineAmounts.thy ===== *)
theory EngineAmounts
  imports EngineFunds
begin

section \<open>Fees, notionals and required reservations\<close>

text \<open>
  What the arithmetic of \<open>fee_lots\<close>, \<open>notional_lots\<close> and
  \<open>required_reservation_amount\<close> amounts to when it does not saturate: a fee is
  the notional times the basis points over ten thousand, rounded up, and parts of
  an order need at least as much as the whole.
\<close>

lemma fee_lots_zero [simp]: "fee_lots 0 b = 0"
  by (simp add: fee_lots_def)

lemma fee_lots_nonneg: "0 \<le> b \<Longrightarrow> 0 \<le> fee_lots n b"
  by (auto simp: fee_lots_def Let_def i64_max_def div_int_pos_iff)

lemma le_div_iff: "0 < b \<Longrightarrow> n \<le> a div b \<longleftrightarrow> n * b \<le> (a :: int)"
proof
  assume b: "0 < b" and "n \<le> a div b"
  then have "n * b \<le> a div b * b"
    by (intro mult_right_mono) simp_all
  also have "\<dots> \<le> a"
    using pos_mod_sign [OF b, of a] div_mult_mod_eq [of a b] by linarith
  finally show "n * b \<le> a" .
next
  assume b: "0 < b" and "n * b \<le> a"
  then have "n * b div b \<le> a div b"
    by (intro zdiv_mono1)
  then show "n \<le> a div b" using b by simp
qed

lemma fee_lots_exact:
  assumes "0 \<le> n" "0 \<le> b" "n * b \<le> i64_max"
  shows "fee_lots n b = (n * b + 9999) div 10000"
proof (cases "n = 0 \<or> b = 0")
  case False
  have "n \<le> i64_max div b"
    using assms False le_div_iff [of b n i64_max] by simp
  then show ?thesis
    using False assms by (auto simp: fee_lots_def Let_def not_less)
qed (auto simp: fee_lots_def)

lemma fee_lots_saturated: "0 < n \<Longrightarrow> 0 < b \<Longrightarrow> i64_max < n * b \<Longrightarrow> fee_lots n b = i64_max"
proof -
  assume a: "0 < n" "0 < b" "i64_max < n * b"
  then have "i64_max div b < n"
    using le_div_iff [of b n i64_max] by simp
  then show ?thesis using a by (simp add: fee_lots_def Let_def)
qed

lemma ceil_split: "(x + y + 9999) div 10000 \<le> (x + 9999) div 10000 + (y + 9999) div (10000 :: int)"
  by linarith

lemma max_positive_fee_nonneg: "0 \<le> max_positive_fee_bps spec"
  by (simp add: max_positive_fee_bps_def Let_def)

lemma notional_lots_eq:
  "0 \<le> notional_lots p q \<longleftrightarrow> 0 < p \<and> p * uint q \<le> i64_max"
  "0 \<le> notional_lots p q \<Longrightarrow> notional_lots p q = p * uint q"
proof -
  have "uint q \<le> i64_max div p \<longleftrightarrow> p * uint q \<le> i64_max" if "0 < p"
    using le_div_iff [OF that, of "uint q" i64_max] by (simp add: mult.commute)
  then show "0 \<le> notional_lots p q \<longleftrightarrow> 0 < p \<and> p * uint q \<le> i64_max"
    by (auto simp: notional_lots_def not_less not_le zero_le_mult_iff)
  then show "0 \<le> notional_lots p q \<Longrightarrow> notional_lots p q = p * uint q"
    by (auto simp: notional_lots_def split: if_splits)
qed

text \<open>What a buyer reserves: notional and fee, unless they overflow.\<close>

lemma required_buy:
  assumes "0 \<le> required_reservation_amount spec Buy p q"
  shows "0 < p \<and> p * uint q \<le> i64_max \<and> p * uint q * max_positive_fee_bps spec \<le> i64_max
    \<and> required_reservation_amount spec Buy p q
       = p * uint q + (p * uint q * max_positive_fee_bps spec + 9999) div 10000
    \<and> required_reservation_amount spec Buy p q \<le> i64_max"
proof -
  let ?n = "notional_lots p q" and ?b = "max_positive_fee_bps spec"
  have n: "0 \<le> ?n" and ok: "\<not> add_overflows ?n (fee_lots ?n ?b)"
    and eq: "required_reservation_amount spec Buy p q = ?n + fee_lots ?n ?b"
    using assms by (auto simp: required_reservation_amount_def Let_def split: if_splits)
  note nq = notional_lots_eq(1) [THEN iffD1, OF n] notional_lots_eq(2) [OF n]
  note b = max_positive_fee_nonneg [of spec]
  have le: "?n + fee_lots ?n ?b \<le> i64_max"
    using ok n fee_lots_nonneg [OF b, of ?n] nq by (auto simp: add_overflows_def)
  have small: "?n * ?b \<le> i64_max"
  proof (rule ccontr)
    assume "\<not> ?n * ?b \<le> i64_max"
    then have big: "i64_max < ?n * ?b" by simp
    then have "0 < ?n * ?b" by (simp add: i64_max_def)
    then have "0 < ?n" "0 < ?b" using n b by (auto simp: zero_less_mult_iff)
    then have "fee_lots ?n ?b = i64_max" using big by (intro fee_lots_saturated)
    then show False using le \<open>0 < ?n\<close> by simp
  qed
  show ?thesis
    using nq le small eq fee_lots_exact [OF n b small] by (simp add: mult.assoc)
qed

lemma required_buy_intro:
  assumes "0 < p" "p * uint q + (p * uint q * max_positive_fee_bps spec + 9999) div 10000 \<le> i64_max"
    "p * uint q * max_positive_fee_bps spec \<le> i64_max"
  shows "required_reservation_amount spec Buy p q
    = p * uint q + (p * uint q * max_positive_fee_bps spec + 9999) div 10000"
proof -
  let ?n = "p * uint q" and ?b = "max_positive_fee_bps spec"
  have pos: "0 \<le> ?n" "0 \<le> ?n * ?b"
    using assms(1) max_positive_fee_nonneg [of spec] by simp_all
  then have n: "0 \<le> notional_lots p q" "notional_lots p q = ?n"
    using assms(1,2) notional_lots_eq [of p q] by (auto intro: order.trans [OF _ assms(2)])
  have fee: "fee_lots ?n ?b = (?n * ?b + 9999) div 10000"
    using fee_lots_exact [of ?n ?b] pos(1) max_positive_fee_nonneg assms(3) by simp
  have "0 \<le> (?n * ?b + 9999) div 10000" using pos(2) by simp
  then have "\<not> add_overflows ?n (fee_lots ?n ?b)"
    using assms(2) pos(1) fee by (auto simp: add_overflows_def i64_min_def)
  then show ?thesis
    using n fee by (simp add: required_reservation_amount_def Let_def)
qed

text \<open>Reserving the parts of an order separately never needs less than the whole.\<close>

lemma required_split:
  assumes q: "0 \<le> required_reservation_amount spec s p q" and f: "0 \<le> required_reservation_amount spec s p f"
    and le: "f \<le> q"
  shows "required_reservation_amount spec s p q
    \<le> required_reservation_amount spec s p (q - f) + required_reservation_amount spec s p f"
proof (cases s)
  case Sell
  have u: "uint (q - f) = uint q - uint f"
    using le by (simp add: uint_sub_lem [THEN iffD1] word_le_def)
  have "uint q \<le> i64_max" "uint f \<le> i64_max"
    using Sell q f by (auto simp: required_reservation_amount_def split: if_splits)
  moreover from this have "uint (q - f) \<le> i64_max"
    using u uint_ge_0 [of f] by linarith
  ultimately show ?thesis
    using Sell u by (simp add: required_reservation_amount_def)
next
  case Buy
  let ?b = "max_positive_fee_bps spec"
  have u: "uint (q - f) = uint q - uint f"
    using le by (simp add: word_le_def uint_sub_lem [THEN iffD1])
  have fq: "uint f \<le> uint q" using le by (simp add: word_le_def)
  note Q = required_buy [OF q [unfolded Buy]] and F = required_buy [OF f [unfolded Buy]]
  have mono: "p * uint (q - f) \<le> p * uint q"
    using Q u by (simp add: mult_left_mono)
  then have monob: "p * uint (q - f) * ?b \<le> p * uint q * ?b"
    using max_positive_fee_nonneg by (intro mult_right_mono)
  have "(p * uint (q - f) * ?b + 9999) div 10000 \<le> (p * uint q * ?b + 9999) div 10000"
    using monob by (intro zdiv_mono1) simp_all
  then have R: "required_reservation_amount spec Buy p (q - f)
      = p * uint (q - f) + (p * uint (q - f) * ?b + 9999) div 10000"
    using Q mono monob by (intro required_buy_intro) linarith+
  have "p * uint q = p * uint (q - f) + p * uint f"
    by (simp add: u algebra_simps)
  then have "(p * uint q * ?b + 9999) div 10000
      \<le> (p * uint (q - f) * ?b + 9999) div 10000 + (p * uint f * ?b + 9999) div 10000"
    using ceil_split [of "p * uint (q - f) * ?b" "p * uint f * ?b"] by (simp add: distrib_right)
  then show ?thesis
    using Q F R \<open>p * uint q = _\<close> unfolding Buy by linarith
qed

lemma required_zero: "required_reservation_amount spec s p 0 \<le> 0"
  by (simp add: required_reservation_amount_def Let_def notional_lots_def i64_max_def add_overflows_def)

lemma required_positive:
  assumes "0 < p" "q \<noteq> 0" "0 \<le> required_reservation_amount spec s p q"
  shows "0 < required_reservation_amount spec s p q"
proof (cases s)
  case Sell
  have "0 < uint q" using assms(2) by (simp add: word_neq_0_conv word_less_def)
  then show ?thesis using Sell by (simp add: required_reservation_amount_def i64_max_def) (use assms Sell in \<open>simp add: required_reservation_amount_def i64_max_def split: if_splits\<close>)
next
  case Buy
  have "0 < uint q" using assms(2) by (simp add: word_neq_0_conv word_less_def)
  then have "0 < p * uint q" using assms(1) by simp
  moreover have "0 \<le> (p * uint q * max_positive_fee_bps spec + 9999) div 10000"
    using calculation max_positive_fee_nonneg [of spec] by (simp add: pos_imp_zdiv_nonneg_iff)
  ultimately show ?thesis
    using required_buy [OF assms(3) [unfolded Buy]] unfolding Buy by linarith
qed

end
