(* ===== verification/EngineOrders.thy ===== *)
theory EngineOrders
  imports EngineAmounts BookProperties
begin

section \<open>Live orders and their reservations\<close>

text \<open>
  Every order the gateway has accepted is, until it leaves the market, either an
  arrival event still in the scheduler or an order resting in a book. \<open>orders_ok\<close>
  relates the reservations to a list \<open>V\<close> of such live orders, each with its market,
  side and open quantity. While fills are being accounted for, the books are
  already ahead of the accounts; the list then holds the quantities the accounts
  have not seen traded yet. In a running engine every reservation is backed by a
  live order whose open quantity accounts for the amount.
\<close>

type_synonym live = "order_id \<times> market_id \<times> side \<times> u64"

type_synonym specs = "market_id \<Rightarrow> product_spec option"

definition specs_of :: "market_state list \<Rightarrow> specs" where
  "specs_of ms m = (if unat m < length ms then Some (mk_product_spec (ms ! unat m)) else None)"

definition reservation_ok :: "specs \<Rightarrow> account_store \<Rightarrow> nat \<Rightarrow> order_reservation \<Rightarrow> bool" where
  "reservation_ok specs st nxt r \<longleftrightarrow> unat (rv_order_id r) < nxt \<and> has_account st (rv_agent_id r)
     \<and> 0 < rv_price_ticks r
     \<and> (\<exists>spec. specs (rv_market_id r) = Some spec
          \<and> rv_reserve_asset_id r = reservation_asset spec (rv_side r))"

definition backed :: "specs \<Rightarrow> live list \<Rightarrow> order_reservation \<Rightarrow> bool" where
  "backed specs V r \<longleftrightarrow> 0 < rv_reserved_amount_lots r
     \<and> (\<exists>spec q. specs (rv_market_id r) = Some spec
          \<and> (rv_order_id r, rv_market_id r, rv_side r, q) \<in> set V
          \<and> rv_reserved_amount_lots r \<le> required_reservation_amount spec (rv_side r) (rv_price_ticks r) q)"

definition named :: "live list \<Rightarrow> nat \<Rightarrow> order_reservation list \<Rightarrow> bool" where
  "named V nxt rs \<longleftrightarrow> distinct (map fst V)
     \<and> (\<forall>(i, m, s, q)\<in>set V. unat i < nxt
          \<and> (\<forall>r\<in>set rs. rv_active r \<longrightarrow> rv_order_id r = i \<longrightarrow> rv_market_id r = m \<and> rv_side r = s))"

definition slots_ok :: "order_reservation list \<Rightarrow> bool" where
  "slots_ok rs \<longleftrightarrow> (\<forall>r\<in>set rs. \<not> rv_active r \<longrightarrow> r = no_reservation)
     \<and> (\<forall>i<length rs. \<forall>j<length rs. rv_active (rs ! i) \<longrightarrow> rv_active (rs ! j) \<longrightarrow>
          rv_order_id (rs ! i) = rv_order_id (rs ! j) \<longrightarrow> i = j)"

definition orders_ok ::
  "'m simulation \<Rightarrow> specs \<Rightarrow> account_store \<Rightarrow> order_reservation list \<Rightarrow> nat \<Rightarrow> bool \<Rightarrow> live list \<Rightarrow> bool" where
  "orders_ok sim specs st rs nxt running V \<longleftrightarrow>
     funds sim st rs \<and> slots_ok rs \<and> named V nxt rs
     \<and> (\<forall>r\<in>set rs. rv_active r \<longrightarrow> reservation_ok specs st nxt r)
     \<and> (running \<longrightarrow> (\<forall>r\<in>set rs. rv_active r \<longrightarrow> backed specs V r))"

lemma orders_okD:
  assumes "orders_ok sim specs st rs nxt running V"
  shows "funds sim st rs" "slots_ok rs" "named V nxt rs"
    "\<And>r. r \<in> set rs \<Longrightarrow> rv_active r \<Longrightarrow> reservation_ok specs st nxt r"
    "\<And>r. running \<Longrightarrow> r \<in> set rs \<Longrightarrow> rv_active r \<Longrightarrow> backed specs V r"
  using assms unfolding orders_ok_def by blast+

lemma namedD:
  assumes "named V nxt rs"
  shows "distinct (map fst V)"
    "(i, m, s, q) \<in> set V \<Longrightarrow> unat i < nxt"
    "(i, m, s, q) \<in> set V \<Longrightarrow> r \<in> set rs \<Longrightarrow> rv_active r \<Longrightarrow> rv_order_id r = i \<Longrightarrow> rv_market_id r = m \<and> rv_side r = s"
proof -
  note n = assms [unfolded named_def]
  show "distinct (map fst V)" using n by blast
  show "unat i < nxt" if "(i, m, s, q) \<in> set V" using n that by fast
  show "rv_market_id r = m \<and> rv_side r = s"
    if "(i, m, s, q) \<in> set V" "r \<in> set rs" "rv_active r" "rv_order_id r = i"
    using bspec [OF conjunct2 [OF n] that(1)] that by simp
qed

lemma namedI:
  assumes "distinct (map fst V)" "\<And>i m s q. (i, m, s, q) \<in> set V \<Longrightarrow> unat i < nxt"
    "\<And>i m s q r. (i, m, s, q) \<in> set V \<Longrightarrow> r \<in> set rs \<Longrightarrow> rv_active r \<Longrightarrow> rv_order_id r = i \<Longrightarrow>
       rv_market_id r = m \<and> rv_side r = s"
  shows "named V nxt rs"
  unfolding named_def using assms by (intro conjI ballI) (simp_all add: split_paired_all)

lemma live_unique:
  "distinct (map fst V) \<Longrightarrow> (i, m, s, q) \<in> set V \<Longrightarrow> (i, m', s', q') \<in> set V \<Longrightarrow> m' = m \<and> s' = s \<and> q' = q"
  using eq_key_imp_eq_value [of V i "(m, s, q)" "(m', s', q')"] by simp

subsection \<open>The list of live orders changes\<close>

definition same_names :: "live list \<Rightarrow> live list \<Rightarrow> bool" where
  "same_names V V' \<longleftrightarrow> distinct (map fst V') \<and> (\<forall>(i, m, s, q)\<in>set V'. \<exists>q'. (i, m, s, q') \<in> set V)"

lemma same_namesD:
  assumes "same_names V V'"
  shows "distinct (map fst V')" "(i, m, s, q) \<in> set V' \<Longrightarrow> \<exists>q'. (i, m, s, q') \<in> set V"
  using assms by (auto simp: same_names_def)

lemma named_sub: "named V nxt rs \<Longrightarrow> same_names V V' \<Longrightarrow> named V' nxt rs"
  by (rule namedI) (blast dest: same_namesD namedD)+

lemma orders_ok_live:
  assumes ok: "orders_ok sim specs st rs nxt running V" and names: "same_names V V'"
    and keeps: "\<And>r. running' \<Longrightarrow> r \<in> set rs \<Longrightarrow> rv_active r \<Longrightarrow> running \<and> (backed specs V r \<longrightarrow> backed specs V' r)"
  shows "orders_ok sim specs st rs nxt running' V'"
  using ok named_sub [OF _ names] keeps unfolding orders_ok_def by blast

lemma orders_ok_stop: "orders_ok sim specs st rs nxt running V \<Longrightarrow> orders_ok sim specs st rs nxt False V"
  by (simp add: orders_ok_def)

lemma orders_ok_halt:
  "orders_ok sim specs st rs nxt running V \<Longrightarrow> same_names V V' \<Longrightarrow> orders_ok sim specs st rs nxt False V'"
  by (rule orders_ok_live) simp_all

lemma orders_ok_perm:
  assumes ok: "orders_ok sim specs st rs nxt running V" and perm: "mset V' = mset V"
  shows "orders_ok sim specs st rs nxt running V'"
proof (rule orders_ok_live [OF ok])
  have sets: "set V' = set V" using perm by (rule mset_eq_setD)
  have "mset (map fst V') = mset (map fst V)" by (simp add: perm)
  then have "distinct (map fst V')"
    using namedD(1) [OF orders_okD(3) [OF ok]] by (metis mset_eq_imp_distinct_iff)
  then show "same_names V V'"
    using sets by (auto simp: same_names_def)
  show "running \<and> (backed specs V r \<longrightarrow> backed specs V' r)" if running for r
    using that sets by (simp add: backed_def)
qed

text \<open>A live order without a reservation can be forgotten.\<close>

lemma orders_ok_drop:
  assumes ok: "orders_ok sim specs st rs nxt running (v # V)"
    and gone: "\<And>r. running \<Longrightarrow> r \<in> set rs \<Longrightarrow> rv_active r \<Longrightarrow> rv_order_id r \<noteq> fst v"
  shows "orders_ok sim specs st rs nxt running V"
proof (rule orders_ok_live [OF ok])
  show "same_names (v # V) V"
    using namedD(1) [OF orders_okD(3) [OF ok]] by (auto simp: same_names_def)
  show "running \<and> (backed specs (v # V) r \<longrightarrow> backed specs V r)" if "running" "r \<in> set rs" "rv_active r" for r
    using gone [OF that] that(1) by (auto simp: backed_def)
qed

subsection \<open>One reservation changes\<close>

lemma has_account_iff:
  "store_ok cfg st \<Longrightarrow> has_account st a \<longleftrightarrow> a \<in> set (map ac_agent_id st)"
  by (simp add: has_account_def find_account_None)

lemma same_agents_has_account:
  "store_ok cfg st \<Longrightarrow> store_ok cfg st' \<Longrightarrow> map ac_agent_id st' = map ac_agent_id st \<Longrightarrow> has_account st' = has_account st"
  by (intro ext) (simp add: has_account_iff)

lemma slots_upd:
  assumes "slots_ok rs" "i < length rs"
    and "r = no_reservation \<or> rv_active r \<and> (\<forall>r'\<in>set rs. rv_active r' \<longrightarrow> r' \<noteq> rs ! i \<longrightarrow> rv_order_id r' \<noteq> rv_order_id r)
      \<and> (rv_active (rs ! i) \<longrightarrow> rv_order_id r = rv_order_id (rs ! i))"
  shows "slots_ok (rs[i := r])"
proof -
  have uniq: "j = k" if "j < length rs" "k < length rs" "rv_active (rs ! j)" "rv_active (rs ! k)"
    "rv_order_id (rs ! j) = rv_order_id (rs ! k)" for j k
    using assms(1) that unfolding slots_ok_def by blast
  have other: "rv_order_id (rs ! j) \<noteq> rv_order_id r" if "rv_active r" "j < length rs" "j \<noteq> i" "rv_active (rs ! j)" for j
  proof -
    have "rs ! j \<noteq> rs ! i"
      using uniq [of j i] that assms(2) by auto
    then show ?thesis
      using assms(3) that nth_mem [of j rs] by auto
  qed
  have "\<forall>r'\<in>set (rs[i := r]). \<not> rv_active r' \<longrightarrow> r' = no_reservation"
    using assms(1,3) by (auto simp: slots_ok_def dest!: set_upd)
  moreover have "j = k" if "j < length rs" "k < length rs" "rv_active (rs[i := r] ! j)" "rv_active (rs[i := r] ! k)"
    "rv_order_id (rs[i := r] ! j) = rv_order_id (rs[i := r] ! k)" for j k
    using that other [of j] other [of k] uniq [of j k] assms(2) by (auto simp: nth_upd split: if_splits)
  ultimately show ?thesis
    unfolding slots_ok_def length_list_update by blast
qed

lemma orders_ok_upd:
  assumes ok: "orders_ok sim specs st rs nxt running V" and i: "i < length rs" "rv_active (rs ! i)"
    and f: "funds sim st' (rs[i := r])" and acc: "map ac_agent_id st' = map ac_agent_id st"
    and r: "r = no_reservation \<or> (\<exists>n. r = (rs ! i)\<lparr>rv_reserved_amount_lots := n\<rparr>)"
    and names: "same_names V V'"
    and keeps: "\<And>r'. running' \<Longrightarrow> r' \<in> set rs \<Longrightarrow> rv_active r' \<Longrightarrow> rv_order_id r' \<noteq> rv_order_id (rs ! i) \<Longrightarrow>
      running \<and> (backed specs V r' \<longrightarrow> backed specs V' r')"
    and backr: "running' \<Longrightarrow> rv_active r \<Longrightarrow> backed specs V' r"
  shows "orders_ok sim specs st' (rs[i := r]) nxt running' V'"
proof -
  note slots = orders_okD(2) [OF ok]
  have hacc: "has_account st' = has_account st"
    using same_agents_has_account [OF fundsD(1) [OF orders_okD(1) [OF ok]] fundsD(1) [OF f] acc] .
  have old: "rs ! i \<in> set rs" using i by simp
  have rr: "rv_active r \<Longrightarrow> rv_order_id r = rv_order_id (rs ! i) \<and> rv_market_id r = rv_market_id (rs ! i)
      \<and> rv_side r = rv_side (rs ! i)"
    using r by auto
  have uniq: "rv_order_id r' \<noteq> rv_order_id (rs ! i)" if r': "r' \<in> set rs" "rv_active r'" "r' \<noteq> rs ! i" for r'
  proof -
    obtain j where "j < length rs" "r' = rs ! j"
      using r'(1) unfolding in_set_conv_nth by blast
    then show ?thesis
      using slots i r' unfolding slots_ok_def by metis
  qed
  have keep: "r' \<in> set rs \<and> (rv_active r' \<longrightarrow> rv_order_id r' \<noteq> rv_order_id (rs ! i)) \<or> r' = r" if r': "r' \<in> set (rs[i := r])" for r'
  proof -
    obtain j where j: "j < length rs" "r' = rs[i := r] ! j"
      using r' unfolding in_set_conv_nth length_list_update by blast
    show ?thesis
    proof (cases "j = i")
      case False
      then have "r' = rs ! j" using j by simp
      moreover have "rv_active (rs ! j) \<Longrightarrow> rv_order_id (rs ! j) \<noteq> rv_order_id (rs ! i)"
        using slots i j False unfolding slots_ok_def by metis
      ultimately show ?thesis using j by auto
    qed (use j i in simp)
  qed
  have "slots_ok (rs[i := r])"
    using r uniq i by (intro slots_upd [OF slots i(1)]) auto
  moreover have "named V' nxt (rs[i := r])"
  proof (rule namedI)
    show "distinct (map fst V')" by (rule same_namesD(1) [OF names])
    fix k m s q assume v: "(k, m, s, q) \<in> set V'"
    obtain q' where v': "(k, m, s, q') \<in> set V" using same_namesD(2) [OF names v] by blast
    then show "unat k < nxt" by (rule namedD(2) [OF orders_okD(3) [OF ok]])
    fix r' assume r': "r' \<in> set (rs[i := r])" "rv_active r'" "rv_order_id r' = k"
    have "r' \<in> set rs \<or> r' = r" using keep [OF r'(1)] by blast
    then show "rv_market_id r' = m \<and> rv_side r' = s"
      using r' rr namedD(3) [OF orders_okD(3) [OF ok] v'] old i(2) by auto
  qed
  moreover have "reservation_ok specs st' nxt r'" if "r' \<in> set (rs[i := r])" "rv_active r'" for r'
    using keep [OF that(1)] that(2) orders_okD(4) [OF ok] orders_okD(4) [OF ok old i(2)] r
    by (auto simp: reservation_ok_def hacc)
  moreover have "backed specs V' r'" if "running'" "r' \<in> set (rs[i := r])" "rv_active r'" for r'
    using keep [OF that(2)] that keeps backr orders_okD(5) [OF ok] by blast
  ultimately show ?thesis
    using f unfolding orders_ok_def by blast
qed

end
