(* ===== verification/EngineFills.thy ===== *)
theory EngineFills
  imports EngineOrders
begin

section \<open>Accounting keeps the orders backed\<close>

text \<open>
  The steps of the gateway and of the fill accounting, as changes of the
  reservations and of the list of live orders: accepting an order, releasing a
  reservation, and trading part of two orders. Each also says what it does to the
  total of an asset.
\<close>

subsection \<open>Accepting an order\<close>

lemma orders_ok_accept:
  assumes ok: "orders_ok sim specs st rs nxt running V"
    and i: "i < length rs" "\<not> rv_active (rs ! i)" and r: "rv_active r" "unat (rv_order_id r) = nxt"
    and f: "funds sim st' (rs[i := r])" and acc: "map ac_agent_id st' = map ac_agent_id st"
    and rok: "reservation_ok specs st (Suc nxt) r"
    and b: "backed specs [(rv_order_id r, rv_market_id r, rv_side r, q)] r"
  shows "orders_ok sim specs st' (rs[i := r]) (Suc nxt) running ((rv_order_id r, rv_market_id r, rv_side r, q) # V)"
proof -
  let ?v = "(rv_order_id r, rv_market_id r, rv_side r, q)"
  have hacc: "has_account st' = has_account st"
    using same_agents_has_account [OF fundsD(1) [OF orders_okD(1) [OF ok]] fundsD(1) [OF f] acc] .
  have fresh: "rv_order_id r' \<noteq> rv_order_id r" if "r' \<in> set rs" "rv_active r'" for r'
    using orders_okD(4) [OF ok that] r(2) by (auto simp: reservation_ok_def)
  have fresh_live: "k \<noteq> rv_order_id r" if "(k, m, s, q') \<in> set V" for k m s q'
    using namedD(2) [OF orders_okD(3) [OF ok] that] r(2) by auto
  have "slots_ok (rs[i := r])"
    using r fresh i by (intro slots_upd [OF orders_okD(2) [OF ok] i(1)]) auto
  moreover have "named (?v # V) (Suc nxt) (rs[i := r])"
  proof (rule namedI)
    show "distinct (map fst (?v # V))"
      using namedD(1) [OF orders_okD(3) [OF ok]] fresh_live by fastforce
    fix k m s q' assume v: "(k, m, s, q') \<in> set (?v # V)"
    then show "unat k < Suc nxt"
      using r(2) namedD(2) [OF orders_okD(3) [OF ok], of k m s q'] by auto
    fix r' assume r': "r' \<in> set (rs[i := r])" "rv_active r'" "rv_order_id r' = k"
    have "r' = r \<or> r' \<in> set rs" using set_upd [OF r'(1)] .
    then show "rv_market_id r' = m \<and> rv_side r' = s"
      using v r' fresh [of r'] fresh_live [of k m s q'] namedD(3) [OF orders_okD(3) [OF ok], of k m s q' r'] by auto
  qed
  moreover have "reservation_ok specs st' (Suc nxt) r'" if "r' \<in> set (rs[i := r])" "rv_active r'" for r'
    using set_upd [OF that(1)] rok orders_okD(4) [OF ok, of r'] that(2)
    by (auto simp: reservation_ok_def hacc)
  moreover have "backed specs (?v # V) r'" if "running" "r' \<in> set (rs[i := r])" "rv_active r'" for r'
    using set_upd [OF that(2)] b orders_okD(5) [OF ok that(1), of r'] that(3) by (auto simp: backed_def)
  ultimately show ?thesis
    using f unfolding orders_ok_def by blast
qed

subsection \<open>Trading lots\<close>

definition take_lots :: "order_id \<Rightarrow> u64 \<Rightarrow> live list \<Rightarrow> live list" where
  "take_lots oid f V = map (\<lambda>(i, m, s, q). (i, m, s, if i = oid then q - f else q)) V"

lemma take_lots_ids [simp]: "map fst (take_lots oid f V) = map fst V"
  by (simp add: take_lots_def case_prod_beta o_def)

lemma take_lots_in:
  "(i, m, s, q) \<in> set V \<Longrightarrow> (i, m, s, if i = oid then q - f else q) \<in> set (take_lots oid f V)"
  by (force simp: take_lots_def)

lemma same_names_trans: "same_names V V' \<Longrightarrow> same_names V' V'' \<Longrightarrow> same_names V V''"
  unfolding same_names_def by fast

lemma take_lots_names: "distinct (map fst V) \<Longrightarrow> same_names V (take_lots oid f V)"
  unfolding same_names_def take_lots_ids by (auto simp: take_lots_def)

lemma backed_take_other:
  "backed specs V r \<Longrightarrow> rv_order_id r \<noteq> oid \<Longrightarrow> backed specs (take_lots oid f V) r"
  unfolding backed_def using take_lots_in [of "rv_order_id r" "rv_market_id r" "rv_side r" _ V oid f] by fastforce

subsection \<open>Steps that only move funds\<close>

definition moved_funds :: "'m engine \<Rightarrow> 'm engine \<Rightarrow> bool" where
  "moved_funds en en' \<longleftrightarrow>
     (\<exists>st rs status n. en' = en\<lparr>en_accounts := st, en_reservations := rs, en_status := status,
        en_accounting_failure_count := n\<rparr>)
     \<and> (en_status en' = en_status en \<or> en_status en = Running \<and> en_status en' = HaltedAccountingFailure)
     \<and> map ac_agent_id (en_accounts en') = map ac_agent_id (en_accounts en)"

lemma moved_fundsI:
  "en' = en\<lparr>en_accounts := st, en_reservations := rs, en_status := status, en_accounting_failure_count := n\<rparr> \<Longrightarrow>
   status = en_status en \<or> en_status en = Running \<and> status = HaltedAccountingFailure \<Longrightarrow>
   map ac_agent_id st = map ac_agent_id (en_accounts en) \<Longrightarrow> moved_funds en en'"
  unfolding moved_funds_def by auto

lemma moved_funds_refl [simp]: "moved_funds en en"
  by (rule moved_fundsI [where st = "en_accounts en" and rs = "en_reservations en" and status = "en_status en" and n = "en_accounting_failure_count en"]) simp_all

lemma moved_funds_trans: "moved_funds en en1 \<Longrightarrow> moved_funds en1 en2 \<Longrightarrow> moved_funds en en2"
  unfolding moved_funds_def by (elim conjE exE) (simp, metis)

lemma moved_funds_fields:
  assumes "moved_funds en en'"
  shows "en_market_states en' = en_market_states en" "en_scheduler en' = en_scheduler en"
    "en_accounting_events en' = en_accounting_events en" "en_next_order_id en' = en_next_order_id en"
    "en_agent_slots en' = en_agent_slots en" "en_current_time_ns en' = en_current_time_ns en"
    "en_subscribers en' = en_subscribers en" "en_agent_memory en' = en_agent_memory en"
    "halted en \<Longrightarrow> en_status en' = en_status en"
    "map ac_agent_id (en_accounts en') = map ac_agent_id (en_accounts en)"
    "en_market_registry en' = en_market_registry en"
  using assms by (auto simp: moved_funds_def halted_def)

lemma moved_failure: "moved_funds en (record_accounting_failure en)"
  unfolding record_accounting_failure_def halt_def
  by (rule moved_fundsI [where st = "en_accounts en" and rs = "en_reservations en" and n = "en_accounting_failure_count en + 1"
        and status = "if en_status en = Running then HaltedAccountingFailure else en_status en"]) simp_all

lemma moved_set_accounts:
  "map ac_agent_id st = map ac_agent_id (en_accounts en) \<Longrightarrow> moved_funds en (set_accounts st en)"
  unfolding set_accounts_def
  by (rule moved_fundsI [where st = st and rs = "en_reservations en" and status = "en_status en" and n = "en_accounting_failure_count en"]) simp_all

lemma moved_set_reservation: "moved_funds en (set_reservation i r en)"
  unfolding set_reservation_def
  by (rule moved_fundsI [where st = "en_accounts en" and status = "en_status en" and n = "en_accounting_failure_count en"]) simp_all

lemmas moved_steps = moved_failure moved_set_accounts moved_set_reservation

subsection \<open>Releasing a reservation\<close>

definition running :: "'m engine \<Rightarrow> bool" where
  "running en \<longleftrightarrow> en_status en = Running"

abbreviation engine_orders :: "'m simulation \<Rightarrow> specs \<Rightarrow> 'm engine \<Rightarrow> nat \<Rightarrow> live list \<Rightarrow> bool" where
  "engine_orders sim specs en nxt V \<equiv>
     orders_ok sim specs (en_accounts en) (en_reservations en) nxt (running en) V"

lemma failure_stops [simp]: "\<not> running (record_accounting_failure en)"
  by (simp add: running_def)

lemma release_remove_orders:
  assumes ok: "engine_orders sim specs en nxt V"
    and en': "en' = fst (release_and_remove_reservation sim oid en)"
  shows "engine_orders sim specs en' nxt V \<and> moved_funds en en'
    \<and> (\<forall>x. asset_total (sim_accounts sim) (en_accounts en') x = asset_total (sim_accounts sim) (en_accounts en) x)
    \<and> (running en' \<longrightarrow> (\<forall>r\<in>set (en_reservations en'). rv_active r \<longrightarrow> rv_order_id r \<noteq> oid))"
proof (cases "find_reservation en oid")
  case None
  then show ?thesis
    using ok find_reservation_None [of en oid] unfolding en' by (simp add: release_and_remove_reservation_def)
next
  case (Some i)
  let ?cfg = "sim_accounts sim" and ?r = "en_reservations en ! i"
  let ?rel = "release ?cfg (rv_agent_id ?r) (rv_reserve_asset_id ?r) (rv_reserved_amount_lots ?r) (en_accounts en)"
  note i = find_reservation_Some [OF Some]
  have total: "funds_ok sim en' \<and> (\<forall>x. asset_total ?cfg (en_accounts en') x = asset_total ?cfg (en_accounts en) x)"
    using release_remove_funds [OF orders_okD(1) [OF ok], of oid] unfolding en' by blast
  show ?thesis
  proof (cases "snd ?rel")
    case True
    have eq: "en' = set_reservation i no_reservation (set_accounts (fst ?rel) en)"
      using Some True unfolding en'
      by (simp add: release_and_remove_reservation_def Let_def case_prod_beta set_accounts_def)
    have "orders_ok sim specs (fst ?rel) ((en_reservations en)[i := no_reservation]) nxt (running en) V"
    proof (rule orders_ok_upd [OF ok])
      show "funds sim (fst ?rel) ((en_reservations en)[i := no_reservation])"
        using total unfolding eq by simp
      show "same_names V V"
        using namedD(1) [OF orders_okD(3) [OF ok]] by (auto simp: same_names_def)
    qed (use i operations_keep_agents(2) in auto)
    moreover have "rv_order_id r \<noteq> oid" if r: "r \<in> set ((en_reservations en)[i := no_reservation])" "rv_active r" for r
    proof -
      obtain j where j: "j < length (en_reservations en)" "r = (en_reservations en)[i := no_reservation] ! j"
        using r(1) unfolding in_set_conv_nth length_list_update by blast
      then have "j \<noteq> i" using r(2) i by auto
      then show ?thesis
        using j r(2) i orders_okD(2) [OF ok] unfolding slots_ok_def by (metis nth_list_update_neq)
    qed
    moreover have "moved_funds en en'"
      unfolding eq using operations_keep_agents(2) moved_set_accounts moved_set_reservation moved_funds_trans by blast
    ultimately show ?thesis
      using total unfolding eq by (simp add: running_def)
  next
    case False
    then have eq: "en' = record_accounting_failure en"
      using Some accounts.rel_fail [OF False] unfolding en'
      by (simp add: release_and_remove_reservation_def Let_def case_prod_beta)
    show ?thesis
      using ok total moved_failure [of en] unfolding eq by (simp add: orders_ok_stop)
  qed
qed

subsection \<open>Consuming the reservation of a fill\<close>

lemma reduce_reservation_eq:
  "reduce_reservation i n (set_accounts st en) = set_reservation i ((en_reservations en ! i)
     \<lparr>rv_reserved_amount_lots := rv_reserved_amount_lots (en_reservations en ! i) - n\<rparr>) (set_accounts st en)"
  by (simp add: reduce_reservation_def Let_def)

lemma moved_reduce:
  "map ac_agent_id st = map ac_agent_id (en_accounts en) \<Longrightarrow> moved_funds en (reduce_reservation i n (set_accounts st en))"
  unfolding reduce_reservation_eq using moved_set_accounts moved_set_reservation moved_funds_trans by blast

lemma release_surplus_cases:
  assumes ok: "funds_ok sim en" and i: "i < length (en_reservations en)" "rv_active (en_reservations en ! i)"
    and out: "release_surplus sim i n en = (en', b)"
  shows "funds_ok sim en' \<and> moved_funds en en'
    \<and> (\<forall>x. asset_total (sim_accounts sim) (en_accounts en') x = asset_total (sim_accounts sim) (en_accounts en) x)
    \<and> (b \<longrightarrow> en_status en' = en_status en \<and> en_reservations en' = (en_reservations en)[i := (en_reservations en ! i)
         \<lparr>rv_reserved_amount_lots := rv_reserved_amount_lots (en_reservations en ! i) - max 0 n\<rparr>])
    \<and> (\<not> b \<longrightarrow> en_reservations en' = en_reservations en \<and> \<not> running en')"
proof -
  let ?cfg = "sim_accounts sim" and ?r = "en_reservations en ! i"
  let ?rel = "release ?cfg (rv_agent_id ?r) (rv_reserve_asset_id ?r) n (en_accounts en)"
  have keep: "(en_reservations en)[i := ?r\<lparr>rv_reserved_amount_lots := rv_reserved_amount_lots ?r\<rparr>] = en_reservations en"
    by simp
  have total: "funds_ok sim en' \<and> (\<forall>x. asset_total ?cfg (en_accounts en') x = asset_total ?cfg (en_accounts en) x)"
    using release_surplus_funds [OF ok i, of n] out by simp
  consider "n \<le> 0" | "0 < n" "rv_reserved_amount_lots ?r < n"
    | "0 < n" "n \<le> rv_reserved_amount_lots ?r" "\<not> snd ?rel"
    | "0 < n" "n \<le> rv_reserved_amount_lots ?r" "snd ?rel"
    by linarith
  then show ?thesis
  proof cases
    case 1
    then show ?thesis using total out keep by (auto simp: release_surplus_def Let_def max_def)
  next
    case 2
    then show ?thesis using total out moved_failure by (auto simp: release_surplus_def Let_def)
  next
    case 3
    then have "en' = record_accounting_failure (set_accounts (en_accounts en) en)" "\<not> b"
      using out accounts.rel_fail [OF 3(3)] by (cases ?rel; simp add: release_surplus_def Let_def)+
    then show ?thesis
      using total moved_failure [of "set_accounts (en_accounts en) en"] moved_set_accounts [of "en_accounts en" en]
      by (auto intro: moved_funds_trans)
  next
    case 4
    then have en': "en' = reduce_reservation i n (set_accounts (fst ?rel) en)" and b
      using out by (cases ?rel; simp add: release_surplus_def Let_def)+
    moreover have "moved_funds en en'"
      unfolding en' using operations_keep_agents(2) by (rule moved_reduce)
    ultimately show ?thesis
      using total 4 by (simp add: reduce_reservation_eq)
  qed
qed

text \<open>
  A fill of \<open>f\<close> lots of order \<open>oid\<close> consumes part of what the order reserved for
  those lots and releases the rest.
\<close>

lemma consume_fill_orders:
  assumes ok: "engine_orders sim specs en nxt V" and v: "(oid, m, s, q) \<in> set V" and le: "f \<le> q"
    and spec: "specs m = Some spec"
    and price: "\<And>i. find_reservation en oid = Some i \<Longrightarrow>
      required_reservation_amount spec s (rv_price_ticks (en_reservations en ! i)) f = reserved"
    and out: "consume_fill_reservation sim oid consumed reserved en = (en', b)"
  shows "engine_orders sim specs en' nxt (take_lots oid f V) \<and> moved_funds en en'
    \<and> (\<not> b \<longrightarrow> \<not> running en')
    \<and> (b \<longrightarrow> en_status en' = en_status en \<and>
        (\<forall>x. asset_total (sim_accounts sim) (en_accounts en') x = asset_total (sim_accounts sim) (en_accounts en) x
           - (if x = reservation_asset spec s then consumed else 0)))"
proof -
  let ?cfg = "sim_accounts sim"
  have names: "same_names V (take_lots oid f V)"
    using namedD(1) [OF orders_okD(3) [OF ok]] by (rule take_lots_names)
  have failed: ?thesis if "en' = record_accounting_failure en" "\<not> b"
    using that orders_ok_halt [OF ok names] moved_failure by simp
  show ?thesis
  proof (cases "find_reservation en oid")
    case None
    then show ?thesis using out by (intro failed) (auto simp: consume_fill_reservation_def)
  next
    case (Some i)
    let ?r = "en_reservations en ! i"
    let ?con = "consume_reserved ?cfg (rv_agent_id ?r) (rv_reserve_asset_id ?r) consumed (en_accounts en)"
    note i = find_reservation_Some [OF Some]
    have r: "?r \<in> set (en_reservations en)" "rv_active ?r" using i by simp_all
    note st = fundsD(1) [OF orders_okD(1) [OF ok]]
    show ?thesis
    proof (cases "consumed < 0 \<or> reserved < consumed \<or> rv_reserved_amount_lots ?r < consumed \<or> \<not> snd ?con")
      case True
      have same: "set_accounts (en_accounts en) en = en" by (simp add: set_accounts_def)
      show ?thesis
      proof (cases "consumed < 0 \<or> reserved < consumed \<or> rv_reserved_amount_lots ?r < consumed")
        case False
        then have "\<not> snd ?con" using True by blast
        then show ?thesis
          using out Some False same accounts.con_fail [OF \<open>\<not> snd ?con\<close>]
          by (intro failed) (cases ?con; simp add: consume_fill_reservation_def Let_def)+
      next
        case bad: True
        have "en' = record_accounting_failure en" "\<not> b"
          using out Some bad by (auto simp: consume_fill_reservation_def Let_def)
        then show ?thesis by (rule failed)
      qed
    next
      case False
      let ?en1 = "reduce_reservation i consumed (set_accounts (fst ?con) en)"
      obtain en2 b2 where sur: "release_surplus sim i (reserved - consumed) ?en1 = (en2, b2)" by fastforce
      have con: "snd ?con" and bounds: "0 \<le> consumed" "consumed \<le> reserved" "consumed \<le> rv_reserved_amount_lots ?r"
        using False by auto
      have en': "en' = (if b2 then remove_empty_reservation i en2 else en2)" "b = b2"
        using out Some con bounds sur
        by (cases ?con; simp add: consume_fill_reservation_def Let_def split: bool.splits; auto)+
      have funds1: "funds_ok sim ?en1"
        using consume_law [OF st con] accounts.consume_effect(1) [OF st con] bounds i
        by (intro reduce_funds [OF orders_okD(1) [OF ok]]) simp_all
      have total1: "asset_total ?cfg (en_accounts ?en1) x = asset_total ?cfg (en_accounts en) x
          - (if x = rv_reserve_asset_id ?r then consumed else 0)" for x
        using asset_total_steps(3) [OF st con] by (simp add: reduce_reservation_eq)
      have agents1: "map ac_agent_id (fst ?con) = map ac_agent_id (en_accounts en)"
        by (rule operations_keep_agents(3))
      have moved1: "moved_funds en ?en1" using agents1 by (rule moved_reduce)
      have r1: "en_reservations ?en1 = (en_reservations en)[i := ?r\<lparr>rv_reserved_amount_lots := rv_reserved_amount_lots ?r - consumed\<rparr>]"
        "en_status ?en1 = en_status en"
        by (simp_all add: reduce_reservation_eq)
      have i1: "i < length (en_reservations ?en1)" "rv_active (en_reservations ?en1 ! i)"
        using i r1 by simp_all
      note two = release_surplus_cases [OF funds1 i1 sur]
      have moved2: "moved_funds en en2"
        using moved1 two moved_funds_trans by blast
      have asset: "rv_reserve_asset_id ?r = reservation_asset spec s" "rv_side ?r = s" "rv_market_id ?r = m"
        using orders_okD(4) [OF ok r] namedD(3) [OF orders_okD(3) [OF ok] v r] i spec
        by (auto simp: reservation_ok_def)
      have keep: "\<And>r'. r' \<in> set (en_reservations en) \<Longrightarrow> rv_order_id r' \<noteq> rv_order_id ?r \<Longrightarrow>
          backed specs V r' \<longrightarrow> backed specs (take_lots oid f V) r'"
        using i backed_take_other by blast
      show ?thesis
      proof (cases b2)
        case False
        have "orders_ok sim specs (en_accounts en2) ((en_reservations en)[i :=
            ?r\<lparr>rv_reserved_amount_lots := rv_reserved_amount_lots ?r - consumed\<rparr>]) nxt False (take_lots oid f V)"
          using two False r1 moved_funds_fields(10) [OF moved2] i names
          by (intro orders_ok_upd [OF ok, where running' = False]) auto
        then show ?thesis
          using two False r1 moved2 unfolding en' by (simp add: running_def)
      next
        case True
        let ?a = "rv_reserved_amount_lots ?r - reserved"
        have r2: "en_reservations en2 = (en_reservations en)[i := ?r\<lparr>rv_reserved_amount_lots := ?a\<rparr>]"
          using two True r1 i bounds by simp
        have i2: "i < length (en_reservations en2)" using r2 i by simp
        define r' where "r' = (if ?a = 0 then no_reservation else ?r\<lparr>rv_reserved_amount_lots := ?a\<rparr>)"
        have e3: "en' = (if ?a = 0 then set_reservation i no_reservation en2 else en2)" "b"
          using en' True r2 i by (simp_all add: remove_empty_reservation_def)
        have f3: "funds_ok sim en'"
          using remove_empty_funds [OF conjunct1 [OF two] i2] True unfolding en' by simp
        have r3: "en_reservations en' = (en_reservations en)[i := r']" "en_accounts en' = en_accounts en2"
            "en_status en' = en_status en"
          using e3 r2 i two True r1 by (simp_all add: r'_def)
        have moved3: "moved_funds en en'"
          using e3 moved2 moved_set_reservation moved_funds_trans by (metis (full_types))
        have "backed specs (take_lots oid f V) r'" if run: "running en'" "rv_active r'"
        proof -
          have a0: "?a \<noteq> 0" and r'_eq: "r' = ?r\<lparr>rv_reserved_amount_lots := ?a\<rparr>"
            using run(2) by (auto simp: r'_def split: if_splits)
          have "r' \<in> set (en_reservations en')" using r3 i by (simp add: set_update_memI)
          then have "0 \<le> ?a" using fundsD(3) [OF f3 _ run(2)] r'_eq by simp
          then have pos: "0 < ?a" using a0 by simp
          have "running en" using run(1) r3(3) by (simp add: running_def)
          then have "backed specs V ?r" using orders_okD(5) [OF ok _ r] by simp
          then obtain q' where q': "(oid, m, s, q') \<in> set V"
              "rv_reserved_amount_lots ?r \<le> required_reservation_amount spec s (rv_price_ticks ?r) q'"
            using i asset spec by (auto simp: backed_def)
          have "q' = q" using live_unique [OF namedD(1) [OF orders_okD(3) [OF ok]] v q'(1)] by simp
          moreover have "0 \<le> reserved" using bounds by simp
          ultimately have "?a \<le> required_reservation_amount spec s (rv_price_ticks ?r) (q - f)"
            using required_split [of spec s "rv_price_ticks ?r" q f] price [OF Some] q'(2) pos le by simp
          moreover have "(oid, m, s, q - f) \<in> set (take_lots oid f V)"
            using take_lots_in [OF v, of oid f] by simp
          ultimately show ?thesis
            using pos i asset spec unfolding r'_eq by (auto simp: backed_def)
        qed
        then have "engine_orders sim specs en' nxt (take_lots oid f V)"
          unfolding r3(1)
          using f3 r3 moved_funds_fields(10) [OF moved3] i names keep
          by (intro orders_ok_upd [OF ok]) (auto simp: r'_def running_def)
        then show ?thesis
          using moved3 total1 two True r3 e3(2) asset by simp
      qed
    qed
  qed
qed

subsection \<open>Crediting and settling\<close>

lemma orders_ok_accounts:
  assumes ok: "orders_ok sim specs st rs nxt run V" and f: "funds sim st' rs"
    and acc: "map ac_agent_id st' = map ac_agent_id st"
  shows "orders_ok sim specs st' rs nxt run V"
proof -
  have "has_account st' = has_account st"
    using same_agents_has_account [OF fundsD(1) [OF orders_okD(1) [OF ok]] fundsD(1) [OF f] acc] .
  then show ?thesis
    using ok f unfolding orders_ok_def reservation_ok_def by simp
qed

lemma credit_orders:
  assumes ok: "engine_orders sim specs en nxt V" and out: "credit sim a x n en = (en', b)"
  shows "engine_orders sim specs en' nxt V \<and> moved_funds en en' \<and> (\<not> b \<longrightarrow> \<not> running en')
    \<and> (b \<longrightarrow> en_status en' = en_status en \<and>
        (\<forall>x'. asset_total (sim_accounts sim) (en_accounts en') x' = asset_total (sim_accounts sim) (en_accounts en) x'
           + (if x' = x then n else 0)))"
proof -
  let ?del = "apply_delta (sim_accounts sim) a x n (en_accounts en)"
  note st = fundsD(1) [OF orders_okD(1) [OF ok]]
  have same: "set_accounts (en_accounts en) en = en" by (simp add: set_accounts_def)
  show ?thesis
  proof (cases "snd ?del")
    case True
    then have en': "en' = set_accounts (fst ?del) en" b
      using out by (cases ?del; simp add: credit_def)+
    have "funds sim (fst ?del) (en_reservations en)"
      using orders_okD(1) [OF ok] apply_delta_law [OF st True] accounts.delta_effect(1) [OF st True]
      by (simp add: funds_def)
    then show ?thesis
      using en' orders_ok_accounts [OF ok] operations_keep_agents(4) moved_set_accounts [of "fst ?del" en]
        asset_total_steps(4) [OF st True]
      by (simp add: running_def)
  next
    case False
    then have "en' = record_accounting_failure en" "\<not> b"
      using out accounts.del_fail [OF False] same by (cases ?del; simp add: credit_def)+
    then show ?thesis
      using ok moved_failure by (simp add: orders_ok_stop)
  qed
qed

lemma sint_lots: "0 \<le> notional_lots p q \<Longrightarrow> sint q = uint q"
proof -
  assume "0 \<le> notional_lots p q"
  then have n: "0 < p" "p * uint q \<le> i64_max"
    using notional_lots_eq(1) by blast+
  then have "1 * uint q \<le> p * uint q"
    by (intro mult_right_mono) simp_all
  then have "uint q < 2 ^ 63"
    using n by (simp add: i64_max_def)
  then show ?thesis
    by (simp add: sint_uint signed_take_bit_int_eq_self_iff order.trans [OF _ uint_ge_0])
qed

text \<open>The two sides of a fill in the list of live orders.\<close>

definition fill_known :: "product_spec \<Rightarrow> trade_execution \<Rightarrow> market_id \<Rightarrow> live list \<Rightarrow> bool" where
  "fill_known spec e m V \<longleftrightarrow>
     (\<exists>q. (ft_buyer_order (fill_terms_of spec e), m, Buy, q) \<in> set V \<and> te_quantity_lots e \<le> q)
     \<and> (\<exists>q. (ft_seller_order (fill_terms_of spec e), m, Sell, q) \<in> set V \<and> te_quantity_lots e \<le> q)"

definition trade_lots :: "product_spec \<Rightarrow> trade_execution \<Rightarrow> live list \<Rightarrow> live list" where
  "trade_lots spec e V = take_lots (ft_seller_order (fill_terms_of spec e)) (te_quantity_lots e)
     (take_lots (ft_buyer_order (fill_terms_of spec e)) (te_quantity_lots e) V)"

lemma trade_lots_names: "distinct (map fst V) \<Longrightarrow> same_names V (trade_lots spec e V)"
  unfolding trade_lots_def by (rule same_names_trans [OF take_lots_names take_lots_names]) simp_all

lemma settle_fill_orders:
  assumes ok: "engine_orders sim specs en nxt V" and spec: "specs m = Some spec"
    and known: "fill_known spec e m V" and n: "0 \<le> ft_notional (fill_terms_of spec e)"
    and limit: "limit = buyer_limit_price e (fill_terms_of spec e) en"
    and out: "settle_fill sim spec (fill_terms_of spec e)
      (required_reservation_amount spec Buy limit (te_quantity_lots e)) en = (en', b)"
  shows "engine_orders sim specs en' nxt (trade_lots spec e V) \<and> moved_funds en en' \<and> (\<not> b \<longrightarrow> \<not> running en')
    \<and> (b \<longrightarrow> en_status en' = en_status en \<and>
        (\<forall>x. asset_total (sim_accounts sim) (en_accounts en') x = asset_total (sim_accounts sim) (en_accounts en) x
           - (if x = quote_asset_id spec then ft_buyer_fee (fill_terms_of spec e) + ft_seller_fee (fill_terms_of spec e) else 0)))"
proof -
  let ?t = "fill_terms_of spec e" and ?f = "te_quantity_lots e" and ?A = "asset_total (sim_accounts sim)"
  let ?V1 = "take_lots (ft_buyer_order ?t) ?f V"
  have dist: "distinct (map fst V)" using namedD(1) [OF orders_okD(3) [OF ok]] .
  obtain qb where b0: "(ft_buyer_order ?t, m, Buy, qb) \<in> set V" "?f \<le> qb"
    using known by (auto simp: fill_known_def)
  obtain qs where s0: "(ft_seller_order ?t, m, Sell, qs) \<in> set V" "?f \<le> qs"
    using known by (auto simp: fill_known_def)
  have diff: "ft_seller_order ?t \<noteq> ft_buyer_order ?t"
    using live_unique [OF dist b0(1)] s0(1) by fastforce
  obtain e1 o1 where c1: "consume_fill_reservation sim (ft_buyer_order ?t) (ft_notional ?t + ft_buyer_fee ?t)
      (required_reservation_amount spec Buy limit ?f) en = (e1, o1)" by fastforce
  have "\<And>i. find_reservation en (ft_buyer_order ?t) = Some i \<Longrightarrow>
      required_reservation_amount spec Buy (rv_price_ticks (en_reservations en ! i)) ?f
        = required_reservation_amount spec Buy limit ?f"
    by (simp add: limit buyer_limit_price_def)
  note one = consume_fill_orders [OF ok b0 spec this c1]
  have dist1: "distinct (map fst ?V1)" using dist by simp
  have s1: "(ft_seller_order ?t, m, Sell, qs) \<in> set ?V1"
    using take_lots_in [OF s0(1), of "ft_buyer_order ?t" ?f] diff by simp
  show ?thesis
  proof (cases o1)
    case False
    then have "en' = e1" "\<not> b" using out c1 by (simp_all add: settle_fill_def)
    then show ?thesis
      using one False orders_ok_halt [OF conjunct1 [OF one] take_lots_names [OF dist1]]
      by (simp add: trade_lots_def)
  next
    case True
    obtain e2 o2 where c2: "consume_fill_reservation sim (ft_seller_order ?t) (ft_lots ?t) (ft_lots ?t) e1 = (e2, o2)" by fastforce
    have lots: "ft_lots ?t = uint ?f" "uint ?f \<le> i64_max"
      using n sint_lots [of "te_price_ticks e" ?f] notional_lots_eq [of "te_price_ticks e" ?f]
        mult_right_mono [of 1 "te_price_ticks e" "uint ?f"]
      by (auto simp: fill_terms_of_def Let_def)
    then have "required_reservation_amount spec Sell p ?f = ft_lots ?t" for p
      by (simp add: required_reservation_amount_def)
    note two = consume_fill_orders [OF conjunct1 [OF one] s1 s0(2) spec this c2]
    have ok2: "engine_orders sim specs e2 nxt (trade_lots spec e V)"
      using two by (simp add: trade_lots_def)
    have moved2: "moved_funds en e2" using one two moved_funds_trans by blast
    show ?thesis
    proof (cases o2)
      case False
      then have "en' = e2" "\<not> b" using out c1 c2 True by (simp_all add: settle_fill_def)
      then show ?thesis using two ok2 moved2 False by blast
    next
      case o2: True
      obtain e3 o3 where c3: "credit sim (ft_buyer ?t) (base_asset_id spec) (ft_lots ?t) e2 = (e3, o3)" by fastforce
      note three = credit_orders [OF ok2 c3]
      have moved3: "moved_funds en e3" using moved2 three moved_funds_trans by blast
      show ?thesis
      proof (cases o3)
        case False
        then have "en' = e3" "\<not> b" using out c1 c2 c3 True o2 by (simp_all add: settle_fill_def)
        then show ?thesis using three moved3 False by blast
      next
        case o3: True
        then have c4: "credit sim (ft_seller ?t) (quote_asset_id spec) (ft_notional ?t - ft_seller_fee ?t) e3 = (en', b)"
          using out c1 c2 c3 True o2 by (simp add: settle_fill_def)
        note four = credit_orders [OF conjunct1 [OF three] c4]
        have "moved_funds en en'" using moved3 four moved_funds_trans by blast
        then show ?thesis
          using one two three four True o2 o3 by (auto simp: reservation_asset_def)
      qed
    qed
  qed
qed

end
