(* ===== verification/EngineAgents.thy ===== *)
theory EngineAgents
  imports EngineFills
begin

section \<open>What agents can do\<close>

text \<open>
  Every context call an agent makes keeps the order ledger: submitting either
  leaves the engine as it was, up to a drawn latency, or adds one reservation and
  one arrival event; cancelling and waking up only schedule events. The order ids
  stay below a bound because every accepted order takes one place of the scheduler.
\<close>

definition market_core :: "market_state \<Rightarrow> market_id \<times> market_key \<times> product_spec \<times> matching_book" where
  "market_core s = (mk_market_id s, mk_market_key s, mk_product_spec s, mk_matching_book s)"

definition pending :: "scheduler \<Rightarrow> live list" where
  "pending s = map (\<lambda>e. (se_order_id e, se_market_id e, se_side e, se_quantity_lots e))
     (filter (\<lambda>e. se_kind e = OrderArrivesAtMarket) (sc_heap s))"

definition markets_named :: "market_state list \<Rightarrow> bool" where
  "markets_named ms \<longleftrightarrow> length ms \<le> 2 ^ 32 \<and> (\<forall>i<length ms. mk_market_id (ms ! i) = of_nat i)"

definition ledger_inv :: "'m simulation \<Rightarrow> live list \<Rightarrow> nat \<Rightarrow> 'm engine \<Rightarrow> bool" where
  "ledger_inv sim L B en \<longleftrightarrow>
     scheduler_ok (en_scheduler en)
     \<and> length (sc_heap (en_scheduler en)) \<le> scheduler_capacity sim
     \<and> unat (en_next_order_id en) + available_capacity (scheduler_capacity sim) (en_scheduler en) \<le> B
     \<and> markets_named (en_market_states en)
     \<and> engine_orders sim (specs_of (en_market_states en)) en (unat (en_next_order_id en))
         (pending (en_scheduler en) @ L)"

definition agent_frame :: "'m engine \<Rightarrow> 'm engine \<Rightarrow> bool" where
  "agent_frame en en' \<longleftrightarrow>
     map market_core (en_market_states en') = map market_core (en_market_states en)
     \<and> en_accounting_events en' = en_accounting_events en
     \<and> en_match_results en' = en_match_results en \<and> en_cancel_results en' = en_cancel_results en
     \<and> en_current_time_ns en' = en_current_time_ns en \<and> en_agent_slots en' = en_agent_slots en
     \<and> en_visible_depths en' = en_visible_depths en \<and> en_market_registry en' = en_market_registry en
     \<and> map sb_agent_id (en_subscribers en') = map sb_agent_id (en_subscribers en)
     \<and> en_status en' = en_status en
     \<and> map ac_agent_id (en_accounts en') = map ac_agent_id (en_accounts en)
     \<and> en_processed_event_count en' = en_processed_event_count en"

definition same_totals :: "'m simulation \<Rightarrow> 'm engine \<Rightarrow> 'm engine \<Rightarrow> bool" where
  "same_totals sim en en' \<longleftrightarrow>
     (\<forall>x. asset_total (sim_accounts sim) (en_accounts en') x = asset_total (sim_accounts sim) (en_accounts en) x)"

lemma agent_frame_refl [simp]: "agent_frame en en"
  by (simp add: agent_frame_def)

lemma agent_frame_trans: "agent_frame en en1 \<Longrightarrow> agent_frame en1 en2 \<Longrightarrow> agent_frame en en2"
  by (simp add: agent_frame_def)

lemma same_totals_refl [simp]: "same_totals sim en en"
  by (simp add: same_totals_def)

lemma same_totals_trans: "same_totals sim en en1 \<Longrightarrow> same_totals sim en1 en2 \<Longrightarrow> same_totals sim en en2"
  by (simp add: same_totals_def)

lemma ledger_invD:
  assumes "ledger_inv sim L B en"
  shows "scheduler_ok (en_scheduler en)" "length (sc_heap (en_scheduler en)) \<le> scheduler_capacity sim"
    "unat (en_next_order_id en) + available_capacity (scheduler_capacity sim) (en_scheduler en) \<le> B"
    "markets_named (en_market_states en)"
    "engine_orders sim (specs_of (en_market_states en)) en (unat (en_next_order_id en)) (pending (en_scheduler en) @ L)"
  using assms by (simp_all add: ledger_inv_def)

subsection \<open>Markets that only redraw latencies\<close>

lemma core_nth:
  assumes "map market_core ms' = map market_core ms"
  shows "length ms' = length ms" "i < length ms \<Longrightarrow> market_core (ms' ! i) = market_core (ms ! i)"
proof -
  show len: "length ms' = length ms" using assms by (metis length_map)
  show "market_core (ms' ! i) = market_core (ms ! i)" if "i < length ms"
    using assms len that by (metis nth_map)
qed

lemma specs_core:
  assumes "map market_core ms' = map market_core ms"
  shows "specs_of ms' = specs_of ms"
  using core_nth [OF assms] by (auto simp: specs_of_def market_core_def fun_eq_iff)

lemma markets_named_core:
  assumes "map market_core ms' = map market_core ms"
  shows "markets_named ms' = markets_named ms"
  using core_nth [OF assms] by (simp add: markets_named_def market_core_def)

lemma ledger_markets:
  assumes inv: "ledger_inv sim L B en" and core: "map market_core ms' = map market_core (en_market_states en)"
  shows "ledger_inv sim L B (en\<lparr>en_market_states := ms'\<rparr>)"
  using inv specs_core [OF core] markets_named_core [OF core] by (simp add: ledger_inv_def running_def)

lemma upd_market_core:
  "market_core (f (en_market_states en ! i)) = market_core (en_market_states en ! i) \<Longrightarrow>
   map market_core (en_market_states (upd_market i f en)) = map market_core (en_market_states en)"
  unfolding upd_market_def by (simp add: map_upd_same)

lemma upd_market_ledger:
  "ledger_inv sim L B en \<Longrightarrow> market_core (f (en_market_states en ! i)) = market_core (en_market_states en ! i) \<Longrightarrow>
   ledger_inv sim L B (upd_market i f en) \<and> agent_frame en (upd_market i f en) \<and> same_totals sim en (upd_market i f en)"
  using ledger_markets [of sim L B en] upd_market_core [of f en i]
  by (simp add: upd_market_def agent_frame_def same_totals_def)

lemma draw_latency_ledger:
  assumes "ledger_inv sim L B en"
  shows "ledger_inv sim L B (fst (draw_order_latency sim i en)) \<and> agent_frame en (fst (draw_order_latency sim i en))
      \<and> same_totals sim en (fst (draw_order_latency sim i en))"
    and "ledger_inv sim L B (fst (draw_cancel_latency sim i en)) \<and> agent_frame en (fst (draw_cancel_latency sim i en))
      \<and> same_totals sim en (fst (draw_cancel_latency sim i en))"
  using assms unfolding draw_order_latency_def draw_cancel_latency_def case_prod_beta fst_conv
  by (intro upd_market_ledger; simp add: market_core_def)+

subsection \<open>Scheduling other events than orders\<close>

lemma pending_mset:
  "mset (sc_heap s') = add_mset e (mset (sc_heap s)) \<Longrightarrow>
   mset (pending s') = (if se_kind e = OrderArrivesAtMarket
     then add_mset (se_order_id e, se_market_id e, se_side e, se_quantity_lots e) (mset (pending s))
     else mset (pending s))"
  by (simp add: pending_def)

lemma push_event_cases [consumes 2, case_names full pushed]:
  assumes ok: "scheduler_ok (en_scheduler en)" and len: "length (sc_heap (en_scheduler en)) \<le> scheduler_capacity sim"
  obtains (full) "length (sc_heap (en_scheduler en)) = scheduler_capacity sim" "push_event sim e en = (en, False)"
  | (pushed) s' e' where "push_event sim e en = (en\<lparr>en_scheduler := s'\<rparr>, True)" "scheduler_ok s'"
      "length (sc_heap (en_scheduler en)) < scheduler_capacity sim"
      "length (sc_heap s') = Suc (length (sc_heap (en_scheduler en)))"
      "mset (sc_heap s') = add_mset e' (mset (sc_heap (en_scheduler en)))"
      "e' = e\<lparr>se_sequence_number := sc_next_sequence (en_scheduler en)\<rparr>"
proof (cases "length (sc_heap (en_scheduler en)) = scheduler_capacity sim")
  case True
  then show ?thesis
    by (intro full) (simp_all add: push_event_def push_full)
next
  case False
  let ?s' = "fst (push (scheduler_capacity sim) e (en_scheduler en))"
  note p = push_stamped [OF ok False, of e]
  have "length (sc_heap ?s') = Suc (length (sc_heap (en_scheduler en)))"
    using p by (metis size_mset size_add_mset)
  then show ?thesis
    using p False len by (intro pushed [of ?s']) (auto simp: push_event_def case_prod_beta)
qed

lemma push_other_ledger:
  assumes inv: "ledger_inv sim L B en" and kind: "se_kind e \<noteq> OrderArrivesAtMarket"
  shows "ledger_inv sim L B (fst (push_event sim e en)) \<and> agent_frame en (fst (push_event sim e en))
    \<and> same_totals sim en (fst (push_event sim e en))"
using ledger_invD(1,2) [OF inv]
proof (cases rule: push_event_cases [of en sim e])
  case full
  then show ?thesis using inv by simp
next
  case (pushed s' e')
  have "mset (pending s' @ L) = mset (pending (en_scheduler en) @ L)"
    using pending_mset [OF pushed(5)] kind pushed(6) by simp
  then have "orders_ok sim (specs_of (en_market_states en)) (en_accounts en) (en_reservations en)
      (unat (en_next_order_id en)) (running en) (pending s' @ L)"
    using orders_ok_perm [OF ledger_invD(5) [OF inv]] by blast
  then show ?thesis
    using pushed inv unfolding ledger_inv_def
    by (simp add: agent_frame_def same_totals_def available_capacity_def running_def) linarith
qed

lemma wakeup_ledger:
  assumes inv: "ledger_inv sim L B en"
  shows "ledger_inv sim L B (fst (schedule_agent_wakeup sim a t en))
    \<and> agent_frame en (fst (schedule_agent_wakeup sim a t en))
    \<and> same_totals sim en (fst (schedule_agent_wakeup sim a t en))"
proof -
  let ?e = "default_event\<lparr>se_timestamp_ns := t, se_phase := AgentPhase, se_kind := AgentWakeup, se_agent_id := a\<rparr>"
  have "schedule_agent_wakeup sim a t en = (if halted en \<or> find_agent_slot en a = None then (en, False) else push_event sim ?e en)"
    by (simp add: schedule_agent_wakeup_def push_event_def)
  then show ?thesis
    using inv push_other_ledger [OF inv, of ?e] by simp
qed

lemma cancel_order_ledger:
  assumes inv: "ledger_inv sim L B en"
  shows "ledger_inv sim L B (fst (cancel_order sim rq en)) \<and> agent_frame en (fst (cancel_order sim rq en))
    \<and> same_totals sim en (fst (cancel_order sim rq en))"
proof -
  have pushed: "ledger_inv sim L B (fst (push_event sim (cancel_arrival rq t) (fst (draw_cancel_latency sim i en))))
      \<and> agent_frame en (fst (push_event sim (cancel_arrival rq t) (fst (draw_cancel_latency sim i en))))
      \<and> same_totals sim en (fst (push_event sim (cancel_arrival rq t) (fst (draw_cancel_latency sim i en))))" for i t
    using draw_latency_ledger(2) [OF inv, of i] push_other_ledger [of sim L B "fst (draw_cancel_latency sim i en)" "cancel_arrival rq t"]
    by (auto simp: cancel_arrival_def intro: agent_frame_trans same_totals_trans)
  show ?thesis
    using inv pushed by (simp add: cancel_order_def Let_def case_prod_beta split: option.split)
qed

subsection \<open>Submitting\<close>

lemma draw_order_latency_fields:
  "en_accounts (fst (draw_order_latency sim i en)) = en_accounts en"
  "en_reservations (fst (draw_order_latency sim i en)) = en_reservations en"
  "en_scheduler (fst (draw_order_latency sim i en)) = en_scheduler en"
  "en_next_order_id (fst (draw_order_latency sim i en)) = en_next_order_id en"
  "en_current_time_ns (fst (draw_order_latency sim i en)) = en_current_time_ns en"
  "en_status (fst (draw_order_latency sim i en)) = en_status en"
  by (simp_all add: draw_order_latency_def upd_market_def case_prod_beta)

lemma draw_order_latency_upd:
  "fst (draw_order_latency sim i (en\<lparr>en_accounts := st, en_reservations := rs\<rparr>))
     = (fst (draw_order_latency sim i en))\<lparr>en_accounts := st, en_reservations := rs\<rparr>"
  "snd (draw_order_latency sim i (en\<lparr>en_accounts := st, en_reservations := rs\<rparr>)) = snd (draw_order_latency sim i en)"
  by (simp_all add: draw_order_latency_def upd_market_def case_prod_beta)

lemma market_specs: "market_index en m = Some i \<Longrightarrow> specs_of (en_market_states en) m = Some (mk_product_spec (en_market_states en ! i))"
  by (auto simp: market_index_def specs_of_def split: if_splits)

text \<open>The new order's reservation is put in a free slot and its arrival is scheduled, or all is undone.\<close>

lemma dispatch_order_ledger:
  assumes inv: "ledger_inv sim L B en" and B: "B < 2 ^ 64"
    and i: "market_index en (rq_market_id request) = Some i"
    and res: "snd (reserve (sim_accounts sim) (rq_agent_id request) asset amount (en_accounts en))"
    and acc: "has_account (en_accounts en) (rq_agent_id request)"
    and spec: "spec = mk_product_spec (en_market_states en ! i)"
    and asset: "asset = reservation_asset spec (rq_side request)"
    and amount: "amount = required_reservation_amount spec (rq_side request) (rq_price_ticks request) (rq_quantity_lots request)"
    and pos: "0 < rq_price_ticks request" "rq_quantity_lots request \<noteq> 0" "0 \<le> amount"
    and st': "st' = fst (reserve (sim_accounts sim) (rq_agent_id request) asset amount (en_accounts en))"
    and r: "r = request_reservation (en_next_order_id en) request asset amount"
    and j: "j < length (en_reservations en)" "\<not> rv_active (en_reservations en ! j)"
    and out: "dispatch_order sim i request (set_reservation j (r\<lparr>rv_active := True\<rparr>) (en\<lparr>en_accounts := st'\<rparr>)) = (en', ans)"
  shows "ledger_inv sim L B en' \<and> agent_frame en en' \<and> same_totals sim en en'
    \<and> (\<not> gr_accepted ans \<longrightarrow> gr_status ans = SchedulerFull \<and> en' = fst (draw_order_latency sim i en))"
proof -
  let ?r = "r\<lparr>rv_active := True\<rparr>" and ?oid = "en_next_order_id en"
  let ?rs = "(en_reservations en)[j := ?r]"
  let ?d = "fst (draw_order_latency sim i en)" and ?cfg = "sim_accounts sim"
  let ?en2 = "?d\<lparr>en_accounts := st', en_reservations := ?rs\<rparr>"
  let ?t = "add_time_saturating (en_current_time_ns en) (snd (draw_order_latency sim i en))"
  let ?ev = "order_arrival ?oid request ?t"
  note ok = ledger_invD(5) [OF inv]
  note st = fundsD(1) [OF orders_okD(1) [OF ok]]
  have d: "ledger_inv sim L B ?d" "agent_frame en ?d" "same_totals sim en ?d"
    using draw_latency_ledger(1) [OF inv, of i] by auto
  have en1: "set_reservation j ?r (en\<lparr>en_accounts := st'\<rparr>) = en\<lparr>en_accounts := st', en_reservations := ?rs\<rparr>"
    by (simp add: set_reservation_def)
  have rf: "rv_order_id r = ?oid" "rv_agent_id r = rq_agent_id request" "rv_market_id r = rq_market_id request"
      "rv_side r = rq_side request" "rv_reserve_asset_id r = asset" "rv_price_ticks r = rq_price_ticks request"
      "rv_reserved_amount_lots r = amount"
    by (simp_all add: r request_reservation_def)
  have clean: "en_reservations en ! j = no_reservation"
    using orders_okD(2) [OF ok] j by (simp add: slots_ok_def)
  have fresh: "rv_order_id r' \<noteq> ?oid" if "r' \<in> set (en_reservations en)" "rv_active r'" for r'
    using orders_okD(4) [OF ok that] by (auto simp: reservation_ok_def)
  note agents = operations_keep_agents(1) [of ?cfg "rq_agent_id request" asset amount "en_accounts en", folded st']
  have total: "asset_total ?cfg st' x = asset_total ?cfg (en_accounts en) x" for x
    using asset_total_steps(1) [OF st res] by (simp add: st')
  have "dispatch_order sim i request (set_reservation j ?r (en\<lparr>en_accounts := st'\<rparr>)) = (case push_event sim ?ev ?en2 of (e3, scheduled) \<Rightarrow>
      if \<not> scheduled then (fst (release_and_remove_reservation sim ?oid e3),
             gateway_reject SchedulerFull invalid_order_id (rq_market_id request) ?t)
      else (e3\<lparr>en_next_order_id := en_next_order_id e3 + 1\<rparr>,
             \<lparr>gr_accepted = True, gr_status = Accepted, gr_order_id = ?oid, gr_market_id = rq_market_id request,
              gr_arrival_timestamp_ns = ?t\<rparr>))"
    unfolding en1 dispatch_order_def
    by (simp add: Let_def case_prod_beta draw_order_latency_upd draw_order_latency_fields)
  note ans = this [unfolded out]
  have sch: "scheduler_ok (en_scheduler ?en2)" "length (sc_heap (en_scheduler ?en2)) \<le> scheduler_capacity sim"
    using ledger_invD(1,2) [OF inv] by (simp_all add: draw_order_latency_fields)
  show ?thesis
    using sch
  proof (cases rule: push_event_cases [of ?en2 sim ?ev])
    case full
    have "find_reservation ?en2 ?oid = Some j"
      unfolding find_reservation_def
      using j rf(1) fresh by (intro find_upt_unique) (auto simp: nth_upd split: if_splits)
    moreover have "release ?cfg (rq_agent_id request) asset amount st' = (en_accounts en, True)"
      unfolding st' by (rule reserve_release_id [OF st res])
    ultimately have "release_and_remove_reservation sim ?oid ?en2
        = (?d\<lparr>en_accounts := en_accounts en, en_reservations := ?rs[j := no_reservation]\<rparr>, True)"
      using j rf by (simp add: release_and_remove_reservation_def Let_def set_reservation_def)
    moreover have "?rs[j := no_reservation] = en_reservations en"
      using clean by (metis list_update_id list_update_overwrite)
    moreover have "?d\<lparr>en_accounts := en_accounts en, en_reservations := en_reservations en\<rparr> = ?d"
      by (simp add: draw_order_latency_def upd_market_def case_prod_beta)
    ultimately have "en' = ?d" "ans = gateway_reject SchedulerFull invalid_order_id (rq_market_id request) ?t"
      using ans full(2) by simp_all
    then show ?thesis
      using d by (simp add: gateway_reject_def)
  next
    case (pushed s' e')
    let ?v = "(?oid, rq_market_id request, rq_side request, rq_quantity_lots request)"
    let ?specs = "specs_of (en_market_states en)" and ?n = "unat (en_next_order_id en)"
    have en': "en' = ?en2\<lparr>en_scheduler := s', en_next_order_id := en_next_order_id en + 1\<rparr>" "gr_accepted ans"
      using ans pushed(1) by (simp_all add: draw_order_latency_fields)
    have room: "available_capacity (scheduler_capacity sim) (en_scheduler en)
        = Suc (available_capacity (scheduler_capacity sim) s')"
      using pushed(3,4) by (simp add: available_capacity_def draw_order_latency_fields)
    then have suc: "unat (en_next_order_id en + 1) = Suc ?n"
      using ledger_invD(3) [OF inv] B by (simp add: unat_word_ariths(1))
    have mp: "mset (pending s' @ L) = mset (?v # pending (en_scheduler en) @ L)"
      using pending_mset [OF pushed(5)] pushed(6) by (simp add: order_arrival_def draw_order_latency_fields)
    have rok: "reservation_ok ?specs (en_accounts en) (Suc ?n) ?r"
      using acc pos market_specs [OF i] by (simp add: reservation_ok_def rf asset spec)
    have bk: "backed ?specs [(rv_order_id ?r, rv_market_id ?r, rv_side ?r, rq_quantity_lots request)] ?r"
      using required_positive [of "rq_price_ticks request" "rq_quantity_lots request" spec "rq_side request"] pos market_specs [OF i]
      by (simp add: backed_def rf amount spec)
    have "funds sim st' ?rs"
    proof (rule funds_upd [OF orders_okD(1) [OF ok] j(1)])
      show "store_ok ?cfg st'" "0 \<le> rv_reserved_amount_lots ?r"
        using reserve_law [OF st res] pos by (simp_all add: st' rf)
      show "accounts.reserved_of ?cfg st' a x = accounts.reserved_of ?cfg (en_accounts en) a x
          - share a x (en_reservations en ! j) + share a x ?r" for a x
        using accounts.reserve_effect(1) [OF st res, of a x] j(2) unfolding st' by (simp add: share_def rf)
    qed
    then have "orders_ok sim ?specs st' ?rs (Suc ?n) (running en) (?v # pending (en_scheduler en) @ L)"
      using orders_ok_accept [OF ok j(1,2) _ _ _ agents rok bk] by (simp add: rf)
    then have "orders_ok sim ?specs st' ?rs (Suc ?n) (running en) (pending s' @ L)"
      using orders_ok_perm mp by metis
    moreover have "specs_of (en_market_states ?d) = ?specs" "markets_named (en_market_states ?d)"
      using d(1,2) by (auto simp: agent_frame_def ledger_inv_def intro: specs_core)
    moreover have "running en' = running en"
      unfolding en' by (simp add: running_def draw_order_latency_fields)
    ultimately have "ledger_inv sim L B en'"
      using pushed(2,3,4) room suc ledger_invD(3) [OF inv] unfolding ledger_inv_def
      by (simp add: en' draw_order_latency_fields)
    moreover have "agent_frame en en'"
      using d(2) agents unfolding en' by (simp add: agent_frame_def)
    ultimately show ?thesis
      using total en' by (simp add: same_totals_def)
  qed
qed

text \<open>The guards of \<open>submit_order\<close>, in the order the code tests them.\<close>

definition order_spec :: "order_request \<Rightarrow> 'm engine \<Rightarrow> product_spec" where
  "order_spec rq en = mk_product_spec (en_market_states en ! unat (rq_market_id rq))"

definition order_amount :: "order_request \<Rightarrow> 'm engine \<Rightarrow> int" where
  "order_amount rq en = required_reservation_amount (order_spec rq en) (rq_side rq) (rq_price_ticks rq) (rq_quantity_lots rq)"

definition order_asset :: "order_request \<Rightarrow> 'm engine \<Rightarrow> asset_id" where
  "order_asset rq en = reservation_asset (order_spec rq en) (rq_side rq)"

definition order_reserve :: "'m simulation \<Rightarrow> order_request \<Rightarrow> 'm engine \<Rightarrow> account_store \<times> bool" where
  "order_reserve sim rq en =
     reserve (sim_accounts sim) (rq_agent_id rq) (order_asset rq en) (order_amount rq en) (en_accounts en)"

definition gateway_check :: "'m simulation \<Rightarrow> order_request \<Rightarrow> 'm engine \<Rightarrow> gateway_status option" where
  "gateway_check sim rq en =
     (if halted en then Some Halted
      else if rq_market_id rq = invalid_market_id \<or> rq_price_ticks rq \<le> 0 \<or> rq_quantity_lots rq = 0 then Some InvalidRequest
      else if market_index en (rq_market_id rq) = None then Some UnknownMarket
      else if \<not> valid_product_spec sim (order_spec rq en) then Some InvalidRequest
      else if \<not> has_account (en_accounts en) (rq_agent_id rq) then Some UnknownAccount
      else if order_amount rq en < 0 then Some InvalidRequest
      else if \<not> snd (order_reserve sim rq en) then Some InsufficientBalance
      else if \<forall>r\<in>set (en_reservations en). rv_active r then Some ReservationCapacityFull
      else None)"

lemma market_index_Some: "market_index en m = Some i \<Longrightarrow> i = unat m \<and> i < length (en_market_states en)"
  by (auto simp: market_index_def split: if_splits)

lemma submit_order_checked:
  assumes ok: "store_ok (sim_accounts sim) (en_accounts en)" and c: "gateway_check sim rq en = Some status"
  shows "submit_order sim rq en = (en, gateway_reject status invalid_order_id (rq_market_id rq) (en_current_time_ns en))"
proof -
  let ?rej = "\<lambda>status. gateway_reject status invalid_order_id (rq_market_id rq) (en_current_time_ns en)"
  consider (early) "halted en \<or> rq_market_id rq = invalid_market_id \<or> rq_price_ticks rq \<le> 0 \<or> rq_quantity_lots rq = 0
      \<or> market_index en (rq_market_id rq) = None"
    | (later) i where "\<not> halted en" "\<not> (rq_market_id rq = invalid_market_id \<or> rq_price_ticks rq \<le> 0 \<or> rq_quantity_lots rq = 0)"
        "market_index en (rq_market_id rq) = Some i" "i = unat (rq_market_id rq)"
    using market_index_Some by (metis not_None_eq)
  then show ?thesis
  proof cases
    case early
    then show ?thesis
      using c by (auto simp: submit_order_def gateway_check_def Let_def split: if_splits option.splits)
  next
    case later
    note g = order_spec_def order_amount_def order_asset_def order_reserve_def
    have same: "en\<lparr>en_accounts := en_accounts en\<rparr> = en" by simp
    show ?thesis
    proof (cases "snd (order_reserve sim rq en)")
      case False
      then have "fst (order_reserve sim rq en) = en_accounts en"
        using accounts.res_fail unfolding order_reserve_def by blast
      then show ?thesis
        using c later False
        by (cases "order_reserve sim rq en") (simp add: submit_order_def gateway_check_def Let_def g split: if_splits)
    next
      case True
      let ?r = "request_reservation (en_next_order_id en) rq (order_asset rq en) (order_amount rq en)"
      let ?en = "en\<lparr>en_accounts := fst (order_reserve sim rq en)\<rparr>"
      have undone: "release (sim_accounts sim) (rq_agent_id rq) (order_asset rq en) (order_amount rq en)
          (fst (order_reserve sim rq en)) = (en_accounts en, True)"
        using reserve_release_id [OF ok] True unfolding order_reserve_def by blast
      have full: "insert_reservation ?r ?en = (?en, False)" if "\<forall>r\<in>set (en_reservations en). rv_active r"
        using that insert_reservation_cases [of ?r ?en] nth_mem by (cases "insert_reservation ?r ?en") fastforce
      show ?thesis
        using c later True undone full
        by (cases "order_reserve sim rq en") (auto simp: submit_order_def gateway_check_def Let_def g split: if_splits)
    qed
  qed
qed

lemma submit_order_passed:
  assumes c: "gateway_check sim rq en = None"
  obtains i j where "market_index en (rq_market_id rq) = Some i" "i = unat (rq_market_id rq)"
    "j < length (en_reservations en)" "\<not> rv_active (en_reservations en ! j)"
    "submit_order sim rq en = dispatch_order sim i rq (set_reservation j
       ((request_reservation (en_next_order_id en) rq (order_asset rq en) (order_amount rq en))\<lparr>rv_active := True\<rparr>)
       (en\<lparr>en_accounts := fst (order_reserve sim rq en)\<rparr>))"
proof -
  let ?r = "request_reservation (en_next_order_id en) rq (order_asset rq en) (order_amount rq en)"
  let ?en = "en\<lparr>en_accounts := fst (order_reserve sim rq en)\<rparr>"
  obtain i where i: "market_index en (rq_market_id rq) = Some i"
    using c by (auto simp: gateway_check_def split: if_splits)
  have "snd (insert_reservation ?r ?en)"
  proof (rule ccontr)
    assume "\<not> snd (insert_reservation ?r ?en)"
    then have "\<forall>k<length (en_reservations en). rv_active (en_reservations en ! k)"
      by (auto simp: insert_reservation_def find_upt_None split: option.splits)
    then show False
      using c by (auto simp: gateway_check_def in_set_conv_nth split: if_splits)
  qed
  then obtain j where j: "j < length (en_reservations en)" "\<not> rv_active (en_reservations en ! j)"
      "insert_reservation ?r ?en = (set_reservation j (?r\<lparr>rv_active := True\<rparr>) ?en, True)"
    using insert_reservation_cases(1) [of ?r ?en] by (cases "insert_reservation ?r ?en") auto
  have "submit_order sim rq en = dispatch_order sim i rq (set_reservation j (?r\<lparr>rv_active := True\<rparr>) ?en)"
    using c i market_index_Some [OF i] j(3)
    by (cases "order_reserve sim rq en")
      (auto simp: submit_order_def gateway_check_def Let_def order_spec_def order_amount_def order_asset_def order_reserve_def split: if_splits)
  then show ?thesis
    using that i market_index_Some [OF i] j by blast
qed

lemma submit_order_ledger:
  assumes inv: "ledger_inv sim L B en" and B: "B < 2 ^ 64"
  shows "ledger_inv sim L B (fst (submit_order sim rq en)) \<and> agent_frame en (fst (submit_order sim rq en))
    \<and> same_totals sim en (fst (submit_order sim rq en))
    \<and> (gateway_check sim rq en = None \<longrightarrow> \<not> gr_accepted (snd (submit_order sim rq en)) \<longrightarrow>
         gr_status (snd (submit_order sim rq en)) = SchedulerFull
         \<and> fst (submit_order sim rq en) = fst (draw_order_latency sim (unat (rq_market_id rq)) en))"
proof (cases "gateway_check sim rq en")
  case None
  then obtain i j where p: "market_index en (rq_market_id rq) = Some i" "i = unat (rq_market_id rq)"
    "j < length (en_reservations en)" "\<not> rv_active (en_reservations en ! j)"
    "submit_order sim rq en = dispatch_order sim i rq (set_reservation j
       ((request_reservation (en_next_order_id en) rq (order_asset rq en) (order_amount rq en))\<lparr>rv_active := True\<rparr>)
       (en\<lparr>en_accounts := fst (order_reserve sim rq en)\<rparr>))"
    by (rule submit_order_passed)
  have g: "snd (order_reserve sim rq en)" "has_account (en_accounts en) (rq_agent_id rq)" "0 < rq_price_ticks rq"
      "rq_quantity_lots rq \<noteq> 0" "0 \<le> order_amount rq en"
    using None by (auto simp: gateway_check_def split: if_splits)
  show ?thesis
    using dispatch_order_ledger [OF inv B p(1) g(1) [unfolded order_reserve_def] g(2) refl _ _ g(3-5) refl refl p(3,4),
        of "fst (submit_order sim rq en)" "snd (submit_order sim rq en)"] p
    by (simp add: order_asset_def order_amount_def order_spec_def order_reserve_def)
next
  case (Some status)
  then show ?thesis
    using submit_order_checked [OF fundsD(1) [OF orders_okD(1) [OF ledger_invD(5) [OF inv]]] Some] inv by simp
qed

subsection \<open>Whole callbacks\<close>

lemma memory_ledger:
  "ledger_inv sim L B en \<Longrightarrow> ledger_inv sim L B (en\<lparr>en_agent_memory := mem\<rparr>)
    \<and> agent_frame en (en\<lparr>en_agent_memory := mem\<rparr>) \<and> same_totals sim en (en\<lparr>en_agent_memory := mem\<rparr>)"
  by (simp add: ledger_inv_def agent_frame_def same_totals_def running_def)

lemma run_agent_ledger:
  assumes B: "B < 2 ^ 64"
  shows "ledger_inv sim L B en \<Longrightarrow> ledger_inv sim L B (run_agent sim a act en)
    \<and> agent_frame en (run_agent sim a act en) \<and> same_totals sim en (run_agent sim a act en)"
proof (induction act arbitrary: en)
  case (Submit_order request k)
  then show ?case
    using submit_order_ledger [OF Submit_order.prems B, of "request\<lparr>rq_agent_id := a\<rparr>"]
    by (auto simp: context_submit_order_def case_prod_beta intro: agent_frame_trans same_totals_trans)
next
  case (Cancel_order request k)
  then show ?case
    using cancel_order_ledger [OF Cancel_order.prems, of "request\<lparr>cq_agent_id := a\<rparr>"]
    by (auto simp: context_cancel_order_def case_prod_beta intro: agent_frame_trans same_totals_trans)
next
  case (Schedule_wakeup t k)
  then show ?case
    using wakeup_ledger [OF Schedule_wakeup.prems, of a t]
    by (auto simp: case_prod_beta intro: agent_frame_trans same_totals_trans)
qed (simp_all add: memory_ledger)

lemma call_agent_ledger:
  "B < 2 ^ 64 \<Longrightarrow> ledger_inv sim L B en \<Longrightarrow> ledger_inv sim L B (call_agent sim ag a sg en)
    \<and> agent_frame en (call_agent sim ag a sg en) \<and> same_totals sim en (call_agent sim ag a sg en)"
  unfolding call_agent_def by (rule run_agent_ledger)

lemma notify_agent_ledger:
  "B < 2 ^ 64 \<Longrightarrow> ledger_inv sim L B en \<Longrightarrow> ledger_inv sim L B (notify_agent sim sg a en)
    \<and> agent_frame en (notify_agent sim sg a en) \<and> same_totals sim en (notify_agent sim sg a en)"
  using call_agent_ledger [of B sim L en] by (simp add: notify_agent_def split: option.split)

end
