(* ===== verification/EngineSettlement.thy ===== *)
theory EngineSettlement
  imports EngineAgents
begin

section \<open>Settling a matched order\<close>

text \<open>
  The accounting of all the fills of one match, the release of what a finished
  order still reserves, and the market data that follows. The order ledger is kept
  with the list of live orders advanced by the fills; an asset's total changes by
  exactly the fees recorded in the accounting events.
\<close>

definition fee_of :: "specs \<Rightarrow> asset_id \<Rightarrow> accounting_event \<Rightarrow> int" where
  "fee_of specs x e = (case specs (ae_market_id e) of
      None \<Rightarrow> 0
    | Some spec \<Rightarrow> if quote_asset_id spec = x then ae_buyer_fee_lots e + ae_seller_fee_lots e else 0)"

definition fees_of :: "specs \<Rightarrow> accounting_event list \<Rightarrow> asset_id \<Rightarrow> int" where
  "fees_of specs es x = sum_list (map (fee_of specs x) es)"

lemma fees_of_simps [simp]:
  "fees_of specs [] x = 0" "fees_of specs (e # es) x = fee_of specs x e + fees_of specs es x"
  "fees_of specs (es @ es') x = fees_of specs es x + fees_of specs es' x"
  by (simp_all add: fees_of_def)

text \<open>
  What the handling of an event leaves alone, and what it does to the totals. The
  settlement does not touch the books either: that is \<open>event_frame\<close>.
\<close>

definition market_static :: "market_state \<Rightarrow> market_id \<times> market_key \<times> product_spec" where
  "market_static s = (mk_market_id s, mk_market_key s, mk_product_spec s)"

definition money_frame :: "'m simulation \<Rightarrow> 'm engine \<Rightarrow> 'm engine \<Rightarrow> bool" where
  "money_frame sim en en' \<longleftrightarrow>
     map market_static (en_market_states en') = map market_static (en_market_states en)
     \<and> (halted en \<longrightarrow> en_status en' = en_status en)
     \<and> (\<exists>es. en_accounting_events en' = en_accounting_events en @ es
          \<and> (length (en_accounting_events en) \<le> accounting_sink_capacity sim \<longrightarrow>
             length (en_accounting_events en') \<le> accounting_sink_capacity sim)
          \<and> (en_status en' \<noteq> HaltedAccountingFailure \<longrightarrow>
              (\<forall>x. asset_total (sim_accounts sim) (en_accounts en') x
                 = asset_total (sim_accounts sim) (en_accounts en) x - fees_of (specs_of (en_market_states en)) es x)))"

definition engine_frame :: "'m simulation \<Rightarrow> 'm engine \<Rightarrow> 'm engine \<Rightarrow> bool" where
  "engine_frame sim en en' \<longleftrightarrow> money_frame sim en en'
     \<and> en_current_time_ns en' = en_current_time_ns en \<and> en_agent_slots en' = en_agent_slots en
     \<and> en_market_registry en' = en_market_registry en"

definition event_frame :: "'m simulation \<Rightarrow> 'm engine \<Rightarrow> 'm engine \<Rightarrow> bool" where
  "event_frame sim en en' \<longleftrightarrow>
     map market_core (en_market_states en') = map market_core (en_market_states en) \<and> engine_frame sim en en'"

lemma static_nth:
  assumes "map market_static ms' = map market_static ms"
  shows "length ms' = length ms" "i < length ms \<Longrightarrow> market_static (ms' ! i) = market_static (ms ! i)"
proof -
  show len: "length ms' = length ms" using assms by (metis length_map)
  show "market_static (ms' ! i) = market_static (ms ! i)" if "i < length ms"
    using assms len that by (metis nth_map)
qed

lemma specs_static:
  assumes "map market_static ms' = map market_static ms"
  shows "specs_of ms' = specs_of ms"
  using static_nth [OF assms] by (auto simp: specs_of_def market_static_def fun_eq_iff)

lemma core_static:
  assumes "map market_core ms' = map market_core ms"
  shows "map market_static ms' = map market_static ms"
proof -
  have static: "map market_static ms = map (\<lambda>(m, k, sp, b). (m, k, sp)) (map market_core ms)" for ms
    by (simp add: market_core_def market_static_def)
  show ?thesis unfolding static assms ..
qed

lemma money_frameI:
  assumes "map market_static (en_market_states en') = map market_static (en_market_states en)"
    "halted en \<Longrightarrow> en_status en' = en_status en"
    "en_accounting_events en' = en_accounting_events en @ es"
    "length (en_accounting_events en) \<le> accounting_sink_capacity sim \<Longrightarrow>
       length (en_accounting_events en') \<le> accounting_sink_capacity sim"
    "\<And>x. en_status en' \<noteq> HaltedAccountingFailure \<Longrightarrow> asset_total (sim_accounts sim) (en_accounts en') x
       = asset_total (sim_accounts sim) (en_accounts en) x - fees_of (specs_of (en_market_states en)) es x"
  shows "money_frame sim en en'"
  unfolding money_frame_def using assms by blast

lemma engine_frameI:
  assumes "map market_static (en_market_states en') = map market_static (en_market_states en)"
    "en_current_time_ns en' = en_current_time_ns en" "en_agent_slots en' = en_agent_slots en"
    "en_market_registry en' = en_market_registry en"
    "halted en \<Longrightarrow> en_status en' = en_status en"
    "en_accounting_events en' = en_accounting_events en @ es"
    "length (en_accounting_events en) \<le> accounting_sink_capacity sim \<Longrightarrow>
       length (en_accounting_events en') \<le> accounting_sink_capacity sim"
    "\<And>x. en_status en' \<noteq> HaltedAccountingFailure \<Longrightarrow> asset_total (sim_accounts sim) (en_accounts en') x
       = asset_total (sim_accounts sim) (en_accounts en) x - fees_of (specs_of (en_market_states en)) es x"
  shows "engine_frame sim en en'"
  unfolding engine_frame_def using assms(2-4) money_frameI [OF assms(1,5-8)] by blast

lemma event_frameI:
  assumes "map market_core (en_market_states en') = map market_core (en_market_states en)"
    "en_current_time_ns en' = en_current_time_ns en" "en_agent_slots en' = en_agent_slots en"
    "en_market_registry en' = en_market_registry en"
    "halted en \<Longrightarrow> en_status en' = en_status en"
    "en_accounting_events en' = en_accounting_events en @ es"
    "length (en_accounting_events en) \<le> accounting_sink_capacity sim \<Longrightarrow>
       length (en_accounting_events en') \<le> accounting_sink_capacity sim"
    "\<And>x. en_status en' \<noteq> HaltedAccountingFailure \<Longrightarrow> asset_total (sim_accounts sim) (en_accounts en') x
       = asset_total (sim_accounts sim) (en_accounts en) x - fees_of (specs_of (en_market_states en)) es x"
  shows "event_frame sim en en'"
  unfolding event_frame_def using assms(1) engine_frameI [OF core_static [OF assms(1)] assms(2-8)] by blast

lemma agent_event_frame: "agent_frame en en' \<Longrightarrow> same_totals sim en en' \<Longrightarrow> event_frame sim en en'"
  by (rule event_frameI [where es = "[]"]) (simp_all add: agent_frame_def same_totals_def)

lemma event_frame_refl [simp]: "event_frame sim en en"
  by (rule event_frameI [where es = "[]"]) simp_all

lemma money_frame_trans:
  assumes "money_frame sim en en1" "money_frame sim en1 en2"
  shows "money_frame sim en en2"
proof -
  obtain es1 where 1: "en_accounting_events en1 = en_accounting_events en @ es1"
      "length (en_accounting_events en) \<le> accounting_sink_capacity sim \<Longrightarrow>
       length (en_accounting_events en1) \<le> accounting_sink_capacity sim"
      "\<And>x. en_status en1 \<noteq> HaltedAccountingFailure \<Longrightarrow> asset_total (sim_accounts sim) (en_accounts en1) x
         = asset_total (sim_accounts sim) (en_accounts en) x - fees_of (specs_of (en_market_states en)) es1 x"
    using assms(1) unfolding money_frame_def by blast
  obtain es2 where 2: "en_accounting_events en2 = en_accounting_events en1 @ es2"
      "length (en_accounting_events en1) \<le> accounting_sink_capacity sim \<Longrightarrow>
       length (en_accounting_events en2) \<le> accounting_sink_capacity sim"
      "\<And>x. en_status en2 \<noteq> HaltedAccountingFailure \<Longrightarrow> asset_total (sim_accounts sim) (en_accounts en2) x
         = asset_total (sim_accounts sim) (en_accounts en1) x - fees_of (specs_of (en_market_states en1)) es2 x"
    using assms(2) unfolding money_frame_def by blast
  have static: "map market_static (en_market_states en1) = map market_static (en_market_states en)"
    using assms(1) by (simp add: money_frame_def)
  have st: "halted en \<Longrightarrow> en_status en1 = en_status en" "halted en1 \<Longrightarrow> en_status en2 = en_status en1"
    using assms by (simp_all add: money_frame_def)
  show ?thesis
  proof (rule money_frameI [where es = "es1 @ es2"])
    fix x assume f: "en_status en2 \<noteq> HaltedAccountingFailure"
    then have "en_status en1 \<noteq> HaltedAccountingFailure"
      using st(2) by (auto simp: halted_def)
    then show "asset_total (sim_accounts sim) (en_accounts en2) x
        = asset_total (sim_accounts sim) (en_accounts en) x - fees_of (specs_of (en_market_states en)) (es1 @ es2) x"
      using 1(3) 2(3) f specs_static [OF static] by simp
  next
    show "en_status en2 = en_status en" if "halted en"
      using st that by (simp add: halted_def)
  qed (use assms 1 2 in \<open>simp_all add: money_frame_def\<close>)
qed

lemma engine_frame_trans: "engine_frame sim en en1 \<Longrightarrow> engine_frame sim en1 en2 \<Longrightarrow> engine_frame sim en en2"
  unfolding engine_frame_def using money_frame_trans by metis

lemma event_frame_trans: "event_frame sim en en1 \<Longrightarrow> event_frame sim en1 en2 \<Longrightarrow> event_frame sim en en2"
  unfolding event_frame_def using engine_frame_trans by metis

lemma event_frame_engine: "event_frame sim en en' \<Longrightarrow> engine_frame sim en en'"
  by (simp add: event_frame_def)

lemma moved_event_frame:
  assumes m: "moved_funds en en'" and t: "en_status en' \<noteq> HaltedAccountingFailure \<Longrightarrow> same_totals sim en en'"
  shows "event_frame sim en en'"
  by (rule event_frameI [where es = "[]"])
    (use moved_funds_fields [OF m] t in \<open>simp_all add: same_totals_def\<close>)

subsection \<open>The ledger and the order list\<close>

lemma ledger_orders:
  assumes inv: "ledger_inv sim L B en" and m: "moved_funds en en'"
    and ok: "engine_orders sim (specs_of (en_market_states en)) en' (unat (en_next_order_id en)) (pending (en_scheduler en) @ L')"
  shows "ledger_inv sim L' B en'"
  using ledger_invD(1-4) [OF inv] ok moved_funds_fields [OF m] unfolding ledger_inv_def by simp

lemma ledger_halt:
  assumes inv: "ledger_inv sim L B en" and stop: "\<not> running en'"
    and same: "en_scheduler en' = en_scheduler en" "en_next_order_id en' = en_next_order_id en"
      "en_market_states en' = en_market_states en" "en_accounts en' = en_accounts en" "en_reservations en' = en_reservations en"
  shows "ledger_inv sim L B en'"
  using ledger_invD(1-4) [OF inv] orders_ok_stop [OF ledger_invD(5) [OF inv]] stop same unfolding ledger_inv_def by simp

lemma halt_fields [simp]:
  "en_scheduler (halt s en) = en_scheduler en" "en_next_order_id (halt s en) = en_next_order_id en"
  "en_market_states (halt s en) = en_market_states en" "en_accounts (halt s en) = en_accounts en"
  "en_reservations (halt s en) = en_reservations en" "en_current_time_ns (halt s en) = en_current_time_ns en"
  "en_agent_slots (halt s en) = en_agent_slots en" "en_market_registry (halt s en) = en_market_registry en"
  "en_accounting_events (halt s en) = en_accounting_events en"
  "en_status (halt s en) = (if en_status en = Running then s else en_status en)"
  by (simp_all add: halt_def)

lemma take_lots_append [simp]: "take_lots oid f (V @ W) = take_lots oid f V @ take_lots oid f W"
  by (simp add: take_lots_def)

lemma take_lots_absent: "oid \<notin> fst ` set V \<Longrightarrow> take_lots oid f V = V"
  unfolding take_lots_def by (rule map_idI) (force simp: case_prod_beta prod_eq_iff)

lemma trade_lots_append:
  assumes d: "distinct (map fst (P @ L))" and k: "fill_known spec e m L"
  shows "trade_lots spec e (P @ L) = P @ trade_lots spec e L"
proof -
  have "ft_buyer_order (fill_terms_of spec e) \<in> fst ` set L" "ft_seller_order (fill_terms_of spec e) \<in> fst ` set L"
    using k by (force simp: fill_known_def)+
  then have "ft_buyer_order (fill_terms_of spec e) \<notin> fst ` set P" "ft_seller_order (fill_terms_of spec e) \<notin> fst ` set P"
    using d by auto
  then show ?thesis
    by (simp add: trade_lots_def take_lots_absent)
qed

lemma fill_known_mono: "fill_known spec e m L \<Longrightarrow> fill_known spec e m (P @ L)"
  by (auto simp: fill_known_def)

subsection \<open>One fill\<close>

lemma specs_nth:
  assumes "markets_named ms" "i < length ms"
  shows "specs_of ms (mk_market_id (ms ! i)) = Some (mk_product_spec (ms ! i))" "mk_market_id (ms ! i) = of_nat i"
proof -
  have "mk_market_id (ms ! i) = of_nat i" "i < 2 ^ 32"
    using assms by (auto simp: markets_named_def)
  then show "mk_market_id (ms ! i) = of_nat i" "specs_of ms (mk_market_id (ms ! i)) = Some (mk_product_spec (ms ! i))"
    using assms(2) by (simp_all add: specs_of_def unat_of_nat)
qed

lemma ledger_names:
  assumes "ledger_inv sim L B en"
  shows "distinct (map fst (pending (en_scheduler en) @ L))"
  using namedD(1) [OF orders_okD(3) [OF ledger_invD(5) [OF assms]]] .

lemma ledger_stop:
  assumes inv: "ledger_inv sim L B en" and stop: "\<not> running en" and names: "same_names L L'" "map fst L' = map fst L"
  shows "ledger_inv sim L' B en"
proof -
  have "same_names (pending (en_scheduler en) @ L) (pending (en_scheduler en) @ L')"
    using ledger_names [OF inv] names same_namesD(2) [OF names(1)] by (fastforce simp: same_names_def)
  then show ?thesis
    using ledger_invD(1-4) [OF inv] orders_ok_halt [OF ledger_invD(5) [OF inv]] stop unfolding ledger_inv_def by simp
qed

lemma trade_lots_ids [simp]: "map fst (trade_lots spec e L) = map fst L"
  by (simp add: trade_lots_def)

lemma apply_fill_ledger:
  assumes inv: "ledger_inv sim L B en" and B: "B < 2 ^ 64" and i: "i < length (en_market_states en)"
    and spec: "spec = mk_product_spec (en_market_states en ! i)" and known: "fill_known spec e (of_nat i) L"
    and cap: "length (en_accounting_events en) \<le> accounting_sink_capacity sim" and run: "running en"
    and out: "apply_fill_accounting sim i e en = (en', b)"
  shows "ledger_inv sim (trade_lots spec e L) B en' \<and> event_frame sim en en' \<and> (b \<longleftrightarrow> running en')"
proof -
  let ?t = "fill_terms_of spec e" and ?ms = "en_market_states en"
  note named = specs_nth [OF ledger_invD(4) [OF inv] i, folded spec]
  have dist: "distinct (map fst L)" using ledger_names [OF inv] by simp
  have names: "same_names L (trade_lots spec e L)" using dist by (rule trade_lots_names)
  have stopped: "ledger_inv sim (trade_lots spec e L) B en1" if "ledger_inv sim L B en1" "\<not> running en1" for en1
    by (rule ledger_stop [OF that names]) simp
  have fails: ?thesis if "en' = record_accounting_failure en" "\<not> b"
  proof -
    have "ledger_inv sim L B en'"
      unfolding that(1) by (rule ledger_halt [OF inv]) (simp_all add: record_accounting_failure_def running_def)
    moreover have "event_frame sim en en'"
      unfolding that(1) by (rule moved_event_frame [OF moved_failure]) (simp add: same_totals_def)
    ultimately show ?thesis using stopped that by simp
  qed
  show ?thesis
  proof (cases "length (en_accounting_events en) = accounting_sink_capacity sim")
    case True
    then have en': "en' = record_accounting_sink_overflow en" "\<not> b"
      using out by (simp_all add: apply_fill_accounting_def)
    have "ledger_inv sim L B en'"
      unfolding en' by (rule ledger_halt [OF inv]) (simp_all add: record_accounting_sink_overflow_def running_def)
    moreover have "event_frame sim en en'"
      unfolding en' by (rule event_frameI [where es = "[]"]) (simp_all add: record_accounting_sink_overflow_def halted_def)
    ultimately show ?thesis
      using stopped en' by (simp add: record_accounting_sink_overflow_def running_def)
  next
    case room: False
    let ?limit = "buyer_limit_price e ?t en"
    let ?req = "required_reservation_amount spec Buy ?limit (te_quantity_lots e)"
    show ?thesis
    proof (cases "ft_notional ?t < 0 \<or> add_overflows (ft_notional ?t) (ft_buyer_fee ?t)
        \<or> add_overflows (ft_notional ?t) (- ft_seller_fee ?t) \<or> ?req < 0")
      case True
      then show ?thesis
        using out room by (intro fails) (auto simp: apply_fill_accounting_def Let_def spec split: if_splits)
    next
      case False
      obtain e1 o1 where set: "settle_fill sim spec ?t ?req en = (e1, o1)" by fastforce
      have known': "fill_known spec e (of_nat i) (pending (en_scheduler en) @ L)"
        using known by (rule fill_known_mono)
      have n: "0 \<le> ft_notional ?t" using False by simp
      note s = settle_fill_orders [OF ledger_invD(5) [OF inv] _ known' n refl set]
      have sp: "specs_of ?ms (of_nat i) = Some spec" using named by simp
      note s = s [OF sp, unfolded trade_lots_append [OF ledger_names [OF inv] known]]
      have inv1: "ledger_inv sim (trade_lots spec e L) B e1"
        using s by (intro ledger_orders [OF inv]) blast+
      show ?thesis
      proof (cases o1)
        case False
        then have eq: "en' = e1" "\<not> b"
          using out room \<open>\<not> (ft_notional ?t < 0 \<or> _)\<close> set
          by (auto simp: apply_fill_accounting_def Let_def spec [symmetric])
        have "en_status e1 = HaltedAccountingFailure"
          using s False run by (auto simp: moved_funds_def running_def)
        then have "event_frame sim en e1"
          using s by (intro moved_event_frame) simp_all
        then show ?thesis using eq inv1 s False by simp
      next
        case True
        let ?ae = "fill_accounting_event (mk_market_id (?ms ! i)) e ?t"
        let ?e2 = "e1\<lparr>en_accounting_events := en_accounting_events e1 @ [?ae]\<rparr>"
        have f1: "en_accounting_events e1 = en_accounting_events en" "en_status e1 = Running" "en_market_states e1 = ?ms"
          using s True run moved_funds_fields [of en e1] by (auto simp: running_def)
        have app: "append_accounting_event sim ?ae e1 = ?e2"
          using f1 room cap by (simp add: append_accounting_event_def)
        let ?e3 = "notify_agent sim (On_fill (fill_notice (mk_market_id (?ms ! i)) e ?t Buy)) (ft_buyer ?t) ?e2"
        let ?e4 = "notify_agent sim (On_fill (fill_notice (mk_market_id (?ms ! i)) e ?t Sell)) (ft_seller ?t) ?e3"
        have eq: "en' = ?e4" "b"
          using out room \<open>\<not> (ft_notional ?t < 0 \<or> _)\<close> set True app f1
          by (auto simp: apply_fill_accounting_def Let_def spec [symmetric] halted_def)
        have inv2: "ledger_inv sim (trade_lots spec e L) B ?e2"
          using inv1 by (simp add: ledger_inv_def running_def)
        have "fee_of (specs_of ?ms) x ?ae = (if x = quote_asset_id spec then ft_buyer_fee ?t + ft_seller_fee ?t else 0)" for x
          using named by (simp add: fee_of_def fill_accounting_event_def)
        then have frame2: "event_frame sim en ?e2"
          using s True f1 moved_funds_fields [of en e1] room cap run
          by (intro event_frameI [where es = "[?ae]"]) (simp_all add: halted_def running_def)
        note a3 = notify_agent_ledger [OF B inv2, of "On_fill (fill_notice (mk_market_id (?ms ! i)) e ?t Buy)" "ft_buyer ?t"]
        note a4 = notify_agent_ledger [OF B conjunct1 [OF a3], of "On_fill (fill_notice (mk_market_id (?ms ! i)) e ?t Sell)" "ft_seller ?t"]
        have "event_frame sim en ?e4"
          using frame2 a3 a4 agent_event_frame event_frame_trans by blast
        moreover have "running ?e4"
          using a3 a4 f1 by (simp add: agent_frame_def running_def)
        ultimately show ?thesis
          using eq a4 by simp
      qed
    qed
  qed
qed

subsection \<open>All the fills of a match\<close>

fun fills_known :: "product_spec \<Rightarrow> market_id \<Rightarrow> trade_execution list \<Rightarrow> live list \<Rightarrow> bool" where
  "fills_known spec m [] L = True"
| "fills_known spec m (e # es) L =
     (if te_liquidity_role e \<noteq> Taker then fills_known spec m es L
      else fill_known spec e m L \<and> fills_known spec m es (trade_lots spec e L))"

fun trade_all :: "product_spec \<Rightarrow> trade_execution list \<Rightarrow> live list \<Rightarrow> live list" where
  "trade_all spec [] L = L"
| "trade_all spec (e # es) L =
     (if te_liquidity_role e \<noteq> Taker then trade_all spec es L else trade_all spec es (trade_lots spec e L))"

lemma trade_all_ids [simp]: "map fst (trade_all spec es L) = map fst L"
  by (induction spec es L rule: trade_all.induct) simp_all

lemma trade_all_names: "distinct (map fst L) \<Longrightarrow> same_names L (trade_all spec es L)"
proof (induction spec es L rule: trade_all.induct)
  case (2 spec e es L)
  then show ?case
    using same_names_trans [OF trade_lots_names [OF "2.prems", of spec e]] by simp
qed (auto simp: same_names_def)

lemma account_executions_ledger:
  assumes B: "B < 2 ^ 64"
  shows "ledger_inv sim L B en \<Longrightarrow> i < length (en_market_states en) \<Longrightarrow> spec = mk_product_spec (en_market_states en ! i) \<Longrightarrow>
    fills_known spec (of_nat i) es L \<Longrightarrow> length (en_accounting_events en) \<le> accounting_sink_capacity sim \<Longrightarrow>
    running en \<Longrightarrow> account_executions sim i es en = (en', b) \<Longrightarrow>
    ledger_inv sim (trade_all spec es L) B en' \<and> event_frame sim en en' \<and> (b \<longleftrightarrow> running en')"
proof (induction es arbitrary: L en)
  case (Cons e es)
  show ?case
  proof (cases "te_liquidity_role e = Taker")
    case True
    obtain e1 o1 where one: "apply_fill_accounting sim i e en = (e1, o1)" by fastforce
    have k: "fill_known spec e (of_nat i) L" "fills_known spec (of_nat i) es (trade_lots spec e L)"
      using Cons.prems(4) True by simp_all
    note s = apply_fill_ledger [OF Cons.prems(1) B Cons.prems(2,3) k(1) Cons.prems(5,6) one]
    have core: "map market_core (en_market_states e1) = map market_core (en_market_states en)"
      using s by (simp add: event_frame_def engine_frame_def money_frame_def)
    have m1: "i < length (en_market_states e1)" "spec = mk_product_spec (en_market_states e1 ! i)"
      using core_nth [OF core] Cons.prems(2,3) by (auto simp: market_core_def)
    show ?thesis
    proof (cases o1)
      case o1: True
      have "length (en_accounting_events e1) \<le> accounting_sink_capacity sim"
        using s Cons.prems(5) by (auto simp: event_frame_def engine_frame_def money_frame_def)
      moreover have "account_executions sim i es e1 = (en', b)"
        using Cons.prems(7) True one o1 by simp
      ultimately have "ledger_inv sim (trade_all spec es (trade_lots spec e L)) B en' \<and> event_frame sim e1 en' \<and> (b \<longleftrightarrow> running en')"
        using s o1 by (intro Cons.IH [OF _ m1 k(2)]) simp_all
      then show ?thesis
        using s True event_frame_trans by auto
    next
      case False
      then have eq: "en' = e1" "\<not> b" using Cons.prems(7) True one by simp_all
      have "distinct (map fst (trade_lots spec e L))"
        using ledger_names [OF Cons.prems(1)] by simp
      then have "ledger_inv sim (trade_all spec es (trade_lots spec e L)) B e1"
        using s False by (intro ledger_stop [OF conjunct1 [OF s]] trade_all_names) simp_all
      then show ?thesis
        using eq s False True by simp
    qed
  next
    case False
    then show ?thesis using Cons by simp
  qed
qed simp

lemma apply_match_ledger:
  assumes inv: "ledger_inv sim L B en" and B: "B < 2 ^ 64" and i: "market_index en (se_market_id ev) = Some i"
    and spec: "spec = mk_product_spec (en_market_states en ! i)"
    and known: "fills_known spec (of_nat i) (mr_executions res) L"
    and cap: "length (en_accounting_events en) \<le> accounting_sink_capacity sim" and run: "running en"
    and out: "en' = apply_match_accounting sim ev res en"
  shows "ledger_inv sim (trade_all spec (mr_executions res) L) B en' \<and> event_frame sim en en'
    \<and> (running en' \<longrightarrow> \<not> mr_rested res \<longrightarrow>
        (\<forall>r\<in>set (en_reservations en'). rv_active r \<longrightarrow> rv_order_id r \<noteq> se_order_id ev))"
proof -
  obtain e1 o1 where one: "account_executions sim i (mr_executions res) en = (e1, o1)" by fastforce
  have il: "i < length (en_market_states en)" using market_index_Some [OF i] by simp
  note s = account_executions_ledger [OF B inv il spec known cap run one]
  have eq: "en' = (if o1 \<and> \<not> mr_rested res then fst (release_and_remove_reservation sim (se_order_id ev) e1) else e1)"
    using i one unfolding out by (cases o1) (simp_all add: apply_match_accounting_def)
  show ?thesis
  proof (cases "o1 \<and> \<not> mr_rested res")
    case True
    note rel = release_remove_orders [OF ledger_invD(5) [OF conjunct1 [OF s]] refl, of "se_order_id ev"]
    have "ledger_inv sim (trade_all spec (mr_executions res) L) B en'"
      using rel True unfolding eq by (intro ledger_orders [OF conjunct1 [OF s]]) simp_all
    moreover have "event_frame sim e1 en'"
      using rel True unfolding eq by (intro moved_event_frame) (simp_all add: same_totals_def)
    ultimately show ?thesis
      using s rel True event_frame_trans eq by auto
  next
    case False
    then show ?thesis using s eq by auto
  qed
qed

subsection \<open>Market data\<close>

definition market_frame :: "'m engine \<Rightarrow> 'm engine \<Rightarrow> bool" where
  "market_frame en en' \<longleftrightarrow> en_reservations en' = en_reservations en \<and> en_accounts en' = en_accounts en
     \<and> (en_status en' = en_status en \<or> en_status en = Running \<and> en_status en' = HaltedMarketDataOverflow)"

lemma market_frame_refl [simp]: "market_frame en en"
  by (simp add: market_frame_def)

lemma market_frame_trans: "market_frame en en1 \<Longrightarrow> market_frame en1 en2 \<Longrightarrow> market_frame en en2"
  by (auto simp: market_frame_def)

lemma overflow_ledger:
  assumes inv: "ledger_inv sim L B en"
  shows "ledger_inv sim L B (market_data_overflow en) \<and> event_frame sim en (market_data_overflow en)
    \<and> market_frame en (market_data_overflow en)"
proof (intro conjI)
  show "ledger_inv sim L B (market_data_overflow en)"
    by (rule ledger_halt [OF inv]) (simp_all add: market_data_overflow_def running_def)
  show "event_frame sim en (market_data_overflow en)"
    by (rule event_frameI [where es = "[]"]) (simp_all add: market_data_overflow_def halted_def)
  show "market_frame en (market_data_overflow en)"
    by (simp add: market_frame_def market_data_overflow_def)
qed

lemma draw_feed_ledger:
  assumes inv: "ledger_inv sim L B en"
  shows "ledger_inv sim L B (fst (draw_feed_latency sim i k en)) \<and> event_frame sim en (fst (draw_feed_latency sim i k en))
    \<and> market_frame en (fst (draw_feed_latency sim i k en))"
proof (cases "sb_uses_market_latency (en_subscribers en ! k)")
  case True
  have "ledger_inv sim L B (fst (draw_feed_latency sim i k en)) \<and> agent_frame en (fst (draw_feed_latency sim i k en))
      \<and> same_totals sim en (fst (draw_feed_latency sim i k en))"
    using inv True unfolding draw_feed_latency_def Let_def case_prod_beta
    by (simp add: upd_market_ledger market_core_def)
  moreover have "market_frame en (fst (draw_feed_latency sim i k en))"
    using True by (simp add: draw_feed_latency_def Let_def case_prod_beta market_frame_def upd_market_def)
  ultimately show ?thesis using agent_event_frame by blast
next
  case False
  then have eq: "\<exists>subs. fst (draw_feed_latency sim i k en) = en\<lparr>en_subscribers := subs\<rparr>"
    by (auto simp: draw_feed_latency_def Let_def case_prod_beta)
  then obtain subs where eq: "fst (draw_feed_latency sim i k en) = en\<lparr>en_subscribers := subs\<rparr>" by blast
  have "event_frame sim en (en\<lparr>en_subscribers := subs\<rparr>)"
    by (rule event_frameI [where es = "[]"]) simp_all
  then show ?thesis
    using inv unfolding eq by (simp add: ledger_inv_def market_frame_def running_def)
qed

lemma push_other_market:
  assumes inv: "ledger_inv sim L B en" and kind: "se_kind e \<noteq> OrderArrivesAtMarket"
  shows "ledger_inv sim L B (fst (push_event sim e en)) \<and> event_frame sim en (fst (push_event sim e en))
    \<and> market_frame en (fst (push_event sim e en))"
  using push_other_ledger [OF assms] agent_event_frame
  by (auto simp: push_event_def market_frame_def case_prod_beta)

lemma publish_depth_ledger:
  "ledger_inv sim L B en \<Longrightarrow> ledger_inv sim L B (publish_depth sim i t snap ks en)
    \<and> event_frame sim en (publish_depth sim i t snap ks en) \<and> market_frame en (publish_depth sim i t snap ks en)"
proof (induction ks arbitrary: en)
  case (Cons k ks)
  let ?d = "draw_feed_latency sim i k en"
  let ?ev = "depth_arrival (mk_market_id (en_market_states (fst ?d) ! i)) (sb_agent_id (en_subscribers (fst ?d) ! k))
     (add_time_saturating t (snd ?d)) snap"
  let ?p = "push_event sim ?ev (fst ?d)"
  note d = draw_feed_ledger [OF Cons.prems, of i k]
  have "se_kind ?ev \<noteq> OrderArrivesAtMarket" by (simp add: depth_arrival_def)
  note p = push_other_market [OF conjunct1 [OF d] this]
  have frames: "event_frame sim en (fst ?p)" "market_frame en (fst ?p)"
    using d p event_frame_trans market_frame_trans by blast+
  show ?case
  proof (cases "snd ?p")
    case True
    have rest: "ledger_inv sim L B (publish_depth sim i t snap ks (fst ?p))
      \<and> event_frame sim (fst ?p) (publish_depth sim i t snap ks (fst ?p))
      \<and> market_frame (fst ?p) (publish_depth sim i t snap ks (fst ?p))"
      using p by (intro Cons.IH) simp
    have eq: "publish_depth sim i t snap (k # ks) en = publish_depth sim i t snap ks (fst ?p)"
      using True by (simp add: Let_def case_prod_beta)
    show ?thesis
      unfolding eq using rest event_frame_trans [OF frames(1)] market_frame_trans [OF frames(2)] by blast
  next
    case False
    then have eq: "publish_depth sim i t snap (k # ks) en = market_data_overflow (fst ?p)"
      by (simp add: Let_def case_prod_beta)
    show ?thesis
      unfolding eq using overflow_ledger [OF conjunct1 [OF p]]
        event_frame_trans [OF frames(1)] market_frame_trans [OF frames(2)] by blast
  qed
qed simp

lemma market_data_ledger:
  assumes inv: "ledger_inv sim L B en"
  shows "ledger_inv sim L B (schedule_market_data_update sim i t en)
    \<and> event_frame sim en (schedule_market_data_update sim i t en)
    \<and> market_frame en (schedule_market_data_update sim i t en)"
  using inv overflow_ledger [OF inv] publish_depth_ledger [OF inv]
  by (simp add: schedule_market_data_update_def Let_def)

subsection \<open>The whole settlement\<close>

lemma append_match_ledger:
  assumes inv: "ledger_inv sim L B en"
  shows "ledger_inv sim L B (append_match_result sim r en) \<and> event_frame sim en (append_match_result sim r en)
    \<and> en_accounting_events (append_match_result sim r en) = en_accounting_events en
    \<and> en_market_states (append_match_result sim r en) = en_market_states en"
proof (cases "length (en_match_results en) < result_sink_capacity sim")
  case True
  have "event_frame sim en (append_match_result sim r en)"
    using True by (intro event_frameI [where es = "[]"]) (simp_all add: append_match_result_def)
  then show ?thesis using inv True by (simp add: append_match_result_def ledger_inv_def running_def)
next
  case False
  have "ledger_inv sim L B (append_match_result sim r en)"
    using False by (intro ledger_halt [OF inv]) (simp_all add: append_match_result_def running_def)
  moreover have "event_frame sim en (append_match_result sim r en)"
    using False by (intro event_frameI [where es = "[]"]) (simp_all add: append_match_result_def halted_def)
  ultimately show ?thesis using False by (simp add: append_match_result_def)
qed

lemma settle_order_ledger:
  assumes inv: "ledger_inv sim L B en" and B: "B < 2 ^ 64" and i: "market_index en (se_market_id ev) = Some i"
    and spec: "spec = mk_product_spec (en_market_states en ! i)"
    and known: "fills_known spec (of_nat i) (mr_executions res) L"
    and cap: "length (en_accounting_events en) \<le> accounting_sink_capacity sim"
    and out: "en' = settle_order sim i ev res en"
  shows "ledger_inv sim (trade_all spec (mr_executions res) L) B en' \<and> event_frame sim en en'
    \<and> (running en' \<longrightarrow> \<not> mr_rested res \<longrightarrow>
        (\<forall>r\<in>set (en_reservations en'). rv_active r \<longrightarrow> rv_order_id r \<noteq> se_order_id ev))"
proof -
  let ?e1 = "append_match_result sim res en"
  let ?e2 = "apply_match_accounting sim ev res ?e1"
  let ?L = "trade_all spec (mr_executions res) L"
  note a = append_match_ledger [OF inv, of res]
  show ?thesis
  proof (cases "halted ?e1")
    case True
    then have eq: "en' = ?e1" using out by (simp add: settle_order_def Let_def)
    have "distinct (map fst L)" using ledger_names [OF inv] by simp
    then have "ledger_inv sim ?L B ?e1"
      using a True by (intro ledger_stop [OF conjunct1 [OF a]] trade_all_names) (simp_all add: halted_def running_def)
    then show ?thesis using eq a True by (simp add: halted_def running_def)
  next
    case False
    then have run: "running ?e1" by (simp add: halted_def running_def)
    have i1: "market_index ?e1 (se_market_id ev) = Some i" using i a by (simp add: market_index_def)
    have spec1: "spec = mk_product_spec (en_market_states ?e1 ! i)" using spec a by simp
    have cap1: "length (en_accounting_events ?e1) \<le> accounting_sink_capacity sim" using cap a by simp
    note m = apply_match_ledger [OF conjunct1 [OF a] B i1 spec1 known cap1 run refl]
    show ?thesis
    proof (cases "\<not> halted ?e2 \<and> mr_accepted res \<and> (mr_rested res \<or> 0 < mr_filled_quantity_lots res)")
      case True
      then have eq: "en' = schedule_market_data_update sim i (se_timestamp_ns ev) ?e2"
        using out False by (simp add: settle_order_def Let_def)
      note d = market_data_ledger [OF conjunct1 [OF m], of i "se_timestamp_ns ev"]
      have "running en' \<longrightarrow> running ?e2" "en_reservations en' = en_reservations ?e2"
        using d unfolding eq by (auto simp: market_frame_def running_def)
      moreover have "event_frame sim en en'"
        using a m d event_frame_trans unfolding eq by blast
      ultimately show ?thesis
        using m d unfolding eq by simp
    next
      case noupd: False
      then have "en' = ?e2" using out False by (auto simp: settle_order_def Let_def)
      moreover have "event_frame sim en ?e2" using a m event_frame_trans by blast
      ultimately show ?thesis using m by simp
    qed
  qed
qed

end
