(* ===== verification/EngineBooks.thy ===== *)
theory EngineBooks
  imports EngineSettlement
begin

section \<open>Resting orders as live orders\<close>

text \<open>
  The orders resting in the books of all markets, as a list of live orders, and
  what a submit or a cancel of one book does to it. A submit trades with a prefix
  of the opposite ladder: advancing the old list by the fills gives the new list,
  up to orders whose open quantity is zero and the incoming order's rest.
\<close>

definition ladder_lives :: "market_id \<Rightarrow> side \<Rightarrow> ladder \<Rightarrow> live list" where
  "ladder_lives m s L = map (\<lambda>(order, p, q). (so_order_id order, m, s, q)) (flatten_ladder L)"

definition book_lives :: "market_id \<Rightarrow> spec_book \<Rightarrow> live list" where
  "book_lives m S = ladder_lives m Buy (S Buy) @ ladder_lives m Sell (S Sell)"

definition resting :: "market_state list \<Rightarrow> live list" where
  "resting ms = concat (map (\<lambda>i. book_lives (of_nat i) (ladder (mk_matching_book (ms ! i)))) [0..<length ms])"

subsection \<open>Trading as arithmetic on the list\<close>

definition traded :: "order_id \<Rightarrow> fill list \<Rightarrow> order_id \<Rightarrow> u64" where
  "traded oid fills i = (if i = oid then fills_quantity fills
     else sum_list (map (\<lambda>(maker, px, qty). if so_order_id maker = i then qty else 0) fills))"

definition advance :: "(order_id \<Rightarrow> u64) \<Rightarrow> live list \<Rightarrow> live list" where
  "advance f L = map (\<lambda>(i, m, s, q). (i, m, s, q - f i)) L"

lemma trade_lots_advance:
  assumes "so_order_id maker \<noteq> so_order_id taker"
  shows "trade_lots spec (taker_execution taker maker px qty) L =
    advance (\<lambda>i. if i = so_order_id taker \<or> i = so_order_id maker then qty else 0) L"
  using assms
  by (auto simp: trade_lots_def take_lots_def advance_def fill_terms_of_def taker_execution_def Let_def)

lemma advance_advance: "advance g (advance f L) = advance (\<lambda>i. f i + g i) L"
  by (auto simp: advance_def algebra_simps)

lemma advance_cong: "(\<And>i. i \<in> fst ` set L \<Longrightarrow> f i = g i) \<Longrightarrow> advance f L = advance g L"
  by (force simp: advance_def)

lemma fill_executions_simps [simp]:
  "fill_executions taker [] = []"
  "fill_executions taker ((maker, px, qty) # fills) =
     taker_execution taker maker px qty # maker_execution taker maker px qty # fill_executions taker fills"
  by (simp_all add: fill_executions_def)

lemma execution_roles [simp]:
  "te_liquidity_role (taker_execution taker maker px qty) = Taker"
  "te_liquidity_role (maker_execution taker maker px qty) = Maker"
  by (simp_all add: taker_execution_def maker_execution_def)

lemma fills_quantity_simps [simp]:
  "fills_quantity [] = 0" "fills_quantity ((maker, px, qty) # fills) = qty + fills_quantity fills"
  by (simp_all add: fills_quantity_def)

lemma trade_all_advance:
  "\<forall>(maker, px, qty)\<in>set fills. so_order_id maker \<noteq> so_order_id taker \<Longrightarrow>
   trade_all spec (fill_executions taker fills) L = advance (traded (so_order_id taker) fills) L"
proof (induction fills arbitrary: L)
  case Nil
  then show ?case by (induction L) (auto simp: advance_def traded_def fill_executions_def)
next
  case (Cons fill fills)
  obtain maker px qty where f: "fill = (maker, px, qty)" by (cases fill) auto
  have ne: "so_order_id maker \<noteq> so_order_id taker" using Cons.prems f by simp
  have "trade_all spec (fill_executions taker (fill # fills)) L
      = advance (traded (so_order_id taker) fills)
          (advance (\<lambda>i. if i = so_order_id taker \<or> i = so_order_id maker then qty else 0) L)"
    using Cons f by (simp add: trade_lots_advance [OF ne])
  also have "\<dots> = advance (traded (so_order_id taker) (fill # fills)) L"
    unfolding advance_advance using ne by (intro advance_cong) (auto simp: traded_def f)
  finally show ?case .
qed

text \<open>Every fill finds its two orders in the list.\<close>

lemma fills_known_makers:
  "distinct (map fst L) \<Longrightarrow> distinct (so_order_id taker # map (\<lambda>(maker, px, qty). so_order_id maker) fills) \<Longrightarrow>
   (so_order_id taker, m, so_side taker, q) \<in> set L \<Longrightarrow> fills_total fills \<le> unat q \<Longrightarrow>
   \<forall>(maker, px, qty)\<in>set fills. \<exists>r. (so_order_id maker, m, opposite (so_side taker), r) \<in> set L \<and> qty \<le> r \<Longrightarrow>
   fills_known spec m (fill_executions taker fills) L"
proof (induction fills arbitrary: L q)
  case (Cons fill fills)
  obtain maker px qty where f: "fill = (maker, px, qty)" by (cases fill) auto
  let ?e = "taker_execution taker maker px qty"
  obtain r where r: "(so_order_id maker, m, opposite (so_side taker), r) \<in> set L" "qty \<le> r"
    using Cons.prems(5) f by auto
  have ne: "so_order_id maker \<noteq> so_order_id taker" using Cons.prems(2) f by auto
  have le: "unat qty + fills_total fills \<le> unat q" using Cons.prems(4) f by simp
  then have lq: "qty \<le> q" by (simp add: word_le_nat_alt)
  have "fill_known spec ?e m L"
    using r Cons.prems(3) lq
    by (cases "so_side taker") (auto simp: fill_known_def fill_terms_of_def taker_execution_def Let_def opposite_def)
  moreover have "fills_known spec m (fill_executions taker fills) (trade_lots spec ?e L)"
  proof (rule Cons.IH)
    note adv = trade_lots_advance [OF ne, of spec px qty L]
    show "(so_order_id taker, m, so_side taker, q - qty) \<in> set (trade_lots spec ?e L)"
      using Cons.prems(3) unfolding adv by (force simp: advance_def)
    show "fills_total fills \<le> unat (q - qty)"
      using le lq by (simp add: unat_sub)
    have "(so_order_id mk, m, opposite (so_side taker), r') \<in> set (trade_lots spec ?e L)"
      if "(mk, px', qty') \<in> set fills" "(so_order_id mk, m, opposite (so_side taker), r') \<in> set L" for mk px' qty' r'
    proof -
      have "so_order_id mk \<noteq> so_order_id taker" "so_order_id mk \<noteq> so_order_id maker"
        using Cons.prems(2) that(1) f by force+
      then show ?thesis
        using that(2) unfolding adv by (force simp: advance_def)
    qed
    then show "\<forall>(mk, px, qty)\<in>set fills. \<exists>r. (so_order_id mk, m, opposite (so_side taker), r) \<in> set (trade_lots spec ?e L) \<and> qty \<le> r"
      using Cons.prems(5) by fastforce
  qed (use Cons.prems f in auto)
  ultimately show ?case by (simp add: f)
qed simp

subsection \<open>What a submit does to the ladders\<close>

lemma spec_submit_own_side:
  assumes out: "spec_submit c order S = (S', r)"
  shows "if mr_rested r then S' (so_side order) = spec_insert (so_side order) (so_price_ticks order)
        (order\<lparr>so_quantity_lots := mr_remaining_quantity_lots r\<rparr>, mr_remaining_quantity_lots r) (S (so_side order))
      else S' (so_side order) = S (so_side order)"
proof -
  obtain L' fills remaining exit where o: "spec_outcome c order S = (L', fills, remaining, exit)"
    using prod_cases4 by blast
  have fin: "if mr_rested (snd (spec_finish c order remaining U r0)) then fst (spec_finish c order remaining U r0) (so_side order)
          = spec_insert (so_side order) (so_price_ticks order) (order\<lparr>so_quantity_lots := remaining\<rparr>, remaining) (U (so_side order))
        else fst (spec_finish c order remaining U r0) (so_side order) = U (so_side order)" if "\<not> mr_rested r0" for U r0
    using that by (auto simp: spec_finish_def spec_rest_def Let_def split: prod.splits bool.splits if_splits)
  have nr: "\<not> mr_rested (fresh_result order)" "\<not> mr_rested (with_fills order fills (fresh_result order))"
    by (simp_all add: fresh_result_def default_match_result_def with_fills_def)
  show ?thesis
  proof (cases "\<not> spec_admits order S \<or> so_time_in_force order = FOK \<and> remaining \<noteq> 0")
    case True
    then have "spec_submit c order S = (S, fresh_result order)"
      using o by (cases "spec_admits order S") (simp_all add: spec_submit_def)
    then show ?thesis using out nr(1) by simp
  next
    case False
    let ?U = "S(opposite (so_side order) := L')" and ?r = "with_fills order fills (fresh_result order)"
    have own: "?U (so_side order) = S (so_side order)" by (simp add: opposite_neq)
    show ?thesis
    proof (cases exit)
      case Loop_done
      then have "(S', r) = spec_finish c order remaining ?U ?r"
        using out o False by (auto simp: spec_submit_def Let_def)
      then show ?thesis
        using fin [OF nr(2), of ?U] own spec_finish_fields(3) [of c order remaining ?U ?r] by (metis fst_conv snd_conv)
    next
      case Report_overflow
      have "spec_submit c order S = (?U, report_overflow ?r remaining)"
        using o False Report_overflow by (auto simp: spec_submit_def Let_def)
      moreover have "\<not> mr_rested (report_overflow ?r remaining)"
        using nr(2) by (simp add: report_overflow_def Let_def)
      ultimately show ?thesis using out own by simp
    qed
  qed
qed

lemma flatten_spec_insert:
  "mset (flatten_ladder (spec_insert s p (order, r) L)) = add_mset (order, p, r) (mset (flatten_ladder L))"
  by (induction s p "(order, r)" L rule: spec_insert.induct) auto

lemma flatten_spec_remove:
  "flatten_ladder (spec_remove oid L) = filter (\<lambda>v. so_order_id (fst v) \<noteq> oid) (flatten_ladder L)"
proof (induction L)
  case (Cons pq L)
  obtain p q where pq: "pq = (p, q)" by (cases pq) auto
  have "map (\<lambda>(order, r). (order, p, r)) (filter (\<lambda>(order, r). so_order_id order \<noteq> oid) q)
      = filter (\<lambda>v. so_order_id (fst v) \<noteq> oid) (map (\<lambda>(order, r). (order, p, r)) q)"
    by (induction q) auto
  moreover have "flatten_ladder (spec_remove oid (pq # L)) =
      map (\<lambda>(order, r). (order, p, r)) (filter (\<lambda>(order, r). so_order_id order \<noteq> oid) q) @ flatten_ladder (spec_remove oid L)"
    by (auto simp: spec_remove_def pq)
  ultimately show ?case
    using Cons by (simp add: pq)
qed (simp add: spec_remove_def)


subsection \<open>A submit trades the live list\<close>

abbreviation fid :: "fill \<Rightarrow> order_id" where
  "fid f \<equiv> so_order_id (fst f)"

lemma fid_split: "(\<lambda>(maker, px, qty). so_order_id maker) = fid"
  by (simp add: fun_eq_iff)

lemma ladder_lives_ids: "map fst (ladder_lives m s L) = map fid (flatten_ladder L)"
  by (simp add: ladder_lives_def case_prod_beta comp_def)

lemma ladder_lives_mem:
  "v \<in> set (ladder_lives m s L) \<longleftrightarrow> (\<exists>order p q. (order, p, q) \<in> set (flatten_ladder L) \<and> v = (so_order_id order, m, s, q))"
  by (force simp: ladder_lives_def)

lemma traded_none: "i \<noteq> oid \<Longrightarrow> i \<notin> fid ` set fills \<Longrightarrow> traded oid fills i = 0"
  by (induction fills) (auto simp: traded_def)

lemma traded_Cons:
  "i \<noteq> oid \<Longrightarrow> traded oid ((maker, px, qty) # fills) i = (if so_order_id maker = i then qty else 0) + traded oid fills i"
  by (simp add: traded_def)

lemma traded_maker:
  "distinct (map fid fills) \<Longrightarrow> (maker, px, qty) \<in> set fills \<Longrightarrow> so_order_id maker \<noteq> oid \<Longrightarrow>
   traded oid fills (so_order_id maker) = qty"
proof (induction fills)
  case (Cons f fills)
  obtain mk p q where f: "f = (mk, p, q)" by (cases f) auto
  show ?case
  proof (cases "f = (maker, px, qty)")
    case True
    then have "so_order_id maker \<notin> fid ` set fills" using Cons.prems(1) by auto
    then show ?thesis using Cons.prems True by (simp add: traded_Cons traded_none)
  next
    case False
    then have m: "(maker, px, qty) \<in> set fills" using Cons.prems(2) by simp
    then have "so_order_id mk \<noteq> so_order_id maker" using Cons.prems(1) f by force
    then show ?thesis using Cons m f by (simp add: traded_Cons)
  qed
qed simp

lemma takes_ids:
  assumes "takes_in_priority L fills L'"
  obtains rest where "map fid (flatten_ladder L) = map fid fills @ rest"
    "\<exists>pre. map fid (flatten_ladder L) = pre @ map fid (flatten_ladder L')"
  using assms
proof (unfold takes_in_priority_def, elim disjE exE conjE)
  assume a: "flatten_ladder L = fills @ flatten_ladder L'"
  show thesis by (rule that [of "map fid (flatten_ladder L')"]) (auto simp: a)
next
  fix whole maker px qty r rest
  assume a: "fills = whole @ [(maker, px, qty)]" "flatten_ladder L = whole @ (maker, px, r) # rest"
    "flatten_ladder L' = (maker, px, r - qty) # rest"
  show thesis by (rule that [of "map fid rest"]) (auto simp: a)
qed

lemma takes_makers:
  assumes "takes_in_priority L fills L'" "(maker, px, qty) \<in> set fills"
  shows "\<exists>r. (maker, px, r) \<in> set (flatten_ladder L) \<and> qty \<le> r"
  using assms unfolding takes_in_priority_def by fastforce

lemma advance_taken:
  assumes takes: "takes_in_priority L fills L'" and d: "distinct (oid # map fid (flatten_ladder L))"
    and mem: "(order, p, q) \<in> set (flatten_ladder L)" and open_left: "q - traded oid fills (so_order_id order) \<noteq> 0"
  shows "(order, p, q - traded oid fills (so_order_id order)) \<in> set (flatten_ladder L')"
proof -
  obtain rest where ids: "map fid (flatten_ladder L) = map fid fills @ rest"
    using takes_ids [OF takes] by blast
  have df: "distinct (map fid fills)" using d ids by simp
  have no: "so_order_id order \<noteq> oid" using d mem by force
  have later: "traded oid fills (so_order_id order) = 0" if "(order, p, q) \<in> set zs" "flatten_ladder L = ys @ zs" "map fid ys = map fid fills" for ys zs
  proof (rule traded_none [OF no])
    have "distinct (map fid ys @ map fid zs)" using d that(2) by simp
    then have "set (map fid ys) \<inter> set (map fid zs) = {}" by simp
    then show "so_order_id order \<notin> fid ` set fills"
      using that(1) unfolding that(3) by force
  qed
  show ?thesis
    using takes unfolding takes_in_priority_def
  proof (elim disjE exE conjE)
    assume a: "flatten_ladder L = fills @ flatten_ladder L'"
    show ?thesis
    proof (cases "(order, p, q) \<in> set fills")
      case True
      then show ?thesis using traded_maker [OF df True no] open_left by simp
    next
      case False
      then have "(order, p, q) \<in> set (flatten_ladder L')" using mem a by simp
      then show ?thesis using later [OF _ a] by simp
    qed
  next
    fix whole maker px qty r rest
    assume a: "fills = whole @ [(maker, px, qty)]" "flatten_ladder L = whole @ (maker, px, r) # rest"
      "flatten_ladder L' = (maker, px, r - qty) # rest"
    consider "(order, p, q) \<in> set whole" | "(order, p, q) = (maker, px, r)" | "(order, p, q) \<in> set rest"
      using mem a(2) by auto
    then show ?thesis
    proof cases
      case 1
      then have "(order, p, q) \<in> set fills" using a(1) by simp
      from traded_maker [OF df this no] show ?thesis using open_left by simp
    next
      case 2
      then have "(maker, px, qty) \<in> set fills" "so_order_id maker \<noteq> oid" using a(1) no by auto
      from traded_maker [OF df this] show ?thesis using 2 a(3) by simp
    next
      case 3
      then have "traded oid fills (so_order_id order) = 0"
        using later [of rest "whole @ [(maker, px, r)]"] a by simp
      then show ?thesis using 3 a(3) by simp
    qed
  qed
qed


text \<open>The own side of a submit gains at most the incoming order, under its id.\<close>

lemma own_side_lives:
  assumes out: "spec_submit c order S = (S', r)"
  shows "set (ladder_lives m (so_side order) (S' (so_side order))) =
      set (ladder_lives m (so_side order) (S (so_side order)))
        \<union> (if mr_rested r then {(so_order_id order, m, so_side order, mr_remaining_quantity_lots r)} else {})"
    and "mset (map fid (flatten_ladder (S' (so_side order)))) =
      mset (map fid (flatten_ladder (S (so_side order)))) + (if mr_rested r then {#so_order_id order#} else {#})"
proof -
  note own = spec_submit_own_side [OF out]
  note ins = flatten_spec_insert [of "so_side order" "so_price_ticks order"
      "order\<lparr>so_quantity_lots := mr_remaining_quantity_lots r\<rparr>" "mr_remaining_quantity_lots r" "S (so_side order)"]
  show "mset (map fid (flatten_ladder (S' (so_side order)))) =
      mset (map fid (flatten_ladder (S (so_side order)))) + (if mr_rested r then {#so_order_id order#} else {#})"
    using own ins by simp
  have "set (flatten_ladder (S' (so_side order))) = set (flatten_ladder (S (so_side order)))
      \<union> (if mr_rested r then {(order\<lparr>so_quantity_lots := mr_remaining_quantity_lots r\<rparr>, so_price_ticks order, mr_remaining_quantity_lots r)} else {})"
    using own arg_cong [OF ins, of set_mset] by simp
  then show "set (ladder_lives m (so_side order) (S' (so_side order))) =
      set (ladder_lives m (so_side order) (S (so_side order)))
        \<union> (if mr_rested r then {(so_order_id order, m, so_side order, mr_remaining_quantity_lots r)} else {})"
    by (simp add: ladder_lives_def)
qed

lemma both_sides: "set (book_lives m S) = set (ladder_lives m s (S s)) \<union> set (ladder_lives m (opposite s) (S (opposite s)))"
    "mset (book_lives m S) = mset (ladder_lives m s (S s)) + mset (ladder_lives m (opposite s) (S (opposite s)))"
  by (cases s; auto simp: book_lives_def opposite_def)+

lemma distinct_mset_le:
  assumes "mset xs \<subseteq># mset ys" "distinct ys"
  shows "distinct xs"
proof -
  obtain zs where "mset ys = mset (xs @ zs)"
    using assms(1) by (metis mset_append mset_subset_eq_exists_conv ex_mset)
  then have "distinct (xs @ zs)" using assms(2) mset_eq_imp_distinct_iff by blast
  then show ?thesis by simp
qed

lemma book_ids:
  "mset (map fst (book_lives m S)) = mset (map fid (flatten_ladder (S s))) + mset (map fid (flatten_ladder (S (opposite s))))"
proof -
  have "mset (map fst (book_lives m S)) = mset (map fst (ladder_lives m s (S s))) + mset (map fst (ladder_lives m (opposite s) (S (opposite s))))"
    using arg_cong [OF both_sides(2) [of m S s], of "image_mset fst"] by simp
  then show ?thesis unfolding ladder_lives_ids .
qed

lemma submit_facts:
  assumes ok: "spec_ok S" and out: "spec_submit c order S = (S', r)"
    and d: "distinct (so_order_id order # map fst (book_lives m S))"
  obtains fills where "mr_executions r = fill_executions order fills"
    "takes_in_priority (S (opposite (so_side order))) fills (S' (opposite (so_side order)))"
    "fills_total fills \<le> unat (so_quantity_lots order)"
    "so_quantity_lots order - fills_quantity fills = mr_remaining_quantity_lots r"
    "distinct (so_order_id order # map fid (flatten_ladder (S (opposite (so_side order)))))"
    "distinct (so_order_id order # map fid fills)"
    "set (map fid fills) \<subseteq> set (map fid (flatten_ladder (S (opposite (so_side order)))))"
proof -
  obtain fills where "explains c order S S' r fills"
    using spec_submit_explained [OF ok, of c order] out by auto
  then have ex: "mr_executions r = fill_executions order fills"
      "takes_in_priority (S (opposite (so_side order))) fills (S' (opposite (so_side order)))"
      "unat (mr_filled_quantity_lots r) = fills_total fills"
      "fills_total fills + unat (mr_remaining_quantity_lots r) = unat (so_quantity_lots order)"
    by (auto simp: explains_def)
  have dop: "distinct (so_order_id order # map fid (flatten_ladder (S (opposite (so_side order)))))"
    by (rule distinct_mset_le [OF _ d]) (simp add: book_ids [of m S "so_side order"] del: mset_map)
  obtain rest where ids: "map fid (flatten_ladder (S (opposite (so_side order)))) = map fid fills @ rest"
    using takes_ids [OF ex(2)] by blast
  have le: "fills_total fills \<le> unat (so_quantity_lots order)" using ex(4) by linarith
  have fq: "fills_quantity fills = mr_filled_quantity_lots r"
    using unat_fills_quantity [of fills] ex(3) unsigned_less [of "mr_filled_quantity_lots r", where ?'a = nat]
    by (simp add: word_unat_eq_iff)
  have "unat (mr_remaining_quantity_lots r) = unat (so_quantity_lots order - mr_filled_quantity_lots r)"
    using ex(3,4) le by (simp add: unat_sub word_le_nat_alt)
  then have "so_quantity_lots order - fills_quantity fills = mr_remaining_quantity_lots r"
    using fq by (metis word_unat_eq_iff)
  then show thesis
    using that [OF ex(1,2) le _ dop] dop ids by simp
qed

text \<open>
  Trading the incoming order and the resting ones by the reported executions
  leaves, among the orders with an open quantity, those that rest afterwards.
\<close>

lemma submit_known:
  assumes ok: "spec_ok S" and out: "spec_submit c order S = (S', r)"
    and d: "distinct (map fst ((so_order_id order, m, so_side order, so_quantity_lots order) # A @ book_lives m S @ Z))"
  shows "fills_known spec m (mr_executions r)
      ((so_order_id order, m, so_side order, so_quantity_lots order) # A @ book_lives m S @ Z)"
proof -
  have "distinct (so_order_id order # map fst (book_lives m S))" using d by auto
  then obtain fills where f: "mr_executions r = fill_executions order fills"
    "takes_in_priority (S (opposite (so_side order))) fills (S' (opposite (so_side order)))"
    "fills_total fills \<le> unat (so_quantity_lots order)" "distinct (so_order_id order # map fid fills)"
    using submit_facts [OF ok out] by metis
  have "set (ladder_lives m (opposite (so_side order)) (S (opposite (so_side order)))) \<subseteq> set (book_lives m S)"
    using both_sides(1) [of m S "so_side order"] by simp
  then have "\<exists>r'. (so_order_id maker, m, opposite (so_side order), r') \<in> set (book_lives m S) \<and> qty \<le> r'"
    if "(maker, px, qty) \<in> set fills" for maker px qty
    using takes_makers [OF f(2) that] unfolding ladder_lives_mem subset_iff by blast
  then have makers: "\<forall>(maker, px, qty)\<in>set fills. \<exists>r'. (so_order_id maker, m, opposite (so_side order), r')
      \<in> set ((so_order_id order, m, so_side order, so_quantity_lots order) # A @ book_lives m S @ Z) \<and> qty \<le> r'"
    by fastforce
  show ?thesis
    unfolding f(1) by (rule fills_known_makers [OF d _ _ f(3) makers]) (use f(4) in \<open>simp_all add: fid_split\<close>)
qed

lemma submit_keeps:
  assumes ok: "spec_ok S" and out: "spec_submit c order S = (S', r)"
    and d: "distinct (map fst ((so_order_id order, m, so_side order, so_quantity_lots order) # A @ book_lives m S @ Z))"
    and mem: "(i, m', s, q) \<in> set (trade_all spec (mr_executions r)
      ((so_order_id order, m, so_side order, so_quantity_lots order) # A @ book_lives m S @ Z))" and q: "q \<noteq> 0"
  shows "(i, m', s, q) \<in> set (A @ book_lives m S' @ Z) \<or> i = so_order_id order \<and> \<not> mr_rested r"
proof -
  let ?s = "so_side order" and ?o = "opposite (so_side order)" and ?oid = "so_order_id order"
  have dbook: "distinct (?oid # map fst (book_lives m S))" using d by auto
  obtain fills where f: "mr_executions r = fill_executions order fills" "takes_in_priority (S ?o) fills (S' ?o)"
    "so_quantity_lots order - fills_quantity fills = mr_remaining_quantity_lots r"
    "distinct (?oid # map fid (flatten_ladder (S ?o)))" "distinct (?oid # map fid fills)"
    "set (map fid fills) \<subseteq> set (map fid (flatten_ladder (S ?o)))"
    using submit_facts [OF ok out dbook] by blast
  have T: "trade_all spec (mr_executions r) L0 = advance (traded ?oid fills) L0" for L0
    unfolding f(1) by (rule trade_all_advance) (use f(5) in force)
  obtain q0 where q0: "(i, m', s, q0) \<in> set ((?oid, m, ?s, so_quantity_lots order) # A @ book_lives m S @ Z)"
      "q = q0 - traded ?oid fills i"
    using mem unfolding T advance_def by auto
  have outside: "traded ?oid fills i = 0" if "i \<noteq> ?oid" "i \<notin> set (map fid (flatten_ladder (S ?o)))"
    by (rule traded_none [OF that(1)]) (use that(2) f(6) in auto)
  have own: "distinct (?oid # map fst (ladder_lives m ?s (S ?s)) @ map fid (flatten_ladder (S ?o)))"
    by (rule distinct_mset_le [OF _ dbook]) (simp add: book_ids [of m S ?s] del: mset_map add: ladder_lives_ids)
  have opids: "set (map fid (flatten_ladder (S ?o))) \<subseteq> fst ` set (book_lives m S)"
    using both_sides(1) [of m S ?s] unfolding ladder_lives_ids [symmetric, of _ m ?o] by auto
  note sides' = both_sides(1) [of m S' ?s]
  consider "(i, m', s, q0) = (?oid, m, ?s, so_quantity_lots order)" | "(i, m', s, q0) \<in> set A \<union> set Z"
    | "(i, m', s, q0) \<in> set (ladder_lives m ?s (S ?s))" | "(i, m', s, q0) \<in> set (ladder_lives m ?o (S ?o))"
    using q0(1) both_sides(1) [of m S ?s] by auto
  then show ?thesis
  proof cases
    case 1
    then have "q = mr_remaining_quantity_lots r" using q0(2) f(3) by (simp add: traded_def)
    then show ?thesis using 1 own_side_lives(1) [OF out, of m] sides' by auto
  next
    case 2
    have "fst ` (set A \<union> set Z) \<inter> insert ?oid (fst ` set (book_lives m S)) = {}" using d by auto
    moreover have "i \<in> fst ` (set A \<union> set Z)" using 2 by (metis fst_conv image_eqI)
    ultimately have "i \<notin> insert ?oid (fst ` set (book_lives m S))" by blast
    then have "i \<noteq> ?oid" "i \<notin> set (map fid (flatten_ladder (S ?o)))" using opids by blast+
    then have "q = q0" using outside q0(2) by simp
    then show ?thesis using 2 by auto
  next
    case 3
    then have "i \<noteq> ?oid" "i \<notin> set (map fid (flatten_ladder (S ?o)))" using own by force+
    then have "q = q0" using outside q0(2) by auto
    then show ?thesis using 3 own_side_lives(1) [OF out, of m] sides' by auto
  next
    case 4
    then obtain ord p where o: "(ord, p, q0) \<in> set (flatten_ladder (S ?o))" "i = so_order_id ord" "m' = m" "s = ?o"
      unfolding ladder_lives_mem by blast
    have "(ord, p, q) \<in> set (flatten_ladder (S' ?o))"
      using advance_taken [OF f(2,4) o(1)] q q0(2) o(2) by simp
    then have "(i, m', s, q) \<in> set (ladder_lives m ?o (S' ?o))"
      using o unfolding ladder_lives_mem by blast
    then show ?thesis using sides' by auto
  qed
qed

lemma submit_book_ids:
  assumes ok: "spec_ok S" and out: "spec_submit c order S = (S', r)"
    and d: "distinct (so_order_id order # map fst (book_lives m S))"
  shows "mset (map fst (book_lives m S')) \<subseteq># add_mset (so_order_id order) (mset (map fst (book_lives m S)))"
proof -
  obtain fills where "takes_in_priority (S (opposite (so_side order))) fills (S' (opposite (so_side order)))"
    using submit_facts [OF ok out d] by blast
  then have "\<exists>pre. map fid (flatten_ladder (S (opposite (so_side order)))) = pre @ map fid (flatten_ladder (S' (opposite (so_side order))))"
    using takes_ids by blast
  then have "mset (map fid (flatten_ladder (S' (opposite (so_side order))))) \<subseteq># mset (map fid (flatten_ladder (S (opposite (so_side order)))))"
    by (metis mset_append mset_subset_eq_add_right)
  then have "mset (map fst (book_lives m S')) \<subseteq># mset (map fst (book_lives m S)) + (if mr_rested r then {#so_order_id order#} else {#})"
    unfolding book_ids [of m _ "so_side order"] own_side_lives(2) [OF out] by (simp del: mset_map)
  also have "\<dots> \<subseteq># add_mset (so_order_id order) (mset (map fst (book_lives m S)))"
    by simp
  finally show ?thesis .
qed

lemma submit_names:
  assumes ok: "spec_ok S" and out: "spec_submit c order S = (S', r)"
    and d: "distinct (map fst ((so_order_id order, m, so_side order, so_quantity_lots order) # A @ book_lives m S @ Z))"
  shows "same_names ((so_order_id order, m, so_side order, so_quantity_lots order) # A @ book_lives m S @ Z) (A @ book_lives m S' @ Z)"
    (is "same_names ?L0 _")
proof -
  let ?s = "so_side order" and ?o = "opposite (so_side order)"
  have dbook: "distinct (so_order_id order # map fst (book_lives m S))" using d by auto
  have dist: "distinct (map fst (A @ book_lives m S' @ Z))"
    using submit_book_ids [OF ok out dbook] by (intro distinct_mset_le [OF _ d]) (simp add: subset_mset.add_mono)
  obtain fills where "takes_in_priority (S ?o) fills (S' ?o)"
    using submit_facts [OF ok out dbook] by blast
  then obtain pre where later: "map fid (flatten_ladder (S ?o)) = pre @ map fid (flatten_ladder (S' ?o))"
    using takes_ids by blast
  have "\<exists>q'. (i, m', s, q') \<in> set ?L0" if v: "(i, m', s, q) \<in> set (A @ book_lives m S' @ Z)" for i m' s q
  proof -
    consider "(i, m', s, q) \<in> set A \<union> set Z" | "(i, m', s, q) \<in> set (ladder_lives m ?s (S' ?s))"
      | "(i, m', s, q) \<in> set (ladder_lives m ?o (S' ?o))"
      using v both_sides(1) [of m S' ?s] by auto
    then show ?thesis
    proof cases
      case 2
      then show ?thesis
        using own_side_lives(1) [OF out, of m] both_sides(1) [of m S ?s] by (auto split: if_splits)
    next
      case 3
      then have i: "i \<in> set (map fid (flatten_ladder (S ?o)))" "m' = m" "s = ?o"
        unfolding later by (force simp: ladder_lives_mem)+
      then obtain q' where "(i, m', s, q') \<in> set (ladder_lives m ?o (S ?o))"
        by (force simp: ladder_lives_mem)
      then show ?thesis using both_sides(1) [of m S ?s] by auto
    qed auto
  qed
  then show ?thesis
    unfolding same_names_def using dist by blast
qed

end
