(* ===== verification/EngineHandlers.thy ===== *)
theory EngineHandlers
  imports EngineBooks
begin

section \<open>One event keeps the engine's invariant\<close>

text \<open>
  The invariant of a whole engine: its order ledger for the orders resting in the
  books, well-formed books, and accounting events within their sink. Taking the
  next due event makes an arriving order the head of the live orders; every handler
  puts it where the code puts it and restores the invariant.
\<close>

definition books_ok :: "'m simulation \<Rightarrow> 'm engine \<Rightarrow> bool" where
  "books_ok sim en \<longleftrightarrow> (\<forall>s\<in>set (en_market_states en). book_inv (sim_book sim) (mk_matching_book s))"

definition events_fit :: "'m simulation \<Rightarrow> 'm engine \<Rightarrow> bool" where
  "events_fit sim en \<longleftrightarrow> length (en_accounting_events en) \<le> accounting_sink_capacity sim"

definition engine_inv :: "'m simulation \<Rightarrow> nat \<Rightarrow> 'm engine \<Rightarrow> bool" where
  "engine_inv sim B en \<longleftrightarrow> ledger_inv sim (resting (en_market_states en)) B en \<and> books_ok sim en \<and> events_fit sim en"

text \<open>The ids of markets and assets have 32 and 16 bits, the positions in a book 16.\<close>

definition sim_ok :: "'m simulation \<Rightarrow> bool" where
  "sim_ok sim \<longleftrightarrow> valid_config (sim_book sim)
     \<and> market_capacity sim \<le> 2 ^ 32 \<and> asset_capacity (sim_accounts sim) \<le> 2 ^ 16"

text \<open>
  A book of at most 32 levels reads a level whose 64-bit total has wrapped to zero as empty. No total of
  the engine has wrapped: of a deep book nothing is asked.
\<close>

definition totals_fit :: "'m simulation \<Rightarrow> 'm engine \<Rightarrow> bool" where
  "totals_fit sim en \<longleftrightarrow> list_all (\<lambda>s. totals_ok (sim_book sim) (mk_matching_book s) Buy
     \<and> totals_ok (sim_book sim) (mk_matching_book s) Sell) (en_market_states en)"

lemma totals_fit_deep: "uses_deep_level_index (sim_book sim) \<Longrightarrow> totals_fit sim en"
  by (simp add: totals_fit_def totals_ok_def list_all_iff)

lemma totals_fit_market:
  "totals_fit sim en \<Longrightarrow> i < length (en_market_states en) \<Longrightarrow>
    totals_ok (sim_book sim) (mk_matching_book (en_market_states en ! i)) s"
  by (cases s) (simp_all add: totals_fit_def list_all_length)

subsection \<open>The resting orders of one market\<close>

lemma resting_split:
  assumes "i < length ms"
  obtains A Z where "resting ms = A @ book_lives (of_nat i) (ladder (mk_matching_book (ms ! i))) @ Z"
    "\<And>s. resting (ms[i := s]) = A @ book_lives (of_nat i) (ladder (mk_matching_book s)) @ Z"
proof -
  let ?f = "\<lambda>ms i. book_lives (of_nat i) (ladder (mk_matching_book (ms ! i)))"
  let ?A = "concat (map (?f ms) [0..<i])" and ?Z = "concat (map (?f ms) [Suc i..<length ms])"
  have up: "[0..<length ms] = [0..<i] @ i # [Suc i..<length ms]"
    using assms upt_add_eq_append [of 0 i "length ms - i"] by (simp add: upt_conv_Cons)
  have "resting (ms[i := s]) = ?A @ book_lives (of_nat i) (ladder (mk_matching_book s)) @ ?Z" for s
  proof -
    have eqs: "map (?f (ms[i := s])) [0..<i] = map (?f ms) [0..<i]" "map (?f (ms[i := s])) [Suc i..<length ms] = map (?f ms) [Suc i..<length ms]"
      by (rule map_cong; simp)+
    show ?thesis unfolding resting_def length_list_update up map_append concat_append list.map concat.simps eqs
      using assms by simp
  qed
  then show thesis
    using that [of ?A ?Z] by (metis list_update_id)
qed

lemma resting_core:
  assumes "map market_core ms' = map market_core ms"
  shows "resting ms' = resting ms"
  unfolding resting_def using core_nth [OF assms] by (intro arg_cong [of _ _ concat] map_cong) (simp_all add: market_core_def)

lemma books_core:
  assumes "map market_core (en_market_states en') = map market_core (en_market_states en)"
  shows "books_ok sim en' = books_ok sim en"
  using core_nth [OF assms] by (simp add: books_ok_def all_set_conv_all_nth market_core_def)

text \<open>A settlement or an agent's actions, which leave the books alone, keep the invariant.\<close>

lemma engine_inv_frame:
  assumes "ledger_inv sim (resting (en_market_states en)) B en'" "event_frame sim en en'" "books_ok sim en" "events_fit sim en"
  shows "engine_inv sim B en'"
  using assms resting_core [of "en_market_states en'" "en_market_states en"] books_core [of en' en sim]
  by (auto simp: engine_inv_def event_frame_def engine_frame_def money_frame_def events_fit_def)

lemma engine_invD:
  assumes "engine_inv sim B en"
  shows "ledger_inv sim (resting (en_market_states en)) B en" "books_ok sim en" "events_fit sim en"
  using assms by (simp_all add: engine_inv_def)

subsection \<open>The order list changes\<close>

lemma ledger_live:
  assumes inv: "ledger_inv sim L B en" and names: "same_names L L'"
    and keeps: "\<And>i m s q r. (i, m, s, q) \<in> set L \<Longrightarrow> q \<noteq> 0 \<Longrightarrow> (i, m, s, q) \<notin> set L' \<Longrightarrow> running en \<Longrightarrow>
      r \<in> set (en_reservations en) \<Longrightarrow> rv_active r \<Longrightarrow> rv_order_id r \<noteq> i"
  shows "ledger_inv sim L' B en"
proof -
  let ?P = "pending (en_scheduler en)"
  note ok = ledger_invD(5) [OF inv]
  have "fst ` set L' \<subseteq> fst ` set L"
    using same_namesD(2) [OF names] by force
  then have same: "same_names (?P @ L) (?P @ L')"
  proof -
    have "distinct (map fst (?P @ L'))"
      using ledger_names [OF inv] same_namesD(1) [OF names] \<open>fst ` set L' \<subseteq> fst ` set L\<close> by auto
    moreover have "\<exists>q'. (i, m, s, q') \<in> set (?P @ L)" if "(i, m, s, q) \<in> set (?P @ L')" for i m s q
      using that same_namesD(2) [OF names, of i m s q] by auto
    ultimately show ?thesis unfolding same_names_def by blast
  qed
  have "orders_ok sim (specs_of (en_market_states en)) (en_accounts en) (en_reservations en)
      (unat (en_next_order_id en)) (running en) (?P @ L')"
  proof (rule orders_ok_live [OF ok same])
    fix r assume r: "running en" "r \<in> set (en_reservations en)" "rv_active r"
    have "backed (specs_of (en_market_states en)) (?P @ L') r" if b: "backed (specs_of (en_market_states en)) (?P @ L) r"
    proof -
      obtain spec q where q: "specs_of (en_market_states en) (rv_market_id r) = Some spec"
          "(rv_order_id r, rv_market_id r, rv_side r, q) \<in> set (?P @ L)"
          "0 < rv_reserved_amount_lots r"
          "rv_reserved_amount_lots r \<le> required_reservation_amount spec (rv_side r) (rv_price_ticks r) q"
        using b unfolding backed_def by blast
      have "q \<noteq> 0"
        using q(3,4) required_zero [of spec "rv_side r" "rv_price_ticks r"] by auto
      then have "(rv_order_id r, rv_market_id r, rv_side r, q) \<in> set (?P @ L')"
        using q(2) keeps r by fastforce
      then show ?thesis using q unfolding backed_def by blast
    qed
    then show "running en \<and> (backed (specs_of (en_market_states en)) (?P @ L) r \<longrightarrow> backed (specs_of (en_market_states en)) (?P @ L') r)"
      using r(1) by blast
  qed
  then show ?thesis
    using ledger_invD(1-4) [OF inv] unfolding ledger_inv_def by simp
qed

subsection \<open>The next due event\<close>

definition event_live :: "scheduled_event \<Rightarrow> live" where
  "event_live e = (se_order_id e, se_market_id e, se_side e, se_quantity_lots e)"

definition arriving :: "scheduled_event \<Rightarrow> live list" where
  "arriving e = (if se_kind e = OrderArrivesAtMarket then [event_live e] else [])"

lemma next_due_Some:
  assumes "next_due t en = Some (e, en1)" "scheduler_ok (en_scheduler en)"
  shows "running en \<and> se_timestamp_ns e \<le> t
    \<and> (\<exists>s'. en1 = en\<lparr>en_scheduler := s', en_current_time_ns := se_timestamp_ns e\<rparr> \<and> scheduler_ok s'
         \<and> mset (sc_heap (en_scheduler en)) = add_mset e (mset (sc_heap s'))
         \<and> (\<forall>x\<in>set (sc_heap (en_scheduler en)). event_key e \<le> event_key x))"
proof -
  have run: "running en" using assms(1) by (auto simp: next_due_def running_def split: if_splits)
  have ne: "sc_heap (en_scheduler en) \<noteq> []"
    using assms(1) by (auto simp: next_due_def top_event_def split: if_splits option.splits)
  obtain s' e' where p: "pop (en_scheduler en) = (s', Some e')" "scheduler_ok s'"
      "mset (sc_heap (en_scheduler en)) = add_mset e' (mset (sc_heap s'))"
      "\<forall>x\<in>set (sc_heap (en_scheduler en)). event_key e' \<le> event_key x"
    using pop_least [OF assms(2) ne] by blast
  have top: "top_event (en_scheduler en) = Some (hd (sc_heap (en_scheduler en)))" "e' = hd (sc_heap (en_scheduler en))"
    using ne p(1) by (auto simp: top_event_def pop_def Let_def hd_conv_nth split: if_splits list.splits)
  show ?thesis
    using assms(1) run p top by (auto simp: next_due_def running_def split: if_splits)
qed

lemma ledger_pop:
  assumes inv: "ledger_inv sim L B en" and due: "next_due t en = Some (e, en1)"
  shows "ledger_inv sim (arriving e @ L) (Suc B) en1"
proof -
  obtain s' where s': "en1 = en\<lparr>en_scheduler := s', en_current_time_ns := se_timestamp_ns e\<rparr>" "scheduler_ok s'"
      "mset (sc_heap (en_scheduler en)) = add_mset e (mset (sc_heap s'))"
    using next_due_Some [OF due ledger_invD(1) [OF inv]] by blast
  have "mset (pending s' @ arriving e @ L) = mset (pending (en_scheduler en) @ L)"
    using pending_mset [OF s'(3)] by (simp add: arriving_def event_live_def)
  then have "orders_ok sim (specs_of (en_market_states en)) (en_accounts en) (en_reservations en)
      (unat (en_next_order_id en)) (running en) (pending s' @ arriving e @ L)"
    using orders_ok_perm [OF ledger_invD(5) [OF inv]] by blast
  moreover have "length (sc_heap (en_scheduler en)) = Suc (length (sc_heap s'))"
    using s'(3) by (metis size_mset size_add_mset)
  ultimately show ?thesis
    using ledger_invD [OF inv] s' unfolding ledger_inv_def
    by (simp add: available_capacity_def running_def)
qed

subsection \<open>An order arrives\<close>

lemma ledger_book:
  assumes inv: "ledger_inv sim L B en"
  shows "ledger_inv sim L B (upd_market i (\<lambda>s. s\<lparr>mk_matching_book := b\<rparr>) en)"
proof -
  let ?s = "(en_market_states en ! i)\<lparr>mk_matching_book := b\<rparr>"
  have "map market_static ((en_market_states en)[i := ?s]) = map market_static (en_market_states en)"
    by (rule map_upd_same) (simp add: market_static_def)
  note static = static_nth [OF this] specs_static [OF this]
  have "markets_named ((en_market_states en)[i := ?s])"
    using ledger_invD(4) [OF inv] static(2) by (simp add: markets_named_def market_static_def)
  then show ?thesis
    using inv static(3) by (simp add: ledger_inv_def upd_market_def running_def)
qed

lemma frame_book: "engine_frame sim en (upd_market i (\<lambda>s. s\<lparr>mk_matching_book := b\<rparr>) en)"
  unfolding upd_market_def
  by (rule engine_frameI [where es = "[]"]) (simp_all add: map_upd_same market_static_def)

lemma books_upd:
  "books_ok sim en \<Longrightarrow> book_inv (sim_book sim) b \<Longrightarrow> books_ok sim (upd_market i (\<lambda>s. s\<lparr>mk_matching_book := b\<rparr>) en)"
  unfolding books_ok_def upd_market_def by (auto dest!: set_upd)

lemma market_none_no_reservation:
  assumes inv: "ledger_inv sim L B en" and run: "running en" and none: "market_index en m = None"
    and v: "(i, m, s, q) \<in> set L" and r: "r \<in> set (en_reservations en)" "rv_active r"
  shows "rv_order_id r \<noteq> i"
proof
  assume "rv_order_id r = i"
  then have "rv_market_id r = m"
    using namedD(3) [OF orders_okD(3) [OF ledger_invD(5) [OF inv]], of i m s q r] v r by simp
  moreover have "specs_of (en_market_states en) (rv_market_id r) \<noteq> None"
    using orders_okD(4) [OF ledger_invD(5) [OF inv] r] by (auto simp: reservation_ok_def)
  ultimately show False
    using none by (auto simp: specs_of_def market_index_def split: if_splits)
qed

lemma arriving_order_fields [simp]:
  "so_order_id (arriving_order e) = se_order_id e" "so_side (arriving_order e) = se_side e"
  "so_quantity_lots (arriving_order e) = se_quantity_lots e"
  by (simp_all add: arriving_order_def)

lemma trade_all_keys:
  "map (\<lambda>(i, m, s, q). (i, m, s)) (trade_all spec es L) = map (\<lambda>(i, m, s, q). (i, m, s)) L"
proof (induction spec es L rule: trade_all.induct)
  case (2 spec e es L)
  have "map (\<lambda>(i, m, s, q). (i, m, s)) (trade_lots spec e L) = map (\<lambda>(i, m, s, q). (i, m, s)) L"
    by (auto simp: trade_lots_def take_lots_def)
  then show ?case using 2 by simp
qed simp

lemma same_names_traded:
  assumes "same_names L L'"
  shows "same_names (trade_all spec es L) L'"
proof -
  have "\<exists>q'. (i, m, s, q') \<in> set (trade_all spec es L)" if "(i, m, s, q) \<in> set L" for i m s q
  proof -
    have "(i, m, s) \<in> set (map (\<lambda>(i, m, s, q). (i, m, s)) (trade_all spec es L))"
      unfolding trade_all_keys using that by force
    then show ?thesis by auto
  qed
  then show ?thesis using assms by (auto simp: same_names_def)
qed

lemma order_arrival_inv:
  assumes inv: "ledger_inv sim (event_live e # resting (en_market_states en)) B en" and B: "B < 2 ^ 64"
    and sim: "sim_ok sim" and tot: "totals_fit sim en" and books: "books_ok sim en" and fit: "events_fit sim en" and run: "running en"
  shows "\<exists>en'. handle_order_arrival sim e en = Some en' \<and> engine_inv sim B en' \<and> engine_frame sim en en'"
proof (cases "market_index en (se_market_id e)")
  case None
  have "ledger_inv sim (resting (en_market_states en)) B en"
  proof (rule ledger_live [OF inv])
    show "same_names (event_live e # resting (en_market_states en)) (resting (en_market_states en))"
      using ledger_names [OF inv] by (auto simp: same_names_def)
    fix i m s q r
    assume "(i, m, s, q) \<in> set (event_live e # resting (en_market_states en))" "(i, m, s, q) \<notin> set (resting (en_market_states en))"
      "r \<in> set (en_reservations en)" "rv_active r"
    then show "rv_order_id r \<noteq> i"
      using market_none_no_reservation [OF inv run None, of i s q r] by (auto simp: event_live_def)
  qed
  then show ?thesis
    using books fit by (simp add: handle_order_arrival_def None engine_inv_def event_frame_engine)
next
  case (Some i)
  note i = market_index_Some [OF Some]
  let ?ms = "en_market_states en" and ?o = "arriving_order e"
  let ?b = "mk_matching_book (?ms ! i)" and ?m = "se_market_id e"
  have mi: "of_nat i = ?m" using i by simp
  obtain A Z where split: "resting ?ms = A @ book_lives ?m (ladder ?b) @ Z"
    "\<And>s. resting (?ms[i := s]) = A @ book_lives ?m (ladder (mk_matching_book s)) @ Z"
    using resting_split [of i ?ms] i mi by metis
  have binv: "book_inv (sim_book sim) ?b" using books i by (simp add: books_ok_def)
  have "totals_ok (sim_book sim) ?b (opposite (so_side ?o))" using totals_fit_market [OF tot] i by blast
  then obtain b' where b': "submit_limit (sim_book sim) ?o ?b = Some (b', snd (spec_submit (sim_book sim) ?o (ladder ?b)))"
      "book_inv (sim_book sim) b'" "ladder b' = fst (spec_submit (sim_book sim) ?o (ladder ?b))"
    using submit_refines [OF binv _, of ?o] sim by (auto simp: sim_ok_def)
  define r where "r = snd (spec_submit (sim_book sim) ?o (ladder ?b))"
  define en1 where "en1 = upd_market i (\<lambda>s. s\<lparr>mk_matching_book := b'\<rparr>) en"
  define en' where "en' = settle_order sim i e r en1"
  have out: "spec_submit (sim_book sim) ?o (ladder ?b) = (ladder b', r)" by (simp add: b' r_def)
  let ?L0 = "event_live e # resting ?ms" and ?spec = "mk_product_spec (?ms ! i)"
  have L0: "?L0 = (so_order_id ?o, ?m, so_side ?o, so_quantity_lots ?o) # A @ book_lives ?m (ladder ?b) @ Z"
    by (simp add: split event_live_def)
  have d: "distinct (map fst ?L0)" using ledger_names [OF inv] by simp
  note sub = ladder_spec_ok [OF binv] out d [unfolded L0]
  have inv1: "ledger_inv sim ?L0 B en1" unfolding en1_def by (rule ledger_book [OF inv])
  have mi1: "market_index en1 ?m = Some i" using Some by (simp add: market_index_def en1_def upd_market_def)
  have spec1: "?spec = mk_product_spec (en_market_states en1 ! i)" using i by (simp add: en1_def upd_market_def)
  have known: "fills_known ?spec (of_nat i) (mr_executions r) ?L0"
    unfolding L0 mi by (rule submit_known [OF sub])
  have fit1: "length (en_accounting_events en1) \<le> accounting_sink_capacity sim"
    using fit by (simp add: en1_def events_fit_def upd_market_def)
  note settled = settle_order_ledger [OF inv1 B mi1 spec1 known fit1 en'_def]
  have res1: "resting (en_market_states en1) = A @ book_lives ?m (ladder b') @ Z"
    by (simp add: en1_def upd_market_def split(2))
  have "ledger_inv sim (resting (en_market_states en1)) B en'"
  proof (rule ledger_live [OF conjunct1 [OF settled]])
    show "same_names (trade_all ?spec (mr_executions r) ?L0) (resting (en_market_states en1))"
      unfolding res1 L0 by (rule same_names_traded [OF submit_names [OF sub]])
    fix j m s q rv
    assume "(j, m, s, q) \<in> set (trade_all ?spec (mr_executions r) ?L0)" "q \<noteq> 0"
      "(j, m, s, q) \<notin> set (resting (en_market_states en1))" "running en'" "rv \<in> set (en_reservations en')" "rv_active rv"
    then show "rv_order_id rv \<noteq> j"
      using submit_keeps [OF sub, of j m s q ?spec] settled unfolding res1 L0 by auto
  qed
  then have "engine_inv sim B en'"
    using settled books_upd [OF books b'(2), of i] fit1
    by (intro engine_inv_frame [of sim en1]) (simp_all add: en1_def events_fit_def)
  moreover have "engine_frame sim en en'"
    using engine_frame_trans [OF frame_book [of sim en i b', folded en1_def]] settled event_frame_engine by blast
  moreover have "handle_order_arrival sim e en = Some en'"
    using Some b'(1) by (simp add: handle_order_arrival_def r_def en1_def en'_def)
  ultimately show ?thesis by blast
qed

subsection \<open>A cancel arrives\<close>

lemma cancel_lives:
  assumes "spec_cancel oid S = (S', r)"
  shows "if cr_canceled r then book_lives m S' = filter (\<lambda>v. fst v \<noteq> oid) (book_lives m S) else S' = S"
  using assms flatten_spec_remove [of oid]
  by (auto simp: spec_cancel_def default_cancel_result_def book_lives_def ladder_lives_def filter_map comp_def
      case_prod_beta split: option.splits)

lemma append_cancel_ledger:
  assumes inv: "ledger_inv sim L B en"
  shows "ledger_inv sim L B (append_cancel_result sim r en) \<and> event_frame sim en (append_cancel_result sim r en)"
proof (cases "length (en_cancel_results en) < result_sink_capacity sim")
  case True
  have "event_frame sim en (append_cancel_result sim r en)"
    using True by (intro event_frameI [where es = "[]"]) (simp_all add: append_cancel_result_def)
  then show ?thesis using inv True by (simp add: append_cancel_result_def ledger_inv_def running_def)
next
  case False
  have "ledger_inv sim L B (append_cancel_result sim r en)"
    using False by (intro ledger_halt [OF inv]) (simp_all add: append_cancel_result_def running_def)
  moreover have "event_frame sim en (append_cancel_result sim r en)"
    using False by (intro event_frameI [where es = "[]"]) (simp_all add: append_cancel_result_def halted_def)
  ultimately show ?thesis by simp
qed

lemma notify_frame:
  assumes "ledger_inv sim L B en" "B < 2 ^ 64"
  shows "ledger_inv sim L B (notify_agent sim sg a en) \<and> event_frame sim en (notify_agent sim sg a en)"
  using notify_agent_ledger [OF assms(2,1)] agent_event_frame by blast

lemma release_ledger:
  assumes inv: "ledger_inv sim L B en"
  shows "ledger_inv sim L B (fst (release_and_remove_reservation sim oid en))
    \<and> event_frame sim en (fst (release_and_remove_reservation sim oid en))
    \<and> (running (fst (release_and_remove_reservation sim oid en)) \<longrightarrow>
        (\<forall>r\<in>set (en_reservations (fst (release_and_remove_reservation sim oid en))). rv_active r \<longrightarrow> rv_order_id r \<noteq> oid))"
proof -
  note r = release_remove_orders [OF ledger_invD(5) [OF inv] refl, of oid]
  then have "event_frame sim en (fst (release_and_remove_reservation sim oid en))"
    by (intro moved_event_frame) (simp_all add: same_totals_def)
  then show ?thesis
    using r ledger_orders [OF inv] by simp
qed

text \<open>The books after a cancel of a resting order: nobody's reservation is left behind.\<close>

lemma cancelled_ledger:
  assumes inv: "ledger_inv sim L B en" and L: "L = A @ V @ Z"
    and gone: "running en \<Longrightarrow> \<forall>r\<in>set (en_reservations en). rv_active r \<longrightarrow> rv_order_id r \<noteq> oid"
  shows "ledger_inv sim (A @ filter (\<lambda>v. fst v \<noteq> oid) V @ Z) B en"
proof (rule ledger_live [OF inv])
  have "distinct (map fst (A @ filter (\<lambda>v. fst v \<noteq> oid) V @ Z))"
    using ledger_names [OF inv] unfolding L by (auto simp: distinct_map_filter)
  then show "same_names L (A @ filter (\<lambda>v. fst v \<noteq> oid) V @ Z)"
    by (auto simp: same_names_def L)
qed (use gone L in auto)

lemma cancel_arrival_inv:
  assumes inv: "engine_inv sim B en" and B: "B < 2 ^ 64" and run: "running en"
  shows "engine_inv sim B (handle_cancel_arrival sim e en) \<and> engine_frame sim en (handle_cancel_arrival sim e en)"
proof (cases "market_index en (se_market_id e)")
  case None
  then show ?thesis
    using inv by (simp add: handle_cancel_arrival_def event_frame_engine)
next
  case (Some i)
  note inv' = engine_invD [OF inv]
  show ?thesis
  proof (cases "owned_reservation e en")
    case False
    let ?r = "default_cancel_result\<lparr>cr_order_id := se_order_id e, cr_agent_id := se_agent_id e, cr_status := Rejected\<rparr>"
    let ?en1 = "append_cancel_result sim ?r en"
    note a = append_cancel_ledger [OF inv'(1), of ?r]
    have eq: "handle_cancel_arrival sim e en = (if \<not> halted ?en1 then notify_cancel sim e False 0 ?en1 else ?en1)"
      using False Some by (simp add: handle_cancel_arrival_def Let_def)
    have "ledger_inv sim (resting (en_market_states en)) B (handle_cancel_arrival sim e en)
      \<and> event_frame sim en (handle_cancel_arrival sim e en)"
      using a notify_frame [OF conjunct1 [OF a] B] event_frame_trans [OF conjunct2 [OF a]]
      unfolding eq notify_cancel_def by auto
    then show ?thesis
      using engine_inv_frame [OF _ _ inv'(2,3)] event_frame_engine by blast
  next
    case True
    note i = market_index_Some [OF Some]
    let ?ms = "en_market_states en" and ?b = "mk_matching_book (en_market_states en ! i)" and ?oid = "se_order_id e"
    obtain b' r where b': "cancel (sim_book sim) ?oid ?b = (b', r)" by fastforce
    have binv: "book_inv (sim_book sim) ?b" using inv'(2) i by (simp add: books_ok_def)
    have spec: "book_inv (sim_book sim) b'" "spec_cancel ?oid (ladder ?b) = (ladder b', r)"
      using cancel_refines [OF binv, of ?oid] by (simp_all add: b')
    obtain A Z where split: "resting ?ms = A @ book_lives (of_nat i) (ladder ?b) @ Z"
      "\<And>s. resting (?ms[i := s]) = A @ book_lives (of_nat i) (ladder (mk_matching_book s)) @ Z"
      using resting_split [of i ?ms] i by metis
    define en1 where "en1 = upd_market i (\<lambda>s. s\<lparr>mk_matching_book := b'\<rparr>) en"
    define en2 where "en2 = append_cancel_result sim r en1"
    have inv1: "ledger_inv sim (resting ?ms) B en1" unfolding en1_def by (rule ledger_book [OF inv'(1)])
    note a = append_cancel_ledger [OF inv1, of r, folded en2_def]
    have res1: "resting (en_market_states en1) = A @ book_lives (of_nat i) (ladder b') @ Z"
      by (simp add: en1_def upd_market_def split(2))
    have new: "resting (en_market_states en1) = A @ filter (\<lambda>v. fst v \<noteq> ?oid) (book_lives (of_nat i) (ladder ?b)) @ Z" if "cr_canceled r"
      using cancel_lives [OF spec(2), of "of_nat i"] that by (simp add: res1)
    have same: "resting (en_market_states en1) = resting ?ms" if "\<not> cr_canceled r"
      using cancel_lives [OF spec(2)] that by (simp add: res1 split(1))
    have eq: "handle_cancel_arrival sim e en = (if halted en2 then en2 else if cr_canceled r then
          let en = fst (release_and_remove_reservation sim ?oid en2) in
          if \<not> halted en then schedule_market_data_update sim i (se_timestamp_ns e)
              (notify_cancel sim e True (cr_canceled_quantity_lots r) en)
          else en
        else notify_cancel sim e False 0 en2)"
      using True Some b' by (simp add: handle_cancel_arrival_def Let_def en1_def en2_def)
    have "ledger_inv sim (resting (en_market_states en1)) B (handle_cancel_arrival sim e en)
      \<and> event_frame sim en1 (handle_cancel_arrival sim e en)"
    proof (cases "cr_canceled r")
      case False
      then show ?thesis
        using a notify_frame [OF conjunct1 [OF a] B] event_frame_trans [OF conjunct2 [OF a]] same
        unfolding eq notify_cancel_def by auto
    next
      case True
      define en3 where "en3 = fst (release_and_remove_reservation sim ?oid en2)"
      define en4 where "en4 = notify_cancel sim e True (cr_canceled_quantity_lots r) en3"
      note rel = release_ledger [OF conjunct1 [OF a], of ?oid, folded en3_def]
      have inv3: "ledger_inv sim (resting (en_market_states en1)) B en3"
        unfolding new [OF True] using rel by (intro cancelled_ledger [OF conjunct1 [OF rel] split(1)]) simp
      have inv2: "ledger_inv sim (resting (en_market_states en1)) B en2" if "halted en2"
        unfolding new [OF True] using that by (intro cancelled_ledger [OF conjunct1 [OF a] split(1)]) (simp add: halted_def running_def)
      note n = notify_frame [OF inv3 B, of "On_cancel (cancel_notice e True (cr_canceled_quantity_lots r))" "se_agent_id e",
          folded notify_cancel_def, folded en4_def]
      note m = market_data_ledger [OF conjunct1 [OF n], of i "se_timestamp_ns e"]
      have frames: "event_frame sim en1 en2" "event_frame sim en1 en3"
        "event_frame sim en1 (schedule_market_data_update sim i (se_timestamp_ns e) en4)"
        using a rel n m event_frame_trans by blast+
      show ?thesis
        using inv2 inv3 m frames True unfolding eq en3_def [symmetric] en4_def [symmetric] Let_def by auto
    qed
    moreover have "events_fit sim en1" using inv'(3) by (simp add: en1_def events_fit_def upd_market_def)
    ultimately show ?thesis
      using engine_inv_frame [of sim en1 B] books_upd [OF inv'(2) spec(1), of i, folded en1_def]
        engine_frame_trans [OF frame_book [of sim en i b', folded en1_def]] event_frame_engine by blast
  qed
qed

subsection \<open>Market data and wakeups\<close>

lemma depth_slot_ledger:
  assumes "ledger_inv sim L B en"
  shows "ledger_inv sim L B (en\<lparr>en_visible_depths := ds\<rparr>) \<and> event_frame sim en (en\<lparr>en_visible_depths := ds\<rparr>)"
  using assms by (auto simp: ledger_inv_def running_def intro!: event_frameI [where es = "[]"])

lemma market_data_arrival_ledger:
  assumes inv: "ledger_inv sim L B en"
  shows "ledger_inv sim L B (handle_market_data_arrival e en) \<and> event_frame sim en (handle_market_data_arrival e en)"
proof -
  have "\<exists>ds. fst (find_or_create_visible_depth_slot a m en) = en\<lparr>en_visible_depths := ds\<rparr>" for a m
    by (auto simp: find_or_create_visible_depth_slot_def split: option.split intro: exI [of _ "en_visible_depths en"])
  then obtain ds where ds: "fst (find_or_create_visible_depth_slot (se_agent_id e) (se_market_id e) en) = en\<lparr>en_visible_depths := ds\<rparr>"
    by blast
  let ?en = "en\<lparr>en_visible_depths := ds\<rparr>"
  note d = depth_slot_ledger [OF inv, of ds]
  have "ledger_inv sim L B (market_data_overflow ?en) \<and> event_frame sim en (market_data_overflow ?en)"
    using overflow_ledger [OF conjunct1 [OF d]] event_frame_trans [OF conjunct2 [OF d]] by blast
  then show ?thesis
    using ds depth_slot_ledger [OF inv]
    by (cases "find_or_create_visible_depth_slot (se_agent_id e) (se_market_id e) en")
      (auto simp: handle_market_data_arrival_def split: option.split)
qed

lemma unknown_wakeup_ledger:
  assumes "ledger_inv sim L B en"
  shows "ledger_inv sim L B (en\<lparr>en_unknown_agent_wakeup_count := n\<rparr>) \<and> event_frame sim en (en\<lparr>en_unknown_agent_wakeup_count := n\<rparr>)"
  using assms by (auto simp: ledger_inv_def running_def intro!: event_frameI [where es = "[]"])

lemma wakeup_arrival_ledger:
  assumes inv: "ledger_inv sim L B en" and B: "B < 2 ^ 64"
  shows "ledger_inv sim L B (handle_agent_wakeup sim e en) \<and> event_frame sim en (handle_agent_wakeup sim e en)"
proof -
  have "ledger_inv sim L B (call_agent sim ag a sg en) \<and> event_frame sim en (call_agent sim ag a sg en)" for ag a sg
    using call_agent_ledger [OF B inv] agent_event_frame by blast
  then show ?thesis
    using unknown_wakeup_ledger [OF inv] by (auto simp: handle_agent_wakeup_def Let_def split: option.split)
qed

subsection \<open>One pass through the loop\<close>

lemma count_ledger:
  assumes "engine_inv sim B en"
  shows "engine_inv sim B (en\<lparr>en_processed_event_count := n\<rparr>)
    \<and> engine_frame sim en (en\<lparr>en_processed_event_count := n\<rparr>)"
  using assms by (auto simp: engine_inv_def ledger_inv_def running_def books_ok_def events_fit_def intro!: engine_frameI [where es = "[]"])

theorem handle_event_inv:
  assumes inv: "engine_inv sim B en" and B: "Suc B < 2 ^ 64" and sim: "sim_ok sim" and tot: "totals_fit sim en" and due: "next_due t en = Some (e, en1)"
  shows "\<exists>en'. handle_event sim e en1 = Some en' \<and> engine_inv sim (Suc B) en' \<and> engine_frame sim en1 en'"
proof -
  note inv' = engine_invD [OF inv]
  obtain s' where s': "running en" "en1 = en\<lparr>en_scheduler := s', en_current_time_ns := se_timestamp_ns e\<rparr>"
    using next_due_Some [OF due ledger_invD(1) [OF inv'(1)]] by blast
  have led: "ledger_inv sim (arriving e @ resting (en_market_states en1)) (Suc B) en1"
    using ledger_pop [OF inv'(1) due] by (simp add: s'(2))
  have run: "running en1" and books: "books_ok sim en1" and fit: "events_fit sim en1" and tot1: "totals_fit sim en1"
    using s' inv' tot by (simp_all add: running_def books_ok_def events_fit_def totals_fit_def)
  have plain: "engine_inv sim (Suc B) en1" "ledger_inv sim (resting (en_market_states en1)) (Suc B) en1"
    if "se_kind e \<noteq> OrderArrivesAtMarket"
    using led books fit that by (simp_all add: engine_inv_def arriving_def)
  have "\<exists>en2. dispatch_event sim (se_kind e) e en1 = Some en2 \<and> engine_inv sim (Suc B) en2 \<and> engine_frame sim en1 en2"
  proof (cases "se_kind e")
    case OrderArrivesAtMarket
    then show ?thesis
      using order_arrival_inv [OF _ B sim tot1 books fit run, of e] led by (simp add: arriving_def)
  next
    case CancelArrivesAtMarket
    then show ?thesis
      using cancel_arrival_inv [OF plain(1) B run, of e] by simp
  next
    case MarketDataArrives
    then show ?thesis
      using market_data_arrival_ledger [OF plain(2), of e] engine_inv_frame [OF _ _ books fit] event_frame_engine by auto
  next
    case AgentWakeup
    then show ?thesis
      using wakeup_arrival_ledger [OF plain(2) B, of e] engine_inv_frame [OF _ _ books fit] event_frame_engine by auto
  next
    case Settlement
    then show ?thesis
      using plain event_frame_engine [OF event_frame_refl] by simp
  qed
  then obtain en2 where en2: "dispatch_event sim (se_kind e) e en1 = Some en2" "engine_inv sim (Suc B) en2" "engine_frame sim en1 en2"
    by blast
  show ?thesis
    unfolding handle_event_def en2(1) using count_ledger [OF en2(2)] engine_frame_trans [OF en2(3)] by auto
qed

end
