(* ===== verification/EngineSetup.thy ===== *)
theory EngineSetup
  imports EngineHandlers
begin

section \<open>Client calls and reachable engines\<close>

text \<open>
  Everything a client of the engine can do between runs, as a data type of calls,
  and the engines reachable by calls and handled events. Two calls are only
  followed under a condition the code leaves to the client: setting a balance
  while an order of that agent reserves the asset, and clearing the scheduler
  while an order is on its way, both lose track of reserved funds.
\<close>

datatype latency_slot = Every_latency | Order_entry_latency | Cancel_latency | Market_data_latency

datatype client_call =
    Register_market market_key
  | Register_account agent_id
  | Set_account_balance agent_id asset_id int
  | Set_product_spec market_id product_spec
  | Set_latency latency_slot market_id latency_model
  | Register_agent agent_id agent_ref
  | Schedule_wakeup_call agent_id time_ns
  | Subscribe agent_id
  | Subscribe_feed agent_id latency_model
  | Submit_call order_request
  | Cancel_call cancel_request
  | Start_call

fun set_latency :: "latency_slot \<Rightarrow> market_id \<Rightarrow> latency_model \<Rightarrow> 'm engine \<Rightarrow> 'm engine \<times> bool" where
  "set_latency Every_latency = set_market_latency_model"
| "set_latency Order_entry_latency = set_order_entry_latency_model"
| "set_latency Cancel_latency = set_cancel_latency_model"
| "set_latency Market_data_latency = set_market_data_latency_model"

fun perform :: "'m simulation \<Rightarrow> client_call \<Rightarrow> 'm engine \<Rightarrow> 'm engine" where
  "perform sim (Register_market key) en = fst (register_market sim key en)"
| "perform sim (Register_account a) en = fst (engine_register_account sim a en)"
| "perform sim (Set_account_balance a x n) en = fst (engine_set_balance sim a x n en)"
| "perform sim (Set_product_spec m spec) en = fst (set_market_product_spec sim m spec en)"
| "perform sim (Set_latency slot m model) en = fst (set_latency slot m model en)"
| "perform sim (Register_agent a agent) en = fst (register_agent sim a agent en)"
| "perform sim (Schedule_wakeup_call a t) en = fst (schedule_agent_wakeup sim a t en)"
| "perform sim (Subscribe a) en = fst (register_market_data_subscriber sim a en)"
| "perform sim (Subscribe_feed a feed) en = fst (register_market_data_feed sim a feed en)"
| "perform sim (Submit_call rq) en = fst (submit_order sim rq en)"
| "perform sim (Cancel_call rq) en = fst (cancel_order sim rq en)"
| "perform sim Start_call en = fst (start sim en)"

fun careful :: "client_call \<Rightarrow> 'm engine \<Rightarrow> bool" where
  "careful (Set_account_balance a x n) en \<longleftrightarrow> in_i64 n
     \<and> list_all (\<lambda>r. \<not> (rv_active r \<and> rv_agent_id r = a \<and> rv_reserve_asset_id r = x)) (en_reservations en)"
| "careful _ en \<longleftrightarrow> True"

definition no_order_in_flight :: "'m engine \<Rightarrow> bool" where
  "no_order_in_flight en \<longleftrightarrow> list_all (\<lambda>e. se_kind e \<noteq> OrderArrivesAtMarket) (sc_heap (en_scheduler en))"

text \<open>
  \<open>reaches sim mem n en\<close>: the engine \<open>en\<close> is reached from a fresh one; \<open>n\<close> bounds
  the order ids handed out so far or that the free places of the scheduler allow. Events are handled
  while no total of a shallow book has wrapped.
\<close>

inductive reaches :: "'m simulation \<Rightarrow> 'm \<Rightarrow> nat \<Rightarrow> 'm engine \<Rightarrow> bool" for sim mem where
  fresh: "reaches sim mem (Suc (scheduler_capacity sim)) (new_engine sim mem)"
| client: "reaches sim mem n en \<Longrightarrow> careful call en \<Longrightarrow> reaches sim mem n (perform sim call en)"
| event: "reaches sim mem n en \<Longrightarrow> totals_fit sim en \<Longrightarrow> next_due t en = Some (e, en1) \<Longrightarrow> handle_event sim e en1 = Some en' \<Longrightarrow>
    reaches sim mem (Suc n) en'"
| clear: "reaches sim mem n en \<Longrightarrow> no_order_in_flight en \<Longrightarrow>
    reaches sim mem (n + scheduler_capacity sim) (clear_events en)"

inductive_cases reaches_cases: "reaches sim mem n en"
inductive_simps reaches_simps: "reaches sim mem n en"

definition markets_registered :: "'m simulation \<Rightarrow> 'm engine \<Rightarrow> bool" where
  "markets_registered sim en \<longleftrightarrow> mg_market_keys (en_market_registry en) = map mk_market_key (en_market_states en)
     \<and> length (en_market_states en) \<le> market_capacity sim"

definition engine_ok :: "'m simulation \<Rightarrow> nat \<Rightarrow> 'm engine \<Rightarrow> bool" where
  "engine_ok sim n en \<longleftrightarrow> engine_inv sim n en \<and> markets_registered sim en"

lemma registered_frame:
  assumes "markets_registered sim en" "engine_frame sim en en'"
  shows "markets_registered sim en'"
proof -
  have "map market_static (en_market_states en') = map market_static (en_market_states en)"
    using assms(2) unfolding engine_frame_def money_frame_def by blast
  note static = static_nth [OF this]
  have "map mk_market_key (en_market_states en') = map mk_market_key (en_market_states en)"
    using static by (intro nth_equalityI) (simp_all add: market_static_def)
  moreover have "en_market_registry en' = en_market_registry en"
    using assms(2) unfolding engine_frame_def money_frame_def by blast
  ultimately show ?thesis
    using assms(1) static(1) by (simp add: markets_registered_def)
qed

subsection \<open>The fresh engine\<close>

lemma new_engine_ok: "engine_ok sim (Suc (scheduler_capacity sim)) (new_engine sim mem)"
proof -
  have "funds sim [] (replicate n no_reservation)" for n
    by (auto simp: funds_def empty_store_ok accounts.reserved_of_def balance_def find_account_index_def
        reserved_sum_def sum_list_replicate map_replicate_const)
  then have "orders_ok sim sp [] (replicate n no_reservation) (Suc 0) b []" for n b sp
    by (auto simp: orders_ok_def slots_ok_def named_def)
  moreover have "sc_heap (en_scheduler (new_engine sim mem)) = []"
    by (simp add: new_engine_def empty_scheduler_fields)
  ultimately show ?thesis
    by (auto simp: engine_ok_def engine_inv_def ledger_inv_def books_ok_def events_fit_def new_engine_def resting_def
        pending_def empty_scheduler_fields available_capacity_def markets_named_def markets_registered_def
        empty_registry_def)
qed

subsection \<open>The configuration changes\<close>

text \<open>Accounts and markets may be added, and specs changed where no reservation looks.\<close>

lemma orders_ok_setup:
  assumes ok: "orders_ok sim specs st rs nxt b V" and st': "store_ok (sim_accounts sim) st'"
    and same: "\<And>a x. accounts.reserved_of (sim_accounts sim) st' a x = accounts.reserved_of (sim_accounts sim) st a x"
    and has: "\<And>a. has_account st a \<Longrightarrow> has_account st' a"
    and specs: "\<And>r spec. r \<in> set rs \<Longrightarrow> rv_active r \<Longrightarrow> specs (rv_market_id r) = Some spec \<Longrightarrow> specs' (rv_market_id r) = Some spec"
  shows "orders_ok sim specs' st' rs nxt b V"
proof -
  note old = orders_okD [OF ok]
  have "funds sim st' rs"
    using old(1) st' same by (simp add: funds_def)
  moreover have "reservation_ok specs' st' nxt r" if "r \<in> set rs" "rv_active r" for r
    using old(4) [OF that] has specs [OF that] by (auto simp: reservation_ok_def)
  moreover have "backed specs' V r" if "b" "r \<in> set rs" "rv_active r" for r
    using old(5) [OF that] specs [OF that(2,3)] unfolding backed_def by blast
  ultimately show ?thesis
    using old(2,3) unfolding orders_ok_def by blast
qed

lemma register_reserved:
  assumes ok: "store_ok cfg st"
  shows "accounts.reserved_of cfg (fst (register_account cfg a st)) b x = accounts.reserved_of cfg st b x"
proof (cases "has_account st b")
  case True
  then show ?thesis
    using register_law(3) [OF ok] by (simp add: accounts.reserved_of_def)
next
  case False
  then have "find_account_index st b = None" by (simp add: has_account_def)
  then have none: "balance cfg st b x = None" "b \<notin> set (map ac_agent_id st)"
    using find_account_None [OF ok, of b] by (simp_all add: balance_def)
  note ok' = register_law(1) [OF ok, of a]
  show ?thesis
  proof (cases "find_account_index (fst (register_account cfg a st)) b")
    case None
    then show ?thesis using none by (simp add: accounts.reserved_of_def balance_def)
  next
    case (Some i)
    then have i: "i < length (fst (register_account cfg a st))" "ac_agent_id (fst (register_account cfg a st) ! i) = b"
      using find_account_Some [OF ok'] by auto
    then have "ac_balances (fst (register_account cfg a st) ! i) = replicate (asset_capacity cfg) zero_balance"
      using none(2) nth_mem [of i st] by (fastforce simp: register_account_def nth_append split: if_splits)
    then show ?thesis
      using none Some by (auto simp: accounts.reserved_of_def balance_def valid_asset_def zero_balance_def)
  qed
qed

lemma set_balance_agents: "map ac_agent_id (fst (set_balance cfg a x n st)) = map ac_agent_id st"
  by (auto simp: set_balance_def put_balance_def map_upd_same split: option.splits)

lemma set_balance_reserved:
  assumes ok: "store_ok cfg st" and n: "in_i64 n" and none: "accounts.reserved_of cfg st a x = 0"
  shows "accounts.reserved_of cfg (fst (set_balance cfg a x n st)) b y = accounts.reserved_of cfg st b y"
proof (cases "snd (set_balance cfg a x n st)")
  case True
  then show ?thesis
    using set_balance_law(2) [OF ok n True] none by (auto simp: accounts.reserved_of_def)
next
  case False
  then show ?thesis by (auto simp: set_balance_def split: option.splits if_splits)
qed


text \<open>The store and the specs change, the live orders do not.\<close>

lemma ledger_setup:
  assumes inv: "ledger_inv sim L n en" and st': "store_ok (sim_accounts sim) st'"
    and same: "\<And>a x. accounts.reserved_of (sim_accounts sim) st' a x = accounts.reserved_of (sim_accounts sim) (en_accounts en) a x"
    and has: "\<And>a. has_account (en_accounts en) a \<Longrightarrow> has_account st' a"
  shows "ledger_inv sim L n (en\<lparr>en_accounts := st'\<rparr>)"
  using ledger_invD(1-4) [OF inv] orders_ok_setup [OF ledger_invD(5) [OF inv] st' same has]
  by (simp add: ledger_inv_def running_def)

lemma engine_setup:
  assumes ok: "engine_ok sim n en" and st': "store_ok (sim_accounts sim) st'"
    and same: "\<And>a x. accounts.reserved_of (sim_accounts sim) st' a x = accounts.reserved_of (sim_accounts sim) (en_accounts en) a x"
    and has: "\<And>a. has_account (en_accounts en) a \<Longrightarrow> has_account st' a"
  shows "engine_ok sim n (en\<lparr>en_accounts := st'\<rparr>)"
  using ok ledger_setup [OF _ st' same has, of "resting (en_market_states en)" n]
  by (simp add: engine_ok_def engine_inv_def markets_registered_def books_ok_def events_fit_def)

lemma engine_frame_ok:
  assumes "engine_ok sim n en" "ledger_inv sim (resting (en_market_states en)) n en'" "event_frame sim en en'"
  shows "engine_ok sim n en'"
  using assms engine_inv_frame [OF assms(2,3)] registered_frame [OF _ event_frame_engine [OF assms(3)]]
  by (simp add: engine_ok_def engine_inv_def)

lemma engine_okD:
  assumes "engine_ok sim n en"
  shows "ledger_inv sim (resting (en_market_states en)) n en" "books_ok sim en" "events_fit sim en" "markets_registered sim en"
    "store_ok (sim_accounts sim) (en_accounts en)"
  using assms fundsD(1) [OF orders_okD(1) [OF ledger_invD(5)]] by (auto simp: engine_ok_def engine_inv_def)

lemma register_account_ok:
  assumes ok: "engine_ok sim n en"
  shows "engine_ok sim n (fst (engine_register_account sim a en))"
proof -
  note st = engine_okD(5) [OF ok]
  have "engine_ok sim n (en\<lparr>en_accounts := fst (register_account (sim_accounts sim) a (en_accounts en))\<rparr>)"
  proof (rule engine_setup [OF ok register_law(1) [OF st] register_reserved [OF st]])
    fix b assume "has_account (en_accounts en) b"
    then show "has_account (fst (register_account (sim_accounts sim) a (en_accounts en))) b"
      unfolding has_account_iff [OF st] has_account_iff [OF register_law(1) [OF st]]
      by (auto simp: register_account_def)
  qed
  then show ?thesis by (simp add: engine_register_account_def case_prod_beta)
qed

lemma sum_list_zero: "(\<And>x. x \<in> set xs \<Longrightarrow> f x = (0 :: int)) \<Longrightarrow> sum_list (map f xs) = 0"
  by (induction xs) auto

lemma set_balance_ok:
  assumes ok: "engine_ok sim n en" and c: "careful (Set_account_balance a x m) en"
  shows "engine_ok sim n (fst (engine_set_balance sim a x m en))"
proof -
  note st = engine_okD(5) [OF ok]
  have m: "in_i64 m" using c by simp
  have "reserved_sum (en_reservations en) a x = 0"
    unfolding reserved_sum_def using c by (intro sum_list_zero) (auto simp: share_def list_all_iff)
  then have none: "accounts.reserved_of (sim_accounts sim) (en_accounts en) a x = 0"
    using fundsD(2) [OF orders_okD(1) [OF ledger_invD(5) [OF engine_okD(1) [OF ok]]]] by simp
  have "engine_ok sim n (en\<lparr>en_accounts := fst (set_balance (sim_accounts sim) a x m (en_accounts en))\<rparr>)"
    by (rule engine_setup [OF ok set_balance_law(1) [OF st m] set_balance_reserved [OF st m none]])
      (simp add: has_account_iff [OF st] has_account_iff [OF set_balance_law(1) [OF st m]] set_balance_agents del: list.set_map)
  then show ?thesis by (simp add: engine_set_balance_def case_prod_beta)
qed

text \<open>A new market is empty and its id unused.\<close>

lemma resting_new: "resting (ms @ [new_market_state c m key]) = resting ms"
proof -
  let ?f = "\<lambda>ms i. book_lives (of_nat i) (ladder (mk_matching_book (ms ! i)))"
  have "?f (ms @ [new_market_state c m key]) (length ms) = []"
    by (simp add: new_market_state_def book_lives_def ladder_lives_def new_book_inv(2))
  moreover have old: "map (?f (ms @ [new_market_state c m key])) [0..<length ms] = map (?f ms) [0..<length ms]"
    by (rule map_cong) (simp_all add: nth_append)
  ultimately show ?thesis
    unfolding resting_def length_append_singleton upt_Suc_append [OF le0] map_append concat_append old by simp
qed

lemma register_market_ok:
  assumes ok: "engine_ok sim n en" and sim: "sim_ok sim"
  shows "engine_ok sim n (fst (register_market sim key en))"
proof (cases "find_market key (en_market_registry en) = None \<and> length (en_market_states en) \<noteq> market_capacity sim")
  case False
  then show ?thesis using ok by (auto simp: register_market_def split: option.splits)
next
  case True
  let ?ms = "en_market_states en" and ?m = "of_nat (length (en_market_states en)) :: market_id"
  let ?ms' = "?ms @ [new_market_state (sim_book sim) ?m key]"
  let ?reg = "fst (register_key key (en_market_registry en))"
  note d = engine_okD [OF ok]
  have keys: "mg_market_keys (en_market_registry en) = map mk_market_key ?ms" "length ?ms < market_capacity sim"
    using d(4) True by (auto simp: markets_registered_def)
  have reg: "snd (register_key key (en_market_registry en)) = ?m" "mg_market_keys ?reg = map mk_market_key ?ms @ [key]"
    using True keys(1) by (simp_all add: register_key_def find_market_def Let_def)
  have eq: "fst (register_market sim key en) = en\<lparr>en_market_registry := ?reg, en_market_states := ?ms'\<rparr>"
    using True reg(1) by (simp add: register_market_def case_prod_beta)
  have room: "length ?ms < 2 ^ 32" using keys(2) sim by (simp add: sim_ok_def)
  have named: "markets_named ?ms'"
    using ledger_invD(4) [OF d(1)] room by (auto simp: markets_named_def nth_append new_market_state_def less_Suc_eq)
  have specs: "specs_of ?ms m = Some spec \<Longrightarrow> specs_of ?ms' m = Some spec" for m spec
    by (auto simp: specs_of_def nth_append split: if_splits)
  have "orders_ok sim (specs_of ?ms') (en_accounts en) (en_reservations en) (unat (en_next_order_id en)) (running en)
      (pending (en_scheduler en) @ resting ?ms)"
    using orders_ok_setup [OF ledger_invD(5) [OF d(1)] d(5)] specs by blast
  then have "ledger_inv sim (resting ?ms') n (en\<lparr>en_market_registry := ?reg, en_market_states := ?ms'\<rparr>)"
    using ledger_invD(1-4) [OF d(1)] named unfolding resting_new by (simp add: ledger_inv_def running_def)
  moreover have "books_ok sim (en\<lparr>en_market_registry := ?reg, en_market_states := ?ms'\<rparr>)"
    using d(2) by (auto simp: books_ok_def new_market_state_def new_book_inv(1))
  moreover have "markets_registered sim (en\<lparr>en_market_registry := ?reg, en_market_states := ?ms'\<rparr>)"
    using keys reg(2) by (simp add: markets_registered_def new_market_state_def)
  ultimately show ?thesis
    using d(3) unfolding eq by (simp add: engine_ok_def engine_inv_def events_fit_def)
qed

text \<open>A spec changes only while no reservation depends on it.\<close>

lemma set_spec_ok:
  assumes ok: "engine_ok sim n en"
  shows "engine_ok sim n (fst (set_market_product_spec sim m spec en))"
proof (cases "snd (set_market_product_spec sim m spec en)")
  case False
  then show ?thesis using ok by (auto simp: set_market_product_spec_def split: option.splits if_splits)
next
  case True
  then obtain i where i: "market_index en m = Some i" "\<not> market_product_spec_locked en m (en_market_states en ! i)"
      "fst (set_market_product_spec sim m spec en) = upd_market i (\<lambda>s. s\<lparr>mk_product_spec := spec\<rparr>) en"
    by (auto simp: set_market_product_spec_def split: option.splits if_splits)
  let ?ms = "en_market_states en"
  let ?ms' = "?ms[i := (?ms ! i)\<lparr>mk_product_spec := spec\<rparr>]"
  note mi = market_index_Some [OF i(1)]
  note d = engine_okD [OF ok]
  have free: "rv_market_id r \<noteq> m" if "r \<in> set (en_reservations en)" "rv_active r" for r
    using i(2) that by (auto simp: market_product_spec_locked_def has_active_reservation_for_market_def list_ex_iff)
  have specs: "specs_of ?ms' m' = specs_of ?ms m'" if "m' \<noteq> m" for m'
    using that mi by (auto simp: specs_of_def nth_list_update word_unat_eq_iff)
  have nth: "mk_market_id (?ms' ! k) = mk_market_id (?ms ! k)" "mk_market_key (?ms' ! k) = mk_market_key (?ms ! k)"
      "mk_matching_book (?ms' ! k) = mk_matching_book (?ms ! k)" if "k < length ?ms" for k
    using that mi by (simp_all add: nth_list_update)
  have "orders_ok sim (specs_of ?ms') (en_accounts en) (en_reservations en) (unat (en_next_order_id en)) (running en)
      (pending (en_scheduler en) @ resting ?ms)"
    using orders_ok_setup [OF ledger_invD(5) [OF d(1)] d(5)] specs free by metis
  moreover have "resting ?ms' = resting ?ms"
    unfolding resting_def length_list_update by (intro arg_cong [of _ _ concat] map_cong) (simp_all add: nth)
  ultimately have "ledger_inv sim (resting ?ms') n (en\<lparr>en_market_states := ?ms'\<rparr>)"
    using ledger_invD(1-4) [OF d(1)] nth(1) by (simp add: ledger_inv_def running_def markets_named_def)
  moreover have "books_ok sim (en\<lparr>en_market_states := ?ms'\<rparr>)"
    using d(2) nth(3) by (simp add: books_ok_def all_set_conv_all_nth)
  moreover have "map mk_market_key ?ms' = map mk_market_key ?ms"
    using nth(2) by (intro nth_equalityI) simp_all
  then have "markets_registered sim (en\<lparr>en_market_states := ?ms'\<rparr>)"
    using d(4) by (simp add: markets_registered_def)
  ultimately show ?thesis
    using d(3) unfolding i(3) upd_market_def by (simp add: engine_ok_def engine_inv_def events_fit_def)
qed

lemma set_latency_ok:
  assumes ok: "engine_ok sim n en"
  shows "engine_ok sim n (fst (set_latency slot m model en))"
proof -
  have "engine_ok sim n (fst (configure_latency put m model en))"
    if put: "\<And>model s. market_core (put model s) = market_core s" for put
  proof -
    have "engine_ok sim n (upd_market i (put model) en)" for i
      using upd_market_ledger [OF engine_okD(1) [OF ok], of "put model" i] put agent_event_frame engine_frame_ok [OF ok] by blast
    then show ?thesis
      using ok by (auto simp: configure_latency_def split: option.split)
  qed
  then show ?thesis
    by (cases slot) (simp_all add: set_market_latency_model_def set_order_entry_latency_model_def
        set_cancel_latency_model_def set_market_data_latency_model_def market_core_def)
qed

subsection \<open>Agents, subscribers and the rest\<close>

lemma engine_plain:
  assumes "engine_ok sim n en"
  shows "engine_ok sim n (en\<lparr>en_agent_slots := slots\<rparr>)" "engine_ok sim n (en\<lparr>en_subscribers := subs\<rparr>)"
    "engine_ok sim n (en\<lparr>en_agents_started := started\<rparr>)"
  using assms by (simp_all add: engine_ok_def engine_inv_def ledger_inv_def running_def books_ok_def events_fit_def
      markets_registered_def)

lemma agent_step_ok:
  assumes ok: "engine_ok sim n en"
    and step: "ledger_inv sim (resting (en_market_states en)) n en' \<and> agent_frame en en' \<and> same_totals sim en en'"
  shows "engine_ok sim n en'"
  using engine_frame_ok [OF ok _ agent_event_frame] step by blast

lemma start_slots_ok: "n < 2 ^ 64 \<Longrightarrow> engine_ok sim n en \<Longrightarrow> engine_ok sim n (fst (start_slots sim slots en))"
proof (induction slots arbitrary: en)
  case (Cons slot slots)
  have "engine_ok sim n (call_agent sim ag a On_start en)" for ag a
    using agent_step_ok [OF Cons.prems(2) call_agent_ledger [OF Cons.prems(1) engine_okD(1) [OF Cons.prems(2)]]] .
  then show ?case
    using Cons by (auto simp: Let_def split: option.split bool.split)
qed simp

lemma perform_ok:
  assumes ok: "engine_ok sim n en" and n: "n < 2 ^ 64" and sim: "sim_ok sim" and c: "careful call en"
  shows "engine_ok sim n (perform sim call en)"
proof (cases call)
  case (Register_agent a agent)
  then show ?thesis using ok engine_plain(1) [OF ok] by (auto simp: register_agent_def)
next
  case (Schedule_wakeup_call a t)
  then show ?thesis using agent_step_ok [OF ok wakeup_ledger [OF engine_okD(1) [OF ok]]] by simp
next
  case (Subscribe a)
  then show ?thesis using ok engine_plain(2) [OF ok] by (auto simp: register_market_data_subscriber_def split: option.split)
next
  case (Subscribe_feed a feed)
  then show ?thesis using ok engine_plain(2) [OF ok] by (auto simp: register_market_data_feed_def split: option.split)
next
  case (Submit_call rq)
  have "engine_ok sim n (fst (submit_order sim rq en))"
    using submit_order_ledger [OF engine_okD(1) [OF ok] n] by (intro agent_step_ok [OF ok]) blast
  then show ?thesis using Submit_call by simp
next
  case (Cancel_call rq)
  then show ?thesis using agent_step_ok [OF ok cancel_order_ledger [OF engine_okD(1) [OF ok]]] by simp
next
  case Start_call
  then show ?thesis using ok start_slots_ok [OF n engine_plain(3) [OF ok]] by (simp add: start_def)
qed (use ok c sim register_market_ok register_account_ok set_balance_ok set_spec_ok set_latency_ok in \<open>simp_all\<close>)

lemma event_ok:
  assumes ok: "engine_ok sim n en" and n: "Suc n < 2 ^ 64" and sim: "sim_ok sim" and tot: "totals_fit sim en" and due: "next_due t en = Some (e, en1)"
  shows "\<exists>en'. handle_event sim e en1 = Some en' \<and> engine_ok sim (Suc n) en' \<and> engine_frame sim en1 en'"
proof -
  have inv: "engine_inv sim n en" using ok by (simp add: engine_ok_def)
  obtain s' where s': "en1 = en\<lparr>en_scheduler := s', en_current_time_ns := se_timestamp_ns e\<rparr>"
    using next_due_Some [OF due ledger_invD(1) [OF engine_invD(1) [OF inv]]] by blast
  have "markets_registered sim en1"
    using ok by (simp add: s' engine_ok_def markets_registered_def)
  then show ?thesis
    using handle_event_inv [OF inv n sim tot due] registered_frame unfolding engine_ok_def by blast
qed

lemma clear_ok:
  assumes ok: "engine_ok sim n en" and none: "no_order_in_flight en"
  shows "engine_ok sim (n + scheduler_capacity sim) (clear_events en)"
proof -
  note d = ledger_invD [OF engine_okD(1) [OF ok]]
  have p: "pending (en_scheduler en) = []" "pending empty_scheduler = []"
    using none by (simp_all add: pending_def no_order_in_flight_def filter_empty_conv list_all_iff empty_scheduler_fields)
  have "ledger_inv sim (resting (en_market_states (clear_events en))) (n + scheduler_capacity sim) (clear_events en)"
    using d p unfolding ledger_inv_def clear_events_def clear_scheduler_eq
    by (simp add: empty_scheduler_fields available_capacity_def running_def)
  then show ?thesis
    using ok by (simp add: engine_ok_def engine_inv_def books_ok_def events_fit_def markets_registered_def clear_events_def)
qed

theorem reaches_ok:
  assumes sim: "sim_ok sim"
  shows "reaches sim mem n en \<Longrightarrow> n < 2 ^ 64 \<Longrightarrow> engine_ok sim n en"
proof (induction rule: reaches.induct)
  case fresh
  show ?case by (rule new_engine_ok)
next
  case (client n en call)
  then show ?case using perform_ok [OF _ _ sim] by blast
next
  case (event n en t e en1 en')
  then have "engine_ok sim n en" by simp
  from event_ok [OF this event.prems sim event.hyps(2,3)] event.hyps(4) show ?case by auto
next
  case (clear n en)
  then show ?case using clear_ok by simp
qed

end
