(* ===== verification/EngineAudit.thy ===== *)
theory EngineAudit
  imports EngineSetup
begin

section \<open>The engine's own audit\<close>

text \<open>
  \<open>SimulationEngine\<close> comes with a self-check, \<open>accounting_invariants_hold\<close>: the
  reserved part of every balance is the sum of that agent's reservations, and every
  reservation names a market and an account and, once nothing is scheduled any more,
  an order in a book. It holds in every running engine the client calls reach.
\<close>

record reservation_view =
  vw_order_id :: order_id
  vw_agent_id :: agent_id
  vw_market_id :: market_id
  vw_side :: side
  vw_reserve_asset_id :: asset_id
  vw_price_ticks :: int
  vw_reserved_amount_lots :: int

definition reservation_count :: "'m engine \<Rightarrow> nat" where
  "reservation_count en = length (filter rv_active (en_reservations en))"

definition reservation_by_order_id :: "'m engine \<Rightarrow> order_id \<Rightarrow> reservation_view option" where
  "reservation_by_order_id en order_id =
     (case find_reservation en order_id of
        None \<Rightarrow> None
      | Some i \<Rightarrow>
          let r = en_reservations en ! i in
          Some \<lparr>vw_order_id = rv_order_id r, vw_agent_id = rv_agent_id r, vw_market_id = rv_market_id r,
            vw_side = rv_side r, vw_reserve_asset_id = rv_reserve_asset_id r, vw_price_ticks = rv_price_ticks r,
            vw_reserved_amount_lots = rv_reserved_amount_lots r\<rparr>)"

definition total_reserved_lots :: "'m engine \<Rightarrow> agent_id \<Rightarrow> asset_id \<Rightarrow> int" where
  "total_reserved_lots en a x = sum_list (map rv_reserved_amount_lots
     (filter (\<lambda>r. rv_active r \<and> rv_agent_id r = a \<and> rv_reserve_asset_id r = x) (en_reservations en)))"

definition snapshot_settled :: "'m simulation \<Rightarrow> 'm engine \<Rightarrow> nat \<Rightarrow> bool" where
  "snapshot_settled sim en i =
     (case account_snapshot_at (sim_accounts sim) (en_accounts en) i of
        None \<Rightarrow> False
      | Some s \<Rightarrow> 0 \<le> reserved_lots (as_balance s)
          \<and> reserved_lots (as_balance s) = total_reserved_lots en (as_agent_id s) (as_asset_id s))"

definition reservation_settled :: "'m engine \<Rightarrow> order_reservation \<Rightarrow> bool" where
  "reservation_settled en r =
     (\<not> rv_active r \<or>
      (case market_index en (rv_market_id r) of
         None \<Rightarrow> False
       | Some i \<Rightarrow>
           let state = en_market_states en ! i in
           has_account (en_accounts en) (rv_agent_id r)
           \<and> rv_reserve_asset_id r = reservation_asset (mk_product_spec state) (rv_side r)
           \<and> 0 \<le> rv_reserved_amount_lots r
           \<and> \<not> (sc_heap (en_scheduler en) = [] \<and> remaining_quantity (mk_matching_book state) (rv_order_id r) = None)))"

definition accounting_invariants_hold :: "'m simulation \<Rightarrow> 'm engine \<Rightarrow> bool" where
  "accounting_invariants_hold sim en =
     (list_all (snapshot_settled sim en) [0..<account_snapshot_count (sim_accounts sim) (en_accounts en)]
      \<and> list_all (reservation_settled en) (en_reservations en))"

subsection \<open>The ledger passes the audit\<close>

lemma total_reserved_sum: "total_reserved_lots en a x = reserved_sum (en_reservations en) a x"
proof -
  have "sum_list (map rv_reserved_amount_lots (filter (\<lambda>r. rv_active r \<and> rv_agent_id r = a \<and> rv_reserve_asset_id r = x) rs))
      = reserved_sum rs a x" for rs
    by (induction rs) (auto simp: reserved_sum_def share_def)
  then show ?thesis by (simp add: total_reserved_lots_def)
qed

lemma snapshots_settled:
  assumes funds: "funds_ok sim en" and cap: "asset_capacity (sim_accounts sim) \<le> 2 ^ 16"
    and i: "i < account_snapshot_count (sim_accounts sim) (en_accounts en)"
  shows "snapshot_settled sim en i"
proof -
  let ?n = "asset_capacity (sim_accounts sim)" and ?st = "en_accounts en"
  let ?a = "?st ! (i div ?n)" and ?x = "word_of_nat (i mod ?n) :: asset_id"
  note ok = fundsD(1) [OF funds]
  have n: "0 < ?n" using i by (cases "?n = 0") (simp_all add: account_snapshot_count_def)
  then have len: "i div ?n < length ?st"
    using i by (simp add: account_snapshot_count_def less_mult_imp_div_less)
  have m: "i mod ?n < ?n" using n by simp
  then have x: "unat ?x = i mod ?n" using cap by (simp add: unat_of_nat)
  have "find_account_index ?st (ac_agent_id ?a) = Some (i div ?n)"
    using find_account_Some [OF ok] len by simp
  then have b: "balance (sim_accounts sim) ?st (ac_agent_id ?a) ?x = Some (ac_balances ?a ! unat ?x)"
    using m x by (simp add: balance_def valid_asset_def)
  have snap: "account_snapshot_at (sim_accounts sim) ?st i
      = Some \<lparr>as_agent_id = ac_agent_id ?a, as_asset_id = ?x, as_balance = ac_balances ?a ! unat ?x\<rparr>"
    using i by (simp add: account_snapshot_at_def Let_def)
  have "reserved_lots (ac_balances ?a ! unat ?x) = reserved_sum (en_reservations en) (ac_agent_id ?a) ?x"
    using fundsD(2) [OF funds, of "ac_agent_id ?a" ?x] b by (simp add: accounts.reserved_of_def)
  moreover have "0 \<le> reserved_lots (ac_balances ?a ! unat ?x)"
    using balance_ok_lookup [OF ok b] by (simp add: balance_ok_def)
  ultimately show ?thesis
    by (simp add: snapshot_settled_def snap total_reserved_sum)
qed

lemma resting_remaining:
  assumes v: "(oid, m, s, q) \<in> set (resting ms)" and named: "markets_named ms" and books: "\<forall>s\<in>set ms. book_inv c (mk_matching_book s)"
  shows "unat m < length ms \<and> remaining_quantity (mk_matching_book (ms ! unat m)) oid \<noteq> None"
proof -
  obtain i where i: "i < length ms" "(oid, m, s, q) \<in> set (book_lives (of_nat i) (ladder (mk_matching_book (ms ! i))))"
    using v by (auto simp: resting_def)
  then obtain s' order p where o: "(order, p, q) \<in> set (flatten_ladder (ladder (mk_matching_book (ms ! i)) s'))"
      "oid = so_order_id order" "m = of_nat i"
    by (auto simp: book_lives_def ladder_lives_mem)
  have "i < 2 ^ 32" using i(1) named by (simp add: markets_named_def)
  then have m: "unat m = i" using o(3) by (simp add: unat_of_nat)
  have "oid \<in> ladder_ids (ladder (mk_matching_book (ms ! i)) s')"
    using o by (force simp: flatten_ladder_def ladder_ids_def)
  then have "find_slot (mk_matching_book (ms ! i)) oid \<noteq> None"
    using find_slot_ladder books i(1) nth_mem by blast
  then show ?thesis using i(1) m by (simp add: remaining_quantity_def)
qed

lemma reservations_settled:
  assumes ok: "engine_ok sim n en" and run: "running en" and r: "r \<in> set (en_reservations en)"
  shows "reservation_settled en r"
proof (cases "rv_active r")
  case True
  note d = engine_okD [OF ok]
  note o = ledger_invD(5) [OF d(1)]
  let ?ms = "en_market_states en"
  obtain spec where spec: "specs_of ?ms (rv_market_id r) = Some spec"
      "rv_reserve_asset_id r = reservation_asset spec (rv_side r)" "has_account (en_accounts en) (rv_agent_id r)"
    using orders_okD(4) [OF o r True] by (auto simp: reservation_ok_def)
  then have i: "market_index en (rv_market_id r) = Some (unat (rv_market_id r))"
      "spec = mk_product_spec (?ms ! unat (rv_market_id r))"
    by (auto simp: specs_of_def market_index_def split: if_splits)
  obtain q where q: "(rv_order_id r, rv_market_id r, rv_side r, q) \<in> set (pending (en_scheduler en) @ resting ?ms)"
    using orders_okD(5) [OF o run r True] unfolding backed_def by blast
  have "remaining_quantity (mk_matching_book (?ms ! unat (rv_market_id r))) (rv_order_id r) \<noteq> None"
    if "sc_heap (en_scheduler en) = []"
    using resting_remaining [OF _ ledger_invD(4) [OF d(1)], of "rv_order_id r" "rv_market_id r" "rv_side r" q] q d(2) that
    by (auto simp: pending_def books_ok_def)
  then show ?thesis
    using i spec fundsD(3) [OF orders_okD(1) [OF o] r True] by (simp add: reservation_settled_def Let_def)
qed (simp add: reservation_settled_def)

lemma audit_passes:
  assumes "engine_ok sim n en" "sim_ok sim" "running en"
  shows "accounting_invariants_hold sim en"
  using snapshots_settled [OF orders_okD(1) [OF ledger_invD(5) [OF engine_okD(1) [OF assms(1)]]]]
    reservations_settled [OF assms(1,3)] assms(2)
  by (simp add: accounting_invariants_hold_def list_all_iff sim_ok_def)

end
