(* ===== verification/EngineRuns.thy ===== *)
theory EngineRuns
  imports EngineAudit
begin

section \<open>Runs of the event loop\<close>

text \<open>
  \<open>run_until\<close> step by step. \<open>run_steps\<close> handles at most a number of due events; the
  loop returns exactly when some number of steps leaves nothing due.
\<close>

fun run_steps :: "'m simulation \<Rightarrow> time_ns \<Rightarrow> nat \<Rightarrow> 'm engine \<Rightarrow> 'm engine option" where
  "run_steps sim t 0 en = Some en"
| "run_steps sim t (Suc k) en =
     (case next_due t en of
        None \<Rightarrow> Some en
      | Some (e, en) \<Rightarrow>
          (case handle_event sim e en of None \<Rightarrow> None | Some en \<Rightarrow> run_steps sim t k en))"

text \<open>No total has wrapped in any of the engines that \<open>k\<close> steps start from.\<close>

fun steps_fit :: "'m simulation \<Rightarrow> time_ns \<Rightarrow> nat \<Rightarrow> 'm engine \<Rightarrow> bool" where
  "steps_fit sim t 0 en = True"
| "steps_fit sim t (Suc k) en =
     (totals_fit sim en
      \<and> (case next_due t en of
           None \<Rightarrow> True
         | Some (e, en) \<Rightarrow> (case handle_event sim e en of None \<Rightarrow> True | Some en \<Rightarrow> steps_fit sim t k en)))"

lemma steps_fit_deep: "uses_deep_level_index (sim_book sim) \<Longrightarrow> steps_fit sim t k en"
  by (induction k arbitrary: en) (simp_all add: totals_fit_deep split: option.split)

lemma run_until_steps: "run_steps sim t k en = Some en' \<Longrightarrow> next_due t en' = None \<Longrightarrow> run_until sim t en = Some en'"
proof (induction k arbitrary: en)
  case 0
  then show ?case by (subst run_until.simps) simp
next
  case (Suc k)
  then show ?case by (subst run_until.simps) (auto split: option.splits prod.splits)
qed

lemma steps_of_run_until: "run_until sim t en = Some en' \<Longrightarrow> \<exists>k. run_steps sim t k en = Some en' \<and> next_due t en' = None"
proof (rule run_until.raw_induct [of "\<lambda>sim t en en'. \<exists>k. run_steps sim t k en = Some en' \<and> next_due t en' = None" sim t en en'])
  fix loop :: "'a simulation \<Rightarrow> time_ns \<Rightarrow> 'a engine \<Rightarrow> 'a engine option" and sim t en en'
  assume IH: "\<And>sim t en en'. loop sim t en = Some en' \<Longrightarrow> \<exists>k. run_steps sim t k en = Some en' \<and> next_due t en' = None"
    and out: "(case next_due t en of None \<Rightarrow> Some en
        | Some (e, en) \<Rightarrow> (case handle_event sim e en of None \<Rightarrow> None | Some en \<Rightarrow> loop sim t en)) = Some en'"
  show "\<exists>k. run_steps sim t k en = Some en' \<and> next_due t en' = None"
  proof (cases "next_due t en")
    case None
    then show ?thesis using out by (auto intro: exI [of _ 0])
  next
    case (Some p)
    then obtain e en1 en2 where s: "next_due t en = Some (e, en1)" "handle_event sim e en1 = Some en2" "loop sim t en2 = Some en'"
      using out by (cases p) (auto split: option.splits)
    then obtain k where "run_steps sim t k en2 = Some en'" "next_due t en' = None"
      using IH by blast
    then show ?thesis using s by (intro exI [of _ "Suc k"]) simp
  qed
qed

lemma run_until_iff: "run_until sim t en = Some en' \<longleftrightarrow> (\<exists>k. run_steps sim t k en = Some en' \<and> next_due t en' = None)"
  using run_until_steps steps_of_run_until by blast

lemma run_steps_reaches:
  "reaches sim mem n en \<Longrightarrow> steps_fit sim t k en \<Longrightarrow> run_steps sim t k en = Some en' \<Longrightarrow> \<exists>j\<le>k. reaches sim mem (n + j) en'"
proof (induction k arbitrary: n en)
  case (Suc k)
  show ?case
  proof (cases "next_due t en")
    case (Some p)
    then obtain e en1 en2 where s: "next_due t en = Some (e, en1)" "handle_event sim e en1 = Some en2" "run_steps sim t k en2 = Some en'"
        "totals_fit sim en" "steps_fit sim t k en2"
      using Suc.prems by (cases p) (auto split: option.splits)
    from Suc.IH [OF reaches.event [OF Suc.prems(1) s(4,1,2)] s(5,3)] show ?thesis
      by (metis add_Suc_right add_Suc_shift Suc_le_mono)
  qed (use Suc.prems in auto)
qed (use le0 in \<open>metis add_0_right option.inject run_steps.simps(1)\<close>)

text \<open>Every bounded run returns, keeps the invariant, and conserves the assets up to fees.\<close>

lemma run_steps_ok:
  assumes sim: "sim_ok sim"
  shows "engine_ok sim n en \<Longrightarrow> steps_fit sim t k en \<Longrightarrow> n + k < 2 ^ 64 \<Longrightarrow>
    \<exists>en' j. run_steps sim t k en = Some en' \<and> j \<le> k \<and> engine_ok sim (n + j) en' \<and> money_frame sim en en'"
proof (induction k arbitrary: n en)
  case 0
  then show ?case using event_frame_engine [OF event_frame_refl] by (auto simp: engine_frame_def)
next
  case (Suc k)
  show ?case
  proof (cases "next_due t en")
    case None
    then show ?thesis
      using Suc.prems event_frame_engine [OF event_frame_refl]
      by (intro exI [of _ en] exI [of _ 0]) (simp add: engine_frame_def)
  next
    case (Some p)
    obtain e en1 where due: "next_due t en = Some (e, en1)" using Some by (cases p) auto
    obtain s' where s': "en1 = en\<lparr>en_scheduler := s', en_current_time_ns := se_timestamp_ns e\<rparr>"
      using next_due_Some [OF due ledger_invD(1) [OF engine_okD(1) [OF Suc.prems(1)]]] by blast
    obtain en2 where en2: "handle_event sim e en1 = Some en2" "engine_ok sim (Suc n) en2" "engine_frame sim en1 en2"
      using event_ok [OF Suc.prems(1) _ sim _ due] Suc.prems(2,3) by auto
    have m: "money_frame sim en en2"
      using en2(3) by (simp add: s' engine_frame_def money_frame_def halted_def)
    obtain en' j where "run_steps sim t k en2 = Some en'" "j \<le> k" "engine_ok sim (Suc n + j) en'" "money_frame sim en2 en'"
      using Suc.IH [OF en2(2)] Suc.prems(2,3) due en2(1) by auto
    then show ?thesis
      using due en2(1) money_frame_trans [OF m] by (intro exI [of _ en'] exI [of _ "Suc j"]) simp
  qed
qed

end
