(* ===== verification/EngineTermination.thy ===== *)
theory EngineTermination
  imports EngineRuns
begin

section \<open>Runs with observing agents end\<close>

text \<open>
  An agent that only reads may be called at every fill and every wakeup and still
  schedules nothing. With such agents each handled event makes the scheduler's load
  smaller: an order or a cancel is worth one more than the market data it can cause,
  anything else is worth one. So \<open>run_until\<close> returns, after at most \<open>load\<close> events.
\<close>

primrec reads_only :: "'m agent_action \<Rightarrow> bool" where
  "reads_only (Finish m) = True"
| "reads_only (Submit_order rq k) = False"
| "reads_only (Cancel_order rq k) = False"
| "reads_only (Schedule_wakeup t k) = False"
| "reads_only (Read_time k) = (\<forall>t. reads_only (k t))"
| "reads_only (Read_depth m k) = (\<forall>d. reads_only (k d))"
| "reads_only (Read_balance x k) = (\<forall>b. reads_only (k b))"

definition observing :: "'m simulation \<Rightarrow> bool" where
  "observing sim \<longleftrightarrow> (\<forall>agent a signal mem. reads_only (sim_agents sim agent a signal mem))"

definition weight :: "nat \<Rightarrow> scheduled_event \<Rightarrow> nat" where
  "weight subs e = (if se_kind e = OrderArrivesAtMarket \<or> se_kind e = CancelArrivesAtMarket then Suc subs else 1)"

definition load :: "nat \<Rightarrow> scheduler \<Rightarrow> nat" where
  "load subs s = sum_list (map (weight subs) (sc_heap s))"

definition engine_load :: "'m engine \<Rightarrow> nat" where
  "engine_load en = load (length (en_subscribers en)) (en_scheduler en)"

lemma load_mset: "load subs s = sum_mset (image_mset (weight subs) (mset (sc_heap s)))"
  by (simp add: load_def sum_mset_sum_list flip: mset_map)

lemma push_load: "load subs (fst (push cap e s)) \<le> load subs s + weight subs e"
  by (simp add: load_mset push_def Let_def sift_up_mset weight_def)

subsection \<open>What schedules nothing\<close>

definition ahead :: "'m engine \<Rightarrow> scheduler \<times> nat" where
  "ahead en = (en_scheduler en, length (en_subscribers en))"

named_theorems quiet

lemma reads_only_memory: "reads_only act \<Longrightarrow> \<exists>m. run_agent sim a act en = en\<lparr>en_agent_memory := m\<rparr>"
proof (induction act arbitrary: en)
  case (Finish m)
  show ?case by (rule exI [of _ m]) (simp only: run_agent.simps)
next
  case (Read_time k)
  then show ?case by (simp only: reads_only.simps run_agent.simps) (blast intro: Read_time.IH [OF rangeI])
next
  case (Read_depth m k)
  then show ?case by (simp only: reads_only.simps run_agent.simps) (blast intro: Read_depth.IH [OF rangeI])
next
  case (Read_balance x k)
  then show ?case by (simp only: reads_only.simps run_agent.simps) (blast intro: Read_balance.IH [OF rangeI])
qed (simp_all only: reads_only.simps)

lemma quiet_call [quiet]: "observing sim \<Longrightarrow> ahead (call_agent sim agent a signal en) = ahead en"
proof -
  assume "observing sim"
  then obtain m where "call_agent sim agent a signal en = en\<lparr>en_agent_memory := m\<rparr>"
    using reads_only_memory [of "sim_agents sim agent a signal (en_agent_memory en)" sim a en]
    by (auto simp: call_agent_def observing_def)
  then show ?thesis by (simp add: ahead_def)
qed

lemma quiet_notify [quiet]: "observing sim \<Longrightarrow> ahead (notify_agent sim signal a en) = ahead en"
  by (simp add: notify_agent_def quiet split: option.split)

lemma quiet_fields [quiet]:
  "ahead (en\<lparr>en_accounts := st\<rparr>) = ahead en" "ahead (en\<lparr>en_reservations := rs\<rparr>) = ahead en"
  "ahead (en\<lparr>en_status := status\<rparr>) = ahead en" "ahead (en\<lparr>en_accounting_failure_count := n\<rparr>) = ahead en"
  "ahead (en\<lparr>en_market_states := ms\<rparr>) = ahead en" "ahead (en\<lparr>en_match_results := mrs\<rparr>) = ahead en"
  "ahead (en\<lparr>en_cancel_results := crs\<rparr>) = ahead en" "ahead (en\<lparr>en_accounting_events := es\<rparr>) = ahead en"
  "ahead (en\<lparr>en_match_result_sink_overflow := b\<rparr>) = ahead en" "ahead (en\<lparr>en_cancel_result_sink_overflow := b\<rparr>) = ahead en"
  "ahead (en\<lparr>en_accounting_event_sink_overflow := b\<rparr>) = ahead en"
  "ahead (en\<lparr>en_market_data_overflow := b\<rparr>) = ahead en" "ahead (en\<lparr>en_visible_depths := ds\<rparr>) = ahead en"
  "ahead (en\<lparr>en_unknown_agent_wakeup_count := n\<rparr>) = ahead en" "ahead (en\<lparr>en_processed_event_count := n\<rparr>) = ahead en"
  by (simp_all add: ahead_def)

lemma quiet_halt [quiet]: "ahead (halt status en) = ahead en"
  by (simp add: halt_def quiet)

lemma quiet_sinks [quiet]:
  "ahead (record_accounting_failure en) = ahead en" "ahead (append_match_result sim r en) = ahead en"
  "ahead (append_cancel_result sim cr en) = ahead en" "ahead (append_accounting_event sim ae en) = ahead en"
  "ahead (record_accounting_sink_overflow en) = ahead en" "ahead (market_data_overflow en) = ahead en"
  by (simp_all add: record_accounting_failure_def append_match_result_def append_cancel_result_def
      append_accounting_event_def record_accounting_sink_overflow_def market_data_overflow_def quiet)

lemma quiet_parts [quiet]:
  "ahead (set_reservation i r en) = ahead en" "ahead (set_accounts st en) = ahead en"
  "ahead (reduce_reservation i n en) = ahead en" "ahead (remove_empty_reservation i en) = ahead en"
  "ahead (upd_market i f en) = ahead en"
  by (simp_all add: set_reservation_def set_accounts_def reduce_reservation_def remove_empty_reservation_def
      upd_market_def Let_def quiet)

lemma quiet_release [quiet]: "ahead (fst (release_and_remove_reservation sim oid en)) = ahead en"
  by (simp add: release_and_remove_reservation_def Let_def case_prod_beta quiet split: option.split)

lemma quiet_surplus [quiet]: "ahead (fst (release_surplus sim i n en)) = ahead en"
  by (simp add: release_surplus_def Let_def case_prod_beta quiet split: bool.split)

lemma quiet_consume [quiet]: "ahead (fst (consume_fill_reservation sim oid n m en)) = ahead en"
  by (simp add: consume_fill_reservation_def Let_def case_prod_beta quiet split: option.split bool.split)

lemma quiet_credit [quiet]: "ahead (fst (credit sim a x n en)) = ahead en"
  by (simp add: credit_def case_prod_beta quiet split: bool.split)

lemma quiet_settle_fill [quiet]: "ahead (fst (settle_fill sim spec t n en)) = ahead en"
  by (simp add: settle_fill_def case_prod_beta quiet split: bool.split)

lemma quiet_fill [quiet]: "observing sim \<Longrightarrow> ahead (fst (apply_fill_accounting sim i e en)) = ahead en"
  by (simp add: apply_fill_accounting_def Let_def case_prod_beta quiet split: bool.split)

lemma quiet_executions [quiet]: "observing sim \<Longrightarrow> ahead (fst (account_executions sim i es en)) = ahead en"
  by (induction es arbitrary: en) (simp_all add: case_prod_beta quiet split: bool.split)

lemma quiet_match [quiet]: "observing sim \<Longrightarrow> ahead (apply_match_accounting sim e r en) = ahead en"
  by (simp add: apply_match_accounting_def case_prod_beta quiet split: option.split bool.split)

lemma quiet_draw_feed [quiet]: "ahead (fst (draw_feed_latency sim i k en)) = ahead en"
  by (simp add: draw_feed_latency_def Let_def case_prod_beta quiet) (simp add: ahead_def)

lemma quiet_cancel_notice [quiet]: "observing sim \<Longrightarrow> ahead (notify_cancel sim e b q en) = ahead en"
  by (simp add: notify_cancel_def quiet)

lemma quiet_data_arrival [quiet]: "ahead (handle_market_data_arrival e en) = ahead en"
proof -
  have "ahead (fst (find_or_create_visible_depth_slot a m en)) = ahead en" for a m
    by (simp add: find_or_create_visible_depth_slot_def quiet split: option.split)
  then show ?thesis
    by (simp add: handle_market_data_arrival_def case_prod_beta quiet split: option.split)
qed

lemma quiet_wakeup [quiet]: "observing sim \<Longrightarrow> ahead (handle_agent_wakeup sim e en) = ahead en"
  by (simp add: handle_agent_wakeup_def Let_def quiet split: option.split)

subsection \<open>Market data\<close>

definition louder :: "nat \<Rightarrow> 'm engine \<Rightarrow> 'm engine \<Rightarrow> bool" where
  "louder n en en' \<longleftrightarrow> engine_load en' \<le> engine_load en + n \<and> length (en_subscribers en') = length (en_subscribers en)"

lemma quiet_louder: "ahead en' = ahead en \<Longrightarrow> louder n en en'"
  by (simp add: louder_def engine_load_def ahead_def)

lemma louder_trans: "louder n en en1 \<Longrightarrow> louder m en1 en2 \<Longrightarrow> louder (n + m) en en2"
  by (simp add: louder_def)

lemma push_depth_louder: "louder 1 en (fst (push_event sim (depth_arrival m a t snap) en))"
  using push_load [of "length (en_subscribers en)" "scheduler_capacity sim" "depth_arrival m a t snap" "en_scheduler en"]
  by (simp add: louder_def engine_load_def push_event_def case_prod_beta weight_def depth_arrival_def)

lemma publish_louder: "louder (length ks) en (publish_depth sim i t snap ks en)"
proof (induction ks arbitrary: en)
  case (Cons k ks)
  let ?d = "fst (draw_feed_latency sim i k en)"
  let ?p = "push_event sim (depth_arrival (mk_market_id (en_market_states ?d ! i)) (sb_agent_id (en_subscribers ?d ! k))
     (add_time_saturating t (snd (draw_feed_latency sim i k en))) snap) ?d"
  have one: "louder 1 en (fst ?p)"
    using louder_trans [OF quiet_louder [OF quiet_draw_feed, of 0] push_depth_louder] by simp
  have "louder (1 + length ks) en (publish_depth sim i t snap ks (fst ?p))"
    by (rule louder_trans [OF one Cons.IH])
  moreover have "louder (1 + length ks) en (market_data_overflow (fst ?p))"
    by (rule louder_trans [OF one quiet_louder]) (simp add: quiet)
  ultimately show ?case
    by (simp add: Let_def case_prod_beta)
qed (simp add: quiet_louder)

lemma market_data_louder: "louder (length (en_subscribers en)) en (schedule_market_data_update sim i t en)"
  using publish_louder [of "[0..<length (en_subscribers en)]" en sim i t]
  by (auto simp: schedule_market_data_update_def Let_def quiet intro: quiet_louder)

lemma later_data_louder: "ahead en' = ahead en \<Longrightarrow>
    louder (length (en_subscribers en)) en (schedule_market_data_update sim i t en')"
  using louder_trans [OF quiet_louder [of en' en 0] market_data_louder [of en' sim i t]] by (simp add: ahead_def)

subsection \<open>Handlers and runs\<close>

lemma dispatch_louder:
  assumes obs: "observing sim" and out: "dispatch_event sim (se_kind e) e en = Some en'"
  shows "louder (weight (length (en_subscribers en)) e - 1) en en'"
proof -
  have settle: "louder (length (en_subscribers en1)) en1 (settle_order sim i e r en1)" for i r and en1 :: "'a engine"
    using obs by (auto simp: settle_order_def Let_def quiet intro: later_data_louder quiet_louder)
  have book: "louder (length (en_subscribers en)) en (settle_order sim i e r (upd_market i f en))" for i r f
    using louder_trans [OF quiet_louder [of "upd_market i f en" en 0] settle [of "upd_market i f en" i r]]
    by (simp add: quiet) (simp add: upd_market_def)
  have cancel: "louder (length (en_subscribers en)) en (handle_cancel_arrival sim e en)"
    using obs by (auto simp: handle_cancel_arrival_def Let_def case_prod_beta quiet split: option.split
        intro: later_data_louder quiet_louder)
  show ?thesis
  proof (cases "se_kind e")
    case OrderArrivesAtMarket
    then show ?thesis
      using out book quiet_louder [of en en]
      by (auto simp: handle_order_arrival_def weight_def split: option.splits)
  next
    case CancelArrivesAtMarket
    then show ?thesis using out cancel by (simp add: weight_def)
  qed (use out obs in \<open>auto simp: weight_def quiet intro!: quiet_louder\<close>)
qed

lemma handled_load:
  assumes ok: "engine_ok sim n en" and obs: "observing sim" and due: "next_due t en = Some (e, en1)"
    and out: "handle_event sim e en1 = Some en2"
  shows "engine_load en2 < engine_load en"
proof -
  obtain s' where s': "en1 = en\<lparr>en_scheduler := s', en_current_time_ns := se_timestamp_ns e\<rparr>"
      "mset (sc_heap (en_scheduler en)) = add_mset e (mset (sc_heap s'))"
    using next_due_Some [OF due ledger_invD(1) [OF engine_okD(1) [OF ok]]] by blast
  have "engine_load en = weight (length (en_subscribers en)) e + engine_load en1"
    using s' by (simp add: engine_load_def load_mset)
  moreover obtain en3 where en3: "dispatch_event sim (se_kind e) e en1 = Some en3"
      "en2 = en3\<lparr>en_processed_event_count := en_processed_event_count en3 + 1\<rparr>"
    using out by (auto simp: handle_event_def)
  moreover have "engine_load en2 = engine_load en3"
    by (simp add: en3(2) engine_load_def)
  moreover have "0 < weight (length (en_subscribers en)) e" by (simp add: weight_def)
  moreover have "engine_load en3 \<le> engine_load en1 + (weight (length (en_subscribers en)) e - 1)"
    using dispatch_louder [OF obs en3(1)] s'(1) by (simp add: louder_def)
  ultimately show ?thesis by linarith
qed

lemma observed_run_ends:
  assumes sim: "sim_ok sim" and obs: "observing sim"
  shows "engine_ok sim n en \<Longrightarrow> steps_fit sim t k en \<Longrightarrow> engine_load en \<le> k \<Longrightarrow> n + k < 2 ^ 64 \<Longrightarrow>
    \<exists>en' j. run_steps sim t k en = Some en' \<and> next_due t en' = None \<and> j \<le> k \<and> engine_ok sim (n + j) en' \<and> money_frame sim en en'"
proof -
  assume ok: "engine_ok sim n en" and fit: "steps_fit sim t k en" and k: "engine_load en \<le> k" "n + k < 2 ^ 64"
  have stop: "engine_ok sim n en \<Longrightarrow> steps_fit sim t k en \<Longrightarrow> engine_load en \<le> k \<Longrightarrow> n + k < 2 ^ 64 \<Longrightarrow> run_steps sim t k en = Some en' \<Longrightarrow>
      next_due t en' = None" for n en en' k
  proof (induction k arbitrary: n en)
    case 0
    then have "sc_heap (en_scheduler en) = []"
      by (cases "sc_heap (en_scheduler en)") (auto simp: engine_load_def load_def weight_def split: if_splits)
    then show ?case using "0.prems"(5) by (simp add: next_due_def top_event_def)
  next
    case (Suc k)
    show ?case
    proof (cases "next_due t en")
      case (Some p)
      obtain e en1 where due: "next_due t en = Some (e, en1)" using Some by (cases p) auto
      then obtain en2 where en2: "handle_event sim e en1 = Some en2" "engine_ok sim (Suc n) en2"
        using event_ok [OF Suc.prems(1) _ sim _ due] Suc.prems(2,4) by auto
      have "run_steps sim t k en2 = Some en'" using Suc.prems(5) due en2(1) by simp
      then show ?thesis
        using Suc.IH [OF en2(2)] handled_load [OF Suc.prems(1) obs due en2(1)] Suc.prems(2-4) due en2(1) by simp
    qed (use Suc.prems(5) in simp)
  qed
  show ?thesis
    using run_steps_ok [OF sim ok fit k(2)] stop [OF ok fit k] by blast
qed

end
