(* ===== verification/EngineProperties.thy ===== *)
theory EngineProperties
  imports EngineTermination
begin

section \<open>Properties of the simulation engine\<close>

text \<open>
  What the engine promises a client, over every engine that client calls and
  handled events reach, with deep or shallow books; with shallow books, of at most 32 levels, events are
  handled while no level's total has wrapped (\<open>totals_fit\<close>), which small orders ensure. The witnesses
  run a small engine with shallow books: one market without fees,
  a buyer with 1000 quote lots and a seller with 50 base lots.
\<close>

subsection \<open>A concrete engine\<close>

definition plain_fp :: fp where
  "plain_fp = \<lparr>fp_of_u64 = \<lambda>w. w, fp_neg = \<lambda>x. x, fp_add = (+), fp_mul = (*), fp_div = (div),
     fp_log = \<lambda>x. x, fp_log1p = \<lambda>x. x, fp_exp = \<lambda>x. x, fp_sqrt = \<lambda>x. x, fp_cos = \<lambda>x. x\<rparr>"

definition small_sim :: "unit simulation" where
  "small_sim = \<lparr>scheduler_capacity = 4, market_capacity = 1, sim_book = default_config 2 8 4,
     result_sink_capacity = 4, sim_accounts = \<lparr>account_capacity = 2, asset_capacity = 2\<rparr>,
     accounting_sink_capacity = 4, reservation_capacity = 3, subscriber_capacity = 1, agent_capacity = 1,
     sim_fp = plain_fp, sim_agents = \<lambda>agent a signal mem. Finish mem\<rparr>"

definition order_of :: "agent_id \<Rightarrow> side \<Rightarrow> int \<Rightarrow> u64 \<Rightarrow> order_request" where
  "order_of a s p q = \<lparr>rq_agent_id = a, rq_market_id = 0, rq_side = s, rq_price_ticks = p,
     rq_quantity_lots = q, rq_time_in_force = GTC, rq_client_timestamp_ns = 0\<rparr>"

definition funded_calls :: "client_call list" where
  "funded_calls = [Register_market \<lparr>venue_id = 1, product_id = 1\<rparr>, Register_account 1, Register_account 2,
     Set_account_balance 1 1 1000, Set_account_balance 2 0 50]"

definition trading_calls :: "client_call list" where
  "trading_calls = funded_calls @ [Submit_call (order_of 1 Buy 10 5), Submit_call (order_of 2 Sell 10 3)]"

definition small_engine :: "client_call list \<Rightarrow> unit engine" where
  "small_engine calls = fold (perform small_sim) calls (new_engine small_sim ())"

fun careful_calls :: "'m simulation \<Rightarrow> client_call list \<Rightarrow> 'm engine \<Rightarrow> bool" where
  "careful_calls sim [] en = True"
| "careful_calls sim (c # cs) en = (careful c en \<and> careful_calls sim cs (perform sim c en))"

lemma reaches_calls:
  "reaches sim mem n en \<Longrightarrow> careful_calls sim cs en \<Longrightarrow> reaches sim mem n (fold (perform sim) cs en)"
  by (induction cs arbitrary: en) (auto intro: reaches.client)

lemma small_sim_ok: "sim_ok small_sim"
  by (simp add: sim_ok_def small_sim_def valid_config_def default_config_def)

lemma small_reaches:
  "careful_calls small_sim cs (new_engine small_sim ()) \<Longrightarrow> reaches small_sim () 5 (small_engine cs)"
  using reaches_calls [OF reaches.fresh, of small_sim cs "()"] by (simp add: small_engine_def small_sim_def numeral_eq_Suc)

lemma trading_reaches: "reaches small_sim () 5 (small_engine trading_calls)"
  by (rule small_reaches) code_simp

text \<open>What makes the totals of shallow books fit: no slot of a book with more than \<open>2 ^ 48\<close> lots.\<close>

definition small_orders :: "'m engine \<Rightarrow> bool" where
  "small_orders en \<longleftrightarrow> list_all (\<lambda>s. list_all (\<lambda>x. sl_remaining x \<le> 0x1000000000000) (bk_orders (mk_matching_book s)))
     (en_market_states en)"

lemma small_book_fits:
  assumes inv: "book_inv c b" and cfg: "valid_config c"
    and small: "list_all (\<lambda>x. sl_remaining x \<le> 0x1000000000000) (bk_orders b)"
  shows "totals_ok c b sd"
proof -
  have "sum_list (map (unat \<circ> snd) q) < 2 ^ 64" if pq: "(p, q) \<in> set (ladder b sd)" for p q
  proof -
    have "length q \<in> set (map (\<lambda>(p, q). length q) (ladder b sd))" using pq by force
    then have "length q \<le> order_count (ladder b sd)"
      unfolding order_count_def by (rule member_le_sum_list) simp
    also have "\<dots> \<le> bk_resting_order_count b"
      using resting_count [OF inv] by (cases sd) simp_all
    also have "\<dots> \<le> 65535"
      using book_invD(1) [OF inv] cfg by (auto simp: slots_inv_def pool_inv_def valid_config_def)
    finally have len: "length q \<le> 65535" .
    obtain i where i: "i \<in> set (ranked (bk_levels b) sd)" "q = map (book_entry (bk_orders b)) (level_queue b i)"
      using pq by (auto simp: ladder_def rung_def)
    have "unat (sl_remaining (bk_orders b ! x)) \<le> 2 ^ 48" if "x \<in> set (level_queue b i)" for x
    proof -
      have "x < length (bk_orders b)" using queues_mem [OF book_invD(3) [OF inv] that] by blast
      then have "sl_remaining (bk_orders b ! x) \<le> 0x1000000000000" using small by (simp add: list_all_length)
      then show ?thesis by (simp add: word_le_nat_alt)
    qed
    then have "\<forall>y\<in>set q. (unat \<circ> snd) y \<le> 2 ^ 48" by (auto simp: i(2) book_entry_def)
    then have "sum_list (map (unat \<circ> snd) q) \<le> length q * 2 ^ 48"
      by (induction q) (auto simp: algebra_simps)
    also have "\<dots> \<le> 65535 * 2 ^ 48" using len by (intro mult_right_mono) simp_all
    finally show ?thesis by simp
  qed
  then show ?thesis by (auto simp: totals_ok_def no_wrap_def)
qed

lemma small_orders_fit:
  assumes "engine_ok sim n en" "sim_ok sim" "small_orders en"
  shows "totals_fit sim en"
  using engine_okD(2) [OF assms(1)] small_book_fits assms(2,3)
  by (simp add: totals_fit_def list_all_iff books_ok_def small_orders_def sim_ok_def)

fun steps_small :: "'m simulation \<Rightarrow> time_ns \<Rightarrow> nat \<Rightarrow> 'm engine \<Rightarrow> bool" where
  "steps_small sim t 0 en = True"
| "steps_small sim t (Suc k) en =
     (small_orders en
      \<and> (case next_due t en of
           None \<Rightarrow> True
         | Some (e, en) \<Rightarrow> (case handle_event sim e en of None \<Rightarrow> True | Some en \<Rightarrow> steps_small sim t k en)))"

lemma steps_small_fit:
  assumes sim: "sim_ok sim"
  shows "engine_ok sim n en \<Longrightarrow> n + k < 2 ^ 64 \<Longrightarrow> steps_small sim t k en \<Longrightarrow> steps_fit sim t k en"
proof (induction k arbitrary: n en)
  case (Suc k)
  have fit: "totals_fit sim en" using small_orders_fit [OF Suc.prems(1) sim] Suc.prems(3) by simp
  show ?case
  proof (cases "next_due t en")
    case (Some p)
    obtain e en1 where due: "next_due t en = Some (e, en1)" using Some by (cases p) auto
    obtain en2 where en2: "handle_event sim e en1 = Some en2" "engine_ok sim (Suc n) en2"
      using event_ok [OF Suc.prems(1) _ sim fit due] Suc.prems(2) by auto
    then show ?thesis using Suc.IH [OF en2(2)] Suc.prems(2,3) fit due by simp
  qed (use fit in simp)
qed simp

lemma trading_fits: "steps_fit small_sim 10 2 (small_engine trading_calls)"
proof (rule steps_small_fit [OF small_sim_ok])
  show "engine_ok small_sim 5 (small_engine trading_calls)"
    by (rule reaches_ok [OF small_sim_ok trading_reaches]) simp
  show "steps_small small_sim 10 2 (small_engine trading_calls)" by code_simp
qed simp

subsection \<open>The audit\<close>

text \<open>C11: The engine's self-check \<open>accounting_invariants_hold\<close> never fails in a running
  engine: whatever sequence of registrations, balance settings, spec and latency
  changes, submits, cancels, agent callbacks and handled events led to it (balances set
  only while nothing is reserved of them, the event queue cleared only while it holds no order, events
  handled only while no total of a shallow book has wrapped), the reserved part of every balance is the sum
  of that agent's reservations, and every reservation names a market, an account and,
  when nothing is scheduled, an order that rests in the book.\<close>
theorem reachable_engines_pass_audit:
  assumes "sim_ok sim" and "reaches sim mem n en" and "n < 2 ^ 64" and "\<not> halted en"
  shows "accounting_invariants_hold sim en"
  using audit_passes [OF reaches_ok [OF assms(1-3)] assms(1)] assms(4) by (simp add: halted_def running_def)

theorem reachable_engines_pass_audit_witness:
  "accounting_invariants_hold small_sim (small_engine trading_calls)
    \<and> reservation_count (small_engine trading_calls) = 2"
proof
  have "\<not> halted (small_engine trading_calls)" by code_simp
  then show "accounting_invariants_hold small_sim (small_engine trading_calls)"
    using reachable_engines_pass_audit [OF small_sim_ok trading_reaches] by simp
  show "reservation_count (small_engine trading_calls) = 2" by code_simp
qed

lemma nothing_due:
  assumes "next_due t en = None" "scheduler_ok (en_scheduler en)"
  shows "halted en \<or> (\<forall>e\<in>set (sc_heap (en_scheduler en)). t < se_timestamp_ns e)"
proof (cases "sc_heap (en_scheduler en)")
  case (Cons e rest)
  obtain s' where p: "pop (en_scheduler en) = (s', Some e)"
    "\<forall>x\<in>set (sc_heap (en_scheduler en)). event_key e \<le> event_key x"
    using pop_least [OF assms(2)] Cons by (auto simp: pop_def Let_def)
  then have "halted en \<or> t < se_timestamp_ns e"
    using assms(1) Cons by (auto simp: next_due_def top_event_def halted_def split: if_splits)
  moreover have "se_timestamp_ns e \<le> se_timestamp_ns x" if "x \<in> set (sc_heap (en_scheduler en))" for x
    using p(2) that by (auto simp: event_key_def due_def less_eq_prod_def less_prod_def word_le_nat_alt)
  ultimately show ?thesis using order.strict_trans2 by blast
qed simp

subsection \<open>Conservation\<close>

text \<open>C12: A run of the event loop creates and destroys no assets. Handling any number of due
  events, as long as no total of a shallow book wraps, returns an engine, and, unless it halted for an
  accounting failure, the total of every asset over all accounts has changed by exactly the fees in the
  accounting events the run recorded, which stay within their sink.\<close>
theorem runs_conserve_assets:
  assumes "sim_ok sim" and "reaches sim mem n en" and "n + k < 2 ^ 64" and "steps_fit sim t k en"
  shows "\<exists>en' es. run_steps sim t k en = Some en'
    \<and> en_accounting_events en' = en_accounting_events en @ es
    \<and> length (en_accounting_events en') \<le> accounting_sink_capacity sim
    \<and> (en_status en' \<noteq> HaltedAccountingFailure \<longrightarrow>
        (\<forall>x. asset_total (sim_accounts sim) (en_accounts en') x
           = asset_total (sim_accounts sim) (en_accounts en) x - fees_of (specs_of (en_market_states en)) es x))"
proof -
  have ok: "engine_ok sim n en" using reaches_ok [OF assms(1,2)] assms(3) by simp
  obtain en' j where r: "run_steps sim t k en = Some en'" "engine_ok sim (n + j) en'" "money_frame sim en en'"
    using run_steps_ok [OF assms(1) ok assms(4,3)] by blast
  have "length (en_accounting_events en') \<le> accounting_sink_capacity sim"
    using engine_okD(3) [OF r(2)] by (simp add: events_fit_def)
  then show ?thesis
    using r(1,3) unfolding money_frame_def by blast
qed

theorem runs_conserve_assets_witness:
  "asset_total (sim_accounts small_sim) (en_accounts (the (run_steps small_sim 10 2 (small_engine trading_calls)))) 1 = 1000"
proof -
  have start: "asset_total (sim_accounts small_sim) (en_accounts (small_engine trading_calls)) 1 = 1000"
    "en_accounting_events (small_engine trading_calls) = []"
    "fees_of (specs_of (en_market_states (small_engine trading_calls)))
       (en_accounting_events (the (run_steps small_sim 10 2 (small_engine trading_calls)))) 1 = 0"
    "en_status (the (run_steps small_sim 10 2 (small_engine trading_calls))) \<noteq> HaltedAccountingFailure"
    unfolding asset_total_def accounts.total_of_def by code_simp+
  show ?thesis
    using runs_conserve_assets [OF small_sim_ok trading_reaches _ trading_fits] start by auto
qed

subsection \<open>The event loop\<close>

text \<open>C13: \<open>run_until\<close> is its steps. It returns an engine exactly when that engine is
  what some number of due events, handled one after the other, leaves, and nothing
  in it is due; every engine it returns from a reachable one, no total of a shallow book having wrapped on the
  way, is reachable, and it is
  halted or every event still scheduled is later than the end time.\<close>
theorem run_until_drains_due_events:
  assumes "sim_ok sim" and "reaches sim mem n en" and "n + k < 2 ^ 64"
  shows "(run_until sim t en = Some en' \<longleftrightarrow> (\<exists>j. run_steps sim t j en = Some en' \<and> next_due t en' = None))
    \<and> (run_steps sim t k en = Some en' \<and> next_due t en' = None \<and> steps_fit sim t k en \<longrightarrow>
        (\<exists>j\<le>k. reaches sim mem (n + j) en')
        \<and> (halted en' \<or> (\<forall>e\<in>set (sc_heap (en_scheduler en')). t < se_timestamp_ns e)))"
proof (intro conjI impI run_until_iff; elim conjE)
  assume r: "run_steps sim t k en = Some en'" "next_due t en' = None" and fit: "steps_fit sim t k en"
  then obtain j where j: "j \<le> k" "reaches sim mem (n + j) en'"
    using run_steps_reaches [OF assms(2) fit] by blast
  then show "\<exists>j\<le>k. reaches sim mem (n + j) en'" by blast
  have "engine_ok sim (n + j) en'" using reaches_ok [OF assms(1) j(2)] j(1) assms(3) by simp
  then have ok: "scheduler_ok (en_scheduler en')" using ledger_invD(1) engine_okD(1) by blast
  show "halted en' \<or> (\<forall>e\<in>set (sc_heap (en_scheduler en')). t < se_timestamp_ns e)"
    using nothing_due [OF r(2) ok] by blast
qed

theorem run_until_drains_due_events_witness:
  "run_until small_sim 10 (small_engine trading_calls) = run_steps small_sim 10 2 (small_engine trading_calls)
    \<and> run_steps small_sim 10 2 (small_engine trading_calls) \<noteq> None"
proof -
  let ?en' = "the (run_steps small_sim 10 2 (small_engine trading_calls))"
  have "run_steps small_sim 10 2 (small_engine trading_calls) \<noteq> None" "next_due 10 ?en' = None"
    by code_simp+
  then have r: "run_steps small_sim 10 2 (small_engine trading_calls) = Some ?en'" "next_due 10 ?en' = None"
    by auto
  then show ?thesis
    using run_until_drains_due_events [OF small_sim_ok trading_reaches, of 2 10 ?en'] by auto
qed

text \<open>C14: Termination. When the agents only read, \<open>run_until\<close> returns from every
  reachable engine, no total of a shallow book wrapping on the way, after at most
  \<open>engine_load\<close> events: one per scheduled event and one more per subscriber for every order
  and cancel on its way.\<close>
theorem observed_runs_terminate:
  assumes "sim_ok sim" and "observing sim" and "reaches sim mem n en" and "n + engine_load en < 2 ^ 64"
    and "steps_fit sim t (engine_load en) en"
  shows "\<exists>en'. run_until sim t en = Some en' \<and> run_steps sim t (engine_load en) en = Some en'"
  using observed_run_ends [OF assms(1,2) reaches_ok [OF assms(1,3)] assms(5) order.refl assms(4)]
    run_until_steps assms(4) by fastforce

theorem observed_runs_terminate_witness:
  "\<exists>en'. run_until small_sim 10 (small_engine trading_calls) = Some en'"
proof -
  have "observing small_sim" by (simp add: observing_def small_sim_def)
  moreover have "engine_load (small_engine trading_calls) = 2" by code_simp
  ultimately show ?thesis
    using observed_runs_terminate [OF small_sim_ok _ trading_reaches] trading_fits by auto
qed

subsection \<open>The gateway\<close>

text \<open>C15: Errors of the gateway, in every engine that client calls and handled events reach, no
  total of a shallow book having wrapped when an event was handled. The guards of
  \<open>submit_order\<close>, in the order of \<open>gateway_check\<close>, decide its answer: where one
  fails the answer carries that guard's status and the invalid order id and the engine is the very engine
  it was, reserved funds included. Where all pass the order is accepted, or the scheduler is full and
  everything but the drawn latency is undone.\<close>
theorem gateway_rejections:
  assumes "sim_ok sim" and "reaches sim mem n en" and "n < 2 ^ 64"
  shows "case gateway_check sim rq en of
      Some status \<Rightarrow> submit_order sim rq en
        = (en, gateway_reject status invalid_order_id (rq_market_id rq) (en_current_time_ns en))
    | None \<Rightarrow> gr_accepted (snd (submit_order sim rq en))
        \<or> gr_status (snd (submit_order sim rq en)) = SchedulerFull
          \<and> fst (submit_order sim rq en) = fst (draw_order_latency sim (unat (rq_market_id rq)) en)"
proof -
  have ok: "engine_ok sim n en" using reaches_ok [OF assms] .
  show ?thesis
    using submit_order_checked [OF engine_okD(5) [OF ok], of rq]
      submit_order_ledger [OF engine_okD(1) [OF ok] assms(3), of rq]
    by (cases "gateway_check sim rq en") auto
qed

theorem gateway_rejections_witness:
  "submit_order small_sim (order_of 1 Buy 10 96) (small_engine trading_calls)
     = (small_engine trading_calls, gateway_reject InsufficientBalance invalid_order_id 0 0)"
proof -
  have "gateway_check small_sim (order_of 1 Buy 10 96) (small_engine trading_calls) = Some InsufficientBalance"
    "en_current_time_ns (small_engine trading_calls) = 0"
    by code_simp+
  then show ?thesis
    using gateway_rejections [OF small_sim_ok trading_reaches, of "order_of 1 Buy 10 96"] by (simp add: order_of_def)
qed

text \<open>
  What a halted engine still allows: registering markets and accounts and setting balances, which the
  code does not guard. Nothing else of it changes.
\<close>

definition set_up_more :: "'m engine \<Rightarrow> 'm engine \<Rightarrow> bool" where
  "set_up_more en en' \<longleftrightarrow> (\<exists>registry states accounts. en' = en\<lparr>en_market_registry := registry,
     en_market_states := en_market_states en @ states, en_accounts := accounts\<rparr>)"

lemma set_up_more_refl: "set_up_more en en"
  unfolding set_up_more_def
  by (intro exI [of _ "en_market_registry en"] exI [of _ "[]"] exI [of _ "en_accounts en"]) simp

lemma set_up_more_accounts: "set_up_more en (en\<lparr>en_accounts := accounts\<rparr>)"
  unfolding set_up_more_def
  by (intro exI [of _ "en_market_registry en"] exI [of _ "[]"] exI [of _ accounts]) simp

lemma set_up_more_market: "set_up_more en (en\<lparr>en_market_registry := registry, en_market_states := en_market_states en @ [s]\<rparr>)"
  unfolding set_up_more_def by (intro exI [of _ registry] exI [of _ "[s]"] exI [of _ "en_accounts en"]) simp

lemma set_up_more_trans:
  assumes "set_up_more en en1" "set_up_more en1 en2"
  shows "set_up_more en en2"
proof -
  obtain states accounts where "\<exists>registry. en1 = en\<lparr>en_market_registry := registry,
     en_market_states := en_market_states en @ states, en_accounts := accounts\<rparr>"
    using assms(1) unfolding set_up_more_def by blast
  moreover obtain registry' states' accounts' where "en2 = en1\<lparr>en_market_registry := registry',
     en_market_states := en_market_states en1 @ states', en_accounts := accounts'\<rparr>"
    using assms(2) unfolding set_up_more_def by blast
  ultimately show ?thesis
    unfolding set_up_more_def
    by (intro exI [of _ registry'] exI [of _ "states @ states'"] exI [of _ accounts']) auto
qed

lemma set_up_more_halted: "set_up_more en en' \<Longrightarrow> halted en' = halted en"
  by (auto simp: set_up_more_def halted_def)

lemma halted_call: "halted en \<Longrightarrow> set_up_more en (perform sim call en)"
proof (cases call)
  case (Set_latency slot m model)
  then show "halted en \<Longrightarrow> set_up_more en (perform sim call en)"
    by (cases slot) (auto simp: set_market_latency_model_def set_order_entry_latency_model_def set_cancel_latency_model_def
        set_market_data_latency_model_def configure_latency_def set_up_more_refl split: option.split)
qed (auto simp: register_market_def engine_register_account_def engine_set_balance_def set_market_product_spec_def
    register_agent_def schedule_agent_wakeup_def register_market_data_subscriber_def register_market_data_feed_def
    submit_order_def cancel_order_def start_def case_prod_beta set_up_more_refl set_up_more_accounts set_up_more_market
    split: option.split)

lemma halted_calls: "halted en \<Longrightarrow> set_up_more en (fold (perform sim) calls en)"
proof (induction calls arbitrary: en)
  case (Cons call calls)
  have "set_up_more en (perform sim call en)" by (rule halted_call [OF Cons.prems])
  moreover from this have "halted (perform sim call en)" using Cons.prems set_up_more_halted by blast
  ultimately show ?case using Cons.IH set_up_more_trans by fastforce
qed (simp add: set_up_more_refl)

lemma halted_run: "halted en \<Longrightarrow> run_until sim t en = Some en"
  by (subst run_until.simps) (simp add: next_due_def halted_def)

text \<open>C16: A halt is final. A run that halts on the way, after any number of events, returns the
  halted engine with its status, whatever is still scheduled. Then every submit and cancel answers
  \<open>Halted\<close>, and any sequence of client calls, runs between them included, leaves all of the
  engine as it was but the registry, new markets after the old and the balances: the status, the clock,
  the events, the books, the reservations, the recorded results and the memory of the agents
  stay.\<close>
theorem halted_engine_is_inert:
  assumes "run_steps sim t j en0 = Some en" "halted en"
  shows "run_until sim t en0 = Some en
    \<and> (let en' = fold (perform sim) calls en in
        set_up_more en en' \<and> en_status en' = en_status en \<and> en_scheduler en' = en_scheduler en
        \<and> en_reservations en' = en_reservations en
        \<and> map mk_matching_book (take (length (en_market_states en)) (en_market_states en')) = map mk_matching_book (en_market_states en)
        \<and> run_until sim t' en' = Some en'
        \<and> submit_order sim rq en' = (en', gateway_reject Halted invalid_order_id (rq_market_id rq) (en_current_time_ns en))
        \<and> cancel_order sim cq en' = (en', gateway_reject Halted (cq_order_id cq) (cq_market_id cq) (en_current_time_ns en)))"
proof -
  let ?en' = "fold (perform sim) calls en"
  have more: "set_up_more en ?en'" by (rule halted_calls [OF assms(2)])
  then have halted: "halted ?en'" using assms(2) set_up_more_halted by blast
  have "next_due t en = None" using assms(2) by (simp add: next_due_def halted_def)
  then have "run_until sim t en0 = Some en" by (rule run_until_steps [OF assms(1)])
  moreover have "run_until sim t' ?en' = Some ?en'" by (rule halted_run [OF halted])
  moreover obtain registry states accounts where "?en' = en\<lparr>en_market_registry := registry,
      en_market_states := en_market_states en @ states, en_accounts := accounts\<rparr>"
    using more unfolding set_up_more_def by blast
  ultimately show ?thesis
    using more halted by (simp add: Let_def submit_order_def cancel_order_def)
qed

text \<open>A match fills the array of results, and the next one halts the run.\<close>

definition full_sink_sim :: "unit simulation" where
  "full_sink_sim = small_sim\<lparr>result_sink_capacity := 1\<rparr>"

definition two_trades :: "unit engine" where
  "two_trades = fold (perform full_sink_sim) trading_calls (new_engine full_sink_sim ())"

theorem halted_engine_is_inert_witness:
  "\<exists>en. run_until full_sink_sim 10 two_trades = Some en \<and> en_status en = HaltedSinkOverflow
    \<and> en_status (fold (perform full_sink_sim) funded_calls en) = HaltedSinkOverflow
    \<and> en_reservations (fold (perform full_sink_sim) funded_calls en) = en_reservations en"
proof -
  let ?en = "the (run_steps full_sink_sim 10 2 two_trades)"
  have "run_steps full_sink_sim 10 2 two_trades \<noteq> None" and st: "en_status ?en = HaltedSinkOverflow"
    by code_simp+
  then have "run_steps full_sink_sim 10 2 two_trades = Some ?en" "halted ?en"
    by (auto simp: halted_def)
  from halted_engine_is_inert [OF this, of funded_calls] st show ?thesis by (auto simp: Let_def)
qed

end
