(* ===== verification/EngineFindings.thy ===== *)
theory EngineFindings
  imports EngineProperties
begin

section \<open>Where the engine loses track\<close>

text \<open>
  The limits of what the engine promises: rounding fees up fill by fill can need more than was
  reserved for the whole order, and three calls are not guarded against states in which they do harm.
  The witnesses run the small engine.
\<close>

subsection \<open>Fees of split fills\<close>

lemma split_bound:
  assumes "f \<le> q" and "0 \<le> required_reservation_amount spec s p q"
    and "0 \<le> required_reservation_amount spec s p f" and "0 \<le> required_reservation_amount spec s p (q - f)"
  shows "required_reservation_amount spec s p q
      \<le> required_reservation_amount spec s p f + required_reservation_amount spec s p (q - f)
    \<and> required_reservation_amount spec s p f + required_reservation_amount spec s p (q - f)
      \<le> required_reservation_amount spec s p q + 1"
proof -
  have q: "uint (q - f) = uint q - uint f" using assms(1) by (simp add: uint_minus_simple_alt word_le_def)
  have "required_reservation_amount spec s p f + required_reservation_amount spec s p (q - f)
      \<le> required_reservation_amount spec s p q + 1"
  proof (cases s)
    case Sell
    then show ?thesis using assms q by (auto simp: required_reservation_amount_def split: if_splits)
  next
    case Buy
    let ?b = "max_positive_fee_bps spec"
    have "p * uint q = p * uint f + p * uint (q - f)" "p * uint q * ?b = p * uint f * ?b + p * uint (q - f) * ?b"
      by (simp_all add: q algebra_simps)
    then show ?thesis
      using required_buy [of spec p q] required_buy [of spec p f] required_buy [of spec p "q - f"] assms(2-4) Buy
      by (simp only:)
  qed
  then show ?thesis
    using required_split [OF assms(2,3,1)] by simp
qed

text \<open>C17: A buy filled in two parts needs at most one lot more than the amount reserved for
  it in one piece: fees are rounded up per fill, and the reservation rounds once. The
  amounts are exact, none of them wraps.\<close>
theorem split_reservations_bound:
  assumes "f \<le> q" and "0 \<le> required_reservation_amount spec s p q"
    and "0 \<le> required_reservation_amount spec s p f" and "0 \<le> required_reservation_amount spec s p (q - f)"
  shows "required_reservation_amount spec s p q
      \<le> required_reservation_amount spec s p f + required_reservation_amount spec s p (q - f)
    \<and> required_reservation_amount spec s p f + required_reservation_amount spec s p (q - f)
      \<le> required_reservation_amount spec s p q + 1"
  by (rule split_bound [OF assms])

definition fee_spec :: product_spec where
  "fee_spec = \<lparr>base_asset_id = 0, quote_asset_id = 1, maker_fee_bps = 1, taker_fee_bps = 1\<rparr>"

theorem split_reservations_bound_witness:
  "required_reservation_amount fee_spec Buy 10 1 + required_reservation_amount fee_spec Buy 10 1
     \<le> required_reservation_amount fee_spec Buy 10 2 + 1"
proof -
  have "0 \<le> required_reservation_amount fee_spec Buy 10 2" "0 \<le> required_reservation_amount fee_spec Buy 10 1"
    by code_simp+
  then show ?thesis
    using split_reservations_bound [of 1 2 fee_spec Buy 10] by simp
qed

subsection \<open>Two fills of one reservation\<close>

lemma share_le_reserved:
  assumes funds: "funds sim st rs" and i: "i < length rs" "rv_active (rs ! i)"
  shows "rv_reserved_amount_lots (rs ! i)
    \<le> accounts.reserved_of (sim_accounts sim) st (rv_agent_id (rs ! i)) (rv_reserve_asset_id (rs ! i))"
proof -
  let ?a = "rv_agent_id (rs ! i)" and ?x = "rv_reserve_asset_id (rs ! i)"
  have "0 \<le> share ?a ?x r" if "r \<in> set rs" for r
    using fundsD(3) [OF funds that] by (simp add: share_def)
  then have "share ?a ?x (rs ! i) \<le> sum_list (map (share ?a ?x) rs)"
    using i(1) by (intro member_le_sum_list) auto
  then show ?thesis
    using fundsD(2) [OF funds, of ?a ?x] i(2) by (simp add: reserved_sum_def share_def)
qed





text \<open>Two lots at 10 with a fee of a basis point reserve 21, and each single lot takes 11.\<close>

definition split_fill_calls :: "client_call list" where
  "split_fill_calls = funded_calls @ [Set_product_spec 0 fee_spec, Submit_call (order_of 1 Buy 10 2),
     Submit_call (order_of 2 Sell 10 1), Submit_call (order_of 2 Sell 10 1)]"



text \<open>The run of these calls, from the first event on: its third event halts the engine.\<close>

lemma split_fill_run_halts:
  "careful_calls small_sim split_fill_calls (new_engine small_sim ())
    \<and> map_option en_status (run_steps small_sim 10 2 (small_engine split_fill_calls)) = Some Running
    \<and> map_option en_status (run_steps small_sim 10 3 (small_engine split_fill_calls)) = Some HaltedAccountingFailure"
  by (intro conjI; code_simp)

subsection \<open>Unguarded calls\<close>

lemma reset_balance_fails_audit:
  assumes ok: "engine_ok sim n en" and run: "running en" and sim: "sim_ok sim"
    and r: "r \<in> set (en_reservations en)" "rv_active r"
  shows "\<not> accounting_invariants_hold sim (perform sim (Set_account_balance (rv_agent_id r) (rv_reserve_asset_id r) m) en)"
proof -
  let ?cfg = "sim_accounts sim" and ?a = "rv_agent_id r" and ?x = "rv_reserve_asset_id r" and ?st = "en_accounts en"
  note o = ledger_invD(5) [OF engine_okD(1) [OF ok]]
  note funds = orders_okD(1) [OF o]
  note st = fundsD(1) [OF funds]
  obtain j where j: "j < length (en_reservations en)" "r = en_reservations en ! j"
    using r(1) by (auto simp: in_set_conv_nth)
  have "0 < rv_reserved_amount_lots r" using orders_okD(5) [OF o run r] by (simp add: backed_def)
  then have pos: "0 < accounts.reserved_of ?cfg ?st ?a ?x"
    using share_le_reserved [OF funds j(1)] r(2) unfolding j(2) by simp
  then obtain i where i: "find_account_index ?st ?a = Some i" and x: "valid_asset ?cfg ?x"
    by (auto simp: accounts.reserved_of_def balance_def split: option.splits if_splits)
  let ?b = "\<lparr>available_lots = m, reserved_lots = 0\<rparr>"
  have il: "i < length ?st" "ac_agent_id (?st ! i) = ?a" using find_account_Some [OF st] i by auto
  have len: "length (ac_balances (?st ! i)) = asset_capacity ?cfg"
    using account_ok_nth [OF st il(1)] by (simp add: account_ok_def)
  have en': "perform sim (Set_account_balance ?a ?x m) en = en\<lparr>en_accounts := put_balance i ?x ?b ?st\<rparr>"
    using i x by (simp add: engine_set_balance_def set_balance_def)
  let ?n = "asset_capacity ?cfg" and ?k = "i * asset_capacity ?cfg + unat ?x"
  have xs: "unat ?x < ?n" using x by (simp add: valid_asset_def)
  then have k: "?k div ?n = i" "?k mod ?n = unat ?x" by simp_all
  have "?k < Suc i * ?n" using xs by simp
  also have "\<dots> \<le> length ?st * ?n" using il(1) by (intro mult_right_mono) simp_all
  finally have room: "?k < account_snapshot_count ?cfg (put_balance i ?x ?b ?st)"
    by (simp add: account_snapshot_count_def)
  have "account_snapshot_at ?cfg (put_balance i ?x ?b ?st) ?k = Some \<lparr>as_agent_id = ?a, as_asset_id = ?x, as_balance = ?b\<rparr>"
    using room il len xs unfolding account_snapshot_at_def Let_def k by (simp add: put_balance_def)
  moreover have "total_reserved_lots en ?a ?x = accounts.reserved_of ?cfg ?st ?a ?x"
    using fundsD(2) [OF funds] by (simp add: total_reserved_sum)
  then have "total_reserved_lots (en\<lparr>en_accounts := put_balance i ?x ?b ?st\<rparr>) ?a ?x \<noteq> 0"
    using pos by (simp add: total_reserved_lots_def)
  ultimately have "\<not> snapshot_settled sim (en\<lparr>en_accounts := put_balance i ?x ?b ?st\<rparr>) ?k"
    by (simp add: snapshot_settled_def)
  then show ?thesis
    using room unfolding en' by (auto simp: accounting_invariants_hold_def list_all_iff)
qed

lemma clearing_fails_audit:
  assumes "r \<in> set (en_reservations en)" "rv_active r"
    and "remaining_quantity (mk_matching_book (en_market_states en ! unat (rv_market_id r))) (rv_order_id r) = None"
  shows "\<not> accounting_invariants_hold sim (clear_events en)"
proof -
  have "\<not> reservation_settled (clear_events en) r"
    using assms(2,3) by (auto simp: reservation_settled_def market_index_def clear_events_def clear_scheduler_eq
        empty_scheduler_fields Let_def)
  moreover have "r \<in> set (en_reservations (clear_events en))" using assms(1) by (simp add: clear_events_def)
  ultimately show ?thesis by (auto simp: accounting_invariants_hold_def list_all_iff)
qed

lemma early_wakeup_is_next:
  assumes ok: "engine_ok sim n en" and run: "\<not> halted en"
    and w: "snd (schedule_agent_wakeup sim a w en)" "\<forall>e\<in>set (sc_heap (en_scheduler en)). w < se_timestamp_ns e" "w \<le> t"
  shows "\<exists>e en1. next_due t (fst (schedule_agent_wakeup sim a w en)) = Some (e, en1) \<and> en_current_time_ns en1 = w"
proof -
  note s = ledger_invD(1) [OF engine_okD(1) [OF ok]]
  let ?e = "default_event\<lparr>se_timestamp_ns := w, se_phase := AgentPhase, se_kind := AgentWakeup, se_agent_id := a\<rparr>"
  let ?s = "fst (push (scheduler_capacity sim) ?e (en_scheduler en))"
  have known: "find_agent_slot en a \<noteq> None" using w(1) by (auto simp: schedule_agent_wakeup_def split: if_splits)
  then have en': "fst (schedule_agent_wakeup sim a w en) = en\<lparr>en_scheduler := ?s\<rparr>"
    using run by (auto simp: schedule_agent_wakeup_def case_prod_beta)
  have "snd (push (scheduler_capacity sim) ?e (en_scheduler en))"
    using w(1) known run by (simp add: schedule_agent_wakeup_def case_prod_beta split: if_splits)
  then have room: "length (sc_heap (en_scheduler en)) \<noteq> scheduler_capacity sim"
    using push_full [of "en_scheduler en" "scheduler_capacity sim" ?e] by auto
  have p: "scheduler_ok ?s" and m: "mset (sc_heap ?s)
      = add_mset (?e\<lparr>se_sequence_number := sc_next_sequence (en_scheduler en)\<rparr>) (mset (sc_heap (en_scheduler en)))"
    using push_stamped [OF s room, of ?e] by blast+
  have sets: "set (sc_heap ?s) = insert (?e\<lparr>se_sequence_number := sc_next_sequence (en_scheduler en)\<rparr>) (set (sc_heap (en_scheduler en)))"
    using arg_cong [OF m, of set_mset] by simp
  have mem: "?e\<lparr>se_sequence_number := sc_next_sequence (en_scheduler en)\<rparr> \<in> set (sc_heap ?s)" using sets by blast
  have "next_due t (en\<lparr>en_scheduler := ?s\<rparr>) \<noteq> None"
  proof
    assume none: "next_due t (en\<lparr>en_scheduler := ?s\<rparr>) = None"
    have "scheduler_ok (en_scheduler (en\<lparr>en_scheduler := ?s\<rparr>))" using p by simp
    from nothing_due [OF none this] have "\<forall>x\<in>set (sc_heap ?s). t < se_timestamp_ns x" using run by (simp add: halted_def)
    from bspec [OF this mem] w(3) show False by simp
  qed
  then obtain e en1 where due: "next_due t (en\<lparr>en_scheduler := ?s\<rparr>) = Some (e, en1)" by auto
  then obtain s' where e: "en1 = (en\<lparr>en_scheduler := ?s\<rparr>)\<lparr>en_scheduler := s', en_current_time_ns := se_timestamp_ns e\<rparr>"
      "mset (sc_heap ?s) = add_mset e (mset (sc_heap s'))" "\<forall>x\<in>set (sc_heap ?s). event_key e \<le> event_key x"
    using next_due_Some [OF due] p by auto
  have "e \<in> set (sc_heap ?s)" using arg_cong [OF e(2), of set_mset] by simp
  moreover have "event_key e \<le> event_key (?e\<lparr>se_sequence_number := sc_next_sequence (en_scheduler en)\<rparr>)"
    using e(3) sets by blast
  then have "se_timestamp_ns e \<le> w"
    by (auto simp: event_key_def due_def less_eq_prod_def less_prod_def word_le_nat_alt)
  ultimately have "se_timestamp_ns e = w" using w(2) sets by fastforce
  then show ?thesis using due e(1) unfolding en' by auto
qed

text \<open>C19: Three calls the code does not guard lose track, in every reachable running engine. While an
  order has a reservation, setting the balance it is reserved from forgets the reserved part, and the
  engine's own audit fails; clearing the scheduler while the order is still on its way, in no book, leaves a
  reservation that no order backs, and the audit fails too; and a wakeup of a registered agent is accepted
  for any time, also one that has passed, unless the scheduler is full: if it is earlier than all that is
  scheduled it is the next event, and taking it sets the clock to that time.\<close>
theorem unguarded_calls_lose_track:
  assumes "sim_ok sim" and "reaches sim mem n en" and "n < 2 ^ 64" and "\<not> halted en"
    and "r \<in> set (en_reservations en)" "rv_active r"
  shows "\<not> accounting_invariants_hold sim (perform sim (Set_account_balance (rv_agent_id r) (rv_reserve_asset_id r) m) en)
    \<and> (remaining_quantity (mk_matching_book (en_market_states en ! unat (rv_market_id r))) (rv_order_id r) = None
        \<longrightarrow> \<not> accounting_invariants_hold sim (clear_events en))
    \<and> snd (schedule_agent_wakeup sim a w en)
        = (find_agent_slot en a \<noteq> None \<and> length (sc_heap (en_scheduler en)) \<noteq> scheduler_capacity sim)
    \<and> (snd (schedule_agent_wakeup sim a w en) \<and> (\<forall>e\<in>set (sc_heap (en_scheduler en)). w < se_timestamp_ns e) \<and> w \<le> t
        \<longrightarrow> (\<exists>e en1. next_due t (fst (schedule_agent_wakeup sim a w en)) = Some (e, en1) \<and> en_current_time_ns en1 = w))"
proof -
  have ok: "engine_ok sim n en" by (rule reaches_ok [OF assms(1-3)])
  have run: "running en" using assms(4) by (simp add: halted_def running_def)
  have "snd (schedule_agent_wakeup sim a w en)
      = (find_agent_slot en a \<noteq> None \<and> length (sc_heap (en_scheduler en)) \<noteq> scheduler_capacity sim)"
    using assms(4) by (simp add: schedule_agent_wakeup_def push_def Let_def split: prod.split)
  then show ?thesis
    using reset_balance_fails_audit [OF ok run assms(1,5,6)] clearing_fails_audit [OF assms(5,6)]
      early_wakeup_is_next [OF ok assms(4)] by blast
qed

text \<open>An order that takes ten nanoseconds to arrive; the clock is set back from 10 to 3 by a wakeup.\<close>

definition late_calls :: "client_call list" where
  "late_calls = funded_calls @ [Register_agent 1 0, Set_latency Order_entry_latency 0 (fixed_latency 10 1),
     Submit_call (order_of 1 Buy 10 2)]"

definition late_engine :: "unit engine" where
  "late_engine = the (run_steps small_sim 20 1 (small_engine late_calls))"

theorem unguarded_calls_lose_track_witness:
  "\<not> accounting_invariants_hold small_sim (perform small_sim (Set_account_balance 1 1 1000) (small_engine trading_calls))
    \<and> \<not> accounting_invariants_hold small_sim (clear_events (small_engine trading_calls))
    \<and> en_current_time_ns late_engine = 10
    \<and> (\<exists>e en1. next_due 20 (fst (schedule_agent_wakeup small_sim 1 3 late_engine)) = Some (e, en1) \<and> en_current_time_ns en1 = 3)"
proof -
  let ?en = "small_engine trading_calls" and ?r = "hd (en_reservations (small_engine trading_calls))"
  have r: "?r \<in> set (en_reservations ?en)" "rv_active ?r" "rv_agent_id ?r = 1" "rv_reserve_asset_id ?r = 1" "\<not> halted ?en"
      "remaining_quantity (mk_matching_book (en_market_states ?en ! unat (rv_market_id ?r))) (rv_order_id ?r) = None"
    by code_simp+
  have first: "\<not> accounting_invariants_hold small_sim (perform small_sim (Set_account_balance 1 1 1000) ?en)
      \<and> \<not> accounting_invariants_hold small_sim (clear_events ?en)"
    using unguarded_calls_lose_track [OF small_sim_ok trading_reaches _ r(5,1,2), of 1000] r(3,4,6) by simp
  let ?l = late_engine and ?q = "hd (en_reservations late_engine)"
  have start: "reaches small_sim () 5 (small_engine late_calls)" by (rule small_reaches) code_simp
  have steps: "run_steps small_sim 20 1 (small_engine late_calls) \<noteq> None" "steps_small small_sim 20 1 (small_engine late_calls)"
    by code_simp+
  have "engine_ok small_sim 5 (small_engine late_calls)" by (rule reaches_ok [OF small_sim_ok start]) simp
  from steps_small_fit [OF small_sim_ok this _ steps(2)] have "steps_fit small_sim 20 1 (small_engine late_calls)" by simp
  moreover have "run_steps small_sim 20 1 (small_engine late_calls) = Some ?l" using steps(1) by (auto simp: late_engine_def)
  ultimately obtain k where k: "k \<le> 1" "reaches small_sim () (5 + k) ?l"
    using run_steps_reaches [OF start] by blast
  have l: "?q \<in> set (en_reservations ?l)" "rv_active ?q" "\<not> halted ?l" "en_current_time_ns ?l = 10"
      "snd (schedule_agent_wakeup small_sim 1 3 ?l)" "sc_heap (en_scheduler ?l) = []"
    by code_simp+
  have "\<exists>e en1. next_due 20 (fst (schedule_agent_wakeup small_sim 1 3 ?l)) = Some (e, en1) \<and> en_current_time_ns en1 = 3"
    using unguarded_calls_lose_track [OF small_sim_ok k(2) _ l(3,1,2), of 0 1 3 20] k(1) l(5,6) by simp
  then show ?thesis using first l(4) by blast
qed

end
