(* ===== verification/StaticVector.thy ===== *)
theory StaticVector
  imports Prelude
begin

section \<open>Vectors of fixed capacity\<close>

text \<open>
  \<open>StaticVector\<close> of \<open>include/lob/l2_order_book.hpp\<close>: an array that never grows with
  the count of its live entries. Iterators are positions; \<open>end()\<close> is the size. The
  shifting loops of \<open>insert\<close> and \<open>erase\<close> work on the whole array, and the lemmas say
  what they do to the live prefix.
\<close>

record 'a static_vector =
  sv_data :: "'a list"
  sv_size :: nat

definition vec_new :: "nat \<Rightarrow> 'a \<Rightarrow> 'a static_vector" where
  "vec_new capacity x = \<lparr>sv_data = replicate capacity x, sv_size = 0\<rparr>"

definition live :: "'a static_vector \<Rightarrow> 'a list" where
  "live v = take (sv_size v) (sv_data v)"

definition vec_full :: "'a static_vector \<Rightarrow> bool" where
  "vec_full v \<longleftrightarrow> sv_size v = length (sv_data v)"

definition vec_clear :: "'a static_vector \<Rightarrow> 'a static_vector" where
  "vec_clear v = v\<lparr>sv_size := 0\<rparr>"

definition vec_put :: "nat \<Rightarrow> 'a \<Rightarrow> 'a static_vector \<Rightarrow> 'a static_vector" where
  "vec_put i x v = v\<lparr>sv_data := (sv_data v)[i := x]\<rparr>"

definition vec_push_back :: "'a \<Rightarrow> 'a static_vector \<Rightarrow> 'a static_vector \<times> bool" where
  "vec_push_back x v =
     (if vec_full v then (v, False)
      else (v\<lparr>sv_data := (sv_data v)[sv_size v := x], sv_size := sv_size v + 1\<rparr>, True))"

definition vec_pop_back :: "'a static_vector \<Rightarrow> 'a static_vector \<times> bool" where
  "vec_pop_back v = (if sv_size v = 0 then (v, False) else (v\<lparr>sv_size := sv_size v - 1\<rparr>, True))"

fun shift_right :: "'a list \<Rightarrow> nat \<Rightarrow> nat \<Rightarrow> 'a list" where
  "shift_right data idx i =
     (if idx < i then shift_right (data[i := data ! (i - 1)]) idx (i - 1) else data)"

definition vec_insert :: "nat \<Rightarrow> 'a \<Rightarrow> 'a static_vector \<Rightarrow> 'a static_vector \<times> nat" where
  "vec_insert idx x v =
     (if vec_full v \<or> sv_size v < idx then (v, sv_size v)
      else (v\<lparr>sv_data := (shift_right (sv_data v) idx (sv_size v))[idx := x], sv_size := sv_size v + 1\<rparr>, idx))"

function shift_left :: "'a list \<Rightarrow> nat \<Rightarrow> nat \<Rightarrow> 'a list" where
  "shift_left data n i = (if i + 1 < n then shift_left (data[i := data ! (i + 1)]) n (i + 1) else data)"
  by pat_completeness auto
termination by (relation "measure (\<lambda>(data, n, i). n - i)") auto

definition vec_erase :: "nat \<Rightarrow> 'a static_vector \<Rightarrow> 'a static_vector \<times> nat" where
  "vec_erase idx v =
     (if sv_size v \<le> idx then (v, sv_size v)
      else (v\<lparr>sv_data := shift_left (sv_data v) (sv_size v) idx, sv_size := sv_size v - 1\<rparr>, idx))"

declare shift_right.simps [simp del] shift_left.simps [simp del]

subsection \<open>What the operations do to the live entries\<close>

definition vec_ok :: "nat \<Rightarrow> 'a static_vector \<Rightarrow> bool" where
  "vec_ok capacity v \<longleftrightarrow> length (sv_data v) = capacity \<and> sv_size v \<le> capacity"

lemma vec_new_ok: "vec_ok n (vec_new n x)" "live (vec_new n x) = []"
  by (simp_all add: vec_ok_def vec_new_def live_def)

lemma vec_size: "vec_ok n v \<Longrightarrow> sv_size v = length (live v)"
  by (simp add: vec_ok_def live_def)

lemma vec_nth: "i < length (live v) \<Longrightarrow> live v ! i = sv_data v ! i"
  by (simp add: live_def)

lemma vec_clear_ok: "vec_ok n v \<Longrightarrow> vec_ok n (vec_clear v)" "live (vec_clear v) = []"
  by (simp_all add: vec_ok_def vec_clear_def live_def)

lemma vec_put_ok: "vec_ok n v \<Longrightarrow> vec_ok n (vec_put i x v)" "live (vec_put i x v) = (live v)[i := x]"
  by (simp_all add: vec_ok_def vec_put_def live_def take_update_swap)

lemma vec_push_back_ok:
  assumes "vec_ok n v" "length (live v) < n"
  shows "vec_ok n (fst (vec_push_back x v))" "live (fst (vec_push_back x v)) = live v @ [x]" "snd (vec_push_back x v)"
  using assms by (simp_all add: vec_push_back_def vec_full_def vec_ok_def live_def take_Suc_conv_app_nth)

lemma vec_push_back_full: "vec_ok n v \<Longrightarrow> length (live v) = n \<Longrightarrow> vec_push_back x v = (v, False)"
  by (simp add: vec_push_back_def vec_full_def vec_ok_def live_def)

lemma vec_pop_back_ok:
  assumes "vec_ok n v"
  shows "vec_ok n (fst (vec_pop_back v))" "live (fst (vec_pop_back v)) = butlast (live v)"
  using assms by (auto simp: vec_pop_back_def vec_ok_def live_def butlast_take)

lemma shift_right_length [simp]: "length (shift_right data idx i) = length data"
  by (induction data idx i rule: shift_right.induct) (simp add: shift_right.simps)

lemma shift_right_nth:
  "i < length data \<Longrightarrow> idx \<le> i \<Longrightarrow> j < length data \<Longrightarrow>
   shift_right data idx i ! j = (if idx < j \<and> j \<le> i then data ! (j - 1) else data ! j)"
proof (induction data idx i rule: shift_right.induct)
  case (1 data idx i)
  show ?case
  proof (cases "idx < i")
    case True
    then have "shift_right data idx i ! j = shift_right (data[i := data ! (i - 1)]) idx (i - 1) ! j"
      by (simp add: shift_right.simps [of data idx i])
    then show ?thesis
      using "1.IH" [OF True] "1.prems" True by (auto simp: nth_list_update)
  qed (use "1.prems" in \<open>auto simp: shift_right.simps [of data i i]\<close>)
qed

lemma vec_insert_ok:
  assumes ok: "vec_ok n v" and room: "length (live v) < n" and idx: "idx \<le> length (live v)"
  shows "vec_ok n (fst (vec_insert idx x v))" "live (fst (vec_insert idx x v)) = take idx (live v) @ x # drop idx (live v)"
    "snd (vec_insert idx x v) \<noteq> sv_size (fst (vec_insert idx x v))"
proof -
  let ?k = "sv_size v" and ?d = "sv_data v"
  have k: "?k < length ?d" "idx \<le> ?k" "length ?d = n" "length (live v) = ?k"
    using ok room idx by (auto simp: vec_ok_def live_def)
  then have eq: "vec_insert idx x v = (v\<lparr>sv_data := (shift_right ?d idx ?k)[idx := x], sv_size := ?k + 1\<rparr>, idx)"
    by (simp add: vec_insert_def vec_full_def)
  show "vec_ok n (fst (vec_insert idx x v))" "snd (vec_insert idx x v) \<noteq> sv_size (fst (vec_insert idx x v))"
    using k eq by (simp_all add: vec_ok_def)
  show "live (fst (vec_insert idx x v)) = take idx (live v) @ x # drop idx (live v)"
  proof (rule nth_equalityI)
    show "length (live (fst (vec_insert idx x v))) = length (take idx (live v) @ x # drop idx (live v))"
      using k eq by (simp add: live_def)
    fix j assume "j < length (live (fst (vec_insert idx x v)))"
    then have j: "j < Suc ?k" using k eq by (simp add: live_def)
    moreover have "idx + (j - idx - 1) = j - 1" if "idx < j" using that by simp
    ultimately show "live (fst (vec_insert idx x v)) ! j = (take idx (live v) @ x # drop idx (live v)) ! j"
      using k eq shift_right_nth [OF k(1,2), of j] by (auto simp: live_def nth_append nth_list_update nth_Cons')
  qed
qed

lemma shift_left_length [simp]: "length (shift_left data n i) = length data"
  by (induction data n i rule: shift_left.induct) (simp add: shift_left.simps)

lemma shift_left_nth:
  "n \<le> length data \<Longrightarrow> j + 1 < n \<Longrightarrow>
   shift_left data n i ! j = (if i \<le> j then data ! (j + 1) else data ! j)"
proof (induction data n i rule: shift_left.induct)
  case (1 data n i)
  show ?case
  proof (cases "i + 1 < n")
    case True
    then have "shift_left data n i ! j = shift_left (data[i := data ! (i + 1)]) n (i + 1) ! j"
      by (simp add: shift_left.simps [of data n i])
    then show ?thesis
      using "1.IH" [OF True] "1.prems" True by (cases "i = j") (auto simp: nth_list_update)
  qed (use "1.prems" in \<open>simp add: shift_left.simps [of data n i]\<close>)
qed

lemma vec_erase_ok:
  assumes ok: "vec_ok n v" and idx: "idx < length (live v)"
  shows "vec_ok n (fst (vec_erase idx v))" "live (fst (vec_erase idx v)) = take idx (live v) @ drop (Suc idx) (live v)"
proof -
  let ?k = "sv_size v" and ?d = "sv_data v"
  have k: "?k \<le> length ?d" "idx < ?k" "length ?d = n" "length (live v) = ?k"
    using ok idx by (auto simp: vec_ok_def live_def)
  then have eq: "vec_erase idx v = (v\<lparr>sv_data := shift_left ?d ?k idx, sv_size := ?k - 1\<rparr>, idx)"
    by (simp add: vec_erase_def)
  show "vec_ok n (fst (vec_erase idx v))" using k eq by (simp add: vec_ok_def)
  show "live (fst (vec_erase idx v)) = take idx (live v) @ drop (Suc idx) (live v)"
  proof (rule nth_equalityI)
    show "length (live (fst (vec_erase idx v))) = length (take idx (live v) @ drop (Suc idx) (live v))"
      using k eq by (simp add: live_def)
    fix j assume "j < length (live (fst (vec_erase idx v)))"
    then have j: "j + 1 < ?k" using k eq by (simp add: live_def)
    then show "live (fst (vec_erase idx v)) ! j = (take idx (live v) @ drop (Suc idx) (live v)) ! j"
      using k eq shift_left_nth [OF k(1) j, of idx] by (auto simp: live_def nth_append)
  qed
qed

end
