(* ===== verification/L2Book.thy ===== *)
theory L2Book
  imports StaticVector SimTypes
begin

section \<open>The aggregated order book\<close>

text \<open>
  \<open>L2OrderBook\<close> of \<open>include/lob/l2_order_book.hpp\<close>: per side a sorted vector of price
  levels, best first, with running totals. The members of the two sides, which the
  code selects by \<open>is_bid\<close>, are one record per side. Prices are \<open>int64\<close> and only
  compared and multiplied; the 128-bit notionals are \<^typ>\<open>int\<close>.
\<close>

record l2_level =
  l2_price :: int
  l2_qty :: u64
  l2_depleted :: u64

record l2_side =
  sd_levels :: "l2_level static_vector"
  sd_total_qty :: u64
  sd_total_notional :: int
  sd_depleted_qty :: u64
  sd_depleted_notional :: int

record l2_book =
  max_levels_per_side :: nat
  l2_bids :: l2_side
  l2_asks :: l2_side

record l2_update_event =
  l2e_timestamp_ns :: u64
  l2e_price :: int
  l2e_qty :: u64
  l2e_is_snapshot :: bool
  l2e_is_bid :: bool

definition l2_capacity :: nat where
  "l2_capacity = 128"

definition effective_qty_of :: "l2_level \<Rightarrow> u64" where
  "effective_qty_of l = (if l2_depleted l < l2_qty l then l2_qty l - l2_depleted l else 0)"

definition empty_side :: l2_side where
  "empty_side = \<lparr>sd_levels = vec_new l2_capacity \<lparr>l2_price = 0, l2_qty = 0, l2_depleted = 0\<rparr>,
     sd_total_qty = 0, sd_total_notional = 0, sd_depleted_qty = 0, sd_depleted_notional = 0\<rparr>"

definition clamp_capacity :: "nat \<Rightarrow> nat" where
  "clamp_capacity value = (if value = 0 then 1 else if l2_capacity < value then l2_capacity else value)"

definition new_l2_book :: "nat \<Rightarrow> l2_book" where
  "new_l2_book levels = \<lparr>max_levels_per_side = clamp_capacity levels, l2_bids = empty_side, l2_asks = empty_side\<rparr>"

definition side_of :: "bool \<Rightarrow> l2_book \<Rightarrow> l2_side" where
  "side_of is_bid b = (if is_bid then l2_bids b else l2_asks b)"

definition on_side :: "bool \<Rightarrow> (l2_side \<Rightarrow> l2_side) \<Rightarrow> l2_book \<Rightarrow> l2_book" where
  "on_side is_bid f b = (if is_bid then b\<lparr>l2_bids := f (l2_bids b)\<rparr> else b\<lparr>l2_asks := f (l2_asks b)\<rparr>)"

subsection \<open>Totals\<close>

definition acc_add :: "l2_level \<Rightarrow> l2_side \<Rightarrow> l2_side" where
  "acc_add l s = s\<lparr>sd_total_qty := sd_total_qty s + l2_qty l,
     sd_total_notional := sd_total_notional s + l2_price l * uint (l2_qty l),
     sd_depleted_qty := sd_depleted_qty s + l2_depleted l,
     sd_depleted_notional := sd_depleted_notional s + l2_price l * uint (l2_depleted l)\<rparr>"

definition acc_subtract :: "l2_level \<Rightarrow> l2_side \<Rightarrow> l2_side" where
  "acc_subtract l s = s\<lparr>sd_total_qty := sd_total_qty s - l2_qty l,
     sd_total_notional := sd_total_notional s - l2_price l * uint (l2_qty l),
     sd_depleted_qty := sd_depleted_qty s - l2_depleted l,
     sd_depleted_notional := sd_depleted_notional s - l2_price l * uint (l2_depleted l)\<rparr>"

subsection \<open>Finding a level\<close>

definition level_before :: "bool \<Rightarrow> int \<Rightarrow> l2_level \<Rightarrow> bool" where
  "level_before is_bid price l = (if is_bid then price < l2_price l else l2_price l < price)"

fun linear_find :: "('a \<Rightarrow> bool) \<Rightarrow> 'a list \<Rightarrow> nat" where
  "linear_find prec [] = 0"
| "linear_find prec (x # xs) = (if prec x then Suc (linear_find prec xs) else 0)"

definition find_l2_level :: "l2_level list \<Rightarrow> bool \<Rightarrow> int \<Rightarrow> nat" where
  "find_l2_level side is_bid price =
     (if length side \<le> 16 then linear_find (level_before is_bid price) side
      else lower_bound (level_before is_bid price) side)"

definition is_deeper_or_equal :: "bool \<Rightarrow> int \<Rightarrow> int \<Rightarrow> bool" where
  "is_deeper_or_equal is_bid price tail_price = (if is_bid then price \<le> tail_price else tail_price \<le> price)"

subsection \<open>Updates\<close>

definition on_levels :: "(l2_level static_vector \<Rightarrow> l2_level static_vector) \<Rightarrow> l2_side \<Rightarrow> l2_side" where
  "on_levels f s = s\<lparr>sd_levels := f (sd_levels s)\<rparr>"

text \<open>The tail of \<open>update_level\<close>: insert, and count the level if there was room.\<close>

definition insert_level :: "nat \<Rightarrow> l2_level \<Rightarrow> l2_side \<Rightarrow> l2_side" where
  "insert_level it l s =
     (case vec_insert it l (sd_levels s) of
        (v, inserted) \<Rightarrow>
          let s = s\<lparr>sd_levels := v\<rparr> in if inserted \<noteq> sv_size v then acc_add l s else s)"

definition update_side :: "nat \<Rightarrow> bool \<Rightarrow> int \<Rightarrow> u64 \<Rightarrow> l2_side \<Rightarrow> l2_side" where
  "update_side max_levels is_bid price qty s =
     (let side = live (sd_levels s);
          it = find_l2_level side is_bid price;
          found = (it < length side \<and> l2_price (side ! it) = price);
          new_level = \<lparr>l2_price = price, l2_qty = qty, l2_depleted = 0\<rparr>
      in if qty = 0 then
           (if found then on_levels (\<lambda>v. fst (vec_erase it v)) (acc_subtract (side ! it) s) else s)
         else if found then
           let level = (side ! it)\<lparr>l2_qty := qty,
                 l2_depleted := (if qty < l2_depleted (side ! it) then qty else l2_depleted (side ! it))\<rparr>
           in acc_add level (on_levels (vec_put it level) (acc_subtract (side ! it) s))
         else if max_levels \<le> length side then
           (if side = [] \<or> is_deeper_or_equal is_bid price (l2_price (last side)) then s
            else
              let s = on_levels (\<lambda>v. fst (vec_pop_back v)) (acc_subtract (last side) s)
              in insert_level (find_l2_level (live (sd_levels s)) is_bid price) new_level s)
         else insert_level it new_level s)"

definition update_level :: "bool \<Rightarrow> int \<Rightarrow> u64 \<Rightarrow> l2_book \<Rightarrow> l2_book" where
  "update_level is_bid price qty b =
     (if price \<le> 0 then b else on_side is_bid (update_side (max_levels_per_side b) is_bid price qty) b)"

definition clear_side :: "l2_side \<Rightarrow> l2_side" where
  "clear_side s = \<lparr>sd_levels = vec_clear (sd_levels s), sd_total_qty = 0, sd_total_notional = 0,
     sd_depleted_qty = 0, sd_depleted_notional = 0\<rparr>"

definition clear_l2 :: "l2_book \<Rightarrow> l2_book" where
  "clear_l2 b = b\<lparr>l2_bids := clear_side (l2_bids b), l2_asks := clear_side (l2_asks b)\<rparr>"

definition apply_update :: "l2_update_event \<Rightarrow> l2_book \<Rightarrow> l2_book" where
  "apply_update e b =
     update_level (l2e_is_bid e) (l2e_price e) (l2e_qty e) (if l2e_is_snapshot e then clear_l2 b else b)"

definition deplete_side :: "bool \<Rightarrow> int \<Rightarrow> u64 \<Rightarrow> l2_side \<Rightarrow> l2_side" where
  "deplete_side is_bid price consumed_qty s =
     (let side = live (sd_levels s); it = find_l2_level side is_bid price in
      if it = length side \<or> l2_price (side ! it) \<noteq> price then s
      else (on_levels (vec_put it ((side ! it)\<lparr>l2_depleted := l2_depleted (side ! it) + consumed_qty\<rparr>)) s)
        \<lparr>sd_depleted_qty := sd_depleted_qty s + consumed_qty,
         sd_depleted_notional := sd_depleted_notional s + price * uint consumed_qty\<rparr>)"

definition deplete_level :: "bool \<Rightarrow> int \<Rightarrow> u64 \<Rightarrow> l2_book \<Rightarrow> l2_book" where
  "deplete_level is_bid price consumed_qty b =
     (if price \<le> 0 \<or> consumed_qty = 0 then b else on_side is_bid (deplete_side is_bid price consumed_qty) b)"

text \<open>The loop of \<open>remove_levels_not_in\<close>: \<open>it\<close> stays put when its level is erased.\<close>

function remove_from :: "int list \<Rightarrow> nat \<Rightarrow> l2_side \<Rightarrow> l2_side" where
  "remove_from prices it s =
     (let side = live (sd_levels s) in
      if length side \<le> it then s
      else if list_ex (\<lambda>price. 0 < price \<and> price = l2_price (side ! it)) prices then remove_from prices (Suc it) s
      else remove_from prices it (on_levels (\<lambda>v. fst (vec_erase it v)) (acc_subtract (side ! it) s)))"
  by pat_completeness auto
termination
  by (relation "measure (\<lambda>(prices, it, s). sv_size (sd_levels s) - it)")
    (auto simp: live_def on_levels_def acc_subtract_def vec_erase_def)

definition remove_levels_not_in :: "bool \<Rightarrow> int list \<Rightarrow> l2_book \<Rightarrow> l2_book" where
  "remove_levels_not_in is_bid prices = on_side is_bid (remove_from prices 0)"

function trim_to_capacity :: "nat \<Rightarrow> l2_side \<Rightarrow> l2_side" where
  "trim_to_capacity max_levels s =
     (if max_levels < length (live (sd_levels s))
      then trim_to_capacity max_levels
             (on_levels (\<lambda>v. fst (vec_pop_back v)) (acc_subtract (last (live (sd_levels s))) s))
      else s)"
  by pat_completeness auto
termination
  by (relation "measure (\<lambda>(m, s). sv_size (sd_levels s))")
    (auto simp: live_def on_levels_def acc_subtract_def vec_pop_back_def)

definition reserve_levels :: "nat \<Rightarrow> l2_book \<Rightarrow> l2_book" where
  "reserve_levels levels b =
     (let m = clamp_capacity levels
      in \<lparr>max_levels_per_side = m, l2_bids = trim_to_capacity m (l2_bids b), l2_asks = trim_to_capacity m (l2_asks b)\<rparr>)"

declare remove_from.simps [simp del] trim_to_capacity.simps [simp del]

subsection \<open>Reads\<close>

definition effective_qty :: "bool \<Rightarrow> int \<Rightarrow> l2_book \<Rightarrow> u64" where
  "effective_qty is_bid price b =
     (if price \<le> 0 then 0
      else let side = live (sd_levels (side_of is_bid b)); it = find_l2_level side is_bid price in
        if it = length side \<or> l2_price (side ! it) \<noteq> price then 0 else effective_qty_of (side ! it))"

definition best_price :: "bool \<Rightarrow> l2_book \<Rightarrow> int" where
  "best_price is_bid b = (case live (sd_levels (side_of is_bid b)) of [] \<Rightarrow> 0 | l # _ \<Rightarrow> l2_price l)"

definition effective_best_price :: "bool \<Rightarrow> l2_book \<Rightarrow> int" where
  "effective_best_price is_bid b =
     (case find (\<lambda>l. 0 < effective_qty_of l) (live (sd_levels (side_of is_bid b))) of
        None \<Rightarrow> 0 | Some l \<Rightarrow> l2_price l)"

definition side_effective_qty :: "l2_side \<Rightarrow> u64" where
  "side_effective_qty s = (if sd_depleted_qty s < sd_total_qty s then sd_total_qty s - sd_depleted_qty s else 0)"

definition side_effective_notional :: "l2_side \<Rightarrow> int" where
  "side_effective_notional s =
     (if sd_depleted_notional s < sd_total_notional s then sd_total_notional s - sd_depleted_notional s else 0)"

end
