(* ===== verification/L2BookOrder.thy ===== *)
theory L2BookOrder
  imports L2Book
begin

section \<open>Sides stay sorted and counted\<close>

text \<open>
  Each side is a strictly sorted list of positive levels whose totals are the sums
  over it. An update is a function on that list: the part better than the price,
  and the rest.
\<close>

definition better_price :: "bool \<Rightarrow> int \<Rightarrow> int \<Rightarrow> bool" where
  "better_price is_bid p q \<longleftrightarrow> (if is_bid then q < p else p < q)"

definition side_sorted :: "bool \<Rightarrow> l2_level list \<Rightarrow> bool" where
  "side_sorted is_bid xs \<longleftrightarrow> sorted_wrt (\<lambda>a b. better_price is_bid (l2_price a) (l2_price b)) xs"

definition counted :: "l2_side \<Rightarrow> bool" where
  "counted s \<longleftrightarrow> (let xs = live (sd_levels s) in
     sd_total_qty s = sum_list (map l2_qty xs)
     \<and> sd_total_notional s = sum_list (map (\<lambda>l. l2_price l * uint (l2_qty l)) xs)
     \<and> sd_depleted_qty s = sum_list (map l2_depleted xs)
     \<and> sd_depleted_notional s = sum_list (map (\<lambda>l. l2_price l * uint (l2_depleted l)) xs))"

definition levels_ok :: "nat \<Rightarrow> bool \<Rightarrow> l2_level list \<Rightarrow> bool" where
  "levels_ok m is_bid xs \<longleftrightarrow> side_sorted is_bid xs \<and> (\<forall>l\<in>set xs. 0 < l2_price l \<and> l2_qty l \<noteq> 0) \<and> length xs \<le> m"

definition side_ok :: "nat \<Rightarrow> bool \<Rightarrow> l2_side \<Rightarrow> bool" where
  "side_ok m is_bid s \<longleftrightarrow> vec_ok l2_capacity (sd_levels s) \<and> levels_ok m is_bid (live (sd_levels s)) \<and> counted s"

definition l2_ok :: "l2_book \<Rightarrow> bool" where
  "l2_ok b \<longleftrightarrow> 0 < max_levels_per_side b \<and> max_levels_per_side b \<le> l2_capacity
     \<and> side_ok (max_levels_per_side b) True (l2_bids b) \<and> side_ok (max_levels_per_side b) False (l2_asks b)"

lemma level_before_better: "level_before is_bid p l \<longleftrightarrow> better_price is_bid (l2_price l) p"
  by (simp add: level_before_def better_price_def)

lemma better_price_simps:
  "better_price is_bid p q \<Longrightarrow> better_price is_bid q r \<Longrightarrow> better_price is_bid p r"
  "\<not> better_price is_bid p p"
  "better_price is_bid p q \<or> p = q \<or> better_price is_bid q p"
  "better_price is_bid p q \<Longrightarrow> \<not> better_price is_bid q p"
  "is_deeper_or_equal is_bid p q \<longleftrightarrow> \<not> better_price is_bid p q"
  by (auto simp: better_price_def is_deeper_or_equal_def)

subsection \<open>The search finds the split\<close>

lemma linear_find_takeWhile: "linear_find prec xs = length (takeWhile prec xs)"
  by (induction xs) auto

lemma side_sorted_partitioned: "side_sorted is_bid xs \<Longrightarrow> partitioned (level_before is_bid p) xs"
  unfolding partitioned_def side_sorted_def sorted_wrt_iff_nth_less level_before_better
  using better_price_simps(1) order.strict_trans by blast

lemma find_level_split:
  "side_sorted is_bid xs \<Longrightarrow> find_l2_level xs is_bid p = length (takeWhile (level_before is_bid p) xs)"
  using lower_bound_takeWhile [OF side_sorted_partitioned] by (simp add: find_l2_level_def linear_find_takeWhile)

text \<open>The list cut at a price: strictly better levels, the level itself if there is one, the deeper ones.\<close>

lemma side_split:
  assumes s: "side_sorted is_bid xs"
  obtains pre post where "xs = pre @ post" "find_l2_level xs is_bid p = length pre"
    "\<forall>l\<in>set pre. better_price is_bid (l2_price l) p" "\<forall>l\<in>set post. \<not> better_price is_bid (l2_price l) p"
proof -
  let ?P = "level_before is_bid p"
  have "\<not> ?P l" if l: "l \<in> set (dropWhile ?P xs)" for l
  proof -
    obtain y ys where y: "dropWhile ?P xs = y # ys" using l by (cases "dropWhile ?P xs") auto
    then have hd: "\<not> ?P y" by (metis hd_dropWhile list.discI list.sel(1))
    have "side_sorted is_bid (dropWhile ?P xs)"
      using s unfolding side_sorted_def by (metis sorted_wrt_append takeWhile_dropWhile_id)
    then have "l = y \<or> better_price is_bid (l2_price y) (l2_price l)"
      using l y by (auto simp: side_sorted_def)
    then show ?thesis
      using hd better_price_simps(1) unfolding level_before_better by blast
  qed
  then have deep: "\<forall>l\<in>set (dropWhile ?P xs). \<not> better_price is_bid (l2_price l) p"
    by (simp add: level_before_better)
  have "\<forall>l\<in>set (takeWhile ?P xs). better_price is_bid (l2_price l) p"
    using set_takeWhileD [of _ ?P xs] unfolding level_before_better by blast
  then show thesis
    using that [OF _ find_level_split [OF s] _ deep] by simp
qed

subsection \<open>One update on the list\<close>

definition update_list :: "nat \<Rightarrow> bool \<Rightarrow> int \<Rightarrow> u64 \<Rightarrow> l2_level list \<Rightarrow> l2_level list" where
  "update_list m is_bid p q xs =
     (let pre = takeWhile (level_before is_bid p) xs; post = dropWhile (level_before is_bid p) xs;
          new = \<lparr>l2_price = p, l2_qty = q, l2_depleted = 0\<rparr>;
          found = (post \<noteq> [] \<and> l2_price (hd post) = p)
      in if q = 0 then (if found then pre @ tl post else xs)
         else if found then pre @ (hd post)\<lparr>l2_qty := q, l2_depleted := min q (l2_depleted (hd post))\<rparr> # tl post
         else if m \<le> length xs then
           (if xs = [] \<or> \<not> better_price is_bid p (l2_price (last xs)) then xs else pre @ new # butlast post)
         else pre @ new # post)"

lemma update_list_split:
  assumes "\<forall>l\<in>set pre. better_price is_bid (l2_price l) p" "\<forall>l\<in>set post. \<not> better_price is_bid (l2_price l) p"
  shows "takeWhile (level_before is_bid p) (pre @ post) = pre" "dropWhile (level_before is_bid p) (pre @ post) = post"
proof -
  have t: "takeWhile (level_before is_bid p) post = []" "dropWhile (level_before is_bid p) post = post"
    using assms(2) by (cases post; simp add: level_before_better)+
  then show "takeWhile (level_before is_bid p) (pre @ post) = pre" "dropWhile (level_before is_bid p) (pre @ post) = post"
    using assms(1) by (simp_all add: level_before_better takeWhile_append2 dropWhile_append2)
qed

lemma counted_insert:
  assumes c: "counted s" and v: "vec_ok l2_capacity (sd_levels s)" and xs: "live (sd_levels s) = pre @ post"
    and room: "length (pre @ post) < l2_capacity"
  shows "counted (insert_level (length pre) l s) \<and> live (sd_levels (insert_level (length pre) l s)) = pre @ l # post
    \<and> vec_ok l2_capacity (sd_levels (insert_level (length pre) l s))"
proof -
  let ?i = "vec_insert (length pre) l (sd_levels s)"
  have "length pre \<le> length (live (sd_levels s))" "length (live (sd_levels s)) < l2_capacity"
    using xs room by simp_all
  note i = vec_insert_ok [OF v this(2,1), of l]
  have eq: "insert_level (length pre) l s = acc_add l (s\<lparr>sd_levels := fst ?i\<rparr>)"
    using i(3) by (simp add: insert_level_def case_prod_beta Let_def)
  show ?thesis
    unfolding eq using i c xs by (simp add: counted_def acc_add_def Let_def)
qed

lemma update_side_list:
  assumes ok: "side_ok m is_bid s" and m: "m \<le> l2_capacity" "0 < m"
  shows "live (sd_levels (update_side m is_bid p q s)) = update_list m is_bid p q (live (sd_levels s))
    \<and> counted (update_side m is_bid p q s) \<and> vec_ok l2_capacity (sd_levels (update_side m is_bid p q s))"
proof -
  let ?v = "sd_levels s" and ?xs = "live (sd_levels s)"
  let ?new = "\<lparr>l2_price = p, l2_qty = q, l2_depleted = 0\<rparr>"
  have v: "vec_ok l2_capacity ?v" and sorted: "side_sorted is_bid ?xs" and len: "length ?xs \<le> m" and c: "counted s"
    using ok by (simp_all add: side_ok_def levels_ok_def)
  obtain pre post where sp: "?xs = pre @ post" "find_l2_level ?xs is_bid p = length pre"
    "\<forall>l\<in>set pre. better_price is_bid (l2_price l) p" "\<forall>l\<in>set post. \<not> better_price is_bid (l2_price l) p"
    using side_split [OF sorted] by blast
  note cut = update_list_split [OF sp(3,4)]
  have found: "length pre < length ?xs \<and> l2_price (?xs ! length pre) = p \<longleftrightarrow> post \<noteq> [] \<and> l2_price (hd post) = p"
    using sp(1) by (cases post) auto
  show ?thesis
  proof (cases "post \<noteq> [] \<and> l2_price (hd post) = p")
    case True
    then obtain l rest where post: "post = l # rest" "l2_price l = p" by (cases post) auto
    then have at: "length pre < length ?xs" "?xs ! length pre = l" using sp(1) by simp_all
    show ?thesis
    proof (cases "q = 0")
      case True
      have "update_side m is_bid p q s = on_levels (\<lambda>v. fst (vec_erase (length pre) v)) (acc_subtract l s)"
        using True found post at sp by (simp add: update_side_def Let_def)
      moreover have "update_list m is_bid p q ?xs = pre @ rest"
        using True post cut by (simp add: update_list_def sp(1) Let_def)
      ultimately show ?thesis
        using vec_erase_ok [OF v at(1)] c sp(1) post
        by (simp add: on_levels_def acc_subtract_def counted_def Let_def)
    next
      case False
      let ?l = "l\<lparr>l2_qty := q, l2_depleted := min q (l2_depleted l)\<rparr>"
      have "(if q < l2_depleted l then q else l2_depleted l) = min q (l2_depleted l)" by (auto simp: min_def)
      then have "update_side m is_bid p q s = acc_add ?l (on_levels (vec_put (length pre) ?l) (acc_subtract l s))"
        using False found post at sp by (simp add: update_side_def Let_def)
      moreover have "update_list m is_bid p q ?xs = pre @ ?l # rest"
        using False post cut by (simp add: update_list_def sp(1) Let_def)
      ultimately show ?thesis
        using vec_put_ok(1) [OF v, of "length pre" ?l] vec_put_ok(2) [of "length pre" ?l ?v] c sp(1) post
        by (simp add: on_levels_def acc_add_def acc_subtract_def counted_def Let_def)
    qed
  next
    case absent: False
    show ?thesis
    proof (cases "q = 0 \<or> m \<le> length ?xs \<and> (?xs = [] \<or> \<not> better_price is_bid p (l2_price (last ?xs)))")
      case True
      then have "update_side m is_bid p q s = s"
        using absent found sp(2) by (auto simp: update_side_def Let_def better_price_simps(5))
      moreover have "update_list m is_bid p q ?xs = ?xs"
        using True absent cut by (auto simp: update_list_def sp(1) Let_def)
      ultimately show ?thesis using v c by simp
    next
      case False
      show ?thesis
      proof (cases "m \<le> length ?xs")
        case short: False
        then have "update_side m is_bid p q s = insert_level (length pre) ?new s"
          using False absent found sp(2) by (auto simp: update_side_def Let_def)
        moreover have "update_list m is_bid p q ?xs = pre @ ?new # post"
          using False short absent cut by (auto simp: update_list_def sp(1) Let_def)
        ultimately show ?thesis
          using counted_insert [OF c v sp(1), of ?new] short sp(1) m by simp
      next
        case full: True
        then have last: "?xs \<noteq> []" "better_price is_bid p (l2_price (last ?xs))" using False by auto
        then have "post \<noteq> []"
          using sp(1,3) better_price_simps(4) by (metis append_Nil2 last_in_set)
        then obtain post' l where post: "post = post' @ [l]" by (metis rev_exhaust)
        let ?s = "on_levels (\<lambda>v. fst (vec_pop_back v)) (acc_subtract l s)"
        have lastl: "last ?xs = l" using sp(1) post by simp
        have s': "live (sd_levels ?s) = pre @ post'" "vec_ok l2_capacity (sd_levels ?s)" "counted ?s"
          using vec_pop_back_ok [OF v] sp(1) post c
          by (simp_all add: on_levels_def acc_subtract_def counted_def Let_def butlast_append)
        have "side_sorted is_bid (pre @ post')"
          using sorted sp(1) post by (simp add: side_sorted_def sorted_wrt_append)
        then have "find_l2_level (pre @ post') is_bid p = length pre"
          using find_level_split update_list_split(1) [OF sp(3), of post'] sp(4) post by simp
        then have "update_side m is_bid p q s = insert_level (length pre) ?new ?s"
          using False full absent found last lastl s'(1) sp(2)
          by (auto simp: update_side_def Let_def better_price_simps(5))
        moreover have "update_list m is_bid p q ?xs = pre @ ?new # post'"
          using False full absent cut last post by (auto simp: update_list_def sp(1) Let_def)
        ultimately show ?thesis
          using counted_insert [OF s'(3,2,1), of ?new] len sp(1) post m by simp
      qed
    qed
  qed
qed

subsection \<open>Updates keep the levels in order\<close>

lemma side_sorted_append:
  "side_sorted is_bid (xs @ ys) \<longleftrightarrow> side_sorted is_bid xs \<and> side_sorted is_bid ys
    \<and> (\<forall>a\<in>set xs. \<forall>b\<in>set ys. better_price is_bid (l2_price a) (l2_price b))"
  by (simp add: side_sorted_def sorted_wrt_append)

lemma side_sorted_Cons:
  "side_sorted is_bid (l # xs) \<longleftrightarrow> (\<forall>b\<in>set xs. better_price is_bid (l2_price l) (l2_price b)) \<and> side_sorted is_bid xs"
  by (simp add: side_sorted_def)

lemma insert_sorted:
  assumes "side_sorted is_bid (pre @ post)" "\<forall>l\<in>set pre. better_price is_bid (l2_price l) p"
    "\<forall>l\<in>set post. better_price is_bid p (l2_price l)" "l2_price new = p"
  shows "side_sorted is_bid (pre @ new # post)"
  using assms better_price_simps(1) by (auto simp: side_sorted_append side_sorted_Cons)

lemma deeper_rest:
  assumes "side_sorted is_bid post" "\<forall>l\<in>set post. \<not> better_price is_bid (l2_price l) p"
    "post = [] \<or> l2_price (hd post) \<noteq> p"
  shows "\<forall>l\<in>set post. better_price is_bid p (l2_price l)"
proof (cases post)
  case (Cons l rest)
  then have "better_price is_bid p (l2_price l)"
    using assms(2,3) better_price_simps(3) by fastforce
  then show ?thesis
    using assms(1) Cons better_price_simps(1) by (auto simp: side_sorted_Cons)
qed simp

lemma update_list_ok:
  assumes ok: "levels_ok m is_bid xs" and m: "0 < m" and p: "0 < p"
  shows "levels_ok m is_bid (update_list m is_bid p q xs)"
proof -
  have sorted: "side_sorted is_bid xs" using ok by (simp add: levels_ok_def)
  obtain pre post where sp: "xs = pre @ post" "\<forall>l\<in>set pre. better_price is_bid (l2_price l) p"
    "\<forall>l\<in>set post. \<not> better_price is_bid (l2_price l) p"
    by (rule side_split [OF sorted, of p])
  note cut = update_list_split [OF sp(2,3)]
  show ?thesis
  proof (cases "post \<noteq> [] \<and> l2_price (hd post) = p")
    case True
    then obtain l rest where "post = l # rest" "l2_price l = p" by (cases post) auto
    then show ?thesis
      using ok cut by (simp add: update_list_def sp(1) levels_ok_def side_sorted_append side_sorted_Cons Let_def)
  next
    case False
    have deep: "\<forall>l\<in>set post. better_price is_bid p (l2_price l)"
      by (rule deeper_rest) (use sorted sp(1,3) False in \<open>auto simp: side_sorted_append\<close>)
    let ?new = "\<lparr>l2_price = p, l2_qty = q, l2_depleted = 0\<rparr>"
    have "side_sorted is_bid (pre @ ?new # post)"
      using insert_sorted [OF sorted [unfolded sp(1)] sp(2) deep, of ?new] by simp
    moreover have "side_sorted is_bid (pre @ ?new # butlast post)"
    proof (cases post rule: rev_cases)
      case (snoc post' l)
      then show ?thesis
        using insert_sorted [of is_bid pre post' p ?new] sorted sp(1,2) deep by (simp add: side_sorted_append)
    qed (use calculation in simp)
    moreover have "set (butlast post) \<subseteq> set post" by (auto dest: in_set_butlastD)
    moreover have "post \<noteq> []" if "m \<le> length xs" "xs \<noteq> []" "better_price is_bid p (l2_price (last xs))"
      using that sp(1,2) better_price_simps(4) by (metis append_Nil2 last_in_set)
    ultimately show ?thesis
      using ok cut False m p by (auto simp: update_list_def sp(1) levels_ok_def Let_def)
  qed
qed

lemma update_side_ok:
  "side_ok m is_bid s \<Longrightarrow> m \<le> l2_capacity \<Longrightarrow> 0 < m \<Longrightarrow> 0 < p \<Longrightarrow> side_ok m is_bid (update_side m is_bid p q s)"
  using update_side_list [of m is_bid s p q] update_list_ok [of m is_bid "live (sd_levels s)" p q]
  by (simp add: side_ok_def)

subsection \<open>The other operations\<close>

lemma clear_side_ok: "side_ok m is_bid s \<Longrightarrow> side_ok m is_bid (clear_side s)"
  by (simp add: side_ok_def clear_side_def vec_clear_ok levels_ok_def side_sorted_def counted_def Let_def)

lemma sum_list_put:
  "i < length xs \<Longrightarrow> sum_list (map f (xs[i := x])) = sum_list (map f xs) - f (xs ! i) + (f x :: 'a :: ab_group_add)"
  by (induction xs arbitrary: i) (auto simp: algebra_simps split: nat.split)

lemma find_level_at:
  assumes "side_sorted is_bid xs" "l \<in> set xs" "l2_price l = p"
  shows "find_l2_level xs is_bid p < length xs \<and> xs ! find_l2_level xs is_bid p = l"
proof -
  obtain pre post where sp: "xs = pre @ post" "find_l2_level xs is_bid p = length pre"
    "\<forall>l\<in>set pre. better_price is_bid (l2_price l) p" "\<forall>l\<in>set post. \<not> better_price is_bid (l2_price l) p"
    using side_split [OF assms(1)] by blast
  have "l \<in> set post" using assms(2,3) sp(1,3) better_price_simps(2) by auto
  then obtain l' rest where post: "post = l' # rest" by (cases post) auto
  have "l = l'"
  proof (rule ccontr)
    assume "l \<noteq> l'"
    then have "better_price is_bid (l2_price l') p"
      using assms sp(1) post \<open>l \<in> set post\<close> by (auto simp: side_sorted_append side_sorted_Cons)
    then show False using sp(4) post by simp
  qed
  then show ?thesis using sp(1,2) post by simp
qed

text \<open>Depleting a level never reorders; the totals follow as long as its counter does not wrap.\<close>

definition depletes_within :: "bool \<Rightarrow> int \<Rightarrow> u64 \<Rightarrow> l2_side \<Rightarrow> bool" where
  "depletes_within is_bid p q s \<longleftrightarrow>
     (\<forall>l\<in>set (live (sd_levels s)). l2_price l = p \<longrightarrow> uint (l2_depleted l) + uint q < 2 ^ 64)"

lemma deplete_side_list:
  assumes ok: "side_ok m is_bid s" and fit: "depletes_within is_bid p q s"
  shows "side_ok m is_bid (deplete_side is_bid p q s)
    \<and> live (sd_levels (deplete_side is_bid p q s))
      = map (\<lambda>l. if l2_price l = p then l\<lparr>l2_depleted := l2_depleted l + q\<rparr> else l) (live (sd_levels s))"
proof -
  let ?xs = "live (sd_levels s)" and ?it = "find_l2_level (live (sd_levels s)) is_bid p"
  have v: "vec_ok l2_capacity (sd_levels s)" and lv: "levels_ok m is_bid ?xs" and c: "counted s"
    using ok by (simp_all add: side_ok_def)
  have sorted: "side_sorted is_bid ?xs" using lv by (simp add: levels_ok_def)
  have bound: "?it \<le> length ?xs"
    using find_level_split [OF sorted] by (simp add: length_takeWhile_le)
  show ?thesis
  proof (cases "?it = length ?xs \<or> l2_price (?xs ! ?it) \<noteq> p")
    case True
    then have "l2_price l \<noteq> p" if "l \<in> set ?xs" for l
      using find_level_at [OF sorted that] by auto
    then have "map (\<lambda>l. if l2_price l = p then l\<lparr>l2_depleted := l2_depleted l + q\<rparr> else l) ?xs = ?xs"
      by (intro map_idI) auto
    then show ?thesis using True ok by (simp add: deplete_side_def Let_def)
  next
    case False
    let ?l = "?xs ! ?it"
    let ?l' = "?l\<lparr>l2_depleted := l2_depleted ?l + q\<rparr>"
    have at: "?it < length ?xs" "l2_price ?l = p" using False bound by auto
    have eq: "deplete_side is_bid p q s = (on_levels (vec_put ?it ?l') s)
        \<lparr>sd_depleted_qty := sd_depleted_qty s + q, sd_depleted_notional := sd_depleted_notional s + p * uint q\<rparr>"
      using False by (simp add: deplete_side_def Let_def)
    have lv': "live (sd_levels (deplete_side is_bid p q s)) = ?xs[?it := ?l']"
      unfolding eq by (simp add: on_levels_def vec_put_ok(2))
    have other: "l2_price (?xs ! j) \<noteq> p" if j: "j < length ?xs" "j \<noteq> ?it" for j
    proof
      assume eq: "l2_price (?xs ! j) = p"
      have "\<forall>a b. a < b \<longrightarrow> b < length ?xs \<longrightarrow> better_price is_bid (l2_price (?xs ! a)) (l2_price (?xs ! b))"
        using sorted by (simp add: side_sorted_def sorted_wrt_iff_nth_less)
      then have "better_price is_bid p p"
        using j at eq by (cases "j < ?it") (metis, metis linorder_neqE_nat)
      then show False by (simp add: better_price_simps(2))
    qed
    have "?xs[?it := ?l'] = map (\<lambda>l. if l2_price l = p then l\<lparr>l2_depleted := l2_depleted l + q\<rparr> else l) ?xs"
    proof (rule nth_equalityI)
      fix j assume "j < length (?xs[?it := ?l'])"
      then show "?xs[?it := ?l'] ! j = map (\<lambda>l. if l2_price l = p then l\<lparr>l2_depleted := l2_depleted l + q\<rparr> else l) ?xs ! j"
        using at other [of j] by (cases "j = ?it") (simp_all add: nth_list_update)
    qed simp
    moreover have "levels_ok m is_bid (map (\<lambda>l. if l2_price l = p then l\<lparr>l2_depleted := l2_depleted l + q\<rparr> else l) ?xs)"
      using lv unfolding levels_ok_def side_sorted_def sorted_wrt_map
      by (auto simp: if_distrib [of l2_price] if_distrib [of l2_qty] cong: if_cong)
    moreover
    have "uint (l2_depleted ?l + q) = uint (l2_depleted ?l) + uint q"
      using fit at nth_mem [OF at(1)] by (auto simp: depletes_within_def uint_word_ariths)
    then have du: "p * uint (l2_depleted ?l + q) = p * uint (l2_depleted ?l) + p * uint q"
      by (simp add: distrib_left)
    have fields: "sd_total_qty (deplete_side is_bid p q s) = sd_total_qty s"
      "sd_total_notional (deplete_side is_bid p q s) = sd_total_notional s"
      "sd_depleted_qty (deplete_side is_bid p q s) = sd_depleted_qty s + q"
      "sd_depleted_notional (deplete_side is_bid p q s) = sd_depleted_notional s + p * uint q"
      by (simp_all add: eq on_levels_def)
    have "counted (deplete_side is_bid p q s)"
      using c at du unfolding counted_def Let_def lv' fields by (simp add: sum_list_put)
    moreover have "vec_ok l2_capacity (sd_levels (deplete_side is_bid p q s))"
      unfolding eq using vec_put_ok(1) [OF v] by (simp add: on_levels_def)
    ultimately show ?thesis using lv' by (simp add: side_ok_def)
  qed
qed

end
