(* ===== verification/L2BookProperties.thy ===== *)
theory L2BookProperties
  imports L2BookOrder
begin

section \<open>Properties of the aggregated book\<close>

text \<open>
  Runs of all the book's operations keep it well-formed, and a side is a finite map
  from prices to quantities, bounded to the best prices, on which an update acts
  as \<open>map_update\<close> says.
\<close>

subsection \<open>Removing and trimming\<close>

lemma erased:
  assumes c: "counted s" and v: "vec_ok l2_capacity (sd_levels s)" and i: "i < length (live (sd_levels s))"
  defines "s' \<equiv> on_levels (\<lambda>v. fst (vec_erase i v)) (acc_subtract (live (sd_levels s) ! i) s)"
  shows "counted s'" "vec_ok l2_capacity (sd_levels s')"
    "live (sd_levels s') = take i (live (sd_levels s)) @ drop (Suc i) (live (sd_levels s))"
proof -
  let ?xs = "live (sd_levels s)"
  note e = vec_erase_ok [OF v i]
  show v': "vec_ok l2_capacity (sd_levels s')" "live (sd_levels s') = take i ?xs @ drop (Suc i) ?xs"
    using e by (simp_all add: s'_def on_levels_def acc_subtract_def)
  have "sum_list (map f ?xs) = sum_list (map f (take i ?xs)) + (f (?xs ! i) + sum_list (map f (drop (Suc i) ?xs)))" for f :: "l2_level \<Rightarrow> 'x :: comm_monoid_add"
    by (subst id_take_nth_drop [OF i]) (simp add: add.assoc)
  from this [of l2_qty] this [of l2_depleted] this [of "\<lambda>l. l2_price l * uint (l2_qty l)"] this [of "\<lambda>l. l2_price l * uint (l2_depleted l)"]
  show "counted s'"
    using c unfolding counted_def Let_def v'(2) by (simp add: s'_def on_levels_def acc_subtract_def)
qed

lemma popped:
  assumes c: "counted s" and v: "vec_ok l2_capacity (sd_levels s)" and ne: "live (sd_levels s) \<noteq> []"
  defines "s' \<equiv> on_levels (\<lambda>v. fst (vec_pop_back v)) (acc_subtract (last (live (sd_levels s))) s)"
  shows "counted s'" "vec_ok l2_capacity (sd_levels s')" "live (sd_levels s') = butlast (live (sd_levels s))"
proof -
  obtain ys l where xs: "live (sd_levels s) = ys @ [l]" using ne by (metis rev_exhaust)
  show "vec_ok l2_capacity (sd_levels s')" "live (sd_levels s') = butlast (live (sd_levels s))"
    using vec_pop_back_ok [OF v] by (simp_all add: s'_def on_levels_def acc_subtract_def)
  then show "counted s'"
    using c xs unfolding counted_def Let_def by (simp add: s'_def on_levels_def acc_subtract_def)
qed

lemma remove_from_list:
  "counted s \<Longrightarrow> vec_ok l2_capacity (sd_levels s) \<Longrightarrow>
   counted (remove_from prices it s) \<and> vec_ok l2_capacity (sd_levels (remove_from prices it s))
   \<and> live (sd_levels (remove_from prices it s)) = take it (live (sd_levels s))
       @ filter (\<lambda>l. list_ex (\<lambda>price. 0 < price \<and> price = l2_price l) prices) (drop it (live (sd_levels s)))"
proof (induction prices it s rule: remove_from.induct)
  case (1 prices it s)
  let ?xs = "live (sd_levels s)" and ?keep = "\<lambda>l. list_ex (\<lambda>price. 0 < price \<and> price = l2_price l) prices"
  show ?case
  proof (cases "length ?xs \<le> it")
    case True
    then show ?thesis using "1.prems" by (simp add: remove_from.simps [of prices it s])
  next
    case False
    then have d: "drop it ?xs = ?xs ! it # drop (Suc it) ?xs" "take (Suc it) ?xs = take it ?xs @ [?xs ! it]"
      by (simp_all add: Cons_nth_drop_Suc take_Suc_conv_app_nth)
    show ?thesis
    proof (cases "?keep (?xs ! it)")
      case True
      then show ?thesis
        using "1.IH"(1) [OF refl _ True] "1.prems" False d by (simp add: remove_from.simps [of prices it s])
    next
      case gone: False
      let ?s = "on_levels (\<lambda>v. fst (vec_erase it v)) (acc_subtract (?xs ! it) s)"
      have i: "it < length ?xs" using False by simp
      note e = erased [OF "1.prems" i]
      have eq: "remove_from prices it s = remove_from prices it ?s"
        using False gone by (subst remove_from.simps) (simp add: Let_def)
      have "take it (live (sd_levels ?s)) = take it ?xs" "drop it (live (sd_levels ?s)) = drop (Suc it) ?xs"
        using i by (simp_all add: e(3))
      then show ?thesis
        using "1.IH"(2) [OF refl _ gone e(1,2)] False gone unfolding eq by (simp add: d(1))
    qed
  qed
qed

lemma trim_list:
  "counted s \<Longrightarrow> vec_ok l2_capacity (sd_levels s) \<Longrightarrow>
   counted (trim_to_capacity m s) \<and> vec_ok l2_capacity (sd_levels (trim_to_capacity m s))
   \<and> live (sd_levels (trim_to_capacity m s)) = take m (live (sd_levels s))"
proof (induction m s rule: trim_to_capacity.induct)
  case (1 m s)
  let ?xs = "live (sd_levels s)"
  show ?case
  proof (cases "m < length ?xs")
    case True
    then have ne: "?xs \<noteq> []" by auto
    note p = popped [OF "1.prems" ne]
    have "min m (length ?xs - 1) = m" using True by linarith
    then have "take m (butlast ?xs) = take m ?xs" by (simp add: butlast_conv_take)
    moreover have "trim_to_capacity m s
        = trim_to_capacity m (on_levels (\<lambda>v. fst (vec_pop_back v)) (acc_subtract (last ?xs) s))"
      using True by (subst trim_to_capacity.simps) simp
    ultimately show ?thesis
      using "1.IH" [OF True p(1,2)] p(3) by simp
  qed (use "1.prems" in \<open>simp add: trim_to_capacity.simps [of m s]\<close>)
qed

lemma side_sorted_filter: "side_sorted is_bid xs \<Longrightarrow> side_sorted is_bid (filter P xs)"
  by (simp add: side_sorted_def sorted_wrt_filter)

lemma remove_side_ok:
  assumes "side_ok m is_bid s"
  shows "side_ok m is_bid (remove_from prices 0 s)"
  using assms remove_from_list [of s prices 0] side_sorted_filter
  by (auto simp: side_ok_def levels_ok_def intro: order.trans [OF length_filter_le])

lemma trim_side_ok:
  assumes "side_ok m is_bid s"
  shows "side_ok m' is_bid (trim_to_capacity m' s)"
proof -
  have "side_sorted is_bid (take m' xs)" if "side_sorted is_bid xs" for xs
    using that unfolding side_sorted_def by (metis sorted_wrt_take)
  then show ?thesis
    using assms trim_list [of s m'] by (auto simp: side_ok_def levels_ok_def dest: in_set_takeD)
qed

subsection \<open>Runs\<close>

datatype l2_op =
    Update_op l2_update_event
  | Deplete_op bool int u64
  | Retain_op bool "int list"
  | Reserve_op nat
  | Clear_l2_op

fun l2_step :: "l2_op \<Rightarrow> l2_book \<Rightarrow> l2_book" where
  "l2_step (Update_op e) b = apply_update e b"
| "l2_step (Deplete_op is_bid p q) b = deplete_level is_bid p q b"
| "l2_step (Retain_op is_bid prices) b = remove_levels_not_in is_bid prices b"
| "l2_step (Reserve_op n) b = reserve_levels n b"
| "l2_step Clear_l2_op b = clear_l2 b"

text \<open>The depleted counters of a run stay below \<open>2 ^ 64\<close>.\<close>

fun counters_fit :: "l2_op list \<Rightarrow> l2_book \<Rightarrow> bool" where
  "counters_fit [] b = True"
| "counters_fit (op # ops) b =
     ((case op of Deplete_op is_bid p q \<Rightarrow> depletes_within is_bid p q (side_of is_bid b) | _ \<Rightarrow> True)
      \<and> counters_fit ops (l2_step op b))"

lemma clamp_bounds: "0 < clamp_capacity n" "clamp_capacity n \<le> l2_capacity"
  by (simp_all add: clamp_capacity_def l2_capacity_def)

lemma new_l2_ok: "l2_ok (new_l2_book n)"
  using clamp_bounds [of n]
  by (simp add: l2_ok_def new_l2_book_def empty_side_def side_ok_def vec_new_ok levels_ok_def side_sorted_def counted_def Let_def)

lemma update_level_ok: "l2_ok b \<Longrightarrow> l2_ok (update_level is_bid p q b)"
  using update_side_ok by (auto simp: l2_ok_def update_level_def on_side_def)

lemma clear_l2_ok: "l2_ok b \<Longrightarrow> l2_ok (clear_l2 b)"
  using clear_side_ok by (auto simp: l2_ok_def clear_l2_def)

lemma l2_step_ok:
  assumes ok: "l2_ok b" and fit: "counters_fit [op] b"
  shows "l2_ok (l2_step op b)"
proof (cases op)
  case (Update_op e)
  then show ?thesis using ok update_level_ok clear_l2_ok by (simp add: apply_update_def)
next
  case (Deplete_op is_bid p q)
  then show ?thesis
    using ok fit deplete_side_list [of "max_levels_per_side b" is_bid "side_of is_bid b" p q]
    by (auto simp: l2_ok_def deplete_level_def on_side_def side_of_def)
next
  case (Retain_op is_bid prices)
  then show ?thesis using ok remove_side_ok by (auto simp: l2_ok_def remove_levels_not_in_def on_side_def)
next
  case (Reserve_op n)
  then show ?thesis
    using ok clamp_bounds trim_side_ok by (auto simp: l2_ok_def reserve_levels_def Let_def)
qed (use ok clear_l2_ok in simp)

lemma l2_run_ok: "l2_ok b \<Longrightarrow> counters_fit ops b \<Longrightarrow> l2_ok (fold l2_step ops b)"
proof (induction ops arbitrary: b)
  case (Cons op ops)
  then show ?case using l2_step_ok [of b op] by simp
qed simp

subsection \<open>A side is a map\<close>

definition level_map :: "l2_level list \<Rightarrow> int \<rightharpoonup> u64 \<times> u64" where
  "level_map xs = map_of (map (\<lambda>l. (l2_price l, (l2_qty l, l2_depleted l))) xs)"

definition side_map :: "bool \<Rightarrow> l2_book \<Rightarrow> int \<rightharpoonup> u64 \<times> u64" where
  "side_map is_bid b = level_map (live (sd_levels (side_of is_bid b)))"

definition worst :: "bool \<Rightarrow> int set \<Rightarrow> int" where
  "worst is_bid ps = (if is_bid then Min ps else Max ps)"

definition map_update :: "nat \<Rightarrow> bool \<Rightarrow> int \<Rightarrow> u64 \<Rightarrow> (int \<rightharpoonup> u64 \<times> u64) \<Rightarrow> int \<rightharpoonup> u64 \<times> u64" where
  "map_update m is_bid p q M =
     (if p \<le> 0 then M
      else if q = 0 then M(p := None)
      else case M p of
        Some (q0, depleted) \<Rightarrow> M(p \<mapsto> (q, min q depleted))
      | None \<Rightarrow>
          if card (dom M) < m then M(p \<mapsto> (q, 0))
          else if better_price is_bid p (worst is_bid (dom M)) then (M(worst is_bid (dom M) := None))(p \<mapsto> (q, 0))
          else M)"

lemma level_map_append: "level_map (xs @ ys) = level_map ys ++ level_map xs"
  by (simp add: level_map_def)

lemma level_map_Cons: "level_map (l # xs) = (level_map xs)(l2_price l \<mapsto> (l2_qty l, l2_depleted l))"
  by (simp add: level_map_def)

lemma level_map_Nil [simp]: "level_map [] = Map.empty"
  by (simp add: level_map_def)

lemma dom_level_map: "dom (level_map xs) = l2_price ` set xs"
  by (simp add: level_map_def dom_map_of_conv_image_fst image_image)

lemma level_map_None: "level_map xs p = None \<longleftrightarrow> (\<forall>l\<in>set xs. l2_price l \<noteq> p)"
proof -
  have "level_map xs p = None \<longleftrightarrow> p \<notin> dom (level_map xs)"
    by (cases "level_map xs p") (simp_all add: dom_def)
  then show ?thesis unfolding dom_level_map by auto
qed

lemma side_sorted_distinct: "side_sorted is_bid xs \<Longrightarrow> distinct (map l2_price xs)"
proof (induction xs)
  case (Cons l xs)
  then have "l2_price l \<noteq> l2_price b" if "b \<in> set xs" for b
    using that better_price_simps(2) by (metis side_sorted_Cons)
  then show ?case using Cons by (auto simp: side_sorted_Cons)
qed simp

lemma worst_last:
  assumes "side_sorted is_bid xs" "xs \<noteq> []"
  shows "worst is_bid (l2_price ` set xs) = l2_price (last xs)"
proof -
  obtain ys l where xs: "xs = ys @ [l]" using assms(2) by (metis rev_exhaust)
  have b: "\<forall>y\<in>set ys. better_price is_bid (l2_price y) (l2_price l)"
    using assms(1) by (simp add: xs side_sorted_append)
  show ?thesis
  proof (cases is_bid)
    case True
    then have "Min (l2_price ` set xs) = l2_price l"
      using b by (intro Min_eqI) (force simp: xs better_price_def)+
    then show ?thesis using True by (simp add: worst_def xs)
  next
    case False
    then have "Max (l2_price ` set xs) = l2_price l"
      using b by (intro Max_eqI) (force simp: xs better_price_def)+
    then show ?thesis using False by (simp add: worst_def xs)
  qed
qed

lemma level_map_middle:
  assumes "side_sorted is_bid (pre @ l # post)"
  shows "level_map (pre @ l # post) = (level_map (pre @ post))(l2_price l \<mapsto> (l2_qty l, l2_depleted l))"
    "(level_map (pre @ l # post))(l2_price l := None) = level_map (pre @ post)"
proof -
  have "\<forall>a\<in>set (pre @ post). l2_price a \<noteq> l2_price l"
    using side_sorted_distinct [OF assms] by (force simp: image_iff)
  then have none: "level_map (pre @ post) (l2_price l) = None" "level_map pre (l2_price l) = None"
    by (simp_all add: level_map_None)
  then show eq: "level_map (pre @ l # post) = (level_map (pre @ post))(l2_price l \<mapsto> (l2_qty l, l2_depleted l))"
    by (auto simp: level_map_append level_map_Cons map_add_def fun_eq_iff split: option.split)
  show "(level_map (pre @ l # post))(l2_price l := None) = level_map (pre @ post)"
    unfolding eq using none by (simp add: fun_upd_idem)
qed

lemma update_list_map:
  assumes ok: "levels_ok m is_bid xs" and m: "0 < m" and p: "0 < p"
  shows "level_map (update_list m is_bid p q xs) = map_update m is_bid p q (level_map xs)"
proof -
  have sorted: "side_sorted is_bid xs" using ok by (simp add: levels_ok_def)
  have card: "card (dom (level_map xs)) = length xs"
    unfolding dom_level_map using distinct_card [OF side_sorted_distinct [OF sorted]] by simp
  have new: "side_sorted is_bid (update_list m is_bid p q xs)"
    using update_list_ok [OF ok m p, of q] by (simp add: levels_ok_def)
  obtain pre post where sp: "xs = pre @ post" "\<forall>l\<in>set pre. better_price is_bid (l2_price l) p"
    "\<forall>l\<in>set post. \<not> better_price is_bid (l2_price l) p"
    by (rule side_split [OF sorted, of p])
  note cut = update_list_split [OF sp(2,3)]
  let ?new = "\<lparr>l2_price = p, l2_qty = q, l2_depleted = 0\<rparr>"
  show ?thesis
  proof (cases "post \<noteq> [] \<and> l2_price (hd post) = p")
    case True
    then obtain l rest where post: "post = l # rest" "l2_price l = p" by (cases post) auto
    note mid = level_map_middle [OF sorted [unfolded sp(1) post(1)], unfolded post(2)]
    show ?thesis
    proof (cases "q = 0")
      case True
      then have "update_list m is_bid p q xs = pre @ rest"
        using post cut by (simp add: update_list_def sp(1) Let_def)
      then show ?thesis using True p mid(2) by (simp add: map_update_def sp(1) post(1))
    next
      case False
      let ?l = "l\<lparr>l2_qty := q, l2_depleted := min q (l2_depleted l)\<rparr>"
      have eq: "update_list m is_bid p q xs = pre @ ?l # rest"
        using False post cut by (simp add: update_list_def sp(1) Let_def)
      have "level_map xs p = Some (l2_qty l, l2_depleted l)" by (simp add: sp(1) post(1) mid(1))
      then show ?thesis
        using False p mid(1) level_map_middle(1) [OF new [unfolded eq]] post(2) unfolding eq map_update_def
        by (simp add: sp(1) post(1))
    qed
  next
    case False
    have deep: "\<forall>l\<in>set post. better_price is_bid p (l2_price l)"
      by (rule deeper_rest) (use sorted sp(1,3) False in \<open>auto simp: side_sorted_append\<close>)
    have none: "level_map xs p = None"
      unfolding level_map_None using sp(1,2) deep better_price_simps(2) by auto
    consider (same) "q = 0 \<or> m \<le> length xs \<and> \<not> better_price is_bid p (l2_price (last xs))"
      | (room) "q \<noteq> 0" "length xs < m" | (full) "q \<noteq> 0" "m \<le> length xs" "better_price is_bid p (l2_price (last xs))"
      by linarith
    then show ?thesis
    proof cases
      case same
      have "xs \<noteq> []" if "m \<le> length xs" using that m by auto
      then have "map_update m is_bid p q (level_map xs) = level_map xs"
        using same none p card worst_last [OF sorted] by (auto simp: map_update_def dom_level_map fun_upd_idem)
      then show ?thesis using same False cut by (auto simp: update_list_def sp(1) Let_def)
    next
      case room
      have eq: "update_list m is_bid p q xs = pre @ ?new # post"
        using room False cut by (auto simp: update_list_def sp(1) Let_def)
      show ?thesis
        using level_map_middle(1) [OF new [unfolded eq]] room none p card
        by (simp add: map_update_def eq) (simp add: sp(1))
    next
      case full
      then have ne: "xs \<noteq> []" using m by auto
      then have "post \<noteq> []" using full(3) sp(1,2) better_price_simps(4) by (metis append_Nil2 last_in_set)
      then obtain post' l where post: "post = post' @ [l]" by (metis rev_exhaust)
      have eq: "update_list m is_bid p q xs = pre @ ?new # post'"
        using full False cut post ne by (auto simp: update_list_def sp(1) Let_def)
      have w: "worst is_bid (dom (level_map xs)) = l2_price l"
        using worst_last [OF sorted ne] by (simp add: dom_level_map sp(1) post)
      have gone: "(level_map xs)(l2_price l := None) = level_map (pre @ post')"
        using level_map_middle(2) [of is_bid "pre @ post'" l "[]"] sorted by (simp add: sp(1) post)
      have "better_price is_bid p (l2_price l)" using full(3) by (simp add: sp(1) post)
      then have "map_update m is_bid p q (level_map xs) = (level_map (pre @ post'))(p \<mapsto> (q, 0))"
        using full none p card w gone by (simp add: map_update_def)
      then show ?thesis
        using level_map_middle(1) [OF new [unfolded eq]] by (simp add: eq)
    qed
  qed
qed

subsection \<open>Reads\<close>

lemma best_is_extreme:
  assumes "side_sorted is_bid xs"
  shows "(case xs of [] \<Rightarrow> 0 | l # _ \<Rightarrow> l2_price l) = (if xs = [] then 0 else worst (\<not> is_bid) (l2_price ` set xs))"
proof (cases xs)
  case (Cons l ys)
  then have b: "\<forall>y\<in>set ys. better_price is_bid (l2_price l) (l2_price y)"
    using assms by (simp add: side_sorted_Cons)
  show ?thesis
  proof (cases is_bid)
    case True
    then have "Max (l2_price ` set xs) = l2_price l"
      using b by (intro Max_eqI) (force simp: Cons better_price_def)+
    then show ?thesis using True by (simp add: worst_def Cons)
  next
    case False
    then have "Min (l2_price ` set xs) = l2_price l"
      using b by (intro Min_eqI) (force simp: Cons better_price_def)+
    then show ?thesis using False by (simp add: worst_def Cons)
  qed
qed simp

lemma effective_lookup:
  assumes "side_sorted is_bid xs"
  shows "(let it = find_l2_level xs is_bid p in
      if it = length xs \<or> l2_price (xs ! it) \<noteq> p then 0 else effective_qty_of (xs ! it))
    = (case level_map xs p of None \<Rightarrow> 0 | Some (q, d) \<Rightarrow> if d < q then q - d else 0)"
proof (cases "\<exists>l\<in>set xs. l2_price l = p")
  case True
  then obtain l where l: "l \<in> set xs" "l2_price l = p" by blast
  then have "level_map xs p = Some (l2_qty l, l2_depleted l)"
    unfolding level_map_def using side_sorted_distinct [OF assms] by (intro map_of_is_SomeI) (auto simp: comp_def)
  then show ?thesis
    using find_level_at [OF assms l] l(2) by (simp add: Let_def effective_qty_of_def)
next
  case False
  have "find_l2_level xs is_bid p \<le> length xs"
    using find_level_split [OF assms] by (simp add: length_takeWhile_le)
  then have "find_l2_level xs is_bid p = length xs \<or> l2_price (xs ! find_l2_level xs is_bid p) \<noteq> p"
    using False nth_mem by (metis le_neq_implies_less)
  moreover have "level_map xs p = None"
    using False by (simp add: level_map_None)
  ultimately show ?thesis by (auto simp: Let_def)
qed

lemma unat_sum_words:
  "sum_list (map (unat \<circ> f) xs) < 2 ^ 64 \<Longrightarrow> unat (sum_list (map f xs) :: u64) = sum_list (map (unat \<circ> f) xs)"
  by (induction xs) (simp_all add: unat_word_ariths)

lemma effective_totals:
  assumes "sum_list (map (unat \<circ> l2_qty) xs) < 2 ^ 64" "sum_list (map (unat \<circ> l2_depleted) xs) < 2 ^ 64"
  defines "E \<equiv> sum_list (map (unat \<circ> effective_qty_of) xs)"
  defines "A \<equiv> (if sum_list (map l2_depleted xs) < sum_list (map l2_qty xs)
      then sum_list (map l2_qty xs) - sum_list (map l2_depleted xs) else 0)"
  shows "unat A \<le> E \<and> ((\<forall>l\<in>set xs. l2_depleted l \<le> l2_qty l) \<longrightarrow> unat A = E)"
proof -
  have one: "unat (effective_qty_of l) = unat (l2_qty l) - unat (l2_depleted l)" for l
    by (auto simp: effective_qty_of_def unat_sub word_less_nat_alt word_le_nat_alt)
  have A: "unat A = sum_list (map (unat \<circ> l2_qty) xs) - sum_list (map (unat \<circ> l2_depleted) xs)"
    unfolding A_def using unat_sum_words [OF assms(1)] unat_sum_words [OF assms(2)]
    by (auto simp: unat_sub word_less_nat_alt word_le_nat_alt)
  have le: "sum_list (map (unat \<circ> l2_qty) ys) \<le> sum_list (map (unat \<circ> effective_qty_of) ys) + sum_list (map (unat \<circ> l2_depleted) ys)" for ys
    by (induction ys) (auto simp: one)
  have eq: "(\<forall>l\<in>set ys. l2_depleted l \<le> l2_qty l) \<Longrightarrow>
      sum_list (map (unat \<circ> l2_qty) ys) = sum_list (map (unat \<circ> effective_qty_of) ys) + sum_list (map (unat \<circ> l2_depleted) ys)" for ys
    by (induction ys) (auto simp: one word_le_nat_alt)
  show ?thesis
    unfolding A E_def using le [of xs] eq [of xs] by auto
qed

subsection \<open>The properties\<close>

text \<open>C20: Whatever updates, snapshots, depletions, retentions, capacity changes and clears a
  book goes through, each side holds at most its capacity of levels, at positive prices
  with a quantity, strictly sorted best first, and its four running totals are exactly
  the sums over those levels; the quantities are sums modulo \<open>2 ^ 64\<close>, and no counter
  of depleted quantity is assumed to wrap.\<close>
theorem l2_runs_keep_order_and_totals:
  assumes "counters_fit ops (new_l2_book n)"
  shows "l2_ok (fold l2_step ops (new_l2_book n))"
  using l2_run_ok [OF new_l2_ok assms] .

definition l2_event :: "bool \<Rightarrow> bool \<Rightarrow> int \<Rightarrow> u64 \<Rightarrow> l2_op" where
  "l2_event snapshot is_bid p q = Update_op \<lparr>l2e_timestamp_ns = 0, l2e_price = p, l2e_qty = q,
     l2e_is_snapshot = snapshot, l2e_is_bid = is_bid\<rparr>"

definition l2_ops :: "l2_op list" where
  "l2_ops = [l2_event True True 100 5, l2_event False True 102 3, l2_event False True 101 9, l2_event False False 104 2,
     Deplete_op True 102 1]"

theorem l2_runs_keep_order_and_totals_witness:
  "side_map True (fold l2_step l2_ops (new_l2_book 2)) 102 = Some (3, 1)
    \<and> counted (l2_bids (fold l2_step l2_ops (new_l2_book 2)))"
proof
  show "side_map True (fold l2_step l2_ops (new_l2_book 2)) 102 = Some (3, 1)" by code_simp
  have "counters_fit l2_ops (new_l2_book 2)" unfolding depletes_within_def by code_simp
  from l2_runs_keep_order_and_totals [OF this] show "counted (l2_bids (fold l2_step l2_ops (new_l2_book 2)))"
    by (simp add: l2_ok_def side_ok_def)
qed

text \<open>C21: An update refines the finite map of its side and leaves the other side alone: a
  zero quantity deletes the price, a known price keeps its depleted quantity cut to the
  new quantity, a new price is added while there is room and otherwise takes the place of
  the worst price if it is better than that; the vector, the linear or binary search and
  the shifting do not show.\<close>
theorem l2_update_refines_map:
  assumes "l2_ok b"
  shows "side_map is_bid (update_level is_bid p q b)
      = map_update (max_levels_per_side b) is_bid p q (side_map is_bid b)
    \<and> side_map (\<not> is_bid) (update_level is_bid p q b) = side_map (\<not> is_bid) b"
proof (cases "p \<le> 0")
  case False
  let ?s = "side_of is_bid b" and ?m = "max_levels_per_side b"
  have ok: "side_ok ?m is_bid ?s" "0 < ?m" "?m \<le> l2_capacity"
    using assms by (cases is_bid; simp add: l2_ok_def side_of_def)+
  have "level_map (live (sd_levels (update_side ?m is_bid p q ?s))) = map_update ?m is_bid p q (level_map (live (sd_levels ?s)))"
    using update_side_list [OF ok(1,3,2), of p q] update_list_map [of ?m is_bid "live (sd_levels ?s)" p q] ok(1,2) False
    by (simp add: side_ok_def)
  then show ?thesis
    using False by (cases is_bid) (simp_all add: side_map_def update_level_def on_side_def side_of_def)
qed (simp add: update_level_def map_update_def)

theorem l2_update_refines_map_witness:
  "side_map True (update_level True 103 4 (fold l2_step l2_ops (new_l2_book 2))) 101 = None
    \<and> side_map True (update_level True 103 4 (fold l2_step l2_ops (new_l2_book 2))) 102 = Some (3, 1)"
proof -
  let ?b = "fold l2_step l2_ops (new_l2_book 2)"
  have "counters_fit l2_ops (new_l2_book 2)" unfolding depletes_within_def by code_simp
  then have ok: "l2_ok ?b" using l2_run_ok [OF new_l2_ok] by simp
  have live: "live (sd_levels (l2_bids ?b)) = [\<lparr>l2_price = 102, l2_qty = 3, l2_depleted = 1\<rparr>, \<lparr>l2_price = 101, l2_qty = 9, l2_depleted = 0\<rparr>]"
    "max_levels_per_side ?b = 2"
    by code_simp+
  then have m: "side_map True ?b = [102 \<mapsto> (3, 1), 101 \<mapsto> (9, 0)]"
    by (auto simp: side_map_def side_of_def level_map_def fun_eq_iff)
  show ?thesis
    using l2_update_refines_map [OF ok, of True 103 4] m live(2)
    by (simp add: map_update_def worst_def better_price_def)
qed

text \<open>The reads of a side: the best price is the extreme price on it, or zero when it is
  empty; the effective quantity at a price is what its level holds beyond its depleted
  quantity; and the aggregate effective quantity never overstates the sum of the
  effective quantities, and equals it while no level is depleted beyond what it holds.\<close>
theorem l2_reads:
  assumes "l2_ok b" and "sum_list (map (unat \<circ> l2_qty) (live (sd_levels (side_of is_bid b)))) < 2 ^ 64"
    and "sum_list (map (unat \<circ> l2_depleted) (live (sd_levels (side_of is_bid b)))) < 2 ^ 64"
  shows "best_price is_bid b = (if dom (side_map is_bid b) = {} then 0 else worst (\<not> is_bid) (dom (side_map is_bid b)))
    \<and> (0 < p \<longrightarrow> effective_qty is_bid p b
        = (case side_map is_bid b p of None \<Rightarrow> 0 | Some (q, d) \<Rightarrow> if d < q then q - d else 0))
    \<and> unat (side_effective_qty (side_of is_bid b))
        \<le> sum_list (map (unat \<circ> effective_qty_of) (live (sd_levels (side_of is_bid b))))
    \<and> ((\<forall>l\<in>set (live (sd_levels (side_of is_bid b))). l2_depleted l \<le> l2_qty l) \<longrightarrow>
        unat (side_effective_qty (side_of is_bid b))
        = sum_list (map (unat \<circ> effective_qty_of) (live (sd_levels (side_of is_bid b)))))"
proof -
  let ?s = "side_of is_bid b"
  let ?xs = "live (sd_levels ?s)"
  have ok: "side_ok (max_levels_per_side b) is_bid ?s"
    using assms(1) by (simp add: l2_ok_def side_of_def)
  then have sorted: "side_sorted is_bid ?xs" and c: "counted ?s" by (simp_all add: side_ok_def levels_ok_def)
  have total: "side_effective_qty ?s = (if sum_list (map l2_depleted ?xs) < sum_list (map l2_qty ?xs)
      then sum_list (map l2_qty ?xs) - sum_list (map l2_depleted ?xs) else 0)"
    unfolding side_effective_qty_def using c [unfolded counted_def Let_def] by (elim conjE) (simp only:)
  have best: "best_price is_bid b = (if dom (side_map is_bid b) = {} then 0 else worst (\<not> is_bid) (dom (side_map is_bid b)))"
    using best_is_extreme [OF sorted] by (simp add: best_price_def side_map_def dom_level_map)
  have one: "0 < p \<longrightarrow> effective_qty is_bid p b
      = (case side_map is_bid b p of None \<Rightarrow> 0 | Some (q, d) \<Rightarrow> if d < q then q - d else 0)"
    using effective_lookup [OF sorted, of p] by (simp add: effective_qty_def side_map_def)
  show ?thesis
    using best one effective_totals [OF assms(2,3), folded total] by blast
qed

theorem l2_reads_witness:
  "best_price True (fold l2_step l2_ops (new_l2_book 2)) = 102
    \<and> unat (side_effective_qty (l2_bids (fold l2_step l2_ops (new_l2_book 2)))) = 11"
proof -
  let ?b = "fold l2_step l2_ops (new_l2_book 2)"
  have "counters_fit l2_ops (new_l2_book 2)" unfolding depletes_within_def by code_simp
  then have ok: "l2_ok ?b" using l2_run_ok [OF new_l2_ok] by simp
  have live: "live (sd_levels (l2_bids ?b)) = [\<lparr>l2_price = 102, l2_qty = 3, l2_depleted = 1\<rparr>, \<lparr>l2_price = 101, l2_qty = 9, l2_depleted = 0\<rparr>]"
    by code_simp
  then have "dom (side_map True ?b) = {102, 101}" by (simp add: side_map_def side_of_def dom_level_map)
  then show ?thesis
    using l2_reads [OF ok, of True] live by (simp add: side_of_def effective_qty_of_def worst_def)
qed

end
