(* ===== verification/Wallet.thy ===== *)
theory Wallet
  imports LatencyModel Complex_Main "HOL-Library.Signed_Division"
begin

section \<open>The fixed-point wallet\<close>

text \<open>
  \<open>Wallet\<close> of \<open>include/lob/wallet.hpp\<close>: balances, reservations and liquidation
  factors of up to 256 assets as 64-bit fixed-point numbers with eight decimals, and
  two cached totals. Every 64-bit result is narrowed from a 128-bit one with a check,
  so the values are \<^typ>\<open>int\<close>; division truncates toward zero. What a call
  returns by \<open>bool\<close> is the first component of its result. A \<open>double\<close> is its bit
  pattern; the rounded fee multiplier and the \<open>long double\<close> product by the scale, a
  rational number, are the record \<open>wallet_fp\<close>, a parameter about which nothing is
  assumed; the comparisons with the limits of \<open>int64\<close> are exact, as they are in the
  80-bit format of x86. (Where \<open>long double\<close> is the 64-bit format, the upper limit rounds to \<open>2 ^ 63\<close>,
  which would pass the check; such a platform is not modelled.)
\<close>

record wallet_fp =
  fee_multiplier_of :: "double \<Rightarrow> double"
  times_scale :: "double \<Rightarrow> rat"

record wallet =
  wl_balances :: "int list"
  wl_reserved :: "int list"
  wl_factors :: "int list"
  active_asset_count :: nat
  quote_currency_id :: asset_id
  cached_nav :: int
  cached_risk :: int

datatype wallet_error = Configuration_out_of_range | Conversion_overflow

definition max_wallet_assets :: nat where "max_wallet_assets = 256"
definition k_scale :: int where "k_scale = 100000000"

definition new_wallet :: wallet where
  "new_wallet = \<lparr>wl_balances = replicate max_wallet_assets 0, wl_reserved = replicate max_wallet_assets 0,
     wl_factors = replicate max_wallet_assets 0, active_asset_count = 0, quote_currency_id = 0,
     cached_nav = 0, cached_risk = 0\<rparr>"

subsection \<open>Arithmetic\<close>

definition checked_narrow :: "int \<Rightarrow> int \<times> bool" where
  "checked_narrow v = (if v < i64_min \<or> i64_max < v then (0, False) else (v, True))"

definition mul_scaled :: "int \<Rightarrow> int \<Rightarrow> int \<times> bool" where
  "mul_scaled lhs rhs = checked_narrow ((lhs * rhs) sdiv k_scale)"

definition abs_saturated :: "int \<Rightarrow> int" where
  "abs_saturated v = (if v = i64_min then i64_max else if v < 0 then - v else v)"

definition llround :: "rat \<Rightarrow> int" where
  "llround x = (if x < 0 then - \<lfloor>1 / 2 - x\<rfloor> else \<lfloor>x + 1 / 2\<rfloor>)"

definition from_double :: "wallet_fp \<Rightarrow> double \<Rightarrow> int option" where
  "from_double fp value =
     (if \<not> is_finite value then None
      else let scaled = times_scale fp value in
        if scaled < of_int i64_min \<or> of_int i64_max < scaled then None else Some (llround scaled))"

definition from_double_or_throw :: "wallet_fp \<Rightarrow> double \<Rightarrow> wallet_error + int" where
  "from_double_or_throw fp value =
     (case from_double fp value of None \<Rightarrow> Inl Conversion_overflow | Some x \<Rightarrow> Inr x)"

subsection \<open>Reads\<close>

definition wallet_contains :: "asset_id \<Rightarrow> wallet \<Rightarrow> bool" where
  "wallet_contains a w \<longleftrightarrow> unat a < active_asset_count w"

definition wallet_balance :: "asset_id \<Rightarrow> wallet \<Rightarrow> int" where
  "wallet_balance a w = (if wallet_contains a w then wl_balances w ! unat a else 0)"

definition wallet_reserved :: "asset_id \<Rightarrow> wallet \<Rightarrow> int" where
  "wallet_reserved a w = (if wallet_contains a w then wl_reserved w ! unat a else 0)"

definition free_balance :: "asset_id \<Rightarrow> wallet \<Rightarrow> int" where
  "free_balance a w =
     (if \<not> wallet_contains a w then 0
      else fst (checked_narrow (wl_balances w ! unat a - wl_reserved w ! unat a)))"

definition liquidation_factor :: "asset_id \<Rightarrow> wallet \<Rightarrow> int" where
  "liquidation_factor a w = (if wallet_contains a w then wl_factors w ! unat a else 0)"

subsection \<open>The cached totals\<close>

definition recomputed_nav :: "wallet \<Rightarrow> int" where
  "recomputed_nav w =
     sum_list (map (\<lambda>i. (wl_balances w ! i * wl_factors w ! i) sdiv k_scale) [0..<active_asset_count w])"

definition recomputed_risk :: "wallet \<Rightarrow> int" where
  "recomputed_risk w =
     sum_list (map (\<lambda>i. if i \<noteq> unat (quote_currency_id w)
         then (abs_saturated (wl_balances w ! i) * wl_factors w ! i) sdiv k_scale else 0)
       [0..<active_asset_count w])"

definition recompute_cached_totals :: "wallet \<Rightarrow> bool \<times> wallet" where
  "recompute_cached_totals w =
     (let (nav, nav_ok) = checked_narrow (recomputed_nav w);
          (risk, risk_ok) = checked_narrow (recomputed_risk w)
      in if \<not> nav_ok \<or> \<not> risk_ok then (False, w) else (True, w\<lparr>cached_nav := nav, cached_risk := risk\<rparr>))"

definition wallet_reset :: "nat \<Rightarrow> asset_id \<Rightarrow> int \<Rightarrow> wallet \<Rightarrow> wallet_error + wallet" where
  "wallet_reset asset_count quote quote_balance w =
     (if asset_count = 0 \<or> max_wallet_assets < asset_count \<or> asset_count \<le> unat quote
      then Inl Configuration_out_of_range
      else Inr (snd (recompute_cached_totals
        (w\<lparr>wl_balances := (replicate max_wallet_assets 0)[unat quote := quote_balance],
           wl_reserved := replicate max_wallet_assets 0,
           wl_factors := (replicate max_wallet_assets 0)[unat quote := k_scale],
           active_asset_count := asset_count, quote_currency_id := quote\<rparr>))))"

definition wallet_set_balance :: "asset_id \<Rightarrow> int \<Rightarrow> wallet \<Rightarrow> bool \<times> wallet" where
  "wallet_set_balance a value w =
     (let factor = wl_factors w ! unat a;
          old_balance = wl_balances w ! unat a;
          (old_nav, old_nav_ok) = mul_scaled old_balance factor;
          (new_nav, new_nav_ok) = mul_scaled value factor;
          (old_risk, old_risk_ok) =
            (if a = quote_currency_id w then (0, True) else mul_scaled (abs_saturated old_balance) factor);
          (new_risk, new_risk_ok) =
            (if a = quote_currency_id w then (0, True) else mul_scaled (abs_saturated value) factor)
      in if \<not> old_nav_ok \<or> \<not> new_nav_ok \<or> \<not> old_risk_ok \<or> \<not> new_risk_ok then (False, w)
         else
           let (nav, nav_ok) = checked_narrow (cached_nav w - old_nav + new_nav);
               (risk, risk_ok) = checked_narrow (cached_risk w - old_risk + new_risk)
           in if \<not> nav_ok \<or> \<not> risk_ok then (False, w)
              else (True, w\<lparr>wl_balances := (wl_balances w)[unat a := value],
                     cached_nav := nav, cached_risk := risk\<rparr>))"

subsection \<open>Balances and reservations\<close>

definition add_balance :: "asset_id \<Rightarrow> int \<Rightarrow> wallet \<Rightarrow> bool \<times> wallet" where
  "add_balance a quantity w =
     (if \<not> wallet_contains a w then (False, w)
      else let (value, ok) = checked_narrow (wl_balances w ! unat a + quantity) in
        if ok then wallet_set_balance a value w else (False, w))"

definition sub_balance :: "asset_id \<Rightarrow> int \<Rightarrow> wallet \<Rightarrow> bool \<times> wallet" where
  "sub_balance a quantity w = (if quantity = i64_min then (False, w) else add_balance a (- quantity) w)"

definition reserve_balance :: "asset_id \<Rightarrow> int \<Rightarrow> wallet \<Rightarrow> bool \<times> wallet" where
  "reserve_balance a quantity w =
     (if \<not> wallet_contains a w \<or> quantity < 0 \<or> free_balance a w < quantity then (False, w)
      else let (value, ok) = checked_narrow (wl_reserved w ! unat a + quantity) in
        if \<not> ok then (False, w) else (True, w\<lparr>wl_reserved := (wl_reserved w)[unat a := value]\<rparr>))"

definition release_reserved :: "asset_id \<Rightarrow> int \<Rightarrow> wallet \<Rightarrow> bool \<times> wallet" where
  "release_reserved a quantity w =
     (if \<not> wallet_contains a w \<or> quantity < 0 \<or> wl_reserved w ! unat a < quantity then (False, w)
      else (True, w\<lparr>wl_reserved := (wl_reserved w)[unat a := wl_reserved w ! unat a - quantity]\<rparr>))"

definition consume_wallet_reserved :: "asset_id \<Rightarrow> int \<Rightarrow> wallet \<Rightarrow> bool \<times> wallet" where
  "consume_wallet_reserved a quantity w =
     (if \<not> wallet_contains a w \<or> quantity < 0 \<or> wl_reserved w ! unat a < quantity
         \<or> wl_balances w ! unat a < quantity then (False, w)
      else
        let old_reserved = wl_reserved w ! unat a;
            (ok, w') = sub_balance a quantity
              (w\<lparr>wl_reserved := (wl_reserved w)[unat a := old_reserved - quantity]\<rparr>)
        in if \<not> ok then (False, w'\<lparr>wl_reserved := (wl_reserved w')[unat a := old_reserved]\<rparr>)
           else (True, w'))"

subsection \<open>Liquidation factors\<close>

definition set_liquidation_factor :: "asset_id \<Rightarrow> int \<Rightarrow> wallet \<Rightarrow> bool \<times> wallet" where
  "set_liquidation_factor a factor w =
     (if \<not> wallet_contains a w \<or> factor < 0 then (False, w)
      else
        let old_factor = wl_factors w ! unat a;
            (ok, w') = recompute_cached_totals (w\<lparr>wl_factors := (wl_factors w)[unat a := factor]\<rparr>)
        in if ok then (True, w')
           else (False, snd (recompute_cached_totals
             (w'\<lparr>wl_factors := (wl_factors w')[unat a := old_factor]\<rparr>))))"

fun refresh_loop :: "(asset_id \<Rightarrow> int) \<Rightarrow> asset_id \<Rightarrow> nat list \<Rightarrow> int list \<Rightarrow> int list option" where
  "refresh_loop provider quote [] factors = Some factors"
| "refresh_loop provider quote (i # is) factors =
     (let asset = of_nat i; factor = (if asset = quote then k_scale else provider asset) in
      if factor < 0 then None else refresh_loop provider quote is (factors[i := factor]))"

definition refresh_liquidation_factors :: "(asset_id \<Rightarrow> int) \<Rightarrow> wallet \<Rightarrow> bool \<times> wallet" where
  "refresh_liquidation_factors provider w =
     (let old_factors = wl_factors w in
      case refresh_loop provider (quote_currency_id w) [0..<active_asset_count w] old_factors of
        None \<Rightarrow> (False, w)
      | Some factors \<Rightarrow>
          let (ok, w') = recompute_cached_totals (w\<lparr>wl_factors := factors\<rparr>) in
          if ok then (True, w')
          else (False, snd (recompute_cached_totals (w'\<lparr>wl_factors := old_factors\<rparr>))))"

subsection \<open>Fills\<close>

text \<open>The short-circuit \<open>f && g\<close> of two calls.\<close>

definition and_then :: "(wallet \<Rightarrow> bool \<times> wallet) \<Rightarrow> (wallet \<Rightarrow> bool \<times> wallet) \<Rightarrow> wallet \<Rightarrow> bool \<times> wallet" where
  "and_then f g w = (case f w of (ok, w1) \<Rightarrow> if ok then g w1 else (False, w1))"

definition apply_spot_fill ::
  "wallet_fp \<Rightarrow> asset_id \<Rightarrow> asset_id \<Rightarrow> side \<Rightarrow> u64 \<Rightarrow> int \<Rightarrow> double \<Rightarrow> wallet \<Rightarrow> bool \<times> wallet" where
  "apply_spot_fill fp base_asset quote_asset sd base_quantity price fee_bps w =
     (if \<not> wallet_contains base_asset w \<or> \<not> wallet_contains quote_asset w \<or> price < 0 then (False, w)
      else
        let (base, base_ok) = checked_narrow (uint base_quantity);
            (quote, quote_ok) = mul_scaled base price
        in case from_double fp (fee_multiplier_of fp fee_bps) of
             None \<Rightarrow> (False, w)
           | Some fee_multiplier \<Rightarrow>
               if fee_multiplier < 0 then (False, w)
               else
                 let (net_base, net_base_ok) = mul_scaled base fee_multiplier;
                     (net_quote, net_quote_ok) = mul_scaled quote fee_multiplier
                 in if \<not> base_ok \<or> \<not> quote_ok \<or> \<not> net_base_ok \<or> \<not> net_quote_ok then (False, w)
                    else
                      let (ok, w') =
                        (if sd = Buy
                         then and_then (add_balance base_asset net_base) (sub_balance quote_asset quote) w
                         else and_then (sub_balance base_asset base) (add_balance quote_asset net_quote) w)
                      in if \<not> ok
                         then (False, w'\<lparr>wl_balances := wl_balances w, cached_nav := cached_nav w,
                                cached_risk := cached_risk w\<rparr>)
                         else (True, w'))"

definition apply_fill :: "wallet_fp \<Rightarrow> asset_id \<Rightarrow> int \<Rightarrow> double \<Rightarrow> wallet \<Rightarrow> int option \<times> wallet" where
  "apply_fill fp a gross_quantity taker_fee_bps w =
     (case (if gross_quantity < 0 then None else from_double fp (fee_multiplier_of fp taker_fee_bps)) of
        None \<Rightarrow> (None, w)
      | Some multiplier \<Rightarrow>
          if multiplier < 0 then (None, w)
          else
            let (net, net_ok) = mul_scaled gross_quantity multiplier in
            if \<not> net_ok then (None, w)
            else
              let (ok, w') = add_balance a net w in
              if \<not> ok then (None, w') else (Some net, w'))"

end
