(* ===== verification/WalletProperties.thy ===== *)
theory WalletProperties
  imports Wallet
begin

section \<open>Properties of the wallet\<close>

text \<open>
  The cached totals of a well-formed wallet are the ones a recomputation would give,
  every call keeps it so, and a call that returns false changes nothing.
\<close>

text \<open>Every stored number is an \<open>int64\<close> value, and no reservation or factor is negative.\<close>

definition wallet_typed :: "wallet \<Rightarrow> bool" where
  "wallet_typed w \<longleftrightarrow> length (wl_balances w) = max_wallet_assets \<and> length (wl_reserved w) = max_wallet_assets
     \<and> length (wl_factors w) = max_wallet_assets \<and> active_asset_count w \<le> max_wallet_assets
     \<and> list_all in_i64 (wl_balances w) \<and> list_all (\<lambda>r. 0 \<le> r \<and> in_i64 r) (wl_reserved w)
     \<and> list_all (\<lambda>f. 0 \<le> f \<and> in_i64 f) (wl_factors w) \<and> in_i64 (cached_nav w) \<and> in_i64 (cached_risk w)"

definition totals_cached :: "wallet \<Rightarrow> bool" where
  "totals_cached w \<longleftrightarrow> cached_nav w = recomputed_nav w \<and> cached_risk w = recomputed_risk w"

definition wallet_ok :: "wallet \<Rightarrow> bool" where
  "wallet_ok w \<longleftrightarrow> wallet_typed w \<and> totals_cached w"

lemma narrow_iff: "checked_narrow v = (x, True) \<longleftrightarrow> x = v \<and> in_i64 v"
  by (auto simp: checked_narrow_def in_i64_def)

lemma narrow_cases:
  obtains "checked_narrow v = (v, True)" "in_i64 v" | "checked_narrow v = (0, False)" "\<not> in_i64 v"
  by (cases "in_i64 v") (auto simp: checked_narrow_def in_i64_def)

lemma narrow_in: "in_i64 v \<Longrightarrow> checked_narrow v = (v, True)"
  by (simp add: narrow_iff)

lemma narrow_0: "checked_narrow 0 = (0, True)" "0 sdiv k_scale = 0"
  by (simp_all add: checked_narrow_def i64_min_def i64_max_def signed_divide_int_def)

lemma list_all_upd: "list_all P xs \<Longrightarrow> P x \<Longrightarrow> list_all P (xs[i := x])"
  by (auto simp: list_all_iff dest: set_upd)

lemma list_all_replicate: "P x \<Longrightarrow> list_all P (replicate n x)"
  by (simp add: list_all_iff)

lemma sum_upt_change:
  fixes f g :: "nat \<Rightarrow> int"
  assumes "i < n" "\<And>j. j < n \<Longrightarrow> j \<noteq> i \<Longrightarrow> g j = f j"
  shows "sum_list (map g [0..<n]) = sum_list (map f [0..<n]) - f i + g i"
proof -
  have "sum_list (map h [0..<n]) = h i + sum h ({..<n} - {i})" for h :: "nat \<Rightarrow> int"
    using assms(1) by (simp add: interv_sum_list_conv_sum_set_nat atLeast0LessThan sum.remove)
  moreover have "sum g ({..<n} - {i}) = sum f ({..<n} - {i})"
    using assms(2) by (intro sum.cong) auto
  ultimately show ?thesis by simp
qed

text \<open>What one asset contributes to the totals.\<close>

definition nav_term :: "int \<Rightarrow> int \<Rightarrow> int" where
  "nav_term balance factor = (balance * factor) sdiv k_scale"

definition risk_term :: "asset_id \<Rightarrow> nat \<Rightarrow> int \<Rightarrow> int \<Rightarrow> int" where
  "risk_term quote i balance factor =
     (if i \<noteq> unat quote then (abs_saturated balance * factor) sdiv k_scale else 0)"

lemma recomputed_balance:
  fixes v :: int
  assumes "i < active_asset_count w" "length (wl_balances w) = max_wallet_assets" "active_asset_count w \<le> max_wallet_assets"
  defines "w' \<equiv> w\<lparr>wl_balances := (wl_balances w)[i := v]\<rparr>"
  shows "recomputed_nav w' = recomputed_nav w - nav_term (wl_balances w ! i) (wl_factors w ! i) + nav_term v (wl_factors w ! i)"
    and "recomputed_risk w' = recomputed_risk w - risk_term (quote_currency_id w) i (wl_balances w ! i) (wl_factors w ! i)
      + risk_term (quote_currency_id w) i v (wl_factors w ! i)"
proof -
  have i: "i < length (wl_balances w)" using assms by simp
  show "recomputed_nav w' = recomputed_nav w - nav_term (wl_balances w ! i) (wl_factors w ! i) + nav_term v (wl_factors w ! i)"
    unfolding recomputed_nav_def nav_term_def w'_def using assms(1) i
    by (simp, subst sum_upt_change [where i = i and f = "\<lambda>j. (wl_balances w ! j * wl_factors w ! j) sdiv k_scale"]) auto
  show "recomputed_risk w' = recomputed_risk w - risk_term (quote_currency_id w) i (wl_balances w ! i) (wl_factors w ! i)
      + risk_term (quote_currency_id w) i v (wl_factors w ! i)"
    unfolding recomputed_risk_def risk_term_def w'_def using assms(1) i
    by (simp, subst sum_upt_change [where i = i and f = "\<lambda>j. if j \<noteq> unat (quote_currency_id w)
        then (abs_saturated (wl_balances w ! j) * wl_factors w ! j) sdiv k_scale else 0"]) (auto cong: if_cong)
qed

lemma recomputed_frame:
  "wl_balances w' = wl_balances w \<Longrightarrow> wl_factors w' = wl_factors w \<Longrightarrow> active_asset_count w' = active_asset_count w
    \<Longrightarrow> quote_currency_id w' = quote_currency_id w
    \<Longrightarrow> recomputed_nav w' = recomputed_nav w \<and> recomputed_risk w' = recomputed_risk w"
  by (simp add: recomputed_nav_def recomputed_risk_def cong: if_cong)

subsection \<open>Setting a balance\<close>

lemma risk_term_asset:
  "risk_term quote (unat a) balance factor = (if a = quote then 0 else (abs_saturated balance * factor) sdiv k_scale)"
  by (simp add: risk_term_def word_unat_eq_iff)

lemma set_balance_cases:
  "(\<exists>nav risk. wallet_set_balance a v w = (True, w\<lparr>wl_balances := (wl_balances w)[unat a := v], cached_nav := nav, cached_risk := risk\<rparr>)
      \<and> nav = cached_nav w - nav_term (wl_balances w ! unat a) (wl_factors w ! unat a) + nav_term v (wl_factors w ! unat a)
      \<and> risk = cached_risk w - risk_term (quote_currency_id w) (unat a) (wl_balances w ! unat a) (wl_factors w ! unat a)
          + risk_term (quote_currency_id w) (unat a) v (wl_factors w ! unat a)
      \<and> in_i64 nav \<and> in_i64 risk)
    \<or> wallet_set_balance a v w = (False, w)"
  by (cases w) (auto simp: wallet_set_balance_def mul_scaled_def nav_term_def risk_term_asset checked_narrow_def in_i64_def Let_def
      split: if_splits)

lemma wallet_set_balance_ok:
  assumes "wallet_ok w" "wallet_contains a w" "in_i64 v"
  shows "wallet_ok (snd (wallet_set_balance a v w))"
  using set_balance_cases [of a v w]
proof
  assume "wallet_set_balance a v w = (False, w)"
  then show ?thesis using assms(1) by simp
next
  let ?w' = "w\<lparr>wl_balances := (wl_balances w)[unat a := v]\<rparr>"
  have a: "unat a < active_asset_count w" using assms(2) by (simp add: wallet_contains_def)
  have r: "recomputed_nav (?w'\<lparr>cached_nav := n, cached_risk := r\<rparr>) = recomputed_nav ?w'"
    "recomputed_risk (?w'\<lparr>cached_nav := n, cached_risk := r\<rparr>) = recomputed_risk ?w'" for n r
    using recomputed_frame [of "?w'\<lparr>cached_nav := n, cached_risk := r\<rparr>" ?w'] by simp_all
  assume "\<exists>nav risk. wallet_set_balance a v w = (True, w\<lparr>wl_balances := (wl_balances w)[unat a := v], cached_nav := nav, cached_risk := risk\<rparr>)
      \<and> nav = cached_nav w - nav_term (wl_balances w ! unat a) (wl_factors w ! unat a) + nav_term v (wl_factors w ! unat a)
      \<and> risk = cached_risk w - risk_term (quote_currency_id w) (unat a) (wl_balances w ! unat a) (wl_factors w ! unat a)
          + risk_term (quote_currency_id w) (unat a) v (wl_factors w ! unat a)
      \<and> in_i64 nav \<and> in_i64 risk"
  then show ?thesis
    using assms(1,3) recomputed_balance [OF a, of v] r
    by (auto simp: wallet_ok_def wallet_typed_def totals_cached_def list_all_upd)
qed

lemma add_balance_cases:
  "(add_balance a q w = wallet_set_balance a (wl_balances w ! unat a + q) w \<and> wallet_contains a w
      \<and> in_i64 (wl_balances w ! unat a + q))
    \<or> add_balance a q w = (False, w)"
  by (rule narrow_cases [of "wl_balances w ! unat a + q"]) (auto simp: add_balance_def)

lemma add_balance_ok: "wallet_ok w \<Longrightarrow> wallet_ok (snd (add_balance a q w))"
  using add_balance_cases [of a q w] wallet_set_balance_ok [of w a] by auto

lemma sub_balance_ok: "wallet_ok w \<Longrightarrow> wallet_ok (snd (sub_balance a q w))"
  by (simp add: sub_balance_def add_balance_ok)

text \<open>What an accepted change of a balance does, and that a refused one does nothing.\<close>

lemma add_balance_True:
  assumes "add_balance a q w = (True, w')"
  shows "wallet_contains a w \<and> in_i64 (wl_balances w ! unat a + q)
    \<and> w' = w\<lparr>wl_balances := (wl_balances w)[unat a := wl_balances w ! unat a + q],
        cached_nav := cached_nav w', cached_risk := cached_risk w'\<rparr>"
  using assms add_balance_cases [of a q w] set_balance_cases [of a "wl_balances w ! unat a + q" w] by auto

lemma add_balance_False: "add_balance a q w = (False, w') \<Longrightarrow> w' = w"
  using add_balance_cases [of a q w] set_balance_cases [of a "wl_balances w ! unat a + q" w] by auto

lemma sub_balance_True: "sub_balance a q w = (True, w') \<Longrightarrow> add_balance a (- q) w = (True, w')"
  by (simp add: sub_balance_def split: if_splits)

lemma sub_balance_False: "sub_balance a q w = (False, w') \<Longrightarrow> w' = w"
  by (auto simp: sub_balance_def dest: add_balance_False split: if_splits)

subsection \<open>The other operations\<close>

lemma recompute_ok:
  assumes "wallet_ok w"
  shows "recompute_cached_totals w = (True, w)"
proof -
  have "recomputed_nav w = cached_nav w" "recomputed_risk w = cached_risk w"
    using assms by (simp_all add: wallet_ok_def totals_cached_def)
  moreover have "in_i64 (cached_nav w)" "in_i64 (cached_risk w)"
    using assms by (simp_all add: wallet_ok_def wallet_typed_def)
  ultimately show ?thesis by (simp add: recompute_cached_totals_def narrow_in)
qed

lemma recompute_cases:
  "recompute_cached_totals w = (True, w\<lparr>cached_nav := recomputed_nav w, cached_risk := recomputed_risk w\<rparr>)
      \<and> in_i64 (recomputed_nav w) \<and> in_i64 (recomputed_risk w)
    \<or> recompute_cached_totals w = (False, w)"
  by (auto simp: recompute_cached_totals_def checked_narrow_def in_i64_def Let_def split: if_splits)

lemma recomputed_wallet_ok:
  assumes "wallet_typed w" "recompute_cached_totals w = (True, w')"
  shows "wallet_ok w'"
proof -
  let ?w' = "w\<lparr>cached_nav := recomputed_nav w, cached_risk := recomputed_risk w\<rparr>"
  have r: "recomputed_nav ?w' = recomputed_nav w" "recomputed_risk ?w' = recomputed_risk w"
    using recomputed_frame [of ?w' w] by simp_all
  have w': "w' = ?w'" "in_i64 (recomputed_nav w)" "in_i64 (recomputed_risk w)"
    using recompute_cases [of w] unfolding assms(2) prod.inject by blast+
  have "wallet_typed ?w'"
    using assms(1) w'(2,3) by (simp add: wallet_typed_def)
  moreover have "totals_cached ?w'"
    using r by (simp add: totals_cached_def)
  ultimately show ?thesis by (simp add: wallet_ok_def w'(1))
qed

text \<open>New factors are taken when the totals still fit, and the old ones are put back when not.\<close>

lemma recompute_False: "recompute_cached_totals w = (False, w') \<Longrightarrow> w' = w"
  using recompute_cases [of w] by auto

lemma new_factors_typed:
  "wallet_typed w \<Longrightarrow> list_all (\<lambda>f. 0 \<le> f \<and> in_i64 f) fs \<Longrightarrow> length fs = length (wl_factors w)
    \<Longrightarrow> wallet_typed (w\<lparr>wl_factors := fs\<rparr>)"
  by (simp add: wallet_typed_def)

lemma refresh_loop_ok:
  assumes "\<And>a. in_i64 (provider a)" "refresh_loop provider quote is fs = Some fs'" "list_all (\<lambda>f. 0 \<le> f \<and> in_i64 f) fs"
  shows "list_all (\<lambda>f. 0 \<le> f \<and> in_i64 f) fs' \<and> length fs' = length fs"
  using assms(2,3)
proof (induction "is" arbitrary: fs)
  case (Cons i "is")
  have "in_i64 k_scale" by (simp add: in_i64_def i64_min_def i64_max_def k_scale_def)
  then show ?case
    using Cons.IH [of "fs[i := if of_nat i = quote then k_scale else provider (of_nat i)]"] Cons.prems assms(1)
    by (auto simp: Let_def list_all_upd split: if_splits)
qed simp

lemma reset_ok:
  assumes "wallet_reset n quote x w = Inr w'" "in_i64 x"
  shows "wallet_ok w'"
proof -
  define w1 where "w1 = w\<lparr>wl_balances := (replicate max_wallet_assets 0)[unat quote := x],
     wl_reserved := replicate max_wallet_assets 0, wl_factors := (replicate max_wallet_assets 0)[unat quote := k_scale],
     active_asset_count := n, quote_currency_id := quote\<rparr>"
  have n: "unat quote < n" "n \<le> max_wallet_assets" and w': "w' = snd (recompute_cached_totals w1)"
    using assms(1) by (auto simp: wallet_reset_def w1_def split: if_splits)
  have z: "(0 :: int) sdiv k_scale = 0" "(x * k_scale) sdiv k_scale = x"
    by (simp_all add: signed_divide_int_def k_scale_def abs_mult sgn_mult mult_sgn_abs)
  have "(wl_balances w1 ! i * wl_factors w1 ! i) sdiv k_scale = (if i = unat quote then x else 0)" if "i < n" for i
    using n that z by (auto simp: w1_def nth_list_update)
  then have "recomputed_nav w1 = sum_list (map (\<lambda>i. if i = unat quote then x else 0) [0..<n])"
    unfolding recomputed_nav_def by (intro arg_cong [where f = sum_list] map_cong) (simp_all add: w1_def)
  then have nav: "recomputed_nav w1 = x"
    using sum_upt_change [OF n(1), of "\<lambda>i. if i = unat quote then x else 0" "\<lambda>i. 0"] by simp
  have "recomputed_risk w1 = sum_list (map (\<lambda>i. 0) [0..<n])"
    unfolding recomputed_risk_def using z(1)
    by (intro arg_cong [where f = sum_list] map_cong) (auto simp: w1_def nth_list_update n(2) less_le_trans)
  then have risk: "recomputed_risk w1 = 0" by simp
  have zero: "in_i64 0" "in_i64 k_scale" "0 \<le> k_scale"
    by (simp_all add: in_i64_def i64_min_def i64_max_def k_scale_def)
  have "wallet_typed (w1\<lparr>cached_nav := 0, cached_risk := 0\<rparr>)"
    unfolding wallet_typed_def w1_def using zero assms(2) n(2) by (simp add: list_all_upd list_all_replicate)
  moreover have "recompute_cached_totals (w1\<lparr>cached_nav := 0, cached_risk := 0\<rparr>) = (True, w')"
    using nav risk zero(1) assms(2) recomputed_frame [of "w1\<lparr>cached_nav := 0, cached_risk := 0\<rparr>" w1]
    unfolding w' by (simp add: recompute_cached_totals_def narrow_in)
  ultimately show ?thesis by (rule recomputed_wallet_ok)
qed

subsection \<open>All calls\<close>

datatype wallet_call =
    Reset_call nat asset_id int
  | Add_call asset_id int
  | Sub_call asset_id int
  | Reserve_call asset_id int
  | Release_call asset_id int
  | Consume_call asset_id int
  | Factor_call asset_id int
  | Refresh_call "asset_id \<Rightarrow> int"
  | Spot_fill_call asset_id asset_id side u64 int double
  | Fill_call asset_id int double

fun wallet_perform :: "wallet_fp \<Rightarrow> wallet_call \<Rightarrow> wallet \<Rightarrow> bool \<times> wallet" where
  "wallet_perform fp (Reset_call n quote x) w =
     (case wallet_reset n quote x w of Inl _ \<Rightarrow> (False, w) | Inr w' \<Rightarrow> (True, w'))"
| "wallet_perform fp (Add_call a q) w = add_balance a q w"
| "wallet_perform fp (Sub_call a q) w = sub_balance a q w"
| "wallet_perform fp (Reserve_call a q) w = reserve_balance a q w"
| "wallet_perform fp (Release_call a q) w = release_reserved a q w"
| "wallet_perform fp (Consume_call a q) w = consume_wallet_reserved a q w"
| "wallet_perform fp (Factor_call a f) w = set_liquidation_factor a f w"
| "wallet_perform fp (Refresh_call provider) w = refresh_liquidation_factors provider w"
| "wallet_perform fp (Spot_fill_call b q s n p fee) w = apply_spot_fill fp b q s n p fee w"
| "wallet_perform fp (Fill_call a g fee) w =
     (case apply_fill fp a g fee w of (None, w') \<Rightarrow> (False, w') | (Some _, w') \<Rightarrow> (True, w'))"

text \<open>The arguments are values of their C++ types.\<close>

fun call_typed :: "wallet_call \<Rightarrow> bool" where
  "call_typed (Reset_call n quote x) \<longleftrightarrow> in_i64 x"
| "call_typed (Factor_call a f) \<longleftrightarrow> in_i64 f"
| "call_typed (Refresh_call provider) \<longleftrightarrow> (\<forall>a. in_i64 (provider a))"
| "call_typed _ \<longleftrightarrow> True"

definition wallet_run :: "wallet_fp \<Rightarrow> wallet_call list \<Rightarrow> wallet \<Rightarrow> wallet" where
  "wallet_run fp calls w = fold (\<lambda>c w. snd (wallet_perform fp c w)) calls w"

lemma reserved_update_ok:
  "wallet_ok w \<Longrightarrow> 0 \<le> r \<Longrightarrow> in_i64 r \<Longrightarrow> wallet_ok (w\<lparr>wl_reserved := (wl_reserved w)[i := r]\<rparr>)"
  using recomputed_frame [of "w\<lparr>wl_reserved := (wl_reserved w)[i := r]\<rparr>" w]
  by (auto simp: wallet_ok_def wallet_typed_def totals_cached_def list_all_upd)

lemma reserved_nonneg:
  assumes "wallet_ok w" "wallet_contains a w"
  shows "0 \<le> wl_reserved w ! unat a \<and> in_i64 (wl_reserved w ! unat a)"
proof -
  have "unat a < length (wl_reserved w)"
    using assms by (simp add: wallet_ok_def wallet_typed_def wallet_contains_def)
  then show ?thesis
    using assms(1) by (auto simp: wallet_ok_def wallet_typed_def list_all_length)
qed

lemma factors_call_ok:
  assumes "wallet_ok w" "list_all (\<lambda>f. 0 \<le> f \<and> in_i64 f) fs" "length fs = length (wl_factors w)"
  shows "recompute_cached_totals (w\<lparr>wl_factors := fs\<rparr>) = (True, w') \<Longrightarrow> wallet_ok w'"
    and "recompute_cached_totals (w\<lparr>wl_factors := fs\<rparr>) = (False, w') \<Longrightarrow> w'\<lparr>wl_factors := wl_factors w\<rparr> = w"
  using assms new_factors_typed [of w fs] recomputed_wallet_ok by (auto simp: wallet_ok_def dest: recompute_False)

lemma set_factor_call:
  assumes "wallet_ok w" "in_i64 f" "set_liquidation_factor a f w = (ok, w')"
  shows "wallet_ok w' \<and> (\<not> ok \<longrightarrow> w' = w)"
proof (cases "wallet_contains a w \<and> 0 \<le> f")
  case True
  let ?fs = "(wl_factors w)[unat a := f]"
  have fs: "list_all (\<lambda>f. 0 \<le> f \<and> in_i64 f) ?fs"
    using assms(1,2) True by (simp add: wallet_ok_def wallet_typed_def list_all_upd)
  note call = factors_call_ok [OF assms(1) fs, simplified]
  obtain k w1 where r: "recompute_cached_totals (w\<lparr>wl_factors := ?fs\<rparr>) = (k, w1)" by fastforce
  show ?thesis
  proof (cases k)
    case False
    then have "w1 = w\<lparr>wl_factors := ?fs\<rparr>" using recompute_False r by simp
    then have "w1\<lparr>wl_factors := (wl_factors w1)[unat a := wl_factors w ! unat a]\<rparr> = w" by simp
    then show ?thesis
      using assms(1,3) True r False recompute_ok [OF assms(1)] by (auto simp: set_liquidation_factor_def)
  qed (use assms(3) True r call(1) in \<open>auto simp: set_liquidation_factor_def\<close>)
qed (use assms in \<open>auto simp: set_liquidation_factor_def\<close>)

lemma refresh_call:
  assumes "wallet_ok w" "\<And>a. in_i64 (provider a)" "refresh_liquidation_factors provider w = (ok, w')"
  shows "wallet_ok w' \<and> (\<not> ok \<longrightarrow> w' = w)"
proof (cases "refresh_loop provider (quote_currency_id w) [0..<active_asset_count w] (wl_factors w)")
  case (Some fs)
  have fs: "list_all (\<lambda>f. 0 \<le> f \<and> in_i64 f) fs" "length fs = length (wl_factors w)"
    using refresh_loop_ok [OF assms(2) Some] assms(1) by (auto simp: wallet_ok_def wallet_typed_def)
  note call = factors_call_ok [OF assms(1) fs]
  obtain k w1 where r: "recompute_cached_totals (w\<lparr>wl_factors := fs\<rparr>) = (k, w1)" by fastforce
  show ?thesis
  proof (cases k)
    case False
    then show ?thesis
      using assms(1,3) Some r call(2) [of w1] recompute_ok [OF assms(1)]
      by (auto simp: refresh_liquidation_factors_def)
  qed (use assms(3) Some r call(1) in \<open>auto simp: refresh_liquidation_factors_def\<close>)
qed (use assms in \<open>auto simp: refresh_liquidation_factors_def\<close>)

lemma consume_call:
  assumes "wallet_ok w" "consume_wallet_reserved a q w = (ok, w')"
  shows "wallet_ok w' \<and> (\<not> ok \<longrightarrow> w' = w)"
proof (cases "wallet_contains a w \<and> 0 \<le> q \<and> q \<le> wl_reserved w ! unat a \<and> q \<le> wl_balances w ! unat a")
  case True
  let ?r = "wl_reserved w ! unat a"
  let ?w1 = "w\<lparr>wl_reserved := (wl_reserved w)[unat a := ?r - q]\<rparr>"
  have "wallet_ok ?w1"
    using reserved_nonneg [OF assms(1), of a] True by (intro reserved_update_ok assms(1)) (auto simp: in_i64_def i64_min_def i64_max_def)
  then have ok: "wallet_ok (snd (sub_balance a q ?w1))" by (rule sub_balance_ok)
  obtain k w2 where s: "sub_balance a q ?w1 = (k, w2)" by fastforce
  show ?thesis
  proof (cases k)
    case False
    then have "w2 = ?w1" using sub_balance_False s by simp
    then have "w2\<lparr>wl_reserved := (wl_reserved w2)[unat a := ?r]\<rparr> = w" by simp
    then show ?thesis
      using assms True s False by (auto simp: consume_wallet_reserved_def Let_def)
  qed (use assms(2) True s ok in \<open>auto simp: consume_wallet_reserved_def Let_def\<close>)
qed (use assms in \<open>auto simp: consume_wallet_reserved_def\<close>)

lemma fill_call:
  assumes "wallet_ok w" "apply_fill fp a g fee w = (r, w')"
  shows "wallet_ok w' \<and> (r = None \<longrightarrow> w' = w)"
  using assms add_balance_ok [OF assms(1), of a] add_balance_False [of a _ w]
  by (auto simp: apply_fill_def Let_def split: option.splits if_splits prod.splits) (metis snd_conv)+

lemma and_then_ok:
  assumes "and_then f g w = (ok, w')" "wallet_ok w"
    and "\<And>w. wallet_ok w \<Longrightarrow> wallet_ok (snd (f w))" "\<And>w. wallet_ok w \<Longrightarrow> wallet_ok (snd (g w))"
  shows "wallet_ok w'"
proof -
  obtain k w1 where k: "f w = (k, w1)" by fastforce
  then have "wallet_ok w1" using assms(2) assms(3) [of w] by simp
  then show ?thesis
    using assms(1) assms(4) [of w1] k by (auto simp: and_then_def split: if_splits)
qed


text \<open>A pair of changes that fails half way has only changed balances and totals.\<close>

lemma and_then_False:
  assumes "and_then f g w = (False, w')"
    and f: "\<And>w'. f w = (True, w') \<Longrightarrow> \<exists>bs n r. w' = w\<lparr>wl_balances := bs, cached_nav := n, cached_risk := r\<rparr>"
      "\<And>w'. f w = (False, w') \<Longrightarrow> w' = w"
    and g: "\<And>w w'. g w = (False, w') \<Longrightarrow> w' = w"
  shows "w'\<lparr>wl_balances := wl_balances w, cached_nav := cached_nav w, cached_risk := cached_risk w\<rparr> = w"
proof -
  obtain k w1 where k: "f w = (k, w1)" by fastforce
  show ?thesis
  proof (cases k)
    case True
    then have "w' = w1" using assms(1) k g by (simp add: and_then_def)
    then show ?thesis using f(1) [of w1] True k by auto
  next
    case False
    then have "w' = w" using assms(1) k f(2) by (simp add: and_then_def)
    then show ?thesis by simp
  qed
qed

lemma add_changes: "add_balance a q w = (True, w') \<Longrightarrow>
    \<exists>bs n r. w' = w\<lparr>wl_balances := bs, cached_nav := n, cached_risk := r\<rparr>"
  using add_balance_True by blast

lemma sub_changes: "sub_balance a q w = (True, w') \<Longrightarrow>
    \<exists>bs n r. w' = w\<lparr>wl_balances := bs, cached_nav := n, cached_risk := r\<rparr>"
  using add_changes sub_balance_True by blast

text \<open>An accepted spot fill is one of the two pairs of changes, on amounts that all fit.\<close>

definition spot_changes :: "asset_id \<Rightarrow> asset_id \<Rightarrow> side \<Rightarrow> u64 \<Rightarrow> int \<Rightarrow> int \<Rightarrow> wallet \<Rightarrow> bool \<times> wallet" where
  "spot_changes base_asset quote_asset sd base_quantity price m w =
     (let base = uint base_quantity; quote = (base * price) sdiv k_scale in
      if sd = Buy
      then and_then (add_balance base_asset ((base * m) sdiv k_scale)) (sub_balance quote_asset quote) w
      else and_then (sub_balance base_asset base) (add_balance quote_asset ((quote * m) sdiv k_scale)) w)"

lemma spot_changes_ok:
  assumes "spot_changes b q sd n p m w = (ok, w')" "wallet_ok w"
  shows "wallet_ok w'"
  using assms and_then_ok [OF _ _ add_balance_ok sub_balance_ok] and_then_ok [OF _ _ sub_balance_ok add_balance_ok]
  unfolding spot_changes_def Let_def by (cases "sd = Buy") (simp_all only: if_True if_False refl)

lemma spot_changes_False:
  assumes "spot_changes b q sd n p m w = (False, w')"
  shows "w'\<lparr>wl_balances := wl_balances w, cached_nav := cached_nav w, cached_risk := cached_risk w\<rparr> = w"
  using assms and_then_False [OF _ add_changes add_balance_False sub_balance_False]
    and_then_False [OF _ sub_changes sub_balance_False add_balance_False]
  unfolding spot_changes_def Let_def by (cases "sd = Buy") (simp_all only: if_True if_False refl)

lemma spot_fill_cases:
  "apply_spot_fill fp b q sd n p fee w = (False, w)
    \<or> (\<exists>m. from_double fp (fee_multiplier_of fp fee) = Some m \<and> 0 \<le> m \<and> 0 \<le> p \<and> in_i64 (uint n)
        \<and> apply_spot_fill fp b q sd n p fee w =
          (case spot_changes b q sd n p m w of (ok, w') \<Rightarrow>
             if \<not> ok then (False, w'\<lparr>wl_balances := wl_balances w, cached_nav := cached_nav w, cached_risk := cached_risk w\<rparr>)
             else (True, w')))"
proof (cases "from_double fp (fee_multiplier_of fp fee)")
  case (Some m)
  show ?thesis
    by (rule narrow_cases [of "uint n"]; rule narrow_cases [of "(uint n * p) sdiv k_scale"];
        rule narrow_cases [of "(uint n * m) sdiv k_scale"];
        rule narrow_cases [of "(((uint n * p) sdiv k_scale) * m) sdiv k_scale"])
      (auto simp: apply_spot_fill_def mul_scaled_def Some spot_changes_def Let_def narrow_0)
qed (auto simp: apply_spot_fill_def mul_scaled_def Let_def split: prod.splits)


lemma spot_fill_call:
  assumes "wallet_ok w" "apply_spot_fill fp b q sd n p fee w = (ok, w')"
  shows "wallet_ok w' \<and> (\<not> ok \<longrightarrow> w' = w)"
  using spot_fill_cases [of fp b q sd n p fee w]
proof
  assume "\<exists>m. from_double fp (fee_multiplier_of fp fee) = Some m \<and> 0 \<le> m \<and> 0 \<le> p \<and> in_i64 (uint n)
        \<and> apply_spot_fill fp b q sd n p fee w =
          (case spot_changes b q sd n p m w of (ok, w') \<Rightarrow>
             if \<not> ok then (False, w'\<lparr>wl_balances := wl_balances w, cached_nav := cached_nav w, cached_risk := cached_risk w\<rparr>)
             else (True, w'))"
  then obtain m where m: "apply_spot_fill fp b q sd n p fee w =
      (case spot_changes b q sd n p m w of (ok, w') \<Rightarrow>
         if \<not> ok then (False, w'\<lparr>wl_balances := wl_balances w, cached_nav := cached_nav w, cached_risk := cached_risk w\<rparr>)
         else (True, w'))" by blast
  obtain k w2 where k: "spot_changes b q sd n p m w = (k, w2)" by fastforce
  show ?thesis
  proof (cases k)
    case True
    then have "wallet_ok w2" using spot_changes_ok k assms(1) by blast
    then show ?thesis using m k True assms(2) by simp
  next
    case False
    then have "w2\<lparr>wl_balances := wl_balances w, cached_nav := cached_nav w, cached_risk := cached_risk w\<rparr> = w"
      using spot_changes_False k by simp
    then show ?thesis using m k False assms by simp
  qed
qed (use assms in simp)

lemma perform_call:
  assumes "wallet_ok w" "call_typed c" "wallet_perform fp c w = (ok, w')"
  shows "wallet_ok w' \<and> (\<not> ok \<longrightarrow> w' = w)"
proof (cases c)
  case (Reset_call n quote x)
  then show ?thesis using assms reset_ok [of n quote x w] by (auto split: sum.splits)
next
  case (Add_call a q)
  then show ?thesis using assms add_balance_ok [of w a q] add_balance_False [of a q w] by auto
next
  case (Sub_call a q)
  then show ?thesis using assms sub_balance_ok [of w a q] sub_balance_False [of a q w] by auto
next
  case (Reserve_call a q)
  then show ?thesis
    using assms reserved_nonneg [of w a] reserved_update_ok [of w]
    by (auto simp: reserve_balance_def checked_narrow_def in_i64_def split: if_splits)
next
  case (Release_call a q)
  then show ?thesis
    using assms reserved_nonneg [of w a] reserved_update_ok [of w "wl_reserved w ! unat a - q" "unat a"]
    by (auto simp: release_reserved_def in_i64_def i64_min_def i64_max_def split: if_splits)
next
  case (Fill_call a g fee)
  then show ?thesis using assms fill_call [of w fp a g fee] by (auto split: prod.splits option.splits)
next
  case (Consume_call a q)
  then show ?thesis using assms consume_call [of w a q ok w'] by simp
next
  case (Factor_call a f)
  then show ?thesis using assms set_factor_call [of w f a ok w'] by simp
next
  case (Refresh_call provider)
  then show ?thesis using assms refresh_call [of w provider ok w'] by simp
next
  case (Spot_fill_call b q s n p fee)
  then show ?thesis using assms spot_fill_call [of w fp b q s n p fee ok w'] by simp
qed

lemma new_wallet_ok: "wallet_ok new_wallet"
  unfolding wallet_ok_def wallet_typed_def totals_cached_def
  by (simp add: new_wallet_def recomputed_nav_def recomputed_risk_def max_wallet_assets_def list_all_iff
      in_i64_def i64_min_def i64_max_def)

lemma wallet_run_ok: "wallet_ok w \<Longrightarrow> list_all call_typed calls \<Longrightarrow> wallet_ok (wallet_run fp calls w)"
proof (induction calls arbitrary: w)
  case (Cons c calls)
  have "wallet_ok (snd (wallet_perform fp c w))"
    using perform_call [OF Cons.prems(1), of c fp] Cons.prems(2) by (cases "wallet_perform fp c w") auto
  then show ?case using Cons by (simp add: wallet_run_def)
qed (simp add: wallet_run_def)



lemma llround_near: "\<bar>of_int (llround x) - x\<bar> \<le> 1 / 2"
proof -
  have near: "\<bar>of_int \<lfloor>y\<rfloor> - (y - 1 / 2)\<bar> \<le> 1 / 2" for y :: rat
    using floor_correct [of y] unfolding abs_le_iff of_int_add of_int_1 by linarith
  have "of_int (- \<lfloor>1 / 2 - x\<rfloor>) - x = - (of_int \<lfloor>1 / 2 - x\<rfloor> - (1 / 2 - x - 1 / 2))"
    unfolding of_int_minus by simp
  then have "\<bar>of_int (- \<lfloor>1 / 2 - x\<rfloor>) - x\<bar> \<le> 1 / 2"
    using near [of "1 / 2 - x"] by (simp only: abs_minus_cancel)
  moreover have "\<bar>of_int \<lfloor>x + 1 / 2\<rfloor> - x\<bar> \<le> 1 / 2"
    using near [of "x + 1 / 2"] by (simp only: add_diff_cancel)
  ultimately show ?thesis by (simp only: llround_def split: if_split) simp
qed

subsection \<open>The properties\<close>

text \<open>C22: Whatever calls a wallet takes after its construction, with arguments of their types
  and any floating point, every number it stores is an \<open>int64\<close> value, no reservation
  and no factor is negative, and the cached net value and inventory risk are what a
  recomputation over all active assets gives.\<close>
theorem wallet_runs_keep_totals:
  assumes "list_all call_typed calls"
  shows "wallet_typed (wallet_run fp calls new_wallet) \<and> totals_cached (wallet_run fp calls new_wallet)"
  using wallet_run_ok [OF new_wallet_ok assms] by (simp add: wallet_ok_def)

definition sample_fp :: wallet_fp where
  "sample_fp = \<lparr>fee_multiplier_of = (\<lambda>d. d), times_scale = (\<lambda>d. if d = dbl_one then 99900000 else 0)\<rparr>"

definition sample_calls :: "wallet_call list" where
  "sample_calls = [Reset_call 3 0 1000000000, Factor_call 1 50000000, Add_call 1 200000000, Reserve_call 0 400000000,
     Spot_fill_call 1 0 Buy 100000000 300000000 dbl_one, Sub_call 2 5]"

theorem wallet_runs_keep_totals_witness:
  "cached_nav (wallet_run sample_fp sample_calls new_wallet) = 849950000
    \<and> cached_risk (wallet_run sample_fp sample_calls new_wallet) = 149950000
    \<and> wallet_reserved 0 (wallet_run sample_fp sample_calls new_wallet) = 400000000
    \<and> totals_cached (wallet_run sample_fp sample_calls new_wallet)"
proof -
  have "list_all call_typed sample_calls"
    by (simp add: sample_calls_def in_i64_def i64_min_def i64_max_def)
  from wallet_runs_keep_totals [OF this] show ?thesis by code_simp
qed

text \<open>C23: A call on a well-formed wallet that returns false, or a reset that throws, leaves
  every field as it was: balances, reservations, factors and both cached totals, also
  where the code changes something first and rolls back.\<close>
theorem rejected_wallet_calls_change_nothing:
  assumes "wallet_ok w" "call_typed c" "wallet_perform fp c w = (False, w')"
  shows "w' = w"
  using perform_call [OF assms] by simp

theorem rejected_wallet_calls_change_nothing_witness:
  "fst (wallet_perform sample_fp (Spot_fill_call 1 0 Sell 300000000 200000000 dbl_one)
      (wallet_run sample_fp sample_calls new_wallet)) = True
    \<and> wallet_perform sample_fp (Factor_call 1 9000000000000000000) (wallet_run sample_fp (sample_calls @ [Add_call 1 100000000]) new_wallet)
      = (False, wallet_run sample_fp (sample_calls @ [Add_call 1 100000000]) new_wallet)"
proof -
  let ?w = "wallet_run sample_fp (sample_calls @ [Add_call 1 100000000]) new_wallet"
  let ?c = "Factor_call 1 9000000000000000000"
  have "list_all call_typed (sample_calls @ [Add_call 1 100000000])" and c: "call_typed ?c"
    by (simp_all add: sample_calls_def in_i64_def i64_min_def i64_max_def)
  then have w: "wallet_ok ?w" by (intro wallet_run_ok new_wallet_ok)
  have "fst (wallet_perform sample_fp ?c ?w) = False" by code_simp
  then have p: "wallet_perform sample_fp ?c ?w = (False, snd (wallet_perform sample_fp ?c ?w))"
    by (simp only: prod_eq_iff fst_conv snd_conv)
  have "fst (wallet_perform sample_fp (Spot_fill_call 1 0 Sell 300000000 200000000 dbl_one)
      (wallet_run sample_fp sample_calls new_wallet)) = True" by code_simp
  with p rejected_wallet_calls_change_nothing [OF w c p] show ?thesis by metis
qed



text \<open>Reserving succeeds exactly for the amounts from zero to the free balance, and takes
  the amount off the free balance only; releasing the same amount then succeeds and gives
  back the wallet as it was, and consuming it, when the totals allow it, takes the amount
  off the balance and leaves what is reserved as it was before.\<close>
theorem reserved_amounts_return:
  assumes "wallet_ok w" "wallet_contains a w"
  shows "fst (reserve_balance a amount w) = (0 \<le> amount \<and> amount \<le> free_balance a w)
    \<and> (\<forall>w'. reserve_balance a amount w = (True, w') \<longrightarrow>
        wallet_balance a w' = wallet_balance a w \<and> free_balance a w' = free_balance a w - amount
        \<and> release_reserved a amount w' = (True, w)
        \<and> (\<forall>w''. consume_wallet_reserved a amount w' = (True, w'') \<longrightarrow>
            wallet_balance a w'' = wallet_balance a w - amount \<and> wallet_reserved a w'' = wallet_reserved a w))"
proof -
  let ?b = "wl_balances w ! unat a" and ?r = "wl_reserved w ! unat a"
  have len: "unat a < length (wl_reserved w)" "unat a < length (wl_balances w)"
    using assms by (simp_all add: wallet_ok_def wallet_typed_def wallet_contains_def)
  have r: "0 \<le> ?r" "in_i64 ?r" and b: "in_i64 ?b"
    using reserved_nonneg [OF assms] assms(1) len by (auto simp: wallet_ok_def wallet_typed_def list_all_length)
  have fits: "in_i64 (?r + amount)" if "0 \<le> amount" "amount \<le> free_balance a w"
    using that r b assms(2) by (auto simp: free_balance_def checked_narrow_def in_i64_def i64_min_def i64_max_def split: if_splits)
  then have iff: "fst (reserve_balance a amount w) = (0 \<le> amount \<and> amount \<le> free_balance a w)"
    using assms(2) by (auto simp: reserve_balance_def narrow_in split: prod.splits)
  have "wallet_balance a w' = wallet_balance a w \<and> free_balance a w' = free_balance a w - amount
        \<and> release_reserved a amount w' = (True, w)
        \<and> (\<forall>w''. consume_wallet_reserved a amount w' = (True, w'') \<longrightarrow>
            wallet_balance a w'' = wallet_balance a w - amount \<and> wallet_reserved a w'' = wallet_reserved a w)"
    if res: "reserve_balance a amount w = (True, w')" for w'
  proof -
    have q: "0 \<le> amount" "amount \<le> free_balance a w" using iff res by simp_all
    have w': "w' = w\<lparr>wl_reserved := (wl_reserved w)[unat a := ?r + amount]\<rparr>"
      using res assms(2) q fits by (simp add: reserve_balance_def narrow_in)
    have c: "wallet_contains a w'" using assms(2) by (simp add: w' wallet_contains_def)
    have "free_balance a w' = free_balance a w - amount"
      using q r b assms(2) c len unfolding w'
      by (auto simp: free_balance_def checked_narrow_def in_i64_def i64_min_def i64_max_def split: if_splits)
    moreover have "release_reserved a amount w' = (True, w)"
      using q r c len unfolding w' by (simp add: release_reserved_def)
    moreover have "wallet_balance a w'' = wallet_balance a w - amount \<and> wallet_reserved a w'' = wallet_reserved a w"
      if "consume_wallet_reserved a amount w' = (True, w'')" for w''
    proof -
      have "sub_balance a amount w = (True, w'')"
        using that len unfolding w' by (auto simp: consume_wallet_reserved_def Let_def split: if_splits prod.splits)
      note e = add_balance_True [OF sub_balance_True [OF this], THEN conjunct2, THEN conjunct2]
      show ?thesis
        using arg_cong [OF e, of wl_balances] arg_cong [OF e, of wl_reserved] arg_cong [OF e, of active_asset_count] assms(2) len
        by (simp add: wallet_balance_def wallet_reserved_def wallet_contains_def)
    qed
    ultimately show ?thesis by (simp add: wallet_balance_def wallet_contains_def w')
  qed
  with iff show ?thesis by blast
qed

theorem reserved_amounts_return_witness:
  "fst (reserve_balance 0 1000000000 (wallet_run sample_fp (take 1 sample_calls) new_wallet))
    \<and> \<not> fst (reserve_balance 0 1000000001 (wallet_run sample_fp (take 1 sample_calls) new_wallet))"
proof -
  let ?w = "wallet_run sample_fp (take 1 sample_calls) new_wallet"
  have "list_all call_typed (take 1 sample_calls)"
    by (simp add: sample_calls_def in_i64_def i64_min_def i64_max_def)
  then have w: "wallet_ok ?w" by (intro wallet_run_ok new_wallet_ok)
  have c: "wallet_contains 0 ?w" and f: "free_balance 0 ?w = 1000000000" by code_simp+
  show ?thesis
    using reserved_amounts_return [OF w c, of 1000000000] reserved_amounts_return [OF w c, of 1000000001]
    unfolding f by simp
qed

text \<open>A floating-point number becomes a fixed-point one only when it is finite and its
  product by the scale lies within the limits of \<open>int64\<close>; what it becomes is again an
  \<open>int64\<close> value, at most one half from that product; every other number is refused.\<close>
theorem conversions_stay_in_range:
  "case from_double fp d of
      Some x \<Rightarrow> is_finite d \<and> in_i64 x \<and> \<bar>of_int x - times_scale fp d\<bar> \<le> 1 / 2
    | None \<Rightarrow> \<not> (is_finite d \<and> of_int i64_min \<le> times_scale fp d \<and> times_scale fp d \<le> of_int i64_max)"
proof -
  have "in_i64 (llround x)" if "of_int i64_min \<le> x" "x \<le> of_int i64_max" for x :: rat
  proof -
    have "\<bar>of_int (llround x) - x\<bar> \<le> 1 / 2" by (rule llround_near)
    then have "of_int (llround x) < (of_int (i64_max + 1) :: rat)" "(of_int (i64_min - 1) :: rat) < of_int (llround x)"
      using that unfolding of_int_add of_int_diff of_int_1 by linarith+
    then show ?thesis unfolding of_int_less_iff by (simp add: in_i64_def)
  qed
  then show ?thesis
    using llround_near [of "times_scale fp d"] by (auto simp: from_double_def Let_def)
qed

end
