(* ===== verification/PendingHeaps.thy ===== *)
theory PendingHeaps
  imports SimTypes BinaryHeap
begin

section \<open>Heaps of pending work\<close>

text \<open>
  The two bounded priority queues of the backtest engines, keyed by release time:
  \<open>IndexedPendingMinHeap\<close> of \<open>include/lob/indexed_pending_min_heap.hpp\<close>, a heap of
  slot numbers over a storage array with a stack of free slots, and
  \<open>PendingMinHeap\<close> of \<open>include/lob/graph_arbitrage_engine.hpp\<close>, which moves the items
  themselves. The element type and its member \<open>release_time_ns\<close> are the type
  variable and the argument \<open>release\<close>. An array with a fill count is the list of its live
  prefix; the free slots are a stack with its top at the end.
\<close>

subsection \<open>The heap of items\<close>

function item_up :: "('a \<Rightarrow> u64) \<Rightarrow> 'a list \<Rightarrow> nat \<Rightarrow> 'a list" where
  "item_up release heap i =
     (if 0 < i then
        let p = (i - 1) div 2 in
        if release (heap ! p) \<le> release (heap ! i) then heap else item_up release (swap heap p i) p
      else heap)"
  by pat_completeness auto
termination by (relation "measure (\<lambda>(r, h, i). i)") auto

definition item_smallest :: "('a \<Rightarrow> u64) \<Rightarrow> 'a list \<Rightarrow> nat \<Rightarrow> nat" where
  "item_smallest release heap i =
     (let left = i * 2 + 1; right = left + 1 in
      if right < length heap \<and> release (heap ! right) < release (heap ! left) then right else left)"

function item_down :: "('a \<Rightarrow> u64) \<Rightarrow> 'a list \<Rightarrow> nat \<Rightarrow> 'a list" where
  "item_down release heap i =
     (if length heap \<le> i * 2 + 1 then heap
      else
        let m = item_smallest release heap i in
        if release (heap ! i) \<le> release (heap ! m) then heap
        else item_down release (swap heap i m) m)"
  by pat_completeness auto
termination
  by (relation "measure (\<lambda>(r, heap, i). length heap - i)") (auto simp: item_smallest_def Let_def)

declare item_up.simps [simp del] item_down.simps [simp del]

definition item_push :: "('a \<Rightarrow> u64) \<Rightarrow> nat \<Rightarrow> 'a \<Rightarrow> 'a list \<Rightarrow> 'a list \<times> bool" where
  "item_push release capacity item heap =
     (if length heap = capacity then (heap, False) else (item_up release (heap @ [item]) (length heap), True))"

text \<open>The code calls \<open>pop\<close> on a heap with an item only.\<close>

definition item_pop :: "('a \<Rightarrow> u64) \<Rightarrow> 'a list \<Rightarrow> 'a list" where
  "item_pop release heap = item_down release ((butlast heap)[0 := last heap]) 0"

definition item_top :: "'a list \<Rightarrow> 'a" where
  "item_top heap = heap ! 0"

subsection \<open>The heap of slots\<close>

record 'a slot_heap =
  slot_storage :: "'a list"
  slot_indices :: "nat list"
  slot_free :: "nat list"

definition reset_free_slots :: "nat \<Rightarrow> 'a slot_heap \<Rightarrow> 'a slot_heap" where
  "reset_free_slots capacity h = h\<lparr>slot_free := map (\<lambda>i. capacity - 1 - i) [0..<capacity]\<rparr>"

definition new_slot_heap :: "nat \<Rightarrow> 'a \<Rightarrow> 'a slot_heap" where
  "new_slot_heap capacity x = reset_free_slots capacity
     \<lparr>slot_storage = replicate capacity x, slot_indices = [], slot_free = []\<rparr>"

definition slot_clear :: "nat \<Rightarrow> 'a slot_heap \<Rightarrow> 'a slot_heap" where
  "slot_clear capacity h = reset_free_slots capacity (h\<lparr>slot_indices := []\<rparr>)"

definition slot_less :: "('a \<Rightarrow> u64) \<Rightarrow> 'a list \<Rightarrow> nat \<Rightarrow> nat \<Rightarrow> bool" where
  "slot_less release storage lhs rhs \<longleftrightarrow> release (storage ! lhs) < release (storage ! rhs)"

function slot_up :: "('a \<Rightarrow> u64) \<Rightarrow> 'a list \<Rightarrow> nat list \<Rightarrow> nat \<Rightarrow> nat list" where
  "slot_up release storage heap i =
     (if 0 < i then
        let p = (i - 1) div 2 in
        if \<not> slot_less release storage (heap ! i) (heap ! p) then heap
        else slot_up release storage (swap heap p i) p
      else heap)"
  by pat_completeness auto
termination by (relation "measure (\<lambda>(r, s, h, i). i)") auto

definition slot_smallest :: "('a \<Rightarrow> u64) \<Rightarrow> 'a list \<Rightarrow> nat list \<Rightarrow> nat \<Rightarrow> nat" where
  "slot_smallest release storage heap i =
     (let left = i * 2 + 1; right = left + 1 in
      if right < length heap \<and> slot_less release storage (heap ! right) (heap ! left) then right else left)"

function slot_down :: "('a \<Rightarrow> u64) \<Rightarrow> 'a list \<Rightarrow> nat list \<Rightarrow> nat \<Rightarrow> nat list" where
  "slot_down release storage heap i =
     (if length heap \<le> i * 2 + 1 then heap
      else
        let m = slot_smallest release storage heap i in
        if \<not> slot_less release storage (heap ! m) (heap ! i) then heap
        else slot_down release storage (swap heap i m) m)"
  by pat_completeness auto
termination
  by (relation "measure (\<lambda>(r, s, heap, i). length heap - i)") (auto simp: slot_smallest_def Let_def)

declare slot_up.simps [simp del] slot_down.simps [simp del]

definition slot_push :: "('a \<Rightarrow> u64) \<Rightarrow> 'a \<Rightarrow> 'a slot_heap \<Rightarrow> 'a slot_heap \<times> bool" where
  "slot_push release item h =
     (if slot_free h = [] then (h, False)
      else
        let slot = last (slot_free h);
            storage = (slot_storage h)[slot := item];
            heap = slot_indices h @ [slot]
        in (\<lparr>slot_storage = storage,
             slot_indices = slot_up release storage heap (length (slot_indices h)),
             slot_free = butlast (slot_free h)\<rparr>, True))"

definition slot_pop :: "('a \<Rightarrow> u64) \<Rightarrow> 'a slot_heap \<Rightarrow> 'a slot_heap" where
  "slot_pop release h =
     (if slot_indices h = [] then h
      else
        let released = slot_indices h ! 0;
            heap = butlast (slot_indices h);
            heap = (if heap \<noteq> []
              then slot_down release (slot_storage h) (heap[0 := last (slot_indices h)]) 0 else heap)
        in h\<lparr>slot_indices := heap, slot_free := slot_free h @ [released]\<rparr>)"

definition slot_top :: "'a slot_heap \<Rightarrow> 'a" where
  "slot_top h = slot_storage h ! (slot_indices h ! 0)"

subsection \<open>The sifts restore the heap\<close>

lemma item_up_mset: "i < length heap \<Longrightarrow> mset (item_up release heap i) = mset heap"
proof (induction release heap i rule: item_up.induct)
  case (1 release heap i)
  show ?case
  proof (cases "0 < i \<and> \<not> release (heap ! parent i) \<le> release (heap ! i)")
    case True
    then have "parent i < length heap" using "1.prems" order.strict_trans [OF parent_less [of i]] by blast
    then show ?thesis
      using True 1 by (simp add: item_up.simps [of release heap i] Let_def parent_def)
  qed (auto simp: item_up.simps [of release heap i] Let_def parent_def)
qed

lemma swap_sym: "swap xs i j = swap xs j i"
  by (cases "i = j") (simp_all add: swap_def list_update_swap)

lemma item_up_heap: "up_inv release heap i \<Longrightarrow> i < length heap \<Longrightarrow> heap_ok release (item_up release heap i)"
proof (induction release heap i rule: item_up.induct)
  case (1 release heap i)
  show ?case
  proof (cases "0 < i \<and> \<not> release (heap ! parent i) \<le> release (heap ! i)")
    case True
    then have step: "up_inv release (swap heap (parent i) i) (parent i)"
      using "1.prems" up_step [of release heap i] by (simp add: swap_sym not_le)
    have "parent i < length heap"
      using True "1.prems"(2) order.strict_trans [OF parent_less [of i]] by blast
    then have "heap_ok release (item_up release (swap heap (parent i) i) (parent i))"
      using True step "1.IH" [of "parent i"] by (simp add: parent_def)
    then show ?thesis
      using True by (simp add: item_up.simps [of release heap i] Let_def parent_def)
  next
    case False
    then have "heap_ok release heap"
      using "1.prems"(1) by (intro up_done) auto
    then show ?thesis
      using False by (auto simp: item_up.simps [of release heap i] Let_def parent_def)
  qed
qed

lemma item_smallest_child:
  assumes "\<not> length heap \<le> i * 2 + 1"
  shows "item_smallest release heap i < length heap" "parent (item_smallest release heap i) = i"
    "0 < item_smallest release heap i" "i < item_smallest release heap i"
    and "j < length heap \<Longrightarrow> 0 < j \<Longrightarrow> parent j = i \<Longrightarrow> release (heap ! item_smallest release heap i) \<le> release (heap ! j)"
  using assms by (auto simp: item_smallest_def Let_def parent_eq not_less mult.commute [of i])

lemma item_down_mset: "i < length heap \<Longrightarrow> mset (item_down release heap i) = mset heap"
proof (induction release heap i rule: item_down.induct)
  case (1 release heap i)
  show ?case
  proof (cases "length heap \<le> i * 2 + 1 \<or> release (heap ! i) \<le> release (heap ! item_smallest release heap i)")
    case False
    then show ?thesis
      using item_smallest_child(1-4) [of heap i release] 1 by (simp add: item_down.simps [of release heap i] Let_def)
  qed (auto simp: item_down.simps [of release heap i] Let_def)
qed

lemma item_down_heap: "down_inv release heap i \<Longrightarrow> i < length heap \<Longrightarrow> heap_ok release (item_down release heap i)"
proof (induction release heap i rule: item_down.induct)
  case (1 release heap i)
  let ?m = "item_smallest release heap i"
  consider "length heap \<le> i * 2 + 1" | "\<not> length heap \<le> i * 2 + 1" "release (heap ! i) \<le> release (heap ! ?m)"
    | "\<not> length heap \<le> i * 2 + 1" "\<not> release (heap ! i) \<le> release (heap ! ?m)" by blast
  then show ?case
  proof cases
    case 1
    then have "heap_ok release heap"
      using "1.prems" by (intro down_done) (auto simp: parent_eq)
    then show ?thesis using 1 by (simp add: item_down.simps [of release heap i])
  next
    case 2
    then have "heap_ok release heap"
      using "1.prems" item_smallest_child(5) [OF 2(1), of _ release] by (intro down_done) (auto intro: order.trans)
    then show ?thesis using 2 by (simp add: item_down.simps [of release heap i] Let_def)
  next
    case 3
    note c = item_smallest_child(1-4) [OF 3(1), of release] item_smallest_child(5) [OF 3(1), of _ release]
    have "down_inv release (swap heap i ?m) ?m"
      using 3(2) c(5) by (intro down_step "1.prems"(1) c) auto
    then show ?thesis
      using 3 c "1.IH" by (simp add: item_down.simps [of release heap i] Let_def)
  qed
qed

end
