(* ===== verification/PendingHeapProperties.thy ===== *)
theory PendingHeapProperties
  imports PendingHeaps
begin

section \<open>Properties of the pending heaps\<close>

text \<open>
  The heap of slots is, through its storage, the heap of items after every call, and
  both are minimum queues.
\<close>

lemma mset_butlast_last: "xs \<noteq> [] \<Longrightarrow> add_mset (last xs) (mset (butlast xs)) = mset xs"
  by (cases xs rule: rev_cases) auto

subsection \<open>The indirection does not show\<close>

lemma map_swap: "i < length xs \<Longrightarrow> j < length xs \<Longrightarrow> map f (swap xs i j) = swap (map f xs) i j"
  by (simp add: swap_def map_update)

lemma slot_less_map:
  "i < length heap \<Longrightarrow> j < length heap \<Longrightarrow>
    slot_less release storage (heap ! i) (heap ! j)
      \<longleftrightarrow> release (map ((!) storage) heap ! i) < release (map ((!) storage) heap ! j)"
  by (simp add: slot_less_def)

lemma slot_up_map:
  "i < length heap \<Longrightarrow>
    map ((!) storage) (slot_up release storage heap i) = item_up release (map ((!) storage) heap) i"
proof (induction release storage heap i rule: slot_up.induct)
  case (1 release storage heap i)
  have p: "(i - 1) div 2 < length heap" using "1.prems" by (intro le_less_trans [OF _ "1.prems"]) simp
  show ?case
    using 1 p by (simp add: slot_up.simps [of release storage heap i] item_up.simps [of release "map ((!) storage) heap" i]
        Let_def slot_less_map map_swap not_less)
qed

lemma slot_smallest_map:
  "slot_smallest release storage heap i = item_smallest release (map ((!) storage) heap) i"
  by (auto simp: slot_smallest_def item_smallest_def Let_def slot_less_def)

lemma slot_down_map:
  "map ((!) storage) (slot_down release storage heap i) = item_down release (map ((!) storage) heap) i"
proof (induction release storage heap i rule: slot_down.induct)
  case (1 release storage heap i)
  let ?xs = "map ((!) storage) heap"
  show ?case
  proof (cases "length heap \<le> i * 2 + 1")
    case False
    then have b: "slot_smallest release storage heap i < length heap" "i < length heap"
      using item_smallest_child(1) [of ?xs i release] by (simp_all add: slot_smallest_map)
    show ?thesis
      using False 1 b by (simp add: slot_down.simps [of release storage heap i] item_down.simps [of release ?xs i]
          Let_def slot_less_def map_swap not_less slot_smallest_map)
  qed (simp add: slot_down.simps [of release storage heap i] item_down.simps [of release ?xs i])
qed

lemma slot_up_mset: "i < length heap \<Longrightarrow> mset (slot_up release storage heap i) = mset heap"
proof (induction release storage heap i rule: slot_up.induct)
  case (1 release storage heap i)
  have p: "(i - 1) div 2 < length heap" using "1.prems" by (intro le_less_trans [OF _ "1.prems"]) simp
  show ?case using 1 p by (simp add: slot_up.simps [of release storage heap i] Let_def)
qed

lemma slot_down_mset: "i < length heap \<Longrightarrow> mset (slot_down release storage heap i) = mset heap"
proof (induction release storage heap i rule: slot_down.induct)
  case (1 release storage heap i)
  show ?case
  proof (cases "length heap \<le> i * 2 + 1")
    case False
    then have "slot_smallest release storage heap i < length heap"
      using item_smallest_child(1) [of "map ((!) storage) heap" i release] by (simp add: slot_smallest_map)
    then show ?thesis
      using 1 False by (simp add: slot_down.simps [of release storage heap i] Let_def)
  qed (simp add: slot_down.simps [of release storage heap i])
qed

subsection \<open>Slots in use and free slots\<close>

definition slot_pool_ok :: "nat \<Rightarrow> 'a slot_heap \<Rightarrow> bool" where
  "slot_pool_ok capacity h \<longleftrightarrow> length (slot_storage h) = capacity
     \<and> mset (slot_indices h) + mset (slot_free h) = mset [0..<capacity]"

definition held :: "'a slot_heap \<Rightarrow> 'a list" where
  "held h = map ((!) (slot_storage h)) (slot_indices h)"

lemma slot_pool_ok_distinct:
  assumes "slot_pool_ok capacity h"
  shows "distinct (slot_indices h @ slot_free h)" "set (slot_indices h @ slot_free h) = {..<capacity}"
    "length (slot_indices h) + length (slot_free h) = capacity"
proof -
  have m: "mset (slot_indices h @ slot_free h) = mset [0..<capacity]"
    using assms by (simp add: slot_pool_ok_def)
  show "distinct (slot_indices h @ slot_free h)"
    using mset_eq_imp_distinct_iff [OF m] distinct_upt by (rule iffD2)
  show "set (slot_indices h @ slot_free h) = {..<capacity}"
    using mset_eq_setD [OF m] by (simp only: set_upt atLeast0LessThan)
  show "length (slot_indices h) + length (slot_free h) = capacity"
    using mset_eq_length [OF m] by simp
qed

lemma free_slots_mset: "mset (map (\<lambda>i. capacity - 1 - i) [0..<capacity]) = mset [0..<capacity]"
proof -
  have "map (\<lambda>i. capacity - 1 - i) [0..<capacity] = rev [0..<capacity]"
    by (intro nth_equalityI) (simp_all add: rev_nth)
  then show ?thesis by simp
qed

lemma clear_slots_ok:
  "slot_pool_ok capacity (new_slot_heap capacity x)" "held (new_slot_heap capacity x) = []"
  "slot_pool_ok capacity h \<Longrightarrow> slot_pool_ok capacity (slot_clear capacity h)" "held (slot_clear capacity h) = []"
  by (simp_all add: slot_pool_ok_def held_def new_slot_heap_def slot_clear_def reset_free_slots_def free_slots_mset [simplified])

lemma slot_push_held:
  assumes "slot_pool_ok capacity h"
  shows "slot_pool_ok capacity (fst (slot_push release item h))
    \<and> item_push release capacity item (held h) = (held (fst (slot_push release item h)), snd (slot_push release item h))"
proof (cases "slot_free h = []")
  case True
  then have "length (slot_indices h) = capacity" using slot_pool_ok_distinct(3) [OF assms] by simp
  then show ?thesis using True assms by (simp add: slot_push_def item_push_def held_def)
next
  case False
  let ?s = "last (slot_free h)"
  have f: "slot_free h = butlast (slot_free h) @ [?s]" using False by simp
  have n: "length (slot_indices h) \<noteq> capacity" using slot_pool_ok_distinct(3) [OF assms] False by auto
  have s: "?s < length (slot_storage h)" "?s \<notin> set (slot_indices h)"
    using slot_pool_ok_distinct(1,2) [OF assms] f assms last_in_set [OF False] by (auto simp: slot_pool_ok_def)
  have "map ((!) ((slot_storage h)[?s := item])) (slot_indices h @ [?s]) = held h @ [item]"
    using s by (auto simp: held_def nth_upd)
  then have "map ((!) ((slot_storage h)[?s := item]))
      (slot_up release ((slot_storage h)[?s := item]) (slot_indices h @ [?s]) (length (slot_indices h)))
    = item_up release (held h @ [item]) (length (held h))"
    using slot_up_map [of "length (slot_indices h)" "slot_indices h @ [?s]" "(slot_storage h)[?s := item]" release]
    by (simp only: held_def length_append length_map list.size add_Suc_right add_0_right lessI)
  moreover have "mset (slot_indices h @ [?s]) + mset (butlast (slot_free h)) = mset [0..<capacity]"
    using assms arg_cong [OF f, of mset] by (simp add: slot_pool_ok_def)
  ultimately show ?thesis
    using False n assms
    by (simp add: slot_push_def item_push_def slot_pool_ok_def held_def Let_def slot_up_mset)
qed

lemma slot_pop_held:
  assumes "slot_pool_ok capacity h" "slot_indices h \<noteq> []"
  shows "slot_pool_ok capacity (slot_pop release h) \<and> held (slot_pop release h) = item_pop release (held h)"
proof -
  obtain a xs where i: "slot_indices h = a # xs" using assms(2) by (cases "slot_indices h") auto
  show ?thesis
  proof (cases "xs = []")
    case True
    then show ?thesis
      using assms i by (simp add: slot_pop_def item_pop_def held_def slot_pool_ok_def item_down.simps)
  next
    case False
    let ?ys = "(a # butlast xs)[0 := last xs]"
    have "mset (slot_down release (slot_storage h) ?ys 0) + mset (slot_free h @ [a]) = mset [0..<capacity]"
      using assms i False by (simp add: slot_down_mset slot_pool_ok_def mset_butlast_last)
    moreover have "map ((!) (slot_storage h)) ?ys = (butlast (held h))[0 := last (held h)]"
      using i False by (simp add: held_def last_map map_butlast)
    ultimately show ?thesis
      using i False assms slot_down_map [of "slot_storage h" release ?ys 0]
      by (simp add: slot_pop_def item_pop_def slot_pool_ok_def held_def Let_def)
  qed
qed

subsection \<open>Runs\<close>

datatype 'a heap_call = Push_call 'a | Pop_call | Clear_call

text \<open>The clients of the heap of items ask whether it is empty before they pop.\<close>

fun item_perform :: "('a \<Rightarrow> u64) \<Rightarrow> nat \<Rightarrow> 'a heap_call \<Rightarrow> 'a list \<Rightarrow> 'a list \<times> bool" where
  "item_perform release capacity (Push_call x) heap = item_push release capacity x heap"
| "item_perform release capacity Pop_call heap = (if heap = [] then heap else item_pop release heap, True)"
| "item_perform release capacity Clear_call heap = ([], True)"

fun slot_perform :: "('a \<Rightarrow> u64) \<Rightarrow> nat \<Rightarrow> 'a heap_call \<Rightarrow> 'a slot_heap \<Rightarrow> 'a slot_heap \<times> bool" where
  "slot_perform release capacity (Push_call x) h = slot_push release x h"
| "slot_perform release capacity Pop_call h = (slot_pop release h, True)"
| "slot_perform release capacity Clear_call h = (slot_clear capacity h, True)"

fun heap_answers :: "('c \<Rightarrow> 's \<Rightarrow> 's \<times> bool) \<Rightarrow> 'c list \<Rightarrow> 's \<Rightarrow> 's \<times> bool list" where
  "heap_answers step [] s = (s, [])"
| "heap_answers step (c # cs) s =
     (case step c s of (s', ok) \<Rightarrow> case heap_answers step cs s' of (s'', oks) \<Rightarrow> (s'', ok # oks))"

lemma held_Nil: "held h = [] \<longleftrightarrow> slot_indices h = []"
  by (simp add: held_def)

lemma perform_held:
  assumes "slot_pool_ok capacity h"
  shows "slot_pool_ok capacity (fst (slot_perform release capacity c h))
    \<and> item_perform release capacity c (held h)
      = (held (fst (slot_perform release capacity c h)), snd (slot_perform release capacity c h))"
proof (cases c)
  case Pop_call
  have "slot_indices h = [] \<Longrightarrow> slot_pop release h = h" by (simp add: slot_pop_def)
  then show ?thesis
    using Pop_call assms slot_pop_held [OF assms, of release] by (cases "slot_indices h = []") (simp_all add: held_Nil)
qed (use assms slot_push_held [OF assms] in \<open>simp_all add: clear_slots_ok\<close>)

lemma answers_held:
  "slot_pool_ok capacity h \<Longrightarrow>
    slot_pool_ok capacity (fst (heap_answers (slot_perform release capacity) cs h))
    \<and> heap_answers (item_perform release capacity) cs (held h)
      = (held (fst (heap_answers (slot_perform release capacity) cs h)), snd (heap_answers (slot_perform release capacity) cs h))"
proof (induction cs arbitrary: h)
  case (Cons c cs)
  obtain h1 ok where s: "slot_perform release capacity c h = (h1, ok)" by fastforce
  then have "slot_pool_ok capacity h1" "item_perform release capacity c (held h) = (held h1, ok)"
    using perform_held [OF Cons.prems, of release c] by simp_all
  then show ?case using s Cons.IH [of h1] by (cases "heap_answers (slot_perform release capacity) cs h1") simp
qed simp

text \<open>The heap of slots is the heap of items seen through its storage: from construction
  on, every sequence of pushes, pops and clears gets the same heap_answers from both, refused
  pushes included, and the slots in heap order hold exactly the items of the other heap;
  every slot number is all the time either in the heap or free, never both and never
  twice.\<close>
theorem slot_heap_refines_item_heap:
  "let h = new_slot_heap capacity x; (h', oks) = heap_answers (slot_perform release capacity) cs h in
    heap_answers (item_perform release capacity) cs [] = (held h', oks)
    \<and> distinct (slot_indices h' @ slot_free h') \<and> set (slot_indices h' @ slot_free h') = {..<capacity}"
  using answers_held [OF clear_slots_ok(1), where release = release and capacity = capacity and cs = cs and x1 = x]
    slot_pool_ok_distinct by (fastforce simp: Let_def clear_slots_ok(2) split: prod.split)

subsection \<open>Both are minimum queues\<close>

definition item_take :: "('a \<Rightarrow> u64) \<Rightarrow> 'a list \<Rightarrow> 'a list \<times> 'a option" where
  "item_take release heap = (if heap = [] then (heap, None) else (item_pop release heap, Some (item_top heap)))"

definition slot_take :: "('a \<Rightarrow> u64) \<Rightarrow> 'a slot_heap \<Rightarrow> 'a slot_heap \<times> 'a option" where
  "slot_take release h = (if slot_indices h = [] then (h, None) else (slot_pop release h, Some (slot_top h)))"

lemma item_pop_least:
  assumes "heap_ok release heap" "heap \<noteq> []"
  shows "heap_ok release (item_pop release heap) \<and> mset heap = add_mset (item_top heap) (mset (item_pop release heap))
    \<and> (\<forall>x\<in>set heap. release (item_top heap) \<le> release x)"
proof -
  have root: "\<forall>x\<in>set heap. release (item_top heap) \<le> release x"
    using heap_ok_root [OF assms(1)] by (auto simp: item_top_def in_set_conv_nth)
  obtain a xs where h: "heap = a # xs" using assms(2) by (cases heap) auto
  show ?thesis
  proof (cases "xs = []")
    case True
    then show ?thesis using h root by (simp add: item_pop_def item_top_def item_down.simps heap_ok_def)
  next
    case False
    let ?ys = "(butlast heap)[0 := last heap]"
    have "mset ?ys = mset xs"
      using h False by (simp add: mset_butlast_last)
    moreover have "0 < length ?ys" using h False by simp
    ultimately show ?thesis
      using item_down_heap [OF replace_root_down_inv [OF assms, of "last heap"]] root h
      by (simp add: item_pop_def item_top_def item_down_mset)
  qed
qed

lemma item_push_ok:
  assumes "heap_ok release heap"
  shows "heap_ok release (fst (item_push release capacity x heap))
    \<and> mset (fst (item_push release capacity x heap)) = (if length heap = capacity then mset heap else add_mset x (mset heap))"
  using assms item_up_heap [OF snoc_up_inv [OF assms, of x]] by (simp add: item_push_def item_up_mset)

interpretation items: min_queue mset release "heap_ok release" "item_take release"
  for release :: "'a \<Rightarrow> u64"
  by unfold_locales (use item_pop_least in \<open>force simp: item_take_def\<close>)+

definition slots_heap_ok :: "('a \<Rightarrow> u64) \<Rightarrow> nat \<Rightarrow> 'a slot_heap \<Rightarrow> bool" where
  "slots_heap_ok release capacity h \<longleftrightarrow> slot_pool_ok capacity h \<and> heap_ok release (held h)"

interpretation slots: min_queue "\<lambda>h. mset (held h)" release "slots_heap_ok release capacity" "slot_take release"
  for release :: "'a \<Rightarrow> u64" and capacity :: nat
proof
  fix h :: "'a slot_heap"
  show "mset (held h) = {#} \<Longrightarrow> slot_take release h = (h, None)" by (simp add: slot_take_def held_Nil)
next
  fix h :: "'a slot_heap"
  assume "slots_heap_ok release capacity h" "mset (held h) \<noteq> {#}"
  then have h: "slot_pool_ok capacity h" "heap_ok release (held h)" "held h \<noteq> []" "slot_indices h \<noteq> []"
    by (simp_all add: slots_heap_ok_def held_Nil)
  have "item_top (held h) = slot_top h"
    using h(4) by (simp add: item_top_def slot_top_def held_def)
  then have "slots_heap_ok release capacity (slot_pop release h)"
    "mset (held h) = add_mset (slot_top h) (mset (held (slot_pop release h)))"
    "\<forall>x\<in>#mset (held h). release (slot_top h) \<le> release x"
    using slot_pop_held [OF h(1,4), of release] item_pop_least [OF h(2,3)]
    unfolding slots_heap_ok_def set_mset_mset by simp_all
  then show "\<exists>h' e. slot_take release h = (h', Some e) \<and> slots_heap_ok release capacity h'
      \<and> mset (held h) = add_mset e (mset (held h')) \<and> (\<forall>x\<in>#mset (held h). release e \<le> release x)"
    using h(4) unfolding slot_take_def by auto
qed

fun served :: "('a \<Rightarrow> u64) \<Rightarrow> 'a option list \<Rightarrow> 'a slot_heap \<Rightarrow> 'a list \<times> 'a list \<times> 'a slot_heap" where
  "served release [] h = ([], [], h)"
| "served release (Some x # cs) h =
     (case slot_push release x h of (h1, ok) \<Rightarrow> case served release cs h1 of (accepted, out, h2) \<Rightarrow>
        (if ok then x # accepted else accepted, out, h2))"
| "served release (None # cs) h =
     (case slot_take release h of (h1, e) \<Rightarrow> case served release cs h1 of (accepted, out, h2) \<Rightarrow>
        (accepted, case e of None \<Rightarrow> out | Some e \<Rightarrow> e # out, h2))"

lemma slot_push_heap_ok:
  assumes "slots_heap_ok release capacity h" "slot_push release x h = (h', ok)"
  shows "slots_heap_ok release capacity h'
    \<and> mset (held h') = (if ok then add_mset x (mset (held h)) else mset (held h))"
proof -
  have h: "slot_pool_ok capacity h" "heap_ok release (held h)"
    using assms(1) by (simp_all add: slots_heap_ok_def)
  have p: "item_push release capacity x (held h) = (held h', ok)" "slot_pool_ok capacity h'"
    using slot_push_held [OF h(1), of release x] assms(2) by simp_all
  then have "ok \<longleftrightarrow> length (held h) \<noteq> capacity" by (auto simp: item_push_def split: if_splits)
  then show ?thesis
    using item_push_ok [OF h(2), of capacity x] p by (simp add: slots_heap_ok_def)
qed

lemma served_held:
  "slots_heap_ok release capacity h \<Longrightarrow> served release cs h = (accepted, out, h') \<Longrightarrow>
    slots_heap_ok release capacity h' \<and> mset (held h) + mset accepted = mset out + mset (held h')"
proof (induction release cs h arbitrary: accepted out rule: served.induct)
  case (2 release x cs h)
  obtain h1 ok acc1 where s: "slot_push release x h = (h1, ok)" "served release cs h1 = (acc1, out, h')"
      "accepted = (if ok then x # acc1 else acc1)"
    using "2.prems"(2) by (auto split: prod.splits)
  note p = slot_push_heap_ok [OF "2.prems"(1) s(1)]
  have "mset (held h1) + mset acc1 = mset out + mset (held h')" "slots_heap_ok release capacity h'"
    using "2.IH" [OF s(1) [symmetric], of acc1 out] p s(2) by auto
  then show ?case using p s(3) by (cases ok) auto
next
  case (3 release cs h)
  obtain h1 e acc1 out1 where s: "slot_take release h = (h1, e)" "served release cs h1 = (accepted, out1, h')"
      "out = (case e of None \<Rightarrow> out1 | Some e \<Rightarrow> e # out1)"
    using "3.prems"(2) by (auto split: prod.splits)
  have t: "slots_heap_ok release capacity h1
      \<and> mset (held h) = (case e of None \<Rightarrow> mset (held h1) | Some e \<Rightarrow> add_mset e (mset (held h1)))"
    using slots.pop_empty [OF "3.prems"(1)] slots.pop_least [OF "3.prems"(1)] s(1) "3.prems"(1)
    by (cases "mset (held h) = {#}") auto
  then have "mset (held h1) + mset accepted = mset out1 + mset (held h')" "slots_heap_ok release capacity h'"
    using "3.IH" [OF s(1) [symmetric], of accepted out1] s(2) by auto
  then show ?case using t s(3) by (cases e) auto
qed simp

text \<open>C25: From the construction of the heap on, through any pushes and pops, every accepted item
  comes out exactly once or is still held, never more items than the capacity are held,
  and taking out what is held gives all of it in order of its release times.\<close>
theorem pending_work_is_served_in_order:
  "let (accepted, out, h) = served release cs (new_slot_heap capacity x);
       rest = min_queue.drain (slot_take release) (length (held h)) h in
    mset accepted = mset out + mset (held h) \<and> length (held h) \<le> capacity
    \<and> mset rest = mset (held h) \<and> sorted (map release rest)"
proof -
  have "slots_heap_ok release capacity (new_slot_heap capacity x)"
    by (simp add: slots_heap_ok_def clear_slots_ok heap_ok_def)
  note ok = served_held [OF this, of cs]
  obtain accepted out h where s: "served release cs (new_slot_heap capacity x) = (accepted, out, h)"
    by (cases "served release cs (new_slot_heap capacity x)") auto
  have h: "slots_heap_ok release capacity h" "mset accepted = mset out + mset (held h)"
    using ok [OF s] by (simp_all add: clear_slots_ok)
  have "length (held h) \<le> capacity"
    using h(1) slot_pool_ok_distinct(3) [of capacity h] by (simp add: slots_heap_ok_def held_def)
  then show ?thesis
    using slots.drain_sorted [OF h(1), of "length (held h)"] h(2) s by (simp add: Let_def)
qed

end
