(* ===== verification/VenueReplay.thy ===== *)
theory VenueReplay
  imports SimTypes "HOL-Library.Product_Lexorder"
begin

section \<open>Validation of replayed feeds\<close>

text \<open>
  \<open>ReplaySequenceValidator\<close> of \<open>include/lob/venue_replay.hpp\<close>: per venue and product
  the last accepted sequence number and snapshot epoch. A feed envelope is accepted or
  refused with a reason. What it accepts of one address is, under the strict
  policies, a feed without reordering and without gaps inside an epoch.
\<close>

datatype update_semantics = AbsoluteUpdate | DeltaUpdate

datatype gap_policy = Reject | Quarantine | Ignore

datatype replay_status = Accepted | SequenceGap | SequenceReorder | SnapshotEpochRegression | UnsupportedAddress

record feed_envelope =
  fe_venue_id :: u16
  fe_product_id :: u32
  fe_exchange_ts_ns :: u64
  fe_receive_ts_ns :: u64
  fe_sequence :: u64
  fe_snapshot_epoch :: u64
  fe_checksum :: u32
  fe_semantics :: update_semantics

record product_state =
  ps_last_sequence :: u64
  ps_snapshot_epoch :: u64
  ps_initialized :: bool

record validator =
  va_policy :: gap_policy
  va_states :: "product_state list"

definition max_venues :: nat where "max_venues = 16"
definition max_products :: nat where "max_products = 256"

definition state_index :: "feed_envelope \<Rightarrow> nat" where
  "state_index e = unat (fe_venue_id e) * max_products + unat (fe_product_id e)"

definition blank_state :: product_state where
  "blank_state = \<lparr>ps_last_sequence = 0, ps_snapshot_epoch = 0, ps_initialized = False\<rparr>"

definition reset_validator :: "validator \<Rightarrow> validator" where
  "reset_validator v = v\<lparr>va_states := replicate (max_venues * max_products) blank_state\<rparr>"

definition new_validator :: "gap_policy \<Rightarrow> validator" where
  "new_validator policy = reset_validator \<lparr>va_policy = policy, va_states = []\<rparr>"

definition validate_state :: "gap_policy \<Rightarrow> feed_envelope \<Rightarrow> product_state \<Rightarrow> replay_status \<times> product_state" where
  "validate_state policy e s =
     (if \<not> ps_initialized s
      then (Accepted, \<lparr>ps_last_sequence = fe_sequence e, ps_snapshot_epoch = fe_snapshot_epoch e, ps_initialized = True\<rparr>)
      else if fe_snapshot_epoch e < ps_snapshot_epoch s then (SnapshotEpochRegression, s)
      else if ps_snapshot_epoch s < fe_snapshot_epoch e
      then (Accepted, s\<lparr>ps_snapshot_epoch := fe_snapshot_epoch e, ps_last_sequence := fe_sequence e\<rparr>)
      else if fe_sequence e \<le> ps_last_sequence s then (SequenceReorder, s)
      else if fe_sequence e \<noteq> ps_last_sequence s + 1
      then (if policy = Ignore then (Accepted, s\<lparr>ps_last_sequence := fe_sequence e\<rparr>) else (SequenceGap, s))
      else (Accepted, s\<lparr>ps_last_sequence := fe_sequence e\<rparr>))"

definition validate :: "feed_envelope \<Rightarrow> validator \<Rightarrow> replay_status \<times> validator" where
  "validate e v =
     (if max_venues \<le> unat (fe_venue_id e) \<or> max_products \<le> unat (fe_product_id e) then (UnsupportedAddress, v)
      else case validate_state (va_policy v) e (va_states v ! state_index e) of
             (status, s) \<Rightarrow> (status, v\<lparr>va_states := (va_states v)[state_index e := s]\<rparr>))"

fun accepted_feed :: "validator \<Rightarrow> feed_envelope list \<Rightarrow> feed_envelope list" where
  "accepted_feed v [] = []"
| "accepted_feed v (e # es) =
     (case validate e v of (status, v') \<Rightarrow>
        if status = Accepted then e # accepted_feed v' es else accepted_feed v' es)"

subsection \<open>One address\<close>

definition address :: "feed_envelope \<Rightarrow> u16 \<times> u32" where
  "address e = (fe_venue_id e, fe_product_id e)"

definition supported :: "u16 \<times> u32 \<Rightarrow> bool" where
  "supported a \<longleftrightarrow> unat (fst a) < max_venues \<and> unat (snd a) < max_products"

definition slot_of :: "u16 \<times> u32 \<Rightarrow> nat" where
  "slot_of a = unat (fst a) * max_products + unat (snd a)"

lemma slot_of_split:
  "supported a \<Longrightarrow> slot_of a div max_products = unat (fst a) \<and> slot_of a mod max_products = unat (snd a)"
  by (simp add: supported_def slot_of_def max_products_def)

lemma slot_of_inj: "supported a \<Longrightarrow> supported b \<Longrightarrow> slot_of a = slot_of b \<Longrightarrow> a = b"
  using slot_of_split [of a] slot_of_split [of b] by (simp add: prod_eq_iff word_unat_eq_iff)

lemma slot_of_bound: "supported a \<Longrightarrow> slot_of a < max_venues * max_products"
  by (simp add: supported_def slot_of_def max_products_def max_venues_def)

text \<open>The validator restricted to the feed of one address.\<close>

fun accepted_one :: "gap_policy \<Rightarrow> product_state \<Rightarrow> feed_envelope list \<Rightarrow> feed_envelope list" where
  "accepted_one policy s [] = []"
| "accepted_one policy s (e # es) =
     (case validate_state policy e s of (status, s') \<Rightarrow>
        if status = Accepted then e # accepted_one policy s' es else accepted_one policy s' es)"

lemma validate_address:
  "validate e v = (if supported (address e)
     then (fst (validate_state (va_policy v) e (va_states v ! slot_of (address e))),
           v\<lparr>va_states := (va_states v)[slot_of (address e) := snd (validate_state (va_policy v) e (va_states v ! slot_of (address e)))]\<rparr>)
     else (UnsupportedAddress, v))"
  by (auto simp: validate_def supported_def address_def state_index_def slot_of_def split: prod.split)

lemma accepted_of_address:
  assumes "supported a" "length (va_states v) = max_venues * max_products"
  shows "filter (\<lambda>e. address e = a) (accepted_feed v es)
    = accepted_one (va_policy v) (va_states v ! slot_of a) (filter (\<lambda>e. address e = a) es)"
  using assms(2)
proof (induction es arbitrary: v)
  case (Cons e es)
  show ?case
  proof (cases "supported (address e)")
    case False
    then have "address e \<noteq> a" using assms(1) by auto
    then show ?thesis using False Cons by (simp add: validate_address)
  next
    case True
    let ?r = "validate_state (va_policy v) e (va_states v ! slot_of (address e))"
    have "slot_of (address e) = slot_of a \<longleftrightarrow> address e = a"
      using slot_of_inj [OF True assms(1)] by auto
    then show ?thesis
      using True Cons slot_of_bound [OF assms(1)]
      by (cases "address e = a") (auto simp: validate_address split: prod.split)
  qed
qed simp

text \<open>The acceptance of an envelope after the last accepted one.\<close>

definition follows :: "gap_policy \<Rightarrow> u64 \<times> u64 \<Rightarrow> u64 \<times> u64 \<Rightarrow> bool" where
  "follows policy prev next_one \<longleftrightarrow>
     fst prev < fst next_one
     \<or> fst prev = fst next_one \<and> snd prev < snd next_one \<and> (policy \<noteq> Ignore \<longrightarrow> snd next_one = snd prev + 1)"

definition feed_stamp :: "feed_envelope \<Rightarrow> u64 \<times> u64" where
  "feed_stamp e = (fe_snapshot_epoch e, fe_sequence e)"

fun chained :: "('a \<Rightarrow> 'a \<Rightarrow> bool) \<Rightarrow> 'a list \<Rightarrow> bool" where
  "chained P [] \<longleftrightarrow> True"
| "chained P [x] \<longleftrightarrow> True"
| "chained P (x # y # zs) \<longleftrightarrow> P x y \<and> chained P (y # zs)"

text \<open>The specification: the first envelope is taken, and then each one that follows the last.\<close>

fun take_following :: "gap_policy \<Rightarrow> (u64 \<times> u64) option \<Rightarrow> feed_envelope list \<Rightarrow> feed_envelope list" where
  "take_following policy prev [] = []"
| "take_following policy prev (e # es) =
     (if (case prev of None \<Rightarrow> True | Some p \<Rightarrow> follows policy p (feed_stamp e))
      then e # take_following policy (Some (feed_stamp e)) es else take_following policy prev es)"

definition last_stamp :: "product_state \<Rightarrow> (u64 \<times> u64) option" where
  "last_stamp s = (if ps_initialized s then Some (ps_snapshot_epoch s, ps_last_sequence s) else None)"

lemma validate_follows:
  "fst (validate_state policy e s) = Accepted \<longleftrightarrow> (case last_stamp s of None \<Rightarrow> True | Some p \<Rightarrow> follows policy p (feed_stamp e))"
  "fst (validate_state policy e s) = Accepted \<Longrightarrow> last_stamp (snd (validate_state policy e s)) = Some (feed_stamp e)"
  "fst (validate_state policy e s) \<noteq> Accepted \<Longrightarrow> snd (validate_state policy e s) = s"
  by (auto simp: validate_state_def last_stamp_def follows_def feed_stamp_def split: if_splits)

lemma accepted_one_spec: "accepted_one policy s es = take_following policy (last_stamp s) es"
proof (induction es arbitrary: s)
  case (Cons e es)
  show ?case
    using validate_follows [of policy e s] Cons.IH
    by (cases "fst (validate_state policy e s) = Accepted") (auto split: prod.split)
qed simp

lemma take_following_chained:
  "chained (follows policy) (map feed_stamp (take_following policy prev es))
    \<and> (case prev of Some p \<Rightarrow> chained (follows policy) (p # map feed_stamp (take_following policy prev es)) | None \<Rightarrow> True)"
proof (induction es arbitrary: prev)
  case (Cons e es)
  show ?case
    using Cons.IH [of "Some (feed_stamp e)"] Cons.IH [of prev] by (cases prev) auto
qed (auto split: option.split)

lemma follows_trans_less: "follows policy a b \<Longrightarrow> a < b"
  by (auto simp: follows_def less_prod_def less_eq_prod_def)

lemma chained_mono: "chained P xs \<Longrightarrow> (\<And>a b. P a b \<Longrightarrow> Q a b) \<Longrightarrow> chained Q xs"
  by (induction xs rule: induct_list012) auto

lemma chained_sorted: "chained (<) xs \<Longrightarrow> sorted_wrt (<) (xs :: 'a::order list)"
proof (induction xs rule: induct_list012)
  case (3 x y zs)
  then show ?case by (auto intro: order.strict_trans)
qed auto

lemma not_accepted_unsupported:
  "\<not> supported a \<Longrightarrow> filter (\<lambda>e. address e = a) (accepted_feed v es) = []"
  by (induction es arbitrary: v) (auto simp: validate_address)

text \<open>C26: What a fresh validator accepts of one venue and product depends on the envelopes of
  that address alone: the first one, and then each that follows the last accepted one, by
  a later snapshot epoch or, in the same epoch, a later sequence number, which has to be
  the next one unless gaps are ignored. So the accepted feed is strictly ordered by epoch
  and sequence number and, unless gaps are ignored, without gaps inside an epoch;
  addresses beyond 16 venues or 256 products get nothing.\<close>
theorem replay_accepts_ordered_feeds:
  "let feed = filter (\<lambda>e. address e = a) (accepted_feed (new_validator policy) es) in
    feed = (if supported a then take_following policy None (filter (\<lambda>e. address e = a) es) else [])
    \<and> sorted_wrt (<) (map feed_stamp feed)
    \<and> (policy = Ignore \<or> chained (\<lambda>p n. fst p = fst n \<longrightarrow> snd n = snd p + 1) (map feed_stamp feed))"
proof -
  let ?feed = "filter (\<lambda>e. address e = a) (accepted_feed (new_validator policy) es)"
  have feed: "?feed = (if supported a then take_following policy None (filter (\<lambda>e. address e = a) es) else [])"
  proof (cases "supported a")
    case True
    then have "va_states (new_validator policy) ! slot_of a = blank_state"
      using slot_of_bound [OF True] by (simp add: new_validator_def reset_validator_def)
    moreover have "last_stamp blank_state = None" by (simp add: last_stamp_def blank_state_def)
    ultimately show ?thesis
      using True accepted_of_address [OF True, of "new_validator policy" es]
      by (simp add: accepted_one_spec new_validator_def reset_validator_def)
  qed (simp add: not_accepted_unsupported)
  then have c: "chained (follows policy) (map feed_stamp ?feed)"
    using take_following_chained [of policy None] by (cases "supported a") auto
  have "chained (\<lambda>p n. fst p = fst n \<longrightarrow> snd n = snd p + 1) (map feed_stamp ?feed)" if "policy \<noteq> Ignore"
    by (rule chained_mono [OF c]) (use that in \<open>auto simp: follows_def\<close>)
  moreover have "sorted_wrt (<) (map feed_stamp ?feed)"
    using chained_mono [OF c follows_trans_less] by (rule chained_sorted)
  ultimately show ?thesis using feed unfolding Let_def by blast
qed

definition sample_envelope :: "u16 \<Rightarrow> u32 \<Rightarrow> u64 \<Rightarrow> u64 \<Rightarrow> feed_envelope" where
  "sample_envelope v p epoch n = \<lparr>fe_venue_id = v, fe_product_id = p, fe_exchange_ts_ns = 0, fe_receive_ts_ns = 0,
     fe_sequence = n, fe_snapshot_epoch = epoch, fe_checksum = 0, fe_semantics = AbsoluteUpdate\<rparr>"

theorem replay_accepts_ordered_feeds_witness:
  "map feed_stamp (take_following Reject None (map (\<lambda>(e, n). sample_envelope 1 2 e n) [(0, 7), (0, 9), (0, 8), (1, 3), (0, 9), (1, 3), (1, 4)]))
    = [(0, 7), (0, 8), (1, 3), (1, 4)]
    \<and> chained (\<lambda>p n. fst p = fst n \<longrightarrow> snd n = snd p + 1) (map feed_stamp (filter (\<lambda>e. address e = (1, 2))
        (accepted_feed (new_validator Reject) [sample_envelope 1 2 0 7, sample_envelope 1 2 0 9])))"
proof -
  have "map feed_stamp (take_following Reject None (map (\<lambda>(e, n). sample_envelope 1 2 e n) [(0, 7), (0, 9), (0, 8), (1, 3), (0, 9), (1, 3), (1, 4)]))
    = [(0, 7), (0, 8), (1, 3), (1, 4)]"
    by (simp add: feed_stamp_def follows_def sample_envelope_def)
  then show ?thesis
    using replay_accepts_ordered_feeds [of "(1, 2)" Reject "[sample_envelope 1 2 0 7, sample_envelope 1 2 0 9]"]
    unfolding Let_def by blast
qed

end
