(* ===== verification/LookupPolicy.thy ===== *)
theory LookupPolicy
  imports SimTypes
begin

section \<open>Routes and edges between assets\<close>

text \<open>
  \<open>DenseLookupPolicy\<close> and \<open>SparseLookupPolicy\<close> of \<open>include/lob/lookup_policy.hpp\<close>,
  the two template arguments of the graph engine: matrices indexed by asset, or a
  sorted vector of routes with a scan of the adjacency lists. An edge index is a
  \<open>size_t\<close> with the largest value for none. The containers \<open>AdjacencyEdges\<close> and
  \<open>Edges\<close> are a list of lists of indices and the list of the members \<open>to\<close> of the
  edges.
\<close>

record graph_route =
  gr_pair_id :: asset_id
  gr_use_bid :: bool
  gr_valid :: bool

definition no_route :: graph_route where
  "no_route = \<lparr>gr_pair_id = 0, gr_use_bid = False, gr_valid = False\<rparr>"

definition invalid_edge_index :: u64 where
  "invalid_edge_index = - 1"

subsection \<open>The dense policy\<close>

record dense_lookup =
  edge_matrix :: "u64 list list"
  route_matrix :: "graph_route list list"

definition dense_init :: "nat \<Rightarrow> nat \<Rightarrow> dense_lookup" where
  "dense_init asset_count pair_count =
     \<lparr>edge_matrix = replicate asset_count (replicate asset_count invalid_edge_index),
      route_matrix = replicate asset_count (replicate asset_count no_route)\<rparr>"

definition dense_clear_edges :: "dense_lookup \<Rightarrow> dense_lookup" where
  "dense_clear_edges d = d\<lparr>edge_matrix := map (\<lambda>row. map (\<lambda>_. invalid_edge_index) row) (edge_matrix d)\<rparr>"

definition dense_set_edge :: "asset_id \<Rightarrow> asset_id \<Rightarrow> u64 \<Rightarrow> dense_lookup \<Rightarrow> dense_lookup" where
  "dense_set_edge from_a to_a edge_index d =
     (if length (edge_matrix d) \<le> unat from_a \<or> length (edge_matrix d ! unat from_a) \<le> unat to_a
         \<or> edge_matrix d ! unat from_a ! unat to_a \<noteq> invalid_edge_index then d
      else d\<lparr>edge_matrix := (edge_matrix d)[unat from_a := (edge_matrix d ! unat from_a)[unat to_a := edge_index]]\<rparr>)"

definition dense_find_edge :: "asset_id \<Rightarrow> asset_id \<Rightarrow> dense_lookup \<Rightarrow> u64" where
  "dense_find_edge from_a to_a d =
     (if length (edge_matrix d) \<le> unat from_a \<or> length (edge_matrix d ! unat from_a) \<le> unat to_a
      then invalid_edge_index else edge_matrix d ! unat from_a ! unat to_a)"

definition dense_set_route :: "asset_id \<Rightarrow> asset_id \<Rightarrow> asset_id \<Rightarrow> bool \<Rightarrow> dense_lookup \<Rightarrow> dense_lookup" where
  "dense_set_route from_a to_a pair_id use_bid d =
     (if length (route_matrix d) \<le> unat from_a \<or> length (route_matrix d ! unat from_a) \<le> unat to_a
         \<or> gr_valid (route_matrix d ! unat from_a ! unat to_a) then d
      else d\<lparr>route_matrix := (route_matrix d)[unat from_a := (route_matrix d ! unat from_a)
        [unat to_a := \<lparr>gr_pair_id = pair_id, gr_use_bid = use_bid, gr_valid = True\<rparr>]]\<rparr>)"

definition dense_find_route :: "asset_id \<Rightarrow> asset_id \<Rightarrow> dense_lookup \<Rightarrow> (asset_id \<times> bool) option" where
  "dense_find_route from_a to_a d =
     (if length (route_matrix d) \<le> unat from_a \<or> length (route_matrix d ! unat from_a) \<le> unat to_a then None
      else
        let route = route_matrix d ! unat from_a ! unat to_a in
        if \<not> gr_valid route then None else Some (gr_pair_id route, gr_use_bid route))"

subsection \<open>The sparse policy\<close>

record route_entry =
  re_key :: u64
  re_route :: graph_route

type_synonym sparse_lookup = "route_entry list"

definition route_key :: "asset_id \<Rightarrow> asset_id \<Rightarrow> u64" where
  "route_key from_a to_a = push_bit 32 (ucast from_a) OR ucast to_a"

definition sparse_init :: "nat \<Rightarrow> nat \<Rightarrow> sparse_lookup" where
  "sparse_init asset_count pair_count = []"

fun scan_edges :: "asset_id \<Rightarrow> asset_id list \<Rightarrow> u64 list \<Rightarrow> u64" where
  "scan_edges to_a edges_to [] = invalid_edge_index"
| "scan_edges to_a edges_to (i # is) =
     (if unat i < length edges_to \<and> edges_to ! unat i = to_a then i else scan_edges to_a edges_to is)"

definition sparse_find_edge :: "asset_id \<Rightarrow> asset_id \<Rightarrow> u64 list list \<Rightarrow> asset_id list \<Rightarrow> u64" where
  "sparse_find_edge from_a to_a adjacency edges_to =
     (if length adjacency \<le> unat from_a then invalid_edge_index
      else scan_edges to_a edges_to (adjacency ! unat from_a))"

definition sparse_set_route :: "asset_id \<Rightarrow> asset_id \<Rightarrow> asset_id \<Rightarrow> bool \<Rightarrow> sparse_lookup \<Rightarrow> sparse_lookup" where
  "sparse_set_route from_a to_a pair_id use_bid entries =
     (if list_ex (\<lambda>e. re_key e = route_key from_a to_a) entries then entries
      else entries @ [\<lparr>re_key = route_key from_a to_a,
        re_route = \<lparr>gr_pair_id = pair_id, gr_use_bid = use_bid, gr_valid = True\<rparr>\<rparr>])"

text \<open>\<open>std::sort\<close> by a key that no two entries share.\<close>

definition sparse_finalize_routes :: "sparse_lookup \<Rightarrow> sparse_lookup" where
  "sparse_finalize_routes entries = sort_key re_key entries"

definition sparse_find_route :: "asset_id \<Rightarrow> asset_id \<Rightarrow> sparse_lookup \<Rightarrow> (asset_id \<times> bool) option" where
  "sparse_find_route from_a to_a entries =
     (let key = route_key from_a to_a; found = lower_bound (\<lambda>e. re_key e < key) entries in
      if found = length entries \<or> re_key (entries ! found) \<noteq> key \<or> \<not> gr_valid (re_route (entries ! found)) then None
      else Some (gr_pair_id (re_route (entries ! found)), gr_use_bid (re_route (entries ! found))))"

subsection \<open>The contract of a policy\<close>

text \<open>A call of \<open>set_route\<close>, and what the calls together promise: the first one wins.\<close>

type_synonym route_call = "asset_id \<times> asset_id \<times> asset_id \<times> bool"

fun first_route :: "route_call list \<Rightarrow> asset_id \<Rightarrow> asset_id \<Rightarrow> (asset_id \<times> bool) option" where
  "first_route [] f t = None"
| "first_route ((from_a, to_a, p, b) # calls) f t =
     (if from_a = f \<and> to_a = t then Some (p, b) else first_route calls f t)"

definition calls_within :: "nat \<Rightarrow> route_call list \<Rightarrow> bool" where
  "calls_within n calls \<longleftrightarrow> list_all (\<lambda>(f, t, _). unat f < n \<and> unat t < n) calls"

definition set_routes :: "(asset_id \<Rightarrow> asset_id \<Rightarrow> asset_id \<Rightarrow> bool \<Rightarrow> 'p \<Rightarrow> 'p) \<Rightarrow> route_call list \<Rightarrow> 'p \<Rightarrow> 'p" where
  "set_routes set_route calls p = fold (\<lambda>(f, t, i, b). set_route f t i b) calls p"

locale lookup_policy =
  fixes init :: "nat \<Rightarrow> nat \<Rightarrow> 'p"
    and set_route :: "asset_id \<Rightarrow> asset_id \<Rightarrow> asset_id \<Rightarrow> bool \<Rightarrow> 'p \<Rightarrow> 'p"
    and finalize_routes :: "'p \<Rightarrow> 'p"
    and find_route :: "asset_id \<Rightarrow> asset_id \<Rightarrow> 'p \<Rightarrow> (asset_id \<times> bool) option"
  assumes routes: "calls_within n calls \<Longrightarrow>
      find_route f t (finalize_routes (set_routes set_route calls (init n m))) = first_route calls f t"
begin

lemma later_routes_ignored:
  assumes "calls_within n (calls @ later)" "first_route calls f t = Some r"
  shows "find_route f t (finalize_routes (set_routes set_route (calls @ later) (init n m))) = Some r"
proof -
  have "first_route (calls @ later) f t = Some r"
    using assms(2) by (induction calls) (auto split: if_splits)
  then show ?thesis using routes [OF assms(1)] by simp
qed

end

subsection \<open>The dense policy keeps it\<close>

definition square :: "nat \<Rightarrow> 'a list list \<Rightarrow> bool" where
  "square n m \<longleftrightarrow> length m = n \<and> (\<forall>i<n. length (m ! i) = n)"

lemma square_update: "square n m \<Longrightarrow> square n (m[i := (m ! i)[j := x]])"
  by (auto simp: square_def nth_upd)

lemma square_replicate: "square n (replicate n (replicate n x))"
  by (simp add: square_def)

lemma dense_find_set:
  assumes "square n (route_matrix d)" "unat from_a < n" "unat to_a < n"
  shows "dense_find_route f t (dense_set_route from_a to_a p b d)
    = (if from_a = f \<and> to_a = t then (case dense_find_route f t d of None \<Rightarrow> Some (p, b) | Some r \<Rightarrow> Some r)
       else dense_find_route f t d)"
    "square n (route_matrix (dense_set_route from_a to_a p b d))"
proof -
  show "square n (route_matrix (dense_set_route from_a to_a p b d))"
    using assms by (simp add: dense_set_route_def square_update)
  show "dense_find_route f t (dense_set_route from_a to_a p b d)
    = (if from_a = f \<and> to_a = t then (case dense_find_route f t d of None \<Rightarrow> Some (p, b) | Some r \<Rightarrow> Some r)
       else dense_find_route f t d)"
    using assms by (auto simp: dense_set_route_def dense_find_route_def square_def Let_def nth_upd word_unat_eq_iff)
qed

lemma dense_routes_from:
  "square n (route_matrix d) \<Longrightarrow> calls_within n calls \<Longrightarrow>
    dense_find_route f t (set_routes dense_set_route calls d)
      = (case dense_find_route f t d of None \<Rightarrow> first_route calls f t | Some r \<Rightarrow> Some r)"
proof (induction calls arbitrary: d)
  case (Cons c calls)
  obtain from_a to_a p b where c: "c = (from_a, to_a, p, b)" by (cases c) auto
  have r: "unat from_a < n" "unat to_a < n" "calls_within n calls"
    using Cons.prems(2) c by (auto simp: calls_within_def)
  show ?case
    using Cons.IH [OF dense_find_set(2) [OF Cons.prems(1) r(1,2)] r(3), of p b]
      dense_find_set(1) [OF Cons.prems(1) r(1,2), of f t p b]
    by (simp add: set_routes_def c split: option.splits)
qed (simp add: set_routes_def split: option.split)

interpretation dense: lookup_policy dense_init dense_set_route "\<lambda>d. d" dense_find_route
proof
  fix n m f t and calls :: "route_call list"
  assume "calls_within n calls"
  moreover have "dense_find_route f t (dense_init n m) = None"
    by (cases "unat f < n"; cases "unat t < n") (simp_all add: dense_find_route_def dense_init_def no_route_def Let_def)
  ultimately show "dense_find_route f t (set_routes dense_set_route calls (dense_init n m)) = first_route calls f t"
    using dense_routes_from [of n "dense_init n m" calls f t] by (simp add: dense_init_def square_replicate)
qed

subsection \<open>The sparse policy keeps it\<close>

lemma route_key_halves: "drop_bit 32 (route_key f t) = ucast f" "take_bit 32 (route_key f t) = ucast t"
  unfolding route_key_def by (intro bit_word_eqI; auto simp: bit_simps dest: bit_imp_le_length)+

lemma route_key_inj [simp]: "route_key f t = route_key f' t' \<longleftrightarrow> f = f' \<and> t = t'"
proof
  assume "route_key f t = route_key f' t'"
  then have "(ucast f :: u64) = ucast f'" "(ucast t :: u64) = ucast t'"
    using route_key_halves by metis+
  then have "uint (ucast f :: u64) = uint (ucast f' :: u64)" "uint (ucast t :: u64) = uint (ucast t' :: u64)"
    by simp_all
  then show "f = f' \<and> t = t'" by (simp add: uint_up_ucast is_up word_uint_eq_iff)
qed simp

definition entries_of :: "route_call list \<Rightarrow> sparse_lookup" where
  "entries_of calls = set_routes sparse_set_route calls []"

lemma entries_of_snoc: "entries_of (calls @ [(f, t, p, b)]) = sparse_set_route f t p b (entries_of calls)"
  by (simp add: entries_of_def set_routes_def)

lemma first_route_append:
  "first_route (calls @ rest) f t = (case first_route calls f t of None \<Rightarrow> first_route rest f t | Some r \<Rightarrow> Some r)"
  by (induction calls f t rule: first_route.induct) auto

lemma entries_of_ok:
  "distinct (map re_key (entries_of calls)) \<and> (\<forall>e\<in>set (entries_of calls). gr_valid (re_route e))
    \<and> (\<forall>f t. map_of (map (\<lambda>e. (re_key e, (gr_pair_id (re_route e), gr_use_bid (re_route e)))) (entries_of calls))
        (route_key f t) = first_route calls f t)"
proof (induction calls rule: rev_induct)
  case (snoc c calls)
  obtain f t p b where c: "c = (f, t, p, b)" by (cases c) auto
  let ?m = "map_of (map (\<lambda>e. (re_key e, (gr_pair_id (re_route e), gr_use_bid (re_route e)))) (entries_of calls))"
  have known: "list_ex (\<lambda>e. re_key e = k) (entries_of calls) \<longleftrightarrow> ?m k \<noteq> None" for k
    by (auto simp: list_ex_iff map_of_eq_None_iff image_iff)
  show ?case
  proof (cases "list_ex (\<lambda>e. re_key e = route_key f t) (entries_of calls)")
    case True
    then have "?m (route_key f t) \<noteq> None" using known by blast
    then have "first_route calls f t \<noteq> None" using snoc.IH by metis
    then show ?thesis
      using True snoc.IH unfolding c entries_of_snoc
      by (auto simp: sparse_set_route_def first_route_append split: option.split)
  next
    case False
    then have "?m (route_key f t) = None" using known by blast
    then have "first_route calls f t = None" using snoc.IH by metis
    then show ?thesis
      using False snoc.IH unfolding c entries_of_snoc
      by (auto simp: sparse_set_route_def first_route_append list_ex_iff map_add_def split: option.split)
  qed
qed (simp add: entries_of_def set_routes_def)

lemma sorted_partitioned: "sorted (map k xs) \<Longrightarrow> partitioned (\<lambda>e. k e < v) xs"
  unfolding partitioned_def by (auto simp: sorted_iff_nth_mono) (meson le_less_trans less_imp_le order.strict_trans1)

lemma lower_bound_lookup:
  assumes "sorted (map k xs)" "distinct (map k xs)"
  shows "map_of (map (\<lambda>e. (k e, g e)) xs) v
    = (let i = lower_bound (\<lambda>e. k e < v) xs in if i = length xs \<or> k (xs ! i) \<noteq> v then None else Some (g (xs ! i)))"
proof -
  let ?i = "lower_bound (\<lambda>e. k e < v) xs"
  note lb = lower_bound_point [OF sorted_partitioned [OF assms(1), of v]]
  show ?thesis
  proof (cases "?i < length xs \<and> k (xs ! ?i) = v")
    case True
    then have "(v, g (xs ! ?i)) \<in> set (map (\<lambda>e. (k e, g e)) xs)"
      using nth_mem [of ?i xs] by force
    then have "map_of (map (\<lambda>e. (k e, g e)) xs) v = Some (g (xs ! ?i))"
      using assms(2) by (intro map_of_is_SomeI) (simp_all add: comp_def)
    then show ?thesis using True by (simp add: Let_def)
  next
    case False
    have "k (xs ! j) \<noteq> v" if "j < length xs" for j
    proof (cases "?i \<le> j")
      case True
      then have "\<not> k (xs ! ?i) < v" "k (xs ! ?i) \<le> k (xs ! j)" "?i < length xs"
        using lb(3) [of ?i] that assms(1) by (auto simp: sorted_iff_nth_mono)
      then show ?thesis using False by auto
    qed (use lb(2) [of j] in auto)
    then have "v \<notin> k ` set xs" by (metis imageE in_set_conv_nth)
    then have "map_of (map (\<lambda>e. (k e, g e)) xs) v = None"
      by (simp add: map_of_eq_None_iff image_image)
    then show ?thesis using False lb(1) by (auto simp: Let_def)
  qed
qed

lemma sort_key_distinct: "distinct (map k (sort_key k xs)) = distinct (map k xs)"
  by (rule mset_eq_imp_distinct_iff) simp

lemma sort_key_map_of:
  assumes "distinct (map k xs)"
  shows "map_of (map (\<lambda>e. (k e, g e)) (sort_key k xs)) = map_of (map (\<lambda>e. (k e, g e)) xs)"
  using assms by (intro map_of_cong_mset) (simp_all add: comp_def sort_key_distinct)

interpretation sparse: lookup_policy sparse_init sparse_set_route sparse_finalize_routes sparse_find_route
proof
  fix n m f t and calls :: "route_call list"
  let ?es = "entries_of calls"
  let ?g = "\<lambda>e. (gr_pair_id (re_route e), gr_use_bid (re_route e))"
  have ok: "distinct (map re_key ?es)" "\<forall>e\<in>set ?es. gr_valid (re_route e)"
    "map_of (map (\<lambda>e. (re_key e, ?g e)) ?es) (route_key f t) = first_route calls f t"
    using entries_of_ok [of calls] by auto
  let ?xs = "sort_key re_key ?es"
  have xs: "sorted (map re_key ?xs)" "distinct (map re_key ?xs)" "\<forall>e\<in>set ?xs. gr_valid (re_route e)"
    using ok(1,2) by (simp_all add: sort_key_distinct)
  let ?i = "lower_bound (\<lambda>e. re_key e < route_key f t) ?xs"
  have "?i < length ?xs \<Longrightarrow> gr_valid (re_route (?xs ! ?i))"
    using xs(3) nth_mem by blast
  then have "sparse_find_route f t ?xs = map_of (map (\<lambda>e. (re_key e, ?g e)) ?xs) (route_key f t)"
    using lower_bound_lookup [OF xs(1,2), of ?g "route_key f t"]
      lower_bound_point(1) [OF sorted_partitioned [OF xs(1), of "route_key f t"]]
    by (auto simp: sparse_find_route_def Let_def le_less)
  then show "sparse_find_route f t (sparse_finalize_routes (set_routes sparse_set_route calls (sparse_init n m)))
      = first_route calls f t"
    using sort_key_map_of [OF ok(1), of ?g] ok(3)
    by (simp add: sparse_finalize_routes_def sparse_init_def entries_of_def)
qed

end
