(* ===== verification/GraphArbitrage.thy ===== *)
theory GraphArbitrage
  imports LookupPolicy LatencyModel
begin

section \<open>The graph of exchange rates and its cycles\<close>

text \<open>
  Parts of \<open>GraphArbitrageEngineT\<close> of \<open>include/lob/graph_arbitrage_engine.hpp\<close>: the
  static edges of the traded pairs, the search for a cycle whose rates multiply to more
  than one with its reconstruction from the predecessors, and the ring of cycle
  snapshots. The policy is the template argument, one of the two of
  \<open>lookup_policy.hpp\<close>. Doubles are bit patterns; their multiplication is the operation
  of \<open>fp\<close>, their comparison is computed. There are at most 65535 pairs, as the loops
  over the pairs count in sixteen bits.
\<close>

subsection \<open>Comparison of doubles\<close>

definition dbl_is_nan :: "double \<Rightarrow> bool" where
  "dbl_is_nan d \<longleftrightarrow> \<not> is_finite d \<and> take_bit 52 d \<noteq> 0"

definition dbl_rank :: "double \<Rightarrow> int" where
  "dbl_rank d = (if bit d 63 then - uint (take_bit 63 d) else uint (take_bit 63 d))"

definition dbl_le :: "double \<Rightarrow> double \<Rightarrow> bool" where
  "dbl_le a b \<longleftrightarrow> \<not> dbl_is_nan a \<and> \<not> dbl_is_nan b \<and> dbl_rank a \<le> dbl_rank b"

text \<open>\<open>1.0 + kEpsilon\<close>\<close>

definition dbl_one_plus_epsilon :: double where
  "dbl_one_plus_epsilon = 0x3FF0000000001198"

subsection \<open>The edges\<close>

record graph_edge =
  ge_from :: asset_id
  ge_to :: asset_id
  ge_pair_id :: asset_id
  ge_use_bid :: bool
  ge_rate :: double
  ge_available :: double
  ge_effective_rate :: double

datatype graph_lookup = DenseLookup dense_lookup | SparseLookup sparse_lookup

datatype policy = Dense | Sparse

fun lookup_init :: "policy \<Rightarrow> nat \<Rightarrow> nat \<Rightarrow> graph_lookup" where
  "lookup_init Dense n m = DenseLookup (dense_init n m)"
| "lookup_init Sparse n m = SparseLookup (sparse_init n m)"

fun lookup_clear_edges :: "graph_lookup \<Rightarrow> graph_lookup" where
  "lookup_clear_edges (DenseLookup d) = DenseLookup (dense_clear_edges d)"
| "lookup_clear_edges (SparseLookup s) = SparseLookup s"

fun lookup_set_edge :: "asset_id \<Rightarrow> asset_id \<Rightarrow> u64 \<Rightarrow> graph_lookup \<Rightarrow> graph_lookup" where
  "lookup_set_edge f t i (DenseLookup d) = DenseLookup (dense_set_edge f t i d)"
| "lookup_set_edge f t i (SparseLookup s) = SparseLookup s"

fun lookup_find_edge :: "asset_id \<Rightarrow> asset_id \<Rightarrow> u64 list list \<Rightarrow> asset_id list \<Rightarrow> graph_lookup \<Rightarrow> u64" where
  "lookup_find_edge f t adjacency edges_to (DenseLookup d) = dense_find_edge f t d"
| "lookup_find_edge f t adjacency edges_to (SparseLookup s) = sparse_find_edge f t adjacency edges_to"

fun lookup_set_route :: "asset_id \<Rightarrow> asset_id \<Rightarrow> asset_id \<Rightarrow> bool \<Rightarrow> graph_lookup \<Rightarrow> graph_lookup" where
  "lookup_set_route f t p b (DenseLookup d) = DenseLookup (dense_set_route f t p b d)"
| "lookup_set_route f t p b (SparseLookup s) = SparseLookup (sparse_set_route f t p b s)"

fun lookup_finalize_routes :: "graph_lookup \<Rightarrow> graph_lookup" where
  "lookup_finalize_routes (DenseLookup d) = DenseLookup d"
| "lookup_finalize_routes (SparseLookup s) = SparseLookup (sparse_finalize_routes s)"

fun lookup_find_route :: "asset_id \<Rightarrow> asset_id \<Rightarrow> graph_lookup \<Rightarrow> (asset_id \<times> bool) option" where
  "lookup_find_route f t (DenseLookup d) = dense_find_route f t d"
| "lookup_find_route f t (SparseLookup s) = sparse_find_route f t s"

record graph =
  gr_asset_count :: nat
  gr_pairs :: "(asset_id \<times> asset_id) list"
  gr_edges :: "graph_edge list"
  gr_adjacency :: "u64 list list"
  gr_lookup :: graph_lookup

definition static_edge :: "asset_id \<Rightarrow> asset_id \<Rightarrow> asset_id \<Rightarrow> bool \<Rightarrow> graph_edge" where
  "static_edge f t pair_id use_bid = \<lparr>ge_from = f, ge_to = t, ge_pair_id = pair_id, ge_use_bid = use_bid,
     ge_rate = dbl_zero, ge_available = dbl_zero, ge_effective_rate = dbl_zero\<rparr>"

definition add_static_edge :: "graph_edge \<Rightarrow> graph \<Rightarrow> graph" where
  "add_static_edge e g =
     (let edge_index = of_nat (length (gr_edges g)); f = unat (ge_from e) in
      g\<lparr>gr_edges := gr_edges g @ [e],
        gr_adjacency := (if f < length (gr_adjacency g)
          then (gr_adjacency g)[f := gr_adjacency g ! f @ [edge_index]] else gr_adjacency g),
        gr_lookup := lookup_set_edge (ge_from e) (ge_to e) edge_index (gr_lookup g)\<rparr>)"

definition pair_edges :: "nat \<Rightarrow> asset_id \<times> asset_id \<Rightarrow> graph_edge list" where
  "pair_edges i = (\<lambda>(base, quote).
     [static_edge base quote (of_nat i) True, static_edge quote base (of_nat i) False])"

definition static_edges :: "(asset_id \<times> asset_id) list \<Rightarrow> graph_edge list" where
  "static_edges pairs = concat (map (\<lambda>(i, p). pair_edges i p) (enumerate 0 pairs))"

definition build_static_edges :: "graph \<Rightarrow> graph" where
  "build_static_edges g = fold add_static_edge (static_edges (gr_pairs g))
     (g\<lparr>gr_lookup := lookup_clear_edges (gr_lookup g)\<rparr>)"

text \<open>The routes of \<open>prepare_runtime\<close>: both directions of every pair.\<close>

definition pair_routes :: "(asset_id \<times> asset_id) list \<Rightarrow> route_call list" where
  "pair_routes pairs = concat (map (\<lambda>(i, base, quote). [(base, quote, of_nat i, True), (quote, base, of_nat i, False)])
     (enumerate 0 pairs))"

definition prepare_graph :: "policy \<Rightarrow> nat \<Rightarrow> (asset_id \<times> asset_id) list \<Rightarrow> graph" where
  "prepare_graph policy asset_count pairs = build_static_edges
     \<lparr>gr_asset_count = asset_count, gr_pairs = pairs, gr_edges = [], gr_adjacency = replicate asset_count [],
      gr_lookup = lookup_finalize_routes
        (set_routes lookup_set_route (pair_routes pairs) (lookup_init policy asset_count (length pairs)))\<rparr>"

definition edge_for :: "asset_id \<Rightarrow> asset_id \<Rightarrow> graph \<Rightarrow> graph_edge option" where
  "edge_for f t g =
     (let i = lookup_find_edge f t (gr_adjacency g) (map ge_to (gr_edges g)) (gr_lookup g) in
      if unat i < length (gr_edges g) then Some (gr_edges g ! unat i) else None)"

subsection \<open>The search for a cycle\<close>

definition no_asset :: asset_id where "no_asset = - 1"

record cycle_search =
  cs_rates :: "double list"
  cs_predecessors :: "asset_id list"
  cs_predecessor_edges :: "u64 list"
  cs_relaxed_vertex :: asset_id

definition new_search :: "nat \<Rightarrow> cycle_search" where
  "new_search asset_count = \<lparr>cs_rates = replicate asset_count dbl_one,
     cs_predecessors = replicate asset_count no_asset,
     cs_predecessor_edges = replicate asset_count invalid_edge_index, cs_relaxed_vertex = no_asset\<rparr>"

definition relax_edge :: "fp \<Rightarrow> nat \<times> graph_edge \<Rightarrow> cycle_search \<Rightarrow> cycle_search" where
  "relax_edge fp = (\<lambda>(edge_index, e) s.
     (let f = unat (ge_from e); t = unat (ge_to e) in
      if is_at_most_zero (ge_effective_rate e) \<or> length (cs_rates s) \<le> f \<or> length (cs_rates s) \<le> t then s
      else
        let candidate = fp_mul fp (cs_rates s ! f) (ge_effective_rate e) in
        if dbl_le candidate (fp_mul fp (cs_rates s ! t) dbl_one_plus_epsilon) then s
        else s\<lparr>cs_rates := (cs_rates s)[t := candidate],
               cs_predecessors := (cs_predecessors s)[t := ge_from e],
               cs_predecessor_edges := (cs_predecessor_edges s)[t := of_nat edge_index],
               cs_relaxed_vertex := ge_to e\<rparr>))"

definition relax_pass :: "fp \<Rightarrow> graph_edge list \<Rightarrow> cycle_search \<Rightarrow> cycle_search" where
  "relax_pass fp edges s = fold (relax_edge fp) (enumerate 0 edges) (s\<lparr>cs_relaxed_vertex := no_asset\<rparr>)"

text \<open>The passes; \<open>None\<close> when a pass has relaxed nothing.\<close>

fun relax_passes :: "fp \<Rightarrow> graph_edge list \<Rightarrow> nat \<Rightarrow> cycle_search \<Rightarrow> cycle_search option" where
  "relax_passes fp edges 0 s = Some s"
| "relax_passes fp edges (Suc n) s =
     (let s = relax_pass fp edges s in
      if cs_relaxed_vertex s = no_asset then None else relax_passes fp edges n s)"

fun step_back :: "asset_id list \<Rightarrow> nat \<Rightarrow> asset_id \<Rightarrow> asset_id option" where
  "step_back predecessors 0 current = Some current"
| "step_back predecessors (Suc n) current =
     (let current = predecessors ! unat current in
      if length predecessors \<le> unat current then None else step_back predecessors n current)"

function collect_cycle :: "asset_id list \<Rightarrow> nat \<Rightarrow> asset_id \<Rightarrow> asset_id \<Rightarrow> asset_id list \<Rightarrow> asset_id list option" where
  "collect_cycle predecessors asset_count start current cycle =
     (let cycle = cycle @ [current]; current = predecessors ! unat current in
      if length predecessors \<le> unat current \<or> asset_count < length cycle then None
      else if current \<noteq> start then collect_cycle predecessors asset_count start current cycle
      else Some cycle)"
  by pat_completeness auto
termination by (relation "measure (\<lambda>(p, n, s, c, cycle). Suc n - length cycle)") auto

declare collect_cycle.simps [simp del]

definition rotate_cycle_to_quote :: "asset_id \<Rightarrow> asset_id list \<Rightarrow> bool \<times> asset_id list" where
  "rotate_cycle_to_quote quote cycle =
     (if length cycle < 3 then (False, cycle)
      else
        let front = butlast cycle; i = length (takeWhile (\<lambda>a. a \<noteq> quote) front) in
        if i = length front then (False, cycle)
        else let turned = rotate i front in (True, turned @ [hd turned]))"

definition reconstruct_negative_cycle ::
  "asset_id \<Rightarrow> asset_id list \<Rightarrow> asset_id \<Rightarrow> nat \<Rightarrow> bool \<times> asset_id list" where
  "reconstruct_negative_cycle quote predecessors cycle_node asset_count =
     (if length predecessors \<le> unat cycle_node then (False, [])
      else case step_back predecessors asset_count cycle_node of
        None \<Rightarrow> (False, [])
      | Some cycle_start \<Rightarrow>
          (case collect_cycle predecessors asset_count cycle_start cycle_start [] of
             None \<Rightarrow> (False, [])
           | Some cycle \<Rightarrow>
               let cycle = rev (cycle @ [cycle_start]) in
               if 2 < length cycle then rotate_cycle_to_quote quote cycle else (False, cycle)))"

text \<open>What the search leaves in \<open>cycle_\<close> when it returns before the reconstruction is what was there.\<close>

definition find_negative_cycle :: "fp \<Rightarrow> asset_id \<Rightarrow> graph \<Rightarrow> asset_id list \<Rightarrow> bool \<times> asset_id list" where
  "find_negative_cycle fp quote g cycle =
     (if gr_asset_count g = 0 \<or> gr_edges g = [] then (False, cycle)
      else case relax_passes fp (gr_edges g) (gr_asset_count g) (new_search (gr_asset_count g)) of
        None \<Rightarrow> (False, cycle)
      | Some s \<Rightarrow> reconstruct_negative_cycle quote (cs_predecessors s) (cs_relaxed_vertex s) (gr_asset_count g))"

subsection \<open>The ring of cycle snapshots\<close>

record 'a snapshot_ring =
  ring_storage :: "'a list"
  ring_next :: nat
  ring_count :: nat
  ring_overwritten :: u64

definition ring_reset :: "nat \<Rightarrow> 'a \<Rightarrow> 'a snapshot_ring" where
  "ring_reset capacity blank = \<lparr>ring_storage = replicate capacity blank, ring_next = 0, ring_count = 0, ring_overwritten = 0\<rparr>"

definition ring_push :: "'a \<Rightarrow> 'a snapshot_ring \<Rightarrow> 'a snapshot_ring" where
  "ring_push x r =
     (if ring_storage r = [] then r\<lparr>ring_overwritten := ring_overwritten r + 1\<rparr>
      else
        let n = length (ring_storage r);
            r' = r\<lparr>ring_storage := (ring_storage r)[ring_next r := x], ring_next := (ring_next r + 1) mod n\<rparr>
        in if ring_count r < n then r'\<lparr>ring_count := ring_count r + 1\<rparr>
           else r'\<lparr>ring_overwritten := ring_overwritten r + 1\<rparr>)"

definition ring_to_vector :: "'a snapshot_ring \<Rightarrow> 'a list" where
  "ring_to_vector r =
     (if ring_count r = 0 then []
      else
        let n = length (ring_storage r); first_index = (if ring_count r = n then ring_next r else 0)
        in map (\<lambda>offset. ring_storage r ! ((first_index + offset) mod n)) [0..<ring_count r])"

end
