(* ===== verification/GraphProperties.thy ===== *)
theory GraphProperties
  imports GraphArbitrage
begin

section \<open>Properties of the graph\<close>

text \<open>
  Both lookup policies find the same edges and routes, a cycle that the search reports is
  a closed walk over tradable edges from the quote asset, and the ring of snapshots
  keeps the latest ones.
\<close>

subsection \<open>Finding edges\<close>

definition is_edge :: "asset_id \<Rightarrow> asset_id \<Rightarrow> graph_edge \<Rightarrow> bool" where
  "is_edge f t e \<longleftrightarrow> ge_from e = f \<and> ge_to e = t"

definition first_index :: "graph_edge list \<Rightarrow> asset_id \<Rightarrow> asset_id \<Rightarrow> nat option" where
  "first_index es f t = find (\<lambda>i. is_edge f t (es ! i)) [0..<length es]"

definition index_word :: "nat option \<Rightarrow> u64" where
  "index_word i = (case i of None \<Rightarrow> invalid_edge_index | Some i \<Rightarrow> of_nat i)"

definition edges_within :: "nat \<Rightarrow> graph_edge list \<Rightarrow> bool" where
  "edges_within n es \<longleftrightarrow> list_all (\<lambda>e. unat (ge_from e) < n \<and> unat (ge_to e) < n) es"

lemma find_cong_list: "(\<And>x. x \<in> set xs \<Longrightarrow> P x = Q x) \<Longrightarrow> find P xs = find Q xs"
  by (induction xs) auto

lemma first_index_snoc:
  "first_index (es @ [e]) f t = (case first_index es f t of Some i \<Rightarrow> Some i
     | None \<Rightarrow> if is_edge f t e then Some (length es) else None)"
proof -
  have "find (\<lambda>i. is_edge f t ((es @ [e]) ! i)) [0..<length es] = find (\<lambda>i. is_edge f t (es ! i)) [0..<length es]"
    by (rule find_cong_list) (simp add: nth_append)
  then show ?thesis by (simp add: first_index_def find_append split: option.split)
qed

lemma first_index_less: "first_index es f t = Some i \<Longrightarrow> i < length es \<and> is_edge f t (es ! i)"
  unfolding first_index_def by (rule find_upt_Some)

lemma first_index_within: "edges_within n es \<Longrightarrow> first_index es f t = Some i \<Longrightarrow> unat f < n \<and> unat t < n"
  using first_index_less [of es f t i] by (auto simp: edges_within_def list_all_length is_edge_def)

lemma first_index_find: "find (is_edge f t) es = map_option ((!) es) (first_index es f t)"
proof (induction es rule: rev_induct)
  case (snoc e es)
  then show ?case
    using first_index_less [of es f t]
    by (auto simp: find_append first_index_snoc nth_append split: option.splits)
qed (simp add: first_index_def)

lemma unat_index: "i < 2 ^ 64 \<Longrightarrow> unat (of_nat i :: u64) = i"
  by (simp add: unat_of_nat)

lemma unat_invalid: "unat invalid_edge_index = 2 ^ 64 - 1"
  by (simp add: invalid_edge_index_def unsigned_minus_1_eq_mask mask_eq_exp_minus_1)

lemma index_word_less:
  assumes "length es < 2 ^ 64 - 1"
  shows "first_index es f t = Some i \<Longrightarrow> unat (index_word (Some i)) = i \<and> index_word (Some i) \<noteq> invalid_edge_index"
proof -
  assume "first_index es f t = Some i"
  then have i: "i < 2 ^ 64 - 1" using first_index_less assms by fastforce
  then have "unat (of_nat i :: u64) = i" by (intro unat_index) simp
  then show ?thesis using i unat_invalid by (auto simp: index_word_def)
qed

text \<open>The dense policy: the matrix holds the first index.\<close>

definition dense_edges :: "nat \<Rightarrow> graph_edge list \<Rightarrow> dense_lookup \<Rightarrow> bool" where
  "dense_edges n es d \<longleftrightarrow> square n (edge_matrix d)
     \<and> (\<forall>f t. dense_find_edge f t d = index_word (first_index es f t))"

lemma dense_edges_snoc:
  assumes "dense_edges n es d" "edges_within n (es @ [e])" "length es < 2 ^ 64 - 1"
  shows "dense_edges n (es @ [e]) (dense_set_edge (ge_from e) (ge_to e) (of_nat (length es)) d)"
proof -
  let ?d = "dense_set_edge (ge_from e) (ge_to e) (of_nat (length es)) d"
  have sq: "square n (edge_matrix d)" using assms(1) by (simp add: dense_edges_def)
  have w: "unat (ge_from e) < n" "unat (ge_to e) < n" using assms(2) by (simp_all add: edges_within_def)
  have find: "dense_find_edge f t d = index_word (first_index es f t)" for f t
    using assms(1) by (simp add: dense_edges_def)
  have free: "dense_find_edge f t d = invalid_edge_index \<longleftrightarrow> first_index es f t = None" for f t
    using index_word_less [OF assms(3), of f t] find [of f t]
    by (cases "first_index es f t") (auto simp: index_word_def)
  have "dense_find_edge f t ?d = (if is_edge f t e \<and> dense_find_edge f t d = invalid_edge_index
      then of_nat (length es) else dense_find_edge f t d)" for f t
    using sq w by (auto simp: dense_find_edge_def dense_set_edge_def square_def nth_upd is_edge_def word_unat_eq_iff)
  then have "dense_find_edge f t ?d = index_word (first_index (es @ [e]) f t)" for f t
    using free [of f t] find [of f t] by (auto simp: first_index_snoc index_word_def split: option.split)
  moreover have "square n (edge_matrix ?d)" using sq by (simp add: dense_set_edge_def square_update)
  ultimately show ?thesis by (simp add: dense_edges_def)
qed

text \<open>The sparse policy: the adjacency list of an asset holds its edges in their order.\<close>

definition adjacency_of :: "nat \<Rightarrow> graph_edge list \<Rightarrow> u64 list list \<Rightarrow> bool" where
  "adjacency_of n es adj \<longleftrightarrow> length adj = n
     \<and> (\<forall>f. unat f < n \<longrightarrow> adj ! unat f = map of_nat (filter (\<lambda>i. ge_from (es ! i) = f) [0..<length es]))"

lemma adjacency_of_snoc:
  assumes "adjacency_of n es adj" "unat (ge_from e) < n"
  shows "adjacency_of n (es @ [e]) (adj[unat (ge_from e) := adj ! unat (ge_from e) @ [of_nat (length es)]])"
proof -
  have "filter (\<lambda>i. ge_from ((es @ [e]) ! i) = f) [0..<length es] = filter (\<lambda>i. ge_from (es ! i) = f) [0..<length es]" for f
    by (intro filter_cong) (simp_all add: nth_append)
  then show ?thesis
    using assms by (auto simp: adjacency_of_def nth_upd word_unat_eq_iff)
qed

lemma scan_edges_find:
  assumes "\<forall>i\<in>set is. i < length es" "length es < 2 ^ 64 - 1"
  shows "scan_edges t (map ge_to es) (map of_nat is) = index_word (find (\<lambda>i. ge_to (es ! i) = t) is)"
  using assms(1)
proof (induction "is")
  case (Cons i "is")
  then have "unat (of_nat i :: u64) = i" using assms(2) by (intro unat_index) simp
  then show ?case using Cons by (simp add: index_word_def)
qed (simp add: index_word_def)

lemma find_filter: "find P (filter Q xs) = find (\<lambda>x. Q x \<and> P x) xs"
  by (induction xs) auto

lemma sparse_edges:
  assumes "adjacency_of n es adj" "edges_within n es" "length es < 2 ^ 64 - 1"
  shows "sparse_find_edge f t adj (map ge_to es) = index_word (first_index es f t)"
proof (cases "unat f < n")
  case True
  then have "sparse_find_edge f t adj (map ge_to es)
      = index_word (find (\<lambda>i. ge_to (es ! i) = t) (filter (\<lambda>i. ge_from (es ! i) = f) [0..<length es]))"
    using assms(1,3) scan_edges_find [of "filter (\<lambda>i. ge_from (es ! i) = f) [0..<length es]" es t]
    by (simp add: sparse_find_edge_def adjacency_of_def)
  then show ?thesis by (simp add: find_filter first_index_def is_edge_def)
next
  case False
  then have "first_index es f t = None" using first_index_within [OF assms(2), of f t] by (cases "first_index es f t") auto
  then show ?thesis using False assms(1) by (simp add: sparse_find_edge_def adjacency_of_def index_word_def)
qed

text \<open>Building the graph, for both policies at once.\<close>

fun lookup_edges :: "nat \<Rightarrow> graph_edge list \<Rightarrow> graph_lookup \<Rightarrow> bool" where
  "lookup_edges n es (DenseLookup d) \<longleftrightarrow> dense_edges n es d"
| "lookup_edges n es (SparseLookup s) \<longleftrightarrow> True"

lemma add_static_edge_fields:
  "gr_edges (add_static_edge e g) = gr_edges g @ [e]"
  "gr_adjacency (add_static_edge e g) = (if unat (ge_from e) < length (gr_adjacency g)
     then (gr_adjacency g)[unat (ge_from e) := gr_adjacency g ! unat (ge_from e) @ [of_nat (length (gr_edges g))]]
     else gr_adjacency g)"
  "gr_lookup (add_static_edge e g) = lookup_set_edge (ge_from e) (ge_to e) (of_nat (length (gr_edges g))) (gr_lookup g)"
  by (simp_all add: add_static_edge_def Let_def)

lemma built_from:
  assumes "lookup_edges n [] (gr_lookup g)" "gr_edges g = []" "adjacency_of n [] (gr_adjacency g)"
  shows "edges_within n es \<Longrightarrow> length es < 2 ^ 64 - 1 \<Longrightarrow>
    gr_edges (fold add_static_edge es g) = es \<and> adjacency_of n es (gr_adjacency (fold add_static_edge es g))
    \<and> lookup_edges n es (gr_lookup (fold add_static_edge es g))"
proof (induction es rule: rev_induct)
  case (snoc e es)
  let ?g = "fold add_static_edge es g"
  have w: "edges_within n es" "unat (ge_from e) < n" "length es < 2 ^ 64 - 1"
    using snoc.prems by (simp_all add: edges_within_def)
  have IH: "gr_edges ?g = es" "adjacency_of n es (gr_adjacency ?g)" "lookup_edges n es (gr_lookup ?g)"
    using snoc.IH [OF w(1,3)] by simp_all
  have "lookup_edges n (es @ [e]) (lookup_set_edge (ge_from e) (ge_to e) (of_nat (length es)) (gr_lookup ?g))"
    using IH(3) dense_edges_snoc [OF _ snoc.prems(1) w(3)] by (cases "gr_lookup ?g") auto
  moreover have "unat (ge_from e) < length (gr_adjacency ?g)" using IH(2) w(2) by (simp add: adjacency_of_def)
  ultimately show ?case
    using IH(1) adjacency_of_snoc [OF IH(2) w(2)] by (simp add: add_static_edge_fields)
qed (use assms in simp)

lemma edge_for_built:
  assumes "gr_edges g = es" "adjacency_of n es (gr_adjacency g)" "lookup_edges n es (gr_lookup g)"
    "edges_within n es" "length es < 2 ^ 64 - 1"
  shows "edge_for f t g = find (is_edge f t) es"
proof -
  have "lookup_find_edge f t (gr_adjacency g) (map ge_to es) (gr_lookup g) = index_word (first_index es f t)"
    using assms sparse_edges [OF assms(2,4,5), of f t] by (cases "gr_lookup g") (auto simp: dense_edges_def)
  then show ?thesis
    using unat_invalid index_word_less [OF assms(5), of f t] first_index_less [of es f t] assms(1,5)
    by (cases "first_index es f t") (auto simp: edge_for_def Let_def first_index_find index_word_def)
qed

subsection \<open>The prepared graph\<close>

lemma set_routes_lookup:
  "set_routes lookup_set_route calls (DenseLookup d) = DenseLookup (set_routes dense_set_route calls d)"
  "set_routes lookup_set_route calls (SparseLookup s) = SparseLookup (set_routes sparse_set_route calls s)"
  by (induction calls arbitrary: d s) (auto simp: set_routes_def)

lemma lookup_route_frame:
  "lookup_find_route f t (lookup_clear_edges l) = lookup_find_route f t l"
  "lookup_find_route f t (lookup_set_edge a b i l) = lookup_find_route f t l"
  by (cases l; simp add: dense_find_route_def dense_clear_edges_def dense_set_edge_def)+

lemma built_route_frame:
  "lookup_find_route f t (gr_lookup (fold add_static_edge es g)) = lookup_find_route f t (gr_lookup g)"
  by (induction es arbitrary: g) (simp_all add: add_static_edge_fields lookup_route_frame)

lemma dense_set_route_edges: "edge_matrix (set_routes dense_set_route calls d) = edge_matrix d"
  by (induction calls arbitrary: d) (auto simp: set_routes_def dense_set_route_def)

lemma map_const_replicate: "map (\<lambda>_. x) (replicate n y) = replicate n x"
  by (simp add: map_replicate_const)

lemma fresh_lookup_edges:
  "lookup_edges n [] (lookup_clear_edges (lookup_finalize_routes (set_routes lookup_set_route calls (lookup_init policy n m))))"
  by (cases policy)
    (auto simp: set_routes_lookup dense_edges_def dense_clear_edges_def dense_set_route_edges dense_init_def square_replicate
      dense_find_edge_def first_index_def index_word_def map_const_replicate)

lemma static_edges_within:
  assumes "list_all (\<lambda>(b, q). unat b < n \<and> unat q < n) pairs"
  shows "edges_within n (static_edges pairs)"
  using assms unfolding edges_within_def static_edges_def list_all_iff
  by (force simp: pair_edges_def static_edge_def in_set_enumerate_eq split: prod.splits dest: nth_mem)

lemma static_edges_length: "length (static_edges pairs) = 2 * length pairs"
proof -
  have "length (concat (map (\<lambda>(i, p). pair_edges i p) xs)) = 2 * length xs" for xs
    by (induction xs) (auto simp: pair_edges_def split: prod.split)
  then show ?thesis by (simp add: static_edges_def)
qed

lemma pair_routes_within:
  assumes "list_all (\<lambda>(b, q). unat b < n \<and> unat q < n) pairs"
  shows "calls_within n (pair_routes pairs)"
  using assms unfolding calls_within_def pair_routes_def list_all_iff
  by (force simp: in_set_enumerate_eq split: prod.splits dest: nth_mem)

lemma prepared_edges:
  assumes "list_all (\<lambda>(b, q). unat b < n \<and> unat q < n) pairs" "length pairs < 65536"
  shows "edge_for f t (prepare_graph policy n pairs) = find (is_edge f t) (static_edges pairs)"
    "gr_edges (prepare_graph policy n pairs) = static_edges pairs"
proof -
  define g where "g = \<lparr>gr_asset_count = n, gr_pairs = pairs, gr_edges = [], gr_adjacency = replicate n [],
      gr_lookup = lookup_clear_edges (lookup_finalize_routes
        (set_routes lookup_set_route (pair_routes pairs) (lookup_init policy n (length pairs))))\<rparr>"
  have p: "prepare_graph policy n pairs = fold add_static_edge (static_edges pairs) g"
    by (simp add: prepare_graph_def build_static_edges_def g_def)
  have "lookup_edges n [] (gr_lookup g)" "gr_edges g = []" "adjacency_of n [] (gr_adjacency g)"
    by (simp_all add: g_def fresh_lookup_edges adjacency_of_def)
  note built = built_from [OF this static_edges_within [OF assms(1)]]
  have short: "length (static_edges pairs) < 2 ^ 64 - 1"
    using assms(2) by (simp add: static_edges_length)
  show "edge_for f t (prepare_graph policy n pairs) = find (is_edge f t) (static_edges pairs)"
    unfolding p using built [OF short] short by (intro edge_for_built [where n = n] static_edges_within assms(1)) simp_all
  show "gr_edges (prepare_graph policy n pairs) = static_edges pairs"
    unfolding p using built [OF short] by simp
qed

lemma prepared_routes:
  assumes "list_all (\<lambda>(b, q). unat b < n \<and> unat q < n) pairs"
  shows "lookup_find_route f t (gr_lookup (prepare_graph policy n pairs)) = first_route (pair_routes pairs) f t"
proof -
  have "lookup_find_route f t (lookup_finalize_routes
      (set_routes lookup_set_route (pair_routes pairs) (lookup_init policy n (length pairs))))
    = first_route (pair_routes pairs) f t"
    using dense.routes [OF pair_routes_within [OF assms], of f t "length pairs"]
      sparse.routes [OF pair_routes_within [OF assms], of f t "length pairs"]
    by (cases policy) (simp_all add: set_routes_lookup)
  then show ?thesis
    by (simp add: prepare_graph_def build_static_edges_def built_route_frame lookup_route_frame)
qed

text \<open>C27: Whichever lookup policy the graph engine is instantiated with, the prepared graph
  finds for every two assets the same edge, which is the first of the static edges from the
  one to the other, and the same route, which is the first one set; assets that no pair
  trades, or beyond the asset count, have neither.\<close>
theorem lookup_policies_agree:
  assumes "list_all (\<lambda>(b, q). unat b < n \<and> unat q < n) pairs" "length pairs < 65536"
  shows "edge_for f t (prepare_graph policy n pairs) = find (\<lambda>e. ge_from e = f \<and> ge_to e = t) (static_edges pairs)
    \<and> lookup_find_route f t (gr_lookup (prepare_graph policy n pairs)) = first_route (pair_routes pairs) f t"
proof -
  have "is_edge f t = (\<lambda>e. ge_from e = f \<and> ge_to e = t)" by (simp add: fun_eq_iff is_edge_def)
  then show ?thesis using prepared_edges(1) [OF assms, of f t] prepared_routes [OF assms(1)] by metis
qed

definition sample_pairs :: "(asset_id \<times> asset_id) list" where
  "sample_pairs = [(1, 0), (2, 1), (2, 0), (1, 2)]"

theorem lookup_policies_agree_witness:
  "map_option ge_pair_id (edge_for 1 2 (prepare_graph Sparse 3 sample_pairs)) = Some 1
    \<and> lookup_find_route 1 2 (gr_lookup (prepare_graph Dense 3 sample_pairs)) = Some (1, False)"
proof -
  have p: "list_all (\<lambda>(b, q). unat b < 3 \<and> unat q < 3) sample_pairs" "length sample_pairs < 65536"
    by (simp_all add: sample_pairs_def)
  have "map_option ge_pair_id (find (\<lambda>e. ge_from e = 1 \<and> ge_to e = 2) (static_edges sample_pairs)) = Some 1"
    "first_route (pair_routes sample_pairs) 1 2 = Some (1, False)"
    by code_simp+
  then show ?thesis
    using lookup_policies_agree [OF p, of 1 2 Sparse] lookup_policies_agree [OF p, of 1 2 Dense] by (elim conjE) (simp only: simp_thms)
qed

subsection \<open>The cycles\<close>

text \<open>A recorded predecessor comes from an edge between assets of the graph that can be traded.\<close>

definition trade_edge :: "graph_edge list \<Rightarrow> asset_id \<Rightarrow> asset_id \<Rightarrow> bool" where
  "trade_edge es f t \<longleftrightarrow> (\<exists>e\<in>set es. ge_from e = f \<and> ge_to e = t \<and> \<not> is_at_most_zero (ge_effective_rate e))"

definition search_ok :: "nat \<Rightarrow> graph_edge list \<Rightarrow> cycle_search \<Rightarrow> bool" where
  "search_ok n es s \<longleftrightarrow> length (cs_rates s) = n \<and> length (cs_predecessors s) = n
     \<and> (\<forall>v. unat v < n \<longrightarrow> unat (cs_predecessors s ! unat v) < n \<longrightarrow>
          cs_predecessors s ! unat v = no_asset \<or> trade_edge es (cs_predecessors s ! unat v) v)"

lemma relax_edge_ok:
  assumes "search_ok n es s" "e \<in> set es"
  shows "search_ok n es (relax_edge fp (i, e) s)"
proof -
  have "trade_edge es (ge_from e) (ge_to e)" if "\<not> is_at_most_zero (ge_effective_rate e)"
    using assms(2) that by (auto simp: trade_edge_def)
  then show ?thesis
    using assms(1) by (auto simp: search_ok_def relax_edge_def Let_def nth_upd simp flip: word_unat_eq_iff)
qed

lemma relax_pass_ok: "search_ok n es s \<Longrightarrow> search_ok n es (relax_pass fp es s)"
proof -
  assume s: "search_ok n es s"
  have "search_ok n es t \<Longrightarrow> \<forall>x\<in>set xs. snd x \<in> set es \<Longrightarrow> search_ok n es (fold (relax_edge fp) xs t)" for xs t
    by (induction xs arbitrary: t) (auto simp: relax_edge_ok)
  moreover have "search_ok n es (s\<lparr>cs_relaxed_vertex := no_asset\<rparr>)" using s by (simp add: search_ok_def)
  moreover have "\<forall>x\<in>set (enumerate 0 es). snd x \<in> set es"
    by (auto simp: enumerate_eq_zip dest: set_zip_rightD)
  ultimately show ?thesis unfolding relax_pass_def by blast
qed

lemma relax_passes_ok: "search_ok n es s \<Longrightarrow> relax_passes fp es k s = Some s' \<Longrightarrow> search_ok n es s'"
proof (induction k arbitrary: s)
  case (Suc k)
  then have "relax_passes fp es k (relax_pass fp es s) = Some s'"
    by (simp add: Let_def split: if_splits)
  then show ?case using Suc.IH [OF relax_pass_ok [OF Suc.prems(1)]] by simp
qed simp

lemma new_search_ok: "search_ok n es (new_search n)"
  by (simp add: search_ok_def new_search_def)

text \<open>The walk back along the predecessors from \<open>start\<close>, until it is back.\<close>

definition back_walk :: "asset_id list \<Rightarrow> asset_id \<Rightarrow> asset_id list \<Rightarrow> bool" where
  "back_walk ps start xs \<longleftrightarrow> (\<forall>i<length xs. xs ! i = ((\<lambda>v. ps ! unat v) ^^ i) start \<and> unat (xs ! i) < length ps
     \<and> (0 < i \<longrightarrow> xs ! i \<noteq> start))"

lemma step_back_bound:
  "step_back ps n v = Some u \<Longrightarrow> unat v < length ps \<Longrightarrow> unat u < length ps"
  by (induction ps n v rule: step_back.induct) (auto simp: Let_def split: if_splits)

lemma collect_cycle_walk:
  assumes "back_walk ps start (xs @ [current])" "collect_cycle ps n start current xs = Some cycle"
  shows "back_walk ps start cycle \<and> cycle \<noteq> [] \<and> ps ! unat (last cycle) = start \<and> length cycle \<le> n \<and> unat start < length ps"
  using assms
proof (induction ps n start current xs rule: collect_cycle.induct)
  case (1 ps n start current xs)
  let ?next = "ps ! unat current"
  have c: "unat ?next < length ps" "length (xs @ [current]) \<le> n"
    using "1.prems"(2) by (auto simp: collect_cycle.simps [of ps n start current xs] Let_def split: if_splits)
  show ?case
  proof (cases "?next = start")
    case True
    then show ?thesis
      using "1.prems" c by (auto simp: collect_cycle.simps [of ps n start current xs] Let_def)
  next
    case False
    have "current = ((\<lambda>v. ps ! unat v) ^^ length xs) start"
      using "1.prems"(1) by (auto simp: back_walk_def dest: spec [of _ "length xs"])
    then have "back_walk ps start ((xs @ [current]) @ [?next])"
      using "1.prems"(1) c(1) False
      by (auto simp: back_walk_def nth_append less_Suc_eq split: if_splits)
    then show ?thesis
      using 1 c False by (simp add: collect_cycle.simps [of ps n start current xs] Let_def not_le)
  qed
qed

lemma back_walk_distinct:
  assumes "back_walk ps start xs" "xs \<noteq> []" "ps ! unat (last xs) = start"
  shows "distinct xs"
proof -
  let ?p = "\<lambda>v. ps ! unat v"
  have nth: "xs ! i = (?p ^^ i) start" "0 < i \<Longrightarrow> xs ! i \<noteq> start" if "i < length xs" for i
    using assms(1) that by (auto simp: back_walk_def)
  have "(?p ^^ length xs) start = ?p ((?p ^^ (length xs - 1)) start)"
    using assms(2) by (cases "length xs") auto
  also have "\<dots> = start"
    using assms(2,3) nth(1) [of "length xs - 1"] by (simp add: last_conv_nth)
  finally have period: "(?p ^^ length xs) start = start" .
  have "xs ! i \<noteq> xs ! j" if "i < j" "j < length xs" for i j
  proof
    assume "xs ! i = xs ! j"
    then have "(?p ^^ i) start = (?p ^^ j) start" using nth(1) that by simp
    then have "(?p ^^ (length xs - j + i)) start = (?p ^^ (length xs - j + j)) start"
      by (simp only: funpow_add comp_apply)
    also have "\<dots> = start" using period that by simp
    finally have "(?p ^^ (length xs - j + i)) start = start" .
    moreover have "length xs - j + i < length xs" "0 < length xs - j + i" using that by auto
    ultimately show False using nth by metis
  qed
  then show ?thesis by (auto simp: distinct_conv_nth) (metis linorder_neqE_nat)
qed

definition closed_walk :: "('a \<Rightarrow> 'a \<Rightarrow> bool) \<Rightarrow> 'a list \<Rightarrow> bool" where
  "closed_walk E xs \<longleftrightarrow> (\<forall>i<length xs. E (xs ! i) (xs ! (Suc i mod length xs)))"

lemma back_walk_closed:
  assumes "back_walk ps start xs" "xs \<noteq> []" "ps ! unat (last xs) = start"
    and E: "\<And>v. v \<in> set xs \<Longrightarrow> E (ps ! unat v) v"
  shows "closed_walk E (butlast (rev (xs @ [start])))"
proof -
  let ?k = "length xs"
  obtain ys where xs: "xs = start # ys" using assms(1,2) by (cases xs) (auto simp: back_walk_def)
  have core: "butlast (rev (xs @ [start])) = start # rev ys" by (simp add: xs)
  have nth: "(start # rev ys) ! i = xs ! ((?k - i) mod ?k)" if "i < ?k" for i
    using that by (cases i) (auto simp: xs rev_nth)
  have pred: "ps ! unat (xs ! i) = (if Suc i < ?k then xs ! Suc i else start)" if "i < ?k" for i
  proof (cases "Suc i < ?k")
    case True
    then show ?thesis using assms(1) that by (simp add: back_walk_def)
  next
    case False
    then have "i = ?k - 1" using that by linarith
    then have "xs ! i = last xs" using assms(2) by (simp add: last_conv_nth)
    then show ?thesis using False assms(3) by simp
  qed
  have "E ((start # rev ys) ! i) ((start # rev ys) ! (Suc i mod ?k))" if i: "i < ?k" for i
  proof -
    have next_one: "(start # rev ys) ! (Suc i mod ?k) = xs ! (?k - Suc i)"
      using i nth [of "Suc i"] by (cases "Suc i = ?k") (auto simp: xs)
    have "ps ! unat (xs ! (?k - Suc i)) = (start # rev ys) ! i"
      using i nth [OF i] pred [of "?k - Suc i"] by (cases i) (auto simp: xs Suc_diff_Suc)
    moreover have "xs ! (?k - Suc i) \<in> set xs" using i by (intro nth_mem) simp
    ultimately show ?thesis using E [of "xs ! (?k - Suc i)"] next_one by simp
  qed
  then show ?thesis unfolding core closed_walk_def by (simp add: xs)
qed

lemma closed_walk_rotate:
  assumes "closed_walk E xs" "xs \<noteq> []"
  shows "i < length xs \<Longrightarrow> E ((rotate j xs @ [hd (rotate j xs)]) ! i) ((rotate j xs @ [hd (rotate j xs)]) ! Suc i)"
proof -
  let ?k = "length xs" and ?ys = "rotate j xs"
  assume i: "i < ?k"
  have "(?ys @ [hd ?ys]) ! Suc i = xs ! ((j + Suc i) mod ?k)"
  proof (cases "Suc i < ?k")
    case False
    then have e: "Suc i = ?k" using i by simp
    then show ?thesis using assms(2) unfolding e by (simp add: nth_append hd_rotate_conv_nth)
  qed (use assms(2) in \<open>simp add: nth_append nth_rotate\<close>)
  moreover have "(?ys @ [hd ?ys]) ! i = xs ! ((j + i) mod ?k)"
    using i assms(2) by (simp add: nth_append nth_rotate)
  moreover have "(j + i) mod ?k < ?k" using i by (intro mod_less_divisor) linarith
  ultimately show ?thesis
    using assms(1) Suc_add_mod [of j i ?k] unfolding closed_walk_def by metis
qed

lemma rotate_cycle_True:
  assumes "rotate_cycle_to_quote quote cycle = (True, cycle')" "closed_walk E (butlast cycle)" "distinct (butlast cycle)"
  shows "3 \<le> length cycle' \<and> length cycle' = length cycle \<and> hd cycle' = quote \<and> last cycle' = quote
    \<and> distinct (butlast cycle') \<and> (\<forall>i. Suc i < length cycle' \<longrightarrow> E (cycle' ! i) (cycle' ! Suc i))"
proof -
  let ?xs = "butlast cycle" and ?j = "length (takeWhile (\<lambda>a. a \<noteq> quote) (butlast cycle))"
  have c: "3 \<le> length cycle" "?j \<noteq> length ?xs" "cycle' = rotate ?j ?xs @ [hd (rotate ?j ?xs)]"
    using assms(1) by (auto simp: rotate_cycle_to_quote_def Let_def split: if_splits)
  have j: "?j < length ?xs" using c(2) length_takeWhile_le [of "\<lambda>a. a \<noteq> quote" ?xs] by linarith
  have ne: "?xs \<noteq> []" using c(1) by (cases cycle rule: rev_cases) auto
  have hd: "hd (rotate ?j ?xs) = quote"
    using j ne nth_length_takeWhile [OF j] by (simp add: hd_rotate_conv_nth)
  have "E (cycle' ! i) (cycle' ! Suc i)" if "Suc i < length cycle'" for i
    using closed_walk_rotate [OF assms(2) ne, of i ?j] that unfolding c(3) by simp
  then show ?thesis
    using c(1) hd assms(3) ne unfolding c(3) by (auto simp: hd_append)
qed

lemma reconstruct_True:
  assumes "search_ok n es s" "n < 65536"
    and "reconstruct_negative_cycle quote (cs_predecessors s) v n = (True, cycle)"
  shows "3 \<le> length cycle \<and> length cycle \<le> Suc n \<and> hd cycle = quote \<and> last cycle = quote \<and> distinct (butlast cycle)
    \<and> (\<forall>i. Suc i < length cycle \<longrightarrow> trade_edge es (cycle ! i) (cycle ! Suc i))"
proof -
  let ?ps = "cs_predecessors s"
  have len: "length ?ps = n" using assms(1) by (simp add: search_ok_def)
  obtain start xs where c: "collect_cycle ?ps n start start [] = Some xs"
      "rotate_cycle_to_quote quote (rev (xs @ [start])) = (True, cycle)" "step_back ?ps n v = Some start"
    using assms(3) by (auto simp: reconstruct_negative_cycle_def Let_def split: if_splits option.splits)
  have "unat start < length ?ps"
    using assms(3) c(3) step_back_bound [OF c(3)] by (auto simp: reconstruct_negative_cycle_def split: if_splits)
  then have "back_walk ?ps start ([] @ [start])" by (simp add: back_walk_def)
  note w = collect_cycle_walk [OF this c(1)]
  note b = w [THEN conjunct1, unfolded back_walk_def len, rule_format]
  note nth = b [THEN conjunct1] b [THEN conjunct2, THEN conjunct1]
  have "trade_edge es (?ps ! unat u) u" if in_xs: "u \<in> set xs" for u
  proof -
    obtain i where i: "i < length xs" "xs ! i = u" using in_xs by (metis in_set_conv_nth)
    have u: "unat u < n" using nth(2) [OF i(1)] i(2) by simp
    have "unat (?ps ! unat u) < n"
    proof (cases "Suc i < length xs")
      case True
      then have "xs ! Suc i = ?ps ! unat u" using nth(1) [OF True] nth(1) [OF i(1)] i(2) by simp
      then show ?thesis using nth(2) [OF True] by simp
    next
      case False
      then have "i = length xs - 1" using i(1) by linarith
      then have "u = last xs" using i(2) w by (simp add: last_conv_nth)
      then show ?thesis using w len by simp
    qed
    moreover have "unat no_asset = 65535" by (simp add: no_asset_def unsigned_minus_1_eq_mask mask_eq_exp_minus_1)
    ultimately show ?thesis using assms(1,2) u by (auto simp: search_ok_def)
  qed
  then have "closed_walk (trade_edge es) (butlast (rev (xs @ [start])))"
    using w by (intro back_walk_closed [where ps = ?ps]) auto
  moreover have "distinct (butlast (rev (xs @ [start])))"
  proof -
    obtain ys where "xs = start # ys" using w by (cases xs) (auto simp: back_walk_def)
    then show ?thesis using back_walk_distinct [of ?ps start xs] w by simp
  qed
  ultimately show ?thesis
    using rotate_cycle_True [OF c(2), of "trade_edge es"] w by simp
qed

text \<open>C28: Whatever the floating point, a cycle that the search reports over fewer than 65536
  assets is one to trade: it starts and ends at the quote asset, has at least two legs and
  at most one per asset, passes through no asset twice, and each of its legs is an edge of
  the graph whose effective rate is not zero or negative.\<close>
theorem reported_cycles_are_tradable:
  assumes "find_negative_cycle fp quote g old = (True, cycle)" "gr_asset_count g < 65536"
  shows "3 \<le> length cycle \<and> length cycle \<le> Suc (gr_asset_count g) \<and> hd cycle = quote \<and> last cycle = quote
    \<and> distinct (butlast cycle)
    \<and> (\<forall>i. Suc i < length cycle \<longrightarrow> (\<exists>e\<in>set (gr_edges g). ge_from e = cycle ! i \<and> ge_to e = cycle ! Suc i
        \<and> \<not> is_at_most_zero (ge_effective_rate e)))"
proof -
  obtain s where s: "relax_passes fp (gr_edges g) (gr_asset_count g) (new_search (gr_asset_count g)) = Some s"
      "reconstruct_negative_cycle quote (cs_predecessors s) (cs_relaxed_vertex s) (gr_asset_count g) = (True, cycle)"
    using assms(1) by (auto simp: find_negative_cycle_def split: if_splits option.splits)
  show ?thesis
    using reconstruct_True [OF relax_passes_ok [OF new_search_ok s(1)] assms(2) s(2)] unfolding trade_edge_def .
qed

text \<open>Rates that are powers of two, multiplied by adding their exponents.\<close>

definition power_fp :: fp where
  "power_fp = \<lparr>fp_of_u64 = (\<lambda>_. 0), fp_neg = (\<lambda>_. 0), fp_add = (\<lambda>_ _. 0),
     fp_mul = (\<lambda>a b. if b = dbl_one_plus_epsilon then a else a + b - dbl_one), fp_div = (\<lambda>_ _. 0), fp_log = (\<lambda>_. 0),
     fp_log1p = (\<lambda>_. 0), fp_exp = (\<lambda>_. 0), fp_sqrt = (\<lambda>_. 0), fp_cos = (\<lambda>_. 0)\<rparr>"

definition priced_edge :: "asset_id \<Rightarrow> asset_id \<Rightarrow> double \<Rightarrow> graph_edge" where
  "priced_edge f t rate = (static_edge f t 0 True)\<lparr>ge_effective_rate := rate\<rparr>"

definition sample_graph :: graph where
  "sample_graph = \<lparr>gr_asset_count = 3, gr_pairs = sample_pairs,
     gr_edges = [priced_edge 1 0 0x4000000000000000, priced_edge 0 1 0x3FD0000000000000, priced_edge 2 1 dbl_one,
       priced_edge 0 2 dbl_one, priced_edge 1 2 0x3FD0000000000000],
     gr_adjacency = [[1, 3], [0, 4], [2]], gr_lookup = SparseLookup []\<rparr>"

theorem reported_cycles_are_tradable_witness:
  "find_negative_cycle power_fp 0 sample_graph [] = (True, snd (find_negative_cycle power_fp 0 sample_graph []))
    \<and> hd (snd (find_negative_cycle power_fp 0 sample_graph [])) = 0
    \<and> length (snd (find_negative_cycle power_fp 0 sample_graph [])) = 4"
proof -
  let ?r = "find_negative_cycle power_fp 0 sample_graph []"
  have "fst ?r" "length (snd ?r) = 4" by code_simp+
  then have r: "?r = (True, snd ?r)" by (cases ?r) simp
  have "gr_asset_count sample_graph < 65536" by (simp add: sample_graph_def)
  from reported_cycles_are_tradable [OF r this] r \<open>length (snd ?r) = 4\<close> show ?thesis by blast
qed

subsection \<open>The ring\<close>

definition ring_holds :: "nat \<Rightarrow> 'a list \<Rightarrow> 'a snapshot_ring \<Rightarrow> bool" where
  "ring_holds n xs r \<longleftrightarrow> length (ring_storage r) = n \<and> ring_count r = min n (length xs)
     \<and> ring_next r = (if n = 0 then 0 else length xs mod n)
     \<and> ring_overwritten r = of_nat (length xs - n)
     \<and> (\<forall>i<length xs. length xs \<le> i + n \<longrightarrow> ring_storage r ! (i mod n) = xs ! i)"

lemma ring_push_holds:
  assumes "ring_holds n xs r"
  shows "ring_holds n (xs @ [x]) (ring_push x r)"
proof (cases "n = 0")
  case True
  then have "ring_storage r = []" using assms by (simp add: ring_holds_def)
  then show ?thesis using assms True by (auto simp: ring_holds_def ring_push_def)
next
  case False
  let ?m = "length xs"
  have r: "length (ring_storage r) = n" "ring_count r = min n ?m" "ring_next r = ?m mod n" "ring_storage r \<noteq> []"
      "ring_overwritten r = of_nat (?m - n)"
    using assms False by (auto simp: ring_holds_def)
  have old: "ring_storage r ! (i mod n) = xs ! i" if "i < ?m" "?m \<le> i + n" for i
    using assms that by (simp add: ring_holds_def)
  have "(ring_storage r)[?m mod n := x] ! (i mod n) = (xs @ [x]) ! i" if "i < Suc ?m" "Suc ?m \<le> i + n" for i
  proof (cases "i = ?m")
    case True
    then show ?thesis using r(1) False by simp
  next
    case i: False
    have "i mod n \<noteq> ?m mod n"
    proof
      assume "i mod n = ?m mod n"
      then have "0 = ?m - i" using that i by (intro add_mod_inj_le [of 0 _ n i]) auto
      then show False using that i by simp
    qed
    then show ?thesis using old [of i] that i by (simp add: nth_append)
  qed
  then show ?thesis
    using r False by (auto simp: ring_holds_def ring_push_def Let_def mod_Suc_eq Suc_diff_le)
qed

lemma ring_reset_holds: "ring_holds n [] (ring_reset n blank)"
  by (simp add: ring_holds_def ring_reset_def)

lemma ring_pushes_hold: "ring_holds n ys r \<Longrightarrow> ring_holds n (ys @ xs) (fold ring_push xs r)"
  using ring_push_holds by (induction xs arbitrary: ys r) fastforce+

lemma ring_holds_vector:
  assumes "ring_holds n xs r"
  shows "ring_to_vector r = drop (length xs - n) xs"
proof (cases "n = 0 \<or> xs = []")
  case True
  then show ?thesis using assms by (auto simp: ring_holds_def ring_to_vector_def)
next
  case False
  let ?m = "length xs"
  have r: "length (ring_storage r) = n" "ring_count r = min n ?m" "ring_next r = ?m mod n"
    using assms False by (auto simp: ring_holds_def)
  have old: "ring_storage r ! (i mod n) = xs ! i" if "i < ?m" "?m \<le> i + n" for i
    using assms that by (simp add: ring_holds_def)
  have "ring_storage r ! (((if ring_count r = n then ring_next r else 0) + i) mod n) = xs ! (?m - n + i)"
    if i: "i < min n ?m" for i
  proof (cases "n \<le> ?m")
    case True
    then have "(?m mod n + i) mod n = (?m - n + i) mod n"
      by (metis le_add_diff_inverse2 mod_add_left_eq mod_add_self2)
    then show ?thesis using r True old [of "?m - n + i"] i by (simp add: min_def)
  next
    case less: False
    then show ?thesis using r old [of i] i by simp
  qed
  then have "ring_to_vector r = map (\<lambda>i. xs ! (?m - n + i)) [0..<min n ?m]"
    unfolding ring_to_vector_def Let_def r(1) using r(2) False by simp
  also have "\<dots> = drop (?m - n) xs"
    by (intro nth_equalityI) auto
  finally show ?thesis .
qed

text \<open>The ring returns exactly the latest snapshots pushed since its reset, in the order of
  their pushes and as many as its capacity allows, and counts (modulo \<open>2 ^ 64\<close>) every
  earlier one as overwritten; with capacity zero it keeps none and counts them all.\<close>
theorem ring_keeps_the_latest:
  "ring_to_vector (fold ring_push xs (ring_reset n blank)) = drop (length xs - n) xs
    \<and> ring_overwritten (fold ring_push xs (ring_reset n blank)) = of_nat (length xs - n)"
  using ring_pushes_hold [OF ring_reset_holds, of n xs blank] ring_holds_vector
  by (fastforce simp: ring_holds_def)

end
