(* ===== verification/CsvParser.thy ===== *)
theory CsvParser
  imports SimTypes
begin

section \<open>Reading orders from CSV files\<close>

text \<open>
  \<open>CsvParser\<close> of \<open>include/lob/csv_parser.hpp\<close> and \<open>src/csv_parser.cpp\<close>. The mapped
  file is a string, the cursor what is left of it; a null cursor is an empty file.
  Opening, mapping and closing files are left out. A parser holds the next event and has
  already read it, so \<open>pop\<close> reads the row after the one it returns. Integers are read
  modulo \<open>2 ^ 64\<close>; a scaled price is that word taken as signed. An exception is the
  left of a sum.
\<close>

datatype csv_error = Side_at_end | Invalid_side | Expected_comma | Expected_newline | No_remaining_events

record lob_order =
  lo_id :: u64
  lo_price :: int
  lo_quantity :: u64
  lo_side :: side
  lo_timestamp :: u64

subsection \<open>Fields\<close>

definition is_digit :: "char \<Rightarrow> bool" where
  "is_digit c \<longleftrightarrow> of_char CHR ''0'' \<le> (of_char c :: nat) \<and> of_char c \<le> (of_char CHR ''9'' :: nat)"

definition digit_value :: "char \<Rightarrow> u64" where
  "digit_value c = of_char c - of_char CHR ''0''"

definition quantity_scale :: u64 where
  "quantity_scale = 100000000"

fun parse_digits :: "u64 \<Rightarrow> string \<Rightarrow> u64 \<times> string" where
  "parse_digits v [] = (v, [])"
| "parse_digits v (c # cs) = (if is_digit c then parse_digits (v * 10 + digit_value c) cs else (v, c # cs))"

definition parse_unsigned :: "string \<Rightarrow> u64 \<times> string" where
  "parse_unsigned = parse_digits 0"

fun parse_fraction :: "u64 \<Rightarrow> u64 \<Rightarrow> string \<Rightarrow> u64 \<times> string" where
  "parse_fraction v multiplier [] = (v, [])"
| "parse_fraction v multiplier (c # cs) =
     (if is_digit c \<and> 0 < multiplier then parse_fraction (v + digit_value c * multiplier) (multiplier div 10) cs
      else (v, c # cs))"

fun skip_digits :: "string \<Rightarrow> string" where
  "skip_digits [] = []"
| "skip_digits (c # cs) = (if is_digit c then skip_digits cs else c # cs)"

definition parse_scaled :: "string \<Rightarrow> u64 \<times> string" where
  "parse_scaled s =
     (let (integer_part, s) = parse_digits 0 s; scaled = integer_part * quantity_scale in
      case s of
        c # cs \<Rightarrow>
          if c = CHR ''.''
          then let (scaled, s) = parse_fraction scaled (quantity_scale div 10) cs in (scaled, skip_digits s)
          else (scaled, s)
      | [] \<Rightarrow> (scaled, s))"

definition parse_scaled_quantity :: "string \<Rightarrow> u64 \<times> string" where
  "parse_scaled_quantity = parse_scaled"

definition parse_scaled_price :: "string \<Rightarrow> int \<times> string" where
  "parse_scaled_price s = (case parse_scaled s of (v, s) \<Rightarrow> (sint v, s))"

definition ends_field :: "char \<Rightarrow> bool" where
  "ends_field c \<longleftrightarrow> c = CHR '','' \<or> c = CHR 0x0A \<or> c = CHR 0x0D"

fun skip_field :: "string \<Rightarrow> string" where
  "skip_field [] = []"
| "skip_field (c # cs) = (if \<not> ends_field c then skip_field cs else c # cs)"

definition parse_incoming_side :: "string \<Rightarrow> csv_error + side \<times> string" where
  "parse_incoming_side s =
     (case s of
        [] \<Rightarrow> Inl Side_at_end
      | first # _ \<Rightarrow>
          if first = CHR ''t'' \<or> first = CHR ''T'' \<or> first = CHR ''1'' then Inr (Sell, skip_field s)
          else if first = CHR ''f'' \<or> first = CHR ''F'' \<or> first = CHR ''0'' then Inr (Buy, skip_field s)
          else Inl Invalid_side)"

definition expect_comma :: "string \<Rightarrow> csv_error + string" where
  "expect_comma s = (case s of c # cs \<Rightarrow> if c = CHR '','' then Inr cs else Inl Expected_comma | [] \<Rightarrow> Inl Expected_comma)"

definition skip_char :: "char \<Rightarrow> string \<Rightarrow> string" where
  "skip_char x s = (case s of c # cs \<Rightarrow> if c = x then cs else s | [] \<Rightarrow> [])"

definition consume_record_end :: "string \<Rightarrow> csv_error + string" where
  "consume_record_end s =
     (case skip_char (CHR 0x0D) s of
        [] \<Rightarrow> Inr []
      | c # cs \<Rightarrow> if c = CHR 0x0A then Inr cs else Inl Expected_newline)"

definition skip_empty_line :: "string \<Rightarrow> string" where
  "skip_empty_line s = skip_char (CHR 0x0A) (skip_char (CHR 0x0D) s)"

subsection \<open>Rows\<close>

text \<open>Sequencing of steps that may throw.\<close>

definition and_next :: "'e + 'a \<Rightarrow> ('a \<Rightarrow> 'e + 'b) \<Rightarrow> 'e + 'b" where
  "and_next r f = (case r of Inl e \<Rightarrow> Inl e | Inr x \<Rightarrow> f x)"

definition parse_row :: "string \<Rightarrow> csv_error + lob_order \<times> string" where
  "parse_row s =
     (let (id, s) = parse_unsigned s in
      and_next (expect_comma s) (\<lambda>s. let (price, s) = parse_scaled_price s in
      and_next (expect_comma s) (\<lambda>s. let (quantity, s) = parse_scaled_quantity s in
      and_next (expect_comma s) (\<lambda>s.
      and_next (expect_comma (skip_field s)) (\<lambda>s. let (timestamp, s) = parse_unsigned s in
      and_next (expect_comma s) (\<lambda>s.
      and_next (parse_incoming_side s) (\<lambda>(sd, s).
      and_next (expect_comma s) (\<lambda>s.
      and_next (consume_record_end (skip_field s)) (\<lambda>s.
        Inr (\<lparr>lo_id = id, lo_price = price, lo_quantity = quantity, lo_side = sd, lo_timestamp = timestamp\<rparr>, s))))))))))"

record csv_parser =
  cp_cursor :: string
  cp_next_event :: lob_order
  cp_has_next :: bool

definition default_lob_order :: lob_order where
  "default_lob_order = \<lparr>lo_id = 0, lo_price = 0, lo_quantity = 0, lo_side = Buy, lo_timestamp = 0\<rparr>"

lemma skip_char_length: "length (skip_char x s) \<le> length s"
  by (simp add: skip_char_def split: list.split)

lemma skip_empty_line_length: "ends_field c \<Longrightarrow> c \<noteq> CHR '','' \<Longrightarrow> length (skip_empty_line (c # s)) < length (c # s)"
  using skip_char_length [of "CHR 0x0A" s] by (auto simp: ends_field_def skip_empty_line_def skip_char_def)

function parse_next :: "csv_parser \<Rightarrow> csv_error + csv_parser" where
  "parse_next p =
     (case cp_cursor p of
        [] \<Rightarrow> Inr (p\<lparr>cp_has_next := False\<rparr>)
      | c # _ \<Rightarrow>
          if c = CHR 0x0A \<or> c = CHR 0x0D then parse_next (p\<lparr>cp_cursor := skip_empty_line (cp_cursor p)\<rparr>)
          else and_next (parse_row (cp_cursor p)) (\<lambda>(event, s).
                 Inr (p\<lparr>cp_cursor := s, cp_next_event := event, cp_has_next := True\<rparr>)))"
  by pat_completeness auto
termination
  by (relation "measure (\<lambda>p. length (cp_cursor p))")
    (auto simp: skip_empty_line_length ends_field_def simp del: list.size)

declare parse_next.simps [simp del]

definition csv_open :: "string \<Rightarrow> csv_error + csv_parser" where
  "csv_open file = parse_next \<lparr>cp_cursor = file, cp_next_event = default_lob_order, cp_has_next = False\<rparr>"

definition csv_pop :: "csv_parser \<Rightarrow> csv_error + lob_order \<times> csv_parser" where
  "csv_pop p =
     (if \<not> cp_has_next p then Inl No_remaining_events
      else and_next (parse_next p) (\<lambda>p'. Inr (cp_next_event p, p')))"

subsection \<open>Reading consumes the file\<close>

lemma parse_digits_length: "length (snd (parse_digits v s)) \<le> length s"
  by (induction v s rule: parse_digits.induct) auto

lemma parse_fraction_length: "length (snd (parse_fraction v m s)) \<le> length s"
  by (induction v m s rule: parse_fraction.induct) auto

lemma skip_digits_length: "length (skip_digits s) \<le> length s"
  by (induction s) auto

lemma skip_field_length: "length (skip_field s) \<le> length s"
  by (induction s) auto

lemma parse_scaled_length: "length (snd (parse_scaled s)) \<le> length s"
proof -
  obtain v s1 where d: "parse_digits 0 s = (v, s1)" by fastforce
  have s1: "length s1 \<le> length s" using parse_digits_length [of 0 s] d by simp
  have frac: "length (skip_digits (snd (parse_fraction w m cs))) \<le> length cs" for w m cs
    using parse_fraction_length [of w m cs] skip_digits_length [of "snd (parse_fraction w m cs)"] by linarith
  show ?thesis
  proof (cases s1)
    case (Cons c cs)
    have "length (skip_digits (snd (parse_fraction (v * quantity_scale) (quantity_scale div 10) cs))) \<le> length s"
      using frac [of "v * quantity_scale" "quantity_scale div 10" cs] s1 Cons by simp
    then show ?thesis
      using s1 d Cons by (simp add: parse_scaled_def Let_def case_prod_unfold)
  qed (use d in \<open>simp add: parse_scaled_def Let_def\<close>)
qed

lemma expect_comma_length: "expect_comma s = Inr t \<Longrightarrow> length t < length s"
  by (auto simp: expect_comma_def split: list.splits if_splits)

lemma parse_side_rest: "parse_incoming_side s = Inr (sd, t) \<Longrightarrow> t = skip_field s"
  unfolding parse_incoming_side_def by (cases s) (simp_all only: list.case Let_def sum.simps prod.simps split: if_split_asm)

lemma record_end_length: "consume_record_end s = Inr t \<Longrightarrow> length t \<le> length s"
  using skip_char_length [of "CHR 0x0D" s] by (auto simp: consume_record_end_def split: list.splits if_splits)

lemma and_next_Inr: "and_next r f = Inr y \<longleftrightarrow> (\<exists>x. r = Inr x \<and> f x = Inr y)"
  by (auto simp: and_next_def split: sum.splits)

lemma parse_row_length: "parse_row s = Inr (r, t) \<Longrightarrow> length t < length s"
proof -
  assume "parse_row s = Inr (r, t)"
  then obtain s1 s2 s3 s4 s5 sd s6 s7 where
      e: "expect_comma (snd (parse_unsigned s)) = Inr s1" "expect_comma (snd (parse_scaled_price s1)) = Inr s2"
      "expect_comma (snd (parse_scaled_quantity s2)) = Inr s3" "expect_comma (skip_field s3) = Inr s4"
      "expect_comma (snd (parse_unsigned s4)) = Inr s5" "parse_incoming_side s5 = Inr (sd, s6)"
      "expect_comma s6 = Inr s7" "consume_record_end (skip_field s7) = Inr t"
    unfolding parse_row_def Let_def case_prod_unfold and_next_Inr by auto
  have "length s1 < length s"
    using expect_comma_length [OF e(1)] parse_digits_length [of 0 s] by (simp add: parse_unsigned_def)
  moreover have "length s2 \<le> length s1"
    using expect_comma_length [OF e(2)] parse_scaled_length [of s1] by (simp add: parse_scaled_price_def case_prod_unfold)
  moreover have "length s3 \<le> length s2"
    using expect_comma_length [OF e(3)] parse_scaled_length [of s2] by (simp add: parse_scaled_quantity_def)
  moreover have "length s4 \<le> length s3"
    using expect_comma_length [OF e(4)] skip_field_length [of s3] by simp
  moreover have "length s5 \<le> length s4"
    using expect_comma_length [OF e(5)] parse_digits_length [of 0 s4] by (simp add: parse_unsigned_def)
  moreover have "length s6 \<le> length s5"
    using parse_side_rest [OF e(6)] skip_field_length [of s5] by simp
  moreover have "length s7 \<le> length s6"
    using expect_comma_length [OF e(7)] by simp
  moreover have "length t \<le> length s7"
    using record_end_length [OF e(8)] skip_field_length [of s7] by simp
  ultimately show ?thesis by linarith
qed

lemma parse_next_length:
  "parse_next p = Inr p' \<Longrightarrow> length (cp_cursor p') + (if cp_has_next p' then 1 else 0) \<le> length (cp_cursor p)"
proof (induction p arbitrary: p' rule: parse_next.induct)
  case (1 p)
  show ?case
  proof (cases "cp_cursor p")
    case Nil
    then show ?thesis using "1.prems" by (auto simp: parse_next.simps [of p])
  next
    case (Cons c cs)
    show ?thesis
    proof (cases "c = CHR 0x0A \<or> c = CHR 0x0D")
      case True
      then have "length (skip_empty_line (cp_cursor p)) < length (cp_cursor p)"
        unfolding Cons by (intro skip_empty_line_length) (auto simp: ends_field_def)
      moreover have "parse_next (p\<lparr>cp_cursor := skip_empty_line (cp_cursor p)\<rparr>) = Inr p'"
        using "1.prems" True by (simp add: parse_next.simps [of p] Cons)
      ultimately show ?thesis using "1.IH" [OF Cons True] by fastforce
    next
      case False
      then obtain r t where "parse_row (cp_cursor p) = Inr (r, t)" "cp_cursor p' = t" "cp_has_next p'"
        using "1.prems" by (auto simp: parse_next.simps [of p] Cons and_next_Inr)
      then show ?thesis using parse_row_length [of "cp_cursor p" r t] by simp
    qed
  qed
qed

text \<open>
  The loop of \<open>parse_file\<close>: every order goes to the handler, until the end of the file or
  until \<open>pop\<close> throws. What the handler is given, and the exception if there is one.
\<close>

function deliver :: "csv_parser \<Rightarrow> lob_order list \<times> csv_error option" where
  "deliver p =
     (if cp_has_next p
      then (case csv_pop p of
              Inl e \<Rightarrow> ([], Some e)
            | Inr (order, p') \<Rightarrow> (case deliver p' of (orders, e) \<Rightarrow> (order # orders, e)))
      else ([], None))"
  by pat_completeness auto
termination
proof (relation "measure (\<lambda>p. length (cp_cursor p) + (if cp_has_next p then 1 else 0))", goal_cases)
  case (2 p x order p')
  then have "parse_next p = Inr p'" by (auto simp: csv_pop_def and_next_Inr)
  then show ?case using parse_next_length [of p p'] 2(1) by simp
qed simp

declare deliver.simps [simp del]

definition parse_file :: "string \<Rightarrow> lob_order list \<times> csv_error option" where
  "parse_file file = (case csv_open file of Inl e \<Rightarrow> ([], Some e) | Inr p \<Rightarrow> deliver p)"

end
