(* ===== verification/CsvProperties.thy ===== *)
theory CsvProperties
  imports CsvParser
begin

section \<open>Round trip of CSV files\<close>

text \<open>
  Writing orders as rows and reading the file gives the orders back; a row that cannot
  be read takes the order before it with it.
\<close>

subsection \<open>Writing\<close>

definition digit_char :: "nat \<Rightarrow> char" where
  "digit_char d = char_of (48 + d)"

fun decimal :: "nat \<Rightarrow> string" where
  "decimal n = (if n < 10 then [digit_char n] else decimal (n div 10) @ [digit_char (n mod 10)])"

declare decimal.simps [simp del]

fun fraction_text :: "nat \<Rightarrow> nat \<Rightarrow> string" where
  "fraction_text 0 n = []"
| "fraction_text (Suc k) n = digit_char (n div 10 ^ k mod 10) # fraction_text k n"

text \<open>A number with eight decimals.\<close>

definition fixed_text :: "nat \<Rightarrow> string" where
  "fixed_text n = decimal (n div 10 ^ 8) @ CHR ''.'' # fraction_text 8 n"

record csv_row =
  row_order :: lob_order
  row_quote_quantity :: string
  row_last_field :: string
  row_crlf :: bool

definition side_text :: "side \<Rightarrow> string" where
  "side_text sd = (case sd of Sell \<Rightarrow> ''true'' | Buy \<Rightarrow> ''false'')"

definition row_text :: "csv_row \<Rightarrow> string" where
  "row_text r = (let o_row = row_order r in
     decimal (unat (lo_id o_row)) @ CHR '','' # fixed_text (nat (lo_price o_row)) @ CHR '','' #
     fixed_text (unat (lo_quantity o_row)) @ CHR '','' # row_quote_quantity r @ CHR '','' #
     decimal (unat (lo_timestamp o_row)) @ CHR '','' # side_text (lo_side o_row) @ CHR '','' #
     row_last_field r @ (if row_crlf r then [CHR 0x0D, CHR 0x0A] else [CHR 0x0A]))"

definition plain_text :: "string \<Rightarrow> bool" where
  "plain_text s \<longleftrightarrow> list_all (\<lambda>c. \<not> ends_field c) s"

definition row_ok :: "csv_row \<Rightarrow> bool" where
  "row_ok r \<longleftrightarrow> 0 \<le> lo_price (row_order r) \<and> lo_price (row_order r) \<le> i64_max
     \<and> plain_text (row_quote_quantity r) \<and> plain_text (row_last_field r)"

definition file_text :: "csv_row list \<Rightarrow> string" where
  "file_text rows = concat (map row_text rows)"

subsection \<open>Digits\<close>

definition no_digit :: "string \<Rightarrow> bool" where
  "no_digit s \<longleftrightarrow> (case s of [] \<Rightarrow> True | c # _ \<Rightarrow> \<not> is_digit c)"

lemma digit_char_ok: "d < 10 \<Longrightarrow> is_digit (digit_char d) \<and> digit_value (digit_char d) = of_nat d"
proof -
  have "\<forall>d\<in>set [0..<10]. is_digit (digit_char d) \<and> digit_value (digit_char d) = of_nat d"
    by code_simp
  then show "d < 10 \<Longrightarrow> is_digit (digit_char d) \<and> digit_value (digit_char d) = of_nat d" by simp
qed

lemma separators_no_digit:
  "\<not> is_digit (CHR '','')" "\<not> is_digit (CHR ''.'')" "\<not> is_digit (CHR 0x0A)" "\<not> is_digit (CHR 0x0D)"
  by (simp_all add: is_digit_def)

definition read_digits :: "u64 \<Rightarrow> string \<Rightarrow> u64" where
  "read_digits v s = foldl (\<lambda>v c. v * 10 + digit_value c) v s"

lemma parse_digits_append: "list_all is_digit s \<Longrightarrow> parse_digits v (s @ t) = parse_digits (read_digits v s) t"
  by (induction s arbitrary: v) (auto simp: read_digits_def)

lemma parse_digits_stop: "no_digit t \<Longrightarrow> parse_digits v t = (v, t)"
  by (cases t) (auto simp: no_digit_def)

lemma decimal_digits: "list_all is_digit (decimal n) \<and> read_digits 0 (decimal n) = of_nat n \<and> decimal n \<noteq> []"
proof (induction n rule: decimal.induct)
  case (1 n)
  show ?case
  proof (cases "n < 10")
    case True
    then show ?thesis using digit_char_ok [of n] by (simp add: decimal.simps [of n] read_digits_def)
  next
    case False
    have "of_nat (n div 10) * 10 + of_nat (n mod 10) = (of_nat n :: u64)"
      by (metis of_nat_add of_nat_mult of_nat_numeral div_mult_mod_eq)
    then show ?thesis
      using False 1 digit_char_ok [of "n mod 10"] by (simp add: decimal.simps [of n] read_digits_def)
  qed
qed

lemma parse_decimal: "no_digit t \<Longrightarrow> parse_digits 0 (decimal n @ t) = (of_nat n, t)"
  using decimal_digits [of n] by (simp add: parse_digits_append parse_digits_stop)

lemma word_power_div: "k < 8 \<Longrightarrow> (10 ^ Suc k :: u64) div 10 = 10 ^ k \<and> (0 :: u64) < 10 ^ k"
proof -
  assume "k < 8"
  then have "k \<in> {0, 1, 2, 3, 4, 5, 6, 7}" by auto
  then show ?thesis by auto
qed

lemma parse_fraction_stop: "parse_fraction v 0 t = (v, t)"
  by (cases t) auto

lemma parse_fraction_text:
  "k < 8 \<Longrightarrow> parse_fraction v (10 ^ k) (fraction_text (Suc k) n @ t) = (v + of_nat (n mod 10 ^ Suc k), t)"
proof (induction k arbitrary: v)
  case 0
  have "(1 :: u64) div 10 = 0" by simp
  then show ?case using digit_char_ok [of "n mod 10"] by (simp add: parse_fraction_stop)
next
  case (Suc k)
  have d: "n div 10 ^ Suc k mod 10 < 10" by simp
  have "n mod 10 ^ Suc (Suc k) = 10 ^ Suc k * (n div 10 ^ Suc k mod 10) + n mod 10 ^ Suc k"
    using mod_mult2_eq [of n "10 ^ Suc k" 10] by (simp add: mult.commute)
  then have "(of_nat (n mod 10 ^ Suc (Suc k)) :: u64)
      = 10 ^ Suc k * of_nat (n div 10 ^ Suc k mod 10) + of_nat (n mod 10 ^ Suc k)"
    by (metis of_nat_add of_nat_mult of_nat_numeral of_nat_power)
  moreover have "parse_fraction v (10 ^ Suc k) (fraction_text (Suc (Suc k)) n @ t)
      = parse_fraction (v + of_nat (n div 10 ^ Suc k mod 10) * 10 ^ Suc k) (10 ^ k) (fraction_text (Suc k) n @ t)"
    using digit_char_ok [OF d] word_power_div [of k] word_power_div [of "Suc k"] Suc.prems
    by (simp only: fraction_text.simps(2) append_Cons parse_fraction.simps(2)) simp
  ultimately show ?case
    using Suc.IH [of "v + of_nat (n div 10 ^ Suc k mod 10) * 10 ^ Suc k"] Suc.prems
    by (simp only: Suc_lessD algebra_simps)
qed

lemma parse_fixed:
  assumes "no_digit t"
  shows "parse_scaled (fixed_text n @ t) = (of_nat n, t)"
proof -
  have d: "parse_digits 0 (decimal (n div 10 ^ 8) @ CHR ''.'' # fraction_text 8 n @ t)
      = (of_nat (n div 10 ^ 8), CHR ''.'' # fraction_text 8 n @ t)"
    using separators_no_digit(2) by (intro parse_decimal) (simp add: no_digit_def)
  have "parse_fraction v (10 ^ 7) (fraction_text (Suc 7) n @ t) = (v + of_nat (n mod 10 ^ Suc 7), t)" for v
    by (rule parse_fraction_text) simp
  moreover have "quantity_scale div 10 = (10 ^ 7 :: u64)" "Suc 7 = (8 :: nat)" by (simp_all add: quantity_scale_def)
  ultimately have f: "parse_fraction v (quantity_scale div 10) (fraction_text 8 n @ t) = (v + of_nat (n mod 10 ^ 8), t)" for v
    by metis
  have "skip_digits t = t" using assms by (cases t) (auto simp: no_digit_def)
  moreover have "of_nat (n div 10 ^ 8) * quantity_scale + of_nat (n mod 10 ^ 8) = (of_nat n :: u64)"
  proof -
    have "of_nat (n div 10 ^ 8) * 10 ^ 8 + of_nat (n mod 10 ^ 8) = (of_nat n :: u64)"
      by (metis of_nat_add of_nat_mult of_nat_numeral of_nat_power div_mult_mod_eq)
    moreover have "quantity_scale = 10 ^ 8" by (simp add: quantity_scale_def)
    ultimately show ?thesis by metis
  qed
  ultimately show ?thesis
    using d f [of "of_nat (n div 10 ^ 8) * quantity_scale"]
    by (simp add: parse_scaled_def fixed_text_def Let_def)
qed

subsection \<open>Rows and files\<close>

lemma skip_plain: "plain_text s \<Longrightarrow> ends_field c \<Longrightarrow> skip_field (s @ c # t) = c # t"
  by (induction s) (auto simp: plain_text_def)

lemma separator_ends: "ends_field (CHR '','')" "ends_field (CHR 0x0A)" "ends_field (CHR 0x0D)"
  by (simp_all add: ends_field_def)

lemma parse_side_text: "parse_incoming_side (side_text sd @ CHR '','' # t) = Inr (sd, CHR '','' # t)"
  by (cases sd) (simp_all add: parse_incoming_side_def side_text_def ends_field_def)

lemma parse_price_text:
  assumes "no_digit t" "0 \<le> x" "x \<le> i64_max"
  shows "parse_scaled_price (fixed_text (nat x) @ t) = (x, t)"
proof -
  have "(of_nat (nat x) :: u64) = word_of_int x" using assms(2) by simp
  moreover have "sint (word_of_int x :: u64) = x"
    using assms(2,3) by (simp add: sint_sbintrunc' i64_max_def signed_take_bit_int_eq_self)
  ultimately show ?thesis
    using parse_fixed [OF assms(1)] by (simp add: parse_scaled_price_def)
qed

lemma no_digit_comma: "no_digit (CHR '','' # t)"
  using separators_no_digit(1) by (simp add: no_digit_def)

lemma expect_comma_Cons: "expect_comma (CHR '','' # t) = Inr t"
  by (simp add: expect_comma_def)

lemma parse_row_text:
  assumes "row_ok r"
  shows "parse_row (row_text r @ t) = Inr (row_order r, t)"
proof -
  let ?o = "row_order r"
  have price: "parse_scaled_price (fixed_text (nat (lo_price ?o)) @ CHR '','' # u) = (lo_price ?o, CHR '','' # u)" for u
    using assms by (intro parse_price_text no_digit_comma) (simp_all add: row_ok_def)
  have quantity: "parse_scaled_quantity (fixed_text (unat (lo_quantity ?o)) @ CHR '','' # u) = (lo_quantity ?o, CHR '','' # u)" for u
    using parse_fixed [OF no_digit_comma, of "unat (lo_quantity ?o)" u] by (simp add: parse_scaled_quantity_def)
  have word: "parse_unsigned (decimal (unat w) @ CHR '','' # u) = (w, CHR '','' # u)" for w :: u64 and u
    using parse_decimal [OF no_digit_comma, of "unat w" u] by (simp add: parse_unsigned_def)
  have plain: "skip_field (row_quote_quantity r @ CHR '','' # u) = CHR '','' # u" for u
    using assms separator_ends by (intro skip_plain) (simp_all add: row_ok_def)
  have ending: "consume_record_end (skip_field (row_last_field r @ (if row_crlf r then [CHR 0x0D, CHR 0x0A] else [CHR 0x0A]) @ t)) = Inr t"
    using assms skip_plain [of "row_last_field r", OF _ separator_ends(2), of t]
      skip_plain [of "row_last_field r", OF _ separator_ends(3), of "CHR 0x0A # t"]
    by (simp add: row_ok_def consume_record_end_def skip_char_def)
  show ?thesis
    unfolding parse_row_def row_text_def Let_def append_assoc append_Cons
    by (simp only: word price quantity plain parse_side_text expect_comma_Cons and_next_def sum.case prod.case ending)
      simp
qed

lemma row_text_Cons: "\<exists>c cs. row_text r = c # cs \<and> c \<noteq> CHR 0x0A \<and> c \<noteq> CHR 0x0D"
proof -
  obtain c cs where d: "decimal (unat (lo_id (row_order r))) = c # cs" "is_digit c"
    using decimal_digits [of "unat (lo_id (row_order r))"]
    by (cases "decimal (unat (lo_id (row_order r)))") auto
  then have "c \<noteq> CHR 0x0A" "c \<noteq> CHR 0x0D" using separators_no_digit by auto
  then show ?thesis using d(1) by (simp add: row_text_def Let_def)
qed

lemma parse_next_end: "cp_cursor p = [] \<Longrightarrow> parse_next p = Inr (p\<lparr>cp_has_next := False\<rparr>)"
  by (subst parse_next.simps) simp

lemma parse_next_blank:
  "cp_cursor p = c # cs \<Longrightarrow> c = CHR 0x0A \<or> c = CHR 0x0D \<Longrightarrow>
    parse_next p = parse_next (p\<lparr>cp_cursor := skip_empty_line (c # cs)\<rparr>)"
  by (subst parse_next.simps) simp

lemma parse_next_filled:
  "cp_cursor p = c # cs \<Longrightarrow> \<not> (c = CHR 0x0A \<or> c = CHR 0x0D) \<Longrightarrow>
    parse_next p = and_next (parse_row (c # cs)) (\<lambda>(event, s).
      Inr (p\<lparr>cp_cursor := s, cp_next_event := event, cp_has_next := True\<rparr>))"
  by (subst parse_next.simps) simp

lemma parse_next_row:
  assumes "row_ok r" "cp_cursor p = row_text r @ t"
  shows "parse_next p = Inr (p\<lparr>cp_cursor := t, cp_next_event := row_order r, cp_has_next := True\<rparr>)"
proof -
  obtain c cs where c: "row_text r = c # cs" "c \<noteq> CHR 0x0A" "c \<noteq> CHR 0x0D" using row_text_Cons by blast
  have "parse_row (c # cs @ t) = Inr (row_order r, t)"
    using parse_row_text [OF assms(1), of t] c(1) by simp
  then show ?thesis
    using parse_next_filled [of p c "cs @ t"] assms(2) c by (simp add: and_next_def)
qed

lemma parse_next_Inl: "parse_next p = Inl e \<longleftrightarrow> csv_open (cp_cursor p) = Inl e"
proof -
  have "cp_cursor p = cp_cursor q \<Longrightarrow> parse_next p = Inl e \<longleftrightarrow> parse_next q = Inl e" for q
  proof (induction p arbitrary: q rule: parse_next.induct)
    case (1 p)
    show ?case
    proof (cases "cp_cursor p")
      case Nil
      then show ?thesis using "1.prems" parse_next_end [of p] parse_next_end [of q] by simp
    next
      case (Cons c cs)
      then have q: "cp_cursor q = c # cs" using "1.prems" by simp
      show ?thesis
      proof (cases "c = CHR 0x0A \<or> c = CHR 0x0D")
        case True
        show ?thesis
          unfolding parse_next_blank [OF Cons True] parse_next_blank [OF q True]
          using "1.IH" [OF Cons True, of "q\<lparr>cp_cursor := skip_empty_line (c # cs)\<rparr>"] Cons by simp
      next
        case False
        show ?thesis
          unfolding parse_next_filled [OF Cons False] parse_next_filled [OF q False]
          by (simp add: and_next_def split: sum.split prod.split)
      qed
    qed
  qed
  moreover have "cp_cursor p = cp_cursor \<lparr>cp_cursor = cp_cursor p, cp_next_event = default_lob_order, cp_has_next = False\<rparr>"
    by simp
  ultimately show ?thesis unfolding csv_open_def by blast
qed

lemma deliver_rows:
  assumes "list_all row_ok rows" "cp_has_next p" "cp_cursor p = file_text rows @ tail"
  shows "tail = [] \<Longrightarrow> deliver p = (cp_next_event p # map row_order rows, None)"
    and "csv_open tail = Inl e \<Longrightarrow> deliver p = (butlast (cp_next_event p # map row_order rows), Some e)"
  using assms
proof (induction rows arbitrary: p)
  case Nil
  {
    case 1
    have "parse_next p = Inr (p\<lparr>cp_has_next := False\<rparr>)" using 1 by (intro parse_next_end) (simp add: file_text_def)
    then have "deliver p = (case deliver (p\<lparr>cp_has_next := False\<rparr>) of (orders, e) \<Rightarrow> (cp_next_event p # orders, e))"
      using 1 by (simp add: deliver.simps [of p] csv_pop_def and_next_def)
    then show ?case by (simp add: deliver.simps [of "p\<lparr>cp_has_next := False\<rparr>"])
  next
    case 2
    then have "parse_next p = Inl e" by (simp add: parse_next_Inl file_text_def)
    then show ?case using 2 by (simp add: deliver.simps [of p] csv_pop_def and_next_def)
  }
next
  case (Cons r rows)
  have step: "parse_next p = Inr (p\<lparr>cp_cursor := file_text rows @ tail, cp_next_event := row_order r, cp_has_next := True\<rparr>)"
    if "list_all row_ok (r # rows)" "cp_cursor p = file_text (r # rows) @ tail" for p :: csv_parser
    using that by (intro parse_next_row) (simp_all add: file_text_def)
  {
    case 1
    let ?q = "p\<lparr>cp_cursor := file_text rows @ tail, cp_next_event := row_order r, cp_has_next := True\<rparr>"
    from 1 have "deliver ?q = (row_order r # map row_order rows, None)" using Cons.IH(1) [of ?q] by simp
    then show ?case using step [OF 1(2,4)] 1(3) by (simp add: deliver.simps [of p] csv_pop_def and_next_def)
  next
    case 2
    let ?q = "p\<lparr>cp_cursor := file_text rows @ tail, cp_next_event := row_order r, cp_has_next := True\<rparr>"
    from 2 have "deliver ?q = (butlast (row_order r # map row_order rows), Some e)" using Cons.IH(2) [of ?q] by simp
    then show ?case using step [OF 2(2,4)] 2(3) by (simp add: deliver.simps [of p] csv_pop_def and_next_def)
  }
qed

lemma parse_file_rows:
  assumes "list_all row_ok rows"
  shows "parse_file (file_text rows) = (map row_order rows, None)
    \<and> (csv_open tail = Inl e \<longrightarrow> parse_file (file_text rows @ tail) = (butlast (map row_order rows), Some e))"
proof (cases rows)
  case Nil
  then show ?thesis
    by (simp add: parse_file_def file_text_def csv_open_def parse_next.simps deliver.simps)
next
  case (Cons r rs)
  let ?p = "\<lparr>cp_cursor = file_text rows @ tail, cp_next_event = default_lob_order, cp_has_next = False\<rparr>"
  have ok: "row_ok r" "list_all row_ok rs" using assms Cons by simp_all
  have first: "csv_open (file_text rows @ u) = Inr \<lparr>cp_cursor = file_text rs @ u, cp_next_event = row_order r, cp_has_next = True\<rparr>" for u
    using parse_next_row [OF ok(1), where p = "\<lparr>cp_cursor = file_text rows @ u, cp_next_event = default_lob_order, cp_has_next = False\<rparr>"
        and t = "file_text rs @ u"] unfolding csv_open_def by (simp add: Cons file_text_def)
  show ?thesis
    using first [of "[]"] first [of tail] Cons
      deliver_rows(1) [OF ok(2), of "\<lparr>cp_cursor = file_text rs, cp_next_event = row_order r, cp_has_next = True\<rparr>" "[]"]
      deliver_rows(2) [OF ok(2), of "\<lparr>cp_cursor = file_text rs @ tail, cp_next_event = row_order r, cp_has_next = True\<rparr>" tail e]
    by (simp add: parse_file_def)
qed

lemma parse_file_text: "list_all row_ok rows \<Longrightarrow> parse_file (file_text rows) = (map row_order rows, None)"
  using parse_file_rows by blast

text \<open>C29: Reading back. A file of rows that write any orders with prices from zero up to the
  \<open>int64\<close> limit and any quantities, eight decimals each, with either line end and anything in
  the fields that are skipped, delivers exactly these orders, each side, price and quantity
  to the last digit. When such rows are followed by something that cannot be read, the
  exception comes one order early: the last of the orders before it is never delivered.\<close>
theorem csv_files_round_trip:
  assumes "list_all row_ok rows"
  shows "parse_file (file_text rows) = (map row_order rows, None)
    \<and> (csv_open tail = Inl e \<longrightarrow> parse_file (file_text rows @ tail) = (butlast (map row_order rows), Some e))"
  by (rule parse_file_rows [OF assms])

definition sample_rows :: "csv_row list" where
  "sample_rows = [\<lparr>row_order = \<lparr>lo_id = 7, lo_price = 9876543210, lo_quantity = 150000000, lo_side = Buy, lo_timestamp = 1000\<rparr>,
       row_quote_quantity = ''148.1'', row_last_field = ''True'', row_crlf = False\<rparr>,
     \<lparr>row_order = \<lparr>lo_id = 8, lo_price = 1, lo_quantity = 5, lo_side = Sell, lo_timestamp = 1001\<rparr>,
       row_quote_quantity = [], row_last_field = [], row_crlf = True\<rparr>]"

theorem csv_files_round_trip_witness:
  "map lo_id (fst (parse_file (file_text sample_rows))) = [7, 8]
    \<and> map lo_id (fst (parse_file (file_text sample_rows @ ''9;''))) = [7]"
proof -
  have rows: "list_all row_ok sample_rows"
    by (simp add: sample_rows_def row_ok_def plain_text_def ends_field_def i64_max_def)
  have "csv_open ''9;'' = Inl Expected_comma" by code_simp
  then have "parse_file (file_text sample_rows) = (map row_order sample_rows, None)"
    "parse_file (file_text sample_rows @ ''9;'') = (butlast (map row_order sample_rows), Some Expected_comma)"
    using csv_files_round_trip [OF rows, of "''9;''" Expected_comma] by blast+
  moreover have "map lo_id (map row_order sample_rows) = [7, 8]" "map lo_id (butlast (map row_order sample_rows)) = [7]"
    by (simp_all add: sample_rows_def)
  ultimately show ?thesis by (simp only: fst_conv)
qed

end
