(* ===== verification/EventMerger.thy ===== *)
theory EventMerger
  imports CsvParser BinaryHeap
begin

section \<open>Merging event streams\<close>

text \<open>
  \<open>EventMerger\<close> of \<open>include/lob/event_merger.hpp\<close>: up to four streams are scanned for
  the earliest head, more are kept in a heap of their heads. A parser, the template
  argument, is the list of the events it has left. \<open>std::push_heap\<close> and
  \<open>std::pop_heap\<close> keep a collection of nodes of which the one first in the order of
  \<open>HeapCompare\<close> is taken; no two nodes have the same asset, so which one that is does
  not depend on how they are arranged.
\<close>

record market_event =
  ev_timestamp :: u64
  ev_asset_id :: asset_id
  ev_order :: lob_order

record heap_node =
  hn_next_timestamp :: u64
  hn_asset_id :: asset_id

record merger =
  mg_parsers :: "market_event list list"
  mg_heap :: "heap_node list"

datatype merger_error = Merger_exhausted | Parser_exhausted

definition has_events :: "market_event list \<Rightarrow> bool" where
  "has_events p \<longleftrightarrow> p \<noteq> []"

definition peek_time :: "market_event list \<Rightarrow> u64" where
  "peek_time p = ev_timestamp (hd p)"

text \<open>A node that is to come out after another one.\<close>

definition heap_compare :: "heap_node \<Rightarrow> heap_node \<Rightarrow> bool" where
  "heap_compare lhs rhs =
     (if hn_next_timestamp lhs \<noteq> hn_next_timestamp rhs then hn_next_timestamp rhs < hn_next_timestamp lhs
      else hn_asset_id rhs < hn_asset_id lhs)"

fun first_node :: "heap_node \<Rightarrow> heap_node list \<Rightarrow> heap_node" where
  "first_node x [] = x"
| "first_node x (y # ys) = first_node (if heap_compare x y then y else x) ys"

definition push_node :: "heap_node \<Rightarrow> heap_node list \<Rightarrow> heap_node list" where
  "push_node x heap = heap @ [x]"

definition initialize_heap :: "market_event list list \<Rightarrow> heap_node list" where
  "initialize_heap parsers = fold (\<lambda>i heap.
     if has_events (parsers ! i)
     then push_node \<lparr>hn_next_timestamp = peek_time (parsers ! i), hn_asset_id = of_nat i\<rparr> heap else heap)
     [0..<length parsers] []"

definition new_merger :: "market_event list list \<Rightarrow> merger" where
  "new_merger parsers = \<lparr>mg_parsers = parsers,
     mg_heap = (if 4 < length parsers then initialize_heap parsers else [])\<rparr>"

definition merger_has_next :: "merger \<Rightarrow> bool" where
  "merger_has_next m =
     (if length (mg_parsers m) \<le> 4 then list_ex has_events (mg_parsers m) else mg_heap m \<noteq> [])"

definition pop_parser :: "nat \<Rightarrow> merger \<Rightarrow> merger_error + market_event \<times> merger" where
  "pop_parser i m =
     (case mg_parsers m ! i of
        [] \<Rightarrow> Inl Parser_exhausted
      | e # es \<Rightarrow> Inr (e\<lparr>ev_asset_id := of_nat i\<rparr>, m\<lparr>mg_parsers := (mg_parsers m)[i := es]\<rparr>))"

definition scan_parser :: "market_event list list \<Rightarrow> nat \<Rightarrow> u64 \<times> nat \<Rightarrow> u64 \<times> nat" where
  "scan_parser parsers i best =
     (if \<not> has_events (parsers ! i) then best
      else if peek_time (parsers ! i) < fst best then (peek_time (parsers ! i), i) else best)"

definition get_next_fast_path :: "merger \<Rightarrow> merger_error + market_event \<times> merger" where
  "get_next_fast_path m =
     (let n = length (mg_parsers m);
          (best_timestamp, best_index) = fold (scan_parser (mg_parsers m)) [0..<n] (- 1, n)
      in if best_index = n then Inl Merger_exhausted else pop_parser best_index m)"

definition next_dynamic :: "merger \<Rightarrow> merger_error + market_event \<times> merger" where
  "next_dynamic m =
     (case mg_heap m of
        [] \<Rightarrow> Inl Merger_exhausted
      | x # xs \<Rightarrow>
          let node = first_node x xs; i = unat (hn_asset_id node) in
          and_next (pop_parser i (m\<lparr>mg_heap := remove1 node (mg_heap m)\<rparr>)) (\<lambda>(event, m).
            Inr (event, if has_events (mg_parsers m ! i)
              then m\<lparr>mg_heap := push_node \<lparr>hn_next_timestamp = peek_time (mg_parsers m ! i),
                       hn_asset_id = hn_asset_id node\<rparr> (mg_heap m)\<rparr>
              else m)))"

definition merger_get_next :: "merger \<Rightarrow> merger_error + market_event \<times> merger" where
  "merger_get_next m = (if length (mg_parsers m) \<le> 4 then get_next_fast_path m else next_dynamic m)"

subsection \<open>Draining a merger\<close>

definition events_left :: "merger \<Rightarrow> nat" where
  "events_left m = sum_list (map length (mg_parsers m))"

lemma length_nth_le: "i < length xss \<Longrightarrow> length (xss ! i) \<le> sum_list (map length xss)"
  by (intro member_le_sum_list) auto

lemma pop_parser_left:
  assumes "pop_parser i m = Inr (e, m')" "i < length (mg_parsers m)"
  shows "events_left m = Suc (events_left m')"
proof -
  obtain e1 es where i: "mg_parsers m ! i = e1 # es" "m' = m\<lparr>mg_parsers := (mg_parsers m)[i := es]\<rparr>"
    using assms(1) by (auto simp: pop_parser_def split: list.splits)
  then show ?thesis
    using assms(2) length_nth_le [OF assms(2)] by (simp add: events_left_def map_update sum_list_update)
qed

text \<open>The client loop: take events while there are any; what it gets, and the exception if one ends it.\<close>

fun merge_events :: "nat \<Rightarrow> merger \<Rightarrow> market_event list \<times> merger_error option" where
  "merge_events 0 m = ([], None)"
| "merge_events (Suc n) m =
     (if merger_has_next m
      then (case merger_get_next m of
              Inl e \<Rightarrow> ([], Some e)
            | Inr (event, m') \<Rightarrow> (case merge_events n m' of (events, e) \<Rightarrow> (event # events, e)))
      else ([], None))"

text \<open>The loop has ended before \<open>n\<close> rounds.\<close>

fun merge_ends :: "nat \<Rightarrow> merger \<Rightarrow> bool" where
  "merge_ends 0 m \<longleftrightarrow> \<not> merger_has_next m"
| "merge_ends (Suc n) m \<longleftrightarrow>
     (merger_has_next m \<longrightarrow> (case merger_get_next m of Inl e \<Rightarrow> True | Inr (event, m') \<Rightarrow> merge_ends n m'))"

subsection \<open>The specification\<close>

definition tagged :: "nat \<Rightarrow> market_event list \<Rightarrow> market_event list" where
  "tagged i es = map (\<lambda>e. e\<lparr>ev_asset_id := of_nat i\<rparr>) es"

definition tagged_streams :: "market_event list list \<Rightarrow> market_event list" where
  "tagged_streams parsers = concat (map (\<lambda>i. tagged i (parsers ! i)) [0..<length parsers])"

definition stream_sorted :: "market_event list \<Rightarrow> bool" where
  "stream_sorted es \<longleftrightarrow> sorted (map ev_timestamp es)"

text \<open>The stream whose head comes out next: the earliest, and among those the first.\<close>

definition earliest :: "market_event list list \<Rightarrow> nat \<Rightarrow> bool" where
  "earliest parsers i \<longleftrightarrow> i < length parsers \<and> parsers ! i \<noteq> []
     \<and> (\<forall>j<length parsers. parsers ! j \<noteq> [] \<longrightarrow> peek_time (parsers ! i) \<le> peek_time (parsers ! j)
          \<and> (j < i \<longrightarrow> peek_time (parsers ! i) < peek_time (parsers ! j)))"

lemma earliest_unique: "earliest parsers i \<Longrightarrow> earliest parsers j \<Longrightarrow> i = j"
  unfolding earliest_def by (metis less_le_not_le linorder_neqE_nat)

lemma sort_key_first:
  assumes "\<And>x. x \<in> set as \<Longrightarrow> k e < k x" "\<And>x. x \<in> set bs \<Longrightarrow> k e \<le> (k x :: 'k::linorder)"
  shows "sort_key k (as @ e # bs) = e # sort_key k (as @ bs)"
proof (rule properties_for_sort_key [symmetric, symmetric])
  show "mset (e # sort_key k (as @ bs)) = mset (as @ e # bs)" by simp
next
  fix x assume "x \<in> set (e # sort_key k (as @ bs))"
  have "filter (\<lambda>y. k e = k y) as = []" using assms(1) by (force simp: filter_empty_conv)
  then show "filter (\<lambda>y. k x = k y) (e # sort_key k (as @ bs)) = filter (\<lambda>y. k x = k y) (as @ e # bs)"
    by (auto simp: sort_key_stable eq_commute [of "k x"])
next
  show "sorted (map k (e # sort_key k (as @ bs)))"
    using assms by (auto intro: less_imp_le)
qed


subsection \<open>The step of the specification\<close>

lemma tagged_streams_split:
  assumes "i < length parsers"
  shows "tagged_streams parsers = concat (map (\<lambda>j. tagged j (parsers ! j)) [0..<i]) @ tagged i (parsers ! i)
    @ concat (map (\<lambda>j. tagged j (parsers ! j)) [Suc i..<length parsers])"
proof -
  have "[0..<length parsers] = [0..<i] @ [i..<length parsers]"
    using assms upt_add_eq_append [of 0 i "length parsers - i"] by simp
  then show ?thesis using assms by (simp add: tagged_streams_def upt_conv_Cons)
qed

lemma tagged_timestamp: "x \<in> set (tagged j es) \<Longrightarrow> \<exists>e\<in>set es. ev_timestamp x = ev_timestamp e"
  by (auto simp: tagged_def)

lemma sorted_head_least:
  "stream_sorted es \<Longrightarrow> x \<in> set (tagged j es) \<Longrightarrow> peek_time es \<le> ev_timestamp x"
  by (cases es) (auto simp: stream_sorted_def tagged_def peek_time_def)

lemma tagged_streams_first:
  assumes i: "earliest parsers i" "parsers ! i = e # es" and sorted: "\<forall>es\<in>set parsers. stream_sorted es"
  shows "sort_key ev_timestamp (tagged_streams parsers)
    = e\<lparr>ev_asset_id := of_nat i\<rparr> # sort_key ev_timestamp (tagged_streams (parsers[i := es]))"
proof -
  let ?f = "\<lambda>j. tagged j (parsers ! j)" and ?n = "length parsers"
  define before after where "before = concat (map ?f [0..<i])" and "after = concat (map ?f [Suc i..<?n])"
  have n: "i < ?n" and e: "peek_time (parsers ! i) = ev_timestamp e"
    using i by (auto simp: earliest_def peek_time_def)
  have head: "peek_time (parsers ! j) \<le> ev_timestamp x" if "x \<in> set (?f j)" "j < ?n" for x j
    using sorted that sorted_head_least nth_mem by blast
  have nonempty: "parsers ! j \<noteq> []" if "x \<in> set (?f j)" for x j
    using that by (auto simp: tagged_def)
  have "ev_timestamp e < ev_timestamp x" if x: "x \<in> set before" for x
  proof -
    obtain j where j: "j < i" "x \<in> set (?f j)" using x by (auto simp: before_def)
    have "peek_time (parsers ! i) < peek_time (parsers ! j)"
      using i(1) j n nonempty [OF j(2)] by (simp add: earliest_def)
    also have "\<dots> \<le> ev_timestamp x" using head j n by simp
    finally show ?thesis by (simp add: e)
  qed
  moreover have "ev_timestamp e \<le> ev_timestamp x" if x: "x \<in> set (tagged i es @ after)" for x
  proof -
    obtain j where j: "j < ?n" "x \<in> set (?f j)"
      using x n i(2) by (auto simp: after_def tagged_def)
    have "peek_time (parsers ! i) \<le> peek_time (parsers ! j)"
      using i(1) j nonempty [OF j(2)] by (simp add: earliest_def)
    also have "\<dots> \<le> ev_timestamp x" using head j by simp
    finally show ?thesis by (simp add: e)
  qed
  ultimately have "sort_key ev_timestamp (before @ e\<lparr>ev_asset_id := of_nat i\<rparr> # tagged i es @ after)
      = e\<lparr>ev_asset_id := of_nat i\<rparr> # sort_key ev_timestamp (before @ tagged i es @ after)"
    by (intro sort_key_first) simp_all
  moreover have "tagged_streams parsers = before @ e\<lparr>ev_asset_id := of_nat i\<rparr> # tagged i es @ after"
    using tagged_streams_split [OF n] i(2) by (simp add: before_def after_def tagged_def)
  moreover have "tagged_streams (parsers[i := es]) = before @ tagged i es @ after"
  proof -
    have "map (\<lambda>j. tagged j (parsers[i := es] ! j)) js = map ?f js" if "i \<notin> set js" for js
      using that by (intro map_cong refl) (metis nth_list_update_neq)
    from this [of "[0..<i]"] this [of "[Suc i..<?n]"] show ?thesis
      using tagged_streams_split [of i "parsers[i := es]"] n
      unfolding before_def after_def by (simp del: map_eq_conv)
  qed
  ultimately show ?thesis by simp
qed

subsection \<open>The scan finds the earliest stream\<close>

definition scan_inv :: "market_event list list \<Rightarrow> nat \<Rightarrow> u64 \<times> nat \<Rightarrow> bool" where
  "scan_inv parsers k best \<longleftrightarrow>
     (if \<forall>j<k. parsers ! j = [] then best = (- 1, length parsers)
      else snd best < k \<and> parsers ! snd best \<noteq> [] \<and> fst best = peek_time (parsers ! snd best)
        \<and> (\<forall>j<k. parsers ! j \<noteq> [] \<longrightarrow> fst best \<le> peek_time (parsers ! j)
             \<and> (j < snd best \<longrightarrow> fst best < peek_time (parsers ! j))))"

lemma scan_parser_inv:
  assumes "scan_inv parsers k best" "parsers ! k \<noteq> [] \<Longrightarrow> peek_time (parsers ! k) \<noteq> - 1" "k < length parsers"
  shows "scan_inv parsers (Suc k) (scan_parser parsers k best)"
proof (cases "parsers ! k = []")
  case True
  then show ?thesis using assms(1)
    by (auto simp: scan_inv_def scan_parser_def has_events_def less_Suc_eq split: if_splits)
next
  case False
  then have "peek_time (parsers ! k) < - 1" using assms(2) word_order.not_eq_extremum by blast
  then show ?thesis using assms(1) False
    by (auto simp: scan_inv_def scan_parser_def has_events_def less_Suc_eq split: if_splits)
qed

lemma scan_parsers_inv:
  assumes "\<And>j. j < length parsers \<Longrightarrow> parsers ! j \<noteq> [] \<Longrightarrow> peek_time (parsers ! j) \<noteq> - 1" "k \<le> length parsers"
  shows "scan_inv parsers k (fold (scan_parser parsers) [0..<k] (- 1, length parsers))"
  using assms(2)
proof (induction k)
  case 0
  show ?case by (simp add: scan_inv_def)
next
  case (Suc k)
  then show ?case using scan_parser_inv [of parsers k] assms(1) [of k] by simp
qed

lemma scan_finds_earliest:
  assumes "\<And>j. j < length parsers \<Longrightarrow> parsers ! j \<noteq> [] \<Longrightarrow> peek_time (parsers ! j) \<noteq> - 1"
    "j < length parsers" "parsers ! j \<noteq> []"
  shows "earliest parsers (snd (fold (scan_parser parsers) [0..<length parsers] (- 1, length parsers)))"
proof -
  let ?best = "fold (scan_parser parsers) [0..<length parsers] (- 1, length parsers)"
  have "scan_inv parsers (length parsers) ?best"
    using assms(1) by (intro scan_parsers_inv) auto
  moreover have "\<not> (\<forall>j<length parsers. parsers ! j = [])" using assms(2,3) by blast
  ultimately show ?thesis unfolding scan_inv_def earliest_def by metis
qed

subsection \<open>The heap finds the earliest stream\<close>

definition head_node :: "market_event list list \<Rightarrow> nat \<Rightarrow> heap_node" where
  "head_node parsers i = \<lparr>hn_next_timestamp = peek_time (parsers ! i), hn_asset_id = of_nat i\<rparr>"

definition heap_inv :: "market_event list list \<Rightarrow> heap_node list \<Rightarrow> bool" where
  "heap_inv parsers heap \<longleftrightarrow> distinct heap
     \<and> set heap = head_node parsers ` {i. i < length parsers \<and> parsers ! i \<noteq> []}"

lemma first_node_first:
  "first_node x ys \<in> set (x # ys) \<and> (\<forall>y\<in>set (x # ys). \<not> heap_compare (first_node x ys) y)"
proof (induction ys arbitrary: x)
  case Nil
  show ?case by (simp add: heap_compare_def)
next
  case (Cons y ys)
  have trans: "\<not> heap_compare a c" if "\<not> heap_compare a b" "\<not> heap_compare b c" for a b c
    using that by (auto simp: heap_compare_def split: if_splits)
  show ?case
  proof (cases "heap_compare x y")
    case True
    then have "\<not> heap_compare y x" by (auto simp: heap_compare_def split: if_splits)
    then show ?thesis using Cons.IH [of y] True trans [of "first_node y ys" y x] by auto
  next
    case False
    then show ?thesis using Cons.IH [of x] trans [of "first_node x ys" x y] by auto
  qed
qed

lemma asset_of_nat:
  assumes "i < 65536"
  shows "unat (of_nat i :: asset_id) = i"
  using assms by (simp add: unat_of_nat)

lemma asset_of_nat_less: "i < 65536 \<Longrightarrow> j < 65536 \<Longrightarrow> (of_nat i :: asset_id) < of_nat j \<longleftrightarrow> i < j"
  by (simp add: word_less_nat_alt asset_of_nat)

lemma heap_finds_earliest:
  assumes heap: "heap_inv parsers (x # xs)" and n: "length parsers \<le> 65536"
  obtains i where "earliest parsers i" "first_node x xs = head_node parsers i" "i < length parsers"
proof -
  obtain i where i: "first_node x xs = head_node parsers i" "i < length parsers" "parsers ! i \<noteq> []"
    using first_node_first [of x xs] heap unfolding heap_inv_def by auto
  have "peek_time (parsers ! i) \<le> peek_time (parsers ! j) \<and> (j < i \<longrightarrow> peek_time (parsers ! i) < peek_time (parsers ! j))"
    if j: "j < length parsers" "parsers ! j \<noteq> []" for j
  proof -
    have "head_node parsers j \<in> set (x # xs)" using heap j by (simp add: heap_inv_def)
    then have "\<not> heap_compare (head_node parsers i) (head_node parsers j)"
      using first_node_first [of x xs] i(1) by metis
    then show ?thesis
      using i(2) j(1) n by (auto simp: heap_compare_def head_node_def asset_of_nat_less split: if_splits)
  qed
  then have "earliest parsers i" using i by (simp add: earliest_def)
  then show thesis using that i by blast
qed

lemma head_node_inj:
  "i < 65536 \<Longrightarrow> j < 65536 \<Longrightarrow> head_node p i = head_node q j \<Longrightarrow> i = j"
  using asset_of_nat by (metis head_node_def heap_node.ext_inject)

lemma heap_inv_add:
  assumes "heap_inv parsers heap" "length parsers \<le> 65536" "i < length parsers" "parsers ! i = []" "es \<noteq> []"
  shows "heap_inv (parsers[i := es]) (push_node (head_node (parsers[i := es]) i) heap)"
proof -
  let ?q = "parsers[i := es]"
  have same: "head_node ?q j = head_node parsers j" if "j \<noteq> i" for j
    using that by (simp add: head_node_def)
  have "{j. j < length ?q \<and> ?q ! j \<noteq> []} = insert i {j. j < length parsers \<and> parsers ! j \<noteq> []}"
    using assms(3,4,5) by (auto simp: nth_list_update)
  moreover have "head_node ?q ` {j. j < length parsers \<and> parsers ! j \<noteq> []}
      = head_node parsers ` {j. j < length parsers \<and> parsers ! j \<noteq> []}"
    using assms(4) by (intro image_cong refl same) auto
  moreover have "head_node ?q i \<notin> set heap"
  proof
    assume "head_node ?q i \<in> set heap"
    then obtain j where j: "head_node ?q i = head_node parsers j" "j < length parsers" "parsers ! j \<noteq> []"
      using assms(1) by (auto simp: heap_inv_def)
    then have "i = j" using head_node_inj [of i j ?q parsers] assms(2,3) by linarith
    then show False using j(3) assms(4) by simp
  qed
  ultimately show ?thesis using assms(1) by (simp add: heap_inv_def push_node_def)
qed

lemma heap_inv_drop:
  assumes "heap_inv parsers heap" "length parsers \<le> 65536" "i < length parsers" "parsers ! i \<noteq> []"
  shows "heap_inv (parsers[i := []]) (remove1 (head_node parsers i) heap)"
proof -
  let ?q = "parsers[i := []]" and ?A = "{j. j < length parsers \<and> parsers ! j \<noteq> []}"
  have "?q ! j \<noteq> [] \<longleftrightarrow> parsers ! j \<noteq> [] \<and> j \<noteq> i" for j
    using assms(3) by (cases "j = i") auto
  then have A: "{j. j < length ?q \<and> ?q ! j \<noteq> []} = ?A - {i}"
    by auto
  have "head_node ?q ` (?A - {i}) = head_node parsers ` (?A - {i})"
    by (intro image_cong) (auto simp: head_node_def)
  also have "\<dots> = head_node parsers ` ?A - {head_node parsers i}"
    using assms(2,3) head_node_inj [of _ i parsers parsers] by force
  finally show ?thesis using assms(1) A by (simp add: heap_inv_def)
qed


subsection \<open>One event\<close>

definition merger_ready :: "merger \<Rightarrow> bool" where
  "merger_ready m \<longleftrightarrow> length (mg_parsers m) \<le> 65536 \<and> (\<forall>es\<in>set (mg_parsers m). stream_sorted es)
     \<and> (if length (mg_parsers m) \<le> 4
        then (\<forall>es\<in>set (mg_parsers m). \<forall>e\<in>set es. ev_timestamp e \<noteq> - 1)
        else heap_inv (mg_parsers m) (mg_heap m))"

lemma merger_has_next_iff:
  assumes "merger_ready m"
  shows "merger_has_next m \<longleftrightarrow> (\<exists>i<length (mg_parsers m). mg_parsers m ! i \<noteq> [])"
proof (cases "length (mg_parsers m) \<le> 4")
  case True
  have "list_ex has_events (mg_parsers m) \<longleftrightarrow> (\<exists>i<length (mg_parsers m). mg_parsers m ! i \<noteq> [])"
    unfolding list_ex_length has_events_def ..
  then show ?thesis using True by (simp add: merger_has_next_def)
next
  case False
  then have "set (mg_heap m) = head_node (mg_parsers m) ` {i. i < length (mg_parsers m) \<and> mg_parsers m ! i \<noteq> []}"
    using assms by (simp add: merger_ready_def heap_inv_def)
  then have "mg_heap m = [] \<longleftrightarrow> {i. i < length (mg_parsers m) \<and> mg_parsers m ! i \<noteq> []} = {}"
    unfolding set_empty [symmetric] by simp
  then show ?thesis using False by (simp add: merger_has_next_def)
qed

lemma stream_sorted_tl: "stream_sorted (e # es) \<Longrightarrow> stream_sorted es"
  by (simp add: stream_sorted_def)

text \<open>What taking an event does, whichever way the stream is chosen.\<close>

definition takes_event :: "merger \<Rightarrow> nat \<Rightarrow> market_event \<Rightarrow> market_event list \<Rightarrow> merger \<Rightarrow> bool" where
  "takes_event m i e es m' \<longleftrightarrow> earliest (mg_parsers m) i \<and> mg_parsers m ! i = e # es
     \<and> merger_get_next m = Inr (e\<lparr>ev_asset_id := of_nat i\<rparr>, m')
     \<and> mg_parsers m' = (mg_parsers m)[i := es] \<and> merger_ready m'"

lemma sorted_after:
  assumes "\<forall>es\<in>set parsers. stream_sorted es" "parsers ! i = e # es" "i < length parsers"
  shows "\<forall>es\<in>set (parsers[i := es]). stream_sorted es"
proof -
  have "stream_sorted es" using assms stream_sorted_tl nth_mem by metis
  then show ?thesis using assms(1) set_update_subset_insert [of parsers i es] by blast
qed

lemma fast_path_takes:
  assumes m: "merger_ready m" "merger_has_next m" "length (mg_parsers m) \<le> 4"
  shows "\<exists>i e es m'. takes_event m i e es m'"
proof -
  let ?p = "mg_parsers m"
  let ?best = "fold (scan_parser ?p) [0..<length ?p] (- 1, length ?p)"
  define i where "i = snd ?best"
  have below: "\<forall>es\<in>set ?p. \<forall>e\<in>set es. ev_timestamp e \<noteq> - 1" using m by (simp add: merger_ready_def)
  have "peek_time (?p ! j) \<noteq> - 1" if "j < length ?p" "?p ! j \<noteq> []" for j
    unfolding peek_time_def using below nth_mem [OF that(1)] hd_in_set [OF that(2)] by blast
  then have first: "earliest ?p i"
    using scan_finds_earliest [of ?p] m merger_has_next_iff [OF m(1)] unfolding i_def by blast
  then obtain e es where p: "i < length ?p" "?p ! i = e # es"
    by (auto simp: earliest_def neq_Nil_conv)
  have "e # es \<in> set ?p" using p nth_mem by metis
  then have "\<forall>x\<in>set es. ev_timestamp x \<noteq> - 1" using below by auto
  then have "\<forall>es\<in>set (?p[i := es]). \<forall>e\<in>set es. ev_timestamp e \<noteq> - 1"
    using below set_update_subset_insert [of ?p i es] by blast
  then have "merger_ready (m\<lparr>mg_parsers := ?p[i := es]\<rparr>)"
    using m p sorted_after [of ?p i e es] by (simp add: merger_ready_def)
  moreover have "merger_get_next m = Inr (e\<lparr>ev_asset_id := of_nat i\<rparr>, m\<lparr>mg_parsers := ?p[i := es]\<rparr>)"
    using m(3) p by (simp add: merger_get_next_def get_next_fast_path_def case_prod_beta Let_def
        flip: i_def) (simp add: pop_parser_def)
  ultimately show ?thesis using first p unfolding takes_event_def by fastforce
qed

lemma dynamic_takes:
  assumes m: "merger_ready m" "merger_has_next m" "\<not> length (mg_parsers m) \<le> 4"
  shows "\<exists>i e es m'. takes_event m i e es m'"
proof -
  let ?p = "mg_parsers m"
  have inv: "heap_inv ?p (mg_heap m)" "length ?p \<le> 65536" "\<forall>es\<in>set ?p. stream_sorted es"
    using m by (simp_all add: merger_ready_def)
  obtain x xs where heap: "mg_heap m = x # xs"
    using m(2,3) by (auto simp: merger_has_next_def neq_Nil_conv)
  obtain i where i: "earliest ?p i" "first_node x xs = head_node ?p i" "i < length ?p"
    using heap_finds_earliest inv(1,2) unfolding heap by blast
  obtain e es where p: "?p ! i = e # es" using i(1) by (auto simp: earliest_def neq_Nil_conv)
  define heap' where "heap' = (let rest = remove1 (head_node ?p i) (mg_heap m) in
    if es \<noteq> [] then push_node (head_node (?p[i := es]) i) rest else rest)"
  define m' where "m' = m\<lparr>mg_parsers := ?p[i := es], mg_heap := heap'\<rparr>"
  have asset: "unat (hn_asset_id (head_node ?p i)) = i"
    using i(3) inv(2) by (simp add: head_node_def asset_of_nat)
  have "merger_get_next m = Inr (e\<lparr>ev_asset_id := of_nat i\<rparr>, m')"
    unfolding merger_get_next_def next_dynamic_def heap list.case i(2) Let_def asset
    using m(3) i(3) p by (simp add: pop_parser_def and_next_def m'_def heap'_def heap has_events_def head_node_def)
  moreover have "heap_inv (?p[i := es]) heap'"
  proof (cases "es = []")
    case True
    then show ?thesis using heap_inv_drop [OF inv(1,2) i(3)] p by (simp add: heap'_def)
  next
    case False
    then show ?thesis
      using heap_inv_add [OF heap_inv_drop [OF inv(1,2) i(3)], of i es] inv(2) i(3) p
      by (simp add: heap'_def Let_def)
  qed
  then have "merger_ready m'"
    using m(3) inv p i(3) sorted_after [of ?p i e es] by (simp add: merger_ready_def m'_def)
  ultimately show ?thesis using i p unfolding takes_event_def by (fastforce simp: m'_def)
qed

lemma get_next_takes:
  "merger_ready m \<Longrightarrow> merger_has_next m \<Longrightarrow> \<exists>i e es m'. takes_event m i e es m'"
  using fast_path_takes dynamic_takes by blast

subsection \<open>All events\<close>

lemma tagged_streams_empty: "\<forall>i<length parsers. parsers ! i = [] \<Longrightarrow> tagged_streams parsers = []"
  by (auto simp: tagged_streams_def tagged_def)

lemma merge_all:
  "merger_ready m \<Longrightarrow> events_left m \<le> n \<Longrightarrow>
     merge_events n m = (sort_key ev_timestamp (tagged_streams (mg_parsers m)), None) \<and> merge_ends n m"
proof (induction n arbitrary: m)
  case 0
  then have "\<forall>i<length (mg_parsers m). mg_parsers m ! i = []"
    by (simp add: events_left_def all_set_conv_all_nth [symmetric])
  then show ?case using merger_has_next_iff [OF 0(1)] by (auto simp: tagged_streams_empty)
next
  case (Suc n)
  show ?case
  proof (cases "merger_has_next m")
    case False
    then have "\<forall>i<length (mg_parsers m). mg_parsers m ! i = []"
      using merger_has_next_iff [OF Suc.prems(1)] by blast
    then show ?thesis using False by (simp add: tagged_streams_empty)
  next
    case True
    obtain i e es m' where step: "takes_event m i e es m'" using get_next_takes Suc.prems(1) True by blast
    have "events_left m = Suc (events_left m')"
      using step length_nth_le [of i "mg_parsers m"]
      by (auto simp: takes_event_def earliest_def events_left_def map_update sum_list_update)
    then have "events_left m' \<le> n" using Suc.prems(2) by simp
    then have "merge_events n m' = (sort_key ev_timestamp (tagged_streams (mg_parsers m')), None) \<and> merge_ends n m'"
      using Suc.IH step by (simp add: takes_event_def)
    moreover have "\<forall>es\<in>set (mg_parsers m). stream_sorted es" using Suc.prems(1) by (simp add: merger_ready_def)
    then have "sort_key ev_timestamp (tagged_streams (mg_parsers m))
        = e\<lparr>ev_asset_id := of_nat i\<rparr> # sort_key ev_timestamp (tagged_streams (mg_parsers m'))"
      using step tagged_streams_first by (simp add: takes_event_def)
    ultimately show ?thesis using True step by (simp add: takes_event_def)
  qed
qed

lemma initialize_heap_prefix:
  assumes "length parsers \<le> 65536" "k \<le> length parsers"
  shows "fold (\<lambda>i heap. if has_events (parsers ! i) then push_node (head_node parsers i) heap else heap) [0..<k] []
    = map (head_node parsers) (filter (\<lambda>i. parsers ! i \<noteq> []) [0..<k])"
  by (induction k) (simp_all add: push_node_def has_events_def)

lemma new_merger_ready:
  assumes "length parsers \<le> 65536" "\<forall>es\<in>set parsers. stream_sorted es"
    "length parsers \<le> 4 \<longrightarrow> (\<forall>es\<in>set parsers. \<forall>e\<in>set es. ev_timestamp e \<noteq> - 1)"
  shows "merger_ready (new_merger parsers)"
proof -
  have "initialize_heap parsers = map (head_node parsers) (filter (\<lambda>i. parsers ! i \<noteq> []) [0..<length parsers])"
    using initialize_heap_prefix [OF assms(1) order_refl] unfolding initialize_heap_def head_node_def .
  moreover have "inj_on (head_node parsers) {i. i < length parsers \<and> parsers ! i \<noteq> []}"
  proof (rule inj_onI)
    fix i j assume "i \<in> {i. i < length parsers \<and> parsers ! i \<noteq> []}"
      "j \<in> {i. i < length parsers \<and> parsers ! i \<noteq> []}" "head_node parsers i = head_node parsers j"
    then show "i = j" using head_node_inj [of i j parsers parsers] assms(1) by simp
  qed
  ultimately have "heap_inv parsers (initialize_heap parsers)"
    by (auto simp: heap_inv_def distinct_map intro: inj_on_subset)
  then show ?thesis using assms by (simp add: merger_ready_def new_merger_def)
qed


subsection \<open>The property\<close>

text \<open>C30: Merging is sorting. For up to 65536 streams, each of them sorted by time, the
  events a client gets are those of all streams, tagged with the number of their
  stream, in the order of a stable sort by time: earlier events first, at the same time
  those of the first stream first, and those of one stream in its order. No exception
  ends the loop, and it ends within as many rounds as there are events. That holds for
  the scan of up to four streams and for the heap alike, so the two agree; the scan
  needs the times to be below \<open>2\<^sup>6\<^sup>4 - 1\<close>: an event at that time is announced by
  \<open>has_next\<close> and never found by \<open>get_next\<close>, which throws instead.
\<close>

theorem merging_is_stable_sorting:
  assumes "length parsers \<le> 65536" "\<forall>es\<in>set parsers. stream_sorted es"
    "length parsers \<le> 4 \<longrightarrow> (\<forall>es\<in>set parsers. \<forall>e\<in>set es. ev_timestamp e \<noteq> - 1)"
    "sum_list (map length parsers) \<le> n"
  shows "merge_events n (new_merger parsers) = (sort_key ev_timestamp (tagged_streams parsers), None)
    \<and> merge_ends n (new_merger parsers)
    \<and> merger_has_next (new_merger [[e\<lparr>ev_timestamp := - 1\<rparr>]])
    \<and> merger_get_next (new_merger [[e\<lparr>ev_timestamp := - 1\<rparr>]]) = Inl Merger_exhausted"
proof -
  have "mg_parsers (new_merger parsers) = parsers" by (simp add: new_merger_def)
  then have "merge_events n (new_merger parsers) = (sort_key ev_timestamp (tagged_streams parsers), None)
      \<and> merge_ends n (new_merger parsers)"
    using merge_all [OF new_merger_ready [OF assms(1-3)], of n] assms(4) by (simp add: events_left_def)
  moreover have "merger_has_next (new_merger [[e\<lparr>ev_timestamp := - 1\<rparr>]])"
    by (simp add: merger_has_next_def new_merger_def has_events_def)
  moreover have "merger_get_next (new_merger [[e\<lparr>ev_timestamp := - 1\<rparr>]]) = Inl Merger_exhausted"
    by (simp add: merger_get_next_def get_next_fast_path_def new_merger_def scan_parser_def peek_time_def Let_def)
  ultimately show ?thesis by blast
qed

definition sample_event :: "u64 \<Rightarrow> market_event" where
  "sample_event t = \<lparr>ev_timestamp = t, ev_asset_id = 0, ev_order =
     \<lparr>lo_id = t, lo_price = 100, lo_quantity = 1, lo_side = Buy, lo_timestamp = t\<rparr>\<rparr>"

theorem merging_is_stable_sorting_witness:
  "merge_events 4 (new_merger [map sample_event [2, 5], map sample_event [2, 3]])
     = ([sample_event 2, (sample_event 2)\<lparr>ev_asset_id := 1\<rparr>, (sample_event 3)\<lparr>ev_asset_id := 1\<rparr>, sample_event 5], None)
   \<and> merge_events 6 (new_merger [[], map sample_event [7, 7], [], map sample_event [2, 9], [], map sample_event [7, 8]])
     = ([(sample_event 2)\<lparr>ev_asset_id := 3\<rparr>, (sample_event 7)\<lparr>ev_asset_id := 1\<rparr>, (sample_event 7)\<lparr>ev_asset_id := 1\<rparr>,
         (sample_event 7)\<lparr>ev_asset_id := 5\<rparr>, (sample_event 8)\<lparr>ev_asset_id := 5\<rparr>, (sample_event 9)\<lparr>ev_asset_id := 3\<rparr>], None)"
proof -
  note sorts = merging_is_stable_sorting [THEN conjunct1]
  have "merge_events 4 (new_merger [map sample_event [2, 5], map sample_event [2, 3]])
     = ([sample_event 2, (sample_event 2)\<lparr>ev_asset_id := 1\<rparr>, (sample_event 3)\<lparr>ev_asset_id := 1\<rparr>, sample_event 5], None)"
    by (subst sorts) (simp_all add: tagged_streams_def tagged_def stream_sorted_def sample_event_def upt_rec)
  moreover have "merge_events 6 (new_merger [[], map sample_event [7, 7], [], map sample_event [2, 9], [], map sample_event [7, 8]])
     = ([(sample_event 2)\<lparr>ev_asset_id := 3\<rparr>, (sample_event 7)\<lparr>ev_asset_id := 1\<rparr>, (sample_event 7)\<lparr>ev_asset_id := 1\<rparr>,
         (sample_event 7)\<lparr>ev_asset_id := 5\<rparr>, (sample_event 8)\<lparr>ev_asset_id := 5\<rparr>, (sample_event 9)\<lparr>ev_asset_id := 3\<rparr>], None)"
    by (subst sorts) (simp_all add: tagged_streams_def tagged_def stream_sorted_def sample_event_def upt_rec)
  ultimately show ?thesis ..
qed

end
