(* ===== verification/PolymarketBook.thy ===== *)
theory PolymarketBook
  imports LatencyModel
begin

section \<open>The Polymarket order book and its feed\<close>

text \<open>
  \<open>PolymarketOrderBook\<close> and \<open>PolymarketFeedAdapter\<close> of \<open>include/lob/PolymarketOrderBook.hpp\<close>
  and \<open>include/lob/PolymarketFeedAdapter.hpp\<close>. A side is an array of sizes indexed by the
  price in cents, 1 to 99, with two 64-bit masks of the prices that have a size; the best
  price is read off the masks. The adapter routes an update by its token to a book.
  Tokens point to books, and two tokens may point to the same one, so the books are a
  store and a route is an index into it. A size is a double, its bit pattern;
  \<open>size_of\<close>, the quotient of the integer size by \<open>10 ^ 8\<close>, is a parameter.
\<close>

unbundle bit_operations_syntax

type_synonym price_cents = "8 word"

definition min_price_cents :: price_cents where "min_price_cents = 1"
definition max_price_cents :: price_cents where "max_price_cents = 99"
definition invalid_price_cents :: price_cents where "invalid_price_cents = 0"
definition price_level_count :: nat where "price_level_count = 100"

definition is_valid_polymarket_price :: "price_cents \<Rightarrow> bool" where
  "is_valid_polymarket_price p \<longleftrightarrow> min_price_cents \<le> p \<and> p \<le> max_price_cents"

subsection \<open>The masks\<close>

definition set_price_bit :: "price_cents \<Rightarrow> u64 \<times> u64 \<Rightarrow> u64 \<times> u64" where
  "set_price_bit p = (\<lambda>(low, high).
     if p < 64 then (low OR push_bit (unat p) 1, high) else (low, high OR push_bit (unat (p - 64)) 1))"

definition clear_price_bit :: "price_cents \<Rightarrow> u64 \<times> u64 \<Rightarrow> u64 \<times> u64" where
  "clear_price_bit p = (\<lambda>(low, high).
     if p < 64 then (low AND NOT (push_bit (unat p) 1), high)
     else (low, high AND NOT (push_bit (unat (p - 64)) 1)))"

text \<open>\<open>std::bit_width\<close> and \<open>std::countr_zero\<close>.\<close>

definition bit_width :: "u64 \<Rightarrow> nat" where
  "bit_width w = (case find (bit w) (rev [0..<64]) of None \<Rightarrow> 0 | Some i \<Rightarrow> Suc i)"

definition countr_zero :: "u64 \<Rightarrow> nat" where
  "countr_zero w = (case find (bit w) [0..<64] of None \<Rightarrow> 64 | Some i \<Rightarrow> i)"

definition highest_set_price :: "u64 \<times> u64 \<Rightarrow> price_cents" where
  "highest_set_price = (\<lambda>(low, high).
     if high \<noteq> 0 then of_nat (64 + bit_width high - 1)
     else if low \<noteq> 0 then of_nat (bit_width low - 1)
     else invalid_price_cents)"

definition lowest_set_price :: "u64 \<times> u64 \<Rightarrow> price_cents" where
  "lowest_set_price = (\<lambda>(low, high).
     if low \<noteq> 0 then of_nat (countr_zero low)
     else if high \<noteq> 0 then of_nat (64 + countr_zero high)
     else invalid_price_cents)"

subsection \<open>The book\<close>

record pm_side =
  pm_levels :: "double list"
  pm_mask :: "u64 \<times> u64"

record pm_book =
  pm_bids :: pm_side
  pm_asks :: pm_side

record pm_level =
  pl_price_cents :: price_cents
  pl_size :: double
  pl_valid :: bool

record bbo =
  bbo_bid :: pm_level
  bbo_ask :: pm_level

definition empty_pm_side :: pm_side where
  "empty_pm_side = \<lparr>pm_levels = replicate price_level_count dbl_zero, pm_mask = (0, 0)\<rparr>"

definition new_pm_book :: pm_book where
  "new_pm_book = \<lparr>pm_bids = empty_pm_side, pm_asks = empty_pm_side\<rparr>"

definition clear_pm_book :: "pm_book \<Rightarrow> pm_book" where
  "clear_pm_book b = b\<lparr>pm_bids := (pm_bids b)\<lparr>pm_levels := replicate price_level_count dbl_zero, pm_mask := (0, 0)\<rparr>,
     pm_asks := (pm_asks b)\<lparr>pm_levels := replicate price_level_count dbl_zero, pm_mask := (0, 0)\<rparr>\<rparr>"

definition pm_side_of :: "side \<Rightarrow> pm_book \<Rightarrow> pm_side" where
  "pm_side_of sd b = (if sd = Buy then pm_bids b else pm_asks b)"

definition put_pm_side :: "side \<Rightarrow> pm_side \<Rightarrow> pm_book \<Rightarrow> pm_book" where
  "put_pm_side sd s b = (if sd = Buy then b\<lparr>pm_bids := s\<rparr> else b\<lparr>pm_asks := s\<rparr>)"

definition pm_apply_delta :: "side \<Rightarrow> price_cents \<Rightarrow> double \<Rightarrow> pm_book \<Rightarrow> pm_book \<times> bool" where
  "pm_apply_delta sd p new_size b =
     (if \<not> is_valid_polymarket_price p then (b, False)
      else let s = pm_side_of sd b in
        (put_pm_side sd
           (if is_positive new_size
            then s\<lparr>pm_levels := (pm_levels s)[unat p := new_size], pm_mask := set_price_bit p (pm_mask s)\<rparr>
            else s\<lparr>pm_levels := (pm_levels s)[unat p := dbl_zero], pm_mask := clear_price_bit p (pm_mask s)\<rparr>) b,
         True))"

definition best_bid_price_cents :: "pm_book \<Rightarrow> price_cents" where
  "best_bid_price_cents b = highest_set_price (pm_mask (pm_bids b))"

definition best_ask_price_cents :: "pm_book \<Rightarrow> price_cents" where
  "best_ask_price_cents b = lowest_set_price (pm_mask (pm_asks b))"

definition no_pm_level :: pm_level where
  "no_pm_level = \<lparr>pl_price_cents = invalid_price_cents, pl_size = dbl_zero, pl_valid = False\<rparr>"

definition get_bbo :: "pm_book \<Rightarrow> bbo" where
  "get_bbo b =
     (let best_bid = best_bid_price_cents b; best_ask = best_ask_price_cents b in
      \<lparr>bbo_bid = (if best_bid \<noteq> invalid_price_cents
          then \<lparr>pl_price_cents = best_bid, pl_size = pm_levels (pm_bids b) ! unat best_bid, pl_valid = True\<rparr>
          else no_pm_level),
       bbo_ask = (if best_ask \<noteq> invalid_price_cents
          then \<lparr>pl_price_cents = best_ask, pl_size = pm_levels (pm_asks b) ! unat best_ask, pl_valid = True\<rparr>
          else no_pm_level)\<rparr>)"

definition has_bid :: "bbo \<Rightarrow> bool" where "has_bid x = pl_valid (bbo_bid x)"
definition has_ask :: "bbo \<Rightarrow> bool" where "has_ask x = pl_valid (bbo_ask x)"

definition bbo_crossed :: "bbo \<Rightarrow> bool" where
  "bbo_crossed x \<longleftrightarrow> has_bid x \<and> has_ask x \<and> pl_price_cents (bbo_ask x) \<le> pl_price_cents (bbo_bid x)"

definition best_bid_size :: "pm_book \<Rightarrow> double" where
  "best_bid_size b = (let p = best_bid_price_cents b in
     if p = invalid_price_cents then dbl_zero else pm_levels (pm_bids b) ! unat p)"

definition best_ask_size :: "pm_book \<Rightarrow> double" where
  "best_ask_size b = (let p = best_ask_price_cents b in
     if p = invalid_price_cents then dbl_zero else pm_levels (pm_asks b) ! unat p)"

definition pm_depth :: "side \<Rightarrow> price_cents \<Rightarrow> pm_book \<Rightarrow> double" where
  "pm_depth sd p b =
     (if \<not> is_valid_polymarket_price p then dbl_zero else pm_levels (pm_side_of sd b) ! unat p)"

definition pm_empty :: "side \<Rightarrow> pm_book \<Rightarrow> bool" where
  "pm_empty sd b \<longleftrightarrow> fst (pm_mask (pm_side_of sd b)) = 0 \<and> snd (pm_mask (pm_side_of sd b)) = 0"

subsection \<open>The feed adapter\<close>

type_synonym token_id = u32

definition invalid_token_id :: token_id where "invalid_token_id = - 1"

definition token_is_valid :: "token_id \<Rightarrow> bool" where
  "token_is_valid t \<longleftrightarrow> t \<noteq> invalid_token_id"

record pm_update =
  pu_new_size :: u64
  pu_token_id :: token_id
  pu_side :: side
  pu_price_cents :: price_cents
  pu_is_snapshot :: bool

text \<open>The routes, and the books they point to.\<close>

record feed_adapter =
  fa_routes :: "nat option list"
  fa_books :: "pm_book list"

definition route_slot :: "token_id \<Rightarrow> feed_adapter \<Rightarrow> nat option" where
  "route_slot t f =
     (if \<not> token_is_valid t then None
      else if length (fa_routes f) \<le> unat t then None else Some (unat t))"

definition bind_book :: "token_id \<Rightarrow> nat \<Rightarrow> feed_adapter \<Rightarrow> feed_adapter \<times> bool" where
  "bind_book t book f =
     (case route_slot t f of None \<Rightarrow> (f, False)
      | Some i \<Rightarrow> (f\<lparr>fa_routes := (fa_routes f)[i := Some book]\<rparr>, True))"

definition unbind_book :: "token_id \<Rightarrow> feed_adapter \<Rightarrow> feed_adapter \<times> bool" where
  "unbind_book t f =
     (case route_slot t f of None \<Rightarrow> (f, False)
      | Some i \<Rightarrow> (f\<lparr>fa_routes := (fa_routes f)[i := None]\<rparr>, True))"

definition reset_routes :: "nat option list \<Rightarrow> feed_adapter \<Rightarrow> feed_adapter" where
  "reset_routes routes f = f\<lparr>fa_routes := routes\<rparr>"

definition book_for :: "token_id \<Rightarrow> feed_adapter \<Rightarrow> nat option" where
  "book_for t f =
     (if \<not> token_is_valid t then None
      else if length (fa_routes f) \<le> unat t then None else fa_routes f ! unat t)"

definition on_l2_update :: "(u64 \<Rightarrow> double) \<Rightarrow> pm_update \<Rightarrow> feed_adapter \<Rightarrow> feed_adapter \<times> bool" where
  "on_l2_update size_of u f =
     (case book_for (pu_token_id u) f of
        None \<Rightarrow> (f, False)
      | Some r \<Rightarrow>
          let book = fa_books f ! r;
              book = (if pu_is_snapshot u then clear_pm_book book else book);
              (book, ok) = pm_apply_delta (pu_side u) (pu_price_cents u) (size_of (pu_new_size u)) book
          in (f\<lparr>fa_books := (fa_books f)[r := book]\<rparr>, ok))"

subsection \<open>The view of a side as a map\<close>

definition mask_bit :: "u64 \<times> u64 \<Rightarrow> nat \<Rightarrow> bool" where
  "mask_bit m i = (if i < 64 then bit (fst m) i else bit (snd m) (i - 64))"

definition pm_side_map :: "pm_side \<Rightarrow> price_cents \<Rightarrow> double option" where
  "pm_side_map s p = (if mask_bit (pm_mask s) (unat p) then Some (pm_levels s ! unat p) else None)"

definition pm_side_ok :: "pm_side \<Rightarrow> bool" where
  "pm_side_ok s \<longleftrightarrow> length (pm_levels s) = price_level_count
     \<and> (\<forall>i<128. mask_bit (pm_mask s) i \<longleftrightarrow> i < price_level_count \<and> 0 < i \<and> is_positive (pm_levels s ! i))
     \<and> (\<forall>i<price_level_count. is_positive (pm_levels s ! i) \<or> pm_levels s ! i = dbl_zero)"

definition pm_book_ok :: "pm_book \<Rightarrow> bool" where
  "pm_book_ok b \<longleftrightarrow> pm_side_ok (pm_bids b) \<and> pm_side_ok (pm_asks b)"

lemma valid_price_unat: "is_valid_polymarket_price p \<longleftrightarrow> 0 < unat p \<and> unat p < 100"
  by (simp add: is_valid_polymarket_price_def min_price_cents_def max_price_cents_def word_le_nat_alt) linarith

lemma price_low: "p < (64 :: price_cents) \<longleftrightarrow> unat p < 64"
  by (simp add: word_less_nat_alt)

lemma price_high: "\<not> unat p < 64 \<Longrightarrow> unat (p - (64 :: price_cents)) = unat p - 64"
  by (simp add: unat_sub_if_size word_size)

lemma mask_bit_set:
  assumes "i < 128" "unat p < 128"
  shows "mask_bit (set_price_bit p m) i \<longleftrightarrow> i = unat p \<or> mask_bit m i"
  using assms by (cases m) (auto simp: mask_bit_def set_price_bit_def price_low price_high bit_simps)

lemma mask_bit_clear:
  assumes "i < 128" "unat p < 128"
  shows "mask_bit (clear_price_bit p m) i \<longleftrightarrow> i \<noteq> unat p \<and> mask_bit m i"
  using assms by (cases m) (auto simp: mask_bit_def clear_price_bit_def price_low price_high bit_simps)

lemma mask_zero: "m = (0, 0) \<longleftrightarrow> (\<forall>i<128. \<not> mask_bit m i)"
proof (cases m)
  case (Pair low high)
  have "w = 0 \<longleftrightarrow> (\<forall>i<64. \<not> bit w i)" for w :: u64
    by (auto simp: bit_eq_iff)
  moreover have "(\<forall>i<64. \<not> bit high i) \<longleftrightarrow> (\<forall>i<128. \<not> i < 64 \<longrightarrow> \<not> bit high (i - 64))"
  proof (intro iffI allI impI)
    fix i assume "\<forall>i<128. \<not> i < 64 \<longrightarrow> \<not> bit high (i - 64)" "i < (64 :: nat)"
    then show "\<not> bit high i" by (metis add_diff_cancel_right' add_less_mono1 not_add_less2 numeral_Bit0)
  qed auto
  ultimately show ?thesis by (auto simp: Pair mask_bit_def)
qed

subsection \<open>Best prices\<close>

lemma bit_width_top:
  assumes "w \<noteq> 0"
  obtains i where "bit_width w = Suc i" "i < 64" "bit w i" "\<And>j. bit w j \<Longrightarrow> j \<le> i"
proof -
  have "\<exists>i. i < 64 \<and> bit w i" using assms by (auto simp: bit_eq_iff)
  then have "find (bit w) (rev [0..<64]) \<noteq> None" by (auto simp: find_None_iff)
  then obtain i where i: "find (bit w) (rev [0..<64]) = Some i" by blast
  then obtain k where k: "k < 64" "bit w (rev [0..<64] ! k)" "i = rev [0..<64] ! k"
      "\<forall>j<k. \<not> bit w (rev [0..<64] ! j)"
    by (auto simp: find_Some_iff)
  have nth: "rev [0..<64] ! j = 63 - j" if "j < (64 :: nat)" for j using that by (simp add: rev_nth)
  have "j \<le> i" if "bit w j" for j
  proof (rule ccontr)
    assume "\<not> j \<le> i"
    moreover have "j < 64" using that bit_imp_le_length [of w j] by simp
    ultimately have "63 - j < k" "rev [0..<64] ! (63 - j) = j" using k(1,3) nth by auto
    then show False using k(4) that by metis
  qed
  then show thesis using that [of i] i k nth by (auto simp: bit_width_def)
qed

lemma countr_zero_bottom:
  assumes "w \<noteq> 0"
  obtains i where "countr_zero w = i" "i < 64" "bit w i" "\<And>j. bit w j \<Longrightarrow> i \<le> j"
proof -
  have "\<exists>i. i < 64 \<and> bit w i" using assms by (auto simp: bit_eq_iff)
  then have "find (bit w) [0..<64] \<noteq> None" by (auto simp: find_None_iff)
  then obtain i where i: "find (bit w) [0..<64] = Some i" by blast
  then have k: "i < 64" "bit w i" "\<forall>j<i. \<not> bit w j"
    by (auto simp: find_Some_iff)
  moreover have "i \<le> j" if "bit w j" for j using k(3) that by (meson not_le)
  ultimately show thesis using that [of i] i by (simp add: countr_zero_def)
qed

lemma unat_price: "i < 64 \<Longrightarrow> unat (64 + of_nat i :: price_cents) = 64 + i" "i < 64 \<Longrightarrow> unat (of_nat i :: price_cents) = i"
proof -
  assume i: "i < 64"
  have "unat (of_nat (64 + i) :: price_cents) = 64 + i" using i unfolding unat_of_nat by simp
  then show "unat (64 + of_nat i :: price_cents) = 64 + i" by simp
qed (simp add: unat_of_nat)

lemma highest_set_price_top:
  assumes "m \<noteq> (0, 0)"
  shows "mask_bit m (unat (highest_set_price m)) \<and> unat (highest_set_price m) < 128
    \<and> (\<forall>i<128. mask_bit m i \<longrightarrow> i \<le> unat (highest_set_price m))"
proof (cases m)
  case (Pair low high)
  show ?thesis
  proof (cases "high = 0")
    case False
    obtain i where "bit_width high = Suc i" "i < 64" "bit high i" "\<And>j. bit high j \<Longrightarrow> j \<le> i"
      using bit_width_top [OF False] by blast
    then show ?thesis using Pair False
      by (auto simp: highest_set_price_def mask_bit_def unat_price) (metis le_diff_conv add.commute)
  next
    case True
    then have "low \<noteq> 0" using assms Pair by simp
    then obtain i where "bit_width low = Suc i" "i < 64" "bit low i" "\<And>j. bit low j \<Longrightarrow> j \<le> i"
      using bit_width_top by blast
    then show ?thesis using Pair True \<open>low \<noteq> 0\<close>
      by (auto simp: highest_set_price_def mask_bit_def unat_price)
  qed
qed

lemma lowest_set_price_bottom:
  assumes "m \<noteq> (0, 0)"
  shows "mask_bit m (unat (lowest_set_price m)) \<and> unat (lowest_set_price m) < 128
    \<and> (\<forall>i<128. mask_bit m i \<longrightarrow> unat (lowest_set_price m) \<le> i)"
proof (cases m)
  case (Pair low high)
  show ?thesis
  proof (cases "low = 0")
    case False
    obtain i where "countr_zero low = i" "i < 64" "bit low i" "\<And>j. bit low j \<Longrightarrow> i \<le> j"
      using countr_zero_bottom [OF False] by blast
    then show ?thesis using Pair False
      by (auto simp: lowest_set_price_def mask_bit_def unat_price)
  next
    case True
    then have "high \<noteq> 0" using assms Pair by simp
    then obtain i where "countr_zero high = i" "i < 64" "bit high i" "\<And>j. bit high j \<Longrightarrow> i \<le> j"
      using countr_zero_bottom by blast
    then show ?thesis using Pair True \<open>high \<noteq> 0\<close>
      by (auto simp: lowest_set_price_def mask_bit_def unat_price) (metis le_diff_conv2 add.commute not_less)
  qed
qed


lemma side_empty:
  assumes "pm_side_ok s"
  shows "pm_mask s = (0, 0) \<longleftrightarrow> dom (pm_side_map s) = {}"
proof -
  have "mask_bit (pm_mask s) i \<longleftrightarrow> pm_side_map s (of_nat i) \<noteq> None" if "i < 128" for i
    using that by (simp add: pm_side_map_def unat_of_nat)
  moreover have "unat p < 128" if "pm_side_map s p \<noteq> None" for p
  proof -
    have "mask_bit (pm_mask s) (unat p)" using that by (simp add: pm_side_map_def split: if_splits)
    then have "unat p < 64 \<or> unat p - 64 < 64"
      using bit_imp_le_length [of "snd (pm_mask s)"] by (auto simp: mask_bit_def split: if_splits)
    then show ?thesis by linarith
  qed
  ultimately have "(\<forall>i<128. \<not> mask_bit (pm_mask s) i) \<longleftrightarrow> (\<forall>p. pm_side_map s p = None)"
    by (metis of_nat_unat ucast_id)
  then show ?thesis by (simp add: mask_zero dom_eq_empty_conv fun_eq_iff)
qed

lemma side_map_price:
  assumes "pm_side_ok s" "pm_side_map s p = Some d"
  shows "is_valid_polymarket_price p" "is_positive d" "mask_bit (pm_mask s) (unat p)" "unat p < 128"
proof -
  have m: "mask_bit (pm_mask s) (unat p)" "d = pm_levels s ! unat p"
    using assms(2) by (simp_all add: pm_side_map_def split: if_splits)
  then have "unat p < 64 \<or> unat p - 64 < 64"
    using bit_imp_le_length [of "snd (pm_mask s)"] by (auto simp: mask_bit_def split: if_splits)
  then show b: "unat p < 128" by linarith
  then show "is_valid_polymarket_price p" "is_positive d"
    using m assms(1) by (auto simp: pm_side_ok_def valid_price_unat price_level_count_def)
  show "mask_bit (pm_mask s) (unat p)" by (rule m)
qed

lemma best_is_Max:
  assumes "pm_side_ok s" "pm_mask s \<noteq> (0, 0)"
  shows "highest_set_price (pm_mask s) = Max (dom (pm_side_map s))" "lowest_set_price (pm_mask s) = Min (dom (pm_side_map s))"
proof -
  have fin: "finite (dom (pm_side_map s))" by simp
  let ?h = "highest_set_price (pm_mask s)" and ?l = "lowest_set_price (pm_mask s)"
  have h: "?h \<in> dom (pm_side_map s)" and l: "?l \<in> dom (pm_side_map s)"
    using highest_set_price_top [OF assms(2)] lowest_set_price_bottom [OF assms(2)] by (simp_all add: pm_side_map_def domIff)
  have "p \<le> ?h \<and> ?l \<le> p" if "p \<in> dom (pm_side_map s)" for p
  proof -
    obtain d where "pm_side_map s p = Some d" using \<open>p \<in> dom (pm_side_map s)\<close> by blast
    then have "mask_bit (pm_mask s) (unat p)" "unat p < 128" using side_map_price [OF assms(1)] by blast+
    then show ?thesis
      using highest_set_price_top [OF assms(2)] lowest_set_price_bottom [OF assms(2)]
      unfolding word_le_nat_alt by blast
  qed
  then show "?h = Max (dom (pm_side_map s))" "?l = Min (dom (pm_side_map s))"
    using Max_eqI [OF fin _ h] Min_eqI [OF fin _ l] by auto
qed

subsection \<open>Updates\<close>

lemma side_map_empty: "pm_side_map (s\<lparr>pm_levels := ls, pm_mask := (0, 0)\<rparr>) = Map.empty"
  by (simp add: pm_side_map_def mask_bit_def fun_eq_iff)

lemma empty_side_ok: "pm_side_ok (s\<lparr>pm_levels := replicate price_level_count dbl_zero, pm_mask := (0, 0)\<rparr>)"
  by (auto simp: pm_side_ok_def mask_bit_def is_positive_def)

lemma new_pm_book_ok: "pm_book_ok new_pm_book" "pm_side_map (pm_side_of sd new_pm_book) = Map.empty"
  by (auto simp: pm_book_ok_def new_pm_book_def empty_pm_side_def pm_side_of_def pm_side_ok_def mask_bit_def
      is_positive_def pm_side_map_def fun_eq_iff)

lemma clear_pm_book_ok: "pm_book_ok (clear_pm_book b)" "pm_side_map (pm_side_of sd (clear_pm_book b)) = Map.empty"
  by (simp_all add: pm_book_ok_def clear_pm_book_def empty_side_ok side_map_empty pm_side_of_def)

lemma set_level_ok:
  assumes "pm_side_ok s" "is_valid_polymarket_price p"
  shows "is_positive d \<Longrightarrow>
      pm_side_ok (s\<lparr>pm_levels := (pm_levels s)[unat p := d], pm_mask := set_price_bit p (pm_mask s)\<rparr>)"
    "pm_side_ok (s\<lparr>pm_levels := (pm_levels s)[unat p := dbl_zero], pm_mask := clear_price_bit p (pm_mask s)\<rparr>)"
  using assms by (auto simp: pm_side_ok_def valid_price_unat price_level_count_def mask_bit_set mask_bit_clear
      nth_list_update is_positive_def)

lemma set_level_map:
  assumes "pm_side_ok s" "is_valid_polymarket_price p"
  shows "pm_side_map (s\<lparr>pm_levels := (pm_levels s)[unat p := d], pm_mask := set_price_bit p (pm_mask s)\<rparr>)
      = (pm_side_map s)(p \<mapsto> d)"
    "pm_side_map (s\<lparr>pm_levels := (pm_levels s)[unat p := d], pm_mask := clear_price_bit p (pm_mask s)\<rparr>)
      = (pm_side_map s)(p := None)"
proof -
  have high: "mask_bit m (unat q) = False" if "\<not> unat q < 128" for m and q :: price_cents
    using that bit_imp_le_length [of "snd m" "unat q - 64"] by (auto simp: mask_bit_def)
  have p: "0 < unat p" "unat p < 100" using assms(2) by (simp_all add: valid_price_unat)
  have len: "length (pm_levels s) = 100" using assms(1) by (simp add: pm_side_ok_def price_level_count_def)
  have bits: "mask_bit (set_price_bit p m) (unat q) \<longleftrightarrow> unat q = unat p \<or> mask_bit m (unat q)"
      "mask_bit (clear_price_bit p m) (unat q) \<longleftrightarrow> unat q \<noteq> unat p \<and> mask_bit m (unat q)"
    for m and q :: price_cents
    using mask_bit_set [of "unat q" p m] mask_bit_clear [of "unat q" p m] high [of q m] high [of q "set_price_bit p m"]
      high [of q "clear_price_bit p m"] p
    by linarith+
  show "pm_side_map (s\<lparr>pm_levels := (pm_levels s)[unat p := d], pm_mask := set_price_bit p (pm_mask s)\<rparr>)
      = (pm_side_map s)(p \<mapsto> d)"
    using p len by (auto simp: pm_side_map_def fun_eq_iff bits nth_list_update simp flip: word_unat_eq_iff)
  show "pm_side_map (s\<lparr>pm_levels := (pm_levels s)[unat p := d], pm_mask := clear_price_bit p (pm_mask s)\<rparr>)
      = (pm_side_map s)(p := None)"
    using p len by (auto simp: pm_side_map_def fun_eq_iff bits nth_list_update simp flip: word_unat_eq_iff)
qed

text \<open>What a delta does to the two maps of a book.\<close>

definition map_delta :: "side \<Rightarrow> price_cents \<Rightarrow> double \<Rightarrow> (side \<Rightarrow> price_cents \<Rightarrow> double option)
    \<Rightarrow> (side \<Rightarrow> price_cents \<Rightarrow> double option) \<times> bool" where
  "map_delta sd p d v =
     (if is_valid_polymarket_price p then (v(sd := (v sd)(p := (if is_positive d then Some d else None))), True)
      else (v, False))"

definition book_maps :: "pm_book \<Rightarrow> side \<Rightarrow> price_cents \<Rightarrow> double option" where
  "book_maps b sd = pm_side_map (pm_side_of sd b)"

lemma put_side_ok: "pm_book_ok b \<Longrightarrow> pm_side_ok s \<Longrightarrow> pm_book_ok (put_pm_side sd s b)"
  by (simp add: pm_book_ok_def put_pm_side_def)

lemma put_side_maps: "book_maps (put_pm_side sd s b) = (book_maps b)(sd := pm_side_map s)"
proof
  fix sd'
  show "book_maps (put_pm_side sd s b) sd' = ((book_maps b)(sd := pm_side_map s)) sd'"
    by (cases sd; cases sd') (simp_all add: book_maps_def put_pm_side_def pm_side_of_def)
qed

lemma apply_delta_maps:
  assumes "pm_book_ok b"
  shows "pm_book_ok (fst (pm_apply_delta sd p d b))"
    "(book_maps (fst (pm_apply_delta sd p d b)), snd (pm_apply_delta sd p d b)) = map_delta sd p d (book_maps b)"
proof -
  have s: "pm_side_ok (pm_side_of sd b)" using assms by (simp add: pm_book_ok_def pm_side_of_def)
  show "pm_book_ok (fst (pm_apply_delta sd p d b))"
    using assms set_level_ok [OF s] by (simp add: pm_apply_delta_def Let_def put_side_ok)
  show "(book_maps (fst (pm_apply_delta sd p d b)), snd (pm_apply_delta sd p d b)) = map_delta sd p d (book_maps b)"
  proof (cases "is_valid_polymarket_price p")
    case True
    then show ?thesis
      using set_level_map [OF s True]
      by (simp add: pm_apply_delta_def Let_def map_delta_def put_side_maps) (simp add: book_maps_def)
  qed (simp add: pm_apply_delta_def map_delta_def)
qed


subsection \<open>The feed as maps\<close>

text \<open>What a client does with the feed: bind and unbind tokens, and send updates.\<close>

datatype feed_call = Bind_call token_id nat | Unbind_call token_id | Update_call pm_update

definition do_feed_call :: "(u64 \<Rightarrow> double) \<Rightarrow> feed_call \<Rightarrow> feed_adapter \<Rightarrow> feed_adapter \<times> bool" where
  "do_feed_call size_of c f = (case c of Bind_call t r \<Rightarrow> bind_book t r f | Unbind_call t \<Rightarrow> unbind_book t f
     | Update_call u \<Rightarrow> on_l2_update size_of u f)"

fun feed_run :: "(u64 \<Rightarrow> double) \<Rightarrow> feed_call list \<Rightarrow> feed_adapter \<Rightarrow> feed_adapter \<times> bool list" where
  "feed_run size_of [] f = (f, [])"
| "feed_run size_of (c # cs) f =
     (case do_feed_call size_of c f of (f, a) \<Rightarrow> case feed_run size_of cs f of (f, as) \<Rightarrow> (f, a # as))"

definition new_feed :: "nat \<Rightarrow> nat \<Rightarrow> feed_adapter" where
  "new_feed tokens books = \<lparr>fa_routes = replicate tokens None, fa_books = replicate books new_pm_book\<rparr>"

text \<open>The specification: a partial map from tokens to books, and two maps from prices to sizes per book.\<close>

record feed_spec =
  fs_routes :: "token_id \<Rightarrow> nat option"
  fs_books :: "nat \<Rightarrow> side \<Rightarrow> price_cents \<Rightarrow> double option"

definition known_token :: "nat \<Rightarrow> token_id \<Rightarrow> bool" where
  "known_token tokens t \<longleftrightarrow> t \<noteq> - 1 \<and> unat t < tokens"

definition spec_update :: "(u64 \<Rightarrow> double) \<Rightarrow> pm_update \<Rightarrow> feed_spec \<Rightarrow> feed_spec \<times> bool" where
  "spec_update size_of u s =
     (case fs_routes s (pu_token_id u) of
        None \<Rightarrow> (s, False)
      | Some r \<Rightarrow>
          (case map_delta (pu_side u) (pu_price_cents u) (size_of (pu_new_size u))
              (if pu_is_snapshot u then (\<lambda>_. Map.empty) else fs_books s r) of
             (v, ok) \<Rightarrow> (s\<lparr>fs_books := (fs_books s)(r := v)\<rparr>, ok)))"

definition spec_call :: "(u64 \<Rightarrow> double) \<Rightarrow> nat \<Rightarrow> feed_call \<Rightarrow> feed_spec \<Rightarrow> feed_spec \<times> bool" where
  "spec_call size_of tokens c s = (case c of
       Bind_call t r \<Rightarrow> if known_token tokens t then (s\<lparr>fs_routes := (fs_routes s)(t \<mapsto> r)\<rparr>, True) else (s, False)
     | Unbind_call t \<Rightarrow> if known_token tokens t then (s\<lparr>fs_routes := (fs_routes s)(t := None)\<rparr>, True) else (s, False)
     | Update_call u \<Rightarrow> spec_update size_of u s)"

fun spec_run :: "(u64 \<Rightarrow> double) \<Rightarrow> nat \<Rightarrow> feed_call list \<Rightarrow> feed_spec \<Rightarrow> feed_spec \<times> bool list" where
  "spec_run size_of tokens [] s = (s, [])"
| "spec_run size_of tokens (c # cs) s =
     (case spec_call size_of tokens c s of (s, a) \<Rightarrow> case spec_run size_of tokens cs s of (s, as) \<Rightarrow> (s, a # as))"

definition new_spec :: feed_spec where
  "new_spec = \<lparr>fs_routes = Map.empty, fs_books = (\<lambda>_ _. Map.empty)\<rparr>"

definition feed_ok :: "nat \<Rightarrow> nat \<Rightarrow> feed_adapter \<Rightarrow> bool" where
  "feed_ok tokens books f \<longleftrightarrow> length (fa_routes f) = tokens \<and> length (fa_books f) = books
     \<and> (\<forall>r. Some r \<in> set (fa_routes f) \<longrightarrow> r < books) \<and> (\<forall>b\<in>set (fa_books f). pm_book_ok b)"

definition feed_implements :: "feed_adapter \<Rightarrow> feed_spec \<Rightarrow> bool" where
  "feed_implements f s \<longleftrightarrow> (\<forall>t. book_for t f = fs_routes s t)
     \<and> (\<forall>r<length (fa_books f). book_maps (fa_books f ! r) = fs_books s r)"

definition call_in_store :: "nat \<Rightarrow> feed_call \<Rightarrow> bool" where
  "call_in_store books c = (case c of Bind_call t r \<Rightarrow> r < books | _ \<Rightarrow> True)"

lemma route_update:
  assumes "unat t < length rs"
  shows "book_for q (f\<lparr>fa_routes := rs[unat t := x]\<rparr>) =
    (if q = t \<and> token_is_valid t then x else book_for q (f\<lparr>fa_routes := rs\<rparr>))"
  using assms by (auto simp: book_for_def nth_list_update simp flip: word_unat_eq_iff)

lemma set_routes:
  assumes "\<forall>r. Some r \<in> set rs \<longrightarrow> r < n" "x = None \<or> x = Some b \<and> b < n"
  shows "\<forall>r. Some r \<in> set (rs[i := x]) \<longrightarrow> r < n"
proof (intro allI impI)
  fix r assume "Some r \<in> set (rs[i := x])"
  then show "r < n" using assms set_update_subset_insert [of rs i x] by auto
qed

lemma route_call_refines:
  assumes "feed_ok tokens books f" "feed_implements f s" "x = None \<or> x = Some b \<and> b < books" "route_slot t f = Some i"
  shows "feed_ok tokens books (f\<lparr>fa_routes := (fa_routes f)[i := x]\<rparr>)"
    "feed_implements (f\<lparr>fa_routes := (fa_routes f)[i := x]\<rparr>) (s\<lparr>fs_routes := (fs_routes s)(t := x)\<rparr>)"
    "known_token tokens t"
proof -
  have t: "token_is_valid t" "unat t < length (fa_routes f)" "i = unat t"
    using assms(4) by (auto simp: route_slot_def split: if_splits)
  have "\<forall>r. Some r \<in> set ((fa_routes f)[i := x]) \<longrightarrow> r < books"
    using assms(1,3) by (intro set_routes) (auto simp: feed_ok_def)
  then show "feed_ok tokens books (f\<lparr>fa_routes := (fa_routes f)[i := x]\<rparr>)"
    using assms(1) by (simp add: feed_ok_def)
  show "feed_implements (f\<lparr>fa_routes := (fa_routes f)[i := x]\<rparr>) (s\<lparr>fs_routes := (fs_routes s)(t := x)\<rparr>)"
    using assms(2) t by (auto simp: feed_implements_def route_update)
  show "known_token tokens t"
    using assms(1) t by (simp add: known_token_def feed_ok_def token_is_valid_def invalid_token_id_def)
qed

lemma unknown_route: "feed_ok tokens books f \<Longrightarrow> route_slot t f = None \<Longrightarrow> \<not> known_token tokens t"
  by (auto simp: route_slot_def known_token_def feed_ok_def token_is_valid_def invalid_token_id_def split: if_splits)

lemma update_refines:
  assumes f: "feed_ok tokens books f" and s: "feed_implements f s"
  shows "feed_ok tokens books (fst (on_l2_update size_of u f)) \<and> feed_implements (fst (on_l2_update size_of u f)) (fst (spec_update size_of u s))
    \<and> snd (on_l2_update size_of u f) = snd (spec_update size_of u s)"
proof (cases "book_for (pu_token_id u) f")
  case None
  then show ?thesis using f s by (simp add: on_l2_update_def spec_update_def feed_implements_def)
next
  case (Some r)
  have r: "r < length (fa_books f)" "fs_routes s (pu_token_id u) = Some r"
  proof -
    have "fa_routes f ! unat (pu_token_id u) = Some r" "unat (pu_token_id u) < length (fa_routes f)"
      using Some by (simp_all add: book_for_def split: if_splits)
    then have "Some r \<in> set (fa_routes f)" using nth_mem by metis
    then show "r < length (fa_books f)" using f by (simp add: feed_ok_def)
    show "fs_routes s (pu_token_id u) = Some r" using s Some by (simp add: feed_implements_def)
  qed
  define b where "b = (if pu_is_snapshot u then clear_pm_book (fa_books f ! r) else fa_books f ! r)"
  define b' ok where "b' = fst (pm_apply_delta (pu_side u) (pu_price_cents u) (size_of (pu_new_size u)) b)"
    and "ok = snd (pm_apply_delta (pu_side u) (pu_price_cents u) (size_of (pu_new_size u)) b)"
  have b: "pm_book_ok b" "book_maps b = (if pu_is_snapshot u then (\<lambda>_. Map.empty) else fs_books s r)"
    using f s r clear_pm_book_ok [where b = "fa_books f ! r"]
    by (auto simp: b_def feed_ok_def feed_implements_def book_maps_def fun_eq_iff)
  have b': "pm_book_ok b'" "map_delta (pu_side u) (pu_price_cents u) (size_of (pu_new_size u)) (book_maps b) = (book_maps b', ok)"
    using apply_delta_maps [OF b(1)] by (simp_all add: b'_def ok_def)
  have "on_l2_update size_of u f = (f\<lparr>fa_books := (fa_books f)[r := b']\<rparr>, ok)"
    using Some by (simp add: on_l2_update_def b_def b'_def ok_def Let_def case_prod_beta)
  moreover have "spec_update size_of u s = (s\<lparr>fs_books := (fs_books s)(r := book_maps b')\<rparr>, ok)"
    using r(2) b'(2) by (simp add: spec_update_def b(2))
  moreover have "feed_ok tokens books (f\<lparr>fa_books := (fa_books f)[r := b']\<rparr>)"
    using f b'(1) set_update_subset_insert [of "fa_books f" r b'] by (auto simp: feed_ok_def)
  moreover have "feed_implements (f\<lparr>fa_books := (fa_books f)[r := b']\<rparr>) (s\<lparr>fs_books := (fs_books s)(r := book_maps b')\<rparr>)"
  proof -
    have "book_for t (f\<lparr>fa_books := bs\<rparr>) = book_for t f" for t bs by (simp add: book_for_def)
    then show ?thesis using s r(1) by (simp add: feed_implements_def nth_list_update)
  qed
  ultimately show ?thesis by simp
qed

lemma feed_call_refines:
  assumes f: "feed_ok tokens books f" and s: "feed_implements f s" and c: "call_in_store books c"
  shows "feed_ok tokens books (fst (do_feed_call size_of c f)) \<and> feed_implements (fst (do_feed_call size_of c f)) (fst (spec_call size_of tokens c s))
    \<and> snd (do_feed_call size_of c f) = snd (spec_call size_of tokens c s)"
proof (cases c)
  case (Bind_call t r)
  then show ?thesis
    using route_call_refines [OF f s, of "Some r" r t] unknown_route [OF f, of t] f s c
    by (cases "route_slot t f") (simp_all add: do_feed_call_def spec_call_def bind_book_def call_in_store_def)
next
  case (Unbind_call t)
  then show ?thesis
    using route_call_refines [OF f s, of None 0 t] unknown_route [OF f, of t] f s
    by (cases "route_slot t f") (simp_all add: do_feed_call_def spec_call_def unbind_book_def)
next
  case (Update_call u)
  then show ?thesis using update_refines [OF f s, of size_of u] by (simp add: do_feed_call_def spec_call_def)
qed

lemma feed_run_refines:
  "feed_ok tokens books f \<Longrightarrow> feed_implements f s \<Longrightarrow> \<forall>c\<in>set cs. call_in_store books c \<Longrightarrow>
     feed_ok tokens books (fst (feed_run size_of cs f))
     \<and> feed_implements (fst (feed_run size_of cs f)) (fst (spec_run size_of tokens cs s))
     \<and> snd (feed_run size_of cs f) = snd (spec_run size_of tokens cs s)"
proof (induction cs arbitrary: f s)
  case (Cons c cs)
  then show ?case
    using feed_call_refines [OF Cons.prems(1,2), of c size_of]
      Cons.IH [of "fst (do_feed_call size_of c f)" "fst (spec_call size_of tokens c s)"]
    by (simp add: case_prod_beta)
qed simp

lemma new_feed_ok: "feed_ok tokens books (new_feed tokens books)" "feed_implements (new_feed tokens books) new_spec"
  using new_pm_book_ok
  by (auto simp: feed_ok_def new_feed_def feed_implements_def new_spec_def book_for_def book_maps_def fun_eq_iff)

subsection \<open>The properties\<close>

text \<open>C31: The feed is maps. Whatever a client binds, unbinds and sends, starting from empty
  books and no routes, every answer is the one of the specification: a token routes to the
  book it was last bound to, a snapshot update empties both sides of that book, and an
  update sets or removes one price of one side when the price is 1 to 99 cents and is
  refused otherwise. Every book has as its two sides the specification's maps, and its
  arrays and masks agree. So a snapshot sent as several updates, the first rows of a book,
  leaves only the last of them, and a refused snapshot update has emptied the book.\<close>

theorem polymarket_feed_refines_maps:
  assumes "list_all (call_in_store books) cs"
  shows "snd (feed_run size_of cs (new_feed tokens books)) = snd (spec_run size_of tokens cs new_spec)
    \<and> list_all pm_book_ok (fa_books (fst (feed_run size_of cs (new_feed tokens books))))
    \<and> map book_maps (fa_books (fst (feed_run size_of cs (new_feed tokens books))))
        = map (fs_books (fst (spec_run size_of tokens cs new_spec))) [0..<books]"
proof -
  have "feed_ok tokens books (fst (feed_run size_of cs (new_feed tokens books)))"
      "feed_implements (fst (feed_run size_of cs (new_feed tokens books))) (fst (spec_run size_of tokens cs new_spec))"
      "snd (feed_run size_of cs (new_feed tokens books)) = snd (spec_run size_of tokens cs new_spec)"
    using feed_run_refines [OF new_feed_ok assms [unfolded list_all_iff]] by blast+
  then show ?thesis
    by (auto simp: feed_ok_def feed_implements_def list_all_iff intro!: nth_equalityI)
qed

definition sample_update :: "token_id \<Rightarrow> u64 \<Rightarrow> side \<Rightarrow> price_cents \<Rightarrow> bool \<Rightarrow> feed_call" where
  "sample_update t n sd p snap = Update_call \<lparr>pu_new_size = n, pu_token_id = t, pu_side = sd,
     pu_price_cents = p, pu_is_snapshot = snap\<rparr>"

definition feed_samples :: "feed_call list" where
  "feed_samples = [Bind_call 1 0, Bind_call 2 0, Bind_call 7 0, sample_update 1 5 Buy 40 True,
     sample_update 2 6 Buy 97 True, sample_update 1 7 Sell 99 False, sample_update 1 8 Sell 100 False,
     sample_update 3 9 Buy 50 False, Unbind_call 2, sample_update 2 9 Buy 50 False]"

theorem polymarket_feed_refines_maps_witness:
  "list_all (call_in_store 1) feed_samples
   \<and> snd (feed_run id feed_samples (new_feed 4 1))
     = [True, True, False, True, True, True, False, False, True, False]
   \<and> fs_books (fst (spec_run id 4 feed_samples new_spec)) 0 = (\<lambda>_. Map.empty)(Buy := [97 \<mapsto> 6], Sell := [99 \<mapsto> 7])
   \<and> book_maps (hd (fa_books (fst (feed_run id feed_samples (new_feed 4 1)))))
     = (\<lambda>_. Map.empty)(Buy := [97 \<mapsto> 6], Sell := [99 \<mapsto> 7])"
proof -
  have calls: "list_all (call_in_store 1) feed_samples"
    by (simp add: feed_samples_def sample_update_def call_in_store_def)
  note run = polymarket_feed_refines_maps [OF calls, of id 4]
  note defs = feed_samples_def sample_update_def spec_call_def known_token_def new_spec_def spec_update_def
    map_delta_def valid_price_unat is_positive_def dbl_zero_def dbl_infinity_def
  have answers: "snd (spec_run id 4 feed_samples new_spec) = [True, True, False, True, True, True, False, False, True, False]"
    by (simp add: defs)
  have maps: "fs_books (fst (spec_run id 4 feed_samples new_spec)) 0 = (\<lambda>_. Map.empty)(Buy := [97 \<mapsto> 6], Sell := [99 \<mapsto> 7])"
    by (simp add: defs fun_eq_iff)
  have "map book_maps (fa_books (fst (feed_run id feed_samples (new_feed 4 1))))
      = [fs_books (fst (spec_run id 4 feed_samples new_spec)) 0]"
    using run by simp
  then have "book_maps (hd (fa_books (fst (feed_run id feed_samples (new_feed 4 1)))))
      = fs_books (fst (spec_run id 4 feed_samples new_spec)) 0"
    by (cases "fa_books (fst (feed_run id feed_samples (new_feed 4 1)))") simp_all
  then show ?thesis using calls answers maps run by metis
qed

text \<open>Reading a book is reading its maps. The best bid is the largest price with a size
  on the bid side, the best ask the smallest one on the ask side, each with its size; a side
  without prices has no best one, price 0 and size 0. \<open>depth\<close> is the size at a price, or 0,
  and \<open>empty\<close> says whether a side has no prices. This holds for every book the feed can
  build; what \<open>crossed\<close> reports is then that some bid is at or above some ask.\<close>

theorem polymarket_reads:
  assumes "pm_book_ok b"
  shows "get_bbo b = \<lparr>bbo_bid = (if dom (book_maps b Buy) = {} then no_pm_level
         else let p = Max (dom (book_maps b Buy)) in
           \<lparr>pl_price_cents = p, pl_size = the (book_maps b Buy p), pl_valid = True\<rparr>),
       bbo_ask = (if dom (book_maps b Sell) = {} then no_pm_level
         else let p = Min (dom (book_maps b Sell)) in
           \<lparr>pl_price_cents = p, pl_size = the (book_maps b Sell p), pl_valid = True\<rparr>)\<rparr>
    \<and> best_bid_size b = pl_size (bbo_bid (get_bbo b)) \<and> best_ask_size b = pl_size (bbo_ask (get_bbo b))
    \<and> pm_depth sd p b = (case book_maps b sd p of None \<Rightarrow> dbl_zero | Some d \<Rightarrow> d)
    \<and> pm_empty sd b = (dom (book_maps b sd) = {})
    \<and> bbo_crossed (get_bbo b) = (\<exists>bid\<in>dom (book_maps b Buy). \<exists>ask\<in>dom (book_maps b Sell). ask \<le> bid)"
proof -
  have ok: "pm_side_ok (pm_side_of sd b)" for sd using assms by (simp add: pm_book_ok_def pm_side_of_def)
  have sides: "book_maps b sd = pm_side_map (pm_side_of sd b)" for sd by (simp add: book_maps_def)
  note best = best_is_Max [OF ok] and empty = side_empty [OF ok]
  have zero: "highest_set_price (0, 0) = invalid_price_cents" "lowest_set_price (0, 0) = invalid_price_cents"
    by (simp_all add: highest_set_price_def lowest_set_price_def)
  have member: "q \<in> dom (pm_side_map s) \<Longrightarrow> pm_side_ok s \<Longrightarrow> q \<noteq> invalid_price_cents
      \<and> the (pm_side_map s q) = pm_levels s ! unat q" for q s
    using side_map_price(1) [of s q]
    by (auto simp: invalid_price_cents_def valid_price_unat pm_side_map_def split: if_splits)
  have Max: "Max (dom (pm_side_map s)) \<in> dom (pm_side_map s)" "Min (dom (pm_side_map s)) \<in> dom (pm_side_map s)"
    if "dom (pm_side_map s) \<noteq> {}" for s
    using that by (simp_all add: Max_in Min_in)
  have bid: "bbo_bid (get_bbo b) = (if dom (book_maps b Buy) = {} then no_pm_level
       else let p = Max (dom (book_maps b Buy)) in
         \<lparr>pl_price_cents = p, pl_size = the (book_maps b Buy p), pl_valid = True\<rparr>)"
    using empty [of Buy] best(1) [of Buy] Max(1) [of "pm_bids b"] member [OF _ ok [of Buy]] zero
    by (auto simp: get_bbo_def sides best_bid_price_cents_def pm_side_of_def Let_def)
  have ask: "bbo_ask (get_bbo b) = (if dom (book_maps b Sell) = {} then no_pm_level
       else let p = Min (dom (book_maps b Sell)) in
         \<lparr>pl_price_cents = p, pl_size = the (book_maps b Sell p), pl_valid = True\<rparr>)"
    using empty [of Sell] best(2) [of Sell] Max(2) [of "pm_asks b"] member [OF _ ok [of Sell]] zero
    by (auto simp: get_bbo_def sides best_ask_price_cents_def pm_side_of_def Let_def)
  have "bbo_crossed (get_bbo b) = (\<exists>bid\<in>dom (book_maps b Buy). \<exists>ask\<in>dom (book_maps b Sell). ask \<le> bid)"
  proof (cases "dom (book_maps b Buy) = {} \<or> dom (book_maps b Sell) = {}")
    case False
    have "Min (dom (book_maps b Sell)) \<le> Max (dom (book_maps b Buy))
        \<longleftrightarrow> (\<exists>bid\<in>dom (book_maps b Buy). \<exists>ask\<in>dom (book_maps b Sell). ask \<le> bid)"
      using False Max_in [of "dom (book_maps b Buy)"] Min_in [of "dom (book_maps b Sell)"]
      by (meson Max_ge Min_le finite order_trans)
    then show ?thesis using False by (simp add: bbo_crossed_def has_bid_def has_ask_def bid ask Let_def)
  qed (auto simp: bbo_crossed_def has_bid_def has_ask_def bid ask no_pm_level_def)
  moreover have "best_bid_size b = pl_size (bbo_bid (get_bbo b))" "best_ask_size b = pl_size (bbo_ask (get_bbo b))"
    by (simp_all add: best_bid_size_def best_ask_size_def get_bbo_def no_pm_level_def Let_def)
  moreover have "pm_depth sd p b = (case book_maps b sd p of None \<Rightarrow> dbl_zero | Some d \<Rightarrow> d)"
  proof (cases "pm_side_map (pm_side_of sd b) p")
    case None
    then show ?thesis
      using ok [of sd] by (auto simp: pm_depth_def sides pm_side_map_def valid_price_unat pm_side_ok_def price_level_count_def split: if_splits)
  next
    case (Some d)
    then show ?thesis using side_map_price(1) [OF ok Some] by (auto simp: pm_depth_def sides pm_side_map_def split: if_splits)
  qed
  moreover have "pm_empty sd b = (dom (book_maps b sd) = {})"
    unfolding sides empty [symmetric] by (simp add: pm_empty_def prod_eq_iff)
  moreover have "get_bbo b = \<lparr>bbo_bid = bbo_bid (get_bbo b), bbo_ask = bbo_ask (get_bbo b)\<rparr>" by simp
  ultimately show ?thesis using bid ask by (intro conjI) simp_all
qed


definition sample_book :: pm_book where
  "sample_book = fst (pm_apply_delta Sell 45 3 (fst (pm_apply_delta Buy 42 5 (fst (pm_apply_delta Buy 97 4 new_pm_book)))))"

theorem polymarket_reads_witness:
  "pm_book_ok sample_book
   \<and> get_bbo sample_book = \<lparr>bbo_bid = \<lparr>pl_price_cents = 97, pl_size = 4, pl_valid = True\<rparr>,
       bbo_ask = \<lparr>pl_price_cents = 45, pl_size = 3, pl_valid = True\<rparr>\<rparr>
   \<and> bbo_crossed (get_bbo sample_book) \<and> pm_depth Buy 42 sample_book = 5 \<and> \<not> pm_empty Buy sample_book"
proof -
  have ok: "pm_book_ok sample_book"
    by (simp add: sample_book_def apply_delta_maps new_pm_book_ok)
  have new: "book_maps new_pm_book = (\<lambda>_. Map.empty)"
    by (simp add: book_maps_def new_pm_book_ok fun_eq_iff)
  have step: "book_maps (fst (pm_apply_delta sd p d b)) = (book_maps b)(sd := (book_maps b sd)(p \<mapsto> d))"
    if "pm_book_ok b" "is_valid_polymarket_price p" "is_positive d" for sd p d b
    using apply_delta_maps(2) [OF that(1), of sd p d] that(2,3) by (simp add: map_delta_def)
  have maps: "book_maps sample_book = (\<lambda>_. Map.empty)(Buy := [97 \<mapsto> 4, 42 \<mapsto> 5], Sell := [45 \<mapsto> 3])"
    by (simp add: sample_book_def step new new_pm_book_ok apply_delta_maps valid_price_unat is_positive_def
        dbl_zero_def dbl_infinity_def fun_eq_iff)
  note reads = polymarket_reads [OF ok, unfolded maps]
  show ?thesis
    using ok reads [of Buy 42] by (simp add: maps Let_def bbo_crossed_def has_bid_def has_ask_def)
qed

end
