(* ===== verification/FixedBook.thy ===== *)
theory FixedBook
  imports BookProperties CsvParser Wallet
begin

section \<open>The fixed matching book of the backtests\<close>

text \<open>
  \<open>FixedMatchingBook\<close> of \<open>include/lob/fixed_matching_book.hpp\<close>: the matching book at one
  configuration, with orders of the file format coming in, trades going out, and prices
  in doubles converted to ticks of \<open>10 ^ -8\<close>. The operations on doubles are a parameter:
  \<open>fp_of_i64\<close> is the conversion of an integer, \<open>long_product\<close> the \<open>long double\<close>
  product by \<open>10 ^ 8\<close>, a rational number.
\<close>

record backtest_fp = fp +
  fp_of_i64 :: "int \<Rightarrow> double"
  long_product :: "double \<Rightarrow> rat"

record trade =
  tr_buyer_id :: u64
  tr_seller_id :: u64
  tr_taker_order_id :: u64
  tr_price :: int
  tr_quantity :: u64
  tr_timestamp :: u64

record price_level_info =
  pi_price_ticks :: int
  pi_quantity_lots :: u64

definition fixed_config :: book_config where
  "fixed_config = \<lparr>order_capacity = 8192, price_level_capacity = 1024, max_execution_reports = 512,
     order_index_capacity = 16385\<rparr>"

definition dbl_scale :: double where "dbl_scale = 0x4197D78400000000"

definition price_to_ticks :: "backtest_fp \<Rightarrow> double \<Rightarrow> int" where
  "price_to_ticks fp price =
     (if \<not> is_finite price \<or> is_at_most_zero price then 0
      else if of_int i64_max < long_product fp price then 0
      else llround (long_product fp price))"

definition ticks_to_price :: "backtest_fp \<Rightarrow> int \<Rightarrow> double" where
  "ticks_to_price fp ticks = fp_div fp (fp_of_i64 fp ticks) dbl_scale"

definition fixed_order :: "order_id \<Rightarrow> side \<Rightarrow> int \<Rightarrow> u64 \<Rightarrow> u64 \<Rightarrow> time_in_force \<Rightarrow> sim_order" where
  "fixed_order order_id sd price_ticks quantity_lots timestamp_ns tif =
     \<lparr>so_order_id = order_id, so_agent_id = invalid_agent_id, so_side = sd, so_price_ticks = price_ticks,
      so_quantity_lots = quantity_lots, so_timestamp_ns = timestamp_ns, so_time_in_force = tif\<rparr>"

definition fixed_submit :: "lob_order \<Rightarrow> matching_book \<Rightarrow> (matching_book \<times> match_result) option" where
  "fixed_submit order = submit_limit fixed_config
     (fixed_order (lo_id order) (lo_side order) (lo_price order) (lo_quantity order) (lo_timestamp order) GTC)"

text \<open>The executions come in pairs, the taker's report before the maker's.\<close>

definition trade_of :: "trade_execution \<Rightarrow> trade_execution \<Rightarrow> trade" where
  "trade_of taker maker =
     \<lparr>tr_buyer_id = (if te_side taker = Buy then te_order_id taker else te_order_id maker),
      tr_seller_id = (if te_side taker = Sell then te_order_id taker else te_order_id maker),
      tr_taker_order_id = te_order_id taker, tr_price = te_price_ticks taker,
      tr_quantity = te_quantity_lots taker, tr_timestamp = te_timestamp_ns taker\<rparr>"

fun trades_of :: "trade_execution list \<Rightarrow> trade list" where
  "trades_of (taker # maker # es) = trade_of taker maker # trades_of es"
| "trades_of es = []"

definition process_order :: "lob_order \<Rightarrow> matching_book \<Rightarrow> (matching_book \<times> trade list) option" where
  "process_order order b =
     (case fixed_submit order b of None \<Rightarrow> None | Some (b', r) \<Rightarrow> Some (b', trades_of (mr_executions r)))"

definition fixed_cancel :: "order_id \<Rightarrow> matching_book \<Rightarrow> matching_book \<times> cancel_result" where
  "fixed_cancel = cancel fixed_config"

definition best_bid_ticks :: "matching_book \<Rightarrow> int" where
  "best_bid_ticks b = (case best_bid fixed_config b of None \<Rightarrow> 0 | Some p \<Rightarrow> p)"

definition best_ask_ticks :: "matching_book \<Rightarrow> int" where
  "best_ask_ticks b = (case best_ask fixed_config b of None \<Rightarrow> 0 | Some p \<Rightarrow> p)"

definition get_best_bid :: "backtest_fp \<Rightarrow> matching_book \<Rightarrow> double" where
  "get_best_bid fp b = ticks_to_price fp (best_bid_ticks b)"

definition get_best_ask :: "backtest_fp \<Rightarrow> matching_book \<Rightarrow> double" where
  "get_best_ask fp b = ticks_to_price fp (best_ask_ticks b)"

definition quantity_at_ticks :: "matching_book \<Rightarrow> side \<Rightarrow> int \<Rightarrow> u64" where
  "quantity_at_ticks = total_quantity_at_price fixed_config"

text \<open>The overload whose price is a double.\<close>

definition get_total_quantity_at_price :: "backtest_fp \<Rightarrow> matching_book \<Rightarrow> side \<Rightarrow> double \<Rightarrow> u64" where
  "get_total_quantity_at_price fp b sd price = quantity_at_ticks b sd (price_to_ticks fp price)"

definition fixed_for_each_level ::
  "matching_book \<Rightarrow> side \<Rightarrow> (int \<Rightarrow> u64 \<Rightarrow> 'v \<Rightarrow> 'v \<times> bool) \<Rightarrow> 'v \<Rightarrow> 'v" where
  "fixed_for_each_level = for_each_level fixed_config"

definition take_level :: "nat \<Rightarrow> int \<Rightarrow> u64 \<Rightarrow> price_level_info list \<Rightarrow> price_level_info list \<times> bool" where
  "take_level depth price quantity levels =
     (if length levels = depth then (levels, False)
      else (levels @ [\<lparr>pi_price_ticks = price, pi_quantity_lots = quantity\<rparr>], True))"

definition get_l2_snapshot :: "nat \<Rightarrow> matching_book \<Rightarrow> price_level_info list \<times> price_level_info list" where
  "get_l2_snapshot depth b =
     (fixed_for_each_level b Buy (take_level depth) [], fixed_for_each_level b Sell (take_level depth) [])"

definition fixed_clear :: "matching_book \<Rightarrow> matching_book" where
  "fixed_clear = clear_book fixed_config"

subsection \<open>The configuration is valid and deep\<close>

lemma fixed_config_ok [simp]: "valid_config fixed_config" "uses_deep_level_index fixed_config" "totals_ok fixed_config b s"
  by (simp_all add: valid_config_def fixed_config_def uses_deep_level_index_def totals_ok_def)

lemma fixed_order_simps [simp]:
  "so_order_id (fixed_order i sd p q t tif) = i" "so_side (fixed_order i sd p q t tif) = sd"
  "so_price_ticks (fixed_order i sd p q t tif) = p" "so_quantity_lots (fixed_order i sd p q t tif) = q"
  "so_timestamp_ns (fixed_order i sd p q t tif) = t"
  by (simp_all add: fixed_order_def)

text \<open>The trade of one fill.\<close>

definition fill_trade :: "lob_order \<Rightarrow> sim_order \<times> int \<times> u64 \<Rightarrow> trade" where
  "fill_trade order = (\<lambda>(maker, px, qty).
     \<lparr>tr_buyer_id = (if lo_side order = Buy then lo_id order else so_order_id maker),
      tr_seller_id = (if lo_side order = Buy then so_order_id maker else lo_id order),
      tr_taker_order_id = lo_id order, tr_price = px, tr_quantity = qty, tr_timestamp = lo_timestamp order\<rparr>)"

lemma trades_of_fills:
  "trades_of (fill_executions (fixed_order (lo_id order) (lo_side order) (lo_price order) (lo_quantity order) (lo_timestamp order) GTC) fills)
     = map (fill_trade order) fills"
proof (induction fills)
  case (Cons f fills)
  then show ?case
    by (cases f; cases "lo_side order") (auto simp: fill_executions_def trade_of_def fill_trade_def taker_execution_def maker_execution_def)
qed (simp add: fill_executions_def)

lemma process_order_match:
  assumes "book_inv fixed_config b"
  shows "\<exists>b' fills. process_order order b = Some (b', map (fill_trade order) fills) \<and> book_inv fixed_config b'
    \<and> takes_in_priority (ladder b (opposite (lo_side order))) fills (ladder b' (opposite (lo_side order)))
    \<and> (\<forall>(maker, px, qty)\<in>set fills. crosses (lo_side order) (lo_price order) px)
    \<and> fills_total fills \<le> unat (lo_quantity order)
    \<and> ladder b' = fst (spec_submit fixed_config (fixed_order (lo_id order) (lo_side order) (lo_price order) (lo_quantity order) (lo_timestamp order) GTC) (ladder b))"
proof -
  let ?o = "fixed_order (lo_id order) (lo_side order) (lo_price order) (lo_quantity order) (lo_timestamp order) GTC"
  obtain b' where b': "submit_limit fixed_config ?o b = Some (b', snd (spec_submit fixed_config ?o (ladder b)))"
      "ladder b' = fst (spec_submit fixed_config ?o (ladder b))" "book_inv fixed_config b'"
    using submit_refines [OF assms fixed_config_ok(1), of ?o] by auto
  obtain fills where "explains fixed_config ?o (ladder b) (ladder b') (snd (spec_submit fixed_config ?o (ladder b))) fills"
    using spec_submit_explained [OF ladder_spec_ok [OF assms]] unfolding b'(2) by blast
  then show ?thesis
    using b' by (intro exI [of _ b'] exI [of _ fills])
      (auto simp: explains_def process_order_def fixed_submit_def trades_of_fills)
qed


subsection \<open>Whose orders rest\<close>

lemma ladder_ids_insert: "ladder_ids (spec_insert s p e L) = insert (so_order_id (fst e)) (ladder_ids L)"
  by (induction s p e L rule: spec_insert.induct) (auto simp: ladder_ids_def)

lemma spec_finish_ids:
  "ladder_ids (fst (spec_finish c order remaining S r) s) \<subseteq> insert (so_order_id order) (ladder_ids (S s))"
  by (auto simp: spec_finish_def spec_rest_def Let_def ladder_ids_insert split: prod.splits bool.splits if_splits)

lemma spec_submit_ids:
  "ladder_ids (fst (spec_submit c order S) s) \<subseteq> insert (so_order_id order) (ladder_ids (S s))"
proof -
  let ?o = "opposite (so_side order)"
  obtain L' fills remaining exit where out: "spec_outcome c order S = (L', fills, remaining, exit)"
    using prod_cases4 by blast
  have "ladder_ids ((S(?o := L')) s) \<subseteq> ladder_ids (S s)"
    using spec_match_ids [OF out [unfolded spec_outcome_def]] by auto
  then show ?thesis
    using out spec_finish_ids [of c order remaining "S(?o := L')" _ s]
    by (auto simp: spec_submit_def Let_def split: loop_exit.splits)
qed

lemma flatten_ladder_ids: "(maker, px, r) \<in> set (flatten_ladder L) \<Longrightarrow> so_order_id maker \<in> ladder_ids L"
  by (force simp: flatten_ladder_def ladder_ids_def)

lemma takes_in_priority_ids:
  assumes "takes_in_priority L fills L'" "(maker, px, qty) \<in> set fills"
  shows "so_order_id maker \<in> ladder_ids L"
proof -
  have "\<exists>r. (maker, px, r) \<in> set (flatten_ladder L)"
    using assms unfolding takes_in_priority_def by auto
  then show ?thesis using flatten_ladder_ids by blast
qed

lemma process_order_ids:
  assumes "book_inv fixed_config b" "\<And>s. ladder_ids (ladder b s) \<subseteq> ids"
  obtains b' fills where "process_order order b = Some (b', map (fill_trade order) fills)" "book_inv fixed_config b'"
    "\<And>s. ladder_ids (ladder b' s) \<subseteq> insert (lo_id order) ids"
    "\<forall>(maker, px, qty)\<in>set fills. crosses (lo_side order) (lo_price order) px \<and> so_order_id maker \<in> ids"
    "fills_total fills \<le> unat (lo_quantity order)"
    "takes_in_priority (ladder b (opposite (lo_side order))) fills (ladder b' (opposite (lo_side order)))"
proof -
  obtain b' fills where p: "process_order order b = Some (b', map (fill_trade order) fills)" "book_inv fixed_config b'"
      "takes_in_priority (ladder b (opposite (lo_side order))) fills (ladder b' (opposite (lo_side order)))"
      "\<forall>(maker, px, qty)\<in>set fills. crosses (lo_side order) (lo_price order) px"
      "fills_total fills \<le> unat (lo_quantity order)"
      "ladder b' = fst (spec_submit fixed_config (fixed_order (lo_id order) (lo_side order) (lo_price order) (lo_quantity order) (lo_timestamp order) GTC) (ladder b))"
    using process_order_match [OF assms(1), of order] by blast
  have "ladder_ids (ladder b' s) \<subseteq> insert (lo_id order) ids" for s
    unfolding p(6) using spec_submit_ids assms(2) by fastforce
  moreover have "so_order_id maker \<in> ids" if "(maker, px, qty) \<in> set fills" for maker px qty
    using takes_in_priority_ids [OF p(3) that] assms(2) by blast
  ultimately show thesis using that p by blast
qed

subsection \<open>Files of orders\<close>

fun process_orders :: "lob_order list \<Rightarrow> matching_book \<Rightarrow> (matching_book \<times> trade list list) option" where
  "process_orders [] b = Some (b, [])"
| "process_orders (order # orders) b =
     (case process_order order b of None \<Rightarrow> None
      | Some (b, trades) \<Rightarrow>
          (case process_orders orders b of None \<Rightarrow> None | Some (b, tss) \<Rightarrow> Some (b, trades # tss)))"

text \<open>The trades of an order that arrives after the orders with these numbers.\<close>

definition fair_trades :: "u64 set \<Rightarrow> lob_order \<Rightarrow> trade list \<Rightarrow> bool" where
  "fair_trades ids order trades \<longleftrightarrow>
     sum_list (map (\<lambda>t. unat (tr_quantity t)) trades) \<le> unat (lo_quantity order)
     \<and> (\<forall>t\<in>set trades. tr_taker_order_id t = lo_id order \<and> tr_timestamp t = lo_timestamp order
          \<and> (if lo_side order = Buy
             then tr_buyer_id t = lo_id order \<and> tr_seller_id t \<in> ids \<and> tr_price t \<le> lo_price order
             else tr_seller_id t = lo_id order \<and> tr_buyer_id t \<in> ids \<and> lo_price order \<le> tr_price t))"

lemma fair_fills:
  assumes "\<forall>(maker, px, qty)\<in>set fills. crosses (lo_side order) (lo_price order) px \<and> so_order_id maker \<in> ids"
    "fills_total fills \<le> unat (lo_quantity order)"
  shows "fair_trades ids order (map (fill_trade order) fills)"
proof -
  have "map (\<lambda>t. unat (tr_quantity t)) (map (fill_trade order) fills) = map (\<lambda>(maker, px, qty). unat qty) fills"
    by (auto simp: fill_trade_def)
  then have "sum_list (map (\<lambda>t. unat (tr_quantity t)) (map (fill_trade order) fills)) \<le> unat (lo_quantity order)"
    using assms(2) unfolding fills_total_def by (simp only:)
  then show ?thesis
    using assms(1) unfolding fair_trades_def by (auto simp: fill_trade_def crosses_def split: if_splits)
qed

lemma process_orders_fair:
  "book_inv fixed_config b \<Longrightarrow> (\<And>s. ladder_ids (ladder b s) \<subseteq> ids) \<Longrightarrow>
     \<exists>b' tss. process_orders orders b = Some (b', tss) \<and> book_inv fixed_config b' \<and> length tss = length orders
       \<and> (\<forall>i<length orders. fair_trades (ids \<union> lo_id ` set (take i orders)) (orders ! i) (tss ! i))"
proof (induction orders arbitrary: b ids)
  case (Cons order orders)
  obtain b1 fills where p: "process_order order b = Some (b1, map (fill_trade order) fills)" "book_inv fixed_config b1"
    "\<And>s. ladder_ids (ladder b1 s) \<subseteq> insert (lo_id order) ids" "fair_trades ids order (map (fill_trade order) fills)"
    using process_order_ids [OF Cons.prems] fair_fills by metis
  obtain b' tss where rest: "process_orders orders b1 = Some (b', tss)" "book_inv fixed_config b'" "length tss = length orders"
    "\<forall>i<length orders. fair_trades (insert (lo_id order) ids \<union> lo_id ` set (take i orders)) (orders ! i) (tss ! i)"
    using Cons.IH [OF p(2,3)] by blast
  have "fair_trades (ids \<union> lo_id ` set (take i (order # orders))) ((order # orders) ! i) ((map (fill_trade order) fills # tss) ! i)"
    if "i < length (order # orders)" for i
    using that rest(4) p(4) by (cases i) auto
  then show ?case using p(1) rest by simp
qed simp

text \<open>C32: A file of orders trades fairly. Whatever orders a file brings, in whatever order of
  times and with whatever numbers, the fixed book processes all of them; the trades of each
  order name it as the taker, at its time, on its side, never at a price worse than its own,
  never for more than its quantity in all, and always against an order that came earlier in
  the file; the book stays well-formed.\<close>
theorem file_orders_trade_fairly:
  "\<exists>b tss. process_orders orders (new_book fixed_config) = Some (b, tss) \<and> length tss = length orders
    \<and> book_inv fixed_config b
    \<and> list_all (\<lambda>i. fair_trades (lo_id ` set (take i orders)) (orders ! i) (tss ! i)) [0..<length orders]"
proof -
  have "ladder_ids (ladder (new_book fixed_config) s) \<subseteq> {}" for s
    by (simp add: new_book_inv(2) ladder_ids_def)
  from process_orders_fair [OF new_book_inv(1) this, of orders] show ?thesis
    by (auto simp: list_all_iff)
qed

end
