(* ===== verification/BacktestEngine.thy ===== *)
theory BacktestEngine
  imports FixedBook PendingHeapProperties
begin

section \<open>The order-by-order backtest engine\<close>

text \<open>
  \<open>BacktestEngine\<close> of \<open>include/lob/backtest_engine.hpp\<close> and \<open>src/backtest_engine.cpp\<close>. It
  replays a file of orders through the fixed matching book and lets one strategy trade
  against it: the strategy's orders wait for a latency in a heap, then take what crosses
  their limit, without removing it, and rest beside the book with the volume ahead of
  them, to be filled by later market orders at their price.

  A strategy computes on its own memory and acts through the gateway alone, so a
  callback is a tree of gateway calls that ends in a new memory; which tree it runs is
  the parameter \<open>bt_strategy\<close>. The draws of the standard library's distributions are the
  parameters \<open>exponential_draw\<close> and \<open>lognormal_draw\<close>, by their number. The file is the list of its
  orders, which \<open>CsvParser\<close> models; the trace log, an output file, is left out. The
  capacity of the heap and of the array of live orders, 16384 in the code, is
  \<open>order_slots\<close>.
\<close>

record strategy_fill =
  sf_order_id :: u64
  sf_price :: int
  sf_quantity :: u64
  sf_timestamp :: u64
  sf_asset_id :: asset_id
  sf_side :: side
  sf_role :: liquidity_role

datatype 'm strategy_action =
    Done 'm
  | Place asset_id side double u64 u64 "u64 \<Rightarrow> 'm strategy_action"
  | Withdraw asset_id u64 "bool \<Rightarrow> 'm strategy_action"
  | Ask_time "u64 \<Rightarrow> 'm strategy_action"

datatype strategy_signal = Strategy_start | Strategy_tick asset_id matching_book | Strategy_fill strategy_fill

datatype jitter_distribution = No_jitter | Exponential_jitter | Lognormal_jitter

record 'm backtest =
  bt_fp :: backtest_fp
  order_slots :: nat
  initial_cash :: double
  equity_sample_interval_ns :: u64
  maker_fee_bps :: double
  taker_fee_bps :: double
  bt_base_latency_ns :: u64
  jitter_distribution :: jitter_distribution
  jitter_mean_ns :: double
  jitter_sigma :: double
  exponential_draw :: "nat \<Rightarrow> double"
  lognormal_draw :: "nat \<Rightarrow> double"
  bt_strategy :: "strategy_signal \<Rightarrow> 'm \<Rightarrow> 'm strategy_action"

datatype pending_command = Submit_command | Cancel_command

record pending_order =
  po_type :: pending_command
  po_asset_id :: asset_id
  po_release_time_ns :: u64
  po_order_id :: u64
  po_side :: side
  po_price :: int
  po_quantity :: u64

record live_order =
  vo_asset_id :: asset_id
  vo_order_id :: u64
  vo_side :: side
  vo_price :: int
  vo_remaining_quantity :: u64
  vo_volume_ahead :: u64
  vo_active :: bool
  vo_canceled :: bool

record market_snapshot =
  ms_ts :: u64
  ms_asset :: u32
  ms_bid_p :: double
  ms_bid_q :: double
  ms_ask_p :: double
  ms_ask_q :: double

record execution_diagnostics =
  maker_fills_count :: u64
  taker_fills_count :: u64
  maker_volume :: double
  taker_volume :: double
  maker_notional :: double
  taker_notional :: double

record 'm bt_engine =
  be_book :: matching_book
  be_snapshot :: market_snapshot
  be_pending :: "pending_order slot_heap"
  be_trades :: "trade list"
  be_live :: "live_order list"
  be_equity_curve :: "double list"
  be_draws :: nat
  be_next_order_id :: u64
  be_next_sample :: u64
  be_time :: u64
  be_dropped :: u64
  be_execution :: execution_diagnostics
  be_cash :: double
  be_position :: int
  be_memory :: 'm

record replay_stats =
  rs_orders_processed :: u64
  rs_generated_trades :: u64
  rs_first_timestamp :: u64
  rs_last_timestamp :: u64

definition first_strategy_order_id :: u64 where "first_strategy_order_id = 0x8000000000000000"
definition ns_per_ms :: u64 where "ns_per_ms = 1000000"
definition dbl_basis_point :: double where "dbl_basis_point = 0x3F1A36E2EB1C432D"

definition no_snapshot :: market_snapshot where
  "no_snapshot = \<lparr>ms_ts = 0, ms_asset = 0, ms_bid_p = dbl_zero, ms_bid_q = dbl_zero, ms_ask_p = dbl_zero, ms_ask_q = dbl_zero\<rparr>"

definition no_execution :: execution_diagnostics where
  "no_execution = \<lparr>maker_fills_count = 0, taker_fills_count = 0, maker_volume = dbl_zero, taker_volume = dbl_zero,
     maker_notional = dbl_zero, taker_notional = dbl_zero\<rparr>"

definition no_pending_order :: pending_order where
  "no_pending_order = \<lparr>po_type = Submit_command, po_asset_id = 0, po_release_time_ns = 0, po_order_id = 0,
     po_side = Buy, po_price = 0, po_quantity = 0\<rparr>"

definition new_bt_engine :: "'m backtest \<Rightarrow> 'm \<Rightarrow> 'm bt_engine" where
  "new_bt_engine bt mem = \<lparr>be_book = new_book fixed_config, be_snapshot = no_snapshot,
     be_pending = new_slot_heap (order_slots bt) no_pending_order, be_trades = [], be_live = [],
     be_equity_curve = [], be_draws = 0, be_next_order_id = first_strategy_order_id, be_next_sample = 0,
     be_time = 0, be_dropped = 0, be_execution = no_execution, be_cash = initial_cash bt, be_position = 0,
     be_memory = mem\<rparr>"

subsection \<open>Conversions\<close>

definition quantity_to_units :: "'m backtest \<Rightarrow> u64 \<Rightarrow> double" where
  "quantity_to_units bt q = fp_div (bt_fp bt) (fp_of_u64 (bt_fp bt) q) dbl_scale"

definition position_to_units :: "'m backtest \<Rightarrow> int \<Rightarrow> double" where
  "position_to_units bt p = fp_div (bt_fp bt) (fp_of_i64 (bt_fp bt) p) dbl_scale"

definition snapshot_mid_price :: "'m backtest \<Rightarrow> market_snapshot \<Rightarrow> double" where
  "snapshot_mid_price bt s =
     (if is_positive (ms_bid_p s) \<and> is_positive (ms_ask_p s)
      then fp_mul (bt_fp bt) (fp_add (bt_fp bt) (ms_bid_p s) (ms_ask_p s)) dbl_half
      else if is_positive (ms_bid_p s) then ms_bid_p s else ms_ask_p s)"

definition fp_sub :: "'m backtest \<Rightarrow> double \<Rightarrow> double \<Rightarrow> double" where
  "fp_sub bt x y = fp_add (bt_fp bt) x (fp_neg (bt_fp bt) y)"

definition current_equity :: "'m backtest \<Rightarrow> 'm bt_engine \<Rightarrow> double" where
  "current_equity bt en = fp_add (bt_fp bt) (be_cash en)
     (fp_mul (bt_fp bt) (position_to_units bt (be_position en)) (snapshot_mid_price bt (be_snapshot en)))"

subsection \<open>Latency\<close>

text \<open>The cast of a finite positive draw; a distribution is only asked when it is configured.\<close>

definition sample_latency_ns :: "'m backtest \<Rightarrow> 'm bt_engine \<Rightarrow> 'm bt_engine \<times> u64" where
  "sample_latency_ns bt en =
     (let k = be_draws en; drawn = en\<lparr>be_draws := Suc k\<rparr>; base = bt_base_latency_ns bt in
      case jitter_distribution bt of
        No_jitter \<Rightarrow> (en, base)
      | Exponential_jitter \<Rightarrow>
          if is_positive (jitter_mean_ns bt)
          then (drawn, base + of_nat (dbl_truncate (exponential_draw bt k))) else (en, base)
      | Lognormal_jitter \<Rightarrow>
          if is_positive (jitter_sigma bt)
          then (drawn, base + of_nat (dbl_truncate (lognormal_draw bt k))) else (en, base))"

subsection \<open>The live orders\<close>

definition find_live :: "u64 \<Rightarrow> 'm bt_engine \<Rightarrow> nat option" where
  "find_live order_id en = find (\<lambda>i. vo_order_id (be_live en ! i) = order_id) [0..<length (be_live en)]"

definition is_strategy_order :: "u64 \<Rightarrow> 'm bt_engine \<Rightarrow> bool" where
  "is_strategy_order order_id en \<longleftrightarrow> find_live order_id en \<noteq> None"

definition add_live_order :: "'m backtest \<Rightarrow> live_order \<Rightarrow> 'm bt_engine \<Rightarrow> 'm bt_engine \<times> bool" where
  "add_live_order bt o' en =
     (if length (be_live en) = order_slots bt then (en, False) else (en\<lparr>be_live := be_live en @ [o']\<rparr>, True))"

text \<open>The last entry moves into the gap.\<close>

definition erase_live_order :: "nat \<Rightarrow> 'm bt_engine \<Rightarrow> 'm bt_engine" where
  "erase_live_order i en =
     (if length (be_live en) \<le> i then en
      else en\<lparr>be_live := (butlast (be_live en))[i := last (be_live en)]\<rparr>)"

definition erase_live :: "u64 \<Rightarrow> 'm bt_engine \<Rightarrow> 'm bt_engine" where
  "erase_live order_id en = (case find_live order_id en of None \<Rightarrow> en | Some i \<Rightarrow> erase_live_order i en)"

definition upd_live :: "nat \<Rightarrow> (live_order \<Rightarrow> live_order) \<Rightarrow> 'm bt_engine \<Rightarrow> 'm bt_engine" where
  "upd_live i f en = en\<lparr>be_live := (be_live en)[i := f (be_live en ! i)]\<rparr>"

definition is_aggressive :: "live_order \<Rightarrow> 'm bt_engine \<Rightarrow> bool" where
  "is_aggressive o' en =
     (if vo_side o' = Buy
      then 0 < best_ask_ticks (be_book en) \<and> best_ask_ticks (be_book en) \<le> vo_price o'
      else 0 < best_bid_ticks (be_book en) \<and> vo_price o' \<le> best_bid_ticks (be_book en))"

subsection \<open>The gateway\<close>

definition bt_submit_order ::
  "'m backtest \<Rightarrow> asset_id \<Rightarrow> side \<Rightarrow> double \<Rightarrow> u64 \<Rightarrow> 'm bt_engine \<Rightarrow> 'm bt_engine \<times> u64" where
  "bt_submit_order bt asset sd price quantity en =
     (let oid = be_next_order_id en; en = en\<lparr>be_next_order_id := oid + 1\<rparr> in
      if quantity = 0 then (en, oid)
      else
        let ticks = price_to_ticks (bt_fp bt) price;
            (en, latency) = sample_latency_ns bt en;
            release_time_ns = be_time en + latency
        in case add_live_order bt \<lparr>vo_asset_id = asset, vo_order_id = oid, vo_side = sd, vo_price = ticks,
               vo_remaining_quantity = quantity, vo_volume_ahead = 0, vo_active = False, vo_canceled = False\<rparr> en of
             (en, False) \<Rightarrow> (en\<lparr>be_dropped := be_dropped en + 1\<rparr>, oid)
           | (en, True) \<Rightarrow>
               (case slot_push po_release_time_ns \<lparr>po_type = Submit_command, po_asset_id = asset,
                    po_release_time_ns = release_time_ns, po_order_id = oid, po_side = sd, po_price = ticks,
                    po_quantity = quantity\<rparr> (be_pending en) of
                  (pending, True) \<Rightarrow> (en\<lparr>be_pending := pending\<rparr>, oid)
                | (pending, False) \<Rightarrow>
                    (let en = erase_live oid (en\<lparr>be_pending := pending\<rparr>)
                     in (en\<lparr>be_dropped := be_dropped en + 1\<rparr>, oid))))"

definition bt_cancel_order :: "'m backtest \<Rightarrow> asset_id \<Rightarrow> u64 \<Rightarrow> 'm bt_engine \<Rightarrow> 'm bt_engine \<times> bool" where
  "bt_cancel_order bt asset order_id en =
     (let (en, latency) = sample_latency_ns bt en in
      case slot_push po_release_time_ns (no_pending_order\<lparr>po_type := Cancel_command, po_asset_id := asset,
          po_release_time_ns := be_time en + latency, po_order_id := order_id\<rparr>) (be_pending en) of
        (pending, True) \<Rightarrow> (en\<lparr>be_pending := pending\<rparr>, True)
      | (pending, False) \<Rightarrow> (en\<lparr>be_pending := pending, be_dropped := be_dropped en + 1\<rparr>, False))"

definition bt_current_timestamp :: "'m bt_engine \<Rightarrow> u64" where
  "bt_current_timestamp en = ms_ts (be_snapshot en)"

primrec run_strategy :: "'m backtest \<Rightarrow> 'm strategy_action \<Rightarrow> 'm bt_engine \<Rightarrow> 'm bt_engine" where
  "run_strategy bt (Done mem) = (\<lambda>en. en\<lparr>be_memory := mem\<rparr>)"
| "run_strategy bt (Place asset sd price quantity t k) =
     (\<lambda>en. case bt_submit_order bt asset sd price quantity en of (en, oid) \<Rightarrow> run_strategy bt (k oid) en)"
| "run_strategy bt (Withdraw asset oid k) =
     (\<lambda>en. case bt_cancel_order bt asset oid en of (en, ok) \<Rightarrow> run_strategy bt (k ok) en)"
| "run_strategy bt (Ask_time k) = (\<lambda>en. run_strategy bt (k (bt_current_timestamp en)) en)"

definition call_strategy :: "'m backtest \<Rightarrow> strategy_signal \<Rightarrow> 'm bt_engine \<Rightarrow> 'm bt_engine" where
  "call_strategy bt signal en = run_strategy bt (bt_strategy bt signal (be_memory en)) en"

subsection \<open>Fills\<close>

definition fill_notional :: "'m backtest \<Rightarrow> strategy_fill \<Rightarrow> double" where
  "fill_notional bt f = fp_mul (bt_fp bt) (fp_div (bt_fp bt) (fp_of_i64 (bt_fp bt) (sf_price f)) dbl_scale)
     (quantity_to_units bt (sf_quantity f))"

definition fill_fee :: "'m backtest \<Rightarrow> strategy_fill \<Rightarrow> double" where
  "fill_fee bt f = fp_mul (bt_fp bt) (fp_mul (bt_fp bt) (fill_notional bt f)
     (if sf_role f = Maker then maker_fee_bps bt else taker_fee_bps bt)) dbl_basis_point"

definition count_fill :: "'m backtest \<Rightarrow> strategy_fill \<Rightarrow> execution_diagnostics \<Rightarrow> execution_diagnostics" where
  "count_fill bt f x =
     (let units = quantity_to_units bt (sf_quantity f); notional = fill_notional bt f in
      if sf_role f = Maker
      then x\<lparr>maker_fills_count := maker_fills_count x + 1, maker_volume := fp_add (bt_fp bt) (maker_volume x) units,
             maker_notional := fp_add (bt_fp bt) (maker_notional x) notional\<rparr>
      else x\<lparr>taker_fills_count := taker_fills_count x + 1, taker_volume := fp_add (bt_fp bt) (taker_volume x) units,
             taker_notional := fp_add (bt_fp bt) (taker_notional x) notional\<rparr>)"

definition reduce_live :: "strategy_fill \<Rightarrow> 'm bt_engine \<Rightarrow> 'm bt_engine" where
  "reduce_live f en =
     (case find_live (sf_order_id f) en of
        None \<Rightarrow> en
      | Some i \<Rightarrow>
          let r = vo_remaining_quantity (be_live en ! i);
              left = (if sf_quantity f < r then r - sf_quantity f else 0);
              en = upd_live i (\<lambda>o'. o'\<lparr>vo_remaining_quantity := left\<rparr>) en
          in if left = 0 then erase_live_order i en else en)"

definition settle_strategy_fill :: "'m backtest \<Rightarrow> strategy_fill \<Rightarrow> 'm bt_engine \<Rightarrow> 'm bt_engine" where
  "settle_strategy_fill bt f en =
     (if sf_side f = Buy
      then en\<lparr>be_cash := fp_sub bt (fp_sub bt (be_cash en) (fill_notional bt f)) (fill_fee bt f),
              be_position := be_position en + sint (sf_quantity f)\<rparr>
      else en\<lparr>be_cash := fp_sub bt (fp_add (bt_fp bt) (be_cash en) (fill_notional bt f)) (fill_fee bt f),
              be_position := be_position en - sint (sf_quantity f)\<rparr>)"

definition route_strategy_fill :: "'m backtest \<Rightarrow> strategy_fill \<Rightarrow> 'm bt_engine \<Rightarrow> 'm bt_engine" where
  "route_strategy_fill bt f en =
     call_strategy bt (Strategy_fill f) (settle_strategy_fill bt f
       (reduce_live f (en\<lparr>be_execution := count_fill bt f (be_execution en)\<rparr>)))"

definition trade_fill :: "trade \<Rightarrow> side \<Rightarrow> strategy_fill" where
  "trade_fill t sd =
     (let oid = (if sd = Buy then tr_buyer_id t else tr_seller_id t) in
      \<lparr>sf_order_id = oid, sf_price = tr_price t, sf_quantity = tr_quantity t, sf_timestamp = tr_timestamp t,
       sf_asset_id = 0, sf_side = sd, sf_role = (if oid = tr_taker_order_id t then Taker else Maker)\<rparr>)"

definition own_fills :: "'m bt_engine \<Rightarrow> trade \<Rightarrow> strategy_fill list" where
  "own_fills en t =
     (if is_strategy_order (tr_buyer_id t) en then [trade_fill t Buy] else [])
     @ (if is_strategy_order (tr_seller_id t) en then [trade_fill t Sell] else [])"

definition route_trades :: "'m backtest \<Rightarrow> trade list \<Rightarrow> 'm bt_engine \<Rightarrow> 'm bt_engine" where
  "route_trades bt trades en = fold (route_strategy_fill bt) (concat (map (own_fills en) trades)) en"

subsection \<open>Taking from the book\<close>

definition taker_fill :: "live_order \<Rightarrow> u64 \<Rightarrow> int \<Rightarrow> u64 \<Rightarrow> strategy_fill" where
  "taker_fill o' timestamp price quantity =
     \<lparr>sf_order_id = vo_order_id o', sf_price = price, sf_quantity = quantity, sf_timestamp = timestamp,
      sf_asset_id = vo_asset_id o', sf_side = vo_side o', sf_role = Taker\<rparr>"

text \<open>One level of a sweep; \<open>o'\<close> is the order as it was when the sweep began.\<close>

definition sweep_level ::
  "'m backtest \<Rightarrow> live_order \<Rightarrow> u64 \<Rightarrow> int \<Rightarrow> u64 \<Rightarrow> 'm bt_engine \<Rightarrow> 'm bt_engine \<times> bool" where
  "sweep_level bt o' timestamp price level_quantity en =
     (case find_live (vo_order_id o') en of
        None \<Rightarrow> (en, False)
      | Some i \<Rightarrow>
          if \<not> crosses (vo_side o') (vo_price o') price then (en, False)
          else
            let quantity = min level_quantity (vo_remaining_quantity (be_live en ! i));
                en = route_strategy_fill bt (taker_fill o' timestamp price quantity) en
            in (en, find_live (vo_order_id o') en \<noteq> None))"

definition sweep_book :: "'m backtest \<Rightarrow> live_order \<Rightarrow> u64 \<Rightarrow> 'm bt_engine \<Rightarrow> 'm bt_engine" where
  "sweep_book bt o' timestamp en =
     (if vo_remaining_quantity o' = 0 then en
      else fixed_for_each_level (be_book en) (opposite (vo_side o')) (sweep_level bt o' timestamp) en)"

text \<open>
  The price of a live order is in ticks, and \<open>get_total_quantity_at_price\<close> takes a
  price as a double: the ticks are converted to a double and then to ticks again.
\<close>

definition observed_quantity :: "'m backtest \<Rightarrow> live_order \<Rightarrow> 'm bt_engine \<Rightarrow> u64" where
  "observed_quantity bt o' en =
     get_total_quantity_at_price (bt_fp bt) (be_book en) (vo_side o') (fp_of_i64 (bt_fp bt) (vo_price o'))"

definition execute_pending_order :: "'m backtest \<Rightarrow> pending_order \<Rightarrow> 'm bt_engine \<Rightarrow> 'm bt_engine" where
  "execute_pending_order bt pending en =
     (let en = en\<lparr>be_trades := []\<rparr> in
      case find_live (po_order_id pending) en of
        None \<Rightarrow> en
      | Some i \<Rightarrow>
          let o' = be_live en ! i in
          if po_type pending = Cancel_command
          then (if \<not> vo_active o' then upd_live i (\<lambda>x. x\<lparr>vo_canceled := True\<rparr>) en else erase_live_order i en)
          else if vo_canceled o' then erase_live_order i en
          else
            let en = (if is_aggressive o' en then sweep_book bt o' (po_release_time_ns pending) en else en) in
            case find_live (po_order_id pending) en of
              None \<Rightarrow> en
            | Some j \<Rightarrow> upd_live j (\<lambda>x. x\<lparr>vo_active := True, vo_volume_ahead := observed_quantity bt x en\<rparr>) en)"

partial_function (option) release_pending ::
  "'m backtest \<Rightarrow> u64 \<Rightarrow> 'm bt_engine \<Rightarrow> ('m bt_engine \<times> u64) option" where
  "release_pending bt now en =
     (if slot_indices (be_pending en) = [] then Some (en, 0)
      else
        let pending = slot_top (be_pending en) in
        if now < po_release_time_ns pending then Some (en, 0)
        else
          let en = execute_pending_order bt pending (en\<lparr>be_pending := slot_pop po_release_time_ns (be_pending en)\<rparr>) in
          Option.bind (release_pending bt now en) (\<lambda>(en', n). Some (en', of_nat (length (be_trades en)) + n)))"

subsection \<open>Filled by the market\<close>

definition maker_fill :: "live_order \<Rightarrow> u64 \<Rightarrow> u64 \<Rightarrow> strategy_fill" where
  "maker_fill o' timestamp quantity =
     \<lparr>sf_order_id = vo_order_id o', sf_price = vo_price o', sf_quantity = quantity, sf_timestamp = timestamp,
      sf_asset_id = vo_asset_id o', sf_side = vo_side o', sf_role = Maker\<rparr>"

definition can_fill :: "lob_order \<Rightarrow> live_order \<Rightarrow> bool" where
  "can_fill market o' \<longleftrightarrow> vo_active o' \<and> \<not> vo_canceled o' \<and> vo_side o' \<noteq> lo_side market \<and> vo_price o' = lo_price market"

text \<open>What is left of a market order for a live order, once the volume ahead has had its share.\<close>

definition after_queue :: "live_order \<Rightarrow> u64 \<Rightarrow> u64" where
  "after_queue o' left = left - vo_volume_ahead o'"

lemma after_queue_less:
  assumes "0 < left" "\<not> left \<le> vo_volume_ahead o'"
  shows "unat (after_queue o' left) \<le> unat left"
    "min r (after_queue o' left) \<noteq> 0 \<Longrightarrow> unat (after_queue o' left - min r (after_queue o' left)) < unat left"
proof -
  show le: "unat (after_queue o' left) \<le> unat left"
    using assms(2) by (simp add: after_queue_def unat_sub)
  assume "min r (after_queue o' left) \<noteq> 0"
  then have "0 < unat (min r (after_queue o' left))" by (simp add: unat_gt_0)
  moreover have "unat (after_queue o' left - min r (after_queue o' left))
      = unat (after_queue o' left) - unat (min r (after_queue o' left))"
    by (rule unat_sub) simp
  moreover have "unat (min r (after_queue o' left)) \<le> unat (after_queue o' left)"
    using word_le_nat_alt min.cobounded2 by blast
  ultimately show "unat (after_queue o' left - min r (after_queue o' left)) < unat left" using le by linarith
qed

function passive_queue :: "'m backtest \<Rightarrow> lob_order \<Rightarrow> u64 \<Rightarrow> nat \<Rightarrow> 'm bt_engine \<Rightarrow> 'm bt_engine" where
  "passive_queue bt market left i en =
     (if i < length (be_live en) \<and> 0 < left then
        if \<not> can_fill market (be_live en ! i) then passive_queue bt market left (Suc i) en
        else if left \<le> vo_volume_ahead (be_live en ! i)
        then upd_live i (\<lambda>x. x\<lparr>vo_volume_ahead := vo_volume_ahead x - left\<rparr>) en
        else if min (vo_remaining_quantity (be_live en ! i)) (after_queue (be_live en ! i) left) = 0
        then passive_queue bt market (after_queue (be_live en ! i) left) (Suc i)
               (upd_live i (\<lambda>x. x\<lparr>vo_volume_ahead := 0\<rparr>) en)
        else
          let left' = after_queue (be_live en ! i) left;
              quantity = min (vo_remaining_quantity (be_live en ! i)) left';
              en' = route_strategy_fill bt (maker_fill (be_live en ! i) (lo_timestamp market) quantity)
                (upd_live i (\<lambda>x. x\<lparr>vo_volume_ahead := 0\<rparr>) en)
          in passive_queue bt market (left' - quantity)
               (case find_live (vo_order_id (be_live en ! i)) en' of None \<Rightarrow> 0 | Some j \<Rightarrow> Suc i) en'
      else en)"
  by pat_completeness auto

termination
proof (relation "measures [\<lambda>(bt, market, left, i, en). unat left, \<lambda>(bt, market, left, i, en). length (be_live en) - i]", goal_cases)
  case (3 bt market left i en)
  then have "unat (after_queue (be_live en ! i) left) \<le> unat left" using after_queue_less(1) by blast
  then show ?case using 3 by (auto simp: upd_live_def)
next
  case (4 bt market left i en)
  then show ?case using after_queue_less(2) by auto
qed auto

declare passive_queue.simps [simp del]

definition limit_volume_ahead :: "'m backtest \<Rightarrow> 'm bt_engine \<Rightarrow> live_order \<Rightarrow> live_order" where
  "limit_volume_ahead bt en o' =
     (if \<not> vo_active o' \<or> vo_canceled o' then o'
      else
        let modeled_total = observed_quantity bt o' en + vo_remaining_quantity o';
            max_volume_ahead = (if vo_remaining_quantity o' < modeled_total
              then modeled_total - vo_remaining_quantity o' else 0)
        in if max_volume_ahead < vo_volume_ahead o' then o'\<lparr>vo_volume_ahead := max_volume_ahead\<rparr> else o')"

definition apply_pessimistic_volume_update :: "'m backtest \<Rightarrow> 'm bt_engine \<Rightarrow> 'm bt_engine" where
  "apply_pessimistic_volume_update bt en = en\<lparr>be_live := map (limit_volume_ahead bt en) (be_live en)\<rparr>"

definition process_market_order :: "'m backtest \<Rightarrow> lob_order \<Rightarrow> 'm bt_engine \<Rightarrow> 'm bt_engine option" where
  "process_market_order bt order en =
     (case process_order order (be_book en) of
        None \<Rightarrow> None
      | Some (book, trades) \<Rightarrow>
          Some (apply_pessimistic_volume_update bt
            (passive_queue bt order (lo_quantity order) 0 (en\<lparr>be_book := book, be_trades := trades\<rparr>))))"


subsection \<open>The run\<close>

definition record_equity :: "'m backtest \<Rightarrow> 'm bt_engine \<Rightarrow> 'm bt_engine" where
  "record_equity bt en = en\<lparr>be_equity_curve := be_equity_curve en @ [current_equity bt en]\<rparr>"

partial_function (option) equity_samples :: "'m backtest \<Rightarrow> u64 \<Rightarrow> 'm bt_engine \<Rightarrow> 'm bt_engine option" where
  "equity_samples bt timestamp en =
     (if timestamp < be_next_sample en then Some en
      else equity_samples bt timestamp
        (record_equity bt en\<lparr>be_next_sample := be_next_sample en + equity_sample_interval_ns bt\<rparr>))"

definition sample_equity :: "'m backtest \<Rightarrow> u64 \<Rightarrow> 'm bt_engine \<Rightarrow> 'm bt_engine option" where
  "sample_equity bt timestamp en =
     (if is_at_most_zero (snapshot_mid_price bt (be_snapshot en)) \<or> equity_sample_interval_ns bt = 0 then Some en
      else equity_samples bt timestamp en)"

definition update_snapshot :: "'m backtest \<Rightarrow> u64 \<Rightarrow> int \<Rightarrow> 'm bt_engine \<Rightarrow> 'm bt_engine" where
  "update_snapshot bt timestamp fallback_price_ticks en =
     (let b = be_book en; best_bid = best_bid_ticks b; best_ask = best_ask_ticks b;
          s = \<lparr>ms_ts = timestamp, ms_asset = 0,
               ms_bid_p = (if 0 < best_bid then ticks_to_price (bt_fp bt) best_bid else dbl_zero),
               ms_bid_q = (if 0 < best_bid then quantity_to_units bt (quantity_at_ticks b Buy best_bid) else dbl_zero),
               ms_ask_p = (if 0 < best_ask then ticks_to_price (bt_fp bt) best_ask else dbl_zero),
               ms_ask_q = (if 0 < best_ask then quantity_to_units bt (quantity_at_ticks b Sell best_ask) else dbl_zero)\<rparr>;
          fallback = ticks_to_price (bt_fp bt) fallback_price_ticks
      in en\<lparr>be_snapshot := (if is_at_most_zero (snapshot_mid_price bt s)
           then s\<lparr>ms_bid_p := fallback, ms_ask_p := fallback\<rparr> else s)\<rparr>)"

text \<open>What happens at one order of the file.\<close>

definition count_trades :: "u64 \<Rightarrow> replay_stats \<Rightarrow> replay_stats" where
  "count_trades n stats = stats\<lparr>rs_generated_trades := rs_generated_trades stats + n\<rparr>"

definition begin_order :: "lob_order \<Rightarrow> 'm bt_engine \<Rightarrow> replay_stats \<Rightarrow> 'm bt_engine \<times> replay_stats" where
  "begin_order order en stats =
     (let now = lo_timestamp order * ns_per_ms;
          first = (rs_first_timestamp stats = 0)
      in (en\<lparr>be_next_sample := (if first then now else be_next_sample en), be_time := now\<rparr>,
          stats\<lparr>rs_first_timestamp := (if first then lo_timestamp order else rs_first_timestamp stats),
                rs_last_timestamp := lo_timestamp order\<rparr>))"

definition replay_order ::
  "'m backtest \<Rightarrow> lob_order \<Rightarrow> 'm bt_engine \<Rightarrow> replay_stats \<Rightarrow> ('m bt_engine \<times> replay_stats) option" where
  "replay_order bt order en stats =
     (let (en, stats) = begin_order order en stats; now = be_time en;
          en = update_snapshot bt now (lo_price order) en
      in do {
        (en, n) \<leftarrow> release_pending bt now en;
        en \<leftarrow> process_market_order bt (order\<lparr>lo_timestamp := now\<rparr>) en;
        let m = of_nat (length (be_trades en));
        let en = update_snapshot bt now (lo_price order) en;
        let en = route_trades bt (be_trades en) en;
        let en = call_strategy bt (Strategy_tick 0 (be_book en)) en;
        (en, l) \<leftarrow> release_pending bt now en;
        en \<leftarrow> sample_equity bt now en;
        Some (en, count_trades l (count_trades m (count_trades n stats)))
      })"

fun replay_orders ::
  "'m backtest \<Rightarrow> lob_order list \<Rightarrow> 'm bt_engine \<Rightarrow> replay_stats \<Rightarrow> ('m bt_engine \<times> replay_stats) option" where
  "replay_orders bt [] en stats = Some (en, stats)"
| "replay_orders bt (order # orders) en stats =
     Option.bind (replay_order bt order en stats) (\<lambda>(en, stats).
       replay_orders bt orders en (stats\<lparr>rs_orders_processed := rs_orders_processed stats + 1\<rparr>))"

definition reset_bt_engine :: "'m backtest \<Rightarrow> 'm bt_engine \<Rightarrow> 'm bt_engine" where
  "reset_bt_engine bt en = en\<lparr>be_book := fixed_clear (be_book en),
     be_pending := slot_clear (order_slots bt) (be_pending en), be_live := [], be_snapshot := no_snapshot,
     be_next_order_id := first_strategy_order_id, be_next_sample := 0, be_time := 0, be_dropped := 0,
     be_execution := no_execution, be_cash := initial_cash bt, be_position := 0, be_equity_curve := []\<rparr>"

definition bt_run :: "'m backtest \<Rightarrow> lob_order list \<Rightarrow> 'm bt_engine \<Rightarrow> ('m bt_engine \<times> replay_stats) option" where
  "bt_run bt orders en =
     (let en = call_strategy bt Strategy_start (reset_bt_engine bt en) in
      Option.bind (replay_orders bt orders en
          \<lparr>rs_orders_processed = 0, rs_generated_trades = 0, rs_first_timestamp = 0, rs_last_timestamp = 0\<rparr>)
        (\<lambda>(en, stats). Some (if is_positive (snapshot_mid_price bt (be_snapshot en)) then record_equity bt en else en, stats)))"

end
