(* ===== verification/BacktestFills.thy ===== *)
theory BacktestFills
  imports BacktestEngine
begin

section \<open>What a strategy's orders are filled for\<close>

text \<open>
  A strategy that keeps a log of the orders it places and the fills it gets is a strategy
  like any other; \<open>recorded\<close> adds the log to any strategy. The invariant of the engine says,
  of the log, that every fill belongs to an order placed before, on its side and within its
  limit, and that an order is never filled for more than its quantity.
\<close>

datatype log_entry = Placed u64 side int u64 | Got strategy_fill

primrec record_action :: "(double \<Rightarrow> int) \<Rightarrow> 'm strategy_action \<Rightarrow> log_entry list \<Rightarrow> ('m \<times> log_entry list) strategy_action" where
  "record_action ticks (Done m) = (\<lambda>lg. Done (m, lg))"
| "record_action ticks (Place asset sd price quantity t k) =
     (\<lambda>lg. Place asset sd price quantity t (\<lambda>oid. record_action ticks (k oid) (lg @ [Placed oid sd (ticks price) quantity])))"
| "record_action ticks (Withdraw asset oid k) = (\<lambda>lg. Withdraw asset oid (\<lambda>ok. record_action ticks (k ok) lg))"
| "record_action ticks (Ask_time k) = (\<lambda>lg. Ask_time (\<lambda>t. record_action ticks (k t) lg))"

definition note_signal :: "strategy_signal \<Rightarrow> log_entry list \<Rightarrow> log_entry list" where
  "note_signal signal lg = (case signal of Strategy_fill f \<Rightarrow> lg @ [Got f] | _ \<Rightarrow> lg)"

definition recorded :: "'m backtest \<Rightarrow> ('m \<times> log_entry list) backtest" where
  "recorded bt = \<lparr>bt_fp = bt_fp bt, order_slots = order_slots bt, initial_cash = initial_cash bt,
     equity_sample_interval_ns = equity_sample_interval_ns bt, maker_fee_bps = maker_fee_bps bt,
     taker_fee_bps = taker_fee_bps bt, bt_base_latency_ns = bt_base_latency_ns bt,
     jitter_distribution = jitter_distribution bt, jitter_mean_ns = jitter_mean_ns bt, jitter_sigma = jitter_sigma bt,
     exponential_draw = exponential_draw bt, lognormal_draw = lognormal_draw bt,
     bt_strategy = (\<lambda>signal (m, lg). record_action (price_to_ticks (bt_fp bt)) (bt_strategy bt signal m) (note_signal signal lg))\<rparr>"

subsection \<open>What a log says\<close>

definition filled :: "u64 \<Rightarrow> log_entry list \<Rightarrow> nat" where
  "filled oid lg = sum_list (map (\<lambda>e. case e of Got f \<Rightarrow> if sf_order_id f = oid then unat (sf_quantity f) else 0 | _ \<Rightarrow> 0) lg)"

definition placed_ids :: "log_entry list \<Rightarrow> u64 list" where
  "placed_ids lg = concat (map (\<lambda>e. case e of Placed oid sd p q \<Rightarrow> [oid] | _ \<Rightarrow> []) lg)"

definition net_position :: "log_entry list \<Rightarrow> int" where
  "net_position lg = sum_list (map (\<lambda>e. case e of Got f \<Rightarrow> if sf_side f = Buy then sint (sf_quantity f) else - sint (sf_quantity f)
     | _ \<Rightarrow> 0) lg)"

definition within_limit :: "int \<Rightarrow> strategy_fill \<Rightarrow> bool" where
  "within_limit p f \<longleftrightarrow> (if sf_role f = Taker then crosses (sf_side f) p (sf_price f) else sf_price f = p)"

definition fair_log :: "log_entry list \<Rightarrow> bool" where
  "fair_log lg \<longleftrightarrow> distinct (placed_ids lg)
     \<and> (\<forall>f. Got f \<in> set lg \<longrightarrow> (\<exists>p q. Placed (sf_order_id f) (sf_side f) p q \<in> set lg \<and> within_limit p f))
     \<and> (\<forall>oid sd p q. Placed oid sd p q \<in> set lg \<longrightarrow> filled oid lg \<le> unat q)"

lemma log_simps [simp]:
  "filled oid [] = 0" "filled oid (lg @ lg') = filled oid lg + filled oid lg'"
  "filled oid [Got f] = (if sf_order_id f = oid then unat (sf_quantity f) else 0)"
  "filled oid [Placed i sd p q] = 0"
  "placed_ids [] = []" "placed_ids (lg @ lg') = placed_ids lg @ placed_ids lg'"
  "placed_ids [Got f] = []" "placed_ids [Placed i sd p q] = [i]"
  "net_position [] = 0" "net_position (lg @ lg') = net_position lg + net_position lg'"
  "net_position [Got f] = (if sf_side f = Buy then sint (sf_quantity f) else - sint (sf_quantity f))"
  "net_position [Placed i sd p q] = 0"
  by (simp_all add: filled_def placed_ids_def net_position_def)

lemma Placed_placed_ids: "Placed oid sd p q \<in> set lg \<Longrightarrow> oid \<in> set (placed_ids lg)"
  by (force simp: placed_ids_def)

lemma placed_ids_Placed: "oid \<in> set (placed_ids lg) \<Longrightarrow> \<exists>sd p q. Placed oid sd p q \<in> set lg"
  by (force simp: placed_ids_def split: log_entry.splits)

lemma placed_unique:
  "distinct (placed_ids lg) \<Longrightarrow> Placed oid sd p q \<in> set lg \<Longrightarrow> Placed oid sd' p' q' \<in> set lg \<Longrightarrow>
    sd = sd' \<and> p = p' \<and> q = q'"
proof (induction lg)
  case (Cons e lg)
  have "placed_ids (e # lg) = placed_ids [e] @ placed_ids lg" using log_simps(6) [of "[e]" lg] by simp
  then show ?case using Cons Placed_placed_ids by (cases e) (auto simp del: log_simps(6))
qed simp

lemma filled_unknown: "fair_log lg \<Longrightarrow> oid \<notin> set (placed_ids lg) \<Longrightarrow> filled oid lg = 0"
proof -
  assume lg: "fair_log lg" "oid \<notin> set (placed_ids lg)"
  have "sf_order_id f \<noteq> oid" if "Got f \<in> set lg" for f
    using lg that Placed_placed_ids unfolding fair_log_def by metis
  then show "filled oid lg = 0"
    by (auto simp: filled_def sum_list_eq_0_iff split: log_entry.splits)
qed

subsection \<open>The invariant\<close>

definition live_backed :: "log_entry list \<Rightarrow> live_order \<Rightarrow> bool" where
  "live_backed lg o' \<longleftrightarrow> 0 < vo_remaining_quantity o'
     \<and> (\<exists>q. Placed (vo_order_id o') (vo_side o') (vo_price o') q \<in> set lg
          \<and> filled (vo_order_id o') lg + unat (vo_remaining_quantity o') = unat q)"

definition book_kept :: "log_entry list \<Rightarrow> 'm bt_engine \<Rightarrow> bool" where
  "book_kept lg en \<longleftrightarrow> fair_log lg \<and> distinct (map vo_order_id (be_live en))
     \<and> (\<forall>o'\<in>set (be_live en). live_backed lg o')
     \<and> placed_ids lg = map (\<lambda>k. of_nat (2 ^ 63 + k)) [0..<length (placed_ids lg)]
     \<and> unat (be_next_order_id en) = 2 ^ 63 + length (placed_ids lg)
     \<and> be_position en = net_position lg"

definition kept :: "log_entry list \<Rightarrow> 'm bt_engine \<Rightarrow> bool" where
  "kept lg en \<longleftrightarrow> (length (placed_ids lg) < 2 ^ 63 \<longrightarrow> book_kept lg en)"

definition core :: "'m bt_engine \<Rightarrow> live_order list \<times> u64 \<times> int" where
  "core en = (be_live en, be_next_order_id en, be_position en)"

lemma kept_core: "core en = core en' \<Longrightarrow> kept lg en = kept lg en'"
  by (auto simp: core_def kept_def book_kept_def)

lemma kept_prefix: "kept lg en \<Longrightarrow> length (placed_ids (lg @ lg')) < 2 ^ 63 \<Longrightarrow> book_kept lg en"
  by (simp add: kept_def)

lemma core_sample [simp]: "core (fst (sample_latency_ns bt en)) = core en"
  by (auto simp: sample_latency_ns_def core_def Let_def split: jitter_distribution.split)

lemma core_cancel [simp]: "core (fst (bt_cancel_order bt asset oid en)) = core en"
  using core_sample [of bt en]
  by (auto simp: bt_cancel_order_def core_def Let_def case_prod_beta split: bool.split)

subsection \<open>The array of live orders\<close>

lemma find_live_Some:
  assumes "find_live oid en = Some i"
  shows "i < length (be_live en)" "vo_order_id (be_live en ! i) = oid"
  using assms by (auto simp: find_live_def find_Some_iff)

lemma find_live_None: "find_live oid en = None \<longleftrightarrow> oid \<notin> vo_order_id ` set (be_live en)"
  by (auto simp: find_live_def find_None_iff image_iff in_set_conv_nth) (metis nth_mem)

lemma find_live_index:
  assumes "distinct (map vo_order_id (be_live en))" "i < length (be_live en)"
  shows "find_live (vo_order_id (be_live en ! i)) en = Some i"
proof -
  have "\<exists>j. find_live (vo_order_id (be_live en ! i)) en = Some j"
    using assms(2) find_live_None [of "vo_order_id (be_live en ! i)" en] by auto
  then obtain j where j: "find_live (vo_order_id (be_live en ! i)) en = Some j" by blast
  then show ?thesis
    using find_live_Some [OF j] assms nth_eq_iff_index_eq [OF assms(1), of j i] by simp
qed

lemma mset_erase: "i < length xs \<Longrightarrow> add_mset (xs ! i) (mset ((butlast xs)[i := last xs])) = mset xs"
proof -
  assume i: "i < length xs"
  then have "xs \<noteq> []" by auto
  then obtain ys y where xs: "xs = ys @ [y]" by (cases xs rule: rev_cases) auto
  show ?thesis
  proof (cases "i = length ys")
    case False
    then have "i < length ys" using i xs by simp
    then show ?thesis by (simp add: xs nth_append mset_update)
  qed (simp add: xs list_update_beyond)
qed

lemma erase_live_order_mset:
  "i < length (be_live en) \<Longrightarrow> mset (be_live en) = add_mset (be_live en ! i) (mset (be_live (erase_live_order i en)))"
  using mset_erase [of i "be_live en"] by (simp add: erase_live_order_def)

lemma erase_live_order_distinct:
  assumes "distinct (map vo_order_id (be_live en))" "i < length (be_live en)"
  shows "distinct (map vo_order_id (be_live (erase_live_order i en)))"
    "set (be_live (erase_live_order i en)) = set (be_live en) - {be_live en ! i}"
proof -
  note m = erase_live_order_mset [OF assms(2)]
  have "mset (map vo_order_id (be_live en)) = mset (vo_order_id (be_live en ! i) # map vo_order_id (be_live (erase_live_order i en)))"
    using m by simp
  then have "distinct (vo_order_id (be_live en ! i) # map vo_order_id (be_live (erase_live_order i en)))"
    using assms(1) mset_eq_imp_distinct_iff by blast
  then show "distinct (map vo_order_id (be_live (erase_live_order i en)))" by simp
  have "distinct (be_live en ! i # be_live (erase_live_order i en))"
    using \<open>distinct (vo_order_id (be_live en ! i) # map vo_order_id (be_live (erase_live_order i en)))\<close>
    by (auto simp: distinct_map)
  moreover have "set (be_live en) = insert (be_live en ! i) (set (be_live (erase_live_order i en)))"
    using m by (metis set_mset_add_mset_insert set_mset_mset)
  ultimately show "set (be_live (erase_live_order i en)) = set (be_live en) - {be_live en ! i}" by auto
qed

lemma erase_fields [simp]:
  "be_next_order_id (erase_live_order i en) = be_next_order_id en" "be_position (erase_live_order i en) = be_position en"
  "be_next_order_id (upd_live i f en) = be_next_order_id en" "be_position (upd_live i f en) = be_position en"
  by (simp_all add: erase_live_order_def upd_live_def)

lemma kept_erase:
  assumes "kept lg en" "i < length (be_live en)"
  shows "kept lg (erase_live_order i en)"
  unfolding kept_def
proof
  assume "length (placed_ids lg) < 2 ^ 63"
  then have "book_kept lg en" using assms(1) by (simp add: kept_def)
  then show "book_kept lg (erase_live_order i en)"
    using erase_live_order_distinct [OF _ assms(2)] by (auto simp: book_kept_def)
qed

lemma live_update_distinct:
  assumes "vo_order_id (f (be_live en ! i)) = vo_order_id (be_live en ! i)"
  shows "map vo_order_id (be_live (upd_live i f en)) = map vo_order_id (be_live en)"
  using assms by (cases "i < length (be_live en)") (simp_all add: upd_live_def map_update list_update_same_conv list_update_beyond)

lemma kept_upd:
  assumes "kept lg en" "\<And>o'. vo_order_id (f o') = vo_order_id o' \<and> vo_side (f o') = vo_side o' \<and> vo_price (f o') = vo_price o'
    \<and> vo_remaining_quantity (f o') = vo_remaining_quantity o'"
  shows "kept lg (upd_live i f en)"
  unfolding kept_def
proof
  assume "length (placed_ids lg) < 2 ^ 63"
  then have k: "book_kept lg en" using assms(1) by (simp add: kept_def)
  have backed: "live_backed lg (f o') = live_backed lg o'" for o' using assms(2) by (simp add: live_backed_def)
  have "live_backed lg o'" if "o' \<in> set (be_live (upd_live i f en))" for o'
  proof (cases "i < length (be_live en)")
    case True
    then have "o' = f (be_live en ! i) \<or> o' \<in> set (be_live en)"
      using that set_update_subset_insert [of "be_live en" i "f (be_live en ! i)"] by (auto simp: upd_live_def)
    then show ?thesis using k True backed by (auto simp: book_kept_def)
  next
    case False
    then have "be_live (upd_live i f en) = be_live en" by (simp add: upd_live_def list_update_beyond)
    then show ?thesis using that k by (simp add: book_kept_def)
  qed
  then show "book_kept lg (upd_live i f en)"
    using k live_update_distinct [of f en i] assms(2) by (simp add: book_kept_def)
qed

subsection \<open>Placing an order\<close>

definition add_backed :: "u64 \<Rightarrow> side \<Rightarrow> int \<Rightarrow> u64 \<Rightarrow> live_order \<Rightarrow> bool" where
  "add_backed oid sd p q o' \<longleftrightarrow> vo_order_id o' = oid \<and> vo_side o' = sd \<and> vo_price o' = p \<and> vo_remaining_quantity o' = q \<and> 0 < q"

lemma placed_ids_next:
  assumes "book_kept lg en" "length (placed_ids lg) < 2 ^ 63 - 1"
  shows "be_next_order_id en = of_nat (2 ^ 63 + length (placed_ids lg))" "be_next_order_id en \<notin> set (placed_ids lg)"
    "unat (be_next_order_id en + 1) = 2 ^ 63 + Suc (length (placed_ids lg))"
proof -
  have n: "unat (be_next_order_id en) = 2 ^ 63 + length (placed_ids lg)" using assms(1) by (simp add: book_kept_def)
  show "be_next_order_id en = of_nat (2 ^ 63 + length (placed_ids lg))"
    using n by (metis of_nat_unat ucast_id)
  have "unat oid < 2 ^ 63 + length (placed_ids lg)" if oid: "oid \<in> set (placed_ids lg)" for oid
  proof -
    have "placed_ids lg = map (\<lambda>k. of_nat (2 ^ 63 + k)) [0..<length (placed_ids lg)]"
      using assms(1) by (simp add: book_kept_def)
    then have "set (placed_ids lg) = (\<lambda>k. of_nat (2 ^ 63 + k)) ` {0..<length (placed_ids lg)}"
      by (metis set_map set_upt)
    then obtain k where k: "oid = of_nat (2 ^ 63 + k)" "k < length (placed_ids lg)" using oid by auto
    then have "2 ^ 63 + k < (2 ^ 64 :: nat)" using assms(2) by simp
    then have "unat oid = 2 ^ 63 + k" unfolding k(1) unat_of_nat by simp
    then show ?thesis using k(2) by simp
  qed
  then show "be_next_order_id en \<notin> set (placed_ids lg)" using n by fastforce
  have "Suc (unat (be_next_order_id en)) < 2 ^ 64" using n assms(2) by simp
  then have "unat (be_next_order_id en + 1) = Suc (unat (be_next_order_id en))"
    unfolding unat_word_ariths by simp
  then show "unat (be_next_order_id en + 1) = 2 ^ 63 + Suc (length (placed_ids lg))" using n by simp
qed

lemma fair_log_place:
  assumes "fair_log lg" "oid \<notin> set (placed_ids lg)"
  shows "fair_log (lg @ [Placed oid sd p q])"
proof -
  have "filled i (lg @ [Placed oid sd p q]) = filled i lg" for i by simp
  moreover have "filled oid lg = 0" using filled_unknown assms by blast
  ultimately show ?thesis
    using assms unfolding fair_log_def by (auto simp del: log_simps(2)) (simp_all, metis+)
qed


lemma kept_place:
  assumes kept: "kept lg en" and sub: "bt_submit_order bt asset sd price quantity en = (en', oid)"
  shows "kept (lg @ [Placed oid sd (price_to_ticks (bt_fp bt) price) quantity]) en'"
  unfolding kept_def
proof
  let ?lg = "lg @ [Placed oid sd (price_to_ticks (bt_fp bt) price) quantity]"
  assume "length (placed_ids ?lg) < 2 ^ 63"
  then have n: "length (placed_ids lg) < 2 ^ 63 - 1" by simp
  then have k: "book_kept lg en" using kept by (simp add: kept_def)
  have oid: "oid = be_next_order_id en"
    using sub by (auto simp: bt_submit_order_def Let_def split: if_splits prod.splits bool.splits)
  note next_id = placed_ids_next [OF k n, folded oid]
  have fresh: "oid \<notin> vo_order_id ` set (be_live en)"
    using k next_id(2) Placed_placed_ids by (force simp: book_kept_def live_backed_def)
  have backed: "live_backed ?lg o'" if "o' \<in> set (be_live en)" for o'
    using that k by (force simp: book_kept_def live_backed_def)
  have fair: "fair_log ?lg" "placed_ids ?lg = map (\<lambda>k. of_nat (2 ^ 63 + k)) [0..<length (placed_ids ?lg)]"
      "be_position en = net_position ?lg"
    using k fair_log_place [of lg oid] next_id(1,2) by (simp_all add: book_kept_def)
  have keep: "book_kept ?lg e"
    if "distinct (map vo_order_id (be_live e))" "\<forall>o'\<in>set (be_live e). live_backed ?lg o'"
      "be_next_order_id e = oid + 1" "be_position e = be_position en" for e :: "'a bt_engine"
    using that fair next_id(3) by (simp add: book_kept_def)
  define new where "new = \<lparr>vo_asset_id = asset, vo_order_id = oid, vo_side = sd, vo_price = price_to_ticks (bt_fp bt) price,
     vo_remaining_quantity = quantity, vo_volume_ahead = 0, vo_active = False, vo_canceled = False\<rparr>"
  have new: "live_backed ?lg new" if "quantity \<noteq> 0"
  proof -
    have "filled oid lg = 0" using k next_id(2) filled_unknown unfolding book_kept_def by blast
    then show ?thesis using that by (auto simp: live_backed_def new_def word_gt_0)
  qed
  have old: "distinct (map vo_order_id (be_live en))" using k by (simp add: book_kept_def)
  obtain e1 l where smp: "sample_latency_ns bt (en\<lparr>be_next_order_id := oid + 1\<rparr>) = (e1, l)" by fastforce
  have e1: "be_live e1 = be_live en" "be_next_order_id e1 = oid + 1" "be_position e1 = be_position en"
    using core_sample [of bt "en\<lparr>be_next_order_id := oid + 1\<rparr>"] by (simp_all add: smp core_def)
  note sub' = sub [unfolded bt_submit_order_def Let_def, folded oid, unfolded smp, simplified]
  show "book_kept ?lg en'"
  proof (cases "quantity = 0")
    case True
    then have "en' = en\<lparr>be_next_order_id := oid + 1\<rparr>" using sub' by simp
    then show ?thesis using keep [of en'] old backed by simp
  next
    case False
    show ?thesis
    proof (cases "length (be_live e1) = order_slots bt")
      case True
      then have "be_live en' = be_live e1" "be_next_order_id en' = oid + 1" "be_position en' = be_position en"
        using sub' False e1 by (auto simp: add_live_order_def)
      then show ?thesis using keep [of en'] old backed e1 by simp
    next
      case room: False
      define e2 where "e2 = e1\<lparr>be_live := be_live e1 @ [new]\<rparr>"
      have last: "find_live oid (e2\<lparr>be_pending := h\<rparr>) = Some (length (be_live en))" for h
      proof -
        have "distinct (map vo_order_id (be_live (e2\<lparr>be_pending := h\<rparr>)))"
          using old fresh by (auto simp: e2_def e1 new_def)
        from find_live_index [OF this, of "length (be_live en)"] show ?thesis
          by (simp add: e2_def e1 nth_append new_def)
      qed
      have cases: "be_live en' = be_live en @ [new] \<or> be_live en' = be_live en"
        "be_next_order_id en' = oid + 1" "be_position en' = be_position en"
        using sub' False room last
        by (auto simp: add_live_order_def new_def [symmetric] e2_def [symmetric] erase_live_def erase_live_order_def
            split: bool.splits prod.splits) (auto simp: e2_def e1 list_update_beyond)
      then show ?thesis
        using keep [of en'] old fresh backed new [OF False] by (auto simp: new_def)
    qed
  qed
qed

subsection \<open>Running the recorded strategy\<close>

lemma recorded_fields [simp]:
  "bt_fp (recorded bt) = bt_fp bt" "order_slots (recorded bt) = order_slots bt"
  "bt_base_latency_ns (recorded bt) = bt_base_latency_ns bt"
  by (simp_all add: recorded_def)

definition logs :: "log_entry list \<Rightarrow> ('m \<times> log_entry list) bt_engine \<Rightarrow> bool" where
  "logs lg en \<longleftrightarrow> (\<exists>m lg'. be_memory en = (m, lg @ lg') \<and> kept (lg @ lg') en)"

lemma logs_trans: "logs (lg @ lg') en \<Longrightarrow> logs lg en"
  by (auto simp: logs_def)

lemma run_recorded:
  fixes act :: "'m strategy_action" and en :: "('m \<times> log_entry list) bt_engine"
  shows "kept lg en \<Longrightarrow> logs lg (run_strategy (recorded bt) (record_action (price_to_ticks (bt_fp bt)) act lg) en)"
proof (induction act arbitrary: lg en)
  case (Done m)
  have "core (en\<lparr>be_memory := (m, lg)\<rparr>) = core en" by (simp add: core_def)
  then show ?case
    using kept_core [of "en\<lparr>be_memory := (m, lg)\<rparr>" en lg] Done by (auto simp: logs_def intro: exI [of _ "[]"])
next
  case (Place asset sd price quantity t k)
  obtain en' oid where s: "bt_submit_order (recorded bt) asset sd price quantity en = (en', oid)" by fastforce
  from Place.IH [OF rangeI kept_place [OF Place.prems s]] logs_trans show ?case
    by (auto simp: s)
next
  case (Withdraw asset oid k)
  obtain en' ok where s: "bt_cancel_order (recorded bt) asset oid en = (en', ok)" by fastforce
  have "kept lg en'" using Withdraw.prems kept_core [OF core_cancel [of "recorded bt" asset oid en]] s by simp
  then show ?case using Withdraw.IH by (auto simp: s)
next
  case (Ask_time k)
  then show ?case by auto
qed

lemma call_recorded:
  fixes en :: "('m \<times> log_entry list) bt_engine"
  assumes "be_memory en = (m, lg)" "kept (note_signal signal lg) en"
  shows "logs (note_signal signal lg) (call_strategy (recorded bt) signal en)"
  using run_recorded [OF assms(2), of bt "bt_strategy bt signal m"] assms(1)
  by (simp add: call_strategy_def recorded_def)

text \<open>The memory of a recorded run holds the log, which only grows.\<close>

definition log_of :: "('m \<times> log_entry list) bt_engine \<Rightarrow> log_entry list" where
  "log_of en = snd (be_memory en)"

definition grows :: "('m \<times> log_entry list) bt_engine \<Rightarrow> ('m \<times> log_entry list) bt_engine \<Rightarrow> bool" where
  "grows en en' \<longleftrightarrow> (\<exists>lg. log_of en' = log_of en @ lg)"

definition logged :: "('m \<times> log_entry list) bt_engine \<Rightarrow> ('m \<times> log_entry list) bt_engine \<Rightarrow> bool" where
  "logged en en' \<longleftrightarrow> grows en en' \<and> (kept (log_of en) en \<longrightarrow> kept (log_of en') en')"

lemma grows_refl: "grows en en"
  by (simp add: grows_def)

lemma grows_trans: "grows en en1 \<Longrightarrow> grows en1 en2 \<Longrightarrow> grows en en2"
  by (auto simp: grows_def)

lemma logged_trans: "logged en en1 \<Longrightarrow> logged en1 en2 \<Longrightarrow> logged en en2"
  by (auto simp: logged_def grows_def)

lemma logged_refl: "logged en en"
  by (simp add: logged_def grows_def)

lemma logged_core: "core en' = core en \<Longrightarrow> be_memory en' = be_memory en \<Longrightarrow> logged en en'"
  using kept_core [of en' en] by (simp add: logged_def grows_def log_of_def)

text \<open>A log of \<open>2 ^ 63\<close> orders or more promises nothing, and stays one.\<close>

lemma loggedI:
  assumes "grows en en'" "book_kept (log_of en) en \<Longrightarrow> kept (log_of en') en'"
  shows "logged en en'"
  using assms by (auto simp: logged_def grows_def kept_def)

text \<open>The log only grows, whatever happens.\<close>

lemma run_recorded_grows:
  "\<exists>m lg'. be_memory (run_strategy (recorded bt) (record_action ticks act lg) en) = (m, lg @ lg')"
proof (induction act arbitrary: lg en)
  case (Place asset sd price quantity t k)
  obtain en' oid where s: "bt_submit_order (recorded bt) asset sd price quantity en = (en', oid)" by fastforce
  then show ?case using Place.IH [OF rangeI, of oid "lg @ [Placed oid sd (ticks price) quantity]" en'] by auto
next
  case (Withdraw asset oid k)
  obtain en' ok where s: "bt_cancel_order (recorded bt) asset oid en = (en', ok)" by fastforce
  then show ?case using Withdraw.IH [OF rangeI, of ok lg en'] by auto
qed simp_all

lemma call_grows: "grows en (call_strategy (recorded bt) signal en)"
proof (cases "be_memory en")
  case (Pair m lg)
  obtain lg' where "snd (be_memory (call_strategy (recorded bt) signal en)) = note_signal signal lg @ lg'"
    using run_recorded_grows [of bt "price_to_ticks (bt_fp bt)" "bt_strategy bt signal m" "note_signal signal lg" en]
    by (auto simp: call_strategy_def recorded_def Pair)
  then show ?thesis by (auto simp: grows_def log_of_def Pair note_signal_def split: strategy_signal.split)
qed

lemma memory_parts [simp]:
  "be_memory (settle_strategy_fill bt f en) = be_memory en" "be_memory (reduce_live f en) = be_memory en"
  "be_memory (upd_live i g en) = be_memory en" "be_memory (erase_live_order i en) = be_memory en"
  by (simp_all add: settle_strategy_fill_def reduce_live_def upd_live_def erase_live_order_def Let_def split: option.split)

lemma route_grows: "grows en (route_strategy_fill (recorded bt) f en)"
  using call_grows [of "settle_strategy_fill (recorded bt) f
       (reduce_live f (en\<lparr>be_execution := count_fill (recorded bt) f (be_execution en)\<rparr>))" bt "Strategy_fill f"]
  by (simp add: route_strategy_fill_def grows_def log_of_def)


lemma logged_call:
  assumes "\<forall>f. signal \<noteq> Strategy_fill f"
  shows "logged en (call_strategy (recorded bt) signal en)"
proof (cases "be_memory en")
  case (Pair m lg)
  have "note_signal signal lg = lg"
    using assms by (auto simp: note_signal_def split: strategy_signal.split)
  then show ?thesis
    using call_recorded [OF Pair, where signal = signal and bt = bt] call_grows
    by (auto simp: logged_def logs_def log_of_def Pair)
qed

lemma logged_erase: "i < length (be_live en) \<Longrightarrow> logged en (erase_live_order i en)"
  using kept_erase [of "log_of en" en i] by (simp add: logged_def grows_def log_of_def)

lemma logged_upd:
  assumes "\<And>o'. vo_order_id (f o') = vo_order_id o' \<and> vo_side (f o') = vo_side o' \<and> vo_price (f o') = vo_price o'
    \<and> vo_remaining_quantity (f o') = vo_remaining_quantity o'"
  shows "logged en (upd_live i f en)"
  using kept_upd [of "log_of en" en f i] assms by (simp add: logged_def grows_def log_of_def)

subsection \<open>Fills\<close>

definition fits :: "strategy_fill \<Rightarrow> live_order \<Rightarrow> bool" where
  "fits f o' \<longleftrightarrow> sf_order_id f = vo_order_id o' \<and> sf_side f = vo_side o' \<and> within_limit (vo_price o') f
     \<and> sf_quantity f \<le> vo_remaining_quantity o'"

lemma fair_log_got:
  assumes "fair_log lg" "live_backed lg o'" "fits f o'"
  shows "fair_log (lg @ [Got f])"
proof -
  obtain q where q: "Placed (vo_order_id o') (vo_side o') (vo_price o') q \<in> set lg"
      "filled (vo_order_id o') lg + unat (vo_remaining_quantity o') = unat q"
    using assms(2) by (auto simp: live_backed_def)
  have le: "unat (sf_quantity f) \<le> unat (vo_remaining_quantity o')"
    using assms(3) by (simp add: fits_def word_le_nat_alt)
  have "oid' = vo_order_id o' \<Longrightarrow> Placed oid' sd p q' \<in> set lg \<Longrightarrow> q' = q" for oid' sd p q'
  proof -
    assume "oid' = vo_order_id o'" "Placed oid' sd p q' \<in> set lg"
    moreover have "distinct (placed_ids lg)" using assms(1) by (simp add: fair_log_def)
    ultimately show "q' = q" using q(1) by (metis placed_unique)
  qed
  then have "filled oid (lg @ [Got f]) \<le> unat q'" if "Placed oid sd p q' \<in> set lg" for oid sd p q'
    using that q(2) le assms(1,3) unfolding fair_log_def fits_def by (cases "oid = vo_order_id o'") force+
  then show ?thesis
    using assms(1,3) q(1) unfolding fair_log_def by (auto simp: fits_def simp del: log_simps(2))
qed

lemma live_backed_got:
  "live_backed lg o' \<Longrightarrow> vo_order_id o' \<noteq> sf_order_id f \<Longrightarrow> live_backed (lg @ [Got f]) o'"
  by (auto simp: live_backed_def)

lemma kept_fill:
  assumes kept: "kept lg en" and i: "find_live (sf_order_id f) en = Some i" and fits: "fits f (be_live en ! i)"
  shows "kept (lg @ [Got f]) (settle_strategy_fill bt f (reduce_live f en))"
  unfolding kept_def
proof
  let ?o = "be_live en ! i" and ?lg = "lg @ [Got f]"
  assume "length (placed_ids ?lg) < 2 ^ 63"
  then have k: "book_kept lg en" using kept by (simp add: kept_def)
  have len: "i < length (be_live en)" using find_live_Some [OF i] by simp
  then have o': "?o \<in> set (be_live en)" by simp
  have dist: "distinct (map vo_order_id (be_live en))" using k by (simp add: book_kept_def)
  have backed: "live_backed lg ?o" using k o' by (simp add: book_kept_def)
  have others: "live_backed ?lg x" if "x \<in> set (be_live en)" "x \<noteq> ?o" for x
  proof -
    have "vo_order_id x \<noteq> vo_order_id ?o"
      using dist that o' by (auto simp: distinct_map inj_on_def)
    then show ?thesis using k that(1) fits live_backed_got [of lg x f] by (simp add: book_kept_def fits_def)
  qed
  let ?r = "vo_remaining_quantity ?o"
  define left where "left = ?r - sf_quantity f"
  have q: "sf_quantity f \<le> ?r" using fits by (simp add: fits_def)
  then have left: "(if sf_quantity f < ?r then ?r - sf_quantity f else 0) = left" by (auto simp: left_def)
  have unat_left: "unat left + unat (sf_quantity f) = unat ?r"
    using q by (simp add: left_def unat_sub word_le_nat_alt)
  define en1 where "en1 = upd_live i (\<lambda>x. x\<lparr>vo_remaining_quantity := left\<rparr>) en"
  have en1: "map vo_order_id (be_live en1) = map vo_order_id (be_live en)" "be_live en1 ! i = ?o\<lparr>vo_remaining_quantity := left\<rparr>"
      "i < length (be_live en1)" "be_next_order_id en1 = be_next_order_id en" "be_position en1 = be_position en"
    using len live_update_distinct [of "\<lambda>x. x\<lparr>vo_remaining_quantity := left\<rparr>" en i] by (simp_all add: en1_def) (simp_all add: upd_live_def)
  have dist1: "distinct (map vo_order_id (be_live en1))" using dist en1(1) by simp
  have rest: "live_backed ?lg x" if x: "x \<in> set (be_live en1)" "x \<noteq> be_live en1 ! i" for x
  proof -
    obtain j where j: "j < length (be_live en1)" "x = be_live en1 ! j" using x(1) by (auto simp: in_set_conv_nth)
    then have "j \<noteq> i" using x(2) by auto
    then have xj: "x = be_live en ! j" "j < length (be_live en)" using j by (simp_all add: en1_def upd_live_def)
    have "x \<noteq> ?o"
      using \<open>j \<noteq> i\<close> xj len nth_eq_iff_index_eq [OF dist, of j i] by auto
    then show ?thesis using others xj by simp
  qed
  have partly: "live_backed ?lg (be_live en1 ! i)" if "left \<noteq> 0"
    using that backed fits unat_left by (auto simp: live_backed_def en1(2) fits_def word_gt_0)
  have reduce: "reduce_live f en = (if left = 0 then erase_live_order i en1 else en1)"
    using i left by (simp add: reduce_live_def en1_def Let_def)
  have live: "distinct (map vo_order_id (be_live (reduce_live f en)))" "\<forall>x\<in>set (be_live (reduce_live f en)). live_backed ?lg x"
    using dist1 rest partly erase_live_order_distinct [OF dist1 en1(3)] unfolding reduce by auto
  have "be_next_order_id (reduce_live f en) = be_next_order_id en" "be_position (reduce_live f en) = be_position en"
    unfolding reduce by (simp_all add: en1(4,5))
  then show "book_kept ?lg (settle_strategy_fill bt f (reduce_live f en))"
    using live fair_log_got [OF _ backed fits] k by (simp add: book_kept_def settle_strategy_fill_def)
qed

lemma logged_route:
  assumes "book_kept (log_of en) en \<Longrightarrow> \<exists>i. find_live (sf_order_id f) en = Some i \<and> fits f (be_live en ! i)"
  shows "logged en (route_strategy_fill (recorded bt) f en)"
proof (rule loggedI [OF route_grows])
  let ?before = "en\<lparr>be_execution := count_fill (recorded bt) f (be_execution en)\<rparr>"
  let ?after = "settle_strategy_fill (recorded bt) f (reduce_live f ?before)"
  assume k: "book_kept (log_of en) en"
  obtain i where i: "find_live (sf_order_id f) en = Some i" "fits f (be_live en ! i)" using assms k by blast
  obtain m lg where mem: "be_memory en = (m, lg)" by fastforce
  have "kept lg ?before"
    using k kept_core [of ?before en lg] by (simp add: core_def log_of_def mem kept_def)
  moreover have "find_live (sf_order_id f) ?before = Some i" using i(1) by (simp add: find_live_def)
  ultimately have "kept (lg @ [Got f]) ?after" using i(2) by (intro kept_fill) simp_all
  then have "logs (lg @ [Got f]) (route_strategy_fill (recorded bt) f en)"
    using call_recorded [of ?after m lg "Strategy_fill f" bt] mem by (simp add: route_strategy_fill_def note_signal_def)
  then show "kept (log_of (route_strategy_fill (recorded bt) f en)) (route_strategy_fill (recorded bt) f en)"
    by (auto simp: logs_def log_of_def)
qed

subsection \<open>What the strategy cannot touch\<close>

definition market_view :: "'m bt_engine \<Rightarrow> matching_book \<times> trade list \<times> u64 \<times> market_snapshot \<times> u64 \<times> double list" where
  "market_view en = (be_book en, be_trades en, be_time en, be_snapshot en, be_next_sample en, be_equity_curve en)"

lemma view_sample [simp]: "market_view (fst (sample_latency_ns bt en)) = market_view en"
  by (auto simp: sample_latency_ns_def market_view_def Let_def split: jitter_distribution.split)

lemma view_fields [simp]:
  "market_view (en\<lparr>be_dropped := d\<rparr>) = market_view en" "market_view (en\<lparr>be_pending := h\<rparr>) = market_view en"
  "market_view (en\<lparr>be_live := ls\<rparr>) = market_view en" "market_view (en\<lparr>be_next_order_id := n\<rparr>) = market_view en"
  "market_view (en\<lparr>be_memory := m\<rparr>) = market_view en" "market_view (en\<lparr>be_execution := x\<rparr>) = market_view en"
  "market_view (upd_live i f en) = market_view en" "market_view (erase_live_order i en) = market_view en"
  "market_view (settle_strategy_fill bt fl en) = market_view en"
  by (simp_all add: market_view_def upd_live_def erase_live_order_def settle_strategy_fill_def)

lemma view_erase_live [simp]: "market_view (erase_live oid en) = market_view en"
  by (simp add: erase_live_def split: option.split)

lemma view_submit [simp]: "market_view (fst (bt_submit_order bt asset sd price quantity en)) = market_view en"
  by (simp add: bt_submit_order_def Let_def add_live_order_def case_prod_beta split: bool.split)

lemma view_cancel [simp]: "market_view (fst (bt_cancel_order bt asset oid en)) = market_view en"
  by (simp add: bt_cancel_order_def Let_def case_prod_beta split: bool.split)

lemma view_run [simp]: "market_view (run_strategy bt act en) = market_view en"
proof (induction act arbitrary: en)
  case (Place asset sd price quantity t k)
  then show ?case by (simp add: case_prod_beta)
next
  case (Withdraw asset oid k)
  then show ?case by (simp add: case_prod_beta)
qed simp_all

lemma view_call [simp]: "market_view (call_strategy bt signal en) = market_view en"
  by (simp add: call_strategy_def)

lemma view_route [simp]: "market_view (route_strategy_fill bt f en) = market_view en"
  by (simp add: route_strategy_fill_def reduce_live_def Let_def split: option.split)

lemma view_book: "market_view en = market_view en' \<Longrightarrow> be_book en = be_book en' \<and> be_time en = be_time en' \<and> be_trades en = be_trades en'"
  by (simp add: market_view_def)

subsection \<open>Sweeping\<close>

lemma visit_levels_invariant:
  assumes "P v" "\<And>i v. i \<in> set is \<Longrightarrow> P v \<Longrightarrow> P (fst (visitor (lv_price (bk_levels b ! i)) (lv_total (bk_levels b ! i)) v))"
  shows "P (visit_levels visitor b is v)"
  using assms
proof (induction visitor b "is" v rule: visit_levels.induct)
  case (2 visitor b i "is" v)
  obtain v' go where v': "visitor (lv_price (bk_levels b ! i)) (lv_total (bk_levels b ! i)) v = (v', go)" by fastforce
  then have "P v'" using 2(2,3) by fastforce
  then show ?case using v' 2(1) [OF v' [symmetric]] 2(3) by simp
qed simp

definition same_live :: "live_order \<Rightarrow> live_order \<Rightarrow> bool" where
  "same_live o' x \<longleftrightarrow> vo_order_id x = vo_order_id o' \<and> vo_side x = vo_side o' \<and> vo_price x = vo_price o'"

definition placed_as :: "live_order \<Rightarrow> log_entry list \<Rightarrow> bool" where
  "placed_as o' lg \<longleftrightarrow> (\<exists>q. Placed (vo_order_id o') (vo_side o') (vo_price o') q \<in> set lg)"

text \<open>A live order with the number of a placed one is that one.\<close>

lemma find_live_placed:
  assumes "book_kept lg en" "placed_as o' lg" "find_live (vo_order_id o') en = Some i"
  shows "same_live o' (be_live en ! i)" "0 < vo_remaining_quantity (be_live en ! i)"
proof -
  have i: "be_live en ! i \<in> set (be_live en)" "vo_order_id (be_live en ! i) = vo_order_id o'"
    using find_live_Some [OF assms(3)] by simp_all
  then have b: "live_backed lg (be_live en ! i)" using assms(1) by (simp add: book_kept_def)
  then show "0 < vo_remaining_quantity (be_live en ! i)" by (simp add: live_backed_def)
  have "distinct (placed_ids lg)" using assms(1) by (simp add: book_kept_def fair_log_def)
  then show "same_live o' (be_live en ! i)"
    using b i(2) assms(2) placed_unique unfolding live_backed_def placed_as_def same_live_def by metis
qed


lemma placed_as_grows: "placed_as o' (log_of en) \<Longrightarrow> grows en en' \<Longrightarrow> placed_as o' (log_of en')"
  by (auto simp: placed_as_def grows_def)

definition at_market :: "('m \<times> log_entry list) bt_engine \<Rightarrow> ('m \<times> log_entry list) bt_engine \<Rightarrow> bool" where
  "at_market en en' \<longleftrightarrow> logged en en' \<and> market_view en' = market_view en"

lemma at_market_trans: "at_market en en1 \<Longrightarrow> at_market en1 en2 \<Longrightarrow> at_market en en2"
  by (auto simp: at_market_def intro: logged_trans)

lemma at_market_refl: "at_market en en"
  by (simp add: at_market_def logged_refl)

lemma sweep_level_at_market:
  assumes "placed_as o' (log_of en)"
  shows "at_market en (fst (sweep_level (recorded bt) o' timestamp price level_quantity en))"
proof (cases "find_live (vo_order_id o') en")
  case None
  then show ?thesis by (simp add: sweep_level_def at_market_refl)
next
  case (Some i)
  let ?f = "taker_fill o' timestamp price (min level_quantity (vo_remaining_quantity (be_live en ! i)))"
  show ?thesis
  proof (cases "crosses (vo_side o') (vo_price o') price")
    case True
    have "\<exists>i. find_live (sf_order_id ?f) en = Some i \<and> fits ?f (be_live en ! i)" if "book_kept (log_of en) en"
      using find_live_placed [OF that assms Some] Some True
      by (auto simp: taker_fill_def fits_def same_live_def within_limit_def)
    then have "logged en (route_strategy_fill (recorded bt) ?f en)" by (rule logged_route)
    then show ?thesis using Some True by (simp add: sweep_level_def at_market_def Let_def)
  qed (use Some in \<open>simp add: sweep_level_def at_market_refl\<close>)
qed

lemma sweep_view: "market_view (sweep_book bt o' timestamp en) = market_view en"
proof -
  have "market_view (fst (sweep_level bt o' timestamp p q e)) = market_view e" for p q e
    by (simp add: sweep_level_def Let_def split: option.split)
  then have "market_view (visit_levels (sweep_level bt o' timestamp) (be_book en)
      (level_sequence fixed_config (be_book en) (opposite (vo_side o'))) en) = market_view en"
    by (intro visit_levels_invariant [where P = "\<lambda>e. market_view e = market_view en"]) simp_all
  then show ?thesis by (simp add: sweep_book_def fixed_for_each_level_def for_each_level_def)
qed

lemma sweep_at_market:
  assumes "placed_as o' (log_of en)"
  shows "at_market en (sweep_book (recorded bt) o' timestamp en)"
proof -
  let ?P = "\<lambda>e. at_market en e \<and> placed_as o' (log_of e)"
  have "?P (visit_levels (sweep_level (recorded bt) o' timestamp) (be_book en)
      (level_sequence fixed_config (be_book en) (opposite (vo_side o'))) en)"
  proof (rule visit_levels_invariant [where P = ?P])
    show "?P en" using assms at_market_refl by simp
  next
    fix i e
    let ?e' = "fst (sweep_level (recorded bt) o' timestamp (lv_price (bk_levels (be_book en) ! i)) (lv_total (bk_levels (be_book en) ! i)) e)"
    assume e: "?P e"
    then have "at_market e ?e'" using sweep_level_at_market by blast
    then show "?P ?e'"
      using e at_market_trans placed_as_grows [of o' e ?e'] by (auto simp: at_market_def logged_def intro: grows_trans)
  qed
  then show ?thesis
    by (simp add: sweep_book_def fixed_for_each_level_def for_each_level_def at_market_refl)
qed

subsection \<open>Pending orders\<close>

text \<open>A live order was placed.\<close>

lemma live_placed: "book_kept lg en \<Longrightarrow> o' \<in> set (be_live en) \<Longrightarrow> placed_as o' lg"
  by (auto simp: book_kept_def live_backed_def placed_as_def)

lemma sweep_level_grows: "grows en (fst (sweep_level (recorded bt) o' t p q en))"
  by (simp add: sweep_level_def Let_def grows_refl route_grows split: option.split)

lemma sweep_grows: "grows en (sweep_book (recorded bt) o' t en)"
proof -
  have "grows en (visit_levels (sweep_level (recorded bt) o' t) (be_book en)
      (level_sequence fixed_config (be_book en) (opposite (vo_side o'))) en)"
  proof (rule visit_levels_invariant [where P = "grows en"])
    fix i e assume "grows en e"
    then show "grows en (fst (sweep_level (recorded bt) o' t (lv_price (bk_levels (be_book en) ! i)) (lv_total (bk_levels (be_book en) ! i)) e))"
      using sweep_level_grows by (rule grows_trans)
  qed (rule grows_refl)
  then show ?thesis by (simp add: sweep_book_def fixed_for_each_level_def for_each_level_def grows_refl)
qed

lemma live_ids:
  assumes "book_kept lg en" "o' \<in> set (be_live en)"
  shows "first_strategy_order_id \<le> vo_order_id o'"
proof -
  have "vo_order_id o' \<in> set (placed_ids lg)"
    using assms by (auto simp: book_kept_def live_backed_def intro: Placed_placed_ids)
  moreover have "placed_ids lg = map (\<lambda>k. of_nat (2 ^ 63 + k)) [0..<length (placed_ids lg)]"
    using assms(1) by (simp add: book_kept_def)
  from arg_cong [OF this, of set]
  have "set (placed_ids lg) = (\<lambda>k. of_nat (2 ^ 63 + k)) ` {0..<length (placed_ids lg)}"
    by (simp only: set_map set_upt)
  ultimately obtain k where k: "vo_order_id o' = of_nat (2 ^ 63 + k)" "k < length (placed_ids lg)" by auto
  have "unat (be_next_order_id en) = 2 ^ 63 + length (placed_ids lg)" using assms(1) by (simp add: book_kept_def)
  then have "2 ^ 63 + k < (2 ^ 64 :: nat)"
    using k(2) unsigned_less [of "be_next_order_id en", where ?'a = nat] by simp
  then have "unat (vo_order_id o') = 2 ^ 63 + k" unfolding k(1) unat_of_nat by simp
  then show ?thesis by (simp add: word_le_nat_alt first_strategy_order_id_def)
qed

text \<open>Releasing an order looks at its live entry again, for what is there was placed.\<close>

lemma execute_at_market:
  "logged en (execute_pending_order (recorded bt) pending en)
    \<and> be_book (execute_pending_order (recorded bt) pending en) = be_book en
    \<and> be_time (execute_pending_order (recorded bt) pending en) = be_time en
    \<and> be_trades (execute_pending_order (recorded bt) pending en) = []"
proof -
  let ?e = "en\<lparr>be_trades := []\<rparr>"
  have e: "logged en ?e" by (rule logged_core) (simp_all add: core_def)
  show ?thesis
  proof (cases "find_live (po_order_id pending) ?e")
    case None
    then show ?thesis using e by (simp add: execute_pending_order_def Let_def)
  next
    case (Some i)
    let ?o = "be_live ?e ! i"
    have i: "i < length (be_live ?e)" "vo_order_id ?o = po_order_id pending" using find_live_Some [OF Some] by simp_all
    define e1 where "e1 = (if is_aggressive ?o ?e then sweep_book (recorded bt) ?o (po_release_time_ns pending) ?e else ?e)"
    have e1: "logged ?e e1 \<and> market_view e1 = market_view ?e"
    proof -
      have "grows ?e e1" by (simp add: e1_def grows_refl sweep_grows)
      moreover have view: "market_view e1 = market_view ?e"
        by (simp add: e1_def sweep_view)
      moreover have "kept (log_of e1) e1" if "book_kept (log_of ?e) ?e"
      proof -
        have "placed_as ?o (log_of ?e)" using live_placed [OF that] i(1) by simp
        then have "at_market ?e e1"
          using sweep_at_market [of ?o ?e bt] at_market_refl [of ?e] by (simp add: e1_def)
        then show ?thesis using that by (simp add: at_market_def logged_def kept_def)
      qed
      ultimately show ?thesis using loggedI by blast
    qed
    have final: "logged e1 (case find_live (po_order_id pending) e1 of None \<Rightarrow> e1
        | Some j \<Rightarrow> upd_live j (\<lambda>x. x\<lparr>vo_active := True, vo_volume_ahead := observed_quantity (recorded bt) x e1\<rparr>) e1)"
      by (auto intro: logged_refl logged_upd split: option.split)
    have "logged ?e (erase_live_order i ?e)" "logged ?e (upd_live i (\<lambda>x. x\<lparr>vo_canceled := True\<rparr>) ?e)"
      using i(1) by (auto intro: logged_erase logged_upd)
    moreover have "execute_pending_order (recorded bt) pending en =
        (if po_type pending = Cancel_command
         then (if \<not> vo_active ?o then upd_live i (\<lambda>x. x\<lparr>vo_canceled := True\<rparr>) ?e else erase_live_order i ?e)
         else if vo_canceled ?o then erase_live_order i ?e
         else case find_live (po_order_id pending) e1 of None \<Rightarrow> e1
           | Some j \<Rightarrow> upd_live j (\<lambda>x. x\<lparr>vo_active := True, vo_volume_ahead := observed_quantity (recorded bt) x e1\<rparr>) e1)"
      unfolding execute_pending_order_def Let_def Some option.case e1_def ..
    moreover have "market_view (execute_pending_order (recorded bt) pending en) = market_view ?e"
      unfolding calculation(3) using e1 by (simp split: option.split)
    moreover have "logged ?e (execute_pending_order (recorded bt) pending en)"
      unfolding calculation(3) using calculation(1,2) logged_trans [OF conjunct1 [OF e1] final] by simp
    ultimately show ?thesis
      using logged_trans [OF e] view_book [of "execute_pending_order (recorded bt) pending en" ?e] by simp
  qed
qed


lemma release_pending_at_market:
  assumes "release_pending (recorded bt) now en = Some (en', n)"
  shows "logged en en' \<and> be_book en' = be_book en \<and> be_time en' = be_time en
    \<and> (be_trades en' = be_trades en \<or> be_trades en' = [])"
proof -
  let ?P = "\<lambda>b (now :: u64) en y. b = recorded bt \<longrightarrow> logged en (fst y) \<and> be_book (fst y) = be_book en
      \<and> be_time (fst y) = be_time en \<and> (be_trades (fst y) = be_trades en \<or> be_trades (fst y) = [])"
  have "?P b now en y" if "release_pending b now en = Some y" for b now en y
  proof (rule release_pending.raw_induct [where P = ?P, OF _ that], intro impI)
    fix rec b now en y
    assume IH: "\<And>b now en y. rec b now en = Some y \<Longrightarrow> ?P b now en y" and b: "b = recorded bt"
      and out: "(if slot_indices (be_pending en) = [] then Some (en, 0)
        else let pending = slot_top (be_pending en) in
          if now < po_release_time_ns pending then Some (en, 0)
          else let en = execute_pending_order b pending (en\<lparr>be_pending := slot_pop po_release_time_ns (be_pending en)\<rparr>) in
            Option.bind (rec b now en) (\<lambda>(en', n). Some (en', of_nat (length (be_trades en)) + n))) = Some y"
    let ?pending = "slot_top (be_pending en)"
    let ?popped = "en\<lparr>be_pending := slot_pop po_release_time_ns (be_pending en)\<rparr>"
    let ?e = "execute_pending_order (recorded bt) ?pending ?popped"
    show "logged en (fst y) \<and> be_book (fst y) = be_book en \<and> be_time (fst y) = be_time en
        \<and> (be_trades (fst y) = be_trades en \<or> be_trades (fst y) = [])"
    proof (cases "slot_indices (be_pending en) = [] \<or> now < po_release_time_ns ?pending")
      case True
      then show ?thesis using out by (auto simp: Let_def logged_refl split: if_splits)
    next
      case False
      then obtain z where z: "rec (recorded bt) now ?e = Some z" "fst y = fst z"
        using out b by (auto simp: Let_def bind_eq_Some_conv split: prod.splits if_splits)
      have "logged en ?popped" by (rule logged_core) (simp_all add: core_def)
      moreover have "logged ?popped ?e \<and> be_book ?e = be_book en \<and> be_time ?e = be_time en \<and> be_trades ?e = []"
        using execute_at_market [of ?popped bt ?pending] by simp
      ultimately have "logged en ?e" "be_book ?e = be_book en" "be_time ?e = be_time en" "be_trades ?e = []"
        using logged_trans by blast+
      moreover have "logged ?e (fst z) \<and> be_book (fst z) = be_book ?e \<and> be_time (fst z) = be_time ?e
          \<and> (be_trades (fst z) = be_trades ?e \<or> be_trades (fst z) = [])"
        using IH [OF z(1)] by simp
      ultimately show ?thesis using logged_trans [of en ?e "fst z"] unfolding z(2) by simp
    qed
  qed
  from this [OF assms] show ?thesis by simp
qed

subsection \<open>The market's own orders\<close>

lemma passive_queue_at_market: "at_market en (passive_queue (recorded bt) market left i en)"
proof (induction "recorded bt" market left i en rule: passive_queue.induct)
  case (1 market left i en)
  let ?o = "be_live en ! i"
  let ?mid = "upd_live i (\<lambda>x. x\<lparr>vo_volume_ahead := 0\<rparr>) en"
  let ?left = "after_queue ?o left"
  let ?q = "min (vo_remaining_quantity ?o) ?left"
  have mid: "at_market en ?mid" "at_market en (upd_live i (\<lambda>x. x\<lparr>vo_volume_ahead := vo_volume_ahead x - left\<rparr>) en)"
    by (auto simp: at_market_def intro: logged_upd)
  note step = passive_queue.simps [of "recorded bt" market left i en]
  consider "\<not> (i < length (be_live en) \<and> 0 < left)"
    | "i < length (be_live en) \<and> 0 < left" "\<not> can_fill market ?o"
    | "i < length (be_live en) \<and> 0 < left" "can_fill market ?o" "left \<le> vo_volume_ahead ?o"
    | "i < length (be_live en) \<and> 0 < left" "can_fill market ?o" "\<not> left \<le> vo_volume_ahead ?o" "?q = 0"
    | "i < length (be_live en) \<and> 0 < left" "can_fill market ?o" "\<not> left \<le> vo_volume_ahead ?o" "?q \<noteq> 0" by blast
  then show ?case
  proof cases
    case 1
    show ?thesis by (simp only: step 1 if_False at_market_refl)
  next
    case 2
    show ?thesis using "1.hyps"(1) [OF 2] by (simp only: step 2(1) 2(2) if_True not_False_eq_True simp_thms)
  next
    case 3
    show ?thesis using mid(2) by (simp only: step 3(1) 3(2,3) if_True if_False not_True_eq_False simp_thms)
  next
    case 4
    have "at_market ?mid (passive_queue (recorded bt) market ?left (Suc i) ?mid)"
      using "1.hyps"(2) 4 by simp
    then show ?thesis
      using at_market_trans [OF mid(1)] by (simp only: step 4(1) 4(2,3,4) if_True if_False not_True_eq_False simp_thms)
  next
    case 5
    let ?f = "maker_fill ?o (lo_timestamp market) ?q"
    let ?next = "route_strategy_fill (recorded bt) ?f ?mid"
    have "\<exists>j. find_live (sf_order_id ?f) ?mid = Some j \<and> fits ?f (be_live ?mid ! j)" if "book_kept (log_of ?mid) ?mid"
    proof -
      have "distinct (map vo_order_id (be_live ?mid))" using that by (simp add: book_kept_def)
      moreover have "i < length (be_live ?mid)" "be_live ?mid ! i = ?o\<lparr>vo_volume_ahead := 0\<rparr>"
        using 5(1) by (simp_all add: upd_live_def)
      ultimately have "find_live (vo_order_id ?o) ?mid = Some i" using find_live_index [of ?mid i] by simp
      then show ?thesis
        using \<open>be_live ?mid ! i = ?o\<lparr>vo_volume_ahead := 0\<rparr>\<close> by (simp add: maker_fill_def fits_def within_limit_def)
    qed
    then have "at_market ?mid ?next" unfolding at_market_def by (intro conjI logged_route view_route)
    then have "at_market en ?next" using at_market_trans [OF mid(1)] by blast
    moreover have "at_market ?next (passive_queue (recorded bt) market (?left - ?q)
        (case find_live (vo_order_id ?o) ?next of None \<Rightarrow> 0 | Some j \<Rightarrow> Suc i) ?next)"
      using "1.hyps"(3) [OF 5(1) _ 5(3,4) refl refl refl] 5(2) by simp
    ultimately show ?thesis
      using at_market_trans
      by (simp only: step 5(1) 5(2,3,4) if_True if_False not_True_eq_False simp_thms Let_def) blast
  qed
qed

lemma limit_volume_at_market: "at_market en (apply_pessimistic_volume_update (recorded bt) en)"
proof -
  let ?f = "limit_volume_ahead (recorded bt) en"
  have f: "vo_order_id (?f x) = vo_order_id x" "live_backed lg (?f x) = live_backed lg x" for x lg
    by (simp_all add: limit_volume_ahead_def Let_def live_backed_def)
  have "book_kept lg (en\<lparr>be_live := map ?f (be_live en)\<rparr>) = book_kept lg en" for lg
    by (simp add: book_kept_def f o_def)
  then show ?thesis
    by (simp add: at_market_def apply_pessimistic_volume_update_def logged_def grows_def log_of_def kept_def)
qed

lemma route_trades_logged:
  assumes "\<forall>t\<in>set trades. tr_buyer_id t < first_strategy_order_id \<and> tr_seller_id t < first_strategy_order_id"
  shows "at_market en (route_trades (recorded bt) trades en)"
proof -
  have "grows en (fold (route_strategy_fill (recorded bt)) fs en) \<and> market_view (fold (route_strategy_fill (recorded bt)) fs en) = market_view en"
    for fs and en :: "('a \<times> log_entry list) bt_engine"
    by (induction fs arbitrary: en) (auto intro: grows_refl grows_trans [OF route_grows])
  moreover have "route_trades (recorded bt) trades en = en" if k: "book_kept (log_of en) en"
  proof -
    have "\<not> x < first_strategy_order_id" if "o' \<in> set (be_live en)" "x = vo_order_id o'" for o' x
      using k that live_ids [OF k that(1)] by simp
    then have "own_fills en t = []" if "t \<in> set trades" for t
      using assms that by (auto simp: own_fills_def is_strategy_order_def find_live_None)
    then have "concat (map (own_fills en) trades) = []" by simp
    then show ?thesis unfolding route_trades_def by (simp only: fold_simps id_apply)
  qed
  ultimately show ?thesis
    unfolding at_market_def by (auto intro!: loggedI simp: route_trades_def kept_def)
qed


subsection \<open>The run\<close>

text \<open>The file's orders have numbers below those of the strategy; so has everything in the book.\<close>

definition market_ids :: "matching_book \<Rightarrow> bool" where
  "market_ids b \<longleftrightarrow> book_inv fixed_config b \<and> (\<forall>s. ladder_ids (ladder b s) \<subseteq> {..<first_strategy_order_id})"

lemma process_market_order_logged:
  assumes book: "market_ids (be_book en)" and id: "lo_id order < first_strategy_order_id"
    and out: "process_market_order (recorded bt) order en = Some en'"
  shows "logged en en' \<and> market_ids (be_book en') \<and> be_time en' = be_time en
    \<and> (\<forall>t\<in>set (be_trades en'). tr_buyer_id t < first_strategy_order_id \<and> tr_seller_id t < first_strategy_order_id)"
proof -
  have inv: "book_inv fixed_config (be_book en)" "\<And>s. ladder_ids (ladder (be_book en) s) \<subseteq> {..<first_strategy_order_id}"
    using book by (simp_all add: market_ids_def)
  obtain b' fills where p: "process_order order (be_book en) = Some (b', map (fill_trade order) fills)" "book_inv fixed_config b'"
    "\<And>s. ladder_ids (ladder b' s) \<subseteq> insert (lo_id order) {..<first_strategy_order_id}"
    "\<forall>(maker, px, qty)\<in>set fills. crosses (lo_side order) (lo_price order) px \<and> so_order_id maker \<in> {..<first_strategy_order_id}"
    by (rule process_order_ids [OF inv, of order]) blast
  define e1 where "e1 = en\<lparr>be_book := b', be_trades := map (fill_trade order) fills\<rparr>"
  define e2 where "e2 = passive_queue (recorded bt) order (lo_quantity order) 0 e1"
  have en': "en' = apply_pessimistic_volume_update (recorded bt) e2"
    using out p(1) by (simp add: process_market_order_def e1_def e2_def)
  have "logged en e1" by (rule logged_core) (simp_all add: e1_def core_def)
  moreover have later: "at_market e1 en'"
    using at_market_trans [OF passive_queue_at_market limit_volume_at_market] by (simp add: en' e2_def)
  ultimately have "logged en en'" using logged_trans [of en e1 en'] by (simp add: at_market_def)
  moreover have "be_book en' = b'" "be_time en' = be_time en" "be_trades en' = map (fill_trade order) fills"
    using later view_book [of en' e1] by (simp_all add: at_market_def e1_def)
  moreover have "market_ids b'" using p(2,3) id by (auto simp: market_ids_def)
  moreover have "\<forall>t\<in>set (map (fill_trade order) fills). tr_buyer_id t < first_strategy_order_id \<and> tr_seller_id t < first_strategy_order_id"
    using p(4) id by (fastforce simp: fill_trade_def)
  ultimately show ?thesis by simp
qed

lemma sample_equity_logged: "sample_equity bt now en = Some en' \<Longrightarrow> core en' = core en \<and> be_memory en' = be_memory en
    \<and> be_book en' = be_book en"
proof -
  let ?P = "\<lambda>(bt :: 'a backtest) (now :: u64) e e'. core e' = core e \<and> be_memory e' = be_memory e \<and> be_book e' = be_book e"
  have "core e' = core e \<and> be_memory e' = be_memory e \<and> be_book e' = be_book e"
    if "equity_samples bt now e = Some e'" for e e'
  proof (rule equity_samples.raw_induct [where P = ?P, OF _ that])
    fix rec and bt :: "'a backtest" and now e e'
    let ?next = "record_equity bt e\<lparr>be_next_sample := be_next_sample e + equity_sample_interval_ns bt\<rparr>"
    assume IH: "\<And>(bt :: 'a backtest) now e e'. rec bt now e = Some e' \<Longrightarrow> core e' = core e \<and> be_memory e' = be_memory e \<and> be_book e' = be_book e"
      and out: "(if now < be_next_sample e then Some e else rec bt now ?next) = Some e'"
    show "core e' = core e \<and> be_memory e' = be_memory e \<and> be_book e' = be_book e"
    proof (cases "now < be_next_sample e")
      case False
      then have "rec bt now ?next = Some e'" using out by simp
      from IH [OF this] show ?thesis by (simp add: record_equity_def core_def)
    qed (use out in simp)
  qed
  then show "sample_equity bt now en = Some en' \<Longrightarrow> core en' = core en \<and> be_memory en' = be_memory en \<and> be_book en' = be_book en"
    by (auto simp: sample_equity_def split: if_splits)
qed

lemma replay_order_logged:
  assumes book: "market_ids (be_book en)" and id: "lo_id order < first_strategy_order_id"
    and out: "replay_order (recorded bt) order en stats = Some (en', stats')"
  shows "logged en en' \<and> market_ids (be_book en')"
proof -
  let ?bt = "recorded bt"
  define e1 where "e1 = fst (begin_order order en stats)"
  define e2 where "e2 = update_snapshot ?bt (be_time e1) (lo_price order) e1"
  obtain e3 n e4 where s: "release_pending ?bt (be_time e1) e2 = Some (e3, n)"
      "process_market_order ?bt (order\<lparr>lo_timestamp := be_time e1\<rparr>) e3 = Some e4"
    and rest: "\<exists>e6 l. release_pending ?bt (be_time e1) (call_strategy ?bt (Strategy_tick 0 (be_book (route_trades ?bt (be_trades e4)
         (update_snapshot ?bt (be_time e1) (lo_price order) e4)))) (route_trades ?bt (be_trades e4)
         (update_snapshot ?bt (be_time e1) (lo_price order) e4))) = Some (e6, l) \<and> sample_equity ?bt (be_time e1) e6 = Some en'"
    using out by (auto simp: replay_order_def Let_def e1_def e2_def bind_eq_Some_conv split: prod.splits)
      (simp add: update_snapshot_def Let_def)
  define e5 where "e5 = route_trades ?bt (be_trades e4) (update_snapshot ?bt (be_time e1) (lo_price order) e4)"
  obtain e6 l where t: "release_pending ?bt (be_time e1) (call_strategy ?bt (Strategy_tick 0 (be_book e5)) e5) = Some (e6, l)"
      "sample_equity ?bt (be_time e1) e6 = Some en'"
    using rest unfolding e5_def by blast
  have snap: "logged e (update_snapshot ?bt t p e)" "be_book (update_snapshot ?bt t p e) = be_book e"
      "be_trades (update_snapshot ?bt t p e) = be_trades e" for t p and e :: "('a \<times> log_entry list) bt_engine"
    by (auto simp: update_snapshot_def Let_def core_def intro: logged_core)
  have "logged en e1" "be_book e1 = be_book en"
    by (auto simp: e1_def begin_order_def Let_def core_def intro: logged_core)
  then have e2: "logged en e2" "be_book e2 = be_book en"
    using logged_trans [of en e1 e2, OF _ snap(1) [of e1 "be_time e1" "lo_price order", folded e2_def]] snap(2) [of "be_time e1" "lo_price order" e1, folded e2_def]
    by simp_all
  have e3: "logged e2 e3" "be_book e3 = be_book e2" using release_pending_at_market [OF s(1)] by simp_all
  have e4: "logged e3 e4" "market_ids (be_book e4)"
    "\<forall>t\<in>set (be_trades e4). tr_buyer_id t < first_strategy_order_id \<and> tr_seller_id t < first_strategy_order_id"
    using process_market_order_logged [OF _ _ s(2)] book id e2(2) e3(2) by simp_all
  define s4 where "s4 = update_snapshot ?bt (be_time e1) (lo_price order) e4"
  have m: "at_market s4 e5"
    unfolding e5_def s4_def using route_trades_logged [OF e4(3)] .
  have e5: "logged e4 e5" "be_book e5 = be_book e4"
    using logged_trans [of e4 s4 e5] snap(1) [of e4 "be_time e1" "lo_price order", folded s4_def]
      snap(2) [of "be_time e1" "lo_price order" e4, folded s4_def] m view_book [of e5 s4]
    by (simp_all add: at_market_def)
  have "logged e5 (call_strategy ?bt (Strategy_tick 0 (be_book e5)) e5)" by (rule logged_call) simp
  moreover have "be_book (call_strategy ?bt (Strategy_tick 0 (be_book e5)) e5) = be_book e5"
    using view_book [OF view_call] by blast
  ultimately have e6: "logged e5 e6" "be_book e6 = be_book e5"
    using release_pending_at_market [OF t(1)]
      logged_trans [of e5 "call_strategy ?bt (Strategy_tick 0 (be_book e5)) e5" e6] by simp_all
  have "logged e6 en'" "be_book en' = be_book e6" using sample_equity_logged [OF t(2)] by (auto intro: logged_core)
  moreover have "logged en e6"
    using logged_trans [OF logged_trans [OF logged_trans [OF logged_trans [OF e2(1) e3(1)] e4(1)] e5(1)] e6(1)] .
  ultimately show ?thesis
    using logged_trans [of en e6 en'] e4(2) e5(2) e6(2) by simp
qed

lemma replay_orders_logged:
  "market_ids (be_book en) \<Longrightarrow> \<forall>x\<in>set orders. lo_id x < first_strategy_order_id \<Longrightarrow>
     replay_orders (recorded bt) orders en stats = Some (en', stats') \<Longrightarrow> logged en en'"
proof (induction orders arbitrary: en stats)
  case Nil
  then show ?case by (simp add: logged_refl)
next
  case (Cons x orders)
  obtain en1 stats1 where s: "replay_order (recorded bt) x en stats = Some (en1, stats1)"
      "replay_orders (recorded bt) orders en1 (stats1\<lparr>rs_orders_processed := rs_orders_processed stats1 + 1\<rparr>) = Some (en', stats')"
    using Cons.prems(3) by (auto simp: bind_eq_Some_conv)
  have e1: "logged en en1" "market_ids (be_book en1)"
    using replay_order_logged [OF Cons.prems(1) _ s(1)] Cons.prems(2) by simp_all
  then show ?case
    using logged_trans [OF e1(1)] Cons.IH [OF e1(2) _ s(2)] Cons.prems(2) by simp
qed

lemma new_market_ids: "market_ids (new_book fixed_config)"
  by (simp add: market_ids_def new_book_inv ladder_ids_def)

lemma cleared_new_book: "fixed_clear (new_book fixed_config) = new_book fixed_config"
  by (simp add: fixed_clear_def clear_book_def new_book_def)

lemma kept_reset: "kept [] (reset_bt_engine bt en)"
  by (simp add: kept_def book_kept_def fair_log_def reset_bt_engine_def first_strategy_order_id_def)

lemma bt_run_logged:
  fixes mem :: 'm
  assumes ids: "\<forall>x\<in>set orders. lo_id x < first_strategy_order_id"
    and out: "bt_run (recorded bt) orders (new_bt_engine (recorded bt) (mem, [])) = Some (en, stats)"
  shows "kept (log_of en) en"
proof -
  let ?bt = "recorded bt"
  let ?e0 = "reset_bt_engine ?bt (new_bt_engine ?bt (mem, [] :: log_entry list))"
  define e1 where "e1 = call_strategy ?bt Strategy_start ?e0"
  obtain e2 stats2 where s: "replay_orders ?bt orders e1 \<lparr>rs_orders_processed = 0, rs_generated_trades = 0,
        rs_first_timestamp = 0, rs_last_timestamp = 0\<rparr> = Some (e2, stats2)"
      "en = (if is_positive (snapshot_mid_price ?bt (be_snapshot e2)) then record_equity ?bt e2 else e2)"
    using out by (auto simp: bt_run_def Let_def e1_def bind_eq_Some_conv)
  have "be_memory ?e0 = (mem, [])" by (simp add: reset_bt_engine_def new_bt_engine_def)
  then have "logs [] e1"
    unfolding e1_def
    using call_recorded [of ?e0 mem "[]" Strategy_start bt, unfolded note_signal_def strategy_signal.case, OF _ kept_reset] by blast
  then have k1: "kept (log_of e1) e1" by (auto simp: logs_def log_of_def)
  have "be_book e1 = be_book ?e0" unfolding e1_def using view_book [OF view_call] by blast
  then have "market_ids (be_book e1)"
    by (simp add: reset_bt_engine_def new_bt_engine_def cleared_new_book new_market_ids)
  then have "logged e1 e2" using replay_orders_logged [OF _ ids s(1)] by simp
  moreover have "logged e2 en"
    unfolding s(2) by (auto intro: logged_core logged_refl simp: record_equity_def core_def)
  ultimately show ?thesis
    using logged_trans [of e1 e2 en] k1 by (simp add: logged_def)
qed

end
