(* ===== verification/BacktestRuns.thy ===== *)
theory BacktestRuns
  imports BacktestFills
begin

section \<open>Backtests end\<close>

text \<open>
  Commands released at one moment may fill orders, and at a fill the strategy may send
  more commands. When each of these is due later than now, a release runs as many
  commands as were due when it began, at most, and ends; so does the loop that takes
  samples of the equity, when the next sample does not wrap.
\<close>

subsection \<open>Delays\<close>

text \<open>The latency of a command, by the number of draws before it.\<close>

definition drawn_latency :: "'m backtest \<Rightarrow> nat \<Rightarrow> u64" where
  "drawn_latency bt k = bt_base_latency_ns bt +
     (case jitter_distribution bt of
        No_jitter \<Rightarrow> 0
      | Exponential_jitter \<Rightarrow> if is_positive (jitter_mean_ns bt) then of_nat (dbl_truncate (exponential_draw bt k)) else 0
      | Lognormal_jitter \<Rightarrow> if is_positive (jitter_sigma bt) then of_nat (dbl_truncate (lognormal_draw bt k)) else 0)"

definition delays :: "'m backtest \<Rightarrow> u64 \<Rightarrow> bool" where
  "delays bt now \<longleftrightarrow> (\<forall>k. now < now + drawn_latency bt k)"

lemma sample_drawn: "snd (sample_latency_ns bt en) = drawn_latency bt (be_draws en)"
  by (auto simp: sample_latency_ns_def drawn_latency_def Let_def split: jitter_distribution.split)

lemma sample_pending: "be_pending (fst (sample_latency_ns bt en)) = be_pending en" "be_time (fst (sample_latency_ns bt en)) = be_time en"
  by (auto simp: sample_latency_ns_def Let_def split: jitter_distribution.split)

definition commands_ok :: "'m backtest \<Rightarrow> 'm bt_engine \<Rightarrow> bool" where
  "commands_ok bt en \<longleftrightarrow> slots_heap_ok po_release_time_ns (order_slots bt) (be_pending en)"

definition due_now :: "'m bt_engine \<Rightarrow> nat" where
  "due_now en = size (filter_mset (\<lambda>p. po_release_time_ns p \<le> be_time en) (mset (held (be_pending en))))"

text \<open>What a step may do to the held commands: under \<open>d\<close>, none is due that was not before.\<close>

definition later :: "bool \<Rightarrow> 'm backtest \<Rightarrow> 'm bt_engine \<Rightarrow> 'm bt_engine \<Rightarrow> bool" where
  "later d bt en en' \<longleftrightarrow> be_time en' = be_time en \<and> be_book en' = be_book en
     \<and> (commands_ok bt en \<longrightarrow> commands_ok bt en' \<and> (d \<longrightarrow> due_now en' \<le> due_now en))"

lemma later_refl: "later d bt en en"
  by (simp add: later_def)

lemma later_trans: "later d bt en en1 \<Longrightarrow> later d bt en1 en2 \<Longrightarrow> later d bt en en2"
  by (auto simp: later_def)

lemma later_view:
  "market_view en' = market_view en \<Longrightarrow> be_pending en' = be_pending en \<Longrightarrow> later d bt en en'"
  by (simp add: later_def market_view_def commands_ok_def due_now_def)

lemma later_live [simp]:
  "later d bt en (upd_live i f en') = later d bt en en'" "later d bt en (erase_live_order i en') = later d bt en en'"
  by (simp_all add: later_def commands_ok_def due_now_def upd_live_def erase_live_order_def)

lemma later_push:
  assumes "slot_push po_release_time_ns p (be_pending en) = (h, ok)"
    and "d \<Longrightarrow> be_time en < po_release_time_ns p"
    and "market_view en' = market_view en" "be_pending en' = h"
  shows "later d bt en en'"
proof -
  have "be_time en' = be_time en" "be_book en' = be_book en" using assms(3) by (simp_all add: market_view_def)
  then show ?thesis
    using slot_push_heap_ok [OF _ assms(1), of "order_slots bt"] assms(2,4)
    by (auto simp: later_def commands_ok_def due_now_def split: if_splits)
qed

lemma later_submit:
  assumes "d \<Longrightarrow> delays bt (be_time en)"
  shows "later d bt en (fst (bt_submit_order bt asset sd price quantity en))"
proof (cases "quantity = 0")
  case True
  then show ?thesis by (simp add: bt_submit_order_def Let_def later_view)
next
  case False
  let ?en = "en\<lparr>be_next_order_id := be_next_order_id en + 1\<rparr>"
  obtain en1 latency where s: "sample_latency_ns bt ?en = (en1, latency)" by fastforce
  have e1: "be_pending en1 = be_pending en" "be_time en1 = be_time en" "latency = drawn_latency bt (be_draws en)"
    using sample_pending [of bt ?en] sample_drawn [of bt ?en] s by simp_all
  define p where "p = \<lparr>po_type = Submit_command, po_asset_id = asset, po_release_time_ns = be_time en1 + latency,
    po_order_id = be_next_order_id en, po_side = sd, po_price = price_to_ticks (bt_fp bt) price, po_quantity = quantity\<rparr>"
  obtain h ok where h: "slot_push po_release_time_ns p (be_pending en) = (h, ok)" by fastforce
  have d: "d \<Longrightarrow> be_time en < po_release_time_ns p"
    using assms e1 by (simp add: p_def delays_def)
  let ?out = "fst (bt_submit_order bt asset sd price quantity en)"
  have "be_pending ?out = be_pending en \<or> be_pending ?out = h"
    using False s h e1(1)
    by (auto simp: bt_submit_order_def Let_def add_live_order_def p_def [symmetric] erase_live_def erase_live_order_def
        split: bool.splits option.splits)
  then show ?thesis
    using later_view [of ?out en d bt] later_push [OF h, of d ?out bt] d view_submit [of bt asset sd price quantity en] by blast
qed

lemma later_cancel:
  assumes "d \<Longrightarrow> delays bt (be_time en)"
  shows "later d bt en (fst (bt_cancel_order bt asset oid en))"
proof -
  obtain en1 latency where s: "sample_latency_ns bt en = (en1, latency)" by fastforce
  have e1: "be_pending en1 = be_pending en" "be_time en1 = be_time en" "latency = drawn_latency bt (be_draws en)"
    using sample_pending [of bt en] sample_drawn [of bt en] s by simp_all
  define p where "p = no_pending_order\<lparr>po_type := Cancel_command, po_asset_id := asset,
    po_release_time_ns := be_time en1 + latency, po_order_id := oid\<rparr>"
  obtain h ok where h: "slot_push po_release_time_ns p (be_pending en) = (h, ok)" by fastforce
  have d: "d \<Longrightarrow> be_time en < po_release_time_ns p"
    using assms e1 by (simp add: p_def delays_def)
  have "be_pending (fst (bt_cancel_order bt asset oid en)) = h"
    using s h e1(1) by (auto simp: bt_cancel_order_def Let_def p_def [symmetric] split: bool.splits)
  then show ?thesis using later_push [OF h] d by simp
qed

lemma later_run: "(d \<Longrightarrow> delays bt (be_time en)) \<Longrightarrow> later d bt en (run_strategy bt act en)"
proof (induction act arbitrary: en)
  case (Done m)
  show ?case by (simp add: later_view)
next
  case (Place asset sd price quantity t k)
  obtain en' oid where s: "bt_submit_order bt asset sd price quantity en = (en', oid)" by fastforce
  then have l: "later d bt en en'"
    using later_submit [of d bt en asset sd price quantity] Place.prems by simp
  then have "later d bt en' (run_strategy bt (k oid) en')"
    using Place.IH [OF rangeI] Place.prems by (simp add: later_def)
  then show ?case using later_trans [OF l] s by simp
next
  case (Withdraw asset oid k)
  obtain en' ok where s: "bt_cancel_order bt asset oid en = (en', ok)" by fastforce
  then have l: "later d bt en en'"
    using later_cancel [of d bt en asset oid] Withdraw.prems by simp
  then have "later d bt en' (run_strategy bt (k ok) en')"
    using Withdraw.IH [OF rangeI] Withdraw.prems by (simp add: later_def)
  then show ?case using later_trans [OF l] s by simp
qed simp

subsection \<open>Strategies that only listen to their fills\<close>

primrec sends_nothing :: "'m strategy_action \<Rightarrow> bool" where
  "sends_nothing (Done m) = True"
| "sends_nothing (Place asset sd price quantity t k) = False"
| "sends_nothing (Withdraw asset oid k) = False"
| "sends_nothing (Ask_time k) = (\<forall>t. sends_nothing (k t))"

definition listens_to_fills :: "'m backtest \<Rightarrow> bool" where
  "listens_to_fills bt \<longleftrightarrow> (\<forall>f mem. sends_nothing (bt_strategy bt (Strategy_fill f) mem))"

text \<open>What keeps the release of commands from feeding itself at a moment.\<close>

definition settles :: "'m backtest \<Rightarrow> u64 \<Rightarrow> bool" where
  "settles bt now \<longleftrightarrow> delays bt now \<or> listens_to_fills bt"

lemma sends_nothing_run: "sends_nothing act \<Longrightarrow> be_pending (run_strategy bt act en) = be_pending en"
  by (induction act arbitrary: en) auto

lemma later_call: "later False bt en (call_strategy bt signal en)"
  by (simp add: call_strategy_def later_run)

lemma later_call_fill:
  assumes "d \<Longrightarrow> settles bt (be_time en)"
  shows "later d bt en (call_strategy bt (Strategy_fill f) en)"
proof (cases "listens_to_fills bt")
  case True
  then have "be_pending (call_strategy bt (Strategy_fill f) en) = be_pending en"
    by (simp add: call_strategy_def listens_to_fills_def sends_nothing_run)
  then show ?thesis by (intro later_view) simp_all
next
  case False
  then show ?thesis using assms by (simp add: call_strategy_def settles_def later_run)
qed

lemma later_route:
  assumes "d \<Longrightarrow> settles bt (be_time en)"
  shows "later d bt en (route_strategy_fill bt f en)"
proof -
  let ?e = "settle_strategy_fill bt f (reduce_live f (en\<lparr>be_execution := count_fill bt f (be_execution en)\<rparr>))"
  have "market_view ?e = market_view en" "be_pending ?e = be_pending en"
    by (simp_all add: settle_strategy_fill_def reduce_live_def Let_def upd_live_def erase_live_order_def market_view_def split: option.split)
  then have l: "later d bt en ?e" by (rule later_view)
  then have "later d bt ?e (call_strategy bt (Strategy_fill f) ?e)"
    using assms by (intro later_call_fill) (simp add: later_def)
  then show ?thesis using later_trans [OF l] by (simp add: route_strategy_fill_def)
qed

lemma later_routes: "(d \<Longrightarrow> settles bt (be_time en)) \<Longrightarrow> later d bt en (fold (route_strategy_fill bt) fs en)"
proof (induction fs arbitrary: en)
  case (Cons f fs)
  have l: "later d bt en (route_strategy_fill bt f en)" using Cons.prems by (rule later_route)
  then show ?case using later_trans [OF l Cons.IH] Cons.prems by (simp add: later_def)
qed (simp add: later_refl)

lemma later_sweep:
  assumes "d \<Longrightarrow> settles bt (be_time en)"
  shows "later d bt en (sweep_book bt o' timestamp en)"
proof -
  have "later d bt e (fst (sweep_level bt o' timestamp p q e))" if "later d bt en e" for p q e
    using that assms by (simp add: sweep_level_def Let_def later_refl later_route later_def [of d bt en e] split: option.split)
  then have "later d bt en (visit_levels (sweep_level bt o' timestamp) (be_book en)
      (level_sequence fixed_config (be_book en) (opposite (vo_side o'))) en)"
    by (intro visit_levels_invariant [where P = "later d bt en"]) (auto intro: later_refl later_trans)
  then show ?thesis by (simp add: sweep_book_def fixed_for_each_level_def for_each_level_def later_refl)
qed

lemma later_execute:
  assumes "d \<Longrightarrow> settles bt (be_time en)"
  shows "later d bt en (execute_pending_order bt p en)"
proof -
  let ?e = "en\<lparr>be_trades := []\<rparr>"
  have t: "later d bt en ?e" by (simp add: later_def commands_ok_def due_now_def)
  have "later d bt en (sweep_book bt o' t ?e)" for o' t
    using assms by (intro later_trans [OF t later_sweep]) simp
  with t show ?thesis
    by (simp add: execute_pending_order_def Let_def split: option.split)
qed


subsection \<open>A release ends\<close>

lemma pop_due:
  assumes "commands_ok bt en" "slot_indices (be_pending en) \<noteq> []" "po_release_time_ns (slot_top (be_pending en)) \<le> be_time en"
  shows "commands_ok bt (en\<lparr>be_pending := slot_pop po_release_time_ns (be_pending en)\<rparr>)"
    "due_now en = Suc (due_now (en\<lparr>be_pending := slot_pop po_release_time_ns (be_pending en)\<rparr>))"
proof -
  let ?h = "be_pending en"
  have h: "slots_heap_ok po_release_time_ns (order_slots bt) ?h" using assms(1) by (simp add: commands_ok_def)
  have "mset (held ?h) \<noteq> {#}" using assms(2) by (simp add: held_Nil)
  from slots.pop_least [OF h this] assms(2)
  have p: "slots_heap_ok po_release_time_ns (order_slots bt) (slot_pop po_release_time_ns ?h)"
      "mset (held ?h) = add_mset (slot_top ?h) (mset (held (slot_pop po_release_time_ns ?h)))"
    by (auto simp: slot_take_def)
  show "commands_ok bt (en\<lparr>be_pending := slot_pop po_release_time_ns ?h\<rparr>)"
    using p(1) by (simp add: commands_ok_def)
  show "due_now en = Suc (due_now (en\<lparr>be_pending := slot_pop po_release_time_ns ?h\<rparr>))"
    using p(2) assms(3) by (simp add: due_now_def)
qed

lemma release_returns:
  assumes "commands_ok bt en" "settles bt (be_time en)"
  shows "\<exists>en' n. release_pending bt (be_time en) en = Some (en', n) \<and> commands_ok bt en'
    \<and> be_time en' = be_time en \<and> be_book en' = be_book en"
  using assms
proof (induction "due_now en" arbitrary: en rule: less_induct)
  case less
  show ?case
  proof (cases "slot_indices (be_pending en) = [] \<or> be_time en < po_release_time_ns (slot_top (be_pending en))")
    case True
    then show ?thesis
      using less.prems by (subst release_pending.simps) auto
  next
    case False
    let ?e = "en\<lparr>be_pending := slot_pop po_release_time_ns (be_pending en)\<rparr>"
    let ?x = "execute_pending_order bt (slot_top (be_pending en)) ?e"
    have e: "commands_ok bt ?e" "due_now en = Suc (due_now ?e)"
      using pop_due [OF less.prems(1)] False by (simp_all add: not_less)
    have l: "later True bt ?e ?x" using less.prems(2) by (intro later_execute) simp
    then have x: "commands_ok bt ?x" "be_time ?x = be_time en" "be_book ?x = be_book en" "due_now ?x < due_now en"
      using e by (simp_all add: later_def)
    obtain en' n where "release_pending bt (be_time ?x) ?x = Some (en', n)" "commands_ok bt en'"
        "be_time en' = be_time en" "be_book en' = be_book en"
      using less.hyps [OF x(4,1)] less.prems(2) x(2,3) by auto
    then show ?thesis
      using False x(2) by (subst release_pending.simps) (simp add: Let_def)
  qed
qed

subsection \<open>The rest of an order's turn\<close>

lemma later_passive: "later False bt en (passive_queue bt market left i en)"
proof (induction bt market left i en rule: passive_queue.induct)
  case (1 bt market left i en)
  let ?o = "be_live en ! i" and ?mid = "upd_live i (\<lambda>x. x\<lparr>vo_volume_ahead := 0\<rparr>) en"
  let ?q = "min (vo_remaining_quantity ?o) (after_queue ?o left)"
  let ?next = "route_strategy_fill bt (maker_fill ?o (lo_timestamp market) ?q) ?mid"
  have l: "later False bt en (upd_live i f en)" for f by (simp add: later_refl)
  have r: "later False bt en ?next" using later_trans [OF l later_route] by blast
  note step = passive_queue.simps [of bt market left i en]
  consider (stop) "\<not> (i < length (be_live en) \<and> 0 < left)"
    | (other) "i < length (be_live en) \<and> 0 < left" "\<not> can_fill market ?o"
    | (queued) "i < length (be_live en) \<and> 0 < left" "can_fill market ?o" "left \<le> vo_volume_ahead ?o"
    | (empty) "i < length (be_live en) \<and> 0 < left" "can_fill market ?o" "\<not> left \<le> vo_volume_ahead ?o" "?q = 0"
    | (fill) "i < length (be_live en) \<and> 0 < left" "can_fill market ?o" "\<not> left \<le> vo_volume_ahead ?o" "?q \<noteq> 0" by blast
  then show ?case
  proof cases
    case stop
    show ?thesis by (simp only: step stop if_False later_refl)
  next
    case other
    show ?thesis using "1.IH"(1) [OF other] by (simp only: step other if_True not_False_eq_True simp_thms)
  next
    case queued
    show ?thesis using l by (simp only: step queued if_True if_False not_True_eq_False simp_thms)
  next
    case empty
    have "later False bt ?mid (passive_queue bt market (after_queue ?o left) (Suc i) ?mid)"
      using "1.IH"(2) empty by simp
    then show ?thesis
      using later_trans [OF l] by (simp only: step empty if_True if_False not_True_eq_False simp_thms)
  next
    case fill
    have "later False bt ?next (passive_queue bt market (after_queue ?o left - ?q)
        (case find_live (vo_order_id ?o) ?next of None \<Rightarrow> 0 | Some j \<Rightarrow> Suc i) ?next)"
      using "1.IH"(3) [OF fill(1) _ fill(3,4) refl refl refl] fill(2) by simp
    then show ?thesis
      using later_trans [OF r] by (simp only: step fill if_True if_False not_True_eq_False simp_thms Let_def)
  qed
qed

lemma process_market_order_returns:
  assumes "book_inv fixed_config (be_book en)" "commands_ok bt en"
  shows "\<exists>en'. process_market_order bt order en = Some en' \<and> book_inv fixed_config (be_book en')
    \<and> commands_ok bt en' \<and> be_time en' = be_time en"
proof -
  obtain b' fills where p: "process_order order (be_book en) = Some (b', map (fill_trade order) fills)" "book_inv fixed_config b'"
    using process_order_match [OF assms(1), of order] by blast
  let ?e = "en\<lparr>be_book := b', be_trades := map (fill_trade order) fills\<rparr>"
  have "later False bt ?e (passive_queue bt order (lo_quantity order) 0 ?e)" by (rule later_passive)
  then show ?thesis
    using p assms(2) by (simp add: process_market_order_def apply_pessimistic_volume_update_def later_def commands_ok_def)
qed

definition steady :: "'m bt_engine \<Rightarrow> 'm bt_engine \<Rightarrow> bool" where
  "steady en en' \<longleftrightarrow> be_pending en' = be_pending en \<and> be_time en' = be_time en \<and> be_book en' = be_book en"

lemma equity_samples_return:
  assumes "unat now + unat (equity_sample_interval_ns bt) < 2 ^ 64" "equity_sample_interval_ns bt \<noteq> 0"
  shows "\<exists>en'. equity_samples bt now en = Some en' \<and> steady en en'"
proof (induction "Suc (unat now) - unat (be_next_sample en)" arbitrary: en rule: less_induct)
  case less
  let ?e = "record_equity bt en\<lparr>be_next_sample := be_next_sample en + equity_sample_interval_ns bt\<rparr>"
  show ?case
  proof (cases "now < be_next_sample en")
    case True
    then show ?thesis by (subst equity_samples.simps) (simp add: steady_def)
  next
    case False
    then have n: "unat (be_next_sample en) \<le> unat now" by (simp add: word_le_nat_alt not_less)
    then have "unat (be_next_sample en + equity_sample_interval_ns bt) = unat (be_next_sample en) + unat (equity_sample_interval_ns bt)"
      using assms(1) by (subst unat_add_lem [THEN iffD1]) simp_all
    moreover have "0 < unat (equity_sample_interval_ns bt)" using assms(2) by (simp add: unat_gt_0)
    ultimately have "Suc (unat now) - unat (be_next_sample ?e) < Suc (unat now) - unat (be_next_sample en)"
      using n by simp
    from less [OF this] show ?thesis
      using False by (subst equity_samples.simps) (simp add: steady_def record_equity_def)
  qed
qed

definition timely :: "'m backtest \<Rightarrow> lob_order \<Rightarrow> bool" where
  "timely bt order \<longleftrightarrow> settles bt (lo_timestamp order * ns_per_ms)
     \<and> unat (lo_timestamp order * ns_per_ms) + unat (equity_sample_interval_ns bt) < 2 ^ 64"

lemma sample_equity_returns:
  "unat now + unat (equity_sample_interval_ns bt) < 2 ^ 64 \<Longrightarrow> \<exists>en'. sample_equity bt now en = Some en' \<and> steady en en'"
  using equity_samples_return [of now bt en] by (simp add: sample_equity_def) (simp add: steady_def)

lemma replay_order_returns:
  assumes "timely bt order" "book_inv fixed_config (be_book en)" "commands_ok bt en"
  shows "\<exists>en' stats'. replay_order bt order en stats = Some (en', stats') \<and> book_inv fixed_config (be_book en')
    \<and> commands_ok bt en' \<and> rs_orders_processed stats' = rs_orders_processed stats"
proof -
  define now where "now = lo_timestamp order * ns_per_ms"
  have now: "settles bt now" "unat now + unat (equity_sample_interval_ns bt) < 2 ^ 64"
    using assms(1) by (simp_all add: timely_def now_def)
  define good where "good e \<longleftrightarrow> book_inv fixed_config (be_book e) \<and> commands_ok bt e \<and> be_time e = now" for e
  have snap: "good (update_snapshot bt t p e) = good e" for t p e
    by (simp add: update_snapshot_def Let_def good_def commands_ok_def)
  obtain e1 stats1 where b: "begin_order order en stats = (e1, stats1)" by fastforce
  have e1: "good e1" "rs_orders_processed stats1 = rs_orders_processed stats" "be_time e1 = now"
    using b assms(2,3) by (auto simp: begin_order_def Let_def good_def commands_ok_def now_def)
  have release: "\<exists>e' n. release_pending bt now e = Some (e', n) \<and> good e'" if "good e" for e
    using that release_returns [of bt e] now(1) by (auto simp: good_def)
  obtain e3 n where e3: "release_pending bt now (update_snapshot bt now (lo_price order) e1) = Some (e3, n)" "good e3"
    using release [of "update_snapshot bt now (lo_price order) e1"] e1 snap by blast
  obtain e4 where e4: "process_market_order bt (order\<lparr>lo_timestamp := now\<rparr>) e3 = Some e4" "good e4"
    using process_market_order_returns [of e3 bt] e3(2) unfolding good_def by metis
  define e5 where "e5 = route_trades bt (be_trades e4) (update_snapshot bt now (lo_price order) e4)"
  have later: "good e'" if "later False bt e e'" "good e" for e e'
    using that by (simp add: later_def good_def)
  have "good e5"
    unfolding e5_def route_trades_def using e4(2) by (intro later [OF later_routes]) (simp_all add: snap)
  then obtain e6 l where e6: "release_pending bt now (call_strategy bt (Strategy_tick 0 (be_book e5)) e5) = Some (e6, l)" "good e6"
    using release later [OF later_call] by blast
  obtain e7 where "sample_equity bt now e6 = Some e7" "steady e6 e7"
    using sample_equity_returns [OF now(2)] by blast
  moreover have "be_trades (update_snapshot bt t p e) = be_trades e" for t p e
    by (simp add: update_snapshot_def Let_def)
  ultimately show ?thesis
    using e1 e6(2)
    by (simp add: replay_order_def Let_def b e3(1) e4(1) e5_def [symmetric] e6(1) good_def steady_def commands_ok_def
        count_trades_def)
qed

lemma replay_orders_return:
  "list_all (timely bt) orders \<Longrightarrow> book_inv fixed_config (be_book en) \<Longrightarrow> commands_ok bt en \<Longrightarrow>
    \<exists>en' stats'. replay_orders bt orders en stats = Some (en', stats')
      \<and> rs_orders_processed stats' = rs_orders_processed stats + of_nat (length orders)"
proof (induction orders arbitrary: en stats)
  case (Cons order orders)
  obtain e1 s1 where e1: "replay_order bt order en stats = Some (e1, s1)" "book_inv fixed_config (be_book e1)"
      "commands_ok bt e1" "rs_orders_processed s1 = rs_orders_processed stats"
    using replay_order_returns [of bt order en stats] Cons.prems by auto
  show ?case
    using Cons.IH [OF _ e1(2,3), of "s1\<lparr>rs_orders_processed := rs_orders_processed s1 + 1\<rparr>"] Cons.prems(1) e1(1,4)
    by (auto simp: add.assoc)
qed simp

lemma bt_run_returns:
  assumes "list_all (timely bt) orders"
  shows "\<exists>en stats. bt_run bt orders (new_bt_engine bt mem) = Some (en, stats) \<and> rs_orders_processed stats = of_nat (length orders)"
proof -
  let ?e0 = "reset_bt_engine bt (new_bt_engine bt mem)"
  let ?e1 = "call_strategy bt Strategy_start ?e0"
  have "slots_heap_ok po_release_time_ns (order_slots bt) (be_pending ?e0)"
    by (simp add: reset_bt_engine_def new_bt_engine_def slots_heap_ok_def clear_slots_ok heap_ok_def)
  then have "commands_ok bt ?e1" "be_book ?e1 = new_book fixed_config"
    using later_call [of bt ?e0 Strategy_start]
    by (simp_all add: later_def commands_ok_def reset_bt_engine_def new_bt_engine_def cleared_new_book)
  then obtain en stats where "replay_orders bt orders ?e1 \<lparr>rs_orders_processed = 0, rs_generated_trades = 0,
        rs_first_timestamp = 0, rs_last_timestamp = 0\<rparr> = Some (en, stats)" "rs_orders_processed stats = of_nat (length orders)"
    using replay_orders_return [OF assms, of ?e1 "\<lparr>rs_orders_processed = 0, rs_generated_trades = 0,
        rs_first_timestamp = 0, rs_last_timestamp = 0\<rparr>"] new_book_inv(1) [of fixed_config] by auto
  then show ?thesis by (simp add: bt_run_def Let_def)
qed

lemma recorded_timely: "timely bt order \<Longrightarrow> timely (recorded bt) order"
proof -
  have "sends_nothing (record_action ticks act lg) = sends_nothing act" for ticks lg and act :: "'a strategy_action"
    by (induction act arbitrary: lg) simp_all
  then have "listens_to_fills (recorded bt) = listens_to_fills bt"
    by (auto simp: listens_to_fills_def recorded_def)
  moreover have "drawn_latency (recorded bt) k = drawn_latency bt k" for k
    by (cases "jitter_distribution bt") (simp_all add: drawn_latency_def recorded_def)
  then have "delays (recorded bt) now = delays bt now" for now
    by (simp add: delays_def)
  ultimately show "timely bt order \<Longrightarrow> timely (recorded bt) order"
    by (simp add: timely_def settles_def) (simp add: recorded_def)
qed


subsection \<open>Every run\<close>

lemma backtest_ends_and_fills_fairly:
  assumes "list_all (timely bt) orders" "list_all (\<lambda>order. lo_id order < first_strategy_order_id) orders"
  shows "\<exists>en stats. bt_run (recorded bt) orders (new_bt_engine (recorded bt) (mem, [])) = Some (en, stats)
    \<and> rs_orders_processed stats = of_nat (length orders)
    \<and> (2 ^ 63 \<le> length (placed_ids (log_of en))
       \<or> fair_log (log_of en) \<and> list_all (live_backed (log_of en)) (be_live en) \<and> be_position en = net_position (log_of en))"
proof -
  have "list_all (timely (recorded bt)) orders" using assms(1) recorded_timely by (auto simp: list_all_iff)
  then obtain en stats where run: "bt_run (recorded bt) orders (new_bt_engine (recorded bt) (mem, [])) = Some (en, stats)"
      "rs_orders_processed stats = of_nat (length orders)"
    using bt_run_returns [of "recorded bt" orders "(mem, [])"] by blast
  have "kept (log_of en) en" using bt_run_logged [OF _ run(1)] assms(2) by (simp add: list_all_iff)
  then show ?thesis using run by (auto simp: kept_def book_kept_def list_all_iff)
qed

text \<open>A strategy that buys once at the start, and again at every fill, with a latency of a microsecond.\<close>

definition eager_backtest :: "unit backtest" where
  "eager_backtest = \<lparr>bt_fp = \<lparr>fp_of_u64 = id, fp_neg = id, fp_add = (\<lambda>x y. x), fp_mul = (\<lambda>x y. x),
       fp_div = (\<lambda>x y. x), fp_log = id, fp_log1p = id, fp_exp = id, fp_sqrt = id, fp_cos = id,
       fp_of_i64 = of_int, long_product = (\<lambda>x. 5)\<rparr>,
     order_slots = 4, initial_cash = 0, equity_sample_interval_ns = 1000000000, maker_fee_bps = 0, taker_fee_bps = 0,
     bt_base_latency_ns = 1000, jitter_distribution = No_jitter, jitter_mean_ns = 0, jitter_sigma = 0,
     exponential_draw = (\<lambda>k. 0), lognormal_draw = (\<lambda>k. 0),
     bt_strategy = (\<lambda>signal u. case signal of Strategy_tick a b \<Rightarrow> Done u
       | _ \<Rightarrow> Place 0 Buy 0x4014000000000000 7 0 (\<lambda>oid. Done u))\<rparr>"

end
