(* ===== verification/BacktestQueue.thy ===== *)
theory BacktestQueue
  imports BacktestRuns
begin

section \<open>The queue ahead of a strategy's order\<close>

text \<open>
  A live order waits behind the volume that rests at its price. The engine asks the book for
  that volume with \<open>get_total_quantity_at_price\<close>, whose price is a double in units of the
  quote currency, and passes the price in ticks of \<open>10 ^ -8\<close>; so it reads another level.
\<close>

definition tick_conversion_exact :: "backtest_fp \<Rightarrow> int \<Rightarrow> bool" where
  "tick_conversion_exact fp t \<longleftrightarrow> is_finite (fp_of_i64 fp t) \<and> \<not> is_at_most_zero (fp_of_i64 fp t)
     \<and> long_product fp (fp_of_i64 fp t) = of_int (t * 10 ^ 8)"

lemma ticks_twice:
  assumes "tick_conversion_exact fp t" "0 < t"
  shows "price_to_ticks fp (fp_of_i64 fp t) = (if i64_max < t * 10 ^ 8 then 0 else t * 10 ^ 8)"
proof -
  have "llround (of_int n) = n" if "0 < n" for n :: int
  proof -
    have "\<lfloor>(of_int n :: rat) + 1 / 2\<rfloor> = n" by linarith
    then show ?thesis using that by (simp add: llround_def)
  qed
  from this [of "t * 10 ^ 8"] show ?thesis
    using assms unfolding price_to_ticks_def tick_conversion_exact_def of_int_less_iff by (simp del: of_int_mult)
qed

lemma observed_elsewhere:
  assumes "tick_conversion_exact (bt_fp bt) (vo_price o')" "0 < vo_price o'"
  shows "observed_quantity bt o' en
    = quantity_at_ticks (be_book en) (vo_side o') (if i64_max < vo_price o' * 10 ^ 8 then 0 else vo_price o' * 10 ^ 8)"
  by (simp add: observed_quantity_def get_total_quantity_at_price_def ticks_twice [OF assms])

text \<open>C34: The queue position of a strategy's order is read at another price than its own. When an
  order that crosses nothing becomes active at a price of t ticks, the volume ahead of it is the quantity
  at \<open>t * 10 ^ 8\<close> ticks, a hundred million times its price, or at price 0 where that does
  not fit 64 bits, even where the ticks become a double without loss; with nothing resting that far away
  the order is the first in the queue, whatever rests at its price.\<close>
theorem queue_is_read_at_another_price:
  assumes "find_live (po_order_id p) en = Some i" "po_type p = Submit_command"
    and "\<not> vo_canceled (be_live en ! i)" "\<not> is_aggressive (be_live en ! i) en"
    and "tick_conversion_exact (bt_fp bt) (vo_price (be_live en ! i))" "0 < vo_price (be_live en ! i)"
  shows "vo_active (be_live (execute_pending_order bt p en) ! i)
    \<and> vo_volume_ahead (be_live (execute_pending_order bt p en) ! i)
      = (let t = vo_price (be_live en ! i) in
         quantity_at_ticks (be_book en) (vo_side (be_live en ! i)) (if i64_max < t * 10 ^ 8 then 0 else t * 10 ^ 8))"
proof -
  let ?e = "en\<lparr>be_trades := []\<rparr>"
  have f: "find_live x ?e = find_live x en" for x by (simp add: find_live_def)
  have a: "is_aggressive o' ?e = is_aggressive o' en" for o' by (simp add: is_aggressive_def)
  have i: "i < length (be_live en)" using find_live_Some(1) [OF assms(1)] .
  have "observed_quantity bt o' ?e = observed_quantity bt o' en" for o' by (simp add: observed_quantity_def)
  then have "execute_pending_order bt p en
      = upd_live i (\<lambda>x. x\<lparr>vo_active := True, vo_volume_ahead := observed_quantity bt x en\<rparr>) ?e"
    using assms(1-4) by (simp add: execute_pending_order_def f a)
  then show ?thesis
    using i observed_elsewhere [OF assms(5,6)] by (simp add: upd_live_def Let_def)
qed

text \<open>A bid for nine at 100 rests in the book; a strategy's bid for one at 100 joins it.\<close>

definition queue_backtest :: "unit backtest" where
  "queue_backtest = eager_backtest\<lparr>bt_fp := (bt_fp eager_backtest)
     \<lparr>fp_of_i64 := (\<lambda>i. if i = 100 then 0x4059000000000000 else 0),
      long_product := (\<lambda>x. if x = 0x4059000000000000 then 10000000000 else 0)\<rparr>\<rparr>"

definition joining :: "matching_book \<Rightarrow> unit bt_engine" where
  "joining b = (new_bt_engine queue_backtest ())\<lparr>be_book := b, be_live := [\<lparr>vo_asset_id = 0, vo_order_id = first_strategy_order_id,
     vo_side = Buy, vo_price = 100, vo_remaining_quantity = 1, vo_volume_ahead = 0, vo_active = False, vo_canceled = False\<rparr>]\<rparr>"

definition join_command :: pending_order where
  "join_command = no_pending_order\<lparr>po_order_id := first_strategy_order_id, po_side := Buy, po_price := 100, po_quantity := 1\<rparr>"

definition nine_bid :: lob_order where
  "nine_bid = \<lparr>lo_id = 1, lo_price = 100, lo_quantity = 9, lo_side = Buy, lo_timestamp = 0\<rparr>"

lemma nine_ladder:
  obtains b trades where "process_order nine_bid (new_book fixed_config) = Some (b, trades)" "book_inv fixed_config b"
    "ladder b = (\<lambda>s. [])(Buy := [(100, [(fixed_order 1 Buy 100 9 0 GTC, 9)])])"
proof -
  obtain b fills where p: "process_order nine_bid (new_book fixed_config) = Some (b, map (fill_trade nine_bid) fills)"
      "book_inv fixed_config b"
      "ladder b = fst (spec_submit fixed_config (fixed_order (lo_id nine_bid) (lo_side nine_bid) (lo_price nine_bid)
         (lo_quantity nine_bid) (lo_timestamp nine_bid) GTC) (ladder (new_book fixed_config)))"
    using process_order_match [OF new_book_inv(1), of nine_bid] by blast
  have "ladder b = (\<lambda>s. [])(Buy := [(100, [(fixed_order 1 Buy 100 9 0 GTC, 9)])])"
    using p(3) new_book_inv(2) [of fixed_config]
    by (simp add: nine_bid_def spec_submit_def spec_admits_def is_valid_order_def fixed_order_def ladder_ids_def
        spec_outcome_def spec_match.simps spec_finish_def spec_rest_def with_fills_def fills_quantity_def fill_executions_def
        fresh_result_def default_match_result_def fixed_config_def order_count_def fun_eq_iff invalid_order_id_def)
  then show ?thesis using that p(1,2) by blast
qed

lemma nine_rest:
  obtains b trades where "process_order nine_bid (new_book fixed_config) = Some (b, trades)" "book_inv fixed_config b"
    "fst ` set (ladder b Buy) = {100}" "quantity_at_ticks b Buy 100 = 9" "ladder b Sell = []"
proof (rule nine_ladder)
  fix b trades assume b: "process_order nine_bid (new_book fixed_config) = Some (b, trades)" "book_inv fixed_config b"
    "ladder b = (\<lambda>s. [])(Buy := [(100, [(fixed_order 1 Buy 100 9 0 GTC, 9)])])"
  then have "fst ` set (ladder b Buy) = {100}" "quantity_at_ticks b Buy 100 = 9" "ladder b Sell = []"
    using quantity_at_ladder [OF b(2), of Buy 100] by (simp_all add: quantity_at_ticks_def)
  then show thesis using that b(1,2) by blast
qed

theorem queue_is_read_at_another_price_witness:
  "\<exists>b trades. process_order nine_bid (new_book fixed_config) = Some (b, trades)
    \<and> quantity_at_ticks b Buy 100 = 9
    \<and> vo_active (be_live (execute_pending_order queue_backtest join_command (joining b)) ! 0)
    \<and> vo_volume_ahead (be_live (execute_pending_order queue_backtest join_command (joining b)) ! 0) = 0"
proof -
  obtain b trades where b: "process_order nine_bid (new_book fixed_config) = Some (b, trades)" "book_inv fixed_config b"
    "fst ` set (ladder b Buy) = {100}" "quantity_at_ticks b Buy 100 = 9" "ladder b Sell = []"
    by (rule nine_rest)
  have "best_level fixed_config b Sell = None"
    using best_level_top [OF b(2), of Sell] b(5) by (simp add: totals_ok_def no_wrap_def ladder_def top_def)
  then have calm: "\<not> is_aggressive (be_live (joining b) ! 0) (joining b)"
    by (simp add: is_aggressive_def joining_def best_ask_ticks_def best_ask_def)
  have found: "find_live (po_order_id join_command) (joining b) = Some 0"
    by (simp add: find_live_def joining_def join_command_def)
  have exact: "tick_conversion_exact (bt_fp queue_backtest) (vo_price (be_live (joining b) ! 0))"
    by (simp add: tick_conversion_exact_def queue_backtest_def joining_def is_finite_def is_at_most_zero_def
        dbl_zero_def dbl_minus_zero_def dbl_minus_infinity_def)
  have "map_of (ladder b Buy) 10000000000 = None"
    by (simp add: map_of_eq_None_iff b(3))
  then have "quantity_at_ticks b Buy 10000000000 = 0"
    using quantity_at_ladder [OF b(2), of Buy 10000000000] by (simp add: quantity_at_ticks_def)
  then show ?thesis
    using queue_is_read_at_another_price [OF found _ _ calm exact] b(1,4)
    by (auto simp: joining_def join_command_def no_pending_order_def i64_max_def)
qed

end
