(* ===== verification/FileReplay.thy ===== *)
theory FileReplay
  imports CsvProperties BacktestQueue
begin

section \<open>Files replayed\<close>

text \<open>
  What the program does with a file of orders: \<open>CsvParser::process_file\<close> and \<open>replay_file\<close> of
  \<open>src/csv_parser.cpp\<close> submit them to a fixed matching book, and \<open>BacktestEngine::run\<close> replays
  them. An exception of the parser ends the loop after the orders handed out before it.
\<close>

fun submit_orders :: "lob_order list \<Rightarrow> matching_book \<Rightarrow> matching_book option" where
  "submit_orders [] b = Some b"
| "submit_orders (order # orders) b =
     (case fixed_submit order b of None \<Rightarrow> None | Some (b, r) \<Rightarrow> submit_orders orders b)"

definition process_file :: "string \<Rightarrow> matching_book \<Rightarrow> (matching_book \<times> (csv_error + u64)) option" where
  "process_file file b =
     (case parse_file file of (orders, e) \<Rightarrow>
        (case submit_orders orders b of
           None \<Rightarrow> None
         | Some b \<Rightarrow> Some (b, case e of None \<Rightarrow> Inr (of_nat (length orders)) | Some e \<Rightarrow> Inl e)))"

definition no_replay_stats :: replay_stats where
  "no_replay_stats = \<lparr>rs_orders_processed = 0, rs_generated_trades = 0, rs_first_timestamp = 0, rs_last_timestamp = 0\<rparr>"

definition count_order :: "lob_order \<Rightarrow> match_result \<Rightarrow> replay_stats \<Rightarrow> replay_stats" where
  "count_order order r stats = stats\<lparr>
     rs_orders_processed := rs_orders_processed stats + 1,
     rs_generated_trades := rs_generated_trades stats + of_nat (length (mr_executions r) div 2),
     rs_first_timestamp := (if rs_first_timestamp stats = 0 then lo_timestamp order else rs_first_timestamp stats),
     rs_last_timestamp := lo_timestamp order\<rparr>"

fun replay_submits :: "lob_order list \<Rightarrow> matching_book \<Rightarrow> replay_stats \<Rightarrow> (matching_book \<times> replay_stats) option" where
  "replay_submits [] b stats = Some (b, stats)"
| "replay_submits (order # orders) b stats =
     (case fixed_submit order b of None \<Rightarrow> None
      | Some (b, r) \<Rightarrow> replay_submits orders b (count_order order r stats))"

definition replay_file :: "string \<Rightarrow> matching_book \<Rightarrow> (matching_book \<times> (csv_error + replay_stats)) option" where
  "replay_file file b =
     (case parse_file file of (orders, e) \<Rightarrow>
        (case replay_submits orders b no_replay_stats of
           None \<Rightarrow> None
         | Some (b, stats) \<Rightarrow> Some (b, case e of None \<Rightarrow> Inr stats | Some e \<Rightarrow> Inl e)))"

text \<open>The backtest of a file; when the parser throws, the equity at the end is not recorded.\<close>

definition bt_run_file :: "'m backtest \<Rightarrow> string \<Rightarrow> 'm bt_engine \<Rightarrow> ('m bt_engine \<times> (csv_error + replay_stats)) option" where
  "bt_run_file bt file en =
     (case parse_file file of
        (orders, None) \<Rightarrow> map_option (\<lambda>(en, stats). (en, Inr stats)) (bt_run bt orders en)
      | (orders, Some e) \<Rightarrow> map_option (\<lambda>(en, stats). (en, Inl e))
          (replay_orders bt orders (call_strategy bt Strategy_start (reset_bt_engine bt en)) no_replay_stats))"

subsection \<open>The same orders as the book alone\<close>

definition first_set :: "u64 \<Rightarrow> u64 list \<Rightarrow> u64" where
  "first_set t ts = hd (filter (\<lambda>x. x \<noteq> 0) (t # ts) @ [0])"

lemma first_set_Cons: "first_set t (u # ts) = first_set (if t = 0 then u else t) ts"
  by (simp add: first_set_def)

lemma executions_in_pairs: "length (trades_of es) = length es div 2"
  by (induction es rule: trades_of.induct) auto

lemma replay_submits_process:
  "process_orders orders b = Some (b', tss) \<Longrightarrow>
     submit_orders orders b = Some b' \<and>
     replay_submits orders b stats = Some (b', \<lparr>rs_orders_processed = rs_orders_processed stats + of_nat (length orders),
       rs_generated_trades = rs_generated_trades stats + of_nat (sum_list (map length tss)),
       rs_first_timestamp = first_set (rs_first_timestamp stats) (map lo_timestamp orders),
       rs_last_timestamp = last (rs_last_timestamp stats # map lo_timestamp orders)\<rparr>)"
proof (induction orders arbitrary: b stats tss)
  case Nil
  then show ?case by (simp add: first_set_def)
next
  case (Cons order orders)
  obtain b1 r tss1 where s: "fixed_submit order b = Some (b1, r)" "process_orders orders b1 = Some (b', tss1)"
      "tss = trades_of (mr_executions r) # tss1"
    using Cons.prems by (auto simp: process_order_def split: option.splits prod.splits)
  show ?case
    using Cons.IH [OF s(2), of "count_order order r stats"] s(1,3)
    by (auto simp: count_order_def first_set_Cons executions_in_pairs add.assoc)
qed

definition replayed :: "lob_order list \<Rightarrow> trade list list \<Rightarrow> replay_stats" where
  "replayed orders tss = \<lparr>rs_orders_processed = of_nat (length orders), rs_generated_trades = of_nat (sum_list (map length tss)),
     rs_first_timestamp = first_set 0 (map lo_timestamp orders), rs_last_timestamp = last (0 # map lo_timestamp orders)\<rparr>"

lemma replay_file_orders:
  assumes "parse_file file = (orders, e)" "process_orders orders b = Some (b', tss)"
  shows "process_file file b = Some (b', case e of None \<Rightarrow> Inr (of_nat (length orders)) | Some e \<Rightarrow> Inl e)"
    "replay_file file b = Some (b', case e of None \<Rightarrow> Inr (replayed orders tss) | Some e \<Rightarrow> Inl e)"
proof -
  have "submit_orders orders b = Some b'" "replay_submits orders b no_replay_stats = Some (b', replayed orders tss)"
    using replay_submits_process [OF assms(2), of no_replay_stats] by (simp_all add: no_replay_stats_def replayed_def)
  then show "process_file file b = Some (b', case e of None \<Rightarrow> Inr (of_nat (length orders)) | Some e \<Rightarrow> Inl e)"
    "replay_file file b = Some (b', case e of None \<Rightarrow> Inr (replayed orders tss) | Some e \<Rightarrow> Inl e)"
    by (simp_all add: process_file_def replay_file_def assms(1))
qed

text \<open>Replaying a file is replaying its orders. Any parsed file is processed and replayed on an empty book, with
  the book that its orders, submitted one by one, leave; the statistics count the orders and their trades
  and give the first time that is not 0 and the last one; and a row the parser refuses turns the
  answer into its error, with every order handed out before it in the book.\<close>
theorem file_replay_submits_its_orders:
  "let (orders, e) = parse_file file in \<exists>b tss. process_orders orders (new_book fixed_config) = Some (b, tss)
    \<and> process_file file (new_book fixed_config) = Some (b, case e of None \<Rightarrow> Inr (of_nat (length orders)) | Some e \<Rightarrow> Inl e)
    \<and> replay_file file (new_book fixed_config)
      = Some (b, case e of None \<Rightarrow> Inr (replayed orders tss) | Some e \<Rightarrow> Inl e)"
proof -
  obtain orders e where f: "parse_file file = (orders, e)" by fastforce
  have "ladder_ids (ladder (new_book fixed_config) s) \<subseteq> {}" for s
    by (simp add: new_book_inv(2) ladder_ids_def)
  from process_orders_fair [OF new_book_inv(1) this, of orders]
  obtain b tss where "process_orders orders (new_book fixed_config) = Some (b, tss)" by blast
  with replay_file_orders [OF f this] f show ?thesis by simp
qed


subsection \<open>The backtest of a file\<close>

text \<open>C33: A backtest of a file of well-formed rows ends, whatever the strategy computes, and has
  replayed every row, when at every row either each latency moves a command to a later time, or the
  strategy sends nothing in answer to a fill, and the next sample of the equity does not wrap around the
  clock. In the run the strategy is told the truth: every fill it gets is of an order it placed before,
  on that order's side, at its price when the market came to it and within its limit when it took from
  the book; no order is filled for more than its quantity; an order that is still live has exactly the
  rest of its quantity; and the position of the engine is the sum of the fills. Two cases are left out: a
  file with an order id of \<open>2 ^ 63\<close> or more, the range in which the engine numbers the
  strategy's orders, so that a trade between recorded orders could pass for one of the strategy; and a
  run with \<open>2 ^ 63\<close> placed orders, whose numbers would start again at zero.\<close>
theorem backtest_of_a_file_ends_and_fills_fairly:
  assumes "list_all row_ok rows" "list_all (\<lambda>r. timely bt (row_order r)) rows"
    and "list_all (\<lambda>r. lo_id (row_order r) < first_strategy_order_id) rows"
  shows "\<exists>en stats. bt_run_file (recorded bt) (file_text rows) (new_bt_engine (recorded bt) (mem, [])) = Some (en, Inr stats)
    \<and> rs_orders_processed stats = of_nat (length rows)
    \<and> (2 ^ 63 \<le> length (placed_ids (log_of en))
       \<or> fair_log (log_of en) \<and> list_all (live_backed (log_of en)) (be_live en) \<and> be_position en = net_position (log_of en))"
proof -
  have "parse_file (file_text rows) = (map row_order rows, None)" using assms(1) by (rule parse_file_text)
  then show ?thesis
    using backtest_ends_and_fills_fairly [of bt "map row_order rows" mem] assms(2,3)
    by (auto simp: bt_run_file_def list_all_iff)
qed

text \<open>A sale of three at 4 and of nine at 5; the strategy bids 5 for seven, and again at every fill.\<close>

definition two_sales :: "csv_row list" where
  "two_sales = [\<lparr>row_order = \<lparr>lo_id = 1, lo_price = 4, lo_quantity = 3, lo_side = Sell, lo_timestamp = 1\<rparr>,
       row_quote_quantity = [], row_last_field = [], row_crlf = False\<rparr>,
     \<lparr>row_order = \<lparr>lo_id = 2, lo_price = 5, lo_quantity = 9, lo_side = Sell, lo_timestamp = 2\<rparr>,
       row_quote_quantity = ''45'', row_last_field = ''True'', row_crlf = True\<rparr>]"

theorem backtest_of_a_file_ends_and_fills_fairly_witness:
  "\<exists>en stats. bt_run_file (recorded eager_backtest) (file_text two_sales) (new_bt_engine (recorded eager_backtest) ((), []))
      = Some (en, Inr stats)
    \<and> rs_orders_processed stats = 2
    \<and> (2 ^ 63 \<le> length (placed_ids (log_of en))
       \<or> fair_log (log_of en) \<and> list_all (live_backed (log_of en)) (be_live en) \<and> be_position en = net_position (log_of en))"
proof -
  have "list_all row_ok two_sales"
    by (simp add: two_sales_def row_ok_def plain_text_def ends_field_def i64_max_def)
  moreover have "list_all (\<lambda>r. timely eager_backtest (row_order r)) two_sales"
    by (simp add: timely_def settles_def delays_def drawn_latency_def eager_backtest_def two_sales_def ns_per_ms_def)
  moreover have "list_all (\<lambda>r. lo_id (row_order r) < first_strategy_order_id) two_sales"
    by (simp add: two_sales_def first_strategy_order_id_def)
  ultimately show ?thesis
    using backtest_of_a_file_ends_and_fills_fairly [of two_sales eager_backtest "()"] by (simp add: two_sales_def)
qed

end
