(* ===== verification/L2Backtest.thy ===== *)
theory L2Backtest
  imports BacktestEngine L2BookProperties GraphArbitrage
begin

section \<open>The backtest over aggregated levels\<close>

text \<open>
  \<open>L2BacktestEngine\<close> of \<open>include/lob/l2_backtest_engine.hpp\<close> and
  \<open>src/l2_backtest_engine.cpp\<close>. It applies a file of level updates, in batches of one time,
  to an aggregated book and lets one strategy take from the visible depth after a latency.
  The array of live orders is a vector of fixed capacity with its stale entries, because a sweep
  holds a reference to an entry while other calls move entries. The file is the list of
  its events; a strategy is a tree of gateway calls for each callback, as for the
  order-by-order engine, and so is a \<open>L2Strategy\<close>.
\<close>

datatype l2_signal = L2_start | L2_tick l2_book | L2_book_tick matching_book | L2_fill strategy_fill

record 'm l2_backtest =
  lb_fp :: backtest_fp
  lb_slots :: nat
  lb_initial_cash :: double
  lb_maker_fee_bps :: double
  lb_taker_fee_bps :: double
  lb_latency_ns :: u64
  lb_equity_interval_ns :: u64
  lb_max_levels :: nat
  lb_quantity_scale :: double
  lb_record_features :: bool
  lb_feature_interval_ns :: u64
  lb_is_l2_strategy :: bool
  lb_strategy :: "l2_signal \<Rightarrow> 'm \<Rightarrow> 'm strategy_action"

record l2_pending =
  lp_type :: pending_command
  lp_asset_id :: asset_id
  lp_release_time_ns :: u64
  lp_order_id :: u64
  lp_side :: side
  lp_price :: double
  lp_quantity :: u64

record l2_order =
  lv_asset_id :: asset_id
  lv_order_id :: u64
  lv_order_side :: side
  lv_order_price :: double
  lv_remaining :: u64
  lv_is_active :: bool
  lv_canceled :: bool

record feature_row =
  fr_timestamp :: u64
  fr_best_bid :: double
  fr_best_ask :: double
  fr_mid_price :: double
  fr_spread_bps :: double
  fr_bid_qty_1 :: double
  fr_ask_qty_1 :: double
  fr_imbalance_1 :: double
  fr_bid_qty_visible :: double
  fr_ask_qty_visible :: double
  fr_position :: int
  fr_nav :: double

record 'm l2_engine =
  le_book :: l2_book
  le_strategy_book :: matching_book
  le_pending :: "l2_pending slot_heap"
  le_live :: "l2_order static_vector"
  le_equity_curve :: "double list"
  le_features :: "feature_row list"
  le_next_order_id :: u64
  le_next_equity :: u64
  le_next_feature :: u64
  le_time :: u64
  le_synthetic_id :: u64
  le_dropped :: u64
  le_submitted :: u64
  le_cancels :: u64
  le_last_fill :: u64
  le_execution :: execution_diagnostics
  le_cash :: double
  le_position :: int
  le_memory :: 'm

record l2_stats =
  ls_events_processed :: u64
  ls_market_batches :: u64
  ls_strategy_ticks :: u64

datatype l2_config_error = Quantity_scale_not_positive | No_book_levels

definition no_l2_pending :: l2_pending where
  "no_l2_pending = \<lparr>lp_type = Submit_command, lp_asset_id = 0, lp_release_time_ns = 0, lp_order_id = 0,
     lp_side = Buy, lp_price = dbl_zero, lp_quantity = 0\<rparr>"

definition no_l2_order :: l2_order where
  "no_l2_order = \<lparr>lv_asset_id = 0, lv_order_id = 0, lv_order_side = Buy, lv_order_price = dbl_zero, lv_remaining = 0,
     lv_is_active = False, lv_canceled = False\<rparr>"

definition new_l2_engine :: "'m l2_backtest \<Rightarrow> 'm \<Rightarrow> 'm l2_engine" where
  "new_l2_engine bt mem = \<lparr>le_book = new_l2_book (lb_max_levels bt), le_strategy_book = new_book fixed_config,
     le_pending = new_slot_heap (lb_slots bt) no_l2_pending, le_live = vec_new (lb_slots bt) no_l2_order,
     le_equity_curve = [], le_features = [], le_next_order_id = first_strategy_order_id, le_next_equity = 0,
     le_next_feature = 0, le_time = 0, le_synthetic_id = 1, le_dropped = 0, le_submitted = 0, le_cancels = 0,
     le_last_fill = 0, le_execution = no_execution, le_cash = lb_initial_cash bt, le_position = 0, le_memory = mem\<rparr>"

definition reset_runtime :: "'m l2_backtest \<Rightarrow> 'm l2_engine \<Rightarrow> 'm l2_engine" where
  "reset_runtime bt en = en\<lparr>le_book := new_l2_book (lb_max_levels bt), le_strategy_book := fixed_clear (le_strategy_book en),
     le_pending := slot_clear (lb_slots bt) (le_pending en), le_live := vec_clear (le_live en), le_equity_curve := [],
     le_features := [], le_next_order_id := first_strategy_order_id, le_next_equity := 0, le_next_feature := 0,
     le_time := 0, le_synthetic_id := 1, le_dropped := 0, le_submitted := 0, le_cancels := 0, le_last_fill := 0,
     le_execution := no_execution, le_cash := lb_initial_cash bt, le_position := 0\<rparr>"

subsection \<open>Conversions\<close>

definition dbl_less :: "double \<Rightarrow> double \<Rightarrow> bool" where
  "dbl_less a b \<longleftrightarrow> \<not> dbl_is_nan a \<and> \<not> dbl_is_nan b \<and> dbl_rank a < dbl_rank b"

text \<open>The value of a finite double.\<close>

definition dbl_value :: "double \<Rightarrow> rat" where
  "dbl_value d =
     (let e = max 1 (dbl_exponent d); s = of_nat (dbl_significand d);
          v = (if 1075 \<le> e then s * 2 ^ (e - 1075) else s / 2 ^ (1075 - e))
      in if bit d 63 then - v else v)"

definition l2_units :: "'m l2_backtest \<Rightarrow> u64 \<Rightarrow> double" where
  "l2_units bt q = fp_div (lb_fp bt) (fp_of_u64 (lb_fp bt) q) dbl_scale"

definition l2_price_units :: "'m l2_backtest \<Rightarrow> int \<Rightarrow> double" where
  "l2_price_units bt p = fp_div (lb_fp bt) (fp_of_i64 (lb_fp bt) p) dbl_scale"

definition level_qty_to_order_qty :: "'m l2_backtest \<Rightarrow> u64 \<Rightarrow> u64" where
  "level_qty_to_order_qty bt lots =
     (if lots = 0 then 0
      else of_int (llround (dbl_value (fp_mul (lb_fp bt) (l2_units bt lots) (lb_quantity_scale bt)))))"

definition order_qty_to_units :: "'m l2_backtest \<Rightarrow> u64 \<Rightarrow> double" where
  "order_qty_to_units bt q = fp_div (lb_fp bt) (fp_of_u64 (lb_fp bt) q) (lb_quantity_scale bt)"

definition order_qty_to_lots :: "'m l2_backtest \<Rightarrow> u64 \<Rightarrow> u64" where
  "order_qty_to_lots bt q = of_int (llround (dbl_value (fp_mul (lb_fp bt) (order_qty_to_units bt q) dbl_scale)))"

subsection \<open>The visible book\<close>

definition mid_of :: "'m l2_backtest \<Rightarrow> double \<Rightarrow> double \<Rightarrow> double" where
  "mid_of bt bid ask =
     (if is_positive bid \<and> is_positive ask then fp_mul (lb_fp bt) (fp_add (lb_fp bt) bid ask) dbl_half
      else if is_positive bid then bid else ask)"

definition visible_best :: "'m l2_backtest \<Rightarrow> bool \<Rightarrow> 'm l2_engine \<Rightarrow> double" where
  "visible_best bt is_bid en = l2_price_units bt (effective_best_price is_bid (le_book en))"

definition current_mid_price :: "'m l2_backtest \<Rightarrow> 'm l2_engine \<Rightarrow> double" where
  "current_mid_price bt en = mid_of bt (visible_best bt True en) (visible_best bt False en)"

definition current_nav :: "'m l2_backtest \<Rightarrow> 'm l2_engine \<Rightarrow> double" where
  "current_nav bt en = fp_add (lb_fp bt) (le_cash en)
     (fp_mul (lb_fp bt) (fp_div (lb_fp bt) (fp_of_i64 (lb_fp bt) (le_position en)) (lb_quantity_scale bt))
       (current_mid_price bt en))"

definition has_visible_book :: "'m l2_engine \<Rightarrow> bool" where
  "has_visible_book en \<longleftrightarrow> 0 < effective_best_price True (le_book en) \<and> 0 < effective_best_price False (le_book en)"

definition l2_is_aggressive :: "'m l2_backtest \<Rightarrow> l2_order \<Rightarrow> 'm l2_engine \<Rightarrow> bool" where
  "l2_is_aggressive bt o' en =
     (if lv_order_side o' = Buy
      then is_positive (visible_best bt False en) \<and> dbl_le (visible_best bt False en) (lv_order_price o')
      else is_positive (visible_best bt True en) \<and> dbl_le (lv_order_price o') (visible_best bt True en))"

subsection \<open>The live orders\<close>

definition l2_find_live :: "u64 \<Rightarrow> 'm l2_engine \<Rightarrow> nat option" where
  "l2_find_live order_id en =
     find (\<lambda>i. lv_order_id (sv_data (le_live en) ! i) = order_id) [0..<sv_size (le_live en)]"

definition l2_add_live :: "l2_order \<Rightarrow> 'm l2_engine \<Rightarrow> 'm l2_engine \<times> bool" where
  "l2_add_live o' en = (case vec_push_back o' (le_live en) of (v, ok) \<Rightarrow> (en\<lparr>le_live := v\<rparr>, ok))"

text \<open>The last order moves into the gap; its own entry stays as it is behind the count.\<close>

definition l2_erase_live :: "nat \<Rightarrow> 'm l2_engine \<Rightarrow> 'm l2_engine" where
  "l2_erase_live i en =
     (let v = le_live en; n = sv_size v - 1 in
      if sv_size v \<le> i then en
      else en\<lparr>le_live := \<lparr>sv_data = (if i \<noteq> n then (sv_data v)[i := sv_data v ! n] else sv_data v), sv_size = n\<rparr>\<rparr>)"

definition l2_erase_id :: "u64 \<Rightarrow> 'm l2_engine \<Rightarrow> 'm l2_engine" where
  "l2_erase_id order_id en = (case l2_find_live order_id en of None \<Rightarrow> en | Some i \<Rightarrow> l2_erase_live i en)"

subsection \<open>The gateway\<close>

definition l2_submit_order :: "'m l2_backtest \<Rightarrow> asset_id \<Rightarrow> side \<Rightarrow> double \<Rightarrow> u64 \<Rightarrow> 'm l2_engine \<Rightarrow> 'm l2_engine \<times> u64" where
  "l2_submit_order bt asset sd price quantity en =
     (let oid = le_next_order_id en; en = en\<lparr>le_next_order_id := oid + 1\<rparr> in
      if quantity = 0 then (en, oid)
      else case l2_add_live \<lparr>lv_asset_id = asset, lv_order_id = oid, lv_order_side = sd, lv_order_price = price,
             lv_remaining = quantity, lv_is_active = False, lv_canceled = False\<rparr> en of
          (en, False) \<Rightarrow> (en\<lparr>le_dropped := le_dropped en + 1\<rparr>, oid)
        | (en, True) \<Rightarrow>
            (case slot_push lp_release_time_ns \<lparr>lp_type = Submit_command, lp_asset_id = asset,
                 lp_release_time_ns = le_time en + lb_latency_ns bt, lp_order_id = oid, lp_side = sd, lp_price = price,
                 lp_quantity = quantity\<rparr> (le_pending en) of
               (pending, False) \<Rightarrow>
                 (let en = l2_erase_id oid (en\<lparr>le_pending := pending\<rparr>) in (en\<lparr>le_dropped := le_dropped en + 1\<rparr>, oid))
             | (pending, True) \<Rightarrow> (en\<lparr>le_pending := pending, le_submitted := le_submitted en + 1\<rparr>, oid)))"

definition l2_cancel_order :: "'m l2_backtest \<Rightarrow> asset_id \<Rightarrow> u64 \<Rightarrow> 'm l2_engine \<Rightarrow> 'm l2_engine \<times> bool" where
  "l2_cancel_order bt asset order_id en =
     (case slot_push lp_release_time_ns (no_l2_pending\<lparr>lp_type := Cancel_command, lp_asset_id := asset,
          lp_release_time_ns := le_time en + lb_latency_ns bt, lp_order_id := order_id\<rparr>) (le_pending en) of
        (pending, False) \<Rightarrow> (en\<lparr>le_pending := pending, le_dropped := le_dropped en + 1\<rparr>, False)
      | (pending, True) \<Rightarrow> (en\<lparr>le_pending := pending, le_cancels := le_cancels en + 1\<rparr>, True))"

primrec run_l2_strategy :: "'m l2_backtest \<Rightarrow> 'm strategy_action \<Rightarrow> 'm l2_engine \<Rightarrow> 'm l2_engine" where
  "run_l2_strategy bt (Done mem) = (\<lambda>en. en\<lparr>le_memory := mem\<rparr>)"
| "run_l2_strategy bt (Place asset sd price quantity t k) =
     (\<lambda>en. case l2_submit_order bt asset sd price quantity en of (en, oid) \<Rightarrow> run_l2_strategy bt (k oid) en)"
| "run_l2_strategy bt (Withdraw asset oid k) =
     (\<lambda>en. case l2_cancel_order bt asset oid en of (en, ok) \<Rightarrow> run_l2_strategy bt (k ok) en)"
| "run_l2_strategy bt (Ask_time k) = (\<lambda>en. run_l2_strategy bt (k (le_time en)) en)"

definition call_l2_strategy :: "'m l2_backtest \<Rightarrow> l2_signal \<Rightarrow> 'm l2_engine \<Rightarrow> 'm l2_engine" where
  "call_l2_strategy bt signal en = run_l2_strategy bt (lb_strategy bt signal (le_memory en)) en"

subsection \<open>Fills\<close>

definition l2_notional :: "'m l2_backtest \<Rightarrow> strategy_fill \<Rightarrow> double" where
  "l2_notional bt f = fp_mul (lb_fp bt) (l2_price_units bt (sf_price f)) (l2_units bt (sf_quantity f))"

definition l2_fee :: "'m l2_backtest \<Rightarrow> strategy_fill \<Rightarrow> double" where
  "l2_fee bt f = fp_mul (lb_fp bt) (fp_mul (lb_fp bt) (l2_notional bt f)
     (if sf_role f = Maker then lb_maker_fee_bps bt else lb_taker_fee_bps bt)) dbl_basis_point"

definition l2_count_fill :: "'m l2_backtest \<Rightarrow> strategy_fill \<Rightarrow> execution_diagnostics \<Rightarrow> execution_diagnostics" where
  "l2_count_fill bt f x =
     (let units = l2_units bt (sf_quantity f); notional = l2_notional bt f in
      if sf_role f = Maker
      then x\<lparr>maker_fills_count := maker_fills_count x + 1, maker_volume := fp_add (lb_fp bt) (maker_volume x) units,
             maker_notional := fp_add (lb_fp bt) (maker_notional x) notional\<rparr>
      else x\<lparr>taker_fills_count := taker_fills_count x + 1, taker_volume := fp_add (lb_fp bt) (taker_volume x) units,
             taker_notional := fp_add (lb_fp bt) (taker_notional x) notional\<rparr>)"

definition l2_reduce_live :: "u64 \<Rightarrow> u64 \<Rightarrow> 'm l2_engine \<Rightarrow> 'm l2_engine" where
  "l2_reduce_live order_id quantity en =
     (case l2_find_live order_id en of
        None \<Rightarrow> en
      | Some i \<Rightarrow>
          let o' = sv_data (le_live en) ! i; r = lv_remaining o'; left = (if quantity < r then r - quantity else 0);
              en = en\<lparr>le_live := vec_put i (o'\<lparr>lv_remaining := left\<rparr>) (le_live en)\<rparr>
          in if left = 0 then l2_erase_live i en else en)"

definition l2_settle_fill :: "'m l2_backtest \<Rightarrow> strategy_fill \<Rightarrow> 'm l2_engine \<Rightarrow> 'm l2_engine" where
  "l2_settle_fill bt f en =
     (let notional = l2_notional bt f; fee = l2_fee bt f; quantity = sint (level_qty_to_order_qty bt (sf_quantity f)) in
      if sf_side f = Buy
      then en\<lparr>le_cash := fp_add (lb_fp bt) (le_cash en) (fp_neg (lb_fp bt) (fp_add (lb_fp bt) notional fee)),
              le_position := le_position en + quantity\<rparr>
      else en\<lparr>le_cash := fp_add (lb_fp bt) (le_cash en) (fp_add (lb_fp bt) notional (fp_neg (lb_fp bt) fee)),
              le_position := le_position en - quantity\<rparr>)"

definition l2_route_fill :: "'m l2_backtest \<Rightarrow> strategy_fill \<Rightarrow> 'm l2_engine \<Rightarrow> 'm l2_engine" where
  "l2_route_fill bt f en =
     (let en = en\<lparr>le_execution := l2_count_fill bt f (le_execution en)\<rparr>;
          en = l2_reduce_live (sf_order_id f) (level_qty_to_order_qty bt (sf_quantity f)) en;
          en = l2_settle_fill bt f en
      in call_l2_strategy bt (L2_fill f) (en\<lparr>le_last_fill := sf_timestamp f\<rparr>))"

text \<open>
  One sweep, on the side that the order in slot \<open>i\<close> had when it began. The order is read from
  the slot each time, as through the reference of the code. The list holds the positions
  of the levels to visit.
\<close>

definition swept_side :: "side \<Rightarrow> 'm l2_engine \<Rightarrow> l2_level list" where
  "swept_side sd en = live (sd_levels (side_of (sd = Sell) (le_book en)))"

definition beyond_limit :: "'m l2_backtest \<Rightarrow> side \<Rightarrow> l2_order \<Rightarrow> l2_level \<Rightarrow> bool" where
  "beyond_limit bt sd o' level =
     (if sd = Buy then dbl_less (lv_order_price o') (l2_price_units bt (l2_price level))
      else dbl_less (l2_price_units bt (l2_price level)) (lv_order_price o'))"

definition sweep_fill :: "'m l2_backtest \<Rightarrow> side \<Rightarrow> liquidity_role \<Rightarrow> u64 \<Rightarrow> l2_order \<Rightarrow> l2_level \<Rightarrow> strategy_fill" where
  "sweep_fill bt sd role timestamp o' level =
     (let quantity = min (level_qty_to_order_qty bt (effective_qty_of level)) (lv_remaining o') in
      \<lparr>sf_order_id = lv_order_id o', sf_price = l2_price level, sf_quantity = order_qty_to_lots bt quantity,
       sf_timestamp = timestamp, sf_asset_id = lv_asset_id o', sf_side = sd, sf_role = role\<rparr>)"

fun sweep_levels ::
  "'m l2_backtest \<Rightarrow> side \<Rightarrow> liquidity_role \<Rightarrow> u64 \<Rightarrow> nat \<Rightarrow> nat list \<Rightarrow> 'm l2_engine \<Rightarrow> 'm l2_engine" where
  "sweep_levels bt sd role timestamp i [] en = en"
| "sweep_levels bt sd role timestamp i (k # ks) en =
     (let o' = sv_data (le_live en) ! i; level = swept_side sd en ! k in
      if lv_remaining o' = 0 \<or> beyond_limit bt sd o' level then en
      else if level_qty_to_order_qty bt (effective_qty_of level) = 0 then sweep_levels bt sd role timestamp i ks en
      else
        let f = sweep_fill bt sd role timestamp o' level;
            en = l2_route_fill bt f (en\<lparr>le_book := deplete_level (sd = Sell) (l2_price level) (sf_quantity f) (le_book en)\<rparr>)
        in if l2_find_live (lv_order_id (sv_data (le_live en) ! i)) en = None then en
           else sweep_levels bt sd role timestamp i ks en)"

definition sweep_visible_depth :: "'m l2_backtest \<Rightarrow> nat \<Rightarrow> liquidity_role \<Rightarrow> u64 \<Rightarrow> 'm l2_engine \<Rightarrow> 'm l2_engine" where
  "sweep_visible_depth bt i role timestamp en =
     (let o' = sv_data (le_live en) ! i in
      if lv_remaining o' = 0 then en
      else sweep_levels bt (lv_order_side o') role timestamp i [0..<length (swept_side (lv_order_side o') en)] en)"

subsection \<open>Pending commands\<close>

definition l2_execute_pending :: "'m l2_backtest \<Rightarrow> l2_pending \<Rightarrow> 'm l2_engine \<Rightarrow> 'm l2_engine" where
  "l2_execute_pending bt pending en =
     (case l2_find_live (lp_order_id pending) en of
        None \<Rightarrow> en
      | Some i \<Rightarrow>
          if lp_type pending = Cancel_command then l2_erase_live i en
          else if lv_canceled (sv_data (le_live en) ! i) then l2_erase_live i en
          else
            let en = (if has_visible_book en \<and> l2_is_aggressive bt (sv_data (le_live en) ! i) en
                then sweep_visible_depth bt i Taker (lp_release_time_ns pending) en else en)
            in case l2_find_live (lp_order_id pending) en of
                 None \<Rightarrow> en
               | Some j \<Rightarrow> en\<lparr>le_live := vec_put j ((sv_data (le_live en) ! j)\<lparr>lv_is_active := True\<rparr>) (le_live en)\<rparr>)"

partial_function (option) l2_release :: "'m l2_backtest \<Rightarrow> u64 \<Rightarrow> 'm l2_engine \<Rightarrow> 'm l2_engine option" where
  "l2_release bt now en =
     (if slot_indices (le_pending en) = [] \<or> now < lp_release_time_ns (slot_top (le_pending en)) then Some en
      else l2_release bt now (l2_execute_pending bt (slot_top (le_pending en))
        (en\<lparr>le_pending := slot_pop lp_release_time_ns (le_pending en)\<rparr>)))"

text \<open>Resting orders that the market came to.\<close>

partial_function (option) active_crosses :: "'m l2_backtest \<Rightarrow> u64 \<Rightarrow> nat \<Rightarrow> 'm l2_engine \<Rightarrow> 'm l2_engine option" where
  "active_crosses bt timestamp i en =
     (if sv_size (le_live en) \<le> i then Some en
      else
        let o' = sv_data (le_live en) ! i in
        if lv_is_active o' \<and> \<not> lv_canceled o' \<and> l2_is_aggressive bt o' en
        then
          let en = sweep_visible_depth bt i Maker timestamp en
          in active_crosses bt timestamp (case l2_find_live (lv_order_id o') en of None \<Rightarrow> 0 | Some j \<Rightarrow> Suc i) en
        else active_crosses bt timestamp (Suc i) en)"

definition process_active_crosses :: "'m l2_backtest \<Rightarrow> u64 \<Rightarrow> 'm l2_engine \<Rightarrow> 'm l2_engine option" where
  "process_active_crosses bt timestamp en =
     (if \<not> has_visible_book en then Some en else active_crosses bt timestamp 0 en)"

subsection \<open>Market data\<close>

definition apply_event :: "l2_update_event \<Rightarrow> l2_book \<Rightarrow> l2_book" where
  "apply_event e = update_level (l2e_is_bid e) (l2e_price e) (l2e_qty e)"

text \<open>The events of one time; the first snapshot row among them clears the book.\<close>

fun batch_book :: "bool \<Rightarrow> l2_update_event list \<Rightarrow> l2_book \<Rightarrow> l2_book" where
  "batch_book cleared [] b = b"
| "batch_book cleared (e # es) b =
     batch_book (cleared \<or> l2e_is_snapshot e) es
       (apply_event e (if l2e_is_snapshot e \<and> \<not> cleared then clear_l2 b else b))"

definition this_batch :: "l2_update_event list \<Rightarrow> l2_update_event list" where
  "this_batch es = takeWhile (\<lambda>e. l2e_timestamp_ns e = l2e_timestamp_ns (hd es)) es"

definition later_batches :: "l2_update_event list \<Rightarrow> l2_update_event list" where
  "later_batches es = dropWhile (\<lambda>e. l2e_timestamp_ns e = l2e_timestamp_ns (hd es)) es"

definition apply_event_batch :: "l2_update_event list \<Rightarrow> 'm l2_engine \<Rightarrow> l2_stats \<Rightarrow> 'm l2_engine \<times> l2_stats" where
  "apply_event_batch es en stats =
     (en\<lparr>le_book := batch_book False (this_batch es) (le_book en)\<rparr>,
      stats\<lparr>ls_events_processed := ls_events_processed stats + of_nat (length (this_batch es)),
            ls_market_batches := ls_market_batches stats + 1\<rparr>)"

subsection \<open>The strategy's view\<close>

fun rebuild_side :: "'m l2_backtest \<Rightarrow> side \<Rightarrow> l2_level list \<Rightarrow> 'm l2_engine \<Rightarrow> 'm l2_engine option" where
  "rebuild_side bt sd [] en = Some en"
| "rebuild_side bt sd (level # levels) en =
     (let quantity = level_qty_to_order_qty bt (effective_qty_of level) in
      if quantity = 0 then rebuild_side bt sd levels en
      else case fixed_submit \<lparr>lo_id = le_synthetic_id en, lo_price = l2_price level, lo_quantity = quantity, lo_side = sd,
             lo_timestamp = le_time en\<rparr> (le_strategy_book en) of
          None \<Rightarrow> None
        | Some (b, r) \<Rightarrow>
            rebuild_side bt sd levels (en\<lparr>le_strategy_book := b, le_synthetic_id := le_synthetic_id en + 1\<rparr>))"

definition rebuild_strategy_book :: "'m l2_backtest \<Rightarrow> 'm l2_engine \<Rightarrow> 'm l2_engine option" where
  "rebuild_strategy_book bt en =
     Option.bind (rebuild_side bt Buy (live (sd_levels (l2_bids (le_book en))))
         (en\<lparr>le_strategy_book := fixed_clear (le_strategy_book en)\<rparr>))
       (rebuild_side bt Sell (live (sd_levels (l2_asks (le_book en)))))"

definition dispatch_strategy_tick :: "'m l2_backtest \<Rightarrow> 'm l2_engine \<Rightarrow> l2_stats \<Rightarrow> ('m l2_engine \<times> l2_stats) option" where
  "dispatch_strategy_tick bt en stats =
     (let ticked = stats\<lparr>ls_strategy_ticks := ls_strategy_ticks stats + 1\<rparr> in
      if \<not> has_visible_book en then Some (en, stats)
      else if lb_is_l2_strategy bt then Some (call_l2_strategy bt (L2_tick (le_book en)) en, ticked)
      else Option.bind (rebuild_strategy_book bt en)
        (\<lambda>en. Some (call_l2_strategy bt (L2_book_tick (le_strategy_book en)) en, ticked)))"

subsection \<open>Samples\<close>

definition record_nav :: "'m l2_backtest \<Rightarrow> 'm l2_engine \<Rightarrow> 'm l2_engine" where
  "record_nav bt en = en\<lparr>le_equity_curve := le_equity_curve en @ [current_nav bt en]\<rparr>"

partial_function (option) nav_samples :: "'m l2_backtest \<Rightarrow> u64 \<Rightarrow> 'm l2_engine \<Rightarrow> 'm l2_engine option" where
  "nav_samples bt timestamp en =
     (if timestamp < le_next_equity en then Some en
      else nav_samples bt timestamp (record_nav bt en\<lparr>le_next_equity := le_next_equity en + lb_equity_interval_ns bt\<rparr>))"

definition l2_sample_equity :: "'m l2_backtest \<Rightarrow> u64 \<Rightarrow> 'm l2_engine \<Rightarrow> 'm l2_engine option" where
  "l2_sample_equity bt timestamp en =
     (if is_at_most_zero (current_mid_price bt en) \<or> lb_equity_interval_ns bt = 0 then Some en
      else nav_samples bt timestamp (if le_next_equity en = 0 then en\<lparr>le_next_equity := timestamp\<rparr> else en))"

partial_function (option) next_feature_time :: "u64 \<Rightarrow> u64 \<Rightarrow> u64 \<Rightarrow> u64 option" where
  "next_feature_time interval timestamp t =
     (if t \<le> timestamp then next_feature_time interval timestamp (t + interval) else Some t)"

text \<open>The first positive quantity of a side, or the last one.\<close>

fun top_units :: "double list \<Rightarrow> double \<Rightarrow> double" where
  "top_units [] d = d"
| "top_units (x # xs) d = (if is_positive x then x else top_units xs x)"

definition top_qty :: "'m l2_backtest \<Rightarrow> l2_side \<Rightarrow> double" where
  "top_qty bt s = top_units (map (\<lambda>l. l2_units bt (effective_qty_of l)) (live (sd_levels s))) dbl_zero"

definition dbl_ten_thousand :: double where "dbl_ten_thousand = 0x40C3880000000000"

definition feature_now :: "'m l2_backtest \<Rightarrow> u64 \<Rightarrow> 'm l2_engine \<Rightarrow> feature_row" where
  "feature_now bt timestamp en =
     (let fp = lb_fp bt; b = le_book en; minus = (\<lambda>x y. fp_add fp x (fp_neg fp y));
          bid = visible_best bt True en; ask = visible_best bt False en; mid = mid_of bt bid ask;
          bid_qty = top_qty bt (l2_bids b); ask_qty = top_qty bt (l2_asks b); top_sum = fp_add fp bid_qty ask_qty
      in \<lparr>fr_timestamp = timestamp, fr_best_bid = bid, fr_best_ask = ask, fr_mid_price = mid,
        fr_spread_bps = (if is_positive mid then fp_mul fp (fp_div fp (minus ask bid) mid) dbl_ten_thousand else dbl_zero),
        fr_bid_qty_1 = bid_qty, fr_ask_qty_1 = ask_qty,
        fr_imbalance_1 = (if is_positive top_sum then fp_div fp (minus bid_qty ask_qty) top_sum else dbl_zero),
        fr_bid_qty_visible = l2_units bt (side_effective_qty (l2_bids b)),
        fr_ask_qty_visible = l2_units bt (side_effective_qty (l2_asks b)),
        fr_position = le_position en, fr_nav = current_nav bt en\<rparr>)"

definition record_feature :: "'m l2_backtest \<Rightarrow> u64 \<Rightarrow> 'm l2_engine \<Rightarrow> 'm l2_engine" where
  "record_feature bt timestamp en = en\<lparr>le_features := le_features en @ [feature_now bt timestamp en]\<rparr>"

definition sample_features :: "'m l2_backtest \<Rightarrow> u64 \<Rightarrow> 'm l2_engine \<Rightarrow> 'm l2_engine option" where
  "sample_features bt timestamp en =
     (if \<not> lb_record_features bt \<or> \<not> has_visible_book en then Some en
      else if lb_feature_interval_ns bt = 0 then Some (record_feature bt timestamp en)
      else
        let t = (if le_next_feature en = 0 then timestamp else le_next_feature en); en = en\<lparr>le_next_feature := t\<rparr> in
        if timestamp < t then Some en
        else Option.bind (next_feature_time (lb_feature_interval_ns bt) timestamp t)
          (\<lambda>t. Some (record_feature bt timestamp (en\<lparr>le_next_feature := t\<rparr>))))"

subsection \<open>The run\<close>

definition process_batch ::
  "'m l2_backtest \<Rightarrow> l2_update_event list \<Rightarrow> 'm l2_engine \<Rightarrow> l2_stats \<Rightarrow> ('m l2_engine \<times> l2_stats) option" where
  "process_batch bt es en stats =
     (let now = l2e_timestamp_ns (hd es) in do {
        en \<leftarrow> l2_release bt now (en\<lparr>le_time := now\<rparr>);
        let (en, stats) = apply_event_batch es en stats;
        en \<leftarrow> process_active_crosses bt now en;
        (en, stats) \<leftarrow> dispatch_strategy_tick bt en stats;
        en \<leftarrow> l2_release bt now en;
        en \<leftarrow> process_active_crosses bt now en;
        en \<leftarrow> l2_sample_equity bt now en;
        en \<leftarrow> sample_features bt now en;
        Some (en, stats)
      })"

partial_function (option) l2_replay ::
  "'m l2_backtest \<Rightarrow> l2_update_event list \<Rightarrow> 'm l2_engine \<Rightarrow> l2_stats \<Rightarrow> ('m l2_engine \<times> l2_stats) option" where
  "l2_replay bt es en stats =
     (if es = [] \<and> slot_indices (le_pending en) = [] then Some (en, stats)
      else if slot_indices (le_pending en) \<noteq> []
        \<and> (es = [] \<or> lp_release_time_ns (slot_top (le_pending en)) \<le> l2e_timestamp_ns (hd es))
      then
        let now = lp_release_time_ns (slot_top (le_pending en)) in
        Option.bind (l2_release bt now (en\<lparr>le_time := now\<rparr>)) (\<lambda>en. l2_replay bt es en stats)
      else Option.bind (process_batch bt es en stats) (\<lambda>(en, stats). l2_replay bt (later_batches es) en stats))"

definition l2_run ::
  "'m l2_backtest \<Rightarrow> l2_update_event list \<Rightarrow> 'm l2_engine \<Rightarrow> (l2_config_error + 'm l2_engine \<times> l2_stats) option" where
  "l2_run bt es en =
     (if is_at_most_zero (lb_quantity_scale bt) then Some (Inl Quantity_scale_not_positive)
      else if lb_max_levels bt = 0 then Some (Inl No_book_levels)
      else Option.bind (l2_replay bt es (call_l2_strategy bt L2_start (reset_runtime bt en))
          \<lparr>ls_events_processed = 0, ls_market_batches = 0, ls_strategy_ticks = 0\<rparr>)
        (\<lambda>(en, stats). Some (Inr (if is_positive (current_mid_price bt en) then record_nav bt en else en, stats))))"

end
