(* ===== verification/L2BacktestRuns.thy ===== *)
theory L2BacktestRuns
  imports L2Backtest BacktestRuns
begin

section \<open>Backtests over levels end and keep the market data\<close>

text \<open>
  A fill takes from the visible depth of a level, its depleted share; the prices and
  quantities of the book are the market's. \<open>fresh_book\<close> forgets the depleted shares, and
  commutes with the updates of the book, so a run of the engine replays the data.
\<close>

subsection \<open>Books without their depletion\<close>

definition fresh_level :: "l2_level \<Rightarrow> l2_level" where
  "fresh_level l = l\<lparr>l2_depleted := 0\<rparr>"

definition fresh_vec :: "l2_level static_vector \<Rightarrow> l2_level static_vector" where
  "fresh_vec v = v\<lparr>sv_data := map fresh_level (sv_data v)\<rparr>"

definition fresh_side :: "l2_side \<Rightarrow> l2_side" where
  "fresh_side s = s\<lparr>sd_levels := fresh_vec (sd_levels s), sd_depleted_qty := 0, sd_depleted_notional := 0\<rparr>"

definition fresh_book :: "l2_book \<Rightarrow> l2_book" where
  "fresh_book b = b\<lparr>l2_bids := fresh_side (l2_bids b), l2_asks := fresh_side (l2_asks b)\<rparr>"

definition boxed_side :: "l2_side \<Rightarrow> bool" where
  "boxed_side s \<longleftrightarrow> vec_ok l2_capacity (sd_levels s)"

definition boxed :: "l2_book \<Rightarrow> bool" where
  "boxed b \<longleftrightarrow> boxed_side (l2_bids b) \<and> boxed_side (l2_asks b)"

lemma fresh_level_fields [simp]:
  "l2_price (fresh_level l) = l2_price l" "l2_qty (fresh_level l) = l2_qty l" "l2_depleted (fresh_level l) = 0"
  by (simp_all add: fresh_level_def)

lemma live_fresh [simp]: "live (fresh_vec v) = map fresh_level (live v)" "sv_size (fresh_vec v) = sv_size v"
  by (simp_all add: live_def fresh_vec_def take_map)

lemma linear_find_map: "linear_find prec (map f xs) = linear_find (prec \<circ> f) xs"
  by (induction xs) simp_all

lemma lower_bound_from_map:
  "first + cnt \<le> length xs \<Longrightarrow> lower_bound_from prec (map f xs) first cnt = lower_bound_from (prec \<circ> f) xs first cnt"
proof (induction prec "map f xs" first cnt rule: lower_bound_from.induct)
  case (1 prec first cnt)
  let ?step = "cnt div 2"
  show ?case
  proof (cases "cnt = 0")
    case False
    then have "first + ?step < length xs" "Suc (first + ?step) + (cnt - Suc ?step) \<le> length xs" "first + ?step \<le> length xs"
      using "1.prems" by auto
    then show ?thesis
      using False 1 by (simp add: lower_bound_from.simps [of _ _ first cnt] Let_def)
  qed (simp add: lower_bound_from.simps)
qed

lemma lower_bound_from_le: "first + cnt \<le> n \<Longrightarrow> lower_bound_from prec xs first cnt \<le> n"
proof (induction prec xs first cnt rule: lower_bound_from.induct)
  case (1 prec xs first cnt)
  then show ?case
    by (cases "cnt = 0") (auto simp: lower_bound_from.simps [of prec xs first cnt] lower_bound_from.simps [of prec xs first 0] Let_def)
qed

lemma find_level_le: "find_l2_level side is_bid p \<le> length side"
proof -
  have "linear_find prec xs \<le> length xs" for prec and xs :: "l2_level list" by (induction xs) simp_all
  then show ?thesis by (simp add: find_l2_level_def lower_bound_def lower_bound_from_le)
qed

lemma find_level_fresh [simp]: "find_l2_level (map fresh_level side) is_bid p = find_l2_level side is_bid p"
proof -
  have "level_before is_bid p \<circ> fresh_level = level_before is_bid p"
    by (simp add: level_before_def fun_eq_iff)
  then show ?thesis
    by (simp add: find_l2_level_def linear_find_map lower_bound_def lower_bound_from_map)
qed

lemma shift_right_map: "i < length data \<Longrightarrow> shift_right (map f data) idx i = map f (shift_right data idx i)"
proof (induction data idx i rule: shift_right.induct)
  case (1 data idx i)
  then show ?case
    by (simp add: shift_right.simps [of _ idx i] map_update [symmetric])
qed

lemma shift_left_map: "n \<le> length data \<Longrightarrow> shift_left (map f data) n i = map f (shift_left data n i)"
proof (induction data n i rule: shift_left.induct)
  case (1 data n i)
  then show ?case
    by (simp add: shift_left.simps [of _ n i] map_update [symmetric])
qed

text \<open>The vector's calls commute with forgetting, and stay in its box.\<close>

lemma fresh_put: "fresh_vec (vec_put i x v) = vec_put i (fresh_level x) (fresh_vec v)"
  by (simp add: fresh_vec_def vec_put_def map_update)

lemma fresh_pop: "fresh_vec (fst (vec_pop_back v)) = fst (vec_pop_back (fresh_vec v))"
  by (simp add: vec_pop_back_def fresh_vec_def)

lemma fresh_erase: "vec_ok n v \<Longrightarrow> fresh_vec (fst (vec_erase i v)) = fst (vec_erase i (fresh_vec v))"
  by (simp add: vec_erase_def fresh_vec_def shift_left_map vec_ok_def)

lemma fresh_insert:
  assumes "vec_ok n v"
  shows "fresh_vec (fst (vec_insert i x v)) = fst (vec_insert i (fresh_level x) (fresh_vec v))"
    "snd (vec_insert i (fresh_level x) (fresh_vec v)) = snd (vec_insert i x v)"
  using assms by (auto simp: vec_insert_def fresh_vec_def vec_full_def vec_ok_def shift_right_map map_update)

lemma vec_box:
  assumes "vec_ok n v"
  shows "vec_ok n (vec_put i x v)" "vec_ok n (fst (vec_pop_back v))" "vec_ok n (fst (vec_erase i v))"
    "vec_ok n (fst (vec_insert i x v))" "vec_ok n (vec_clear v)"
  using assms by (auto simp: vec_ok_def vec_put_def vec_pop_back_def vec_erase_def vec_insert_def vec_full_def vec_clear_def)

lemma fresh_acc:
  "fresh_side (acc_add l s) = acc_add (fresh_level l) (fresh_side s)"
  "fresh_side (acc_subtract l s) = acc_subtract (fresh_level l) (fresh_side s)"
  "sd_levels (acc_add l s) = sd_levels s" "sd_levels (acc_subtract l s) = sd_levels s"
  by (simp_all add: fresh_side_def acc_add_def acc_subtract_def)

lemma levels_fresh [simp]: "sd_levels (fresh_side s) = fresh_vec (sd_levels s)"
  by (simp add: fresh_side_def)

lemma insert_level_fresh:
  assumes "boxed_side s"
  shows "fresh_side (insert_level i l s) = insert_level i (fresh_level l) (fresh_side s)" "boxed_side (insert_level i l s)"
proof -
  have v: "vec_ok l2_capacity (sd_levels s)" using assms by (simp add: boxed_side_def)
  obtain v' k where i: "vec_insert i l (sd_levels s) = (v', k)" by fastforce
  then have f: "vec_insert i (fresh_level l) (fresh_vec (sd_levels s)) = (fresh_vec v', k)"
    using fresh_insert [OF v, of i l] by (simp add: prod_eq_iff)
  have c: "fresh_side (s\<lparr>sd_levels := v'\<rparr>) = (fresh_side s)\<lparr>sd_levels := fresh_vec v'\<rparr>"
    by (simp add: fresh_side_def)
  show "fresh_side (insert_level i l s) = insert_level i (fresh_level l) (fresh_side s)"
    by (simp add: insert_level_def i f Let_def fresh_acc c)
  show "boxed_side (insert_level i l s)"
    using vec_box(4) [OF v, of i l] i by (simp add: insert_level_def boxed_side_def Let_def fresh_acc)
qed

lemma update_side_fresh:
  assumes "boxed_side s"
  shows "fresh_side (update_side m is_bid p q s) = update_side m is_bid p q (fresh_side s)"
    "boxed_side (update_side m is_bid p q s)"
proof -
  let ?side = "live (sd_levels s)"
  let ?it = "find_l2_level ?side is_bid p"
  let ?new = "\<lparr>l2_price = p, l2_qty = q, l2_depleted = 0\<rparr>"
  have v: "vec_ok l2_capacity (sd_levels s)" using assms by (simp add: boxed_side_def)
  have new: "fresh_level ?new = ?new" by (simp add: fresh_level_def)
  define lv where "lv = (?side ! ?it)\<lparr>l2_qty := q, l2_depleted := (if q < l2_depleted (?side ! ?it) then q else l2_depleted (?side ! ?it))\<rparr>"
  define popped where "popped = on_levels (\<lambda>v. fst (vec_pop_back v)) (acc_subtract (last ?side) s)"
  have pop: "boxed_side popped" "?side \<noteq> [] \<Longrightarrow> fresh_side popped
      = on_levels (\<lambda>v. fst (vec_pop_back v)) (acc_subtract (last (map fresh_level ?side)) (fresh_side s))"
    using vec_box(2) [OF v] unfolding popped_def
    by (simp_all add: boxed_side_def on_levels_def fresh_acc last_map fresh_side_def acc_subtract_def fresh_pop)
  have erase: "fresh_side (on_levels (\<lambda>v. fst (vec_erase i v)) (acc_subtract l s))
      = on_levels (\<lambda>v. fst (vec_erase i v)) (acc_subtract (fresh_level l) (fresh_side s))" for i l
    using fresh_erase [OF v] by (simp add: fresh_side_def on_levels_def acc_subtract_def)
  have put: "fresh_side (acc_add lv (on_levels (vec_put i lv) (acc_subtract l s)))
      = acc_add (fresh_level lv) (on_levels (vec_put i (fresh_level lv)) (acc_subtract (fresh_level l) (fresh_side s)))" for i l
    by (simp add: fresh_side_def on_levels_def acc_subtract_def acc_add_def fresh_put)
  have lv: "?it < length ?side \<Longrightarrow> fresh_level lv = (fresh_level (?side ! ?it))\<lparr>l2_qty := q, l2_depleted := 0\<rparr>"
    by (simp add: lv_def fresh_level_def)
  define popped' where "popped' = on_levels (\<lambda>v. fst (vec_pop_back v)) (acc_subtract (last (map fresh_level ?side)) (fresh_side s))"
  have full: "fresh_side (insert_level (find_l2_level (live (sd_levels popped)) is_bid p) ?new popped)
      = insert_level (find_l2_level (live (sd_levels popped')) is_bid p) ?new popped'" if "?side \<noteq> []"
    using insert_level_fresh(1) [OF pop(1)] pop(2) [OF that, folded popped'_def, symmetric] by (simp add: new)
  have "?side \<noteq> [] \<Longrightarrow> l2_price (last (map fresh_level ?side)) = l2_price (last ?side)" by (simp add: last_map)
  then show "fresh_side (update_side m is_bid p q s) = update_side m is_bid p q (fresh_side s)"
    unfolding update_side_def levels_fresh live_fresh find_level_fresh length_map Let_def
      lv_def [symmetric] popped_def [symmetric] popped'_def [symmetric]
    using erase put lv full insert_level_fresh(1) [OF assms]
    by (auto simp: new)
  show "boxed_side (update_side m is_bid p q s)"
    unfolding update_side_def Let_def popped_def [symmetric]
    using v vec_box(1,3) [OF v] insert_level_fresh(2) [OF assms] insert_level_fresh(2) [OF pop(1)] assms
    by (auto simp: boxed_side_def on_levels_def fresh_acc)
qed

lemma deplete_side_fresh:
  assumes "boxed_side s"
  shows "fresh_side (deplete_side is_bid p q s) = fresh_side s" "boxed_side (deplete_side is_bid p q s)"
proof -
  let ?side = "live (sd_levels s)"
  let ?it = "find_l2_level ?side is_bid p"
  have v: "vec_ok l2_capacity (sd_levels s)" using assms by (simp add: boxed_side_def)
  have put: "fresh_vec (vec_put ?it ((?side ! ?it)\<lparr>l2_depleted := d\<rparr>) (sd_levels s)) = fresh_vec (sd_levels s)"
    if "?it \<noteq> length ?side" for d
  proof -
    have it: "?it < length ?side" using that find_level_le [of ?side is_bid p] by simp
    have "fresh_level ((?side ! ?it)\<lparr>l2_depleted := d\<rparr>) = map fresh_level (sv_data (sd_levels s)) ! ?it"
      using it by (simp add: vec_nth fresh_level_def) (simp add: live_def fresh_level_def)
    then show ?thesis by (simp add: fresh_put) (simp add: vec_put_def fresh_vec_def)
  qed
  show "fresh_side (deplete_side is_bid p q s) = fresh_side s"
    using put by (simp add: deplete_side_def Let_def fresh_side_def on_levels_def)
  show "boxed_side (deplete_side is_bid p q s)"
    using assms vec_box(1) [OF v] by (simp add: deplete_side_def Let_def boxed_side_def on_levels_def)
qed

lemma fresh_new [simp]: "fresh_book (new_l2_book n) = new_l2_book n" "boxed (new_l2_book n)"
  by (simp_all add: fresh_book_def new_l2_book_def fresh_side_def empty_side_def fresh_vec_def vec_new_def
      fresh_level_def boxed_def boxed_side_def vec_ok_def)

lemma fresh_update:
  assumes "boxed b"
  shows "fresh_book (update_level is_bid p q b) = update_level is_bid p q (fresh_book b)" "boxed (update_level is_bid p q b)"
  using assms by (auto simp: update_level_def on_side_def fresh_book_def boxed_def update_side_fresh)

lemma fresh_deplete:
  assumes "boxed b"
  shows "fresh_book (deplete_level is_bid p q b) = fresh_book b" "boxed (deplete_level is_bid p q b)"
  using assms by (auto simp: deplete_level_def on_side_def fresh_book_def boxed_def deplete_side_fresh)

lemma fresh_clear: "fresh_book (clear_l2 b) = clear_l2 (fresh_book b)" "boxed b \<Longrightarrow> boxed (clear_l2 b)"
  by (simp_all add: clear_l2_def fresh_book_def clear_side_def fresh_side_def fresh_vec_def vec_clear_def boxed_def
      boxed_side_def vec_ok_def)

lemma fresh_batch:
  "boxed b \<Longrightarrow> fresh_book (batch_book cleared es b) = batch_book cleared es (fresh_book b) \<and> boxed (batch_book cleared es b)"
proof (induction cleared es b rule: batch_book.induct)
  case (2 cleared e es b)
  let ?b = "if l2e_is_snapshot e \<and> \<not> cleared then clear_l2 b else b"
  have b: "boxed ?b" "fresh_book ?b = (if l2e_is_snapshot e \<and> \<not> cleared then clear_l2 (fresh_book b) else fresh_book b)"
    using 2(2) fresh_clear by simp_all
  have "boxed (apply_event e ?b)" "fresh_book (apply_event e ?b) = apply_event e (fresh_book ?b)"
    using fresh_update [OF b(1)] by (simp_all add: apply_event_def)
  then show ?case using "2.IH" unfolding b(2) by simp
qed simp


subsection \<open>Strategies that only listen to their fills\<close>

definition l2_listens :: "'m l2_backtest \<Rightarrow> bool" where
  "l2_listens bt \<longleftrightarrow> (\<forall>f mem. sends_nothing (lb_strategy bt (L2_fill f) mem))"

definition l2_ids :: "'m l2_engine \<Rightarrow> u64 list" where
  "l2_ids en = map (\<lambda>i. lv_order_id (sv_data (le_live en) ! i)) [0..<sv_size (le_live en)]"

text \<open>What a trade leaves: the commands, the market data, and the live orders but for erased ones.\<close>

definition l2_traded :: "'m l2_engine \<Rightarrow> 'm l2_engine \<Rightarrow> bool" where
  "l2_traded en en' \<longleftrightarrow> le_pending en' = le_pending en
     \<and> (boxed (le_book en) \<longrightarrow> boxed (le_book en') \<and> fresh_book (le_book en') = fresh_book (le_book en))
     \<and> (sv_size (le_live en') < sv_size (le_live en) \<or> l2_ids en' = l2_ids en)"

lemma l2_traded_refl: "l2_traded en en"
  by (simp add: l2_traded_def)

lemma ids_size: "l2_ids x = l2_ids y \<Longrightarrow> sv_size (le_live x) = sv_size (le_live y)"
  unfolding l2_ids_def by (drule arg_cong [where f = length]) simp

lemma l2_traded_trans: "l2_traded en en1 \<Longrightarrow> l2_traded en1 en2 \<Longrightarrow> l2_traded en en2"
  using ids_size [of en1 en] ids_size [of en2 en1] by (auto simp: l2_traded_def)

lemma l2_traded_fields:
  "le_pending en' = le_pending en \<Longrightarrow> le_book en' = le_book en \<Longrightarrow> le_live en' = le_live en \<Longrightarrow> l2_traded en en'"
  by (simp add: l2_traded_def l2_ids_def)

lemma l2_traded_live:
  assumes "le_pending en' = le_pending en" "le_book en' = le_book en"
    and "sv_size (le_live en') < sv_size (le_live en) \<or> l2_ids en' = l2_ids en"
  shows "l2_traded en en'"
  using assms by (simp add: l2_traded_def)

lemma ids_put:
  "lv_order_id x = lv_order_id (sv_data (le_live en) ! i) \<Longrightarrow> l2_ids (en\<lparr>le_live := vec_put i x (le_live en)\<rparr>) = l2_ids en"
  by (auto simp: l2_ids_def vec_put_def nth_upd)

lemma l2_traded_put:
  "lv_order_id x = lv_order_id (sv_data (le_live en) ! i) \<Longrightarrow> l2_traded en (en\<lparr>le_live := vec_put i x (le_live en)\<rparr>)"
  by (rule l2_traded_live) (simp_all add: ids_put)

lemma l2_traded_erase: "l2_traded en (l2_erase_live i en)"
  by (rule l2_traded_live) (auto simp: l2_erase_live_def Let_def)

lemma l2_traded_reduce: "l2_traded en (l2_reduce_live oid quantity en)"
proof (cases "l2_find_live oid en")
  case None
  then show ?thesis by (simp add: l2_reduce_live_def l2_traded_refl)
next
  case (Some i)
  have p: "l2_traded en (en\<lparr>le_live := vec_put i ((sv_data (le_live en) ! i)\<lparr>lv_remaining := r\<rparr>) (le_live en)\<rparr>)" for r
    by (rule l2_traded_put) simp
  show ?thesis
    using p l2_traded_trans [OF p l2_traded_erase] Some by (simp add: l2_reduce_live_def Let_def)
qed

lemma l2_traded_call:
  assumes "l2_listens bt"
  shows "l2_traded en (call_l2_strategy bt (L2_fill f) en)"
proof -
  have "le_pending (run_l2_strategy bt act en) = le_pending en" "le_book (run_l2_strategy bt act en) = le_book en"
    "le_live (run_l2_strategy bt act en) = le_live en" if "sends_nothing act" for act
    using that by (induction act arbitrary: en) simp_all
  then show ?thesis
    using assms unfolding call_l2_strategy_def l2_listens_def by (simp add: l2_traded_fields)
qed

lemma l2_traded_route:
  assumes "l2_listens bt"
  shows "l2_traded en (l2_route_fill bt f en)"
proof -
  let ?e1 = "en\<lparr>le_execution := l2_count_fill bt f (le_execution en)\<rparr>"
  let ?e2 = "l2_reduce_live (sf_order_id f) (level_qty_to_order_qty bt (sf_quantity f)) ?e1"
  let ?e3 = "l2_settle_fill bt f ?e2"
  have t1: "l2_traded en ?e1" by (rule l2_traded_fields) simp_all
  have t2: "l2_traded en ?e2" by (rule l2_traded_trans [OF t1 l2_traded_reduce])
  have "l2_traded ?e2 ?e3" by (rule l2_traded_fields) (simp_all add: l2_settle_fill_def Let_def)
  then have t3: "l2_traded en ?e3" by (rule l2_traded_trans [OF t2])
  have "l2_traded ?e3 (?e3\<lparr>le_last_fill := sf_timestamp f\<rparr>)" by (rule l2_traded_fields) simp_all
  then have t4: "l2_traded en (?e3\<lparr>le_last_fill := sf_timestamp f\<rparr>)" by (rule l2_traded_trans [OF t3])
  show ?thesis
    unfolding l2_route_fill_def Let_def by (rule l2_traded_trans [OF t4 l2_traded_call [OF assms]])
qed

lemma l2_traded_deplete: "l2_traded en (en\<lparr>le_book := deplete_level is_bid p q (le_book en)\<rparr>)"
  by (simp add: l2_traded_def fresh_deplete l2_ids_def)

lemma l2_traded_levels: "l2_listens bt \<Longrightarrow> l2_traded en (sweep_levels bt sd role timestamp i ks en)"
proof (induction bt sd role timestamp i ks en rule: sweep_levels.induct)
  case (2 bt sd role timestamp i k ks en)
  let ?o = "sv_data (le_live en) ! i" and ?l = "swept_side sd en ! k"
  let ?f = "sweep_fill bt sd role timestamp ?o ?l"
  let ?e = "l2_route_fill bt ?f (en\<lparr>le_book := deplete_level (sd = Sell) (l2_price ?l) (sf_quantity ?f) (le_book en)\<rparr>)"
  have t: "l2_traded en ?e" using l2_traded_trans [OF l2_traded_deplete l2_traded_route [OF "2.prems"]] .
  consider (stop) "lv_remaining ?o = 0 \<or> beyond_limit bt sd ?o ?l"
    | (skip) "\<not> (lv_remaining ?o = 0 \<or> beyond_limit bt sd ?o ?l)" "level_qty_to_order_qty bt (effective_qty_of ?l) = 0"
    | (fill) "\<not> (lv_remaining ?o = 0 \<or> beyond_limit bt sd ?o ?l)" "\<not> level_qty_to_order_qty bt (effective_qty_of ?l) = 0" by blast
  then show ?case
  proof cases
    case stop
    then show ?thesis by (simp add: l2_traded_refl)
  next
    case skip
    then show ?thesis using "2.IH"(1) [OF refl refl skip "2.prems"] by simp
  next
    case fill
    have "l2_traded ?e (sweep_levels bt sd role timestamp i ks ?e)"
      if "l2_find_live (lv_order_id (sv_data (le_live ?e) ! i)) ?e \<noteq> None"
      using "2.IH"(2) [OF refl refl fill refl refl that "2.prems"] .
    then show ?thesis using fill t l2_traded_trans [OF t] by (simp add: Let_def)
  qed
qed (simp add: l2_traded_refl)

lemma l2_traded_sweep: "l2_listens bt \<Longrightarrow> l2_traded en (sweep_visible_depth bt i role timestamp en)"
  by (simp add: sweep_visible_depth_def Let_def l2_traded_refl l2_traded_levels)

lemma l2_traded_execute:
  assumes "l2_listens bt"
  shows "l2_traded en (l2_execute_pending bt p en)"
proof -
  have "l2_traded en (case l2_find_live oid e of None \<Rightarrow> e
      | Some j \<Rightarrow> e\<lparr>le_live := vec_put j ((sv_data (le_live e) ! j)\<lparr>lv_is_active := True\<rparr>) (le_live e)\<rparr>)" if "l2_traded en e" for oid e
    using that by (auto intro: l2_traded_trans [OF _ l2_traded_put] split: option.split)
  then show ?thesis
    using l2_traded_sweep [OF assms] by (auto simp: l2_execute_pending_def Let_def l2_traded_erase l2_traded_refl split: option.split)
qed

subsection \<open>Releases and crosses end\<close>

lemma slot_pop_length: "slot_indices h \<noteq> [] \<Longrightarrow> Suc (length (slot_indices (slot_pop release h))) = length (slot_indices h)"
proof -
  assume ne: "slot_indices h \<noteq> []"
  have "length (slot_down release storage xs i) = length xs" if "i < length xs" for storage xs i
    using slot_down_mset [OF that, of release storage] mset_eq_length by blast
  then show ?thesis using ne by (cases "slot_indices h" rule: rev_cases) (auto simp: slot_pop_def Let_def)
qed

text \<open>The commands left get fewer; the market data stay.\<close>

definition commands_left :: "'m l2_engine \<Rightarrow> nat" where
  "commands_left en = length (slot_indices (le_pending en))"

definition same_market :: "'m l2_engine \<Rightarrow> 'm l2_engine \<Rightarrow> bool" where
  "same_market en en' \<longleftrightarrow> (boxed (le_book en) \<longrightarrow> boxed (le_book en') \<and> fresh_book (le_book en') = fresh_book (le_book en))"

lemma same_market_trans: "same_market en en1 \<Longrightarrow> same_market en1 en2 \<Longrightarrow> same_market en en2"
  by (auto simp: same_market_def)

lemma same_market_book: "le_book en' = le_book en \<Longrightarrow> same_market en en'"
  by (simp add: same_market_def)

lemma l2_release_returns:
  assumes "l2_listens bt"
  shows "\<exists>en'. l2_release bt now en = Some en' \<and> same_market en en' \<and> commands_left en' \<le> commands_left en
    \<and> (slot_indices (le_pending en) \<noteq> [] \<and> lp_release_time_ns (slot_top (le_pending en)) \<le> now \<longrightarrow> commands_left en' < commands_left en)"
proof (induction "commands_left en" arbitrary: en rule: less_induct)
  case less
  show ?case
  proof (cases "slot_indices (le_pending en) = [] \<or> now < lp_release_time_ns (slot_top (le_pending en))")
    case True
    then show ?thesis by (subst l2_release.simps) (auto simp: same_market_def)
  next
    case False
    let ?e = "en\<lparr>le_pending := slot_pop lp_release_time_ns (le_pending en)\<rparr>"
    let ?x = "l2_execute_pending bt (slot_top (le_pending en)) ?e"
    have t: "l2_traded ?e ?x" using l2_traded_execute [OF assms] .
    have x: "commands_left ?x < commands_left en" "same_market en ?x"
      using t False slot_pop_length [of "le_pending en" lp_release_time_ns]
      by (auto simp: l2_traded_def commands_left_def same_market_def)
    obtain en' where "l2_release bt now ?x = Some en'" "same_market ?x en'" "commands_left en' \<le> commands_left ?x"
      using less [OF x(1)] by blast
    then show ?thesis
      using False x same_market_trans [OF x(2)] by (subst l2_release.simps) auto
  qed
qed

lemma find_live_ids: "l2_find_live oid en = None \<longleftrightarrow> oid \<notin> set (l2_ids en)"
  by (auto simp: l2_find_live_def l2_ids_def find_None_iff)

lemma active_crosses_return:
  assumes "l2_listens bt"
  shows "\<exists>en'. active_crosses bt timestamp i en = Some en' \<and> l2_traded en en'"
proof -
  have "sv_size (le_live en) = n \<Longrightarrow> \<exists>en'. active_crosses bt timestamp i en = Some en' \<and> l2_traded en en'" for n i en
  proof (induction n arbitrary: i en rule: less_induct)
    case (less n)
    note fewer = less.IH
    have "sv_size (le_live en) = n \<Longrightarrow> \<exists>en'. active_crosses bt timestamp i en = Some en' \<and> l2_traded en en'" for i en
    proof (induction "n - i" arbitrary: i en rule: less_induct)
      case (less i en)
      let ?o = "sv_data (le_live en) ! i"
      note eq = active_crosses.simps [of bt timestamp i en]
      show ?case
      proof (cases "n \<le> i")
        case True
        then show ?thesis using less.prems by (simp add: eq l2_traded_refl)
      next
        case i: False
        show ?thesis
        proof (cases "lv_is_active ?o \<and> \<not> lv_canceled ?o \<and> l2_is_aggressive bt ?o en")
          case True
          define e where "e = sweep_visible_depth bt i Maker timestamp en"
          let ?i = "case l2_find_live (lv_order_id ?o) e of None \<Rightarrow> 0 | Some j \<Rightarrow> Suc i"
          have t: "l2_traded en e" unfolding e_def by (rule l2_traded_sweep [OF assms])
          have "lv_order_id ?o \<in> set (l2_ids en)" using i less.prems by (auto simp: l2_ids_def)
          then have "?i = Suc i" if "l2_ids e = l2_ids en"
            using that find_live_ids [of "lv_order_id ?o" e] by (auto split: option.split)
          then have "\<exists>en'. active_crosses bt timestamp ?i e = Some en' \<and> l2_traded e en'"
            using t less.hyps [of "Suc i" e] fewer [of "sv_size (le_live e)" e] ids_size [of e en] i less.prems
            by (auto simp: l2_traded_def)
          then obtain en' where "active_crosses bt timestamp ?i e = Some en'" "l2_traded e en'" by blast
          moreover have "active_crosses bt timestamp i en = active_crosses bt timestamp ?i e"
            using i True less.prems by (simp add: eq Let_def e_def)
          ultimately show ?thesis using l2_traded_trans [OF t] by auto
        next
          case other: False
          have "active_crosses bt timestamp i en = active_crosses bt timestamp (Suc i) en"
            using i other less.prems by (auto simp: eq Let_def)
          then show ?thesis using less.hyps [of "Suc i" en] i less.prems by simp
        qed
      qed
    qed
    then show ?case using less.prems by blast
  qed
  then show ?thesis by blast
qed

lemma process_crosses_return:
  "l2_listens bt \<Longrightarrow> \<exists>en'. process_active_crosses bt timestamp en = Some en' \<and> l2_traded en en'"
  using active_crosses_return [of bt timestamp 0 en] by (auto simp: process_active_crosses_def l2_traded_refl)

subsection \<open>The strategy's view is always built\<close>

lemma clear_is_new: "fixed_clear b = new_book fixed_config"
  by (simp add: fixed_clear_def clear_book_def new_book_def)

lemma rebuild_side_returns:
  "book_inv fixed_config (le_strategy_book en) \<Longrightarrow>
    \<exists>en'. rebuild_side bt sd ls en = Some en' \<and> book_inv fixed_config (le_strategy_book en')
      \<and> le_book en' = le_book en \<and> le_pending en' = le_pending en"
proof (induction bt sd ls en rule: rebuild_side.induct)
  case (2 bt sd level levels en)
  let ?q = "level_qty_to_order_qty bt (effective_qty_of level)"
  let ?o = "\<lparr>lo_id = le_synthetic_id en, lo_price = l2_price level, lo_quantity = ?q, lo_side = sd, lo_timestamp = le_time en\<rparr>"
  show ?case
  proof (cases "?q = 0")
    case True
    then show ?thesis using 2 by simp
  next
    case False
    obtain b' fills where "process_order ?o (le_strategy_book en) = Some (b', map (fill_trade ?o) fills)" "book_inv fixed_config b'"
      using process_order_match [OF "2.prems", of ?o] by blast
    then obtain r where r: "fixed_submit ?o (le_strategy_book en) = Some (b', r)" "book_inv fixed_config b'"
      by (auto simp: process_order_def split: option.splits prod.splits)
    show ?thesis
      using "2.IH"(2) [OF refl False r(1) refl] r False by (simp add: Let_def)
  qed
qed simp

lemma rebuild_returns:
  "\<exists>en'. rebuild_strategy_book bt en = Some en' \<and> le_book en' = le_book en \<and> le_pending en' = le_pending en"
proof -
  let ?e = "en\<lparr>le_strategy_book := fixed_clear (le_strategy_book en)\<rparr>"
  obtain e1 where e1: "rebuild_side bt Buy (live (sd_levels (l2_bids (le_book en)))) ?e = Some e1"
      "book_inv fixed_config (le_strategy_book e1)" "le_book e1 = le_book en" "le_pending e1 = le_pending en"
    using rebuild_side_returns [of ?e bt Buy "live (sd_levels (l2_bids (le_book en)))"] by (auto simp: clear_is_new new_book_inv)
  show ?thesis
    using rebuild_side_returns [OF e1(2), of bt Sell "live (sd_levels (l2_asks (le_book en)))"] e1(1,3,4)
    by (auto simp: rebuild_strategy_book_def)
qed

lemma run_l2_book: "le_book (run_l2_strategy bt act en) = le_book en"
proof (induction act arbitrary: en)
  case (Place asset sd price quantity t k)
  have "le_book (fst (l2_submit_order bt asset sd price quantity en)) = le_book en"
    by (auto simp: l2_submit_order_def Let_def l2_add_live_def l2_erase_id_def l2_erase_live_def
        split: prod.split bool.split option.split)
  then show ?case using Place by (simp add: case_prod_beta)
next
  case (Withdraw asset oid k)
  have "le_book (fst (l2_cancel_order bt asset oid en)) = le_book en"
    by (auto simp: l2_cancel_order_def split: prod.split bool.split)
  then show ?case using Withdraw by (simp add: case_prod_beta)
qed simp_all

lemma dispatch_returns:
  "\<exists>en' stats'. dispatch_strategy_tick bt en stats = Some (en', stats') \<and> le_book en' = le_book en
    \<and> ls_events_processed stats' = ls_events_processed stats \<and> ls_market_batches stats' = ls_market_batches stats"
  using rebuild_returns [of bt en]
  by (auto simp: dispatch_strategy_tick_def Let_def call_l2_strategy_def run_l2_book)

subsection \<open>Samples end\<close>

definition sample_fits :: "u64 \<Rightarrow> u64 \<Rightarrow> bool" where
  "sample_fits now interval \<longleftrightarrow> unat now + unat interval < 2 ^ 64"

lemma next_sample_later:
  assumes "t \<le> now" "interval \<noteq> 0" "sample_fits now interval"
  shows "Suc (unat now) - unat (t + interval) < Suc (unat now) - unat t"
proof -
  have n: "unat t \<le> unat now" using assms(1) by (simp add: word_le_nat_alt)
  then have "unat (t + interval) = unat t + unat interval"
    using assms(3) unfolding sample_fits_def by (subst unat_add_lem [THEN iffD1]) simp_all
  moreover have "0 < unat interval" using assms(2) by (simp add: unat_gt_0)
  ultimately show ?thesis using n by simp
qed

lemma nav_samples_return:
  assumes "sample_fits now (lb_equity_interval_ns bt)" "lb_equity_interval_ns bt \<noteq> 0"
  shows "\<exists>en'. nav_samples bt now en = Some en' \<and> le_pending en' = le_pending en \<and> le_book en' = le_book en"
proof (induction "Suc (unat now) - unat (le_next_equity en)" arbitrary: en rule: less_induct)
  case less
  let ?e = "record_nav bt en\<lparr>le_next_equity := le_next_equity en + lb_equity_interval_ns bt\<rparr>"
  show ?case
  proof (cases "now < le_next_equity en")
    case True
    then show ?thesis by (subst nav_samples.simps) simp
  next
    case False
    then have "Suc (unat now) - unat (le_next_equity ?e) < Suc (unat now) - unat (le_next_equity en)"
      using next_sample_later [OF _ assms(2,1), of "le_next_equity en"] by (simp add: not_less)
    from less [OF this] show ?thesis
      using False by (subst nav_samples.simps) (simp add: record_nav_def)
  qed
qed

lemma next_feature_returns:
  assumes "sample_fits now interval" "interval \<noteq> 0"
  shows "\<exists>t'. next_feature_time interval now t = Some t'"
proof (induction "Suc (unat now) - unat t" arbitrary: t rule: less_induct)
  case less
  show ?case
  proof (cases "t \<le> now")
    case True
    then show ?thesis
      using less [OF next_sample_later [OF True assms(2,1)]] by (subst next_feature_time.simps) simp
  next
    case False
    then show ?thesis by (subst next_feature_time.simps) simp
  qed
qed

lemma equity_returns:
  "sample_fits now (lb_equity_interval_ns bt) \<Longrightarrow>
    \<exists>en'. l2_sample_equity bt now en = Some en' \<and> le_pending en' = le_pending en \<and> le_book en' = le_book en"
  using nav_samples_return [of now bt "if le_next_equity en = 0 then en\<lparr>le_next_equity := now\<rparr> else en"]
  by (auto simp: l2_sample_equity_def split: if_splits)

lemma features_return:
  "sample_fits now (lb_feature_interval_ns bt) \<Longrightarrow>
    \<exists>en'. sample_features bt now en = Some en' \<and> le_pending en' = le_pending en \<and> le_book en' = le_book en"
  using next_feature_returns [of now "lb_feature_interval_ns bt" "if le_next_feature en = 0 then now else le_next_feature en"]
  by (auto simp: sample_features_def Let_def record_feature_def)


subsection \<open>Runs\<close>

lemma later_batches_shorter: "es \<noteq> [] \<Longrightarrow> length (later_batches es) < length es"
  by (cases es) (simp_all add: later_batches_def length_dropWhile_le le_imp_less_Suc)

lemma this_and_later: "this_batch es @ later_batches es = es"
  by (simp add: this_batch_def later_batches_def)

text \<open>The events of a file, grouped by time.\<close>

function batches :: "l2_update_event list \<Rightarrow> l2_update_event list list" where
  "batches es = (if es = [] then [] else this_batch es # batches (later_batches es))"
  by pat_completeness auto
termination by (relation "measure length") (auto simp: later_batches_shorter)

declare batches.simps [simp del]

lemma batches_Nil [simp]: "batches [] = []"
  by (simp add: batches.simps)

lemma batches_concat: "concat (batches es) = es"
proof (induction es rule: batches.induct)
  case (1 es)
  then show ?case by (cases "es = []") (simp_all add: batches.simps [of es] this_and_later)
qed

definition replay_book :: "l2_update_event list \<Rightarrow> l2_book \<Rightarrow> l2_book" where
  "replay_book es b = fold (batch_book False) (batches es) b"

definition l2_timely :: "'m l2_backtest \<Rightarrow> l2_update_event \<Rightarrow> bool" where
  "l2_timely bt e \<longleftrightarrow> sample_fits (l2e_timestamp_ns e) (lb_equity_interval_ns bt)
     \<and> sample_fits (l2e_timestamp_ns e) (lb_feature_interval_ns bt)"

lemma process_batch_returns:
  assumes "l2_listens bt" "l2_timely bt (hd es)" "boxed (le_book en)"
  shows "\<exists>en' stats'. process_batch bt es en stats = Some (en', stats') \<and> boxed (le_book en')
    \<and> fresh_book (le_book en') = batch_book False (this_batch es) (fresh_book (le_book en))
    \<and> ls_events_processed stats' = ls_events_processed stats + of_nat (length (this_batch es))
    \<and> ls_market_batches stats' = ls_market_batches stats + 1"
proof -
  define now where "now = l2e_timestamp_ns (hd es)"
  have fits: "sample_fits now (lb_equity_interval_ns bt)" "sample_fits now (lb_feature_interval_ns bt)"
    using assms(2) by (simp_all add: l2_timely_def now_def)
  obtain e1 where e1: "l2_release bt now (en\<lparr>le_time := now\<rparr>) = Some e1" "same_market (en\<lparr>le_time := now\<rparr>) e1"
    using l2_release_returns [OF assms(1), of now "en\<lparr>le_time := now\<rparr>"] by blast
  define e2 where "e2 = e1\<lparr>le_book := batch_book False (this_batch es) (le_book e1)\<rparr>"
  have b2: "boxed (le_book e2)" "fresh_book (le_book e2) = batch_book False (this_batch es) (fresh_book (le_book en))"
    using e1(2) assms(3) fresh_batch [of "le_book e1" False "this_batch es"] by (simp_all add: same_market_def e2_def)
  define stats2 where "stats2 = snd (apply_event_batch es e1 stats)"
  have a: "apply_event_batch es e1 stats = (e2, stats2)"
    by (simp add: apply_event_batch_def e2_def stats2_def)
  obtain e3 where e3: "process_active_crosses bt now e2 = Some e3" "l2_traded e2 e3"
    using process_crosses_return [OF assms(1), of now e2] by blast
  obtain e4 stats4 where e4: "dispatch_strategy_tick bt e3 stats2 = Some (e4, stats4)" "le_book e4 = le_book e3"
      "ls_events_processed stats4 = ls_events_processed stats2" "ls_market_batches stats4 = ls_market_batches stats2"
    using dispatch_returns [of bt e3 stats2] by blast
  obtain e5 where e5: "l2_release bt now e4 = Some e5" "same_market e4 e5"
    using l2_release_returns [OF assms(1), of now e4] by blast
  obtain e6 where e6: "process_active_crosses bt now e5 = Some e6" "l2_traded e5 e6"
    using process_crosses_return [OF assms(1), of now e5] by blast
  obtain e7 where e7: "l2_sample_equity bt now e6 = Some e7" "le_book e7 = le_book e6"
    using equity_returns [OF fits(1), of e6] by blast
  obtain e8 where e8: "sample_features bt now e7 = Some e8" "le_book e8 = le_book e7"
    using features_return [OF fits(2), of e7] by blast
  have "boxed (le_book e8) \<and> fresh_book (le_book e8) = fresh_book (le_book e2)"
    using b2(1) e3(2) e4(2) e5(2) e6(2) e7(2) e8(2) by (simp add: l2_traded_def same_market_def)
  moreover have "process_batch bt es en stats = Some (e8, stats4)"
    by (simp add: process_batch_def Let_def now_def [symmetric] e1(1) a e3(1) e4(1) e5(1) e6(1) e7(1) e8(1))
  ultimately show ?thesis
    using b2(2) e4(3,4) by (simp add: stats2_def apply_event_batch_def)
qed

lemma l2_replay_returns:
  assumes "l2_listens bt"
  shows "list_all (l2_timely bt) es \<Longrightarrow> boxed (le_book en) \<Longrightarrow>
    \<exists>en' stats'. l2_replay bt es en stats = Some (en', stats') \<and> slot_indices (le_pending en') = []
      \<and> fresh_book (le_book en') = replay_book es (fresh_book (le_book en))
      \<and> ls_events_processed stats' = ls_events_processed stats + of_nat (length es)
      \<and> ls_market_batches stats' = ls_market_batches stats + of_nat (length (batches es))"
proof (induction "length es" arbitrary: es en stats rule: less_induct)
  case less
  note shorter = less.hyps and timely = less.prems(1)
  from less.prems(2) show ?case
  proof (induction "commands_left en" arbitrary: en stats rule: less_induct)
    case (less en stats)
    let ?top = "lp_release_time_ns (slot_top (le_pending en))"
    note eq = l2_replay.simps [of bt es en stats]
    consider (finished) "es = [] \<and> slot_indices (le_pending en) = []"
      | (release) "slot_indices (le_pending en) \<noteq> []" "es = [] \<or> ?top \<le> l2e_timestamp_ns (hd es)"
      | (batch) "es \<noteq> []" "\<not> (slot_indices (le_pending en) \<noteq> [] \<and> (es = [] \<or> ?top \<le> l2e_timestamp_ns (hd es)))"
      by blast
    then show ?case
    proof cases
      case finished
      then have "l2_replay bt es en stats = Some (en, stats)" by (subst eq) simp
      then show ?thesis using finished by (simp add: replay_book_def)
    next
      case release
      obtain e1 where e1: "l2_release bt ?top (en\<lparr>le_time := ?top\<rparr>) = Some e1" "same_market (en\<lparr>le_time := ?top\<rparr>) e1"
          "commands_left e1 < commands_left en"
        using l2_release_returns [OF assms, of ?top "en\<lparr>le_time := ?top\<rparr>"] release(1) by (auto simp: commands_left_def)
      have b: "boxed (le_book e1)" "fresh_book (le_book e1) = fresh_book (le_book en)"
        using e1(2) less.prems by (simp_all add: same_market_def)
      have "l2_replay bt es en stats = l2_replay bt es e1 stats"
        using release e1(1) by (simp add: eq Let_def)
      then show ?thesis using less.hyps [OF e1(3) b(1), of stats] b(2) by simp
    next
      case batch
      have "l2_timely bt (hd es)" using timely batch(1) by (cases es) simp_all
      from process_batch_returns [OF assms this less.prems, of stats]
      obtain e1 s1 where e1: "process_batch bt es en stats = Some (e1, s1)" "boxed (le_book e1)"
          "fresh_book (le_book e1) = batch_book False (this_batch es) (fresh_book (le_book en))"
          "ls_events_processed s1 = ls_events_processed stats + of_nat (length (this_batch es))"
          "ls_market_batches s1 = ls_market_batches stats + 1" by blast
      have "list_all (l2_timely bt) (later_batches es)"
        using timely unfolding list_all_iff later_batches_def by (auto dest: set_dropWhileD)
      from shorter [OF later_batches_shorter [OF batch(1)] this e1(2), of s1]
      obtain en' stats' where r: "l2_replay bt (later_batches es) e1 s1 = Some (en', stats')" "slot_indices (le_pending en') = []"
          "fresh_book (le_book en') = replay_book (later_batches es) (fresh_book (le_book e1))"
          "ls_events_processed stats' = ls_events_processed s1 + of_nat (length (later_batches es))"
          "ls_market_batches stats' = ls_market_batches s1 + of_nat (length (batches (later_batches es)))" by blast
      have len: "length es = length (this_batch es) + length (later_batches es)"
        using arg_cong [OF this_and_later [of es], of length] by simp
      have split: "batches es = this_batch es # batches (later_batches es)"
        using batch(1) by (simp add: batches.simps [of es])
      have "l2_replay bt es en stats = Some (en', stats')"
        using batch e1(1) r(1) by (auto simp: eq)
      then show ?thesis
        using r(2-) e1(3-) unfolding len split replay_book_def by (simp add: add.assoc)
    qed
  qed
qed

text \<open>C35: A backtest over level updates ends and leaves the market data alone. When the strategy
  sends nothing in answer to a fill and the next sample does not wrap around the clock, the run over any
  file returns: every event is applied, in batches of one time, no command is left pending, and the book
  has at every price the quantity, and in every total the amount, that the file's batches alone leave on
  an empty book, a batch's first snapshot row clearing it; the strategy's fills show in the depleted
  shares only. All this holds unless the configuration has a scale of zero or less, or no levels: then,
  and only then, the run refuses, naming the scale first.\<close>
theorem l2_backtest_replays_its_data:
  assumes "l2_listens bt" "list_all (l2_timely bt) es"
  shows "\<exists>out. l2_run bt es (new_l2_engine bt mem) = Some out
    \<and> (out = Inl Quantity_scale_not_positive \<longleftrightarrow> is_at_most_zero (lb_quantity_scale bt))
    \<and> (out = Inl No_book_levels \<longleftrightarrow> \<not> is_at_most_zero (lb_quantity_scale bt) \<and> lb_max_levels bt = 0)
    \<and> (case out of
        Inl e \<Rightarrow> True
      | Inr (en, stats) \<Rightarrow> fresh_book (le_book en) = replay_book es (new_l2_book (lb_max_levels bt))
          \<and> slot_indices (le_pending en) = [] \<and> ls_events_processed stats = of_nat (length es)
          \<and> ls_market_batches stats = of_nat (length (batches es)))"
proof (cases "is_at_most_zero (lb_quantity_scale bt) \<or> lb_max_levels bt = 0")
  case True
  then show ?thesis by (cases "is_at_most_zero (lb_quantity_scale bt)") (simp_all add: l2_run_def)
next
  case False
  let ?e = "call_l2_strategy bt L2_start (reset_runtime bt (new_l2_engine bt mem))"
  have "le_book ?e = new_l2_book (lb_max_levels bt)"
    by (simp add: call_l2_strategy_def run_l2_book reset_runtime_def)
  then obtain en stats where "l2_replay bt es ?e \<lparr>ls_events_processed = 0, ls_market_batches = 0, ls_strategy_ticks = 0\<rparr> = Some (en, stats)"
      "slot_indices (le_pending en) = []" "fresh_book (le_book en) = replay_book es (new_l2_book (lb_max_levels bt))"
      "ls_events_processed stats = of_nat (length es)" "ls_market_batches stats = of_nat (length (batches es))"
    using l2_replay_returns [OF assms, of ?e "\<lparr>ls_events_processed = 0, ls_market_batches = 0, ls_strategy_ticks = 0\<rparr>"]
    by auto
  then show ?thesis using False by (simp add: l2_run_def record_nav_def)
qed


text \<open>A strategy that bids 5 for seven at every tick, and two batches of updates.\<close>

definition bidding_backtest :: "unit l2_backtest" where
  "bidding_backtest = \<lparr>lb_fp = bt_fp eager_backtest, lb_slots = 4, lb_initial_cash = 0, lb_maker_fee_bps = 0, lb_taker_fee_bps = 0,
     lb_latency_ns = 10, lb_equity_interval_ns = 1000, lb_max_levels = 3, lb_quantity_scale = dbl_scale,
     lb_record_features = True, lb_feature_interval_ns = 7, lb_is_l2_strategy = True,
     lb_strategy = (\<lambda>signal u. case signal of L2_tick b \<Rightarrow> Place 0 Buy 5 7 0 (\<lambda>oid. Done u) | _ \<Rightarrow> Done u)\<rparr>"

definition level_row :: "u64 \<Rightarrow> bool \<Rightarrow> int \<Rightarrow> u64 \<Rightarrow> bool \<Rightarrow> l2_update_event" where
  "level_row t is_bid p q snap = \<lparr>l2e_timestamp_ns = t, l2e_price = p, l2e_qty = q, l2e_is_snapshot = snap, l2e_is_bid = is_bid\<rparr>"

definition two_batches :: "l2_update_event list" where
  "two_batches = [level_row 5 True 3 9 True, level_row 5 False 5 2 True, level_row 5 False 4 8 True, level_row 30 False 5 6 False]"

lemma fresh_asks: "map l2_qty (live (sd_levels (l2_asks (fresh_book b)))) = map l2_qty (live (sd_levels (l2_asks b)))"
  by (simp add: fresh_book_def comp_def)

theorem l2_backtest_replays_its_data_witness:
  "\<exists>en stats. l2_run bidding_backtest two_batches (new_l2_engine bidding_backtest ()) = Some (Inr (en, stats))
    \<and> map l2_qty (live (sd_levels (l2_asks (le_book en)))) = [8, 6]
    \<and> ls_events_processed stats = 4 \<and> ls_market_batches stats = 2"
proof -
  have "l2_listens bidding_backtest" by (simp add: l2_listens_def bidding_backtest_def)
  moreover have "list_all (l2_timely bidding_backtest) two_batches"
    by (simp add: l2_timely_def sample_fits_def bidding_backtest_def two_batches_def level_row_def)
  ultimately obtain out where out: "l2_run bidding_backtest two_batches (new_l2_engine bidding_backtest ()) = Some out"
    "out = Inl Quantity_scale_not_positive \<longleftrightarrow> is_at_most_zero (lb_quantity_scale bidding_backtest)"
    "out = Inl No_book_levels \<longleftrightarrow> \<not> is_at_most_zero (lb_quantity_scale bidding_backtest) \<and> lb_max_levels bidding_backtest = 0"
    "case out of Inl e \<Rightarrow> True
      | Inr (en, stats) \<Rightarrow> fresh_book (le_book en) = replay_book two_batches (new_l2_book (lb_max_levels bidding_backtest))
          \<and> slot_indices (le_pending en) = [] \<and> ls_events_processed stats = of_nat (length two_batches)
          \<and> ls_market_batches stats = of_nat (length (batches two_batches))"
    using l2_backtest_replays_its_data [of bidding_backtest two_batches "()"] by blast
  have "\<not> is_at_most_zero (lb_quantity_scale bidding_backtest)" "lb_max_levels bidding_backtest = 3"
    by (simp_all add: bidding_backtest_def is_at_most_zero_def dbl_scale_def dbl_zero_def dbl_minus_zero_def dbl_minus_infinity_def)
  then obtain en stats where en: "out = Inr (en, stats)" "fresh_book (le_book en) = replay_book two_batches (new_l2_book 3)"
      "ls_events_processed stats = of_nat (length two_batches)" "ls_market_batches stats = of_nat (length (batches two_batches))"
    using out(2-4) by (cases out; cases "projl out") (auto split: prod.splits)
  have "length two_batches = 4" "length (batches two_batches) = 2" by code_simp+
  moreover have "map l2_qty (live (sd_levels (l2_asks (replay_book two_batches (new_l2_book 3))))) = [8, 6]" by code_simp
  ultimately show ?thesis
    using out(1) en fresh_asks [of "le_book en"] by simp
qed

end
