(* ===== verification/L2Findings.thy ===== *)
theory L2Findings
  imports L2BacktestRuns
begin

section \<open>A sweep that changes its order\<close>

text \<open>
  \<open>sweep_visible_depth\<close> holds a reference to the live order it sweeps for. A fill that completes
  the order erases it from the array inside the sweep, and what the slot holds next is
  the order that was last in the array, or one that the strategy places in answer to the fill.
  The sweep goes on with that one.
\<close>

text \<open>Doubles that are their own numbers, but for the quantity 5, which the products convert.\<close>

definition slot_fp :: backtest_fp where
  "slot_fp = (bt_fp eager_backtest)\<lparr>fp_mul := (\<lambda>x y. if x = 5 then 0x4014000000000000 else 0)\<rparr>"

definition slot_backtest :: "(l2_signal \<Rightarrow> strategy_fill list \<Rightarrow> strategy_fill list strategy_action) \<Rightarrow> strategy_fill list l2_backtest" where
  "slot_backtest strategy = \<lparr>lb_fp = slot_fp, lb_slots = 3, lb_initial_cash = 0, lb_maker_fee_bps = 0, lb_taker_fee_bps = 0,
     lb_latency_ns = 10, lb_equity_interval_ns = 1000, lb_max_levels = 3, lb_quantity_scale = dbl_scale,
     lb_record_features = False, lb_feature_interval_ns = 0, lb_is_l2_strategy = True, lb_strategy = strategy\<rparr>"

text \<open>One strategy answers its first fill with a new bid; the other only listens.\<close>

definition answering :: "l2_signal \<Rightarrow> strategy_fill list \<Rightarrow> strategy_fill list strategy_action" where
  "answering signal fills = (case signal of
       L2_fill f \<Rightarrow> if fills = [] then Place 0 Buy 101 5 0 (\<lambda>oid. Done [f]) else Done (fills @ [f])
     | _ \<Rightarrow> Done fills)"

definition listening :: "l2_signal \<Rightarrow> strategy_fill list \<Rightarrow> strategy_fill list strategy_action" where
  "listening signal fills = (case signal of L2_fill f \<Rightarrow> Done (fills @ [f]) | _ \<Rightarrow> Done fills)"

text \<open>A bid at 90, and five offered at 100 and five at 101; the time is 1.\<close>

definition offered_engine :: "strategy_fill list l2_engine" where
  "offered_engine = \<lparr>le_book = fold apply_event [level_row 1 True 90 5 False, level_row 1 False 100 5 False,
       level_row 1 False 101 5 False] (new_l2_book 3),
     le_strategy_book = new_book small_book, le_pending = new_slot_heap 3 no_l2_pending, le_live = vec_new 3 no_l2_order,
     le_equity_curve = [], le_features = [], le_next_order_id = 1, le_next_equity = 0,
     le_next_feature = 0, le_time = 1, le_synthetic_id = 1, le_dropped = 0, le_submitted = 0, le_cancels = 0,
     le_last_fill = 0, le_execution = no_execution, le_cash = 0, le_position = 0, le_memory = []\<rparr>"

definition told :: "strategy_fill list l2_engine option \<Rightarrow> (u64 \<times> side \<times> int \<times> u64 \<times> u64) list" where
  "told out = (case out of None \<Rightarrow> [] | Some en \<Rightarrow>
     map (\<lambda>f. (sf_order_id f, sf_side f, sf_price f, sf_quantity f, sf_timestamp f)) (le_memory en))"

definition first_bid :: "strategy_fill list l2_backtest \<Rightarrow> strategy_fill list l2_engine" where
  "first_bid bt = fst (l2_submit_order bt 0 Buy 101 5 offered_engine)"

definition at_time :: "u64 \<Rightarrow> strategy_fill list l2_engine \<Rightarrow> strategy_fill list l2_engine" where
  "at_time t en = en\<lparr>le_time := t\<rparr>"

definition bid_and_offer :: "strategy_fill list l2_backtest \<Rightarrow> strategy_fill list l2_engine" where
  "bid_and_offer bt = fst (l2_submit_order bt 0 Sell 120 5 (at_time 5 (first_bid bt)))"

declare l2_release.simps [code]

text \<open>The value of a double, computed with binary numbers.\<close>

lemma dbl_value_code [code]:
  "dbl_value d =
     (let e0 = uint (drop_bit 52 d AND 0x7FF); e = max 1 e0;
          s = uint (take_bit 52 d) + (if e0 = 0 then 0 else 4503599627370496);
          v = (if 1075 \<le> e then of_int (s * 2 ^ nat (e - 1075)) else of_int s / of_int (2 ^ nat (1075 - e)))
      in if bit d 63 then - v else v)"
proof -
  have e: "int (dbl_exponent d) = uint (drop_bit 52 d AND 0x7FF)" by (simp add: dbl_exponent_def)
  then have m: "max 1 (uint (drop_bit 52 d AND 0x7FF)) = int (max 1 (dbl_exponent d))" by simp
  have s: "int (dbl_significand d) = uint (take_bit 52 d) + (if uint (drop_bit 52 d AND 0x7FF) = 0 then 0 else 4503599627370496)"
    unfolding e [symmetric] by (simp add: dbl_significand_def)
  have n: "nat (int m - 1075) = m - 1075" "nat (1075 - int m) = 1075 - m" for m :: nat by simp_all
  show ?thesis
    unfolding dbl_value_def Let_def s [symmetric] m n by (auto simp: max_def)
qed

text \<open>A bid for 5 up to 101, placed at time 1 with a latency of 10, takes the 5 offered at 100 at time 11
  and is complete. If the strategy answers the fill with another such bid, that one is filled at 101 in the
  same sweep, at time 11, although it was placed at 11 and its command is held until 21. If a sell order at
  120, placed at time 5, waits behind the bid, neither active nor near the market, it is filled as a
  purchase at 101.\<close>
lemma l2_sweep_fills_another_order:
  "told (l2_release (slot_backtest answering) 11 (at_time 11 (first_bid (slot_backtest answering))))
      = [(1, Buy, 100, 5, 11), (2, Buy, 101, 5, 11)]
    \<and> map_option (\<lambda>en. map (\<lambda>p. (lp_order_id p, lp_release_time_ns p)) (held (le_pending en)))
        (l2_release (slot_backtest answering) 11 (at_time 11 (first_bid (slot_backtest answering)))) = Some [(2, 21)]
    \<and> told (l2_release (slot_backtest listening) 11 (at_time 11 (bid_and_offer (slot_backtest listening))))
      = [(1, Buy, 100, 5, 11), (2, Buy, 101, 5, 11)]"
  by code_simp

end
