(* ===== verification/MultiBacktest.thy ===== *)
theory MultiBacktest
  imports L2Backtest BacktestRuns EventMerger
begin

section \<open>The backtest over several books\<close>

text \<open>
  \<open>MultiAssetBacktestEngine\<close> of \<open>include/lob/multi_asset_backtest_engine.hpp\<close> with the order
  groups of \<open>include/lob/oms.hpp\<close>. It merges one stream of orders for each of \<open>mb_assets\<close> pairs
  by time, replays each through its book, and lets one strategy take from the books, by
  single orders and by groups of three legs, with a wallet in dollars, bitcoin and ether.

  A strategy is a tree of gateway calls for each callback. A parser is the list of the
  events it has left. The values drawn from the generator and the standard distributions
  are parameters, by the number of draws made before. The log, an output, is left out, and so are the members of
  \<open>Result\<close>, which copy the final state. The capacity of the heaps and of the array of live orders, 16384, is
  \<open>mb_slots\<close>. The code keeps no reference into the array of live orders across a call, so
  that array is the list of its entries. An asset beyond the books, which the code would read past its
  array, is \<^term>\<open>xs ! i\<close> beyond the list: a book of which nothing is known.
\<close>

subsection \<open>Order groups\<close>

record leg_request =
  lr_quantity :: u64
  lr_timestamp :: u64
  lr_price :: int
  lr_expected_price :: int
  lr_slippage_tolerance :: double
  lr_asset_id :: asset_id
  lr_side :: side

record leg_report =
  xr_expected_price :: int
  xr_vwap_price :: int
  xr_requested_quantity :: u64
  xr_filled_quantity :: u64
  xr_asset_id :: asset_id
  xr_side :: side
  xr_fully_filled :: bool
  xr_slippage_breached :: bool

record order_group =
  og_group_id :: u64
  og_timestamp :: u64
  og_intra_leg_latency_ns :: u64
  og_intra_leg_jitter_ns :: u64
  og_slippage_tolerance :: double
  og_legs :: "leg_request list"

record order_group_result =
  gr_group_id :: u64
  gr_reports :: "leg_report list"
  gr_completed :: bool
  gr_panic_triggered :: bool

definition order_group_leg_count :: nat where "order_group_leg_count = 3"

definition no_leg_report :: leg_report where
  "no_leg_report = \<lparr>xr_expected_price = 0, xr_vwap_price = 0, xr_requested_quantity = 0, xr_filled_quantity = 0,
     xr_asset_id = 0, xr_side = Buy, xr_fully_filled = False, xr_slippage_breached = False\<rparr>"

definition new_group_result :: "u64 \<Rightarrow> order_group_result" where
  "new_group_result group_id = \<lparr>gr_group_id = group_id, gr_reports = replicate order_group_leg_count no_leg_report,
     gr_completed = False, gr_panic_triggered = False\<rparr>"

subsection \<open>The state\<close>

datatype 'm multi_action =
    Finish 'm
  | Send asset_id side double u64 u64 "u64 \<Rightarrow> 'm multi_action"
  | Retract asset_id u64 "bool \<Rightarrow> 'm multi_action"
  | Send_group order_group "order_group_result \<Rightarrow> 'm multi_action"
  | Read_time "u64 \<Rightarrow> 'm multi_action"

record 'm multi_backtest =
  mb_fp :: backtest_fp
  mb_wallet_fp :: wallet_fp
  mb_assets :: nat
  mb_slots :: nat
  mb_initial_cash :: double
  mb_maker_fee_bps :: double
  mb_taker_fee_bps :: double
  mb_base_latency_ns :: u64
  mb_jitter_distribution :: jitter_distribution
  mb_jitter_mean_ns :: double
  mb_lognormal_sigma :: double
  mb_intra_leg_latency_ns :: u64
  mb_intra_leg_jitter_ns :: u64
  mb_exponential_draw :: "nat \<Rightarrow> double"
  mb_lognormal_draw :: "nat \<Rightarrow> double"
  mb_integer_draw :: "nat \<Rightarrow> u64"
  mb_strategy :: "strategy_signal \<Rightarrow> 'm \<Rightarrow> 'm multi_action"

record multi_pending =
  mp_type :: pending_command
  mp_asset_id :: asset_id
  mp_release_time_ns :: u64
  mp_order_id :: u64
  mp_side :: side
  mp_price :: double
  mp_quantity :: u64

record pending_group =
  pg_release_time_ns :: u64
  pg_group :: order_group

record multi_live =
  ml_asset_id :: asset_id
  ml_order_id :: u64
  ml_side :: side
  ml_price :: double
  ml_remaining_quantity :: u64
  ml_volume_ahead :: u64
  ml_intended_taker :: bool
  ml_active :: bool
  ml_canceled :: bool

record per_asset_stats =
  pa_volume_traded :: double
  pa_fees_paid :: double
  pa_slippage_realized :: double
  pa_total_pnl :: double

record 'm multi_engine =
  me_merger :: merger
  me_books :: "matching_book list"
  me_pending :: "multi_pending slot_heap"
  me_groups :: "pending_group slot_heap"
  me_live :: "multi_live list"
  me_trades :: "trade list"
  me_draws :: nat
  me_position :: "int list"
  me_last_mid :: "double list"
  me_last_snapshot :: "u64 list"
  me_asset_stats :: "per_asset_stats list"
  me_snapshots :: "market_snapshot list"
  me_wallet :: wallet
  me_execution :: execution_diagnostics
  me_current_asset :: asset_id
  me_time :: u64
  me_next_order_id :: u64
  me_dropped :: u64
  me_record :: bool
  me_sampling_interval :: u64
  me_memory :: 'm

definition usdt_asset :: asset_id where "usdt_asset = 0"
definition btc_asset :: asset_id where "btc_asset = 1"
definition eth_asset :: asset_id where "eth_asset = 2"
definition dbl_max :: double where "dbl_max = 0x7FEFFFFFFFFFFFFF"

definition no_multi_pending :: multi_pending where
  "no_multi_pending = \<lparr>mp_type = Submit_command, mp_asset_id = 0, mp_release_time_ns = 0, mp_order_id = 0,
     mp_side = Buy, mp_price = dbl_zero, mp_quantity = 0\<rparr>"

definition no_pending_group :: pending_group where
  "no_pending_group = \<lparr>pg_release_time_ns = 0, pg_group = \<lparr>og_group_id = 0, og_timestamp = 0,
     og_intra_leg_latency_ns = 75, og_intra_leg_jitter_ns = 25, og_slippage_tolerance = 0x3F2A36E2EB1C432D,
     og_legs = []\<rparr>\<rparr>"

definition no_asset_stats :: per_asset_stats where
  "no_asset_stats = \<lparr>pa_volume_traded = dbl_zero, pa_fees_paid = dbl_zero, pa_slippage_realized = dbl_zero,
     pa_total_pnl = dbl_zero\<rparr>"

definition book_of :: "asset_id \<Rightarrow> 'm multi_engine \<Rightarrow> matching_book" where
  "book_of asset en = me_books en ! unat asset"

definition is_listed :: "'m multi_backtest \<Rightarrow> asset_id \<Rightarrow> bool" where
  "is_listed mb asset \<longleftrightarrow> unat asset < mb_assets mb"

subsection \<open>Values in dollars\<close>

definition mid_of_asset :: "nat \<Rightarrow> 'm multi_engine \<Rightarrow> double" where
  "mid_of_asset i en = me_last_mid en ! i"

definition quote_notional_to_usdt :: "'m multi_backtest \<Rightarrow> asset_id \<Rightarrow> double \<Rightarrow> 'm multi_engine \<Rightarrow> double" where
  "quote_notional_to_usdt mb asset quote_notional en =
     (if asset = 2 then fp_mul (mb_fp mb) quote_notional (mid_of_asset 0 en) else quote_notional)"

definition base_quantity_to_usdt :: "'m multi_backtest \<Rightarrow> asset_id \<Rightarrow> double \<Rightarrow> 'm multi_engine \<Rightarrow> double" where
  "base_quantity_to_usdt mb asset base_quantity en =
     (if asset = 0 then fp_mul (mb_fp mb) base_quantity (mid_of_asset 0 en)
      else if asset = 1 \<or> asset = 2
      then (if 1 < mb_assets mb then fp_mul (mb_fp mb) base_quantity (mid_of_asset 1 en) else dbl_zero)
      else dbl_zero)"

definition fee_to_usdt ::
  "'m multi_backtest \<Rightarrow> asset_id \<Rightarrow> side \<Rightarrow> double \<Rightarrow> double \<Rightarrow> double \<Rightarrow> 'm multi_engine \<Rightarrow> double" where
  "fee_to_usdt mb asset sd base_quantity quote_notional fee_bps en =
     (let fee_rate = fp_mul (mb_fp mb) fee_bps dbl_basis_point in
      if sd = Buy then base_quantity_to_usdt mb asset (fp_mul (mb_fp mb) base_quantity fee_rate) en
      else quote_notional_to_usdt mb asset (fp_mul (mb_fp mb) quote_notional fee_rate) en)"

definition multi_sub :: "'m multi_backtest \<Rightarrow> double \<Rightarrow> double \<Rightarrow> double" where
  "multi_sub mb x y = fp_add (mb_fp mb) x (fp_neg (mb_fp mb) y)"

definition slippage_to_usdt ::
  "'m multi_backtest \<Rightarrow> asset_id \<Rightarrow> side \<Rightarrow> double \<Rightarrow> double \<Rightarrow> 'm multi_engine \<Rightarrow> double" where
  "slippage_to_usdt mb asset sd fill_price base_quantity en =
     (if \<not> is_listed mb asset then dbl_zero
      else
        let mid_price = mid_of_asset (unat asset) en in
        if is_at_most_zero mid_price then dbl_zero
        else quote_notional_to_usdt mb asset
          (fp_mul (mb_fp mb) (if sd = Buy then multi_sub mb fill_price mid_price else multi_sub mb mid_price fill_price)
            base_quantity) en)"

definition liquidation_price :: "'m multi_backtest \<Rightarrow> 'm multi_engine \<Rightarrow> asset_id \<Rightarrow> double" where
  "liquidation_price mb en asset =
     (if asset = btc_asset then mid_of_asset 0 en
      else if asset = eth_asset
      then
        let factor = (if 1 < mb_assets mb then mid_of_asset 1 en else dbl_zero) in
        if is_at_most_zero factor \<and> 2 < mb_assets mb \<and> is_positive (mid_of_asset 2 en) \<and> is_positive (mid_of_asset 0 en)
        then fp_mul (mb_fp mb) (mid_of_asset 2 en) (mid_of_asset 0 en) else factor
      else dbl_zero)"

definition refresh_wallet_factors :: "'m multi_backtest \<Rightarrow> 'm multi_engine \<Rightarrow> 'm multi_engine" where
  "refresh_wallet_factors mb en = en\<lparr>me_wallet := snd (refresh_liquidation_factors
     (\<lambda>asset. case from_double (mb_wallet_fp mb) (liquidation_price mb en asset) of None \<Rightarrow> 0 | Some fixed \<Rightarrow> fixed)
     (me_wallet en))\<rparr>"

definition update_last_mid :: "'m multi_backtest \<Rightarrow> asset_id \<Rightarrow> 'm multi_engine \<Rightarrow> 'm multi_engine" where
  "update_last_mid mb asset en =
     (if \<not> is_listed mb asset then en
      else
        let bid = get_best_bid (mb_fp mb) (book_of asset en); ask = get_best_ask (mb_fp mb) (book_of asset en) in
        if is_positive bid \<and> is_positive ask
        then refresh_wallet_factors mb (en\<lparr>me_last_mid := (me_last_mid en)
          [unat asset := fp_mul (mb_fp mb) (fp_add (mb_fp mb) bid ask) dbl_half]\<rparr>)
        else en)"

definition new_multi_engine :: "'m multi_backtest \<Rightarrow> market_event list list \<Rightarrow> 'm \<Rightarrow> wallet_error + 'm multi_engine" where
  "new_multi_engine mb parsers mem =
     and_next (from_double_or_throw (mb_wallet_fp mb) (mb_initial_cash mb)) (\<lambda>cash.
     and_next (wallet_reset 3 usdt_asset cash new_wallet) (\<lambda>w.
       Inr (refresh_wallet_factors mb \<lparr>me_merger = new_merger parsers,
         me_books = replicate (mb_assets mb) (new_book fixed_config),
         me_pending = new_slot_heap (mb_slots mb) no_multi_pending,
         me_groups = new_slot_heap (mb_slots mb) no_pending_group, me_live = [], me_trades = [], me_draws = 0,
         me_position = replicate (mb_assets mb) 0, me_last_mid = replicate (mb_assets mb) dbl_zero,
         me_last_snapshot = replicate (mb_assets mb) 0, me_asset_stats = replicate (mb_assets mb) no_asset_stats,
         me_snapshots = [], me_wallet = w, me_execution = no_execution, me_current_asset = 0, me_time = 0,
         me_next_order_id = first_strategy_order_id, me_dropped = 0, me_record = False, me_sampling_interval = 0,
         me_memory = mem\<rparr>)))"

subsection \<open>Latency\<close>

definition multi_latency_ns :: "'m multi_backtest \<Rightarrow> 'm multi_engine \<Rightarrow> 'm multi_engine \<times> u64" where
  "multi_latency_ns mb en =
     (let k = me_draws en; drawn = en\<lparr>me_draws := Suc k\<rparr>; base = mb_base_latency_ns mb in
      case mb_jitter_distribution mb of
        No_jitter \<Rightarrow> (en, base)
      | Exponential_jitter \<Rightarrow>
          if is_positive (mb_jitter_mean_ns mb)
          then (drawn, base + of_nat (dbl_truncate (mb_exponential_draw mb k))) else (en, base)
      | Lognormal_jitter \<Rightarrow>
          if is_positive (mb_lognormal_sigma mb)
          then (drawn, base + of_nat (dbl_truncate (mb_lognormal_draw mb k))) else (en, base))"

text \<open>A bound of \<open>2 ^ 64 - 1\<close> would divide by zero in the code; here the draw is taken whole.\<close>

definition leg_latency_ns :: "'m multi_backtest \<Rightarrow> u64 \<Rightarrow> u64 \<Rightarrow> 'm multi_engine \<Rightarrow> 'm multi_engine \<times> u64" where
  "leg_latency_ns mb base_latency jitter_bound en =
     (if 0 < jitter_bound
      then (en\<lparr>me_draws := Suc (me_draws en)\<rparr>, base_latency + mb_integer_draw mb (me_draws en) mod (jitter_bound + 1))
      else (en, base_latency))"

definition group_latency_ns :: "'m multi_backtest \<Rightarrow> order_group \<Rightarrow> 'm multi_engine \<Rightarrow> 'm multi_engine \<times> u64" where
  "group_latency_ns mb grp =
     leg_latency_ns mb
       (if og_intra_leg_latency_ns grp \<noteq> 0 then og_intra_leg_latency_ns grp else mb_intra_leg_latency_ns mb)
       (if og_intra_leg_jitter_ns grp \<noteq> 0 then og_intra_leg_jitter_ns grp else mb_intra_leg_jitter_ns mb)"

subsection \<open>The live orders\<close>

definition multi_find_live :: "u64 \<Rightarrow> 'm multi_engine \<Rightarrow> nat option" where
  "multi_find_live order_id en = find (\<lambda>i. ml_order_id (me_live en ! i) = order_id) [0..<length (me_live en)]"

definition multi_add_live :: "'m multi_backtest \<Rightarrow> multi_live \<Rightarrow> 'm multi_engine \<Rightarrow> 'm multi_engine \<times> bool" where
  "multi_add_live mb o' en =
     (if length (me_live en) = mb_slots mb then (en, False) else (en\<lparr>me_live := me_live en @ [o']\<rparr>, True))"

definition multi_erase_live :: "nat \<Rightarrow> 'm multi_engine \<Rightarrow> 'm multi_engine" where
  "multi_erase_live i en = en\<lparr>me_live := (butlast (me_live en))[i := last (me_live en)]\<rparr>"

definition multi_erase_id :: "u64 \<Rightarrow> 'm multi_engine \<Rightarrow> 'm multi_engine" where
  "multi_erase_id order_id en = (case multi_find_live order_id en of None \<Rightarrow> en | Some i \<Rightarrow> multi_erase_live i en)"

definition multi_upd_live :: "nat \<Rightarrow> (multi_live \<Rightarrow> multi_live) \<Rightarrow> 'm multi_engine \<Rightarrow> 'm multi_engine" where
  "multi_upd_live i f en = en\<lparr>me_live := (me_live en)[i := f (me_live en ! i)]\<rparr>"

definition multi_aggressive :: "'m multi_backtest \<Rightarrow> asset_id \<Rightarrow> side \<Rightarrow> double \<Rightarrow> 'm multi_engine \<Rightarrow> bool" where
  "multi_aggressive mb asset sd price en =
     (if \<not> is_listed mb asset then False
      else if sd = Buy
      then is_positive (get_best_ask (mb_fp mb) (book_of asset en)) \<and> dbl_le (get_best_ask (mb_fp mb) (book_of asset en)) price
      else is_positive (get_best_bid (mb_fp mb) (book_of asset en)) \<and> dbl_le price (get_best_bid (mb_fp mb) (book_of asset en)))"

text \<open>The quantity that crosses a limit, counted until it suffices.\<close>

definition count_level :: "side \<Rightarrow> int \<Rightarrow> u64 \<Rightarrow> int \<Rightarrow> u64 \<Rightarrow> u64 \<Rightarrow> u64 \<times> bool" where
  "count_level sd limit_ticks target price quantity available =
     (if \<not> crosses sd limit_ticks price then (available, False)
      else (available + quantity, available + quantity < target))"

definition available_cross_quantity ::
  "'m multi_backtest \<Rightarrow> asset_id \<Rightarrow> side \<Rightarrow> double \<Rightarrow> u64 \<Rightarrow> 'm multi_engine \<Rightarrow> u64" where
  "available_cross_quantity mb asset sd limit_price target en =
     (if \<not> is_listed mb asset then 0
      else fixed_for_each_level (book_of asset en) (opposite sd)
        (count_level sd (price_to_ticks (mb_fp mb) limit_price) target) 0)"


subsection \<open>The gateway\<close>

definition multi_submit_order ::
  "'m multi_backtest \<Rightarrow> asset_id \<Rightarrow> side \<Rightarrow> double \<Rightarrow> u64 \<Rightarrow> 'm multi_engine \<Rightarrow> 'm multi_engine \<times> u64" where
  "multi_submit_order mb asset sd price quantity en =
     (let oid = me_next_order_id en; en = en\<lparr>me_next_order_id := oid + 1\<rparr> in
      if quantity = 0 then (en, oid)
      else
        case multi_add_live mb \<lparr>ml_asset_id = asset, ml_order_id = oid, ml_side = sd, ml_price = price,
            ml_remaining_quantity = quantity, ml_volume_ahead = 0,
            ml_intended_taker = multi_aggressive mb asset sd price en, ml_active = False, ml_canceled = False\<rparr> en of
          (en, False) \<Rightarrow> (en\<lparr>me_dropped := me_dropped en + 1\<rparr>, oid)
        | (en, True) \<Rightarrow>
            (let (en, latency) = multi_latency_ns mb en in
             case slot_push mp_release_time_ns \<lparr>mp_type = Submit_command, mp_asset_id = asset,
                 mp_release_time_ns = me_time en + latency, mp_order_id = oid, mp_side = sd, mp_price = price,
                 mp_quantity = quantity\<rparr> (me_pending en) of
               (pending, True) \<Rightarrow> (en\<lparr>me_pending := pending\<rparr>, oid)
             | (pending, False) \<Rightarrow>
                 (let en = multi_erase_id oid (en\<lparr>me_pending := pending\<rparr>)
                  in (en\<lparr>me_dropped := me_dropped en + 1\<rparr>, oid))))"

definition multi_cancel_order :: "'m multi_backtest \<Rightarrow> asset_id \<Rightarrow> u64 \<Rightarrow> 'm multi_engine \<Rightarrow> 'm multi_engine \<times> bool" where
  "multi_cancel_order mb asset order_id en =
     (let (en, latency) = multi_latency_ns mb en in
      case slot_push mp_release_time_ns (no_multi_pending\<lparr>mp_type := Cancel_command, mp_asset_id := asset,
          mp_release_time_ns := me_time en + latency, mp_order_id := order_id\<rparr>) (me_pending en) of
        (pending, True) \<Rightarrow> (en\<lparr>me_pending := pending\<rparr>, True)
      | (pending, False) \<Rightarrow> (en\<lparr>me_pending := pending, me_dropped := me_dropped en + 1\<rparr>, False))"

definition execute_group ::
  "'m multi_backtest \<Rightarrow> order_group \<Rightarrow> 'm multi_engine \<Rightarrow> 'm multi_engine \<times> order_group_result" where
  "execute_group mb grp en =
     (let (en, latency) = multi_latency_ns mb en;
          (groups, pushed) = slot_push pg_release_time_ns
            \<lparr>pg_release_time_ns = me_time en + latency, pg_group = grp\<rparr> (me_groups en)
      in (en\<lparr>me_groups := groups, me_dropped := (if pushed then me_dropped en else me_dropped en + 1)\<rparr>,
          new_group_result (og_group_id grp)))"

primrec run_multi :: "'m multi_backtest \<Rightarrow> 'm multi_action \<Rightarrow> 'm multi_engine \<Rightarrow> 'm multi_engine" where
  "run_multi mb (Finish mem) = (\<lambda>en. en\<lparr>me_memory := mem\<rparr>)"
| "run_multi mb (Send asset sd price quantity t k) =
     (\<lambda>en. case multi_submit_order mb asset sd price quantity en of (en, oid) \<Rightarrow> run_multi mb (k oid) en)"
| "run_multi mb (Retract asset oid k) =
     (\<lambda>en. case multi_cancel_order mb asset oid en of (en, ok) \<Rightarrow> run_multi mb (k ok) en)"
| "run_multi mb (Send_group grp k) =
     (\<lambda>en. case execute_group mb grp en of (en, r) \<Rightarrow> run_multi mb (k r) en)"
| "run_multi mb (Read_time k) = (\<lambda>en. run_multi mb (k (me_time en)) en)"

definition call_multi :: "'m multi_backtest \<Rightarrow> strategy_signal \<Rightarrow> 'm multi_engine \<Rightarrow> 'm multi_engine" where
  "call_multi mb signal en = run_multi mb (mb_strategy mb signal (me_memory en)) en"

subsection \<open>Fills\<close>

definition multi_units :: "'m multi_backtest \<Rightarrow> u64 \<Rightarrow> double" where
  "multi_units mb q = fp_div (mb_fp mb) (fp_of_u64 (mb_fp mb) q) dbl_scale"

definition multi_notional :: "'m multi_backtest \<Rightarrow> strategy_fill \<Rightarrow> double" where
  "multi_notional mb f = fp_mul (mb_fp mb) (ticks_to_price (mb_fp mb) (sf_price f)) (multi_units mb (sf_quantity f))"

definition multi_fee_bps :: "'m multi_backtest \<Rightarrow> strategy_fill \<Rightarrow> double" where
  "multi_fee_bps mb f = (if sf_role f = Maker then mb_maker_fee_bps mb else mb_taker_fee_bps mb)"

text \<open>The base and the quote asset of a pair.\<close>

definition pair_assets :: "asset_id \<Rightarrow> (asset_id \<times> asset_id) option" where
  "pair_assets asset =
     (if asset = 0 then Some (btc_asset, usdt_asset) else if asset = 1 then Some (eth_asset, usdt_asset)
      else if asset = 2 then Some (eth_asset, btc_asset) else None)"

definition apply_portfolio_fill ::
  "'m multi_backtest \<Rightarrow> asset_id \<Rightarrow> side \<Rightarrow> double \<Rightarrow> double \<Rightarrow> double \<Rightarrow> 'm multi_engine \<Rightarrow> 'm multi_engine" where
  "apply_portfolio_fill mb asset sd base_quantity quote_notional fee_bps en =
     (if is_at_most_zero base_quantity then en
      else
        let fill_price = fp_div (mb_fp mb) quote_notional base_quantity in
        case pair_assets asset of
          None \<Rightarrow> en
        | Some (base_asset, quote_asset) \<Rightarrow>
            en\<lparr>me_wallet := snd (apply_spot_fill (mb_wallet_fp mb) base_asset quote_asset sd
              (of_int (llround (dbl_value (fp_mul (mb_fp mb) base_quantity dbl_scale))))
              (price_to_ticks (mb_fp mb) fill_price) fee_bps (me_wallet en))\<rparr>)"

definition move_position :: "strategy_fill \<Rightarrow> 'm multi_engine \<Rightarrow> 'm multi_engine" where
  "move_position f en =
     (let i = unat (sf_asset_id f); q = sint (sf_quantity f) in
      en\<lparr>me_position := (me_position en)[i := me_position en ! i + (if sf_side f = Buy then q else - q)]\<rparr>)"

definition count_asset_stats ::
  "'m multi_backtest \<Rightarrow> strategy_fill \<Rightarrow> double \<Rightarrow> double \<Rightarrow> 'm multi_engine \<Rightarrow> 'm multi_engine" where
  "count_asset_stats mb f fee_usdt slippage_usdt en =
     (if \<not> is_listed mb (sf_asset_id f) then en
      else
        let i = unat (sf_asset_id f); x = me_asset_stats en ! i; plus = fp_add (mb_fp mb) in
        en\<lparr>me_asset_stats := (me_asset_stats en)[i := x\<lparr>
          pa_volume_traded := plus (pa_volume_traded x) (multi_units mb (sf_quantity f)),
          pa_fees_paid := plus (pa_fees_paid x) fee_usdt,
          pa_slippage_realized := plus (pa_slippage_realized x) slippage_usdt,
          pa_total_pnl := plus (pa_total_pnl x) (multi_sub mb (fp_neg (mb_fp mb) fee_usdt) slippage_usdt)\<rparr>]\<rparr>)"

definition count_execution :: "'m multi_backtest \<Rightarrow> strategy_fill \<Rightarrow> double \<Rightarrow> 'm multi_engine \<Rightarrow> 'm multi_engine" where
  "count_execution mb f notional_usdt en =
     (let x = me_execution en; units = multi_units mb (sf_quantity f); plus = fp_add (mb_fp mb) in
      en\<lparr>me_execution := (if sf_role f = Maker
        then x\<lparr>maker_fills_count := maker_fills_count x + 1, maker_volume := plus (maker_volume x) units,
               maker_notional := plus (maker_notional x) notional_usdt\<rparr>
        else x\<lparr>taker_fills_count := taker_fills_count x + 1, taker_volume := plus (taker_volume x) units,
               taker_notional := plus (taker_notional x) notional_usdt\<rparr>)\<rparr>)"

definition multi_reduce_live :: "strategy_fill \<Rightarrow> 'm multi_engine \<Rightarrow> 'm multi_engine" where
  "multi_reduce_live f en =
     (case multi_find_live (sf_order_id f) en of
        None \<Rightarrow> en
      | Some i \<Rightarrow>
          let r = ml_remaining_quantity (me_live en ! i);
              left = (if sf_quantity f < r then r - sf_quantity f else 0);
              en = multi_upd_live i (\<lambda>o'. o'\<lparr>ml_remaining_quantity := left\<rparr>) en
          in if left = 0 then multi_erase_live i en else en)"

definition book_fill :: "'m multi_backtest \<Rightarrow> strategy_fill \<Rightarrow> 'm multi_engine \<Rightarrow> 'm multi_engine" where
  "book_fill mb f en =
     (let units = multi_units mb (sf_quantity f); notional = multi_notional mb f; fee_bps = multi_fee_bps mb f;
          fee_usdt = fee_to_usdt mb (sf_asset_id f) (sf_side f) units notional fee_bps en;
          slippage_usdt = slippage_to_usdt mb (sf_asset_id f) (sf_side f) (ticks_to_price (mb_fp mb) (sf_price f)) units en;
          en = move_position f (apply_portfolio_fill mb (sf_asset_id f) (sf_side f) units notional fee_bps en);
          notional_usdt = quote_notional_to_usdt mb (sf_asset_id f) notional en
      in multi_reduce_live f (count_execution mb f notional_usdt (count_asset_stats mb f fee_usdt slippage_usdt en)))"

definition multi_route_fill :: "'m multi_backtest \<Rightarrow> strategy_fill \<Rightarrow> 'm multi_engine \<Rightarrow> 'm multi_engine" where
  "multi_route_fill mb f en = call_multi mb (Strategy_fill f) (book_fill mb f en)"

definition take_fill :: "u64 \<Rightarrow> asset_id \<Rightarrow> side \<Rightarrow> u64 \<Rightarrow> int \<Rightarrow> u64 \<Rightarrow> strategy_fill" where
  "take_fill oid asset sd timestamp price quantity =
     \<lparr>sf_order_id = oid, sf_price = price, sf_quantity = quantity, sf_timestamp = timestamp,
      sf_asset_id = asset, sf_side = sd, sf_role = Taker\<rparr>"

subsection \<open>Taking from a book\<close>

definition multi_sweep_level ::
  "'m multi_backtest \<Rightarrow> multi_live \<Rightarrow> int \<Rightarrow> u64 \<Rightarrow> int \<Rightarrow> u64 \<Rightarrow> 'm multi_engine \<times> u64
     \<Rightarrow> ('m multi_engine \<times> u64) \<times> bool" where
  "multi_sweep_level mb o' limit timestamp price level_quantity = (\<lambda>(en, remaining).
     if remaining = 0 \<or> \<not> crosses (ml_side o') limit price then ((en, remaining), False)
     else
       let quantity = min level_quantity remaining in
       if 0 < quantity
       then ((multi_route_fill mb (take_fill (ml_order_id o') (ml_asset_id o') (ml_side o') timestamp price quantity) en,
              remaining - quantity), 0 < remaining - quantity)
       else ((en, remaining), 0 < remaining))"

definition multi_sweep_book :: "'m multi_backtest \<Rightarrow> multi_live \<Rightarrow> u64 \<Rightarrow> 'm multi_engine \<Rightarrow> 'm multi_engine" where
  "multi_sweep_book mb o' timestamp en = fst (fixed_for_each_level (book_of (ml_asset_id o') en) (opposite (ml_side o'))
     (multi_sweep_level mb o' (price_to_ticks (mb_fp mb) (ml_price o')) timestamp) (en, ml_remaining_quantity o'))"

definition multi_rest_order :: "'m multi_backtest \<Rightarrow> u64 \<Rightarrow> 'm multi_engine \<Rightarrow> 'm multi_engine" where
  "multi_rest_order mb order_id en =
     (case multi_find_live order_id en of
        None \<Rightarrow> en
      | Some i \<Rightarrow> multi_upd_live i (\<lambda>x. x\<lparr>ml_active := True, ml_volume_ahead :=
          get_total_quantity_at_price (mb_fp mb) (book_of (ml_asset_id x) en) (ml_side x) (ml_price x)\<rparr>) en)"

definition multi_execute_pending :: "'m multi_backtest \<Rightarrow> multi_pending \<Rightarrow> 'm multi_engine \<Rightarrow> 'm multi_engine" where
  "multi_execute_pending mb pending en =
     (case multi_find_live (mp_order_id pending) en of
        None \<Rightarrow> en
      | Some i \<Rightarrow>
          let o' = me_live en ! i; aggressive = multi_aggressive mb (ml_asset_id o') (ml_side o') (ml_price o') en;
              swept = multi_sweep_book mb o' (mp_release_time_ns pending) en
          in if mp_type pending = Cancel_command then multi_erase_live i en
             else if ml_canceled o' then multi_erase_live i en
             else if ml_intended_taker o'
             then multi_erase_id (mp_order_id pending)
               (if aggressive \<and> ml_remaining_quantity o' \<le> available_cross_quantity mb (ml_asset_id o') (ml_side o')
                    (ml_price o') (ml_remaining_quantity o') en
                then swept else en)
             else multi_rest_order mb (mp_order_id pending) (if aggressive then swept else en))"

text \<open>A sweep for a leg of a group: what is left, what was filled, and for how much.\<close>

definition request_level ::
  "'m multi_backtest \<Rightarrow> asset_id \<Rightarrow> side \<Rightarrow> int \<Rightarrow> u64 \<Rightarrow> u64 \<Rightarrow> int \<Rightarrow> u64
     \<Rightarrow> 'm multi_engine \<times> u64 \<times> u64 \<times> double \<Rightarrow> ('m multi_engine \<times> u64 \<times> u64 \<times> double) \<times> bool" where
  "request_level mb asset sd limit timestamp oid price level_quantity = (\<lambda>(en, remaining, taken, notional).
     if remaining = 0 \<or> \<not> crosses sd limit price then ((en, remaining, taken, notional), False)
     else
       let quantity = min level_quantity remaining in
       if 0 < quantity
       then ((multi_route_fill mb (take_fill oid asset sd timestamp price quantity) en, remaining - quantity,
              taken + quantity, fp_add (mb_fp mb) notional
                (fp_mul (mb_fp mb) (ticks_to_price (mb_fp mb) price) (multi_units mb quantity))), 0 < remaining - quantity)
       else ((en, remaining, taken, notional), 0 < remaining))"

definition sweep_request ::
  "'m multi_backtest \<Rightarrow> asset_id \<Rightarrow> side \<Rightarrow> double \<Rightarrow> u64 \<Rightarrow> u64 \<Rightarrow> u64 \<Rightarrow> 'm multi_engine \<Rightarrow> 'm multi_engine \<times> u64 \<times> double" where
  "sweep_request mb asset sd limit_price quantity timestamp oid en =
     (case fixed_for_each_level (book_of asset en) (opposite sd)
         (request_level mb asset sd (price_to_ticks (mb_fp mb) limit_price) timestamp oid) (en, quantity, 0, dbl_zero) of
        (en, remaining, taken, notional) \<Rightarrow>
          (en, taken, if 0 < taken then fp_div (mb_fp mb) notional (multi_units mb taken) else dbl_zero))"


subsection \<open>Order groups in execution\<close>

definition is_slippage_breached :: "'m multi_backtest \<Rightarrow> leg_report \<Rightarrow> order_group \<Rightarrow> bool" where
  "is_slippage_breached mb report grp =
     (let tolerance = (if is_positive (og_slippage_tolerance grp) then og_slippage_tolerance grp else dbl_zero);
          fp = mb_fp mb; expected = fp_of_i64 fp (xr_expected_price report); vwap = fp_of_i64 fp (xr_vwap_price report)
      in if xr_expected_price report \<le> 0 \<or> is_at_most_zero tolerance then False
         else if xr_side report = Buy then dbl_less (fp_mul fp expected (fp_add fp dbl_one tolerance)) vwap
         else dbl_less vwap (fp_mul fp expected (multi_sub mb dbl_one tolerance)))"

definition asked_report :: "leg_request \<Rightarrow> leg_report" where
  "asked_report request = no_leg_report\<lparr>
     xr_expected_price := (if 0 < lr_expected_price request then lr_expected_price request else lr_price request),
     xr_requested_quantity := lr_quantity request, xr_asset_id := lr_asset_id request, xr_side := lr_side request\<rparr>"

definition execute_fok_request ::
  "'m multi_backtest \<Rightarrow> leg_request \<Rightarrow> order_group \<Rightarrow> u64 \<Rightarrow> 'm multi_engine \<Rightarrow> 'm multi_engine \<times> leg_report" where
  "execute_fok_request mb request grp timestamp en =
     (let asset = lr_asset_id request; sd = lr_side request; quantity = lr_quantity request;
          price = ticks_to_price (mb_fp mb) (lr_price request); report = asked_report request
      in if \<not> is_listed mb asset \<or> quantity = 0 \<or> available_cross_quantity mb asset sd price quantity en < quantity
         then (en, report)
         else
           let oid = me_next_order_id en;
               (en, taken, vwap) = sweep_request mb asset sd price quantity timestamp oid (en\<lparr>me_next_order_id := oid + 1\<rparr>);
               report = report\<lparr>xr_filled_quantity := taken,
                 xr_vwap_price := llround (dbl_value (fp_mul (mb_fp mb) vwap dbl_scale)),
                 xr_fully_filled := (taken = quantity)\<rparr>
           in (en, report\<lparr>xr_slippage_breached := xr_fully_filled report \<and> is_slippage_breached mb report grp\<rparr>))"

fun panic_close_group :: "'m multi_backtest \<Rightarrow> leg_report list \<Rightarrow> u64 \<Rightarrow> 'm multi_engine \<Rightarrow> 'm multi_engine" where
  "panic_close_group mb [] timestamp en = en"
| "panic_close_group mb (report # reports) timestamp en =
     (if xr_filled_quantity report = 0 \<or> \<not> is_listed mb (xr_asset_id report)
      then panic_close_group mb reports timestamp en
      else
        let (en, latency) = leg_latency_ns mb (mb_intra_leg_latency_ns mb) (mb_intra_leg_jitter_ns mb) en;
            close_side = opposite (xr_side report);
            market_limit = (if close_side = Buy then dbl_max else dbl_zero);
            oid = me_next_order_id en;
            (en, _) = sweep_request mb (xr_asset_id report) close_side market_limit (xr_filled_quantity report)
              (timestamp + latency) oid (en\<lparr>me_next_order_id := oid + 1\<rparr>)
        in panic_close_group mb reports (timestamp + latency) en)"

text \<open>The legs from one on; \<open>reports\<close> are those of the legs before.\<close>

fun execute_legs ::
  "'m multi_backtest \<Rightarrow> order_group \<Rightarrow> leg_request list \<Rightarrow> leg_report list \<Rightarrow> u64 \<Rightarrow> 'm multi_engine
     \<Rightarrow> 'm multi_engine \<times> leg_report list \<times> bool" where
  "execute_legs mb grp [] reports timestamp en = (en, reports, True)"
| "execute_legs mb grp (request # requests) reports timestamp en =
     (let (en, latency) = group_latency_ns mb grp en;
          (en, report) = execute_fok_request mb request grp (timestamp + latency) en;
          reports = reports @ [report]
      in if \<not> xr_fully_filled report \<or> xr_slippage_breached report
         then (panic_close_group mb reports (timestamp + latency) en, reports, False)
         else execute_legs mb grp requests reports (timestamp + latency) en)"

text \<open>The result is a local variable of the code, which nothing reads; it is kept here to speak of it.\<close>

definition execute_pending_group ::
  "'m multi_backtest \<Rightarrow> order_group \<Rightarrow> u64 \<Rightarrow> 'm multi_engine \<Rightarrow> 'm multi_engine \<times> order_group_result" where
  "execute_pending_group mb grp release_time_ns en =
     (case execute_legs mb grp (og_legs grp) [] release_time_ns en of (en, reports, completed) \<Rightarrow>
        (en, \<lparr>gr_group_id = og_group_id grp,
          gr_reports = reports @ replicate (order_group_leg_count - length reports) no_leg_report,
          gr_completed = completed, gr_panic_triggered = \<not> completed\<rparr>))"

definition next_release :: "('a \<Rightarrow> u64) \<Rightarrow> 'a slot_heap \<Rightarrow> u64" where
  "next_release release h = (if slot_indices h = [] then - 1 else release (slot_top h))"

partial_function (option) multi_release :: "'m multi_backtest \<Rightarrow> u64 \<Rightarrow> 'm multi_engine \<Rightarrow> 'm multi_engine option" where
  "multi_release mb now en =
     (let next_order_time = next_release mp_release_time_ns (me_pending en);
          next_group_time = next_release pg_release_time_ns (me_groups en)
      in if slot_indices (me_pending en) = [] \<and> slot_indices (me_groups en) = []
           \<or> now < next_order_time \<and> now < next_group_time
         then Some en
         else if next_order_time \<le> next_group_time
         then multi_release mb now (multi_execute_pending mb (slot_top (me_pending en))
           (en\<lparr>me_pending := slot_pop mp_release_time_ns (me_pending en)\<rparr>))
         else multi_release mb now (fst (execute_pending_group mb (pg_group (slot_top (me_groups en)))
           (pg_release_time_ns (slot_top (me_groups en)))
           (en\<lparr>me_groups := slot_pop pg_release_time_ns (me_groups en)\<rparr>))))"

subsection \<open>Snapshots\<close>

definition enable_microstructure_recording :: "'m multi_backtest \<Rightarrow> bool \<Rightarrow> u64 \<Rightarrow> 'm multi_engine \<Rightarrow> 'm multi_engine" where
  "enable_microstructure_recording mb enable interval en = en\<lparr>me_record := enable, me_sampling_interval := interval,
     me_snapshots := [], me_last_snapshot := replicate (mb_assets mb) 0\<rparr>"

definition reset_microstructure_recording_state :: "'m multi_backtest \<Rightarrow> 'm multi_engine \<Rightarrow> 'm multi_engine" where
  "reset_microstructure_recording_state mb en =
     (if \<not> me_record en then en else en\<lparr>me_snapshots := [], me_last_snapshot := replicate (mb_assets mb) 0\<rparr>)"

definition take_microstructure_snapshots :: "'m multi_engine \<Rightarrow> 'm multi_engine \<times> market_snapshot list" where
  "take_microstructure_snapshots en = (en\<lparr>me_snapshots := []\<rparr>, me_snapshots en)"

definition book_snapshot :: "'m multi_backtest \<Rightarrow> asset_id \<Rightarrow> 'm multi_engine \<Rightarrow> market_snapshot" where
  "book_snapshot mb asset en =
     (let fp = mb_fp mb; b = book_of asset en; bid = get_best_bid fp b; ask = get_best_ask fp b in
      \<lparr>ms_ts = me_time en, ms_asset = ucast asset, ms_bid_p = bid,
       ms_bid_q = (if is_positive bid then multi_units mb (get_total_quantity_at_price fp b Buy bid) else dbl_zero),
       ms_ask_p = ask,
       ms_ask_q = (if is_positive ask then multi_units mb (get_total_quantity_at_price fp b Sell ask) else dbl_zero)\<rparr>)"

definition maybe_record_microstructure :: "'m multi_backtest \<Rightarrow> asset_id \<Rightarrow> 'm multi_engine \<Rightarrow> 'm multi_engine" where
  "maybe_record_microstructure mb asset en =
     (let last = me_last_snapshot en ! unat asset in
      if \<not> me_record en \<or> \<not> is_listed mb asset then en
      else if me_sampling_interval en \<noteq> 0 \<and> last \<noteq> 0 \<and> me_time en < last + me_sampling_interval en then en
      else en\<lparr>me_snapshots := me_snapshots en @ [book_snapshot mb asset en],
        me_last_snapshot := (me_last_snapshot en)[unat asset := me_time en]\<rparr>)"

subsection \<open>The run\<close>

definition replay_to_book :: "market_event \<Rightarrow> 'm multi_engine \<Rightarrow> 'm multi_engine option" where
  "replay_to_book event en =
     (case process_order ((ev_order event)\<lparr>lo_timestamp := me_time en\<rparr>) (book_of (ev_asset_id event) en) of
        None \<Rightarrow> None
      | Some (b, trades) \<Rightarrow>
          Some (en\<lparr>me_books := (me_books en)[unat (ev_asset_id event) := b], me_trades := trades\<rparr>))"

definition multi_event :: "'m multi_backtest \<Rightarrow> market_event \<Rightarrow> 'm multi_engine \<Rightarrow> 'm multi_engine option" where
  "multi_event mb event en =
     (let now = ev_timestamp event * ns_per_ms; asset = ev_asset_id event in do {
        en \<leftarrow> multi_release mb now (en\<lparr>me_time := now, me_current_asset := asset\<rparr>);
        en \<leftarrow> replay_to_book event en;
        let en = maybe_record_microstructure mb asset (update_last_mid mb asset en);
        multi_release mb now (call_multi mb (Strategy_tick asset (book_of asset en)) en)
      })"

partial_function (option) multi_replay ::
  "'m multi_backtest \<Rightarrow> 'm multi_engine \<Rightarrow> u64 \<Rightarrow> (merger_error + 'm multi_engine \<times> u64) option" where
  "multi_replay mb en n =
     (if \<not> merger_has_next (me_merger en) then Some (Inr (en, n))
      else case merger_get_next (me_merger en) of
        Inl e \<Rightarrow> Some (Inl e)
      | Inr (event, m) \<Rightarrow>
          Option.bind (multi_event mb event (en\<lparr>me_merger := m\<rparr>)) (\<lambda>en. multi_replay mb en (n + 1)))"

definition multi_run :: "'m multi_backtest \<Rightarrow> 'm multi_engine \<Rightarrow> (merger_error + 'm multi_engine \<times> u64) option" where
  "multi_run mb en =
     multi_replay mb (reset_microstructure_recording_state mb (call_multi mb Strategy_start en)) 0"

end
