(* ===== verification/MultiRuns.thy ===== *)
theory MultiRuns
  imports MultiBacktest BacktestRuns
begin

section \<open>Backtests over several books end and leave the data alone\<close>

text \<open>
  What the strategy and its fills do not touch: the books, the merger, the clock, the mid
  prices and the snapshots, and the diagnostics of passive fills, of which there are none. A release ends
  when the strategy sends nothing in answer to its fills.
\<close>

subsection \<open>What stays as it is\<close>

definition maker_part :: "execution_diagnostics \<Rightarrow> u64 \<times> double \<times> double" where
  "maker_part x = (maker_fills_count x, maker_volume x, maker_notional x)"

definition aside :: "'m multi_engine \<Rightarrow> merger \<times> matching_book list \<times> u64 \<times> double list \<times> u64 list \<times> market_snapshot list
    \<times> bool \<times> u64 \<times> asset_id \<times> (u64 \<times> double \<times> double)" where
  "aside en = (me_merger en, me_books en, me_time en, me_last_mid en, me_last_snapshot en, me_snapshots en,
     me_record en, me_sampling_interval en, me_current_asset en, maker_part (me_execution en))"

lemma aside_live [simp]:
  "aside (multi_upd_live i f en) = aside en" "aside (multi_erase_live i en) = aside en"
  "aside (multi_erase_id oid en) = aside en" "aside (multi_rest_order mb oid en) = aside en"
  "aside (fst (multi_add_live mb o' en)) = aside en" "aside (fst (multi_latency_ns mb en)) = aside en"
  "aside (fst (leg_latency_ns mb l j en)) = aside en"
  by (simp_all add: aside_def multi_upd_live_def multi_erase_live_def multi_erase_id_def multi_rest_order_def multi_add_live_def
      multi_latency_ns_def leg_latency_ns_def Let_def split: option.split jitter_distribution.split)

lemma aside_fields [simp]:
  "aside (en\<lparr>me_memory := m\<rparr>) = aside en" "aside (en\<lparr>me_pending := h\<rparr>) = aside en" "aside (en\<lparr>me_groups := g\<rparr>) = aside en"
  "aside (en\<lparr>me_dropped := d\<rparr>) = aside en" "aside (en\<lparr>me_next_order_id := n\<rparr>) = aside en" "aside (en\<lparr>me_wallet := w\<rparr>) = aside en"
  "aside (en\<lparr>me_position := p\<rparr>) = aside en" "aside (en\<lparr>me_asset_stats := s\<rparr>) = aside en"
  by (simp_all add: aside_def)

lemma aside_drawn:
  "multi_add_live mb o' en = (en', ok) \<Longrightarrow> aside en' = aside en"
  "multi_latency_ns mb en = (en', l) \<Longrightarrow> aside en' = aside en"
  "leg_latency_ns mb b j en = (en', l) \<Longrightarrow> aside en' = aside en"
  using aside_live(5-7) by (metis fst_conv)+

lemma aside_submit [simp]: "aside (fst (multi_submit_order mb asset sd price quantity en)) = aside en"
  unfolding multi_submit_order_def Let_def
  by (auto split: prod.splits bool.splits dest!: aside_drawn(1,2))

lemma aside_cancel [simp]: "aside (fst (multi_cancel_order mb asset oid en)) = aside en"
  unfolding multi_cancel_order_def Let_def by (auto split: prod.splits bool.splits dest!: aside_drawn(2))

lemma aside_group [simp]: "aside (fst (execute_group mb grp en)) = aside en"
  unfolding execute_group_def Let_def by (auto split: prod.splits dest!: aside_drawn(2))

lemma aside_run [simp]: "aside (run_multi mb act en) = aside en"
proof (induction act arbitrary: en)
  case (Send asset sd price quantity t k)
  then show ?case using aside_submit [of mb asset sd price quantity en] by (simp add: case_prod_unfold)
next
  case (Retract asset oid k)
  then show ?case using aside_cancel [of mb asset oid en] by (simp add: case_prod_unfold)
next
  case (Send_group grp k)
  then show ?case using aside_group [of mb grp en] by (simp add: case_prod_unfold)
qed simp_all

lemma aside_call [simp]: "aside (call_multi mb signal en) = aside en"
  by (simp add: call_multi_def)

lemma aside_execution: "sf_role f = Taker \<Longrightarrow> aside (count_execution mb f x en) = aside en"
  by (simp add: aside_def count_execution_def maker_part_def Let_def)

lemma aside_accounts [simp]:
  "aside (count_asset_stats mb f x y en) = aside en" "aside (move_position f en) = aside en"
  "aside (apply_portfolio_fill mb asset sd b q r en) = aside en" "aside (multi_reduce_live f en) = aside en"
  by (simp_all add: count_asset_stats_def move_position_def apply_portfolio_fill_def multi_reduce_live_def Let_def
      split: option.split)

lemma aside_book_fill [simp]: "sf_role f = Taker \<Longrightarrow> aside (book_fill mb f en) = aside en"
  by (simp only: book_fill_def Let_def aside_accounts aside_execution)

lemma aside_route [simp]: "sf_role f = Taker \<Longrightarrow> aside (multi_route_fill mb f en) = aside en"
  by (simp add: multi_route_fill_def)

lemma take_fill_role [simp]: "sf_role (take_fill oid asset sd t p q) = Taker"
  by (simp add: take_fill_def)

lemma aside_sweep [simp]: "aside (multi_sweep_book mb o' timestamp en) = aside en"
proof -
  have "aside (fst (visit_levels (multi_sweep_level mb o' l timestamp) b is v)) = aside (fst v)" for l b "is" v
    by (rule visit_levels_invariant [where P = "\<lambda>w. aside (fst w) = aside (fst v)"])
      (auto simp: multi_sweep_level_def case_prod_unfold Let_def)
  then show ?thesis by (simp add: multi_sweep_book_def fixed_for_each_level_def for_each_level_def)
qed

lemma aside_request: "aside (fst (sweep_request mb asset sd limit quantity timestamp oid en)) = aside en"
proof -
  have "aside (fst (visit_levels (request_level mb asset sd l timestamp oid) b is v)) = aside (fst v)" for l b "is" v
    by (rule visit_levels_invariant [where P = "\<lambda>w. aside (fst w) = aside (fst v)"])
      (auto simp: request_level_def case_prod_unfold Let_def)
  then show ?thesis by (simp add: sweep_request_def fixed_for_each_level_def for_each_level_def case_prod_unfold)
qed

lemma aside_execute [simp]: "aside (multi_execute_pending mb p en) = aside en"
  by (simp add: multi_execute_pending_def Let_def split: option.split)

lemma aside_requested: "sweep_request mb asset sd limit quantity timestamp oid en = (en', taken, vwap) \<Longrightarrow> aside en' = aside en"
  using aside_request by (metis fst_conv)

lemma aside_fok: "execute_fok_request mb request grp timestamp en = (en', report) \<Longrightarrow> aside en' = aside en"
  by (auto simp: execute_fok_request_def Let_def split: prod.splits if_splits dest!: aside_requested)

lemma aside_panic [simp]: "aside (panic_close_group mb reports timestamp en) = aside en"
proof (induction reports arbitrary: timestamp en)
  case (Cons report reports)
  then show ?case
    by (auto simp: Let_def split: prod.splits dest!: aside_requested aside_drawn(3))
qed simp

lemma aside_legs: "execute_legs mb grp requests reports timestamp en = (en', reports', fin) \<Longrightarrow> aside en' = aside en"
proof (induction requests arbitrary: reports timestamp en)
  case (Cons request requests)
  obtain e1 l where l: "group_latency_ns mb grp en = (e1, l)" by fastforce
  obtain e2 report where r: "execute_fok_request mb request grp (timestamp + l) e1 = (e2, report)" by fastforce
  have "aside e2 = aside en"
    using aside_fok [OF r] aside_drawn(3) [OF l [unfolded group_latency_ns_def]] by simp
  then show ?case
    using Cons l r by (auto simp: Let_def split: if_splits)
qed simp

lemma aside_pending_group [simp]: "aside (fst (execute_pending_group mb grp t en)) = aside en"
  using aside_legs by (auto simp: execute_pending_group_def split: prod.split)

lemma aside_release:
  fixes en :: "'a multi_engine"
  assumes "multi_release mb now en = Some en'"
  shows "aside en' = aside en"
proof (rule multi_release.raw_induct [where P = "\<lambda>(mb :: 'a multi_backtest) (now :: u64) en en'. aside en' = aside en", OF _ assms])
  fix rec and mb :: "'a multi_backtest" and now :: u64 and en en' :: "'a multi_engine"
  assume IH: "\<And>(mb :: 'a multi_backtest) (now :: u64) (en :: 'a multi_engine) (en' :: 'a multi_engine). rec mb now en = Some en' \<Longrightarrow> aside en' = aside en"
  assume "(let next_order_time = next_release mp_release_time_ns (me_pending en);
          next_group_time = next_release pg_release_time_ns (me_groups en)
      in if slot_indices (me_pending en) = [] \<and> slot_indices (me_groups en) = []
           \<or> now < next_order_time \<and> now < next_group_time
         then Some en
         else if next_order_time \<le> next_group_time
         then rec mb now (multi_execute_pending mb (slot_top (me_pending en))
           (en\<lparr>me_pending := slot_pop mp_release_time_ns (me_pending en)\<rparr>))
         else rec mb now (fst (execute_pending_group mb (pg_group (slot_top (me_groups en)))
           (pg_release_time_ns (slot_top (me_groups en)))
           (en\<lparr>me_groups := slot_pop pg_release_time_ns (me_groups en)\<rparr>)))) = Some en'"
  then show "aside en' = aside en"
    by (auto simp: Let_def split: if_splits dest!: IH)
qed


lemma aside_maker: "aside en' = aside en \<Longrightarrow> maker_part (me_execution en') = maker_part (me_execution en)"
  by (simp add: aside_def)

lemma maker_call [simp]: "maker_part (me_execution (call_multi mb signal en)) = maker_part (me_execution en)"
  by (rule aside_maker [OF aside_call])

lemma aside_market: "aside en' = aside en \<Longrightarrow> me_merger en' = me_merger en \<and> me_books en' = me_books en \<and> me_time en' = me_time en"
  by (simp add: aside_def)

subsection \<open>Releases end\<close>

primrec multi_sends_nothing :: "'m multi_action \<Rightarrow> bool" where
  "multi_sends_nothing (Finish m) = True"
| "multi_sends_nothing (Send asset sd price quantity t k) = False"
| "multi_sends_nothing (Retract asset oid k) = False"
| "multi_sends_nothing (Send_group grp k) = False"
| "multi_sends_nothing (Read_time k) = (\<forall>t. multi_sends_nothing (k t))"

definition multi_listens :: "'m multi_backtest \<Rightarrow> bool" where
  "multi_listens mb \<longleftrightarrow> (\<forall>f mem. multi_sends_nothing (mb_strategy mb (Strategy_fill f) mem))"

definition queues :: "'m multi_engine \<Rightarrow> multi_pending slot_heap \<times> pending_group slot_heap" where
  "queues en = (me_pending en, me_groups en)"

lemma queues_fields [simp]:
  "queues (en\<lparr>me_memory := m\<rparr>) = queues en" "queues (en\<lparr>me_next_order_id := n\<rparr>) = queues en"
  "queues (en\<lparr>me_live := l\<rparr>) = queues en" "queues (en\<lparr>me_draws := d\<rparr>) = queues en" "queues (en\<lparr>me_wallet := w\<rparr>) = queues en"
  "queues (en\<lparr>me_position := p\<rparr>) = queues en" "queues (en\<lparr>me_asset_stats := s\<rparr>) = queues en"
  "queues (en\<lparr>me_execution := x\<rparr>) = queues en"
  by (simp_all add: queues_def)

lemma queues_live [simp]:
  "queues (multi_upd_live i f en) = queues en" "queues (multi_erase_live i en) = queues en"
  "queues (multi_erase_id oid en) = queues en" "queues (multi_rest_order mb oid en) = queues en"
  by (simp_all add: multi_upd_live_def multi_erase_live_def multi_erase_id_def multi_rest_order_def split: option.split)

lemma queues_drawn: "leg_latency_ns mb b j en = (en', l) \<Longrightarrow> queues en' = queues en"
  by (auto simp: leg_latency_ns_def split: if_splits)

lemma queues_sends_nothing: "multi_sends_nothing act \<Longrightarrow> queues (run_multi mb act en) = queues en"
  by (induction act arbitrary: en) auto

lemma queues_accounts [simp]:
  "queues (count_asset_stats mb f x y en) = queues en" "queues (move_position f en) = queues en"
  "queues (count_execution mb f x en) = queues en" "queues (apply_portfolio_fill mb asset sd b q r en) = queues en"
  "queues (multi_reduce_live f en) = queues en"
  by (simp_all add: count_asset_stats_def move_position_def count_execution_def apply_portfolio_fill_def
      multi_reduce_live_def Let_def split: option.split)

lemma queues_book_fill [simp]: "queues (book_fill mb f en) = queues en"
  by (simp only: book_fill_def Let_def queues_accounts)

lemma queues_route: "multi_listens mb \<Longrightarrow> queues (multi_route_fill mb f en) = queues en"
  by (simp add: multi_route_fill_def call_multi_def multi_listens_def queues_sends_nothing)

lemma queues_sweep: "multi_listens mb \<Longrightarrow> queues (multi_sweep_book mb o' timestamp en) = queues en"
proof -
  assume q: "multi_listens mb"
  have "queues (fst (visit_levels (multi_sweep_level mb o' l timestamp) b is v)) = queues (fst v)" for l b "is" v
    by (rule visit_levels_invariant [where P = "\<lambda>w. queues (fst w) = queues (fst v)"])
      (auto simp: multi_sweep_level_def case_prod_unfold Let_def queues_route [OF q])
  then show ?thesis by (simp add: multi_sweep_book_def fixed_for_each_level_def for_each_level_def)
qed

lemma queues_request:
  assumes "multi_listens mb" "sweep_request mb asset sd limit quantity timestamp oid en = (en', taken, vwap)"
  shows "queues en' = queues en"
proof -
  have "queues (fst (visit_levels (request_level mb asset sd l timestamp oid) b is v)) = queues (fst v)" for l b "is" v
    by (rule visit_levels_invariant [where P = "\<lambda>w. queues (fst w) = queues (fst v)"])
      (auto simp: request_level_def case_prod_unfold Let_def queues_route [OF assms(1)])
  then have "queues (fst (sweep_request mb asset sd limit quantity timestamp oid en)) = queues en"
    by (simp add: sweep_request_def fixed_for_each_level_def for_each_level_def case_prod_unfold)
  then show ?thesis using assms(2) by simp
qed

lemma queues_execute: "multi_listens mb \<Longrightarrow> queues (multi_execute_pending mb p en) = queues en"
  by (simp add: multi_execute_pending_def Let_def queues_sweep split: option.split)

lemma queues_fok: "multi_listens mb \<Longrightarrow> execute_fok_request mb request grp timestamp en = (en', report) \<Longrightarrow> queues en' = queues en"
  by (auto simp: execute_fok_request_def Let_def split: prod.splits if_splits dest!: queues_request)

lemma queues_panic: "multi_listens mb \<Longrightarrow> queues (panic_close_group mb reports timestamp en) = queues en"
proof (induction reports arbitrary: timestamp en)
  case (Cons report reports)
  obtain e1 l where l: "leg_latency_ns mb (mb_intra_leg_latency_ns mb) (mb_intra_leg_jitter_ns mb) en = (e1, l)" by fastforce
  have "queues (fst (sweep_request mb asset sd limit q t oid (e1\<lparr>me_next_order_id := n\<rparr>))) = queues en" for asset sd limit q t oid n
    using queues_request [OF Cons.prems] queues_drawn [OF l] by (metis prod.collapse queues_fields(2))
  then show ?case
    using Cons l by (simp add: Let_def case_prod_unfold)
qed simp

lemma queues_legs:
  "multi_listens mb \<Longrightarrow> execute_legs mb grp requests reports timestamp en = (en', reports', fin) \<Longrightarrow> queues en' = queues en"
proof (induction requests arbitrary: reports timestamp en)
  case (Cons request requests)
  obtain e1 l where l: "group_latency_ns mb grp en = (e1, l)" by fastforce
  obtain e2 report where r: "execute_fok_request mb request grp (timestamp + l) e1 = (e2, report)" by fastforce
  have "queues e2 = queues en"
    using queues_fok [OF Cons.prems(1) r] queues_drawn [OF l [unfolded group_latency_ns_def]] by simp
  then show ?case
    using Cons l r queues_panic [OF Cons.prems(1)] by (auto simp: Let_def split: if_splits)
qed simp

lemma queues_pending_group: "multi_listens mb \<Longrightarrow> queues (fst (execute_pending_group mb grp t en)) = queues en"
  using queues_legs by (fastforce simp: execute_pending_group_def split: prod.split)

lemma slot_pop_shorter: "slot_indices h \<noteq> [] \<Longrightarrow> length (slot_indices (slot_pop release h)) < length (slot_indices h)"
proof -
  assume h: "slot_indices h \<noteq> []"
  have "length (slot_down release storage heap 0) = length heap" if "heap \<noteq> []" for storage heap
    using slot_down_mset [of 0 heap release storage] that by (metis length_greater_0_conv size_mset)
  then show ?thesis
    using h by (cases "slot_indices h" rule: rev_cases) (simp_all add: slot_pop_def Let_def)
qed

definition queued :: "'m multi_engine \<Rightarrow> nat" where
  "queued en = length (slot_indices (me_pending en)) + length (slot_indices (me_groups en))"

lemma queued_queues: "queues en' = queues en \<Longrightarrow> queued en' = queued en"
  by (simp add: queues_def queued_def)

lemma multi_release_returns:
  assumes "multi_listens mb" "now \<noteq> - 1"
  shows "\<exists>en'. multi_release mb now en = Some en'"
proof (induction "queued en" arbitrary: en rule: less_induct)
  case less
  let ?ot = "next_release mp_release_time_ns (me_pending en)" and ?gt = "next_release pg_release_time_ns (me_groups en)"
  have top: "\<not> (- 1 :: u64) \<le> now" using assms(2) word_order.extremum_uniqueI by blast
  consider (stop) "slot_indices (me_pending en) = [] \<and> slot_indices (me_groups en) = [] \<or> now < ?ot \<and> now < ?gt"
    | (order) "\<not> (slot_indices (me_pending en) = [] \<and> slot_indices (me_groups en) = [] \<or> now < ?ot \<and> now < ?gt)" "?ot \<le> ?gt"
    | (grp) "\<not> (slot_indices (me_pending en) = [] \<and> slot_indices (me_groups en) = [] \<or> now < ?ot \<and> now < ?gt)" "\<not> ?ot \<le> ?gt"
    by blast
  then show ?case
  proof cases
    case stop
    then show ?thesis by (subst multi_release.simps) (simp add: Let_def)
  next
    case order
    have "slot_indices (me_pending en) \<noteq> []"
    proof
      assume "slot_indices (me_pending en) = []"
      then have "?ot = - 1" by (simp add: next_release_def)
      moreover from this have "?gt = - 1" using order(2) word_order.extremum_uniqueI by metis
      ultimately show False using order(1) top by (auto simp: not_less)
    qed
    then have "queued (en\<lparr>me_pending := slot_pop mp_release_time_ns (me_pending en)\<rparr>) < queued en"
      using slot_pop_shorter by (simp add: queued_def)
    then have "queued (multi_execute_pending mb p (en\<lparr>me_pending := slot_pop mp_release_time_ns (me_pending en)\<rparr>)) < queued en" for p
      using queued_queues [OF queues_execute [OF assms(1)]] by simp
    from less [OF this] show ?thesis using order by (subst multi_release.simps) (simp add: Let_def)
  next
    case grp
    then have "slot_indices (me_groups en) \<noteq> []" by (auto simp: next_release_def)
    then have "queued (en\<lparr>me_groups := slot_pop pg_release_time_ns (me_groups en)\<rparr>) < queued en"
      using slot_pop_shorter by (simp add: queued_def)
    then have "queued (fst (execute_pending_group mb g t (en\<lparr>me_groups := slot_pop pg_release_time_ns (me_groups en)\<rparr>))) < queued en" for g t
      using queued_queues [OF queues_pending_group [OF assms(1)]] by simp
    from less [OF this] show ?thesis using grp by (subst multi_release.simps) (simp add: Let_def)
  qed
qed


subsection \<open>Resting orders\<close>

lemma market_update_maker:
  "maker_part (me_execution (maybe_record_microstructure mb asset en)) = maker_part (me_execution en)"
  "maker_part (me_execution (update_last_mid mb asset en)) = maker_part (me_execution en)"
  by (simp_all add: maybe_record_microstructure_def update_last_mid_def refresh_wallet_factors_def Let_def)

lemma replay_to_book_maker: "replay_to_book event en = Some en' \<Longrightarrow> maker_part (me_execution en') = maker_part (me_execution en)"
  by (auto simp: replay_to_book_def split: option.splits prod.splits)

lemma multi_event_maker:
  assumes "multi_event mb event en = Some en'"
  shows "maker_part (me_execution en') = maker_part (me_execution en)"
proof -
  let ?e0 = "en\<lparr>me_time := ev_timestamp event * ns_per_ms, me_current_asset := ev_asset_id event\<rparr>"
  obtain e1 e2 where e: "multi_release mb (ev_timestamp event * ns_per_ms) ?e0 = Some e1" "replay_to_book event e1 = Some e2"
      "multi_release mb (ev_timestamp event * ns_per_ms) (call_multi mb (Strategy_tick (ev_asset_id event)
        (book_of (ev_asset_id event) (maybe_record_microstructure mb (ev_asset_id event) (update_last_mid mb (ev_asset_id event) e2))))
        (maybe_record_microstructure mb (ev_asset_id event) (update_last_mid mb (ev_asset_id event) e2))) = Some en'"
    using assms by (auto simp: multi_event_def Let_def bind_eq_Some_conv)
  show ?thesis
    using aside_maker [OF aside_release [OF e(1)]] replay_to_book_maker [OF e(2)] aside_maker [OF aside_release [OF e(3)]]
    by (simp add: market_update_maker)
qed

lemma multi_replay_maker:
  fixes en :: "'a multi_engine"
  assumes "multi_replay mb en n = Some (Inr (en', n'))"
  shows "maker_part (me_execution en') = maker_part (me_execution en)"
proof -
  let ?P = "\<lambda>(mb :: 'a multi_backtest) (en :: 'a multi_engine) (n :: u64) (out :: merger_error + 'a multi_engine \<times> u64). \<forall>en' n'. out = Inr (en' :: 'a multi_engine, n' :: u64) \<longrightarrow>
    maker_part (me_execution en') = maker_part (me_execution en)"
  have "?P mb en n (Inr (en', n'))"
  proof (rule multi_replay.raw_induct [where P = ?P, OF _ assms])
    fix rec and mb :: "'a multi_backtest" and en :: "'a multi_engine" and n :: u64 and out :: "merger_error + 'a multi_engine \<times> u64"
    assume IH: "\<And>(mb :: 'a multi_backtest) (en :: 'a multi_engine) (n :: u64) (out :: merger_error + 'a multi_engine \<times> u64). rec mb en n = Some out \<Longrightarrow> ?P mb en n out"
      and "(if \<not> merger_has_next (me_merger en) then Some (Inr (en, n))
        else case merger_get_next (me_merger en) of
          Inl e \<Rightarrow> Some (Inl e)
        | Inr (event, m) \<Rightarrow>
            Option.bind (multi_event mb event (en\<lparr>me_merger := m\<rparr>)) (\<lambda>en. rec mb en (n + 1))) = Some out"
    then show "?P mb en n out"
      by (auto split: if_splits sum.splits simp: bind_eq_Some_conv dest!: multi_event_maker dest: IH)
  qed
  then show ?thesis by blast
qed

lemma new_multi_engine_ok:
  assumes "new_multi_engine mb parsers mem = Inr en"
  shows "me_merger en = new_merger parsers" "me_books en = replicate (mb_assets mb) (new_book fixed_config)"
    "maker_part (me_execution en) = (0, dbl_zero, dbl_zero)" "slot_indices (me_pending en) = []"
  using assms by (auto simp: new_multi_engine_def and_next_Inr refresh_wallet_factors_def maker_part_def no_execution_def
      new_slot_heap_def reset_free_slots_def)

lemma started_aside: "aside (reset_microstructure_recording_state mb (call_multi mb Strategy_start en))
    = aside (reset_microstructure_recording_state mb en)"
  using aside_call [of mb Strategy_start en] by (simp add: aside_def reset_microstructure_recording_state_def)

text \<open>C40: No order that rests is ever filled. Whatever the strategy does, in a run that returns
  every fill was a taker's: the count, the volume and the notional of maker fills are still zero, so no
  maker fee is ever charged. The engine replays the data's trades without looking whether they reach the
  strategy's active orders.\<close>
theorem resting_orders_are_never_filled:
  assumes "new_multi_engine mb parsers mem = Inr en"
    "multi_run mb (enable_microstructure_recording mb record_it interval en) = Some (Inr (en', n))"
  shows "maker_fills_count (me_execution en') = 0 \<and> maker_volume (me_execution en') = dbl_zero
    \<and> maker_notional (me_execution en') = dbl_zero"
proof -
  have "maker_part (me_execution en') = maker_part (me_execution en)"
    using multi_replay_maker [OF assms(2) [unfolded multi_run_def]] aside_maker [OF started_aside]
    by (simp add: reset_microstructure_recording_state_def enable_microstructure_recording_def)
  then show ?thesis using new_multi_engine_ok(3) [OF assms(1)] by (simp add: maker_part_def)
qed

subsection \<open>Runs end\<close>

text \<open>What a stream does to its book.\<close>

definition stamped_order :: "market_event \<Rightarrow> lob_order" where
  "stamped_order e = (ev_order e)\<lparr>lo_timestamp := ev_timestamp e * ns_per_ms\<rparr>"

definition replayed_book :: "market_event list \<Rightarrow> matching_book \<Rightarrow> matching_book option" where
  "replayed_book es b = map_option fst (process_orders (map stamped_order es) b)"

lemma replayed_book_Nil [simp]: "replayed_book [] b = Some b"
  by (simp add: replayed_book_def)

lemma replayed_book_Cons:
  "replayed_book (e # es) b = (case process_order (stamped_order e) b of None \<Rightarrow> None | Some (b', ts) \<Rightarrow> replayed_book es b')"
  by (simp add: replayed_book_def split: option.split prod.split)

lemma whole_ms_not_top: "t * ns_per_ms \<noteq> (- 1 :: u64)"
proof
  assume "t * ns_per_ms = - 1"
  then have "bit (t * ns_per_ms) 0 = bit (- 1 :: u64) 0" by simp
  moreover have "even (t * ns_per_ms)" by (simp add: ns_per_ms_def)
  ultimately show False by (simp add: bit_0)
qed

definition multi_books_ok :: "'m multi_backtest \<Rightarrow> 'm multi_engine \<Rightarrow> bool" where
  "multi_books_ok mb en \<longleftrightarrow> length (me_books en) = mb_assets mb \<and> (\<forall>b\<in>set (me_books en). book_inv fixed_config b)"

lemma multi_event_returns:
  assumes "multi_listens mb" "multi_books_ok mb en" "ev_asset_id event = of_nat i" "i < mb_assets mb" "mb_assets mb \<le> 65536"
  shows "\<exists>en' b' ts. multi_event mb event en = Some en' \<and> process_order (stamped_order event) (me_books en ! i) = Some (b', ts)
    \<and> me_books en' = (me_books en)[i := b'] \<and> me_merger en' = me_merger en \<and> multi_books_ok mb en'"
proof -
  let ?now = "ev_timestamp event * ns_per_ms"
  let ?e0 = "en\<lparr>me_time := ?now, me_current_asset := ev_asset_id event\<rparr>"
  have i: "unat (ev_asset_id event) = i" using assms(3-5) by (simp add: asset_of_nat)
  obtain e1 where e1: "multi_release mb ?now ?e0 = Some e1"
    using multi_release_returns [OF assms(1) whole_ms_not_top] by blast
  have m1: "me_merger e1 = me_merger en" "me_books e1 = me_books en" "me_time e1 = ?now"
    using aside_market [OF aside_release [OF e1]] by simp_all
  have "book_inv fixed_config (me_books en ! i)" using assms(2,4) by (simp add: multi_books_ok_def)
  from process_order_match [OF this, of "stamped_order event"]
  obtain b' fills where b': "process_order (stamped_order event) (me_books en ! i) = Some (b', map (fill_trade (stamped_order event)) fills)"
      "book_inv fixed_config b'" by blast
  define e2 where "e2 = e1\<lparr>me_books := (me_books e1)[i := b'], me_trades := map (fill_trade (stamped_order event)) fills\<rparr>"
  have "replay_to_book event e1 = Some e2"
    using b'(1) m1 by (simp add: replay_to_book_def book_of_def i e2_def stamped_order_def)
  define e3 where "e3 = maybe_record_microstructure mb (ev_asset_id event) (update_last_mid mb (ev_asset_id event) e2)"
  have e3: "me_merger e3 = me_merger e2" "me_books e3 = me_books e2"
    by (simp_all add: e3_def maybe_record_microstructure_def update_last_mid_def refresh_wallet_factors_def Let_def)
  define e4 where "e4 = call_multi mb (Strategy_tick (ev_asset_id event) (book_of (ev_asset_id event) e3)) e3"
  obtain e5 where e5: "multi_release mb ?now e4 = Some e5"
    using multi_release_returns [OF assms(1) whole_ms_not_top] by blast
  have "me_merger e5 = me_merger en \<and> me_books e5 = (me_books en)[i := b']"
    using aside_market [OF aside_release [OF e5]] aside_market [OF aside_call [of mb _ e3]] e3 m1 by (simp add: e4_def e2_def)
  moreover have "multi_event mb event en = Some e5"
    using e1 \<open>replay_to_book event e1 = Some e2\<close> e5 by (simp add: multi_event_def Let_def e3_def e4_def)
  moreover have "\<forall>b\<in>set ((me_books en)[i := b']). book_inv fixed_config b"
    using assms(2) b'(2) set_update_subset_insert [of "me_books en" i b'] by (auto simp: multi_books_ok_def)
  ultimately show ?thesis using b'(1) assms(2) by (auto simp: multi_books_ok_def)
qed

lemma multi_replay_returns:
  assumes "multi_listens mb" "mb_assets mb \<le> 65536"
  shows "merger_ready (me_merger en) \<Longrightarrow> length (mg_parsers (me_merger en)) = mb_assets mb \<Longrightarrow> multi_books_ok mb en \<Longrightarrow>
    \<exists>en'. multi_replay mb en n = Some (Inr (en', n + of_nat (events_left (me_merger en))))
      \<and> events_left (me_merger en') = 0
      \<and> (\<forall>i<mb_assets mb. replayed_book (mg_parsers (me_merger en) ! i) (me_books en ! i) = Some (me_books en' ! i))"
proof (induction "events_left (me_merger en)" arbitrary: en n rule: less_induct)
  case less
  show ?case
  proof (cases "merger_has_next (me_merger en)")
    case False
    then have none: "\<forall>i<length (mg_parsers (me_merger en)). mg_parsers (me_merger en) ! i = []"
      using merger_has_next_iff [OF less.prems(1)] by blast
    then have "\<forall>es\<in>set (mg_parsers (me_merger en)). es = []" by (metis in_set_conv_nth)
    then have "events_left (me_merger en) = 0" by (simp add: events_left_def)
    moreover have "multi_replay mb en n = Some (Inr (en, n))" using False by (subst multi_replay.simps) simp
    ultimately show ?thesis using none less.prems(2) by simp
  next
    case True
    obtain i e es m' where step: "takes_event (me_merger en) i e es m'" using get_next_takes less.prems(1) True by blast
    then have i: "i < mb_assets mb" "mg_parsers (me_merger en) ! i = e # es"
        "merger_get_next (me_merger en) = Inr (e\<lparr>ev_asset_id := of_nat i\<rparr>, m')"
        "mg_parsers m' = (mg_parsers (me_merger en))[i := es]" "merger_ready m'"
      using less.prems(2) by (simp_all add: takes_event_def earliest_def)
    have left: "events_left (me_merger en) = Suc (events_left m')"
      using i less.prems(2) length_nth_le [of i "mg_parsers (me_merger en)"]
      by (simp add: events_left_def map_update sum_list_update)
    let ?e = "en\<lparr>me_merger := m'\<rparr>" and ?event = "e\<lparr>ev_asset_id := of_nat i\<rparr>"
    have "multi_books_ok mb ?e" using less.prems(3) by (simp add: multi_books_ok_def)
    from multi_event_returns [OF assms(1) this _ i(1) assms(2), of ?event]
    obtain e1 b' ts where e1: "multi_event mb ?event ?e = Some e1" "process_order (stamped_order e) (me_books en ! i) = Some (b', ts)"
        "me_books e1 = (me_books en)[i := b']" "me_merger e1 = m'" "multi_books_ok mb e1"
      by (auto simp: stamped_order_def)
    have "length (mg_parsers (me_merger e1)) = mb_assets mb" using e1(4) i(4) less.prems(2) by simp
    from less.hyps [of e1, OF _ _ this e1(5), of "n + 1"]
    obtain en' where en': "multi_replay mb e1 (n + 1) = Some (Inr (en', n + 1 + of_nat (events_left m')))"
        "events_left (me_merger en') = 0"
        "\<forall>j<mb_assets mb. replayed_book (mg_parsers m' ! j) (me_books e1 ! j) = Some (me_books en' ! j)"
      using e1(4) i(5) left by auto
    have "multi_replay mb en n = Some (Inr (en', n + of_nat (events_left (me_merger en))))"
      using True i(3) e1(1) en'(1) by (subst multi_replay.simps) (simp add: left add.assoc)
    moreover have "replayed_book (mg_parsers (me_merger en) ! j) (me_books en ! j) = Some (me_books en' ! j)"
      if "j < mb_assets mb" for j
    proof (cases "j = i")
      case True
      have "length (me_books en) = mb_assets mb" using less.prems(3) by (simp add: multi_books_ok_def)
      then show ?thesis
        using en'(3) [rule_format, OF that] True i(2,4) e1(2,3) that less.prems(2) by (simp add: replayed_book_Cons)
    next
      case False
      then show ?thesis using en'(3) [rule_format, OF that] i(4) e1(3) by simp
    qed
    ultimately show ?thesis using en'(2) by blast
  qed
qed

lemma multi_run_returns:
  assumes "me_merger en = new_merger parsers" "me_books en = replicate (mb_assets mb) (new_book fixed_config)"
    "multi_listens mb" "length parsers = mb_assets mb" "mb_assets mb \<le> 65536" "\<forall>es\<in>set parsers. stream_sorted es"
    "length parsers \<le> 4 \<longrightarrow> (\<forall>es\<in>set parsers. \<forall>e\<in>set es. ev_timestamp e \<noteq> - 1)"
  shows "\<exists>en'. multi_run mb en = Some (Inr (en', of_nat (sum_list (map length parsers))))
    \<and> events_left (me_merger en') = 0
    \<and> (\<forall>i<mb_assets mb. replayed_book (parsers ! i) (new_book fixed_config) = Some (me_books en' ! i))"
proof -
  let ?e = "reset_microstructure_recording_state mb (call_multi mb Strategy_start en)"
  have "aside ?e = aside (reset_microstructure_recording_state mb en)" by (rule started_aside)
  then have e: "me_merger ?e = new_merger parsers" "me_books ?e = replicate (mb_assets mb) (new_book fixed_config)"
    using aside_market assms(1,2) by (simp_all add: reset_microstructure_recording_state_def aside_def)
  have "merger_ready (me_merger ?e)"
    unfolding e using new_merger_ready [of parsers] assms(4-7) by simp
  moreover have "length (mg_parsers (me_merger ?e)) = mb_assets mb" using assms(4) by (simp add: e new_merger_def)
  moreover have "multi_books_ok mb ?e" by (simp add: multi_books_ok_def e new_book_inv)
  ultimately show ?thesis
    using multi_replay_returns [OF assms(3,5), of ?e 0] unfolding multi_run_def e
    by (simp add: events_left_def new_merger_def)
qed

text \<open>C36: A backtest over several books ends and leaves the market data alone. When the strategy
  sends nothing in answer to a fill, a run over up to 65536 streams, each sorted by time, returns: every
  event is processed once, no stream is left, and every book is the one that the orders of its own stream
  leave, at their times in nanoseconds, on an empty book, whatever the strategy trades and whatever the
  other streams hold. Only with up to four streams, where the merger takes the time \<open>2 ^ 64 -
  1\<close> for the end of a stream and throws, no event may carry that time.\<close>
theorem multi_backtest_replays_its_data:
  assumes "new_multi_engine mb parsers mem = Inr en" "multi_listens mb" "length parsers = mb_assets mb"
    "mb_assets mb \<le> 65536" "\<forall>es\<in>set parsers. stream_sorted es"
    "length parsers \<le> 4 \<longrightarrow> (\<forall>es\<in>set parsers. \<forall>e\<in>set es. ev_timestamp e \<noteq> - 1)"
  shows "\<exists>en'. multi_run mb en = Some (Inr (en', of_nat (sum_list (map length parsers))))
    \<and> events_left (me_merger en') = 0
    \<and> (\<forall>i<mb_assets mb. replayed_book (parsers ! i) (new_book fixed_config) = Some (me_books en' ! i))"
  by (rule multi_run_returns [OF new_multi_engine_ok(1,2) [OF assms(1)] assms(2-6)])

text \<open>Two streams, and a strategy that bids at every tick and listens to its fills.\<close>

definition ticking_backtest :: "unit multi_backtest" where
  "ticking_backtest = \<lparr>mb_fp = bt_fp eager_backtest, mb_wallet_fp = \<lparr>fee_multiplier_of = id, times_scale = (\<lambda>x. 0)\<rparr>,
     mb_assets = 2, mb_slots = 4, mb_initial_cash = dbl_zero, mb_maker_fee_bps = 0, mb_taker_fee_bps = 0, mb_base_latency_ns = 0,
     mb_jitter_distribution = No_jitter, mb_jitter_mean_ns = 0, mb_lognormal_sigma = 0, mb_intra_leg_latency_ns = 75,
     mb_intra_leg_jitter_ns = 25, mb_exponential_draw = (\<lambda>k. 0), mb_lognormal_draw = (\<lambda>k. 0), mb_integer_draw = (\<lambda>k. 7),
     mb_strategy = (\<lambda>signal u. case signal of Strategy_tick a b \<Rightarrow> Send a Buy 5 7 0 (\<lambda>oid. Finish u) | _ \<Rightarrow> Finish u)\<rparr>"

definition two_streams :: "market_event list list" where
  "two_streams = [map sample_event [2, 5], map sample_event [2]]"

lemma ticking_ok: "multi_listens ticking_backtest" "length two_streams = mb_assets ticking_backtest"
    "mb_assets ticking_backtest \<le> 65536" "\<forall>es\<in>set two_streams. stream_sorted es"
    "length two_streams \<le> 4 \<longrightarrow> (\<forall>es\<in>set two_streams. \<forall>e\<in>set es. ev_timestamp e \<noteq> - 1)"
  by (simp_all add: multi_listens_def ticking_backtest_def two_streams_def stream_sorted_def sample_event_def)

lemma ticking_starts: "\<exists>en. new_multi_engine ticking_backtest two_streams () = Inr en"
  by (simp add: new_multi_engine_def and_next_def from_double_or_throw_def from_double_def ticking_backtest_def
      is_finite_def dbl_zero_def i64_min_def i64_max_def wallet_reset_def max_wallet_assets_def usdt_asset_def)

theorem multi_backtest_replays_its_data_witness:
  "\<exists>en en'. new_multi_engine ticking_backtest two_streams () = Inr en
    \<and> multi_run ticking_backtest en = Some (Inr (en', 3))
    \<and> replayed_book (two_streams ! 0) (new_book fixed_config) = Some (me_books en' ! 0)
    \<and> replayed_book (two_streams ! 1) (new_book fixed_config) = Some (me_books en' ! 1)"
proof -
  obtain en where en: "new_multi_engine ticking_backtest two_streams () = Inr en" using ticking_starts by blast
  have "mb_assets ticking_backtest = 2" by (simp add: ticking_backtest_def)
  moreover have "sum_list (map length two_streams) = 3" by (simp add: two_streams_def)
  ultimately show ?thesis
    using multi_backtest_replays_its_data [OF en ticking_ok] en by auto
qed

theorem resting_orders_are_never_filled_witness:
  "\<exists>en en'. new_multi_engine ticking_backtest two_streams () = Inr en
    \<and> multi_run ticking_backtest (enable_microstructure_recording ticking_backtest True 0 en) = Some (Inr (en', 3))
    \<and> maker_fills_count (me_execution en') = 0"
proof -
  obtain en where en: "new_multi_engine ticking_backtest two_streams () = Inr en" using ticking_starts by blast
  let ?e = "enable_microstructure_recording ticking_backtest True 0 en"
  have "me_merger ?e = new_merger two_streams" "me_books ?e = replicate (mb_assets ticking_backtest) (new_book fixed_config)"
    using new_multi_engine_ok(1,2) [OF en] by (simp_all add: enable_microstructure_recording_def)
  from multi_run_returns [OF this ticking_ok]
  obtain en' where "multi_run ticking_backtest ?e = Some (Inr (en', 3))"
    by (auto simp: two_streams_def)
  then show ?thesis using resting_orders_are_never_filled [OF en] en by blast
qed

end
