(* ===== verification/MultiGroups.thy ===== *)
theory MultiGroups
  imports MultiRuns BacktestQueue
begin

section \<open>Orders that are filled whole or not at all\<close>

text \<open>
  What single takers, legs of a group and the closing of a failed group do to the positions: a taker or a
  leg is filled for all of its quantity or for nothing, a completed group has every leg
  filled, and a failed one cannot buy back what it sold.
\<close>

subsection \<open>Fills and positions\<close>

definition signed_quantity :: "side \<Rightarrow> nat \<Rightarrow> int" where
  "signed_quantity sd n = (if sd = Buy then int n else - int n)"

definition move_by :: "asset_id \<Rightarrow> side \<Rightarrow> nat \<Rightarrow> int list \<Rightarrow> int list" where
  "move_by asset sd n p = p[unat asset := p ! unat asset + signed_quantity sd n]"

lemma move_by_add: "move_by asset sd m (move_by asset sd n p) = move_by asset sd (n + m) p"
  by (cases "unat asset < length p") (simp_all add: move_by_def signed_quantity_def algebra_simps list_update_beyond)

lemma move_by_0 [simp]: "move_by asset sd 0 p = p"
  by (simp add: move_by_def signed_quantity_def)

lemma length_move_by [simp]: "length (move_by asset sd n p) = length p"
  by (simp add: move_by_def)

lemma position_live [simp]:
  "me_position (multi_upd_live i f en) = me_position en" "me_position (multi_erase_live i en) = me_position en"
  "me_position (multi_erase_id oid en) = me_position en" "me_position (multi_rest_order mb oid en) = me_position en"
  by (simp_all add: multi_upd_live_def multi_erase_live_def multi_erase_id_def multi_rest_order_def split: option.split)

lemma position_drawn:
  "multi_add_live mb o' en = (en', ok) \<Longrightarrow> me_position en' = me_position en"
  "multi_latency_ns mb en = (en', l) \<Longrightarrow> me_position en' = me_position en"
  "leg_latency_ns mb b j en = (en', l) \<Longrightarrow> me_position en' = me_position en"
  by (auto simp: multi_add_live_def multi_latency_ns_def leg_latency_ns_def Let_def split: if_splits jitter_distribution.splits)

lemma position_submit: "me_position (fst (multi_submit_order mb asset sd price quantity en)) = me_position en"
  unfolding multi_submit_order_def Let_def
  by (auto split: prod.splits bool.splits dest!: position_drawn(1,2))

lemma position_cancel: "me_position (fst (multi_cancel_order mb asset oid en)) = me_position en"
  unfolding multi_cancel_order_def Let_def by (auto split: prod.splits bool.splits dest!: position_drawn(2))

lemma position_group: "me_position (fst (execute_group mb grp en)) = me_position en"
  unfolding execute_group_def Let_def by (auto split: prod.splits dest!: position_drawn(2))

lemma position_run: "me_position (run_multi mb act en) = me_position en"
proof (induction act arbitrary: en)
  case (Send asset sd price quantity t k)
  then show ?case using position_submit [of mb asset sd price quantity en] by (simp add: case_prod_unfold)
next
  case (Retract asset oid k)
  then show ?case using position_cancel [of mb asset oid en] by (simp add: case_prod_unfold)
next
  case (Send_group grp k)
  then show ?case using position_group [of mb grp en] by (simp add: case_prod_unfold)
qed simp_all

lemma position_accounts [simp]:
  "me_position (count_asset_stats mb f x y en) = me_position en" "me_position (count_execution mb f x en) = me_position en"
  "me_position (apply_portfolio_fill mb asset sd b q r en) = me_position en"
  "me_position (multi_reduce_live f en) = me_position en"
  by (simp_all add: count_asset_stats_def count_execution_def apply_portfolio_fill_def multi_reduce_live_def Let_def
      split: option.split)

lemma sint_small: "unat (q :: u64) < 2 ^ 63 \<Longrightarrow> sint q = int (unat q)"
proof -
  assume q: "unat q < 2 ^ 63"
  have u: "uint q = int (unat q)" by simp
  have "int (unat q) < 2 ^ 63" using q by (metis of_nat_less_iff of_nat_numeral of_nat_power)
  moreover have "- (2 ^ 63) \<le> int (unat q)" by (rule order_trans [of _ 0]) simp_all
  ultimately have "signed_take_bit 63 (int (unat q)) = int (unat q)" by (intro signed_take_bit_int_eq_self)
  then show ?thesis unfolding sint_uint u by simp
qed

lemma position_route:
  assumes "unat q < 2 ^ 63"
  shows "me_position (multi_route_fill mb (take_fill oid asset sd t p q) en) = move_by asset sd (unat q) (me_position en)"
proof -
  have "me_position (book_fill mb (take_fill oid asset sd t p q) en)
      = me_position (move_position (take_fill oid asset sd t p q)
          (apply_portfolio_fill mb asset sd (multi_units mb q) (multi_notional mb (take_fill oid asset sd t p q))
            (multi_fee_bps mb (take_fill oid asset sd t p q)) en))"
    by (simp only: book_fill_def Let_def position_accounts take_fill_def strategy_fill.simps)
  also have "\<dots> = move_by asset sd (unat q) (me_position en)"
    using sint_small [OF assms] by (simp add: move_position_def Let_def move_by_def signed_quantity_def take_fill_def)
  finally show ?thesis by (simp add: multi_route_fill_def call_multi_def position_run)
qed

subsection \<open>What a sweep leaves\<close>

text \<open>The part of a sweep that the strategy has no influence on.\<close>

definition left_level :: "side \<Rightarrow> int \<Rightarrow> int \<Rightarrow> u64 \<Rightarrow> u64 \<Rightarrow> u64 \<times> bool" where
  "left_level sd limit price q rem =
     (if rem = 0 \<or> \<not> crosses sd limit price then (rem, False)
      else (rem - min q rem, 0 < rem - min q rem))"

lemma min_positive: "\<not> 0 < min (q :: u64) rem \<Longrightarrow> rem \<noteq> 0 \<Longrightarrow> q = 0 \<and> min q rem = 0"
  by (metis min_def word_neq_0_conv)

lemma left_sweep:
  "unat rem < 2 ^ 63 \<Longrightarrow>
    snd (visit_levels (multi_sweep_level mb o' l t) b is (en, rem)) = visit_levels (left_level (ml_side o') l) b is rem
    \<and> unat (visit_levels (left_level (ml_side o') l) b is rem) \<le> unat rem
    \<and> me_position (fst (visit_levels (multi_sweep_level mb o' l t) b is (en, rem)))
      = move_by (ml_asset_id o') (ml_side o') (unat rem - unat (visit_levels (left_level (ml_side o') l) b is rem)) (me_position en)"
proof (induction "is" arbitrary: en rem)
  case (Cons i "is")
  let ?p = "lv_price (bk_levels b ! i)" and ?q = "lv_total (bk_levels b ! i)"
  show ?case
  proof (cases "rem = 0 \<or> \<not> crosses (ml_side o') l ?p")
    case True
    then show ?thesis by (auto simp: multi_sweep_level_def left_level_def)
  next
    case False
    define fl where "fl = min ?q rem"
    have fl: "fl \<le> rem" by (simp add: fl_def)
    then have sub: "unat (rem - fl) = unat rem - unat fl" "unat fl \<le> unat rem"
      by (simp_all add: unat_sub word_le_nat_alt)
    define e where "e = (if 0 < fl then multi_route_fill mb (take_fill (ml_order_id o') (ml_asset_id o') (ml_side o') t ?p fl) en else en)"
    have pos: "me_position e = move_by (ml_asset_id o') (ml_side o') (unat fl) (me_position en)"
      using position_route [of fl mb] sub(2) Cons.prems by (auto simp: e_def word_gt_0)
    have step: "multi_sweep_level mb o' l t ?p ?q (en, rem) = ((e, rem - fl), 0 < rem - fl)"
      using False by (cases "fl = 0") (simp_all add: multi_sweep_level_def Let_def e_def fl_def [symmetric] word_gt_0)
    have left: "left_level (ml_side o') l ?p ?q rem = (rem - fl, 0 < rem - fl)"
      using False by (simp add: left_level_def fl_def)
    have small: "unat (rem - fl) < 2 ^ 63" using sub(1) Cons.prems by simp
    show ?thesis
      using Cons.IH [OF small, of e] sub pos by (auto simp: step left move_by_add simp del: min_less_iff_conj)
  qed
qed simp

lemma left_request:
  "unat rem < 2 ^ 63 \<Longrightarrow> unat taken + unat rem < 2 ^ 64 \<Longrightarrow>
    (case visit_levels (request_level mb asset sd l t oid) b xs (en, rem, taken, notional) of (en', rem', taken', notional') \<Rightarrow>
       rem' = visit_levels (left_level sd l) b xs rem \<and> unat rem' \<le> unat rem
       \<and> unat taken' = unat taken + (unat rem - unat rem')
       \<and> me_position en' = move_by asset sd (unat rem - unat rem') (me_position en))"
proof (induction xs arbitrary: en rem taken notional)
  case (Cons i xs)
  let ?p = "lv_price (bk_levels b ! i)" and ?q = "lv_total (bk_levels b ! i)"
  show ?case
  proof (cases "rem = 0 \<or> \<not> crosses sd l ?p")
    case True
    then show ?thesis by (auto simp: request_level_def left_level_def)
  next
    case False
    define fl where "fl = min ?q rem"
    have fl: "fl \<le> rem" by (simp add: fl_def)
    then have sub: "unat (rem - fl) = unat rem - unat fl" "unat fl \<le> unat rem"
      by (simp_all add: unat_sub word_le_nat_alt)
    have add: "unat (taken + fl) = unat taken + unat fl"
      using Cons.prems(2) sub(2) by (simp add: unat_add_lem [THEN iffD1])
    define e where "e = (if 0 < fl then multi_route_fill mb (take_fill oid asset sd t ?p fl) en else en)"
    define no where "no = (if 0 < fl then fp_add (mb_fp mb) notional (fp_mul (mb_fp mb) (ticks_to_price (mb_fp mb) ?p) (multi_units mb fl)) else notional)"
    have pos: "me_position e = move_by asset sd (unat fl) (me_position en)"
      using position_route [of fl mb] sub(2) Cons.prems by (auto simp: e_def word_gt_0)
    have step: "request_level mb asset sd l t oid ?p ?q (en, rem, taken, notional) = ((e, rem - fl, taken + fl, no), 0 < rem - fl)"
      using False by (cases "fl = 0") (simp_all add: request_level_def Let_def e_def no_def fl_def [symmetric] word_gt_0)
    have left: "left_level sd l ?p ?q rem = (rem - fl, 0 < rem - fl)"
      using False by (simp add: left_level_def fl_def)
    have small: "unat (rem - fl) < 2 ^ 63" "unat (taken + fl) + unat (rem - fl) < 2 ^ 64"
      using sub add Cons.prems by simp_all
    show ?thesis
      using Cons.IH [OF small, of e no] sub add pos
      by (auto simp: step left move_by_add split: prod.splits)
  qed
qed simp

text \<open>When the quantity that crosses suffices, nothing is left, even where its count wraps.\<close>

lemma count_suffices:
  "unat a + unat rem = unat target \<Longrightarrow> target \<le> visit_levels (count_level sd l target) b is a \<Longrightarrow>
    visit_levels (left_level sd l) b is rem = 0"
proof (induction "is" arbitrary: a rem)
  case Nil
  then have "unat rem = 0" by (simp add: word_le_nat_alt)
  then show ?case by (simp add: unat_eq_zero)
next
  case (Cons i "is")
  let ?p = "lv_price (bk_levels b ! i)" and ?q = "lv_total (bk_levels b ! i)"
  consider (whole) "rem = 0" | (stop) "rem \<noteq> 0" "\<not> crosses sd l ?p" | (go) "rem \<noteq> 0" "crosses sd l ?p" by blast
  then show ?case
  proof cases
    case whole
    then show ?thesis by (simp add: left_level_def)
  next
    case stop
    then have "target \<le> a" using Cons.prems(2) by (simp add: count_level_def)
    then have "unat rem = 0" using Cons.prems(1) by (simp add: word_le_nat_alt)
    then show ?thesis using stop(1) by (simp add: unat_eq_zero)
  next
    case go
    show ?thesis
    proof (cases "?q < rem")
      case True
      then have m: "min ?q rem = ?q" by simp
      have sub: "unat (rem - ?q) = unat rem - unat ?q" "unat ?q < unat rem"
        using True by (simp_all add: unat_sub less_imp_le word_less_nat_alt)
      have "unat target < 2 ^ 64" using unsigned_less [of target, where ?'a = nat] by simp
      then have add: "unat (a + ?q) = unat a + unat ?q"
        using Cons.prems(1) sub(2) by (simp add: unat_add_lem [THEN iffD1])
      then have "a + ?q < target" using Cons.prems(1) sub(2) by (simp add: word_less_nat_alt)
      moreover have "count_level sd l target ?p ?q a = (a + ?q, a + ?q < target)"
        using go(2) by (simp add: count_level_def)
      ultimately have "target \<le> visit_levels (count_level sd l target) b is (a + ?q)"
        using Cons.prems(2) by simp
      moreover have "unat (a + ?q) + unat (rem - ?q) = unat target" using add sub Cons.prems(1) by simp
      moreover have "0 < rem - ?q" unfolding word_less_nat_alt using sub by simp
      ultimately show ?thesis using Cons.IH go m by (simp add: left_level_def)
    next
      case False
      then have "min ?q rem = rem" by (simp add: min_def)
      then show ?thesis using go by (simp add: left_level_def)
    qed
  qed
qed


subsection \<open>Single takers\<close>

text \<open>C38: A taker is filled whole or not at all. When the command of an order that was meant to
  take is released, the order crosses the best price and the quantity within its limit suffices, the
  position moves by exactly its remaining quantity, which has to be below \<open>2 ^ 63\<close> lots,
  since the code casts every fill to a signed number; otherwise the order is erased and nothing else
  happens. That holds although the book is counted in wrapping sums, and whatever the strategy does in
  answer to the fills.\<close>
theorem intended_takers_fill_or_kill:
  assumes "multi_find_live (mp_order_id p) en = Some i" "mp_type p = Submit_command"
    "ml_intended_taker (me_live en ! i)" "\<not> ml_canceled (me_live en ! i)"
    "unat (ml_remaining_quantity (me_live en ! i)) < 2 ^ 63"
  shows "let o' = me_live en ! i; en' = multi_execute_pending mb p en in
    if multi_aggressive mb (ml_asset_id o') (ml_side o') (ml_price o') en
      \<and> ml_remaining_quantity o' \<le> available_cross_quantity mb (ml_asset_id o') (ml_side o') (ml_price o')
          (ml_remaining_quantity o') en
    then me_position en' = move_by (ml_asset_id o') (ml_side o') (unat (ml_remaining_quantity o')) (me_position en)
    else en' = multi_erase_live i en"
proof -
  define o' where "o' = me_live en ! i"
  let ?fits = "multi_aggressive mb (ml_asset_id o') (ml_side o') (ml_price o') en
    \<and> ml_remaining_quantity o' \<le> available_cross_quantity mb (ml_asset_id o') (ml_side o') (ml_price o') (ml_remaining_quantity o') en"
  have run: "multi_execute_pending mb p en = multi_erase_id (mp_order_id p)
      (if ?fits then multi_sweep_book mb o' (mp_release_time_ns p) en else en)"
    using assms(1-4) by (simp add: multi_execute_pending_def Let_def o'_def)
  have "me_position (multi_sweep_book mb o' (mp_release_time_ns p) en)
      = move_by (ml_asset_id o') (ml_side o') (unat (ml_remaining_quantity o')) (me_position en)" if ?fits
  proof -
    let ?r = "ml_remaining_quantity o'" and ?l = "price_to_ticks (mb_fp mb) (ml_price o')"
    let ?b = "book_of (ml_asset_id o') en" and ?t = "mp_release_time_ns p"
    let ?is = "level_sequence fixed_config ?b (opposite (ml_side o'))"
    have "is_listed mb (ml_asset_id o')" using that by (auto simp: multi_aggressive_def split: if_splits)
    then have "?r \<le> visit_levels (count_level (ml_side o') ?l ?r) ?b ?is 0"
      using that by (simp add: available_cross_quantity_def fixed_for_each_level_def for_each_level_def)
    then have "visit_levels (left_level (ml_side o') ?l) ?b ?is ?r = 0"
      by (intro count_suffices) simp_all
    moreover have "unat ?r < 2 ^ 63" using assms(5) by (simp add: o'_def)
    from left_sweep [OF this, of mb o' ?l ?t ?b ?is en]
    have "me_position (fst (visit_levels (multi_sweep_level mb o' ?l ?t) ?b ?is (en, ?r)))
        = move_by (ml_asset_id o') (ml_side o') (unat ?r - unat (visit_levels (left_level (ml_side o') ?l) ?b ?is ?r)) (me_position en)"
      by blast
    ultimately show ?thesis by (simp add: multi_sweep_book_def fixed_for_each_level_def for_each_level_def)
  qed
  moreover have "multi_erase_id (mp_order_id p) en = multi_erase_live i en" using assms(1) by (simp add: multi_erase_id_def)
  ultimately show ?thesis by (cases ?fits) (simp_all only: Let_def o'_def [symmetric] run if_True if_False position_live simp_thms)
qed

subsection \<open>Groups\<close>

lemma request_position:
  assumes "sweep_request mb asset sd limit q t oid en = (en', taken, vwap)" "unat q < 2 ^ 63"
  shows "me_position en' = move_by asset sd (unat taken) (me_position en)"
    "is_listed mb asset \<Longrightarrow> q \<le> available_cross_quantity mb asset sd limit q en \<Longrightarrow> taken = q"
proof -
  let ?l = "price_to_ticks (mb_fp mb) limit" and ?b = "book_of asset en"
  let ?is = "level_sequence fixed_config ?b (opposite sd)"
  obtain e rem tk no where v: "visit_levels (request_level mb asset sd ?l t oid) ?b ?is (en, q, 0, dbl_zero) = (e, rem, tk, no)"
    by (metis prod_cases4)
  have out: "en' = e" "taken = tk"
    using assms(1) v by (simp_all add: sweep_request_def fixed_for_each_level_def for_each_level_def)
  have "unat (0 :: u64) + unat q < 2 ^ 64" using assms(2) by simp
  from left_request [OF assms(2) this, where mb = mb and asset = asset and sd = sd and l = ?l and t = t and oid = oid
      and b = ?b and xs = ?is and en = en and notional = dbl_zero]
  have r: "rem = visit_levels (left_level sd ?l) ?b ?is q" "unat rem \<le> unat q" "unat tk = unat q - unat rem"
      "me_position e = move_by asset sd (unat q - unat rem) (me_position en)"
    unfolding v prod.case unat_0 add_0_left by blast+
  show "me_position en' = move_by asset sd (unat taken) (me_position en)" using out r(3,4) by simp
  assume "is_listed mb asset" "q \<le> available_cross_quantity mb asset sd limit q en"
  then have "q \<le> visit_levels (count_level sd ?l q) ?b ?is 0"
    by (simp add: available_cross_quantity_def fixed_for_each_level_def for_each_level_def)
  then have "rem = 0" unfolding r(1) by (intro count_suffices) simp_all
  then show "taken = q" using out(2) r(3) by (simp add: word_unat_eq_iff)
qed

definition leg_move :: "leg_report \<Rightarrow> int list \<Rightarrow> int list" where
  "leg_move r = move_by (xr_asset_id r) (xr_side r) (unat (xr_filled_quantity r))"

definition leg_of :: "leg_request \<Rightarrow> leg_report \<Rightarrow> bool" where
  "leg_of l r \<longleftrightarrow> xr_asset_id r = lr_asset_id l \<and> xr_side r = lr_side l \<and> xr_requested_quantity r = lr_quantity l
     \<and> (xr_fully_filled r \<longrightarrow> xr_filled_quantity r = lr_quantity l)
     \<and> (\<not> xr_fully_filled r \<longrightarrow> xr_filled_quantity r = 0)"

lemma fok_flag:
  assumes "execute_fok_request mb l grp t en = (en', r)"
  shows "xr_slippage_breached r \<longleftrightarrow> xr_fully_filled r \<and> is_slippage_breached mb r grp"
proof -
  have same: "is_slippage_breached mb (r\<lparr>xr_slippage_breached := flag\<rparr>) grp = is_slippage_breached mb r grp" for r flag
    by (simp add: is_slippage_breached_def Let_def)
  let ?q = "lr_quantity l"
  show ?thesis
  proof (cases "\<not> is_listed mb (lr_asset_id l) \<or> ?q = 0
      \<or> available_cross_quantity mb (lr_asset_id l) (lr_side l) (ticks_to_price (mb_fp mb) (lr_price l)) ?q en < ?q")
    case True
    then have "r = asked_report l" using assms by (auto simp: execute_fok_request_def Let_def)
    then show ?thesis by (simp add: asked_report_def no_leg_report_def)
  next
    case False
    obtain e taken vwap where s: "sweep_request mb (lr_asset_id l) (lr_side l) (ticks_to_price (mb_fp mb) (lr_price l)) ?q t
        (me_next_order_id en) (en\<lparr>me_next_order_id := me_next_order_id en + 1\<rparr>) = (e, taken, vwap)" by (metis prod_cases3)
    define rep where "rep = (asked_report l)\<lparr>xr_filled_quantity := taken,
      xr_vwap_price := llround (dbl_value (fp_mul (mb_fp mb) vwap dbl_scale)), xr_fully_filled := (taken = ?q)\<rparr>"
    have "r = rep\<lparr>xr_slippage_breached := xr_fully_filled rep \<and> is_slippage_breached mb rep grp\<rparr>"
      using assms False s by (simp add: execute_fok_request_def Let_def rep_def)
    then show ?thesis by (simp add: same)
  qed
qed

lemma fok_leg:
  assumes "execute_fok_request mb l grp t en = (en', r)" "unat (lr_quantity l) < 2 ^ 63"
  shows "leg_of l r \<and> me_position en' = leg_move r (me_position en)"
proof (cases "\<not> is_listed mb (lr_asset_id l) \<or> lr_quantity l = 0
    \<or> available_cross_quantity mb (lr_asset_id l) (lr_side l) (ticks_to_price (mb_fp mb) (lr_price l)) (lr_quantity l) en < lr_quantity l")
  case True
  then have "en' = en" "r = asked_report l"
    using assms(1) by (auto simp: execute_fok_request_def Let_def)
  then show ?thesis by (simp add: leg_of_def leg_move_def asked_report_def no_leg_report_def)
next
  case False
  let ?e = "en\<lparr>me_next_order_id := me_next_order_id en + 1\<rparr>"
  obtain e taken vwap where s: "sweep_request mb (lr_asset_id l) (lr_side l) (ticks_to_price (mb_fp mb) (lr_price l)) (lr_quantity l) t
      (me_next_order_id en) ?e = (e, taken, vwap)" by (metis prod_cases3)
  have "available_cross_quantity mb asset sd limit q ?e = available_cross_quantity mb asset sd limit q en" for asset sd limit q
    by (simp add: available_cross_quantity_def book_of_def)
  then have "taken = lr_quantity l" "me_position e = move_by (lr_asset_id l) (lr_side l) (unat taken) (me_position en)"
    using request_position [OF s assms(2)] False by (simp_all add: not_less)
  moreover have "en' = e" "xr_asset_id r = lr_asset_id l" "xr_side r = lr_side l" "xr_requested_quantity r = lr_quantity l"
      "xr_filled_quantity r = taken" "xr_fully_filled r \<longleftrightarrow> taken = lr_quantity l"
    using assms(1) False s by (auto simp: execute_fok_request_def Let_def asked_report_def)
  ultimately show ?thesis by (simp add: leg_of_def leg_move_def)
qed

definition small_leg :: "leg_request \<Rightarrow> bool" where
  "small_leg l \<longleftrightarrow> unat (lr_quantity l) < 2 ^ 63"

text \<open>A leg that is filled, at an average price within the tolerance of the group.\<close>

definition leg_done :: "'m multi_backtest \<Rightarrow> order_group \<Rightarrow> leg_report \<Rightarrow> bool" where
  "leg_done mb grp r \<longleftrightarrow> xr_fully_filled r \<and> \<not> is_slippage_breached mb r grp"

text \<open>The legs up to the first that fails, without the closing that then follows.\<close>

fun attempt_legs ::
  "'m multi_backtest \<Rightarrow> order_group \<Rightarrow> leg_request list \<Rightarrow> u64 \<Rightarrow> 'm multi_engine \<Rightarrow> 'm multi_engine \<times> leg_report list" where
  "attempt_legs mb grp [] t en = (en, [])"
| "attempt_legs mb grp (request # requests) t en =
     (let (en, latency) = group_latency_ns mb grp en;
          (en, report) = execute_fok_request mb request grp (t + latency) en
      in if leg_done mb grp report
         then (case attempt_legs mb grp requests (t + latency) en of (en, reports) \<Rightarrow> (en, report # reports))
         else (en, [report]))"

lemma legs_run:
  assumes "execute_legs mb grp requests reports t en = (en', reports', fin)" "list_all small_leg requests"
    and "attempt_legs mb grp requests t en = (e, rs)"
  shows "reports' = reports @ rs \<and> list_all2 leg_of (take (length rs) requests) rs
    \<and> me_position e = fold leg_move rs (me_position en) \<and> aside e = aside en
    \<and> (fin \<longrightarrow> length rs = length requests \<and> list_all (leg_done mb grp) rs \<and> en' = e)
    \<and> (\<not> fin \<longrightarrow> (\<exists>t'. en' = panic_close_group mb reports' t' e))"
  using assms
proof (induction requests arbitrary: reports t en rs)
  case (Cons l ls)
  obtain e1 d where d: "group_latency_ns mb grp en = (e1, d)" by fastforce
  obtain e2 r where r: "execute_fok_request mb l grp (t + d) e1 = (e2, r)" by fastforce
  have e2: "leg_of l r" "me_position e2 = leg_move r (me_position en)" "aside e2 = aside en"
    using fok_leg [OF r] Cons.prems(2) position_drawn(3) [OF d [unfolded group_latency_ns_def]]
      aside_fok [OF r] aside_drawn(3) [OF d [unfolded group_latency_ns_def]] by (simp_all add: small_leg_def)
  have flag: "\<not> xr_fully_filled r \<or> xr_slippage_breached r \<longleftrightarrow> \<not> leg_done mb grp r"
    using fok_flag [OF r] by (auto simp: leg_done_def)
  show ?case
  proof (cases "leg_done mb grp r")
    case False
    then have "en' = panic_close_group mb (reports @ [r]) (t + d) e2" "reports' = reports @ [r]" "\<not> fin" "e = e2" "rs = [r]"
      using Cons.prems(1,3) d r flag by (auto simp: Let_def)
    then show ?thesis using e2 by auto
  next
    case True
    then have "\<not> (\<not> xr_fully_filled r \<or> xr_slippage_breached r)" using flag by blast
    then have "execute_legs mb grp ls (reports @ [r]) (t + d) e2 = (en', reports', fin)"
      using Cons.prems(1) d r by (simp add: Let_def)
    moreover have "list_all small_leg ls" using Cons.prems(2) by simp
    moreover obtain rs' where "attempt_legs mb grp ls (t + d) e2 = (e, rs')" "rs = r # rs'"
      using Cons.prems(3) True d r by (auto simp: Let_def split: prod.splits)
    ultimately show ?thesis using Cons.IH [of "reports @ [r]" "t + d" e2 rs'] e2 True by auto
  qed
qed auto

text \<open>C37: A completed group has all of its legs. When the execution of a group of three legs, each for
  fewer than \<open>2 ^ 63\<close> lots, completes, there is a
  report for each leg, in order, filled for the whole quantity that the leg asks for, at an average price within
  the tolerance of the group (a tolerance that a leg carries of its own is never read), and the positions have
  moved by exactly these quantities, each on its leg's
  asset and side, whatever the strategy does in answer to the fills.\<close>
theorem completed_groups_fill_every_leg:
  assumes "execute_pending_group mb grp t en = (en', r)" "gr_completed r" "list_all small_leg (og_legs grp)"
    "length (og_legs grp) = order_group_leg_count"
  shows "list_all2 leg_of (og_legs grp) (gr_reports r)
    \<and> list_all (\<lambda>x. xr_fully_filled x \<and> \<not> is_slippage_breached mb x grp) (gr_reports r)
    \<and> me_position en' = fold (\<lambda>l. move_by (lr_asset_id l) (lr_side l) (unat (lr_quantity l))) (og_legs grp) (me_position en)
    \<and> \<not> gr_panic_triggered r"
proof -
  obtain e reports fin where x: "execute_legs mb grp (og_legs grp) [] t en = (e, reports, fin)" by (metis prod_cases3)
  then have out: "en' = e" "fin" "gr_reports r = reports @ replicate (order_group_leg_count - length reports) no_leg_report"
      "\<not> gr_panic_triggered r"
    using assms(1,2) by (auto simp: execute_pending_group_def)
  obtain e' rs where a: "attempt_legs mb grp (og_legs grp) t en = (e', rs)" by fastforce
  from legs_run [OF x assms(3) a] out(2)
  have l: "list_all2 leg_of (og_legs grp) reports" "length reports = length (og_legs grp)"
      "list_all (leg_done mb grp) reports" "me_position e = fold leg_move reports (me_position en)"
    by auto
  have same: "gr_reports r = reports" using out(3) l(2) assms(4) by simp
  have moves: "fold leg_move rs p = fold (\<lambda>l. move_by (lr_asset_id l) (lr_side l) (unat (lr_quantity l))) ls p"
    if "list_all2 leg_of ls rs" "list_all (leg_done mb grp) rs" for ls rs p
    using that by (induction arbitrary: p rule: list_all2_induct) (auto simp: leg_of_def leg_move_def leg_done_def)
  show ?thesis using l out(1,4) moves [of "og_legs grp" reports] by (simp add: same leg_done_def [abs_def])
qed


subsection \<open>Closing a failed group\<close>

definition asks_positive :: "matching_book \<Rightarrow> bool" where
  "asks_positive b \<longleftrightarrow> book_inv fixed_config b \<and> list_all (\<lambda>(p, q). 0 < p) (ladder b Sell)"

text \<open>The largest double is out of the range of ticks, and is read as the price zero.\<close>

definition max_beyond_ticks :: "backtest_fp \<Rightarrow> bool" where
  "max_beyond_ticks fp \<longleftrightarrow> of_int i64_max < long_product fp dbl_max"

lemma max_ticks: "max_beyond_ticks fp \<Longrightarrow> price_to_ticks fp dbl_max = 0"
  by (simp add: price_to_ticks_def max_beyond_ticks_def)

lemma no_buying_back:
  assumes "max_beyond_ticks (mb_fp mb)" "asks_positive (book_of asset en)"
  shows "sweep_request mb asset Buy dbl_max q t oid en = (en, 0, dbl_zero)"
proof -
  let ?b = "book_of asset en"
  have inv: "book_inv fixed_config ?b" using assms(2) by (simp add: asks_positive_def)
  have "0 < lv_price (bk_levels ?b ! i)" if "i \<in> set (level_sequence fixed_config ?b Sell)" for i
    using that assms(2) unfolding level_sequence_ranked [OF inv fixed_config_ok(3)] asks_positive_def ladder_def
    by (auto simp: list_all_iff rung_def)
  then have far: "\<not> crosses Buy 0 (lv_price (bk_levels ?b ! i))" if "i \<in> set (level_sequence fixed_config ?b Sell)" for i
    using that by (fastforce simp: crosses_def)
  have "visit_levels (request_level mb asset Buy 0 t oid) ?b (level_sequence fixed_config ?b Sell) v = v" for v
  proof (cases "level_sequence fixed_config ?b Sell")
    case (Cons i "is")
    then have "request_level mb asset Buy 0 t oid (lv_price (bk_levels ?b ! i)) (lv_total (bk_levels ?b ! i)) v = (v, False)"
      using far [of i] by (cases v) (simp add: request_level_def)
    then show ?thesis using Cons by simp
  qed simp
  then show ?thesis
    by (simp add: sweep_request_def fixed_for_each_level_def for_each_level_def max_ticks [OF assms(1)] opposite_def)
qed

lemma panic_keeps_shorts:
  assumes "max_beyond_ticks (mb_fp mb)" "list_all asks_positive (me_books en)" "length (me_books en) = mb_assets mb"
    "list_all (\<lambda>r. xr_side r = Sell) reports"
  shows "\<exists>d n. panic_close_group mb reports t en = en\<lparr>me_draws := d, me_next_order_id := n\<rparr>"
  using assms(2-4)
proof (induction reports arbitrary: t en)
  case Nil
  show ?case by (intro exI [of _ "me_draws en"] exI [of _ "me_next_order_id en"]) simp
next
  case (Cons r rs)
  show ?case
  proof (cases "xr_filled_quantity r = 0 \<or> \<not> is_listed mb (xr_asset_id r)")
    case True
    then have "panic_close_group mb (r # rs) t en = panic_close_group mb rs t en" by auto
    then show ?thesis using Cons by simp
  next
    case False
    obtain e l where l: "leg_latency_ns mb (mb_intra_leg_latency_ns mb) (mb_intra_leg_jitter_ns mb) en = (e, l)" by fastforce
    have "e = en\<lparr>me_draws := (if 0 < mb_intra_leg_jitter_ns mb then Suc (me_draws en) else me_draws en)\<rparr>"
      using l by (auto simp: leg_latency_ns_def split: if_splits)
    then obtain d where e: "e = en\<lparr>me_draws := d\<rparr>" by blast
    let ?e = "e\<lparr>me_next_order_id := me_next_order_id e + 1\<rparr>"
    have "unat (xr_asset_id r) < length (me_books en)" using False Cons.prems(2) by (simp add: is_listed_def)
    then have "asks_positive (book_of (xr_asset_id r) ?e)"
      using Cons.prems(1) by (simp add: e book_of_def list_all_iff)
    from no_buying_back [OF assms(1) this]
    have "panic_close_group mb (r # rs) t en = panic_close_group mb rs (t + l) ?e"
      using False l Cons.prems(3) by (simp add: Let_def opposite_def)
    moreover obtain d' n where "panic_close_group mb rs (t + l) ?e = ?e\<lparr>me_draws := d', me_next_order_id := n\<rparr>"
      using Cons.IH [of ?e "t + l"] Cons.prems by (auto simp: e)
    ultimately show ?thesis by (auto simp: e)
  qed
qed

text \<open>C39: A failed group stays short. When a group whose legs sell, each fewer than \<open>2 ^
  63\<close> lots, does not complete, and no ask has a price of zero or less, its panic closing buys
  nothing back: the limit of the closing purchase, the largest double, is too large for a price in ticks
  and read as zero, below every ask. The engine ends as the last leg that was tried left it, its wallet,
  diagnostics, live orders and all else, but for the draws and the order ids that the closing uses up; so
  the positions end where the filled legs left them, and all of what was sold is missing.\<close>
theorem failed_groups_stay_short:
  assumes "execute_pending_group mb grp t en = (en', r)" "\<not> gr_completed r" "max_beyond_ticks (mb_fp mb)"
    "list_all asks_positive (me_books en)" "length (me_books en) = mb_assets mb"
    "list_all small_leg (og_legs grp)" "list_all (\<lambda>l. lr_side l = Sell) (og_legs grp)"
  shows "gr_panic_triggered r
    \<and> (\<exists>e rs d oid. attempt_legs mb grp (og_legs grp) t en = (e, rs)
        \<and> en' = e\<lparr>me_draws := d, me_next_order_id := oid\<rparr>
        \<and> gr_reports r = rs @ replicate (order_group_leg_count - length rs) no_leg_report
        \<and> list_all2 leg_of (take (length rs) (og_legs grp)) rs)
    \<and> me_position en' = fold (\<lambda>x. move_by (xr_asset_id x) Sell (unat (xr_filled_quantity x))) (gr_reports r) (me_position en)"
proof -
  obtain e1 reports fin where x: "execute_legs mb grp (og_legs grp) [] t en = (e1, reports, fin)" by (metis prod_cases3)
  then have out: "en' = e1" "\<not> fin" "gr_reports r = reports @ replicate (order_group_leg_count - length reports) no_leg_report"
      "gr_panic_triggered r"
    using assms(1,2) by (auto simp: execute_pending_group_def)
  obtain e rs where a: "attempt_legs mb grp (og_legs grp) t en = (e, rs)" by fastforce
  from legs_run [OF x assms(6) a] out(2)
  obtain t' where l: "reports = rs" "list_all2 leg_of (take (length rs) (og_legs grp)) rs"
      "en' = panic_close_group mb rs t' e" "me_position e = fold leg_move rs (me_position en)" "aside e = aside en"
    unfolding out(1) by auto
  have sells: "list_all (\<lambda>r. xr_side r = Sell) rs" if "list_all2 leg_of ls rs" "list_all (\<lambda>l. lr_side l = Sell) ls" for ls rs
    using that by (induction rule: list_all2_induct) (auto simp: leg_of_def)
  have "list_all (\<lambda>l. lr_side l = Sell) (take (length rs) (og_legs grp))"
    using assms(7) by (auto simp: list_all_iff dest: in_set_takeD)
  then have sold: "list_all (\<lambda>r. xr_side r = Sell) rs" using sells l(2) by blast
  have books: "me_books e = me_books en" using aside_market [OF l(5)] by simp
  obtain d oid where en': "en' = e\<lparr>me_draws := d, me_next_order_id := oid\<rparr>"
    using panic_keeps_shorts [OF assms(3) _ _ sold, of e t'] assms(4,5) unfolding books l(3) by blast
  then have "me_position en' = fold leg_move rs (me_position en)" using l(4) by simp
  moreover have "fold leg_move rs p = fold (\<lambda>x. move_by (xr_asset_id x) Sell (unat (xr_filled_quantity x))) rs p"
    if "list_all (\<lambda>r. xr_side r = Sell) rs" for rs p
    using that by (induction rs arbitrary: p) (auto simp: leg_move_def)
  moreover have "fold (\<lambda>x. move_by (xr_asset_id x) Sell (unat (xr_filled_quantity x))) (replicate k no_leg_report) p = p" for k p
    by (induction k) (simp_all add: no_leg_report_def)
  ultimately have "me_position en'
      = fold (\<lambda>x. move_by (xr_asset_id x) Sell (unat (xr_filled_quantity x))) (gr_reports r) (me_position en)"
    using sold by (simp add: out(3) l(1))
  then show ?thesis using out(3,4) a en' l(1,2) by blast
qed


subsection \<open>Trading against a bid for nine at 100\<close>

definition selling_backtest :: "unit multi_backtest" where
  "selling_backtest = ticking_backtest\<lparr>mb_fp := (bt_fp eager_backtest)\<lparr>long_product :=
       (\<lambda>x. if x = dbl_max then 2 ^ 64 else of_int (uint x))\<rparr>, mb_assets := 1\<rparr>"

definition selling_engine :: "matching_book \<Rightarrow> unit multi_engine" where
  "selling_engine b = \<lparr>me_merger = new_merger [[]], me_books = [b], me_pending = new_slot_heap 4 no_multi_pending,
     me_groups = new_slot_heap 4 no_pending_group,
     me_live = [\<lparr>ml_asset_id = 0, ml_order_id = first_strategy_order_id, ml_side = Sell, ml_price = 100,
       ml_remaining_quantity = 5, ml_volume_ahead = 0, ml_intended_taker = True, ml_active = False, ml_canceled = False\<rparr>],
     me_trades = [], me_draws = 0, me_position = [0], me_last_mid = [dbl_zero], me_last_snapshot = [0],
     me_asset_stats = [no_asset_stats], me_snapshots = [], me_wallet = new_wallet, me_execution = no_execution,
     me_current_asset = 0, me_time = 7, me_next_order_id = first_strategy_order_id + 1, me_dropped = 0, me_record = False,
     me_sampling_interval = 0, me_memory = ()\<rparr>"

definition nine_bidder :: "matching_book \<Rightarrow> bool" where
  "nine_bidder b \<longleftrightarrow> book_inv fixed_config b \<and> ladder b = (\<lambda>s. [])(Buy := [(100, [(fixed_order 1 Buy 100 9 0 GTC, 9)])])"

lemma selling_simps [simp]:
  "mb_assets selling_backtest = 1" "is_listed selling_backtest 0" "\<not> is_listed selling_backtest 9"
  "book_of 0 (selling_engine b) = b" "me_books (selling_engine b) = [b]" "me_position (selling_engine b) = [0]"
  by (simp_all add: selling_backtest_def is_listed_def book_of_def selling_engine_def)

lemma selling_prices:
  "price_to_ticks (mb_fp selling_backtest) 100 = 100" "ticks_to_price (mb_fp selling_backtest) 100 = 100"
proof -
  have "\<lfloor>201 / 2 :: rat\<rfloor> = 100" by (rule floor_unique) simp_all
  then have "llround 100 = 100" by (simp add: llround_def)
  then show "price_to_ticks (mb_fp selling_backtest) 100 = 100"
    by (simp add: price_to_ticks_def selling_backtest_def is_finite_def is_at_most_zero_def dbl_zero_def dbl_minus_zero_def
        dbl_minus_infinity_def dbl_max_def i64_max_def)
  show "ticks_to_price (mb_fp selling_backtest) 100 = 100"
    by (simp add: ticks_to_price_def selling_backtest_def ticking_backtest_def eager_backtest_def)
qed

lemma nine_levels:
  assumes "nine_bidder b"
  obtains i where "level_sequence fixed_config b Buy = [i]" "lv_price (bk_levels b ! i) = 100" "lv_total (bk_levels b ! i) = 9"
proof -
  have inv: "book_inv fixed_config b" and lad: "ladder b Buy = [(100, [(fixed_order 1 Buy 100 9 0 GTC, 9)])]"
    using assms by (simp_all add: nine_bidder_def)
  note seq = level_sequence_ranked [OF inv fixed_config_ok(3), of Buy]
  obtain i where i: "ranked (bk_levels b) Buy = [i]" "rung b i = (100, [(fixed_order 1 Buy 100 9 0 GTC, 9)])"
    using lad unfolding ladder_def by auto
  have "lv_total (bk_levels b ! i) = sum_list (map snd (snd (rung b i)))"
    using ladder_rung_cases(5) [OF inv, of i Buy] i(1)
    by (simp add: rung_def level_ok_def qty_sum_def book_entry_def o_def)
  then have "lv_total (bk_levels b ! i) = 9" unfolding i(2) by simp
  moreover have "lv_price (bk_levels b ! i) = fst (rung b i)" by (simp add: rung_def)
  then have "lv_price (bk_levels b ! i) = 100" unfolding i(2) by simp
  ultimately show thesis using that seq i(1) by simp
qed

lemma nine_best: "nine_bidder b \<Longrightarrow> best_bid_ticks b = 100"
proof -
  assume nine: "nine_bidder b"
  then have inv: "book_inv fixed_config b" by (simp add: nine_bidder_def)
  obtain i where i: "level_sequence fixed_config b Buy = [i]" "lv_price (bk_levels b ! i) = 100"
    using nine_levels [OF nine] by blast
  then have "best_level fixed_config b Buy = Some i"
    using best_level_top [OF inv fixed_config_ok(3)] level_sequence_ranked [OF inv fixed_config_ok(3), of Buy]
    by (simp add: top_def)
  then show ?thesis using i(2) by (simp add: best_bid_ticks_def best_bid_def)
qed

lemma nine_available:
  assumes "nine_bidder b" "q \<le> 9" "book_of asset en = b" "is_listed selling_backtest asset"
  shows "q \<le> available_cross_quantity selling_backtest asset Sell 100 q en"
proof -
  obtain i where "level_sequence fixed_config b Buy = [i]" "lv_price (bk_levels b ! i) = 100" "lv_total (bk_levels b ! i) = 9"
    using nine_levels [OF assms(1)] .
  then show ?thesis
    using assms(2-4) by (simp add: available_cross_quantity_def fixed_for_each_level_def for_each_level_def opposite_def
        selling_prices count_level_def crosses_def)
qed

theorem intended_takers_fill_or_kill_witness:
  "\<exists>b trades. process_order nine_bid (new_book fixed_config) = Some (b, trades)
    \<and> me_position (multi_execute_pending selling_backtest
        (no_multi_pending\<lparr>mp_order_id := first_strategy_order_id\<rparr>) (selling_engine b)) = [- 5]"
proof (rule nine_ladder)
  fix b trades assume b: "process_order nine_bid (new_book fixed_config) = Some (b, trades)" "book_inv fixed_config b"
    "ladder b = (\<lambda>s. [])(Buy := [(100, [(fixed_order 1 Buy 100 9 0 GTC, 9)])])"
  let ?p = "no_multi_pending\<lparr>mp_order_id := first_strategy_order_id\<rparr>" and ?en = "selling_engine b"
  have nine: "nine_bidder b" using b by (simp add: nine_bidder_def)
  have live: "me_live ?en ! 0 = \<lparr>ml_asset_id = 0, ml_order_id = first_strategy_order_id, ml_side = Sell, ml_price = 100,
       ml_remaining_quantity = 5, ml_volume_ahead = 0, ml_intended_taker = True, ml_active = False, ml_canceled = False\<rparr>"
    by (simp add: selling_engine_def)
  have found: "multi_find_live (mp_order_id ?p) ?en = Some 0"
    by (simp add: multi_find_live_def selling_engine_def)
  have "multi_aggressive selling_backtest 0 Sell 100 ?en"
    by (simp add: multi_aggressive_def get_best_bid_def nine_best [OF nine] selling_prices is_positive_def dbl_le_def
        dbl_is_nan_def is_finite_def dbl_zero_def dbl_infinity_def)
  moreover have "5 \<le> available_cross_quantity selling_backtest 0 Sell 100 5 ?en"
    by (rule nine_available [OF nine]) simp_all
  ultimately have "me_position (multi_execute_pending selling_backtest ?p ?en) = [- 5]"
    using intended_takers_fill_or_kill [OF found] live by (simp add: no_multi_pending_def Let_def move_by_def signed_quantity_def)
  then show ?thesis using b(1) by blast
qed


text \<open>Groups that sell 2, 3 and 1, and 5 to the bid and 4 on an asset without a book.\<close>

definition sell_leg :: "asset_id \<Rightarrow> u64 \<Rightarrow> leg_request" where
  "sell_leg asset q = \<lparr>lr_quantity = q, lr_timestamp = 0, lr_price = 100, lr_expected_price = 100,
     lr_slippage_tolerance = dbl_zero, lr_asset_id = asset, lr_side = Sell\<rparr>"

definition sell_group :: "leg_request list \<Rightarrow> order_group" where
  "sell_group legs = \<lparr>og_group_id = 1, og_timestamp = 0, og_intra_leg_latency_ns = 0, og_intra_leg_jitter_ns = 0,
     og_slippage_tolerance = dbl_zero, og_legs = legs\<rparr>"

lemma no_breach: "\<not> is_slippage_breached selling_backtest r (sell_group legs)"
  by (simp add: is_slippage_breached_def sell_group_def Let_def is_at_most_zero_def is_positive_def)

lemma sell_leg_filled:
  assumes "nine_bidder b" "me_books en = [b]" "0 < q" "q \<le> 9"
    "execute_fok_request selling_backtest (sell_leg 0 q) (sell_group legs) t en = (en', r)"
  shows "xr_fully_filled r \<and> \<not> xr_slippage_breached r \<and> xr_asset_id r = 0 \<and> xr_filled_quantity r = q
    \<and> me_books en' = [b] \<and> me_position en' = move_by 0 Sell (unat q) (me_position en)"
proof -
  have small: "unat q < 2 ^ 63" using assms(4) by (simp add: word_le_nat_alt)
  have nonzero: "q \<noteq> 0" using assms(3) by auto
  have books: "me_books en' = [b]" using aside_market [OF aside_fok [OF assms(5)]] assms(2) by simp
  have "q \<le> available_cross_quantity selling_backtest 0 Sell 100 q en"
    by (rule nine_available [OF assms(1,4)]) (simp_all add: book_of_def assms(2))
  then have suff: "\<not> available_cross_quantity selling_backtest 0 Sell 100 q en < q" by simp
  let ?e = "en\<lparr>me_next_order_id := me_next_order_id en + 1\<rparr>"
  obtain e taken vwap where s: "sweep_request selling_backtest 0 Sell 100 q t (me_next_order_id en) ?e = (e, taken, vwap)"
    by (metis prod_cases3)
  have "q \<le> available_cross_quantity selling_backtest 0 Sell 100 q ?e"
    by (rule nine_available [OF assms(1,4)]) (simp_all add: book_of_def assms(2))
  then have "taken = q" using request_position(2) [OF s small] by simp
  then have "xr_fully_filled r \<and> \<not> xr_slippage_breached r \<and> xr_filled_quantity r = q"
    using nonzero assms(5) suff s no_breach [of _ legs]
    by (auto simp: execute_fok_request_def sell_leg_def selling_prices Let_def)
  moreover have "leg_of (sell_leg 0 q) r \<and> me_position en' = leg_move r (me_position en)"
    using fok_leg [OF assms(5)] small by (simp add: sell_leg_def)
  ultimately show ?thesis using books by (simp add: leg_of_def leg_move_def sell_leg_def)
qed

lemma sell_latency:
  "group_latency_ns selling_backtest grp en = (e, l) \<Longrightarrow> me_books e = me_books en \<and> me_position e = me_position en"
  using aside_market [OF aside_drawn(3)] position_drawn(3) unfolding group_latency_ns_def by blast

lemma sells_complete:
  assumes "nine_bidder b"
  shows "me_books en = [b] \<Longrightarrow> list_all (\<lambda>q. 0 < q \<and> q \<le> 9) qs \<Longrightarrow>
    execute_legs selling_backtest (sell_group legs) (map (sell_leg 0) qs) reports t en = (en', reports', fin) \<Longrightarrow> fin"
proof (induction qs arbitrary: en reports t)
  case (Cons q qs)
  obtain e1 l where l: "group_latency_ns selling_backtest (sell_group legs) en = (e1, l)" by fastforce
  obtain e2 r where r: "execute_fok_request selling_backtest (sell_leg 0 q) (sell_group legs) (t + l) e1 = (e2, r)" by fastforce
  have e1: "me_books e1 = [b]" using sell_latency [OF l] Cons.prems(1) by simp
  note filled = sell_leg_filled [OF assms e1 _ _ r]
  show ?case
    using Cons.IH [of e2 "reports @ [r]" "t + l"] Cons.prems l r filled by (auto simp: Let_def)
qed simp

theorem completed_groups_fill_every_leg_witness:
  "\<exists>b trades. process_order nine_bid (new_book fixed_config) = Some (b, trades)
    \<and> me_position (fst (execute_pending_group selling_backtest (sell_group (map (sell_leg 0) [2, 3, 1])) 10 (selling_engine b))) = [- 6]"
proof (rule nine_ladder)
  fix b trades assume b: "process_order nine_bid (new_book fixed_config) = Some (b, trades)" "book_inv fixed_config b"
    "ladder b = (\<lambda>s. [])(Buy := [(100, [(fixed_order 1 Buy 100 9 0 GTC, 9)])])"
  let ?g = "sell_group (map (sell_leg 0) [2, 3, 1])"
  have nine: "nine_bidder b" using b by (simp add: nine_bidder_def)
  obtain en r where x: "execute_pending_group selling_backtest ?g 10 (selling_engine b) = (en, r)" by fastforce
  obtain e reports fin where y: "execute_legs selling_backtest ?g (map (sell_leg 0) [2, 3, 1]) [] 10 (selling_engine b) = (e, reports, fin)"
    by (metis prod_cases3)
  have "fin" by (rule sells_complete [OF nine _ _ y]) simp_all
  then have "gr_completed r" using x y by (auto simp: execute_pending_group_def sell_group_def)
  moreover have "list_all small_leg (og_legs ?g)" "length (og_legs ?g) = order_group_leg_count"
    by (simp_all add: sell_group_def small_leg_def sell_leg_def order_group_leg_count_def)
  ultimately have "me_position en = [- 6]"
    using completed_groups_fill_every_leg [OF x] by (simp add: sell_group_def sell_leg_def move_by_def signed_quantity_def)
  then show ?thesis using b(1) x by auto
qed

theorem failed_groups_stay_short_witness:
  "\<exists>b trades. process_order nine_bid (new_book fixed_config) = Some (b, trades)
    \<and> me_position (fst (execute_pending_group selling_backtest (sell_group [sell_leg 0 5, sell_leg 9 4]) 10 (selling_engine b))) = [- 5]"
proof (rule nine_ladder)
  fix b trades assume b: "process_order nine_bid (new_book fixed_config) = Some (b, trades)" "book_inv fixed_config b"
    "ladder b = (\<lambda>s. [])(Buy := [(100, [(fixed_order 1 Buy 100 9 0 GTC, 9)])])"
  let ?g = "sell_group [sell_leg 0 5, sell_leg 9 4]"
  have nine: "nine_bidder b" using b by (simp add: nine_bidder_def)
  obtain e1 l where l: "group_latency_ns selling_backtest ?g (selling_engine b) = (e1, l)" by fastforce
  obtain e2 r1 where r1: "execute_fok_request selling_backtest (sell_leg 0 5) ?g (10 + l) e1 = (e2, r1)" by fastforce
  obtain e3 m where m: "group_latency_ns selling_backtest ?g e2 = (e3, m)" by fastforce
  have e1: "me_books e1 = [b]" using sell_latency [OF l] by simp
  have filled: "xr_fully_filled r1" "\<not> xr_slippage_breached r1" "xr_asset_id r1 = 0" "xr_filled_quantity r1 = 5"
    using sell_leg_filled [OF nine e1 _ _ r1] by simp_all
  have failed: "execute_fok_request selling_backtest (sell_leg 9 4) ?g t e3 = (e3, asked_report (sell_leg 9 4))" for t
    by (simp add: execute_fok_request_def sell_leg_def)
  have no_fill: "\<not> xr_fully_filled (asked_report (sell_leg 9 4))" "xr_filled_quantity (asked_report (sell_leg 9 4)) = 0"
    by (simp_all add: asked_report_def no_leg_report_def)
  obtain en r where x: "execute_pending_group selling_backtest ?g 10 (selling_engine b) = (en, r)" by fastforce
  have legs: "og_legs ?g = [sell_leg 0 5, sell_leg 9 4]" by (simp add: sell_group_def)
  have "execute_legs selling_backtest ?g [sell_leg 0 5, sell_leg 9 4] [] 10 (selling_engine b)
      = (panic_close_group selling_backtest [r1, asked_report (sell_leg 9 4)] (10 + l + m) e3,
         [r1, asked_report (sell_leg 9 4)], False)"
    using l r1 m failed filled(1,2) no_fill(1) by (simp add: Let_def)
  then have r: "\<not> gr_completed r" "gr_reports r = [r1, asked_report (sell_leg 9 4), no_leg_report]"
    using x by (auto simp: execute_pending_group_def legs order_group_leg_count_def simp del: panic_close_group.simps)
  have "max_beyond_ticks (mb_fp selling_backtest)"
    by (simp add: max_beyond_ticks_def selling_backtest_def i64_max_def)
  moreover have "list_all asks_positive (me_books (selling_engine b))"
    using b(2,3) by (simp add: asks_positive_def)
  moreover have "list_all small_leg (og_legs ?g)" "list_all (\<lambda>l. lr_side l = Sell) (og_legs ?g)"
    unfolding legs by (simp_all add: small_leg_def sell_leg_def)
  ultimately have "me_position en = [- 5]"
    using failed_groups_stay_short [OF x r(1)] filled no_fill
    by (simp add: r(2) move_by_def signed_quantity_def no_leg_report_def)
  then show ?thesis using b(1) x by auto
qed

end
