(* ===== verification/Spec2Isabelle.thy ===== *)
theory Spec2Isabelle
  imports BookProperties AccountStore EventScheduler LatencyModel MarketRegistry EngineFindings L2BookProperties WalletProperties PendingHeapProperties VenueReplay GraphProperties CsvProperties EventMerger PolymarketBook FileReplay L2Findings MultiGroups
begin

text \<open>
  YABE, an event-driven trading simulator in C++ (\<open>src/include/lob\<close>, \<open>src/src\<close>), in two
  halves. The simulator (\<open>include/lob/sim\<close>) runs agents against matching books: an
  agent submits an order through its context, the engine checks it, reserves its funds,
  and schedules its arrival after a latency; \<open>run_until\<close> takes the events in order,
  matches arriving orders, moves the funds of every fill between the accounts, and
  schedules market data for the subscribers. The backtests (\<open>include/lob\<close>) replay
  recorded data: files of orders or of aggregated levels are read, validated and merged
  by time, and strategies trade against aggregated books with a wallet of their own.

  Which theory models what, in the order the code composes the parts.

  \<^item> \<open>Prelude\<close>: the widths of the integers that wrap, lists updated by index, positions
    modulo the length of a table, \<open>std::lower_bound\<close>. \<open>BinaryHeap\<close>: the order of a heap in
    an array, with the locale \<open>min_queue\<close> of the queues that pop a smallest element.

  \<^item> \<open>SimTypes\<close>: \<open>order.hpp\<close>, \<open>sim/types.hpp\<close>, \<open>sim/order_request.hpp\<close>.

  \<^item> The matching book, \<open>sim/matching_book.hpp\<close>. \<open>RobinHood\<close> and \<open>RobinHoodIndex\<close>: the hash
    index of the order ids and of the prices, a bounded map (locale \<open>robin_hood\<close>).
    \<open>MatchingBook\<close>: the book itself, slots and levels in arrays with free lists, linked by
    indices, in its two variants: shallow (levels scanned) and deep (levels indexed).
    \<open>IndexedPool\<close>, \<open>SlotQueue\<close>, \<open>BookInvariant\<close>, \<open>BookLevels\<close>, \<open>BookUnlink\<close>, \<open>BookRest\<close>,
    \<open>BookLadder\<close>, \<open>BookFill\<close>: the invariant of that representation, kept by every operation,
    and its abstract view, two ladders of levels with their queues. \<open>BookSpec\<close>: price-time
    priority over ladders. \<open>BookRefinement\<close>, \<open>SpecProperties\<close>, \<open>BookTraces\<close>,
    \<open>BookProperties\<close>: the code's book answers as the specification does, for any sequence of
    calls (C1-C7).

  \<^item> \<open>AccountStore\<close>: \<open>sim/account_store.hpp\<close> (C8). \<open>EventScheduler\<close>:
    \<open>sim/event_scheduler.hpp\<close>, a stable queue by time, phase and sequence number (C9, C10).
    \<open>LatencyModel\<close>: \<open>sim/latency_model.hpp\<close>, the range of its draws and the permutation of
    its generator's states. \<open>MarketRegistry\<close>: \<open>sim/market_registry.hpp\<close>,
    \<open>sim/market_state.hpp\<close>.

  \<^item> The engine, \<open>sim/simulation_engine.hpp\<close>, \<open>sim/agent_context.hpp\<close>, \<open>sim/market_agent.hpp\<close>.
    \<open>EngineState\<close>: its members and configuration. \<open>EngineGateway\<close>: fees, reservations,
    submitting and cancelling, the agents' context. \<open>EngineEvents\<close>: the accounting of fills,
    the handlers, \<open>run_until\<close>. \<open>EngineFunds\<close>, \<open>EngineAmounts\<close>, \<open>EngineOrders\<close>,
    \<open>EngineFills\<close>, \<open>EngineAgents\<close>, \<open>EngineBooks\<close>, \<open>EngineSettlement\<close>, \<open>EngineHandlers\<close>,
    \<open>EngineSetup\<close>: the ledger that ties reservations, balances, scheduled arrivals and resting
    orders together, kept by every call and handler. \<open>EngineAudit\<close>, \<open>EngineRuns\<close>,
    \<open>EngineTermination\<close>, \<open>EngineProperties\<close>, \<open>EngineFindings\<close>: what follows for clients
    (C11-C19).

  \<^item> The backtests' parts. \<open>StaticVector\<close>, \<open>L2Book\<close>, \<open>L2BookOrder\<close>, \<open>L2BookProperties\<close>:
    \<open>l2_order_book.hpp\<close>, refined to maps from prices to quantities (C20, C21). \<open>Wallet\<close>,
    \<open>WalletProperties\<close>: \<open>wallet.hpp\<close> (C22-C24). \<open>PendingHeaps\<close>, \<open>PendingHeapProperties\<close>:
    \<open>indexed_pending_min_heap.hpp\<close> and the heap of \<open>graph_arbitrage_engine.hpp\<close> (C25).
    \<open>VenueReplay\<close>: \<open>venue_replay.hpp\<close> (C26). \<open>LookupPolicy\<close>, \<open>GraphArbitrage\<close>,
    \<open>GraphProperties\<close>: \<open>lookup_policy.hpp\<close> (locale \<open>lookup_policy\<close>, interpreted for the dense
    and the sparse policy) and the search for cycles of \<open>graph_arbitrage_engine.hpp\<close> (C27,
    C28). \<open>CsvParser\<close>, \<open>CsvProperties\<close>: \<open>src/csv_parser.cpp\<close> (C29). \<open>EventMerger\<close>:
    \<open>event_merger.hpp\<close> (C30). \<open>PolymarketBook\<close>: \<open>PolymarketOrderBook.hpp\<close>,
    \<open>PolymarketTypes.hpp\<close>, \<open>PolymarketFeedAdapter.hpp\<close>, refined to a map of quantities per
    book and side (C31).

  \<^item> The backtest of recorded orders. \<open>FixedBook\<close>: \<open>fixed_matching_book.hpp\<close>, the matching
    book in whole ticks with its reading of doubles (C32). \<open>BacktestEngine\<close>:
    \<open>backtest_engine.hpp\<close>, \<open>src/backtest_engine.cpp\<close> with \<open>order_gateway.hpp\<close>; a strategy is
    one tree of gateway calls for each callback. \<open>BacktestFills\<close>: what every fill respects.
    \<open>BacktestRuns\<close>: its loops return. \<open>FileReplay\<close>: \<open>process_file\<close>, \<open>replay_file\<close> and the
    backtest of a file, which compose parser, book and engine (C33). \<open>BacktestQueue\<close>:
    the queue ahead of an order is read at another price than its own (C34).

  \<^item> The backtest of recorded levels. \<open>L2Backtest\<close>: \<open>l2_backtest_engine.hpp\<close>,
    \<open>src/l2_backtest_engine.cpp\<close>, \<open>l2_strategy.hpp\<close>. \<open>L2BacktestRuns\<close>: its loops return, and
    its book is that of the data (C35). \<open>L2Findings\<close>: a sweep goes on with another order once
    its own is erased, shown on two runs.

  \<^item> The backtest over several books. \<open>MultiBacktest\<close>: \<open>multi_asset_backtest_engine.hpp\<close> with
    the order groups of \<open>oms.hpp\<close>, on the merger, the fixed books, the wallet and the heaps
    above. \<open>MultiRuns\<close>: its loops return, every book is that of its own stream, and orders
    that rest are never filled (C36, C40). \<open>MultiGroups\<close>: takers and legs are filled whole
    or not at all, completed groups have all their legs, failed ones stay short (C37-C39).

  Conventions. A class is a record of its members, an array with its count the list of its
  filled entries, a pointer into an array its index, \<open>npos\<close> the value \<^const>\<open>None\<close>. Integers
  that wrap in the code are words of their width; signed 64-bit amounts are integers with
  every overflow check of the code written out. A boolean or status result is returned
  beside the new state; a C++ exception is the left side of a sum. Template parameters are
  records of configuration (\<open>book_config\<close>, \<open>account_config\<close>, \<open>simulation\<close>). Code called
  through virtual functions, floating point arithmetic and transcendental functions
  are arguments of the definitions that use them.

  Bounds and fuel. Order ids and sequence numbers are 64-bit counters; properties of runs
  assume fewer than \<open>2 ^ 64\<close> accepted orders or pushes, which no run reaches. The totals of
  a shallow book (at most 32 levels) wrap unguarded, as \<open>shallow_book_total_wraps\<close> shows. The properties
  of its submits (C1-C4, C6) need the submitted quantities to sum to less than \<open>2 ^ 64\<close>; those of the
  engine (C11-C19) hold for books of either variant, with the condition \<open>totals_fit\<close> at every event that
  is handled: the orders that rest at one price of a shallow book sum to less than \<open>2 ^ 64\<close>. Deep books
  meet it always, and shallow ones whenever no resting order has more than \<open>2 ^ 48\<close> lots, as
  \<open>small_orders_fit\<close> shows. \<open>sim_ok\<close> asks of a simulation what the static assertions of its
  parameters and the widths of market and asset ids ask. The order index of a book may be smaller than its slots: the
  book then rests at most as many orders as the index holds.

  \<open>run_until\<close> is a loop that agents can keep alive for ever: it is a partial function. C13
  ties its result to single events, and C14 proves that it returns when the agents only
  read. The release of pending commands, the equity samples and the replay of the backtest
  engines are partial functions too: C33, C35 and C36 prove that they return when the strategy does
  not answer fills, in C33 also when latencies are positive, and the times of the samples do not wrap;
  with no latency a strategy that answers every fill with a crossing order can run for ever. C40 is about
  every run that returns. The merger's client loop has the number of events as fuel,
  and C30 shows it ends within it. All other loops are total functions.

  Inputs left out. C33: files with an order id of \<open>2 ^ 63\<close> or more, the range of the
  engine's own ids. C36: with up to four streams, an event at time \<open>2 ^ 64 - 1\<close>, on which the merger
  throws. C37-C39: single orders and legs of \<open>2 ^ 63\<close> lots or more, whose sign flips when cast. The position of a
  backtest, a signed 64-bit number in the code, is an integer here, and so are the notional
  totals of the level books, signed 128-bit numbers in the code.

  Not modelled: input and output (opening and mapping files, the logger thread, the trace
  log, the Python bindings, the command line), the statistics over doubles for reports, the
  pricing and execution of the graph engine, which decide by floating-point arithmetic over
  several books, the readers of the other file formats, whose numbers are sums and quotients
  of doubles, the trading rules of the strategies and of the reference agents, and
  the vendored build tree, which is not part of the program.
\<close>

end
